(* ===== verification/Prelude.thy ===== *)
theory Prelude
  imports Main "HOL-Library.Word" "HOL-Library.Monad_Syntax"
begin

text \<open>
  What every component of the kernel model shares: the machine types of \<open>lib/std.h\<close>, the
  representation of a failed \<open>assert\<close> or \<open>panic\<close>, byte memory seen through a pointer,
  and the generic lemmas on natural numbers, bits and lists that the component proofs use.

  A computation that can run into an \<open>assert\<close> or a \<open>panic\<close> of the source has a result
  of type \<open>'a option\<close>, where \<open>None\<close> stands for \<open>printAndHalt\<close>
  (\<open>kernel/kernel.h\<close>). A C \<open>NULL\<close> result is a value of an inner option, never that
  \<open>None\<close>. So \<open>\<exists>r. f x = Some r\<close> says that no assertion fails.
\<close>

unbundle bit_operations_syntax

type_synonym u8 = "8 word"
type_synonym u16 = "16 word"
type_synonym u32 = "32 word"
type_synonym u64 = "64 word"

text \<open>The bytes a pointer gives access to: byte \<open>i\<close> behind the pointer.\<close>

type_synonym bytes = "nat \<Rightarrow> u8"

named_theorems inv_defs "definitions of the component invariants"
named_theorems model_defs "definitions that a proof about an operation unfolds"

subsection \<open>Assertions\<close>

definition kassert :: "bool \<Rightarrow> unit option" where
  "kassert b = (if b then Some () else None)"

lemma kassert_simps [simp]:
  "kassert True = Some ()"
  "kassert False = None"
  by (simp_all add: kassert_def)

lemma kassert_eq_Some [simp]: "kassert b = Some u \<longleftrightarrow> b"
  by (simp add: kassert_def)

subsection \<open>Pointers into byte memory\<close>

definition shift :: "nat \<Rightarrow> bytes \<Rightarrow> bytes" where
  "shift k s = (\<lambda>i. s (k + i))"

definition cstr :: "u8 list \<Rightarrow> bytes" where
  "cstr xs = (\<lambda>i. if i < length xs then xs ! i else 0)"

definition view :: "bytes \<Rightarrow> nat \<Rightarrow> nat \<Rightarrow> u8 list" where
  "view s i j = map s [i..<j]"

lemma shift_apply [simp]: "shift k s i = s (k + i)"
  by (simp add: shift_def)

lemma shift_shift [simp]: "shift j (shift k s) = shift (k + j) s"
  by (simp add: shift_def add.assoc)

lemma length_view [simp]: "length (view s i j) = j - i"
  by (simp add: view_def)

lemma nth_view [simp]: "k < j - i \<Longrightarrow> view s i j ! k = s (i + k)"
  by (simp add: view_def)

lemma view_Nil [simp]: "j \<le> i \<Longrightarrow> view s i j = []"
  by (simp add: view_def)

lemma view_Cons: "i < j \<Longrightarrow> view s i j = s i # view s (Suc i) j"
  by (simp add: view_def upt_conv_Cons)

lemma view_snoc: "i < j \<Longrightarrow> view s i j = view s i (j - 1) @ [s (j - 1)]"
  by (cases j) (simp_all add: view_def)

lemma view_append: "i \<le> k \<Longrightarrow> k \<le> j \<Longrightarrow> view s i k @ view s k j = view s i j"
  unfolding view_def by (metis le_Suc_ex map_append upt_add_eq_append)

lemma view_shift: "view (shift k s) i j = view s (k + i) (k + j)"
  by (rule nth_equalityI) (simp_all add: add.assoc)

lemma set_view: "set (view s i j) = s ` {i..<j}"
  by (simp add: view_def)

lemma view_eq_iff: "view s i (i + n) = view t j (j + n) \<longleftrightarrow> (\<forall>k<n. s (i + k) = t (j + k))"
  by (auto simp: list_eq_iff_nth_eq)

lemma view_cstr [simp]: "view (cstr xs) 0 (length xs) = xs"
  by (rule nth_equalityI) (simp_all add: cstr_def)

subsection \<open>Arithmetic of the C macros in lib/common.h\<close>

definition DIV_CEIL :: "nat \<Rightarrow> nat \<Rightarrow> nat" where
  "DIV_CEIL a b = (a + b - 1) div b"

definition FLOOR :: "nat \<Rightarrow> nat \<Rightarrow> nat" where
  "FLOOR a b = (a div b) * b"

definition CEIL :: "nat \<Rightarrow> nat \<Rightarrow> nat" where
  "CEIL a b = FLOOR (a + (b - 1)) b"

lemma CEIL_dvd [simp]: "b dvd CEIL a b"
  by (simp add: CEIL_def FLOOR_def)

lemma CEIL_ge: "0 < b \<Longrightarrow> a \<le> CEIL a b"
proof -
  assume b: "0 < b"
  have "(a + (b - 1)) mod b < b" using b by (rule mod_less_divisor)
  moreover have "(a + (b - 1)) div b * b + (a + (b - 1)) mod b = a + (b - 1)" by simp
  ultimately show ?thesis unfolding CEIL_def FLOOR_def using b by linarith
qed

lemma CEIL_less: "0 < b \<Longrightarrow> CEIL a b < a + b"
proof -
  assume b: "0 < b"
  have "CEIL a b \<le> a + (b - 1)" by (simp add: CEIL_def FLOOR_def)
  with b show ?thesis by simp
qed

lemma DIV_CEIL_mult_ge: "0 < b \<Longrightarrow> a \<le> DIV_CEIL a b * b"
  using CEIL_ge [of b a] by (simp add: CEIL_def FLOOR_def DIV_CEIL_def)

lemma DIV_CEIL_le: "0 < b \<Longrightarrow> a \<le> k * b \<Longrightarrow> DIV_CEIL a b \<le> k"
proof -
  assume b: "0 < b" and a: "a \<le> k * b"
  from a b have "a + b - 1 < Suc k * b" by simp
  then show ?thesis
    unfolding DIV_CEIL_def by (metis less_Suc_eq_le less_mult_imp_div_less)
qed

lemma DIV_CEIL_pos: "0 < b \<Longrightarrow> 0 < a \<Longrightarrow> 0 < DIV_CEIL a b"
  by (simp add: DIV_CEIL_def div_greater_zero_iff)

lemma less_DIV_CEIL_iff: "0 < b \<Longrightarrow> j < DIV_CEIL a b \<longleftrightarrow> j * b < a"
proof -
  assume b: "0 < b"
  have "DIV_CEIL a b \<le> j \<longleftrightarrow> a \<le> j * b"
  proof
    assume "DIV_CEIL a b \<le> j"
    then have "DIV_CEIL a b * b \<le> j * b" by (rule mult_le_mono1)
    then show "a \<le> j * b" using DIV_CEIL_mult_ge [OF b, of a] by (rule order_trans [rotated])
  qed (rule DIV_CEIL_le [OF b])
  then show ?thesis by linarith
qed

lemma mod_less_inj:
  assumes "(b + i) mod n = (b + j) mod n" and "i < n" and "j < n"
  shows "i = (j::nat)"
proof -
  have "\<not> (i < j \<and> j < n)" if "(b + i) mod n = (b + j) mod n" for i j
  proof
    assume ij: "i < j \<and> j < n"
    have "n dvd (b + j) - (b + i)" using that by (metis mod_eq_dvd_iff_nat ij less_imp_le_nat nat_add_left_cancel_le)
    then have "n dvd j - i" by simp
    then show False using ij by (metis dvd_imp_le less_imp_diff_less not_le zero_less_diff)
  qed
  from this [OF assms(1)] this [OF assms(1) [symmetric]] show ?thesis using assms(2,3) by linarith
qed

subsection \<open>Lists\<close>

lemma distinct_nth_not_last:
  assumes "distinct ts" "Suc i < length ts"
  shows "ts ! i \<noteq> last ts"
proof -
  have "ts \<noteq> []" using assms(2) by auto
  then show ?thesis using assms by (auto simp: last_conv_nth nth_eq_iff_index_eq)
qed

lemma distinct_nth_not_hd: "distinct ts \<Longrightarrow> Suc i < length ts \<Longrightarrow> ts ! Suc i \<noteq> hd ts"
  by (cases ts) auto

lemma unat_of_nat_small: "n < 2 ^ LENGTH('a) \<Longrightarrow> unat (of_nat n :: 'a::len word) = n"
  using unsigned_of_nat [of n, where 'a = nat and 'b = 'a] by (simp add: take_bit_nat_eq_self)

end
