(* ===== verification/DQueue.thy ===== *)
theory DQueue
  imports Prelude
begin

text \<open>
  The intrusive queues of \<open>lib/common.h\<close> at pointer level. Every element has a \<open>next\<close>
  pointer and a \<open>prev\<close> pointer; \<open>prev\<close> points to the pointer variable that points to the
  element: the head variable of a list, or the \<open>next\<close> field of the element before it.
  \<open>ADD_TO_DQUEUE(E, P)\<close> links \<open>E\<close> in at the pointer variable \<open>P\<close>,
  \<open>REMOVE_FROM_DQUEUE(E)\<close> needs no list head. The refinement theorems show that the macros
  implement insertion into and removal from lists, for any number of lists that share the
  elements. The other theories of the development represent such queues by these lists.
\<close>

datatype ('h, 'e) link = HeadOf 'h | NextOf 'e

record ('h, 'e) dheap =
  heads :: "'h \<Rightarrow> 'e option"
  nxt :: "'e \<Rightarrow> 'e option"
  prv :: "'e \<Rightarrow> ('h, 'e) link option"

fun deref :: "('h, 'e) dheap \<Rightarrow> ('h, 'e) link \<Rightarrow> 'e option" where
  "deref d (HeadOf h) = heads d h"
| "deref d (NextOf e) = nxt d e"

fun assign :: "('h, 'e) link \<Rightarrow> 'e option \<Rightarrow> ('h, 'e) dheap \<Rightarrow> ('h, 'e) dheap" where
  "assign (HeadOf h) v d = d\<lparr>heads := (heads d)(h := v)\<rparr>"
| "assign (NextOf e) v d = d\<lparr>nxt := (nxt d)(e := v)\<rparr>"

definition IS_IN_DQUEUE :: "'e \<Rightarrow> ('h, 'e) dheap \<Rightarrow> bool" where
  "IS_IN_DQUEUE e d = (prv d e \<noteq> None)"

text \<open>Following the null pointer \<open>E->prev\<close> of an element that is in no queue is \<open>None\<close>.\<close>

definition REMOVE_FROM_DQUEUE :: "'e \<Rightarrow> ('h, 'e) dheap \<Rightarrow> ('h, 'e) dheap option" where
  "REMOVE_FROM_DQUEUE e d =
     (case prv d e of
        None \<Rightarrow> None
      | Some p \<Rightarrow>
          let d1 = assign p (nxt d e) d;
              d2 = (case nxt d1 e of
                      None \<Rightarrow> d1
                    | Some n \<Rightarrow> d1\<lparr>prv := (prv d1)(n := prv d1 e), nxt := (nxt d1)(e := None)\<rparr>)
          in Some (d2\<lparr>prv := (prv d2)(e := None)\<rparr>))"

definition ADD_TO_DQUEUE :: "'e \<Rightarrow> ('h, 'e) link \<Rightarrow> ('h, 'e) dheap \<Rightarrow> ('h, 'e) dheap" where
  "ADD_TO_DQUEUE e p d =
     (let d1 = d\<lparr>prv := (prv d)(e := Some p)\<rparr>;
          d2 = d1\<lparr>nxt := (nxt d1)(e := deref d1 p)\<rparr>;
          d3 = (case nxt d2 e of
                  None \<Rightarrow> d2
                | Some n \<Rightarrow> d2\<lparr>prv := (prv d2)(n := Some (NextOf e))\<rparr>)
      in assign p (Some e) d3)"

text \<open>\<open>seg d p xs\<close>: from the pointer variable \<open>p\<close> the list \<open>xs\<close> is linked, with every
  \<open>prev\<close> pointing back. \<open>represents d Q\<close>: the head variable \<open>h\<close> carries the list \<open>Q h\<close>,
  no element is in two places, and \<open>prev\<close> is null exactly outside the queues.\<close>

fun seg :: "('h, 'e) dheap \<Rightarrow> ('h, 'e) link \<Rightarrow> 'e list \<Rightarrow> bool" where
  "seg d p [] = (deref d p = None)"
| "seg d p (x # xs) = (deref d p = Some x \<and> prv d x = Some p \<and> seg d (NextOf x) xs)"

definition represents :: "('h, 'e) dheap \<Rightarrow> ('h \<Rightarrow> 'e list) \<Rightarrow> bool" where
  "represents d Q \<longleftrightarrow>
     (\<forall>h. seg d (HeadOf h) (Q h) \<and> distinct (Q h)) \<and>
     (\<forall>h h' e. e \<in> set (Q h) \<longrightarrow> e \<in> set (Q h') \<longrightarrow> h = h') \<and>
     (\<forall>e. prv d e \<noteq> None \<longleftrightarrow> (\<exists>h. e \<in> set (Q h)))"

text \<open>The pointer variable at which a new element is linked in behind the elements \<open>us\<close>.\<close>

definition end_link :: "'h \<Rightarrow> 'e list \<Rightarrow> ('h, 'e) link" where
  "end_link h us = (if us = [] then HeadOf h else NextOf (last us))"

subsection \<open>Segments of a heap\<close>

lemma deref_assign [simp]: "deref (assign p v d) q = (if p = q then v else deref d q)"
  by (cases p; cases q) auto

lemma prv_assign [simp]: "prv (assign p v d) = prv d"
  by (cases p) auto

lemma deref_prv [simp]: "deref (d\<lparr>prv := f\<rparr>) p = deref d p"
  by (cases p) auto

lemma deref_cases: "deref d p = (case p of HeadOf h \<Rightarrow> heads d h | NextOf e \<Rightarrow> nxt d e)"
  by (cases p) auto

lemma seg_cong:
  assumes "seg d p xs" and "deref d' p = deref d p"
    and "\<And>x. x \<in> set xs \<Longrightarrow> deref d' (NextOf x) = deref d (NextOf x)"
    and "\<And>x. x \<in> set xs \<Longrightarrow> prv d' x = prv d x"
  shows "seg d' p xs"
  using assms by (induction xs arbitrary: p) auto

text \<open>The part of a list in front of the link \<open>q\<close>.\<close>

fun path :: "('h, 'e) dheap \<Rightarrow> ('h, 'e) link \<Rightarrow> 'e list \<Rightarrow> ('h, 'e) link \<Rightarrow> bool" where
  "path d p [] q = (p = q)"
| "path d p (x # xs) q = (deref d p = Some x \<and> prv d x = Some p \<and> path d (NextOf x) xs q)"

lemma seg_append: "seg d p (us @ vs) \<longleftrightarrow> (\<exists>q. path d p us q \<and> seg d q vs)"
  by (induction us arbitrary: p) auto

lemma path_end: "path d p us q \<Longrightarrow> q = (if us = [] then p else NextOf (last us))"
  by (induction us arbitrary: p) auto

lemma path_cong:
  assumes "path d p us q" and "us \<noteq> [] \<Longrightarrow> deref d' p = deref d p"
    and "\<And>x. x \<in> set (butlast us) \<Longrightarrow> deref d' (NextOf x) = deref d (NextOf x)"
    and "\<And>x. x \<in> set us \<Longrightarrow> prv d' x = prv d x"
  shows "path d' p us q"
  using assms
proof (induction us arbitrary: p)
  case Nil
  then show ?case by simp
next
  case (Cons a us)
  have "path d' (NextOf a) us q"
  proof (rule Cons.IH)
    show "path d (NextOf a) us q" using Cons.prems(1) by simp
    show "deref d' (NextOf a) = deref d (NextOf a)" if "us \<noteq> []" using Cons.prems(3) that by simp
    show "deref d' (NextOf x) = deref d (NextOf x)" if "x \<in> set (butlast us)" for x
      using Cons.prems(3) [of x] that by (cases "us = []") auto
    show "prv d' x = prv d x" if "x \<in> set us" for x using Cons.prems(4) that by simp
  qed
  with Cons.prems show ?case by auto
qed

lemma path_end_link: "path d (HeadOf h) us q \<Longrightarrow> q = end_link h us"
  by (auto simp: end_link_def dest: path_end)

lemma end_link_neq: "e \<notin> set us \<Longrightarrow> end_link h us \<noteq> NextOf e"
  by (auto simp: end_link_def)

lemma end_link_inner:
  "distinct us \<Longrightarrow> x \<in> set (butlast us) \<Longrightarrow> NextOf x \<noteq> end_link h us"
  by (auto simp: end_link_def) (metis append_butlast_last_id butlast.simps(1) disjoint_iff distinct_append empty_iff last_in_set list.set(1) list.set_intros(1))

subsection \<open>What the two macros do to the pointers\<close>

lemma REMOVE_effect:
  assumes "prv d x = Some q" and "q \<noteq> NextOf x" and "nxt d x \<noteq> Some x"
  obtains d' where "REMOVE_FROM_DQUEUE x d = Some d'"
    and "\<And>l. deref d' l = (if l = q then nxt d x else if l = NextOf x then None else deref d l)"
    and "\<And>e. prv d' e = (if e = x then None else if nxt d x = Some e then Some q else prv d e)"
proof -
  have nx: "nxt (assign q v d) x = nxt d x" for v using assms(2) by (cases q) auto
  show ?thesis
  proof (cases "nxt d x")
    case None
    show ?thesis
      by (rule that [of "(assign q None d)\<lparr>prv := (prv d)(x := None)\<rparr>"])
        (use assms None nx in \<open>auto simp: REMOVE_FROM_DQUEUE_def deref_cases split: link.split\<close>)
  next
    case (Some n)
    let ?d1 = "assign q (Some n) d"
    show ?thesis
      by (rule that [of "?d1\<lparr>prv := ((prv d)(n := Some q))(x := None), nxt := (nxt ?d1)(x := None)\<rparr>"])
        (use assms Some nx in \<open>(cases q; auto simp: REMOVE_FROM_DQUEUE_def deref_cases split: link.split)+\<close>)
  qed
qed

lemma ADD_effect:
  assumes "q \<noteq> NextOf e" and "deref d q \<noteq> Some e"
  shows "deref (ADD_TO_DQUEUE e q d) l =
      (if l = q then Some e else if l = NextOf e then deref d q else deref d l)"
    and "prv (ADD_TO_DQUEUE e q d) y =
      (if y = e then Some q else if deref d q = Some y then Some (NextOf e) else prv d y)"
  using assms by (cases q; cases l; auto simp: ADD_TO_DQUEUE_def Let_def split: option.split)+

declare deref.simps [simp del]

lemma representsD:
  assumes "represents d Q"
  shows "seg d (HeadOf h) (Q h)" and "distinct (Q h)"
    and "e \<in> set (Q h) \<Longrightarrow> e \<in> set (Q h') \<Longrightarrow> h = h'"
    and "prv d e \<noteq> None \<longleftrightarrow> (\<exists>h. e \<in> set (Q h))"
  using assms by (auto simp: represents_def)

lemma in_some_queue_upd:
  "(\<exists>k. e \<in> set ((Q(h := ys)) k)) \<longleftrightarrow> e \<in> set ys \<or> (\<exists>k. k \<noteq> h \<and> e \<in> set (Q k))"
  by (metis fun_upd_apply)

lemma in_some_queue: "(\<exists>k. e \<in> set (Q k)) \<longleftrightarrow> e \<in> set (Q h) \<or> (\<exists>k. k \<noteq> h \<and> e \<in> set (Q k))"
  by metis

lemma represents_split:
  assumes "represents d Q" and "Q h = us @ vs"
  obtains q where "path d (HeadOf h) us q" and "seg d q vs" and "q = end_link h us"
  using representsD(1) [OF assms(1), of h] assms(2) path_end_link by (force simp: seg_append)

lemma other_queue_links:
  assumes "represents d Q" and "Q h = us @ vs" and "h' \<noteq> h"
  shows "end_link h us \<noteq> HeadOf h'" and "x \<in> set (Q h') \<Longrightarrow> NextOf x \<noteq> end_link h us"
  using representsD(3) [OF assms(1), of x h' h] assms(2,3) by (auto simp: end_link_def)

subsection \<open>Refinement: the macros implement list insertion and removal\<close>

lemma REMOVE_refines:
  assumes "represents d Q" and "x \<in> set (Q h)"
  shows "\<exists>d'. REMOVE_FROM_DQUEUE x d = Some d' \<and> represents d' (Q(h := remove1 x (Q h)))"
proof -
  from assms(2) obtain us vs where Q: "Q h = us @ x # vs" by (meson split_list)
  note R = representsD [OF assms(1)]
  have dist: "distinct (us @ x # vs)" using R(2) [of h] Q by simp
  obtain q where q: "path d (HeadOf h) us q" "seg d q (x # vs)" "q = end_link h us"
    using represents_split [OF assms(1) Q] .
  have x: "prv d x = Some q" "deref d q = Some x" "seg d (NextOf x) vs" using q(2) by simp_all
  have qx: "q \<noteq> NextOf x" using q(3) dist by (simp add: end_link_neq)
  have nx: "nxt d x = (case vs of [] \<Rightarrow> None | v # _ \<Rightarrow> Some v)"
    using x(3) by (cases vs) (auto simp: deref.simps)
  have "nxt d x \<noteq> Some x" using dist nx by (auto split: list.splits)
  from REMOVE_effect [OF x(1) qx this] obtain d' where d': "REMOVE_FROM_DQUEUE x d = Some d'"
    "\<And>l. deref d' l = (if l = q then nxt d x else if l = NextOf x then None else deref d l)"
    "\<And>e. prv d' e = (if e = x then None else if nxt d x = Some e then Some q else prv d e)" by blast
  have rem: "remove1 x (Q h) = us @ vs" using dist Q by (simp add: remove1_append)
  have "path d' (HeadOf h) us q"
  proof (rule path_cong [OF q(1)])
    show "deref d' (HeadOf h) = deref d (HeadOf h)" if "us \<noteq> []"
      using that q(3) by (simp add: d' end_link_def)
    show "deref d' (NextOf y) = deref d (NextOf y)" if "y \<in> set (butlast us)" for y
      using that dist q(3) end_link_inner [of us y h] by (auto simp: d' dest: in_set_butlastD)
    show "prv d' y = prv d y" if "y \<in> set us" for y
      using that dist nx by (auto simp: d' split: list.splits)
  qed
  moreover have "seg d' q vs"
  proof (cases vs)
    case Nil
    then show ?thesis using nx by (simp add: d')
  next
    case (Cons v vs')
    have "NextOf y \<noteq> q" if "y \<in> set vs" for y
    proof -
      have "y \<notin> set us" using that dist by auto
      then show ?thesis unfolding q(3) by (metis end_link_neq)
    qed
    note neq = this
    have "seg d' (NextOf v) vs'"
    proof (rule seg_cong [of d])
      show "seg d (NextOf v) vs'" using x(3) Cons by simp
      show "deref d' (NextOf v) = deref d (NextOf v)" using neq [of v] Cons dist by (auto simp: d')
      fix y assume y: "y \<in> set vs'"
      then have "y \<noteq> x" "y \<noteq> v" using dist Cons by auto
      then show "deref d' (NextOf y) = deref d (NextOf y)" "prv d' y = prv d y"
        using neq [of y] y Cons nx by (simp_all add: d')
    qed
    then show ?thesis using Cons nx dist by (auto simp: d')
  qed
  ultimately have own: "seg d' (HeadOf h) (us @ vs)" by (auto simp: seg_append)
  have others: "seg d' (HeadOf h') (Q h')" if "h' \<noteq> h" for h'
  proof (rule seg_cong [OF R(1)])
    note o = other_queue_links [OF assms(1) Q that]
    show "deref d' (HeadOf h') = deref d (HeadOf h')" using o(1) q(3) by (simp add: d')
    fix y assume y: "y \<in> set (Q h')"
    then have "y \<noteq> x" "nxt d x \<noteq> Some y"
      using R(3) [OF y, of h] Q that nx by (auto split: list.splits)
    then show "deref d' (NextOf y) = deref d (NextOf y)" "prv d' y = prv d y"
      using o(2) [OF y] q(3) by (auto simp: d')
  qed
  have "represents d' (Q(h := us @ vs))"
    unfolding represents_def
  proof (intro conjI allI impI)
    fix k show "seg d' (HeadOf k) ((Q(h := us @ vs)) k)" using own others by simp
    show "distinct ((Q(h := us @ vs)) k)" using R(2) [of k] dist by simp
  next
    fix k k' e assume "e \<in> set ((Q(h := us @ vs)) k)" "e \<in> set ((Q(h := us @ vs)) k')"
    then show "k = k'" using R(3) [of e k k'] Q by (auto split: if_splits)
  next
    fix e
    have "prv d e \<noteq> None \<longleftrightarrow> e \<in> set (Q h) \<or> (\<exists>k. k \<noteq> h \<and> e \<in> set (Q k))"
      unfolding R(4) by (rule in_some_queue)
    moreover have "nxt d x = Some e \<Longrightarrow> e \<in> set vs" using nx by (auto split: list.splits)
    moreover have "x \<in> set (Q k) \<longleftrightarrow> k = h" for k using R(3) [of x k h] assms(2) by auto
    ultimately show "prv d' e \<noteq> None \<longleftrightarrow> (\<exists>k. e \<in> set ((Q(h := us @ vs)) k))"
      unfolding in_some_queue_upd using Q dist by (auto simp: d')
  qed
  with d'(1) rem show ?thesis by auto
qed

lemma ADD_refines:
  assumes "represents d Q" and "Q h = us @ vs" and "\<not> IS_IN_DQUEUE e d"
  shows "represents (ADD_TO_DQUEUE e (end_link h us) d) (Q(h := us @ e # vs))"
proof -
  note R = representsD [OF assms(1)]
  let ?q = "end_link h us"
  let ?d = "ADD_TO_DQUEUE e ?q d"
  obtain q where "path d (HeadOf h) us q" "seg d q vs" "q = ?q"
    using represents_split [OF assms(1,2)] .
  then have q: "path d (HeadOf h) us ?q" "seg d ?q vs" by simp_all
  have new: "e \<notin> set (Q k)" for k using assms(3) R(4) [of e] by (auto simp: IS_IN_DQUEUE_def)
  have eu: "e \<notin> set us" "e \<notin> set vs" using new [of h] assms(2) by auto
  have dist: "distinct us" "set us \<inter> set vs = {}" using R(2) [of h] assms(2) by auto
  have dq: "deref d ?q = (case vs of [] \<Rightarrow> None | v # _ \<Rightarrow> Some v)" using q(2) by (cases vs) auto
  have qe: "?q \<noteq> NextOf e" using end_link_neq [OF eu(1)] .
  have "deref d ?q \<noteq> Some e" using dq eu by (auto split: list.splits)
  note E = ADD_effect [OF qe this]
  have "path ?d (HeadOf h) us ?q"
  proof (rule path_cong [OF q(1)])
    show "deref ?d (HeadOf h) = deref d (HeadOf h)" if "us \<noteq> []"
      unfolding E using that by (simp add: end_link_def)
    show "deref ?d (NextOf y) = deref d (NextOf y)" if "y \<in> set (butlast us)" for y
      unfolding E using that eu end_link_inner [OF dist(1) that, of h] by (auto dest: in_set_butlastD)
    show "prv ?d y = prv d y" if "y \<in> set us" for y
      unfolding E using that eu dist dq by (auto split: list.splits)
  qed
  moreover have "seg ?d ?q (e # vs)"
  proof (cases vs)
    case Nil
    then show ?thesis using dq qe by (simp add: E)
  next
    case (Cons v vs')
    have "NextOf y \<noteq> ?q" if "y \<in> set vs" for y
    proof -
      have "y \<notin> set us" using that dist by auto
      then show ?thesis by (metis end_link_neq)
    qed
    note neq = this
    have "v \<notin> set vs'" using R(2) [of h] assms(2) Cons by simp
    have "seg ?d (NextOf v) vs'"
    proof (rule seg_cong [of d])
      show "seg d (NextOf v) vs'" using q(2) Cons by simp
      show "deref ?d (NextOf v) = deref d (NextOf v)" using neq [of v] Cons eu by (auto simp: E)
      fix y assume y: "y \<in> set vs'"
      then have "y \<noteq> e" "y \<noteq> v" using eu Cons \<open>v \<notin> set vs'\<close> by auto
      then show "deref ?d (NextOf y) = deref d (NextOf y)" "prv ?d y = prv d y"
        using neq [of y] y Cons dq by (simp_all add: E)
    qed
    then show ?thesis using Cons dq eu qe by (auto simp: E)
  qed
  ultimately have own: "seg ?d (HeadOf h) (us @ e # vs)" by (auto simp: seg_append)
  have others: "seg ?d (HeadOf h') (Q h')" if "h' \<noteq> h" for h'
  proof (rule seg_cong [OF R(1)])
    note o = other_queue_links [OF assms(1,2) that]
    show "deref ?d (HeadOf h') = deref d (HeadOf h')" using o(1) by (simp add: E)
    fix y assume y: "y \<in> set (Q h')"
    then have "y \<noteq> e" "deref d ?q \<noteq> Some y"
      using R(3) [OF y, of h] assms(2) that new dq by (auto split: list.splits)
    then show "deref ?d (NextOf y) = deref d (NextOf y)" "prv ?d y = prv d y"
      using o(2) [OF y] by (auto simp: E)
  qed
  show ?thesis
    unfolding represents_def
  proof (intro conjI allI impI)
    fix k show "seg ?d (HeadOf k) ((Q(h := us @ e # vs)) k)" using own others by simp
    show "distinct ((Q(h := us @ e # vs)) k)" using R(2) [of k] assms(2) eu dist by auto
  next
    fix k k' y assume "y \<in> set ((Q(h := us @ e # vs)) k)" "y \<in> set ((Q(h := us @ e # vs)) k')"
    then show "k = k'" using R(3) [of y k k'] assms(2) new by (auto split: if_splits)
  next
    fix y
    have "prv d y \<noteq> None \<longleftrightarrow> y \<in> set (Q h) \<or> (\<exists>k. k \<noteq> h \<and> y \<in> set (Q k))"
      unfolding R(4) by (rule in_some_queue)
    moreover have "deref d ?q = Some y \<Longrightarrow> y \<in> set vs" using dq by (auto split: list.splits)
    ultimately show "prv ?d y \<noteq> None \<longleftrightarrow> (\<exists>k. y \<in> set ((Q(h := us @ e # vs)) k))"
      unfolding in_some_queue_upd using assms(2) by (auto simp: E)
  qed
qed

subsection \<open>The interface the components use\<close>

text \<open>What a client of the queues relies on: an abstraction to lists, under which linking in
  is list insertion and unlinking is list removal.\<close>

locale intrusive_queues =
  fixes rep :: "'s \<Rightarrow> ('h \<Rightarrow> 'e list) \<Rightarrow> bool"
    and member :: "'e \<Rightarrow> 's \<Rightarrow> bool"
    and insert_at :: "'e \<Rightarrow> 'h \<Rightarrow> 'e list \<Rightarrow> 's \<Rightarrow> 's"
    and unlink :: "'e \<Rightarrow> 's \<Rightarrow> 's option"
  assumes member_iff: "rep s Q \<Longrightarrow> member e s \<longleftrightarrow> (\<exists>h. e \<in> set (Q h))"
    and one_place: "rep s Q \<Longrightarrow> e \<in> set (Q h) \<Longrightarrow> e \<in> set (Q h') \<Longrightarrow> h = h'"
    and queue_distinct: "rep s Q \<Longrightarrow> distinct (Q h)"
    and insert_rep: "rep s Q \<Longrightarrow> Q h = us @ vs \<Longrightarrow> \<not> member e s \<Longrightarrow>
      rep (insert_at e h us s) (Q(h := us @ e # vs))"
    and unlink_rep: "rep s Q \<Longrightarrow> e \<in> set (Q h) \<Longrightarrow>
      \<exists>s'. unlink e s = Some s' \<and> rep s' (Q(h := remove1 e (Q h)))"
begin

text \<open>Moving an element between queues, as the slab and timer code do: unlink, then link in
  at the head of another queue.\<close>

lemma move_to_head:
  assumes "rep s Q" and "e \<in> set (Q h)" and "h \<noteq> h'"
  obtains s' where "unlink e s = Some s'"
    and "rep (insert_at e h' [] s') (Q(h := remove1 e (Q h), h' := e # Q h'))"
proof -
  obtain s' where s': "unlink e s = Some s'" "rep s' (Q(h := remove1 e (Q h)))"
    using unlink_rep [OF assms(1,2)] by blast
  have "\<not> member e s'"
  proof
    assume "member e s'"
    then obtain k where "e \<in> set ((Q(h := remove1 e (Q h))) k)" using member_iff [OF s'(2)] by blast
    then show False
      using one_place [OF assms(1,2), of k] queue_distinct [OF assms(1), of h] by (auto split: if_splits)
  qed
  from insert_rep [OF s'(2) _ this, of h' "[]" "Q h'"] assms(3) s'(1) show ?thesis
    using that by auto
qed

text \<open>Appending in front of a sentinel tail, as the TCP and resource code do, is first in,
  first out.\<close>

lemma insert_before_tail:
  assumes "rep s Q" and "Q h = us @ [t]" and "\<not> member e s"
  shows "rep (insert_at e h us s) (Q(h := us @ [e, t]))"
  using insert_rep [OF assms] by simp

end

definition insert_link :: "'e \<Rightarrow> 'h \<Rightarrow> 'e list \<Rightarrow> ('h, 'e) dheap \<Rightarrow> ('h, 'e) dheap" where
  "insert_link e h us d = ADD_TO_DQUEUE e (end_link h us) d"

interpretation dq: intrusive_queues represents IS_IN_DQUEUE insert_link REMOVE_FROM_DQUEUE
proof (unfold_locales, goal_cases)
  case 1
  then show ?case unfolding IS_IN_DQUEUE_def by (rule representsD(4))
next
  case 2
  then show ?case by (rule representsD(3))
next
  case 3
  then show ?case by (rule representsD(2))
next
  case 4
  then show ?case unfolding insert_link_def by (rule ADD_refines)
next
  case 5
  then show ?case by (rule REMOVE_refines)
qed

text \<open>The pointer macros implement list operations. Unlinking an element from any place of
  a queue and linking it in at the head of another one never follows a null pointer, and the
  heap then represents the lists with the element moved, all other queues unchanged.\<close>

lemma dqueue_move_refines:
  assumes "represents d Q" and "e \<in> set (Q h)" and "h \<noteq> h'"
  shows "\<exists>d'. REMOVE_FROM_DQUEUE e d = Some d' \<and>
    represents (ADD_TO_DQUEUE e (HeadOf h') d') (Q(h := remove1 e (Q h), h' := e # Q h'))"
  using dq.move_to_head [OF assms] by (auto simp: insert_link_def end_link_def)

end
