(* ===== verification/Slab.thy ===== *)
theory Slab
  imports DQueue
begin

text \<open>
  The slab allocator of \<open>kernel/memory/slab.c\<close>, which cuts pages into units of eight sizes. A slab
  is the address of its page; \<open>usableSlab\<close> and \<open>usedSlab\<close> are the list view of the intrusive
  queues. The page allocator behind \<open>allocatePages\<close> and \<open>releasePages\<close> is a function pointer in
  the code: the address or \<open>NULL\<close> it answers in a call is an argument of the operation. The
  spinlock is held over the whole of each operation, which is therefore one atomic step.
\<close>

abbreviation (input) SLAB_SIZE :: nat where "SLAB_SIZE \<equiv> 4096"

text \<open>\<open>sizeof(Slab)\<close>: two pointers, a \<open>size_t\<close> and a pointer.\<close>

abbreviation slabHeader :: nat where "slabHeader \<equiv> 16"

record Slab =
  usedCount :: nat
  freeList :: "nat list"

definition isTotallyFree :: "Slab \<Rightarrow> bool" where
  "isTotallyFree p \<longleftrightarrow> usedCount p = 0"

definition isTotallyUsed :: "Slab \<Rightarrow> bool" where
  "isTotallyUsed p \<longleftrightarrow> freeList p = []"

function initUnits :: "nat \<Rightarrow> nat \<Rightarrow> nat \<Rightarrow> nat list \<Rightarrow> nat list" where
  "initUnits slab unit p fl = (if 0 < unit \<and> p + unit \<le> slab + SLAB_SIZE
    then initUnits slab unit (p + unit) (p # fl) else fl)"
  by pat_completeness auto
termination by (relation "measure (\<lambda>(slab, unit, p, fl). slab + SLAB_SIZE - p)") auto

declare initUnits.simps [simp del]

definition initSlab :: "nat \<Rightarrow> nat \<Rightarrow> Slab" where
  "initSlab slab unit = \<lparr>usedCount = 0, freeList = initUnits slab unit (slab + slabHeader) []\<rparr>"

definition allocateUnit :: "Slab \<Rightarrow> nat option \<times> Slab" where
  "allocateUnit p = (case freeList p of
      [] \<Rightarrow> (None, p)
    | m # ms \<Rightarrow> (Some m, p\<lparr>freeList := ms, usedCount := usedCount p + 1\<rparr>))"

definition slabOf :: "nat \<Rightarrow> nat" where
  "slabOf a = a - a mod SLAB_SIZE"

definition freeUnit :: "nat \<Rightarrow> Slab \<Rightarrow> Slab" where
  "freeUnit u p = p\<lparr>freeList := u # freeList p, usedCount := usedCount p - 1\<rparr>"

subsection \<open>The manager\<close>

definition slabUnit :: "nat list" where
  "slabUnit = [16, 32, 64, 128 - slabHeader, 256 - slabHeader, 512 - slabHeader, 1024 - slabHeader,
    2048 - slabHeader]"

record SlabManager =
  usableSlab :: "nat \<Rightarrow> nat list"
  usedSlab :: "nat \<Rightarrow> nat list"
  slabs :: "nat \<Rightarrow> Slab"

fun findSlabFrom :: "nat \<Rightarrow> nat list \<Rightarrow> nat \<Rightarrow> nat option" where
  "findSlabFrom i [] s = None"
| "findSlabFrom i (u # us) s = (if u \<ge> s then Some i else findSlabFrom (Suc i) us s)"

definition findSlab :: "nat \<Rightarrow> nat option" where
  "findSlab s = findSlabFrom 0 slabUnit s"

definition takeUnit :: "nat \<Rightarrow> nat \<Rightarrow> SlabManager \<Rightarrow> nat option \<times> SlabManager" where
  "takeUnit i p m = (let (r, sl) = allocateUnit (slabs m p);
      m = m\<lparr>slabs := (slabs m)(p := sl)\<rparr> in
    (r, if isTotallyUsed sl
        then m\<lparr>usableSlab := (usableSlab m)(i := remove1 p (usableSlab m i)),
               usedSlab := (usedSlab m)(i := p # usedSlab m i)\<rparr>
        else m))"

definition allocateSlab :: "nat option \<Rightarrow> SlabManager \<Rightarrow> nat \<Rightarrow> (nat option \<times> SlabManager) option" where
  "allocateSlab page m s = (if s \<ge> 2048 - slabHeader then Some (page, m) else do {
    i \<leftarrow> findSlab s;
    let (r, m) = (case usableSlab m i of
        p # _ \<Rightarrow> takeUnit i p m
      | [] \<Rightarrow> (case page of
          None \<Rightarrow> (None, m)
        | Some p \<Rightarrow> takeUnit i p (m\<lparr>slabs := (slabs m)(p := initSlab p (slabUnit ! i)),
            usableSlab := (usableSlab m)(i := p # usableSlab m i)\<rparr>)));
    kassert (case r of None \<Rightarrow> True | Some a \<Rightarrow> a mod SLAB_SIZE \<noteq> 0);
    Some (r, m)
  })"

text \<open>\<open>ok\<close> is the answer of \<open>releasePages\<close>. The queue a slab is in is known from its link, so that
  removal is removal from whichever list holds it. The second component is the page given back.\<close>

definition unlinkSlab :: "nat \<Rightarrow> SlabManager \<Rightarrow> SlabManager" where
  "unlinkSlab p m = m\<lparr>usableSlab := (\<lambda>i. remove1 p (usableSlab m i)), usedSlab := (\<lambda>i. remove1 p (usedSlab m i))\<rparr>"

definition releaseSlab :: "bool \<Rightarrow> SlabManager \<Rightarrow> nat \<Rightarrow> (nat option \<times> SlabManager) option" where
  "releaseSlab ok m a = (if a mod SLAB_SIZE = 0 then do {
      kassert ok;
      Some (Some a, m)
    } else do {
      let p = slabOf a;
      let m = m\<lparr>slabs := (slabs m)(p := freeUnit a (slabs m p))\<rparr>;
      if isTotallyFree (slabs m p) then do {
        kassert ok;
        Some (Some p, unlinkSlab p m)
      } else Some (None, m)
    })"

text \<open>\<open>managerSize\<close> is \<open>sizeof(SlabManager)\<close>. The code writes into the page before it tests
  the pointer; the model, which cannot write through \<open>NULL\<close>, fails there.\<close>

definition createSlabManager :: "nat \<Rightarrow> nat option \<Rightarrow> (nat \<times> SlabManager) option" where
  "createSlabManager managerSize page = do {
    i \<leftarrow> findSlab managerSize;
    s \<leftarrow> page;
    let (r, sl) = allocateUnit (initSlab s (slabUnit ! i));
    m \<leftarrow> r;
    Some (m, \<lparr>usableSlab = (\<lambda>j. if j = i then [s] else []), usedSlab = (\<lambda>_. []), slabs = (\<lambda>_. sl)\<rparr>)
  }"

section \<open>Units of a slab\<close>

definition units :: "nat \<Rightarrow> nat \<Rightarrow> nat set" where
  "units p unit = (\<lambda>k. p + slabHeader + k * unit) ` {..<(SLAB_SIZE - slabHeader) div unit}"

lemma initUnits_eq:
  "0 < unit \<Longrightarrow> initUnits slab unit p fl = rev (map (\<lambda>k. p + k * unit) [0..<(slab + SLAB_SIZE - p) div unit]) @ fl"
proof (induction slab unit p fl rule: initUnits.induct)
  case (1 slab unit p fl)
  show ?case
  proof (cases "p + unit \<le> slab + SLAB_SIZE")
    case True
    let ?n = "(slab + SLAB_SIZE - (p + unit)) div unit"
    have split: "slab + SLAB_SIZE - p = unit + (slab + SLAB_SIZE - (p + unit))" using True by simp
    have n: "(slab + SLAB_SIZE - p) div unit = Suc ?n"
      unfolding split using 1(2) by (metis Suc_eq_plus1 div_add_self1 less_irrefl)
    have "map (\<lambda>k. p + k * unit) [0..<Suc ?n] = p # map (\<lambda>k. p + unit + k * unit) [0..<?n]"
      by (simp add: map_upt_Suc algebra_simps del: upt_Suc)
    moreover have "initUnits slab unit p fl = initUnits slab unit (p + unit) (p # fl)"
      using True 1(2) by (simp add: initUnits.simps [of slab unit p fl])
    ultimately show ?thesis using 1(1) [OF _ 1(2)] 1(2) True unfolding n by (simp del: upt_Suc)
  next
    case False
    then have "slab + SLAB_SIZE - p < unit" using 1(2) by linarith
    then have "(slab + SLAB_SIZE - p) div unit = 0" by (rule div_less)
    then show ?thesis using False by (subst initUnits.simps) simp
  qed
qed

lemma initSlab_freeList:
  assumes "0 < unit"
  shows "set (freeList (initSlab p unit)) = units p unit" "distinct (freeList (initSlab p unit))"
    "usedCount (initSlab p unit) = 0"
proof -
  have e: "freeList (initSlab p unit) =
      rev (map (\<lambda>k. p + slabHeader + k * unit) [0..<(SLAB_SIZE - slabHeader) div unit])"
    by (simp add: initSlab_def initUnits_eq [OF assms])
  show "set (freeList (initSlab p unit)) = units p unit" by (simp add: e units_def atLeast0LessThan)
  show "distinct (freeList (initSlab p unit))"
    using assms by (simp add: e distinct_map inj_on_def)
  show "usedCount (initSlab p unit) = 0" by (simp add: initSlab_def)
qed

lemma units_bounds: "a \<in> units p unit \<Longrightarrow> p + slabHeader \<le> a \<and> a + unit \<le> p + SLAB_SIZE"
proof -
  assume "a \<in> units p unit"
  then obtain k where k: "a = p + slabHeader + k * unit" "k < (SLAB_SIZE - slabHeader) div unit"
    by (auto simp: units_def)
  then have "Suc k * unit \<le> (SLAB_SIZE - slabHeader) div unit * unit" by (intro mult_le_mono1) simp
  also have "\<dots> \<le> SLAB_SIZE - slabHeader" by simp
  finally show ?thesis using k(1) by simp
qed

lemma units_apart:
  assumes "a \<in> units p unit" "b \<in> units p unit" "a < b"
  shows "a + unit \<le> b"
proof -
  from assms obtain j k where jk: "a = p + slabHeader + j * unit" "b = p + slabHeader + k * unit"
    by (auto simp: units_def)
  then have "j < k" using assms(3) by (simp add: mult_less_cancel2)
  then have "Suc j * unit \<le> k * unit" by (intro mult_le_mono1) simp
  then show ?thesis using jk by simp
qed

lemma slabOf_unit:
  assumes "a \<in> units p unit" "p mod SLAB_SIZE = 0" "0 < unit"
  shows "slabOf a = p" "a mod SLAB_SIZE \<noteq> 0"
proof -
  note b = units_bounds [OF assms(1)]
  have "a = p + (a - p)" "a - p < SLAB_SIZE" using b assms(3) by auto
  then have m: "a mod SLAB_SIZE = a - p"
    by (metis assms(2) add.left_neutral mod_add_left_eq mod_less)
  then show "slabOf a = p" "a mod SLAB_SIZE \<noteq> 0" using b by (auto simp: slabOf_def)
qed

section \<open>The invariant\<close>

definition pages :: "SlabManager \<Rightarrow> nat \<Rightarrow> nat set" where
  "pages m i = set (usableSlab m i) \<union> set (usedSlab m i)"

definition slab_ok :: "nat \<Rightarrow> nat \<Rightarrow> Slab \<Rightarrow> bool" where
  "slab_ok unit p sl \<longleftrightarrow> distinct (freeList sl) \<and> set (freeList sl) \<subseteq> units p unit \<and>
    usedCount sl + length (freeList sl) = card (units p unit)"

definition slab_inv :: "SlabManager \<Rightarrow> bool" where
  "slab_inv m \<longleftrightarrow> (\<forall>i. distinct (usableSlab m i) \<and> distinct (usedSlab m i)) \<and>
    (\<forall>i. set (usableSlab m i) \<inter> set (usedSlab m i) = {}) \<and>
    (\<forall>i j p. p \<in> pages m i \<longrightarrow> p \<in> pages m j \<longrightarrow> i = j) \<and>
    (\<forall>i p. p \<in> pages m i \<longrightarrow> i < 8 \<and> p mod SLAB_SIZE = 0 \<and> slab_ok (slabUnit ! i) p (slabs m p)) \<and>
    (\<forall>i. \<forall>p\<in>set (usableSlab m i). freeList (slabs m p) \<noteq> [])"

definition live :: "SlabManager \<Rightarrow> nat set" where
  "live m = {a. \<exists>i p. p \<in> pages m i \<and> a \<in> units p (slabUnit ! i) \<and> a \<notin> set (freeList (slabs m p))}"

lemma slab_invD:
  assumes "slab_inv m"
  shows "distinct (usableSlab m i)" "distinct (usedSlab m i)" "set (usableSlab m i) \<inter> set (usedSlab m i) = {}"
    "p \<in> pages m i \<Longrightarrow> p \<in> pages m j \<Longrightarrow> i = j" "p \<in> pages m i \<Longrightarrow> i < 8" "p \<in> pages m i \<Longrightarrow> p mod SLAB_SIZE = 0"
    "p \<in> pages m i \<Longrightarrow> slab_ok (slabUnit ! i) p (slabs m p)"
    "p \<in> set (usableSlab m i) \<Longrightarrow> freeList (slabs m p) \<noteq> []"
  using assms by (auto simp: slab_inv_def)

lemma slabUnit_pos: "i < 8 \<Longrightarrow> 0 < slabUnit ! i \<and> (SLAB_SIZE - slabHeader) div (slabUnit ! i) \<noteq> 0"
proof -
  assume "i < 8"
  then have "slabUnit ! i \<in> set slabUnit" by (intro nth_mem) (simp add: slabUnit_def)
  moreover have "\<forall>u\<in>set slabUnit. 0 < u \<and> (SLAB_SIZE - slabHeader) div u \<noteq> 0"
    by (simp add: slabUnit_def)
  ultimately show ?thesis by blast
qed

lemma findSlabFrom_bound:
  "\<exists>u\<in>set us. s \<le> u \<Longrightarrow> \<exists>k<length us. findSlabFrom i us s = Some (i + k) \<and> s \<le> us ! k"
proof (induction us arbitrary: i)
  case (Cons u us)
  show ?case
  proof (cases "s \<le> u")
    case False
    then have "\<exists>u\<in>set us. s \<le> u" using Cons.prems by auto
    from Cons.IH [OF this, of "Suc i"] obtain k where
      "k < length us" "findSlabFrom (Suc i) us s = Some (Suc i + k)" "s \<le> us ! k" by blast
    then show ?thesis using False by (intro exI [of _ "Suc k"]) simp
  qed (auto intro!: exI [of _ 0])
qed simp

lemma findSlab_bound:
  assumes "s < 2048 - slabHeader"
  obtains i where "findSlab s = Some i" "i < 8" "s \<le> slabUnit ! i"
proof -
  have "\<exists>u\<in>set slabUnit. s \<le> u" using assms by (simp add: slabUnit_def)
  from findSlabFrom_bound [OF this, of 0] show ?thesis
    using that by (auto simp: findSlab_def slabUnit_def)
qed

section \<open>Correctness\<close>

lemma card_units: "0 < unit \<Longrightarrow> card (units p unit) = (SLAB_SIZE - slabHeader) div unit"
  unfolding units_def by (subst card_image) (simp_all add: inj_on_def)

text \<open>A new slab in front of the usable ones.\<close>

lemma new_slab_inv:
  assumes "slab_inv m" and "i < 8" and "p mod SLAB_SIZE = 0" and "\<And>j. p \<notin> pages m j"
  defines "m1 \<equiv> m\<lparr>slabs := (slabs m)(p := initSlab p (slabUnit ! i)), usableSlab := (usableSlab m)(i := p # usableSlab m i)\<rparr>"
  shows "slab_inv m1" and "live m1 = live m" and "p \<in> set (usableSlab m1 i)"
proof -
  note u = slabUnit_pos [OF assms(2)]
  note fl = initSlab_freeList [of "slabUnit ! i" p]
  have pg: "pages m1 j = (if j = i then insert p (pages m i) else pages m j)" for j
    by (auto simp: m1_def pages_def)
  have ok: "slab_ok (slabUnit ! i) p (initSlab p (slabUnit ! i))"
    using fl u distinct_card [OF fl(2)] by (simp add: slab_ok_def)
  have ne: "freeList (initSlab p (slabUnit ! i)) \<noteq> []"
    using fl(1) u card_units [of "slabUnit ! i" p] by auto
  have old: "slabs m1 q = slabs m q" if "q \<in> pages m j" for q j using that assms(4) by (auto simp: m1_def)
  note D = slab_invD [OF assms(1)]
  show "slab_inv m1"
    unfolding slab_inv_def
  proof (intro conjI allI ballI impI)
    fix j q
    show "distinct (usableSlab m1 j)" "distinct (usedSlab m1 j)" "set (usableSlab m1 j) \<inter> set (usedSlab m1 j) = {}"
      using D(1-3) assms(4) by (auto simp: m1_def pages_def)
    show "freeList (slabs m1 q) \<noteq> []" if "q \<in> set (usableSlab m1 j)"
    proof (cases "q = p")
      case True
      then show ?thesis using ne by (simp add: m1_def)
    next
      case False
      then show ?thesis using D(8) that by (auto simp: m1_def split: if_splits)
    qed
    assume q: "q \<in> pages m1 j"
    show "j < 8" "q mod SLAB_SIZE = 0" using q pg D(5,6) assms(2,3) by (auto split: if_splits)
    show "slab_ok (slabUnit ! j) q (slabs m1 q)"
    proof (cases "q = p")
      case True
      then have "j = i" using q pg assms(4) by (auto split: if_splits)
      then show ?thesis using True ok by (simp add: m1_def)
    next
      case False
      then have "q \<in> pages m j" using q pg by (auto split: if_splits)
      then show ?thesis using D(7) old by simp
    qed
    fix j' assume q': "q \<in> pages m1 j'"
    show "j = j'" using q q' pg D(4) assms(4) by (auto split: if_splits)
  qed
  have "a \<in> live m1 \<longleftrightarrow> a \<in> live m" for a
  proof
    assume "a \<in> live m1"
    then obtain j q where q: "q \<in> pages m1 j" "a \<in> units q (slabUnit ! j)" "a \<notin> set (freeList (slabs m1 q))"
      by (auto simp: live_def)
    have "q \<noteq> p"
    proof
      assume "q = p"
      then have "j = i" using q(1) pg assms(4) by (auto split: if_splits)
      then show False using q fl(1) u \<open>q = p\<close> by (simp add: m1_def)
    qed
    then have "q \<in> pages m j" using q(1) pg by (auto split: if_splits)
    then show "a \<in> live m" using q(2,3) old by (auto simp: live_def)
  next
    assume "a \<in> live m"
    then obtain j q where q: "q \<in> pages m j" "a \<in> units q (slabUnit ! j)" "a \<notin> set (freeList (slabs m q))"
      by (auto simp: live_def)
    moreover have "q \<in> pages m1 j" using q(1) unfolding pg by (cases "j = i") simp_all
    ultimately show "a \<in> live m1" using old by (force simp: live_def)
  qed
  then show "live m1 = live m" by blast
  show "p \<in> set (usableSlab m1 i)" by (simp add: m1_def)
qed

lemma takeUnit_inv:
  assumes "slab_inv m" and "p \<in> set (usableSlab m i)"
  shows "\<exists>a m'. takeUnit i p m = (Some a, m') \<and> slab_inv m' \<and> a \<in> units p (slabUnit ! i) \<and>
    a \<notin> live m \<and> live m' = insert a (live m)"
proof -
  note D = slab_invD [OF assms(1)]
  have pp: "p \<in> pages m i" using assms(2) by (simp add: pages_def)
  obtain a fl where fl: "freeList (slabs m p) = a # fl" using D(8) [OF assms(2)] by (cases "freeList (slabs m p)") auto
  let ?sl = "slabs m p\<lparr>freeList := fl, usedCount := usedCount (slabs m p) + 1\<rparr>"
  let ?m1 = "m\<lparr>slabs := (slabs m)(p := ?sl)\<rparr>"
  let ?m' = "if fl = [] then ?m1\<lparr>usableSlab := (usableSlab m)(i := remove1 p (usableSlab m i)),
    usedSlab := (usedSlab m)(i := p # usedSlab m i)\<rparr> else ?m1"
  have run: "takeUnit i p m = (Some a, ?m')"
    by (auto simp: takeUnit_def allocateUnit_def fl Let_def isTotallyUsed_def)
  have okp: "slab_ok (slabUnit ! i) p (slabs m p)" using D(7) [OF pp] .
  then have ok': "slab_ok (slabUnit ! i) p ?sl" and au: "a \<in> units p (slabUnit ! i)" and afl: "a \<notin> set fl"
    by (auto simp: slab_ok_def fl)
  have us: "usableSlab ?m' j = (if fl = [] \<and> j = i then remove1 p (usableSlab m i) else usableSlab m j)"
    and ud: "usedSlab ?m' j = (if fl = [] \<and> j = i then p # usedSlab m i else usedSlab m j)" for j
    by simp_all
  have pg: "pages ?m' j = pages m j" for j
    using assms(2) D(1) [of i] unfolding pages_def us ud by auto
  have sl: "slabs ?m' q = (if q = p then ?sl else slabs m q)" for q by auto
  have "slab_inv ?m'"
    unfolding slab_inv_def
  proof (intro conjI allI ballI impI)
    fix j q
    show "distinct (usableSlab ?m' j)" unfolding us using D(1) by simp
    show "distinct (usedSlab ?m' j)" unfolding ud using D(2) D(3) [of i] assms(2) by auto
    show "set (usableSlab ?m' j) \<inter> set (usedSlab ?m' j) = {}"
      unfolding us ud using D(1) [of i] D(3) [of i] D(3) [of j] by auto
    show "freeList (slabs ?m' q) \<noteq> []" if "q \<in> set (usableSlab ?m' j)"
    proof (cases "q = p")
      case True
      have "p \<notin> set (usableSlab ?m' j)" if "fl = []"
      proof (cases "j = i")
        case True
        then show ?thesis unfolding us using that D(1) [of i] by simp
      next
        case False
        then have "p \<notin> pages m j" using D(4) [OF pp, of j] by blast
        then show ?thesis unfolding us using False by (simp add: pages_def)
      qed
      then show ?thesis using True that unfolding sl by auto
    next
      case False
      then have "q \<in> set (usableSlab m j)" using that D(1) [of j] unfolding us by (auto split: if_splits)
      then show ?thesis using D(8) False unfolding sl by simp
    qed
    assume "q \<in> pages ?m' j"
    then have q: "q \<in> pages m j" using pg by simp
    show "j < 8" "q mod SLAB_SIZE = 0" using D(5,6) q by auto
    show "slab_ok (slabUnit ! j) q (slabs ?m' q)"
      using D(7) [OF q] D(4) [OF pp, of j] q ok' by (auto simp: sl)
    fix j' assume "q \<in> pages ?m' j'"
    then show "j = j'" using D(4) q pg by simp
  qed
  moreover have "a \<notin> live m"
  proof
    assume "a \<in> live m"
    then obtain j q where q: "q \<in> pages m j" "a \<in> units q (slabUnit ! j)" "a \<notin> set (freeList (slabs m q))"
      by (auto simp: live_def)
    have "q = p"
      using slabOf_unit(1) [OF q(2) D(6) [OF q(1)]] slabOf_unit(1) [OF au D(6) [OF pp]]
        slabUnit_pos D(5) [OF q(1)] D(5) [OF pp] by simp
    then show False using q(3) fl by simp
  qed
  moreover have "live ?m' = insert a (live m)"
  proof (intro set_eqI iffI)
    fix x assume "x \<in> live ?m'"
    then obtain j q where q: "q \<in> pages m j" "x \<in> units q (slabUnit ! j)" "x \<notin> set (freeList (slabs ?m' q))"
      unfolding live_def mem_Collect_eq pg by blast
    show "x \<in> insert a (live m)"
    proof (cases "x = a \<or> q \<noteq> p")
      case True
      then show ?thesis using q unfolding live_def sl by auto
    next
      case False
      then have "x \<notin> set (freeList (slabs m q))" using q(3) fl unfolding sl by simp
      then show ?thesis using q(1,2) unfolding live_def by blast
    qed
  next
    fix x assume "x \<in> insert a (live m)"
    then show "x \<in> live ?m'"
    proof
      assume "x = a"
      then show ?thesis unfolding live_def mem_Collect_eq pg sl using pp au afl by (intro exI [of _ i] exI [of _ p]) simp
    next
      assume "x \<in> live m"
      then obtain j q where q: "q \<in> pages m j" "x \<in> units q (slabUnit ! j)" "x \<notin> set (freeList (slabs m q))"
        by (auto simp: live_def)
      then have "x \<notin> set (freeList (slabs ?m' q))" unfolding sl using fl by auto
      then show ?thesis unfolding live_def mem_Collect_eq pg using q(1,2) by blast
    qed
  qed
  ultimately show ?thesis using run au by blast
qed

lemma live_unit:
  assumes "slab_inv m" and "a \<in> live m"
  obtains i p where "p \<in> pages m i" "a \<in> units p (slabUnit ! i)" "a \<notin> set (freeList (slabs m p))"
    "slabOf a = p" "a mod SLAB_SIZE \<noteq> 0"
proof -
  from assms(2) obtain i p where p: "p \<in> pages m i" "a \<in> units p (slabUnit ! i)" "a \<notin> set (freeList (slabs m p))"
    by (auto simp: live_def)
  note D = slab_invD [OF assms(1)]
  show ?thesis
    using that [OF p slabOf_unit [OF p(2) D(6) [OF p(1)]]] conjunct1 [OF slabUnit_pos [OF D(5) [OF p(1)]]] by simp
qed

lemma unlinkSlab_inv:
  assumes "slab_inv m"
  shows "slab_inv (unlinkSlab p m)"
proof -
  note D = slab_invD [OF assms]
  let ?m = "unlinkSlab p m"
  have us: "set (usableSlab ?m i) = set (usableSlab m i) - {p}" and ud: "set (usedSlab ?m i) = set (usedSlab m i) - {p}" for i
    using D(1,2) by (simp_all add: unlinkSlab_def)
  have sl: "slabs ?m = slabs m" by (simp add: unlinkSlab_def)
  have pg: "q \<in> pages m j" if "q \<in> pages ?m j" for q j using that unfolding pages_def us ud by blast
  show ?thesis
    unfolding slab_inv_def sl us ud
  proof (intro conjI allI ballI impI)
    fix j q
    show "distinct (usableSlab ?m j)" "distinct (usedSlab ?m j)" using D(1,2) by (simp_all add: unlinkSlab_def)
    show "(set (usableSlab m j) - {p}) \<inter> (set (usedSlab m j) - {p}) = {}" using D(3) [of j] by blast
    show "freeList (slabs m q) \<noteq> []" if "q \<in> set (usableSlab m j) - {p}" using that D(8) by blast
    assume q: "q \<in> pages ?m j"
    show "j < 8" "q mod SLAB_SIZE = 0" "slab_ok (slabUnit ! j) q (slabs m q)" using D(5-7) [OF pg [OF q]] .
    fix j' assume "q \<in> pages ?m j'"
    then show "j = j'" using D(4) pg q by blast
  qed
qed

lemma releaseSlab_effect:
  assumes "slab_inv m" and "a \<in> live m"
  shows "\<exists>pg m'. releaseSlab True m a = Some (pg, m') \<and> slab_inv m' \<and> live m' = live m - {a} \<and>
    (\<forall>p. pg = Some p \<longrightarrow> p = slabOf a \<and> (\<forall>j. p \<notin> pages m' j))"
proof -
  note D = slab_invD [OF assms(1)]
  obtain i p where p: "p \<in> pages m i" "a \<in> units p (slabUnit ! i)" "a \<notin> set (freeList (slabs m p))"
    "slabOf a = p" "a mod SLAB_SIZE \<noteq> 0" using live_unit [OF assms] .
  have okp: "slab_ok (slabUnit ! i) p (slabs m p)" using D(7) [OF p(1)] .
  let ?sl = "freeUnit a (slabs m p)"
  let ?m1 = "m\<lparr>slabs := (slabs m)(p := ?sl)\<rparr>"
  have fin: "finite (units p (slabUnit ! i))" by (simp add: units_def)
  have "card (set (freeList (slabs m p))) < card (units p (slabUnit ! i))"
    using okp p(2,3) fin by (intro psubset_card_mono) (auto simp: slab_ok_def)
  then have pos: "0 < usedCount (slabs m p)"
    using okp by (auto simp: slab_ok_def distinct_card)
  have ok': "slab_ok (slabUnit ! i) p ?sl" using okp p(2,3) pos by (auto simp: slab_ok_def freeUnit_def)
  have pg1: "pages ?m1 = pages m" by (simp add: pages_def fun_eq_iff)
  have unit_slab: "q = p" if "q \<in> pages m j" "a \<in> units q (slabUnit ! j)" for q j
    using slabOf_unit(1) [OF that(2) D(6) [OF that(1)]] p(4) slabUnit_pos [OF D(5) [OF that(1)]] by simp
  have inv1: "slab_inv ?m1"
    unfolding slab_inv_def pg1
  proof (intro conjI allI ballI impI)
    fix j q
    show "distinct (usableSlab ?m1 j)" "distinct (usedSlab ?m1 j)" "set (usableSlab ?m1 j) \<inter> set (usedSlab ?m1 j) = {}"
      using D(1-3) by simp_all
    show "freeList (slabs ?m1 q) \<noteq> []" if "q \<in> set (usableSlab ?m1 j)"
      using that D(8) by (simp add: freeUnit_def)
    assume q: "q \<in> pages m j"
    show "j < 8" "q mod SLAB_SIZE = 0" using D(5,6) [OF q] .
    show "slab_ok (slabUnit ! j) q (slabs ?m1 q)" using D(7) [OF q] ok' D(4) [OF p(1)] q by auto
    fix j' assume "q \<in> pages m j'"
    then show "j = j'" using D(4) q by simp
  qed
  have live1: "live ?m1 = live m - {a}"
  proof (intro set_eqI iffI)
    fix x assume "x \<in> live ?m1"
    then obtain j q where q: "q \<in> pages m j" "x \<in> units q (slabUnit ! j)" "x \<notin> set (freeList (slabs ?m1 q))"
      unfolding live_def mem_Collect_eq pg1 by blast
    moreover have "x \<noteq> a" using unit_slab q by (auto simp: freeUnit_def)
    ultimately show "x \<in> live m - {a}" by (force simp: live_def freeUnit_def split: if_splits)
  next
    fix x assume "x \<in> live m - {a}"
    then obtain j q where q: "q \<in> pages m j" "x \<in> units q (slabUnit ! j)" "x \<notin> set (freeList (slabs m q))" "x \<noteq> a"
      by (auto simp: live_def)
    then have "x \<notin> set (freeList (slabs ?m1 q))" by (auto simp: freeUnit_def)
    then show "x \<in> live ?m1" unfolding live_def mem_Collect_eq pg1 using q(1,2) by blast
  qed
  show ?thesis
  proof (cases "isTotallyFree ?sl")
    case False
    then have "releaseSlab True m a = Some (None, ?m1)" using p(4,5) by (simp add: releaseSlab_def)
    then show ?thesis using inv1 live1 by simp
  next
    case True
    let ?m2 = "unlinkSlab p ?m1"
    have run: "releaseSlab True m a = Some (Some p, ?m2)" using True p(4,5) by (simp add: releaseSlab_def)
    have pg2: "pages ?m2 j = pages m j - {p}" for j
      using D(1,2) by (auto simp: pages_def unlinkSlab_def)
    have "length (freeList ?sl) = card (units p (slabUnit ! i))"
      using ok' True by (simp add: slab_ok_def isTotallyFree_def)
    then have all: "set (freeList ?sl) = units p (slabUnit ! i)"
      using ok' fin by (intro card_subset_eq) (auto simp: slab_ok_def distinct_card)
    have "slab_inv ?m2" using unlinkSlab_inv [OF inv1] .
    moreover have "live ?m2 = live ?m1"
    proof (intro set_eqI iffI)
      fix x assume "x \<in> live ?m1"
      then obtain j q where q: "q \<in> pages m j" "x \<in> units q (slabUnit ! j)" "x \<notin> set (freeList (slabs ?m1 q))"
        unfolding live_def mem_Collect_eq pg1 by blast
      moreover have "q \<noteq> p" using q all D(4) [OF p(1), of j] by auto
      ultimately show "x \<in> live ?m2" unfolding live_def mem_Collect_eq pg2 by (force simp: unlinkSlab_def)
    next
      fix x assume "x \<in> live ?m2"
      then obtain j q where q: "q \<in> pages m j - {p}" "x \<in> units q (slabUnit ! j)" "x \<notin> set (freeList (slabs ?m2 q))"
        unfolding live_def mem_Collect_eq pg2 by blast
      then have "q \<in> pages ?m1 j" "x \<notin> set (freeList (slabs ?m1 q))" by (simp_all add: pg1 unlinkSlab_def)
      then show "x \<in> live ?m1" using q(2) unfolding live_def by blast
    qed
    ultimately show ?thesis using run live1 p(4) pg2 by auto
  qed
qed

section \<open>Theorems\<close>

lemma allocateSlab_effect:
  assumes "slab_inv m" and "s < 2048 - slabHeader"
    and "\<forall>p. page = Some p \<longrightarrow> p mod SLAB_SIZE = 0 \<and> (\<forall>j. p \<notin> pages m j)"
  shows "\<exists>r m'. allocateSlab page m s = Some (r, m') \<and> slab_inv m' \<and>
    (case r of None \<Rightarrow> page = None \<and> m' = m
     | Some a \<Rightarrow> a \<notin> live m \<and> live m' = insert a (live m) \<and>
         (\<exists>i p. i < 8 \<and> s \<le> slabUnit ! i \<and> p + slabHeader \<le> a \<and> a + slabUnit ! i \<le> p + SLAB_SIZE \<and>
           p mod SLAB_SIZE = 0))"
proof -
  obtain i where i: "findSlab s = Some i" "i < 8" "s \<le> slabUnit ! i" using findSlab_bound [OF assms(2)] .
  have take: "\<exists>r m'. Some (takeUnit i p m1) = Some (r, m') \<and> slab_inv m' \<and>
      (\<exists>a. r = Some a \<and> a mod SLAB_SIZE \<noteq> 0 \<and> a \<notin> live m \<and> live m' = insert a (live m) \<and>
         p + slabHeader \<le> a \<and> a + slabUnit ! i \<le> p + SLAB_SIZE \<and> p mod SLAB_SIZE = 0)"
    if m1: "slab_inv m1" "live m1 = live m" "p \<in> set (usableSlab m1 i)" for m1 p
  proof -
    have pm: "p mod SLAB_SIZE = 0" using slab_invD(6) [OF m1(1), of p i] m1(3) by (simp add: pages_def)
    obtain a m' where a: "takeUnit i p m1 = (Some a, m')" "slab_inv m'" "a \<in> units p (slabUnit ! i)"
      "a \<notin> live m" "live m' = insert a (live m)" using takeUnit_inv [OF m1(1,3)] m1(2) by auto
    then show ?thesis
      using units_bounds [OF a(3)] slabOf_unit(2) [OF a(3) pm conjunct1 [OF slabUnit_pos [OF i(2)]]] pm by auto
  qed
  show ?thesis
  proof (cases "usableSlab m i")
    case (Cons p ps)
    from take [OF assms(1) refl, of p] Cons i assms(2) show ?thesis
      by (fastforce simp: allocateSlab_def)
  next
    case Nil
    show ?thesis
    proof (cases page)
      case None
      then show ?thesis using assms(1,2) i Nil by (auto simp: allocateSlab_def)
    next
      case (Some p)
      note n = new_slab_inv [OF assms(1) i(2), of p]
      from take [OF n] Some Nil i assms(2,3) show ?thesis by (fastforce simp: allocateSlab_def)
    qed
  qed
qed

text \<open>C6: \<open>allocateSlab\<close> on a well-formed manager never panics or fails its alignment assertion and
  keeps the manager well formed. It returns \<open>NULL\<close> only if a page was needed and none was available;
  otherwise the unit it returns was not in use, is now the only additional unit in use, lies behind
  the header inside its page and is at least as large as requested.\<close>

theorem allocateSlab_correct:
  assumes "slab_inv m" and "s < 2048 - slabHeader"
    and "\<forall>p. page = Some p \<longrightarrow> p mod SLAB_SIZE = 0 \<and> (\<forall>j. p \<notin> pages m j)"
  shows "\<exists>r m'. allocateSlab page m s = Some (r, m') \<and> slab_inv m' \<and>
    (case r of None \<Rightarrow> page = None \<and> m' = m
     | Some a \<Rightarrow> a \<notin> live m \<and> live m' = insert a (live m) \<and>
         (\<exists>i p. i < 8 \<and> s \<le> slabUnit ! i \<and> p + slabHeader \<le> a \<and> a + slabUnit ! i \<le> p + SLAB_SIZE \<and>
           p mod SLAB_SIZE = 0))"
  using assms by (rule allocateSlab_effect)

text \<open>The empty manager, used in the examples.\<close>

definition emptySlabs :: SlabManager where
  "emptySlabs = \<lparr>usableSlab = (\<lambda>_. []), usedSlab = (\<lambda>_. []), slabs = (\<lambda>_. \<lparr>usedCount = 0, freeList = []\<rparr>)\<rparr>"

lemma emptySlabs_inv: "slab_inv emptySlabs" "live emptySlabs = {}" "pages emptySlabs j = {}"
  by (simp_all add: emptySlabs_def slab_inv_def pages_def live_def)

theorem allocateSlab_correct_witness:
  "\<exists>r m'. allocateSlab (Some 0x8000) emptySlabs 100 = Some (r, m') \<and> slab_inv m' \<and>
    (case r of None \<Rightarrow> False | Some a \<Rightarrow> live m' = {a})"
  using allocateSlab_correct [OF emptySlabs_inv(1), of 100 "Some 0x8000"]
  by (auto simp: emptySlabs_inv split: option.splits)

text \<open>\<open>releaseSlab\<close> of a unit in use makes exactly that unit free again and keeps the manager well
  formed; a page is given back only after it left all lists. Different units in use never overlap.\<close>

lemma releaseSlab_correct:
  assumes "slab_inv m" and "a \<in> live m"
  shows "(\<exists>pg m'. releaseSlab True m a = Some (pg, m') \<and> slab_inv m' \<and> live m' = live m - {a} \<and>
      (\<forall>p. pg = Some p \<longrightarrow> p = slabOf a \<and> (\<forall>j. p \<notin> pages m' j))) \<and>
    (\<forall>b\<in>live m. a < b \<and> slabOf a = slabOf b \<longrightarrow> (\<exists>i. slabOf a \<in> pages m i \<and> a + slabUnit ! i \<le> b))"
proof -
  obtain i p where p: "p \<in> pages m i" "a \<in> units p (slabUnit ! i)" "slabOf a = p"
    using live_unit [OF assms] by metis
  have "a + slabUnit ! i \<le> b" if b: "b \<in> live m" "a < b" "slabOf a = slabOf b" for b
  proof -
    obtain j q where q: "q \<in> pages m j" "b \<in> units q (slabUnit ! j)" "slabOf b = q"
      using live_unit [OF assms(1) b(1)] by metis
    have "p = q" "i = j" using p q b(3) slab_invD(4) [OF assms(1)] by auto
    then show ?thesis using units_apart [OF p(2) _ b(2)] q(2) by simp
  qed
  then show ?thesis using releaseSlab_effect [OF assms] p(1,3) by blast
qed

end
