(* ===== verification/Timer.thy ===== *)
theory Timer
  imports Prelude "HOL-Library.Multiset"
begin

text \<open>
  The timer events of \<open>kernel/io/timer.c\<close>: a list of events ordered by the time that remains until
  they expire, counted in ticks modulo \<open>2 ^ 50\<close>. An event is named by its address. A call of
  \<open>handleTimerEvents\<close> returns the events whose I/O requests it completes.
\<close>

abbreviation (input) COUNTDOWN_TICK_MODULAR :: nat where "COUNTDOWN_TICK_MODULAR \<equiv> 2 ^ 50"

record TimerEvent =
  eventId :: nat
  countdownTicks :: nat
  tickPeriod :: nat
  isSentToTask :: bool

record TimerEventList =
  currentTick :: nat
  events :: "TimerEvent list"

definition createTimerEvent :: "nat \<Rightarrow> nat \<Rightarrow> TimerEvent" where
  "createTimerEvent te periodTicks =
    \<lparr>eventId = te, countdownTicks = 0, tickPeriod = periodTicks, isSentToTask = False\<rparr>"

definition remaining :: "nat \<Rightarrow> TimerEvent \<Rightarrow> nat" where
  "remaining now e = (countdownTicks e + COUNTDOWN_TICK_MODULAR - now) mod COUNTDOWN_TICK_MODULAR"

fun insertEvent :: "nat \<Rightarrow> nat \<Rightarrow> TimerEvent \<Rightarrow> TimerEvent list \<Rightarrow> TimerEvent list" where
  "insertEvent now waitTicks te [] = [te]"
| "insertEvent now waitTicks te (e # es) =
    (if waitTicks \<le> remaining now e then te # e # es else e # insertEvent now waitTicks te es)"

definition addTimerEvent_noLock :: "TimerEventList \<Rightarrow> nat \<Rightarrow> TimerEvent \<Rightarrow> TimerEventList" where
  "addTimerEvent_noLock tel waitTicks te =
    (let te' = te\<lparr>countdownTicks := (currentTick tel + waitTicks) mod COUNTDOWN_TICK_MODULAR, isSentToTask := False\<rparr> in
     tel\<lparr>events := insertEvent (currentTick tel) waitTicks te' (events tel)\<rparr>)"

definition addTimerEvent :: "TimerEventList \<Rightarrow> nat \<Rightarrow> TimerEvent \<Rightarrow> TimerEventList" where
  "addTimerEvent tel waitTicks te = addTimerEvent_noLock tel waitTicks te"

definition cancelTimerEvent :: "nat \<Rightarrow> TimerEventList \<Rightarrow> TimerEventList" where
  "cancelTimerEvent te tel = tel\<lparr>events := filter (\<lambda>e. eventId e \<noteq> te) (events tel)\<rparr>"

text \<open>\<open>setAlarmHandler\<close>: \<open>frequency\<close> is \<open>TIMER_FREQUENCY\<close>, \<open>te\<close> the new event. A wait of no ticks is
  rounded up to one, a wait that does not fit is refused.\<close>

definition setAlarm :: "nat \<Rightarrow> u64 \<Rightarrow> bool \<Rightarrow> nat \<Rightarrow> TimerEventList \<Rightarrow> TimerEventList option" where
  "setAlarm frequency millisecond isPeriodic te tel =
    (let tick = unat ((millisecond * of_nat frequency) div 1000) in
     if \<not> tick < COUNTDOWN_TICK_MODULAR then None
     else let tick = (if tick = 0 then tick + 1 else tick) in
       Some (addTimerEvent tel tick (createTimerEvent te (if isPeriodic then tick else 0))))"

text \<open>The loop of \<open>handleTimerEvents\<close>. The first argument bounds the rounds; \<open>handle_rounds\<close> below
  shows that one more than the number of events is enough.\<close>

fun handleLoop :: "nat \<Rightarrow> TimerEventList \<Rightarrow> (nat list \<times> TimerEventList) option" where
  "handleLoop 0 tel = None"
| "handleLoop (Suc n) tel = (case events tel of
      [] \<Rightarrow> Some ([], tel)
    | te # es \<Rightarrow>
        if countdownTicks te \<noteq> currentTick tel then Some ([], tel)
        else if isSentToTask te \<and> tickPeriod te = 0 then None
        else let
            sent = (if isSentToTask te then [] else [eventId te]);
            te' = te\<lparr>isSentToTask := True\<rparr>;
            tel' = tel\<lparr>events := es\<rparr>;
            tel'' = (if tickPeriod te' > 0 then addTimerEvent_noLock tel' (tickPeriod te') te' else tel') in
          map_option (\<lambda>(s, t). (sent @ s, t)) (handleLoop n tel''))"

definition handleTimerEvents :: "TimerEventList \<Rightarrow> (nat list \<times> TimerEventList) option" where
  "handleTimerEvents tel = map_option
    (\<lambda>(s, t). (s, t\<lparr>currentTick := (currentTick t + 1) mod COUNTDOWN_TICK_MODULAR\<rparr>))
    (handleLoop (length (events tel) + 1) tel)"

definition createTimer :: TimerEventList where
  "createTimer = \<lparr>currentTick = 0, events = []\<rparr>"

section \<open>Order by remaining time\<close>

definition event_ok :: "TimerEvent \<Rightarrow> bool" where
  "event_ok e \<longleftrightarrow> countdownTicks e < COUNTDOWN_TICK_MODULAR \<and> tickPeriod e < COUNTDOWN_TICK_MODULAR \<and> \<not> isSentToTask e"

definition timer_inv :: "TimerEventList \<Rightarrow> bool" where
  "timer_inv tel \<longleftrightarrow> currentTick tel < COUNTDOWN_TICK_MODULAR \<and> sorted (map (remaining (currentTick tel)) (events tel)) \<and>
    (\<forall>e\<in>set (events tel). event_ok e)"

lemma remaining_added:
  assumes "now < COUNTDOWN_TICK_MODULAR" and "w < COUNTDOWN_TICK_MODULAR"
  shows "remaining now (e\<lparr>countdownTicks := (now + w) mod COUNTDOWN_TICK_MODULAR, isSentToTask := s\<rparr>) = w"
proof -
  let ?M = "COUNTDOWN_TICK_MODULAR"
  have "(now + w) mod ?M + ?M - now = (if now + w < ?M then w + ?M else w)"
    using assms by (auto simp: mod_if)
  then show ?thesis using assms(2) by (simp add: remaining_def)
qed

lemma remaining_zero_iff:
  assumes "now < COUNTDOWN_TICK_MODULAR" and "event_ok e"
  shows "remaining now e = 0 \<longleftrightarrow> countdownTicks e = now"
  using assms by (auto simp: remaining_def event_ok_def mod_if)

lemma remaining_next:
  assumes "now < COUNTDOWN_TICK_MODULAR" and "event_ok e" and "remaining now e \<noteq> 0"
  shows "remaining ((now + 1) mod COUNTDOWN_TICK_MODULAR) e = remaining now e - 1"
  using assms by (auto simp: remaining_def event_ok_def mod_if)

lemma remaining_less: "remaining now e < COUNTDOWN_TICK_MODULAR"
  by (simp add: remaining_def)

lemma mset_insertEvent: "mset (insertEvent now w te es) = add_mset te (mset es)"
  by (induction es) auto

lemma set_insertEvent [simp]: "set (insertEvent now w te es) = insert te (set es)"
  by (induction es) auto

lemma sorted_insertEvent:
  "sorted (map (remaining now) es) \<Longrightarrow> remaining now te = w \<Longrightarrow> sorted (map (remaining now) (insertEvent now w te es))"
proof (induction es)
  case (Cons e es)
  then show ?case by (auto simp: not_le intro: less_imp_le order_trans)
qed simp

lemma add_inv:
  assumes "timer_inv tel" and "w < COUNTDOWN_TICK_MODULAR" and "tickPeriod te < COUNTDOWN_TICK_MODULAR"
  shows "timer_inv (addTimerEvent_noLock tel w te)"
proof -
  let ?te = "te\<lparr>countdownTicks := (currentTick tel + w) mod COUNTDOWN_TICK_MODULAR, isSentToTask := False\<rparr>"
  have now: "currentTick tel < COUNTDOWN_TICK_MODULAR" using assms(1) by (simp add: timer_inv_def)
  have ok: "event_ok ?te" using assms(3) by (simp add: event_ok_def)
  show ?thesis
    using assms(1) sorted_insertEvent [OF _ remaining_added [OF now assms(2)]] ok
    by (auto simp: timer_inv_def addTimerEvent_noLock_def Let_def)
qed

section \<open>Expiry\<close>

definition due :: "TimerEventList \<Rightarrow> TimerEvent list" where
  "due tel = filter (\<lambda>e. countdownTicks e = currentTick tel) (events tel)"

text \<open>What becomes of an expired event: nothing, or the next period.\<close>

definition rearm :: "nat \<Rightarrow> TimerEvent \<Rightarrow> TimerEvent" where
  "rearm now e = e\<lparr>countdownTicks := (now + tickPeriod e) mod COUNTDOWN_TICK_MODULAR, isSentToTask := False\<rparr>"

definition rearmed :: "TimerEventList \<Rightarrow> TimerEvent list" where
  "rearmed tel = map (rearm (currentTick tel)) (filter (\<lambda>e. tickPeriod e > 0) (due tel))"

lemma rearm_not_due:
  assumes "timer_inv tel" and "event_ok e" and "0 < tickPeriod e"
  shows "countdownTicks (rearm (currentTick tel) e) \<noteq> currentTick tel" and "event_ok (rearm (currentTick tel) e)"
proof -
  let ?now = "currentTick tel"
  have now: "?now < COUNTDOWN_TICK_MODULAR" using assms(1) by (simp add: timer_inv_def)
  have p: "tickPeriod e < COUNTDOWN_TICK_MODULAR" using assms(2) by (simp add: event_ok_def)
  show ok: "event_ok (rearm ?now e)" using p by (simp add: rearm_def event_ok_def)
  have "remaining ?now (rearm ?now e) = tickPeriod e" using remaining_added [OF now p] by (simp add: rearm_def)
  then show "countdownTicks (rearm ?now e) \<noteq> ?now" using remaining_zero_iff [OF now ok] assms(3) by simp
qed

lemma handleLoop_spec:
  assumes "timer_inv tel" and "length (due tel) < n"
  shows "\<exists>tel'. handleLoop n tel = Some (map eventId (due tel), tel') \<and> timer_inv tel' \<and>
    currentTick tel' = currentTick tel \<and> due tel' = [] \<and>
    mset (events tel') = mset (filter (\<lambda>e. countdownTicks e \<noteq> currentTick tel) (events tel)) + mset (rearmed tel)"
  using assms
proof (induction n arbitrary: tel)
  case (Suc n)
  note inv = Suc.prems(1) [unfolded timer_inv_def]
  let ?now = "currentTick tel"
  have now: "?now < COUNTDOWN_TICK_MODULAR" using inv by simp
  show ?case
  proof (cases "events tel")
    case Nil
    then show ?thesis using Suc.prems(1) by (simp add: due_def rearmed_def)
  next
    case (Cons e es)
    have oke: "event_ok e" using inv Cons by simp
    show ?thesis
    proof (cases "countdownTicks e = ?now")
      case False
      have "countdownTicks x \<noteq> ?now" if "x \<in> set (e # es)" for x
      proof -
        have "0 < remaining ?now e" using remaining_zero_iff [OF now oke] False by simp
        moreover have "remaining ?now e \<le> remaining ?now x" using inv Cons that by auto
        moreover have "event_ok x" using inv Cons that by auto
        ultimately show ?thesis using remaining_zero_iff [OF now] by fastforce
      qed
      then have "due tel = []" "filter (\<lambda>e. countdownTicks e \<noteq> ?now) (events tel) = events tel"
        using Cons by (auto simp: due_def filter_empty_conv filter_id_conv)
      then show ?thesis using Cons False Suc.prems(1) by (simp add: rearmed_def)
    next
      case True
      let ?t1 = "tel\<lparr>events := es\<rparr>"
      let ?t2 = "if tickPeriod e > 0 then addTimerEvent_noLock ?t1 (tickPeriod e) (e\<lparr>isSentToTask := True\<rparr>) else ?t1"
      have p: "tickPeriod e < COUNTDOWN_TICK_MODULAR" and ns: "\<not> isSentToTask e" using oke by (auto simp: event_ok_def)
      have i1: "timer_inv ?t1" using inv Cons by (simp add: timer_inv_def)
      have i2: "timer_inv ?t2" using i1 add_inv [OF i1 p, of "e\<lparr>isSentToTask := True\<rparr>"] p by simp
      have cur: "currentTick ?t2 = ?now" by (simp add: addTimerEvent_noLock_def Let_def)
      have ev: "events ?t2 = (if tickPeriod e > 0 then insertEvent ?now (tickPeriod e) (rearm ?now e) es else es)"
        by (simp add: addTimerEvent_noLock_def Let_def rearm_def)
      have ins: "filter P (insertEvent m w te xs) = filter P xs" if "\<not> P te" for P m w te xs
        using that by (induction xs) auto
      have nd: "countdownTicks (rearm ?now e) \<noteq> ?now" if "0 < tickPeriod e"
        using rearm_not_due(1) [OF Suc.prems(1) oke that] .
      have due2: "due ?t2 = due ?t1"
        unfolding due_def cur ev using ins nd by simp
      have duet: "due tel = e # due ?t1" using Cons True by (simp add: due_def)
      have "length (due ?t2) < n" using Suc.prems(2) duet due2 by simp
      from Suc.IH [OF i2 this] obtain tel' where r: "handleLoop n ?t2 = Some (map eventId (due ?t1), tel')"
        "timer_inv tel'" "currentTick tel' = ?now" "due tel' = []"
        "mset (events tel') = mset (filter (\<lambda>e. countdownTicks e \<noteq> ?now) (events ?t2)) + mset (rearmed ?t2)"
        unfolding due2 cur by blast
      have run: "handleLoop (Suc n) tel = Some (map eventId (due tel), tel')"
        using Cons True ns r(1) duet by (cases "tickPeriod e > 0") (simp_all add: Let_def)
      have "mset (filter (\<lambda>e. countdownTicks e \<noteq> ?now) (events ?t2)) =
        (if tickPeriod e > 0 then {#rearm ?now e#} else {#}) + mset (filter (\<lambda>e. countdownTicks e \<noteq> ?now) es)"
        unfolding ev using nd by (simp add: mset_filter mset_insertEvent)
      moreover have "mset (rearmed tel) = (if tickPeriod e > 0 then {#rearm ?now e#} else {#}) + mset (rearmed ?t2)"
        unfolding rearmed_def due2 cur duet by simp
      ultimately have "mset (events tel') = mset (filter (\<lambda>e. countdownTicks e \<noteq> ?now) (events tel)) + mset (rearmed tel)"
        using r(5) Cons True by simp
      then show ?thesis using run r(2-4) by blast
    qed
  qed
qed simp

lemma handleTimerEvents_spec:
  assumes "timer_inv tel"
  shows "\<exists>tel'. handleTimerEvents tel = Some (map eventId (due tel), tel') \<and> timer_inv tel' \<and>
    currentTick tel' = (currentTick tel + 1) mod COUNTDOWN_TICK_MODULAR \<and>
    mset (events tel') = mset (filter (\<lambda>e. countdownTicks e \<noteq> currentTick tel) (events tel)) + mset (rearmed tel) \<and>
    (\<forall>e\<in>set (events tel'). remaining (currentTick tel) e \<noteq> 0)"
proof -
  let ?now = "currentTick tel"
  have now: "?now < COUNTDOWN_TICK_MODULAR" using assms by (simp add: timer_inv_def)
  have "length (due tel) < length (events tel) + 1" by (simp add: due_def le_imp_less_Suc)
  from handleLoop_spec [OF assms this] obtain t where
    t: "handleLoop (length (events tel) + 1) tel = Some (map eventId (due tel), t)" "timer_inv t" "currentTick t = ?now"
      "due t = []" "mset (events t) = mset (filter (\<lambda>e. countdownTicks e \<noteq> ?now) (events tel)) + mset (rearmed tel)"
    by blast
  let ?t = "t\<lparr>currentTick := (?now + 1) mod COUNTDOWN_TICK_MODULAR\<rparr>"
  have pos: "remaining ?now e \<noteq> 0" if "e \<in> set (events t)" for e
    using that t(2-4) remaining_zero_iff [OF now] by (auto simp: timer_inv_def due_def filter_empty_conv)
  have "map (remaining (currentTick ?t)) (events t) = map (\<lambda>e. remaining ?now e - 1) (events t)"
    using remaining_next [OF now] pos t(2) by (auto simp: timer_inv_def)
  moreover have "sorted (map (\<lambda>e. remaining ?now e - 1) (events t))"
    using t(2,3) by (auto simp: timer_inv_def sorted_map intro: sorted_wrt_mono_rel [rotated])
  ultimately have "sorted (map (remaining (currentTick ?t)) (events t))" by (rule ssubst)
  then have "timer_inv ?t" using t(2) by (simp add: timer_inv_def)
  then show ?thesis using t(1,3,5) pos by (auto simp: handleTimerEvents_def)
qed

section \<open>Theorems\<close>

text \<open>A timer interrupt completes exactly the events whose time has come, in the order of the list,
  and the loop terminates. One-shot events leave the list, periodic events come back with their period
  as the remaining time, all others stay; the list remains ordered by the time left.\<close>

lemma handleTimerEvents_correct:
  assumes "timer_inv tel"
  shows "\<exists>tel'. handleTimerEvents tel = Some (map eventId (due tel), tel') \<and> timer_inv tel' \<and>
    mset (events tel') = mset (filter (\<lambda>e. countdownTicks e \<noteq> currentTick tel) (events tel)) + mset (rearmed tel)"
  using handleTimerEvents_spec [OF assms] by blast

definition sampleTimer :: TimerEventList where
  "sampleTimer = \<lparr>currentTick = 7, events =
    [\<lparr>eventId = 1, countdownTicks = 7, tickPeriod = 3, isSentToTask = False\<rparr>,
     \<lparr>eventId = 2, countdownTicks = 9, tickPeriod = 0, isSentToTask = False\<rparr>]\<rparr>"

lemma sampleTimer_inv: "timer_inv sampleTimer"
  by (simp add: timer_inv_def sampleTimer_def remaining_def event_ok_def)

fun interrupts :: "nat \<Rightarrow> TimerEventList \<Rightarrow> (nat list list \<times> TimerEventList) option" where
  "interrupts 0 tel = Some ([], tel)"
| "interrupts (Suc n) tel = do {
    (fired, tel) \<leftarrow> handleTimerEvents tel;
    (rest, tel) \<leftarrow> interrupts n tel;
    Some (fired # rest, tel)
  }"

lemma mset_filter_split: "mset (filter (\<lambda>x. \<not> P x) xs) + mset (filter P xs) = mset xs"
  by (induction xs) auto

lemma distinct_subseteq_mset: "distinct ys \<Longrightarrow> mset xs \<subseteq># mset ys \<Longrightarrow> distinct xs"
  by (metis distinct_append mset_append mset_eq_imp_distinct_iff mset_subset_eq_exists_conv ex_mset)

lemma distinct_ids_step:
  assumes "timer_inv tel" and "distinct (map eventId (events tel))" and "handleTimerEvents tel = Some (fired, tel')"
  shows "distinct (map eventId (events tel'))"
proof -
  let ?P = "\<lambda>e. countdownTicks e \<noteq> currentTick tel"
  have m: "mset (events tel') = mset (filter ?P (events tel)) + mset (rearmed tel)"
    using handleTimerEvents_spec [OF assms(1)] assms(3) by auto
  have ids: "map eventId (rearmed tel) = map eventId (filter (\<lambda>e. tickPeriod e > 0) (due tel))"
    by (simp add: rearmed_def rearm_def)
  have "mset (map eventId (events tel')) =
      image_mset eventId (mset (filter ?P (events tel))) + mset (map eventId (rearmed tel))"
    using m by simp
  also have "\<dots> \<subseteq># image_mset eventId (mset (filter ?P (events tel))) + image_mset eventId (mset (due tel))"
    unfolding ids by (simp add: image_mset_subseteq_mono)
  also have "\<dots> = mset (map eventId (events tel))"
    using mset_filter_split [of "\<lambda>e. countdownTicks e = currentTick tel" "events tel"]
    unfolding due_def by (metis image_mset_union mset_map)
  finally show ?thesis by (rule distinct_subseteq_mset [OF assms(2)])
qed

lemma waiting_step:
  assumes inv: "timer_inv tel" and d: "distinct (map eventId (events tel))"
    and e: "e \<in> set (events tel)" and r: "remaining (currentTick tel) e \<noteq> 0"
  shows "\<exists>fired tel'. handleTimerEvents tel = Some (fired, tel') \<and> eventId e \<notin> set fired \<and> timer_inv tel' \<and>
    distinct (map eventId (events tel')) \<and> e \<in> set (events tel') \<and>
    remaining (currentTick tel') e = remaining (currentTick tel) e - 1"
proof -
  obtain tel' where h: "handleTimerEvents tel = Some (map eventId (due tel), tel')" and inv': "timer_inv tel'"
    and cur: "currentTick tel' = (currentTick tel + 1) mod COUNTDOWN_TICK_MODULAR"
    and m: "mset (events tel') = mset (filter (\<lambda>e. countdownTicks e \<noteq> currentTick tel) (events tel)) + mset (rearmed tel)"
    using handleTimerEvents_spec [OF inv] by blast
  have now: "currentTick tel < COUNTDOWN_TICK_MODULAR" and ok: "event_ok e"
    using inv e by (auto simp: timer_inv_def)
  have late: "countdownTicks e \<noteq> currentTick tel" using remaining_zero_iff [OF now ok] r by simp
  have "eventId e \<notin> set (map eventId (due tel))"
    using d e late by (auto simp: due_def distinct_map dest: inj_onD)
  moreover have "e \<in># mset (events tel')" unfolding m using e late by simp
  ultimately show ?thesis
    using h inv' distinct_ids_step [OF inv d h] remaining_next [OF now ok r] cur by simp
qed

lemma fires_in_time:
  assumes "timer_inv tel" and "distinct (map eventId (events tel))" and "e \<in> set (events tel)"
    and "remaining (currentTick tel) e = r"
  shows "\<exists>fs tel'. interrupts (Suc r) tel = Some (fs, tel') \<and> length fs = Suc r \<and> eventId e \<in> set (fs ! r) \<and>
    (\<forall>i<r. eventId e \<notin> set (fs ! i))"
  using assms
proof (induction r arbitrary: tel)
  case 0
  obtain tel' where "handleTimerEvents tel = Some (map eventId (due tel), tel')"
    using handleTimerEvents_spec [OF 0(1)] by blast
  moreover have "e \<in> set (due tel)"
    using 0 remaining_zero_iff by (auto simp: due_def timer_inv_def)
  ultimately show ?case by auto
next
  case (Suc r)
  obtain fired tel' where h: "handleTimerEvents tel = Some (fired, tel')" "eventId e \<notin> set fired" "timer_inv tel'"
      "distinct (map eventId (events tel'))" "e \<in> set (events tel')" "remaining (currentTick tel') e = r"
    using waiting_step [OF Suc.prems(1-3)] Suc.prems(4) by auto
  obtain fs t where "interrupts (Suc r) tel' = Some (fs, t)" "length fs = Suc r" "eventId e \<in> set (fs ! r)"
      "\<forall>i<r. eventId e \<notin> set (fs ! i)"
    using Suc.IH [OF h(3-6)] by blast
  then show ?case using h(1,2)
    by (intro exI [of _ "fired # fs"] exI [of _ t]) (auto simp: nth_Cons split: nat.split simp del: interrupts.simps(2) simp: interrupts.simps(2) [of "Suc r" tel])
qed

text \<open>C10: An alarm rings on time, neither late nor early: an event added with a wait of \<open>w\<close> ticks to a
  well-formed list is completed by the timer interrupt number \<open>w\<close> counted from now, and by none
  of the interrupts before it, whatever other events the list holds.\<close>

theorem addTimerEvent_fires_on_time:
  assumes "timer_inv tel" and "distinct (map eventId (events tel))" and "eventId te \<notin> eventId ` set (events tel)"
    and "w < COUNTDOWN_TICK_MODULAR" and "tickPeriod te < COUNTDOWN_TICK_MODULAR"
  shows "\<exists>fs tel'. interrupts (Suc w) (addTimerEvent tel w te) = Some (fs, tel') \<and> length fs = Suc w \<and>
    eventId te \<in> set (fs ! w) \<and> (\<forall>i<w. eventId te \<notin> set (fs ! i))"
proof -
  let ?te = "te\<lparr>countdownTicks := (currentTick tel + w) mod COUNTDOWN_TICK_MODULAR, isSentToTask := False\<rparr>"
  let ?tel = "addTimerEvent tel w te"
  have now: "currentTick tel < COUNTDOWN_TICK_MODULAR" using assms(1) by (simp add: timer_inv_def)
  have ev: "events ?tel = insertEvent (currentTick tel) w ?te (events tel)" and cur: "currentTick ?tel = currentTick tel"
    by (simp_all add: addTimerEvent_def addTimerEvent_noLock_def Let_def)
  have "mset (map eventId (events ?tel)) = mset (eventId te # map eventId (events tel))"
    unfolding ev by (simp add: mset_insertEvent)
  then have "distinct (map eventId (events ?tel))"
    using assms(2,3) by (metis (no_types, lifting) distinct.simps(2) mset_eq_imp_distinct_iff set_map)
  moreover have "timer_inv ?tel" unfolding addTimerEvent_def using add_inv assms(1,4,5) by blast
  moreover have "?te \<in> set (events ?tel)" unfolding ev by simp
  moreover have "remaining (currentTick ?tel) ?te = w" unfolding cur by (rule remaining_added [OF now assms(4)])
  ultimately show ?thesis using fires_in_time [of ?tel ?te w] by simp
qed

theorem addTimerEvent_fires_on_time_witness:
  "\<exists>fs tel'. interrupts (Suc 4) (addTimerEvent sampleTimer 4 (createTimerEvent 5 0)) = Some (fs, tel') \<and>
    length fs = Suc 4 \<and> 5 \<in> set (fs ! 4) \<and> (\<forall>i<4. 5 \<notin> set (fs ! i))"
  using addTimerEvent_fires_on_time [OF sampleTimer_inv, of "createTimerEvent 5 0" 4]
  by (simp add: sampleTimer_def createTimerEvent_def)

end
