(* ===== verification/CommonLib.thy ===== *)
theory CommonLib
  imports Prelude
begin

text \<open>
  The string, memory and byte-order routines of \<open>lib/common.c\<close>. A \<open>const char *\<close>
  is the byte function behind the pointer (\<^typ>\<open>bytes\<close>); \<open>char\<close> is signed on the
  target, so the ordering comparisons read bytes with \<open>sint\<close>. Lengths and indices are
  \<open>uintptr_t\<close> values that address one 32-bit address space; they are natural numbers here.
  \<open>strlen\<close> and \<open>strcmp\<close> scan until a terminator and are partial: \<open>None\<close>
  means that the scan does not stop.
\<close>

subsection \<open>Byte memory: memset and memcpy\<close>

fun memset_from :: "(nat \<Rightarrow> u8) \<Rightarrow> nat \<Rightarrow> u8 \<Rightarrow> nat \<Rightarrow> nat \<Rightarrow> (nat \<Rightarrow> u8)" where
  "memset_from m d v i 0 = m"
| "memset_from m d v i (Suc n) = memset_from (m(d + i := v)) d v (Suc i) n"

definition memset :: "(nat \<Rightarrow> u8) \<Rightarrow> nat \<Rightarrow> u8 \<Rightarrow> nat \<Rightarrow> (nat \<Rightarrow> u8)" where
  "memset m ptr v n = memset_from m ptr v 0 n"

fun memcpy_from :: "(nat \<Rightarrow> u8) \<Rightarrow> nat \<Rightarrow> nat \<Rightarrow> nat \<Rightarrow> nat \<Rightarrow> (nat \<Rightarrow> u8)" where
  "memcpy_from m d s i 0 = m"
| "memcpy_from m d s i (Suc n) = memcpy_from (m(d + i := m (s + i))) d s (Suc i) n"

definition memcpy :: "(nat \<Rightarrow> u8) \<Rightarrow> nat \<Rightarrow> nat \<Rightarrow> nat \<Rightarrow> (nat \<Rightarrow> u8)" where
  "memcpy m dst src n = memcpy_from m dst src 0 n"

subsection \<open>Strings\<close>

partial_function (option) strlen_from :: "bytes \<Rightarrow> nat \<Rightarrow> nat option" where
  "strlen_from s len = (if s len \<noteq> 0 then strlen_from s (Suc len) else Some len)"

definition strlen :: "bytes \<Rightarrow> nat option" where
  "strlen s = strlen_from s 0"

partial_function (option) strcmp2_from :: "bytes \<Rightarrow> bytes \<Rightarrow> nat \<Rightarrow> bool \<Rightarrow> nat \<Rightarrow> int option" where
  "strcmp2_from s1 s2 n ncmp i =
     (if \<not> ncmp \<or> i < n then
        (if s1 i \<noteq> s2 i then Some (if sint (s1 i) > sint (s2 i) then 1 else -1)
         else if s1 i = 0 then Some 0
         else strcmp2_from s1 s2 n ncmp (Suc i))
      else Some 0)"

definition strcmp2 :: "bytes \<Rightarrow> bytes \<Rightarrow> nat \<Rightarrow> bool \<Rightarrow> int option" where
  "strcmp2 s1 s2 n ncmp = strcmp2_from s1 s2 n ncmp 0"

definition strncmp :: "bytes \<Rightarrow> bytes \<Rightarrow> nat \<Rightarrow> int option" where
  "strncmp s1 s2 n = strcmp2 s1 s2 n True"

definition strcmp :: "bytes \<Rightarrow> bytes \<Rightarrow> int option" where
  "strcmp s1 s2 = strcmp2 s1 s2 0 False"

fun strncpy_from :: "bytes \<Rightarrow> bytes \<Rightarrow> nat \<Rightarrow> nat \<Rightarrow> bytes" where
  "strncpy_from dst src a 0 = dst"
| "strncpy_from dst src a (Suc k) =
     (let dst' = dst(a := src a) in if src a = 0 then dst' else strncpy_from dst' src (Suc a) k)"

definition strncpy :: "bytes \<Rightarrow> bytes \<Rightarrow> nat \<Rightarrow> bytes" where
  "strncpy dst src n = strncpy_from dst src 0 n"

definition tolower :: "int \<Rightarrow> int" where
  "tolower c = (if c \<ge> 65 \<and> c \<le> 90 then c - 65 + 97 else c)"

definition toupper :: "int \<Rightarrow> int" where
  "toupper c = (if c \<ge> 97 \<and> c \<le> 122 then c - 97 + 65 else c)"

definition isspace :: "int \<Rightarrow> bool" where
  "isspace c = (c = 32 \<or> c = 9 \<or> c = 10 \<or> c = 11 \<or> c = 12 \<or> c = 13)"

subsection \<open>Byte order\<close>

definition changeEndian16 :: "u16 \<Rightarrow> u16" where
  "changeEndian16 v = push_bit 8 (v AND 0xff) + (drop_bit 8 v AND 0xff)"

definition changeEndian32 :: "u32 \<Rightarrow> u32" where
  "changeEndian32 v =
     push_bit 16 (ucast (changeEndian16 (ucast (v AND 0xffff))) :: u32)
     + (ucast (changeEndian16 (ucast (drop_bit 16 v))) AND 0xffff)"

definition changeEndian64 :: "u64 \<Rightarrow> u64" where
  "changeEndian64 v =
     push_bit 32 (ucast (changeEndian32 (ucast (v AND 0xffffffff))) :: u64)
     + (ucast (changeEndian32 (ucast (drop_bit 32 v))) AND 0xffffffff)"

subsection \<open>Length-delimited strings\<close>

definition isStringEqual :: "bytes \<Rightarrow> nat \<Rightarrow> bytes \<Rightarrow> nat \<Rightarrow> bool" where
  "isStringEqual s1 len1 s2 len2 =
     (if len1 \<noteq> len2 then False else strncmp s1 s2 len1 = Some 0)"

definition wildcard :: u8 where
  "wildcard = 42"

text \<open>The first loop of \<open>matchWildcardString\<close>: the part of the pattern behind its last
  wildcard is matched from the end. \<open>None\<close> is the early \<open>return 0\<close>.\<close>

function matchTail :: "bytes \<Rightarrow> bytes \<Rightarrow> nat \<Rightarrow> nat \<Rightarrow> (nat \<times> nat) option" where
  "matchTail str pat sLen pLen =
     (if pLen > 0 \<and> sLen > 0 then
        (if pat (pLen - 1) = wildcard then Some (sLen, pLen)
         else if pat (pLen - 1) \<noteq> str (sLen - 1) then None
         else matchTail str pat (sLen - 1) (pLen - 1))
      else Some (sLen, pLen))"
  by pat_completeness auto
termination
  by (relation "measure (\<lambda>(str, pat, sLen, pLen). sLen)") auto

text \<open>\<open>for(p1 = p0; p1 < pLen && pat[p1] != wildcard; p1++)\<close> and its counterpart that skips
  wildcards.\<close>

function indexOf :: "bytes \<Rightarrow> nat \<Rightarrow> nat \<Rightarrow> u8 \<Rightarrow> nat" where
  "indexOf s i len c = (if i < len \<and> s i \<noteq> c then indexOf s (i + 1) len c else i)"
  by pat_completeness auto
termination
  by (relation "measure (\<lambda>(s, i, len, c). len - i)") auto

function indexOfNot :: "bytes \<Rightarrow> nat \<Rightarrow> nat \<Rightarrow> u8 \<Rightarrow> nat" where
  "indexOfNot s i len c = (if i < len \<and> s i = c then indexOfNot s (i + 1) len c else i)"
  by pat_completeness auto
termination
  by (relation "measure (\<lambda>(s, i, len, c). len - i)") auto

text \<open>The inner \<open>while(1)\<close>: the next place at or behind \<open>s0\<close> where the pattern part
  \<open>[p0, p1)\<close> occurs; the result is the index behind it.\<close>

function matchSegment :: "bytes \<Rightarrow> bytes \<Rightarrow> nat \<Rightarrow> nat \<Rightarrow> nat \<Rightarrow> nat \<Rightarrow> nat option" where
  "matchSegment str pat sLen s0 p0 p1 =
     (if s0 + p1 - p0 > sLen then None
      else if isStringEqual (shift s0 str) (p1 - p0) (shift p0 pat) (p1 - p0) then Some (s0 + (p1 - p0))
      else matchSegment str pat sLen (s0 + 1) p0 p1)"
  by pat_completeness auto
termination
  by (relation "measure (\<lambda>(str, pat, sLen, s0, p0, p1). (sLen + p0 + 1) - (s0 + p1))") auto

declare matchTail.simps [simp del]
declare indexOf.simps [simp del]
declare indexOfNot.simps [simp del]
declare matchSegment.simps [simp del]

lemma indexOf_ge: "i \<le> indexOf s i len c"
  by (induction s i len c rule: indexOf.induct) (subst indexOf.simps, auto)

lemma indexOf_le: "i \<le> len \<Longrightarrow> indexOf s i len c \<le> len"
  by (induction s i len c rule: indexOf.induct) (subst indexOf.simps, auto)

lemma indexOfNot_ge: "i \<le> indexOfNot s i len c"
  by (induction s i len c rule: indexOfNot.induct) (subst indexOfNot.simps, auto)

lemma indexOfNot_le: "i \<le> len \<Longrightarrow> indexOfNot s i len c \<le> len"
  by (induction s i len c rule: indexOfNot.induct) (subst indexOfNot.simps, auto)

lemma indexOf_not_found: "k \<in> {i..<indexOf s i len c} \<Longrightarrow> s k \<noteq> c"
proof (induction s i len c rule: indexOf.induct)
  case (1 s i len c)
  show ?case
  proof (cases "i < len \<and> s i \<noteq> c")
    case True
    with "1.prems" have "k = i \<or> k \<in> {i + 1..<indexOf s (i + 1) len c}"
      by (auto simp: indexOf.simps [of s i len c])
    with True "1.IH" show ?thesis by auto
  next
    case False
    with "1.prems" show ?thesis by (subst (asm) indexOf.simps) auto
  qed
qed

lemma indexOf_found: "indexOf s i len c < len \<Longrightarrow> s (indexOf s i len c) = c"
proof (induction s i len c rule: indexOf.induct)
  case (1 s i len c)
  show ?case
  proof (cases "i < len \<and> s i \<noteq> c")
    case True
    with "1" show ?thesis by (simp add: indexOf.simps [of s i len c])
  next
    case False
    with "1.prems" show ?thesis by (simp add: indexOf.simps [of s i len c] split: if_splits)
  qed
qed

lemma indexOfNot_all: "k \<in> {i..<indexOfNot s i len c} \<Longrightarrow> s k = c"
proof (induction s i len c rule: indexOfNot.induct)
  case (1 s i len c)
  show ?case
  proof (cases "i < len \<and> s i = c")
    case True
    with "1.prems" have "k = i \<or> k \<in> {i + 1..<indexOfNot s (i + 1) len c}"
      by (auto simp: indexOfNot.simps [of s i len c])
    with True "1.IH" show ?thesis by auto
  next
    case False
    with "1.prems" show ?thesis by (subst (asm) indexOfNot.simps) auto
  qed
qed

lemma indexOfNot_progress: "p < len \<Longrightarrow> s p = c \<Longrightarrow> p < indexOfNot s p len c"
  using indexOfNot_ge [of "p + 1" s len c] by (subst indexOfNot.simps) simp

text \<open>The outer loop. \<open>p0\<close> is behind a wildcard or at the start of the pattern.\<close>

function matchSegments :: "bytes \<Rightarrow> bytes \<Rightarrow> nat \<Rightarrow> nat \<Rightarrow> nat \<Rightarrow> nat \<Rightarrow> bool" where
  "matchSegments str pat sLen pLen s0 p0 =
     (if p0 < pLen then
        (let p1 = indexOf pat p0 pLen wildcard in
         case matchSegment str pat sLen s0 p0 p1 of
           None \<Rightarrow> False
         | Some s0' \<Rightarrow> matchSegments str pat sLen pLen s0' (indexOfNot pat p1 pLen wildcard))
      else True)"
  by pat_completeness auto
termination
proof (relation "measure (\<lambda>(str, pat, sLen, pLen, s0, p0). pLen - p0)", goal_cases)
  case 1
  show ?case by simp
next
  case (2 str pat sLen pLen s0 p0 p1 s0')
  have "p0 < indexOfNot pat p1 pLen wildcard"
  proof (cases "p1 = p0")
    case True
    with 2 have "pat p0 = wildcard" using indexOf_found [of pat p0 pLen wildcard] by simp
    with True 2 show ?thesis by (simp add: indexOfNot_progress)
  next
    case False
    with 2 show ?thesis
      using indexOf_ge [of p0 pat pLen wildcard] indexOfNot_ge [of p1 pat pLen wildcard] by simp
  qed
  with 2 show ?case by auto
qed

declare matchSegments.simps [simp del]

definition matchWildcardString :: "bytes \<Rightarrow> nat \<Rightarrow> bytes \<Rightarrow> nat \<Rightarrow> bool" where
  "matchWildcardString str sLen pat pLen =
     (case matchTail str pat sLen pLen of
        None \<Rightarrow> False
      | Some (sLen', pLen') \<Rightarrow>
          if pLen' = 0 then sLen' = 0
          else matchSegments str pat sLen' pLen' 0 0)"

subsection \<open>Facts about the memory routines\<close>

lemma memset_from_apply:
  "memset_from m d v i n a = (if d + i \<le> a \<and> a < d + i + n then v else m a)"
  by (induction m d v i n rule: memset_from.induct) (auto simp del: fun_upd_apply, auto)

lemma memcpy_from_apply:
  assumes "d + (i + n) \<le> s \<or> s + (i + n) \<le> d \<or> d = s"
  shows "memcpy_from m d s i n a = (if d + i \<le> a \<and> a < d + i + n then m (s + (a - d)) else m a)"
  using assms
proof (induction n arbitrary: m i)
  case 0
  then show ?case by auto
next
  case (Suc n)
  let ?m = "m(d + i := m (s + i))"
  have IH: "memcpy_from ?m d s (Suc i) n a =
      (if d + Suc i \<le> a \<and> a < d + Suc i + n then ?m (s + (a - d)) else ?m a)"
    by (rule Suc.IH) (use Suc.prems in auto)
  show ?case
  proof (cases "a = d + i")
    case True
    with IH show ?thesis by simp
  next
    case False
    have "d + Suc i \<le> a \<Longrightarrow> a < d + Suc i + n \<Longrightarrow> s + (a - d) \<noteq> d + i"
      using Suc.prems False by auto
    with IH False show ?thesis by auto
  qed
qed

subsection \<open>Facts about the string routines\<close>

lemma strcmp2_from_total: "i \<le> n \<Longrightarrow> \<exists>r. strcmp2_from s1 s2 n True i = Some r"
proof (induction "n - i" arbitrary: i)
  case 0
  then show ?case by (subst strcmp2_from.simps) simp
next
  case (Suc k)
  then have "\<exists>r. strcmp2_from s1 s2 n True (Suc i) = Some r" by simp
  then show ?case by (subst strcmp2_from.simps) auto
qed

lemma strcmp2_from_eq_0:
  assumes "i \<le> n" and "\<forall>k\<in>{i..<n}. s1 k \<noteq> 0"
  shows "strcmp2_from s1 s2 n True i = Some 0 \<longleftrightarrow> (\<forall>k\<in>{i..<n}. s1 k = s2 k)"
  using assms
proof (induction "n - i" arbitrary: i)
  case 0
  then show ?case by (subst strcmp2_from.simps) simp
next
  case (Suc k)
  then have IH: "strcmp2_from s1 s2 n True (Suc i) = Some 0 \<longleftrightarrow> (\<forall>k\<in>{Suc i..<n}. s1 k = s2 k)"
    by simp
  from Suc.hyps have i: "{i..<n} = insert i {Suc i..<n}" by auto
  from Suc.prems Suc.hyps have "s1 i \<noteq> 0" "i < n" by simp_all
  then show ?case unfolding i by (subst strcmp2_from.simps) (simp add: IH)
qed

lemma strncmp_eq_0:
  "\<forall>k<n. s1 k \<noteq> 0 \<Longrightarrow> strncmp s1 s2 n = Some 0 \<longleftrightarrow> (\<forall>k<n. s1 k = s2 k)"
  using strcmp2_from_eq_0 [of 0 n s1 s2] by (simp add: strncmp_def strcmp2_def Ball_def)

lemma strcmp2_from_same: "i \<le> n \<Longrightarrow> strcmp2_from s s n True i = Some 0"
proof (induction "n - i" arbitrary: i)
  case 0
  then show ?case by (subst strcmp2_from.simps) simp
next
  case (Suc k)
  then show ?case using Suc(1) [of "Suc i"] by (subst strcmp2_from.simps) simp
qed

lemma strncmp_same [simp]: "strncmp s s n = Some 0"
  by (simp add: strncmp_def strcmp2_def strcmp2_from_same)

lemma isStringEqual_view:
  assumes "0 \<notin> set (view s1 0 n1)"
  shows "isStringEqual s1 n1 s2 n2 \<longleftrightarrow> view s1 0 n1 = view s2 0 n2"
proof (cases "n1 = n2")
  case True
  have "\<forall>k<n1. s1 k \<noteq> 0" using assms by (auto simp: set_view)
  then show ?thesis
    using True view_eq_iff [of s1 0 n1 s2 0] by (simp add: isStringEqual_def strncmp_eq_0)
next
  case False
  then have "length (view s1 0 n1) \<noteq> length (view s2 0 n2)" by simp
  then have "view s1 0 n1 \<noteq> view s2 0 n2" by metis
  with False show ?thesis by (simp add: isStringEqual_def)
qed

lemma strlen_from_Some:
  "strlen_from s i = Some n \<Longrightarrow> i \<le> n \<and> s n = 0 \<and> (\<forall>k\<in>{i..<n}. s k \<noteq> 0)"
proof (rule strlen_from.raw_induct [where P = "\<lambda>s i n. i \<le> n \<and> s n = 0 \<and> (\<forall>k\<in>{i..<n}. s k \<noteq> 0)"])
  fix f :: "bytes \<Rightarrow> nat \<Rightarrow> nat option" and s i n
  assume IH: "\<And>s i n. f s i = Some n \<Longrightarrow> i \<le> n \<and> s n = 0 \<and> (\<forall>k\<in>{i..<n}. s k \<noteq> 0)"
    and eq: "(if s i \<noteq> 0 then f s (Suc i) else Some i) = Some n"
  show "i \<le> n \<and> s n = 0 \<and> (\<forall>k\<in>{i..<n}. s k \<noteq> 0)"
  proof (cases "s i = 0")
    case True
    with eq show ?thesis by simp
  next
    case False
    with eq have "f s (Suc i) = Some n" by simp
    note h = IH [OF this]
    then have "{i..<n} = insert i {Suc i..<n}" by auto
    with h False show ?thesis by auto
  qed
qed

lemma strlen_from_stops:
  "i \<le> n \<Longrightarrow> s n = 0 \<Longrightarrow> (\<forall>k\<in>{i..<n}. s k \<noteq> 0) \<Longrightarrow> strlen_from s i = Some n"
proof (induction "n - i" arbitrary: i)
  case 0
  then show ?case by (subst strlen_from.simps) simp
next
  case (Suc k)
  then have "s i \<noteq> 0" by simp
  moreover have "strlen_from s (Suc i) = Some n" by (rule Suc.hyps(1)) (use Suc in auto)
  ultimately show ?case by (subst strlen_from.simps) simp
qed

subsection \<open>Byte order\<close>

lemma and_mask8: "(v :: 'a::len word) AND 0xff = take_bit 8 v"
  by (simp add: take_bit_eq_mask mask_eq_exp_minus_1)

lemma and_mask16: "(v :: 'a::len word) AND 0xffff = take_bit 16 v"
  by (simp add: take_bit_eq_mask mask_eq_exp_minus_1)

lemma and_mask32: "(v :: 'a::len word) AND 0xffffffff = take_bit 32 v"
  by (simp add: take_bit_eq_mask mask_eq_exp_minus_1)

lemma push_add_take:
  "bit (push_bit k x + take_bit k y) n \<longleftrightarrow>
     n < LENGTH('a) \<and> (if n < k then bit y n else bit x (n - k))" for x y :: "'a::len word"
proof -
  have "push_bit k x AND take_bit k y = 0"
    by (rule bit_word_eqI) (auto simp: bit_simps)
  then have "push_bit k x + take_bit k y = push_bit k x OR take_bit k y"
    by (rule disjunctive_add_eq_or)
  then show ?thesis by (auto simp: bit_simps dest: bit_imp_le_length)
qed

lemma changeEndian16_bit:
  "bit (changeEndian16 v) n \<longleftrightarrow> n < 16 \<and> bit v ((n + 8) mod 16)"
proof (cases "n < 8")
  case True
  then show ?thesis
    by (simp add: changeEndian16_def and_mask8 push_add_take) (simp add: bit_simps add.commute)
next
  case False
  then obtain m where n: "n = 8 + m" by (metis add.commute le_Suc_ex not_less)
  then show ?thesis
    by (cases "m < 8")
      (simp_all add: changeEndian16_def and_mask8 push_add_take mod_if, simp_all add: bit_simps)
qed

lemma changeEndian32_bit:
  "bit (changeEndian32 v) n \<longleftrightarrow>
     n < 32 \<and> bit v (if n < 16 then 16 + (n + 8) mod 16 else (n - 8) mod 16)"
proof (cases "n < 16")
  case True
  then show ?thesis
    by (simp add: changeEndian32_def and_mask16 push_add_take)
      (simp add: bit_simps changeEndian16_bit)
next
  case False
  have m: "(n - 16 + 8) mod 16 = (n - 8) mod 16" if "\<not> n < 16"
    using that by (simp add: not_less)
  from False show ?thesis
    by (simp add: changeEndian32_def and_mask16 push_add_take)
      (auto simp add: bit_simps changeEndian16_bit m)
qed

lemma changeEndian64_bit:
  "bit (changeEndian64 v) n \<longleftrightarrow>
     n < 64 \<and> (if n < 32 then bit (changeEndian32 (ucast (drop_bit 32 v))) n
               else bit (changeEndian32 (ucast v)) (n - 32))"
proof (cases "n < 32")
  case True
  then show ?thesis
    by (simp add: changeEndian64_def and_mask32 push_add_take) (simp add: bit_simps)
next
  case False
  have "ucast (take_bit 32 v) = (ucast v :: u32)"
    by (rule bit_word_eqI) (simp add: bit_simps)
  with False show ?thesis
    by (simp add: changeEndian64_def and_mask32 push_add_take)
      (auto simp add: bit_simps dest: bit_imp_le_length)
qed

lemma swap16: "((m + 8) mod 16 + 8) mod 16 = m mod (16::nat)"
  by (simp add: mod_add_left_eq)

lemma changeEndian16_involution [simp]: "changeEndian16 (changeEndian16 v) = v"
  by (rule bit_word_eqI) (simp add: changeEndian16_bit swap16)

lemma changeEndian32_involution [simp]: "changeEndian32 (changeEndian32 v) = v"
proof (rule bit_word_eqI)
  fix n assume n: "n < LENGTH(32)"
  show "bit (changeEndian32 (changeEndian32 v)) n = bit v n"
  proof (cases "n < 16")
    case True
    have "16 + (n + 8) mod 16 - 8 = (n + 8) mod 16 + 8" by simp
    then have "(16 + (n + 8) mod 16 - 8) mod 16 = n" using swap16 [of n] True by (simp add: add.commute)
    moreover have "16 + (n + 8) mod 16 < 32" by simp
    ultimately show ?thesis using True n by (simp add: changeEndian32_bit)
  next
    case False
    then obtain m where m: "n = 16 + m" by (metis le_Suc_ex not_less)
    then have "(n - 8) mod 16 = (m + 8) mod 16" by (simp add: add.commute)
    moreover have "(m + 8) mod 16 < 32" by (rule less_trans [of _ 16]) simp_all
    moreover have "((m + 8) mod 16 + 8) mod 16 = m" using swap16 [of m] m n by simp
    ultimately show ?thesis using m n by (simp add: changeEndian32_bit)
  qed
qed

lemma changeEndian64_involution [simp]: "changeEndian64 (changeEndian64 v) = v"
proof -
  have lo: "ucast (drop_bit 32 (changeEndian64 v)) = changeEndian32 (ucast v)"
    by (rule bit_word_eqI) (simp add: bit_simps changeEndian64_bit)
  have hi: "ucast (changeEndian64 v) = changeEndian32 (ucast (drop_bit 32 v))"
    by (rule bit_word_eqI) (simp add: bit_simps changeEndian64_bit)
  show ?thesis
    by (rule bit_word_eqI)
      (auto simp: changeEndian64_bit [of "changeEndian64 v"] lo hi, simp_all add: bit_simps)
qed

subsection \<open>Wildcard patterns: a reference definition\<close>

text \<open>The language of a pattern, by structural recursion: a wildcard stands for any string,
  any other byte for itself. \<open>glob_spec\<close> is what \<open>matchWildcardString\<close> is proved
  to decide: a pattern with a wildcard is matched as if another wildcard stood before it.\<close>

fun glob :: "u8 list \<Rightarrow> u8 list \<Rightarrow> bool" where
  "glob [] s = (s = [])"
| "glob (p # ps) [] = (p = wildcard \<and> glob ps [])"
| "glob (p # ps) (c # cs) =
     (if p = wildcard then glob ps (c # cs) \<or> glob (p # ps) cs else p = c \<and> glob ps cs)"

definition glob_spec :: "u8 list \<Rightarrow> u8 list \<Rightarrow> bool" where
  "glob_spec pat s = (if wildcard \<in> set pat then glob (wildcard # pat) s else glob pat s)"

lemma glob_wild: "glob (wildcard # ps) s \<longleftrightarrow> (\<exists>u v. s = u @ v \<and> glob ps v)"
proof (induction s)
  case Nil
  then show ?case by simp
next
  case (Cons c cs)
  show ?case
  proof
    assume "glob (wildcard # ps) (c # cs)"
    then consider "glob ps (c # cs)" | "glob (wildcard # ps) cs" by auto
    then show "\<exists>u v. c # cs = u @ v \<and> glob ps v"
    proof cases
      case 1
      then show ?thesis by (metis append_Nil)
    next
      case 2
      then show ?thesis using Cons.IH by (metis append_Cons)
    qed
  next
    assume "\<exists>u v. c # cs = u @ v \<and> glob ps v"
    then obtain u v where uv: "c # cs = u @ v" "glob ps v" by blast
    then show "glob (wildcard # ps) (c # cs)"
      using Cons.IH by (cases u) auto
  qed
qed

lemma glob_wild_suffix: "glob (wildcard # ps) v \<Longrightarrow> glob (wildcard # ps) (u @ v)"
  by (metis append_assoc glob_wild)

lemma glob_wild_drop: "glob (wildcard # ps) (drop j s) \<Longrightarrow> i \<le> j \<Longrightarrow> glob (wildcard # ps) (drop i s)"
proof -
  assume "glob (wildcard # ps) (drop j s)" "i \<le> j"
  moreover have "drop i s = take (j - i) (drop i s) @ drop j s"
    using \<open>i \<le> j\<close> by (metis append_take_drop_id drop_drop le_add_diff_inverse2)
  ultimately show ?thesis by (metis glob_wild_suffix)
qed

lemma glob_literal:
  "wildcard \<notin> set seg \<Longrightarrow> glob (seg @ ps) s \<longleftrightarrow> (\<exists>v. s = seg @ v \<and> glob ps v)"
proof (induction seg arbitrary: s)
  case Nil
  then show ?case by simp
next
  case (Cons p seg)
  then show ?case by (cases s) auto
qed

lemma glob_wilds: "set ws \<subseteq> {wildcard} \<Longrightarrow> glob (wildcard # ws @ ps) s \<longleftrightarrow> glob (wildcard # ps) s"
proof (induction ws)
  case Nil
  then show ?case by simp
next
  case (Cons w ws)
  then have w: "w = wildcard" "set ws \<subseteq> {wildcard}" by auto
  have "glob (wildcard # w # ws @ ps) s \<longleftrightarrow> glob (wildcard # ws @ ps) s"
    unfolding w by (metis append_assoc append_Nil glob_wild)
  then show ?case using Cons.IH w by simp
qed

lemma glob_snoc_literal:
  assumes "c \<noteq> wildcard"
  shows "glob (ps @ [c]) s \<longleftrightarrow> (\<exists>s'. s = s' @ [c] \<and> glob ps s')"
proof (induction ps s rule: glob.induct)
  case (1 s)
  then show ?case using assms by (cases s) auto
next
  case (2 p ps)
  then show ?case by simp
next
  case (3 p ps x xs)
  show ?case
  proof (cases "p = wildcard")
    case True
    have "glob (wildcard # ps @ [c]) (x # xs) \<longleftrightarrow>
        (\<exists>s'. x # xs = s' @ [c] \<and> glob ps s') \<or> (\<exists>s'. xs = s' @ [c] \<and> glob (wildcard # ps) s')"
      using 3 True by simp
    also have "\<dots> \<longleftrightarrow> (\<exists>s'. x # xs = s' @ [c] \<and> glob (wildcard # ps) s')"
    proof (intro iffI; elim disjE exE conjE)
      fix s' assume "x # xs = s' @ [c]" "glob ps s'"
      then show "\<exists>s'. x # xs = s' @ [c] \<and> glob (wildcard # ps) s'"
        by (metis append_Nil glob_wild)
    next
      fix s' assume "xs = s' @ [c]" "glob (wildcard # ps) s'"
      then show "\<exists>s'. x # xs = s' @ [c] \<and> glob (wildcard # ps) s'"
        using glob_wild_suffix [of ps s' "[x]"] by (intro exI [of _ "x # s'"]) simp
    next
      fix s' assume s': "x # xs = s' @ [c]" "glob (wildcard # ps) s'"
      then show "(\<exists>s'. x # xs = s' @ [c] \<and> glob ps s') \<or> (\<exists>s'. xs = s' @ [c] \<and> glob (wildcard # ps) s')"
        by (cases s') auto
    qed
    finally show ?thesis using True by simp
  next
    case False
    then show ?thesis using 3 by (auto simp: Cons_eq_append_conv)
  qed
qed

subsection \<open>The matcher decides the reference\<close>

lemma indexOf_less: "k \<in> {i..<len} \<Longrightarrow> s k = c \<Longrightarrow> indexOf s i len c < len"
proof (rule ccontr)
  assume k: "k \<in> {i..<len}" "s k = c" and "\<not> indexOf s i len c < len"
  then have "k \<in> {i..<indexOf s i len c}" by auto
  with k show False using indexOf_not_found by blast
qed

lemma segment_match:
  assumes "0 \<notin> set (view str 0 sLen)" and "s + (p1 - p0) \<le> sLen" and "p0 \<le> p1"
  shows "isStringEqual (shift s str) (p1 - p0) (shift p0 pat) (p1 - p0) \<longleftrightarrow>
    view str s (s + (p1 - p0)) = view pat p0 p1"
proof -
  have "0 \<notin> set (view (shift s str) 0 (p1 - p0))"
    using assms by (auto simp: view_shift set_view)
  from isStringEqual_view [OF this] show ?thesis using assms(3) by (simp add: view_shift)
qed

lemma matchSegment_Some:
  assumes "0 \<notin> set (view str 0 sLen)" and "p0 \<le> p1"
    and "matchSegment str pat sLen s0 p0 p1 = Some s1"
  shows "\<exists>s\<ge>s0. s1 = s + (p1 - p0) \<and> s1 \<le> sLen \<and> view str s s1 = view pat p0 p1 \<and>
    (\<forall>t\<in>{s0..<s}. view str t (t + (p1 - p0)) \<noteq> view pat p0 p1)"
  using assms
proof (induction str pat sLen s0 p0 p1 rule: matchSegment.induct)
  case (1 str pat sLen s0 p0 p1)
  from "1.prems"(3) have le: "s0 + (p1 - p0) \<le> sLen"
    using "1.prems"(2) by (subst (asm) matchSegment.simps) (auto split: if_splits)
  note m = segment_match [OF "1.prems"(1) le "1.prems"(2), of pat]
  show ?case
  proof (cases "view str s0 (s0 + (p1 - p0)) = view pat p0 p1")
    case True
    with m "1.prems" le have "s1 = s0 + (p1 - p0)"
      by (subst (asm) matchSegment.simps) (auto split: if_splits)
    with True le show ?thesis by (intro exI [of _ s0]) auto
  next
    case False
    with m "1.prems" le have
      rec: "matchSegment str pat sLen (s0 + 1) p0 p1 = Some s1" and
      ne: "\<not> isStringEqual (shift s0 str) (p1 - p0) (shift p0 pat) (p1 - p0)"
      by (subst (asm) matchSegment.simps, auto split: if_splits)+
    have "\<not> sLen < s0 + p1 - p0" using le "1.prems"(2) by simp
    from "1.IH" [OF this ne "1.prems"(1,2) rec]
    obtain s where s: "s \<ge> s0 + 1" "s1 = s + (p1 - p0)" "s1 \<le> sLen" "view str s s1 = view pat p0 p1"
      "\<forall>t\<in>{s0 + 1..<s}. view str t (t + (p1 - p0)) \<noteq> view pat p0 p1" by blast
    have "{s0..<s} = insert s0 {s0 + 1..<s}" using s(1) by auto
    with s False show ?thesis by (intro exI [of _ s]) auto
  qed
qed

lemma matchSegment_None:
  assumes "0 \<notin> set (view str 0 sLen)" and "p0 \<le> p1"
    and "matchSegment str pat sLen s0 p0 p1 = None"
    and "s0 \<le> t" and "t + (p1 - p0) \<le> sLen"
  shows "view str t (t + (p1 - p0)) \<noteq> view pat p0 p1"
  using assms
proof (induction str pat sLen s0 p0 p1 rule: matchSegment.induct)
  case (1 str pat sLen s0 p0 p1)
  have le: "s0 + (p1 - p0) \<le> sLen" using "1.prems" by simp
  note m = segment_match [OF "1.prems"(1) le "1.prems"(2), of pat]
  have nlt: "\<not> sLen < s0 + p1 - p0" using le "1.prems"(2) by simp
  have ne: "\<not> isStringEqual (shift s0 str) (p1 - p0) (shift p0 pat) (p1 - p0)"
    and rec: "matchSegment str pat sLen (s0 + 1) p0 p1 = None"
    using "1.prems"(3) nlt by (subst (asm) matchSegment.simps, auto split: if_splits)+
  show ?case
  proof (cases "t = s0")
    case True
    with ne m show ?thesis by simp
  next
    case False
    with "1.prems" have "s0 + 1 \<le> t" by simp
    from "1.IH" [OF nlt ne "1.prems"(1,2) rec this "1.prems"(5)] show ?thesis .
  qed
qed

lemma matchSegments_glob:
  assumes "0 \<notin> set (view str 0 sLen)" and "s0 \<le> sLen" and "p0 \<le> pLen"
    and "p0 < pLen \<Longrightarrow> pat (pLen - 1) = wildcard"
  shows "matchSegments str pat sLen pLen s0 p0 \<longleftrightarrow>
    glob (wildcard # view pat p0 pLen) (view str s0 sLen)"
  using assms
proof (induction str pat sLen pLen s0 p0 rule: matchSegments.induct)
  case (1 str pat sLen pLen s0 p0)
  show ?case
  proof (cases "p0 < pLen")
    case False
    then show ?thesis by (subst matchSegments.simps) (auto simp: glob_wild)
  next
    case True
    define p1 where "p1 = indexOf pat p0 pLen wildcard"
    define p2 where "p2 = indexOfNot pat p1 pLen wildcard"
    have last: "pat (pLen - 1) = wildcard" using True "1.prems" by simp
    have p1: "p0 \<le> p1" "p1 < pLen" "pat p1 = wildcard"
      using indexOf_ge [of p0 pat pLen wildcard] indexOf_less [of "pLen - 1" p0 pLen pat wildcard]
        indexOf_found [of pat p0 pLen wildcard] last True by (auto simp: p1_def)
    have p2: "p1 < p2" "p2 \<le> pLen"
      using indexOfNot_progress [of p1 pLen pat wildcard] indexOfNot_le [of p1 pLen pat wildcard] p1
      by (auto simp: p2_def)
    let ?seg = "view pat p0 p1"
    let ?rest = "view pat p2 pLen"
    have noW: "wildcard \<notin> set ?seg"
    proof
      assume "wildcard \<in> set ?seg"
      then obtain k where "k \<in> {p0..<p1}" "pat k = wildcard" by (auto simp: set_view)
      then show False using indexOf_not_found [of k p0 pat pLen wildcard] by (simp add: p1_def)
    qed
    have ws: "set (view pat (Suc p1) p2) \<subseteq> {wildcard}"
      using indexOfNot_all [of _ p1 pat pLen wildcard] by (auto simp: set_view p2_def)
    have pat_split: "view pat p0 pLen = ?seg @ wildcard # view pat (Suc p1) p2 @ ?rest"
      using p1 p2 view_Cons [of p1 p2 pat] view_append [of p0 p1 pLen pat] view_append [of p1 p2 pLen pat]
      by (metis append_Cons less_imp_le)
    have spec: "glob (wildcard # view pat p0 pLen) S \<longleftrightarrow>
        (\<exists>u v. S = u @ ?seg @ v \<and> glob (wildcard # ?rest) v)" for S
      unfolding pat_split glob_wild [of "?seg @ _"] glob_literal [OF noW] glob_wilds [OF ws] by blast
    show ?thesis
    proof (cases "matchSegment str pat sLen s0 p0 p1")
      case None
      have "\<not> (\<exists>u v. view str s0 sLen = u @ ?seg @ v \<and> glob (wildcard # ?rest) v)"
      proof clarify
        fix u v assume uv: "view str s0 sLen = u @ ?seg @ v"
        then have len: "sLen - s0 = length u + (p1 - p0) + length v"
          by (metis length_append length_view add.assoc)
        let ?t = "s0 + length u"
        have t: "?t + (p1 - p0) \<le> sLen" using len "1.prems"(2) by linarith
        have "take (p1 - p0) (drop (length u) (view str s0 sLen)) = ?seg"
          unfolding uv by simp
        moreover have "take (p1 - p0) (drop (length u) (view str s0 sLen)) = view str ?t (?t + (p1 - p0))"
          using t by (intro nth_equalityI) (auto simp: add.assoc)
        ultimately show False
          using matchSegment_None [OF "1.prems"(1) p1(1) None, of ?t] t by simp
      qed
      with None True show ?thesis
        unfolding spec by (subst matchSegments.simps) (simp add: p1_def [symmetric])
    next
      case (Some s1)
      from matchSegment_Some [OF "1.prems"(1) p1(1) Some]
      obtain s where s: "s0 \<le> s" "s1 = s + (p1 - p0)" "s1 \<le> sLen" "view str s s1 = ?seg"
        "\<forall>t\<in>{s0..<s}. view str t (t + (p1 - p0)) \<noteq> ?seg" by blast
      have rec: "matchSegments str pat sLen pLen s1 p2 \<longleftrightarrow> glob (wildcard # ?rest) (view str s1 sLen)"
        unfolding p2_def
        by (rule "1.IH" [OF True p1_def Some]) (use "1.prems"(1) s(3) p2 last in \<open>auto simp: p2_def\<close>)
      have "(\<exists>u v. view str s0 sLen = u @ ?seg @ v \<and> glob (wildcard # ?rest) v) \<longleftrightarrow>
          glob (wildcard # ?rest) (view str s1 sLen)"
      proof
        assume "\<exists>u v. view str s0 sLen = u @ ?seg @ v \<and> glob (wildcard # ?rest) v"
        then obtain u v where uv: "view str s0 sLen = u @ ?seg @ v" "glob (wildcard # ?rest) v" by blast
        let ?t = "s0 + length u"
        have len: "sLen - s0 = length u + (p1 - p0) + length v"
          using uv(1) by (metis length_append length_view add.assoc)
        then have t: "?t + (p1 - p0) \<le> sLen" using "1.prems"(2) by linarith
        have "view str ?t (?t + (p1 - p0)) = take (p1 - p0) (drop (length u) (view str s0 sLen))"
          using t by (intro nth_equalityI) (auto simp: add.assoc)
        then have "view str ?t (?t + (p1 - p0)) = ?seg" unfolding uv by simp
        with s(5) have "s \<le> ?t" by (metis atLeastLessThan_iff le_add1 not_less)
        moreover have "v = drop (length u + (p1 - p0)) (view str s0 sLen)" unfolding uv by simp
        moreover have "view str s1 sLen = drop (s1 - s0) (view str s0 sLen)"
          using s by (intro nth_equalityI) auto
        ultimately show "glob (wildcard # ?rest) (view str s1 sLen)"
          using uv(2) s(1,2) glob_wild_drop [of ?rest "length u + (p1 - p0)" "view str s0 sLen" "s1 - s0"]
          by simp
      next
        assume "glob (wildcard # ?rest) (view str s1 sLen)"
        moreover have "view str s0 sLen = view str s0 s @ ?seg @ view str s1 sLen"
          using s view_append [of s0 s sLen str] view_append [of s s1 sLen str] by simp
        ultimately show "\<exists>u v. view str s0 sLen = u @ ?seg @ v \<and> glob (wildcard # ?rest) v" by blast
      qed
      with Some True rec show ?thesis
        unfolding spec by (subst matchSegments.simps) (simp add: p1_def [symmetric] p2_def [symmetric])
    qed
  qed
qed

lemma glob_spec_snoc:
  "c \<noteq> wildcard \<Longrightarrow> glob_spec (ps @ [c]) (s @ [d]) \<longleftrightarrow> c = d \<and> glob_spec ps s"
  using glob_snoc_literal [of c ps "s @ [d]"] glob_snoc_literal [of c "wildcard # ps" "s @ [d]"]
  by (auto simp: glob_spec_def)

lemma glob_spec_snoc_Nil: "c \<noteq> wildcard \<Longrightarrow> \<not> glob_spec (ps @ [c]) []"
  using glob_snoc_literal [of c ps "[]"] glob_snoc_literal [of c "wildcard # ps" "[]"]
  by (auto simp: glob_spec_def)

lemma matchTail_glob_spec:
  "case matchTail str pat sLen pLen of
     None \<Rightarrow> \<not> glob_spec (view pat 0 pLen) (view str 0 sLen)
   | Some (s', p') \<Rightarrow> s' \<le> sLen \<and> p' \<le> pLen \<and> (p' = 0 \<or> s' = 0 \<or> pat (p' - 1) = wildcard) \<and>
       glob_spec (view pat 0 pLen) (view str 0 sLen) = glob_spec (view pat 0 p') (view str 0 s')"
proof (induction str pat sLen pLen rule: matchTail.induct)
  case (1 str pat sLen pLen)
  show ?case
  proof (cases "pLen > 0 \<and> sLen > 0 \<and> pat (pLen - 1) \<noteq> wildcard")
    case False
    then show ?thesis by (subst matchTail.simps) auto
  next
    case True
    then have c: "pat (pLen - 1) \<noteq> wildcard" by simp
    have snoc: "view pat 0 pLen = view pat 0 (pLen - 1) @ [pat (pLen - 1)]"
      "view str 0 sLen = view str 0 (sLen - 1) @ [str (sLen - 1)]"
      using True by (simp_all add: view_snoc)
    show ?thesis
    proof (cases "pat (pLen - 1) = str (sLen - 1)")
      case False
      with True show ?thesis
        using glob_spec_snoc [OF c, of "view pat 0 (pLen - 1)" "view str 0 (sLen - 1)" "str (sLen - 1)"] snoc
        by (subst matchTail.simps) simp
    next
      case eq: True
      with True "1.IH" show ?thesis
        by (subst matchTail.simps) (auto simp: snoc glob_spec_snoc split: option.splits)
    qed
  qed
qed

lemma matchSegments_empty_string:
  assumes "p0 < pLen" and "pat (pLen - 1) \<noteq> wildcard"
  shows "\<not> matchSegments str pat 0 pLen 0 p0"
  using assms
proof (induction str pat "0::nat" pLen "0::nat" p0 rule: matchSegments.induct)
  case (1 str pat pLen p0)
  define p1 where "p1 = indexOf pat p0 pLen wildcard"
  define p2 where "p2 = indexOfNot pat p1 pLen wildcard"
  have p1: "p0 \<le> p1" "p1 \<le> pLen"
    using indexOf_ge [of p0 pat pLen wildcard] indexOf_le [of p0 pLen pat wildcard] "1.prems"
    by (simp_all add: p1_def)
  show ?case
  proof (cases "p1 = p0")
    case False
    then have "matchSegment str pat 0 0 p0 p1 = None"
      using p1 by (subst matchSegment.simps) simp
    then show ?thesis using "1.prems"(1) by (subst matchSegments.simps) (simp add: p1_def [symmetric])
  next
    case True
    have seg: "matchSegment str pat 0 0 p0 p1 = Some 0"
      unfolding True by (subst matchSegment.simps)
        (simp add: isStringEqual_def strncmp_def strcmp2_def, subst strcmp2_from.simps, simp)
    have "p2 \<le> pLen" using indexOfNot_le [of p1 pLen pat wildcard] p1 by (simp add: p2_def)
    moreover have "p2 \<noteq> pLen"
    proof
      assume "p2 = pLen"
      then have "pLen - 1 \<in> {p1..<indexOfNot pat p1 pLen wildcard}"
        using True "1.prems"(1) by (auto simp: p2_def)
      then show False using indexOfNot_all "1.prems"(2) by blast
    qed
    ultimately have "\<not> matchSegments str pat 0 pLen 0 p2"
      unfolding p2_def
      by (intro "1.hyps" [OF "1.prems"(1) p1_def seg]) (use "1.prems"(2) in auto)
    then show ?thesis
      using "1.prems"(1) seg by (subst matchSegments.simps) (simp add: p1_def [symmetric] p2_def [symmetric])
  qed
qed



text \<open>The header says that \<open>*\<close> stands for zero or more characters. The pattern \<open>a*\<close>
  nevertheless matches \<open>ba\<close>: the part before the first wildcard is searched for, not
  anchored at the start.\<close>

lemma wildcard_prefix_not_anchored:
  "matchWildcardString (cstr [98, 97]) 2 (cstr [97, 42]) 2 \<and> \<not> glob [97, 42] [98, 97]"
proof -
  have "glob (wildcard # view (cstr [97, 42]) 0 2) (view (cstr [98, 97]) 0 2)"
    and h: "0 \<notin> set (view (cstr [98, 97]) 0 2)" and neg: "\<not> glob [97, 42] [98, 97]" by code_simp+
  moreover have "cstr [97, 42] (2 - 1) = wildcard" by (simp add: cstr_def wildcard_def)
  ultimately have "matchSegments (cstr [98, 97]) (cstr [97, 42]) 2 2 0 0"
    using matchSegments_glob [OF h, of 0 0 2 "cstr [97, 42]"] by blast
  then show ?thesis
    using neg by (simp add: matchWildcardString_def matchTail.simps cstr_def wildcard_def)
qed

end
