(* ===== verification/IPv4.thy ===== *)
theory IPv4
  imports CommonLib
begin

text \<open>
  IPv4 packets of \<open>kernel/io/network/internet.c\<close>: the header as it lies in memory, the checksums of header
  and data, the creation and the validation of a packet, the broadcast test and the filters that decide which
  socket gets a packet. A packet is the byte memory behind the pointer to its header; the processor is little
  endian. Sizes of type \<open>uintptr_t\<close> are 32-bit words, so their differences wrap as in the code.
\<close>

section \<open>Memory layout\<close>

definition u16at :: "bytes \<Rightarrow> nat \<Rightarrow> u16" where
  "u16at p i = of_nat (unat (p i) + 256 * unat (p (i + 1)))"

definition u32at :: "bytes \<Rightarrow> nat \<Rightarrow> u32" where
  "u32at p i = of_nat (unat (p i) + 256 * unat (p (i + 1)) + 65536 * unat (p (i + 2)) + 16777216 * unat (p (i + 3)))"

definition le16 :: "u16 \<Rightarrow> u8 list" where
  "le16 v = [ucast v, ucast (drop_bit 8 v)]"

definition le32 :: "u32 \<Rightarrow> u8 list" where
  "le32 v = [ucast v, ucast (drop_bit 8 v), ucast (drop_bit 16 v), ucast (drop_bit 24 v)]"

definition putBytes :: "nat \<Rightarrow> u8 list \<Rightarrow> bytes \<Rightarrow> bytes" where
  "putBytes k xs p = (\<lambda>i. if k \<le> i \<and> i < k + length xs then xs ! (i - k) else p i)"

text \<open>The fields of \<open>IPV4Header\<close> (\<open>network.h\<close>); bit fields are stored from the least significant bit.\<close>

record IPV4Header =
  headerLength :: "4 word"
  version :: "4 word"
  congestionNotification :: "2 word"
  differentiateService :: "6 word"
  totalLength :: u16
  identification :: u16
  fragmentOffsetHigh :: "5 word"
  flags :: "3 word"
  fragmentOffsetLow :: u8
  timeToLive :: u8
  protocol :: u8
  headerChecksum :: u16
  source :: u32
  destination :: u32

definition storeHeader :: "IPV4Header \<Rightarrow> u8 list" where
  "storeHeader h =
    [ucast (headerLength h) OR push_bit 4 (ucast (version h)),
     ucast (congestionNotification h) OR push_bit 2 (ucast (differentiateService h))] @
    le16 (totalLength h) @ le16 (identification h) @
    [ucast (fragmentOffsetHigh h) OR push_bit 5 (ucast (flags h)), fragmentOffsetLow h, timeToLive h, protocol h] @
    le16 (headerChecksum h) @ le32 (source h) @ le32 (destination h)"

definition loadHeader :: "bytes \<Rightarrow> IPV4Header" where
  "loadHeader p = \<lparr>headerLength = ucast (p 0), version = ucast (drop_bit 4 (p 0)),
    congestionNotification = ucast (p 1), differentiateService = ucast (drop_bit 2 (p 1)),
    totalLength = u16at p 2, identification = u16at p 4, fragmentOffsetHigh = ucast (p 6),
    flags = ucast (drop_bit 5 (p 6)), fragmentOffsetLow = p 7, timeToLive = p 8, protocol = p 9,
    headerChecksum = u16at p 10, source = u32at p 12, destination = u32at p 16\<rparr>"

abbreviation (input) sizeof_IPV4Header :: nat where "sizeof_IPV4Header \<equiv> 20"
abbreviation (input) MAX_IP_PACKET_SIZE :: nat where "MAX_IP_PACKET_SIZE \<equiv> 2 ^ 16 - 1"
abbreviation (input) MAX_IP_PAYLOAD_SIZE :: nat where "MAX_IP_PAYLOAD_SIZE \<equiv> MAX_IP_PACKET_SIZE - sizeof_IPV4Header"
abbreviation (input) ANY_IPV4_ADDRESS :: u32 where "ANY_IPV4_ADDRESS \<equiv> 0"
abbreviation (input) ANY_PORT :: u16 where "ANY_PORT \<equiv> 0"

section \<open>Sizes and checksums\<close>

definition getIPPacketSize :: "bytes \<Rightarrow> u32" where
  "getIPPacketSize h = ucast (changeEndian16 (totalLength (loadHeader h)))"

definition getIPHeaderSize :: "bytes \<Rightarrow> u32" where
  "getIPHeaderSize h = ucast (headerLength (loadHeader h)) * 4"

definition getIPDataSize :: "bytes \<Rightarrow> u32" where
  "getIPDataSize h = getIPPacketSize h - getIPHeaderSize h"

definition getIPData :: "bytes \<Rightarrow> bytes" where
  "getIPData h = shift (unat (getIPHeaderSize h)) h"

text \<open>The loop over the 16-bit words that lie in the first \<open>n\<close> bytes.\<close>

definition addWords :: "bytes \<Rightarrow> nat \<Rightarrow> u32 \<Rightarrow> u32" where
  "addWords p n cs = foldl (\<lambda>cs i. cs + ucast (changeEndian16 (u16at p (2 * i)))) cs [0..<n div 2]"

lemma fold_decreases:
  assumes "(0xffff :: u32) < cs"
  shows "unat ((cs AND 0xffff) + drop_bit 16 cs) < unat cs"
    and "unat ((cs AND 0xffff) + drop_bit 16 cs) = unat cs mod 65536 + unat cs div 65536"
proof -
  let ?c = "unat cs"
  have c: "65535 < ?c" using assms by (simp add: word_less_nat_alt)
  have lim: "?c < 4294967296" using unsigned_less [of cs, where 'a = nat] by simp
  have a: "unat (cs AND 0xffff) = ?c mod 65536" by (simp add: and_mask16 unsigned_take_bit_eq take_bit_nat_def)
  have d: "unat (drop_bit 16 cs) = ?c div 65536" using lim by (simp add: unsigned_drop_bit_eq drop_bit_nat_def take_bit_nat_def)
  have "?c mod 65536 < 65536" "?c div 65536 < 65536" using lim by auto
  then show s: "unat ((cs AND 0xffff) + drop_bit 16 cs) = ?c mod 65536 + ?c div 65536"
    by (subst unat_add_lem [THEN iffD1]) (simp_all add: a d)
  have "?c = ?c div 65536 * 65536 + ?c mod 65536" by simp
  moreover have "0 < ?c div 65536" using c by (simp add: div_greater_zero_iff)
  ultimately show "unat ((cs AND 0xffff) + drop_bit 16 cs) < ?c" unfolding s by linarith
qed

function foldChecksum :: "u32 \<Rightarrow> u32" where
  "foldChecksum cs = (if cs > 0xffff then foldChecksum ((cs AND 0xffff) + drop_bit 16 cs) else cs)"
  by pat_completeness auto
termination
  by (relation "measure unat") (simp_all only: wf_measure in_measure fold_decreases(1))

declare foldChecksum.simps [simp del]

definition calculateIPHeaderChecksum :: "bytes \<Rightarrow> u16" where
  "calculateIPHeaderChecksum h =
    (let cs = foldChecksum (addWords h (unat (getIPHeaderSize h)) 0) in changeEndian16 (ucast (cs XOR 0xffff)))"

definition calculatePseudoIPHeaderChecksum :: "u32 \<Rightarrow> u32 \<Rightarrow> u8 \<Rightarrow> u32 \<Rightarrow> u32" where
  "calculatePseudoIPHeaderChecksum src dst proto dataSize =
    ucast (changeEndian16 (ucast (src AND 0xffff))) + ucast (changeEndian16 (ucast (drop_bit 16 src))) +
    ucast (changeEndian16 (ucast (dst AND 0xffff))) + ucast (changeEndian16 (ucast (drop_bit 16 dst))) +
    ucast proto + dataSize"

definition calculateIPDataChecksum2 :: "bytes \<Rightarrow> u32 \<Rightarrow> u32 \<Rightarrow> u32 \<Rightarrow> u8 \<Rightarrow> u16" where
  "calculateIPDataChecksum2 d dataSize src dst proto =
    (let cs = calculatePseudoIPHeaderChecksum src dst proto dataSize;
         cs = addWords d (unat dataSize) cs;
         cs = (if unat dataSize mod 2 \<noteq> 0 then cs + ucast (changeEndian16 (ucast (d (unat dataSize - 1)))) else cs);
         cs = foldChecksum cs in
     changeEndian16 (ucast (cs XOR 0xffff)))"

definition calculateIPDataChecksum :: "bytes \<Rightarrow> u16" where
  "calculateIPDataChecksum h = calculateIPDataChecksum2 (getIPData h) (getIPDataSize h)
    (source (loadHeader h)) (destination (loadHeader h)) (protocol (loadHeader h))"

section \<open>Creation and validation\<close>

definition initIPV4Header :: "bytes \<Rightarrow> u16 \<Rightarrow> u32 \<Rightarrow> u32 \<Rightarrow> u8 \<Rightarrow> bytes option" where
  "initIPV4Header h dataSize localAddr remoteAddr dataProtocol = do {
    let h = putBytes 0 (storeHeader \<lparr>headerLength = 5, version = 4, congestionNotification = 0,
      differentiateService = 0, totalLength = changeEndian16 (20 + dataSize), identification = changeEndian16 0,
      fragmentOffsetHigh = 0, flags = 2, fragmentOffsetLow = 0, timeToLive = 32, protocol = dataProtocol,
      headerChecksum = 0, source = localAddr, destination = remoteAddr\<rparr>) h;
    let h = putBytes 10 (le16 (calculateIPHeaderChecksum h)) h;
    kassert (calculateIPHeaderChecksum h = 0);
    Some h
  }"

text \<open>\<open>createIPV4Header\<close> and \<open>createIPV4Packet\<close>: the first argument is the memory that
  \<open>allocateKernelMemory\<close> returns, or \<open>None\<close>. The inner option is the returned pointer.\<close>

definition createIPV4Header :: "bytes option \<Rightarrow> nat \<Rightarrow> u32 \<Rightarrow> u32 \<Rightarrow> u8 \<Rightarrow> bytes option option" where
  "createIPV4Header memory dataSize localAddr remoteAddr proto =
    (if dataSize > MAX_IP_PAYLOAD_SIZE then Some None
     else case memory of
         None \<Rightarrow> Some None
       | Some h \<Rightarrow> map_option Some (initIPV4Header h (of_nat dataSize) localAddr remoteAddr proto))"

definition createIPV4Packet :: "bytes option \<Rightarrow> u8 \<Rightarrow> u32 \<Rightarrow> u32 \<Rightarrow> u8 list \<Rightarrow> bytes option option" where
  "createIPV4Packet memory proto src dst buffer = do {
    h \<leftarrow> createIPV4Header memory (length buffer) src dst proto;
    Some (map_option (putBytes sizeof_IPV4Header buffer) h)
  }"

definition isBroadcastIPV4Address :: "u32 \<Rightarrow> u32 \<Rightarrow> u32 \<Rightarrow> bool" where
  "isBroadcastIPV4Address address subnet netmask =
    (if address = 0xffffffff then True
     else if (address AND netmask) = (subnet AND netmask) \<and> (address AND NOT netmask) = NOT netmask then True
     else False)"

definition validateIPV4Packet :: "bytes \<Rightarrow> u32 \<Rightarrow> bool" where
  "validateIPV4Packet packet readSize =
    (if version (loadHeader packet) \<noteq> 4 \<or> readSize < of_nat sizeof_IPV4Header then False
     else let packetSize = getIPPacketSize packet; headerSize = getIPHeaderSize packet in
       if packetSize > readSize then False
       else if headerSize < of_nat sizeof_IPV4Header \<or> headerSize > readSize then False
       else if calculateIPHeaderChecksum packet \<noteq> 0 then False
       else True)"

text \<open>\<open>copyIPV4PacketData\<close>: the bytes copied to the buffer of the reader.\<close>

definition copyIPV4PacketData :: "u32 \<Rightarrow> bytes \<Rightarrow> u8 list" where
  "copyIPV4PacketData bufferSize packet =
    (let returnSize = min bufferSize (getIPDataSize packet) in view (getIPData packet) 0 (unat returnSize))"

section \<open>One's complement sums\<close>

text \<open>The number a pair of bytes stands for in network order, and the sum of the words of \<open>n\<close> bytes.\<close>

definition beword :: "bytes \<Rightarrow> nat \<Rightarrow> nat" where
  "beword p i = 256 * unat (p i) + unat (p (i + 1))"

definition wordSum :: "bytes \<Rightarrow> nat \<Rightarrow> nat" where
  "wordSum p n = (\<Sum>i<n div 2. beword p (2 * i))"

lemma byte_less: "unat (b :: u8) < 256"
  using unsigned_less [of b, where 'a = nat] by simp

lemma beword_less: "beword p i < 65536"
  using byte_less [of "p i"] byte_less [of "p (i + 1)"] by (simp add: beword_def)

lemma unat_changeEndian16: "unat (changeEndian16 v) = 256 * (unat v mod 256) + unat v div 256"
proof -
  have v: "unat v < 65536" using unsigned_less [of v, where 'a = nat] by simp
  have p: "unat (push_bit 8 (take_bit 8 v)) = 256 * (unat v mod 256)"
  proof -
    have "256 * (unat v mod 256) < 65536" by simp
    then show ?thesis by (simp add: unsigned_push_bit_eq unsigned_take_bit_eq take_bit_nat_def push_bit_nat_def mult.commute)
  qed
  have d: "unat (take_bit 8 (drop_bit 8 v)) = unat v div 256"
    using v by (simp add: unsigned_drop_bit_eq unsigned_take_bit_eq drop_bit_nat_def take_bit_nat_def)
  have "256 * (unat v mod 256) + unat v div 256 < 65536"
    using v by (simp add: mod_less_divisor less_mult_imp_div_less)
  then show ?thesis unfolding changeEndian16_def and_mask8
    by (subst unat_add_lem [THEN iffD1]) (simp_all add: p d)
qed

lemma unat_u16at: "unat (u16at p i) = unat (p i) + 256 * unat (p (i + 1))"
  using byte_less [of "p i"] byte_less [of "p (i + 1)"] unfolding u16at_def unsigned_of_nat of_nat_id by (intro take_bit_nat_eq_self) simp

lemma unat_changeEndian16_u16at: "unat (changeEndian16 (u16at p i)) = beword p i"
  using byte_less [of "p i"] byte_less [of "p (i + 1)"]
  by (simp add: unat_changeEndian16 unat_u16at beword_def)

lemma ucast_u16_of_nat: "(ucast (v :: u16) :: u32) = of_nat (unat v)"
  by simp

lemma addWords_sum: "addWords p n cs = cs + of_nat (wordSum p n)"
proof -
  have "foldl (\<lambda>cs i. cs + ucast (changeEndian16 (u16at p (2 * i)))) cs [0..<m] = cs + of_nat (\<Sum>i<m. beword p (2 * i))" for m
    by (induction m) (simp_all add: ucast_u16_of_nat unat_changeEndian16_u16at algebra_simps)
  then show ?thesis by (simp add: addWords_def wordSum_def)
qed

lemma wordSum_le: "wordSum p n \<le> n div 2 * 65535"
  unfolding wordSum_def using sum_bounded_above [of "{..<n div 2}" "\<lambda>i. beword p (2 * i)" 65535] beword_less
  by (simp add: less_Suc_eq_le [symmetric])

lemma foldChecksum_spec:
  "unat (foldChecksum cs) \<le> 65535 \<and> unat (foldChecksum cs) mod 65535 = unat cs mod 65535 \<and>
    (unat (foldChecksum cs) = 0 \<longleftrightarrow> cs = 0)"
proof (induction cs rule: foldChecksum.induct)
  case (1 cs)
  show ?case
  proof (cases "cs > 0xffff")
    case True
    let ?c = "(cs AND 0xffff) + drop_bit 16 cs"
    have u: "unat ?c = unat cs mod 65536 + unat cs div 65536" by (rule fold_decreases(2) [OF True])
    have "65535 < unat cs" using True by (simp add: word_less_nat_alt)
    then have "0 < unat cs div 65536" by (simp add: div_greater_zero_iff)
    then have nz: "?c \<noteq> 0" "cs \<noteq> 0" using u True by (auto simp: unat_eq_0 [symmetric] simp del: unat_eq_0)
    have "unat cs = unat ?c + 65535 * (unat cs div 65536)" unfolding u by (subst (1) div_mult_mod_eq [of "unat cs" 65536, symmetric]) simp
    then have "unat cs mod 65535 = unat ?c mod 65535" by (metis mod_mult_self2)
    then show ?thesis using 1 [OF True] True nz by (simp add: foldChecksum.simps [of cs])
  next
    case False
    then have "foldChecksum cs = cs" by (simp add: foldChecksum.simps [of cs])
    then show ?thesis using False by (simp add: word_le_nat_alt not_less unat_eq_0)
  qed
qed

lemma unat_xor_ffff:
  assumes "unat (c :: u32) \<le> 65535"
  shows "unat (ucast (c XOR 0xffff) :: u16) = 65535 - unat c"
proof -
  have "(ucast (c XOR 0xffff) :: u16) = NOT (ucast c)"
  proof (rule bit_word_eqI)
    have "(0xffff :: u32) = mask 16" by (simp add: mask_eq_exp_minus_1)
    then show "bit (ucast (c XOR 0xffff) :: u16) n = bit (NOT (ucast c) :: u16) n" if "n < LENGTH(16)" for n
      using that bit_mask_iff [of 16 n, where 'a = u32] by (auto simp: bit_simps)
  qed
  moreover have "unat (ucast c :: u16) = unat c" using assms by (simp add: unsigned_ucast_eq take_bit_nat_eq_self)
  moreover have "unat (NOT w) = 65535 - unat w" for w :: u16
  proof -
    have "NOT w = - 1 - w" by (simp add: not_eq_complement)
    moreover have "unat (- 1 - w) = unat (- 1 :: u16) - unat w" by (rule unat_sub) simp
    ultimately show ?thesis by (simp add: unsigned_minus_1_eq_mask mask_eq_exp_minus_1)
  qed
  ultimately show ?thesis by simp
qed

lemma complement_zero:
  assumes "unat (c :: u32) \<le> 65535"
  shows "changeEndian16 (ucast (c XOR 0xffff)) = 0 \<longleftrightarrow> unat c = 65535"
proof -
  have "changeEndian16 v = 0 \<longleftrightarrow> v = 0" for v
    by (metis changeEndian16_involution changeEndian16_def and_zero_eq add_0 drop_bit_of_0 push_bit_of_0 zero_and_eq)
  then have "changeEndian16 (ucast (c XOR 0xffff)) = 0 \<longleftrightarrow> unat (ucast (c XOR 0xffff) :: u16) = 0"
    by (simp only: unat_eq_0)
  then show ?thesis using assms unat_xor_ffff [OF assms] by auto
qed

text \<open>A checksum is zero exactly when the words add up to a multiple of \<open>0xffff\<close> other than zero.\<close>

lemma checksum_zero_iff:
  "changeEndian16 (ucast (foldChecksum cs XOR 0xffff)) = 0 \<longleftrightarrow> unat cs mod 65535 = 0 \<and> cs \<noteq> 0"
proof -
  let ?f = "unat (foldChecksum cs)"
  have f: "?f \<le> 65535" "?f mod 65535 = unat cs mod 65535" "?f = 0 \<longleftrightarrow> cs = 0" using foldChecksum_spec [of cs] by auto
  have "?f = 65535 \<longleftrightarrow> ?f mod 65535 = 0 \<and> ?f \<noteq> 0"
    using f(1) by (cases "?f = 65535") (auto simp: mod_if split: if_splits)
  then show ?thesis using complement_zero [OF f(1)] f(2,3) by simp
qed

text \<open>Storing the complement of the sum over a zero word makes the sum such a multiple.\<close>

lemma complement_completes:
  assumes "s' = s + (65535 - unat (foldChecksum (of_nat s :: u32)))" and "s' < 2 ^ 32"
  shows "s' mod 65535 = 0" and "s' \<noteq> 0"
proof -
  let ?f = "unat (foldChecksum (of_nat s :: u32))"
  have s: "unat (of_nat s :: u32) = s" using assms unsigned_of_nat [of s, where 'a = nat and 'b = 32]
    by (simp add: take_bit_nat_eq_self)
  have f: "?f \<le> 65535" "?f mod 65535 = s mod 65535" "?f = 0 \<longleftrightarrow> s = 0"
    using foldChecksum_spec [of "of_nat s :: u32"] s by (auto simp flip: unat_eq_0)
  have "(s + (65535 - ?f)) mod 65535 = (?f + (65535 - ?f)) mod 65535"
    using f(2) by (metis mod_add_left_eq)
  then show "s' mod 65535 = 0" using f(1) assms(1) by simp
  show "s' \<noteq> 0" using assms(1) f(1,3) by (cases "s = 0") auto
qed

lemma calculateIPHeaderChecksum_zero:
  "calculateIPHeaderChecksum h = 0 \<longleftrightarrow>
    wordSum h (unat (getIPHeaderSize h)) mod 65535 = 0 \<and> wordSum h (unat (getIPHeaderSize h)) \<noteq> 0"
proof -
  let ?n = "unat (getIPHeaderSize h)"
  have "?n \<le> 60"
  proof -
    let ?l = "headerLength (loadHeader h)"
    have "unat ?l \<le> 15" using unsigned_less [of ?l, where 'a = nat] by simp
    moreover have "getIPHeaderSize h = of_nat (unat ?l * 4)" by (simp add: getIPHeaderSize_def)
    ultimately show ?thesis by (simp only: unsigned_of_nat of_nat_id) (simp add: take_bit_nat_eq_self)
  qed
  then have "wordSum h ?n \<le> 30 * 65535" using wordSum_le [of h ?n] by linarith
  then have "unat (of_nat (wordSum h ?n) :: u32) = wordSum h ?n"
    by (simp only: unsigned_of_nat of_nat_id) (simp add: take_bit_nat_eq_self)
  then show ?thesis
    using checksum_zero_iff [of "of_nat (wordSum h ?n)"] by (auto simp: calculateIPHeaderChecksum_def addWords_sum simp flip: unat_eq_0)
qed

section \<open>Stored and loaded headers\<close>

lemma unat_low: "unat (ucast (v :: 'a::len word) :: u8) = unat v mod 256"
  by (simp add: unsigned_ucast_eq take_bit_nat_def)

lemma unat_drop: "unat (drop_bit n (v :: 'a::len word)) = unat v div 2 ^ n"
  by (metis drop_bit_eq_div unat_div_distrib unat_drop_bit_eq drop_bit_nat_def)

lemma le16_length [simp]: "length (le16 v) = 2"
  by (simp add: le16_def)

lemma le32_length [simp]: "length (le32 v) = 4"
  by (simp add: le32_def)

lemma putBytes_out [simp]: "i < k \<or> k + length xs \<le> i \<Longrightarrow> putBytes k xs p i = p i"
  by (auto simp: putBytes_def)

lemma putBytes_in [simp]: "j < length xs \<Longrightarrow> putBytes k xs p (k + j) = xs ! j"
  by (simp add: putBytes_def)

lemma u16at_le16: "p i = le16 v ! 0 \<Longrightarrow> p (Suc i) = le16 v ! 1 \<Longrightarrow> u16at p i = v"
proof -
  assume p: "p i = le16 v ! 0" "p (Suc i) = le16 v ! 1"
  have "unat v < 65536" using unsigned_less [of v, where 'a = nat] by simp
  then have "unat (u16at p i) = unat v" unfolding unat_u16at using p by (simp add: le16_def unat_low unat_drop)
  then show ?thesis by (simp only: word_unat_eq_iff)
qed

lemma u32at_le32:
  assumes "p i = le32 v ! 0" "p (Suc i) = le32 v ! 1" "p (Suc (Suc i)) = le32 v ! 2" "p (Suc (Suc (Suc i))) = le32 v ! 3"
  shows "u32at p i = v"
proof -
  let ?v = "unat v"
  have "?v < 4294967296" using unsigned_less [of v, where 'a = nat] by simp
  then have "?v div 16777216 mod 256 = ?v div 256 div 256 div 256" by (simp add: div_mult2_eq [symmetric] less_mult_imp_div_less)
  moreover have "?v div 65536 = ?v div 256 div 256" by (simp add: div_mult2_eq [symmetric])
  moreover have "a + 256 * (b + 256 * (c + 256 * d)) = a + 256 * b + 65536 * c + 16777216 * d" for a b c d :: nat
    by simp
  ultimately have h: "?v mod 256 + 256 * (?v div 256 mod 256) + 65536 * (?v div 65536 mod 256) + 16777216 * (?v div 16777216 mod 256) = ?v"
    by (metis mod_mult_div_eq)
  have b: "unat (p i) = ?v mod 256" "unat (p (i + 1)) = ?v div 256 mod 256"
      "unat (p (i + 2)) = ?v div 65536 mod 256" "unat (p (i + 3)) = ?v div 16777216 mod 256"
    using assms by (simp_all add: le32_def unat_low unat_drop numeral_3_eq_3)
  show ?thesis unfolding u32at_def b h by simp
qed

lemma bitfields:
  fixes a :: "4 word" and b :: "4 word" and c :: "2 word" and d :: "6 word" and e :: "5 word" and f :: "3 word"
  shows "ucast ((ucast a :: u8) OR push_bit 4 (ucast b)) = a"
    "ucast (drop_bit 4 ((ucast a :: u8) OR push_bit 4 (ucast b))) = b"
    "ucast ((ucast c :: u8) OR push_bit 2 (ucast d)) = c"
    "ucast (drop_bit 2 ((ucast c :: u8) OR push_bit 2 (ucast d))) = d"
    "ucast ((ucast e :: u8) OR push_bit 5 (ucast f)) = e"
    "ucast (drop_bit 5 ((ucast e :: u8) OR push_bit 5 (ucast f))) = f"
  by (rule bit_word_eqI; auto simp: bit_simps dest: bit_imp_le_length)+

lemma storeHeader_length [simp]: "length (storeHeader h) = 20"
  by (simp add: storeHeader_def)

lemma loadHeader_stored:
  assumes n: "\<And>i. i < 20 \<Longrightarrow> p i = storeHeader h ! i"
  shows "loadHeader p = h"
proof -
  have "u16at p 2 = totalLength h" "u16at p 4 = identification h" "u16at p 10 = headerChecksum h"
    by (rule u16at_le16; simp add: n storeHeader_def nth_append)+
  moreover have "u32at p 12 = source h" "u32at p 16 = destination h"
    by (rule u32at_le32; simp add: n storeHeader_def nth_append)+
  ultimately show ?thesis
    by (simp add: loadHeader_def n storeHeader_def nth_append bitfields del: drop_bit_or)
qed

lemma load_storeHeader [simp]: "loadHeader (putBytes 0 (storeHeader h) p) = h"
  by (rule loadHeader_stored) (simp add: putBytes_def)

lemma u16at_put [simp]: "u16at (putBytes k (le16 v) p) k = v"
  by (rule u16at_le16) (simp_all add: putBytes_def)

lemma loadHeader_cong: "(\<And>i. i < 20 \<Longrightarrow> i < 10 \<or> 11 < i \<Longrightarrow> p i = q i) \<Longrightarrow>
    loadHeader p = (loadHeader q)\<lparr>headerChecksum := u16at p 10\<rparr>"
  by (simp add: loadHeader_def u16at_def u32at_def)

lemma loadHeader_checksum: "loadHeader (putBytes 10 (le16 c) p) = (loadHeader p)\<lparr>headerChecksum := c\<rparr>"
proof -
  have "loadHeader (putBytes 10 (le16 c) p) = (loadHeader p)\<lparr>headerChecksum := u16at (putBytes 10 (le16 c) p) 10\<rparr>"
    by (rule loadHeader_cong) auto
  then show ?thesis by simp
qed

section \<open>Storing a checksum\<close>

lemma beword_le16: "beword (putBytes k (le16 v) p) k = unat (changeEndian16 v)"
proof -
  have "putBytes k (le16 v) p k = ucast v" "putBytes k (le16 v) p (k + 1) = ucast (drop_bit 8 v)"
    by (simp_all add: putBytes_def le16_def)
  moreover have "unat v < 65536" using unsigned_less [of v, where 'a = nat] by simp
  ultimately show ?thesis by (simp add: beword_def unat_changeEndian16 unat_low unat_drop)
qed

lemma wordSum_store:
  assumes "k < n div 2" and "beword p (2 * k) = 0"
  shows "wordSum (putBytes (2 * k) (le16 v) p) n = wordSum p n + unat (changeEndian16 v)"
proof -
  let ?q = "putBytes (2 * k) (le16 v) p"
  have "beword ?q (2 * i) = beword p (2 * i)" if "i \<noteq> k" for i
    using that by (auto simp: beword_def putBytes_def)
  then have "(\<Sum>i\<in>{..<n div 2} - {k}. beword ?q (2 * i)) = (\<Sum>i\<in>{..<n div 2} - {k}. beword p (2 * i))"
    by (intro sum.cong) auto
  then show ?thesis
    using assms by (simp add: wordSum_def sum.remove [of "{..<n div 2}" k] beword_le16)
qed

text \<open>The value that makes a sum of words complete, as both checksum functions compute it.\<close>

lemma stored_complement:
  fixes s :: nat
  assumes "v = changeEndian16 (ucast (foldChecksum (of_nat s) XOR 0xffff))"
  shows "unat (changeEndian16 v) = 65535 - unat (foldChecksum (of_nat s))"
  unfolding assms using unat_xor_ffff foldChecksum_spec by simp

section \<open>Theorems\<close>

lemma mod_add_cancel_nat: "(r + a) mod m = (r + b) mod m \<longleftrightarrow> a mod m = b mod (m :: nat)"
proof -
  have "(r + y) mod m = (r + x) mod m \<longleftrightarrow> y mod m = x mod m" if "x \<le> y" for x y
    using that mod_eq_dvd_iff_nat [of "r + x" "r + y" m] mod_eq_dvd_iff_nat [of x y m] by simp
  then show ?thesis by (metis nat_le_linear)
qed

lemma getIPHeaderSize_cong: "loadHeader p = (loadHeader q)\<lparr>headerChecksum := c\<rparr> \<Longrightarrow> getIPHeaderSize p = getIPHeaderSize q"
  by (simp add: getIPHeaderSize_def)

lemma initIPV4Header_spec:
  "\<exists>h' c. initIPV4Header h dataSize src dst proto = Some h' \<and> calculateIPHeaderChecksum h' = 0 \<and>
    loadHeader h' = \<lparr>headerLength = 5, version = 4, congestionNotification = 0, differentiateService = 0,
      totalLength = changeEndian16 (20 + dataSize), identification = 0, fragmentOffsetHigh = 0, flags = 2,
      fragmentOffsetLow = 0, timeToLive = 32, protocol = proto, headerChecksum = c, source = src, destination = dst\<rparr> \<and>
    (\<forall>i\<ge>20. h' i = h i)"
proof -
  let ?r = "\<lparr>headerLength = 5, version = 4, congestionNotification = 0, differentiateService = 0,
      totalLength = changeEndian16 (20 + dataSize), identification = changeEndian16 0, fragmentOffsetHigh = 0, flags = 2,
      fragmentOffsetLow = 0, timeToLive = 32, protocol = proto, headerChecksum = 0, source = src, destination = dst\<rparr>"
  let ?h = "putBytes 0 (storeHeader ?r) h"
  let ?c = "calculateIPHeaderChecksum ?h"
  let ?h' = "putBytes 10 (le16 ?c) ?h"
  have size: "unat (getIPHeaderSize ?h) = 20" by (simp add: getIPHeaderSize_def)
  have load: "loadHeader ?h' = ?r\<lparr>headerChecksum := ?c\<rparr>"
    by (simp only: loadHeader_checksum load_storeHeader)
  have zero: "beword ?h (2 * 5) = 0" by (simp add: beword_def putBytes_def storeHeader_def le16_def le32_def)
  let ?s = "wordSum ?h 20"
  have c: "?c = changeEndian16 (ucast (foldChecksum (of_nat ?s) XOR 0xffff))"
    unfolding calculateIPHeaderChecksum_def size addWords_sum by simp
  have sum: "wordSum ?h' 20 = ?s + (65535 - unat (foldChecksum (of_nat ?s)))"
    using wordSum_store [of 5 20 ?h ?c] zero stored_complement [OF c] by simp
  have "wordSum ?h' 20 < 2 ^ 32" using wordSum_le [of ?h' 20] by simp
  with complement_completes [OF sum] have "calculateIPHeaderChecksum ?h' = 0"
    using getIPHeaderSize_cong [where p = ?h' and q = ?h] load size unfolding calculateIPHeaderChecksum_zero by simp
  moreover have "changeEndian16 0 = 0" by (simp add: changeEndian16_def)
  moreover have "\<forall>i\<ge>20. ?h' i = h i" by (simp add: putBytes_def)
  ultimately show ?thesis
    using load by (intro exI [of _ ?h'] exI [of _ ?c]) (simp add: initIPV4Header_def Let_def)
qed

lemma createIPV4Packet_spec:
  assumes n: "length buffer \<le> MAX_IP_PAYLOAD_SIZE"
  shows "\<exists>h. createIPV4Packet (Some m) proto src dst buffer = Some (Some h) \<and>
        validateIPV4Packet h (of_nat (20 + length buffer)) \<and> source (loadHeader h) = src \<and>
        destination (loadHeader h) = dst \<and> protocol (loadHeader h) = proto \<and>
        copyIPV4PacketData 65536 h = buffer \<and> getIPHeaderSize h = 20 \<and> getIPPacketSize h = of_nat (20 + length buffer) \<and>
        view h 20 (20 + length buffer) = buffer"
proof -
  let ?n = "length buffer"
  obtain h c where h: "initIPV4Header m (of_nat ?n) src dst proto = Some h" "calculateIPHeaderChecksum h = 0"
    and l: "loadHeader h = \<lparr>headerLength = 5, version = 4, congestionNotification = 0, differentiateService = 0,
      totalLength = changeEndian16 (20 + of_nat ?n), identification = 0, fragmentOffsetHigh = 0, flags = 2,
      fragmentOffsetLow = 0, timeToLive = 32, protocol = proto, headerChecksum = c, source = src, destination = dst\<rparr>"
    using initIPV4Header_spec by blast
  let ?h = "putBytes 20 buffer h"
  have l': "loadHeader ?h = loadHeader h" by (simp add: loadHeader_def u16at_def u32at_def)
  have "wordSum ?h 20 = wordSum h 20" by (simp add: wordSum_def beword_def)
  then have cs: "calculateIPHeaderChecksum ?h = 0"
    using h(2) unfolding calculateIPHeaderChecksum_zero by (simp add: getIPHeaderSize_def l' l)
  have total: "unat (20 + of_nat ?n :: u16) = 20 + ?n"
    using n unsigned_of_nat [of "20 + ?n", where 'a = nat and 'b = 16] by (simp add: take_bit_nat_eq_self)
  then have size: "getIPPacketSize ?h = of_nat (20 + ?n)" by (simp only: getIPPacketSize_def l' l IPV4Header.select_convs changeEndian16_involution ucast_u16_of_nat)
  have hsize: "getIPHeaderSize ?h = 20" by (simp add: getIPHeaderSize_def l' l)
  have big: "unat (of_nat (20 + ?n) :: u32) = 20 + ?n"
    using n unsigned_of_nat [of "20 + ?n", where 'a = nat and 'b = 32] by (simp add: take_bit_nat_eq_self)
  then have ge: "(20 :: u32) \<le> of_nat (20 + ?n)" by (simp add: word_le_nat_alt)
  have "validateIPV4Packet ?h (of_nat (20 + ?n))"
    unfolding validateIPV4Packet_def Let_def size hsize cs using ge by (simp add: l' l not_less)
  moreover have "copyIPV4PacketData 65536 ?h = buffer"
  proof -
    have size': "getIPDataSize ?h = of_nat ?n" by (simp add: getIPDataSize_def size hsize)
    have n32: "unat (of_nat ?n :: u32) = ?n"
      using n unsigned_of_nat [of "?n", where 'a = nat and 'b = 32] by (simp add: take_bit_nat_eq_self)
    have "(of_nat ?n :: u32) \<le> 65536" using n n32 by (simp add: word_le_nat_alt)
    then have "unat (min 65536 (of_nat ?n :: u32)) = ?n" using n32 by (simp only: min_absorb2)
    moreover have "view (getIPData ?h) 0 ?n = buffer"
      by (rule nth_equalityI) (simp_all add: getIPData_def hsize)
    ultimately show ?thesis by (simp only: copyIPV4PacketData_def Let_def size')
  qed
  moreover have "view ?h 20 (20 + ?n) = buffer" by (rule nth_equalityI) simp_all
  ultimately show ?thesis
    using n h(1) size hsize by (intro exI [of _ ?h]) (simp add: createIPV4Packet_def createIPV4Header_def l' l)
qed

text \<open>C12: The header that \<open>initIPV4Header\<close> writes never fails its own assertion: its checksum verifies.
  A packet of at most \<open>MAX_IP_PAYLOAD_SIZE\<close> data bytes made by \<open>createIPV4Packet\<close> is accepted by
  \<open>validateIPV4Packet\<close> when all of it is read, has the addresses and the protocol asked for, and a reader with
  enough room gets back exactly the data; more data is refused.\<close>

theorem createIPV4Packet_valid:
  assumes n: "length buffer \<le> MAX_IP_PAYLOAD_SIZE"
  shows "\<exists>h. createIPV4Packet (Some m) proto src dst buffer = Some (Some h) \<and>
        validateIPV4Packet h (of_nat (20 + length buffer)) \<and> source (loadHeader h) = src \<and>
        destination (loadHeader h) = dst \<and> protocol (loadHeader h) = proto \<and>
        copyIPV4PacketData 65536 h = buffer"
  using createIPV4Packet_spec [OF n, of m proto src dst] by blast

theorem createIPV4Packet_valid_witness:
  "\<exists>h. createIPV4Packet (Some (\<lambda>i. 7)) 17 0x0100007f 0x0200007f [1, 2, 3] = Some (Some h) \<and>
    validateIPV4Packet h 23 \<and> copyIPV4PacketData 65536 h = [1, 2, 3]"
  using createIPV4Packet_valid [where buffer = "[1, 2, 3]" and m = "\<lambda>i. 7" and proto = 17
    and src = "0x0100007f" and dst = "0x0200007f"] by auto

text \<open>Validation detects every change of a single 16-bit word of the header, except the one between
  \<open>0x0000\<close> and \<open>0xffff\<close>: two packets with the same header length that both validate and differ at most in the
  word \<open>k\<close> have equal words there, or one zero and the other all ones.\<close>

lemma validate_detects_change:
  assumes "validateIPV4Packet p n" and "validateIPV4Packet q m" and "getIPHeaderSize p = getIPHeaderSize q"
    and "k < unat (getIPHeaderSize p) div 2" and "\<And>i. i \<noteq> 2 * k \<Longrightarrow> i \<noteq> 2 * k + 1 \<Longrightarrow> p i = q i"
  shows "beword p (2 * k) = beword q (2 * k) \<or> {beword p (2 * k), beword q (2 * k)} = {0, 0xffff}"
proof -
  let ?n = "unat (getIPHeaderSize p)" and ?a = "beword p (2 * k)" and ?b = "beword q (2 * k)"
  have "calculateIPHeaderChecksum p = 0" "calculateIPHeaderChecksum q = 0"
    using assms(1,2) by (auto simp: validateIPV4Packet_def Let_def split: if_splits)
  then have m: "wordSum p ?n mod 65535 = wordSum q ?n mod 65535"
    unfolding calculateIPHeaderChecksum_zero using assms(3) by simp
  have "beword p (2 * i) = beword q (2 * i)" if "i \<noteq> k" for i using that assms(5) by (auto simp: beword_def)
  then have r: "(\<Sum>i\<in>{..<?n div 2} - {k}. beword p (2 * i)) = (\<Sum>i\<in>{..<?n div 2} - {k}. beword q (2 * i))" (is "?r = _")
    by (intro sum.cong) auto
  have "wordSum p ?n = ?r + ?a" "wordSum q ?n = ?r + ?b"
    using assms(4) unfolding wordSum_def r by (simp_all add: sum.remove [of "{..<?n div 2}" k] r)
  then have "?a mod 65535 = ?b mod 65535" using m mod_add_cancel_nat [of ?r ?a 65535 ?b] by simp
  then show ?thesis using beword_less [of p "2 * k"] beword_less [of q "2 * k"] by (auto simp: mod_if split: if_splits)
qed

text \<open>The example header of \<open>network.h\<close>, and the same header with a zero word inverted.\<close>

definition exampleHeader :: "u8 list" where
  "exampleHeader = [0x45, 0x00, 0x00, 0x3c, 0x1a, 0x02, 0x00, 0x00, 0x80, 0x01,
    0x2e, 0x6e, 0xc0, 0xa8, 0x38, 0x01, 0xc0, 0xa8, 0x38, 0xff]"

lemma wordSum_list: "wordSum p n = (\<Sum>i\<leftarrow>[0..<n div 2]. beword p (2 * i))"
  by (simp add: wordSum_def interv_sum_list_conv_sum_set_nat atLeast0LessThan)

lemmas evaluate_header = getIPHeaderSize_def getIPPacketSize_def loadHeader_def u16at_def cstr_def changeEndian16_def

text \<open>\<open>validateIPV4Packet\<close> does not compare the total length with the header length. For a packet whose
  total length is smaller, the data size wraps around, and \<open>copyIPV4PacketData\<close> copies as many bytes as the
  reader's buffer has, all of them from beyond the packet.\<close>

lemma copyIPV4PacketData_overreads:
  "\<exists>packet. validateIPV4Packet packet 24 \<and> getIPPacketSize packet = 20 \<and>
    (\<forall>bufferSize \<le> 65536. length (copyIPV4PacketData bufferSize packet) = unat bufferSize)"
proof -
  let ?p = "cstr [0x46, 0, 0, 20, 0, 0, 0, 0, 32, 0xfe, 0x9a, 0xe9, 127, 0, 0, 1, 127, 0, 0, 2, 0, 0, 0, 0]"
  have s: "getIPHeaderSize ?p = 24" "getIPPacketSize ?p = 20" "version (loadHeader ?p) = 4" by (simp_all add: evaluate_header)
  have "wordSum ?p 24 = 2 * 65535"
    by (simp add: wordSum_list upt_rec beword_def cstr_def)
  then have v: "validateIPV4Packet ?p 24" "getIPPacketSize ?p = 20"
    by (simp_all only: validateIPV4Packet_def Let_def s calculateIPHeaderChecksum_zero) simp_all
  have "getIPDataSize ?p = - 4" by (simp add: getIPDataSize_def s)
  moreover have "(65536 :: u32) \<le> - 4" by simp
  ultimately have "length (copyIPV4PacketData b ?p) = unat b" if "b \<le> 65536" for b
    using order_trans [OF that] by (simp add: copyIPV4PacketData_def min_absorb1)
  then show ?thesis using v by blast
qed

section \<open>Checksums over the data of a packet\<close>

definition pseudoSum :: "u32 \<Rightarrow> u32 \<Rightarrow> u8 \<Rightarrow> nat \<Rightarrow> nat" where
  "pseudoSum src dst proto n =
    unat (changeEndian16 (ucast (src AND 0xffff))) + unat (changeEndian16 (ucast (drop_bit 16 src))) +
    unat (changeEndian16 (ucast (dst AND 0xffff))) + unat (changeEndian16 (ucast (drop_bit 16 dst))) + unat proto + n"

definition dataSum :: "bytes \<Rightarrow> nat \<Rightarrow> u32 \<Rightarrow> u32 \<Rightarrow> u8 \<Rightarrow> nat" where
  "dataSum d n src dst proto = pseudoSum src dst proto n + wordSum d n + (if odd n then 256 * unat (d (n - 1)) else 0)"

lemma u16_le: "unat (v :: u16) \<le> 65535"
  using unsigned_less [of v, where 'a = nat] by simp

lemma dataSum_less: "n < 65536 \<Longrightarrow> dataSum d n src dst proto < 2 ^ 32"
proof -
  assume n: "n < 65536"
  then have "n div 2 * 65535 \<le> 32767 * 65535" by (intro mult_le_mono1) linarith
  then have "wordSum d n \<le> 32767 * 65535" using wordSum_le [of d n] by (rule order_trans [rotated])
  moreover have "pseudoSum src dst proto n \<le> 4 * 65535 + 255 + n"
    unfolding pseudoSum_def using u16_le [of "changeEndian16 (ucast (src AND 0xffff))"] u16_le [of "changeEndian16 (ucast (drop_bit 16 src))"]
      u16_le [of "changeEndian16 (ucast (dst AND 0xffff))"] u16_le [of "changeEndian16 (ucast (drop_bit 16 dst))"] byte_less [of proto]
    by linarith
  moreover have "256 * unat (d (n - 1)) \<le> 65535" using byte_less [of "d (n - 1)"] by simp
  ultimately show ?thesis using n unfolding dataSum_def by (simp split: if_split)
qed

lemma calculateIPDataChecksum2_sum:
  assumes "n < 65536"
  shows "calculateIPDataChecksum2 d (of_nat n) src dst proto =
    changeEndian16 (ucast (foldChecksum (of_nat (dataSum d n src dst proto)) XOR 0xffff))"
proof -
  have n: "unat (of_nat n :: u32) = n"
    using assms unsigned_of_nat [of n, where 'a = nat and 'b = 32] by (simp add: take_bit_nat_eq_self)
  have p: "calculatePseudoIPHeaderChecksum src dst proto (of_nat n) = of_nat (pseudoSum src dst proto n)"
    by (simp add: calculatePseudoIPHeaderChecksum_def pseudoSum_def)
  have "unat (changeEndian16 (ucast b)) = 256 * unat b" for b :: u8
  proof -
    have "unat (ucast b :: u16) = unat b" using byte_less [of b] by (simp add: unsigned_ucast_eq take_bit_nat_eq_self)
    then show ?thesis using byte_less [of b] by (simp add: unat_changeEndian16)
  qed
  then have b: "(ucast (changeEndian16 (ucast b)) :: u32) = of_nat (256 * unat b)" for b :: u8
    by (simp only: ucast_u16_of_nat)
  show ?thesis
    unfolding calculateIPDataChecksum2_def Let_def n p addWords_sum b dataSum_def
    by (simp add: odd_iff_mod_2_eq_one ac_simps)
qed

lemma dataChecksum_zero_iff:
  assumes "n < 65536"
  shows "calculateIPDataChecksum2 d (of_nat n) src dst proto = 0 \<longleftrightarrow>
    dataSum d n src dst proto mod 65535 = 0 \<and> dataSum d n src dst proto \<noteq> 0"
proof -
  have "unat (of_nat (dataSum d n src dst proto) :: u32) = dataSum d n src dst proto"
    using dataSum_less [OF assms] unsigned_of_nat [of "dataSum d n src dst proto", where 'a = nat and 'b = 32]
    by (simp add: take_bit_nat_eq_self)
  then show ?thesis
    unfolding calculateIPDataChecksum2_sum [OF assms] checksum_zero_iff by (auto simp flip: unat_eq_0)
qed

lemma dataSum_store:
  assumes "2 * k + 1 < n" "beword d (2 * k) = 0"
  shows "dataSum (putBytes (2 * k) (le16 v) d) n src dst proto = dataSum d n src dst proto + unat (changeEndian16 v)"
proof -
  have "odd n \<Longrightarrow> 2 * k + 2 \<le> n - 1" using assms(1) by presburger
  then have "odd n \<Longrightarrow> putBytes (2 * k) (le16 v) d (n - 1) = d (n - 1)" by simp
  moreover have "k < n div 2" using assms(1) by linarith
  ultimately show ?thesis using wordSum_store [of k n d v] assms(2) by (simp add: dataSum_def)
qed

text \<open>Storing the computed checksum over a zero word makes the checksum of the data verify; so does storing
  \<open>0xffff\<close> in place of a computed zero, as UDP does.\<close>

lemma dataChecksum_stored:
  assumes n: "n < 65536" "2 * k + 1 < n" and zero: "beword d (2 * k) = 0"
    and c: "c = calculateIPDataChecksum2 d (of_nat n) src dst proto" and v: "v = c \<or> c = 0 \<and> v = 0xffff"
  shows "calculateIPDataChecksum2 (putBytes (2 * k) (le16 v) d) (of_nat n) src dst proto = 0"
proof -
  let ?d = "putBytes (2 * k) (le16 v) d"
  let ?s = "dataSum d n src dst proto" and ?s' = "dataSum ?d n src dst proto"
  have s': "?s' = ?s + unat (changeEndian16 v)" by (rule dataSum_store [OF n(2) zero])
  have "?s' mod 65535 = 0 \<and> ?s' \<noteq> 0"
  proof (cases "v = c")
    case True
    have "?s' = ?s + (65535 - unat (foldChecksum (of_nat ?s)))"
      using stored_complement [of c ?s] c True s' calculateIPDataChecksum2_sum [OF n(1)] by simp
    from complement_completes [OF this dataSum_less [OF n(1)]] show ?thesis by blast
  next
    case False
    then have "?s mod 65535 = 0" "v = 0xffff" using v c dataChecksum_zero_iff [OF n(1)] by auto
    moreover have "unat (changeEndian16 0xffff) = 65535" by (simp add: unat_changeEndian16)
    ultimately have "?s' = ?s + 65535" "?s mod 65535 = 0" using s' by simp_all
    then show ?thesis by (simp only:) simp
  qed
  then show ?thesis using dataChecksum_zero_iff [OF n(1)] by simp
qed

end
