(* ===== verification/Printk.thy ===== *)
theory Printk
  imports CommonLib
begin

text \<open>
  Formatted printing and scanning, \<open>kernel/main/printk.c\<close>. A number is printed into a list of
  characters and scanned from a buffer, the bytes behind a pointer with their length. The length is an
  \<open>int\<close> as in the source, where it can become negative. A format is the list of its characters, its end
  stands for the terminating zero. The variable arguments of a print call are a list; taking an argument
  of the wrong type has no defined result and gives \<open>None\<close>. A scan call returns what it stores through its
  pointer arguments.
\<close>

definition asc :: "string \<Rightarrow> u8 list" where
  "asc s = map of_char s"

section \<open>Numbers\<close>

definition digitChar :: "nat \<Rightarrow> u8" where
  "digitChar c = (if c < 10 then of_nat c + 48 else of_nat c - 10 + 97)"

function countDigits :: "nat \<Rightarrow> nat \<Rightarrow> nat" where
  "countDigits base n2 = (if 2 \<le> base \<and> n2 div base \<noteq> 0 then Suc (countDigits base (n2 div base)) else 1)"
  by pat_completeness auto
termination
  by (relation "measure snd") (auto simp: div_greater_zero_iff intro!: div_less_dividend)

declare countDigits.simps [simp del]

fun fillDigits :: "nat \<Rightarrow> nat \<Rightarrow> nat \<Rightarrow> u8 list" where
  "fillDigits base 0 n2 = []"
| "fillDigits base (Suc i) n2 = fillDigits base i (n2 div base) @ [digitChar (n2 mod base)]"

definition uintToString :: "nat \<Rightarrow> nat \<Rightarrow> u8 list" where
  "uintToString number base = fillDigits base (countDigits base number) number"

definition intToString :: "'a::len word \<Rightarrow> nat \<Rightarrow> u8 list" where
  "intToString number base =
    (if sint number < 0 then 45 # uintToString (unat (- number)) base else uintToString (unat number) base)"

definition digitValue :: "nat \<Rightarrow> u8 \<Rightarrow> nat" where
  "digitValue base b =
    (let d = (if 65 \<le> b \<and> b \<le> 90 then unat b - 65 + 10 else base) in
     if 97 \<le> b \<and> b \<le> 122 then unat b - 97 + 10
     else if 48 \<le> b \<and> b \<le> 57 then unat b - 48 else d)"

function stringToUINT_from :: "bytes \<Rightarrow> int \<Rightarrow> nat \<Rightarrow> nat \<Rightarrow> 'a::len word \<Rightarrow> nat \<times> 'a word" where
  "stringToUINT_from buffer bufferLength base i u =
    (if int i < bufferLength then
       let d = digitValue base (buffer i) in
       if d \<ge> base then (i, u)
       else stringToUINT_from buffer bufferLength base (Suc i) (u * of_nat base + of_nat d)
     else (i, u))"
  by pat_completeness auto
termination
  by (relation "measure (\<lambda>(buffer, bufferLength, base, i, u). nat bufferLength - i)") auto

declare stringToUINT_from.simps [simp del]

definition stringToUINT :: "bytes \<Rightarrow> int \<Rightarrow> nat \<Rightarrow> int \<times> 'a::len word" where
  "stringToUINT buffer bufferLength base =
    (let (i, u) = stringToUINT_from buffer bufferLength base 0 0 in (if i = 0 then - 1 else int i, u))"

text \<open>\<open>stringToINT\<close> returns the characters read and the number, or no number when \<open>*result\<close> is not written.\<close>

definition stringToINT :: "bytes \<Rightarrow> int \<Rightarrow> nat \<Rightarrow> int \<times> 'a::len word option" where
  "stringToINT buffer bufferLength base =
    (if bufferLength < 1 then (0, None)
     else let
       (s, i1) = (if buffer 0 = 43 then (1, 1) else if buffer 0 = 45 then (- 1, 1) else (1, 0));
       (i2, u) = stringToUINT (shift i1 buffer) (bufferLength - int i1) base in
     if i2 < 0 then (- 1, None) else (int i1 + i2, Some (u * s)))"

section \<open>Printing\<close>

record PrintfArg =
  printCount :: nat
  width :: u32
  pad0 :: bool
  lCount :: u8

fun skipZeros :: "string \<Rightarrow> PrintfArg \<Rightarrow> string \<times> PrintfArg" where
  "skipZeros (CHR ''0'' # format) pa = skipZeros format (pa\<lparr>pad0 := True\<rparr>)"
| "skipZeros format pa = (format, pa)"

fun readWidth :: "string \<Rightarrow> PrintfArg \<Rightarrow> string \<times> PrintfArg" where
  "readWidth [] pa = ([], pa)"
| "readWidth (c # format) pa =
    (if 48 \<le> (of_char c :: nat) \<and> (of_char c :: nat) \<le> 57
     then readWidth format (pa\<lparr>width := width pa * 10 + of_nat (of_char c - 48)\<rparr>)
     else (c # format, pa))"

fun countL :: "string \<Rightarrow> PrintfArg \<Rightarrow> string \<times> PrintfArg" where
  "countL (CHR ''l'' # format) pa = countL format (pa\<lparr>lCount := lCount pa + 1\<rparr>)"
| "countL format pa = (format, pa)"

definition parsePrintfArg :: "string \<Rightarrow> nat \<Rightarrow> string \<times> PrintfArg" where
  "parsePrintfArg format count =
    (let pa = \<lparr>printCount = count, width = 0, pad0 = False, lCount = 0\<rparr>;
         (format, pa) = skipZeros format pa;
         (format, pa) = readWidth format pa in
     countL format pa)"

datatype printArg = ArgInt u32 | ArgLL u64 | ArgStr "u8 list" | ArgPtr

text \<open>A handler returns the characters it puts into the buffer, the remaining arguments, and what
  \<open>%n\<close> stores.\<close>

type_synonym printfResult = "(u8 list \<times> printArg list \<times> nat list) option"

definition printf_signed :: "nat \<Rightarrow> PrintfArg \<Rightarrow> printArg list \<Rightarrow> printfResult" where
  "printf_signed base arg argList =
    (if 2 \<le> sint (lCount arg) then
       (case argList of ArgLL v # as \<Rightarrow> Some (intToString v base, as, []) | _ \<Rightarrow> None)
     else (case argList of ArgInt v # as \<Rightarrow> Some (intToString v base, as, []) | _ \<Rightarrow> None))"

definition printf_unsigned :: "nat \<Rightarrow> PrintfArg \<Rightarrow> printArg list \<Rightarrow> printfResult" where
  "printf_unsigned base arg argList =
    (if 2 \<le> sint (lCount arg) then
       (case argList of ArgLL v # as \<Rightarrow> Some (uintToString (unat v) base, as, []) | _ \<Rightarrow> None)
     else (case argList of ArgInt v # as \<Rightarrow> Some (uintToString (unat v) base, as, []) | _ \<Rightarrow> None))"

definition printf_s :: "PrintfArg \<Rightarrow> printArg list \<Rightarrow> printfResult" where
  "printf_s arg argList = (case argList of ArgStr s # as \<Rightarrow> Some (takeWhile (\<lambda>c. c \<noteq> 0) s, as, []) | _ \<Rightarrow> None)"

definition printf_percent :: "PrintfArg \<Rightarrow> printArg list \<Rightarrow> printfResult" where
  "printf_percent arg argList = Some (asc ''%'', argList, [])"

definition printf_c :: "PrintfArg \<Rightarrow> printArg list \<Rightarrow> printfResult" where
  "printf_c arg argList = (case argList of ArgInt v # as \<Rightarrow> Some ([ucast v], as, []) | _ \<Rightarrow> None)"

definition addressToString :: "u32 \<Rightarrow> u8 list" where
  "addressToString v = concat (map (\<lambda>i. (if i \<noteq> 0 then asc ''.'' else []) @
    uintToString (unat (drop_bit i v AND 0xff)) 10) [0, 8, 16, 24])"

definition printf_I :: "PrintfArg \<Rightarrow> printArg list \<Rightarrow> printfResult" where
  "printf_I arg argList = (case argList of ArgInt v # as \<Rightarrow> Some (addressToString v, as, []) | _ \<Rightarrow> None)"

definition printf_n :: "PrintfArg \<Rightarrow> printArg list \<Rightarrow> printfResult" where
  "printf_n arg argList = (case argList of ArgPtr # as \<Rightarrow> Some ([], as, [printCount arg]) | _ \<Rightarrow> None)"

definition printfHandler :: "(char \<times> (PrintfArg \<Rightarrow> printArg list \<Rightarrow> printfResult)) list" where
  "printfHandler = [(CHR ''%'', printf_percent), (CHR ''b'', printf_unsigned 2), (CHR ''o'', printf_unsigned 8),
    (CHR ''d'', printf_signed 10), (CHR ''u'', printf_unsigned 10), (CHR ''x'', printf_unsigned 16),
    (CHR ''n'', printf_n), (CHR ''s'', printf_s), (CHR ''c'', printf_c), (CHR ''I'', printf_I)]"

abbreviation (input) PRINT_BUFFER_SIZE :: nat where "PRINT_BUFFER_SIZE \<equiv> 8 * 8 + 4"

text \<open>\<open>vsnprintf_single\<close>: the rest of the format with the characters printed, the remaining arguments and
  the stores; \<open>Some None\<close> is the result \<open>-1\<close> of an unknown specifier.\<close>

fun vsnprintf_single :: "string \<Rightarrow> nat \<Rightarrow> printArg list \<Rightarrow>
    (string \<times> u8 list \<times> printArg list \<times> nat list) option option" where
  "vsnprintf_single [] count argList = Some (Some ([], [0], argList, []))"
| "vsnprintf_single (c # f) count argList =
    (if c \<noteq> CHR ''%'' then Some (Some (f, [of_char c], argList, []))
     else case parsePrintfArg f count of
         ([], pa) \<Rightarrow> Some None
       | (spec # f', pa) \<Rightarrow> (case map_of printfHandler spec of
             None \<Rightarrow> Some None
           | Some handler \<Rightarrow> map_option (\<lambda>(buffer, as, st). Some (f', buffer, as, st)) (handler pa argList)))"

lemma skipZeros_length: "length (fst (skipZeros f pa)) \<le> length f"
  by (induction f pa rule: skipZeros.induct) auto

lemma readWidth_length: "length (fst (readWidth f pa)) \<le> length f"
  by (induction f pa rule: readWidth.induct) auto

lemma countL_length: "length (fst (countL f pa)) \<le> length f"
  by (induction f pa rule: countL.induct) auto

lemma parsePrintfArg_length: "parsePrintfArg f n = (f', pa) \<Longrightarrow> length f' \<le> length f"
proof -
  assume a: "parsePrintfArg f n = (f', pa)"
  let ?pa = "\<lparr>printCount = n, width = 0, pad0 = False, lCount = 0\<rparr>"
  obtain f1 p1 where 1: "skipZeros f ?pa = (f1, p1)" by fastforce
  obtain f2 p2 where 2: "readWidth f1 p1 = (f2, p2)" by fastforce
  show ?thesis
    using a 1 2 skipZeros_length [of f ?pa] readWidth_length [of f1 p1] countL_length [of f2 p2]
    by (simp add: parsePrintfArg_def Let_def)
qed

lemma vsnprintf_single_shorter:
  "vsnprintf_single f n as = Some (Some (f', r)) \<Longrightarrow> f \<noteq> [] \<Longrightarrow> length f' < length f"
  by (cases "(f, n, as)" rule: vsnprintf_single.cases)
    (auto split: if_splits prod.splits list.splits option.splits dest!: parsePrintfArg_length)

text \<open>The loop of \<open>vsnprintf\<close>: the result with all characters written to \<open>str\<close> and the stores of \<open>%n\<close>.\<close>

function vsnprintf_loop :: "int \<Rightarrow> string \<Rightarrow> u8 list \<Rightarrow> printArg list \<Rightarrow> nat list \<Rightarrow> (int \<times> u8 list \<times> nat list) option" where
  "vsnprintf_loop slen format str argList st =
    (if format \<noteq> [] \<and> int (length str) < slen then
       (case vsnprintf_single format (length str) argList of
           None \<Rightarrow> None
         | Some None \<Rightarrow> Some (- 1, str, st)
         | Some (Some (format', buffer, as, st')) \<Rightarrow>
             vsnprintf_loop slen format' (str @ take (nat (min (int (length buffer)) (slen - int (length str)))) buffer) as (st @ st'))
     else Some (int (length str), str @ (if int (length str) < slen then [0] else []), st))"
  by pat_completeness auto
termination
  by (relation "measure (\<lambda>(slen, format, str, as, st). length format)") (auto dest: vsnprintf_single_shorter)

declare vsnprintf_loop.simps [simp del]

definition vsnprintf :: "u32 \<Rightarrow> string \<Rightarrow> printArg list \<Rightarrow> (int \<times> u8 list \<times> nat list) option" where
  "vsnprintf len format argList = vsnprintf_loop (sint len) format [] argList []"

definition snprintf :: "u32 \<Rightarrow> string \<Rightarrow> printArg list \<Rightarrow> (int \<times> u8 list \<times> nat list) option" where
  "snprintf len format argList = vsnprintf len format argList"

text \<open>\<open>printk\<close> gives all characters to \<open>printkString\<close>.\<close>

function printk_loop :: "string \<Rightarrow> u8 list \<Rightarrow> printArg list \<Rightarrow> nat list \<Rightarrow> (int \<times> u8 list \<times> nat list) option" where
  "printk_loop format out argList st =
    (if format \<noteq> [] then
       (case vsnprintf_single format (length out) argList of
           None \<Rightarrow> None
         | Some None \<Rightarrow> Some (- 1, out, st)
         | Some (Some (format', buffer, as, st')) \<Rightarrow> printk_loop format' (out @ buffer) as (st @ st'))
     else Some (int (length out), out, st))"
  by pat_completeness auto
termination
  by (relation "measure (\<lambda>(format, out, as, st). length format)") (auto dest: vsnprintf_single_shorter)

declare printk_loop.simps [simp del]

definition printk :: "string \<Rightarrow> printArg list \<Rightarrow> (int \<times> u8 list \<times> nat list) option" where
  "printk format argList = printk_loop format [] argList []"

section \<open>Scanning\<close>

text \<open>What a scan call does with the pointers of its arguments: the values stored, in order.
  \<open>Untouched\<close> is a pointer taken from the arguments through which nothing is stored.\<close>

datatype scanned = ScanInt u32 | ScanLL u64 | ScanStr "u8 list" | ScanChar u8 | ScanCount nat | Untouched

type_synonym scanfHandler = "bytes \<Rightarrow> int \<Rightarrow> PrintfArg \<Rightarrow> int \<times> scanned list"

definition scanf_signed :: "nat \<Rightarrow> scanfHandler" where
  "scanf_signed base buffer bufferLength arg =
    (if 2 \<le> sint (lCount arg) then
       (case stringToINT buffer bufferLength base of
          (r, v) \<Rightarrow> (r, [case v of Some u \<Rightarrow> ScanLL u | None \<Rightarrow> Untouched]))
     else
       (case stringToINT buffer bufferLength base of
          (r, v) \<Rightarrow> (r, [case v of Some u \<Rightarrow> ScanInt u | None \<Rightarrow> Untouched])))"

definition scanf_n :: scanfHandler where
  "scanf_n buffer bufferLength arg = (0, [ScanCount (printCount arg)])"

function wordEnd :: "bytes \<Rightarrow> int \<Rightarrow> nat \<Rightarrow> nat" where
  "wordEnd buffer bufferLength i =
    (if int i < bufferLength \<and> \<not> isspace (sint (buffer i)) then wordEnd buffer bufferLength (Suc i) else i)"
  by pat_completeness auto
termination
  by (relation "measure (\<lambda>(buffer, bufferLength, i). nat bufferLength - i)") auto

declare wordEnd.simps [simp del]

definition scanf_s :: scanfHandler where
  "scanf_s buffer bufferLength arg =
    (let i = wordEnd buffer bufferLength 0 in
     (if i > 0 then int i else - 1, [ScanStr (view buffer 0 i @ [0])]))"

definition scanf_percent :: scanfHandler where
  "scanf_percent buffer bufferLength arg = (if bufferLength = 0 \<or> buffer 0 \<noteq> 37 then (- 1, []) else (1, []))"

definition scanf_c :: scanfHandler where
  "scanf_c buffer bufferLength arg = (if bufferLength = 0 then (- 1, []) else (1, [ScanChar (buffer 0)]))"

text \<open>The four rounds of \<open>scanf_I\<close>: the result is the end index, or no index, and the value of \<open>*p\<close>.\<close>

fun scanf_I_rounds :: "nat list \<Rightarrow> bytes \<Rightarrow> int \<Rightarrow> nat \<Rightarrow> u32 \<Rightarrow> nat option \<times> u32" where
  "scanf_I_rounds [] buffer bufferLength bi p = (Some bi, p)"
| "scanf_I_rounds (i # is) buffer bufferLength bi p =
    (if i \<noteq> 0 \<and> buffer bi \<noteq> 46 then (None, p)
     else let
       bi = (if i \<noteq> 0 then bi + 1 else bi);
       (bi2, u) = stringToUINT (shift bi buffer) (bufferLength - int bi) 10 in
     if bi2 < 0 \<or> u > 0xff then (None, p)
     else scanf_I_rounds is buffer bufferLength (bi + nat bi2) (p OR push_bit i u))"

definition scanf_I :: scanfHandler where
  "scanf_I buffer bufferLength arg =
    (case scanf_I_rounds [0, 8, 16, 24] buffer bufferLength 0 0 of
       (bi, p) \<Rightarrow> (case bi of Some bi \<Rightarrow> int bi | None \<Rightarrow> - 1, [ScanInt p]))"

text \<open>Specifier, \<open>addScanCount\<close>, \<open>skipSpace\<close> and handler.\<close>

definition scanfHandler :: "(char \<times> nat \<times> bool \<times> scanfHandler) list" where
  "scanfHandler = [(CHR ''%'', 0, False, scanf_percent), (CHR ''b'', 1, True, scanf_signed 2),
    (CHR ''o'', 1, True, scanf_signed 8), (CHR ''d'', 1, True, scanf_signed 10), (CHR ''u'', 1, True, scanf_signed 10),
    (CHR ''x'', 1, True, scanf_signed 16), (CHR ''n'', 0, False, scanf_n), (CHR ''s'', 1, True, scanf_s),
    (CHR ''c'', 1, False, scanf_c), (CHR ''I'', 1, True, scanf_I)]"

function skipSpace_from :: "bytes \<Rightarrow> int \<Rightarrow> nat \<Rightarrow> nat" where
  "skipSpace_from buffer bufferLength readCount =
    (if int readCount < bufferLength \<and> isspace (sint (buffer readCount))
     then skipSpace_from buffer bufferLength (Suc readCount) else readCount)"
  by pat_completeness auto
termination
  by (relation "measure (\<lambda>(buffer, bufferLength, i). nat bufferLength - i)") auto

declare skipSpace_from.simps [simp del]

definition skipSpace :: "bytes \<Rightarrow> int \<Rightarrow> nat" where
  "skipSpace buffer bufferLength = skipSpace_from buffer bufferLength 0"

text \<open>\<open>vsnscanf_single\<close>: the scan count, or no count for \<open>-1\<close>, the new buffer index, the rest of the
  format and the stores.\<close>

fun vsnscanf_single :: "bytes \<Rightarrow> nat \<Rightarrow> nat \<Rightarrow> string \<Rightarrow> nat option \<times> nat \<times> string \<times> scanned list" where
  "vsnscanf_single buffer bi bufferLength [] = (None, bi, [], [])"
| "vsnscanf_single buffer bi bufferLength (c # f) =
    (if c = CHR '' '' then (Some 0, bi + skipSpace (shift bi buffer) (int bufferLength - int bi), f, [])
     else if c \<noteq> CHR ''%'' then
       (if buffer bi \<noteq> of_char c then (None, bi, c # f, []) else (Some 0, bi + 1, f, []))
     else case parsePrintfArg f bi of
         ([], pa) \<Rightarrow> (None, bi, [], [])
       | (spec # f', pa) \<Rightarrow> (case map_of scanfHandler spec of
             None \<Rightarrow> (None, bi, spec # f', [])
           | Some (addScanCount, skip, handler) \<Rightarrow>
               let bi = (if skip then bi + skipSpace (shift bi buffer) (int bufferLength - int bi) else bi);
                   (scanLength, st) = handler (shift bi buffer) (int bufferLength - int bi) pa in
               if scanLength < 0 then (None, bi, spec # f', st)
               else (Some addScanCount, bi + nat scanLength, f', st)))"

lemma vsnscanf_single_shorter:
  "vsnscanf_single s bi len f = (Some n, bi', f', st) \<Longrightarrow> length f' < length f"
  by (cases "(s, bi, len, f)" rule: vsnscanf_single.cases)
    (auto simp: Let_def split: if_splits prod.splits list.splits option.splits dest!: parsePrintfArg_length)

function vsnscanf_loop :: "bytes \<Rightarrow> nat \<Rightarrow> string \<Rightarrow> nat \<Rightarrow> nat \<Rightarrow> scanned list \<Rightarrow> nat \<times> scanned list" where
  "vsnscanf_loop str len format scanCount scanLength out =
    (if format = [] then (scanCount, out)
     else case vsnscanf_single str scanLength len format of
         (None, _, _, st) \<Rightarrow> (scanCount, out @ st)
       | (Some n, scanLength', format', st) \<Rightarrow> vsnscanf_loop str len format' (scanCount + n) scanLength' (out @ st))"
  by pat_completeness auto
termination
  by (relation "measure (\<lambda>(str, len, format, scanCount, scanLength, out). length format)")
    (auto dest: vsnscanf_single_shorter [OF sym])

declare vsnscanf_loop.simps [simp del]

definition vsnscanf :: "bytes \<Rightarrow> nat \<Rightarrow> string \<Rightarrow> nat \<times> scanned list" where
  "vsnscanf str len format = vsnscanf_loop str len format 0 0 []"

definition snscanf :: "bytes \<Rightarrow> nat \<Rightarrow> string \<Rightarrow> nat \<times> scanned list" where
  "snscanf str len format = vsnscanf str len format"

definition sscanf :: "bytes \<Rightarrow> string \<Rightarrow> (nat \<times> scanned list) option" where
  "sscanf str format = map_option (\<lambda>n. vsnscanf str n format) (strlen str)"

section \<open>Bounds of printing\<close>

lemma fillDigits_length [simp]: "length (fillDigits base n v) = n"
  by (induction n arbitrary: v) auto

lemma countDigits_le: "2 \<le> base \<Longrightarrow> n < base ^ k \<Longrightarrow> 0 < k \<Longrightarrow> countDigits base n \<le> k"
proof (induction base n arbitrary: k rule: countDigits.induct)
  case (1 base n2)
  show ?case
  proof (cases "n2 div base = 0")
    case True
    then show ?thesis using 1(4) by (simp add: countDigits.simps [of base n2])
  next
    case False
    obtain k' where k: "k = Suc k'" using 1(4) by (cases k) auto
    have "n2 div base < base ^ k'" using 1(3) by (simp add: k less_mult_imp_div_less mult.commute)
    moreover have "0 < k'" using calculation False by (cases k') auto
    ultimately have "countDigits base (n2 div base) \<le> k'" using 1(1,2) False by blast
    then show ?thesis using 1(2) False by (simp add: k countDigits.simps [of base n2])
  qed
qed

lemma countDigits_pos: "0 < countDigits base n"
  by (simp add: countDigits.simps)

lemma countDigits_bound: "2 \<le> base \<Longrightarrow> n < 2 ^ k \<Longrightarrow> 0 < k \<Longrightarrow> countDigits base n \<le> k"
  by (rule countDigits_le) (auto intro: order.strict_trans2 power_mono)

lemma uintToString_length: "2 \<le> base \<Longrightarrow> length (uintToString (unat (v::'a::len word)) base) \<le> LENGTH('a)"
  unfolding uintToString_def by (simp add: countDigits_bound unsigned_less)

lemma intToString_length: "2 \<le> base \<Longrightarrow> length (intToString (v::'a::len word) base) \<le> LENGTH('a) + 1"
  using uintToString_length [of base v] uintToString_length [of base "- v"] by (simp add: intToString_def)

lemma addressToString_length: "length (addressToString v) \<le> 35"
proof -
  have "length (uintToString (unat (drop_bit i v AND 0xff)) 10) \<le> 8" for i
  proof -
    have "unat (drop_bit i v AND 0xff) < 2 ^ 8"
      by (simp add: and_mask8 unsigned_take_bit_eq take_bit_nat_less_exp [of 8, simplified])
    then show ?thesis using countDigits_bound [of 10 _ 8] by (simp add: uintToString_def)
  qed
  note l = this [of 0] this [of 8] this [of 16] this [of 24]
  show ?thesis using l by (simp add: addressToString_def asc_def)
qed

lemma printf_unsigned_length: "2 \<le> base \<Longrightarrow> printf_unsigned base pa as = Some (buffer, r) \<Longrightarrow> length buffer \<le> 64"
  using uintToString_length [of base, where 'a = 64] order_trans [OF uintToString_length [of base, where 'a = 32]]
  by (auto simp: printf_unsigned_def split: if_splits list.splits printArg.splits)

lemma printf_signed_length: "2 \<le> base \<Longrightarrow> printf_signed base pa as = Some (buffer, r) \<Longrightarrow> length buffer \<le> 65"
  using intToString_length [of base, where 'a = 64] order_trans [OF intToString_length [of base, where 'a = 32]]
  by (auto simp: printf_signed_def split: if_splits list.splits printArg.splits)

lemma printf_I_length: "printf_I pa as = Some (buffer, r) \<Longrightarrow> length buffer \<le> 35"
  using addressToString_length by (auto simp: printf_I_def split: list.splits printArg.splits)

lemma printf_buffer_fits:
  assumes "map_of printfHandler spec = Some handler" and "spec \<noteq> CHR ''s''" and "handler pa as = Some (buffer, r)"
  shows "length buffer \<le> PRINT_BUFFER_SIZE"
proof -
  note u = printf_unsigned_length [of _ pa as buffer r]
  show ?thesis
    using assms u [of 2] u [of 8] u [of 10] u [of 16] printf_signed_length [of 10 pa as buffer r]
      printf_I_length [of pa as buffer r]
    by (auto simp: printfHandler_def printf_percent_def printf_c_def printf_n_def asc_def
        split: if_splits list.splits printArg.splits)
qed

lemma vsnprintf_loop_bounded:
  assumes "vsnprintf_loop slen format str as st = Some (r, w, st')" and "int (length str) \<le> slen"
  shows "int (length w) \<le> slen \<and> (r = - 1 \<or> 0 \<le> r \<and> length w = (if r < slen then nat r + 1 else nat r) \<and>
    (r < slen \<longrightarrow> w ! nat r = 0))"
  using assms
proof (induction slen format str as st rule: vsnprintf_loop.induct)
  case (1 slen format str as st)
  show ?case
  proof (cases "format \<noteq> [] \<and> int (length str) < slen")
    case True
    then consider "vsnprintf_single format (length str) as = Some None"
      | f b as' s' where "vsnprintf_single format (length str) as = Some (Some (f, b, as', s'))"
      using 1(2) by (auto simp: vsnprintf_loop.simps [of slen format] split: option.splits)
    then show ?thesis
    proof cases
      case 2
      let ?str = "str @ take (nat (min (int (length b)) (slen - int (length str)))) b"
      have "vsnprintf_loop slen f ?str as' (st @ s') = Some (r, w, st')"
        using 1(2) True 2 by (simp add: vsnprintf_loop.simps [of slen format])
      moreover have "int (length ?str) \<le> slen" using True by simp
      ultimately show ?thesis by (rule 1(1) [OF True 2 refl refl refl refl])
    qed (use 1(2,3) True in \<open>auto simp: vsnprintf_loop.simps [of slen format]\<close>)
  qed (use 1(2,3) in \<open>auto simp: vsnprintf_loop.simps [of slen format] nth_append\<close>)
qed

lemma sint_small: "unat (len :: u32) < 2 ^ 31 \<Longrightarrow> sint len = int (unat len)"
proof -
  assume "unat len < 2 ^ 31"
  then have "int (unat len) < int (2 ^ 31)" by (simp only: of_nat_less_iff)
  then have "uint len < 2 ^ 31" by simp
  moreover have "- (2 ^ 31) \<le> uint len" by (rule order_trans [OF _ uint_ge_0]) simp
  ultimately have "signed_take_bit 31 (uint len) = uint len" by (rule signed_take_bit_int_eq_self [rotated])
  then show ?thesis by (simp add: sint_uint)
qed

text \<open>C11: \<open>snprintf\<close> is memory safe. For every format and argument list it writes at most \<open>len\<close>
  characters, and what it returns is the number of characters printed, followed by a zero when there is room;
  and no conversion overflows the fixed buffer into which \<open>vsnprintf_single\<close> prints (\<open>%s\<close> does not use it).\<close>

theorem snprintf_bounded:
  assumes "snprintf len format argList = Some (r, w, st)" and "unat len < 2 ^ 31"
  shows "length w \<le> unat len \<and> (r = - 1 \<or> 0 \<le> r \<and> nat r \<le> unat len \<and>
      (nat r < unat len \<longrightarrow> length w = nat r + 1 \<and> w ! nat r = 0)) \<and>
    (\<forall>spec handler pa as buffer r. map_of printfHandler spec = Some handler \<longrightarrow> spec \<noteq> CHR ''s'' \<longrightarrow>
      handler pa as = Some (buffer, r) \<longrightarrow> length buffer \<le> PRINT_BUFFER_SIZE)"
proof -
  note len = sint_small [OF assms(2)]
  have "int (length w) \<le> sint len \<and> (r = - 1 \<or> 0 \<le> r \<and> length w = (if r < sint len then nat r + 1 else nat r) \<and>
    (r < sint len \<longrightarrow> w ! nat r = 0))"
    by (rule vsnprintf_loop_bounded [of _ format "[]" argList "[]"])
      (use assms(1) len in \<open>simp_all add: snprintf_def vsnprintf_def\<close>)
  moreover define n where "n = unat len"
  ultimately have "int (length w) \<le> int n \<and> (r = - 1 \<or> 0 \<le> r \<and> length w = (if r < int n then nat r + 1 else nat r) \<and>
    (r < int n \<longrightarrow> w ! nat r = 0))"
    unfolding len by blast
  then show ?thesis using printf_buffer_fits unfolding n_def [symmetric] by (auto split: if_splits)
qed

theorem snprintf_bounded_witness:
  "snprintf 3 ''%%%%  '' [] = Some (3, asc ''%% '', []) \<and> length (asc ''%% '') \<le> unat (3 :: u32)"
proof -
  have "snprintf 3 ''%%%%  '' [] = Some (3, asc ''%% '', [])"
    by (simp add: snprintf_def vsnprintf_def vsnprintf_loop.simps parsePrintfArg_def printfHandler_def
        printf_percent_def asc_def)
  then show ?thesis using snprintf_bounded [of 3 "''%%%%  ''" "[]" 3 "asc ''%% ''" "[]"] by simp
qed

section \<open>Print and scan are inverse\<close>

lemma digitValue_digitChar: "c < 36 \<Longrightarrow> digitValue base (digitChar c) = c"
proof -
  have "list_all (\<lambda>c. let b = digitChar c in (97 \<le> b \<and> b \<le> 122 \<and> unat b - 97 + 10 = c) \<or>
      \<not> (97 \<le> b \<and> b \<le> 122) \<and> 48 \<le> b \<and> b \<le> 57 \<and> unat b - 48 = c) [0..<36]"
    by code_simp
  moreover assume "c < 36"
  ultimately show ?thesis by (auto simp: list_all_iff digitValue_def Let_def)
qed

lemma fillDigits_scanned:
  assumes "2 \<le> base" "base \<le> 36" "int (i + n) \<le> len" "view s i (i + n) = fillDigits base n v"
  shows "stringToUINT_from s len base i (u :: 'a::len word) =
    stringToUINT_from s len base (i + n) (u * of_nat base ^ n + of_nat (v mod base ^ n))"
  using assms(3,4)
proof (induction n arbitrary: v)
  case (Suc n)
  have "view s i (i + n) @ [s (i + n)] = fillDigits base (Suc n) v"
    using Suc.prems(2) view_snoc [of i "i + Suc n" s] by simp
  then have w: "view s i (i + n) = fillDigits base n (v div base)" and d: "s (i + n) = digitChar (v mod base)"
    by simp_all
  have "digitValue base (s (i + n)) = v mod base"
    unfolding d by (rule digitValue_digitChar) (use assms(1,2) in \<open>simp add: order.strict_trans2 [OF mod_less_divisor]\<close>)
  moreover have "\<not> base \<le> v mod base" using assms(1) by (simp add: not_le)
  ultimately have step: "stringToUINT_from s len base (i + n) x =
      stringToUINT_from s len base (i + Suc n) (x * of_nat base + of_nat (v mod base))" for x :: "'a word"
    using Suc.prems(1) by (subst stringToUINT_from.simps) (simp add: Let_def)
  have "v mod base ^ Suc n = base * (v div base mod base ^ n) + v mod base" by (simp add: mod_mult2_eq)
  then have "(u * of_nat base ^ n + of_nat (v div base mod base ^ n)) * of_nat base + of_nat (v mod base) =
      u * of_nat base ^ Suc n + (of_nat (v mod base ^ Suc n) :: 'a word)"
    by (simp add: algebra_simps)
  then show ?case using Suc.IH [OF _ w] Suc.prems(1) step by simp
qed simp

lemma countDigits_enough: "2 \<le> base \<Longrightarrow> v < base ^ countDigits base v"
proof (induction base v rule: countDigits.induct)
  case (1 base n2)
  show ?case
  proof (cases "n2 div base = 0")
    case True
    then have "n2 < base" using 1(2) by (simp add: div_eq_0_iff)
    then show ?thesis using True by (simp add: countDigits.simps [of base n2])
  next
    case False
    then have "n2 div base < base ^ countDigits base (n2 div base)" using 1 by blast
    then have "n2 < base * base ^ countDigits base (n2 div base)" using 1(2) by (simp add: div_less_iff_less_mult mult.commute)
    then show ?thesis using False 1(2) by (simp add: countDigits.simps [of base n2])
  qed
qed

definition printedAt :: "bytes \<Rightarrow> nat \<Rightarrow> u8 list \<Rightarrow> bool" where
  "printedAt s i w \<longleftrightarrow> view s i (i + length w) = w"

definition stopsAt :: "bytes \<Rightarrow> int \<Rightarrow> nat \<Rightarrow> nat \<Rightarrow> bool" where
  "stopsAt s len base n \<longleftrightarrow> int n = len \<or> int n < len \<and> base \<le> digitValue base (s n)"

lemma printedAt_append: "printedAt s i (v @ w) \<longleftrightarrow> printedAt s i v \<and> printedAt s (i + length v) w"
  unfolding printedAt_def using view_append [of i "i + length v" "i + length (v @ w)" s]
  by (metis (no_types, lifting) add.assoc append_eq_append_conv le_add1 length_append length_view add_diff_cancel_left')

lemma printedAt_shift [simp]: "printedAt (shift k s) i w \<longleftrightarrow> printedAt s (k + i) w"
  by (simp add: printedAt_def view_shift add.assoc)

lemma printedAt_Cons: "printedAt s i (c # w) \<longleftrightarrow> s i = c \<and> printedAt s (Suc i) w"
  by (simp add: printedAt_def view_Cons)

lemma stringToUINT_uintToString:
  assumes "2 \<le> base" "base \<le> 36" "printedAt s 0 (uintToString v base)"
    "stopsAt s len base (length (uintToString v base))"
  shows "stringToUINT s len base = (int (length (uintToString v base)), of_nat v :: 'a::len word)"
proof -
  let ?n = "length (uintToString v base)"
  have n: "?n = countDigits base v" by (simp add: uintToString_def)
  have "stringToUINT_from s len base 0 (0 :: 'a word) = stringToUINT_from s len base (0 + ?n) (0 * of_nat base ^ ?n + of_nat (v mod base ^ ?n))"
    by (rule fillDigits_scanned) (use assms n in \<open>auto simp: printedAt_def stopsAt_def uintToString_def\<close>)
  also have "\<dots> = (?n, of_nat v)"
    using countDigits_enough [OF assms(1), of v] assms(4)
    by (subst stringToUINT_from.simps) (auto simp: n stopsAt_def Let_def)
  finally show ?thesis using countDigits_pos [of base v] n by (simp add: stringToUINT_def)
qed

lemma fillDigits_set: "0 < base \<Longrightarrow> c \<in> set (fillDigits base n v) \<Longrightarrow> \<exists>d<base. c = digitChar d"
  by (induction n arbitrary: v) (auto intro: mod_less_divisor)

lemma digitChar_not_sign: "c < 36 \<Longrightarrow> digitChar c \<noteq> 43 \<and> digitChar c \<noteq> 45 \<and> digitChar c \<noteq> 46 \<and> \<not> isspace (sint (digitChar c))"
proof -
  have "list_all (\<lambda>c. digitChar c \<noteq> 43 \<and> digitChar c \<noteq> 45 \<and> digitChar c \<noteq> 46 \<and> \<not> isspace (sint (digitChar c))) [0..<36]"
    by code_simp
  then show "c < 36 \<Longrightarrow> ?thesis" by (auto simp: list_all_iff)
qed

lemma uintToString_hd:
  assumes "2 \<le> base" "base \<le> 36" "printedAt s 0 (uintToString v base)"
  shows "s 0 \<noteq> 43 \<and> s 0 \<noteq> 45 \<and> s 0 \<noteq> 46 \<and> \<not> isspace (sint (s 0))"
proof -
  have n: "0 < length (uintToString v base)" by (simp add: uintToString_def countDigits_pos)
  then have "s 0 = uintToString v base ! 0"
    using assms(3) nth_view [of 0 "length (uintToString v base)" 0 s] by (simp add: printedAt_def)
  then have "s 0 \<in> set (uintToString v base)" using n by simp
  then show ?thesis using fillDigits_set [of base "s 0"] digitChar_not_sign assms(1,2) by (fastforce simp: uintToString_def)
qed

lemma stringToINT_intToString:
  assumes base: "2 \<le> base" "base \<le> 36" and p: "printedAt s 0 (intToString v base)"
    and stop: "stopsAt s len base (length (intToString v base))"
  shows "stringToINT s len base = (int (length (intToString v base)), Some (v :: 'a::len word))"
proof (cases "sint v < 0")
  case True
  let ?w = "uintToString (unat (- v)) base"
  have w: "s 0 = 45" "printedAt (shift 1 s) 0 ?w" using p True by (auto simp: intToString_def printedAt_Cons)
  have l: "length (intToString v base) = Suc (length ?w)" using True by (simp add: intToString_def)
  have "stopsAt (shift 1 s) (len - 1) base (length ?w)" using stop l by (auto simp: stopsAt_def)
  with stringToUINT_uintToString [OF base w(2), where 'a = 'a]
  have "stringToUINT (shift 1 s) (len - 1) base = (int (length ?w), - v)" by simp
  moreover have "1 \<le> len" using stop l by (auto simp: stopsAt_def)
  ultimately show ?thesis using w(1) l by (simp add: stringToINT_def)
next
  case False
  let ?w = "uintToString (unat v) base"
  have w: "printedAt s 0 ?w" "stopsAt s len base (length ?w)" and l: "intToString v base = ?w"
    using p stop False by (simp_all add: intToString_def)
  have "0 < length ?w" by (simp add: uintToString_def countDigits_pos)
  then have "1 \<le> len" using w(2) unfolding stopsAt_def by linarith
  moreover have "stringToUINT s len base = (int (length ?w), v)" using stringToUINT_uintToString [OF base w, where 'a = 'a] by simp
  moreover have "shift 0 s = s" by (simp add: fun_eq_iff)
  ultimately show ?thesis using uintToString_hd [OF base w(1)] l by (simp add: stringToINT_def)
qed

lemma address_bytes:
  "(v AND 0xff) OR push_bit 8 (drop_bit 8 v AND 0xff) OR push_bit 16 (drop_bit 16 v AND 0xff) OR
    push_bit 24 (drop_bit 24 v AND 0xff) = (v :: u32)"
proof (rule bit_word_eqI)
  fix n
  assume "n < LENGTH(32)"
  then consider "n < 8" | "8 \<le> n" "n < 16" | "16 \<le> n" "n < 24" | "24 \<le> n" "n < 32" by force
  then show "bit ((v AND 0xff) OR push_bit 8 (drop_bit 8 v AND 0xff) OR push_bit 16 (drop_bit 16 v AND 0xff) OR
    push_bit 24 (drop_bit 24 v AND 0xff)) n = bit v n"
    by cases (auto simp: and_mask8 bit_simps)
qed

lemma scanf_I_round:
  fixes u :: u32
  assumes p: "printedAt s b (uintToString (unat u) 10)" and u: "u \<le> 0xff"
    and stop: "stopsAt s len 10 (b + length (uintToString (unat u) 10))"
  shows "stringToUINT (shift b s) (len - int b) 10 = (int (length (uintToString (unat u) 10)), u)"
  using stringToUINT_uintToString [of 10 "shift b s" "unat u" "len - int b", where 'a = 32] p stop by (auto simp: stopsAt_def)

lemma stops_at_dot: "s b = 46 \<Longrightarrow> int b < len \<Longrightarrow> stopsAt s len 10 b"
  by (simp add: stopsAt_def digitValue_def)

lemma and_ff_le: "(x :: u32) AND 0xff \<le> 0xff"
  by (simp add: word_and_le1)

lemma scanf_I_addressToString:
  assumes p: "printedAt s 0 (addressToString v)" and stop: "stopsAt s len 10 (length (addressToString v))"
  shows "scanf_I s len pa = (int (length (addressToString v)), [ScanInt v])"
proof -
  define d where "d i = drop_bit i v AND 0xff" for i
  define w where "w i = uintToString (unat (d i)) 10" for i
  define b1 b2 b3 where "b1 = length (w 0)" "b2 = b1 + 1 + length (w 8)" "b3 = b2 + 1 + length (w 16)"
  have a: "addressToString v = w 0 @ 46 # w 8 @ 46 # w 16 @ 46 # w 24"
    by (simp add: addressToString_def w_def d_def asc_def)
  have l: "length (addressToString v) = b3 + 1 + length (w 24)" by (simp add: a b1_b2_b3_def)
  have len: "int (b3 + 1 + length (w 24)) \<le> len" using stop by (auto simp: stopsAt_def l)
  have at: "printedAt s 0 (w 0)" "s b1 = 46" "printedAt s (b1 + 1) (w 8)" "s b2 = 46" "printedAt s (b2 + 1) (w 16)"
    "s b3 = 46" "printedAt s (b3 + 1) (w 24)"
    using p by (simp_all add: a printedAt_append printedAt_Cons b1_b2_b3_def)
  have b: "b1 < b2" "b2 < b3" "int b3 < len" using len by (simp_all add: b1_b2_b3_def)
  have dle: "d i \<le> 0xff" for i by (simp add: d_def and_ff_le)
  note round = scanf_I_round [of s _ "d i" len for i, folded w_def, OF _ dle]
  have r0: "stringToUINT (shift 0 s) (len - int 0) 10 = (int (length (w 0)), d 0)"
    by (rule round) (use at(1,2) b stops_at_dot in \<open>simp_all add: b1_b2_b3_def(1)\<close>)
  have r1: "stringToUINT (shift (b1 + 1) s) (len - int (b1 + 1)) 10 = (int (length (w 8)), d 8)"
    by (rule round) (use at(3,4) b stops_at_dot in \<open>simp_all add: b1_b2_b3_def(2)\<close>)
  have r2: "stringToUINT (shift (b2 + 1) s) (len - int (b2 + 1)) 10 = (int (length (w 16)), d 16)"
    by (rule round) (use at(5,6) b stops_at_dot in \<open>simp_all add: b1_b2_b3_def(3)\<close>)
  have r3: "stringToUINT (shift (b3 + 1) s) (len - int (b3 + 1)) 10 = (int (length (w 24)), d 24)"
    by (rule round) (use at(7) stop l in simp_all)
  have le: "\<not> 0xff < d i" for i using dle [of i] by simp
  have "scanf_I_rounds [0, 8, 16, 24] s len 0 0 =
      (Some (b3 + 1 + length (w 24)), ((0 OR push_bit 0 (d 0)) OR push_bit 8 (d 8)) OR push_bit 16 (d 16) OR push_bit 24 (d 24))"
    using r0 r1 r2 r3 at(2,4,6) le
    by (simp add: Let_def b1_b2_b3_def(1) [symmetric] b1_b2_b3_def(2) [symmetric, simplified]
        b1_b2_b3_def(3) [symmetric, simplified] or.assoc)
  moreover have "((0 OR push_bit 0 (d 0)) OR push_bit 8 (d 8)) OR push_bit 16 (d 16) OR push_bit 24 (d 24) = v"
    using address_bytes [of v] by (simp add: d_def or.assoc)
  ultimately show ?thesis by (simp add: scanf_I_def l)
qed

text \<open>Scanning what was printed gives the number back, whatever follows the number in the buffer, as
  long as it is not a digit: signed numbers of both widths in every base from 2 to 36, the smallest number
  included, and IP addresses in dotted form.\<close>

lemma print_scan_roundtrip:
  fixes v :: "'a::len word"
  shows "(2 \<le> base \<and> base \<le> 36 \<and> printedAt s 0 (intToString v base) \<and> stopsAt s len base (length (intToString v base)) \<longrightarrow>
      stringToINT s len base = (int (length (intToString v base)), Some v)) \<and>
    (printedAt s' 0 (addressToString a) \<and> stopsAt s' len' 10 (length (addressToString a)) \<longrightarrow>
      scanf_I s' len' pa = (int (length (addressToString a)), [ScanInt a]))"
  using stringToINT_intToString scanf_I_addressToString by blast

lemma scanned_nothing: "snscanf s 0 ''%u'' = (1, [Untouched])"
  by (simp add: snscanf_def vsnscanf_def vsnscanf_loop.simps parsePrintfArg_def scanfHandler_def skipSpace_def
      skipSpace_from.simps scanf_signed_def stringToINT_def Let_def)

end
