(* ===== verification/SocketArgs.thy ===== *)
theory SocketArgs
  imports IPv4 Printk
begin

text \<open>
  The arguments of a socket, \<open>kernel/io/network/internet.c\<close>: the file name of a socket such as
  \<open>1.2.3.4:80;src=6.7.8.9;srcport=1\<close> is scanned into \<open>IPSocketArguments\<close> and printed from it, and the
  arguments decide the device and the local address of a transmission and the packets a socket receives.
  An uninitialised variable of the code is an argument \<open>junk\<close>.
\<close>

record IPSocketArguments =
  localAddress :: u32
  remoteAddress :: u32
  dataProtocol :: u8
  localPort :: u16
  remotePort :: u16
  bindToDevice :: bool
  deviceName :: bytes
  deviceNameLength :: nat

abbreviation (input) MAX_FILE_ENUM_NAME_LENGTH :: nat where "MAX_FILE_ENUM_NAME_LENGTH \<equiv> 64"

definition initIPSocketArguments :: IPSocketArguments where
  "initIPSocketArguments = \<lparr>localAddress = ANY_IPV4_ADDRESS, remoteAddress = ANY_IPV4_ADDRESS, dataProtocol = 0,
    localPort = ANY_PORT, remotePort = ANY_PORT, bindToDevice = False, deviceName = (\<lambda>i. 0), deviceNameLength = 0\<rparr>"

section \<open>Scanning\<close>

text \<open>What \<open>snscanf\<close> with the format \<open>%u%n\<close> leaves in its two variables.\<close>

definition scannedNumber :: "u32 \<Rightarrow> scanned list \<Rightarrow> u32" where
  "scannedNumber junk out = (case out of ScanInt p # _ \<Rightarrow> p | _ \<Rightarrow> junk)"

definition scannedLength :: "scanned list \<Rightarrow> nat" where
  "scannedLength out = (case out of [_, ScanCount n] \<Rightarrow> n | _ \<Rightarrow> 0)"

definition scanPort :: "u32 \<Rightarrow> bytes \<Rightarrow> nat \<Rightarrow> (u16 \<times> nat) option" where
  "scanPort junk name nameLength =
    (let (scanCount, out) = snscanf name nameLength ''%u%n''; p = scannedNumber junk out in
     if scanCount = 0 \<or> p > 0xffff then None else Some (ucast p, scannedLength out))"

definition scanSubnet :: "u32 \<Rightarrow> bytes \<Rightarrow> nat \<Rightarrow> (u32 \<times> nat) option" where
  "scanSubnet junk name nameLength =
    (let (scanCount, out) = snscanf name nameLength ''%u%n''; s = scannedNumber junk out in
     if scanCount = 0 \<or> s > 32 then None
     else Some (if s = 0 then 0 else changeEndian32 (NOT (push_bit (32 - unat s) 1 - 1)), scannedLength out))"

text \<open>\<open>scanIPAddress\<close> with the flags that \<open>subnet\<close> and \<open>port\<close> are not \<open>NULL\<close>: the scan count, the address,
  the subnet and the port if they were scanned, and the scan length.\<close>

definition scanIPAddress :: "u32 \<Rightarrow> bytes \<Rightarrow> nat \<Rightarrow> bool \<Rightarrow> bool \<Rightarrow>
    (nat \<times> u32 \<times> u32 option \<times> u16 option \<times> nat) option" where
  "scanIPAddress junk name nameLength wantSubnet wantPort = do {
    let (count, out) = snscanf name nameLength ''%I%n'';
    (if count \<noteq> 1 then None else Some ());
    let address = scannedNumber junk out;
    let scanIndex = scannedLength out;
    (subnet, scanIndex) \<leftarrow>
      (if wantSubnet \<and> scanIndex < nameLength \<and> name scanIndex = 47 then
         map_option (\<lambda>(s, l). (Some s, scanIndex + 1 + l))
           (scanSubnet junk (shift (scanIndex + 1) name) (nameLength - (scanIndex + 1)))
       else Some (None, scanIndex));
    (port, scanIndex) \<leftarrow>
      (if wantPort \<and> scanIndex < nameLength \<and> name scanIndex = 58 then
         map_option (\<lambda>(p, l). (Some p, scanIndex + 1 + l))
           (scanPort junk (shift (scanIndex + 1) name) (nameLength - (scanIndex + 1)))
       else Some (None, scanIndex));
    Some (1 + (if subnet = None then 0 else 1) + (if port = None then 0 else 1), address, subnet, port, scanIndex)
  }"

definition keyIs :: "bytes \<Rightarrow> nat \<Rightarrow> string \<Rightarrow> bool" where
  "keyIs k keyLen w = isStringEqual k keyLen (cstr (asc w)) (length w)"

definition scanIPSocketArgument :: "u32 \<Rightarrow> IPSocketArguments \<Rightarrow> bytes \<Rightarrow> nat \<Rightarrow> bytes \<Rightarrow> nat \<Rightarrow> IPSocketArguments option" where
  "scanIPSocketArgument junk s k keyLen v vLen =
    (if keyIs k keyLen ''dst'' then
       (case scanIPAddress junk v vLen False True of
          Some (_, a, _, p, l) \<Rightarrow> if l = vLen then
            Some (s\<lparr>remoteAddress := a, remotePort := case p of Some p \<Rightarrow> p | None \<Rightarrow> remotePort s\<rparr>) else None
        | None \<Rightarrow> None)
     else if keyIs k keyLen ''src'' then
       (case scanIPAddress junk v vLen False True of
          Some (_, a, _, p, l) \<Rightarrow> if l = vLen then
            Some (s\<lparr>localAddress := a, localPort := case p of Some p \<Rightarrow> p | None \<Rightarrow> localPort s\<rparr>) else None
        | None \<Rightarrow> None)
     else if keyIs k keyLen ''srcport'' then
       (case scanPort junk v vLen of Some (p, l) \<Rightarrow> if l = vLen then Some (s\<lparr>localPort := p\<rparr>) else None | None \<Rightarrow> None)
     else if keyIs k keyLen ''dstport'' then
       (case scanPort junk v vLen of Some (p, l) \<Rightarrow> if l = vLen then Some (s\<lparr>remotePort := p\<rparr>) else None | None \<Rightarrow> None)
     else if keyIs k keyLen ''dev'' then
       (if vLen > MAX_FILE_ENUM_NAME_LENGTH then None
        else Some (s\<lparr>bindToDevice := True, deviceNameLength := vLen, deviceName := putBytes 0 (view v 0 vLen) (deviceName s)\<rparr>))
     else None)"

function scanArguments :: "u32 \<Rightarrow> IPSocketArguments \<Rightarrow> bytes \<Rightarrow> nat \<Rightarrow> IPSocketArguments option" where
  "scanArguments junk s fileName nameLength =
    (if nameLength = 0 then Some s
     else if fileName 0 \<noteq> 59 then None
     else let fileName = shift 1 fileName; nameLength = nameLength - 1 in
       if nameLength = 0 then Some s
       else let keyEnd = indexOf fileName 0 nameLength 61 in
         if keyEnd = nameLength then None
         else let valueEnd = indexOf fileName (keyEnd + 1) nameLength 59 in
           case scanIPSocketArgument junk s fileName keyEnd (shift (keyEnd + 1) fileName) (valueEnd - (keyEnd + 1)) of
             None \<Rightarrow> None
           | Some s \<Rightarrow> scanArguments junk s (shift valueEnd fileName) (nameLength - valueEnd))"
  by pat_completeness auto
termination
  by (relation "measure (\<lambda>(junk, s, fileName, nameLength). nameLength)") auto

declare scanArguments.simps [simp del]

definition scanIPSocketArguments :: "u32 \<Rightarrow> IPSocketArguments \<Rightarrow> u8 \<Rightarrow> bytes \<Rightarrow> nat \<Rightarrow> IPSocketArguments option" where
  "scanIPSocketArguments junk s p fileName nameLength =
    (case scanIPAddress junk fileName nameLength False True of
       None \<Rightarrow> None
     | Some (_, a, _, port, scanLength) \<Rightarrow>
         scanArguments junk
           (s\<lparr>dataProtocol := p, remoteAddress := a, remotePort := case port of Some q \<Rightarrow> q | None \<Rightarrow> remotePort s\<rparr>)
           (shift scanLength fileName) (nameLength - scanLength))"

section \<open>Printing\<close>

text \<open>One \<open>snprintf\<close> call of \<open>printIPSocketArguments\<close> at index \<open>i\<close>.\<close>

definition printPart :: "nat \<Rightarrow> string \<Rightarrow> printArg list \<Rightarrow> bytes \<times> nat \<Rightarrow> (bytes \<times> nat) option" where
  "printPart len format args bi = (case bi of (buffer, i) \<Rightarrow> do {
    (p, w, _) \<leftarrow> snprintf (of_nat len - of_nat i) format args;
    kassert (p \<ge> 0);
    Some (putBytes i w buffer, i + nat p)
  })"

definition printIPSocketArguments :: "bytes \<Rightarrow> nat \<Rightarrow> IPSocketArguments \<Rightarrow> (bytes \<times> nat) option" where
  "printIPSocketArguments buffer len a = do {
    bi \<leftarrow> printPart len ''%I:%u'' [ArgInt (remoteAddress a), ArgInt (ucast (remotePort a))] (buffer, 0);
    bi \<leftarrow> (if localAddress a \<noteq> ANY_IPV4_ADDRESS then printPart len '';src=%I'' [ArgInt (localAddress a)] bi else Some bi);
    bi \<leftarrow> (if localPort a \<noteq> ANY_PORT then printPart len '';srcport=%u'' [ArgInt (ucast (localPort a))] bi else Some bi);
    kassert (\<not> bindToDevice a);
    Some bi
  }"

section \<open>Printing with enough room\<close>

text \<open>With room for the whole text \<open>snprintf\<close> prints what \<open>printk\<close> prints.\<close>

lemma printk_loop_extends: "printk_loop f out as st = Some (r, out', st') \<Longrightarrow> \<exists>x. out' = out @ x"
proof (induction f out as st rule: printk_loop.induct)
  case (1 format out argList st)
  then show ?case
    by (subst (asm) (2) printk_loop.simps) (fastforce split: if_splits option.splits)
qed

lemma vsnprintf_loop_room:
  "printk_loop f out as st = Some (r, out', st') \<Longrightarrow> r \<noteq> - 1 \<Longrightarrow> int (length out') < slen \<Longrightarrow>
    vsnprintf_loop slen f out as st = Some (r, out' @ [0], st')"
proof (induction f out as st rule: printk_loop.induct)
  case (1 format out argList st)
  show ?case
  proof (cases "format = []")
    case True
    then show ?thesis using 1(2,4) by (auto simp: printk_loop.simps vsnprintf_loop.simps)
  next
    case False
    then obtain f b as s where s: "vsnprintf_single format (length out) argList = Some (Some (f, b, as, s))"
      using 1(2,3) by (auto simp: printk_loop.simps [of format] split: option.splits)
    have p: "printk_loop f (out @ b) as (st @ s) = Some (r, out', st')"
      using 1(2) False s by (simp add: printk_loop.simps [of format])
    then have "vsnprintf_loop slen f (out @ b) as (st @ s) = Some (r, out' @ [0], st')"
      using 1(1) [OF False s refl refl refl refl p 1(3,4)] by simp
    moreover obtain x where "out' = (out @ b) @ x" using printk_loop_extends [OF p] by blast
    then have "int (length out) < slen" "nat (min (int (length b)) (slen - int (length out))) = length b" using 1(4) by auto
    ultimately show ?thesis using False s by (simp add: vsnprintf_loop.simps [of slen format])
  qed
qed

lemma snprintf_room:
  assumes "printk f as = Some (r, out, st)" "r \<noteq> - 1" "length out < unat len" "unat len < 2 ^ 31"
  shows "snprintf len f as = Some (r, out @ [0], st)"
proof -
  have "sint len = int (unat len)" by (rule sint_small [OF assms(4)])
  then show ?thesis unfolding snprintf_def vsnprintf_def
    by (simp only:) (rule vsnprintf_loop_room, use assms(1-3) in \<open>simp_all only: printk_def of_nat_less_iff, simp_all\<close>)
qed

lemmas printk_eval = printk_def printk_loop.simps parsePrintfArg_def printfHandler_def printf_I_def printf_unsigned_def asc_def

lemma printed_remote: "printk ''%I:%u'' [ArgInt a, ArgInt p] =
    Some (int (length (addressToString a) + 1 + length (uintToString (unat p) 10)),
      addressToString a @ 58 # uintToString (unat p) 10, [])"
  by (simp add: printk_eval)

lemma printed_src: "printk '';src=%I'' [ArgInt a] = Some (int (5 + length (addressToString a)), asc '';src='' @ addressToString a, [])"
  by (simp add: printk_eval)

lemma printed_srcport: "printk '';srcport=%u'' [ArgInt p] =
    Some (int (9 + length (uintToString (unat p) 10)), asc '';srcport='' @ uintToString (unat p) 10, [])"
  by (simp add: printk_eval)

definition printedText :: "IPSocketArguments \<Rightarrow> u8 list" where
  "printedText a = addressToString (remoteAddress a) @ 58 # uintToString (unat (remotePort a)) 10 @
    (if localAddress a \<noteq> 0 then asc '';src='' @ addressToString (localAddress a) else []) @
    (if localPort a \<noteq> 0 then asc '';srcport='' @ uintToString (unat (localPort a)) 10 else [])"

lemma printPart_room:
  assumes "printk f as = Some (int (length w), w, [])" "i + length w < len" "len < 2 ^ 31"
  shows "printPart len f as (b, i) = Some (putBytes i (w @ [0]) b, i + length w)"
proof -
  have "(of_nat len - of_nat i :: u32) = of_nat (len - i)" using assms(2) by simp
  moreover have "unat (of_nat (len - i) :: u32) = len - i"
    using assms(3) unsigned_of_nat [of "len - i", where 'a = nat and 'b = 32] by (simp add: take_bit_nat_eq_self)
  ultimately have "snprintf (of_nat len - of_nat i) f as = Some (int (length w), w @ [0], [])"
    using snprintf_room [OF assms(1), of "of_nat (len - i)"] assms(2,3) by simp
  then show ?thesis by (simp add: printPart_def)
qed

lemma printedAt_iff: "printedAt s i w \<longleftrightarrow> (\<forall>k<length w. s (i + k) = w ! k)"
  unfolding printedAt_def by (subst list_eq_iff_nth_eq) simp

lemma printedAt_put: "printedAt (putBytes i w b) i w"
  by (simp add: printedAt_iff)

lemma printedAt_before: "printedAt b i w \<Longrightarrow> i + length w \<le> k \<Longrightarrow> printedAt (putBytes k v b) i w"
  by (simp add: printedAt_iff)

lemma printPart_appends:
  assumes "printk f as = Some (int (length w), w, [])" "printedAt b 0 t" "length (t @ w) < len" "len < 2 ^ 31"
  shows "\<exists>b'. printPart len f as (b, length t) = Some (b', length (t @ w)) \<and> printedAt b' 0 (t @ w)"
proof -
  let ?b = "putBytes (length t) (w @ [0]) b"
  have "printPart len f as (b, length t) = Some (?b, length (t @ w))"
    using printPart_room [OF assms(1) _ assms(4), of "length t" b] assms(3) by simp
  moreover have "printedAt ?b 0 t" using assms(2) by (rule printedAt_before) simp
  moreover have "printedAt ?b (length t) w"
    using printedAt_put [of "length t" "w @ [0]" b] unfolding printedAt_append by blast
  ultimately show ?thesis by (simp add: printedAt_append)
qed

lemma unat_ucast_port: "unat (ucast (q :: u16) :: u32) = unat q"
  using unsigned_less [of q, where 'a = nat] by (simp add: unsigned_ucast_eq take_bit_nat_eq_self)

lemma printIPSocketArguments_text:
  assumes "\<not> bindToDevice a" and "length (printedText a) < len" and "len < 2 ^ 31"
  shows "\<exists>b. printIPSocketArguments buffer len a = Some (b, length (printedText a)) \<and> printedAt b 0 (printedText a)"
proof -
  define r where "r = addressToString (remoteAddress a) @ 58 # uintToString (unat (remotePort a)) 10"
  define s where "s = (if localAddress a \<noteq> 0 then asc '';src='' @ addressToString (localAddress a) else [])"
  define p where "p = (if localPort a \<noteq> 0 then asc '';srcport='' @ uintToString (unat (localPort a)) 10 else [])"
  have t: "printedText a = (r @ s) @ p" by (simp add: printedText_def r_def s_def p_def)
  have len: "length ((r @ s) @ p) < len" using assms(2) t by simp
  have "printk ''%I:%u'' [ArgInt (remoteAddress a), ArgInt (ucast (remotePort a))] = Some (int (length r), r, [])"
    by (simp add: printed_remote r_def unat_ucast_port)
  from printPart_appends [OF this, of buffer "[]" len] obtain b where 1:
    "printPart len ''%I:%u'' [ArgInt (remoteAddress a), ArgInt (ucast (remotePort a))] (buffer, 0) = Some (b, length r)" "printedAt b 0 r"
    using len assms(3) by (auto simp: printedAt_iff)
  have "\<exists>b'. (if localAddress a \<noteq> 0 then printPart len '';src=%I'' [ArgInt (localAddress a)] (b, length r) else Some (b, length r)) =
      Some (b', length (r @ s)) \<and> printedAt b' 0 (r @ s)"
    using printPart_appends [OF _ 1(2), of "'';src=%I''" "[ArgInt (localAddress a)]" s len] 1(2) len assms(3)
    by (cases "localAddress a = 0") (simp_all add: s_def printed_src asc_def)
  then obtain b' where 2: "(if localAddress a \<noteq> 0 then printPart len '';src=%I'' [ArgInt (localAddress a)] (b, length r) else Some (b, length r)) =
      Some (b', length (r @ s))" "printedAt b' 0 (r @ s)" by blast
  have "\<exists>c. (if localPort a \<noteq> 0 then printPart len '';srcport=%u'' [ArgInt (ucast (localPort a))] (b', length (r @ s)) else Some (b', length (r @ s))) =
      Some (c, length ((r @ s) @ p)) \<and> printedAt c 0 ((r @ s) @ p)"
    using printPart_appends [OF _ 2(2), of "'';srcport=%u''" "[ArgInt (ucast (localPort a))]" p len] 2(2) len assms(3)
    by (cases "localPort a = 0") (simp_all add: p_def printed_srcport asc_def unat_ucast_port)
  then show ?thesis
    unfolding printIPSocketArguments_def 1(1) bind.bind_lunit 2(1) t using assms(1) by auto
qed

section \<open>Scanning what was printed\<close>

lemma printed_digit_hd:
  assumes "printedAt s 0 (uintToString v 10 @ w)"
  shows "\<not> isspace (sint (s 0))"
  using uintToString_hd [of 10 s v] assms by (simp add: printedAt_append)

lemma skipSpace_none: "\<not> isspace (sint (s 0)) \<Longrightarrow> skipSpace s len = 0"
  by (simp add: skipSpace_def skipSpace_from.simps [of _ _ 0])

lemma addressToString_starts: "\<exists>w. addressToString v = uintToString (unat (v AND 0xff)) 10 @ w"
  by (simp add: addressToString_def)

lemma intToString_port: "intToString (ucast (q :: u16) :: u32) 10 = uintToString (unat q) 10"
proof -
  have "unat (ucast q :: u32) < 2 ^ 31" unfolding unat_ucast_port using unsigned_less [of q, where 'a = nat] by simp
  then have "\<not> sint (ucast q :: u32) < 0" using sint_small [of "ucast q"] by simp
  then show ?thesis by (simp only: intToString_def unat_ucast_port) simp
qed

text \<open>\<open>snscanf\<close> with one number or address and \<open>%n\<close>.\<close>

lemma snscanf_u:
  assumes "printedAt s 0 (uintToString (unat q) 10)" "stopsAt s (int len) 10 (length (uintToString (unat q) 10))"
  shows "snscanf s len ''%u%n'' = (1, [ScanInt (ucast (q :: u16)), ScanCount (length (uintToString (unat q) 10))])"
proof -
  have sp: "skipSpace s l = 0" for l using skipSpace_none printed_digit_hd [of s "unat q" "[]"] assms(1) by simp
  have r: "stringToINT s (int len) 10 = (int (length (uintToString (unat q) 10)), Some (ucast q :: u32))"
    using stringToINT_intToString [of 10 s "ucast q :: u32" "int len"] assms unfolding intToString_port by simp
  have "shift 0 s = s" by (simp add: fun_eq_iff)
  then show ?thesis
    by (simp add: snscanf_def vsnscanf_def vsnscanf_loop.simps parsePrintfArg_def scanfHandler_def sp r scanf_signed_def scanf_n_def Let_def)
qed

lemma snscanf_I:
  assumes "printedAt s 0 (addressToString a)" "stopsAt s (int len) 10 (length (addressToString a))"
  shows "snscanf s len ''%I%n'' = (1, [ScanInt a, ScanCount (length (addressToString a))])"
proof -
  obtain w where "addressToString a = uintToString (unat (a AND 0xff)) 10 @ w" using addressToString_starts by blast
  then have sp: "skipSpace s l = 0" for l using skipSpace_none printed_digit_hd assms(1) by metis
  have "shift 0 s = s" by (simp add: fun_eq_iff)
  then show ?thesis
    by (simp add: snscanf_def vsnscanf_def vsnscanf_loop.simps parsePrintfArg_def scanfHandler_def sp
        scanf_I_addressToString [OF assms] scanf_n_def Let_def)
qed

lemma scanPort_printed:
  assumes "printedAt s 0 (uintToString (unat q) 10)" "stopsAt s (int len) 10 (length (uintToString (unat q) 10))"
  shows "scanPort junk s len = Some (q, length (uintToString (unat q) 10))"
proof -
  have "\<not> (0xffff :: u32) < ucast q"
    unfolding word_less_nat_alt unat_ucast_port using unsigned_less [of q, where 'a = nat] by simp
  moreover have "ucast (ucast q :: u32) = q" by (rule bit_word_eqI) (simp add: bit_simps)
  ultimately show ?thesis
    by (simp add: scanPort_def snscanf_u [OF assms] scannedNumber_def scannedLength_def)
qed

lemma scanIPAddress_printed:
  assumes "printedAt s 0 (addressToString a)" "stopsAt s (int len) 10 (length (addressToString a))"
    and "length (addressToString a) < len \<longrightarrow> s (length (addressToString a)) \<noteq> 58"
  shows "scanIPAddress junk s len False True = Some (1, a, None, None, length (addressToString a))"
  using assms(3) by (auto simp: scanIPAddress_def snscanf_I [OF assms(1,2)] scannedNumber_def scannedLength_def Let_def)

lemma scanIPAddress_port_printed:
  assumes "printedAt s 0 (addressToString a @ 58 # uintToString (unat q) 10)"
    "stopsAt s (int len) 10 (length (addressToString a) + 1 + length (uintToString (unat q) 10))"
  shows "scanIPAddress junk s len False True =
    Some (2, a, None, Some q, length (addressToString a) + 1 + length (uintToString (unat q) 10))"
proof -
  let ?n = "length (addressToString a)" and ?m = "length (uintToString (unat q) 10)"
  have p: "printedAt s 0 (addressToString a)" "s ?n = 58" "printedAt (shift (?n + 1) s) 0 (uintToString (unat q) 10)"
    using assms(1) by (simp_all add: printedAt_append printedAt_Cons)
  have l: "?n + 1 + ?m \<le> len" using assms(2) by (auto simp: stopsAt_def)
  have "stopsAt s (int len) 10 ?n" using p(2) l by (simp add: stopsAt_def digitValue_def)
  moreover have "stopsAt (shift (?n + 1) s) (int (len - (?n + 1))) 10 ?m" using assms(2) l by (auto simp: stopsAt_def)
  ultimately show ?thesis
    using p(2) l snscanf_I [OF p(1)] scanPort_printed [OF p(3)]
    by (simp add: scanIPAddress_def scannedNumber_def scannedLength_def)
qed

lemma indexOf_eqI:
  assumes "i \<le> j" "j \<le> len" "\<And>k. i \<le> k \<Longrightarrow> k < j \<Longrightarrow> s k \<noteq> c" "j < len \<Longrightarrow> s j = c"
  shows "indexOf s i len c = j"
proof -
  let ?r = "indexOf s i len c"
  have r: "i \<le> ?r" "?r \<le> len" using indexOf_ge indexOf_le assms(1,2) by (auto intro: order_trans)
  have "\<not> ?r < j" using indexOf_found [of s i len c] assms(2,3) r(1) by auto
  moreover have "\<not> j < ?r" using indexOf_not_found [of j i s len c] assms(1,4) r(2) by auto
  ultimately show ?thesis by simp
qed

lemma printedAt_nth: "printedAt s i w \<Longrightarrow> k < length w \<Longrightarrow> s (i + k) = w ! k"
  by (simp add: printedAt_iff)

lemma scanArguments_part:
  assumes p: "printedAt f 0 (59 # key @ 61 # val @ rest)" and n: "n = length (59 # key @ 61 # val @ rest)"
    and key: "61 \<notin> set key" and val: "59 \<notin> set val" and rest: "rest = [] \<or> hd rest = 59"
  shows "scanArguments junk s f n =
    (case scanIPSocketArgument junk s (shift 1 f) (length key) (shift (length key + 2) f) (length val) of
       None \<Rightarrow> None | Some s \<Rightarrow> scanArguments junk s (shift (length key + length val + 2) f) (length rest))"
proof -
  let ?g = "shift 1 f" and ?k = "length key" and ?v = "length val" and ?w = "key @ 61 # val @ rest"
  have g: "f (Suc i) = ?w ! i" if "i < length ?w" for i using printedAt_nth [OF p, of "Suc i"] that by simp
  have "indexOf ?g 0 (n - 1) 61 = ?k"
    by (rule indexOf_eqI) (use key n in \<open>auto simp: g nth_append dest: nth_mem\<close>)
  moreover have "indexOf ?g (?k + 1) (n - 1) 59 = ?k + 1 + ?v"
  proof (rule indexOf_eqI)
    show "?g k \<noteq> 59" if "?k + 1 \<le> k" "k < ?k + 1 + ?v" for k
    proof -
      have "val ! (k - Suc ?k) \<noteq> 59" using that val nth_mem [of "k - Suc ?k" val] by (metis add.commute diff_less_mono less_diff_conv2 Suc_eq_plus1 add_diff_cancel_left')
      then show ?thesis using that by (auto simp: g nth_append nth_Cons')
    qed
    show "?g (?k + 1 + ?v) = 59" if "?k + 1 + ?v < n - 1"
      using that rest n by (cases rest) (simp_all add: g nth_append)
  qed (use n in simp_all)
  moreover have "f 0 = 59" using printedAt_nth [OF p, of 0] by simp
  ultimately show ?thesis
    using n by (subst scanArguments.simps) (simp add: Let_def add.commute add.left_commute split: option.split)
qed

lemma keyIs_iff: "0 \<notin> set (view k 0 n) \<Longrightarrow> keyIs k n w \<longleftrightarrow> n = length w \<and> view k 0 n = asc w"
proof (cases "n = length w")
  case True
  moreover assume "0 \<notin> set (view k 0 n)"
  moreover have "length (asc w) = length w" by (simp add: asc_def)
  ultimately show ?thesis
    using isStringEqual_view [of k n "cstr (asc w)" n] view_cstr [of "asc w"] by (simp add: keyIs_def)
qed (simp add: keyIs_def isStringEqual_def)

lemma no_semicolon: "59 \<notin> set (uintToString v 10)" "59 \<notin> set (addressToString a)"
proof -
  have "list_all (\<lambda>c. digitChar c \<noteq> 59) [0..<10]" by code_simp
  then have *: "59 \<notin> set (uintToString v 10)" for v
    using fillDigits_set [of 10 59 "countDigits 10 v" v] by (auto simp: uintToString_def list_all_iff)
  then show "59 \<notin> set (uintToString v 10)" "59 \<notin> set (addressToString a)"
    by (auto simp: addressToString_def asc_def)
qed

lemma scanArguments_end: "scanArguments junk s f 0 = Some s"
  by (simp add: scanArguments.simps)

lemma printedAt_view: "printedAt s i w \<Longrightarrow> view s i (i + length w) = w"
  by (simp add: printedAt_def)

lemma scanArguments_src:
  assumes p: "printedAt f 0 (asc '';src='' @ addressToString a @ rest)"
    and n: "n = length (asc '';src='' @ addressToString a @ rest)" and rest: "rest = [] \<or> hd rest = 59"
  shows "scanArguments junk s f n = scanArguments junk (s\<lparr>localAddress := a\<rparr>) (shift (5 + length (addressToString a)) f) (length rest)"
proof -
  let ?l = "length (addressToString a)"
  have w: "asc '';src='' @ addressToString a @ rest = 59 # asc ''src'' @ 61 # addressToString a @ rest" by (simp add: asc_def)
  have "printedAt f (Suc 0) (asc ''src'')" using p unfolding w by (simp add: printedAt_Cons printedAt_append)
  then have v: "view (shift 1 f) 0 3 = asc ''src''" by (simp add: printedAt_def view_shift asc_def eval_nat_numeral)
  then have k: "keyIs (shift 1 f) 3 ''src''" "\<not> keyIs (shift 1 f) 3 ''dst''"
    using keyIs_iff [of "shift 1 f" 3] v by (simp_all add: asc_def)
  have "printedAt (shift 5 f) 0 (addressToString a)" using p by (simp add: printedAt_append asc_def printedAt_Cons numeral_eq_Suc)
  moreover have "stopsAt (shift 5 f) (int ?l) 10 ?l" by (simp add: stopsAt_def)
  ultimately have "scanIPAddress junk (shift 5 f) ?l False True = Some (1, a, None, None, ?l)" by (rule scanIPAddress_printed) simp
  then have "scanIPSocketArgument junk s (shift 1 f) 3 (shift 5 f) ?l = Some (s\<lparr>localAddress := a, localPort := localPort s\<rparr>)"
    using k by (simp add: scanIPSocketArgument_def)
  moreover have "scanArguments junk s f n =
    (case scanIPSocketArgument junk s (shift 1 f) (length (asc ''src'')) (shift (length (asc ''src'') + 2) f) ?l of
       None \<Rightarrow> None | Some s \<Rightarrow> scanArguments junk s (shift (length (asc ''src'') + ?l + 2) f) (length rest))"
    by (rule scanArguments_part) (use p n w rest no_semicolon in \<open>simp_all add: asc_def\<close>)
  moreover have l: "length (asc ''src'') = 3" by (simp add: asc_def)
  ultimately show ?thesis unfolding l by (simp add: ac_simps)
qed

lemma scanArguments_srcport:
  assumes p: "printedAt f 0 (asc '';srcport='' @ uintToString (unat q) 10)"
    and n: "n = length (asc '';srcport='' @ uintToString (unat q) 10)"
  shows "scanArguments junk s f n = Some (s\<lparr>localPort := q\<rparr>)"
proof -
  let ?u = "uintToString (unat q) 10"
  have w: "asc '';srcport='' @ ?u = 59 # asc ''srcport'' @ 61 # ?u @ []" by (simp add: asc_def)
  have "printedAt f (Suc 0) (asc ''srcport'')" using p unfolding w by (simp add: printedAt_Cons printedAt_append)
  then have v: "view (shift 1 f) 0 7 = asc ''srcport''" by (simp add: printedAt_def view_shift asc_def eval_nat_numeral)
  then have k: "keyIs (shift 1 f) 7 ''srcport''" "\<not> keyIs (shift 1 f) 7 ''dst''" "\<not> keyIs (shift 1 f) 7 ''src''"
    using keyIs_iff [of "shift 1 f" 7] v by (simp_all add: asc_def)
  have "printedAt (shift 9 f) 0 ?u" using p by (simp add: printedAt_append asc_def printedAt_Cons numeral_eq_Suc)
  moreover have "stopsAt (shift 9 f) (int (length ?u)) 10 (length ?u)" by (simp add: stopsAt_def)
  ultimately have "scanPort junk (shift 9 f) (length ?u) = Some (q, length ?u)" by (rule scanPort_printed)
  then have "scanIPSocketArgument junk s (shift 1 f) 7 (shift 9 f) (length ?u) = Some (s\<lparr>localPort := q\<rparr>)"
    using k by (simp add: scanIPSocketArgument_def)
  moreover have "scanArguments junk s f n =
    (case scanIPSocketArgument junk s (shift 1 f) (length (asc ''srcport'')) (shift (length (asc ''srcport'') + 2) f) (length ?u) of
       None \<Rightarrow> None | Some s \<Rightarrow> scanArguments junk s (shift (length (asc ''srcport'') + length ?u + 2) f) (length ([] :: u8 list)))"
    by (rule scanArguments_part) (use p n w no_semicolon in \<open>simp_all add: asc_def\<close>)
  moreover have l: "length (asc ''srcport'') = 7" by (simp add: asc_def)
  ultimately show ?thesis unfolding l by (simp add: scanArguments_end)
qed

text \<open>A socket name printed by \<open>printIPSocketArguments\<close> opens the same socket: for arguments that are
  not bound to a device and a buffer with enough room, printing succeeds, and \<open>scanIPSocketArguments\<close> reads the
  text of the returned length back into the same addresses and ports, whatever is in uninitialised memory.\<close>

lemma socketArguments_roundtrip:
  assumes "\<not> bindToDevice a" and "length (printedText a) < len" and "len < 2 ^ 31"
  shows "\<exists>b n a'. printIPSocketArguments buffer len a = Some (b, n) \<and>
    scanIPSocketArguments junk initIPSocketArguments p b n = Some a' \<and>
    localAddress a' = localAddress a \<and> remoteAddress a' = remoteAddress a \<and>
    localPort a' = localPort a \<and> remotePort a' = remotePort a \<and> dataProtocol a' = p \<and> \<not> bindToDevice a'"
proof -
  define r where "r = addressToString (remoteAddress a) @ 58 # uintToString (unat (remotePort a)) 10"
  define q where "q = (if localPort a \<noteq> 0 then asc '';srcport='' @ uintToString (unat (localPort a)) 10 else [])"
  define t where "t = (if localAddress a \<noteq> 0 then asc '';src='' @ addressToString (localAddress a) @ q else q)"
  have tx: "printedText a = r @ t" by (simp add: printedText_def r_def q_def t_def)
  obtain b where b: "printIPSocketArguments buffer len a = Some (b, length (r @ t))" "printedAt b 0 (r @ t)"
    using printIPSocketArguments_text [OF assms] tx by auto
  let ?s = "initIPSocketArguments\<lparr>dataProtocol := p, remoteAddress := remoteAddress a, remotePort := remotePort a\<rparr>"
  have pr: "printedAt b 0 r" and pt: "printedAt (shift (length r) b) 0 t" using b(2) by (simp_all add: printedAt_append)
  have hq: "q = [] \<or> hd q = 59" by (simp add: q_def asc_def)
  have t59: "t = [] \<or> t ! 0 = 59" using hq by (cases q) (auto simp: t_def asc_def)
  have "stopsAt b (int (length (r @ t))) 10 (length r)"
    using t59 printedAt_nth [OF pt, of 0] by (cases t) (auto simp: stopsAt_def digitValue_def)
  then have "scanIPAddress junk b (length (r @ t)) False True = Some (2, remoteAddress a, None, Some (remotePort a), length r)"
    using scanIPAddress_port_printed [of b "remoteAddress a" "remotePort a" "length (r @ t)"] pr by (simp add: r_def)
  then have scan: "scanIPSocketArguments junk initIPSocketArguments p b (length (r @ t)) =
      scanArguments junk ?s (shift (length r) b) (length t)"
    by (simp add: scanIPSocketArguments_def)
  have port: "scanArguments junk s f (length q) = Some (s\<lparr>localPort := localPort a\<rparr>)"
    if "printedAt f 0 q" "localPort s = 0" for f s
    using that scanArguments_srcport [of f "localPort a"] by (cases "localPort a = 0") (auto simp: q_def scanArguments_end)
  have "scanArguments junk ?s (shift (length r) b) (length t) = Some (?s\<lparr>localAddress := localAddress a, localPort := localPort a\<rparr>)"
  proof (cases "localAddress a = 0")
    case True
    then show ?thesis using port [of _ ?s] pt by (simp add: t_def initIPSocketArguments_def)
  next
    case False
    let ?f = "shift (5 + length (addressToString (localAddress a))) (shift (length r) b)"
    have "printedAt ?f 0 q" using pt False by (simp add: t_def printedAt_append printedAt_Cons asc_def eval_nat_numeral)
    then show ?thesis
      using False scanArguments_src [of "shift (length r) b" "localAddress a" q "length t"] pt hq port [of ?f]
      by (simp add: t_def initIPSocketArguments_def)
  qed
  then show ?thesis using b(1) scan by (simp add: initIPSocketArguments_def)
qed

end
