(* ===== verification/TaskQueue.thy ===== *)
theory TaskQueue
  imports Prelude
begin

text \<open>
  The task queues and the scheduler of \<open>kernel/task/taskmanager.c\<close>. A \<open>TaskQueue\<close> is a circular
  doubly linked list through the \<open>next\<close> and \<open>prev\<close> members of the tasks; the first part models
  it on pointers and shows that it is a first-in first-out queue. The second part models the
  scheduler on the list view.
\<close>

section \<open>Queues on pointers\<close>

record ('q, 't) taskheap =
  head :: "'q \<Rightarrow> 't option"
  nextTask :: "'t \<Rightarrow> 't option"
  prevTask :: "'t \<Rightarrow> 't option"

definition pushQueue :: "'q \<Rightarrow> 't \<Rightarrow> ('q, 't) taskheap \<Rightarrow> ('q, 't) taskheap option" where
  "pushQueue q t d = (case head d q of
      None \<Rightarrow> Some (d\<lparr>head := (head d)(q := Some t), nextTask := (nextTask d)(t := Some t),
        prevTask := (prevTask d)(t := Some t)\<rparr>)
    | Some h \<Rightarrow> (let
          d = d\<lparr>nextTask := (nextTask d)(t := Some h)\<rparr>;
          d = d\<lparr>prevTask := (prevTask d)(t := prevTask d h)\<rparr> in do {
        n \<leftarrow> nextTask d t;
        let d = d\<lparr>prevTask := (prevTask d)(n := Some t)\<rparr>;
        p \<leftarrow> prevTask d t;
        Some (d\<lparr>nextTask := (nextTask d)(p := Some t)\<rparr>)
      }))"

definition popQueue :: "'q \<Rightarrow> ('q, 't) taskheap \<Rightarrow> ('t option \<times> ('q, 't) taskheap) option" where
  "popQueue q d = (case head d q of
      None \<Rightarrow> Some (None, d)
    | Some t \<Rightarrow> do {
        d \<leftarrow> (if nextTask d t = Some t then do {
            kassert (prevTask d t = Some t);
            Some (d\<lparr>head := (head d)(q := None)\<rparr>)
          } else do {
            let d = d\<lparr>head := (head d)(q := nextTask d t)\<rparr>;
            n \<leftarrow> nextTask d t;
            let d = d\<lparr>prevTask := (prevTask d)(n := prevTask d t)\<rparr>;
            p \<leftarrow> prevTask d t;
            Some (d\<lparr>nextTask := (nextTask d)(p := nextTask d t)\<rparr>)
          });
        Some (Some t, d\<lparr>nextTask := (nextTask d)(t := None), prevTask := (prevTask d)(t := None)\<rparr>)
      })"

text \<open>The queue \<open>q\<close> holds the tasks \<open>ts\<close>, in this order.\<close>

definition circular :: "('q, 't) taskheap \<Rightarrow> 't list \<Rightarrow> bool" where
  "circular d ts \<longleftrightarrow> (\<forall>i<length ts. nextTask d (ts ! i) = Some (ts ! (Suc i mod length ts)) \<and>
    prevTask d (ts ! (Suc i mod length ts)) = Some (ts ! i))"

definition holds :: "('q, 't) taskheap \<Rightarrow> 'q \<Rightarrow> 't list \<Rightarrow> bool" where
  "holds d q ts \<longleftrightarrow> distinct ts \<and> circular d ts \<and> head d q = (case ts of [] \<Rightarrow> None | t # _ \<Rightarrow> Some t)"

lemma circularD:
  assumes "circular d ts"
  shows "Suc i < length ts \<Longrightarrow> nextTask d (ts ! i) = Some (ts ! Suc i)"
    and "Suc i < length ts \<Longrightarrow> prevTask d (ts ! Suc i) = Some (ts ! i)"
    and "ts \<noteq> [] \<Longrightarrow> nextTask d (last ts) = Some (hd ts)"
    and "ts \<noteq> [] \<Longrightarrow> prevTask d (hd ts) = Some (last ts)"
proof -
  show "Suc i < length ts \<Longrightarrow> nextTask d (ts ! i) = Some (ts ! Suc i)"
    and "Suc i < length ts \<Longrightarrow> prevTask d (ts ! Suc i) = Some (ts ! i)"
    using assms unfolding circular_def by (metis Suc_lessD mod_less)+
  assume ne: "ts \<noteq> []"
  then have "length ts - 1 < length ts" "Suc (length ts - 1) mod length ts = 0" by simp_all
  then show "nextTask d (last ts) = Some (hd ts)" "prevTask d (hd ts) = Some (last ts)"
    using assms ne unfolding circular_def by (metis hd_conv_nth last_conv_nth)+
qed

lemma circularI:
  assumes "\<And>i. Suc i < length ts \<Longrightarrow> nextTask d (ts ! i) = Some (ts ! Suc i)"
    and "\<And>i. Suc i < length ts \<Longrightarrow> prevTask d (ts ! Suc i) = Some (ts ! i)"
    and "ts \<noteq> [] \<Longrightarrow> nextTask d (last ts) = Some (hd ts)"
    and "ts \<noteq> [] \<Longrightarrow> prevTask d (hd ts) = Some (last ts)"
  shows "circular d ts"
  unfolding circular_def
proof (intro allI impI)
  fix i assume i: "i < length ts"
  show "nextTask d (ts ! i) = Some (ts ! (Suc i mod length ts)) \<and>
    prevTask d (ts ! (Suc i mod length ts)) = Some (ts ! i)"
  proof (cases "Suc i < length ts")
    case True
    then show ?thesis using assms(1,2) by simp
  next
    case False
    then have "Suc i = length ts" using i by simp
    then have "Suc i mod length ts = 0" "i = length ts - 1" "ts \<noteq> []" by auto
    then show ?thesis using assms(3,4) by (simp add: hd_conv_nth last_conv_nth)
  qed
qed

lemma pushQueue_holds:
  assumes "holds d q ts" and "t \<notin> set ts"
  shows "\<exists>d'. pushQueue q t d = Some d' \<and> holds d' q (ts @ [t])"
proof (cases ts)
  case Nil
  then have "head d q = None" using assms(1) by (simp add: holds_def)
  then show ?thesis using Nil by (auto simp: pushQueue_def holds_def intro!: circularI)
next
  case (Cons h hs)
  note C = assms(1) [unfolded holds_def]
  let ?l = "last ts"
  have hd: "head d q = Some h" "hd ts = h" using C Cons by auto
  have lp: "prevTask d h = Some ?l" using circularD(4) [of d ts] C Cons hd(2) by simp
  have ne: "h \<noteq> t" "?l \<noteq> t" using assms(2) Cons by (auto simp: last_ConsR split: if_splits)
  let ?d = "d\<lparr>nextTask := (nextTask d)(t := Some h, ?l := Some t), prevTask := (prevTask d)(t := Some ?l, h := Some t)\<rparr>"
  have run: "pushQueue q t d = Some ?d"
    using hd(1) lp ne by (simp add: pushQueue_def Let_def)
  have dist: "distinct (ts @ [t])" using C assms(2) by simp
  have "circular ?d (ts @ [t])"
  proof (rule circularI)
    fix i assume i: "Suc i < length (ts @ [t])"
    show "nextTask ?d ((ts @ [t]) ! i) = Some ((ts @ [t]) ! Suc i)"
    proof (cases "Suc i < length ts")
      case True
      then have "ts ! i \<noteq> ?l" using C by (intro distinct_nth_not_last) simp_all
      moreover have "ts ! i \<noteq> t" using True assms(2) nth_mem [of i ts] by auto
      ultimately show ?thesis using True circularD(1) [of d ts i] C by (simp add: nth_append)
    next
      case False
      then have "i = length ts - 1" using i by simp
      then have "(ts @ [t]) ! i = ?l" "(ts @ [t]) ! Suc i = t" using Cons by (simp_all add: nth_append last_conv_nth)
      then show ?thesis by simp
    qed
    show "prevTask ?d ((ts @ [t]) ! Suc i) = Some ((ts @ [t]) ! i)"
    proof (cases "Suc i < length ts")
      case True
      then have "ts ! Suc i \<noteq> h" using C distinct_nth_not_hd [of ts i] hd(2) by simp
      moreover have "ts ! Suc i \<noteq> t" using True assms(2) nth_mem [of "Suc i" ts] by auto
      ultimately show ?thesis using True circularD(2) [of d ts i] C by (simp add: nth_append)
    next
      case False
      then have "i = length ts - 1" using i by simp
      then have "(ts @ [t]) ! i = ?l" "(ts @ [t]) ! Suc i = t" using Cons by (simp_all add: nth_append last_conv_nth)
      then show ?thesis using ne by simp
    qed
  qed (use Cons ne in simp_all)
  then have "holds ?d q (ts @ [t])" using dist hd(1) Cons by (simp add: holds_def)
  then show ?thesis using run by blast
qed

lemma popQueue_holds:
  assumes "holds d q (t # ts)"
  shows "\<exists>d'. popQueue q d = Some (Some t, d') \<and> holds d' q ts"
proof (cases ts)
  case Nil
  have "head d q = Some t" "nextTask d t = Some t" "prevTask d t = Some t"
    using assms circularD(3,4) [of d "[t]"] Nil by (auto simp: holds_def)
  then show ?thesis using Nil by (simp add: popQueue_def holds_def circular_def)
next
  case (Cons n ns)
  note C = assms [unfolded holds_def]
  let ?l = "last ts"
  have hd: "head d q = Some t" using C by simp
  have nx: "nextTask d t = Some n" "prevTask d n = Some t" using circularD(1,2) [of d "t # ts" 0] C Cons by auto
  have pv: "prevTask d t = Some ?l" "nextTask d ?l = Some t" using circularD(3,4) [of d "t # ts"] C Cons by auto
  have ne: "n \<noteq> t" "?l \<noteq> t" using C Cons by (auto split: if_splits)
  let ?d = "d\<lparr>head := (head d)(q := Some n), nextTask := (nextTask d)(?l := Some n, t := None),
    prevTask := (prevTask d)(n := Some ?l, t := None)\<rparr>"
  have run: "popQueue q d = Some (Some t, ?d)"
    using hd nx pv ne by (simp add: popQueue_def Let_def)
  have "circular ?d ts"
  proof (rule circularI)
    fix i assume i: "Suc i < length ts"
    have "ts ! i \<noteq> ?l" using C i by (intro distinct_nth_not_last) simp_all
    moreover have "ts ! i \<noteq> t" using i C nth_mem [of i ts] by auto
    ultimately show "nextTask ?d (ts ! i) = Some (ts ! Suc i)"
      using i circularD(1) [of d "t # ts" "Suc i"] C by simp
    have "ts ! Suc i \<noteq> n" using C distinct_nth_not_hd [of ts i] Cons i by simp
    moreover have "ts ! Suc i \<noteq> t" using i C nth_mem [of "Suc i" ts] by auto
    ultimately show "prevTask ?d (ts ! Suc i) = Some (ts ! i)"
      using i circularD(2) [of d "t # ts" "Suc i"] C by simp
  qed (use Cons ne in simp_all)
  then have "holds ?d q ts" using C Cons by (simp add: holds_def)
  then show ?thesis using run by blast
qed

section \<open>The queue as an interface\<close>

text \<open>What the scheduler and the locks rely on: the queue is first in, first out.\<close>

locale fifo_queue =
  fixes rep :: "'s \<Rightarrow> 't list \<Rightarrow> bool" and push :: "'t \<Rightarrow> 's \<Rightarrow> 's option"
    and pop :: "'s \<Rightarrow> ('t option \<times> 's) option"
  assumes push_rep: "rep s ts \<Longrightarrow> t \<notin> set ts \<Longrightarrow> \<exists>s'. push t s = Some s' \<and> rep s' (ts @ [t])"
    and pop_rep: "rep s (t # ts) \<Longrightarrow> \<exists>s'. pop s = Some (Some t, s') \<and> rep s' ts"
    and pop_empty: "rep s [] \<Longrightarrow> pop s = Some (None, s)"
begin

primrec pushAll :: "'t list \<Rightarrow> 's \<Rightarrow> 's option" where
  "pushAll [] s = Some s"
| "pushAll (t # ts) s = push t s \<bind> pushAll ts"

primrec popAll :: "nat \<Rightarrow> 's \<Rightarrow> ('t option list \<times> 's) option" where
  "popAll 0 s = Some ([], s)"
| "popAll (Suc n) s = do {
    (t, s) \<leftarrow> pop s;
    (ts, s) \<leftarrow> popAll n s;
    Some (t # ts, s)
  }"

lemma pushAll_rep:
  "rep s ts \<Longrightarrow> distinct (ts @ us) \<Longrightarrow> \<exists>s'. pushAll us s = Some s' \<and> rep s' (ts @ us)"
proof (induction us arbitrary: s ts)
  case (Cons u us)
  then obtain s1 where s1: "push u s = Some s1" "rep s1 (ts @ [u])" using push_rep [of s ts u] by auto
  then show ?case using Cons.IH [OF s1(2)] Cons.prems(2) by auto
qed simp

lemma popAll_rep: "rep s ts \<Longrightarrow> \<exists>s'. popAll (length ts) s = Some (map Some ts, s') \<and> rep s' []"
proof (induction ts arbitrary: s)
  case (Cons t ts)
  then obtain s1 where "pop s = Some (Some t, s1)" "rep s1 ts" using pop_rep by blast
  then show ?case using Cons.IH by fastforce
qed simp

lemma push_pop_order:
  assumes "rep s []" and "distinct ts"
  shows "\<exists>s1 s2. pushAll ts s = Some s1 \<and> popAll (length ts) s1 = Some (map Some ts, s2) \<and> rep s2 []"
  using pushAll_rep [OF assms(1), of ts] assms(2) popAll_rep by fastforce

end

interpretation tq: fifo_queue "\<lambda>d. holds d q" "pushQueue q" "popQueue q" for q
proof (unfold_locales, goal_cases)
  case 1
  then show ?case by (rule pushQueue_holds)
next
  case 2
  then show ?case by (rule popQueue_holds)
next
  case 3
  then show ?case by (simp add: holds_def popQueue_def)
qed

text \<open>The circular task queue is first in, first out. \<open>pushQueue\<close> of a task that is in no queue
  appends it and \<open>popQueue\<close> takes the oldest one; neither follows a null pointer or fails its
  assertion, and an empty queue pops \<open>NULL\<close>.\<close>

lemma taskQueue_fifo:
  assumes "holds d q ts" and "t \<notin> set ts"
  shows "\<exists>d1 d2. pushQueue q t d = Some d1 \<and> holds d1 q (ts @ [t]) \<and>
    popQueue q d1 = Some (Some (hd (ts @ [t])), d2) \<and> holds d2 q (tl (ts @ [t]))"
proof -
  obtain d1 where d1: "pushQueue q t d = Some d1" "holds d1 q (ts @ [t])"
    using tq.push_rep [OF assms] by blast
  moreover have "ts @ [t] = hd (ts @ [t]) # tl (ts @ [t])" by (cases ts) simp_all
  ultimately show ?thesis using tq.pop_rep [of d1 q "hd (ts @ [t])" "tl (ts @ [t])"] by auto
qed

section \<open>The scheduler\<close>

type_synonym task = nat

datatype TaskState = READY | SUSPENDED

abbreviation (input) NUMBER_OF_PRIORITIES :: nat where "NUMBER_OF_PRIORITIES \<equiv> 4"

text \<open>The ready queues of all processors, and the task each processor runs.\<close>

record scheduler =
  readyQueue :: "nat \<Rightarrow> task list"
  current :: "nat \<Rightarrow> task"
  taskState :: "task \<Rightarrow> TaskState"
  priority :: "task \<Rightarrow> nat"

definition pushPriorityQueue :: "task \<Rightarrow> scheduler \<Rightarrow> scheduler" where
  "pushPriorityQueue t q = q\<lparr>readyQueue := (readyQueue q)(priority q t := readyQueue q (priority q t) @ [t])\<rparr>"

function popFrom :: "nat \<Rightarrow> scheduler \<Rightarrow> (task \<times> scheduler) option" where
  "popFrom p q = (if p < NUMBER_OF_PRIORITIES then
      (case readyQueue q p of
        t # ts \<Rightarrow> Some (t, q\<lparr>readyQueue := (readyQueue q)(p := ts)\<rparr>)
      | [] \<Rightarrow> popFrom (Suc p) q)
    else None)"
  by pat_completeness auto
termination by (relation "measure (\<lambda>(p, q). NUMBER_OF_PRIORITIES - p)") auto

declare popFrom.simps [simp del]

definition popPriorityQueue :: "scheduler \<Rightarrow> (task \<times> scheduler) option" where
  "popPriorityQueue q = popFrom 0 q"

text \<open>\<open>taskSwitch\<close> on processor \<open>c\<close>: the result also names the old task, which the callback
  receives after the switch when there is one (\<open>suspend\<close>).\<close>

definition taskSwitch :: "nat \<Rightarrow> bool \<Rightarrow> scheduler \<Rightarrow> (task \<times> scheduler) option" where
  "taskSwitch c suspend q = (let oldTask = current q c;
      q = (if suspend then q\<lparr>taskState := (taskState q)(oldTask := SUSPENDED)\<rparr> else pushPriorityQueue oldTask q) in
    map_option (\<lambda>(t, q). (oldTask, q\<lparr>current := (current q)(c := t)\<rparr>)) (popPriorityQueue q))"

definition schedule :: "nat \<Rightarrow> scheduler \<Rightarrow> scheduler option" where
  "schedule c q = map_option snd (taskSwitch c False q)"

definition resume :: "task \<Rightarrow> scheduler \<Rightarrow> scheduler option" where
  "resume t q = do {
    kassert (taskState q t = SUSPENDED);
    Some (pushPriorityQueue t (q\<lparr>taskState := (taskState q)(t := READY)\<rparr>))
  }"

text \<open>With \<open>n\<close> processors: every ready task is running on one processor or waits exactly once in
  the queue of its priority, and nothing else is running or waiting.\<close>

definition sched_inv :: "nat \<Rightarrow> scheduler \<Rightarrow> bool" where
  "sched_inv n q \<longleftrightarrow> inj_on (current q) {..<n} \<and> (\<forall>p. distinct (readyQueue q p)) \<and>
    (\<forall>p. \<forall>t\<in>set (readyQueue q p). priority q t = p \<and> p < NUMBER_OF_PRIORITIES \<and> t \<notin> current q ` {..<n}) \<and>
    (\<forall>c<n. priority q (current q c) < NUMBER_OF_PRIORITIES) \<and>
    (\<forall>t. taskState q t = READY \<longleftrightarrow> t \<in> current q ` {..<n} \<or> t \<in> set (readyQueue q (priority q t)))"

lemma popFrom_spec:
  assumes "\<exists>p'\<ge>p. p' < NUMBER_OF_PRIORITIES \<and> readyQueue q p' \<noteq> []"
  shows "\<exists>p' t ts. p \<le> p' \<and> p' < NUMBER_OF_PRIORITIES \<and> readyQueue q p' = t # ts \<and>
    (\<forall>i. p \<le> i \<and> i < p' \<longrightarrow> readyQueue q i = []) \<and>
    popFrom p q = Some (t, q\<lparr>readyQueue := (readyQueue q)(p' := ts)\<rparr>)"
  using assms
proof (induction p q rule: popFrom.induct)
  case (1 p q)
  then have p4: "p < NUMBER_OF_PRIORITIES" by (meson le_less_trans)
  show ?case
  proof (cases "readyQueue q p")
    case (Cons t ts)
    then show ?thesis
      using p4 by (rule_tac exI [of _ p], rule_tac exI [of _ t], rule_tac exI [of _ ts])
        (auto simp: popFrom.simps [of p q] fun_upd_def)
  next
    case Nil
    then have "\<exists>p'\<ge>Suc p. p' < NUMBER_OF_PRIORITIES \<and> readyQueue q p' \<noteq> []"
      using 1(2) by (metis Suc_leI le_neq_implies_less)
    from 1(1) [OF p4 Nil this] obtain p' t ts where r: "Suc p \<le> p'" "p' < NUMBER_OF_PRIORITIES"
      "readyQueue q p' = t # ts" "\<forall>i. Suc p \<le> i \<and> i < p' \<longrightarrow> readyQueue q i = []"
      "popFrom (Suc p) q = Some (t, q\<lparr>readyQueue := (readyQueue q)(p' := ts)\<rparr>)" by blast
    have "\<forall>i. p \<le> i \<and> i < p' \<longrightarrow> readyQueue q i = []" using r(4) Nil by (metis Suc_leI le_neq_implies_less)
    then show ?thesis
      using r p4 Nil by (rule_tac exI [of _ p'], rule_tac exI [of _ t], rule_tac exI [of _ ts])
        (simp add: popFrom.simps [of p q] fun_upd_def)
  qed
qed

lemma sched_invD:
  assumes "sched_inv n q"
  shows "inj_on (current q) {..<n}" "distinct (readyQueue q p)"
    "t \<in> set (readyQueue q p) \<Longrightarrow> priority q t = p" "t \<in> set (readyQueue q p) \<Longrightarrow> p < NUMBER_OF_PRIORITIES"
    "t \<in> set (readyQueue q p) \<Longrightarrow> c < n \<Longrightarrow> t \<noteq> current q c"
    "c < n \<Longrightarrow> priority q (current q c) < NUMBER_OF_PRIORITIES"
    "taskState q t = READY \<longleftrightarrow> t \<in> current q ` {..<n} \<or> t \<in> set (readyQueue q (priority q t))"
  using assms by (auto simp: sched_inv_def)

text \<open>A processor whose task has been put aside takes the first task of the best non-empty queue.\<close>

lemma take_next_inv:
  assumes "sched_inv n q" and "c < n" and "readyQueue q p = t # ts"
  defines "q' \<equiv> q\<lparr>readyQueue := (readyQueue q)(p := ts), current := (current q)(c := t),
    taskState := (taskState q)(current q c := SUSPENDED)\<rparr>"
  shows "sched_inv n q'"
proof -
  note D = sched_invD [OF assms(1)]
  let ?o = "current q c"
  have tq: "t \<in> set (readyQueue q p)" using assms(3) by simp
  have tp: "priority q t = p" "p < NUMBER_OF_PRIORITIES" using D(3,4) [OF tq] by auto
  have tc: "t \<noteq> current q i" if "i < n" for i using D(5) [OF tq that] .
  have dt: "distinct (t # ts)" using D(2) [of p] assms(3) by simp
  have cur: "current q' ` {..<n} = insert t (current q ` ({..<n} - {c}))"
    using assms(2) by (auto simp: q'_def)
  have oc: "?o \<notin> current q ` ({..<n} - {c})" using D(1) assms(2) by (auto simp: inj_on_def)
  have ot: "?o \<noteq> t" using tc [OF assms(2)] by simp
  have rq: "set (readyQueue q' i) = set (readyQueue q i) - {t}" for i
  proof (cases "i = p")
    case True
    then show ?thesis using dt assms(3) by (simp add: q'_def)
  next
    case False
    then have "t \<notin> set (readyQueue q i)" using D(3) [of t i] tp(1) by blast
    then show ?thesis using False by (simp add: q'_def)
  qed
  have pr: "priority q' = priority q" by (simp add: q'_def)
  have "inj_on (current q') {..<n}"
    using D(1) tc by (auto simp: inj_on_def q'_def)
  moreover have "distinct (readyQueue q' i)" for i using D(2) [of i] dt by (auto simp: q'_def)
  moreover have "\<forall>x\<in>set (readyQueue q' i). priority q' x = i \<and> i < NUMBER_OF_PRIORITIES \<and> x \<notin> current q' ` {..<n}" for i
  proof
    fix x assume "x \<in> set (readyQueue q' i)"
    then have x: "x \<in> set (readyQueue q i)" "x \<noteq> t" using rq by auto
    have "x \<notin> current q ` ({..<n} - {c})" using D(5) [OF x(1)] by blast
    then show "priority q' x = i \<and> i < NUMBER_OF_PRIORITIES \<and> x \<notin> current q' ` {..<n}"
      using D(3,4) [OF x(1)] x(2) unfolding pr cur by simp
  qed
  moreover have "priority q' (current q' i) < NUMBER_OF_PRIORITIES" if "i < n" for i
    using D(6) [OF that] tp by (simp add: q'_def)
  moreover have "taskState q' x = READY \<longleftrightarrow> x \<in> current q' ` {..<n} \<or> x \<in> set (readyQueue q' (priority q' x))" for x
  proof (cases "x = ?o")
    case True
    have "?o \<notin> set (readyQueue q i)" for i using D(5) assms(2) by blast
    then show ?thesis unfolding rq cur True using oc ot by (simp add: q'_def)
  next
    case False
    then have st: "taskState q' x = taskState q x" by (simp add: q'_def)
    have im: "current q ` {..<n} = insert ?o (current q ` ({..<n} - {c}))" using assms(2) by auto
    show ?thesis unfolding st rq cur pr D(7) im using False tq tp(1) by auto
  qed
  ultimately show ?thesis unfolding sched_inv_def by blast
qed

lemma taskSwitch_suspend:
  assumes "sched_inv n q" and "c < n" and "\<exists>p. readyQueue q p \<noteq> []"
  shows "\<exists>q'. taskSwitch c True q = Some (current q c, q') \<and> sched_inv n q' \<and>
    taskState q' (current q c) = SUSPENDED \<and> (\<forall>p<priority q' (current q' c). readyQueue q' p = [])"
proof -
  obtain p0 t0 where "t0 \<in> set (readyQueue q p0)" using assms(3) by (metis list.set_sel(1))
  then have "\<exists>p'\<ge>0. p' < NUMBER_OF_PRIORITIES \<and> readyQueue q p' \<noteq> []"
    using sched_invD(4) [OF assms(1)] by fastforce
  then obtain p' t ts where r: "readyQueue q p' = t # ts" "\<forall>i<p'. readyQueue q i = []"
    "popFrom 0 (q\<lparr>taskState := (taskState q)(current q c := SUSPENDED)\<rparr>) =
      Some (t, q\<lparr>taskState := (taskState q)(current q c := SUSPENDED), readyQueue := (readyQueue q)(p' := ts)\<rparr>)"
    using popFrom_spec [of 0 "q\<lparr>taskState := (taskState q)(current q c := SUSPENDED)\<rparr>"] by auto
  let ?q = "q\<lparr>readyQueue := (readyQueue q)(p' := ts), current := (current q)(c := t),
    taskState := (taskState q)(current q c := SUSPENDED)\<rparr>"
  have run: "taskSwitch c True q = Some (current q c, ?q)"
    using r(3) by (cases q) (simp add: taskSwitch_def popPriorityQueue_def Let_def)
  have "priority q t = p'" using sched_invD(3) [OF assms(1), of t p'] r(1) by simp
  then have "\<forall>p<priority ?q (current ?q c). readyQueue ?q p = []" using r(2) by simp
  then show ?thesis using run take_next_inv [OF assms(1,2) r(1)] by (intro exI [of _ ?q]) simp
qed

lemma resume_inv:
  assumes "sched_inv n q" and "taskState q t = SUSPENDED" and "priority q t < NUMBER_OF_PRIORITIES"
  shows "\<exists>q'. resume t q = Some q' \<and> sched_inv n q' \<and> taskState q' t = READY \<and>
    readyQueue q' = (readyQueue q)(priority q t := readyQueue q (priority q t) @ [t])"
proof -
  note D = sched_invD [OF assms(1)]
  let ?q = "pushPriorityQueue t (q\<lparr>taskState := (taskState q)(t := READY)\<rparr>)"
  have nt: "t \<notin> current q ` {..<n}" "t \<notin> set (readyQueue q (priority q t))" using D(7) [of t] assms(2) by auto
  then have nq: "t \<notin> set (readyQueue q p)" for p using D(3) [of t p] by blast
  have "sched_inv n ?q"
    using assms(1,3) nt nq unfolding sched_inv_def pushPriorityQueue_def by auto
  then show ?thesis using assms(2) by (simp add: resume_def) (simp add: pushPriorityQueue_def)
qed

text \<open>C7: \<open>schedule\<close> never fails its assertion, keeps every ready task on exactly one processor or
  exactly once in the queue of its priority, and leaves the processor with a task of the best
  priority that is ready and not running elsewhere.\<close>

theorem schedule_correct:
  assumes "sched_inv n q" and "c < n"
  shows "\<exists>q'. schedule c q = Some q' \<and> sched_inv n q' \<and> taskState q' = taskState q \<and>
    (\<forall>p<priority q' (current q' c). readyQueue q' p = []) \<and>
    (priority q' (current q' c) \<le> priority q (current q c))"
proof -
  note D = sched_invD [OF assms(1)]
  let ?o = "current q c"
  let ?p = "priority q ?o"
  let ?q1 = "pushPriorityQueue ?o q"
  have p4: "?p < NUMBER_OF_PRIORITIES" using D(6) [OF assms(2)] .
  have "readyQueue ?q1 ?p \<noteq> []" by (simp add: pushPriorityQueue_def)
  then obtain p' t ts where r: "readyQueue ?q1 p' = t # ts" "\<forall>i<p'. readyQueue ?q1 i = []" "p' < NUMBER_OF_PRIORITIES"
    "popFrom 0 ?q1 = Some (t, ?q1\<lparr>readyQueue := (readyQueue ?q1)(p' := ts)\<rparr>)"
    using popFrom_spec [of 0 ?q1] p4 by (metis le0)
  let ?q = "?q1\<lparr>readyQueue := (readyQueue ?q1)(p' := ts), current := (current q)(c := t)\<rparr>"
  have run: "schedule c q = Some ?q"
    using r(4) by (simp add: schedule_def taskSwitch_def popPriorityQueue_def Let_def) (simp add: pushPriorityQueue_def)
  have oq: "?o \<notin> set (readyQueue q i)" for i using D(5) assms(2) by blast
  have tp: "priority q t = p'"
    using r(1) D(3) [of t p'] by (cases "p' = ?p") (auto simp: pushPriorityQueue_def Cons_eq_append_conv append_eq_Cons_conv)
  have le: "p' \<le> ?p"
  proof (rule ccontr)
    assume "\<not> p' \<le> ?p"
    then have "readyQueue ?q1 ?p = []" using r(2) by simp
    then show False by (simp add: pushPriorityQueue_def)
  qed
  have "sched_inv n ?q"
  proof (cases "t = ?o")
    case True
    then have e: "readyQueue q ?p = [] \<and> ts = [] \<and> p' = ?p"
      using r(1) tp oq [of ?p] by (auto simp: pushPriorityQueue_def Cons_eq_append_conv append_eq_Cons_conv)
    then have "?q = q" using True by (cases q) (auto simp: pushPriorityQueue_def fun_eq_iff)
    then show ?thesis using assms(1) by simp
  next
    case False
    have tq: "readyQueue q p' = t # butlast ts \<and> ts = butlast ts @ [?o] \<or> readyQueue q p' = t # ts \<and> p' \<noteq> ?p"
      using r(1) False by (cases "p' = ?p") (auto simp: pushPriorityQueue_def Cons_eq_append_conv append_eq_Cons_conv)
    then obtain us where us: "readyQueue q p' = t # us" by blast
    let ?q2 = "q\<lparr>readyQueue := (readyQueue q)(p' := us), current := (current q)(c := t),
      taskState := (taskState q)(?o := SUSPENDED)\<rparr>"
    have i2: "sched_inv n ?q2" using take_next_inv [OF assms(1,2) us] .
    have st: "taskState q ?o = READY" using D(7) [of ?o] assms(2) by simp
    have q2: "pushPriorityQueue ?o (?q2\<lparr>taskState := (taskState ?q2)(?o := READY)\<rparr>) = ?q"
      using r(1) us st False by (cases q) (auto simp: pushPriorityQueue_def fun_eq_iff)
    then show ?thesis using resume_inv [OF i2, of ?o] p4 by (auto simp: resume_def)
  qed
  moreover have "\<forall>p<p'. readyQueue ?q p = []" using r(2) by simp
  moreover have "priority ?q = priority q" "taskState ?q = taskState q" by (simp_all add: pushPriorityQueue_def)
  ultimately show ?thesis using run tp le by (intro exI [of _ ?q]) simp
qed

text \<open>Two processors with their idle tasks and two more tasks, the concrete input of the examples.\<close>

definition twoCpus :: scheduler where
  "twoCpus = \<lparr>readyQueue = (\<lambda>p. if p = 1 then [10, 11] else []), current = (\<lambda>c. c),
    taskState = (\<lambda>t. if t < 2 \<or> t = 10 \<or> t = 11 then READY else SUSPENDED),
    priority = (\<lambda>t. if t < 2 then 3 else 1)\<rparr>"

lemma twoCpus_inv: "sched_inv 2 twoCpus"
  by (auto simp: sched_inv_def twoCpus_def inj_on_def)

theorem schedule_correct_witness:
  "\<exists>q'. schedule 0 twoCpus = Some q' \<and> sched_inv 2 q' \<and> taskState q' = taskState twoCpus \<and>
    (\<forall>p<priority q' (current q' 0). readyQueue q' p = [])"
  using schedule_correct [OF twoCpus_inv, of 0] by auto

primrec scheduleTimes :: "nat \<Rightarrow> nat \<Rightarrow> scheduler \<Rightarrow> scheduler option" where
  "scheduleTimes 0 c q = Some q"
| "scheduleTimes (Suc k) c q = schedule c q \<bind> scheduleTimes k c"

lemma schedule_rotates:
  assumes "\<forall>i<p. readyQueue q i = []" and "p < NUMBER_OF_PRIORITIES" and "priority q (current q c) = p"
    and "\<forall>t\<in>set (readyQueue q p). priority q t = p"
  shows "\<exists>q'. schedule c q = Some q' \<and> current q' c # readyQueue q' p = rotate1 (current q c # readyQueue q p) \<and>
    (\<forall>i<p. readyQueue q' i = []) \<and> priority q' = priority q \<and> (\<forall>t\<in>set (current q' c # readyQueue q' p). priority q t = p)"
proof -
  let ?o = "current q c"
  let ?q1 = "pushPriorityQueue ?o q"
  have q1: "readyQueue ?q1 i = (if i = p then readyQueue q p @ [?o] else readyQueue q i)" for i
    using assms(3) by (simp add: pushPriorityQueue_def)
  have "readyQueue ?q1 p \<noteq> []" by (simp add: q1)
  then obtain p' t ts where r: "readyQueue ?q1 p' = t # ts" "\<forall>i<p'. readyQueue ?q1 i = []"
    "popFrom 0 ?q1 = Some (t, ?q1\<lparr>readyQueue := (readyQueue ?q1)(p' := ts)\<rparr>)"
    using popFrom_spec [of 0 ?q1] assms(2) by (metis le0)
  have "p' = p"
  proof (rule antisym)
    show "p' \<le> p" using r(2) \<open>readyQueue ?q1 p \<noteq> []\<close> by (metis not_le)
    show "p \<le> p'" using r(1) assms(1) q1 by (metis list.distinct(1) not_le less_irrefl)
  qed
  let ?q = "?q1\<lparr>readyQueue := (readyQueue ?q1)(p := ts), current := (current q)(c := t)\<rparr>"
  have run: "schedule c q = Some ?q"
    using r(3) \<open>p' = p\<close> by (simp add: schedule_def taskSwitch_def popPriorityQueue_def Let_def) (simp add: pushPriorityQueue_def)
  have e: "t # ts = readyQueue q p @ [?o]" using r(1) \<open>p' = p\<close> q1 by simp
  moreover have "\<forall>x\<in>set (t # ts). priority q x = p" unfolding e using assms(3,4) by simp
  ultimately show ?thesis
    using run assms(1) q1 by (intro exI [of _ ?q]) (simp add: pushPriorityQueue_def)
qed

text \<open>Tasks of equal priority take turns. While no task of a better priority is ready, \<open>k\<close> calls
  of \<open>schedule\<close> on a processor rotate its task and the queue of that priority \<open>k\<close> times: every one of
  them runs before any of them runs again.\<close>

lemma schedule_round_robin:
  assumes "sched_inv n q" and "c < n" and "\<forall>i<priority q (current q c). readyQueue q i = []"
  shows "\<exists>q'. scheduleTimes k c q = Some q' \<and>
    current q' c # readyQueue q' (priority q (current q c)) =
      rotate k (current q c # readyQueue q (priority q (current q c)))"
proof -
  let ?p = "priority q (current q c)"
  have p4: "?p < NUMBER_OF_PRIORITIES" and pq: "\<forall>t\<in>set (readyQueue q ?p). priority q t = ?p"
    using assms(1,2) by (auto simp: sched_inv_def)
  have "\<exists>q'. scheduleTimes k c q0 = Some q' \<and> current q' c # readyQueue q' p = rotate k (current q0 c # readyQueue q0 p)"
    if "\<forall>i<p. readyQueue q0 i = []" "p < NUMBER_OF_PRIORITIES" "priority q0 (current q0 c) = p"
      "\<forall>t\<in>set (readyQueue q0 p). priority q0 t = p" for p q0
    using that
  proof (induction k arbitrary: q0)
    case (Suc k)
    obtain q1 where q1: "schedule c q0 = Some q1" "current q1 c # readyQueue q1 p = rotate1 (current q0 c # readyQueue q0 p)"
      "\<forall>i<p. readyQueue q1 i = []" "priority q1 = priority q0" "\<forall>t\<in>set (current q1 c # readyQueue q1 p). priority q0 t = p"
      using schedule_rotates [OF Suc.prems] by blast
    obtain q' where "scheduleTimes k c q1 = Some q'" "current q' c # readyQueue q' p = rotate k (current q1 c # readyQueue q1 p)"
      using Suc.IH [of q1] q1(3-5) Suc.prems(2) by auto
    then show ?case using q1(1,2) by (simp add: rotate1_rotate_swap)
  qed simp
  from this [OF assms(3) p4 refl pq] show ?thesis .
qed

end
