(* ===== verification/Locks.thy ===== *)
theory Locks
  imports TaskQueue
begin

text \<open>
  The blocking locks of \<open>kernel/task/exclusivelock.c\<close>: semaphores and reader-writer locks. Each
  operation runs under the spinlock of its \<open>ExclusiveLock\<close> and is one atomic step; a task that has
  to wait is appended to a queue of the lock by the callback of \<open>taskSwitch\<close>, still under that
  spinlock. Releasing returns the tasks that \<open>resume\<close> is called for.
\<close>

datatype outcome = Acquired | Refused | Blocked

definition acquireExLock ::
    "('s \<Rightarrow> bool \<times> 's) \<Rightarrow> ('s \<Rightarrow> task \<Rightarrow> 's) \<Rightarrow> bool \<Rightarrow> task \<Rightarrow> 's \<Rightarrow> outcome \<times> 's" where
  "acquireExLock acquire pushLockQueue doBlock t s = (let (ok, s) = acquire s in
    if ok then (Acquired, s)
    else if \<not> doBlock then (Refused, s)
    else (Blocked, pushLockQueue s t))"

definition releaseExLock :: "('s \<Rightarrow> (task list \<times> 's) option) \<Rightarrow> 's \<Rightarrow> (task list \<times> 's) option" where
  "releaseExLock release s = release s"

section \<open>Semaphores\<close>

record Semaphore =
  quota :: int
  waiting :: "task list"

definition acquireSemaphore' :: "Semaphore \<Rightarrow> bool \<times> Semaphore" where
  "acquireSemaphore' s = (if quota s \<ge> 1 then (True, s\<lparr>quota := quota s - 1\<rparr>) else (False, s))"

definition pushSemaphoreQueue :: "Semaphore \<Rightarrow> task \<Rightarrow> Semaphore" where
  "pushSemaphoreQueue s t = s\<lparr>waiting := waiting s @ [t]\<rparr>"

definition releaseSemaphore' :: "Semaphore \<Rightarrow> (task list \<times> Semaphore) option" where
  "releaseSemaphore' s = (case waiting s of
      [] \<Rightarrow> do {
        kassert (quota s + 1 \<noteq> 0x7fffffff);
        Some ([], s\<lparr>quota := quota s + 1\<rparr>)
      }
    | t # ts \<Rightarrow> Some ([t], s\<lparr>waiting := ts\<rparr>))"

definition tryAcquireSemaphore :: "task \<Rightarrow> Semaphore \<Rightarrow> outcome \<times> Semaphore" where
  "tryAcquireSemaphore t s = acquireExLock acquireSemaphore' pushSemaphoreQueue False t s"

definition acquireSemaphore :: "task \<Rightarrow> Semaphore \<Rightarrow> outcome \<times> Semaphore" where
  "acquireSemaphore t s = acquireExLock acquireSemaphore' pushSemaphoreQueue True t s"

definition releaseSemaphore :: "Semaphore \<Rightarrow> (task list \<times> Semaphore) option" where
  "releaseSemaphore s = releaseExLock releaseSemaphore' s"

function tryAcquireAllSemaphore :: "task \<Rightarrow> Semaphore \<Rightarrow> nat \<Rightarrow> nat \<times> Semaphore" where
  "tryAcquireAllSemaphore t s r = (case tryAcquireSemaphore t s of
      (Acquired, s') \<Rightarrow> tryAcquireAllSemaphore t s' (r + 1)
    | (_, s') \<Rightarrow> (r, s'))"
  by pat_completeness auto
termination
  by (relation "measure (\<lambda>(t, s, r). nat (quota s))")
    (auto simp: tryAcquireSemaphore_def acquireExLock_def acquireSemaphore'_def split: if_splits)

declare tryAcquireAllSemaphore.simps [simp del]

text \<open>The continuation of \<open>acquireAllSemaphore\<close> once its first \<open>acquireSemaphore\<close> has succeeded.\<close>

definition acquireAllSemaphore :: "task \<Rightarrow> Semaphore \<Rightarrow> nat \<times> Semaphore" where
  "acquireAllSemaphore t s = (let (r, s) = tryAcquireAllSemaphore t s 0 in (1 + r, s))"

definition getSemaphoreValue :: "Semaphore \<Rightarrow> int" where
  "getSemaphoreValue s = quota s"

definition createSemaphore :: "int \<Rightarrow> Semaphore" where
  "createSemaphore initialValue = \<lparr>quota = initialValue, waiting = []\<rparr>"

definition deleteSemaphore :: "Semaphore \<Rightarrow> unit option" where
  "deleteSemaphore s = kassert (waiting s = [])"

section \<open>Reader-writer locks\<close>

record ReaderWriterLock =
  writerFirst :: bool
  writerCount :: int
  readerCount :: int
  writerQueue :: "task list"
  readerQueue :: "task list"

definition createReaderWriterLock :: "bool \<Rightarrow> ReaderWriterLock" where
  "createReaderWriterLock first = \<lparr>writerFirst = first, writerCount = 0, readerCount = 0, writerQueue = [], readerQueue = []\<rparr>"

definition deleteReaderWriterLock :: "ReaderWriterLock \<Rightarrow> unit option" where
  "deleteReaderWriterLock rwl = kassert (readerCount rwl = 0 \<and> writerCount rwl = 0 \<and>
    readerQueue rwl = [] \<and> writerQueue rwl = [])"

definition acquireReaderLock' :: "ReaderWriterLock \<Rightarrow> bool \<times> ReaderWriterLock" where
  "acquireReaderLock' rwl = (if writerCount rwl = 0 \<and> (\<not> writerFirst rwl \<or> writerQueue rwl = [])
    then (True, rwl\<lparr>readerCount := readerCount rwl + 1\<rparr>) else (False, rwl))"

definition pushReaderQueue :: "ReaderWriterLock \<Rightarrow> task \<Rightarrow> ReaderWriterLock" where
  "pushReaderQueue rwl t = rwl\<lparr>readerQueue := readerQueue rwl @ [t]\<rparr>"

definition acquireReaderLock :: "task \<Rightarrow> ReaderWriterLock \<Rightarrow> outcome \<times> ReaderWriterLock" where
  "acquireReaderLock t rwl = acquireExLock acquireReaderLock' pushReaderQueue True t rwl"

definition acquireWriterLock' :: "ReaderWriterLock \<Rightarrow> bool \<times> ReaderWriterLock" where
  "acquireWriterLock' rwl = (if writerCount rwl = 0 \<and> readerCount rwl = 0
    then (True, rwl\<lparr>writerCount := writerCount rwl + 1\<rparr>) else (False, rwl))"

definition pushWriterQueue :: "ReaderWriterLock \<Rightarrow> task \<Rightarrow> ReaderWriterLock" where
  "pushWriterQueue rwl t = rwl\<lparr>writerQueue := writerQueue rwl @ [t]\<rparr>"

definition acquireWriterLock :: "task \<Rightarrow> ReaderWriterLock \<Rightarrow> outcome \<times> ReaderWriterLock" where
  "acquireWriterLock t rwl = acquireExLock acquireWriterLock' pushWriterQueue True t rwl"

fun popReaders :: "task list \<Rightarrow> ReaderWriterLock \<Rightarrow> task list \<times> ReaderWriterLock" where
  "popReaders [] rwl = ([], rwl\<lparr>readerQueue := []\<rparr>)"
| "popReaders (t # ts) rwl =
    (let (q, rwl) = popReaders ts (rwl\<lparr>readerCount := readerCount rwl + 1\<rparr>) in (t # q, rwl))"

definition releaseReaderWriterLock' :: "ReaderWriterLock \<Rightarrow> (task list \<times> ReaderWriterLock) option" where
  "releaseReaderWriterLock' rwl = Some (
    let rwl = (if writerCount rwl \<noteq> 0 then rwl\<lparr>writerCount := writerCount rwl - 1\<rparr>
               else rwl\<lparr>readerCount := readerCount rwl - 1\<rparr>) in
    if writerFirst rwl \<and> writerQueue rwl \<noteq> [] \<or> readerQueue rwl = [] then
      (case writerQueue rwl of
        [] \<Rightarrow> ([], rwl)
      | t # ts \<Rightarrow> ([t], rwl\<lparr>writerQueue := ts, writerCount := writerCount rwl + 1\<rparr>))
    else popReaders (readerQueue rwl) rwl)"

definition releaseReaderWriterLock :: "ReaderWriterLock \<Rightarrow> (task list \<times> ReaderWriterLock) option" where
  "releaseReaderWriterLock rwl = releaseExLock releaseReaderWriterLock' rwl"

section \<open>Properties of semaphores\<close>

text \<open>A history of a semaphore: the calls in the order in which they take the spinlock. The second
  component of the state collects the tasks that have obtained a unit, in order.\<close>

datatype semcall = Acquire task | TryAcquire task | Release

definition semstep :: "semcall \<Rightarrow> Semaphore \<times> task list \<Rightarrow> (Semaphore \<times> task list) option" where
  "semstep c st = (case (c, st) of
      (Acquire t, (s, g)) \<Rightarrow> (case acquireSemaphore t s of (Acquired, s) \<Rightarrow> Some (s, g @ [t]) | (_, s) \<Rightarrow> Some (s, g))
    | (TryAcquire t, (s, g)) \<Rightarrow> (case tryAcquireSemaphore t s of (Acquired, s) \<Rightarrow> Some (s, g @ [t]) | (_, s) \<Rightarrow> Some (s, g))
    | (Release, (s, g)) \<Rightarrow> map_option (\<lambda>(ts, s). (s, g @ ts)) (releaseSemaphore s))"

fun semrun :: "semcall list \<Rightarrow> Semaphore \<times> task list \<Rightarrow> (Semaphore \<times> task list) option" where
  "semrun [] st = Some st"
| "semrun (c # cs) st = semstep c st \<bind> semrun cs"

definition releases :: "semcall list \<Rightarrow> nat" where
  "releases cs = length (filter (\<lambda>c. c = Release) cs)"

definition sem_ok :: "Semaphore \<Rightarrow> bool" where
  "sem_ok s \<longleftrightarrow> 0 \<le> quota s \<and> (waiting s \<noteq> [] \<longrightarrow> quota s = 0)"

lemma semstep_ok:
  assumes "sem_ok s" and "quota s + 1 < 0x7fffffff"
  shows "\<exists>s' g'. semstep c (s, g) = Some (s', g') \<and> sem_ok s' \<and>
    quota s' + int (length g') = quota s + int (length g) + int (releases [c]) \<and>
    quota s' \<le> quota s + int (releases [c]) \<and>
    (case c of Acquire t \<Rightarrow> g' @ waiting s' = g @ waiting s @ [t]
     | TryAcquire t \<Rightarrow> g' @ waiting s' \<in> {g @ waiting s, g @ waiting s @ [t]}
     | Release \<Rightarrow> g' @ waiting s' = g @ waiting s)"
  using assms
  by (cases c) (auto simp: semstep_def acquireSemaphore_def tryAcquireSemaphore_def acquireExLock_def
      acquireSemaphore'_def pushSemaphoreQueue_def releaseSemaphore_def releaseExLock_def
      releaseSemaphore'_def sem_ok_def releases_def split: list.splits)


fun requests :: "semcall list \<Rightarrow> task list" where
  "requests [] = []"
| "requests (Acquire t # cs) = t # requests cs"
| "requests (TryAcquire t # cs) = t # requests cs"
| "requests (Release # cs) = requests cs"

lemma semrun_ok:
  assumes "sem_ok s" and "quota s + int (releases cs) + 1 < 0x7fffffff"
  shows "\<exists>s' g'. semrun cs (s, g) = Some (s', g') \<and> sem_ok s' \<and>
    quota s' + int (length g') = quota s + int (length g) + int (releases cs) \<and>
    ((\<forall>t. TryAcquire t \<notin> set cs) \<longrightarrow> g' @ waiting s' = g @ waiting s @ requests cs)"
  using assms
proof (induction cs arbitrary: s g)
  case Nil
  then show ?case by (simp add: releases_def)
next
  case (Cons c cs)
  have rel: "int (releases (c # cs)) = int (releases [c]) + int (releases cs)" by (simp add: releases_def)
  have bound: "quota s + 1 < 0x7fffffff" using Cons.prems(2) by simp
  obtain s1 g1 where s1: "semstep c (s, g) = Some (s1, g1)" "sem_ok s1"
    "quota s1 + int (length g1) = quota s + int (length g) + int (releases [c])"
    "quota s1 \<le> quota s + int (releases [c])"
    "case c of Acquire t \<Rightarrow> g1 @ waiting s1 = g @ waiting s @ [t]
     | TryAcquire t \<Rightarrow> g1 @ waiting s1 \<in> {g @ waiting s, g @ waiting s @ [t]}
     | Release \<Rightarrow> g1 @ waiting s1 = g @ waiting s"
    using semstep_ok [OF Cons.prems(1) bound, of c g] by blast
  have "quota s1 + int (releases cs) + 1 < 0x7fffffff" using s1(4) Cons.prems(2) rel by simp
  from Cons.IH [OF s1(2) this, of g1] obtain s' g' where r: "semrun cs (s1, g1) = Some (s', g')" "sem_ok s'"
    "quota s' + int (length g') = quota s1 + int (length g1) + int (releases cs)"
    "(\<forall>t. TryAcquire t \<notin> set cs) \<longrightarrow> g' @ waiting s' = g1 @ waiting s1 @ requests cs" by blast
  have "g' @ waiting s' = g @ waiting s @ requests (c # cs)" if "\<forall>t. TryAcquire t \<notin> set (c # cs)"
  proof -
    have "g' @ waiting s' = (g1 @ waiting s1) @ requests cs" using r(4) that by simp
    also have "\<dots> = g @ waiting s @ requests (c # cs)" using s1(5) that by (cases c) auto
    finally show ?thesis .
  qed
  then show ?case using s1(1,3) r(1-3) rel by auto
qed

text \<open>C8: A semaphore created with \<open>v\<close> units neither loses nor invents units in any history of
  calls: the units handed out and the quota left add up to \<open>v\<close> plus the releases, no task waits while
  a unit is available, and blocked tasks are served in the order of their calls.\<close>

theorem semaphore_history:
  assumes "0 \<le> v" and "v + int (releases cs) + 1 < 0x7fffffff"
  shows "\<exists>s g. semrun cs (createSemaphore v, []) = Some (s, g) \<and>
    getSemaphoreValue s + int (length g) = v + int (releases cs) \<and>
    0 \<le> getSemaphoreValue s \<and> (waiting s \<noteq> [] \<longrightarrow> getSemaphoreValue s = 0) \<and>
    ((\<forall>t. TryAcquire t \<notin> set cs) \<longrightarrow> g @ waiting s = requests cs)"
  using semrun_ok [of "createSemaphore v" cs "[]"] assms
  by (fastforce simp: sem_ok_def createSemaphore_def getSemaphoreValue_def)

theorem semaphore_history_witness:
  "\<exists>s g. semrun [Acquire 1, Acquire 2, Acquire 3, Release] (createSemaphore 1, []) = Some (s, g) \<and>
    getSemaphoreValue s = 0 \<and> g @ waiting s = [1, 2, 3]"
proof -
  have "int (releases [Acquire 1, Acquire 2, Acquire 3, Release]) = 1" by (simp add: releases_def)
  from semaphore_history [of 1 "[Acquire 1, Acquire 2, Acquire 3, Release]"] this show ?thesis
    by (force simp: semstep_def acquireSemaphore_def acquireExLock_def acquireSemaphore'_def
        pushSemaphoreQueue_def releaseSemaphore_def releaseExLock_def releaseSemaphore'_def
        createSemaphore_def getSemaphoreValue_def)
qed

lemma tryAcquireAll_takes:
  "sem_ok s \<Longrightarrow> tryAcquireAllSemaphore t s r = (r + nat (quota s), s\<lparr>quota := 0\<rparr>)"
proof (induction t s r rule: tryAcquireAllSemaphore.induct)
  case (1 t s r)
  show ?case
  proof (cases "quota s \<ge> 1")
    case True
    have step: "tryAcquireSemaphore t s = (Acquired, s\<lparr>quota := quota s - 1\<rparr>)"
      using True by (simp add: tryAcquireSemaphore_def acquireExLock_def acquireSemaphore'_def)
    have "sem_ok (s\<lparr>quota := quota s - 1\<rparr>)" using 1(2) True by (auto simp: sem_ok_def)
    from 1(1) [OF step [symmetric] refl this] show ?thesis
      using step True by (simp add: tryAcquireAllSemaphore.simps [of t s r] nat_diff_distrib)
  next
    case False
    then have q: "quota s = 0" using 1(2) by (simp add: sem_ok_def)
    then have "tryAcquireSemaphore t s = (Refused, s)"
      by (simp add: tryAcquireSemaphore_def acquireExLock_def acquireSemaphore'_def)
    then show ?thesis using q by (simp add: tryAcquireAllSemaphore.simps [of t s r])
  qed
qed

text \<open>\<open>tryAcquireAllSemaphore\<close> terminates, takes all units of the semaphore and reports how many
  they were.\<close>

lemma tryAcquireAllSemaphore_correct:
  assumes "0 \<le> quota s" and "waiting s \<noteq> [] \<longrightarrow> quota s = 0"
  shows "tryAcquireAllSemaphore t s 0 = (nat (quota s), s\<lparr>quota := 0\<rparr>)"
  using tryAcquireAll_takes [of s t 0] assms by (simp add: sem_ok_def)

section \<open>Properties of reader-writer locks\<close>

definition rw_excl :: "ReaderWriterLock \<Rightarrow> bool" where
  "rw_excl rwl \<longleftrightarrow> 0 \<le> readerCount rwl \<and> (writerCount rwl = 0 \<or> writerCount rwl = 1 \<and> readerCount rwl = 0)"

lemma popReaders_eq:
  "popReaders ts rwl = (ts, rwl\<lparr>readerQueue := [], readerCount := readerCount rwl + int (length ts)\<rparr>)"
  by (induction ts arbitrary: rwl) (auto simp: Let_def)

text \<open>Acquiring keeps readers and writers apart, and so does a release by a writer or by the last
  reader, which wakes either one writer or all waiting readers. A woken task is counted as a holder
  before it runs.\<close>

lemma rwlock_exclusive:
  assumes "rw_excl rwl" and "writerCount rwl = 1 \<or> readerCount rwl = 1"
  shows "rw_excl (snd (acquireReaderLock t rwl)) \<and> rw_excl (snd (acquireWriterLock t rwl)) \<and>
    (\<exists>ts rwl'. releaseReaderWriterLock rwl = Some (ts, rwl') \<and> rw_excl rwl' \<and>
      int (length ts) = readerCount rwl' + writerCount rwl' \<and>
      (ts = [] \<longrightarrow> readerQueue rwl' = [] \<and> writerQueue rwl' = []))"
proof -
  have "rw_excl (snd (acquireReaderLock t rwl))" "rw_excl (snd (acquireWriterLock t rwl))"
    using assms(1)
    by (auto simp: rw_excl_def acquireReaderLock_def acquireWriterLock_def acquireExLock_def acquireReaderLock'_def
        acquireWriterLock'_def pushReaderQueue_def pushWriterQueue_def)
  moreover have "\<exists>ts rwl'. releaseReaderWriterLock rwl = Some (ts, rwl') \<and> rw_excl rwl' \<and>
      int (length ts) = readerCount rwl' + writerCount rwl' \<and>
      (ts = [] \<longrightarrow> readerQueue rwl' = [] \<and> writerQueue rwl' = [])"
    using assms
    by (auto simp: rw_excl_def releaseReaderWriterLock_def releaseExLock_def releaseReaderWriterLock'_def
        Let_def popReaders_eq split: list.splits)
  ultimately show ?thesis by blast
qed

text \<open>A reader that releases the lock while another reader still holds it wakes a waiting writer,
  if no reader waits: the lock then has a reader and a writer at the same time. The next release, by
  the remaining reader, is taken for the writer's.\<close>

lemma rwlock_not_exclusive:
  "\<exists>rwl rwl' rwl''. rw_excl rwl \<and> readerCount rwl = 2 \<and>
    snd (acquireWriterLock 3 (snd (acquireReaderLock 2 (snd (acquireReaderLock 1 (createReaderWriterLock f)))))) = rwl \<and>
    releaseReaderWriterLock rwl = Some ([3], rwl') \<and> writerCount rwl' = 1 \<and> readerCount rwl' = 1 \<and>
    releaseReaderWriterLock rwl' = Some ([], rwl'') \<and> writerCount rwl'' = 0 \<and> readerCount rwl'' = 1"
  by (simp add: rw_excl_def acquireReaderLock_def acquireWriterLock_def acquireExLock_def acquireReaderLock'_def
      acquireWriterLock'_def pushWriterQueue_def createReaderWriterLock_def releaseReaderWriterLock_def
      releaseExLock_def releaseReaderWriterLock'_def)

end
