(* ===== verification/Fifo.thy ===== *)
theory Fifo
  imports Locks
begin

text \<open>
  The ring buffer of \<open>kernel/io/fifoarray.c\<close>, through which interrupt handlers pass data to
  tasks. A slot of the buffer holds one element of \<open>elmtSize\<close> bytes, of type \<open>'a\<close> here. The parts of
  the operations that run under the spinlock (\<open>_writeFIFO\<close>, \<open>_readFIFO\<close>) are refined to list
  operations; the semaphore calls around them are separate steps, and the last section shows that no
  interleaving of them breaks the assertion in \<open>readFIFO\<close>.
\<close>

record 'a FIFO =
  beginIndex :: nat
  dataLength :: nat
  bufferLength :: nat
  buffer :: "nat \<Rightarrow> 'a"

definition dequeueBuffer :: "'a FIFO \<Rightarrow> 'a FIFO" where
  "dequeueBuffer fifo = fifo\<lparr>beginIndex := (beginIndex fifo + 1) AND (bufferLength fifo - 1), dataLength := dataLength fifo - 1\<rparr>"

definition bufferLocation :: "'a FIFO \<Rightarrow> nat \<Rightarrow> nat" where
  "bufferLocation fifo index = index AND (bufferLength fifo - 1)"

text \<open>The result is \<open>sizeChangeFlag\<close>, the element stored to \<open>overwrittenData\<close> when that pointer is
  given and the buffer is full, and the new buffer.\<close>

definition writeBuffer :: "'a FIFO \<Rightarrow> 'a \<Rightarrow> bool \<Rightarrow> bool \<times> 'a option \<times> 'a FIFO" where
  "writeBuffer fifo data doOverwrite = (let
      sizeChangeFlag = bufferLength fifo > dataLength fifo;
      (writeFlag, overwritten, fifo) =
        (if \<not> sizeChangeFlag then
           if doOverwrite then (True, Some (buffer fifo (bufferLocation fifo (beginIndex fifo))), dequeueBuffer fifo)
           else (False, None, fifo)
         else (True, None, fifo));
      fifo = (if writeFlag then
          fifo\<lparr>buffer := (buffer fifo)(bufferLocation fifo (beginIndex fifo + dataLength fifo) := data),
            dataLength := dataLength fifo + 1\<rparr>
        else fifo) in
    (sizeChangeFlag, overwritten, fifo))"

definition readBuffer :: "'a FIFO \<Rightarrow> bool \<Rightarrow> 'a option \<times> 'a FIFO" where
  "readBuffer fifo doReadFlag =
    (if dataLength fifo > 0 then
       (Some (buffer fifo (bufferLocation fifo (beginIndex fifo))), if doReadFlag then dequeueBuffer fifo else fifo)
     else (None, fifo))"

definition peekFIFO :: "'a FIFO \<Rightarrow> 'a option" where
  "peekFIFO fifo = fst (readBuffer fifo False)"

definition getDataLength :: "'a FIFO \<Rightarrow> nat" where
  "getDataLength fifo = dataLength fifo"

definition createFIFO :: "nat \<Rightarrow> 'a \<Rightarrow> 'a FIFO option" where
  "createFIFO length' fill = do {
    kassert (length' AND (length' - 1) = 0);
    Some \<lparr>beginIndex = 0, dataLength = 0, bufferLength = length', buffer = (\<lambda>_. fill)\<rparr>
  }"

section \<open>Refinement to lists\<close>

definition fifo_inv :: "'a FIFO \<Rightarrow> bool" where
  "fifo_inv f \<longleftrightarrow> (\<exists>k. bufferLength f = 2 ^ k) \<and> beginIndex f < bufferLength f \<and> dataLength f \<le> bufferLength f"

definition fifo_abs :: "'a FIFO \<Rightarrow> 'a list" where
  "fifo_abs f = map (\<lambda>i. buffer f ((beginIndex f + i) mod bufferLength f)) [0..<dataLength f]"

lemma and_mask_mod: "(n::nat) AND (2 ^ k - 1) = n mod 2 ^ k"
  by (metis mask_eq_exp_minus_1 take_bit_eq_mask take_bit_eq_mod)

lemma and_length:
  assumes "fifo_inv f"
  shows "n AND (bufferLength f - 1) = n mod bufferLength f"
proof -
  obtain k where "bufferLength f = 2 ^ k" using assms by (auto simp: fifo_inv_def)
  then show ?thesis using and_mask_mod [of n k] by simp
qed

lemma length_fifo_abs [simp]: "length (fifo_abs f) = dataLength f"
  by (simp add: fifo_abs_def)

lemma dequeue_refines:
  assumes "fifo_inv f" and "0 < dataLength f"
  shows "fifo_inv (dequeueBuffer f)" and "fifo_abs (dequeueBuffer f) = tl (fifo_abs f)"
    and "buffer f (bufferLocation f (beginIndex f)) = hd (fifo_abs f)"
proof -
  let ?n = "bufferLength f"
  have n: "0 < ?n" "beginIndex f mod ?n = beginIndex f" using assms(1) by (auto simp: fifo_inv_def)
  note al = and_length [OF assms(1), unfolded One_nat_def]
  show "fifo_inv (dequeueBuffer f)" using assms(1) n unfolding fifo_inv_def by (simp add: dequeueBuffer_def al le_diff_conv trans_le_add1)
  have tl: "tl (fifo_abs f) = map (\<lambda>i. buffer f ((beginIndex f + i) mod ?n)) [1..<dataLength f]"
    using assms(2) by (simp add: fifo_abs_def map_tl [symmetric] upt_rec [of 0])
  have "fifo_abs (dequeueBuffer f) = map (\<lambda>i. buffer f ((beginIndex f + Suc i) mod ?n)) [0..<dataLength f - 1]"
    by (simp add: fifo_abs_def dequeueBuffer_def al mod_add_left_eq)
  also have "\<dots> = map (\<lambda>i. buffer f ((beginIndex f + i) mod ?n)) (map Suc [0..<dataLength f - 1])" by simp
  also have "map Suc [0..<dataLength f - 1] = [1..<dataLength f]" using assms(2) by (simp add: map_Suc_upt)
  finally show "fifo_abs (dequeueBuffer f) = tl (fifo_abs f)" using tl by simp
  show "buffer f (bufferLocation f (beginIndex f)) = hd (fifo_abs f)"
    using assms(2) n by (simp add: bufferLocation_def al fifo_abs_def upt_rec [of 0])
qed

lemma enqueue_refines:
  fixes f :: "'a FIFO" and x :: 'a
  assumes "fifo_inv f" and "dataLength f < bufferLength f"
  defines "f' \<equiv> f\<lparr>buffer := (buffer f)(bufferLocation f (beginIndex f + dataLength f) := x), dataLength := dataLength f + 1\<rparr>"
  shows "fifo_inv f'" and "fifo_abs f' = fifo_abs f @ [x]"
proof -
  show "fifo_inv f'" using assms(1,2) by (auto simp: fifo_inv_def f'_def)
  let ?n = "bufferLength f"
  have "(beginIndex f + i) mod ?n \<noteq> (beginIndex f + dataLength f) mod ?n" if "i < dataLength f" for i
    using mod_less_inj [of "beginIndex f" i ?n "dataLength f"] that assms(2) by auto
  then have "map (\<lambda>i. buffer f' ((beginIndex f + i) mod ?n)) [0..<dataLength f] = fifo_abs f"
    by (simp add: fifo_abs_def f'_def bufferLocation_def and_length [OF assms(1), unfolded One_nat_def])
  moreover have "buffer f' ((beginIndex f + dataLength f) mod ?n) = x"
    by (simp add: f'_def bufferLocation_def and_length [OF assms(1), unfolded One_nat_def])
  ultimately show "fifo_abs f' = fifo_abs f @ [x]" by (simp add: fifo_abs_def f'_def)
qed

section \<open>The buffer as an interface\<close>

locale bounded_queue =
  fixes inv :: "'s \<Rightarrow> bool" and abs :: "'s \<Rightarrow> 'a list" and capacity :: "'s \<Rightarrow> nat"
    and put :: "'s \<Rightarrow> 'a \<Rightarrow> bool \<times> 's" and get :: "'s \<Rightarrow> 'a option \<times> 's"
  assumes put_full: "inv s \<Longrightarrow> length (abs s) \<ge> capacity s \<Longrightarrow> put s x = (False, s)"
    and put_room: "inv s \<Longrightarrow> length (abs s) < capacity s \<Longrightarrow>
      \<exists>s'. put s x = (True, s') \<and> inv s' \<and> abs s' = abs s @ [x] \<and> capacity s' = capacity s"
    and get_empty: "inv s \<Longrightarrow> abs s = [] \<Longrightarrow> get s = (None, s)"
    and get_first: "inv s \<Longrightarrow> abs s = x # xs \<Longrightarrow>
      \<exists>s'. get s = (Some x, s') \<and> inv s' \<and> abs s' = xs \<and> capacity s' = capacity s"
begin

text \<open>A burst of writes that fits is read back in the order it was written.\<close>

primrec putAll :: "'a list \<Rightarrow> 's \<Rightarrow> 's" where
  "putAll [] s = s"
| "putAll (x # xs) s = putAll xs (snd (put s x))"

primrec getAll :: "nat \<Rightarrow> 's \<Rightarrow> 'a option list" where
  "getAll 0 s = []"
| "getAll (Suc n) s = (let (x, s') = get s in x # getAll n s')"

lemma putAll_abs:
  "inv s \<Longrightarrow> length (abs s) + length xs \<le> capacity s \<Longrightarrow> inv (putAll xs s) \<and> abs (putAll xs s) = abs s @ xs"
proof (induction xs arbitrary: s)
  case (Cons x xs)
  obtain s' where "put s x = (True, s')" "inv s'" "abs s' = abs s @ [x]" "capacity s' = capacity s"
    using put_room [OF Cons.prems(1), of x] Cons.prems(2) by auto
  then show ?case using Cons.IH [of s'] Cons.prems(2) by simp
qed simp

lemma getAll_abs: "inv s \<Longrightarrow> n \<le> length (abs s) \<Longrightarrow> getAll n s = map Some (take n (abs s))"
proof (induction n arbitrary: s)
  case (Suc n)
  then obtain x xs where a: "abs s = x # xs" by (cases "abs s") auto
  obtain s' where "get s = (Some x, s')" "inv s'" "abs s' = xs" using get_first [OF Suc.prems(1) a] by blast
  then show ?case using Suc.IH [of s'] Suc.prems(2) a by simp
qed simp

end

definition putFIFO :: "'a FIFO \<Rightarrow> 'a \<Rightarrow> bool \<times> 'a FIFO" where
  "putFIFO f x = (let (ok, _, f') = writeBuffer f x False in (ok, f'))"

lemma writeBuffer_cases:
  assumes "fifo_inv f"
  shows "dataLength f < bufferLength f \<Longrightarrow> \<exists>f'. writeBuffer f x ov = (True, None, f') \<and> fifo_inv f' \<and>
      fifo_abs f' = fifo_abs f @ [x] \<and> bufferLength f' = bufferLength f"
    and "\<not> dataLength f < bufferLength f \<Longrightarrow> writeBuffer f x False = (False, None, f)"
    and "\<not> dataLength f < bufferLength f \<Longrightarrow> \<exists>f'. writeBuffer f x True = (False, Some (hd (fifo_abs f)), f') \<and> fifo_inv f' \<and>
      fifo_abs f' = tl (fifo_abs f) @ [x] \<and> bufferLength f' = bufferLength f"
proof -
  show "\<exists>f'. writeBuffer f x ov = (True, None, f') \<and> fifo_inv f' \<and> fifo_abs f' = fifo_abs f @ [x] \<and>
      bufferLength f' = bufferLength f" if "dataLength f < bufferLength f"
    using enqueue_refines [OF assms that, of x] that by (simp add: writeBuffer_def)
  show "writeBuffer f x False = (False, None, f)" if "\<not> dataLength f < bufferLength f"
    using that by (simp add: writeBuffer_def)
  assume full: "\<not> dataLength f < bufferLength f"
  then have pos: "0 < dataLength f" using assms by (auto simp: fifo_inv_def)
  note d = dequeue_refines [OF assms pos]
  have "dataLength (dequeueBuffer f) < bufferLength (dequeueBuffer f)"
    using assms pos by (auto simp: fifo_inv_def dequeueBuffer_def)
  from enqueue_refines [OF d(1) this, of x] d full
  show "\<exists>f'. writeBuffer f x True = (False, Some (hd (fifo_abs f)), f') \<and> fifo_inv f' \<and>
      fifo_abs f' = tl (fifo_abs f) @ [x] \<and> bufferLength f' = bufferLength f"
    by (simp add: writeBuffer_def) (simp add: dequeueBuffer_def)
qed

lemma readBuffer_cases:
  assumes "fifo_inv f"
  shows "fifo_abs f = [] \<Longrightarrow> readBuffer f d = (None, f)"
    and "fifo_abs f = x # xs \<Longrightarrow> \<exists>f'. readBuffer f True = (Some x, f') \<and> fifo_inv f' \<and> fifo_abs f' = xs \<and>
      bufferLength f' = bufferLength f"
    and "fifo_abs f = x # xs \<Longrightarrow> readBuffer f False = (Some x, f)"
proof -
  show "readBuffer f d = (None, f)" if "fifo_abs f = []"
    using that by (simp add: readBuffer_def fifo_abs_def)
  assume x: "fifo_abs f = x # xs"
  then have pos: "0 < dataLength f" using length_fifo_abs [of f] by simp
  note d = dequeue_refines [OF assms pos]
  show "\<exists>f'. readBuffer f True = (Some x, f') \<and> fifo_inv f' \<and> fifo_abs f' = xs \<and> bufferLength f' = bufferLength f"
    using d x pos by (simp add: readBuffer_def) (simp add: dequeueBuffer_def)
  show "readBuffer f False = (Some x, f)" using d(3) x pos by (simp add: readBuffer_def)
qed

interpretation fb: bounded_queue fifo_inv fifo_abs bufferLength putFIFO "\<lambda>f. readBuffer f True"
proof (unfold_locales, goal_cases)
  case (1 s x)
  then show ?case using writeBuffer_cases(2) [OF 1(1)] by (simp add: putFIFO_def)
next
  case (2 s x)
  then show ?case using writeBuffer_cases(1) [OF 2(1), of x False] by (auto simp: putFIFO_def)
next
  case (3 s)
  then show ?case by (rule readBuffer_cases(1))
next
  case (4 s x xs)
  then show ?case by (rule readBuffer_cases(2))
qed

text \<open>C9: The ring buffer refines a bounded list queue. Writing appends or, when the buffer is full,
  reports failure and changes nothing; overwriting drops and returns the oldest element; reading and
  peeking return the oldest element.\<close>

theorem fifo_refines_list:
  assumes "fifo_inv f"
  shows "(\<exists>ok f'. writeBuffer f x False = (ok, None, f') \<and> fifo_inv f' \<and> bufferLength f' = bufferLength f \<and>
      (if length (fifo_abs f) < bufferLength f then ok \<and> fifo_abs f' = fifo_abs f @ [x] else \<not> ok \<and> f' = f)) \<and>
    (\<exists>old f'. writeBuffer f x True = (length (fifo_abs f) < bufferLength f, old, f') \<and> fifo_inv f' \<and>
      (if length (fifo_abs f) < bufferLength f then old = None \<and> fifo_abs f' = fifo_abs f @ [x]
       else old = Some (hd (fifo_abs f)) \<and> fifo_abs f' = tl (fifo_abs f) @ [x])) \<and>
    (case fifo_abs f of
       [] \<Rightarrow> readBuffer f True = (None, f) \<and> peekFIFO f = None
     | y # ys \<Rightarrow> (\<exists>f'. readBuffer f True = (Some y, f') \<and> fifo_inv f' \<and> fifo_abs f' = ys) \<and> peekFIFO f = Some y)"
proof (intro conjI)
  note w = writeBuffer_cases [OF assms] and r = readBuffer_cases [OF assms]
  show "\<exists>ok f'. writeBuffer f x False = (ok, None, f') \<and> fifo_inv f' \<and> bufferLength f' = bufferLength f \<and>
      (if length (fifo_abs f) < bufferLength f then ok \<and> fifo_abs f' = fifo_abs f @ [x] else \<not> ok \<and> f' = f)"
    using w(1) [of x False] w(2) [of x] assms by (cases "dataLength f < bufferLength f") auto
  show "\<exists>old f'. writeBuffer f x True = (length (fifo_abs f) < bufferLength f, old, f') \<and> fifo_inv f' \<and>
      (if length (fifo_abs f) < bufferLength f then old = None \<and> fifo_abs f' = fifo_abs f @ [x]
       else old = Some (hd (fifo_abs f)) \<and> fifo_abs f' = tl (fifo_abs f) @ [x])"
    using w(1) [of x True] w(3) [of x] by (cases "dataLength f < bufferLength f") auto
  show "case fifo_abs f of
       [] \<Rightarrow> readBuffer f True = (None, f) \<and> peekFIFO f = None
     | y # ys \<Rightarrow> (\<exists>f'. readBuffer f True = (Some y, f') \<and> fifo_inv f' \<and> fifo_abs f' = ys) \<and> peekFIFO f = Some y"
    using r by (cases "fifo_abs f") (auto simp: peekFIFO_def)
qed

theorem fifo_refines_list_witness:
  "\<exists>ok f'. writeBuffer \<lparr>beginIndex = 3, dataLength = 2, bufferLength = 4, buffer = (\<lambda>i. i)\<rparr> 9 False = (ok, None, f') \<and>
    fifo_abs f' = [3, 0, 9]"
proof -
  let ?f = "\<lparr>beginIndex = 3, dataLength = 2, bufferLength = 4, buffer = (\<lambda>i. i)\<rparr>"
  have "fifo_inv ?f" by (auto simp: fifo_inv_def intro!: exI [of _ 2])
  moreover have "fifo_abs ?f = [3, 0]" by (simp add: fifo_abs_def upt_rec)
  ultimately show ?thesis using fifo_refines_list [of ?f 9] by auto
qed

section \<open>Interleaving with the semaphore\<close>

text \<open>The state of a FIFO shared by tasks and handlers. \<open>posting\<close> counts the writers between their
  successful \<open>_writeFIFO\<close> and \<open>releaseSemaphore\<close>, \<open>reading\<close> the readers between their
  \<open>acquireSemaphore\<close> and \<open>_readFIFO\<close>; woken readers are among them.\<close>

record 'a shared =
  fifo :: "'a FIFO"
  sem :: Semaphore
  posting :: nat
  reading :: nat

inductive fifo_step :: "'a shared \<Rightarrow> 'a shared \<Rightarrow> bool" where
  step_write: "writeBuffer (fifo s) x doOverwrite = (ok, old, f) \<Longrightarrow>
    fifo_step s (s\<lparr>fifo := f, posting := posting s + (if ok then 1 else 0)\<rparr>)"
| step_post: "0 < posting s \<Longrightarrow> releaseSemaphore (sem s) = Some (ts, sm) \<Longrightarrow>
    fifo_step s (s\<lparr>sem := sm, posting := posting s - 1, reading := reading s + length ts\<rparr>)"
| step_wait: "acquireSemaphore t (sem s) = (r, sm) \<Longrightarrow>
    fifo_step s (s\<lparr>sem := sm, reading := reading s + (if r = Acquired then 1 else 0)\<rparr>)"
| step_try: "tryAcquireSemaphore t (sem s) = (r, sm) \<Longrightarrow>
    fifo_step s (s\<lparr>sem := sm, reading := reading s + (if r = Acquired then 1 else 0)\<rparr>)"
| step_read: "0 < reading s \<Longrightarrow> readBuffer (fifo s) True = (r, f) \<Longrightarrow>
    fifo_step s (s\<lparr>fifo := f, reading := reading s - 1\<rparr>)"

inductive_cases fifo_stepE: "fifo_step s s'"

inductive fifo_reach :: "'a shared \<Rightarrow> 'a shared \<Rightarrow> bool" for s0 where
  reach_init: "fifo_reach s0 s0"
| reach_step: "fifo_reach s0 s \<Longrightarrow> fifo_step s s' \<Longrightarrow> fifo_reach s0 s'"

definition shared_inv :: "'a shared \<Rightarrow> bool" where
  "shared_inv s \<longleftrightarrow> fifo_inv (fifo s) \<and> sem_ok (sem s) \<and>
    int (dataLength (fifo s)) = quota (sem s) + int (posting s) + int (reading s)"

lemma write_length:
  assumes "fifo_inv f" and "writeBuffer f x ov = (ok, old, f')"
  shows "fifo_inv f'" and "dataLength f' = dataLength f + (if ok then 1 else 0)"
proof -
  note w = writeBuffer_cases [OF assms(1)]
  have "fifo_inv f' \<and> length (fifo_abs f') = length (fifo_abs f) + (if ok then 1 else 0)"
  proof (cases "dataLength f < bufferLength f")
    case True
    then show ?thesis using w(1) [of x ov] assms(2) by auto
  next
    case False
    then have "0 < dataLength f" using assms(1) by (auto simp: fifo_inv_def)
    then show ?thesis using w(2,3) [OF False, of x] assms by (cases ov) auto
  qed
  then show "fifo_inv f'" "dataLength f' = dataLength f + (if ok then 1 else 0)" by simp_all
qed

lemma shared_inv_step:
  assumes "fifo_step s s'" and "shared_inv s"
  shows "shared_inv s'"
  using assms(1)
proof (cases rule: fifo_step.cases)
  case (step_write x doOverwrite ok old f)
  then show ?thesis using write_length [of "fifo s"] assms(2) by (auto simp: shared_inv_def)
next
  case (step_post ts sm)
  then show ?thesis using assms(2)
    by (auto simp: shared_inv_def releaseSemaphore_def releaseExLock_def releaseSemaphore'_def sem_ok_def
        split: list.splits if_splits bind_splits)
next
  case (step_wait t r sm)
  then show ?thesis using assms(2)
    by (auto simp: shared_inv_def acquireSemaphore_def acquireExLock_def acquireSemaphore'_def
        pushSemaphoreQueue_def sem_ok_def split: if_splits)
next
  case (step_try t r sm)
  then show ?thesis using assms(2)
    by (auto simp: shared_inv_def tryAcquireSemaphore_def acquireExLock_def acquireSemaphore'_def
        sem_ok_def split: if_splits)
next
  case (step_read r f)
  have inv: "fifo_inv (fifo s)" and pos: "0 < dataLength (fifo s)"
    using assms(2) step_read(2) by (auto simp: shared_inv_def sem_ok_def)
  then have "f = dequeueBuffer (fifo s)" using step_read(3) by (simp add: readBuffer_def)
  then have "fifo_inv f" "dataLength f = dataLength (fifo s) - 1"
    using dequeue_refines(1) [OF inv pos] by (simp_all add: dequeueBuffer_def)
  then show ?thesis using step_read assms(2) pos by (auto simp: shared_inv_def)
qed

text \<open>In every interleaving of writers, overwriting writers and blocking or non-blocking readers,
  a reader that has passed the semaphore finds an element, so that the assertion in \<open>readFIFO\<close> never
  fails, and no reader is blocked while an element is available that no other reader has claimed.\<close>

lemma fifo_reader_never_empty:
  assumes "fifo_reach \<lparr>fifo = f, sem = createSemaphore 0, posting = 0, reading = 0\<rparr> s"
    and "fifo_inv f" and "dataLength f = 0"
  shows "(0 < reading s \<longrightarrow> (\<exists>x f'. readBuffer (fifo s) True = (Some x, f'))) \<and>
    (waiting (sem s) \<noteq> [] \<longrightarrow> dataLength (fifo s) = posting s + reading s)"
proof -
  have "shared_inv s" using assms(1)
  proof induction
    case reach_init
    then show ?case using assms(2,3) by (simp add: shared_inv_def sem_ok_def createSemaphore_def)
  next
    case (reach_step s s')
    then show ?case using shared_inv_step by blast
  qed
  then show ?thesis by (auto simp: shared_inv_def sem_ok_def readBuffer_def)
qed

end
