(* ===== verification/IPSocket.thy ===== *)
theory IPSocket
  imports SocketArgs Locks Fifo
begin

text \<open>
  Sockets of \<open>kernel/io/network/internet.c\<close>: the data link devices and the choice of the local address, the
  parameters of a socket, the queue of read and write requests between the users of a socket and its two tasks,
  the packets shared by the receive queues of all sockets, and the transmission and reception of one packet.
  The result of \<open>syncWriteFile\<close> on a device is an argument: the size written, or \<open>None\<close> for a failure.
\<close>

section \<open>Devices\<close>

record DataLinkDevice =
  devName :: bytes
  devNameLength :: nat
  mtu :: u32
  ipLocalAddress :: u32
  ipSubnetMask :: u32

definition addDataLinkDevice :: "DataLinkDevice list \<Rightarrow> DataLinkDevice \<Rightarrow> DataLinkDevice list" where
  "addDataLinkDevice dlList d = d # dlList"

definition searchDeviceByName :: "DataLinkDevice list \<Rightarrow> bytes \<Rightarrow> nat \<Rightarrow> DataLinkDevice option" where
  "searchDeviceByName devList name nameLength = find (\<lambda>d. isStringEqual (devName d) (devNameLength d) name nameLength) devList"

definition searchDeviceByRoutingTable :: "DataLinkDevice list \<Rightarrow> u32 \<Rightarrow> DataLinkDevice option" where
  "searchDeviceByRoutingTable devList address = find (\<lambda>d. True) devList"

definition resolveLocalAddress :: "DataLinkDevice list \<Rightarrow> IPSocketArguments \<Rightarrow> (DataLinkDevice \<times> u32) option" where
  "resolveLocalAddress devList ipsa =
    (case (if bindToDevice ipsa then searchDeviceByName devList (deviceName ipsa) (deviceNameLength ipsa)
           else searchDeviceByRoutingTable devList (remoteAddress ipsa)) of
       None \<Rightarrow> None
     | Some d \<Rightarrow> Some (d, if localAddress ipsa \<noteq> ANY_IPV4_ADDRESS then localAddress ipsa else ipLocalAddress d))"

definition transmitIPPacket :: "(bytes \<Rightarrow> u32 \<Rightarrow> u32 option) \<Rightarrow> DataLinkDevice \<Rightarrow> bytes \<Rightarrow> bool" where
  "transmitIPPacket syncWriteFile device packet =
    (let packetSize = getIPPacketSize packet in
     if packetSize > mtu device then False
     else case syncWriteFile packet packetSize of None \<Rightarrow> False | Some writeSize \<Rightarrow> writeSize = packetSize)"

section \<open>Parameters\<close>

abbreviation (input) FILE_PARAM_MAX_WRITE_SIZE :: nat where "FILE_PARAM_MAX_WRITE_SIZE \<equiv> 0x20"
abbreviation (input) FILE_PARAM_SOURCE_ADDRESS :: nat where "FILE_PARAM_SOURCE_ADDRESS \<equiv> 0x30"
abbreviation (input) FILE_PARAM_DESTINATION_ADDRESS :: nat where "FILE_PARAM_DESTINATION_ADDRESS \<equiv> 0x31"
abbreviation (input) FILE_PARAM_SOURCE_PORT :: nat where "FILE_PARAM_SOURCE_PORT \<equiv> 0x32"
abbreviation (input) FILE_PARAM_DESTINATION_PORT :: nat where "FILE_PARAM_DESTINATION_PORT \<equiv> 0x33"

definition getIPSocketParam :: "DataLinkDevice list \<Rightarrow> IPSocketArguments \<Rightarrow> nat \<Rightarrow> u64 option" where
  "getIPSocketParam devList ipsa param =
    (if param = FILE_PARAM_MAX_WRITE_SIZE then
       (case resolveLocalAddress devList ipsa of None \<Rightarrow> None | Some (d, a) \<Rightarrow> Some (ucast (mtu d - of_nat sizeof_IPV4Header)))
     else if param = FILE_PARAM_SOURCE_ADDRESS then
       (case resolveLocalAddress devList ipsa of Some (d, a) \<Rightarrow> Some (ucast a) | None \<Rightarrow> Some (ucast (localAddress ipsa)))
     else if param = FILE_PARAM_DESTINATION_ADDRESS then Some (ucast (remoteAddress ipsa))
     else if param = FILE_PARAM_SOURCE_PORT then Some (ucast (localPort ipsa))
     else if param = FILE_PARAM_DESTINATION_PORT then Some (ucast (remotePort ipsa))
     else Some 0)"

definition setIPSocketParam :: "IPSocketArguments \<Rightarrow> nat \<Rightarrow> u64 \<Rightarrow> IPSocketArguments option" where
  "setIPSocketParam ipsa param v =
    (if param = FILE_PARAM_SOURCE_ADDRESS then Some (ipsa\<lparr>localAddress := ucast v\<rparr>)
     else if param = FILE_PARAM_DESTINATION_ADDRESS then Some (ipsa\<lparr>remoteAddress := ucast v\<rparr>)
     else if param = FILE_PARAM_SOURCE_PORT then Some (ipsa\<lparr>localPort := ucast v\<rparr>)
     else if param = FILE_PARAM_DESTINATION_PORT then Some (ipsa\<lparr>remotePort := ucast v\<rparr>)
     else None)"

section \<open>Request queues\<close>

record RWIPRequest =
  rwfr :: nat
  reqBuffer :: bytes
  reqSize :: u32

record RWIPQueue =
  argCount :: Semaphore
  argList :: "RWIPRequest list"
  terminateFlag :: bool

definition createRWIPQueue :: RWIPQueue where
  "createRWIPQueue = \<lparr>argCount = createSemaphore 0, argList = [], terminateFlag = False\<rparr>"

text \<open>\<open>addToRWIPQueue\<close>: the list is changed under the lock, then the semaphore is released.\<close>

definition enqueueRWIPRequest :: "RWIPRequest \<Rightarrow> RWIPQueue \<Rightarrow> RWIPQueue" where
  "enqueueRWIPRequest arg q = q\<lparr>argList := arg # argList q\<rparr>"

definition signalRWIPQueue :: "RWIPQueue \<Rightarrow> RWIPQueue option" where
  "signalRWIPQueue q = map_option (\<lambda>(woken, s). q\<lparr>argCount := s\<rparr>) (releaseSemaphore (argCount q))"

definition addToRWIPQueue :: "RWIPRequest \<Rightarrow> RWIPQueue \<Rightarrow> RWIPQueue option" where
  "addToRWIPQueue arg q = signalRWIPQueue (enqueueRWIPRequest arg q)"

definition createAddRWIPArgument :: "bool \<Rightarrow> nat \<Rightarrow> bytes \<Rightarrow> u32 \<Rightarrow> RWIPQueue \<Rightarrow> (bool \<times> RWIPQueue) option" where
  "createAddRWIPArgument memoryOK r b n q =
    (if \<not> memoryOK then Some (False, q)
     else map_option (Pair True) (addToRWIPQueue \<lparr>rwfr = r, reqBuffer = b, reqSize = n\<rparr> q))"

definition cancelRWIPRequest :: "task \<Rightarrow> RWIPRequest \<Rightarrow> RWIPQueue \<Rightarrow> RWIPQueue option" where
  "cancelRWIPRequest t arg q =
    (case tryAcquireSemaphore t (argCount q) of
       (Acquired, s) \<Rightarrow> Some (q\<lparr>argCount := s, argList := remove1 arg (argList q)\<rparr>)
     | _ \<Rightarrow> None)"

definition setIPTaskTerminateFlag :: "RWIPQueue \<Rightarrow> RWIPQueue option" where
  "setIPTaskTerminateFlag q = do {
    kassert (\<not> terminateFlag q);
    signalRWIPQueue (q\<lparr>terminateFlag := True\<rparr>)
  }"

text \<open>\<open>nextRWIPRequest\<close>: first the semaphore, then the part under the lock.\<close>

datatype nextRequest = MustWait | NoRequest | SocketClosed | Request RWIPRequest

definition acquireRWIPQueue :: "task \<Rightarrow> bool \<Rightarrow> RWIPQueue \<Rightarrow> outcome \<times> RWIPQueue" where
  "acquireRWIPQueue t block q =
    (let (ok, s) = (if block then acquireSemaphore t (argCount q) else tryAcquireSemaphore t (argCount q)) in
     (ok, q\<lparr>argCount := s\<rparr>))"

definition takeRWIPRequest :: "RWIPQueue \<Rightarrow> (nextRequest \<times> RWIPQueue) option" where
  "takeRWIPRequest q = (case argList q of
      [] \<Rightarrow> if terminateFlag q then Some (SocketClosed, q) else None
    | r # rs \<Rightarrow> Some (Request r, if terminateFlag q then q else q\<lparr>argList := rs\<rparr>))"

definition nextRWIPRequest :: "task \<Rightarrow> bool \<Rightarrow> RWIPQueue \<Rightarrow> (nextRequest \<times> RWIPQueue) option" where
  "nextRWIPRequest t block q = (case acquireRWIPQueue t block q of
      (Acquired, q) \<Rightarrow> takeRWIPRequest q
    | (Blocked, q) \<Rightarrow> Some (MustWait, q)
    | (Refused, q) \<Rightarrow> Some (NoRequest, q))"

text \<open>\<open>flushRWIPRequests\<close> completes every request with size 0; \<open>n\<close> bounds the rounds.\<close>

fun flushRWIPRequests :: "nat \<Rightarrow> task \<Rightarrow> RWIPQueue \<Rightarrow> (nat list \<times> RWIPQueue) option" where
  "flushRWIPRequests 0 t q = None"
| "flushRWIPRequests (Suc n) t q = (case nextRWIPRequest t True q of
      Some (Request r, q) \<Rightarrow> map_option (\<lambda>(rs, q). (rwfr r # rs, q)) (flushRWIPRequests n t q)
    | Some (SocketClosed, q) \<Rightarrow> Some ([], q)
    | _ \<Rightarrow> None)"

section \<open>Received packets\<close>

text \<open>A packet read from a device is shared by the queues of all sockets and freed with its last reference.\<close>

record QueuedPacket =
  fromDevice :: DataLinkDevice
  isBroadcast :: bool
  packet :: bytes

definition createQueuedPacket :: "bytes \<Rightarrow> DataLinkDevice \<Rightarrow> QueuedPacket" where
  "createQueuedPacket p device = \<lparr>fromDevice = device,
    isBroadcast = isBroadcastIPV4Address (destination (loadHeader p)) (ipLocalAddress device) (ipSubnetMask device),
    packet = cstr (view p 0 (unat (getIPPacketSize p)))\<rparr>"

text \<open>References of the packets by address; a packet with none is freed.\<close>

definition addQueuedPacketRef :: "nat \<Rightarrow> int \<Rightarrow> (nat \<Rightarrow> int) \<Rightarrow> (nat \<Rightarrow> int)" where
  "addQueuedPacketRef p n refs = refs(p := refs p + n)"

definition overwriteIPFIFO :: "nat FIFO \<Rightarrow> nat \<Rightarrow> (nat \<Rightarrow> int) \<Rightarrow> nat FIFO \<times> (nat \<Rightarrow> int)" where
  "overwriteIPFIFO f p refs =
    (let refs = addQueuedPacketRef p 1 refs;
         (ok, dropped, f) = writeBuffer f p True in
     (f, case dropped of Some d \<Rightarrow> addQueuedPacketRef d (- 1) refs | None \<Rightarrow> refs))"

text \<open>The round of \<open>ipDeviceReader\<close> for one packet: it is put into the queue of every socket.\<close>

fun distributePacket :: "nat FIFO list \<Rightarrow> nat \<Rightarrow> (nat \<Rightarrow> int) \<Rightarrow> nat FIFO list \<times> (nat \<Rightarrow> int)" where
  "distributePacket [] p refs = ([], refs)"
| "distributePacket (f # fs) p refs =
    (let (f, refs) = overwriteIPFIFO f p refs; (fs, refs) = distributePacket fs p refs in (f # fs, refs))"

definition ipDeviceReader :: "nat FIFO list \<Rightarrow> nat \<Rightarrow> bytes \<Rightarrow> u32 \<Rightarrow> (nat \<Rightarrow> int) \<Rightarrow> nat FIFO list \<times> (nat \<Rightarrow> int)" where
  "ipDeviceReader fs p contents readSize refs =
    (if \<not> validateIPV4Packet contents readSize then (fs, refs)
     else let
       refs = addQueuedPacketRef p 1 (refs(p := 0));
       (fs, refs) = distributePacket fs p refs in
     (fs, addQueuedPacketRef p (- 1) refs))"

definition filterIPV4PacketDevice :: "IPSocketArguments \<Rightarrow> DataLinkDevice \<Rightarrow> bool" where
  "filterIPV4PacketDevice a d =
    (if \<not> bindToDevice a then True
     else isStringEqual (deviceName a) (deviceNameLength a) (devName d) (devNameLength d))"

definition filterIPV4PacketAddress :: "IPSocketArguments \<Rightarrow> bytes \<Rightarrow> bool \<Rightarrow> bool" where
  "filterIPV4PacketAddress a p broadcast =
    (if \<not> broadcast \<and> localAddress a \<noteq> destination (loadHeader p) \<and> localAddress a \<noteq> ANY_IPV4_ADDRESS then False
     else if remoteAddress a \<noteq> source (loadHeader p) \<and> remoteAddress a \<noteq> ANY_IPV4_ADDRESS then False
     else True)"

definition filterQueuedPacket :: "(IPSocketArguments \<Rightarrow> bytes \<Rightarrow> u32 \<Rightarrow> bool) \<Rightarrow> IPSocketArguments \<Rightarrow> QueuedPacket \<Rightarrow> bool" where
  "filterQueuedPacket filterPacket a qp =
    (if \<not> filterIPV4PacketDevice a (fromDevice qp) then False
     else if \<not> filterIPV4PacketAddress a (packet qp) (isBroadcast qp) then False
     else if \<not> filterPacket a (packet qp) (getIPPacketSize (packet qp)) then False
     else True)"

definition filterIPV4Packet :: "IPSocketArguments \<Rightarrow> bytes \<Rightarrow> u32 \<Rightarrow> bool" where
  "filterIPV4Packet a p packetSize = True"

section \<open>One packet per request\<close>

text \<open>\<open>transmitSinglePacket\<close>: \<open>None\<close> is a failed assertion. Otherwise whether the task goes on, the queue, and
  the completed request with its size.\<close>

definition transmitSinglePacket ::
    "(bytes \<Rightarrow> u32 \<Rightarrow> u32 option) \<Rightarrow> (IPSocketArguments \<Rightarrow> u32 \<Rightarrow> u32 \<Rightarrow> u8 list \<Rightarrow> bytes option option) \<Rightarrow>
     DataLinkDevice list \<Rightarrow> task \<Rightarrow> IPSocketArguments \<Rightarrow> RWIPQueue \<Rightarrow> (bool \<times> (nat \<times> u32) option \<times> RWIPQueue) option" where
  "transmitSinglePacket syncWriteFile createPacket devList t a tran = do {
    (r, tran) \<leftarrow> nextRWIPRequest t True tran;
    (case r of
       Request req \<Rightarrow>
         (case resolveLocalAddress devList a of
            None \<Rightarrow> Some (False, Some (rwfr req, 0), tran)
          | Some (dld, src) \<Rightarrow> do {
              p \<leftarrow> createPacket a src (remoteAddress a) (view (reqBuffer req) 0 (unat (reqSize req)));
              (case p of
                 None \<Rightarrow> Some (False, Some (rwfr req, 0), tran)
               | Some p \<Rightarrow>
                   if transmitIPPacket syncWriteFile dld p then Some (True, Some (rwfr req, reqSize req), tran)
                   else Some (False, Some (rwfr req, 0), tran))
            })
     | SocketClosed \<Rightarrow> Some (False, None, tran)
     | _ \<Rightarrow> Some (True, None, tran))
  }"

definition receiveSinglePacket ::
    "(u32 \<Rightarrow> bytes \<Rightarrow> u8 list) \<Rightarrow> task \<Rightarrow> RWIPQueue \<Rightarrow> QueuedPacket \<Rightarrow> (bool \<times> (nat \<times> u8 list) option \<times> RWIPQueue) option" where
  "receiveSinglePacket copyPacketData t rece qp = do {
    (r, rece) \<leftarrow> nextRWIPRequest t True rece;
    (case r of
       Request req \<Rightarrow> Some (True, Some (rwfr req, copyPacketData (reqSize req) (packet qp)), rece)
     | SocketClosed \<Rightarrow> Some (False, None, rece)
     | _ \<Rightarrow> Some (True, None, rece))
  }"

definition transmitIPV4Packet where
  "transmitIPV4Packet syncWriteFile memory devList t a tran =
    transmitSinglePacket syncWriteFile (\<lambda>a src dst buffer. createIPV4Packet memory (dataProtocol a) src dst buffer) devList t a tran"

definition receiveIPV4Packet where
  "receiveIPV4Packet t rece qp = receiveSinglePacket copyIPV4PacketData t rece qp"

text \<open>A round of \<open>receiveIPTask\<close> with a packet taken from its queue: the packet is filtered, received, and
  its reference dropped.\<close>

definition receiveIPTask ::
    "(IPSocketArguments \<Rightarrow> bytes \<Rightarrow> u32 \<Rightarrow> bool) \<Rightarrow>
     (RWIPQueue \<Rightarrow> QueuedPacket \<Rightarrow> (bool \<times> (nat \<times> u8 list) option \<times> RWIPQueue) option) \<Rightarrow>
     IPSocketArguments \<Rightarrow> RWIPQueue \<Rightarrow> nat \<Rightarrow> QueuedPacket \<Rightarrow> (nat \<Rightarrow> int) \<Rightarrow>
     (bool \<times> (nat \<times> u8 list) option \<times> RWIPQueue \<times> (nat \<Rightarrow> int)) option" where
  "receiveIPTask filterPacket receivePacket a rece p qp refs = do {
    (continueFlag, done, rece) \<leftarrow>
      (if filterQueuedPacket filterPacket a qp then receivePacket rece qp else Some (True, None, rece));
    Some (continueFlag, done, rece, addQueuedPacketRef p (- 1) refs)
  }"

section \<open>References of shared packets\<close>

definition holders :: "nat FIFO list \<Rightarrow> nat \<Rightarrow> nat" where
  "holders fs p = (\<Sum>f\<leftarrow>fs. count_list (fifo_abs f) p)"

lemma overwriteIPFIFO_balance:
  assumes "fifo_inv f" "overwriteIPFIFO f p refs = (f', refs')"
  shows "fifo_inv f'" and "refs' q + int (count_list (fifo_abs f) q) = refs q + int (count_list (fifo_abs f') q)"
proof -
  have "fifo_inv f' \<and> refs' q + int (count_list (fifo_abs f) q) = refs q + int (count_list (fifo_abs f') q)"
  proof (cases "dataLength f < bufferLength f")
    case True
    then show ?thesis
      using writeBuffer_cases(1) [OF assms(1) True, of p True] assms(2)
      by (auto simp: overwriteIPFIFO_def addQueuedPacketRef_def)
  next
    case False
    then have "0 < length (fifo_abs f)" using assms(1) by (auto simp: fifo_inv_def)
    then obtain y ys where ys: "fifo_abs f = y # ys" by (cases "fifo_abs f") auto
    obtain g where "writeBuffer f p True = (False, Some y, g)" "fifo_inv g" "fifo_abs g = ys @ [p]"
      using writeBuffer_cases(3) [OF assms(1) False, of p] ys by auto
    then show ?thesis using assms(2) ys by (auto simp: overwriteIPFIFO_def addQueuedPacketRef_def)
  qed
  then show "fifo_inv f'" and "refs' q + int (count_list (fifo_abs f) q) = refs q + int (count_list (fifo_abs f') q)"
    by blast+
qed

lemma distributePacket_balance:
  assumes "\<forall>f\<in>set fs. fifo_inv f" "distributePacket fs p refs = (fs', refs')"
  shows "(\<forall>f\<in>set fs'. fifo_inv f) \<and> refs' q + int (holders fs q) = refs q + int (holders fs' q) \<and> length fs' = length fs"
  using assms
proof (induction fs arbitrary: refs fs' refs')
  case (Cons f fs)
  obtain g r where g: "overwriteIPFIFO f p refs = (g, r)" by fastforce
  obtain gs r' where gs: "distributePacket fs p r = (gs, r')" by fastforce
  have eq: "fs' = g # gs" "refs' = r'" using Cons.prems(2) g gs by auto
  have "(\<forall>f\<in>set gs. fifo_inv f) \<and> r' q + int (holders fs q) = r q + int (holders gs q) \<and> length gs = length fs"
    using Cons.IH [OF _ gs] Cons.prems(1) by simp
  moreover have "fifo_inv g" "r q + int (count_list (fifo_abs f) q) = refs q + int (count_list (fifo_abs g) q)"
    using overwriteIPFIFO_balance [OF _ g] Cons.prems(1) by simp_all
  ultimately show ?case using eq by (simp add: holders_def)
qed (simp add: holders_def)


definition oneEntry :: "nat FIFO" where
  "oneEntry = \<lparr>beginIndex = 0, dataLength = 1, bufferLength = 1, buffer = (\<lambda>_. 3)\<rparr>"


section \<open>The request queue\<close>

text \<open>Between two operations of a queue that is not closed, the semaphore counts the requests.\<close>

definition rwip_inv :: "RWIPQueue \<Rightarrow> bool" where
  "rwip_inv q \<longleftrightarrow> waiting (argCount q) = [] \<and> \<not> terminateFlag q \<and> quota (argCount q) = int (length (argList q))"

lemmas rwip_defs = rwip_inv_def addToRWIPQueue_def enqueueRWIPRequest_def signalRWIPQueue_def releaseSemaphore_def
  releaseExLock_def releaseSemaphore'_def cancelRWIPRequest_def tryAcquireSemaphore_def acquireExLock_def
  acquireSemaphore'_def acquireSemaphore_def nextRWIPRequest_def acquireRWIPQueue_def takeRWIPRequest_def
  setIPTaskTerminateFlag_def

text \<open>One operation at a time, the request queue loses and invents no request and no assertion fails:
  adding puts a request into the queue, cancelling takes exactly that request out, and a task that asks for the
  next request gets one while there is any, namely the one added last; a non-blocking call on an empty queue
  gets none and a blocking call waits.\<close>

lemma rwip_queue_correct:
  assumes "rwip_inv q" and "length (argList q) < 0x7ffffffe"
  shows "(\<exists>q'. addToRWIPQueue r q = Some q' \<and> rwip_inv q' \<and> argList q' = r # argList q) \<and>
    (r \<in> set (argList q) \<longrightarrow> (\<exists>q'. cancelRWIPRequest t r q = Some q' \<and> rwip_inv q' \<and> argList q' = remove1 r (argList q))) \<and>
    (case argList q of
       [] \<Rightarrow> nextRWIPRequest t False q = Some (NoRequest, q) \<and> (\<exists>q'. nextRWIPRequest t True q = Some (MustWait, q'))
     | x # xs \<Rightarrow> \<forall>block. \<exists>q'. nextRWIPRequest t block q = Some (Request x, q') \<and> rwip_inv q' \<and> argList q' = xs)"
proof (intro conjI impI)
  show "\<exists>q'. addToRWIPQueue r q = Some q' \<and> rwip_inv q' \<and> argList q' = r # argList q"
    using assms by (simp add: rwip_defs)
  show "\<exists>q'. cancelRWIPRequest t r q = Some q' \<and> rwip_inv q' \<and> argList q' = remove1 r (argList q)" if "r \<in> set (argList q)"
  proof -
    have "1 \<le> length (argList q)" using that by (cases "argList q") auto
    then show ?thesis using assms that by (simp add: rwip_defs length_remove1 of_nat_diff Suc_le_eq)
  qed
  show "case argList q of
       [] \<Rightarrow> nextRWIPRequest t False q = Some (NoRequest, q) \<and> (\<exists>q'. nextRWIPRequest t True q = Some (MustWait, q'))
     | x # xs \<Rightarrow> \<forall>block. \<exists>q'. nextRWIPRequest t block q = Some (Request x, q') \<and> rwip_inv q' \<and> argList q' = xs"
    using assms by (cases "argList q") (auto simp: rwip_defs)
qed

text \<open>Between the two steps of \<open>nextRWIPRequest\<close> the request is still in the queue and can be cancelled,
  but its unit of the semaphore is gone: \<open>cancelRWIPRequest\<close> then runs into \<open>assert(0)\<close>.\<close>

lemma rwip_cancel_race:
  "\<exists>q q'. addToRWIPQueue r createRWIPQueue = Some q \<and> acquireRWIPQueue t True q = (Acquired, q') \<and>
    r \<in> set (argList q') \<and> cancelRWIPRequest t' r q' = None"
  by (simp add: rwip_defs createRWIPQueue_def createSemaphore_def)

text \<open>A socket that is closed with a pending request hands that request out again and again, while the code
  has freed it already.\<close>

lemma closed_queue_repeats:
  "\<exists>q q1 q2 q3. addToRWIPQueue r createRWIPQueue = Some q \<and> setIPTaskTerminateFlag q = Some q1 \<and>
    nextRWIPRequest t True q1 = Some (Request r, q2) \<and> nextRWIPRequest t True q2 = Some (Request r, q3)"
  by (simp add: rwip_defs createRWIPQueue_def createSemaphore_def)

end
