(* ===== verification/Udp.thy ===== *)
theory Udp
  imports IPSocket
begin

text \<open>
  UDP over IP, \<open>kernel/io/network/udp.c\<close>: packets with their header and checksum, the filter of a UDP
  socket, and the handlers of a UDP socket file.
\<close>

abbreviation (input) sizeof_UDPHeader :: nat where "sizeof_UDPHeader \<equiv> 8"
abbreviation (input) IP_DATA_PROTOCOL_UDP :: u8 where "IP_DATA_PROTOCOL_UDP \<equiv> 17"
abbreviation (input) MAX_UDP_PAYLOAD_SIZE :: nat where
  "MAX_UDP_PAYLOAD_SIZE \<equiv> MAX_IP_PACKET_SIZE - sizeof_UDPHeader - sizeof_IPV4Header"

record UDPHeader =
  sourcePort :: u16
  destinationPort :: u16
  udpLength :: u16
  udpChecksum :: u16

definition storeUDPHeader :: "UDPHeader \<Rightarrow> u8 list" where
  "storeUDPHeader h = le16 (sourcePort h) @ le16 (destinationPort h) @ le16 (udpLength h) @ le16 (udpChecksum h)"

definition loadUDPHeader :: "bytes \<Rightarrow> UDPHeader" where
  "loadUDPHeader p = \<lparr>sourcePort = u16at p 0, destinationPort = u16at p 2, udpLength = u16at p 4, udpChecksum = u16at p 6\<rparr>"

definition getUDPPacketSize :: "bytes \<Rightarrow> u32" where
  "getUDPPacketSize h = ucast (changeEndian16 (udpLength (loadUDPHeader h)))"

definition getUDPDataSize :: "bytes \<Rightarrow> u32" where
  "getUDPDataSize h = getUDPPacketSize h - of_nat sizeof_UDPHeader"

definition initUDPIPPacket :: "bytes \<Rightarrow> u8 list \<Rightarrow> u16 \<Rightarrow> u32 \<Rightarrow> u16 \<Rightarrow> u32 \<Rightarrow> u16 \<Rightarrow> bytes option" where
  "initUDPIPPacket h data dataSize localAddr lPort remoteAddr rPort = do {
    h \<leftarrow> initIPV4Header h (dataSize + of_nat sizeof_UDPHeader) localAddr remoteAddr IP_DATA_PROTOCOL_UDP;
    let h = putBytes 20 (storeUDPHeader \<lparr>sourcePort = changeEndian16 lPort, destinationPort = changeEndian16 rPort,
      udpLength = changeEndian16 (dataSize + of_nat sizeof_UDPHeader), udpChecksum = 0\<rparr>) h;
    let h = putBytes 28 (take (unat dataSize) data) h;
    let h = putBytes 26 (le16 (calculateIPDataChecksum h)) h;
    let h = (if u16at h 26 = 0 then putBytes 26 (le16 0xffff) h else h);
    kassert (calculateIPDataChecksum h = 0);
    kassert (getUDPPacketSize (shift 20 h) = getIPDataSize h);
    Some h
  }"

definition createUDPIPPacket :: "bytes option \<Rightarrow> u8 list \<Rightarrow> u32 \<Rightarrow> u16 \<Rightarrow> u32 \<Rightarrow> u16 \<Rightarrow> bytes option option" where
  "createUDPIPPacket memory data localAddr lPort remoteAddr rPort =
    (if length data > MAX_UDP_PAYLOAD_SIZE then Some None
     else case memory of
         None \<Rightarrow> Some None
       | Some h \<Rightarrow> map_option Some (initUDPIPPacket h data (of_nat (length data)) localAddr lPort remoteAddr rPort))"

definition createUDPIPPacketFromSocket :: "bytes option \<Rightarrow> IPSocketArguments \<Rightarrow> u32 \<Rightarrow> u32 \<Rightarrow> u8 list \<Rightarrow> bytes option option" where
  "createUDPIPPacketFromSocket memory a src dst data = createUDPIPPacket memory data src (localPort a) dst (remotePort a)"

definition transmitUDPPacket where
  "transmitUDPPacket syncWriteFile memory devList t a tran =
    transmitSinglePacket syncWriteFile (createUDPIPPacketFromSocket memory) devList t a tran"

text \<open>\<open>validateUDPHeader\<close>: the pointer to the UDP header, or \<open>None\<close>.\<close>

definition validateUDPHeader :: "bytes \<Rightarrow> u32 \<Rightarrow> bytes option" where
  "validateUDPHeader ip packetSize =
    (if protocol (loadHeader ip) \<noteq> IP_DATA_PROTOCOL_UDP then None
     else let ipHeaderSize = getIPHeaderSize ip in
       if ipHeaderSize + of_nat sizeof_UDPHeader > packetSize then None
       else let h = getIPData ip; udpPacketSize = getUDPPacketSize h in
         if udpPacketSize \<noteq> packetSize - ipHeaderSize then None
         else if udpChecksum (loadUDPHeader h) \<noteq> 0 \<and> calculateIPDataChecksum ip \<noteq> 0 then None
         else Some h)"

definition filterUDPPacket :: "IPSocketArguments \<Rightarrow> bytes \<Rightarrow> u32 \<Rightarrow> bool" where
  "filterUDPPacket a ip packetSize = (case validateUDPHeader ip packetSize of
      None \<Rightarrow> False
    | Some h \<Rightarrow>
        if localPort a \<noteq> changeEndian16 (destinationPort (loadUDPHeader h)) \<or>
          (remotePort a \<noteq> ANY_PORT \<and> remotePort a \<noteq> changeEndian16 (sourcePort (loadUDPHeader h)))
        then False else True)"

definition copyUDPPacketData :: "u32 \<Rightarrow> bytes \<Rightarrow> u8 list" where
  "copyUDPPacketData bufferSize ip =
    (let h = getIPData ip; returnSize = min (getUDPDataSize h) bufferSize in
     view (shift sizeof_UDPHeader h) 0 (unat returnSize))"

definition receiveUDPPacket where
  "receiveUDPPacket t rece qp = receiveSinglePacket copyUDPPacketData t rece qp"

text \<open>The handlers of a socket file; the first argument of the request handlers tells whether memory for the
  request is available.\<close>

definition writeUDP where
  "writeUDP memoryOK r b n transmit = createAddRWIPArgument memoryOK r b n transmit"

definition readUDP where
  "readUDP memoryOK r b n receive = createAddRWIPArgument memoryOK r b n receive"

definition getUDPParameter where
  "getUDPParameter devList a param = getIPSocketParam devList a param"

definition setUDPParameter where
  "setUDPParameter a param v = setIPSocketParam a param v"

definition openUDPSocket :: "u32 \<Rightarrow> bytes \<Rightarrow> nat \<Rightarrow> IPSocketArguments option" where
  "openUDPSocket junk fileName nameLength =
    scanIPSocketArguments junk initIPSocketArguments IP_DATA_PROTOCOL_UDP fileName nameLength"

section \<open>Packets arrive as they were sent\<close>

lemma udp_stored:
  assumes "\<And>i. i < 8 \<Longrightarrow> p i = storeUDPHeader h ! i"
  shows "loadUDPHeader p = h"
proof -
  have "u16at p 0 = sourcePort h" "u16at p 2 = destinationPort h" "u16at p 4 = udpLength h" "u16at p 6 = udpChecksum h"
    by (rule u16at_le16; simp add: assms storeUDPHeader_def nth_append)+
  then show ?thesis by (simp add: loadUDPHeader_def)
qed

lemma dataChecksum_shift:
  "loadHeader p = loadHeader q \<Longrightarrow> calculateIPDataChecksum p =
    calculateIPDataChecksum2 (shift (unat (getIPHeaderSize q)) p) (getIPDataSize q) (source (loadHeader q))
      (destination (loadHeader q)) (protocol (loadHeader q))"
  by (simp add: calculateIPDataChecksum_def getIPData_def getIPDataSize_def getIPHeaderSize_def getIPPacketSize_def)

lemma loadHeader_eqI: "(\<And>i. i < 20 \<Longrightarrow> p i = q i) \<Longrightarrow> loadHeader p = loadHeader q"
  by (simp add: loadHeader_def u16at_def u32at_def)

lemma shift_putBytes: "shift k (putBytes (k + j) xs p) = putBytes j xs (shift k p)"
  by (auto simp: putBytes_def fun_eq_iff)

lemma putBytes_twice: "length xs = length ys \<Longrightarrow> putBytes k xs (putBytes k ys p) = putBytes k xs p"
  by (auto simp: putBytes_def fun_eq_iff)

lemma initUDPIPPacket_spec:
  assumes n: "length data \<le> MAX_UDP_PAYLOAD_SIZE"
  defines "l \<equiv> 8 + length data"
  shows "\<exists>h v c. initUDPIPPacket m data (of_nat (length data)) src lp dst rp = Some h \<and>
    calculateIPHeaderChecksum h = 0 \<and> calculateIPDataChecksum h = 0 \<and>
    loadHeader h = \<lparr>headerLength = 5, version = 4, congestionNotification = 0, differentiateService = 0,
      totalLength = changeEndian16 (of_nat (20 + l)), identification = 0, fragmentOffsetHigh = 0, flags = 2,
      fragmentOffsetLow = 0, timeToLive = 32, protocol = 17, headerChecksum = c, source = src, destination = dst\<rparr> \<and>
    loadUDPHeader (shift 20 h) = \<lparr>sourcePort = changeEndian16 lp, destinationPort = changeEndian16 rp,
      udpLength = changeEndian16 (of_nat l), udpChecksum = v\<rparr> \<and>
    view h 28 (28 + length data) = data"
proof -
  let ?n = "length data"
  have l: "of_nat ?n + 8 = (of_nat l :: u16)" by (simp add: l_def)
  obtain h0 c where h0: "initIPV4Header m (of_nat l) src dst 17 = Some h0" "calculateIPHeaderChecksum h0 = 0"
    and r0: "loadHeader h0 = \<lparr>headerLength = 5, version = 4, congestionNotification = 0, differentiateService = 0,
      totalLength = changeEndian16 (20 + of_nat l), identification = 0, fragmentOffsetHigh = 0, flags = 2,
      fragmentOffsetLow = 0, timeToLive = 32, protocol = 17, headerChecksum = c, source = src, destination = dst\<rparr>"
    using initIPV4Header_spec by blast
  let ?u = "\<lparr>sourcePort = changeEndian16 lp, destinationPort = changeEndian16 rp, udpLength = changeEndian16 (of_nat l), udpChecksum = 0\<rparr>"
  have ul: "length (storeUDPHeader ?u) = 8" by (simp add: storeUDPHeader_def)
  define h1 where "h1 = putBytes 28 data (putBytes 20 (storeUDPHeader ?u) h0)"
  define v where "v = (if calculateIPDataChecksum h1 = 0 then 0xffff else calculateIPDataChecksum h1)"
  define h where "h = putBytes 26 (le16 v) h1"
  have low: "h i = h0 i" "h1 i = h0 i" if "i < 20" for i using that by (simp_all add: h_def h1_def)
  have r: "loadHeader h = loadHeader h0" "loadHeader h1 = loadHeader h0" by (rule loadHeader_eqI, simp add: low)+
  have "wordSum h 20 = wordSum h0 20" by (simp add: wordSum_def beword_def low)
  then have cs: "calculateIPHeaderChecksum h = 0"
    using h0(2) unfolding calculateIPHeaderChecksum_zero by (simp add: getIPHeaderSize_def r r0)
  have hs: "getIPHeaderSize h0 = 20" by (simp add: getIPHeaderSize_def r0)
  have "unat (20 + of_nat l :: u16) = 20 + l" using unat_of_nat_small [of "20 + l", where 'a = 16] n by (simp add: l_def)
  then have "getIPPacketSize h0 = of_nat (20 + l)"
    by (simp only: getIPPacketSize_def r0 IPV4Header.select_convs changeEndian16_involution ucast_u16_of_nat)
  then have ds: "getIPDataSize h0 = of_nat l" by (simp add: getIPDataSize_def hs)
  have l16: "l < 65536" using n by (simp add: l_def)
  have cd: "calculateIPDataChecksum p = calculateIPDataChecksum2 (shift 20 p) (of_nat l) src dst 17"
    if "loadHeader p = loadHeader h0" for p
    using dataChecksum_shift [OF that] by (simp add: hs ds r0)
  have z: "beword (shift 20 h1) (2 * 3) = 0"
    by (simp add: beword_def h1_def ul putBytes_def) (simp add: storeUDPHeader_def le16_def nth_append)
  have "shift 20 h = putBytes (2 * 3) (le16 v) (shift 20 h1)" using shift_putBytes [of 20 6 "le16 v" h1] by (simp add: h_def)
  then have cdz: "calculateIPDataChecksum h = 0"
    using dataChecksum_stored [OF l16 _ z refl, where src = src and dst = dst and proto = 17 and v = v] cd [OF r(1)] cd [OF r(2)] by (auto simp: v_def l_def)
  have udp: "loadUDPHeader (shift 20 h) = ?u\<lparr>udpChecksum := v\<rparr>"
  proof (rule udp_stored)
    show "shift 20 h i = storeUDPHeader (?u\<lparr>udpChecksum := v\<rparr>) ! i" if "i < 8" for i
      using that ul by (auto simp: h_def h1_def putBytes_def storeUDPHeader_def nth_append le16_def less_Suc_eq eval_nat_numeral)
  qed
  have size: "getUDPPacketSize (shift 20 h) = getIPDataSize h"
  proof -
    have "getIPDataSize h = of_nat l" using ds by (simp add: getIPDataSize_def getIPPacketSize_def getIPHeaderSize_def r)
    moreover have "ucast (of_nat l :: u16) = (of_nat l :: u32)"
      using unat_of_nat_small [of l, where 'a = 16] l16 ucast_u16_of_nat [of "of_nat l"] by simp
    ultimately show ?thesis by (simp add: getUDPPacketSize_def udp)
  qed
  have view: "view h 28 (28 + ?n) = data"
    by (rule nth_equalityI) (simp_all add: h_def h1_def)
  have "unat (of_nat ?n :: u16) = ?n" using unat_of_nat_small [of ?n, where 'a = 16] n by simp
  then have "initUDPIPPacket m data (of_nat ?n) src lp dst rp = Some h"
    using h0(1) cdz size unfolding initUDPIPPacket_def
    by (auto simp: l h1_def [symmetric] h_def [symmetric] v_def h_def putBytes_twice Let_def)
  then show ?thesis using cs cdz r r0 udp view by (intro exI [of _ h] exI [of _ v] exI [of _ c]) simp
qed

text \<open>C14: A UDP packet with at most \<open>MAX_UDP_PAYLOAD_SIZE\<close> bytes of data passes both of its own
  assertions when it is made, and arrives as it was sent: the receiving kernel validates it, exactly the sockets
  bound to its destination port, with no remote port or its source port, accept it, and they read the data that
  was sent.\<close>

theorem udp_roundtrip:
  assumes n: "length data \<le> MAX_UDP_PAYLOAD_SIZE"
  shows "\<exists>h. createUDPIPPacket (Some m) data src lp dst rp = Some (Some h) \<and>
    validateIPV4Packet h (of_nat (28 + length data)) \<and> source (loadHeader h) = src \<and> destination (loadHeader h) = dst \<and>
    (\<forall>a. filterUDPPacket a h (getIPPacketSize h) \<longleftrightarrow> localPort a = rp \<and> (remotePort a = ANY_PORT \<or> remotePort a = lp)) \<and>
    copyUDPPacketData 65536 h = data"
proof -
  let ?n = "length data"
  obtain h v c where i: "initUDPIPPacket m data (of_nat ?n) src lp dst rp = Some h"
    and cs: "calculateIPHeaderChecksum h = 0" "calculateIPDataChecksum h = 0"
    and r: "loadHeader h = \<lparr>headerLength = 5, version = 4, congestionNotification = 0, differentiateService = 0,
      totalLength = changeEndian16 (of_nat (20 + (8 + ?n))), identification = 0, fragmentOffsetHigh = 0, flags = 2,
      fragmentOffsetLow = 0, timeToLive = 32, protocol = 17, headerChecksum = c, source = src, destination = dst\<rparr>"
    and u: "loadUDPHeader (shift 20 h) = \<lparr>sourcePort = changeEndian16 lp, destinationPort = changeEndian16 rp,
      udpLength = changeEndian16 (of_nat (8 + ?n)), udpChecksum = v\<rparr>"
    and d: "view h 28 (28 + ?n) = data"
    using initUDPIPPacket_spec [OF n] by blast
  have c16: "unat (of_nat (20 + (8 + ?n)) :: u16) = 28 + ?n" "unat (of_nat (8 + ?n) :: u16) = 8 + ?n"
    using unat_of_nat_small [of "20 + (8 + ?n)", where 'a = 16] unat_of_nat_small [of "8 + ?n", where 'a = 16] n by simp_all
  have hs: "getIPHeaderSize h = 20" by (simp add: getIPHeaderSize_def r)
  have ps: "getIPPacketSize h = of_nat (28 + ?n)"
    by (simp only: getIPPacketSize_def r IPV4Header.select_convs changeEndian16_involution ucast_u16_of_nat c16)
  have us: "getUDPPacketSize (shift 20 h) = of_nat (8 + ?n)"
    by (simp only: getUDPPacketSize_def u UDPHeader.select_convs changeEndian16_involution ucast_u16_of_nat c16)
  have data: "getIPData h = shift 20 h" by (simp add: getIPData_def hs)
  have n32: "unat (of_nat (28 + ?n) :: u32) = 28 + ?n" "unat (of_nat ?n :: u32) = ?n"
    using unat_of_nat_small [of "28 + ?n", where 'a = 32] unat_of_nat_small [of ?n, where 'a = 32] n by simp_all
  have le: "(28 :: u32) \<le> of_nat (28 + ?n)" "(20 :: u32) \<le> of_nat (28 + ?n)"
    unfolding word_le_nat_alt n32 by simp_all
  have valid: "validateIPV4Packet h (of_nat (28 + ?n))"
    unfolding validateIPV4Packet_def Let_def ps hs cs using le by (simp add: r not_less)
  have "(of_nat (8 + ?n) :: u32) = of_nat (28 + ?n) - 20" by simp
  then have vu: "validateUDPHeader h (getIPPacketSize h) = Some (shift 20 h)"
    unfolding validateUDPHeader_def Let_def ps hs cs data us using le by (simp add: r not_less)
  have fil: "filterUDPPacket a h (getIPPacketSize h) \<longleftrightarrow> localPort a = rp \<and> (remotePort a = ANY_PORT \<or> remotePort a = lp)" for a
    by (simp add: filterUDPPacket_def vu u)
  have "(of_nat ?n :: u32) \<le> 65536" unfolding word_le_nat_alt n32 using n by simp
  then have "unat (min (of_nat ?n :: u32) 65536) = ?n" using n32 by (simp only: min_absorb1)
  moreover have "getUDPDataSize (shift 20 h) = of_nat ?n" by (simp add: getUDPDataSize_def us)
  ultimately have "copyUDPPacketData 65536 h = data"
    using d by (simp add: copyUDPPacketData_def data view_shift)
  then show ?thesis using i valid fil r n by (intro exI [of _ h]) (simp add: createUDPIPPacket_def)
qed

theorem udp_roundtrip_witness:
  "\<exists>h. createUDPIPPacket (Some (\<lambda>i. 0)) [104, 105] 0x0100007f 68 0x0200007f 53 = Some (Some h) \<and>
    filterUDPPacket (initIPSocketArguments\<lparr>localPort := 53\<rparr>) h (getIPPacketSize h) \<and> copyUDPPacketData 65536 h = [104, 105]"
proof -
  obtain h where "createUDPIPPacket (Some (\<lambda>i. 0)) [104, 105] 0x0100007f 68 0x0200007f 53 = Some (Some h)"
    "\<forall>a. filterUDPPacket a h (getIPPacketSize h) \<longleftrightarrow> localPort a = 53 \<and> (remotePort a = ANY_PORT \<or> remotePort a = 68)"
    "copyUDPPacketData 65536 h = [104, 105]"
    using udp_roundtrip [where data = "[104, 105]" and m = "\<lambda>i. 0" and src = "0x0100007f" and lp = 68
      and dst = "0x0200007f" and rp = 53] by auto
  then show ?thesis by (auto simp: initIPSocketArguments_def)
qed

end
