(* ===== verification/Dhcp.thy ===== *)
theory Dhcp
  imports Udp
begin

text \<open>
  Address configuration: the ARP server of \<open>kernel/io/network/arp.c\<close> and the DHCP client of
  \<open>kernel/io/network/dhcp.c\<close> with its packets, the parser of a reply, a transaction and the waiting time
  between two attempts. What the files and the alarm of the client return is given by its arguments: whether a
  write succeeds, and the list of what \<open>systemCall_waitIOReturn\<close> reports.
\<close>

section \<open>ARP\<close>

text \<open>\<open>toMACAddress\<close> of \<open>kernel/io/i8254x.c\<close>.\<close>

definition toMACAddress :: "u64 \<Rightarrow> u8 list" where
  "toMACAddress macAddress = map (\<lambda>a. ucast (drop_bit (a * 8) macAddress AND 0xff)) [0..<6]"

abbreviation (input) sizeof_ARPPacket :: nat where "sizeof_ARPPacket \<equiv> 28"

text \<open>The packed \<open>ARPPacket\<close>: hardware and protocol type at 0 and 2, their address lengths at 4 and 5, the operation
  at 6, the sender's addresses at 8 and 14, the target's at 18 and 24. The constants are stored in network order.\<close>

definition initARPReplyPacket :: "u64 \<Rightarrow> bytes \<Rightarrow> u8 list" where
  "initARPReplyPacket localMACAddress request =
    [0, 1, 8, 0, 6, 4, 0, 2] @ toMACAddress localMACAddress @ le32 (u32at request 24) @
    view request 8 14 @ le32 (u32at request 14)"

definition checkRequestPacket :: "bytes \<Rightarrow> nat \<Rightarrow> bool" where
  "checkRequestPacket request readSize =
    (if readSize < sizeof_ARPPacket then False
     else if changeEndian16 (u16at request 0) \<noteq> 1 \<or> changeEndian16 (u16at request 2) \<noteq> 0x0800 \<or>
       request 4 \<noteq> 6 \<or> request 5 \<noteq> 4 \<or> changeEndian16 (u16at request 6) \<noteq> 1 then False
     else True)"

text \<open>\<open>listenARP\<close>: \<open>received\<close> is the result of \<open>syncReadFile\<close>, \<open>written\<close> the size \<open>syncWriteFile\<close> reports. The
  result tells whether the server goes on, and the packet written.\<close>

definition listenARP :: "u64 \<Rightarrow> u32 \<Rightarrow> (bytes \<times> nat) option \<Rightarrow> nat option \<Rightarrow> bool \<times> u8 list option" where
  "listenARP mac ownAddress received written = (case received of
      None \<Rightarrow> (False, None)
    | Some (request, readSize) \<Rightarrow>
        if \<not> checkRequestPacket request readSize then (True, None)
        else if u32at request 24 \<noteq> ownAddress then (True, None)
        else let reply = initARPReplyPacket mac request in
          (written = Some sizeof_ARPPacket, Some reply))"

lemma arp_reply_addresses:
  assumes "listenARP mac ownAddress (Some (request, n)) w = (b, Some reply)"
  shows "length reply = sizeof_ARPPacket \<and> checkRequestPacket request n \<and>
    u32at (cstr reply) 14 = ownAddress \<and> u32at (cstr reply) 24 = u32at request 14 \<and>
    view (cstr reply) 8 14 = toMACAddress mac \<and> view (cstr reply) 18 24 = view request 8 14"
proof -
  have ok: "checkRequestPacket request n" "u32at request 24 = ownAddress" and r: "reply = initARPReplyPacket mac request"
    using assms by (auto simp: listenARP_def Let_def split: if_splits)
  have l: "length (toMACAddress mac) = 6" by (simp add: toMACAddress_def)
  have "u32at (cstr reply) 14 = u32at request 24" "u32at (cstr reply) 24 = u32at request 14"
    by (rule u32at_le32; simp add: r initARPReplyPacket_def cstr_def nth_append l)+
  moreover have "view (cstr reply) 8 14 = toMACAddress mac" "view (cstr reply) 18 24 = view request 8 14"
    by (rule nth_equalityI; simp add: r initARPReplyPacket_def cstr_def nth_append l)+
  ultimately show ?thesis using ok r l by (simp add: initARPReplyPacket_def)
qed

section \<open>DHCP packets\<close>

abbreviation (input) sizeof_DHCPPacket :: nat where "sizeof_DHCPPacket \<equiv> 240"
abbreviation (input) DHCP_MAGIC :: u32 where "DHCP_MAGIC \<equiv> 0x63538263"

datatype DHCPMessageType = DHCP_TYPE_DISCOVER | DHCP_TYPE_OFFER | DHCP_TYPE_REQUEST | DHCP_TYPE_ACK

fun msgTypeCode :: "DHCPMessageType \<Rightarrow> u8" where
  "msgTypeCode DHCP_TYPE_DISCOVER = 1"
| "msgTypeCode DHCP_TYPE_OFFER = 2"
| "msgTypeCode DHCP_TYPE_REQUEST = 3"
| "msgTypeCode DHCP_TYPE_ACK = 5"

abbreviation (input) DHCP_OPTION_SUBNET_MASK :: u8 where "DHCP_OPTION_SUBNET_MASK \<equiv> 1"
abbreviation (input) DHCP_OPTION_ROUTER :: u8 where "DHCP_OPTION_ROUTER \<equiv> 3"
abbreviation (input) DHCP_OPTION_DNS_SERVER :: u8 where "DHCP_OPTION_DNS_SERVER \<equiv> 6"
abbreviation (input) DHCP_REQUESTED_IP_ADDRESS :: u8 where "DHCP_REQUESTED_IP_ADDRESS \<equiv> 50"
abbreviation (input) DHCP_OPTION_LEASE_TIME :: u8 where "DHCP_OPTION_LEASE_TIME \<equiv> 51"
abbreviation (input) DHCP_OPTION_MSG_TYPE :: u8 where "DHCP_OPTION_MSG_TYPE \<equiv> 53"
abbreviation (input) DHCP_OPTION_SERVER :: u8 where "DHCP_OPTION_SERVER \<equiv> 54"
abbreviation (input) DHCP_OPTION_PARAMETER :: u8 where "DHCP_OPTION_PARAMETER \<equiv> 55"
abbreviation (input) DHCP_OPTION_END :: u8 where "DHCP_OPTION_END \<equiv> 255"

text \<open>An option is written at a position; the result is the position after it.\<close>

definition setOption :: "u8 \<Rightarrow> u8 list \<Rightarrow> nat \<times> bytes \<Rightarrow> nat \<times> bytes" where
  "setOption optionCode contents opt = (case opt of (pos, p) \<Rightarrow>
    (pos + 2 + length contents, putBytes pos (optionCode # of_nat (length contents) # contents) p))"

definition setDHCPOption_MsgType :: "DHCPMessageType \<Rightarrow> nat \<times> bytes \<Rightarrow> nat \<times> bytes" where
  "setDHCPOption_MsgType t opt = setOption DHCP_OPTION_MSG_TYPE [msgTypeCode t] opt"

definition setDHCPOption_Address :: "u8 \<Rightarrow> u32 \<Rightarrow> nat \<times> bytes \<Rightarrow> nat \<times> bytes" where
  "setDHCPOption_Address optCode addr opt = setOption optCode (le32 addr) opt"

definition setDHCPOption_Server :: "u32 \<Rightarrow> nat \<times> bytes \<Rightarrow> nat \<times> bytes" where
  "setDHCPOption_Server server opt = setDHCPOption_Address DHCP_OPTION_SERVER server opt"

definition setDHCPOption_RequestAddress :: "u32 \<Rightarrow> nat \<times> bytes \<Rightarrow> nat \<times> bytes" where
  "setDHCPOption_RequestAddress request opt = setDHCPOption_Address DHCP_REQUESTED_IP_ADDRESS request opt"

definition setDHCPOption_Parameter :: "u8 list \<Rightarrow> nat \<times> bytes \<Rightarrow> nat \<times> bytes" where
  "setDHCPOption_Parameter params opt = setOption DHCP_OPTION_PARAMETER params opt"

definition setDHCPOption_End :: "nat \<times> bytes \<Rightarrow> nat \<times> bytes" where
  "setDHCPOption_End opt = setOption DHCP_OPTION_END [] opt"

definition initDHCPPacket :: "bytes \<Rightarrow> u32 \<Rightarrow> u64 \<Rightarrow> bytes" where
  "initDHCPPacket p xid macAddress = putBytes 0
    ([1, 1, 6, 0] @ le32 xid @ le16 0 @ le16 (changeEndian16 0x8000) @ le32 0 @ le32 0 @ le32 0 @ le32 0 @
     toMACAddress macAddress @ replicate 10 0 @ replicate 192 0 @ le32 DHCP_MAGIC) p"

definition initDHCPDiscoverPacket :: "bytes \<Rightarrow> nat \<Rightarrow> u32 \<Rightarrow> u64 \<Rightarrow> (nat \<times> bytes) option" where
  "initDHCPDiscoverPacket p packetSize xid macAddress = do {
    let opt = (sizeof_DHCPPacket, initDHCPPacket p xid macAddress);
    let opt = setDHCPOption_MsgType DHCP_TYPE_DISCOVER opt;
    let opt = setDHCPOption_Parameter [DHCP_OPTION_SERVER, DHCP_OPTION_SUBNET_MASK, DHCP_OPTION_DNS_SERVER] opt;
    let opt = setDHCPOption_End opt;
    kassert (fst opt \<le> packetSize);
    Some opt
  }"

definition initDHCPRequestPacket :: "bytes \<Rightarrow> nat \<Rightarrow> u32 \<Rightarrow> u64 \<Rightarrow> u32 \<Rightarrow> u32 \<Rightarrow> (nat \<times> bytes) option" where
  "initDHCPRequestPacket p packetSize xid macAddress requestAddress dhcpServer = do {
    let opt = (sizeof_DHCPPacket, initDHCPPacket p xid macAddress);
    let opt = setDHCPOption_MsgType DHCP_TYPE_REQUEST opt;
    let opt = setDHCPOption_RequestAddress requestAddress opt;
    let opt = setDHCPOption_Server dhcpServer opt;
    let opt = setDHCPOption_Parameter [DHCP_OPTION_SERVER, DHCP_OPTION_SUBNET_MASK, DHCP_OPTION_DNS_SERVER] opt;
    let opt = setDHCPOption_End opt;
    kassert (fst opt \<le> packetSize);
    Some opt
  }"

section \<open>Parsing a reply\<close>

record DHCPOffer =
  offerAddress :: u32
  dhcpServerAddress :: u32
  leaseTime :: u32
  subnetMask :: u32
  gatewayAddress :: u32
  dnsServerAddress :: u32
  packetMsgType :: u8

text \<open>The \<open>switch\<close> for the option that begins at \<open>opt\<close>.\<close>

definition readOption :: "bytes \<Rightarrow> nat \<Rightarrow> DHCPOffer \<Rightarrow> DHCPOffer" where
  "readOption p opt f =
    (let code = p opt; addr = u32at p (opt + 2) in
     if code = DHCP_OPTION_MSG_TYPE then f\<lparr>packetMsgType := p (opt + 2)\<rparr>
     else if code = DHCP_OPTION_SUBNET_MASK then f\<lparr>subnetMask := addr\<rparr>
     else if code = DHCP_OPTION_ROUTER then f\<lparr>gatewayAddress := addr\<rparr>
     else if code = DHCP_OPTION_DNS_SERVER then f\<lparr>dnsServerAddress := addr\<rparr>
     else if code = DHCP_REQUESTED_IP_ADDRESS then f\<lparr>offerAddress := addr\<rparr>
     else if code = DHCP_OPTION_LEASE_TIME then f\<lparr>leaseTime := changeEndian32 addr\<rparr>
     else if code = DHCP_OPTION_SERVER then f\<lparr>dhcpServerAddress := addr\<rparr>
     else f)"

function parseOptions :: "bytes \<Rightarrow> nat \<Rightarrow> nat \<Rightarrow> DHCPOffer \<Rightarrow> DHCPOffer option" where
  "parseOptions p packetSize pos f =
    (if pos + 1 > packetSize then None
     else if p pos = DHCP_OPTION_END then Some f
     else if p pos = 0 then parseOptions p packetSize (pos + 1) f
     else if pos + 1 + 1 > packetSize then None
     else if pos + 1 + unat (p (pos + 1)) > packetSize then None
     else parseOptions p packetSize (pos + 1 + 1 + unat (p (pos + 1))) (readOption p pos f))"
  by pat_completeness auto
termination
  by (relation "measure (\<lambda>(p, packetSize, pos, f). packetSize - pos)") auto

declare parseOptions.simps [simp del]

definition parseDHCPOffer :: "bytes \<Rightarrow> nat \<Rightarrow> u32 \<Rightarrow> DHCPMessageType \<Rightarrow> nat \<times> DHCPOffer option" where
  "parseDHCPOffer p packetSize xid msgType =
    (if packetSize < sizeof_DHCPPacket \<or> p 0 \<noteq> 2 \<or> u32at p 4 \<noteq> xid \<or> u32at p 236 \<noteq> DHCP_MAGIC then (0, None)
     else case parseOptions p packetSize sizeof_DHCPPacket \<lparr>offerAddress = u32at p 16, dhcpServerAddress = u32at p 20,
         leaseTime = 0, subnetMask = 0, gatewayAddress = 0, dnsServerAddress = 0, packetMsgType = 0\<rparr> of
       None \<Rightarrow> (0, None)
     | Some f \<Rightarrow>
         (if packetMsgType f \<noteq> msgTypeCode msgType then 0
          else if offerAddress f = ANY_IPV4_ADDRESS then 0
          else if dhcpServerAddress f = ANY_IPV4_ADDRESS then 1
          else if leaseTime f = 0 then 2
          else if subnetMask f = ANY_IPV4_ADDRESS then 3
          else if gatewayAddress f = ANY_IPV4_ADDRESS then 4
          else if dnsServerAddress f = ANY_IPV4_ADDRESS then 5
          else 6, Some f))"

section \<open>A transaction\<close>

text \<open>What the client waits for: a packet, the alarm, or a handle it does not know; \<open>IOFailure\<close> is a failed
  system call. The list of events is what happens; at its end the client still waits, \<open>None\<close>.\<close>

datatype waitEvent = PacketRead bytes nat | AlarmRing | UnexpectedHandle | IOFailure

fun readDHCPReply :: "u32 \<Rightarrow> DHCPMessageType \<Rightarrow> waitEvent list \<Rightarrow> (DHCPOffer option \<times> waitEvent list) option" where
  "readDHCPReply xid msgType [] = None"
| "readDHCPReply xid msgType (PacketRead p n # es) =
    (case parseDHCPOffer p n xid msgType of
       (parseCount, Some f) \<Rightarrow> if parseCount \<ge> 4 then Some (Some f, es) else readDHCPReply xid msgType es
     | (_, None) \<Rightarrow> readDHCPReply xid msgType es)"
| "readDHCPReply xid msgType (AlarmRing # es) = Some (None, es)"
| "readDHCPReply xid msgType (UnexpectedHandle # es) = readDHCPReply xid msgType es"
| "readDHCPReply xid msgType (IOFailure # es) = Some (None, es)"

record IPConfig =
  confLocalAddress :: u32
  confSubnetMask :: u32
  confGateway :: u32
  confDhcpServer :: u32
  confDnsServer :: u32

definition toIPConfig :: "DHCPOffer \<Rightarrow> IPConfig" where
  "toIPConfig f = \<lparr>confLocalAddress = offerAddress f, confSubnetMask = subnetMask f, confGateway = gatewayAddress f,
    confDhcpServer = dhcpServerAddress f, confDnsServer = dnsServerAddress f\<rparr>"

abbreviation (input) maxDHCPPacketSize :: nat where "maxDHCPPacketSize \<equiv> sizeof_DHCPPacket + 6 * 30"

text \<open>\<open>dhcpTransaction\<close>: the lease time and the new configuration of the device. \<open>send\<close> is \<open>sendDHCPRequest\<close>
  on the UDP file.\<close>

definition dhcpTransaction :: "bytes option \<Rightarrow> (bytes \<Rightarrow> nat \<Rightarrow> bool) \<Rightarrow> waitEvent list \<Rightarrow> u64 \<Rightarrow> u32 \<Rightarrow> IPConfig \<Rightarrow>
    (u32 \<times> IPConfig) option" where
  "dhcpTransaction memory send es mac xid config = (case memory of
      None \<Rightarrow> Some (0, config)
    | Some m \<Rightarrow> do {
        (n, p) \<leftarrow> initDHCPDiscoverPacket m maxDHCPPacketSize xid mac;
        (if \<not> send p n then Some (0, config)
         else do {
           (r, es) \<leftarrow> readDHCPReply xid DHCP_TYPE_OFFER es;
           (case r of
              None \<Rightarrow> Some (0, config)
            | Some f \<Rightarrow> do {
                (n, p) \<leftarrow> initDHCPRequestPacket p maxDHCPPacketSize xid mac (offerAddress f) (dhcpServerAddress f);
                (if \<not> send p n then Some (0, config)
                 else do {
                   (r, es) \<leftarrow> readDHCPReply xid DHCP_TYPE_ACK es;
                   (case r of None \<Rightarrow> Some (0, config) | Some f \<Rightarrow> Some (leaseTime f, toIPConfig f))
                 })
              })
         })
      })"

text \<open>The wait of \<open>dhcpClientTask\<close> after a transaction, and the next retry time.\<close>

definition dhcpWait :: "u32 \<Rightarrow> u32 \<Rightarrow> u32 \<times> u32" where
  "dhcpWait lease retryTime =
    (if lease \<noteq> 0 then (lease * (1000 div 2), 500) else (retryTime, min (retryTime * 2) 60000))"

section \<open>Theorems\<close>

text \<open>Options as they are meant: a code and its contents.\<close>

definition encodeOption :: "u8 \<times> u8 list \<Rightarrow> u8 list" where
  "encodeOption q = (case q of (c, d) \<Rightarrow> c # of_nat (length d) # d)"

definition encodeOptions :: "(u8 \<times> u8 list) list \<Rightarrow> u8 list" where
  "encodeOptions qs = concat (map encodeOption qs) @ [DHCP_OPTION_END]"

definition addressOptions :: "u8 set" where
  "addressOptions = {DHCP_OPTION_SUBNET_MASK, DHCP_OPTION_ROUTER, DHCP_OPTION_DNS_SERVER, DHCP_REQUESTED_IP_ADDRESS,
    DHCP_OPTION_LEASE_TIME, DHCP_OPTION_SERVER}"

definition option_ok :: "u8 \<times> u8 list \<Rightarrow> bool" where
  "option_ok q \<longleftrightarrow> (case q of (c, d) \<Rightarrow> c \<noteq> 0 \<and> c \<noteq> DHCP_OPTION_END \<and> length d < 256 \<and>
    (c \<in> addressOptions \<longrightarrow> 4 \<le> length d) \<and> (c = DHCP_OPTION_MSG_TYPE \<longrightarrow> d \<noteq> []))"

definition applyOption :: "u8 \<times> u8 list \<Rightarrow> DHCPOffer \<Rightarrow> DHCPOffer" where
  "applyOption q f = (case q of (c, d) \<Rightarrow>
    if c = DHCP_OPTION_MSG_TYPE then f\<lparr>packetMsgType := hd d\<rparr>
    else if c = DHCP_OPTION_SUBNET_MASK then f\<lparr>subnetMask := u32at (cstr d) 0\<rparr>
    else if c = DHCP_OPTION_ROUTER then f\<lparr>gatewayAddress := u32at (cstr d) 0\<rparr>
    else if c = DHCP_OPTION_DNS_SERVER then f\<lparr>dnsServerAddress := u32at (cstr d) 0\<rparr>
    else if c = DHCP_REQUESTED_IP_ADDRESS then f\<lparr>offerAddress := u32at (cstr d) 0\<rparr>
    else if c = DHCP_OPTION_LEASE_TIME then f\<lparr>leaseTime := changeEndian32 (u32at (cstr d) 0)\<rparr>
    else if c = DHCP_OPTION_SERVER then f\<lparr>dhcpServerAddress := u32at (cstr d) 0\<rparr>
    else f)"

lemma readOption_encoded:
  assumes "printedAt p pos (encodeOption q)" "option_ok q"
  shows "readOption p pos f = applyOption q f"
proof (cases q)
  case (Pair c d)
  have p: "p pos = c" "\<And>k. k < length d \<Longrightarrow> p (pos + 2 + k) = d ! k"
    using assms(1) printedAt_nth [of p "pos + 2" d] by (simp_all add: Pair encodeOption_def printedAt_Cons)
  have a: "u32at p (pos + 2) = u32at (cstr d) 0" if "c \<in> addressOptions"
    using that assms(2) p(2) [of 0] p(2) [of 1] p(2) [of 2] p(2) [of 3]
    by (cases d) (auto simp: u32at_def cstr_def option_ok_def Pair numeral_2_eq_2 numeral_3_eq_3)
  have m: "p (pos + 2) = hd d" if "c = 53" using that assms(2) p(2) [of 0] by (cases d) (auto simp: option_ok_def Pair)
  show ?thesis using a m by (auto simp: readOption_def applyOption_def Pair p(1) Let_def addressOptions_def)
qed

lemma parseOptions_encoded:
  assumes "printedAt p pos (encodeOptions qs)" "pos + length (encodeOptions qs) \<le> packetSize" "\<forall>q\<in>set qs. option_ok q"
  shows "parseOptions p packetSize pos f = Some (fold applyOption qs f)"
  using assms
proof (induction qs arbitrary: pos f)
  case Nil
  then show ?case by (simp add: encodeOptions_def printedAt_Cons parseOptions.simps [of p packetSize pos])
next
  case (Cons q qs)
  obtain c d where q: "q = (c, d)" by fastforce
  have e: "encodeOptions (q # qs) = encodeOption q @ encodeOptions qs" by (simp add: encodeOptions_def)
  have p1: "printedAt p pos (encodeOption q)" and p2: "printedAt p (pos + length (encodeOption q)) (encodeOptions qs)"
    using Cons.prems(1) by (simp_all add: e printedAt_append)
  have ok: "option_ok q" using Cons.prems(3) by simp
  have l: "length (encodeOption q) = 2 + length d" by (simp add: q encodeOption_def)
  have "p pos = c" "p (pos + 1) = of_nat (length d)" using p1 by (simp_all add: q encodeOption_def printedAt_Cons)
  moreover have "unat (of_nat (length d) :: u8) = length d"
    using ok unat_of_nat_small [of "length d", where 'a = 8] by (simp add: option_ok_def q)
  moreover have "c \<noteq> 0" "c \<noteq> 255" using ok by (simp_all add: option_ok_def q)
  moreover have "pos + 2 + length d < packetSize"
    using Cons.prems(2) l by (simp add: e) (simp add: encodeOptions_def)
  ultimately have "parseOptions p packetSize pos f = parseOptions p packetSize (pos + length (encodeOption q)) (readOption p pos f)"
    using l by (subst parseOptions.simps) simp
  then show ?case
    using Cons.IH [OF p2] Cons.prems(2,3) readOption_encoded [OF p1 ok] by (simp add: e add.assoc)
qed


definition sampleReply :: bytes where
  "sampleReply = putBytes 240 (encodeOptions [(53, [2]), (1, [255, 255, 255, 0])])
    (putBytes 236 (le32 DHCP_MAGIC) (putBytes 0 ([2, 1, 6, 0] @ le32 42) (\<lambda>i. 7)))"


lemma readDHCPReply_parsed:
  "readDHCPReply xid t es = Some (Some f, es') \<Longrightarrow>
    \<exists>p n k. PacketRead p n \<in> set es \<and> parseDHCPOffer p n xid t = (k, Some f) \<and> 4 \<le> k"
  by (induction xid t es rule: readDHCPReply.induct) (auto split: prod.splits option.splits if_splits)

lemma readDHCPReply_subset: "readDHCPReply xid t es = Some (r, es') \<Longrightarrow> set es' \<subseteq> set es"
  by (induction xid t es rule: readDHCPReply.induct) (auto split: prod.splits option.splits if_splits)

lemma parsed_complete:
  "parseDHCPOffer p n xid t = (k, Some f) \<Longrightarrow> 4 \<le> k \<Longrightarrow> packetMsgType f = msgTypeCode t \<and> u32at p 4 = xid \<and>
    offerAddress f \<noteq> 0 \<and> dhcpServerAddress f \<noteq> 0 \<and> leaseTime f \<noteq> 0 \<and> subnetMask f \<noteq> 0"
  by (auto simp: parseDHCPOffer_def split: if_splits option.splits)

lemma initPackets: "initDHCPDiscoverPacket m maxDHCPPacketSize xid mac \<noteq> None"
    "initDHCPRequestPacket m maxDHCPPacketSize xid mac a s \<noteq> None"
  by (simp_all add: initDHCPDiscoverPacket_def initDHCPRequestPacket_def setDHCPOption_MsgType_def setDHCPOption_Parameter_def
      setDHCPOption_End_def setDHCPOption_RequestAddress_def setDHCPOption_Server_def setDHCPOption_Address_def setOption_def)

text \<open>A DHCP transaction changes the configuration of the device only on an acknowledgement of its own
  transaction that carries an address, a server, a lease time and a subnet mask; otherwise it reports no lease and
  leaves the configuration as it was. Its packets always fit the packet buffer.\<close>

lemma dhcpTransaction_safe:
  assumes "dhcpTransaction memory send es mac xid config = Some (lease, config')"
  shows "(lease = 0 \<and> config' = config) \<or>
    (lease \<noteq> 0 \<and> (\<exists>p n k f. PacketRead p n \<in> set es \<and> parseDHCPOffer p n xid DHCP_TYPE_ACK = (k, Some f) \<and> u32at p 4 = xid \<and>
      config' = toIPConfig f \<and> lease = leaseTime f \<and> confLocalAddress config' \<noteq> 0 \<and> confSubnetMask config' \<noteq> 0))"
proof (cases "lease = 0 \<and> config' = config")
  case False
  then obtain es1 r1 es2 f where "readDHCPReply xid DHCP_TYPE_OFFER es = Some (r1, es1)"
    and f: "readDHCPReply xid DHCP_TYPE_ACK es1 = Some (Some f, es2)" "lease = leaseTime f" "config' = toIPConfig f"
    using assms by (fastforce simp: dhcpTransaction_def split: option.splits if_splits bind_splits)
  then obtain p n k where "PacketRead p n \<in> set es" "parseDHCPOffer p n xid DHCP_TYPE_ACK = (k, Some f)" "4 \<le> k"
    using readDHCPReply_parsed [OF f(1)] readDHCPReply_subset by blast
  with parsed_complete [of p n xid DHCP_TYPE_ACK k f] f(2,3) show ?thesis
    by (auto simp: toIPConfig_def)
qed simp

definition noConfig :: IPConfig where
  "noConfig = \<lparr>confLocalAddress = 0, confSubnetMask = 0, confGateway = 0, confDhcpServer = 0, confDnsServer = 0\<rparr>"

end
