(* ===== verification/TcpReceive.thy ===== *)
theory TcpReceive
  imports Prelude
begin

text \<open>
  The receive window of a TCP socket, \<open>kernel/io/network/tcp.c\<close>: bytes that arrive in any order are kept in a
  circular buffer indexed by the sequence number, and the contiguous bytes at the beginning of the window are
  copied to the pending read requests. Sequence numbers are 32-bit words, so that their sums and differences wrap
  around; sizes are natural numbers. The queue of pending requests is the list of the entries before its sentinel.
\<close>

definition diffTCPSequence :: "u32 \<Rightarrow> u32 \<Rightarrow> nat" where
  "diffTCPSequence a b = unat (a - b)"

definition addTCPSequence :: "u32 \<Rightarrow> nat \<Rightarrow> u32" where
  "addTCPSequence a b = a + of_nat b"

record TCPReceiveBuffer =
  rbRequest :: nat
  rbSize :: nat

record TCPReceiveWindow =
  sequenceBegin :: u32
  sequenceLength :: nat
  windowSize :: nat
  reachFinish :: bool
  sequenceFinish :: u32
  hasData :: "nat \<Rightarrow> bool"
  slotData :: "nat \<Rightarrow> u8"
  requests :: "TCPReceiveBuffer list"

definition initTCPReceiveWindow :: "nat \<Rightarrow> TCPReceiveWindow" where
  "initTCPReceiveWindow n = \<lparr>sequenceBegin = 0, sequenceLength = 0, windowSize = n, reachFinish = False,
    sequenceFinish = 0, hasData = (\<lambda>i. False), slotData = (\<lambda>i. 0), requests = []\<rparr>"

definition synTCPReceiveWindow :: "TCPReceiveWindow \<Rightarrow> u32 \<Rightarrow> TCPReceiveWindow" where
  "synTCPReceiveWindow rw seq = rw\<lparr>sequenceBegin := seq, sequenceLength := 0\<rparr>"

record TCPReceiveWindowACK =
  ackNumber :: u32
  windowRemainSize :: u16
  isFINACK :: bool

definition getTCPReceiveACK :: "TCPReceiveWindow \<Rightarrow> TCPReceiveWindowACK" where
  "getTCPReceiveACK rw =
    (let n = addTCPSequence (sequenceBegin rw) (sequenceLength rw);
         fin = (reachFinish rw \<and> sequenceFinish rw = n) in
     \<lparr>ackNumber = (if fin then addTCPSequence n 1 else n),
      windowRemainSize = of_nat (windowSize rw - sequenceLength rw), isFINACK = fin\<rparr>)"

definition slot :: "TCPReceiveWindow \<Rightarrow> u32 \<Rightarrow> nat" where
  "slot rw seq = unat seq mod windowSize rw"

definition setTCPReceiveData :: "TCPReceiveWindow \<Rightarrow> u32 \<Rightarrow> u8 \<Rightarrow> TCPReceiveWindow" where
  "setTCPReceiveData rw seq d =
    (let i = slot rw seq in rw\<lparr>hasData := (hasData rw)(i := True), slotData := (slotData rw)(i := d)\<rparr>)"

definition hasTCPReceiveData :: "TCPReceiveWindow \<Rightarrow> u32 \<Rightarrow> bool" where
  "hasTCPReceiveData rw seq = hasData rw (slot rw seq)"

definition unsetTCPReceiveData :: "TCPReceiveWindow \<Rightarrow> u32 \<Rightarrow> (u8 \<times> TCPReceiveWindow) option" where
  "unsetTCPReceiveData rw seq = (let i = slot rw seq in do {
    kassert (hasData rw i);
    Some (slotData rw i, rw\<lparr>hasData := (hasData rw)(i := False), slotData := (slotData rw)(i := 0)\<rparr>)
  })"

fun copyBytes :: "TCPReceiveWindow \<Rightarrow> u32 \<Rightarrow> u8 list \<Rightarrow> TCPReceiveWindow" where
  "copyBytes rw s [] = rw"
| "copyBytes rw s (b # bs) =
    (let ds = diffTCPSequence s (sequenceBegin rw);
         rw = (if ds \<ge> windowSize rw then rw else setTCPReceiveData rw s b) in
     copyBytes rw (addTCPSequence s 1) bs)"

function extendWindow :: "nat \<Rightarrow> TCPReceiveWindow \<Rightarrow> TCPReceiveWindow" where
  "extendWindow seqLenLimit rw =
    (if sequenceLength rw < seqLenLimit \<and>
       hasTCPReceiveData rw (addTCPSequence (sequenceBegin rw) (sequenceLength rw))
     then extendWindow seqLenLimit (rw\<lparr>sequenceLength := sequenceLength rw + 1\<rparr>)
     else rw)"
  by pat_completeness auto
termination
  by (relation "measure (\<lambda>(l, rw). l - sequenceLength rw)") auto

declare extendWindow.simps [simp del]

definition copyTCPReceiveWindow :: "TCPReceiveWindow \<Rightarrow> u32 \<Rightarrow> u8 list \<Rightarrow> nat \<times> TCPReceiveWindow" where
  "copyTCPReceiveWindow rw remoteSeqBegin bytes =
    (let rw = copyBytes rw remoteSeqBegin bytes;
         oldSeqLen = sequenceLength rw;
         seqLenLimit = (if reachFinish rw then diffTCPSequence (sequenceFinish rw) (sequenceBegin rw) else windowSize rw);
         rw = extendWindow seqLenLimit rw in
     (sequenceLength rw - oldSeqLen, rw))"

text \<open>\<open>pushTCPReceiveBuffer\<close>: the flag tells whether memory is available. The result names a request completed
  at once with size 0.\<close>

definition pushTCPReceiveBuffer :: "bool \<Rightarrow> TCPReceiveWindow \<Rightarrow> nat \<Rightarrow> nat \<Rightarrow> nat option \<times> TCPReceiveWindow" where
  "pushTCPReceiveBuffer memoryOK rw r n =
    (if memoryOK then (None, rw\<lparr>requests := requests rw @ [\<lparr>rbRequest = r, rbSize = n\<rparr>]\<rparr>) else (Some r, rw))"

fun takeBytes :: "nat \<Rightarrow> TCPReceiveWindow \<Rightarrow> u32 \<Rightarrow> (u8 list \<times> u32 \<times> TCPReceiveWindow) option" where
  "takeBytes 0 rw wi = Some ([], wi, rw)"
| "takeBytes (Suc n) rw wi = do {
    (d, rw) \<leftarrow> unsetTCPReceiveData rw wi;
    (ds, wi, rw) \<leftarrow> takeBytes n rw (addTCPSequence wi 1);
    Some (d # ds, wi, rw)
  }"

text \<open>The completed requests with the bytes copied to their buffers.\<close>

function serveRequests :: "TCPReceiveWindow \<Rightarrow> ((nat \<times> u8 list) list \<times> TCPReceiveWindow) option" where
  "serveRequests rw = (case requests rw of
      [] \<Rightarrow> Some ([], rw)
    | rb # rbs \<Rightarrow>
        if sequenceLength rw = 0 then Some ([], rw)
        else let copySize = min (rbSize rb) (sequenceLength rw) in
          (case takeBytes copySize rw (sequenceBegin rw) of
             None \<Rightarrow> None
           | Some (ds, wi, rw') \<Rightarrow>
               map_option (\<lambda>(out, rw). ((rbRequest rb, ds) # out, rw))
                 (serveRequests (rw'\<lparr>sequenceBegin := wi, sequenceLength := sequenceLength rw - copySize, requests := rbs\<rparr>))))"
  by pat_completeness auto
termination
  by (relation "measure (\<lambda>rw. length (requests rw))") auto

declare serveRequests.simps [simp del]

definition copyTCPReceiveBuffer :: "TCPReceiveWindow \<Rightarrow> ((nat \<times> u8 list) list \<times> TCPReceiveWindow) option" where
  "copyTCPReceiveBuffer rw = do {
    (out, rw) \<leftarrow> serveRequests rw;
    (if reachFinish rw \<and> sequenceFinish rw = sequenceBegin rw then do {
       kassert (sequenceLength rw = 0);
       Some (out @ map (\<lambda>rb. (rbRequest rb, [])) (requests rw), rw\<lparr>requests := []\<rparr>)
     } else Some (out, rw))
  }"

definition destroyTCPReceiveWindow :: "TCPReceiveWindow \<Rightarrow> (nat \<times> u8 list) list" where
  "destroyTCPReceiveWindow rw = map (\<lambda>rb. (rbRequest rb, [])) (requests rw)"

text \<open>The part of \<open>receiveTCPDataPacket\<close> that works on the receive window: the size of the data of the packet and the
  new window.\<close>

definition receiveTCPSegment :: "TCPReceiveWindow \<Rightarrow> bool \<Rightarrow> u32 \<Rightarrow> u8 list \<Rightarrow> (nat \<times> TCPReceiveWindow) option" where
  "receiveTCPSegment rw fin remoteSeqNumber bytes = do {
    kassert (\<not> reachFinish rw \<or> diffTCPSequence (sequenceFinish rw) (sequenceBegin rw) \<le> sequenceLength rw);
    (if fin then
       let diffSeq = diffTCPSequence remoteSeqNumber (sequenceBegin rw) in
       Some (0, if diffSeq \<le> windowSize rw \<and> \<not> reachFinish rw
         then rw\<lparr>reachFinish := True, sequenceFinish := remoteSeqNumber, sequenceLength := min (sequenceLength rw) diffSeq\<rparr>
         else rw)
     else Some (length bytes, snd (copyTCPReceiveWindow rw remoteSeqNumber bytes)))
  }"

text \<open>What happens to a socket whose peer sends the stream \<open>S\<close>: a segment of it arrives, the FIN packet that follows
  its last byte arrives, or a read request is made. After each of them \<open>tcpLoop\<close> copies what it can to the readers.\<close>

datatype tcp_event =
    Segment nat nat
  | Finish
  | Read nat nat

definition tcpEvent :: "u8 list \<Rightarrow> u32 \<Rightarrow> TCPReceiveWindow \<Rightarrow> tcp_event \<Rightarrow> TCPReceiveWindow option" where
  "tcpEvent S isn rw ev = (case ev of
      Segment offset n \<Rightarrow> map_option snd (receiveTCPSegment rw False (isn + of_nat offset) (take n (drop offset S)))
    | Finish \<Rightarrow> map_option snd (receiveTCPSegment rw True (isn + of_nat (length S)) [])
    | Read r n \<Rightarrow> Some (snd (pushTCPReceiveBuffer True rw r n)))"

fun receiveEvents :: "u8 list \<Rightarrow> u32 \<Rightarrow> TCPReceiveWindow \<Rightarrow> tcp_event list \<Rightarrow> ((nat \<times> u8 list) list \<times> TCPReceiveWindow) option" where
  "receiveEvents S isn rw [] = Some ([], rw)"
| "receiveEvents S isn rw (ev # evs) = do {
    rw \<leftarrow> tcpEvent S isn rw ev;
    (out, rw) \<leftarrow> copyTCPReceiveBuffer rw;
    (outs, rw) \<leftarrow> receiveEvents S isn rw evs;
    Some (out @ outs, rw)
  }"

fun readers :: "tcp_event list \<Rightarrow> nat list" where
  "readers [] = []"
| "readers (Read r n # evs) = r # readers evs"
| "readers (_ # evs) = readers evs"

section \<open>Reassembly\<close>

text \<open>The window over the stream \<open>S\<close> whose first byte has the sequence number \<open>isn\<close>, when \<open>n\<close> bytes have been
  delivered: each byte kept in a slot is the byte of the stream that belongs there, and the first
  \<open>sequenceLength\<close> bytes are present.\<close>

definition receive_inv :: "u8 list \<Rightarrow> u32 \<Rightarrow> nat \<Rightarrow> TCPReceiveWindow \<Rightarrow> bool" where
  "receive_inv S isn n rw \<longleftrightarrow> (\<exists>k\<le>32. windowSize rw = 2 ^ k) \<and> sequenceBegin rw = isn + of_nat n \<and>
    n + sequenceLength rw \<le> length S \<and> sequenceLength rw \<le> windowSize rw \<and>
    (\<forall>j. j < windowSize rw \<longrightarrow> hasData rw (slot rw (isn + of_nat (n + j))) \<longrightarrow>
      n + j < length S \<and> slotData rw (slot rw (isn + of_nat (n + j))) = S ! (n + j)) \<and>
    (\<forall>j. j < sequenceLength rw \<longrightarrow> hasData rw (slot rw (isn + of_nat (n + j)))) \<and>
    (reachFinish rw \<longrightarrow> sequenceFinish rw = isn + of_nat (length S) \<and> length S \<le> n + windowSize rw)"

definition same_window :: "TCPReceiveWindow \<Rightarrow> TCPReceiveWindow \<Rightarrow> bool" where
  "same_window rw rw' \<longleftrightarrow> windowSize rw' = windowSize rw \<and> requests rw' = requests rw \<and>
    reachFinish rw' = reachFinish rw \<and> sequenceFinish rw' = sequenceFinish rw"

lemma slot_add:
  assumes "windowSize rw = 2 ^ k" "k \<le> 32"
  shows "slot rw (isn + of_nat m) = (unat isn + m) mod windowSize rw"
proof -
  have "unat (isn + of_nat m) = (unat isn + m) mod 2 ^ 32" by (simp add: unat_word_ariths unsigned_of_nat take_bit_nat_def mod_add_right_eq)
  moreover have "windowSize rw dvd 2 ^ 32" unfolding assms(1) using assms(2) by (rule le_imp_power_dvd)
  ultimately show ?thesis by (simp add: slot_def mod_mod_cancel)
qed

lemma slot_inj:
  assumes "windowSize rw = 2 ^ k" "k \<le> 32" "i < windowSize rw" "j < windowSize rw"
  shows "slot rw (isn + of_nat (n + i)) = slot rw (isn + of_nat (n + j)) \<longleftrightarrow> i = j"
  unfolding slot_add [OF assms(1,2)] using mod_less_inj [of "unat isn + n" i "windowSize rw" j] assms(3,4)
  by (auto simp: add.assoc)

lemma receive_invD:
  assumes "receive_inv S isn n rw"
  obtains k where "windowSize rw = 2 ^ k" "k \<le> 32"
  using assms by (auto simp: receive_inv_def)

text \<open>In a stream shorter than the sequence space, the distance of a byte to the window is its true one.\<close>

lemma distance:
  assumes "o' \<le> L" "n \<le> L" "L + w \<le> 2 ^ 32" "diffTCPSequence (isn + of_nat o') (isn + of_nat n) < w"
  shows "n \<le> o'" and "diffTCPSequence (isn + of_nat o') (isn + of_nat n) = o' - n"
proof -
  have d: "diffTCPSequence (isn + of_nat o') (isn + of_nat n) = unat (of_nat o' - of_nat n :: u32)"
    by (simp add: diffTCPSequence_def)
  have u: "unat (of_nat m :: u32) = m" if "m \<le> L" for m
    using unat_of_nat_small [of m, where 'a = 32] that assms(3,4) by simp
  show "n \<le> o'"
  proof (rule ccontr)
    assume "\<not> n \<le> o'"
    then have n: "o' < n" by simp
    have "unat (of_nat o' - of_nat n :: u32) = o' + 2 ^ 32 - n"
      using n u [of o'] u [of n] assms(1,2) by (simp add: unat_sub_if_size word_size)
    then show False using d assms(2-4) n by simp
  qed
  then have "(of_nat o' - of_nat n :: u32) = of_nat (o' - n)" by (simp add: of_nat_diff)
  then show "diffTCPSequence (isn + of_nat o') (isn + of_nat n) = o' - n"
    unfolding d using u [of "o' - n"] assms(1) by simp
qed

lemma diff_below:
  assumes "n \<le> m" "m < 2 ^ 32"
  shows "diffTCPSequence (isn + of_nat m) (isn + of_nat n) = m - n"
proof -
  have "(isn + of_nat m) - (isn + of_nat n) = (of_nat (m - n) :: u32)" using assms(1) by (simp add: of_nat_diff)
  then show ?thesis using unat_of_nat_small [of "m - n", where 'a = 32] assms(2) by (simp only: diffTCPSequence_def) simp
qed

lemma copyBytes_length: "sequenceLength (copyBytes rw s bs) = sequenceLength rw"
  by (induction rw s bs rule: copyBytes.induct) (simp_all add: Let_def setTCPReceiveData_def)

lemma setTCPReceiveData_inv:
  assumes inv: "receive_inv S isn n rw" and j: "j < windowSize rw" "n + j < length S"
  shows "receive_inv S isn n (setTCPReceiveData rw (isn + of_nat (n + j)) (S ! (n + j)))"
proof -
  let ?rw = "setTCPReceiveData rw (isn + of_nat (n + j)) (S ! (n + j))"
  obtain k where k: "windowSize rw = 2 ^ k" "k \<le> 32" using inv by (rule receive_invD)
  have w: "windowSize ?rw = windowSize rw" "slot ?rw = slot rw"
    by (auto simp: setTCPReceiveData_def Let_def slot_def fun_eq_iff)
  have h: "hasData ?rw (slot rw (isn + of_nat (n + i))) \<longleftrightarrow> i = j \<or> hasData rw (slot rw (isn + of_nat (n + i)))"
    and d: "slotData ?rw (slot rw (isn + of_nat (n + i))) = (if i = j then S ! (n + j) else slotData rw (slot rw (isn + of_nat (n + i))))"
    if "i < windowSize rw" for i
    using slot_inj [OF k that j(1), of isn n] by (auto simp: setTCPReceiveData_def Let_def)
  have f: "sequenceBegin ?rw = sequenceBegin rw" "sequenceLength ?rw = sequenceLength rw"
    "reachFinish ?rw = reachFinish rw" "sequenceFinish ?rw = sequenceFinish rw"
    by (simp_all add: setTCPReceiveData_def Let_def)
  have "sequenceLength rw \<le> windowSize rw" using inv by (simp add: receive_inv_def)
  then show ?thesis
    using inv j(2) h d k unfolding receive_inv_def w f by (auto simp: less_le_trans)
qed

lemma copyBytes_inv:
  assumes "receive_inv S isn n rw" "length S + windowSize rw \<le> 2 ^ 32" "o' + length bs \<le> length S"
    "bs = take (length bs) (drop o' S)"
  shows "receive_inv S isn n (copyBytes rw (isn + of_nat o') bs) \<and> same_window rw (copyBytes rw (isn + of_nat o') bs)"
  using assms
proof (induction bs arbitrary: o' rw)
  case (Cons b bs)
  have o': "o' < length S" using Cons.prems(3) by simp
  then have dr: "drop o' S = S ! o' # drop (Suc o') S" by (simp add: Cons_nth_drop_Suc)
  then have b: "b = S ! o'" "bs = take (length bs) (drop (Suc o') S)" using Cons.prems(4) by simp_all
  let ?s = "isn + of_nat o'"
  let ?rw = "if windowSize rw \<le> diffTCPSequence ?s (sequenceBegin rw) then rw else setTCPReceiveData rw ?s b"
  have n: "n \<le> length S" "sequenceBegin rw = isn + of_nat n" using Cons.prems(1) by (auto simp: receive_inv_def)
  have "receive_inv S isn n ?rw \<and> same_window rw ?rw"
  proof (cases "windowSize rw \<le> diffTCPSequence ?s (sequenceBegin rw)")
    case False
    then have d: "n \<le> o'" "diffTCPSequence ?s (sequenceBegin rw) = o' - n"
      using distance [of o' "length S" n "windowSize rw" isn] o' n Cons.prems(2) by simp_all
    then have "receive_inv S isn n (setTCPReceiveData rw (isn + of_nat (n + (o' - n))) (S ! (n + (o' - n))))"
      by (intro setTCPReceiveData_inv [OF Cons.prems(1)]) (use False o' in simp_all)
    then show ?thesis using False d b by (simp add: same_window_def setTCPReceiveData_def Let_def)
  qed (use Cons.prems(1) in \<open>simp add: same_window_def\<close>)
  then have rw: "receive_inv S isn n ?rw" "same_window rw ?rw" by blast+
  have "receive_inv S isn n (copyBytes ?rw (isn + of_nat (Suc o')) bs) \<and> same_window ?rw (copyBytes ?rw (isn + of_nat (Suc o')) bs)"
    by (rule Cons.IH [OF rw(1)]) (use Cons.prems(2,3) b(2) rw(2) in \<open>simp_all add: same_window_def\<close>)
  moreover have "copyBytes rw ?s (b # bs) = copyBytes ?rw (isn + of_nat (Suc o')) bs"
    by (simp add: Let_def addTCPSequence_def algebra_simps)
  ultimately show ?case using rw(2) by (simp add: same_window_def)
qed (simp add: same_window_def)

lemma slot_window [simp]:
  "slot (rw\<lparr>sequenceLength := l\<rparr>) = slot rw" "slot (rw\<lparr>requests := r\<rparr>) = slot rw" "slot (rw\<lparr>sequenceBegin := b\<rparr>) = slot rw"
  "slot (rw\<lparr>hasData := h\<rparr>) = slot rw" "slot (rw\<lparr>slotData := d\<rparr>) = slot rw"
  by (simp_all add: slot_def fun_eq_iff)

text \<open>The window is extended as far as contiguous data is present.\<close>

definition maximal :: "TCPReceiveWindow \<Rightarrow> bool" where
  "maximal rw \<longleftrightarrow> sequenceLength rw < windowSize rw \<longrightarrow>
    \<not> hasTCPReceiveData rw (addTCPSequence (sequenceBegin rw) (sequenceLength rw))"

lemma extendWindow_step:
  "sequenceLength rw < limit \<and> hasTCPReceiveData rw (addTCPSequence (sequenceBegin rw) (sequenceLength rw)) \<Longrightarrow>
    extendWindow limit rw = extendWindow limit (rw\<lparr>sequenceLength := sequenceLength rw + 1\<rparr>)"
  by (subst extendWindow.simps) (simp only: if_True simp_thms)

lemma extendWindow_stop:
  "\<not> (sequenceLength rw < limit \<and> hasTCPReceiveData rw (addTCPSequence (sequenceBegin rw) (sequenceLength rw))) \<Longrightarrow>
    extendWindow limit rw = rw"
  by (subst extendWindow.simps) (simp only: if_False)

lemma extendWindow_inv:
  assumes "receive_inv S isn n rw" "limit \<le> windowSize rw" "reachFinish rw \<longrightarrow> n + limit = length S"
    "\<not> reachFinish rw \<longrightarrow> limit = windowSize rw"
  shows "receive_inv S isn n (extendWindow limit rw) \<and> same_window rw (extendWindow limit rw) \<and> maximal (extendWindow limit rw) \<and>
    sequenceLength rw \<le> sequenceLength (extendWindow limit rw)"
  using assms
proof (induction limit rw rule: extendWindow.induct)
  case (1 limit rw)
  let ?go = "sequenceLength rw < limit \<and> hasTCPReceiveData rw (addTCPSequence (sequenceBegin rw) (sequenceLength rw))"
  show ?case
  proof (cases ?go)
    case True
    let ?rw = "rw\<lparr>sequenceLength := sequenceLength rw + 1\<rparr>"
    have h: "hasData rw (slot rw (isn + of_nat (n + sequenceLength rw)))" and l: "sequenceLength rw < windowSize rw"
      using True 1(2,3) by (auto simp: receive_inv_def hasTCPReceiveData_def addTCPSequence_def add.assoc)
    have "n + sequenceLength rw < length S"
      using h l 1(2) unfolding receive_inv_def by blast
    then have "receive_inv S isn n ?rw"
      using 1(2) h l by (auto simp: receive_inv_def less_Suc_eq)
    then have "receive_inv S isn n (extendWindow limit ?rw) \<and> same_window ?rw (extendWindow limit ?rw) \<and>
      maximal (extendWindow limit ?rw) \<and> sequenceLength ?rw \<le> sequenceLength (extendWindow limit ?rw)"
      using 1(1) [OF True] 1(3-5) by simp
    then show ?thesis
      unfolding extendWindow_step [OF True] by (simp add: same_window_def)
  next
    case False
    have "maximal rw"
    proof (cases "sequenceLength rw < limit")
      case False
      show ?thesis
      proof (cases "reachFinish rw")
        case True
        then have "length S \<le> n + sequenceLength rw" using 1(4) False by simp
        then show ?thesis using 1(2) unfolding maximal_def receive_inv_def hasTCPReceiveData_def addTCPSequence_def
          by (auto simp: add.assoc)
      qed (use 1(5) False in \<open>simp add: maximal_def\<close>)
    qed (use False in \<open>simp add: maximal_def\<close>)
    then show ?thesis unfolding extendWindow_stop [OF False] using 1(2) by (simp add: same_window_def)
  qed
qed

lemma copyTCPReceiveWindow_inv:
  assumes inv: "receive_inv S isn n rw" and W: "length S + windowSize rw < 2 ^ 32" and s: "o' + length bs \<le> length S"
    "bs = take (length bs) (drop o' S)"
  defines "rw' \<equiv> snd (copyTCPReceiveWindow rw (isn + of_nat o') bs)"
  shows "receive_inv S isn n rw'" "same_window rw rw'" "maximal rw'" "sequenceLength rw \<le> sequenceLength rw'"
proof -
  let ?rw = "copyBytes rw (isn + of_nat o') bs"
  have i: "receive_inv S isn n ?rw" "same_window rw ?rw" using copyBytes_inv [OF inv _ s] W by simp_all
  have l: "sequenceLength ?rw = sequenceLength rw" by (rule copyBytes_length)
  let ?limit = "if reachFinish ?rw then diffTCPSequence (sequenceFinish ?rw) (sequenceBegin ?rw) else windowSize ?rw"
  have f: "?limit = length S - n" "length S \<le> n + windowSize ?rw" "n \<le> length S" if "reachFinish ?rw"
  proof -
    have *: "sequenceFinish ?rw = isn + of_nat (length S)" "sequenceBegin ?rw = isn + of_nat n"
      and b: "length S \<le> n + windowSize ?rw" "n \<le> length S"
      using i(1) that by (auto simp: receive_inv_def)
    show "length S \<le> n + windowSize ?rw" "n \<le> length S" by fact+
    show "?limit = length S - n" unfolding * using that diff_below [OF b(2)] W by simp
  qed
  have "receive_inv S isn n (extendWindow ?limit ?rw) \<and> same_window ?rw (extendWindow ?limit ?rw) \<and>
    maximal (extendWindow ?limit ?rw) \<and> sequenceLength ?rw \<le> sequenceLength (extendWindow ?limit ?rw)"
    by (rule extendWindow_inv [OF i(1)]) (use f in auto)
  moreover have "rw' = extendWindow ?limit ?rw" by (simp add: rw'_def copyTCPReceiveWindow_def Let_def)
  ultimately show "receive_inv S isn n rw'" "same_window rw rw'" "maximal rw'" "sequenceLength rw \<le> sequenceLength rw'"
    using i(2) l by (auto simp: same_window_def)
qed

lemma takeBytes_window:
  "takeBytes k (rw\<lparr>sequenceBegin := b, sequenceLength := l\<rparr>) wi =
    map_option (\<lambda>(ds, wi, rw). (ds, wi, rw\<lparr>sequenceBegin := b, sequenceLength := l\<rparr>)) (takeBytes k rw wi)"
proof (induction k arbitrary: rw wi)
  case (Suc k)
  let ?i = "slot rw wi"
  let ?rw = "rw\<lparr>hasData := (hasData rw)(?i := False), slotData := (slotData rw)(?i := 0)\<rparr>"
  have c: "rw\<lparr>sequenceBegin := b, sequenceLength := l, hasData := h, slotData := d\<rparr> =
    rw\<lparr>hasData := h, slotData := d, sequenceBegin := b, sequenceLength := l\<rparr>" for h d by simp
  show ?case
    using Suc.IH [of ?rw "addTCPSequence wi 1"] unfolding c [symmetric]
    by (cases "takeBytes k ?rw (addTCPSequence wi 1)") (auto simp: unsetTCPReceiveData_def Let_def kassert_def)
qed simp

text \<open>Taking the first byte of the window moves the window by one.\<close>

lemma unsetTCPReceiveData_inv:
  assumes inv: "receive_inv S isn n rw" and l: "0 < sequenceLength rw"
  shows "\<exists>rw'. unsetTCPReceiveData rw (isn + of_nat n) = Some (S ! n, rw') \<and> same_window rw rw' \<and>
    receive_inv S isn (n + 1) (rw'\<lparr>sequenceBegin := isn + of_nat (n + 1), sequenceLength := sequenceLength rw - 1\<rparr>)"
proof -
  obtain k where k: "windowSize rw = 2 ^ k" "k \<le> 32" using inv by (rule receive_invD)
  let ?i = "slot rw (isn + of_nat n)"
  let ?rw = "rw\<lparr>hasData := (hasData rw)(?i := False), slotData := (slotData rw)(?i := 0)\<rparr>"
  let ?rw' = "?rw\<lparr>sequenceBegin := isn + of_nat (n + 1), sequenceLength := sequenceLength rw - 1\<rparr>"
  have W: "0 < windowSize rw" "sequenceLength rw \<le> windowSize rw" using k inv by (simp_all add: receive_inv_def)
  have kept: "j < sequenceLength rw \<Longrightarrow> hasData rw (slot rw (isn + of_nat (n + j)))"
    and data: "j < windowSize rw \<Longrightarrow> hasData rw (slot rw (isn + of_nat (n + j))) \<Longrightarrow>
      n + j < length S \<and> slotData rw (slot rw (isn + of_nat (n + j))) = S ! (n + j)" for j
    using inv by (simp_all add: receive_inv_def)
  have h: "hasData rw ?i" using kept [of 0] l by simp
  moreover have "slotData rw ?i = S ! n" using data [of 0] h W by simp
  ultimately have u: "unsetTCPReceiveData rw (isn + of_nat n) = Some (S ! n, ?rw)"
    by (simp add: unsetTCPReceiveData_def Let_def kassert_def)
  have other: "slot rw (isn + of_nat (n + j)) \<noteq> ?i" if "0 < j" "j < windowSize rw" for j
    using slot_inj [OF k that(2) W(1), of isn n] that by simp
  have last: "slot rw (isn + of_nat (n + windowSize rw)) = ?i"
    unfolding slot_add [OF k] by (simp add: add.assoc [symmetric])
  have "hasData ?rw (slot rw (isn + of_nat (n + 1 + j))) \<longrightarrow>
      n + 1 + j < length S \<and> slotData ?rw (slot rw (isn + of_nat (n + 1 + j))) = S ! (n + 1 + j)"
    if "j < windowSize rw" for j
  proof (cases "Suc j < windowSize rw")
    case True
    then show ?thesis using data [of "Suc j"] other [of "Suc j"] by (simp add: add.assoc)
  next
    case False
    then have "n + 1 + j = n + windowSize rw" using that by simp
    then show ?thesis using last by (simp only:) simp
  qed
  moreover have "hasData ?rw (slot rw (isn + of_nat (n + 1 + j)))" if "j < sequenceLength rw - 1" for j
    using kept [of "Suc j"] other [of "Suc j"] that W(2) by (simp add: add.assoc)
  moreover have "n + sequenceLength rw \<le> length S" "reachFinish rw \<longrightarrow> sequenceFinish rw = isn + of_nat (length S) \<and> length S \<le> n + windowSize rw"
    using inv by (simp_all add: receive_inv_def)
  ultimately have "receive_inv S isn (n + 1) ?rw'"
    using k W(2) l unfolding receive_inv_def by (simp split: if_splits) force
  then show ?thesis using u by (simp add: same_window_def)
qed

lemma takeBytes_inv:
  assumes "receive_inv S isn n rw" "k \<le> sequenceLength rw"
  shows "\<exists>rw'. takeBytes k rw (isn + of_nat n) = Some (take k (drop n S), isn + of_nat (n + k), rw') \<and> same_window rw rw' \<and>
    receive_inv S isn (n + k) (rw'\<lparr>sequenceBegin := isn + of_nat (n + k), sequenceLength := sequenceLength rw - k\<rparr>)"
  using assms
proof (induction k arbitrary: n rw)
  case 0
  then have "rw\<lparr>sequenceBegin := isn + of_nat n, sequenceLength := sequenceLength rw\<rparr> = rw"
    by (simp add: receive_inv_def)
  then show ?case using 0 by (simp add: same_window_def)
next
  case (Suc k)
  then obtain rw1 where u: "unsetTCPReceiveData rw (isn + of_nat n) = Some (S ! n, rw1)" "same_window rw rw1"
      "receive_inv S isn (n + 1) (rw1\<lparr>sequenceBegin := isn + of_nat (n + 1), sequenceLength := sequenceLength rw - 1\<rparr>)"
    using unsetTCPReceiveData_inv [OF Suc.prems(1)] by auto
  let ?rw1 = "rw1\<lparr>sequenceBegin := isn + of_nat (n + 1), sequenceLength := sequenceLength rw - 1\<rparr>"
  have n: "n < length S" and k: "k \<le> sequenceLength rw - 1" using Suc.prems by (auto simp: receive_inv_def)
  obtain rw2 where t: "takeBytes k ?rw1 (isn + of_nat (n + 1)) = Some (take k (drop (n + 1) S), isn + of_nat (n + 1 + k), rw2)"
      "same_window ?rw1 rw2"
      "receive_inv S isn (n + 1 + k) (rw2\<lparr>sequenceBegin := isn + of_nat (n + 1 + k), sequenceLength := sequenceLength rw - 1 - k\<rparr>)"
    using Suc.IH [OF u(3)] k by (simp del: of_nat_add of_nat_Suc) blast
  obtain rw3 where r: "takeBytes k rw1 (isn + of_nat (n + 1)) = Some (take k (drop (n + 1) S), isn + of_nat (n + 1 + k), rw3)"
      "rw2 = rw3\<lparr>sequenceBegin := isn + of_nat (n + 1), sequenceLength := sequenceLength rw - 1\<rparr>"
    using t(1) unfolding takeBytes_window by auto
  have "addTCPSequence (isn + of_nat n) 1 = isn + of_nat (n + 1)" by (simp add: addTCPSequence_def algebra_simps)
  then have "takeBytes (Suc k) rw (isn + of_nat n) = Some (S ! n # take k (drop (n + 1) S), isn + of_nat (n + 1 + k), rw3)"
    using u(1) r(1) by simp
  moreover have "S ! n # take k (drop (n + 1) S) = take (Suc k) (drop n S)" using n by (simp add: Cons_nth_drop_Suc [symmetric])
  ultimately show ?case using t(2,3) u(2) r(2) by (simp add: same_window_def)
qed

lemma takeBytes_hasData:
  assumes "takeBytes k rw wi = Some (ds, wi', rw')"
  shows "(hasData rw' i \<longrightarrow> hasData rw i) \<and> (0 < k \<longrightarrow> \<not> hasData rw' (slot rw wi))"
  using assms
proof (induction k arbitrary: rw wi ds i)
  case (Suc k)
  let ?j = "slot rw wi"
  let ?rw = "rw\<lparr>hasData := (hasData rw)(?j := False), slotData := (slotData rw)(?j := 0)\<rparr>"
  obtain ds' where t: "takeBytes k ?rw (addTCPSequence wi 1) = Some (ds', wi', rw')"
    using Suc.prems by (auto simp: unsetTCPReceiveData_def Let_def kassert_def split: bind_splits if_splits)
  show ?case using Suc.IH [OF t, of i] Suc.IH [OF t, of ?j] by (auto split: if_splits)
qed simp

lemma take_maximal:
  assumes inv: "receive_inv S isn n rw" and m: "maximal rw" and k: "k \<le> sequenceLength rw"
    and t: "takeBytes k rw (isn + of_nat n) = Some (ds, wi', rw')" and w: "same_window rw rw'"
  shows "maximal (rw'\<lparr>sequenceBegin := isn + of_nat (n + k), sequenceLength := sequenceLength rw - k\<rparr>)"
proof (cases "k = 0")
  case True
  then have "rw' = rw" "sequenceBegin rw = isn + of_nat n" using t inv by (simp_all add: receive_inv_def)
  then show ?thesis using True m by (simp add: maximal_def hasTCPReceiveData_def)
next
  case False
  obtain e where e: "windowSize rw = 2 ^ e" "e \<le> 32" using inv by (rule receive_invD)
  have sl: "slot rw' = slot rw" using w by (simp add: slot_def same_window_def fun_eq_iff)
  have l: "sequenceLength rw \<le> windowSize rw" "sequenceBegin rw = isn + of_nat n" using inv by (simp_all add: receive_inv_def)
  have a: "addTCPSequence (isn + of_nat (n + k)) (sequenceLength rw - k) = isn + of_nat (n + sequenceLength rw)"
    using k by (simp add: addTCPSequence_def of_nat_diff)
  have "\<not> hasData rw' (slot rw (isn + of_nat (n + sequenceLength rw)))"
  proof (cases "sequenceLength rw < windowSize rw")
    case True
    then have "\<not> hasData rw (slot rw (isn + of_nat (n + sequenceLength rw)))"
      using m l(2) by (simp add: maximal_def hasTCPReceiveData_def addTCPSequence_def add.assoc)
    then show ?thesis using takeBytes_hasData [OF t] by blast
  next
    case full: False
    then have "slot rw (isn + of_nat (n + sequenceLength rw)) = slot rw (isn + of_nat n)"
      using l(1) unfolding slot_add [OF e] by (simp add: add.assoc [symmetric])
    then show ?thesis using takeBytes_hasData [OF t] False by simp
  qed
  then show ?thesis using a by (simp add: maximal_def hasTCPReceiveData_def sl del: of_nat_add)
qed

definition served :: "u8 list \<Rightarrow> u32 \<Rightarrow> nat \<Rightarrow> TCPReceiveWindow \<Rightarrow> (nat \<times> u8 list) list \<Rightarrow> nat \<Rightarrow> TCPReceiveWindow \<Rightarrow> bool" where
  "served S isn n rw out m rw' \<longleftrightarrow> concat (map snd out) = take m (drop n S) \<and> m + sequenceLength rw' = sequenceLength rw \<and>
    receive_inv S isn (n + m) rw' \<and> maximal rw' \<and> windowSize rw' = windowSize rw \<and> reachFinish rw' = reachFinish rw \<and>
    map fst out @ map rbRequest (requests rw') = map rbRequest (requests rw)"

lemma served_refl: "receive_inv S isn n rw \<Longrightarrow> maximal rw \<Longrightarrow> served S isn n rw [] 0 rw"
  by (simp add: served_def)

lemma served_step:
  assumes "served S isn (n + k) rw1 out m rw'" "sequenceLength rw1 = sequenceLength rw - k" "k \<le> sequenceLength rw"
    "windowSize rw1 = windowSize rw" "reachFinish rw1 = reachFinish rw" "requests rw = rb # requests rw1"
  shows "served S isn n rw ((rbRequest rb, take k (drop n S)) # out) (k + m) rw'"
  using assms by (auto simp: served_def take_add add.assoc add.commute [of n k] add.left_commute [of n k])

lemma serveRequests_served:
  assumes "receive_inv S isn n rw" "maximal rw"
  shows "\<exists>out m rw'. serveRequests rw = Some (out, rw') \<and> served S isn n rw out m rw'"
  using assms
proof (induction "length (requests rw)" arbitrary: n rw)
  case 0
  then show ?case using served_refl by (subst serveRequests.simps) fastforce
next
  case (Suc l)
  obtain rb rbs where q: "requests rw = rb # rbs" using Suc.hyps(2) by (cases "requests rw") auto
  show ?case
  proof (cases "sequenceLength rw = 0")
    case True
    then show ?thesis using served_refl [OF Suc.prems] q by (subst serveRequests.simps) auto
  next
    case False
    define k where "k = min (rbSize rb) (sequenceLength rw)"
    have k: "k \<le> sequenceLength rw" by (simp add: k_def)
    have b: "sequenceBegin rw = isn + of_nat n" using Suc.prems(1) by (simp add: receive_inv_def)
    obtain rw1 where t: "takeBytes k rw (isn + of_nat n) = Some (take k (drop n S), isn + of_nat (n + k), rw1)"
      and w: "same_window rw rw1"
      and i: "receive_inv S isn (n + k) (rw1\<lparr>sequenceBegin := isn + of_nat (n + k), sequenceLength := sequenceLength rw - k\<rparr>)"
      using takeBytes_inv [OF Suc.prems(1) k] by blast
    let ?rw1 = "rw1\<lparr>sequenceBegin := isn + of_nat (n + k), sequenceLength := sequenceLength rw - k, requests := rbs\<rparr>"
    have "maximal ?rw1" using take_maximal [OF Suc.prems k t w] by (simp add: maximal_def hasTCPReceiveData_def)
    moreover have "receive_inv S isn (n + k) ?rw1" using i by (simp add: receive_inv_def)
    moreover have "l = length (requests ?rw1)" using q Suc.hyps(2) by simp
    ultimately obtain out m rw' where s: "serveRequests ?rw1 = Some (out, rw')" "served S isn (n + k) ?rw1 out m rw'"
      using Suc.hyps(1) by blast
    have "serveRequests rw = Some ((rbRequest rb, take k (drop n S)) # out, rw')"
      using s(1) t b False by (subst serveRequests.simps) (simp add: q k_def [symmetric] del: of_nat_add)
    moreover have "served S isn n rw ((rbRequest rb, take k (drop n S)) # out) (k + m) rw'"
      by (rule served_step [OF s(2)]) (use k w q in \<open>simp_all add: same_window_def\<close>)
    ultimately show ?thesis by blast
  qed
qed

lemma copyTCPReceiveBuffer_served:
  assumes "receive_inv S isn n rw" "maximal rw" "length S < 2 ^ 32"
  shows "\<exists>out m rw'. copyTCPReceiveBuffer rw = Some (out, rw') \<and> served S isn n rw out m rw'"
proof -
  obtain out m rw' where s: "serveRequests rw = Some (out, rw')" "served S isn n rw out m rw'"
    using serveRequests_served [OF assms(1,2)] by blast
  show ?thesis
  proof (cases "reachFinish rw' \<and> sequenceFinish rw' = sequenceBegin rw'")
    case True
    have i: "receive_inv S isn (n + m) rw'" using s(2) by (simp add: served_def)
    then have "sequenceFinish rw' = isn + of_nat (length S)" "sequenceBegin rw' = isn + of_nat (n + m)"
      "n + m + sequenceLength rw' \<le> length S"
      using True unfolding receive_inv_def by blast+
    then have "n + m = length S" using True diff_below [of "n + m" "length S" isn] assms(3) by (auto simp: diffTCPSequence_def)
    then have l: "sequenceLength rw' = 0" using i by (simp add: receive_inv_def)
    have "served S isn n rw (out @ map (\<lambda>rb. (rbRequest rb, [])) (requests rw')) m (rw'\<lparr>requests := []\<rparr>)"
      using s(2) by (auto simp: served_def receive_inv_def maximal_def hasTCPReceiveData_def comp_def)
    then show ?thesis using s(1) True l by (auto simp: copyTCPReceiveBuffer_def kassert_def)
  next
    case False
    then show ?thesis using s by (auto simp: copyTCPReceiveBuffer_def)
  qed
qed

section \<open>Histories of a socket\<close>

text \<open>The part of the stream that has been received contiguously when \<open>n\<close> bytes have been delivered.\<close>

abbreviation (input) received :: "nat \<Rightarrow> TCPReceiveWindow \<Rightarrow> nat" where
  "received n rw \<equiv> n + sequenceLength rw"

lemma tcpEvent_inv:
  assumes inv: "receive_inv S isn n rw" "maximal rw" and W: "length S + windowSize rw < 2 ^ 32"
  shows "case tcpEvent S isn rw ev of
      None \<Rightarrow> reachFinish rw \<and> received n rw < length S
    | Some rw' \<Rightarrow> receive_inv S isn n rw' \<and> maximal rw' \<and> windowSize rw' = windowSize rw \<and>
        sequenceLength rw \<le> sequenceLength rw' \<and> (ev \<noteq> Finish \<longrightarrow> reachFinish rw' = reachFinish rw) \<and>
        (ev = Finish \<longrightarrow> sequenceLength rw' = sequenceLength rw) \<and>
        map rbRequest (requests rw') = map rbRequest (requests rw) @ readers [ev]"
proof -
  have b: "sequenceBegin rw = isn + of_nat n" "n \<le> length S" "received n rw \<le> length S" using inv by (simp_all add: receive_inv_def)
  have df: "diffTCPSequence (isn + of_nat (length S)) (sequenceBegin rw) = length S - n"
    unfolding b(1) using diff_below [OF b(2)] W by simp
  have late: "reachFinish rw \<and> received n rw < length S"
    if "\<not> (\<not> reachFinish rw \<or> diffTCPSequence (sequenceFinish rw) (sequenceBegin rw) \<le> sequenceLength rw)"
    using that inv(1) df by (auto simp: receive_inv_def)
  show ?thesis
  proof (cases ev)
    case (Segment off c)
    define bs where "bs = take c (drop off S)"
    let ?o = "min off (length S)"
    have bs: "?o + length bs \<le> length S" "bs = take (length bs) (drop ?o S)"
      by (auto simp: bs_def min_def)
    have "bs = [] \<or> off = ?o" by (auto simp: bs_def)
    then have same: "copyBytes rw (isn + of_nat off) bs = copyBytes rw (isn + of_nat ?o) bs" by auto
    have c: "copyTCPReceiveWindow rw (isn + of_nat off) bs = copyTCPReceiveWindow rw (isn + of_nat ?o) bs"
      by (simp only: copyTCPReceiveWindow_def same)
    note i = copyTCPReceiveWindow_inv [OF inv(1) W bs, folded c]
    show ?thesis using late i unfolding tcpEvent_def Segment receiveTCPSegment_def
      by (auto simp: kassert_def same_window_def bs_def [symmetric])
  next
    case Finish
    let ?rw = "rw\<lparr>reachFinish := True, sequenceFinish := isn + of_nat (length S),
      sequenceLength := min (sequenceLength rw) (length S - n)\<rparr>"
    have "min (sequenceLength rw) (length S - n) = sequenceLength rw" using b(3) by simp
    moreover have "slot ?rw = slot rw" by (simp add: slot_def fun_eq_iff)
    ultimately have "receive_inv S isn n ?rw \<and> maximal ?rw \<and> windowSize ?rw = windowSize rw \<and>
        sequenceLength ?rw = sequenceLength rw \<and> requests ?rw = requests rw" if "length S - n \<le> windowSize rw"
      using inv that by (simp add: receive_inv_def maximal_def hasTCPReceiveData_def le_diff_conv)
    then show ?thesis using late inv df unfolding tcpEvent_def Finish receiveTCPSegment_def
      by (auto simp: kassert_def Let_def)
  next
    case (Read r m)
    then show ?thesis using inv
      by (simp add: tcpEvent_def pushTCPReceiveBuffer_def receive_inv_def maximal_def hasTCPReceiveData_def)
  qed
qed

lemma readers_append: "readers (xs @ ys) = readers xs @ readers ys"
  by (induction xs rule: readers.induct) auto

text \<open>One event and the copy that follows it.\<close>

lemma step_inv:
  assumes inv: "receive_inv S isn n rw" "maximal rw" and W: "length S + windowSize rw < 2 ^ 32"
  obtains "tcpEvent S isn rw ev = None" "reachFinish rw" "received n rw < length S"
  | rw1 out m rw' where "tcpEvent S isn rw ev = Some rw1" "copyTCPReceiveBuffer rw1 = Some (out, rw')"
      "concat (map snd out) = take m (drop n S)" "length (concat (map snd out)) = m" "receive_inv S isn (n + m) rw'" "maximal rw'"
      "windowSize rw' = windowSize rw" "received n rw \<le> received (n + m) rw'"
      "ev \<noteq> Finish \<Longrightarrow> reachFinish rw' = reachFinish rw" "ev = Finish \<Longrightarrow> received (n + m) rw' = received n rw"
      "map fst out @ map rbRequest (requests rw') = map rbRequest (requests rw) @ readers [ev]"
      "received n rw1 = received (n + m) rw'"
proof (cases "tcpEvent S isn rw ev")
  case None
  then show ?thesis using tcpEvent_inv [OF assms, of ev] that(1) by simp
next
  case (Some rw1)
  then have e: "receive_inv S isn n rw1" "maximal rw1" "windowSize rw1 = windowSize rw" "sequenceLength rw \<le> sequenceLength rw1"
    "ev \<noteq> Finish \<longrightarrow> reachFinish rw1 = reachFinish rw" "ev = Finish \<longrightarrow> sequenceLength rw1 = sequenceLength rw"
    "map rbRequest (requests rw1) = map rbRequest (requests rw) @ readers [ev]"
    using tcpEvent_inv [OF assms, of ev] by simp_all
  obtain out m rw' where s: "copyTCPReceiveBuffer rw1 = Some (out, rw')" "served S isn n rw1 out m rw'"
    using copyTCPReceiveBuffer_served [OF e(1,2)] W by auto
  have m: "n + m \<le> length S" using s(2) by (simp add: served_def receive_inv_def)
  show ?thesis
    by (rule that(2) [OF Some s(1), of m]) (use s(2) e m in \<open>auto simp: served_def\<close>)
qed

text \<open>A FIN packet overtook data of the stream: it was accepted when not every byte before it had arrived.\<close>

definition fin_overtakes :: "u8 list \<Rightarrow> u32 \<Rightarrow> TCPReceiveWindow \<Rightarrow> nat \<Rightarrow> tcp_event list \<Rightarrow> bool" where
  "fin_overtakes S isn rw n evs \<longleftrightarrow> (\<exists>pre post out rw'. evs = pre @ Finish # post \<and>
    receiveEvents S isn rw pre = Some (out, rw') \<and> received (n + length (concat (map snd out))) rw' < length S)"

lemma fin_overtakes_step:
  assumes "tcpEvent S isn rw ev = Some rw1" "copyTCPReceiveBuffer rw1 = Some (out, rw')" "length (concat (map snd out)) = m"
    "fin_overtakes S isn rw' (n + m) evs"
  shows "fin_overtakes S isn rw n (ev # evs)"
proof -
  obtain pre post out' rw2 where f: "evs = pre @ Finish # post" "receiveEvents S isn rw' pre = Some (out', rw2)"
      "received (n + m + length (concat (map snd out'))) rw2 < length S"
    using assms(4) by (auto simp: fin_overtakes_def)
  have "receiveEvents S isn rw (ev # pre) = Some (out @ out', rw2)" using assms(1,2) f(2) by simp
  moreover have "ev # evs = (ev # pre) @ Finish # post" using f(1) by simp
  moreover have "received (n + length (concat (map snd (out @ out')))) rw2 < length S" using f(3) assms(3) by (simp add: add.assoc)
  ultimately show ?thesis unfolding fin_overtakes_def by blast
qed

lemma receiveEvents_inv:
  assumes "receive_inv S isn n rw" "maximal rw" "length S + windowSize rw < 2 ^ 32"
  shows "case receiveEvents S isn rw evs of
      None \<Rightarrow> reachFinish rw \<and> received n rw < length S \<or> fin_overtakes S isn rw n evs
    | Some (out, rw') \<Rightarrow> (\<exists>m. concat (map snd out) = take m (drop n S) \<and> length (concat (map snd out)) = m \<and>
        receive_inv S isn (n + m) rw' \<and> maximal rw' \<and> windowSize rw' = windowSize rw \<and>
        map fst out @ map rbRequest (requests rw') = map rbRequest (requests rw) @ readers evs)"
  using assms
proof (induction evs arbitrary: n rw)
  case Nil
  then show ?case by simp
next
  case (Cons ev evs)
  show ?case
  proof (rule step_inv [OF Cons.prems, of ev], goal_cases)
    case 1
    then show ?thesis by simp
  next
    case (2 rw1 out m rw')
    have IH: "case receiveEvents S isn rw' evs of
      None \<Rightarrow> reachFinish rw' \<and> received (n + m) rw' < length S \<or> fin_overtakes S isn rw' (n + m) evs
    | Some (out, rw2) \<Rightarrow> (\<exists>l. concat (map snd out) = take l (drop (n + m) S) \<and> length (concat (map snd out)) = l \<and>
        receive_inv S isn (n + m + l) rw2 \<and> maximal rw2 \<and> windowSize rw2 = windowSize rw' \<and>
        map fst out @ map rbRequest (requests rw2) = map rbRequest (requests rw') @ readers evs)"
      by (rule Cons.IH) (use 2 Cons.prems(3) in simp_all)
    show ?thesis
    proof (cases "receiveEvents S isn rw' evs")
      case None
      have "reachFinish rw' \<and> received (n + m) rw' < length S \<Longrightarrow>
        reachFinish rw \<and> received n rw < length S \<or> fin_overtakes S isn rw n (ev # evs)"
      proof (cases "ev = Finish")
        case True
        assume "reachFinish rw' \<and> received (n + m) rw' < length S"
        then have "received n rw < length S" using 2(10) True by simp
        then show ?thesis unfolding fin_overtakes_def True
          by (intro disjI2 exI [of _ "[]"] exI [of _ evs] exI [of _ "[]"] exI [of _ rw]) simp
      qed (use 2(8,9) in auto)
      moreover have "fin_overtakes S isn rw' (n + m) evs \<Longrightarrow> fin_overtakes S isn rw n (ev # evs)"
        by (rule fin_overtakes_step [OF 2(1,2,4)])
      moreover have "receiveEvents S isn rw (ev # evs) = None" using 2(1,2) None by simp
      ultimately show ?thesis using IH None by auto
    next
      case (Some p)
      obtain outs rw2 where p: "p = (outs, rw2)" by (cases p)
      then obtain l where l: "concat (map snd outs) = take l (drop (n + m) S)" "length (concat (map snd outs)) = l"
        "receive_inv S isn (n + m + l) rw2" "maximal rw2" "windowSize rw2 = windowSize rw'"
        "map fst outs @ map rbRequest (requests rw2) = map rbRequest (requests rw') @ readers evs"
        using IH unfolding Some p by (simp only: option.case prod.case) (elim exE conjE, rule that)
      have r: "receiveEvents S isn rw (ev # evs) = Some (out @ outs, rw2)" using 2(1,2) Some p by simp
      have "concat (map snd (out @ outs)) = take (m + l) (drop n S)"
        using l(1) 2(3) by (simp add: take_add add.commute [of n m])
      moreover have "length (concat (map snd (out @ outs))) = m + l" using l(2) 2(4) by simp
      moreover have "map fst (out @ outs) @ map rbRequest (requests rw2) = map rbRequest (requests rw) @ readers (ev # evs)"
        using l(6) 2(11) readers_append [of "[ev]" evs] by simp
      ultimately show ?thesis unfolding r using l(3-5) 2(7) by (auto simp: add.assoc)
    qed
  qed
qed

lemma receive_inv_start:
  assumes "W = 2 ^ k" "k \<le> 32"
  shows "receive_inv S isn 0 (synTCPReceiveWindow (initTCPReceiveWindow W) isn)"
    and "maximal (synTCPReceiveWindow (initTCPReceiveWindow W) isn)"
  using assms by (auto simp: receive_inv_def maximal_def synTCPReceiveWindow_def initTCPReceiveWindow_def hasTCPReceiveData_def)

text \<open>The window of a socket when the handshake is done, \<open>createTCPSocket\<close>.\<close>

abbreviation (input) DEFAULT_TCP_RECEIVE_WINDOW_SIZE :: nat where
  "DEFAULT_TCP_RECEIVE_WINDOW_SIZE \<equiv> 8192"

definition startWindow :: "u32 \<Rightarrow> TCPReceiveWindow" where
  "startWindow isn = synTCPReceiveWindow (initTCPReceiveWindow DEFAULT_TCP_RECEIVE_WINDOW_SIZE) isn"

lemma startWindow_inv:
  "receive_inv S isn 0 (startWindow isn)" "maximal (startWindow isn)" "windowSize (startWindow isn) = 8192"
  "requests (startWindow isn) = []" "\<not> reachFinish (startWindow isn)"
  using receive_inv_start [of DEFAULT_TCP_RECEIVE_WINDOW_SIZE 13]
  by (simp_all add: startWindow_def) (simp_all add: synTCPReceiveWindow_def initTCPReceiveWindow_def)

lemma receiveEvents_start:
  assumes "length S + DEFAULT_TCP_RECEIVE_WINDOW_SIZE < 2 ^ 32"
  shows "case receiveEvents S isn (startWindow isn) evs of
      None \<Rightarrow> fin_overtakes S isn (startWindow isn) 0 evs
    | Some (out, rw) \<Rightarrow> concat (map snd out) = take (length (concat (map snd out))) S \<and>
        map fst out @ map rbRequest (requests rw) = readers evs \<and>
        (reachFinish rw \<and> sequenceFinish rw = sequenceBegin rw \<longrightarrow> concat (map snd out) = S)"
proof (cases "receiveEvents S isn (startWindow isn) evs")
  case None
  then show ?thesis using receiveEvents_inv [OF startWindow_inv(1,2), of S isn evs] assms startWindow_inv(3,5) by simp
next
  case (Some p)
  obtain out rw where p: "p = (out, rw)" by (cases p)
  then have "\<exists>m. concat (map snd out) = take m S \<and> length (concat (map snd out)) = m \<and> receive_inv S isn m rw \<and>
    map fst out @ map rbRequest (requests rw) = readers evs"
    using receiveEvents_inv [OF startWindow_inv(1,2), of S isn evs] Some assms startWindow_inv(3,4) by simp
  then obtain m where m: "concat (map snd out) = take m S" "length (concat (map snd out)) = m" "receive_inv S isn m rw"
    "map fst out @ map rbRequest (requests rw) = readers evs"
    by (elim exE conjE)
  have "m = length S" if "reachFinish rw" "sequenceFinish rw = sequenceBegin rw"
  proof -
    have "isn + of_nat (length S) = (isn + of_nat m :: u32)" "m \<le> length S"
      using that m(3) by (auto simp: receive_inv_def)
    then show ?thesis using diff_below [of m "length S" isn] assms by (simp add: diffTCPSequence_def)
  qed
  then show ?thesis using Some p m by simp
qed

text \<open>Whatever segments of a stream arrive, in any order, repeated or partly outside the window, and whatever the
  initial sequence number, so that the sequence numbers may wrap around: the bytes given to the readers form a prefix
  of the stream, the read requests complete in the order in which they were made, once the window has reached the
  FIN packet the whole stream has been delivered; and the only history that violates an assertion is one in which
  a FIN packet overtakes data.\<close>

lemma tcp_reassembly:
  assumes "length S + DEFAULT_TCP_RECEIVE_WINDOW_SIZE < 2 ^ 32"
  shows "case receiveEvents S isn (startWindow isn) evs of
      None \<Rightarrow> fin_overtakes S isn (startWindow isn) 0 evs
    | Some (out, rw) \<Rightarrow> concat (map snd out) = take (length (concat (map snd out))) S \<and>
        map fst out @ map rbRequest (requests rw) = readers evs \<and>
        (reachFinish rw \<and> sequenceFinish rw = sequenceBegin rw \<longrightarrow> concat (map snd out) = S)"
  using assms by (rule receiveEvents_start)

text \<open>The assertion that fails when a FIN packet overtakes data: two bytes of the stream are missing when the FIN packet
  arrives, and the next segment stops the kernel.\<close>

lemma fin_overtaking_fails:
  assumes "receive_inv S isn n rw" "maximal rw" "length S + windowSize rw < 2 ^ 32" "\<not> reachFinish rw"
    "received n rw < length S" "length S \<le> n + windowSize rw"
  shows "receiveEvents S isn rw [Finish, Segment off c] = None"
proof -
  have b: "sequenceBegin rw = isn + of_nat n" "n \<le> length S" using assms(1) by (simp_all add: receive_inv_def)
  have d: "diffTCPSequence (isn + of_nat (length S)) (isn + of_nat m) = length S - m" if "m \<le> length S" for m
    using diff_below [OF that] assms(3) by simp
  show ?thesis
  proof (rule step_inv [OF assms(1-3), of Finish], goal_cases)
    case 1
    then show ?thesis using assms(4) by simp
  next
    case (2 rw1 out m rw')
    have f: "reachFinish rw1" "sequenceFinish rw1 = isn + of_nat (length S)"
      using 2(1) assms(4,6) d [OF b(2)] by (auto simp: tcpEvent_def receiveTCPSegment_def kassert_def b(1) Let_def)
    have e: "receive_inv S isn n rw1" "maximal rw1"
      using tcpEvent_inv [OF assms(1-3), of Finish] 2(1) by simp_all
    have sv: "\<exists>m'. served S isn n rw1 out m' rw'" using copyTCPReceiveBuffer_served [OF e] assms(3) 2(2) by auto
    then have rf: "reachFinish rw'" using f(1) by (auto simp: served_def)
    have i: "sequenceBegin rw' = isn + of_nat (n + m)" "sequenceFinish rw' = isn + of_nat (length S)" "n + m \<le> length S"
      using 2(5) rf by (simp_all add: receive_inv_def)
    have "\<not> diffTCPSequence (sequenceFinish rw') (sequenceBegin rw') \<le> sequenceLength rw'"
      unfolding i(1,2) d [OF i(3)] using 2(10) assms(5) by simp
    then have "tcpEvent S isn rw' (Segment off c) = None"
      using rf by (simp add: tcpEvent_def receiveTCPSegment_def kassert_def)
    then show ?thesis using 2(1,2) by simp
  qed
qed

section \<open>Segments are not lost\<close>

lemma setTCPReceiveData_hasData:
  "hasData (setTCPReceiveData rw s b) i \<longleftrightarrow> i = slot rw s \<or> hasData rw i"
  "sequenceBegin (setTCPReceiveData rw s b) = sequenceBegin rw" "windowSize (setTCPReceiveData rw s b) = windowSize rw"
  "slot (setTCPReceiveData rw s b) = slot rw"
  by (auto simp: setTCPReceiveData_def Let_def slot_def fun_eq_iff)

lemma copyBytes_keeps: "hasData rw i \<Longrightarrow> hasData (copyBytes rw s bs) i"
  by (induction rw s bs rule: copyBytes.induct) (simp_all add: Let_def setTCPReceiveData_hasData)

lemma copyBytes_hasData:
  assumes "sequenceBegin rw = isn + of_nat n" "off \<le> q" "q < off + length bs" "n \<le> q" "q < n + windowSize rw" "q < 2 ^ 32"
  shows "hasData (copyBytes rw (isn + of_nat off) bs) (slot rw (isn + of_nat q))"
  using assms
proof (induction bs arbitrary: off rw)
  case (Cons b bs)
  let ?s = "isn + of_nat off"
  let ?rw = "if windowSize rw \<le> diffTCPSequence ?s (sequenceBegin rw) then rw else setTCPReceiveData rw ?s b"
  have r: "copyBytes rw ?s (b # bs) = copyBytes ?rw (isn + of_nat (Suc off)) bs"
    by (simp add: Let_def addTCPSequence_def algebra_simps)
  have w: "sequenceBegin ?rw = sequenceBegin rw" "windowSize ?rw = windowSize rw" "slot ?rw = slot rw"
    by (simp_all add: setTCPReceiveData_hasData)
  show ?case
  proof (cases "off = q")
    case True
    then have "diffTCPSequence ?s (sequenceBegin rw) = q - n" using Cons.prems diff_below [of n q isn] by simp
    then have "hasData ?rw (slot rw ?s)" using Cons.prems by (auto simp: setTCPReceiveData_hasData)
    then show ?thesis unfolding r True [symmetric] by (rule copyBytes_keeps)
  next
    case False
    then have "hasData (copyBytes ?rw (isn + of_nat (Suc off)) bs) (slot ?rw (isn + of_nat q))"
      by (intro Cons.IH) (use Cons.prems w in simp_all)
    then show ?thesis unfolding r w .
  qed
qed simp

lemma extendWindow_hasData: "hasData (extendWindow l rw) = hasData rw"
proof (induction l rw rule: extendWindow.induct)
  case (1 l rw)
  show ?case
  proof (cases "sequenceLength rw < l \<and> hasTCPReceiveData rw (addTCPSequence (sequenceBegin rw) (sequenceLength rw))")
    case True
    then show ?thesis unfolding extendWindow_step [OF True] using 1 by simp
  next
    case False
    show ?thesis by (simp only: extendWindow_stop [OF False])
  qed
qed

lemma segment_received:
  assumes inv: "receive_inv S isn n rw" and W: "length S + windowSize rw < 2 ^ 32" and s: "off + length bs \<le> length S"
    "bs = take (length bs) (drop off S)" and w: "off \<le> received n rw" "off + length bs \<le> n + windowSize rw"
  defines "rw' \<equiv> snd (copyTCPReceiveWindow rw (isn + of_nat off) bs)"
  shows "off + length bs \<le> received n rw'"
proof (rule ccontr)
  note i = copyTCPReceiveWindow_inv [OF inv W s, folded rw'_def]
  let ?q = "received n rw'"
  assume n: "\<not> off + length bs \<le> ?q"
  then have q: "off \<le> ?q" "?q < off + length bs" using w(1) i(4) by simp_all
  have b: "sequenceBegin rw = isn + of_nat n" "sequenceBegin rw' = isn + of_nat n" using inv i(1) by (simp_all add: receive_inv_def)
  have sl: "slot rw' = slot rw" "windowSize rw' = windowSize rw" using i(2) by (auto simp: same_window_def slot_def fun_eq_iff)
  have "hasData (copyBytes rw (isn + of_nat off) bs) (slot rw (isn + of_nat ?q))"
    by (rule copyBytes_hasData [OF b(1) q]) (use q(2) w(2) s(1) W in simp_all)
  then have "hasData rw' (slot rw (isn + of_nat ?q))"
    by (simp add: rw'_def copyTCPReceiveWindow_def Let_def extendWindow_hasData)
  moreover have "sequenceLength rw' < windowSize rw'" using q(2) w(2) sl(2) by simp
  ultimately show False using i(3) b(2) by (simp add: maximal_def hasTCPReceiveData_def addTCPSequence_def sl(1) add.assoc)
qed

lemma receiveEvents_append:
  "receiveEvents S isn rw (xs @ ys) = do {
    (out, rw) \<leftarrow> receiveEvents S isn rw xs;
    (outs, rw) \<leftarrow> receiveEvents S isn rw ys;
    Some (out @ outs, rw)
  }"
proof (induction xs arbitrary: rw)
  case Nil
  show ?case by (cases "receiveEvents S isn rw ys") auto
next
  case (Cons x xs)
  show ?case
    by (cases "tcpEvent S isn rw x"; cases "copyTCPReceiveBuffer (the (tcpEvent S isn rw x))")
      (auto simp: Cons.IH bind_assoc split: prod.splits bind_splits)
qed

text \<open>No segment is lost. After any history without a FIN packet, a segment that begins at or before the end of the
  bytes received so far and ends within the window is accepted, and the acknowledgement number then covers it.\<close>

lemma tcp_segment_acknowledged:
  assumes "length S + DEFAULT_TCP_RECEIVE_WINDOW_SIZE < 2 ^ 32"
    "receiveEvents S isn (startWindow isn) evs = Some (out, rw)" "\<not> reachFinish rw"
    "off \<le> length (concat (map snd out)) + sequenceLength rw" "off + c \<le> length S"
    "off + c \<le> length (concat (map snd out)) + DEFAULT_TCP_RECEIVE_WINDOW_SIZE"
  shows "\<exists>out' rw' m. receiveEvents S isn (startWindow isn) (evs @ [Segment off c]) = Some (out', rw') \<and>
    ackNumber (getTCPReceiveACK rw') = isn + of_nat m \<and> off + c \<le> m \<and> m \<le> length S"
proof -
  define n where "n = length (concat (map snd out))"
  have "\<exists>m. concat (map snd out) = take m S \<and> length (concat (map snd out)) = m \<and> receive_inv S isn m rw \<and> maximal rw \<and>
    windowSize rw = 8192"
    using receiveEvents_inv [OF startWindow_inv(1,2), of S isn evs] assms(1,2) startWindow_inv(3,4) by simp
  then have i: "receive_inv S isn n rw" "maximal rw" "windowSize rw = 8192" by (simp_all add: n_def)
  let ?bs = "take c (drop off S)"
  have bs: "length ?bs = c" using assms(5) by simp
  have W: "length S + windowSize rw < 2 ^ 32" using assms(1) i(3) by simp
  show ?thesis
  proof (rule step_inv [OF i(1,2) W, of "Segment off c"], goal_cases)
    case 1
    then show ?thesis using assms(3) by simp
  next
    case (2 rw1 out' m rw')
    have "rw1 = snd (copyTCPReceiveWindow rw (isn + of_nat off) ?bs)"
      using 2(1) assms(3) by (simp add: tcpEvent_def receiveTCPSegment_def kassert_def)
    then have "off + c \<le> received n rw1"
      using segment_received [OF i(1) W, of off ?bs] bs assms(4-6) i(3) by (simp add: n_def)
    then have "off + c \<le> received (n + m) rw'" using 2(12) by simp
    moreover have "received (n + m) rw' \<le> length S" "sequenceBegin rw' = isn + of_nat (n + m)" using 2(5) by (simp_all add: receive_inv_def)
    moreover have "\<not> reachFinish rw'" using 2(9) assms(3) by simp
    ultimately have "ackNumber (getTCPReceiveACK rw') = isn + of_nat (received (n + m) rw') \<and> off + c \<le> received (n + m) rw' \<and> received (n + m) rw' \<le> length S"
      by (simp add: getTCPReceiveACK_def addTCPSequence_def Let_def add.assoc)
    moreover have "receiveEvents S isn (startWindow isn) (evs @ [Segment off c]) = Some (out @ out', rw')"
      unfolding receiveEvents_append assms(2) using 2(1,2) by simp
    ultimately show ?thesis by blast
  qed
qed

end
