(* ===== verification/TcpTransmit.thy ===== *)
theory TcpTransmit
  imports TcpReceive
begin

text \<open>
  The transmit window of a TCP socket, \<open>kernel/io/network/tcp.c\<close>: the buffers that have been written and not yet
  acknowledged, the position of the next byte to transmit, and the counter of retransmissions. The queue of buffers
  is the list of the entries before its sentinel \<open>tail\<close>; the pointer \<open>current\<close> is an index into that list, and the
  length of the list stands for the sentinel. Sizes are natural numbers below \<open>2 ^ 32\<close>; where the code subtracts them
  without a check, the difference is that of 32-bit words. An access outside a buffer has the result \<open>None\<close>.
\<close>

definition usub :: "nat \<Rightarrow> nat \<Rightarrow> nat" where
  "usub a b = unat (of_nat a - of_nat b :: u32)"

record TCPTransmitBuffer =
  tbBegin :: u32
  tbData :: "u8 list"
  isFIN :: bool

definition tbSize :: "TCPTransmitBuffer \<Rightarrow> nat" where
  "tbSize tb = unat (of_nat (length (tbData tb)) :: u32)"

lemma tbSize_bounds: "tbSize tb < 2 ^ 32" "tbSize tb \<le> length (tbData tb)"
  using unsigned_less [of "of_nat (length (tbData tb)) :: u32", where 'a = nat]
  by (simp_all add: tbSize_def unsigned_of_nat take_bit_nat_def)

definition createTCPTransmitBuffer :: "u8 list \<Rightarrow> u32 \<Rightarrow> bool \<Rightarrow> TCPTransmitBuffer" where
  "createTCPTransmitBuffer data seqNumber fin = \<lparr>tbBegin = seqNumber, tbData = data, isFIN = fin\<rparr>"

text \<open>\<open>tail\<close> holds the sentinel: its \<open>isFIN\<close> is never initialised by the code, so its value is that of the allocated memory.\<close>

record TCPTransmitWindow =
  twBegin :: u32
  scaledWindowSize :: nat
  windowScale :: nat
  maxSegmentSize :: nat
  buffers :: "TCPTransmitBuffer list"
  tail :: TCPTransmitBuffer
  current :: nat
  currentSequence :: u32

definition entry :: "TCPTransmitWindow \<Rightarrow> nat \<Rightarrow> TCPTransmitBuffer" where
  "entry tw i = (if i < length (buffers tw) then buffers tw ! i else tail tw)"

definition initTCPTransmitWindow :: "bool \<Rightarrow> u32 \<Rightarrow> TCPTransmitWindow" where
  "initTCPTransmitWindow memory seqBegin = \<lparr>twBegin = seqBegin, scaledWindowSize = 2, windowScale = 0, maxSegmentSize = 576,
    buffers = [], tail = \<lparr>tbBegin = seqBegin, tbData = [], isFIN = memory\<rparr>, current = 0, currentSequence = seqBegin\<rparr>"

definition pushTCPTransmitBuffer :: "bool \<Rightarrow> TCPTransmitWindow \<Rightarrow> u8 list \<Rightarrow> bool \<Rightarrow> (bool \<times> TCPTransmitWindow) option" where
  "pushTCPTransmitBuffer memoryOK tw data fin =
    (if \<not> memoryOK then Some (False, tw) else do {
       let tb = createTCPTransmitBuffer data (tbBegin (tail tw)) fin;
       let atTail = (current tw = length (buffers tw));
       let tw = tw\<lparr>buffers := buffers tw @ [tb], tail := (tail tw)\<lparr>tbBegin := addTCPSequence (tbBegin tb) (length data)\<rparr>\<rparr>;
       kassert (atTail \<longrightarrow> currentSequence tw = tbBegin tb);
       Some (True, tw)
     })"

definition popTCPTransmitBuffer :: "TCPTransmitWindow \<Rightarrow> TCPTransmitWindow option" where
  "popTCPTransmitBuffer tw = do {
    kassert (buffers tw \<noteq> []);
    Some (if current tw = 0
      then tw\<lparr>buffers := tl (buffers tw), currentSequence := tbBegin (entry tw 1)\<rparr>
      else tw\<lparr>buffers := tl (buffers tw), current := current tw - 1\<rparr>)
  }"

definition hasTCPTransmitBuffer :: "TCPTransmitWindow \<Rightarrow> bool" where
  "hasTCPTransmitBuffer tw \<longleftrightarrow> buffers tw \<noteq> []"

definition getTCPTransmitRemainSize :: "TCPTransmitWindow \<Rightarrow> nat" where
  "getTCPTransmitRemainSize tw =
    (let currDiff = diffTCPSequence (currentSequence tw) (twBegin tw) in
     if currDiff \<ge> scaledWindowSize tw then 0
     else min (scaledWindowSize tw - currDiff) (diffTCPSequence (tbBegin (tail tw)) (currentSequence tw)))"

text \<open>The successor of the sentinel is NULL.\<close>

definition addTCPTransmitSequence :: "TCPTransmitWindow \<Rightarrow> nat \<Rightarrow> TCPTransmitWindow option" where
  "addTCPTransmitSequence tw addSeq =
    (let tw = tw\<lparr>currentSequence := addTCPSequence (currentSequence tw) addSeq\<rparr>;
         c = entry tw (current tw) in
     if tbSize c = diffTCPSequence (currentSequence tw) (tbBegin c) then do {
       kassert (current tw < length (buffers tw));
       let tw = tw\<lparr>current := current tw + 1\<rparr>;
       kassert (tbBegin (entry tw (current tw)) = currentSequence tw);
       Some tw
     } else Some tw)"

definition rollbackTCPTransmitSequence :: "TCPTransmitWindow \<Rightarrow> TCPTransmitWindow" where
  "rollbackTCPTransmitSequence tw = tw\<lparr>current := 0, currentSequence := twBegin tw\<rparr>"

text \<open>One round of the loop of \<open>copyTCPTransmitBuffer\<close>: the bytes it copies, when \<open>n > 0\<close> bytes may still be copied.
  When the offset is beyond the size of the buffer, their difference wraps around and \<open>memcpy\<close> reads outside of the
  buffer.\<close>

definition copyStep :: "nat \<Rightarrow> TCPTransmitWindow \<Rightarrow> (u8 list \<times> TCPTransmitWindow) option" where
  "copyStep n tw =
    (let c = entry tw (current tw);
         currentOffset = diffTCPSequence (currentSequence tw) (tbBegin c);
         copySize = min n (tbSize c - currentOffset) in do {
     kassert (currentOffset \<le> tbSize c);
     tw \<leftarrow> addTCPTransmitSequence tw copySize;
     Some (take copySize (drop currentOffset (tbData c)), tw)
   })"

lemma addTCPTransmitSequence_SomeD:
  assumes "addTCPTransmitSequence tw k = Some tw'"
  shows "buffers tw' = buffers tw" "tail tw' = tail tw" "twBegin tw' = twBegin tw" "maxSegmentSize tw' = maxSegmentSize tw"
    "scaledWindowSize tw' = scaledWindowSize tw" "currentSequence tw' = addTCPSequence (currentSequence tw) k"
    "current tw' = (if tbSize (entry tw (current tw)) = diffTCPSequence (addTCPSequence (currentSequence tw) k) (tbBegin (entry tw (current tw)))
      then current tw + 1 else current tw)"
    "current tw' \<noteq> current tw \<Longrightarrow> current tw < length (buffers tw)"
  using assms by (auto simp: addTCPTransmitSequence_def Let_def entry_def kassert_def split: if_splits)

lemma copyStep_SomeD:
  assumes "copyStep n tw = Some (bs, tw')"
  shows "length bs \<le> n" "\<exists>k. addTCPTransmitSequence tw k = Some tw' \<and> length bs = k"
    "0 < n \<Longrightarrow> bs = [] \<Longrightarrow> length (buffers tw') - current tw' < length (buffers tw) - current tw"
proof -
  let ?c = "entry tw (current tw)"
  let ?o = "diffTCPSequence (currentSequence tw) (tbBegin ?c)"
  let ?k = "min n (tbSize ?c - ?o)"
  have a: "addTCPTransmitSequence tw ?k = Some tw'" and o: "?o \<le> tbSize ?c" and bs: "bs = take ?k (drop ?o (tbData ?c))"
    using assms by (auto simp: copyStep_def Let_def split: bind_splits)
  have l: "length bs = ?k" using o tbSize_bounds(2) [of ?c] unfolding bs by simp
  then show "length bs \<le> n" "\<exists>k. addTCPTransmitSequence tw k = Some tw' \<and> length bs = k" using a by auto
  assume n: "0 < n" "bs = []"
  then have k: "?k = 0" using l by simp
  then have "tbSize ?c = ?o" using o n(1) by (simp add: min_def split: if_splits)
  moreover have "addTCPSequence (currentSequence tw) ?k = currentSequence tw" using k by (simp add: addTCPSequence_def)
  ultimately have "current tw' = current tw + 1"
    using addTCPTransmitSequence_SomeD(7) [OF a] by simp
  then show "length (buffers tw') - current tw' < length (buffers tw) - current tw"
    using addTCPTransmitSequence_SomeD(1,8) [OF a] by simp
qed

function copyLoop :: "nat \<Rightarrow> TCPTransmitWindow \<Rightarrow> (u8 list \<times> TCPTransmitWindow) option" where
  "copyLoop n tw =
    (if 0 < n \<and> \<not> isFIN (entry tw (current tw)) then
       (case copyStep n tw of
          None \<Rightarrow> None
        | Some (bs, tw') \<Rightarrow> map_option (\<lambda>(bs', tw). (bs @ bs', tw)) (copyLoop (n - length bs) tw'))
     else Some ([], tw))"
  by pat_completeness auto
termination
proof (relation "measures [\<lambda>(n, tw). n, \<lambda>(n, tw). length (buffers tw) - current tw]", goal_cases)
  case (2 n tw p bs tw')
  then show ?case using copyStep_SomeD [of n tw bs tw'] by (cases "bs = []") auto
qed simp

declare copyLoop.simps [simp del]

definition copyTCPTransmitBuffer :: "TCPTransmitWindow \<Rightarrow> nat \<Rightarrow> (u8 list \<times> TCPTransmitWindow) option" where
  "copyTCPTransmitBuffer tw bufferSize =
    (let maxCopySize = getTCPTransmitRemainSize tw;
         maxCopySize = min maxCopySize bufferSize;
         maxCopySize = min maxCopySize (maxSegmentSize tw) in
     copyLoop maxCopySize tw)"

abbreviation (input) MAX_TCP_WINDOW_SIZE :: nat where
  "MAX_TCP_WINDOW_SIZE \<equiv> 65535"

function ackLoop :: "TCPTransmitWindow \<Rightarrow> nat \<Rightarrow> (nat \<times> TCPTransmitWindow) option" where
  "ackLoop tw ackDiff =
    (if hasTCPTransmitBuffer tw \<and> ackDiff \<noteq> 0 then
       let h = hd (buffers tw);
           headOffset = diffTCPSequence (twBegin tw) (tbBegin h);
           ackSize = min (usub (tbSize h) headOffset) ackDiff;
           tw' = tw\<lparr>twBegin := addTCPSequence (twBegin tw) ackSize\<rparr> in
       if tbSize h = diffTCPSequence (twBegin tw') (tbBegin h)
       then (case popTCPTransmitBuffer tw' of None \<Rightarrow> None | Some tw' \<Rightarrow> ackLoop tw' (ackDiff - ackSize))
       else ackLoop tw' (ackDiff - ackSize)
     else Some (ackDiff, tw))"
  by pat_completeness auto
termination
proof (relation "measures [\<lambda>(tw, n). length (buffers tw), \<lambda>(tw, n). n]", goal_cases)
  case (2 tw n h ho k tw' tw'')
  then show ?case by (auto simp: popTCPTransmitBuffer_def hasTCPTransmitBuffer_def kassert_def split: if_splits)
next
  case (3 tw n h ho k tw')
  have "k \<noteq> 0"
  proof
    assume k: "k = 0"
    then have "usub (tbSize h) ho = 0" using 3 by (simp add: min_def split: if_splits)
    then have "of_nat (tbSize h) = (of_nat ho :: u32)" by (simp add: usub_def unsigned_eq_0_iff)
    then have "unat (of_nat (tbSize h) :: u32) = unat (of_nat ho :: u32)" by simp
    then have "tbSize h = ho" using 3(3) by (simp add: tbSize_def diffTCPSequence_def)
    then show False using 3 k by (simp add: addTCPSequence_def)
  qed
  then show ?case using 3 by simp
qed simp

declare ackLoop.simps [simp del]

definition ackTransmitWindow :: "TCPTransmitWindow \<Rightarrow> u32 \<Rightarrow> (nat \<times> TCPTransmitWindow) option" where
  "ackTransmitWindow tw ack =
    (let totalACKSize = diffTCPSequence ack (twBegin tw) in
     if totalACKSize > MAX_TCP_WINDOW_SIZE then Some (0, tw)
     else do {
       (ackDiff, tw) \<leftarrow> ackLoop tw totalACKSize;
       tw \<leftarrow> (if ackDiff \<noteq> 0 then do {
           kassert (current tw = length (buffers tw) \<and> buffers tw = []);
           Some (tw\<lparr>twBegin := ack, tail := (tail tw)\<lparr>tbBegin := ack\<rparr>, currentSequence := ack\<rparr>)
         } else Some tw);
       kassert (twBegin tw = ack);
       Some (totalACKSize, tw)
     })"

function destroyTCPTransmitWindow :: "TCPTransmitWindow \<Rightarrow> TCPTransmitWindow option" where
  "destroyTCPTransmitWindow tw = (if hasTCPTransmitBuffer tw
    then (case popTCPTransmitBuffer tw of None \<Rightarrow> None | Some tw \<Rightarrow> destroyTCPTransmitWindow tw)
    else Some tw)"
  by pat_completeness auto
termination
  by (relation "measure (\<lambda>tw. length (buffers tw))")
    (auto simp: popTCPTransmitBuffer_def hasTCPTransmitBuffer_def kassert_def split: if_splits)

declare destroyTCPTransmitWindow.simps [simp del]

section \<open>Transmission\<close>

text \<open>What a packet carries besides the ports.\<close>

record TCPSegment =
  sequenceNumber :: u32
  acknowledgeNumber :: u32
  advertisedSize :: u16
  segFIN :: bool
  payload :: "u8 list"

text \<open>The order in which the window proceeds: to a later buffer, or within the current one.\<close>

definition left :: "TCPTransmitWindow \<Rightarrow> nat" where
  "left tw = tbSize (entry tw (current tw)) - diffTCPSequence (currentSequence tw) (tbBegin (entry tw (current tw)))"

definition ahead :: "TCPTransmitWindow \<Rightarrow> TCPTransmitWindow \<Rightarrow> bool" where
  "ahead tw' tw \<longleftrightarrow> length (buffers tw') - current tw' < length (buffers tw) - current tw \<or>
    length (buffers tw') - current tw' = length (buffers tw) - current tw \<and> left tw' < left tw"

lemma ahead_trans: "ahead tw3 tw2 \<Longrightarrow> ahead tw2 tw1 \<Longrightarrow> ahead tw3 tw1"
  by (auto simp: ahead_def)

lemma addTCPTransmitSequence_ahead:
  assumes "addTCPTransmitSequence tw k = Some tw'"
    "diffTCPSequence (currentSequence tw) (tbBegin (entry tw (current tw))) + k \<le> tbSize (entry tw (current tw))"
    "0 < k \<or> current tw' \<noteq> current tw"
  shows "ahead tw' tw"
proof (cases "current tw' = current tw")
  case False
  then show ?thesis using addTCPTransmitSequence_SomeD(1,7,8) [OF assms(1)] by (auto simp: ahead_def)
next
  case True
  let ?c = "entry tw (current tw)"
  let ?o = "diffTCPSequence (currentSequence tw) (tbBegin ?c)"
  have e: "entry tw' = entry tw" using addTCPTransmitSequence_SomeD(1,2) [OF assms(1)] by (simp add: entry_def fun_eq_iff)
  have "diffTCPSequence (addTCPSequence (currentSequence tw) k) (tbBegin ?c) = unat (of_nat (?o + k) :: u32)"
    by (simp add: diffTCPSequence_def addTCPSequence_def diff_add_eq)
  also have "\<dots> = ?o + k" using assms(2) tbSize_bounds(1) [of ?c] unat_of_nat_small [of "?o + k", where 'a = 32] by simp
  finally have d: "diffTCPSequence (currentSequence tw') (tbBegin ?c) = ?o + k"
    using addTCPTransmitSequence_SomeD(6) [OF assms(1)] by simp
  have "left tw' < left tw" using assms(2,3) True unfolding left_def e True d by simp
  then show ?thesis using True addTCPTransmitSequence_SomeD(1) [OF assms(1)] by (simp add: ahead_def)
qed

lemma copyStep_ahead:
  assumes "copyStep n tw = Some (bs, tw')" "0 < n"
  shows "ahead tw' tw"
proof -
  let ?c = "entry tw (current tw)"
  let ?o = "diffTCPSequence (currentSequence tw) (tbBegin ?c)"
  let ?k = "min n (tbSize ?c - ?o)"
  have a: "addTCPTransmitSequence tw ?k = Some tw'" and o: "?o \<le> tbSize ?c"
    using assms(1) by (auto simp: copyStep_def Let_def split: bind_splits)
  have ok: "?o + ?k \<le> tbSize ?c" using o by linarith
  show ?thesis
  proof (cases "?k = 0")
    case True
    then have "current tw' = current tw + 1"
      using o assms(2) addTCPTransmitSequence_SomeD(7) [OF a] by (simp add: addTCPSequence_def min_def split: if_splits)
    then show ?thesis using addTCPTransmitSequence_ahead [OF a ok] by simp
  next
    case False
    then show ?thesis using addTCPTransmitSequence_ahead [OF a ok] by simp
  qed
qed

lemma copyStep_same:
  assumes "copyStep n tw = Some (bs, tw')"
  shows "buffers tw' = buffers tw" "tail tw' = tail tw" "twBegin tw' = twBegin tw" "maxSegmentSize tw' = maxSegmentSize tw"
    "scaledWindowSize tw' = scaledWindowSize tw"
  using copyStep_SomeD(2) [OF assms] addTCPTransmitSequence_SomeD(1-5) by blast+

lemma copyLoop_ahead:
  assumes "copyLoop n tw = Some (bs, tw')"
  shows "(bs = [] \<and> tw' = tw) \<or> ahead tw' tw"
  using assms
proof (induction n tw arbitrary: bs tw' rule: copyLoop.induct)
  case (1 n tw)
  show ?case
  proof (cases "0 < n \<and> \<not> isFIN (entry tw (current tw))")
    case True
    then obtain bs1 tw1 bs2 where s: "copyStep n tw = Some (bs1, tw1)" "copyLoop (n - length bs1) tw1 = Some (bs2, tw')"
      using 1(2) by (subst (asm) copyLoop.simps) (auto split: option.splits)
    then have "tw' = tw1 \<or> ahead tw' tw1" using 1(1) [OF True s(1) refl] by auto
    then show ?thesis using copyStep_ahead [OF s(1)] True ahead_trans by blast
  next
    case False
    then show ?thesis using 1(2) by (subst (asm) copyLoop.simps) (simp only: if_False, simp)
  qed
qed

definition transmitTCPDataPacket ::
  "bool \<Rightarrow> TCPReceiveWindowACK \<Rightarrow> nat \<Rightarrow> bool \<Rightarrow> TCPTransmitWindow \<Rightarrow> (bool \<times> TCPSegment list \<times> nat \<times> TCPTransmitWindow) option" where
  "transmitTCPDataPacket writeOK rwa rawBufferSize mustTransmit tw = do {
    let s = currentSequence tw;
    (data, tw) \<leftarrow> copyTCPTransmitBuffer tw (rawBufferSize - 20);
    Some (if \<not> mustTransmit \<and> data = [] then (True, [], 0, tw)
      else let p = \<lparr>sequenceNumber = s, acknowledgeNumber = ackNumber rwa, advertisedSize = windowRemainSize rwa,
             segFIN = False, payload = data\<rparr> in
        if writeOK then (True, [p], length data, tw) else (False, [p], 0, tw))
  }"

definition transmitTCPFINPacket ::
  "bool \<Rightarrow> TCPReceiveWindowACK \<Rightarrow> TCPTransmitWindow \<Rightarrow> (bool \<times> TCPSegment list \<times> nat \<times> TCPTransmitWindow) option" where
  "transmitTCPFINPacket writeOK rwa tw = do {
    let p = \<lparr>sequenceNumber = currentSequence tw, acknowledgeNumber = ackNumber rwa, advertisedSize = windowRemainSize rwa,
      segFIN = True, payload = []\<rparr>;
    let c = entry tw (current tw);
    kassert (isFIN c \<and> tbSize c = 1 \<and> current tw + 1 = length (buffers tw));
    tw \<leftarrow> addTCPTransmitSequence tw (tbSize c);
    kassert (current tw = length (buffers tw));
    Some (writeOK, [p], tbSize c, tw)
  }"

lemma transmitTCPFINPacket_ahead:
  assumes "transmitTCPFINPacket ok rwa tw = Some (r, ps, k, tw')"
  shows "ahead tw' tw"
proof -
  have "current tw + 1 = length (buffers tw)" "buffers tw' = buffers tw" "current tw' = length (buffers tw')"
    using assms by (auto simp: transmitTCPFINPacket_def Let_def dest: addTCPTransmitSequence_SomeD(1) split: bind_splits)
  then show ?thesis by (simp add: ahead_def)
qed

text \<open>The loop of \<open>transmitTCP\<close>. \<open>writeOK i\<close> tells whether the packet with number \<open>i\<close> could be written. The result
  is the success, the packets given to the raw socket, the sequence numbers they take and the window.\<close>

function transmitLoop :: "(nat \<Rightarrow> bool) \<Rightarrow> TCPReceiveWindowACK \<Rightarrow> nat \<Rightarrow> nat \<Rightarrow> bool \<Rightarrow> TCPTransmitWindow \<Rightarrow>
    (bool \<times> TCPSegment list \<times> nat \<times> nat \<times> TCPTransmitWindow) option" where
  "transmitLoop writeOK rwa rawBufferSize packetCount mustTransmit tw =
    (if mustTransmit \<or> current tw \<noteq> length (buffers tw) then
       (case (if isFIN (entry tw (current tw)) then transmitTCPFINPacket (writeOK packetCount) rwa tw
              else transmitTCPDataPacket (writeOK packetCount) rwa rawBufferSize mustTransmit tw) of
          None \<Rightarrow> None
        | Some (ok, ps, seqDiff, tw') \<Rightarrow>
            if \<not> ok then Some (False, ps, 0, packetCount, tw')
            else if \<not> isFIN (entry tw (current tw)) \<and> \<not> mustTransmit \<and> seqDiff = 0 then Some (True, ps, 0, packetCount, tw')
            else map_option (\<lambda>(ok, ps', d, n, tw). (ok, ps @ ps', seqDiff + d, n, tw))
              (transmitLoop writeOK rwa rawBufferSize (packetCount + 1) False tw'))
     else Some (True, [], 0, packetCount, tw))"
  by pat_completeness auto
termination
proof (relation "measures [\<lambda>(w, r, z, n, must, tw). if must then 1 else 0, \<lambda>(w, r, z, n, must, tw). length (buffers tw) - current tw,
    \<lambda>(w, r, z, n, must, tw). left tw]", goal_cases)
  case (2 w r z n must tw p ok q ps q' d tw')
  have "must \<or> ahead tw' tw"
  proof (cases "isFIN (entry tw (current tw))")
    case True
    then show ?thesis using 2 transmitTCPFINPacket_ahead by auto
  next
    case False
    then have t: "transmitTCPDataPacket (w n) r z must tw = Some (ok, ps, d, tw')" using 2 by simp
    show ?thesis
    proof (rule disjCI)
      assume "\<not> ahead tw' tw"
      moreover obtain bs where "copyTCPTransmitBuffer tw (z - 20) = Some (bs, tw')" "d = 0 \<or> bs \<noteq> []"
        using t by (auto simp: transmitTCPDataPacket_def Let_def split: bind_splits if_splits)
      ultimately have "d = 0" using copyLoop_ahead by (auto simp: copyTCPTransmitBuffer_def Let_def)
      then show must using 2 False by simp
    qed
  qed
  then show ?case by (auto simp: ahead_def)
qed simp

declare transmitLoop.simps [simp del]

section \<open>The window over the written stream\<close>

text \<open>The position in the stream where buffer \<open>i\<close> begins, when the first one begins at \<open>p\<close>.\<close>

definition start :: "nat \<Rightarrow> TCPTransmitWindow \<Rightarrow> nat \<Rightarrow> nat" where
  "start p tw i = p + length (concat (map tbData (take i (buffers tw))))"

text \<open>A position within the buffer \<open>i\<close>: before its end unless the buffer is empty, or it is the sentinel.\<close>

definition inside :: "nat \<Rightarrow> TCPTransmitWindow \<Rightarrow> nat \<Rightarrow> nat \<Rightarrow> bool" where
  "inside p tw i c \<longleftrightarrow> start p tw i \<le> c \<and> (c < start p tw (Suc i) \<or> start p tw i = start p tw (Suc i) \<and> c = start p tw i)"

text \<open>Everything that has been written: the bytes \<open>S\<close>, and the byte that stands for the FIN packet when the socket is closed.\<close>

definition written :: "u8 list \<Rightarrow> bool \<Rightarrow> u8 list" where
  "written S fin = S @ (if fin then [63] else [])"

abbreviation (input) MAX_STREAM :: nat where
  "MAX_STREAM \<equiv> 3 * 2 ^ 30"

text \<open>The buffers hold the stream from \<open>p\<close> on, \<open>a\<close> bytes are acknowledged and \<open>c\<close> is the next to transmit. A buffer is
  a FIN buffer exactly when it is the last one of a closed socket.\<close>

definition transmit_inv :: "u8 list \<Rightarrow> bool \<Rightarrow> u32 \<Rightarrow> nat \<Rightarrow> nat \<Rightarrow> nat \<Rightarrow> TCPTransmitWindow \<Rightarrow> bool" where
  "transmit_inv S fin isn p a c tw \<longleftrightarrow>
    length (written S fin) < MAX_STREAM \<and> scaledWindowSize tw \<le> 2 ^ 30 \<and> windowScale tw \<le> 14 \<and>
    twBegin tw = isn + of_nat a \<and> currentSequence tw = isn + of_nat c \<and>
    tbBegin (tail tw) = isn + of_nat (length (written S fin)) \<and> tbData (tail tw) = [] \<and> \<not> isFIN (tail tw) \<and>
    p \<le> a \<and> a \<le> length (written S fin) \<and> (buffers tw \<noteq> [] \<longrightarrow> inside p tw 0 a) \<and>
    concat (map tbData (buffers tw)) = drop p (written S fin) \<and>
    (\<forall>i<length (buffers tw). tbBegin (buffers tw ! i) = isn + of_nat (start p tw i) \<and>
      (isFIN (buffers tw ! i) \<longleftrightarrow> fin \<and> Suc i = length (buffers tw)) \<and> (isFIN (buffers tw ! i) \<longrightarrow> length (tbData (buffers tw ! i)) = 1)) \<and>
    current tw \<le> length (buffers tw) \<and> inside p tw (current tw) c"

lemma start_0 [simp]: "start p tw 0 = p"
  by (simp add: start_def)

lemma start_Suc: "i < length (buffers tw) \<Longrightarrow> start p tw (Suc i) = start p tw i + length (tbData (buffers tw ! i))"
  by (simp add: start_def take_Suc_conv_app_nth)

lemma start_ge: "length (buffers tw) \<le> i \<Longrightarrow> start p tw i = p + length (concat (map tbData (buffers tw)))"
  by (simp add: start_def)

lemma start_mono: "i \<le> j \<Longrightarrow> start p tw i \<le> start p tw j"
proof -
  assume "i \<le> j"
  then obtain k where "j = i + k" by (metis le_iff_add)
  then show ?thesis by (simp add: start_def take_add)
qed

lemma start_le:
  assumes "transmit_inv S fin isn p a c tw"
  shows "start p tw i \<le> length (written S fin)" "start p tw (length (buffers tw)) = length (written S fin)"
proof -
  have "p \<le> length (written S fin)" "length (concat (map tbData (buffers tw))) = length (written S fin) - p"
    using assms by (simp_all add: transmit_inv_def)
  then show e: "start p tw (length (buffers tw)) = length (written S fin)" by (simp add: start_def)
  show "start p tw i \<le> length (written S fin)"
  proof (cases "i \<le> length (buffers tw)")
    case True
    then show ?thesis using start_mono [OF True, of p tw] e by simp
  qed (use start_ge [of tw i p] e in \<open>simp add: start_ge\<close>)
qed

lemma buffer_size:
  assumes "transmit_inv S fin isn p a c tw" "i < length (buffers tw)"
  shows "tbSize (buffers tw ! i) = length (tbData (buffers tw ! i))"
proof -
  have "length (tbData (buffers tw ! i)) \<le> start p tw (Suc i)" using start_Suc [OF assms(2)] by simp
  also have "\<dots> < 2 ^ 32" using start_le(1) [OF assms(1), of "Suc i"] assms(1) by (simp add: transmit_inv_def)
  finally show ?thesis using unat_of_nat_small [of "length (tbData (buffers tw ! i))", where 'a = 32] by (simp add: tbSize_def)
qed

text \<open>The contents of the buffers are those of the stream.\<close>

lemma buffer_data:
  assumes "transmit_inv S fin isn p a c tw" "i < length (buffers tw)"
  shows "tbData (buffers tw ! i) = take (length (tbData (buffers tw ! i))) (drop (start p tw i) (written S fin))"
proof -
  let ?f = "\<lambda>l. concat (map tbData l)"
  have "drop p (written S fin) = ?f (take i (buffers tw)) @ tbData (buffers tw ! i) @ ?f (drop (Suc i) (buffers tw))"
    using assms by (simp add: transmit_inv_def flip: id_take_nth_drop concat_append map_append)
      (metis append_Cons append_Nil concat.simps(2) concat_append id_take_nth_drop list.simps(9) map_append)
  then have "drop (start p tw i) (written S fin) = tbData (buffers tw ! i) @ ?f (drop (Suc i) (buffers tw))"
    unfolding start_def by (metis add.commute append_eq_conv_conj drop_drop)
  then show ?thesis by simp
qed

lemma slice_of_slice: "o' + k \<le> n \<Longrightarrow> take k (drop o' (take n (drop s xs))) = take k (drop (s + o') xs)"
  by (simp add: drop_take min_def add.commute)

lemma tx_diff:
  assumes "transmit_inv S fin isn p a c tw" "x \<le> length (written S fin)"
  shows "y \<le> x \<Longrightarrow> diffTCPSequence (isn + of_nat x) (isn + of_nat y) = x - y"
  using assms by (intro diff_below) (simp_all add: transmit_inv_def)

lemma entry_begin:
  assumes "transmit_inv S fin isn p a c tw" "i \<le> length (buffers tw)"
  shows "tbBegin (entry tw i) = isn + of_nat (start p tw i)"
  using assms start_le(2) [OF assms(1)] by (cases "i = length (buffers tw)") (auto simp: entry_def transmit_inv_def)

text \<open>Moving the window to a later position of its current buffer, or to the next one.\<close>

lemma transmit_inv_move:
  assumes "transmit_inv S fin isn p a c tw" "inside p tw j c'" "j \<le> length (buffers tw)"
  shows "transmit_inv S fin isn p a c' (tw\<lparr>current := j, currentSequence := isn + of_nat c'\<rparr>)"
proof -
  have "start p (tw\<lparr>current := j, currentSequence := s\<rparr>) = start p tw" for s by (simp add: start_def fun_eq_iff)
  then show ?thesis using assms unfolding transmit_inv_def inside_def by simp
qed

lemma addTCPTransmitSequence_inv:
  assumes inv: "transmit_inv S fin isn p a c tw" and i: "current tw < length (buffers tw)" and k: "c + k \<le> start p tw (Suc (current tw))"
  shows "\<exists>tw'. addTCPTransmitSequence tw k = Some tw' \<and> transmit_inv S fin isn p a (c + k) tw' \<and>
    maxSegmentSize tw' = maxSegmentSize tw"
proof -
  let ?i = "current tw"
  let ?c = "buffers tw ! ?i"
  have c: "currentSequence tw = isn + of_nat c" "start p tw ?i \<le> c" using inv by (simp_all add: transmit_inv_def inside_def)
  have e: "entry tw ?i = ?c" using i by (simp add: entry_def)
  have b: "tbBegin ?c = isn + of_nat (start p tw ?i)" using entry_begin [OF inv, of ?i] i e by simp
  have cs: "addTCPSequence (currentSequence tw) k = isn + of_nat (c + k)" by (simp add: addTCPSequence_def c(1) add.assoc)
  have "c + k \<le> length (written S fin)" using k start_le(1) [OF inv, of "Suc ?i"] by simp
  then have d: "diffTCPSequence (isn + of_nat (c + k)) (tbBegin ?c) = c + k - start p tw ?i"
    unfolding b using c(2) by (intro tx_diff [OF inv]) simp_all
  have ends: "tbSize ?c = c + k - start p tw ?i \<longleftrightarrow> c + k = start p tw (Suc ?i)"
    using buffer_size [OF inv i] start_Suc [OF i] c(2) by auto
  show ?thesis
  proof (cases "c + k = start p tw (Suc ?i)")
    case True
    let ?tw = "tw\<lparr>current := ?i + 1, currentSequence := isn + of_nat (c + k)\<rparr>"
    have "entry ?tw = entry tw" by (simp add: entry_def fun_eq_iff)
    then have "tbBegin (entry ?tw (?i + 1)) = isn + of_nat (c + k)" using entry_begin [OF inv, of "?i + 1"] i True by simp
    moreover have "entry (tw\<lparr>currentSequence := s\<rparr>) = entry tw" "entry (tw\<lparr>currentSequence := s, current := j\<rparr>) = entry tw" for s j
      by (simp_all add: entry_def fun_eq_iff)
    ultimately have "addTCPTransmitSequence tw k = Some ?tw"
      unfolding addTCPTransmitSequence_def cs Let_def using i d ends True \<open>entry ?tw = entry tw\<close>
      by (simp add: e del: of_nat_add)
    moreover have "transmit_inv S fin isn p a (c + k) ?tw"
      by (rule transmit_inv_move [OF inv]) (use True i start_mono [of "Suc ?i" "Suc (Suc ?i)" p tw] in \<open>auto simp: inside_def\<close>)
    ultimately show ?thesis by auto
  next
    case False
    let ?tw = "tw\<lparr>current := ?i, currentSequence := isn + of_nat (c + k)\<rparr>"
    have "entry (tw\<lparr>currentSequence := s\<rparr>) = entry tw" for s by (simp add: entry_def fun_eq_iff)
    then have "addTCPTransmitSequence tw k = Some ?tw"
      unfolding addTCPTransmitSequence_def cs Let_def using d ends False by (simp add: e del: of_nat_add)
    moreover have "transmit_inv S fin isn p a (c + k) ?tw"
      by (rule transmit_inv_move [OF inv]) (use k c(2) i False in \<open>auto simp: inside_def\<close>)
    ultimately show ?thesis by auto
  qed
qed

lemma copyStep_inv:
  assumes inv: "transmit_inv S fin isn p a c tw" and i: "current tw < length (buffers tw)"
  shows "\<exists>k tw'. copyStep n tw = Some (take k (drop c (written S fin)), tw') \<and> k \<le> n \<and> c + k \<le> start p tw (Suc (current tw)) \<and>
    transmit_inv S fin isn p a (c + k) tw' \<and> maxSegmentSize tw' = maxSegmentSize tw"
proof -
  let ?i = "current tw"
  let ?c = "buffers tw ! ?i"
  let ?s = "start p tw ?i"
  have c: "currentSequence tw = isn + of_nat c" "?s \<le> c" "c \<le> start p tw (Suc ?i)" using inv by (auto simp: transmit_inv_def inside_def)
  have e: "entry tw ?i = ?c" using i by (simp add: entry_def)
  have b: "tbBegin ?c = isn + of_nat ?s" using entry_begin [OF inv, of ?i] i e by simp
  have l: "length (tbData ?c) = start p tw (Suc ?i) - ?s" using start_Suc [OF i, of p] by simp
  have size: "tbSize ?c = start p tw (Suc ?i) - ?s" using buffer_size [OF inv i] l by simp
  have "c \<le> length (written S fin)" using c(3) start_le(1) [OF inv, of "Suc ?i"] by simp
  then have d: "diffTCPSequence (currentSequence tw) (tbBegin ?c) = c - ?s"
    unfolding b c(1) using c(2) by (intro tx_diff [OF inv]) simp_all
  define k where "k = min n (tbSize ?c - (c - ?s))"
  have k: "k \<le> n" "c + k \<le> start p tw (Suc ?i)" using c(2,3) by (auto simp: k_def size)
  obtain tw' where a: "addTCPTransmitSequence tw k = Some tw'" "transmit_inv S fin isn p a (c + k) tw'" "maxSegmentSize tw' = maxSegmentSize tw"
    using addTCPTransmitSequence_inv [OF inv i k(2)] by blast
  have "take k (drop (c - ?s) (tbData ?c)) = take k (drop (c - ?s) (take (length (tbData ?c)) (drop ?s (written S fin))))"
    using buffer_data [OF inv i] by simp
  also have "\<dots> = take k (drop (?s + (c - ?s)) (written S fin))"
    by (rule slice_of_slice) (use k(2) c(2) l in simp)
  finally have "take k (drop (c - ?s) (tbData ?c)) = take k (drop c (written S fin))" using c(2) by simp
  then have "copyStep n tw = Some (take k (drop c (written S fin)), tw')"
    unfolding copyStep_def Let_def e d k_def [symmetric] using a(1) c by (simp add: size diff_le_mono)
  then show ?thesis using k a by blast
qed

lemma not_FIN_bound:
  assumes inv: "transmit_inv S fin isn p a c tw" and i: "i < length (buffers tw)" "\<not> isFIN (buffers tw ! i)"
  shows "start p tw (Suc i) \<le> length S"
proof (cases fin)
  case True
  let ?l = "length (buffers tw) - 1"
  have sl: "Suc ?l = length (buffers tw)" using i(1) by simp
  have l: "isFIN (buffers tw ! ?l)" "length (tbData (buffers tw ! ?l)) = 1" using inv i True by (simp_all add: transmit_inv_def)
  have "start p tw (Suc ?l) = start p tw ?l + 1" using start_Suc [of ?l tw p] i(1) l(2) by simp
  then have "start p tw ?l = length S" using start_le(2) [OF inv] True unfolding sl by (simp add: written_def)
  moreover have "i \<noteq> ?l" using i(2) l(1) by metis
  then have "Suc i \<le> ?l" using i(1) by simp
  ultimately show ?thesis using start_mono [of "Suc i" ?l p tw] by simp
next
  case False
  then show ?thesis using start_le(1) [OF inv, of "Suc i"] by (simp add: written_def)
qed

lemma copyLoop_inv:
  assumes "transmit_inv S fin isn p a c tw" "c + n \<le> length (written S fin)"
  shows "\<exists>k tw'. copyLoop n tw = Some (take k (drop c S), tw') \<and> k \<le> n \<and> (c + k \<le> length S \<or> k = 0) \<and>
    transmit_inv S fin isn p a (c + k) tw' \<and> maxSegmentSize tw' = maxSegmentSize tw \<and> (k = n \<or> isFIN (entry tw' (current tw')))"
  using assms
proof (induction n tw arbitrary: c rule: copyLoop.induct)
  case (1 n tw)
  show ?case
  proof (cases "0 < n \<and> \<not> isFIN (entry tw (current tw))")
    case False
    have "copyLoop n tw = Some ([], tw)" by (subst copyLoop.simps) (simp only: False if_False)
    then show ?thesis using False 1(2) by (intro exI [of _ 0] exI [of _ tw]) auto
  next
    case True
    let ?i = "current tw"
    have i: "?i < length (buffers tw)"
    proof (rule ccontr)
      assume "\<not> ?thesis"
      then have "?i = length (buffers tw)" using 1(2) by (simp add: transmit_inv_def)
      then have "length (written S fin) \<le> c" using start_le(2) [OF 1(2)] 1(2) by (simp add: transmit_inv_def inside_def)
      then show False using 1(3) True by simp
    qed
    then have nf: "\<not> isFIN (buffers tw ! ?i)" using True by (simp add: entry_def)
    obtain k tw1 where s: "copyStep n tw = Some (take k (drop c (written S fin)), tw1)" "k \<le> n" "c + k \<le> start p tw (Suc ?i)"
      "transmit_inv S fin isn p a (c + k) tw1" "maxSegmentSize tw1 = maxSegmentSize tw"
      using copyStep_inv [OF 1(2) i] by blast
    have ck: "c + k \<le> length S" using s(3) not_FIN_bound [OF 1(2) i nf] by simp
    then have t: "take k (drop c (written S fin)) = take k (drop c S)" and lt: "length (take k (drop c S)) = k"
      by (simp_all add: written_def)
    obtain m tw2 where m: "copyLoop (n - k) tw1 = Some (take m (drop (c + k) S), tw2)" "m \<le> n - k" "c + k + m \<le> length S \<or> m = 0"
      "transmit_inv S fin isn p a (c + k + m) tw2" "maxSegmentSize tw2 = maxSegmentSize tw1" "m = n - k \<or> isFIN (entry tw2 (current tw2))"
      using 1(1) [OF True s(1) refl, of "c + k"] s(2,4) 1(3) unfolding t lt by auto
    have "copyLoop n tw = Some (take (k + m) (drop c S), tw2)"
      by (subst copyLoop.simps) (simp only: True if_True s(1) t lt option.case prod.case m(1), simp add: take_add add.commute)
    then show ?thesis using m s(2,5) ck by (intro exI [of _ "k + m"] exI [of _ tw2]) (auto simp: add.assoc)
  qed
qed

lemma diff_above:
  assumes "x < y" "y < 2 ^ 32"
  shows "diffTCPSequence (isn + of_nat x) (isn + of_nat y) = 2 ^ 32 - (y - x)"
proof -
  have "unat (of_nat x :: u32) = x" "unat (of_nat y :: u32) = y"
    using assms unat_of_nat_small [of x, where 'a = 32] unat_of_nat_small [of y, where 'a = 32] by simp_all
  then show ?thesis using assms by (simp add: diffTCPSequence_def unat_sub_if_size word_size)
qed

lemma current_le:
  assumes "transmit_inv S fin isn p a c tw"
  shows "c \<le> length (written S fin)"
  using assms start_le(1) [OF assms, of "current tw"] start_le(1) [OF assms, of "Suc (current tw)"]
  by (auto simp: transmit_inv_def inside_def)

lemma remain_size:
  assumes inv: "transmit_inv S fin isn p a c tw"
  shows "getTCPTransmitRemainSize tw = (if a \<le> c then min (a + scaledWindowSize tw - c) (length (written S fin) - c) else 0)"
proof -
  have f: "length (written S fin) < MAX_STREAM" "scaledWindowSize tw \<le> 2 ^ 30" "twBegin tw = isn + of_nat a"
    "currentSequence tw = isn + of_nat c" "tbBegin (tail tw) = isn + of_nat (length (written S fin))" "a \<le> length (written S fin)"
    using inv by (simp_all add: transmit_inv_def)
  have c: "c \<le> length (written S fin)" by (rule current_le [OF inv])
  have t: "diffTCPSequence (tbBegin (tail tw)) (currentSequence tw) = length (written S fin) - c"
    unfolding f(4,5) by (rule tx_diff [OF inv]) (use c in simp_all)
  show ?thesis
  proof (cases "a \<le> c")
    case True
    then have "diffTCPSequence (currentSequence tw) (twBegin tw) = c - a"
      unfolding f(3,4) by (intro tx_diff [OF inv c])
    then show ?thesis using True t by (auto simp: getTCPTransmitRemainSize_def Let_def)
  next
    case False
    then have "diffTCPSequence (currentSequence tw) (twBegin tw) = 2 ^ 32 - (a - c)"
      unfolding f(3,4) using f(1,6) by (intro diff_above) simp_all
    then show ?thesis using False f(1,2,6) by (simp add: getTCPTransmitRemainSize_def Let_def)
  qed
qed

lemma copyTCPTransmitBuffer_inv:
  assumes inv: "transmit_inv S fin isn p a c tw"
  shows "\<exists>k tw'. copyTCPTransmitBuffer tw n = Some (take k (drop c S), tw') \<and> k \<le> n \<and> k \<le> maxSegmentSize tw \<and>
    (k = 0 \<or> a \<le> c \<and> c + k \<le> length S \<and> c + k \<le> a + scaledWindowSize tw) \<and>
    transmit_inv S fin isn p a (c + k) tw' \<and> maxSegmentSize tw' = maxSegmentSize tw \<and>
    (a \<le> c \<and> c < length S \<and> c < a + scaledWindowSize tw \<and> 0 < n \<and> 0 < maxSegmentSize tw \<longrightarrow> 0 < k)"
proof -
  define m where "m = min (min (getTCPTransmitRemainSize tw) n) (maxSegmentSize tw)"
  have "m \<le> getTCPTransmitRemainSize tw" by (simp add: m_def)
  then have cm: "c + m \<le> length (written S fin)" and am: "a \<le> c \<and> c + m \<le> a + scaledWindowSize tw \<or> m = 0"
    using remain_size [OF inv] current_le [OF inv] by (auto split: if_splits)
  obtain k tw' where k: "copyLoop m tw = Some (take k (drop c S), tw')" "k \<le> m" "c + k \<le> length S \<or> k = 0"
    "transmit_inv S fin isn p a (c + k) tw'" "maxSegmentSize tw' = maxSegmentSize tw" "k = m \<or> isFIN (entry tw' (current tw'))"
    using copyLoop_inv [OF inv cm] by blast
  have "0 < k" if w: "a \<le> c" "c < length S" "c < a + scaledWindowSize tw" "0 < n" "0 < maxSegmentSize tw"
  proof (rule ccontr)
    assume k0: "\<not> 0 < k"
    have "0 < m" using w remain_size [OF inv] by (simp add: m_def written_def)
    then have f: "isFIN (entry tw' (current tw'))" using k0 k(6) by simp
    let ?i = "current tw'"
    have i: "?i < length (buffers tw')" using f k(4) by (auto simp: entry_def transmit_inv_def split: if_splits)
    then have last: "fin" "Suc ?i = length (buffers tw')" "length (tbData (buffers tw' ! ?i)) = 1"
      using f k(4) by (simp_all add: entry_def transmit_inv_def)
    have "start p tw' ?i + 1 = length (written S fin)" using start_Suc [OF i, of p] start_le(2) [OF k(4)] last(2,3) by simp
    then have "start p tw' ?i = length S" using last(1) by (simp add: written_def)
    moreover have "start p tw' ?i \<le> c" using k(4) k0 by (simp add: transmit_inv_def inside_def)
    ultimately show False using w(2) by simp
  qed
  then show ?thesis using k am unfolding copyTCPTransmitBuffer_def Let_def m_def [symmetric]
    by (intro exI [of _ k] exI [of _ tw']) (auto simp: m_def)
qed

text \<open>Writing, closing and going back.\<close>

lemma transmit_inv_init: "transmit_inv [] False isn 0 0 0 (initTCPTransmitWindow False isn)"
  by (simp add: transmit_inv_def initTCPTransmitWindow_def written_def inside_def start_def)

lemma rollback_inv:
  assumes "transmit_inv S fin isn p a c tw"
  shows "transmit_inv S fin isn p a a (rollbackTCPTransmitSequence tw)"
proof -
  have a: "twBegin tw = isn + of_nat a" using assms by (simp add: transmit_inv_def)
  have "inside p tw 0 a"
  proof (cases "buffers tw = []")
    case True
    then have "p \<le> a" "a \<le> length (written S fin)" "length (written S fin) \<le> p" using assms by (auto simp: transmit_inv_def)
    then show ?thesis using True by (simp add: inside_def start_def)
  qed (use assms in \<open>simp add: transmit_inv_def\<close>)
  then show ?thesis unfolding rollbackTCPTransmitSequence_def a by (intro transmit_inv_move [OF assms]) simp_all
qed

lemma start_push:
  "start p (tw\<lparr>buffers := buffers tw @ [tb], tail := t\<rparr>) i =
    (if i \<le> length (buffers tw) then start p tw i else start p tw (length (buffers tw)) + length (tbData tb))"
  by (simp add: start_def)

lemma push_inv:
  assumes inv: "transmit_inv S False isn p a c tw" and l: "length (written (S @ data) fin) < MAX_STREAM"
    and d: "d = data \<and> \<not> fin \<or> d = [63] \<and> fin \<and> data = []"
  shows "\<exists>tw'. pushTCPTransmitBuffer True tw d fin = Some (True, tw') \<and> transmit_inv (S @ data) fin isn p a c tw' \<and>
    maxSegmentSize tw' = maxSegmentSize tw"
proof -
  define tb where "tb = \<lparr>tbBegin = isn + of_nat (length S), tbData = d, isFIN = fin\<rparr>"
  let ?tw = "tw\<lparr>buffers := buffers tw @ [tb], tail := (tail tw)\<lparr>tbBegin := isn + of_nat (length S + length d)\<rparr>\<rparr>"
  let ?n = "length (buffers tw)"
  have w: "written S False = S" "written (S @ data) fin = S @ d" using d by (auto simp: written_def)
  have i: "twBegin tw = isn + of_nat a" "tbBegin (tail tw) = isn + of_nat (length S)" "p \<le> a" "a \<le> length S" "current tw \<le> ?n"
    "currentSequence tw = isn + of_nat c" "inside p tw (current tw) c" "concat (map tbData (buffers tw)) = drop p S"
    "buffers tw \<noteq> [] \<Longrightarrow> inside p tw 0 a" "tbData (tail tw) = []" "\<not> isFIN (tail tw)" "scaledWindowSize tw \<le> 2 ^ 30 \<and> windowScale tw \<le> 14"
    "\<And>j. j < ?n \<Longrightarrow> tbBegin (buffers tw ! j) = isn + of_nat (start p tw j) \<and> \<not> isFIN (buffers tw ! j)"
    using inv unfolding transmit_inv_def w by simp_all
  have e: "start p tw ?n = length S" "start p tw (Suc ?n) = length S" using i(3,4,8) by (simp_all add: start_def)
  have t: "currentSequence tw = isn + of_nat (length S)" if "current tw = ?n"
    using i(6,7) e that by (auto simp: inside_def)
  have "inside p ?tw (current tw) c"
  proof (cases "current tw = ?n")
    case True
    then show ?thesis using i(7) e unfolding inside_def start_push by (auto simp: tb_def)
  next
    case False
    then show ?thesis using i(5,7) unfolding inside_def start_push by simp
  qed
  moreover have "inside p ?tw 0 a"
  proof (cases "buffers tw = []")
    case True
    then have "length S \<le> p" using i(8) by simp
    then have "p = length S" "a = length S" using i(3,4) by simp_all
    then show ?thesis using True unfolding inside_def start_push by (auto simp: tb_def start_def)
  next
    case False
    then have "Suc 0 \<le> ?n" by (cases "buffers tw") simp_all
    then show ?thesis using i(9) [OF False] unfolding inside_def start_push by simp
  qed
  moreover have "concat (map tbData (buffers ?tw)) = drop p (S @ d)" using i(3,4,8) by (simp add: tb_def)
  moreover have "tbBegin (buffers ?tw ! j) = isn + of_nat (start p ?tw j) \<and> (isFIN (buffers ?tw ! j) \<longleftrightarrow> fin \<and> Suc j = length (buffers ?tw)) \<and>
      (isFIN (buffers ?tw ! j) \<longrightarrow> length (tbData (buffers ?tw ! j)) = 1)" if "j < length (buffers ?tw)" for j
  proof (cases "j < ?n")
    case True
    then show ?thesis using i(13) [OF True] unfolding start_push by (simp add: nth_append)
  next
    case False
    then have "j = ?n" using that by simp
    then show ?thesis using e d unfolding start_push by (auto simp: tb_def)
  qed
  moreover have "fin \<longrightarrow> length (tbData tb) = 1" using d by (auto simp: tb_def)
  ultimately have "transmit_inv (S @ data) fin isn p a c ?tw"
    using i(1,3-6,10-12) l unfolding transmit_inv_def w by simp
  moreover have "pushTCPTransmitBuffer True tw d fin = Some (True, ?tw)"
    unfolding pushTCPTransmitBuffer_def createTCPTransmitBuffer_def i(2) tb_def [symmetric]
    using t by (simp add: Let_def tb_def addTCPSequence_def add.assoc)
  ultimately show ?thesis by auto
qed

text \<open>Acknowledgements.\<close>

lemma start_pop:
  assumes "buffers tw \<noteq> []" "buffers tw' = tl (buffers tw)"
  shows "start (start p tw 1) tw' i = start p tw (Suc i)"
  using assms by (cases "buffers tw") (simp_all add: start_def)

lemma pop_inv:
  assumes inv: "transmit_inv S fin isn p a c tw" and b: "buffers tw \<noteq> []"
  shows "\<exists>tw' c'. popTCPTransmitBuffer (tw\<lparr>twBegin := isn + of_nat (start p tw 1)\<rparr>) = Some tw' \<and>
    transmit_inv S fin isn (start p tw 1) (start p tw 1) c' tw' \<and> buffers tw' = tl (buffers tw) \<and>
    maxSegmentSize tw' = maxSegmentSize tw \<and> c \<le> c'"
proof -
  let ?a = "start p tw 1"
  define c' where "c' = (if current tw = 0 then ?a else c)"
  define tw' where "tw' = tw\<lparr>twBegin := isn + of_nat ?a, buffers := tl (buffers tw), current := current tw - 1,
    currentSequence := isn + of_nat c'\<rparr>"
  have st: "start ?a tw' i = start p tw (Suc i)" for i by (rule start_pop [OF b]) (simp add: tw'_def)
  have i: "current tw \<le> length (buffers tw)" "currentSequence tw = isn + of_nat c" "inside p tw (current tw) c"
    using inv by (simp_all add: transmit_inv_def)
  have one: "Suc 0 \<le> length (buffers tw)" using b by (cases "buffers tw") simp_all
  have e1: "tbBegin (entry tw 1) = isn + of_nat ?a" using entry_begin [OF inv, of 1] one by simp
  have m: "start p tw 1 \<le> start p tw 2" by (rule start_mono) simp
  have ins: "inside ?a tw' (current tw') c'" "inside ?a tw' 0 ?a"
    using i(3) m unfolding inside_def st by (auto simp: tw'_def c'_def numeral_2_eq_2)
  have p: "p \<le> length (written S fin)" using inv by (simp add: transmit_inv_def)
  have dp: "drop p (written S fin) = tbData (hd (buffers tw)) @ concat (map tbData (tl (buffers tw)))"
    using inv b by (cases "buffers tw") (simp_all add: transmit_inv_def)
  have "?a = length (tbData (hd (buffers tw))) + p" using b by (cases "buffers tw") (simp_all add: start_def)
  then have "drop ?a (written S fin) = drop (length (tbData (hd (buffers tw)))) (drop p (written S fin))" by (simp only: drop_drop)
  then have cc: "concat (map tbData (buffers tw')) = drop ?a (written S fin)" unfolding dp by (simp add: tw'_def)
  have bs: "tbBegin (buffers tw' ! j) = isn + of_nat (start ?a tw' j) \<and> (isFIN (buffers tw' ! j) \<longleftrightarrow> fin \<and> Suc j = length (buffers tw')) \<and>
      (isFIN (buffers tw' ! j) \<longrightarrow> length (tbData (buffers tw' ! j)) = 1)" if "j < length (buffers tw')" for j
  proof -
    have j: "Suc j < length (buffers tw)" using that by (simp add: tw'_def)
    then have n: "buffers tw' ! j = buffers tw ! Suc j" "Suc (Suc j) = length (buffers tw) \<longleftrightarrow> Suc j = length (buffers tw')"
      by (auto simp: tw'_def nth_tl)
    have "tbBegin (buffers tw ! Suc j) = isn + of_nat (start p tw (Suc j)) \<and> (isFIN (buffers tw ! Suc j) \<longleftrightarrow> fin \<and> Suc (Suc j) = length (buffers tw)) \<and>
      (isFIN (buffers tw ! Suc j) \<longrightarrow> length (tbData (buffers tw ! Suc j)) = 1)"
      using inv j unfolding transmit_inv_def by blast
    then show ?thesis unfolding st n .
  qed
  have "transmit_inv S fin isn ?a ?a c' tw'"
    using inv ins cc bs start_le(1) [OF inv, of 1] i(1) b unfolding transmit_inv_def by (simp add: tw'_def)
  moreover have "popTCPTransmitBuffer (tw\<lparr>twBegin := isn + of_nat ?a\<rparr>) = Some tw'"
  proof -
    have "entry (tw\<lparr>twBegin := s\<rparr>) = entry tw" for s by (simp add: entry_def fun_eq_iff)
    then show ?thesis using b i(2) e1
      by (auto simp: popTCPTransmitBuffer_def tw'_def c'_def intro!: TCPTransmitWindow.equality)
  qed
  moreover have "c \<le> c'" using i(3) by (auto simp: c'_def inside_def)
  ultimately show ?thesis by (intro exI [of _ tw'] exI [of _ c']) (simp add: tw'_def)
qed

lemma ackLoop_inv:
  assumes "transmit_inv S fin isn p a c tw" "a + d \<le> length (written S fin)"
  shows "\<exists>tw' p' c'. ackLoop tw d = Some (0, tw') \<and> transmit_inv S fin isn p' (a + d) c' tw' \<and>
    maxSegmentSize tw' = maxSegmentSize tw \<and> c \<le> c'"
  using assms
proof (induction tw d arbitrary: p a c rule: ackLoop.induct)
  case (1 tw d)
  show ?case
  proof (cases "hasTCPTransmitBuffer tw \<and> d \<noteq> 0")
    case False
    have "d = 0"
    proof (rule ccontr)
      assume "d \<noteq> 0"
      then have "buffers tw = []" using False by (simp add: hasTCPTransmitBuffer_def)
      then have "length (written S fin) \<le> p" "p \<le> a" using 1(3) by (auto simp: transmit_inv_def)
      then show False using 1(4) \<open>d \<noteq> 0\<close> by simp
    qed
    then show ?thesis using 1(3) by (subst ackLoop.simps) auto
  next
    case True
    then have b: "buffers tw \<noteq> []" by (simp add: hasTCPTransmitBuffer_def)
    let ?h = "hd (buffers tw)"
    let ?e = "start p tw 1"
    have n: "0 < length (buffers tw)" "buffers tw ! 0 = ?h" using b by (simp_all add: hd_conv_nth)
    have h: "tbBegin ?h = isn + of_nat p" "tbSize ?h = length (tbData ?h)"
      using entry_begin [OF 1(3), of 0] buffer_size [OF 1(3) n(1)] n by (simp_all add: entry_def)
    have a: "twBegin tw = isn + of_nat a" "p \<le> a" "a \<le> ?e" "a < ?e \<or> p = ?e"
      using 1(3) b by (auto simp: transmit_inv_def inside_def)
    have sz: "tbSize ?h = ?e - p" "p \<le> ?e" using start_Suc [OF n(1), of p] h(2) n(2) by simp_all
    have ho: "diffTCPSequence (twBegin tw) (tbBegin ?h) = a - p"
      unfolding a(1) h(1) by (rule tx_diff [OF 1(3)]) (use a(2) 1(4) in simp_all)
    have small: "?e < 2 ^ 32" using start_le(1) [OF 1(3), of 1] 1(3) by (simp add: transmit_inv_def)
    have us: "usub (tbSize ?h) (a - p) = ?e - a"
    proof -
      have "(of_nat (?e - p) - of_nat (a - p) :: u32) = of_nat (?e - a)" using a(2,3) sz(2) by (simp add: of_nat_diff)
      then show ?thesis unfolding usub_def sz(1) using unat_of_nat_small [of "?e - a", where 'a = 32] small by simp
    qed
    define k where "k = min (?e - a) d"
    have k: "a + k \<le> ?e" "k \<le> d" "a + k = ?e \<or> k = d" using a(3) by (auto simp: k_def)
    let ?tw = "tw\<lparr>twBegin := isn + of_nat (a + k)\<rparr>"
    have ad: "addTCPSequence (twBegin tw) k = isn + of_nat (a + k)" by (simp add: addTCPSequence_def a(1) add.assoc)
    have dk: "diffTCPSequence (isn + of_nat (a + k)) (tbBegin ?h) = a + k - p"
      unfolding h(1) by (rule tx_diff [OF 1(3)]) (use a(2) 1(4) k(2) in simp_all)
    have full: "tbSize ?h = a + k - p \<longleftrightarrow> a + k = ?e" using sz a(2) k(1) by auto
    note unf = ackLoop.simps [of tw d] Let_def ho us k_def [symmetric] ad
    show ?thesis
    proof (cases "a + k = ?e")
      case True
      obtain tw1 c1 where q: "popTCPTransmitBuffer ?tw = Some tw1" "transmit_inv S fin isn ?e ?e c1 tw1"
          "maxSegmentSize tw1 = maxSegmentSize tw" "c \<le> c1"
        using pop_inv [OF 1(3) b] unfolding True by blast
      have l: "ackLoop tw d = ackLoop tw1 (d - k)"
        unfolding unf using \<open>hasTCPTransmitBuffer tw \<and> d \<noteq> 0\<close> dk full True q(1) by (simp del: of_nat_add)
      have "\<exists>tw' p' c'. ackLoop tw1 (d - k) = Some (0, tw') \<and> transmit_inv S fin isn p' (?e + (d - k)) c' tw' \<and>
        maxSegmentSize tw' = maxSegmentSize tw1 \<and> c1 \<le> c'"
        using 1(1) [OF \<open>hasTCPTransmitBuffer tw \<and> d \<noteq> 0\<close> refl refl refl refl, of tw1 ?e ?e c1] 1(4) k(2) q dk full True
        unfolding ho us k_def [symmetric] ad by (simp del: of_nat_add)
      moreover have "?e + (d - k) = a + d" using True k(2) by simp
      ultimately show ?thesis unfolding l using q(3,4) by (simp del: of_nat_add) (meson le_trans)
    next
      case False
      then have kd: "k = d" using k(3) by simp
      have st: "start p ?tw = start p tw" by (simp add: start_def fun_eq_iff)
      have "transmit_inv S fin isn p (a + d) c ?tw"
        using 1(3,4) False k(1) a(2) kd unfolding transmit_inv_def inside_def st by auto
      moreover have "ackLoop tw d = ackLoop ?tw 0"
        unfolding unf using \<open>hasTCPTransmitBuffer tw \<and> d \<noteq> 0\<close> dk full False kd by (simp del: of_nat_add)
      moreover have "ackLoop ?tw 0 = Some (0, ?tw)" by (subst ackLoop.simps) simp
      ultimately show ?thesis by auto
    qed
  qed
qed

lemma ackTransmitWindow_inv:
  assumes inv: "transmit_inv S fin isn p a c tw" and q: "q \<le> length (written S fin)"
  shows "\<exists>n tw' p' c'. ackTransmitWindow tw (isn + of_nat q) = Some (n, tw') \<and>
    transmit_inv S fin isn p' (if a \<le> q \<and> q \<le> a + MAX_TCP_WINDOW_SIZE then q else a) c' tw' \<and> maxSegmentSize tw' = maxSegmentSize tw \<and> c \<le> c'"
proof -
  have a: "twBegin tw = isn + of_nat a" "a \<le> length (written S fin)" "length (written S fin) < MAX_STREAM"
    using inv by (simp_all add: transmit_inv_def)
  show ?thesis
  proof (cases "a \<le> q")
    case True
    then have d: "diffTCPSequence (isn + of_nat q) (twBegin tw) = q - a" unfolding a(1) by (rule tx_diff [OF inv q])
    show ?thesis
    proof (cases "q \<le> a + MAX_TCP_WINDOW_SIZE")
      case le: True
      obtain tw' p' c' where l: "ackLoop tw (q - a) = Some (0, tw')" "transmit_inv S fin isn p' q c' tw'" "maxSegmentSize tw' = maxSegmentSize tw" "c \<le> c'"
        using ackLoop_inv [OF inv, of "q - a"] q True by auto
      have "twBegin tw' = isn + of_nat q" using l(2) by (simp add: transmit_inv_def)
      then show ?thesis using l d le True by (auto simp: ackTransmitWindow_def Let_def not_less)
    qed (use d inv in \<open>auto simp: ackTransmitWindow_def Let_def\<close>)
  next
    case False
    then have "diffTCPSequence (isn + of_nat q) (twBegin tw) = 2 ^ 32 - (a - q)"
      unfolding a(1) by (intro diff_above) (use a(2,3) in simp_all)
    then have "MAX_TCP_WINDOW_SIZE < diffTCPSequence (isn + of_nat q) (twBegin tw)" using a(2,3) by simp
    then show ?thesis using inv False by (auto simp: ackTransmitWindow_def Let_def)
  qed
qed

text \<open>What every transmitted packet satisfies: its payload is the part of the written bytes at its sequence number, within
  the window of the remote host and the maximum segment size; a FIN packet follows the last byte.\<close>

definition segment_ok :: "u8 list \<Rightarrow> bool \<Rightarrow> u32 \<Rightarrow> nat \<Rightarrow> TCPTransmitWindow \<Rightarrow> nat \<Rightarrow> TCPSegment \<Rightarrow> bool" where
  "segment_ok S fin isn a tw rawBufferSize seg \<longleftrightarrow> (\<exists>off. sequenceNumber seg = isn + of_nat off \<and>
    payload seg = take (length (payload seg)) (drop off S) \<and> length (payload seg) \<le> maxSegmentSize tw \<and>
    length (payload seg) \<le> rawBufferSize - 20 \<and>
    (payload seg \<noteq> [] \<longrightarrow> a \<le> off \<and> off + length (payload seg) \<le> length S \<and> off + length (payload seg) \<le> a + scaledWindowSize tw) \<and>
    (segFIN seg \<longrightarrow> fin \<and> off = length S))"

lemma copyLoop_window:
  assumes "copyLoop n tw = Some (bs, tw')"
  shows "scaledWindowSize tw' = scaledWindowSize tw"
  using assms
proof (induction n tw arbitrary: bs rule: copyLoop.induct)
  case (1 n tw)
  show ?case
  proof (cases "0 < n \<and> \<not> isFIN (entry tw (current tw))")
    case True
    then obtain bs1 tw1 bs2 where s: "copyStep n tw = Some (bs1, tw1)" "copyLoop (n - length bs1) tw1 = Some (bs2, tw')"
      using 1(2) by (subst (asm) copyLoop.simps) (auto split: option.splits)
    then show ?thesis using 1(1) [OF True s(1) refl s(2)] copyStep_same(5) [OF s(1)] by simp
  next
    case False
    then show ?thesis using 1(2) by (subst (asm) copyLoop.simps) (simp only: if_False, simp)
  qed
qed

lemma transmit_data_inv:
  assumes inv: "transmit_inv S fin isn p a c tw"
  shows "\<exists>r ps d c' tw'. transmitTCPDataPacket ok rwa z must tw = Some (r, ps, d, tw') \<and> transmit_inv S fin isn p a c' tw' \<and>
    maxSegmentSize tw' = maxSegmentSize tw \<and> scaledWindowSize tw' = scaledWindowSize tw \<and>
    (\<forall>seg\<in>set ps. segment_ok S fin isn a tw z seg)"
proof -
  obtain k tw' where k: "copyTCPTransmitBuffer tw (z - 20) = Some (take k (drop c S), tw')" "k \<le> z - 20" "k \<le> maxSegmentSize tw"
    "k = 0 \<or> a \<le> c \<and> c + k \<le> length S \<and> c + k \<le> a + scaledWindowSize tw" "transmit_inv S fin isn p a (c + k) tw'" "maxSegmentSize tw' = maxSegmentSize tw"
    using copyTCPTransmitBuffer_inv [OF inv] by blast
  have s: "scaledWindowSize tw' = scaledWindowSize tw" using copyLoop_window k(1) by (auto simp: copyTCPTransmitBuffer_def Let_def)
  have cs: "currentSequence tw = isn + of_nat c" using inv by (simp add: transmit_inv_def)
  have l: "length (take k (drop c S)) = k" using k(4) by auto
  have "segment_ok S fin isn a tw z \<lparr>sequenceNumber = currentSequence tw, acknowledgeNumber = ackNumber rwa,
      advertisedSize = windowRemainSize rwa, segFIN = False, payload = take k (drop c S)\<rparr>"
    unfolding segment_ok_def using k(2-4) l cs by (intro exI [of _ c]) auto
  then show ?thesis using k s unfolding transmitTCPDataPacket_def by (auto simp: Let_def)
qed

lemma FIN_entry:
  assumes inv: "transmit_inv S fin isn p a c tw" and f: "isFIN (entry tw (current tw))"
  shows "fin" "current tw + 1 = length (buffers tw)" "tbSize (entry tw (current tw)) = 1" "c = length S"
    "start p tw (Suc (current tw)) = c + 1"
proof -
  let ?i = "current tw"
  have i: "?i < length (buffers tw)" using f inv by (auto simp: entry_def transmit_inv_def split: if_splits)
  then have e: "entry tw ?i = buffers tw ! ?i" by (simp add: entry_def)
  have l: "fin" "Suc ?i = length (buffers tw)" "length (tbData (buffers tw ! ?i)) = 1"
    using inv i f unfolding transmit_inv_def e by blast+
  then show "fin" "current tw + 1 = length (buffers tw)" by simp_all
  show "tbSize (entry tw (current tw)) = 1" using buffer_size [OF inv i] l(3) e by simp
  have "start p tw ?i + 1 = length S + 1" using start_Suc [OF i, of p] start_le(2) [OF inv] l by (simp add: written_def)
  moreover have "inside p tw ?i c" using inv by (simp add: transmit_inv_def)
  ultimately show "c = length S" using start_Suc [OF i, of p] l(3) by (auto simp: inside_def)
  then show "start p tw (Suc (current tw)) = c + 1" using start_Suc [OF i, of p] l(3) \<open>start p tw ?i + 1 = length S + 1\<close> by simp
qed

lemma transmit_FIN_inv:
  assumes inv: "transmit_inv S fin isn p a c tw" and f: "isFIN (entry tw (current tw))"
  shows "\<exists>ps d c' tw'. transmitTCPFINPacket ok rwa tw = Some (ok, ps, d, tw') \<and> transmit_inv S fin isn p a c' tw' \<and>
    maxSegmentSize tw' = maxSegmentSize tw \<and> scaledWindowSize tw' = scaledWindowSize tw \<and> (\<forall>seg\<in>set ps. segment_ok S fin isn a tw z seg)"
proof -
  note e = FIN_entry [OF inv f]
  have i: "current tw < length (buffers tw)" using e(2) by simp
  obtain tw' where t: "addTCPTransmitSequence tw 1 = Some tw'" "transmit_inv S fin isn p a (c + 1) tw'" "maxSegmentSize tw' = maxSegmentSize tw"
    using addTCPTransmitSequence_inv [OF inv i, of 1] e(5) by auto
  have "c + 1 = length (written S fin)" using e(1,4) by (simp add: written_def)
  have b: "buffers tw' = buffers tw" "scaledWindowSize tw' = scaledWindowSize tw" using addTCPTransmitSequence_SomeD [OF t(1)] by simp_all
  have "tbBegin (entry tw (current tw)) = isn + of_nat (start p tw (current tw))" using entry_begin [OF inv] i by simp
  moreover have "start p tw (current tw) = c" using e(3,5) start_Suc [OF i, of p] buffer_size [OF inv i] i by (simp add: entry_def)
  moreover have "currentSequence tw = isn + of_nat c" using inv by (simp add: transmit_inv_def)
  ultimately have "diffTCPSequence (addTCPSequence (currentSequence tw) 1) (tbBegin (entry tw (current tw))) = 1"
    by (simp add: diffTCPSequence_def addTCPSequence_def)
  then have "current tw' = length (buffers tw')" using addTCPTransmitSequence_SomeD(7) [OF t(1)] e(2,3) b by simp
  moreover have "segment_ok S fin isn a tw z \<lparr>sequenceNumber = currentSequence tw, acknowledgeNumber = ackNumber rwa,
      advertisedSize = windowRemainSize rwa, segFIN = True, payload = []\<rparr>"
    unfolding segment_ok_def using e(1,4) \<open>currentSequence tw = isn + of_nat c\<close> by (intro exI [of _ c]) simp
  ultimately show ?thesis using t b e(2,3) f unfolding transmitTCPFINPacket_def by (auto simp: Let_def)
qed

lemma transmitLoop_inv:
  assumes "transmit_inv S fin isn p a c tw"
  shows "\<exists>r ps d m c' tw'. transmitLoop w rwa z n must tw = Some (r, ps, d, m, tw') \<and> transmit_inv S fin isn p a c' tw' \<and>
    maxSegmentSize tw' = maxSegmentSize tw \<and> scaledWindowSize tw' = scaledWindowSize tw \<and> (\<forall>seg\<in>set ps. segment_ok S fin isn a tw z seg)"
  using assms
proof (induction w rwa z n must tw arbitrary: c rule: transmitLoop.induct)
  case (1 w rwa z n must tw)
  let ?fin = "isFIN (entry tw (current tw))"
  let ?step = "if ?fin then transmitTCPFINPacket (w n) rwa tw else transmitTCPDataPacket (w n) rwa z must tw"
  show ?case
  proof (cases "must \<or> current tw \<noteq> length (buffers tw)")
    case False
    then show ?thesis using 1(2) by (subst transmitLoop.simps) auto
  next
    case True
    obtain r ps d c1 tw1 where s: "?step = Some (r, ps, d, tw1)" "transmit_inv S fin isn p a c1 tw1"
      "maxSegmentSize tw1 = maxSegmentSize tw" "scaledWindowSize tw1 = scaledWindowSize tw" "\<forall>seg\<in>set ps. segment_ok S fin isn a tw z seg"
    proof (cases ?fin)
      case True
      then show ?thesis using transmit_FIN_inv [OF 1(2) True, of "w n" rwa z] that by auto
    next
      case False
      then show ?thesis using transmit_data_inv [OF 1(2), of "w n" rwa z must] that by auto
    qed
    show ?thesis
    proof (cases "\<not> r \<or> \<not> ?fin \<and> \<not> must \<and> d = 0")
      case stop: True
      then have "\<exists>r d m. transmitLoop w rwa z n must tw = Some (r, ps, d, m, tw1)"
        by (subst transmitLoop.simps) (simp only: True if_True s(1) option.case prod.case, auto)
      then show ?thesis using s by blast
    next
      case False
      have sok: "segment_ok S fin isn a tw1 z = segment_ok S fin isn a tw z" by (simp add: segment_ok_def s(3,4) fun_eq_iff)
      obtain r2 ps2 d2 m2 c2 tw2 where t: "transmitLoop w rwa z (n + 1) False tw1 = Some (r2, ps2, d2, m2, tw2)" "transmit_inv S fin isn p a c2 tw2"
        "maxSegmentSize tw2 = maxSegmentSize tw1" "scaledWindowSize tw2 = scaledWindowSize tw1" "\<forall>seg\<in>set ps2. segment_ok S fin isn a tw1 z seg"
        using 1(1) [OF True s(1) refl refl refl _ _ s(2)] False by blast
      have "transmitLoop w rwa z n must tw = Some (r2, ps @ ps2, d + d2, m2, tw2)"
        using False by (subst transmitLoop.simps) (simp only: True if_True s(1) option.case prod.case t(1), auto)
      then show ?thesis using t s(3-5) unfolding sok
        by (intro exI [of _ r2] exI [of _ "ps @ ps2"] exI [of _ "d + d2"] exI [of _ m2] exI [of _ c2] exI [of _ tw2]) auto
    qed
  qed
qed

section \<open>Histories of the sender\<close>

text \<open>\<open>receiveTCPACK\<close> for a packet with the acknowledgement flag.\<close>

definition receiveTCPACK :: "TCPTransmitWindow \<Rightarrow> u32 \<Rightarrow> u16 \<Rightarrow> (nat \<times> TCPTransmitWindow) option" where
  "receiveTCPACK tw ack win = do {
    (ackSize, tw) \<leftarrow> ackTransmitWindow tw ack;
    Some (ackSize, tw\<lparr>scaledWindowSize := push_bit (windowScale tw) (unat win)\<rparr>)
  }"

record RetransmitCounter =
  maxCount :: nat
  rcCount :: nat
  startSequence :: u32

definition resetRetransmit :: "TCPTransmitWindow \<Rightarrow> RetransmitCounter" where
  "resetRetransmit tw = \<lparr>maxCount = 4, rcCount = 0, startSequence = twBegin tw\<rparr>"

text \<open>The result, the flags \<open>doRetransmitFlag\<close> and \<open>delayRetransmitFlag\<close>, and the counter.\<close>

definition checkRetransmit :: "RetransmitCounter \<Rightarrow> TCPTransmitWindow \<Rightarrow> bool \<times> bool \<times> bool \<times> RetransmitCounter" where
  "checkRetransmit rc tw =
    (if \<not> hasTCPTransmitBuffer tw then (True, False, False, rc)
     else if twBegin tw \<noteq> startSequence rc then (True, False, True, resetRetransmit tw)
     else if rcCount rc \<ge> maxCount rc then (False, False, False, rc)
     else (True, True, True, rc\<lparr>rcCount := rcCount rc + 1\<rparr>))"

text \<open>What happens at a sender: the program writes or closes, packets are transmitted with the acknowledgement of the own
  receive window, the remote host acknowledges the bytes before a position and announces its window, or the timer
  of the retransmission fires.\<close>

datatype tx_event =
    Write "u8 list"
  | Close
  | Transmit TCPReceiveWindowACK "nat \<Rightarrow> bool" bool
  | Ack nat u16
  | Retransmit

definition txEvent :: "u32 \<Rightarrow> nat \<Rightarrow> TCPTransmitWindow \<Rightarrow> tx_event \<Rightarrow> (TCPSegment list \<times> TCPTransmitWindow) option" where
  "txEvent isn rawBufferSize tw ev = (case ev of
      Write d \<Rightarrow> map_option (\<lambda>(ok, tw). ([], tw)) (pushTCPTransmitBuffer True tw d False)
    | Close \<Rightarrow> map_option (\<lambda>(ok, tw). ([], tw)) (pushTCPTransmitBuffer True tw [63] True)
    | Transmit rwa writeOK must \<Rightarrow>
        map_option (\<lambda>(ok, segs, d, n, tw). (segs, tw)) (transmitLoop writeOK rwa rawBufferSize 0 must tw)
    | Ack q win \<Rightarrow> map_option (\<lambda>(n, tw). ([], tw)) (receiveTCPACK tw (isn + of_nat q) win)
    | Retransmit \<Rightarrow> Some ([], rollbackTCPTransmitSequence tw))"

fun txEvents :: "u32 \<Rightarrow> nat \<Rightarrow> TCPTransmitWindow \<Rightarrow> tx_event list \<Rightarrow> (TCPSegment list \<times> TCPTransmitWindow) option" where
  "txEvents isn z tw [] = Some ([], tw)"
| "txEvents isn z tw (ev # evs) = do {
    (segs, tw) \<leftarrow> txEvent isn z tw ev;
    (segs', tw) \<leftarrow> txEvents isn z tw evs;
    Some (segs @ segs', tw)
  }"

text \<open>A possible history: nothing is written after the socket was closed, the remote host acknowledges nothing that was not
  written, and less than 3 GB are written.\<close>

fun tx_possible :: "u8 list \<Rightarrow> bool \<Rightarrow> tx_event list \<Rightarrow> bool" where
  "tx_possible S fin [] \<longleftrightarrow> length (written S fin) < MAX_STREAM"
| "tx_possible S fin (Write d # evs) \<longleftrightarrow> \<not> fin \<and> tx_possible (S @ d) fin evs"
| "tx_possible S fin (Close # evs) \<longleftrightarrow> \<not> fin \<and> tx_possible S True evs"
| "tx_possible S fin (Ack q win # evs) \<longleftrightarrow> q \<le> length (written S fin) \<and> tx_possible S fin evs"
| "tx_possible S fin (_ # evs) \<longleftrightarrow> tx_possible S fin evs"

fun tx_bytes :: "tx_event list \<Rightarrow> u8 list" where
  "tx_bytes [] = []"
| "tx_bytes (Write d # evs) = d @ tx_bytes evs"
| "tx_bytes (_ # evs) = tx_bytes evs"

lemma tx_possible_length: "tx_possible S fin evs \<Longrightarrow> length (written S fin) + length (tx_bytes evs) < MAX_STREAM"
proof (induction S fin evs rule: tx_possible.induct)
  case (3 S fin evs)
  then show ?case by (auto simp: written_def)
qed (auto simp: written_def)

lemma tx_possible_closed: "tx_possible S True evs \<Longrightarrow> tx_bytes evs = []"
  by (induction S True evs rule: tx_possible.induct) auto

text \<open>The handshake leaves an empty window at the sequence number after the one of the SYN packet.\<close>

definition startTransmit :: "u32 \<Rightarrow> nat \<Rightarrow> nat \<Rightarrow> TCPTransmitWindow" where
  "startTransmit isn scale mss = (initTCPTransmitWindow False isn)\<lparr>windowScale := scale, maxSegmentSize := mss\<rparr>"

lemma handshake_window:
  "ackTransmitWindow (initTCPTransmitWindow m (isn - 1)) isn = Some (1, initTCPTransmitWindow m isn)"
  by (subst ackTransmitWindow_def, subst ackLoop.simps)
    (simp add: initTCPTransmitWindow_def diffTCPSequence_def hasTCPTransmitBuffer_def)

lemma startTransmit_inv: "scale \<le> 14 \<Longrightarrow> transmit_inv [] False isn 0 0 0 (startTransmit isn scale mss)"
  by (simp add: transmit_inv_def startTransmit_def initTCPTransmitWindow_def written_def inside_def start_def)

lemma receiveTCPACK_inv:
  assumes "transmit_inv S fin isn p a c tw" "q \<le> length (written S fin)"
  shows "\<exists>n tw' p' a' c'. receiveTCPACK tw (isn + of_nat q) win = Some (n, tw') \<and> transmit_inv S fin isn p' a' c' tw' \<and>
    maxSegmentSize tw' = maxSegmentSize tw"
proof -
  obtain n tw' p' c' a' where t: "ackTransmitWindow tw (isn + of_nat q) = Some (n, tw')" "transmit_inv S fin isn p' a' c' tw'"
      "maxSegmentSize tw' = maxSegmentSize tw"
    using ackTransmitWindow_inv [OF assms] by blast
  let ?w = "push_bit (windowScale tw') (unat win)"
  have "unat win < 2 ^ 16" using unsigned_less [of win, where 'a = nat] by simp
  moreover have "(2 :: nat) ^ windowScale tw' \<le> 2 ^ 14" using t(2) by (intro power_increasing) (simp_all add: transmit_inv_def)
  ultimately have "?w \<le> 2 ^ 16 * 2 ^ 14" unfolding push_bit_eq_mult by (intro mult_le_mono) simp_all
  moreover have "start p' (tw'\<lparr>scaledWindowSize := ?w\<rparr>) = start p' tw'" by (simp add: start_def fun_eq_iff)
  ultimately have "transmit_inv S fin isn p' a' c' (tw'\<lparr>scaledWindowSize := ?w\<rparr>)"
    using t(2) unfolding transmit_inv_def inside_def by simp
  then show ?thesis using t unfolding receiveTCPACK_def by auto
qed

text \<open>A packet of the final stream: what a receiver has to know of it.\<close>

definition segment_of :: "u8 list \<Rightarrow> u32 \<Rightarrow> TCPSegment \<Rightarrow> bool" where
  "segment_of S isn seg \<longleftrightarrow> (\<exists>off. sequenceNumber seg = isn + of_nat off \<and>
    payload seg = take (length (payload seg)) (drop off S) \<and> (payload seg \<noteq> [] \<longrightarrow> off + length (payload seg) \<le> length S) \<and>
    (segFIN seg \<longrightarrow> off = length S))"

lemma segment_ok_of:
  assumes "segment_ok S fin isn a tw z seg" "fin \<longrightarrow> S' = []"
  shows "segment_of (S @ S') isn seg"
proof -
  obtain off where o: "sequenceNumber seg = isn + of_nat off" "payload seg = take (length (payload seg)) (drop off S)"
    "payload seg \<noteq> [] \<longrightarrow> off + length (payload seg) \<le> length S" "segFIN seg \<longrightarrow> fin \<and> off = length S"
    using assms(1) by (auto simp: segment_ok_def)
  have "payload seg = take (length (payload seg)) (drop off (S @ S'))"
    using o(2,3) by (cases "payload seg = []") auto
  then show ?thesis unfolding segment_of_def using o assms(2) by (intro exI [of _ off]) auto
qed

lemma segment_ok_length:
  "segment_ok S fin isn a tw z seg \<Longrightarrow> length (payload seg) \<le> maxSegmentSize tw \<and> length (payload seg) \<le> z - 20"
  by (auto simp: segment_ok_def)

lemma txEvent_inv:
  assumes inv: "transmit_inv S fin isn p a c tw" and ev: "tx_possible S fin (ev # evs)"
  shows "\<exists>segs tw' p' a' c' S' fin'. txEvent isn z tw ev = Some (segs, tw') \<and> transmit_inv S' fin' isn p' a' c' tw' \<and> tx_possible S' fin' evs \<and>
    S' @ tx_bytes evs = S @ tx_bytes (ev # evs) \<and> maxSegmentSize tw' = maxSegmentSize tw \<and>
    (\<forall>seg\<in>set segs. segment_ok S' fin' isn a tw z seg)"
proof (cases ev)
  case (Write d)
  then have f: "\<not> fin" "tx_possible (S @ d) False evs" using ev by (cases fin; simp)+
  have "length (written (S @ d) False) < MAX_STREAM" using tx_possible_length [OF f(2)] by simp
  then obtain tw' where "pushTCPTransmitBuffer True tw d False = Some (True, tw')" "transmit_inv (S @ d) False isn p a c tw'" "maxSegmentSize tw' = maxSegmentSize tw"
    using push_inv [of S isn p a c tw d False d] inv f(1) by auto
  then show ?thesis using f(2) Write
    by (intro exI [of _ "[]"] exI [of _ tw'] exI [of _ p] exI [of _ a] exI [of _ c] exI [of _ "S @ d"] exI [of _ False]) (simp add: txEvent_def)
next
  case Close
  then have f: "\<not> fin" "tx_possible S True evs" using ev by simp_all
  have "length (written (S @ []) True) < MAX_STREAM" using tx_possible_length [OF f(2)] by simp
  then obtain tw' where "pushTCPTransmitBuffer True tw [63] True = Some (True, tw')" "transmit_inv S True isn p a c tw'" "maxSegmentSize tw' = maxSegmentSize tw"
    using push_inv [of S isn p a c tw "[]" True "[63]"] inv f(1) by auto
  then show ?thesis using f(2) Close
    by (intro exI [of _ "[]"] exI [of _ tw'] exI [of _ p] exI [of _ a] exI [of _ c] exI [of _ S] exI [of _ True]) (simp add: txEvent_def)
next
  case (Transmit rwa w must)
  obtain r ps d m c' tw' where t: "transmitLoop w rwa z 0 must tw = Some (r, ps, d, m, tw')" "transmit_inv S fin isn p a c' tw'"
    "maxSegmentSize tw' = maxSegmentSize tw" "\<forall>seg\<in>set ps. segment_ok S fin isn a tw z seg"
    using transmitLoop_inv [OF inv] by blast
  then show ?thesis using ev Transmit
    by (intro exI [of _ ps] exI [of _ tw'] exI [of _ p] exI [of _ a] exI [of _ c'] exI [of _ S] exI [of _ fin]) (simp add: txEvent_def)
next
  case (Ack q win)
  then have q: "q \<le> length (written S fin)" "tx_possible S fin evs" using ev by simp_all
  obtain n tw' p' a' c' where t: "receiveTCPACK tw (isn + of_nat q) win = Some (n, tw')" "transmit_inv S fin isn p' a' c' tw'" "maxSegmentSize tw' = maxSegmentSize tw"
    using receiveTCPACK_inv [OF inv q(1)] by blast
  then show ?thesis using q(2) Ack
    by (intro exI [of _ "[]"] exI [of _ tw'] exI [of _ p'] exI [of _ a'] exI [of _ c'] exI [of _ S] exI [of _ fin]) (simp add: txEvent_def)
next
  case Retransmit
  then show ?thesis using rollback_inv [OF inv] ev
    by (intro exI [of _ "[]"] exI [of _ "rollbackTCPTransmitSequence tw"] exI [of _ p] exI [of _ a] exI [of _ a] exI [of _ S] exI [of _ fin])
      (simp add: txEvent_def rollbackTCPTransmitSequence_def)
qed

lemma txEvents_inv:
  assumes "transmit_inv S fin isn p a c tw" "tx_possible S fin evs"
  shows "\<exists>segs tw'. txEvents isn z tw evs = Some (segs, tw') \<and>
    (\<forall>seg\<in>set segs. segment_of (S @ tx_bytes evs) isn seg \<and> length (payload seg) \<le> maxSegmentSize tw \<and> length (payload seg) \<le> z - 20)"
  using assms
proof (induction evs arbitrary: S fin p a c tw)
  case (Cons ev evs)
  obtain segs tw1 p1 a1 c1 S1 fin1 where s: "txEvent isn z tw ev = Some (segs, tw1)" "transmit_inv S1 fin1 isn p1 a1 c1 tw1" "tx_possible S1 fin1 evs"
    "S1 @ tx_bytes evs = S @ tx_bytes (ev # evs)" "maxSegmentSize tw1 = maxSegmentSize tw" "\<forall>seg\<in>set segs. segment_ok S1 fin1 isn a tw z seg"
    using txEvent_inv [OF Cons.prems] by blast
  obtain segs2 tw2 where t: "txEvents isn z tw1 evs = Some (segs2, tw2)"
    "\<forall>seg\<in>set segs2. segment_of (S1 @ tx_bytes evs) isn seg \<and> length (payload seg) \<le> maxSegmentSize tw1 \<and> length (payload seg) \<le> z - 20"
    using Cons.IH [OF s(2,3)] by blast
  have "fin1 \<longrightarrow> tx_bytes evs = []" using tx_possible_closed s(3) by (cases fin1) auto
  then have "\<forall>seg\<in>set segs. segment_of (S1 @ tx_bytes evs) isn seg \<and> length (payload seg) \<le> maxSegmentSize tw \<and> length (payload seg) \<le> z - 20"
    using s(6) segment_ok_of segment_ok_length by meson
  then show ?case using s(1,4,5) t by auto
qed simp

text \<open>Whatever the program writes, the remote host acknowledges and the timer repeats, no assertion of the transmit
  window fails, and each packet handed to the raw socket carries the bytes of the written stream at its sequence number,
  fits the maximum segment size and the buffer, and is a FIN packet only right after the last byte written.\<close>

lemma tcp_sender_correct:
  assumes "scale \<le> 14" "tx_possible [] False evs"
  shows "\<exists>segs tw. txEvents isn rawBufferSize (startTransmit isn scale mss) evs = Some (segs, tw) \<and>
    (\<forall>seg\<in>set segs. segment_of (tx_bytes evs) isn seg \<and> length (payload seg) \<le> mss \<and> length (payload seg) \<le> rawBufferSize - 20)"
  using txEvents_inv [OF startTransmit_inv [OF assms(1)] assms(2), of isn rawBufferSize mss]
  by (simp add: startTransmit_def)

text \<open>Retransmission: when the timer has put the window back to the first unacknowledged byte, the next packet begins there
  and is not empty, as long as the remote window and the maximum segment size are not 0.\<close>

lemma retransmit_first_unacknowledged:
  assumes "transmit_inv S fin isn p a c tw" "a < length S" "0 < scaledWindowSize tw" "0 < maxSegmentSize tw" "20 < z"
  shows "\<exists>seg d tw'. transmitTCPDataPacket True rwa z must (rollbackTCPTransmitSequence tw) = Some (True, [seg], d, tw') \<and>
    sequenceNumber seg = isn + of_nat a \<and> payload seg = take d (drop a S) \<and> 0 < d"
proof -
  let ?tw = "rollbackTCPTransmitSequence tw"
  have w: "scaledWindowSize ?tw = scaledWindowSize tw" "maxSegmentSize ?tw = maxSegmentSize tw" "currentSequence ?tw = isn + of_nat a"
    using assms(1) by (simp_all add: rollbackTCPTransmitSequence_def transmit_inv_def)
  obtain k tw' where k: "copyTCPTransmitBuffer ?tw (z - 20) = Some (take k (drop a S), tw')" "0 < k" "a + k \<le> length S"
    using copyTCPTransmitBuffer_inv [OF rollback_inv [OF assms(1)], of "z - 20"] assms(2-5) w by auto
  then have "length (take k (drop a S)) = k" "take k (drop a S) \<noteq> []" using assms(2) by auto
  then show ?thesis using k w(3) unfolding transmitTCPDataPacket_def
    by (auto simp: Let_def)
qed

text \<open>A segment size of 0, which a SYN packet without that option leaves behind, stops all transmission.\<close>

lemma zero_segment_size:
  "maxSegmentSize tw = 0 \<Longrightarrow> copyTCPTransmitBuffer tw n = Some ([], tw)"
  by (simp add: copyTCPTransmitBuffer_def Let_def copyLoop.simps [of 0])

text \<open>The sentinel's flag is not initialised: when its memory is not zero, the first packet without data stops the kernel.\<close>

lemma uninitialised_FIN: "transmitLoop w rwa z n True (initTCPTransmitWindow True isn) = None"
  by (subst transmitLoop.simps) (simp add: initTCPTransmitWindow_def transmitTCPFINPacket_def entry_def tbSize_def Let_def)

text \<open>The retransmission counter: as long as no byte is acknowledged, the timer repeats at most four times before it gives up.\<close>

fun timeouts :: "nat \<Rightarrow> RetransmitCounter \<Rightarrow> TCPTransmitWindow \<Rightarrow> bool" where
  "timeouts 0 rc tw = True"
| "timeouts (Suc n) rc tw = (let (ok, doRetransmit, delay, rc') = checkRetransmit rc tw in ok \<and> timeouts n rc' tw)"

lemma timeouts_bounded:
  assumes "hasTCPTransmitBuffer tw"
  shows "timeouts n (resetRetransmit tw) tw \<longleftrightarrow> n \<le> 4"
proof -
  have "timeouts n rc tw \<longleftrightarrow> rcCount rc + n \<le> 4" if "startSequence rc = twBegin tw" "maxCount rc = 4" "rcCount rc \<le> 4" for rc
    using that assms by (induction n rc tw rule: timeouts.induct) (auto simp: checkRetransmit_def)
  then show ?thesis by (simp add: resetRetransmit_def)
qed

section \<open>Sender and receiver\<close>

text \<open>The network delivers packets of the sender in any order, any number of times, or not at all; the receiver reads.\<close>

datatype net_event =
    Deliver TCPSegment
  | ReadRequest nat nat

definition netEvent :: "TCPReceiveWindow \<Rightarrow> net_event \<Rightarrow> TCPReceiveWindow option" where
  "netEvent rw ev = (case ev of
      Deliver seg \<Rightarrow> map_option snd (receiveTCPSegment rw (segFIN seg) (sequenceNumber seg) (payload seg))
    | ReadRequest r n \<Rightarrow> Some (snd (pushTCPReceiveBuffer True rw r n)))"

fun netEvents :: "TCPReceiveWindow \<Rightarrow> net_event list \<Rightarrow> ((nat \<times> u8 list) list \<times> TCPReceiveWindow) option" where
  "netEvents rw [] = Some ([], rw)"
| "netEvents rw (ev # evs) = do {
    rw \<leftarrow> netEvent rw ev;
    (out, rw) \<leftarrow> copyTCPReceiveBuffer rw;
    (outs, rw) \<leftarrow> netEvents rw evs;
    Some (out @ outs, rw)
  }"

fun delivered :: "net_event list \<Rightarrow> TCPSegment list" where
  "delivered [] = []"
| "delivered (Deliver seg # evs) = seg # delivered evs"
| "delivered (ReadRequest r n # evs) = delivered evs"

lemma segment_event:
  assumes "segment_of S isn seg"
  shows "\<exists>ev. (\<forall>rw. tcpEvent S isn rw ev = netEvent rw (Deliver seg)) \<and> (ev = Finish \<longrightarrow> segFIN seg)"
proof -
  obtain off where o: "sequenceNumber seg = isn + of_nat off" "payload seg = take (length (payload seg)) (drop off S)" "segFIN seg \<longrightarrow> off = length S"
    using assms by (auto simp: segment_of_def)
  show ?thesis
  proof (cases "segFIN seg")
    case True
    then show ?thesis using o by (intro exI [of _ Finish]) (simp add: tcpEvent_def netEvent_def receiveTCPSegment_def)
  next
    case False
    then show ?thesis using o(1) o(2) [symmetric]
      by (intro exI [of _ "Segment off (length (payload seg))"]) (simp add: tcpEvent_def netEvent_def)
  qed
qed

lemma net_history:
  assumes "\<forall>seg\<in>set (delivered net). segment_of S isn seg"
  shows "\<exists>evs. (\<forall>rw. receiveEvents S isn rw evs = netEvents rw net) \<and> (Finish \<in> set evs \<longrightarrow> (\<exists>seg\<in>set (delivered net). segFIN seg))"
  using assms
proof (induction net)
  case Nil
  then show ?case by (intro exI [of _ "[]"]) simp
next
  case (Cons ev net)
  have "\<exists>tev. (\<forall>rw. tcpEvent S isn rw tev = netEvent rw ev) \<and> (tev = Finish \<longrightarrow> (\<exists>seg\<in>set (delivered (ev # net)). segFIN seg))"
  proof (cases ev)
    case (Deliver seg)
    then show ?thesis using segment_event [of S isn seg] Cons.prems by auto
  next
    case (ReadRequest r n)
    then show ?thesis by (intro exI [of _ "Read r n"]) (simp add: tcpEvent_def netEvent_def)
  qed
  then obtain tev where t: "\<And>rw. tcpEvent S isn rw tev = netEvent rw ev" "tev = Finish \<longrightarrow> (\<exists>seg\<in>set (delivered (ev # net)). segFIN seg)"
    by blast
  have d: "set (delivered net) \<subseteq> set (delivered (ev # net))" by (cases ev) auto
  then obtain evs where i: "\<And>rw. receiveEvents S isn rw evs = netEvents rw net" "Finish \<in> set evs \<longrightarrow> (\<exists>seg\<in>set (delivered net). segFIN seg)"
    using Cons by blast
  have "receiveEvents S isn rw (tev # evs) = netEvents rw (ev # net)" for rw by (simp add: t(1) i(1))
  moreover have "Finish \<in> set (tev # evs) \<longrightarrow> (\<exists>seg\<in>set (delivered (ev # net)). segFIN seg)" using t(2) i(2) d by auto
  ultimately show ?case by blast
qed

text \<open>C15: end to end. A network that reorders, repeats and drops the packets of a sender, retransmissions included, does not
  corrupt the stream: what the receiver's reads return is a prefix of what the sender's program wrote, and all of it once the
  receiver has reached the FIN packet; an assertion of the receiver fails only after a FIN packet was delivered.\<close>

theorem tcp_end_to_end:
  assumes "scale \<le> 14" "tx_possible [] False evs" "txEvents isn rawBufferSize (startTransmit isn scale mss) evs = Some (segs, tw)"
    "set (delivered net) \<subseteq> set segs"
  shows "case netEvents (startWindow isn) net of
      None \<Rightarrow> \<exists>seg\<in>set (delivered net). segFIN seg
    | Some (out, rw) \<Rightarrow> (\<exists>rest. tx_bytes evs = concat (map snd out) @ rest \<and>
        (reachFinish rw \<and> sequenceFinish rw = sequenceBegin rw \<longrightarrow> rest = []))"
proof -
  let ?S = "tx_bytes evs"
  have "\<forall>seg\<in>set segs. segment_of ?S isn seg"
    using txEvents_inv [OF startTransmit_inv [OF assms(1)] assms(2), of isn rawBufferSize mss] assms(3) by auto
  then obtain revs where r: "\<And>rw. receiveEvents ?S isn rw revs = netEvents rw net"
      "Finish \<in> set revs \<longrightarrow> (\<exists>seg\<in>set (delivered net). segFIN seg)"
    using net_history [of net ?S isn] assms(4) by blast
  have l: "length ?S + 8192 < 2 ^ 32" using tx_possible_length [OF assms(2)] by (simp add: written_def)
  show ?thesis
  proof (cases "netEvents (startWindow isn) net")
    case None
    then have "receiveEvents ?S isn (startWindow isn) revs = None" using r(1) by simp
    then have "fin_overtakes ?S isn (startWindow isn) 0 revs" using receiveEvents_start [OF l, of isn revs] by simp
    then show ?thesis using None r(2) by (auto simp: fin_overtakes_def)
  next
    case (Some q)
    obtain out rw where q: "q = (out, rw)" by (cases q)
    then have d: "concat (map snd out) = take (length (concat (map snd out))) ?S"
      "reachFinish rw \<and> sequenceFinish rw = sequenceBegin rw \<longrightarrow> concat (map snd out) = ?S"
      using receiveEvents_start [OF l, of isn revs] r(1) Some by simp_all
    have "?S = concat (map snd out) @ drop (length (concat (map snd out))) ?S" using d(1) by (metis append_take_drop_id)
    then show ?thesis using Some q d(2) by (auto intro!: exI [of _ "drop (length (concat (map snd out))) ?S"])
  qed
qed

theorem tcp_end_to_end_witness:
  "case netEvents (startWindow 7) [Deliver \<lparr>sequenceNumber = 7, acknowledgeNumber = 5, advertisedSize = 8192, segFIN = False, payload = [1, 2]\<rparr>,
        ReadRequest 1 10] of
      None \<Rightarrow> \<exists>seg\<in>set (delivered [Deliver \<lparr>sequenceNumber = 7, acknowledgeNumber = 5, advertisedSize = 8192, segFIN = False, payload = [1, 2]\<rparr>,
        ReadRequest 1 10]). segFIN seg
    | Some (out, rw) \<Rightarrow> (\<exists>rest. tx_bytes [Write [1, 2], Transmit \<lparr>ackNumber = 5, windowRemainSize = 8192, isFINACK = False\<rparr> (\<lambda>i. True) False] =
        concat (map snd out) @ rest \<and> (reachFinish rw \<and> sequenceFinish rw = sequenceBegin rw \<longrightarrow> rest = []))"
  by (rule tcp_end_to_end [where scale = 0 and rawBufferSize = 1480 and mss = 1460 and
      segs = "[\<lparr>sequenceNumber = 7, acknowledgeNumber = 5, advertisedSize = 8192, segFIN = False, payload = [1, 2]\<rparr>]" and
      tw = "snd (the (txEvents 7 1480 (startTransmit 7 0 1460)
        [Write [1, 2], Transmit \<lparr>ackNumber = 5, windowRemainSize = 8192, isFINACK = False\<rparr> (\<lambda>i. True) False]))"])
    (simp_all add: transmitLoop.simps [of _ _ _ 0] transmitLoop.simps [of _ _ _ 1] transmitLoop.simps [of _ _ _ "Suc 0"] copyLoop.simps
      transmitTCPDataPacket_def written_def txEvent_def pushTCPTransmitBuffer_def createTCPTransmitBuffer_def startTransmit_def
      initTCPTransmitWindow_def addTCPSequence_def Let_def entry_def copyTCPTransmitBuffer_def getTCPTransmitRemainSize_def
      diffTCPSequence_def copyStep_def tbSize_def addTCPTransmitSequence_def)

end
