(* ===== verification/Tcp.thy ===== *)
theory Tcp
  imports Udp TcpTransmit
begin

text \<open>
  The packets of TCP, \<open>kernel/io/network/tcp.c\<close>: the header with its flags and checksum, the options of a SYN packet,
  validation and filtering of received packets, the two handshakes, and the listener that hands SYN packets to
  waiting servers. A packet is byte memory seen through a pointer; a segment of \<open>TcpTransmit\<close> is what a packet
  stands for.
\<close>

abbreviation (input) sizeof_TCPHeader :: nat where "sizeof_TCPHeader \<equiv> 20"
abbreviation (input) IP_DATA_PROTOCOL_TCP :: u8 where "IP_DATA_PROTOCOL_TCP \<equiv> 6"

text \<open>\<open>lowFlags\<close> holds \<open>ns\<close> and the reserved bits; \<open>controlBits\<close> holds FIN, SYN, RST, PSH and ACK from bit 0 on.\<close>

record TCPHeader =
  tcpSource :: u16
  tcpDestination :: u16
  tcpSequence :: u32
  tcpAcknowledge :: u32
  lowFlags :: "4 word"
  dataOffset :: "4 word"
  controlBits :: u8
  tcpWindow :: u16
  tcpChecksum :: u16
  urgentPointer :: u16

definition storeTCPHeader :: "TCPHeader \<Rightarrow> u8 list" where
  "storeTCPHeader h = le16 (tcpSource h) @ le16 (tcpDestination h) @ le32 (tcpSequence h) @ le32 (tcpAcknowledge h) @
    [ucast (lowFlags h) OR push_bit 4 (ucast (dataOffset h)), controlBits h] @
    le16 (tcpWindow h) @ le16 (tcpChecksum h) @ le16 (urgentPointer h)"

definition loadTCPHeader :: "bytes \<Rightarrow> TCPHeader" where
  "loadTCPHeader p = \<lparr>tcpSource = u16at p 0, tcpDestination = u16at p 2, tcpSequence = u32at p 4, tcpAcknowledge = u32at p 8,
    lowFlags = ucast (p 12), dataOffset = ucast (drop_bit 4 (p 12)), controlBits = p 13, tcpWindow = u16at p 14,
    tcpChecksum = u16at p 16, urgentPointer = u16at p 18\<rparr>"

abbreviation (input) FIN :: nat where "FIN \<equiv> 0"
abbreviation (input) SYN :: nat where "SYN \<equiv> 1"
abbreviation (input) RST :: nat where "RST \<equiv> 2"
abbreviation (input) ACK :: nat where "ACK \<equiv> 4"

definition flag :: "bytes \<Rightarrow> nat \<Rightarrow> bool" where
  "flag p n = bit (controlBits (loadTCPHeader p)) n"

definition getTCPHeaderSize :: "bytes \<Rightarrow> nat" where
  "getTCPHeaderSize p = 4 * unat (dataOffset (loadTCPHeader p))"

definition getAcknowledgeNumber :: "bytes \<Rightarrow> u32" where
  "getAcknowledgeNumber p = changeEndian32 (tcpAcknowledge (loadTCPHeader p))"

definition getSequenceNumber :: "bytes \<Rightarrow> u32" where
  "getSequenceNumber p = changeEndian32 (tcpSequence (loadTCPHeader p))"

definition getWindowSize :: "bytes \<Rightarrow> u16" where
  "getWindowSize p = changeEndian16 (tcpWindow (loadTCPHeader p))"

section \<open>Making packets\<close>

definition initTCPPacket :: "bytes \<Rightarrow> u32 \<Rightarrow> u32 \<Rightarrow> u16 \<Rightarrow> u8 \<Rightarrow> u16 \<Rightarrow> u16 \<Rightarrow> nat \<times> bytes" where
  "initTCPPacket p seqNumber ack win control lPort rPort =
    (sizeof_TCPHeader, putBytes 0 (storeTCPHeader \<lparr>tcpSource = changeEndian16 lPort, tcpDestination = changeEndian16 rPort,
      tcpSequence = changeEndian32 seqNumber, tcpAcknowledge = changeEndian32 ack, lowFlags = 0, dataOffset = 0,
      controlBits = control, tcpWindow = changeEndian16 win, tcpChecksum = 0, urgentPointer = 0\<rparr>) p)"

definition initTCPData :: "bytes \<Rightarrow> nat \<Rightarrow> (nat \<times> bytes) option" where
  "initTCPData p offset = do {
    kassert (offset mod 4 = 0);
    Some (offset, putBytes 12 [ucast (lowFlags (loadTCPHeader p)) OR push_bit 4 (ucast (of_nat (offset div 4) :: 4 word))] p)
  }"

definition finishInitTCPPacket :: "bytes \<Rightarrow> nat \<Rightarrow> u32 \<Rightarrow> u32 \<Rightarrow> (nat \<times> bytes) option" where
  "finishInitTCPPacket p offset localAddr remoteAddr = do {
    let p = putBytes 16 (le16 0) p;
    let p = putBytes 16 (le16 (calculateIPDataChecksum2 p (of_nat offset) localAddr remoteAddr IP_DATA_PROTOCOL_TCP)) p;
    kassert (calculateIPDataChecksum2 p (of_nat offset) localAddr remoteAddr IP_DATA_PROTOCOL_TCP = 0);
    Some (offset, p)
  }"

definition appendTCPMaxSegmentSize :: "bytes \<Rightarrow> nat \<Rightarrow> u16 \<Rightarrow> nat \<times> bytes" where
  "appendTCPMaxSegmentSize p offset ssize = (offset + 4, putBytes offset ([2, 4] @ le16 (changeEndian16 ssize)) p)"

definition appendTCPWindowScale :: "bytes \<Rightarrow> nat \<Rightarrow> u8 \<Rightarrow> nat \<times> bytes" where
  "appendTCPWindowScale p offset scale = (offset + 4, putBytes offset [3, 3, scale, 1] p)"

definition appendTCPOptionEnd :: "bytes \<Rightarrow> nat \<Rightarrow> nat \<times> bytes" where
  "appendTCPOptionEnd p offset = (offset + 4, putBytes offset [0, 0, 0, 0] p)"

text \<open>The packet that \<open>transmitTCPDataPacket\<close> and \<open>transmitTCPFINPacket\<close> write for a segment: its size and its bytes.\<close>

definition segmentPacket :: "bytes \<Rightarrow> TCPSegment \<Rightarrow> u32 \<Rightarrow> u16 \<Rightarrow> u32 \<Rightarrow> u16 \<Rightarrow> (nat \<times> bytes) option" where
  "segmentPacket p seg lAddr lPort rAddr rPort = do {
    let (offset, p) = initTCPPacket p (sequenceNumber seg) (acknowledgeNumber seg) (advertisedSize seg)
      (if segFIN seg then 0x11 else 0x10) lPort rPort;
    (offset, p) \<leftarrow> initTCPData p offset;
    let p = putBytes offset (payload seg) p;
    finishInitTCPPacket p (offset + length (payload seg)) lAddr rAddr
  }"

definition transmitTCPSYNPacket :: "bytes \<Rightarrow> bool \<Rightarrow> TCPReceiveWindow \<Rightarrow> TCPTransmitWindow \<Rightarrow> nat \<Rightarrow> u32 \<Rightarrow> u16 \<Rightarrow> u32 \<Rightarrow> u16 \<Rightarrow> (nat \<times> bytes) option" where
  "transmitTCPSYNPacket p withACK rw tw rawBufferSize lAddr lPort rAddr rPort = do {
    let rwa = getTCPReceiveACK rw;
    kassert (\<not> isFINACK rwa);
    let (offset, p) = initTCPPacket p (currentSequence tw) (ackNumber rwa) (windowRemainSize rwa)
      (if withACK then 0x12 else 2) lPort rPort;
    let (offset, p) = appendTCPWindowScale p offset 0;
    let (offset, p) = appendTCPMaxSegmentSize p offset (of_nat (rawBufferSize - sizeof_TCPHeader));
    let (offset, p) = appendTCPOptionEnd p offset;
    (offset, p) \<leftarrow> initTCPData p offset;
    finishInitTCPPacket p offset lAddr rAddr
  }"

section \<open>Options\<close>

record TCPOptions =
  maxSegSize :: nat
  scaleOption :: nat
  sackPermitted :: bool

definition parseTCPMaxSegmentSize :: "bytes \<Rightarrow> TCPOptions \<Rightarrow> TCPOptions" where
  "parseTCPMaxSegmentSize p opt =
    (if p 0 \<noteq> 2 \<or> p 1 \<noteq> 4 then opt
     else let mss = changeEndian16 (u16at p 2) in if unat mss < 576 then opt else opt\<lparr>maxSegSize := unat mss\<rparr>)"

definition parseTCPWindowScale :: "bytes \<Rightarrow> TCPOptions \<Rightarrow> TCPOptions" where
  "parseTCPWindowScale p opt = (if p 0 \<noteq> 3 \<or> p 1 \<noteq> 3 then opt else if p 2 > 14 then opt else opt\<lparr>scaleOption := unat (p 2)\<rparr>)"

definition parseTCPSACKPermitted :: "bytes \<Rightarrow> TCPOptions \<Rightarrow> TCPOptions" where
  "parseTCPSACKPermitted p opt = (if p 0 \<noteq> 4 \<or> p 1 \<noteq> 2 then opt else opt\<lparr>sackPermitted := True\<rparr>)"

text \<open>The loop over the options from \<open>offset\<close> on. Only the first \<open>limit\<close> bytes of the packet are memory of the packet; a read
  behind them has the result \<open>None\<close>.\<close>

function parseOptionsFrom :: "bytes \<Rightarrow> nat \<Rightarrow> nat \<Rightarrow> nat \<Rightarrow> TCPOptions \<Rightarrow> (bool \<times> TCPOptions) option" where
  "parseOptionsFrom p limit headerSize offset opt =
    (if offset = headerSize then Some (True, opt)
     else if offset \<ge> limit then None
     else if p offset = 0 then Some (True, opt)
     else if p offset = 1 then parseOptionsFrom p limit headerSize (offset + 1) opt
     else if offset + 1 \<ge> headerSize then Some (False, opt)
     else if offset + 1 \<ge> limit then None
     else let optionSize = unat (p (offset + 1)) in
       if optionSize < 2 \<or> offset + optionSize > headerSize then Some (False, opt)
       else if offset + optionSize > limit then None
       else parseOptionsFrom p limit headerSize (offset + optionSize)
         (parseTCPSACKPermitted (shift offset p) (parseTCPWindowScale (shift offset p) (parseTCPMaxSegmentSize (shift offset p) opt))))"
  by pat_completeness auto
termination
  by (relation "measure (\<lambda>(p, limit, headerSize, offset, opt). limit - offset)") auto

declare parseOptionsFrom.simps [simp del]

definition parseTCPOptions :: "bytes \<Rightarrow> nat \<Rightarrow> TCPOptions \<Rightarrow> (bool \<times> TCPOptions) option" where
  "parseTCPOptions p limit opt = parseOptionsFrom p limit (getTCPHeaderSize p) sizeof_TCPHeader opt"

section \<open>Received packets\<close>

definition receiveTCPSYN :: "bytes \<Rightarrow> nat \<Rightarrow> TCPTransmitWindow \<Rightarrow> (bool \<times> TCPTransmitWindow) option" where
  "receiveTCPSYN p limit tw =
    (if \<not> flag p SYN then Some (False, tw)
     else do {
       (ok, opt) \<leftarrow> parseTCPOptions p limit \<lparr>maxSegSize = 0, scaleOption = 0, sackPermitted = False\<rparr>;
       Some (if \<not> ok then (False, tw) else (True, tw\<lparr>windowScale := scaleOption opt, maxSegmentSize := maxSegSize opt\<rparr>))
     })"

definition receiveACK :: "bytes \<Rightarrow> TCPTransmitWindow \<Rightarrow> (nat \<times> TCPTransmitWindow) option" where
  "receiveACK p tw = (if \<not> flag p ACK then Some (0, tw) else receiveTCPACK tw (getAcknowledgeNumber p) (getWindowSize p))"

text \<open>\<open>receiveTCPDataPacket\<close>: the size of the data and of the acknowledgement, and the windows. When the header size is beyond
  the packet, the size of the data wraps around and the copy leaves the buffer.\<close>

definition receiveTCPDataPacket ::
  "bytes \<Rightarrow> nat \<Rightarrow> TCPReceiveWindow \<Rightarrow> TCPTransmitWindow \<Rightarrow> (nat \<times> nat \<times> TCPReceiveWindow \<times> TCPTransmitWindow) option" where
  "receiveTCPDataPacket p readSize rw tw = do {
    (ackSize, tw) \<leftarrow> receiveACK p tw;
    let dataBegin = getTCPHeaderSize p;
    kassert (flag p FIN \<or> dataBegin \<le> readSize);
    (dataSize, rw) \<leftarrow> receiveTCPSegment rw (flag p FIN) (getSequenceNumber p) (view p dataBegin readSize);
    Some (dataSize, ackSize, rw, tw)
  }"

definition validateTCPPacket :: "bytes \<Rightarrow> u32 \<Rightarrow> bytes option" where
  "validateTCPPacket ip packetSize =
    (if protocol (loadHeader ip) \<noteq> IP_DATA_PROTOCOL_TCP then None
     else let ipHeaderSize = getIPHeaderSize ip in
       if ipHeaderSize + of_nat sizeof_TCPHeader > packetSize then None
       else let h = getIPData ip; tcpHeaderSize = of_nat (getTCPHeaderSize h) in
         if ipHeaderSize + tcpHeaderSize > packetSize then None
         else if calculateIPDataChecksum ip \<noteq> 0 then None
         else Some h)"

definition filterTCPSYNPacket :: "IPSocketArguments \<Rightarrow> bytes \<Rightarrow> u32 \<Rightarrow> bool option" where
  "filterTCPSYNPacket a ip packetSize = (case validateTCPPacket ip packetSize of
      None \<Rightarrow> Some False
    | Some h \<Rightarrow>
        if \<not> flag h SYN \<or> flag h ACK \<or> flag h RST \<or> flag h FIN then Some False
        else do {
          (ok, opt) \<leftarrow> parseTCPOptions h (unat (packetSize - getIPHeaderSize ip)) \<lparr>maxSegSize = 0, scaleOption = 0, sackPermitted = False\<rparr>;
          Some (ok \<and> \<not> (remotePort a \<noteq> ANY_PORT \<and> remotePort a \<noteq> changeEndian16 (tcpSource (loadTCPHeader h)) \<or>
            localPort a \<noteq> ANY_PORT \<and> localPort a \<noteq> changeEndian16 (tcpDestination (loadTCPHeader h))))
        })"

definition filterTCPPacket :: "IPSocketArguments \<Rightarrow> bytes \<Rightarrow> u32 \<Rightarrow> bool" where
  "filterTCPPacket a ip packetSize = (case validateTCPPacket ip packetSize of
      None \<Rightarrow> False
    | Some h \<Rightarrow>
        if remotePort a \<noteq> changeEndian16 (tcpSource (loadTCPHeader h)) \<or>
          localPort a \<noteq> changeEndian16 (tcpDestination (loadTCPHeader h)) \<or>
          remoteAddress a \<noteq> source (loadHeader ip) \<or>
          (localAddress a \<noteq> ANY_IPV4_ADDRESS \<and> localAddress a \<noteq> destination (loadHeader ip))
        then False else True)"

section \<open>Handshakes\<close>

text \<open>\<open>receiveTCPSYNACKPacket\<close> for the packet that was read before the timeout.\<close>

definition receiveTCPSYNACKPacket :: "bytes \<Rightarrow> nat \<Rightarrow> TCPReceiveWindow \<Rightarrow> TCPTransmitWindow \<Rightarrow> (bool \<times> TCPReceiveWindow \<times> TCPTransmitWindow) option" where
  "receiveTCPSYNACKPacket p readSize rw tw =
    (if readSize < getTCPHeaderSize p then Some (False, rw, tw)
     else do {
       (ok, tw) \<leftarrow> receiveTCPSYN p readSize tw;
       (if \<not> ok then Some (False, rw, tw)
        else do {
          (n, tw) \<leftarrow> receiveACK p tw;
          (if n = 0 then Some (False, rw, tw)
           else Some (True, synTCPReceiveWindow rw (getSequenceNumber p + 1), tw))
        })
     })"

text \<open>The first part of \<open>tcpHandShake\<close>: each element of the list is one try, with the result of writing the SYN packet and the
  packet read before the timeout, if any. There are at most \<open>TCP_MAX_RETRANSMIT_COUNT + 1\<close> tries.\<close>

fun clientTries :: "nat \<Rightarrow> (bool \<times> (bytes \<times> nat) option) list \<Rightarrow> TCPReceiveWindow \<Rightarrow> TCPTransmitWindow \<Rightarrow>
    (bool \<times> TCPReceiveWindow \<times> TCPTransmitWindow) option" where
  "clientTries 0 tries rw tw = Some (False, rw, tw)"
| "clientTries (Suc n) [] rw tw = Some (False, rw, tw)"
| "clientTries (Suc n) ((writeOK, reply) # tries) rw tw =
    (case (writeOK, reply) of
       (True, Some (p, readSize)) \<Rightarrow> (case receiveTCPSYNACKPacket p readSize rw tw of
           None \<Rightarrow> None
         | Some (ok, rw, tw) \<Rightarrow> if ok then Some (True, rw, tw) else clientTries n tries rw tw)
     | _ \<Rightarrow> clientTries n tries rw tw)"

definition tcpHandShake :: "(bool \<times> (bytes \<times> nat) option) list \<Rightarrow> (nat \<Rightarrow> bool) \<Rightarrow> nat \<Rightarrow> TCPReceiveWindow \<Rightarrow> TCPTransmitWindow \<Rightarrow>
    (bool \<times> TCPSegment list \<times> TCPReceiveWindow \<times> TCPTransmitWindow) option" where
  "tcpHandShake tries writeOK rawBufferSize rw tw = do {
    (ok, rw, tw) \<leftarrow> clientTries 5 tries rw tw;
    (if \<not> ok then Some (False, [], rw, tw)
     else do {
       (ok, segs, seqDiff, n, tw) \<leftarrow> transmitLoop writeOK (getTCPReceiveACK rw) rawBufferSize 0 True tw;
       (if \<not> ok then Some (False, segs, rw, tw)
        else do { kassert (seqDiff = 0); Some (True, segs, rw, tw) })
     })
  }"

text \<open>The end of \<open>tcpServerHandshake1\<close>: the SYN packet passed the filter of the listener.\<close>

definition tcpServerHandshake1 :: "bytes \<Rightarrow> nat \<Rightarrow> TCPReceiveWindow \<Rightarrow> TCPTransmitWindow \<Rightarrow> (TCPReceiveWindow \<times> TCPTransmitWindow) option" where
  "tcpServerHandshake1 p limit rw tw = do {
    (ok, tw) \<leftarrow> receiveTCPSYN p limit tw;
    kassert ok;
    Some (synTCPReceiveWindow rw (getSequenceNumber p + 1), tw)
  }"

fun tcpServerHandShake :: "nat \<Rightarrow> (bool \<times> (bytes \<times> nat) option) list \<Rightarrow> TCPReceiveWindow \<Rightarrow> TCPTransmitWindow \<Rightarrow>
    (bool \<times> TCPReceiveWindow \<times> TCPTransmitWindow) option" where
  "tcpServerHandShake 0 tries rw tw = Some (False, rw, tw)"
| "tcpServerHandShake (Suc n) [] rw tw = Some (False, rw, tw)"
| "tcpServerHandShake (Suc n) ((writeOK, reply) # tries) rw tw =
    (case (writeOK, reply) of
       (True, Some (p, readSize)) \<Rightarrow> (case receiveTCPDataPacket p readSize rw tw of
           None \<Rightarrow> None
         | Some (dataSize, ackSize, rw, tw) \<Rightarrow>
             if ackSize \<noteq> 1 then tcpServerHandShake n tries rw tw else Some (True, rw, tw))
     | _ \<Rightarrow> tcpServerHandShake n tries rw tw)"

section \<open>Packets arrive as they were sent\<close>

lemma storeTCPHeader_length [simp]: "length (storeTCPHeader h) = 20"
  by (simp add: storeTCPHeader_def)

lemma tcp_stored:
  assumes "\<And>i. i < 20 \<Longrightarrow> p i = storeTCPHeader h ! i"
  shows "loadTCPHeader p = h"
proof -
  have "u16at p 0 = tcpSource h" "u16at p 2 = tcpDestination h" "u16at p 14 = tcpWindow h" "u16at p 16 = tcpChecksum h" "u16at p 18 = urgentPointer h"
    by (rule u16at_le16; simp add: assms storeTCPHeader_def nth_append)+
  moreover have "u32at p 4 = tcpSequence h" "u32at p 8 = tcpAcknowledge h"
    by (rule u32at_le32; simp add: assms storeTCPHeader_def nth_append)+
  moreover have "p 12 = ucast (lowFlags h) OR push_bit 4 (ucast (dataOffset h))" "p 13 = controlBits h"
    by (simp_all add: assms storeTCPHeader_def nth_append)
  ultimately show ?thesis by (simp add: loadTCPHeader_def bitfields del: drop_bit_or)
qed

text \<open>The bytes of a packet made by \<open>segmentPacket\<close>.\<close>

definition segmentHeader :: "TCPSegment \<Rightarrow> u16 \<Rightarrow> u16 \<Rightarrow> u16 \<Rightarrow> TCPHeader" where
  "segmentHeader seg lPort rPort c = \<lparr>tcpSource = changeEndian16 lPort, tcpDestination = changeEndian16 rPort,
    tcpSequence = changeEndian32 (sequenceNumber seg), tcpAcknowledge = changeEndian32 (acknowledgeNumber seg), lowFlags = 0, dataOffset = 5,
    controlBits = (if segFIN seg then 0x11 else 0x10), tcpWindow = changeEndian16 (advertisedSize seg), tcpChecksum = c, urgentPointer = 0\<rparr>"

text \<open>Packets are built by replacing a part of the bytes already there, or by appending to them.\<close>

lemma putBytes_inside:
  assumes "length A = k" "length xs = length ys"
  shows "putBytes k xs (putBytes 0 (A @ ys @ B) p) = putBytes 0 (A @ xs @ B) p"
  using assms by (auto simp: putBytes_def fun_eq_iff nth_append)

lemma putBytes_after: "length A = k \<Longrightarrow> putBytes k xs (putBytes 0 A p) = putBytes 0 (A @ xs) p"
  by (auto simp: putBytes_def fun_eq_iff nth_append)

lemma storeTCPHeader_offset:
  "length A = 20 \<Longrightarrow> A = storeTCPHeader (h\<lparr>dataOffset := d\<rparr>) \<Longrightarrow>
    putBytes 12 [ucast (lowFlags h) OR push_bit 4 (ucast d')] (putBytes 0 (A @ B) p) = putBytes 0 (storeTCPHeader (h\<lparr>dataOffset := d'\<rparr>) @ B) p"
  using putBytes_inside [of "take 12 A" 12 "[ucast (lowFlags h) OR push_bit 4 (ucast d')]" "[ucast (lowFlags h) OR push_bit 4 (ucast d)]" "drop 13 A @ B" p]
  by (simp add: storeTCPHeader_def le16_def le32_def)

lemma storeTCPHeader_checksum:
  "putBytes 16 (le16 c) (putBytes 0 (storeTCPHeader h @ B) p) = putBytes 0 (storeTCPHeader (h\<lparr>tcpChecksum := c\<rparr>) @ B) p"
  using putBytes_inside [of "take 16 (storeTCPHeader h)" 16 "le16 c" "le16 (tcpChecksum h)" "drop 18 (storeTCPHeader h) @ B" p]
  by (simp add: storeTCPHeader_def le16_def le32_def)

lemma load_storeTCPHeader: "loadTCPHeader (putBytes 0 (storeTCPHeader h @ B) p) = h"
  by (rule tcp_stored) (simp add: putBytes_def nth_append)

lemma initTCPData_spec:
  assumes "offset mod 4 = 0"
  shows "initTCPData (putBytes 0 (storeTCPHeader h @ B) p) offset =
    Some (offset, putBytes 0 (storeTCPHeader (h\<lparr>dataOffset := of_nat (offset div 4)\<rparr>) @ B) p)"
proof -
  have "putBytes 12 [ucast (lowFlags h) OR push_bit 4 (ucast (of_nat (offset div 4) :: 4 word))] (putBytes 0 (storeTCPHeader h @ B) p) =
      putBytes 0 (storeTCPHeader (h\<lparr>dataOffset := of_nat (offset div 4)\<rparr>) @ B) p"
    by (rule storeTCPHeader_offset [where d = "dataOffset h"]) simp_all
  then show ?thesis using assms by (simp add: initTCPData_def load_storeTCPHeader)
qed

lemma finishInitTCPPacket_spec:
  assumes n: "20 + length B < 65536"
  shows "\<exists>c q. finishInitTCPPacket (putBytes 0 (storeTCPHeader h @ B) p) (20 + length B) la ra = Some (20 + length B, q) \<and>
    calculateIPDataChecksum2 q (of_nat (20 + length B)) la ra 6 = 0 \<and> q = putBytes 0 (storeTCPHeader (h\<lparr>tcpChecksum := c\<rparr>) @ B) p"
proof -
  let ?n = "20 + length B"
  define q1 where "q1 = putBytes 0 (storeTCPHeader (h\<lparr>tcpChecksum := 0\<rparr>) @ B) p"
  define c where "c = calculateIPDataChecksum2 q1 (of_nat ?n) la ra 6"
  let ?q = "putBytes 16 (le16 c) q1"
  have "u16at q1 16 = 0"
    using arg_cong [OF load_storeTCPHeader [of "h\<lparr>tcpChecksum := 0\<rparr>" B p], of tcpChecksum]
    by (simp add: loadTCPHeader_def q1_def)
  then have z: "beword q1 (2 * 8) = 0"
    using unat_changeEndian16_u16at [of q1 16] by (simp add: changeEndian16_def)
  have ck: "calculateIPDataChecksum2 ?q (of_nat ?n) la ra 6 = 0"
    using dataChecksum_stored [OF n _ z c_def, of c] by simp
  have q: "?q = putBytes 0 (storeTCPHeader (h\<lparr>tcpChecksum := c\<rparr>) @ B) p"
    by (simp add: q1_def storeTCPHeader_checksum)
  have "finishInitTCPPacket (putBytes 0 (storeTCPHeader h @ B) p) ?n la ra = Some (?n, ?q)"
    using ck unfolding finishInitTCPPacket_def storeTCPHeader_checksum Let_def q1_def [symmetric] c_def [symmetric] by simp
  then show ?thesis using ck q by (intro exI [of _ c] exI [of _ ?q]) simp
qed

lemma segmentPacket_spec:
  assumes n: "20 + length (payload seg) < 65536"
  shows "\<exists>c q. segmentPacket p seg la lp ra rp = Some (20 + length (payload seg), q) \<and>
    calculateIPDataChecksum2 q (of_nat (20 + length (payload seg))) la ra 6 = 0 \<and>
    q = putBytes 0 (storeTCPHeader (segmentHeader seg lp rp c) @ payload seg) p"
proof -
  let ?h = "segmentHeader seg lp rp 0"
  let ?g = "?h\<lparr>dataOffset := 0\<rparr>"
  have i: "initTCPPacket p (sequenceNumber seg) (acknowledgeNumber seg) (advertisedSize seg) (if segFIN seg then 0x11 else 0x10) lp rp =
    (20, putBytes 0 (storeTCPHeader ?g) p)" by (simp add: initTCPPacket_def segmentHeader_def)
  have h: "?g\<lparr>dataOffset := of_nat (20 div 4)\<rparr> = ?h" by (simp add: segmentHeader_def)
  have d: "initTCPData (putBytes 0 (storeTCPHeader ?g) p) 20 = Some (20, putBytes 0 (storeTCPHeader ?h) p)"
    using initTCPData_spec [of 20 ?g "[]" p] unfolding h append_Nil2 by simp
  have a: "putBytes 20 (payload seg) (putBytes 0 (storeTCPHeader ?h) p) = putBytes 0 (storeTCPHeader ?h @ payload seg) p"
    by (rule putBytes_after) simp
  have "?h\<lparr>tcpChecksum := c\<rparr> = segmentHeader seg lp rp c" for c by (simp add: segmentHeader_def)
  then show ?thesis using finishInitTCPPacket_spec [OF n, of ?h p la ra] unfolding segmentPacket_def i by (simp add: d a Let_def)
qed

lemma dataChecksum2_cong:
  assumes "\<And>i. i < unat n \<Longrightarrow> d i = d' i"
  shows "calculateIPDataChecksum2 d n src dst proto = calculateIPDataChecksum2 d' n src dst proto"
proof -
  have "addWords d (unat n) cs = addWords d' (unat n) cs" for cs
    unfolding addWords_def by (rule foldl_cong) (auto simp: u16at_def assms)
  moreover have "unat n mod 2 \<noteq> 0 \<Longrightarrow> d (unat n - 1) = d' (unat n - 1)" by (rule assms) (cases "unat n"; simp)
  ultimately show ?thesis by (simp add: calculateIPDataChecksum2_def Let_def)
qed

lemma loadTCPHeader_cong: "(\<And>i. i < 20 \<Longrightarrow> p i = q i) \<Longrightarrow> loadTCPHeader p = loadTCPHeader q"
  by (simp add: loadTCPHeader_def u16at_def u32at_def)

lemma segmentHeader_flags:
  assumes "loadTCPHeader p = segmentHeader seg lp rp c"
  shows "flag p FIN = segFIN seg" "flag p ACK" "getTCPHeaderSize p = 20" "getSequenceNumber p = sequenceNumber seg"
    "getAcknowledgeNumber p = acknowledgeNumber seg" "getWindowSize p = advertisedSize seg"
  using assms by (simp_all add: flag_def getTCPHeaderSize_def getSequenceNumber_def getAcknowledgeNumber_def getWindowSize_def segmentHeader_def)

text \<open>C17: a segment arrives as it was sent. The packet made for it never fails the assertion on its checksum; put into an IP
  packet it is validated by the receiving kernel, and exactly the socket of the connection accepts it; and handling the bytes
  read there acknowledges, receives data or finishes as the segment says.\<close>

theorem tcp_segment_roundtrip:
  assumes n: "20 + length (payload seg) \<le> MAX_IP_PAYLOAD_SIZE"
  shows "\<exists>n q h. segmentPacket p seg la lp ra rp = Some (n, q) \<and> createIPV4Packet (Some m) 6 la ra (view q 0 n) = Some (Some h) \<and>
    validateIPV4Packet h (of_nat (20 + n)) \<and>
    (\<forall>a. filterTCPPacket a h (getIPPacketSize h) \<longleftrightarrow> remotePort a = lp \<and> localPort a = rp \<and> remoteAddress a = la \<and>
      (localAddress a = ANY_IPV4_ADDRESS \<or> localAddress a = ra)) \<and>
    length (copyIPV4PacketData 65536 h) = n \<and>
    (\<forall>rw tw. receiveTCPDataPacket (cstr (copyIPV4PacketData 65536 h)) n rw tw = do {
      (ackSize, tw) \<leftarrow> receiveTCPACK tw (acknowledgeNumber seg) (advertisedSize seg);
      (dataSize, rw) \<leftarrow> receiveTCPSegment rw (segFIN seg) (sequenceNumber seg) (payload seg);
      Some (dataSize, ackSize, rw, tw)
    })"
proof -
  let ?n = "20 + length (payload seg)"
  obtain c q where q: "segmentPacket p seg la lp ra rp = Some (?n, q)" "calculateIPDataChecksum2 q (of_nat ?n) la ra 6 = 0"
    "q = putBytes 0 (storeTCPHeader (segmentHeader seg lp rp c) @ payload seg) p"
    using segmentPacket_spec [of seg p la lp ra rp] n by auto
  let ?b = "view q 0 ?n"
  have b: "?b = storeTCPHeader (segmentHeader seg lp rp c) @ payload seg"
    by (rule nth_equalityI) (simp_all add: q(3) putBytes_def)
  obtain h where h: "createIPV4Packet (Some m) 6 la ra ?b = Some (Some h)" "validateIPV4Packet h (of_nat (20 + ?n))" "source (loadHeader h) = la"
    "destination (loadHeader h) = ra" "protocol (loadHeader h) = 6" "copyIPV4PacketData 65536 h = ?b" "getIPHeaderSize h = 20"
    "getIPPacketSize h = of_nat (20 + ?n)" "view h 20 (20 + ?n) = ?b"
    using createIPV4Packet_spec [of ?b m 6 la ra] n by auto
  have n32: "unat (of_nat (20 + ?n) :: u32) = 20 + ?n" "unat (of_nat ?n :: u32) = ?n"
    using unat_of_nat_small [of "20 + ?n", where 'a = 32] unat_of_nat_small [of ?n, where 'a = 32] n by simp_all
  have d: "getIPData h = shift 20 h" by (simp add: getIPData_def h(7))
  have eq: "shift 20 h i = q i" if "i < ?n" for i
    using arg_cong [OF h(9), of "\<lambda>l. l ! i"] that by simp
  have tl: "loadTCPHeader (shift 20 h) = segmentHeader seg lp rp c"
    using load_storeTCPHeader [of "segmentHeader seg lp rp c" "payload seg" p] loadTCPHeader_cong [of "shift 20 h" q] eq q(3) by simp
  have "getIPDataSize h = of_nat ?n" by (simp add: getIPDataSize_def h(7,8))
  then have ck: "calculateIPDataChecksum h = 0"
    using dataChecksum2_cong [of "of_nat ?n" "shift 20 h" q la ra 6] eq n32 q(2)
    by (simp add: calculateIPDataChecksum_def d h(3-5) del: of_nat_add)
  have ge: "\<not> of_nat (20 + ?n) < (20 + of_nat 20 :: u32)" unfolding word_less_nat_alt n32 by simp
  have v: "validateTCPPacket h (getIPPacketSize h) = Some (shift 20 h)"
    unfolding validateTCPPacket_def Let_def h(5,7,8) d segmentHeader_flags(3) [OF tl] ck using ge by (simp del: of_nat_add)
  have f: "filterTCPPacket a h (getIPPacketSize h) \<longleftrightarrow> remotePort a = lp \<and> localPort a = rp \<and> remoteAddress a = la \<and>
      (localAddress a = ANY_IPV4_ADDRESS \<or> localAddress a = ra)" for a
    unfolding filterTCPPacket_def v by (auto simp: tl segmentHeader_def h(3,4))
  have tb: "loadTCPHeader (cstr ?b) = segmentHeader seg lp rp c"
    by (rule tcp_stored) (simp add: cstr_def b nth_append)
  have "view (cstr ?b) 20 ?n = payload seg" by (rule nth_equalityI) (simp_all add: cstr_def b nth_append)
  then have r: "receiveTCPDataPacket (cstr ?b) ?n rw tw = do {
      (ackSize, tw) \<leftarrow> receiveTCPACK tw (acknowledgeNumber seg) (advertisedSize seg);
      (dataSize, rw) \<leftarrow> receiveTCPSegment rw (segFIN seg) (sequenceNumber seg) (payload seg);
      Some (dataSize, ackSize, rw, tw)
    }" for rw tw
    unfolding receiveTCPDataPacket_def receiveACK_def segmentHeader_flags(1,3-6) [OF tb] Let_def using segmentHeader_flags(2) [OF tb] by simp
  show ?thesis using q(1) h(1,2,6) f r by (intro exI [of _ ?n] exI [of _ q] exI [of _ h]) (simp del: of_nat_add)
qed

theorem tcp_segment_roundtrip_witness:
  "\<exists>n q h. segmentPacket (\<lambda>i. 7) \<lparr>sequenceNumber = 0xffffffff, acknowledgeNumber = 5, advertisedSize = 8192, segFIN = False, payload = [1, 2, 3]\<rparr> 1 80 2 90 = Some (n, q) \<and>
    createIPV4Packet (Some (\<lambda>i. 0)) 6 1 2 (view q 0 n) = Some (Some h) \<and> length (copyIPV4PacketData 65536 h) = n \<and>
    (\<forall>rw tw. receiveTCPDataPacket (cstr (copyIPV4PacketData 65536 h)) n rw tw = do {
      (ackSize, tw) \<leftarrow> receiveTCPACK tw 5 8192;
      (dataSize, rw) \<leftarrow> receiveTCPSegment rw False 0xffffffff [1, 2, 3];
      Some (dataSize, ackSize, rw, tw)
    })"
  using tcp_segment_roundtrip [where p = "\<lambda>i. 7" and m = "\<lambda>i. 0" and la = 1 and lp = 80 and ra = 2 and rp = 90
      and seg = "\<lparr>sequenceNumber = 0xffffffff, acknowledgeNumber = 5, advertisedSize = 8192, segFIN = False, payload = [1, 2, 3]\<rparr>"] by auto

section \<open>The handshake aligns the windows\<close>

definition synOptions :: "u16 \<Rightarrow> u8 list" where
  "synOptions mss = [3, 3, 0, 1] @ [2, 4] @ le16 (changeEndian16 mss) @ [0, 0, 0, 0]"

definition synHeader :: "u32 \<Rightarrow> bool \<Rightarrow> TCPReceiveWindow \<Rightarrow> u16 \<Rightarrow> u16 \<Rightarrow> u16 \<Rightarrow> TCPHeader" where
  "synHeader s withACK rw lPort rPort c = \<lparr>tcpSource = changeEndian16 lPort, tcpDestination = changeEndian16 rPort,
    tcpSequence = changeEndian32 s, tcpAcknowledge = changeEndian32 (ackNumber (getTCPReceiveACK rw)), lowFlags = 0, dataOffset = 8,
    controlBits = (if withACK then 0x12 else 2), tcpWindow = changeEndian16 (windowRemainSize (getTCPReceiveACK rw)),
    tcpChecksum = c, urgentPointer = 0\<rparr>"

lemma transmitTCPSYNPacket_spec:
  assumes "\<not> reachFinish rw"
  shows "\<exists>c q. transmitTCPSYNPacket p withACK rw tw z la lp ra rp = Some (32, q) \<and>
    q = putBytes 0 (storeTCPHeader (synHeader (currentSequence tw) withACK rw lp rp c) @ synOptions (of_nat (z - 20))) p"
proof -
  let ?h = "synHeader (currentSequence tw) withACK rw lp rp 0"
  let ?g = "?h\<lparr>dataOffset := 0\<rparr>"
  let ?o = "synOptions (of_nat (z - 20))"
  have fin: "\<not> isFINACK (getTCPReceiveACK rw)" using assms by (simp add: getTCPReceiveACK_def Let_def)
  have i: "initTCPPacket p (currentSequence tw) (ackNumber (getTCPReceiveACK rw)) (windowRemainSize (getTCPReceiveACK rw))
      (if withACK then 0x12 else 2) lp rp = (20, putBytes 0 (storeTCPHeader ?g) p)" by (simp add: initTCPPacket_def synHeader_def)
  have o1: "putBytes 20 [3, 3, 0, 1] (putBytes 0 (storeTCPHeader ?g) p) = putBytes 0 (storeTCPHeader ?g @ [3, 3, 0, 1]) p"
    by (rule putBytes_after) simp
  have o2: "putBytes 24 ([2, 4] @ le16 m) (putBytes 0 (storeTCPHeader ?g @ [3, 3, 0, 1]) p) =
      putBytes 0 ((storeTCPHeader ?g @ [3, 3, 0, 1]) @ [2, 4] @ le16 m) p" for m by (rule putBytes_after) simp
  have o3: "putBytes 28 [0, 0, 0, 0] (putBytes 0 ((storeTCPHeader ?g @ [3, 3, 0, 1]) @ [2, 4] @ le16 m) p) =
      putBytes 0 (((storeTCPHeader ?g @ [3, 3, 0, 1]) @ [2, 4] @ le16 m) @ [0, 0, 0, 0]) p" for m by (rule putBytes_after) simp
  have e: "((storeTCPHeader ?g @ [3, 3, 0, 1]) @ [2, 4] @ le16 (changeEndian16 (of_nat (z - 20)))) @ [0, 0, 0, 0] = storeTCPHeader ?g @ ?o"
    by (simp add: synOptions_def)
  have h: "?g\<lparr>dataOffset := of_nat (32 div 4)\<rparr> = ?h" by (simp add: synHeader_def)
  have d: "initTCPData (putBytes 0 (storeTCPHeader ?g @ ?o) p) 32 = Some (32, putBytes 0 (storeTCPHeader ?h @ ?o) p)"
    using initTCPData_spec [of 32 ?g ?o p] unfolding h by simp
  have l: "20 + length ?o = 32" by (simp add: synOptions_def)
  have c: "?h\<lparr>tcpChecksum := c\<rparr> = synHeader (currentSequence tw) withACK rw lp rp c" for c by (simp add: synHeader_def)
  show ?thesis
    using finishInitTCPPacket_spec [of ?o ?h p la ra] unfolding l c transmitTCPSYNPacket_def Let_def i
      appendTCPWindowScale_def appendTCPMaxSegmentSize_def appendTCPOptionEnd_def prod.case
    by (simp add: fin o1 o2 [simplified] o3 [simplified] e [simplified] d) blast
qed

lemma synOptions_parsed:
  assumes p: "p = putBytes 0 (storeTCPHeader h @ synOptions mss) q" and h: "dataOffset h = 8" and m: "576 \<le> unat mss" and l: "32 \<le> limit"
  shows "parseTCPOptions p limit opt = Some (True, opt\<lparr>scaleOption := 0, maxSegSize := unat mss\<rparr>)"
proof -
  have b: "p (20 + i) = synOptions mss ! i" if "i < 12" for i
    using that by (simp add: p putBytes_def nth_append synOptions_def)
  have v: "p 20 = 3" "p 21 = 3" "p 22 = 0" "p 23 = 1" "p 24 = 2" "p 25 = 4" "p 28 = 0" "p 26 = le16 (changeEndian16 mss) ! 0" "p 27 = le16 (changeEndian16 mss) ! 1"
    using b [of 0] b [of 1] b [of 2] b [of 3] b [of 4] b [of 5] b [of 8] b [of 6] b [of 7] by (simp_all add: synOptions_def nth_append)
  have u: "u16at (shift 24 p) 2 = changeEndian16 mss" by (rule u16at_le16) (simp_all add: v)
  have "getTCPHeaderSize p = 32" unfolding getTCPHeaderSize_def p load_storeTCPHeader h by simp
  moreover have "parseOptionsFrom p limit 32 28 opt' = Some (True, opt')" for opt'
    using l by (subst parseOptionsFrom.simps) (simp add: v)
  moreover have "parseOptionsFrom p limit 32 24 opt' = parseOptionsFrom p limit 32 28 (opt'\<lparr>maxSegSize := unat mss\<rparr>)" for opt'
    using l m by (subst parseOptionsFrom.simps)
      (simp add: v u parseTCPMaxSegmentSize_def parseTCPWindowScale_def parseTCPSACKPermitted_def)
  moreover have "parseOptionsFrom p limit 32 23 opt' = parseOptionsFrom p limit 32 24 opt'" for opt'
    using l by (subst parseOptionsFrom.simps) (simp add: v)
  moreover have "parseOptionsFrom p limit 32 20 opt = parseOptionsFrom p limit 32 23 (opt\<lparr>scaleOption := 0\<rparr>)"
    using l by (subst parseOptionsFrom.simps)
      (simp add: v parseTCPMaxSegmentSize_def parseTCPWindowScale_def parseTCPSACKPermitted_def)
  ultimately show ?thesis unfolding parseTCPOptions_def by simp
qed

lemma receiveTCPSYN_spec:
  assumes p: "p = putBytes 0 (storeTCPHeader (synHeader s withACK rw lp rp c) @ synOptions mss) q" and m: "576 \<le> unat mss" and l: "32 \<le> limit"
  shows "receiveTCPSYN p limit tw = Some (True, tw\<lparr>windowScale := 0, maxSegmentSize := unat mss\<rparr>)"
    "getSequenceNumber p = s" "flag p ACK = withACK" "getAcknowledgeNumber p = ackNumber (getTCPReceiveACK rw)"
    "getWindowSize p = windowRemainSize (getTCPReceiveACK rw)" "getTCPHeaderSize p = 32" "flag p FIN = False" "flag p SYN" "flag p RST = False"
proof -
  have ld: "loadTCPHeader p = synHeader s withACK rw lp rp c" unfolding p by (rule load_storeTCPHeader)
  then show "getSequenceNumber p = s" "flag p ACK = withACK" "getAcknowledgeNumber p = ackNumber (getTCPReceiveACK rw)"
    "getWindowSize p = windowRemainSize (getTCPReceiveACK rw)" "getTCPHeaderSize p = 32" "flag p FIN = False" "flag p SYN" "flag p RST = False"
    by (simp_all add: getSequenceNumber_def flag_def getAcknowledgeNumber_def getWindowSize_def getTCPHeaderSize_def synHeader_def)
  have "dataOffset (synHeader s withACK rw lp rp c) = 8" by (simp add: synHeader_def)
  from synOptions_parsed [OF p this m l] show "receiveTCPSYN p limit tw = Some (True, tw\<lparr>windowScale := 0, maxSegmentSize := unat mss\<rparr>)"
    using \<open>flag p SYN\<close> by (simp add: receiveTCPSYN_def)
qed

text \<open>The windows of a new socket, \<open>createTCPSocket\<close>.\<close>

abbreviation (input) newTransmit :: "u32 \<Rightarrow> TCPTransmitWindow" where
  "newTransmit s \<equiv> initTCPTransmitWindow False s"
abbreviation (input) newReceive :: TCPReceiveWindow where
  "newReceive \<equiv> initTCPReceiveWindow DEFAULT_TCP_RECEIVE_WINDOW_SIZE"

lemma startWindow_ack: "getTCPReceiveACK (startWindow s) = \<lparr>ackNumber = s, windowRemainSize = 8192, isFINACK = False\<rparr>"
  by (simp add: getTCPReceiveACK_def startWindow_def synTCPReceiveWindow_def initTCPReceiveWindow_def addTCPSequence_def Let_def)

lemma receive_nothing: "receiveTCPSegment (startWindow s) False s [] = Some (0, startWindow s)"
proof -
  have "\<not> hasTCPReceiveData (startWindow s) x" for x
    by (simp add: startWindow_def synTCPReceiveWindow_def initTCPReceiveWindow_def hasTCPReceiveData_def)
  then have "extendWindow n (startWindow s) = startWindow s" for n by (intro extendWindow_stop) simp
  then show ?thesis by (simp add: receiveTCPSegment_def copyTCPReceiveWindow_def Let_def startWindow_inv)
qed

lemma receiveTCPACK_handshake:
  "receiveTCPACK ((newTransmit s)\<lparr>windowScale := 0, maxSegmentSize := m\<rparr>) (s + 1) 8192 = Some (1, (startTransmit (s + 1) 0 m)\<lparr>scaledWindowSize := 8192\<rparr>)"
  unfolding receiveTCPACK_def ackTransmitWindow_def
  by (subst ackLoop.simps) (simp add: initTCPTransmitWindow_def diffTCPSequence_def hasTCPTransmitBuffer_def startTransmit_def)

lemma transmitLoop_ack:
  "transmitLoop (\<lambda>i. True) rwa z 0 True ((startTransmit s 0 m)\<lparr>scaledWindowSize := w\<rparr>) =
    Some (True, [\<lparr>sequenceNumber = s, acknowledgeNumber = ackNumber rwa, advertisedSize = windowRemainSize rwa, segFIN = False, payload = []\<rparr>],
      0, 1, (startTransmit s 0 m)\<lparr>scaledWindowSize := w\<rparr>)"
  by (subst transmitLoop.simps, subst transmitLoop.simps)
    (simp add: startTransmit_def initTCPTransmitWindow_def entry_def transmitTCPDataPacket_def copyTCPTransmitBuffer_def
      getTCPTransmitRemainSize_def diffTCPSequence_def copyLoop.simps Let_def)

lemma clientTries_first:
  "receiveTCPSYNACKPacket p n rw tw = Some (True, rw', tw') \<Longrightarrow> clientTries (Suc k) ((True, Some (p, n)) # tries) rw tw = Some (True, rw', tw')"
  by simp

lemma serverTries_first:
  "receiveTCPDataPacket p n rw tw = Some (d, 1, rw', tw') \<Longrightarrow> tcpServerHandShake (Suc k) ((True, Some (p, n)) # tries) rw tw = Some (True, rw', tw')"
  by simp

text \<open>C18: the three packets of the handshake leave both ends with matching windows. When the SYN packet of a client reaches the
  server, the answer of the server the client, and the client's acknowledgement the server, then both succeed, each receive window
  starts at the sequence number where the other's transmit window starts, with an empty queue and the announced window and
  segment size: the start of every history of \<open>tcp_end_to_end\<close>.\<close>

theorem tcp_handshake:
  assumes z: "596 \<le> z" "z < 65556"
  shows "\<exists>q1 q2 seg n3 q3.
    transmitTCPSYNPacket m1 False newReceive (newTransmit c) z la lp ra rp = Some (32, q1) \<and>
    tcpServerHandshake1 q1 32 newReceive (newTransmit s) = Some (startWindow (c + 1), (newTransmit s)\<lparr>windowScale := 0, maxSegmentSize := z - 20\<rparr>) \<and>
    transmitTCPSYNPacket m2 True (startWindow (c + 1)) ((newTransmit s)\<lparr>windowScale := 0, maxSegmentSize := z - 20\<rparr>) z ra rp la lp = Some (32, q2) \<and>
    tcpHandShake [(True, Some (q2, 32))] (\<lambda>i. True) z newReceive (newTransmit c) =
      Some (True, [seg], startWindow (s + 1), (startTransmit (c + 1) 0 (z - 20))\<lparr>scaledWindowSize := 8192\<rparr>) \<and>
    segmentPacket m3 seg la lp ra rp = Some (n3, q3) \<and>
    tcpServerHandShake 5 [(True, Some (q3, n3))] (startWindow (c + 1)) ((newTransmit s)\<lparr>windowScale := 0, maxSegmentSize := z - 20\<rparr>) =
      Some (True, startWindow (c + 1), (startTransmit (s + 1) 0 (z - 20))\<lparr>scaledWindowSize := 8192\<rparr>)"
proof -
  let ?mss = "of_nat (z - 20) :: u16"
  let ?tw = "(newTransmit s)\<lparr>windowScale := 0, maxSegmentSize := z - 20\<rparr>"
  have m: "unat ?mss = z - 20" using unat_of_nat_small [of "z - 20", where 'a = 16] z by simp
  have mm: "576 \<le> unat ?mss" using m z by simp
  have nf: "\<not> reachFinish newReceive" "\<not> reachFinish (startWindow (c + 1))" by (simp_all add: initTCPReceiveWindow_def startWindow_inv)
  have cs: "currentSequence (newTransmit c) = c" "currentSequence ?tw = s" by (simp_all add: initTCPTransmitWindow_def)
  obtain c1 q1 where q1: "transmitTCPSYNPacket m1 False newReceive (newTransmit c) z la lp ra rp = Some (32, q1)"
    "q1 = putBytes 0 (storeTCPHeader (synHeader c False newReceive lp rp c1) @ synOptions ?mss) m1"
    using transmitTCPSYNPacket_spec [OF nf(1), of m1 False "newTransmit c" z la lp ra rp] cs by auto
  have r1: "tcpServerHandshake1 q1 32 newReceive (newTransmit s) = Some (startWindow (c + 1), ?tw)"
    using receiveTCPSYN_spec(1,2) [OF q1(2) mm, of 32, simplified] m by (simp add: tcpServerHandshake1_def startWindow_def)
  obtain c2 q2 where q2: "transmitTCPSYNPacket m2 True (startWindow (c + 1)) ?tw z ra rp la lp = Some (32, q2)"
    "q2 = putBytes 0 (storeTCPHeader (synHeader s True (startWindow (c + 1)) rp lp c2) @ synOptions ?mss) m2"
    using transmitTCPSYNPacket_spec [OF nf(2), of m2 True ?tw z ra rp la lp] cs by auto
  note s2 = receiveTCPSYN_spec [OF q2(2) mm, of 32, simplified]
  have "receiveTCPSYNACKPacket q2 32 newReceive (newTransmit c) =
      Some (True, startWindow (s + 1), (startTransmit (c + 1) 0 (z - 20))\<lparr>scaledWindowSize := 8192\<rparr>)"
    unfolding receiveTCPSYNACKPacket_def s2(6) using s2 m receiveTCPACK_handshake [where s = c and m = "z - 20"]
    by (simp add: receiveACK_def startWindow_ack) (simp add: startWindow_def)
  then have r2: "tcpHandShake [(True, Some (q2, 32))] (\<lambda>i. True) z newReceive (newTransmit c) =
      Some (True, [\<lparr>sequenceNumber = c + 1, acknowledgeNumber = s + 1, advertisedSize = 8192, segFIN = False, payload = []\<rparr>],
        startWindow (s + 1), (startTransmit (c + 1) 0 (z - 20))\<lparr>scaledWindowSize := 8192\<rparr>)"
    unfolding tcpHandShake_def using clientTries_first [where k = 4] by (simp add: transmitLoop_ack startWindow_ack)
  let ?seg = "\<lparr>sequenceNumber = c + 1, acknowledgeNumber = s + 1, advertisedSize = 8192, segFIN = False, payload = []\<rparr>"
  obtain c3 q3 where q3: "segmentPacket m3 ?seg la lp ra rp = Some (20, q3)" "q3 = putBytes 0 (storeTCPHeader (segmentHeader ?seg lp rp c3) @ []) m3"
    using segmentPacket_spec [of ?seg m3 la lp ra rp] by auto
  have l3: "loadTCPHeader q3 = segmentHeader ?seg lp rp c3" unfolding q3(2) by (rule load_storeTCPHeader)
  have "receiveTCPSegment (startWindow (c + 1)) False (c + 1) [] = Some (0, startWindow (c + 1))"
    by (rule receive_nothing)
  then have "receiveTCPDataPacket q3 20 (startWindow (c + 1)) ?tw = Some (0, 1, startWindow (c + 1), (startTransmit (s + 1) 0 (z - 20))\<lparr>scaledWindowSize := 8192\<rparr>)"
    unfolding receiveTCPDataPacket_def receiveACK_def segmentHeader_flags(1,3-6) [OF l3] using segmentHeader_flags(2) [OF l3] receiveTCPACK_handshake [where s = s and m = "z - 20"]
    by (simp add: Let_def)
  then have "tcpServerHandShake 5 [(True, Some (q3, 20))] (startWindow (c + 1)) ?tw =
      Some (True, startWindow (c + 1), (startTransmit (s + 1) 0 (z - 20))\<lparr>scaledWindowSize := 8192\<rparr>)"
    using serverTries_first [where k = 4] by simp
  then show ?thesis using q1(1) r1 q2(1) r2 q3(1) by (intro exI [of _ q1] exI [of _ q2] exI [of _ ?seg] exI [of _ 20] exI [of _ q3]) simp
qed

theorem tcp_handshake_witness:
  "\<exists>q1 q2 seg n3 q3.
    transmitTCPSYNPacket (\<lambda>i. 0) False newReceive (newTransmit 9999) 1480 1 80 2 90 = Some (32, q1) \<and>
    tcpServerHandshake1 q1 32 newReceive (newTransmit 7) = Some (startWindow 10000, (newTransmit 7)\<lparr>windowScale := 0, maxSegmentSize := 1460\<rparr>) \<and>
    transmitTCPSYNPacket (\<lambda>i. 0) True (startWindow 10000) ((newTransmit 7)\<lparr>windowScale := 0, maxSegmentSize := 1460\<rparr>) 1480 2 90 1 80 = Some (32, q2) \<and>
    tcpHandShake [(True, Some (q2, 32))] (\<lambda>i. True) 1480 newReceive (newTransmit 9999) =
      Some (True, [seg], startWindow 8, (startTransmit 10000 0 1460)\<lparr>scaledWindowSize := 8192\<rparr>) \<and>
    segmentPacket (\<lambda>i. 0) seg 1 80 2 90 = Some (n3, q3) \<and>
    tcpServerHandShake 5 [(True, Some (q3, n3))] (startWindow 10000) ((newTransmit 7)\<lparr>windowScale := 0, maxSegmentSize := 1460\<rparr>) =
      Some (True, startWindow 10000, (startTransmit 8 0 1460)\<lparr>scaledWindowSize := 8192\<rparr>)"
  using tcp_handshake [where z = 1480 and c = 9999 and s = 7 and la = 1 and lp = 80 and ra = 2 and rp = 90
    and ?m1.0 = "\<lambda>i. 0" and ?m2.0 = "\<lambda>i. 0" and ?m3.0 = "\<lambda>i. 0"] by simp

section \<open>Options stay within the header\<close>

lemma parseOptionsFrom_total:
  assumes "offset \<le> headerSize" "headerSize \<le> limit"
  shows "\<exists>ok opt'. parseOptionsFrom p limit headerSize offset opt = Some (ok, opt')"
  using assms
proof (induction p limit headerSize offset opt rule: parseOptionsFrom.induct)
  case (1 p limit headerSize offset opt)
  show ?case
  proof (cases "offset = headerSize \<or> p offset = 0")
    case True
    then show ?thesis using 1(3,4) by (subst parseOptionsFrom.simps) auto
  next
    case False
    then have lt: "offset < headerSize" "p offset \<noteq> 0" "offset < limit" using 1(3,4) by auto
    show ?thesis
    proof (cases "p offset = 1")
      case True
      then show ?thesis using 1(1) 1(4) lt by (subst parseOptionsFrom.simps) auto
    next
      case n: False
      show ?thesis
      proof (cases "offset + 1 \<ge> headerSize \<or> unat (p (offset + 1)) < 2 \<or> offset + unat (p (offset + 1)) > headerSize")
        case True
        then show ?thesis using lt n 1(4) by (subst parseOptionsFrom.simps) (auto simp: Let_def)
      next
        case False
        then show ?thesis using lt n 1(2) 1(4) by (subst parseOptionsFrom.simps) (auto simp: Let_def)
      qed
    qed
  qed
qed

text \<open>The parser of the options never reads outside of a packet whose header has at least the size of the fixed part; and it reads
  beyond the packet when the header claims to be shorter, which \<open>validateTCPPacket\<close> does not refuse.\<close>

lemma parseTCPOptions_safe:
  "20 \<le> getTCPHeaderSize p \<Longrightarrow> getTCPHeaderSize p \<le> limit \<Longrightarrow> \<exists>ok opt'. parseTCPOptions p limit opt = Some (ok, opt')"
  unfolding parseTCPOptions_def by (rule parseOptionsFrom_total)

lemma parseTCPOptions_short_header:
  assumes "getTCPHeaderSize p < 20" "\<forall>i. 20 \<le> i \<and> i < limit \<longrightarrow> p i = 1"
  shows "parseTCPOptions p limit opt = None"
proof -
  have "parseOptionsFrom p limit (getTCPHeaderSize p) offset opt = None" if "20 \<le> offset" for offset
    using that
  proof (induction "limit - offset" arbitrary: offset)
    case 0
    then show ?case using assms(1) by (subst parseOptionsFrom.simps) auto
  next
    case (Suc n)
    then have "p offset = 1" "offset < limit" using assms(2) by auto
    then show ?case using Suc assms(1) by (subst parseOptionsFrom.simps) auto
  qed
  then show ?thesis by (simp add: parseTCPOptions_def)
qed

end
