(* ===== verification/TcpListener.thy ===== *)
theory TcpListener
  imports Tcp "HOL-Library.Multiset"
begin

text \<open>
  The listener for TCP servers, \<open>kernel/io/network/tcp.c\<close>: SYN packets wait in a queue of at most ten for a server, servers wait in
  a queue for a matching SYN packet. Both queues are the lists of the entries before their sentinels; an operation is the
  critical section between \<open>acquireLock\<close> and \<open>releaseLock\<close> with the actions that follow it.
\<close>

record TCPSYN =
  sourceAddress :: u32
  synSourcePort :: u16
  destinationAddress :: u32
  synDestinationPort :: u16
  synPacket :: "u8 list"

record TCPWaitSYN =
  waiter :: nat
  arguments :: IPSocketArguments

record TCPListener =
  synCount :: nat
  syns :: "TCPSYN list"
  waits :: "TCPWaitSYN list"

definition createTCPSYN :: "bytes \<Rightarrow> TCPSYN" where
  "createTCPSYN h = \<lparr>sourceAddress = source (loadHeader h), synSourcePort = changeEndian16 (tcpSource (loadTCPHeader (getIPData h))),
    destinationAddress = destination (loadHeader h), synDestinationPort = changeEndian16 (tcpDestination (loadTCPHeader (getIPData h))),
    synPacket = view h 0 (unat (getIPPacketSize h))\<rparr>"

definition createTCPListener :: TCPListener where
  "createTCPListener = \<lparr>synCount = 0, syns = [], waits = []\<rparr>"

definition isDuplicated :: "u32 \<Rightarrow> u16 \<Rightarrow> u16 \<Rightarrow> TCPSYN \<Rightarrow> bool" where
  "isDuplicated src sPort dPort s \<longleftrightarrow> sourceAddress s = src \<and> synSourcePort s = sPort \<and> synDestinationPort s = dPort"

text \<open>The entries that are removed, the last one first, and the listener without them.\<close>

fun popDuplicated :: "(TCPSYN \<Rightarrow> bool) \<Rightarrow> TCPSYN list \<Rightarrow> TCPSYN list \<Rightarrow> nat \<Rightarrow> TCPSYN list \<Rightarrow> TCPSYN list \<times> TCPSYN list \<times> nat" where
  "popDuplicated d [] kept n r = (r, kept, n)"
| "popDuplicated d (s # ss) kept n r =
    (if d s then popDuplicated d ss kept (n - 1) (s # r) else popDuplicated d ss (kept @ [s]) n r)"

definition popDuplicatedTCPSYN_noLock :: "TCPListener \<Rightarrow> u32 \<Rightarrow> u16 \<Rightarrow> u16 \<Rightarrow> TCPSYN list \<times> TCPListener" where
  "popDuplicatedTCPSYN_noLock l src sPort dPort =
    (let (r, kept, n) = popDuplicated (isDuplicated src sPort dPort) (syns l) [] (synCount l) [] in (r, l\<lparr>syns := kept, synCount := n\<rparr>))"

definition matchTCPSYN_noLock :: "TCPWaitSYN \<Rightarrow> TCPSYN \<Rightarrow> bool" where
  "matchTCPSYN_noLock w s =
    (let a = arguments w in
     if (remoteAddress a \<noteq> ANY_IPV4_ADDRESS \<and> remoteAddress a \<noteq> sourceAddress s) \<or>
       (remotePort a \<noteq> ANY_PORT \<and> remotePort a \<noteq> synSourcePort s) \<or>
       (localAddress a \<noteq> ANY_IPV4_ADDRESS \<and> localAddress a \<noteq> destinationAddress s) \<or>
       localPort a \<noteq> synDestinationPort s
     then False else True)"

abbreviation (input) MAX_QUEUED_SYN_COUNT :: nat where "MAX_QUEUED_SYN_COUNT \<equiv> 10"

text \<open>\<open>addTCPSYN\<close>: the server that gets the packet, if one waits for it, and the packets deleted.\<close>

definition addTCPSYN :: "TCPListener \<Rightarrow> TCPSYN \<Rightarrow> (TCPWaitSYN option \<times> TCPSYN list \<times> TCPListener) option" where
  "addTCPSYN l newSYN = do {
    kassert (synCount l \<le> MAX_QUEUED_SYN_COUNT);
    let (dupSYN, l) = popDuplicatedTCPSYN_noLock l (sourceAddress newSYN) (synSourcePort newSYN) (synDestinationPort newSYN);
    (r, dupSYN, l) \<leftarrow> (case find (\<lambda>w. matchTCPSYN_noLock w newSYN) (waits l) of
        Some w \<Rightarrow> Some (Some w, dupSYN, l\<lparr>waits := remove1 w (waits l)\<rparr>)
      | None \<Rightarrow> do {
          (dupSYN, l) \<leftarrow> (if synCount l = MAX_QUEUED_SYN_COUNT then do {
              kassert (dupSYN = []);
              kassert (syns l \<noteq> []);
              Some ([hd (syns l)], l\<lparr>syns := tl (syns l), synCount := synCount l - 1\<rparr>)
            } else Some (dupSYN, l));
          Some (None, dupSYN, l\<lparr>syns := syns l @ [newSYN], synCount := synCount l + 1\<rparr>)
        });
    kassert (length dupSYN \<le> 1);
    Some (r, dupSYN, l)
  }"

text \<open>\<open>initTCPWaitSYN\<close>: the arguments of a server, or \<open>None\<close> when the name is not valid or names no local port.\<close>

definition initTCPWaitSYN :: "u32 \<Rightarrow> nat \<Rightarrow> bytes \<Rightarrow> nat \<Rightarrow> TCPWaitSYN option" where
  "initTCPWaitSYN junk t fileName nameLength =
    (case scanIPSocketArguments junk initIPSocketArguments IP_DATA_PROTOCOL_TCP fileName nameLength of
       None \<Rightarrow> None
     | Some a \<Rightarrow> if localPort a = ANY_PORT then None else Some \<lparr>waiter = t, arguments = a\<rparr>)"

text \<open>\<open>waitTCPSYN\<close> up to the point where it returns a packet or waits on its semaphore.\<close>

definition waitTCPSYN :: "TCPListener \<Rightarrow> TCPWaitSYN \<Rightarrow> TCPSYN option \<times> TCPListener" where
  "waitTCPSYN l w = (case find (matchTCPSYN_noLock w) (syns l) of
      Some s \<Rightarrow> (Some s, l\<lparr>syns := remove1 s (syns l), synCount := synCount l - 1\<rparr>)
    | None \<Rightarrow> (None, l\<lparr>waits := waits l @ [w]\<rparr>))"

text \<open>\<open>receiveTCPListener\<close>: the flags tell whether the listener is closed and whether memory is available.\<close>

definition receiveTCPListener :: "bool \<Rightarrow> bool \<Rightarrow> TCPListener \<Rightarrow> bytes \<Rightarrow> (bool \<times> TCPWaitSYN option \<times> TCPSYN list \<times> TCPListener) option" where
  "receiveTCPListener closed memoryOK l ip =
    (if closed then Some (False, None, [], l)
     else if \<not> memoryOK then Some (True, None, [], l)
     else do { (w, dropped, l) \<leftarrow> addTCPSYN l (createTCPSYN ip); Some (True, w, dropped, l) })"

section \<open>Histories of the listener\<close>

datatype listener_call =
    Arrive TCPSYN
  | Wait TCPWaitSYN

text \<open>The pairs of server and packet that met, the packets deleted, and the listener.\<close>

definition listenerStep :: "TCPListener \<Rightarrow> listener_call \<Rightarrow> ((TCPWaitSYN \<times> TCPSYN) list \<times> TCPSYN list \<times> TCPListener) option" where
  "listenerStep l call = (case call of
      Arrive s \<Rightarrow> map_option (\<lambda>(w, dropped, l). (case w of Some w \<Rightarrow> [(w, s)] | None \<Rightarrow> [], dropped, l)) (addTCPSYN l s)
    | Wait w \<Rightarrow> (case waitTCPSYN l w of (s, l) \<Rightarrow> Some (case s of Some s \<Rightarrow> [(w, s)] | None \<Rightarrow> [], [], l)))"

fun listenerRun :: "TCPListener \<Rightarrow> listener_call list \<Rightarrow> ((TCPWaitSYN \<times> TCPSYN) list \<times> TCPSYN list \<times> TCPListener) option" where
  "listenerRun l [] = Some ([], [], l)"
| "listenerRun l (call # calls) = do {
    (m, d, l) \<leftarrow> listenerStep l call;
    (m', d', l) \<leftarrow> listenerRun l calls;
    Some (m @ m', d @ d', l)
  }"

fun arrivals :: "listener_call list \<Rightarrow> TCPSYN list" where
  "arrivals [] = []"
| "arrivals (Arrive s # calls) = s # arrivals calls"
| "arrivals (Wait w # calls) = arrivals calls"

fun servers :: "listener_call list \<Rightarrow> TCPWaitSYN list" where
  "servers [] = []"
| "servers (Arrive s # calls) = servers calls"
| "servers (Wait w # calls) = w # servers calls"

definition synKey :: "TCPSYN \<Rightarrow> u32 \<times> u16 \<times> u16" where
  "synKey s = (sourceAddress s, synSourcePort s, synDestinationPort s)"

text \<open>One packet per connection is queued, at most ten, and no packet waits for a server that waits for it.\<close>

definition listener_inv :: "TCPListener \<Rightarrow> bool" where
  "listener_inv l \<longleftrightarrow> synCount l = length (syns l) \<and> length (syns l) \<le> MAX_QUEUED_SYN_COUNT \<and> distinct (map synKey (syns l)) \<and>
    (\<forall>w\<in>set (waits l). \<forall>s\<in>set (syns l). \<not> matchTCPSYN_noLock w s)"

lemma popDuplicated_filter:
  assumes "length (filter d ss) \<le> n"
  shows "popDuplicated d ss kept n r = (rev (filter d ss) @ r, kept @ filter (\<lambda>s. \<not> d s) ss, n - length (filter d ss))"
  using assms by (induction ss arbitrary: kept n r) auto

lemma isDuplicated_key: "isDuplicated (sourceAddress s) (synSourcePort s) (synDestinationPort s) x \<longleftrightarrow> synKey x = synKey s"
  by (auto simp: isDuplicated_def synKey_def)

lemma find_split: "find P xs = Some x \<Longrightarrow> x \<in> set xs \<and> P x"
  by (auto simp: find_Some_iff)

lemma distinct_key_filter: "distinct (map f xs) \<Longrightarrow> length (filter (\<lambda>x. f x = k) xs) \<le> 1"
proof (induction xs)
  case (Cons x xs)
  then show ?case by (cases "f x = k") (auto simp: filter_empty_conv image_iff)
qed simp

lemma addTCPSYN_spec:
  assumes inv: "listener_inv l"
  shows "\<exists>r d l'. addTCPSYN l s = Some (r, d, l') \<and> listener_inv l' \<and>
    mset (syns l') + mset d + (if r = None then {#} else {#s#}) = mset (syns l) + {#s#} \<and>
    mset (waits l') + (case r of None \<Rightarrow> {#} | Some w \<Rightarrow> {#w#}) = mset (waits l) \<and>
    (\<forall>w. r = Some w \<longrightarrow> matchTCPSYN_noLock w s) \<and> (\<forall>x\<in>set d. synKey x = synKey s \<or> length (syns l) = MAX_QUEUED_SYN_COUNT)"
proof -
  let ?d = "\<lambda>x. synKey x = synKey s"
  let ?k = "filter (\<lambda>x. \<not> ?d x) (syns l)"
  let ?dup = "rev (filter ?d (syns l))"
  have i: "synCount l = length (syns l)" "length (syns l) \<le> 10" "distinct (map synKey (syns l))"
    "\<And>w x. w \<in> set (waits l) \<Longrightarrow> x \<in> set (syns l) \<Longrightarrow> \<not> matchTCPSYN_noLock w x"
    using inv by (auto simp: listener_inv_def)
  have len: "length (filter ?d (syns l)) + length ?k = length (syns l)" by (rule sum_length_filter_compl)
  define l1 where "l1 = l\<lparr>syns := ?k, synCount := length ?k\<rparr>"
  have pop: "popDuplicatedTCPSYN_noLock l (sourceAddress s) (synSourcePort s) (synDestinationPort s) = (?dup, l1)"
    unfolding popDuplicatedTCPSYN_noLock_def isDuplicated_key [abs_def]
    using popDuplicated_filter [of ?d "syns l" "synCount l" "[]" "[]"] i(1) len by (simp add: l1_def)
  have one: "length ?dup \<le> 1" using distinct_key_filter [OF i(3)] by simp
  have m: "mset ?k + mset ?dup = mset (syns l)" by (simp add: multiset_partition [symmetric])
  show ?thesis
  proof (cases "find (\<lambda>w. matchTCPSYN_noLock w s) (waits l)")
    case (Some w)
    then have w: "w \<in> set (waits l)" "matchTCPSYN_noLock w s" using find_split by fastforce+
    let ?l = "l1\<lparr>waits := remove1 w (waits l)\<rparr>"
    have "addTCPSYN l s = Some (Some w, ?dup, ?l)"
      using i(1,2) one unfolding addTCPSYN_def pop by (simp add: l1_def Some)
    moreover have "listener_inv ?l"
      using inv i(2) len by (auto simp: listener_inv_def l1_def distinct_map_filter dest: notin_set_remove1)
    ultimately show ?thesis using w m by (auto simp: l1_def)
  next
    case None
    then have nm: "\<forall>w\<in>set (waits l). \<not> matchTCPSYN_noLock w s" by (simp add: find_None_iff)
    show ?thesis
    proof (cases "length ?k = 10")
      case True
      then have z: "length (filter ?d (syns l)) = 0" "length (syns l) = 10" using i(2) len by linarith+
      then have e: "filter ?d (syns l) = []" "?k = syns l" "length (syns l) = 10"
        by (simp_all add: filter_empty_conv filter_id_conv)
      then obtain x xs where x: "syns l = x # xs" by (cases "syns l") auto
      let ?l = "l1\<lparr>syns := xs @ [s], synCount := 10\<rparr>"
      have "addTCPSYN l s = Some (None, [x], ?l)"
        using i(1,2) e x unfolding addTCPSYN_def pop by (simp add: l1_def None)
      moreover have "listener_inv ?l"
      proof -
        have "\<forall>y\<in>set (syns l). synKey y \<noteq> synKey s" using e(1) by (simp add: filter_empty_conv)
        then show ?thesis using inv nm e(3) x by (auto simp: listener_inv_def l1_def)
      qed
      ultimately show ?thesis using x e(3) by (auto simp: l1_def)
    next
      case False
      let ?l = "l1\<lparr>syns := ?k @ [s], synCount := length ?k + 1\<rparr>"
      have "addTCPSYN l s = Some (None, ?dup, ?l)"
        using i(1,2) False one unfolding addTCPSYN_def pop by (simp add: l1_def None)
      moreover have "listener_inv ?l"
        using inv nm i(2) len False by (auto simp: listener_inv_def l1_def distinct_map_filter)
      ultimately show ?thesis using m by (auto simp: l1_def)
    qed
  qed
qed

lemma waitTCPSYN_spec:
  assumes "listener_inv l" "waitTCPSYN l w = (r, l')"
  shows "listener_inv l' \<and> mset (syns l') + (case r of None \<Rightarrow> {#} | Some s \<Rightarrow> {#s#}) = mset (syns l) \<and>
    mset (waits l') + (if r = None then {#} else {#w#}) = mset (waits l) + {#w#} \<and> (\<forall>s. r = Some s \<longrightarrow> matchTCPSYN_noLock w s)"
proof (cases "find (matchTCPSYN_noLock w) (syns l)")
  case None
  then have "\<forall>s\<in>set (syns l). \<not> matchTCPSYN_noLock w s" by (simp add: find_None_iff)
  then show ?thesis using assms None by (auto simp: waitTCPSYN_def listener_inv_def)
next
  case (Some s)
  then have s: "s \<in> set (syns l)" "matchTCPSYN_noLock w s" using find_split by fastforce+
  then have l: "r = Some s" "l' = l\<lparr>syns := remove1 s (syns l), synCount := synCount l - 1\<rparr>"
    using assms(2) Some by (simp_all add: waitTCPSYN_def)
  have "distinct (map synKey (remove1 s (syns l)))"
    using assms(1) by (auto simp: listener_inv_def distinct_map intro: inj_on_subset dest: notin_set_remove1 set_remove1_subset [THEN subsetD])
  then have "listener_inv l'"
    using assms(1) s(1) by (auto simp: listener_inv_def l(2) length_remove1 dest: notin_set_remove1)
  then show ?thesis using s by (simp add: l)
qed

lemma listenerStep_spec:
  assumes "listener_inv l"
  shows "\<exists>m d l'. listenerStep l call = Some (m, d, l') \<and> listener_inv l' \<and>
    mset (syns l') + mset d + mset (map snd m) = mset (syns l) + mset (arrivals [call]) \<and>
    mset (waits l') + mset (map fst m) = mset (waits l) + mset (servers [call]) \<and> (\<forall>(w, s)\<in>set m. matchTCPSYN_noLock w s)"
proof (cases call)
  case (Arrive s)
  obtain r d l' where a: "addTCPSYN l s = Some (r, d, l')" "listener_inv l'"
    "mset (syns l') + mset d + (if r = None then {#} else {#s#}) = mset (syns l) + {#s#}"
    "mset (waits l') + (case r of None \<Rightarrow> {#} | Some w \<Rightarrow> {#w#}) = mset (waits l)" "\<forall>w. r = Some w \<longrightarrow> matchTCPSYN_noLock w s"
    using addTCPSYN_spec [OF assms] by blast
  then show ?thesis using Arrive by (cases r) (auto simp: listenerStep_def)
next
  case (Wait w)
  obtain r l' where r: "waitTCPSYN l w = (r, l')" by (cases "waitTCPSYN l w")
  then show ?thesis using Wait waitTCPSYN_spec [OF assms r] by (cases r) (auto simp: listenerStep_def)
qed

lemma listenerRun_spec:
  assumes "listener_inv l"
  shows "\<exists>m d l'. listenerRun l calls = Some (m, d, l') \<and> listener_inv l' \<and>
    mset (syns l') + mset d + mset (map snd m) = mset (syns l) + mset (arrivals calls) \<and>
    mset (waits l') + mset (map fst m) = mset (waits l) + mset (servers calls) \<and> (\<forall>(w, s)\<in>set m. matchTCPSYN_noLock w s)"
  using assms
proof (induction calls arbitrary: l)
  case (Cons call calls)
  obtain m d l1 where a: "listenerStep l call = Some (m, d, l1)" "listener_inv l1"
    "mset (syns l1) + mset d + mset (map snd m) = mset (syns l) + mset (arrivals [call])"
    "mset (waits l1) + mset (map fst m) = mset (waits l) + mset (servers [call])" "\<forall>(w, s)\<in>set m. matchTCPSYN_noLock w s"
    using listenerStep_spec [OF Cons.prems] by blast
  obtain m' d' l2 where b: "listenerRun l1 calls = Some (m', d', l2)" "listener_inv l2"
    "mset (syns l2) + mset d' + mset (map snd m') = mset (syns l1) + mset (arrivals calls)"
    "mset (waits l2) + mset (map fst m') = mset (waits l1) + mset (servers calls)" "\<forall>(w, s)\<in>set m'. matchTCPSYN_noLock w s"
    using Cons.IH [OF a(2)] by blast
  have e: "arrivals (call # calls) = arrivals [call] @ arrivals calls" "servers (call # calls) = servers [call] @ servers calls"
    by (cases call; simp)+
  have "mset (syns l2) + mset (d @ d') + mset (map snd (m @ m')) = mset (syns l) + mset (arrivals (call # calls))"
    using a(3) b(3) unfolding e by (simp add: ac_simps) (metis (no_types, lifting) union_assoc union_commute)
  moreover have "mset (waits l2) + mset (map fst (m @ m')) = mset (waits l) + mset (servers (call # calls))"
    using a(4) b(4) unfolding e by (simp add: ac_simps) (metis (no_types, lifting) union_assoc union_commute)
  ultimately show ?case using a(1,5) b(1,2,5) by auto
qed simp

text \<open>C19: in every history of the listener no assertion fails, a server gets only packets that match its arguments, every packet is
  handed to one server, still queued or deleted, every server has got one packet or still waits, and at the end no packet is
  queued that a waiting server could take.\<close>

theorem tcp_listener_correct:
  "\<exists>met dropped l. listenerRun createTCPListener calls = Some (met, dropped, l) \<and>
    (\<forall>(w, s)\<in>set met. matchTCPSYN_noLock w s) \<and>
    mset (arrivals calls) = mset (map snd met) + mset (syns l) + mset dropped \<and>
    mset (servers calls) = mset (map fst met) + mset (waits l) \<and>
    length (syns l) \<le> MAX_QUEUED_SYN_COUNT \<and> distinct (map synKey (syns l)) \<and>
    (\<forall>w\<in>set (waits l). \<forall>s\<in>set (syns l). \<not> matchTCPSYN_noLock w s)"
proof -
  have "listener_inv createTCPListener" by (simp add: listener_inv_def createTCPListener_def)
  from listenerRun_spec [OF this, of calls] show ?thesis
    by (auto simp: createTCPListener_def listener_inv_def ac_simps)
qed

theorem tcp_listener_correct_witness:
  "\<exists>met dropped l. listenerRun createTCPListener [Arrive \<lparr>sourceAddress = 1, synSourcePort = 2, destinationAddress = 3, synDestinationPort = 80, synPacket = []\<rparr>,
      Wait \<lparr>waiter = 4, arguments = initIPSocketArguments\<lparr>localPort := 80\<rparr>\<rparr>] = Some (met, dropped, l) \<and> map (waiter \<circ> fst) met = [4] \<and> syns l = []"
  using tcp_listener_correct [of "[Arrive \<lparr>sourceAddress = 1, synSourcePort = 2, destinationAddress = 3, synDestinationPort = 80, synPacket = []\<rparr>,
      Wait \<lparr>waiter = 4, arguments = initIPSocketArguments\<lparr>localPort := 80\<rparr>\<rparr>]"]
  by (auto simp: listenerStep_def addTCPSYN_def waitTCPSYN_def createTCPListener_def popDuplicatedTCPSYN_noLock_def matchTCPSYN_noLock_def
      initIPSocketArguments_def)

end
