(* ===== verification/TcpSocket.thy ===== *)
theory TcpSocket
  imports Tcp
begin

text \<open>
  The task of a TCP socket, \<open>kernel/io/network/tcp.c\<close>: the loop that serves the readers, transmits, waits for one of its four
  pending I/O requests (a packet of the raw socket, a request of a program, the timers of the delayed acknowledgement and of the
  retransmission) and handles the one that completed. A pending request is a flag; \<open>False\<close> stands for \<open>IO_REQUEST_FAILURE\<close>.
\<close>

record TCPSocket =
  receiveWindow :: TCPReceiveWindow
  transmitWindow :: TCPTransmitWindow
  rawBufferSize :: nat
  isClosing :: bool
  hasSentFINACK :: bool

datatype RWTCPRequest =
    CloseRequest
  | WriteRequest nat "u8 list"
  | ReadTCP nat nat
  | WrongSize

text \<open>The local variables of \<open>tcpLoop\<close>.\<close>

record tcp_loop =
  sock :: TCPSocket
  needACK :: bool
  mustTransmit :: bool
  needRetransmit :: bool
  counter :: RetransmitCounter
  readSocketIO :: bool
  rwRequestFIFOIO :: bool
  ackTimerIO :: bool
  retransmitTimerIO :: bool

text \<open>\<open>transmitTCP\<close>: success, packets, sequence numbers and number of packets.\<close>

definition transmitTCP :: "(nat \<Rightarrow> bool) \<Rightarrow> bool \<Rightarrow> TCPSocket \<Rightarrow> (bool \<times> TCPSegment list \<times> nat \<times> nat \<times> TCPSocket) option" where
  "transmitTCP writeOK must s = do {
    let rwa = getTCPReceiveACK (receiveWindow s);
    (ok, segs, seqDiff, n, tw) \<leftarrow> transmitLoop writeOK rwa (rawBufferSize s) 0 must (transmitWindow s);
    Some (ok, segs, seqDiff, n, s\<lparr>transmitWindow := tw, hasSentFINACK := hasSentFINACK s \<or> isFINACK rwa \<and> n \<noteq> 0\<rparr>)
  }"

text \<open>What a round of the loop gives to the programs and to the network: the completed requests with their data, and packets.\<close>

type_synonym tcp_output = "(nat \<times> u8 list) list \<times> TCPSegment list"

datatype loop_result =
    Exit bool TCPSocket
  | Continue tcp_loop

text \<open>The first half of a round, up to the point where the task waits; \<open>ioOK\<close> tells whether the missing I/O requests could be
  started.\<close>

definition afterTransmit :: "bool \<Rightarrow> bool \<Rightarrow> nat \<Rightarrow> nat \<Rightarrow> TCPSocket \<Rightarrow> tcp_loop \<Rightarrow> loop_result" where
  "afterTransmit ioOK ok seqDiff n s st =
    (if \<not> ok then Exit False s
     else let st = st\<lparr>sock := s\<rparr>;
              st = (if n \<noteq> 0 then st\<lparr>needACK := False, mustTransmit := False\<rparr> else st);
              st = (if seqDiff > 0 \<and> \<not> needRetransmit st
                then st\<lparr>needRetransmit := True, counter := resetRetransmit (transmitWindow s)\<rparr> else st) in
       if isClosing s \<and> \<not> hasTCPTransmitBuffer (transmitWindow s) \<and> hasSentFINACK s then Exit True s
       else if \<not> ioOK then Exit False s
       else Continue (st\<lparr>readSocketIO := True, rwRequestFIFOIO := True, ackTimerIO := ackTimerIO st \<or> needACK st,
         retransmitTimerIO := retransmitTimerIO st \<or> needRetransmit st\<rparr>))"

definition loopTop :: "(nat \<Rightarrow> bool) \<Rightarrow> bool \<Rightarrow> tcp_loop \<Rightarrow> (tcp_output \<times> loop_result) option" where
  "loopTop writeOK ioOK st = do {
    (out, rw) \<leftarrow> copyTCPReceiveBuffer (receiveWindow (sock st));
    let st = st\<lparr>sock := (sock st)\<lparr>receiveWindow := rw\<rparr>, needACK := needACK st \<or> concat (map snd out) \<noteq> []\<rparr>;
    (ok, segs, seqDiff, n, s) \<leftarrow> transmitTCP writeOK (mustTransmit st) (sock st);
    Some ((out, segs), afterTransmit ioOK ok seqDiff n s st)
  }"

datatype loop_event =
    Packet bytes nat
  | Request RWTCPRequest bool
  | AckTimer
  | RetransmitTimer
  | WaitFailure

text \<open>The second half: the I/O request that completed. A request that is not pending is unknown to the loop. The flag of a request
  tells whether memory for it is available.\<close>

definition handlePacket :: "bytes \<Rightarrow> nat \<Rightarrow> tcp_loop \<Rightarrow> (tcp_output \<times> loop_result) option" where
  "handlePacket p readSize st = do {
    (dataSize, ackSize, rw, tw) \<leftarrow> receiveTCPDataPacket p readSize (receiveWindow (sock st)) (transmitWindow (sock st));
    Some (([], []), Continue (st\<lparr>readSocketIO := False, sock := (sock st)\<lparr>receiveWindow := rw, transmitWindow := tw\<rparr>,
      needACK := needACK st \<or> dataSize \<noteq> 0 \<or> ackSize \<noteq> 0\<rparr>))
  }"

definition handleRequest :: "RWTCPRequest \<Rightarrow> bool \<Rightarrow> tcp_loop \<Rightarrow> (tcp_output \<times> loop_result) option" where
  "handleRequest r memoryOK st = (let st = st\<lparr>rwRequestFIFOIO := False\<rparr> in case r of
      WrongSize \<Rightarrow> Some (([], []), Continue st)
    | CloseRequest \<Rightarrow> do {
        (ok, tw) \<leftarrow> pushTCPTransmitBuffer memoryOK (transmitWindow (sock st)) [63] True;
        let st = st\<lparr>sock := (sock st)\<lparr>isClosing := True, transmitWindow := tw\<rparr>\<rparr>;
        Some (([], []), if ok then Continue st else Exit False (sock st))
      }
    | WriteRequest q data \<Rightarrow> do {
        (ok, tw) \<leftarrow> pushTCPTransmitBuffer memoryOK (transmitWindow (sock st)) data False;
        Some (([(q, [])], []), Continue (st\<lparr>sock := (sock st)\<lparr>transmitWindow := tw\<rparr>\<rparr>))
      }
    | ReadTCP q n \<Rightarrow>
        let (failed, rw) = pushTCPReceiveBuffer memoryOK (receiveWindow (sock st)) q n in
        Some ((case failed of Some q \<Rightarrow> [(q, [])] | None \<Rightarrow> [], []), Continue (st\<lparr>sock := (sock st)\<lparr>receiveWindow := rw\<rparr>\<rparr>)))"

definition handleTimers :: "bool \<Rightarrow> tcp_loop \<Rightarrow> loop_result" where
  "handleTimers isRetransmit st =
    (if \<not> isRetransmit then Continue (st\<lparr>ackTimerIO := False, mustTransmit := mustTransmit st \<or> needACK st\<rparr>)
     else let (ok, doRetransmit, delay, rc) = checkRetransmit (counter st) (transmitWindow (sock st));
              st = st\<lparr>retransmitTimerIO := False, counter := rc, needRetransmit := delay\<rparr>;
              st = (if doRetransmit then st\<lparr>sock := (sock st)\<lparr>transmitWindow := rollbackTCPTransmitSequence (transmitWindow (sock st))\<rparr>\<rparr> else st) in
       if ok then Continue st else Exit False (sock st))"

definition loopEvent :: "loop_event \<Rightarrow> tcp_loop \<Rightarrow> (tcp_output \<times> loop_result) option" where
  "loopEvent ev st = (case ev of
      WaitFailure \<Rightarrow> Some (([], []), Continue st)
    | Packet p readSize \<Rightarrow> if readSocketIO st then handlePacket p readSize st else Some (([], []), Exit False (sock st))
    | Request r memoryOK \<Rightarrow> if rwRequestFIFOIO st then handleRequest r memoryOK st else Some (([], []), Exit False (sock st))
    | AckTimer \<Rightarrow> Some (([], []), if ackTimerIO st then handleTimers False st else Exit False (sock st))
    | RetransmitTimer \<Rightarrow> Some (([], []), if retransmitTimerIO st then handleTimers True st else Exit False (sock st)))"

text \<open>The loop over a list of rounds: for each the results of writing, of starting the I/O requests, and the event. The list ends where
  the observation ends; the last component tells how the loop ended, if it did.\<close>

fun tcpLoop :: "((nat \<Rightarrow> bool) \<times> bool \<times> loop_event) list \<Rightarrow> tcp_loop \<Rightarrow> (tcp_output \<times> loop_result) option" where
  "tcpLoop [] st = Some (([], []), Continue st)"
| "tcpLoop ((writeOK, ioOK, ev) # rounds) st = (case loopTop writeOK ioOK st of
      None \<Rightarrow> None
    | Some (o1, Exit r s) \<Rightarrow> Some (o1, Exit r s)
    | Some ((d1, s1), Continue st) \<Rightarrow> (case loopEvent ev st of
          None \<Rightarrow> None
        | Some ((d2, s2), Exit r s) \<Rightarrow> Some ((d1 @ d2, s1 @ s2), Exit r s)
        | Some ((d2, s2), Continue st) \<Rightarrow>
            map_option (\<lambda>((d3, s3), r). ((d1 @ d2 @ d3, s1 @ s2 @ s3), r)) (tcpLoop rounds st)))"

definition startLoop :: "nat \<Rightarrow> TCPReceiveWindow \<Rightarrow> TCPTransmitWindow \<Rightarrow> tcp_loop" where
  "startLoop z rw tw = \<lparr>sock = \<lparr>receiveWindow = rw, transmitWindow = tw, rawBufferSize = z, isClosing = False, hasSentFINACK = False\<rparr>,
    needACK = False, mustTransmit = False, needRetransmit = False, counter = \<lparr>maxCount = 0, rcCount = 0, startSequence = 0\<rparr>,
    readSocketIO = False, rwRequestFIFOIO = False, ackTimerIO = False, retransmitTimerIO = False\<rparr>"

text \<open>After the loop, \<open>flushTCPRWRequest\<close>: requests are completed with size 0 until the close request is read.\<close>

fun flushTCPRWRequest :: "bool \<Rightarrow> RWTCPRequest list \<Rightarrow> nat list" where
  "flushTCPRWRequest closing [] = []"
| "flushTCPRWRequest closing (r # rs) =
    (if closing then [] else case r of
       CloseRequest \<Rightarrow> []
     | WrongSize \<Rightarrow> []
     | WriteRequest q data \<Rightarrow> q # flushTCPRWRequest closing rs
     | ReadTCP q n \<Rightarrow> q # flushTCPRWRequest closing rs)"

section \<open>The loop keeps both streams\<close>

text \<open>A packet of the peer, whose program writes \<open>S\<close>, when the own program has written \<open>W\<close>: it carries a part of \<open>S\<close> or finishes it, and it
  acknowledges nothing that was not written.\<close>

definition packet_possible :: "u8 list \<Rightarrow> u32 \<Rightarrow> u8 list \<Rightarrow> bool \<Rightarrow> u32 \<Rightarrow> bytes \<Rightarrow> nat \<Rightarrow> bool" where
  "packet_possible S isnR W fin isnT p readSize \<longleftrightarrow> getTCPHeaderSize p \<le> readSize \<and>
    (\<exists>off. getSequenceNumber p = isnR + of_nat off \<and>
      (if flag p FIN then off = length S
       else view p (getTCPHeaderSize p) readSize = take (readSize - getTCPHeaderSize p) (drop off S))) \<and>
    (flag p ACK \<longrightarrow> (\<exists>q\<le>length (written W fin). getAcknowledgeNumber p = isnT + of_nat q))"

fun rounds_possible :: "u8 list \<Rightarrow> u32 \<Rightarrow> u8 list \<Rightarrow> bool \<Rightarrow> u32 \<Rightarrow> ((nat \<Rightarrow> bool) \<times> bool \<times> loop_event) list \<Rightarrow> bool" where
  "rounds_possible S isnR W fin isnT [] \<longleftrightarrow> length (written W fin) < MAX_STREAM"
| "rounds_possible S isnR W fin isnT ((w, i, ev) # rounds) \<longleftrightarrow> (case ev of
      Packet p readSize \<Rightarrow> packet_possible S isnR W fin isnT p readSize \<and> rounds_possible S isnR W fin isnT rounds
    | Request r memoryOK \<Rightarrow> (case r of
          CloseRequest \<Rightarrow> \<not> fin \<and> rounds_possible S isnR W memoryOK isnT rounds
        | WriteRequest q data \<Rightarrow> \<not> fin \<and> rounds_possible S isnR (if memoryOK then W @ data else W) fin isnT rounds
        | _ \<Rightarrow> rounds_possible S isnR W fin isnT rounds)
    | _ \<Rightarrow> rounds_possible S isnR W fin isnT rounds)"

fun loop_bytes :: "((nat \<Rightarrow> bool) \<times> bool \<times> loop_event) list \<Rightarrow> u8 list" where
  "loop_bytes [] = []"
| "loop_bytes ((w, i, ev) # rounds) = (case ev of Request (WriteRequest q data) True \<Rightarrow> data | _ \<Rightarrow> []) @ loop_bytes rounds"

fun finishes :: "((nat \<Rightarrow> bool) \<times> bool \<times> loop_event) \<Rightarrow> bool" where
  "finishes (w, i, Packet p n) = flag p FIN"
| "finishes _ = False"

lemma rounds_possible_length:
  "rounds_possible S isnR W fin isnT rounds \<Longrightarrow> length (written W fin) + length (loop_bytes rounds) < MAX_STREAM \<and> (fin \<longrightarrow> loop_bytes rounds = [])"
proof (induction rounds arbitrary: W fin)
  case (Cons r rounds)
  obtain w i ev where r: "r = (w, i, ev)" by (cases r)
  show ?case
  proof (cases ev)
    case (Request q m)
    then show ?thesis using Cons r by (cases q; cases m; cases fin) (fastforce simp: written_def)+
  qed (use Cons r in auto)
qed simp

definition socket_inv :: "u8 list \<Rightarrow> u32 \<Rightarrow> nat \<Rightarrow> u8 list \<Rightarrow> bool \<Rightarrow> u32 \<Rightarrow> nat \<Rightarrow> nat \<Rightarrow> TCPSocket \<Rightarrow> bool" where
  "socket_inv S isnR n W fin isnT mss z s \<longleftrightarrow>
    receive_inv S isnR n (receiveWindow s) \<and> maximal (receiveWindow s) \<and> windowSize (receiveWindow s) = 8192 \<and>
    (\<exists>p a c. transmit_inv W fin isnT p a c (transmitWindow s)) \<and> maxSegmentSize (transmitWindow s) = mss \<and> rawBufferSize s = z \<and>
    (hasSentFINACK s \<longrightarrow> reachFinish (receiveWindow s) \<and> received n (receiveWindow s) = length S) \<and> (isClosing s \<longrightarrow> fin)"

definition sent_ok :: "u8 list \<Rightarrow> bool \<Rightarrow> u32 \<Rightarrow> nat \<Rightarrow> nat \<Rightarrow> TCPSegment \<Rightarrow> bool" where
  "sent_ok W fin isnT mss z seg \<longleftrightarrow> (\<forall>W'. (fin \<longrightarrow> W' = []) \<longrightarrow> segment_of (W @ W') isnT seg) \<and>
    length (payload seg) \<le> mss \<and> length (payload seg) \<le> z - 20"

lemma ackFIN_received:
  assumes "receive_inv S isnR n rw" "length S < 2 ^ 32" "isFINACK (getTCPReceiveACK rw)"
  shows "reachFinish rw \<and> received n rw = length S"
proof -
  have f: "reachFinish rw" "sequenceFinish rw = addTCPSequence (sequenceBegin rw) (sequenceLength rw)"
    using assms(3) by (simp_all add: getTCPReceiveACK_def Let_def)
  have i: "sequenceBegin rw = isnR + of_nat n" "received n rw \<le> length S" "sequenceFinish rw = isnR + of_nat (length S)"
    using assms(1) f(1) by (simp_all add: receive_inv_def)
  then have "isnR + of_nat (length S) = isnR + of_nat (received n rw)" using f(2) by (simp add: addTCPSequence_def add.assoc)
  then show ?thesis using diff_below [OF i(2) assms(2), of isnR] f(1) i(2) by (simp add: diffTCPSequence_def)
qed

lemma afterTransmit_cases:
  "(\<exists>st'. afterTransmit i ok d k s st = Continue st' \<and> sock st' = s \<and> readSocketIO st' \<and> rwRequestFIFOIO st') \<or> afterTransmit i ok d k s st = Exit False s \<or>
    afterTransmit i ok d k s st = Exit True s \<and> isClosing s \<and> \<not> hasTCPTransmitBuffer (transmitWindow s) \<and> hasSentFINACK s"
  by (auto simp: afterTransmit_def Let_def)

lemma loopTop_inv:
  assumes inv: "socket_inv S isnR n W fin isnT mss z (sock st)" and l: "length S + 8192 < 2 ^ 32"
  shows "\<exists>out segs r m s. loopTop w i st = Some ((out, segs), r) \<and> concat (map snd out) = take m (drop n S) \<and> length (concat (map snd out)) = m \<and>
    (\<forall>seg\<in>set segs. sent_ok W fin isnT mss z seg) \<and> socket_inv S isnR (n + m) W fin isnT mss z s \<and>
    (reachFinish (receiveWindow s) = reachFinish (receiveWindow (sock st))) \<and>
    ((\<exists>st'. r = Continue st' \<and> sock st' = s \<and> readSocketIO st' \<and> rwRequestFIFOIO st') \<or> r = Exit False s \<or>
      r = Exit True s \<and> isClosing s \<and> \<not> hasTCPTransmitBuffer (transmitWindow s) \<and> hasSentFINACK s)"
proof -
  let ?rw = "receiveWindow (sock st)"
  have a: "receive_inv S isnR n ?rw" "maximal ?rw" "windowSize ?rw = 8192" "maxSegmentSize (transmitWindow (sock st)) = mss" "rawBufferSize (sock st) = z"
    "hasSentFINACK (sock st) \<longrightarrow> reachFinish ?rw \<and> received n ?rw = length S" "isClosing (sock st) \<longrightarrow> fin"
    using inv by (simp_all add: socket_inv_def)
  obtain p b c where t: "transmit_inv W fin isnT p b c (transmitWindow (sock st))" using inv by (auto simp: socket_inv_def)
  obtain out m rw' where o: "copyTCPReceiveBuffer ?rw = Some (out, rw')" "served S isnR n ?rw out m rw'"
    using copyTCPReceiveBuffer_served [OF a(1,2)] l by auto
  have sv: "concat (map snd out) = take m (drop n S)" "received (n + m) rw' = received n ?rw" "receive_inv S isnR (n + m) rw'" "maximal rw'"
    "windowSize rw' = windowSize ?rw" "reachFinish rw' = reachFinish ?rw"
    using o(2) by (simp_all add: served_def)
  have "n + m \<le> length S" using sv(3) by (simp add: receive_inv_def)
  then have m: "length (concat (map snd out)) = m" using sv(1) by simp
  obtain ok segs d k c' tw' where x: "transmitLoop w (getTCPReceiveACK rw') z 0 (mustTransmit st) (transmitWindow (sock st)) = Some (ok, segs, d, k, tw')"
    "transmit_inv W fin isnT p b c' tw'" "maxSegmentSize tw' = maxSegmentSize (transmitWindow (sock st))"
    "\<forall>seg\<in>set segs. segment_ok W fin isnT b (transmitWindow (sock st)) z seg"
    using transmitLoop_inv [OF t] by blast
  define s where "s = (sock st)\<lparr>receiveWindow := rw', transmitWindow := tw',
    hasSentFINACK := hasSentFINACK (sock st) \<or> isFINACK (getTCPReceiveACK rw') \<and> k \<noteq> 0\<rparr>"
  have "socket_inv S isnR (n + m) W fin isnT mss z s"
    using sv a x(2,3) ackFIN_received [OF sv(3)] l unfolding socket_inv_def by (auto simp: s_def)
  moreover have "\<forall>seg\<in>set segs. sent_ok W fin isnT mss z seg"
  proof
    fix seg
    assume "seg \<in> set segs"
    then have g: "segment_ok W fin isnT b (transmitWindow (sock st)) z seg" using x(4) by simp
    show "sent_ok W fin isnT mss z seg" using segment_ok_of [OF g] segment_ok_length [OF g] a(4) by (simp add: sent_ok_def)
  qed
  moreover have "transmitTCP w (mustTransmit st) ((sock st)\<lparr>receiveWindow := rw'\<rparr>) = Some (ok, segs, d, k, s)"
    using x(1) a(5) by (simp add: transmitTCP_def s_def Let_def)
  then have "loopTop w i st = Some ((out, segs), afterTransmit i ok d k s
      (st\<lparr>sock := (sock st)\<lparr>receiveWindow := rw'\<rparr>, needACK := needACK st \<or> concat (map snd out) \<noteq> []\<rparr>))"
    using o(1) by (simp add: loopTop_def Let_def)
  moreover have "reachFinish (receiveWindow s) = reachFinish ?rw" using sv(6) by (simp add: s_def)
  ultimately show ?thesis using sv(1) m afterTransmit_cases [of i ok d k s "st\<lparr>sock := (sock st)\<lparr>receiveWindow := rw'\<rparr>, needACK := needACK st \<or> concat (map snd out) \<noteq> []\<rparr>"]
    by (simp only: option.inject prod.inject) metis
qed

lemma packet_inv:
  assumes inv: "socket_inv S isnR n W fin isnT mss z (sock st)" and l: "length S + 8192 < 2 ^ 32"
    and p: "packet_possible S isnR W fin isnT p readSize"
  shows "case handlePacket p readSize st of
      None \<Rightarrow> reachFinish (receiveWindow (sock st))
    | Some (o', r) \<Rightarrow> o' = ([], []) \<and> (\<exists>st'. r = Continue st' \<and> socket_inv S isnR n W fin isnT mss z (sock st') \<and>
        (reachFinish (receiveWindow (sock st')) \<longrightarrow> reachFinish (receiveWindow (sock st)) \<or> flag p FIN))"
proof -
  let ?rw = "receiveWindow (sock st)"
  have a: "receive_inv S isnR n ?rw" "maximal ?rw" "windowSize ?rw = 8192" "maxSegmentSize (transmitWindow (sock st)) = mss" "rawBufferSize (sock st) = z"
    "hasSentFINACK (sock st) \<longrightarrow> reachFinish ?rw \<and> received n ?rw = length S" "isClosing (sock st) \<longrightarrow> fin"
    using inv by (simp_all add: socket_inv_def)
  obtain q b c where t: "transmit_inv W fin isnT q b c (transmitWindow (sock st))" using inv by (auto simp: socket_inv_def)
  have "\<exists>k tw' q' b' c'. receiveACK p (transmitWindow (sock st)) = Some (k, tw') \<and> transmit_inv W fin isnT q' b' c' tw' \<and> maxSegmentSize tw' = mss"
  proof (cases "flag p ACK")
    case True
    then obtain x where "x \<le> length (written W fin)" "getAcknowledgeNumber p = isnT + of_nat x" using p by (auto simp: packet_possible_def)
    then show ?thesis using True receiveTCPACK_inv [OF t, of x "getWindowSize p"] a(4) by (auto simp: receiveACK_def)
  qed (use t a(4) in \<open>auto simp: receiveACK_def\<close>)
  then obtain k tw' where k: "receiveACK p (transmitWindow (sock st)) = Some (k, tw')" "\<exists>q' b' c'. transmit_inv W fin isnT q' b' c' tw'" "maxSegmentSize tw' = mss"
    by blast
  obtain off where o: "getSequenceNumber p = isnR + of_nat off" "flag p FIN \<Longrightarrow> off = length S"
    "\<not> flag p FIN \<Longrightarrow> view p (getTCPHeaderSize p) readSize = take (readSize - getTCPHeaderSize p) (drop off S)" and h: "getTCPHeaderSize p \<le> readSize"
    using p by (auto simp: packet_possible_def split: if_splits)
  let ?ev = "if flag p FIN then Finish else Segment off (readSize - getTCPHeaderSize p)"
  let ?seg = "receiveTCPSegment ?rw (flag p FIN) (getSequenceNumber p) (view p (getTCPHeaderSize p) readSize)"
  have e: "map_option snd ?seg = tcpEvent S isnR ?rw ?ev"
    using o by (auto simp: tcpEvent_def receiveTCPSegment_def)
  have W: "length S + windowSize ?rw < 2 ^ 32" using l a(3) by simp
  show ?thesis
  proof (cases ?seg)
    case None
    then have "tcpEvent S isnR ?rw ?ev = None" using e by simp
    then have "reachFinish ?rw" using tcpEvent_inv [OF a(1,2) W, of ?ev] by simp
    then show ?thesis using None k(1) h by (simp add: handlePacket_def receiveTCPDataPacket_def)
  next
    case (Some y)
    obtain d rw' where y: "y = (d, rw')" by (cases y)
    then have "tcpEvent S isnR ?rw ?ev = Some rw'" using e Some by simp
    then have r: "receive_inv S isnR n rw'" "maximal rw'" "windowSize rw' = windowSize ?rw" "sequenceLength ?rw \<le> sequenceLength rw'"
      "?ev \<noteq> Finish \<longrightarrow> reachFinish rw' = reachFinish ?rw" using tcpEvent_inv [OF a(1,2) W, of ?ev] by simp_all
    have keep: "reachFinish ?rw \<Longrightarrow> reachFinish rw'"
      using Some y by (auto simp: receiveTCPSegment_def r(5) split: if_splits bind_splits)
    have "received n rw' \<le> length S" using r(1) by (simp add: receive_inv_def)
    then have "hasSentFINACK (sock st) \<longrightarrow> reachFinish rw' \<and> received n rw' = length S" using a(6) r(4) keep by auto
    then have "socket_inv S isnR n W fin isnT mss z ((sock st)\<lparr>receiveWindow := rw', transmitWindow := tw'\<rparr>)"
      using r a k(2,3) unfolding socket_inv_def by simp
    then show ?thesis using Some y k(1) h r(5) by (auto simp: handlePacket_def receiveTCPDataPacket_def split: if_splits)
  qed
qed

lemma request_inv:
  assumes inv: "socket_inv S isnR n W fin isnT mss z (sock st)" and p: "rounds_possible S isnR W fin isnT ((w, i, Request q m) # rounds)"
  shows "\<exists>out r W' fin' s. handleRequest q m st = Some ((out, []), r) \<and> concat (map snd out) = [] \<and> rounds_possible S isnR W' fin' isnT rounds \<and>
    W' @ loop_bytes rounds = W @ loop_bytes ((w, i, Request q m) # rounds) \<and> (fin \<longrightarrow> fin') \<and>
    ((\<exists>st'. r = Continue st' \<and> socket_inv S isnR n W' fin' isnT mss z (sock st') \<and>
      reachFinish (receiveWindow (sock st')) = reachFinish (receiveWindow (sock st))) \<or> r = Exit False s)"
proof -
  let ?rw = "receiveWindow (sock st)" and ?tw = "transmitWindow (sock st)"
  obtain p b c where t: "transmit_inv W fin isnT p b c ?tw" using inv by (auto simp: socket_inv_def)
  have keep: "socket_inv S isnR n W fin isnT mss z (sock (st\<lparr>rwRequestFIFOIO := False\<rparr>))" using inv by simp
  show ?thesis
  proof (cases q)
    case CloseRequest
    show ?thesis
    proof (cases m)
      case True
      have f: "\<not> fin" "rounds_possible S isnR W True isnT rounds" using p CloseRequest True by auto
      then have "length (written (W @ []) True) < MAX_STREAM" using rounds_possible_length by force
      then obtain tw' where "pushTCPTransmitBuffer True ?tw [63] True = Some (True, tw')" "transmit_inv W True isnT p b c tw'" "maxSegmentSize tw' = maxSegmentSize ?tw"
        using push_inv [of W isnT p b c ?tw "[]" True "[63]"] t f(1) by auto
      note h = this
      show ?thesis
        by (rule exI [of _ "[]"], rule exI [of _ "Continue (st\<lparr>rwRequestFIFOIO := False, sock := (sock st)\<lparr>isClosing := True, transmitWindow := tw'\<rparr>\<rparr>)"], rule exI [of _ W], rule exI [of _ True],
          use h CloseRequest True inv f in \<open>auto simp: handleRequest_def socket_inv_def\<close>)
    next
      case False
      note h = this
      show ?thesis
        by (rule exI [of _ "[]"], rule exI [of _ "Exit False ((sock st)\<lparr>isClosing := True, transmitWindow := ?tw\<rparr>)"], rule exI [of _ W], rule exI [of _ False],
          use h CloseRequest p in \<open>auto simp: handleRequest_def pushTCPTransmitBuffer_def\<close>)
    qed
  next
    case (WriteRequest r data)
    show ?thesis
    proof (cases m)
      case True
      have f: "\<not> fin" "rounds_possible S isnR (W @ data) False isnT rounds" using p WriteRequest True by (auto split: if_splits)
      then have "length (written (W @ data) False) < MAX_STREAM" using rounds_possible_length by force
      then obtain tw' where "pushTCPTransmitBuffer True ?tw data False = Some (True, tw')" "transmit_inv (W @ data) False isnT p b c tw'" "maxSegmentSize tw' = maxSegmentSize ?tw"
        using push_inv [of W isnT p b c ?tw data False data] t f(1) by auto
      note h = this
      show ?thesis
        by (rule exI [of _ "[(r, [])]"], rule exI [of _ "Continue (st\<lparr>rwRequestFIFOIO := False, sock := (sock st)\<lparr>transmitWindow := tw'\<rparr>\<rparr>)"], rule exI [of _ "W @ data"], rule exI [of _ False],
          use h WriteRequest True inv f in \<open>auto simp: handleRequest_def socket_inv_def\<close>)
    next
      case False
      note h = this
      show ?thesis
        by (rule exI [of _ "[(r, [])]"], rule exI [of _ "Continue (st\<lparr>rwRequestFIFOIO := False, sock := (sock st)\<lparr>transmitWindow := ?tw\<rparr>\<rparr>)"], rule exI [of _ W], rule exI [of _ fin],
          use h WriteRequest p inv in \<open>auto simp: handleRequest_def socket_inv_def pushTCPTransmitBuffer_def\<close>)
    qed
  next
    case (ReadTCP r k)
    have "socket_inv S isnR n W fin isnT mss z ((sock st)\<lparr>receiveWindow := snd (pushTCPReceiveBuffer m ?rw r k)\<rparr>)"
      using inv by (auto simp: socket_inv_def pushTCPReceiveBuffer_def receive_inv_def maximal_def hasTCPReceiveData_def)
    note h = this
    show ?thesis
      by (rule exI [of _ "case fst (pushTCPReceiveBuffer m ?rw r k) of Some q \<Rightarrow> [(q, [])] | None \<Rightarrow> []"], rule exI [of _ "Continue (st\<lparr>rwRequestFIFOIO := False, sock := (sock st)\<lparr>receiveWindow := snd (pushTCPReceiveBuffer m ?rw r k)\<rparr>\<rparr>)"], rule exI [of _ W], rule exI [of _ fin],
        use h ReadTCP p in \<open>auto simp: handleRequest_def pushTCPReceiveBuffer_def\<close>)
  next
    case WrongSize
    show ?thesis
      by (rule exI [of _ "[]"], rule exI [of _ "Continue (st\<lparr>rwRequestFIFOIO := False\<rparr>)"], rule exI [of _ W], rule exI [of _ fin],
        use WrongSize keep p in \<open>auto simp: handleRequest_def\<close>)
  qed
qed

lemma timers_inv:
  assumes inv: "socket_inv S isnR n W fin isnT mss z (sock st)"
  shows "(\<exists>st'. handleTimers b st = Continue st' \<and> socket_inv S isnR n W fin isnT mss z (sock st') \<and>
    reachFinish (receiveWindow (sock st')) = reachFinish (receiveWindow (sock st))) \<or> (\<exists>s. handleTimers b st = Exit False s)"
proof -
  obtain p a c where t: "transmit_inv W fin isnT p a c (transmitWindow (sock st))" using inv by (auto simp: socket_inv_def)
  have "socket_inv S isnR n W fin isnT mss z ((sock st)\<lparr>transmitWindow := rollbackTCPTransmitSequence (transmitWindow (sock st))\<rparr>)"
    using inv rollback_inv [OF t] by (auto simp: socket_inv_def rollbackTCPTransmitSequence_def)
  then show ?thesis using inv by (auto simp: handleTimers_def Let_def split: prod.splits)
qed

text \<open>One event of the loop, for a socket that has both of its permanent requests pending.\<close>

lemma loopEvent_inv:
  assumes inv: "socket_inv S isnR n W fin isnT mss z (sock st)" and l: "length S + 8192 < 2 ^ 32"
    and p: "rounds_possible S isnR W fin isnT ((w, i, ev) # rounds)" and io: "readSocketIO st" "rwRequestFIFOIO st"
  shows "loopEvent ev st = None \<and> reachFinish (receiveWindow (sock st)) \<or>
    (\<exists>out r W' fin'. loopEvent ev st = Some ((out, []), r) \<and> concat (map snd out) = [] \<and> rounds_possible S isnR W' fin' isnT rounds \<and>
      W' @ loop_bytes rounds = W @ loop_bytes ((w, i, ev) # rounds) \<and>
      ((\<exists>st'. r = Continue st' \<and> socket_inv S isnR n W' fin' isnT mss z (sock st') \<and>
        (reachFinish (receiveWindow (sock st')) \<longrightarrow> reachFinish (receiveWindow (sock st)) \<or> finishes (w, i, ev))) \<or> (\<exists>s. r = Exit False s)))"
proof (cases ev)
  case (Packet b k)
  then have pp: "packet_possible S isnR W fin isnT b k" "rounds_possible S isnR W fin isnT rounds" using p by simp_all
  show ?thesis using packet_inv [OF inv l pp(1)] pp(2) Packet io(1) by (auto simp: loopEvent_def split: option.splits)
next
  case (Request q m)
  obtain out r W' fin' s where q: "handleRequest q m st = Some ((out, []), r)" "concat (map snd out) = []" "rounds_possible S isnR W' fin' isnT rounds"
    "W' @ loop_bytes rounds = W @ loop_bytes ((w, i, ev) # rounds)"
    "(\<exists>st'. r = Continue st' \<and> socket_inv S isnR n W' fin' isnT mss z (sock st') \<and>
      reachFinish (receiveWindow (sock st')) = reachFinish (receiveWindow (sock st))) \<or> r = Exit False s"
    using request_inv [OF inv p [unfolded Request]] unfolding Request by blast
  have "loopEvent ev st = Some ((out, []), r)" using q(1) Request io(2) by (simp add: loopEvent_def)
  then show ?thesis using q(2-5) by blast
next
  case AckTimer
  then show ?thesis using timers_inv [OF inv, of False] p by (auto simp: loopEvent_def)
next
  case RetransmitTimer
  then show ?thesis using timers_inv [OF inv, of True] p by (auto simp: loopEvent_def)
next
  case WaitFailure
  then show ?thesis using inv p by (auto simp: loopEvent_def)
qed

text \<open>What an observation of the loop shows.\<close>

definition loop_ok :: "u8 list \<Rightarrow> nat \<Rightarrow> u8 list \<Rightarrow> u32 \<Rightarrow> nat \<Rightarrow> nat \<Rightarrow> tcp_output \<times> loop_result \<Rightarrow> bool" where
  "loop_ok S n W isnT mss z x \<longleftrightarrow> (case x of ((out, segs), r) \<Rightarrow>
    (\<exists>m. concat (map snd out) = take m (drop n S) \<and> length (concat (map snd out)) = m \<and>
      (\<forall>s. r = Exit True s \<longrightarrow> isClosing s \<and> \<not> hasTCPTransmitBuffer (transmitWindow s) \<and> reachFinish (receiveWindow s) \<and>
        n + m + sequenceLength (receiveWindow s) = length S)) \<and>
    (\<forall>seg\<in>set segs. segment_of W isnT seg \<and> length (payload seg) \<le> mss \<and> length (payload seg) \<le> z - 20))"

lemma loop_ok_step:
  assumes "concat (map snd d1) = take m (drop n S)" "length (concat (map snd d1)) = m" "concat (map snd d2) = []"
    "\<forall>seg\<in>set s1. segment_of W isnT seg \<and> length (payload seg) \<le> mss \<and> length (payload seg) \<le> z - 20" "loop_ok S (n + m) W isnT mss z ((d3, s3), r)"
  shows "loop_ok S n W isnT mss z ((d1 @ d2 @ d3, s1 @ s3), r)"
proof -
  obtain k where k: "concat (map snd d3) = take k (drop (n + m) S)" "length (concat (map snd d3)) = k"
    "\<forall>s. r = Exit True s \<longrightarrow> isClosing s \<and> \<not> hasTCPTransmitBuffer (transmitWindow s) \<and> reachFinish (receiveWindow s) \<and>
        n + m + k + sequenceLength (receiveWindow s) = length S"
    "\<forall>seg\<in>set s3. segment_of W isnT seg \<and> length (payload seg) \<le> mss \<and> length (payload seg) \<le> z - 20"
    using assms(5) unfolding loop_ok_def prod.case by blast
  have "concat (map snd (d1 @ d2 @ d3)) = take (m + k) (drop n S)" using assms(1,3) k(1) by (simp add: take_add add.commute [of n m])
  moreover have "length (concat (map snd (d1 @ d2 @ d3))) = m + k" using assms(2,3) k(2) by simp
  ultimately show ?thesis unfolding loop_ok_def prod.case using k(3,4) assms(4)
    by (intro conjI exI [of _ "m + k"]) (auto simp: add.assoc)
qed

lemma tcpLoop_inv:
  assumes "socket_inv S isnR n W fin isnT mss z (sock st)" "length S + 8192 < 2 ^ 32" "rounds_possible S isnR W fin isnT rounds"
  shows "case tcpLoop rounds st of
      None \<Rightarrow> reachFinish (receiveWindow (sock st)) \<or> (\<exists>x\<in>set rounds. finishes x)
    | Some x \<Rightarrow> loop_ok S n (W @ loop_bytes rounds) isnT mss z x"
  using assms
proof (induction rounds arbitrary: n W fin st)
  case Nil
  then show ?case by (simp add: loop_ok_def)
next
  case (Cons x rounds)
  obtain w i ev where x: "x = (w, i, ev)" by (cases x)
  let ?W = "W @ loop_bytes (x # rounds)"
  obtain d1 s1 r m s where t: "loopTop w i st = Some ((d1, s1), r)" "concat (map snd d1) = take m (drop n S)" "length (concat (map snd d1)) = m"
    "\<forall>seg\<in>set s1. sent_ok W fin isnT mss z seg" "socket_inv S isnR (n + m) W fin isnT mss z s"
    "reachFinish (receiveWindow s) = reachFinish (receiveWindow (sock st))"
    and r: "(\<exists>st'. r = Continue st' \<and> sock st' = s \<and> readSocketIO st' \<and> rwRequestFIFOIO st') \<or> r = Exit False s \<or>
      r = Exit True s \<and> isClosing s \<and> \<not> hasTCPTransmitBuffer (transmitWindow s) \<and> hasSentFINACK s"
    using loopTop_inv [OF Cons.prems(1,2)] by blast
  have "fin \<longrightarrow> loop_bytes (x # rounds) = []" using rounds_possible_length [OF Cons.prems(3)] by blast
  then have s1: "\<forall>seg\<in>set s1. segment_of ?W isnT seg \<and> length (payload seg) \<le> mss \<and> length (payload seg) \<le> z - 20"
    using t(4) by (simp add: sent_ok_def)
  show ?case
  proof (cases r)
    case (Exit b s')
    then have l: "tcpLoop (x # rounds) st = Some ((d1, s1), r)" using t(1) x by simp
    have "\<forall>q. r = Exit True q \<longrightarrow> isClosing q \<and> \<not> hasTCPTransmitBuffer (transmitWindow q) \<and> reachFinish (receiveWindow q) \<and>
        n + m + sequenceLength (receiveWindow q) = length S"
      using r t(5) Exit by (auto simp: socket_inv_def)
    then have "loop_ok S n ?W isnT mss z ((d1, s1), r)" unfolding loop_ok_def prod.case using t(2,3) s1 by blast
    then show ?thesis unfolding l by simp
  next
    case (Continue st1)
    then have c: "sock st1 = s" "readSocketIO st1" "rwRequestFIFOIO st1" using r by auto
    have inv1: "socket_inv S isnR (n + m) W fin isnT mss z (sock st1)" using t(5) c(1) by simp
    from loopEvent_inv [OF inv1 Cons.prems(2) Cons.prems(3) [unfolded x] c(2,3)] show ?thesis
    proof (elim disjE exE conjE, goal_cases)
      case 1
      then show ?case using t(1,6) Continue x c(1) by simp
    next
      case (2 d2 r2 W' fin' st2)
      have IH: "case tcpLoop rounds st2 of
          None \<Rightarrow> reachFinish (receiveWindow (sock st2)) \<or> (\<exists>x\<in>set rounds. finishes x)
        | Some y \<Rightarrow> loop_ok S (n + m) (W' @ loop_bytes rounds) isnT mss z y"
        by (rule Cons.IH) (use 2 Cons.prems(2) in auto)
      have W: "W' @ loop_bytes rounds = ?W" using 2 x by simp
      show ?case
      proof (cases "tcpLoop rounds st2")
        case None
        then show ?thesis using IH 2 t(1,6) Continue x c(1) by auto
      next
        case (Some y)
        obtain d3 s3 r3 where y: "y = ((d3, s3), r3)" by (cases y) auto
        have "loop_ok S (n + m) ?W isnT mss z ((d3, s3), r3)" using IH Some y W by simp
        from loop_ok_step [OF t(2,3) _ s1 this, of d2]
        have "loop_ok S n ?W isnT mss z ((d1 @ d2 @ d3, s1 @ s3), r3)" using 2 by simp
        moreover have "tcpLoop (x # rounds) st = Some ((d1 @ d2 @ d3, s1 @ s3), r3)"
          using t(1) Continue x 2 Some y by simp
        ultimately show ?thesis by simp
      qed
    next
      case (3 d2 r2 W' fin' s2)
      have l: "tcpLoop (x # rounds) st = Some ((d1 @ d2, s1), Exit False s2)" using t(1) Continue x 3 by simp
      have "concat (map snd d2) = []" by (rule 3)
      then have "concat (map snd (d1 @ d2)) = take m (drop n S)" "length (concat (map snd (d1 @ d2))) = m" using t(2,3) by simp_all
      then have "loop_ok S n ?W isnT mss z ((d1 @ d2, s1), Exit False s2)" unfolding loop_ok_def prod.case using s1 by blast
      then show ?case unfolding l by simp
    qed
  qed
qed



end
