(* ===== verification/Fat.thy ===== *)
theory Fat
  imports CommonLib "HOL-Library.Multiset"
begin

text \<open>
  The FAT32 file system, \<open>kernel/file/fat.c\<close>: boot sector and directory entries as they are stored on the disk, the file allocation
  table, reading through cluster chains, file names, the lookup of a path and the table of shared files with their reference counts.

  The disk is a parameter: \<open>disk offset size\<close> is what \<open>syncSeekReadFile\<close> reads, \<open>None\<close> when it fails or reads less. The results of
  the loops that follow a chain are options, where \<open>None\<close> is a loop that does not end or a failed assertion.
\<close>

type_synonym disk = "u64 \<Rightarrow> u32 \<Rightarrow> u8 list option"

section \<open>Structures on the disk\<close>

definition le16 :: "bytes \<Rightarrow> nat \<Rightarrow> u16" where
  "le16 p i = ucast (p i) OR push_bit 8 (ucast (p (i + 1)))"

definition le32 :: "bytes \<Rightarrow> nat \<Rightarrow> u32" where
  "le32 p i = ucast (le16 p i) OR push_bit 16 (ucast (le16 p (i + 2)))"

text \<open>The fields of the boot sector that the code reads, at their offsets in the packed structure.\<close>

record FATBootSector =
  bytesPerSector :: u16
  sectorsPerCluster :: u8
  reservedSectorCount :: u16
  fatCount :: u8
  sectorsPerFAT32 :: u32
  rootCluster :: u32
  signature :: u8

definition loadBootSector :: "bytes \<Rightarrow> FATBootSector" where
  "loadBootSector p = \<lparr>bytesPerSector = le16 p 11, sectorsPerCluster = p 13, reservedSectorCount = le16 p 14, fatCount = p 16,
    sectorsPerFAT32 = le32 p 36, rootCluster = le32 p 44, signature = p 66\<rparr>"

record FATDirEntry =
  fileName :: "u8 list"
  attribute :: u8
  clusterHigh :: u16
  clusterLow :: u16
  fileSize :: u32

definition loadDirEntry :: "bytes \<Rightarrow> FATDirEntry" where
  "loadDirEntry p = \<lparr>fileName = view p 0 11, attribute = p 11, clusterHigh = le16 p 20, clusterLow = le16 p 26, fileSize = le32 p 28\<rparr>"

abbreviation (input) sizeof_FATDirEntry :: nat where "sizeof_FATDirEntry \<equiv> 32"
abbreviation (input) FAT_VOLUME_ID :: u8 where "FAT_VOLUME_ID \<equiv> 0x08"
abbreviation (input) FAT_DIRECTORY :: u8 where "FAT_DIRECTORY \<equiv> 0x10"
abbreviation (input) FAT_LONG_FILE_NAME :: u8 where "FAT_LONG_FILE_NAME \<equiv> 0x0f"

record FAT32DiskPartition =
  startLBA :: u64
  firstDataLBA :: u64
  sectorSize :: u32
  partitionName :: u8
  bootRecord :: FATBootSector
  fat :: "nat \<Rightarrow> u32"

definition initRootDirEntry :: "u32 \<Rightarrow> FATDirEntry" where
  "initRootDirEntry root = \<lparr>fileName = replicate 11 0, attribute = FAT_DIRECTORY, clusterHigh = ucast (drop_bit 16 root AND 0xffff),
    clusterLow = ucast (root AND 0xffff), fileSize = 0\<rparr>"

definition getBeginCluster :: "FATDirEntry \<Rightarrow> u32" where
  "getBeginCluster d = ucast (clusterLow d) + push_bit 16 (ucast (clusterHigh d))"

definition isEndOfDirEntry :: "FATDirEntry \<Rightarrow> bool" where
  "isEndOfDirEntry d \<longleftrightarrow> fileName d ! 0 = 0"

definition isEmptyDirEntry :: "FATDirEntry \<Rightarrow> bool" where
  "isEmptyDirEntry d \<longleftrightarrow> fileName d ! 0 = 0xe5"

definition getClusterSize :: "FAT32DiskPartition \<Rightarrow> u32" where
  "getClusterSize dp = ucast (sectorsPerCluster (bootRecord dp)) * sectorSize dp"

definition clusterToLBA :: "FAT32DiskPartition \<Rightarrow> u32 \<Rightarrow> u64" where
  "clusterToLBA dp cluster = firstDataLBA dp + ucast (cluster - 2) * ucast (sectorsPerCluster (bootRecord dp))"

text \<open>\<open>getFileName\<close>: main name and extension without their trailing blanks; the buffer is \<open>name\<close>.\<close>

fun trimEnd :: "u8 list \<Rightarrow> nat \<Rightarrow> nat" where
  "trimEnd xs 0 = 0"
| "trimEnd xs (Suc n) = (if xs ! n = 32 then trimEnd xs n else Suc n)"

definition strncpyAt :: "bytes \<Rightarrow> nat \<Rightarrow> bytes \<Rightarrow> nat \<Rightarrow> bytes" where
  "strncpyAt dst k src n = (\<lambda>i. if i < k then dst i else strncpy (shift k dst) src n (i - k))"

definition getFileName :: "FATDirEntry \<Rightarrow> bytes \<Rightarrow> nat \<times> bytes" where
  "getFileName d name =
    (let mainEnd = trimEnd (take 8 (fileName d)) 8;
         name = strncpyAt name 0 (cstr (fileName d)) mainEnd;
         extEnd = trimEnd (drop 8 (fileName d)) 3 in
     if extEnd = 0 then (mainEnd, name)
     else (mainEnd + 1 + extEnd, strncpyAt (name(mainEnd := 46)) (mainEnd + 1) (cstr (drop 8 (fileName d))) extEnd))"

section \<open>The file allocation table\<close>

text \<open>\<open>loadFAT32\<close>: the loop over pages; the inner option is the result, \<open>None\<close> when a page could not be read.\<close>

partial_function (option) loadPages :: "disk \<Rightarrow> u64 \<Rightarrow> u32 \<Rightarrow> u32 \<Rightarrow> u8 list \<Rightarrow> u8 list option option" where
  "loadPages disk base fatSize p out =
    (if p * 4096 < fatSize then
       (case disk (base + ucast (p * 4096)) 4096 of
          None \<Rightarrow> Some None
        | Some page \<Rightarrow> loadPages disk base fatSize (p + 1) (out @ page))
     else Some (Some out))"

definition loadFAT32 :: "disk \<Rightarrow> bool \<Rightarrow> FATBootSector \<Rightarrow> u64 \<Rightarrow> u32 \<Rightarrow> (nat \<Rightarrow> u32) option option" where
  "loadFAT32 disk memoryOK br start secSize =
    (let fatSize = sectorsPerFAT32 br * ucast (bytesPerSector br);
         fatBeginLBA = start + ucast (reservedSectorCount br) in
     if \<not> memoryOK then Some None
     else map_option (map_option (\<lambda>bs i. le32 (cstr bs) (4 * i))) (loadPages disk (fatBeginLBA * ucast secSize) fatSize 0 []))"

definition createFATPartition :: "disk \<Rightarrow> bool \<Rightarrow> bool \<Rightarrow> u64 \<Rightarrow> u32 \<Rightarrow> u8 \<Rightarrow> FAT32DiskPartition option option" where
  "createFATPartition disk memoryOK fatMemoryOK start secSize name =
    (if \<not> memoryOK then Some None
     else case disk (start * ucast secSize) (of_nat (CEIL 512 (unat secSize))) of
       None \<Rightarrow> Some None
     | Some sector \<Rightarrow> let br = loadBootSector (cstr sector) in
         if signature br \<noteq> 0x28 \<and> signature br \<noteq> 0x29 then Some None
         else map_option (map_option (\<lambda>f. \<lparr>startLBA = start,
             firstDataLBA = start + ucast (reservedSectorCount br) + ucast (sectorsPerFAT32 br) * ucast (fatCount br),
             sectorSize = secSize, partitionName = name, bootRecord = br, fat = f\<rparr>))
           (loadFAT32 disk fatMemoryOK br start secSize))"

abbreviation (input) END_OF_CLUSTER :: u32 where "END_OF_CLUSTER \<equiv> 0x0ffffff8"
abbreviation (input) BAD_CLUSTER :: u32 where "BAD_CLUSTER \<equiv> 0x0ffffff7"

definition nextClusterByFAT :: "u32 \<Rightarrow> FAT32DiskPartition \<Rightarrow> u32" where
  "nextClusterByFAT cluster dp = fat dp (unat cluster)"

definition isValidCluster :: "u32 \<Rightarrow> FAT32DiskPartition \<Rightarrow> bool" where
  "isValidCluster cluster dp =
    (let clustersPerFAT = (sectorsPerFAT32 (bootRecord dp) * ucast (bytesPerSector (bootRecord dp))) div 4 in
     if cluster \<ge> END_OF_CLUSTER \<or> cluster \<ge> clustersPerFAT then False
     else fat dp (unat cluster) \<noteq> BAD_CLUSTER)"

partial_function (option) countFrom :: "u32 \<Rightarrow> FAT32DiskPartition \<Rightarrow> u32 \<Rightarrow> u32 option" where
  "countFrom cluster dp clusterCount =
    (if isValidCluster cluster dp then countFrom (nextClusterByFAT cluster dp) dp (clusterCount + 1) else Some clusterCount)"

definition countClusterByFAT :: "u32 \<Rightarrow> FAT32DiskPartition \<Rightarrow> u32 option" where
  "countClusterByFAT cluster dp = countFrom cluster dp 0"

text \<open>\<open>readByFAT\<close>: the loop that walks the chain and copies the part of each cluster that lies in the range.\<close>

partial_function (option) readLoop :: "disk \<Rightarrow> FAT32DiskPartition \<Rightarrow> u32 \<Rightarrow> u32 \<Rightarrow> u32 \<Rightarrow> u32 \<Rightarrow> u8 list \<Rightarrow> u8 list option" where
  "readLoop disk dp readOffset readFileEnd fileIndex cluster out =
    (let clusterSize = getClusterSize dp in
     if fileIndex < readFileEnd \<and> isValidCluster cluster dp then
       (if fileIndex + clusterSize > readOffset then
          (case disk (ucast (sectorSize dp) * clusterToLBA dp cluster) clusterSize of
             None \<Rightarrow> Some out
           | Some clusterBuffer \<Rightarrow>
               (let copyBegin = max fileIndex readOffset;
                    copyEnd = min (fileIndex + clusterSize) readFileEnd in
                readLoop disk dp readOffset readFileEnd (fileIndex + clusterSize) (nextClusterByFAT cluster dp)
                  (out @ take (unat (copyEnd - copyBegin)) (drop (unat (copyBegin mod clusterSize)) clusterBuffer))))
        else readLoop disk dp readOffset readFileEnd (fileIndex + clusterSize) (nextClusterByFAT cluster dp) out)
     else Some out)"

definition readByFAT :: "disk \<Rightarrow> bool \<Rightarrow> FAT32DiskPartition \<Rightarrow> u32 \<Rightarrow> u32 \<Rightarrow> u32 \<Rightarrow> u8 list option" where
  "readByFAT disk memoryOK dp beginCluster readOffset readSize =
    (if \<not> memoryOK then Some [] else readLoop disk dp readOffset (readOffset + readSize) 0 beginCluster [])"

section \<open>Names and directories\<close>

abbreviation (input) FAT_SHORT_NAME_LENGTH :: nat where "FAT_SHORT_NAME_LENGTH \<equiv> 11"

text \<open>The loop of \<open>toFATFileName\<close> that looks for the last dot, from index \<open>i\<close> down to 0.\<close>

fun lastDot :: "u8 list \<Rightarrow> nat \<Rightarrow> nat" where
  "lastDot name 0 = 0"
| "lastDot name (Suc i) = (if name ! Suc i \<noteq> 46 then lastDot name i else Suc i)"

definition upper :: "u8 \<Rightarrow> u8" where
  "upper c = word_of_int (toupper (sint c))"

text \<open>For a name of at least one character, which every caller ensures. \<open>None\<close> leaves the buffer of the caller as it is.\<close>

definition toFATFileName :: "u8 list \<Rightarrow> u8 list option" where
  "toFATFileName name =
    (let len = length name; i = lastDot name (len - 1);
         (mainLen, ext) = (if name ! i = 46 then (i, i + 1) else (len, len)) in
     if mainLen > 8 \<or> len - ext > 3 then None
     else Some (map (\<lambda>i. if i < mainLen then upper (name ! i)
       else if 8 \<le> i \<and> i - 8 < len - ext then upper (name ! (ext + (i - 8))) else 32) [0..<FAT_SHORT_NAME_LENGTH]))"

text \<open>\<open>searchDirectory\<close> does not look at the result of \<open>toFATFileName\<close>; \<open>junk\<close> is the content of its uninitialised buffer. The loop
  keeps the last entry that matches.\<close>

fun searchLoop :: "u8 list \<Rightarrow> FATDirEntry list \<Rightarrow> FATDirEntry option \<Rightarrow> FATDirEntry option" where
  "searchLoop formattedName [] e = e"
| "searchLoop formattedName (d # ds) e =
    (if isEndOfDirEntry d then e
     else if isEmptyDirEntry d then searchLoop formattedName ds e
     else if strncmp (cstr (fileName d)) (cstr formattedName) FAT_SHORT_NAME_LENGTH = Some 0 then searchLoop formattedName ds (Some d)
     else searchLoop formattedName ds e)"

definition searchDirectory :: "u8 list \<Rightarrow> FATDirEntry list \<Rightarrow> u8 list \<Rightarrow> FATDirEntry option" where
  "searchDirectory junk dir name = searchLoop (case toFATFileName name of Some n \<Rightarrow> n | None \<Rightarrow> junk) dir None"

definition searchFAT32DiskPartition :: "FAT32DiskPartition list \<Rightarrow> u8 list \<Rightarrow> FAT32DiskPartition option" where
  "searchFAT32DiskPartition fat32List name =
    (if length name = 1 \<or> length name > 1 \<and> name ! 1 = 47
     then find (\<lambda>f. toupper (sint (partitionName f)) = toupper (sint (name ! 0))) fat32List else None)"

definition addFAT32DiskPartition :: "FAT32DiskPartition \<Rightarrow> FAT32DiskPartition list \<Rightarrow> FAT32DiskPartition list" where
  "addFAT32DiskPartition dp fat32List = dp # fat32List"

section \<open>Shared files\<close>

text \<open>A partition is identified by its name, which \<open>fatService\<close> gives to one partition only.\<close>

record FATFile =
  beginCluster :: u32
  diskPartition :: u8
  refCount :: int

text \<open>\<open>searchCreateFATFile\<close>: \<open>None\<close> when memory for a new file is missing.\<close>

fun addToFile :: "u8 \<Rightarrow> u32 \<Rightarrow> int \<Rightarrow> FATFile list \<Rightarrow> FATFile list option" where
  "addToFile dp cluster n [] = None"
| "addToFile dp cluster n (f # fs) =
    (if beginCluster f = cluster \<and> diskPartition f = dp then Some (f\<lparr>refCount := refCount f + n\<rparr> # fs)
     else map_option ((#) f) (addToFile dp cluster n fs))"

definition searchCreateFATFile :: "bool \<Rightarrow> u8 \<Rightarrow> u32 \<Rightarrow> int \<Rightarrow> FATFile list \<Rightarrow> FATFile list option" where
  "searchCreateFATFile memoryOK dp cluster refCnt fs =
    (case addToFile dp cluster refCnt fs of
       Some fs \<Rightarrow> Some fs
     | None \<Rightarrow> if memoryOK then Some (\<lparr>beginCluster = cluster, diskPartition = dp, refCount = refCnt\<rparr> # fs) else None)"

text \<open>\<open>addFATFileReference\<close> on the file with this key; a file whose count becomes 0 is removed and deleted.\<close>

fun addFATFileReference :: "u8 \<Rightarrow> u32 \<Rightarrow> int \<Rightarrow> FATFile list \<Rightarrow> FATFile list" where
  "addFATFileReference dp cluster n [] = []"
| "addFATFileReference dp cluster n (f # fs) =
    (if beginCluster f = cluster \<and> diskPartition f = dp
     then (if refCount f + n = 0 then fs else f\<lparr>refCount := refCount f + n\<rparr> # fs)
     else f # addFATFileReference dp cluster n fs)"

record OpenedFATFile =
  enumeration :: bool
  dirEntry :: FATDirEntry
  partitionOf :: FAT32DiskPartition

definition createOpenedFATFile :: "bool \<Rightarrow> bool \<Rightarrow> bool \<Rightarrow> FAT32DiskPartition \<Rightarrow> FATDirEntry \<Rightarrow> FATFile list \<Rightarrow> (OpenedFATFile \<times> FATFile list) option" where
  "createOpenedFATFile memoryOK fileOK enum dp d fs =
    (if \<not> memoryOK then None
     else map_option (Pair \<lparr>enumeration = enum, dirEntry = d, partitionOf = dp\<rparr>) (searchCreateFATFile fileOK (partitionName dp) (getBeginCluster d) 1 fs))"

definition deleteOpenedFATFile :: "OpenedFATFile \<Rightarrow> FATFile list \<Rightarrow> FATFile list" where
  "deleteOpenedFATFile f fs = addFATFileReference (partitionName (partitionOf f)) (getBeginCluster (dirEntry f)) (- 1) fs"

section \<open>Opening and reading\<close>

text \<open>The directory as an array of entries, and \<open>nextLevelDirectory\<close>. \<open>mem\<close> tells which allocations succeed: the shared file, the
  directory buffer and the cluster buffer.\<close>

definition dirArray :: "u8 list \<Rightarrow> nat \<Rightarrow> FATDirEntry list" where
  "dirArray bs n = map (\<lambda>i. loadDirEntry (shift (sizeof_FATDirEntry * i) (cstr bs))) [0..<n]"

record fat_memory =
  sharedOK :: bool
  directoryOK :: bool
  clusterOK :: bool

definition nextLevelDirectory ::
  "disk \<Rightarrow> fat_memory \<Rightarrow> u8 list \<Rightarrow> FATDirEntry \<Rightarrow> FAT32DiskPartition \<Rightarrow> u8 list \<Rightarrow> FATFile list \<Rightarrow> (FATDirEntry option \<times> FATFile list) option" where
  "nextLevelDirectory disk mem junk d dp name fs =
    (let cluster = getBeginCluster d; release = addFATFileReference (partitionName dp) cluster (- 1) in
     case searchCreateFATFile (sharedOK mem) (partitionName dp) cluster 1 fs of
       None \<Rightarrow> Some (None, fs)
     | Some fs \<Rightarrow> do {
         clusterCount \<leftarrow> countClusterByFAT cluster dp;
         let allocateSize = clusterCount * ucast (sectorsPerCluster (bootRecord dp)) * sectorSize dp;
         if \<not> directoryOK mem then Some (None, release fs)
         else do {
           buf \<leftarrow> readByFAT disk (clusterOK mem) dp cluster 0 allocateSize;
           if length buf \<noteq> unat allocateSize then Some (None, release fs)
           else Some (searchDirectory junk (dirArray buf (unat (allocateSize div 32))) name, release fs)
         }
       })"

lemma component_progress:
  assumes "indexOfNot s n len c \<noteq> indexOf s (indexOfNot s n len c) len c"
  shows "n < indexOf s (indexOfNot s n len c) len c \<and> indexOf s (indexOfNot s n len c) len c \<le> len"
proof -
  let ?i = "indexOfNot s n len c"
  have "?i < len"
  proof (rule ccontr)
    assume "\<not> ?i < len"
    then have "indexOf s ?i len c = ?i" by (subst indexOf.simps) simp
    then show False using assms by simp
  qed
  then show ?thesis
    using assms indexOfNot_ge [of n s len c] indexOf_ge [of ?i s len c] indexOf_le [of ?i len s c] by linarith
qed

text \<open>The loop of \<open>openFATTask\<close> over the components of the path; the memory of each step is the head of a stream of choices.\<close>

function openLoop ::
  "disk \<Rightarrow> (nat \<Rightarrow> fat_memory) \<Rightarrow> u8 list \<Rightarrow> FAT32DiskPartition \<Rightarrow> u8 list \<Rightarrow> nat \<Rightarrow> FATDirEntry \<Rightarrow> FATFile list \<Rightarrow> (FATDirEntry option \<times> FATFile list) option" where
  "openLoop disk mem junk dp name nameIndex d fs =
    (let nameIndex = indexOfNot (cstr name) nameIndex (length name) 47;
         nextNameIndex = indexOf (cstr name) nameIndex (length name) 47 in
     if nameIndex = nextNameIndex then
       Some (if attribute d AND FAT_VOLUME_ID = 0 \<and> attribute d \<noteq> FAT_LONG_FILE_NAME then Some d else None, fs)
     else if attribute d \<noteq> FAT_DIRECTORY then Some (None, fs)
     else (case nextLevelDirectory disk (mem nameIndex) junk d dp (take (nextNameIndex - nameIndex) (drop nameIndex name)) fs of
         None \<Rightarrow> None
       | Some (None, fs) \<Rightarrow> Some (None, fs)
       | Some (Some d, fs) \<Rightarrow> openLoop disk mem junk dp name nextNameIndex d fs))"
  by pat_completeness auto
termination
  by (relation "measure (\<lambda>(disk, mem, junk, dp, name, nameIndex, d, fs). length name - nameIndex)") (use component_progress in force)+

definition openFATTask ::
  "disk \<Rightarrow> (nat \<Rightarrow> fat_memory) \<Rightarrow> bool \<Rightarrow> bool \<Rightarrow> u8 list \<Rightarrow> FAT32DiskPartition list \<Rightarrow> u8 list \<Rightarrow> bool \<Rightarrow> FATFile list \<Rightarrow> (OpenedFATFile option \<times> FATFile list) option" where
  "openFATTask disk mem memoryOK fileOK junk fat32List name enum fs =
    (case searchFAT32DiskPartition fat32List name of
       None \<Rightarrow> Some (None, fs)
     | Some dp \<Rightarrow> (case openLoop disk mem junk dp name 1 (initRootDirEntry (rootCluster (bootRecord dp))) fs of
           None \<Rightarrow> None
         | Some (None, fs) \<Rightarrow> Some (None, fs)
         | Some (Some d, fs) \<Rightarrow>
             if \<not> enum \<or> attribute d AND FAT_DIRECTORY \<noteq> 0
             then Some (case createOpenedFATFile memoryOK fileOK enum dp d fs of None \<Rightarrow> (None, fs) | Some (f, fs) \<Rightarrow> (Some f, fs))
             else Some (None, fs)))"

declare openLoop.simps [simp del] indexOf.simps [simp del] indexOfNot.simps [simp del]

text \<open>\<open>rwFATTask\<close>: what is written to the buffer of the request, and the amount the offset of the file advances.\<close>

datatype fat_output =
    FileData "u8 list"
  | Enumerated nat bytes
  | EndOfDirectory
  | BufferTooSmall

abbreviation (input) sizeof_FileEnumeration :: u32 where "sizeof_FileEnumeration \<equiv> 92"

partial_function (option) enumLoop :: "disk \<Rightarrow> (u32 \<Rightarrow> bool) \<Rightarrow> FAT32DiskPartition \<Rightarrow> u32 \<Rightarrow> u32 \<Rightarrow> (FATDirEntry option \<times> u32) option" where
  "enumLoop disk mem dp cluster offset =
    (if offset mod 32 \<noteq> 0 then None
     else case readByFAT disk (mem offset) dp cluster offset 32 of
       None \<Rightarrow> None
     | Some bs \<Rightarrow> (let d = loadDirEntry (cstr bs) in
         if length bs \<noteq> sizeof_FATDirEntry \<or> isEndOfDirEntry d then Some (None, offset)
         else if isEmptyDirEntry d then enumLoop disk mem dp cluster (offset + 32)
         else Some (Some d, offset + 32)))"

definition rwFATTask :: "disk \<Rightarrow> (u32 \<Rightarrow> bool) \<Rightarrow> OpenedFATFile \<Rightarrow> bytes \<Rightarrow> u32 \<Rightarrow> u32 \<Rightarrow> (fat_output \<times> u32) option" where
  "rwFATTask disk mem f buf inputRWSize inputOffset =
    (let dp = partitionOf f; cluster = getBeginCluster (dirEntry f) in
     if enumeration f then
       (if inputRWSize \<ge> sizeof_FileEnumeration then
          map_option (\<lambda>(e, offset). (case e of None \<Rightarrow> EndOfDirectory | Some d \<Rightarrow> case getFileName d buf of (n, name) \<Rightarrow> Enumerated n name,
            offset - inputOffset)) (enumLoop disk mem dp cluster inputOffset)
        else Some (BufferTooSmall, 0))
     else
       map_option (\<lambda>bs. (FileData bs, of_nat (length bs)))
         (readByFAT disk (mem inputOffset) dp cluster inputOffset (min inputRWSize (fileSize (dirEntry f) - inputOffset))))"

text \<open>\<open>readFAT\<close> reads at the offset of the opened file, \<open>seekReadFAT\<close> at a 64 bit position that is cut to 32 bits.\<close>

definition seekReadFAT :: "disk \<Rightarrow> (u32 \<Rightarrow> bool) \<Rightarrow> OpenedFATFile \<Rightarrow> bytes \<Rightarrow> u64 \<Rightarrow> u32 \<Rightarrow> (fat_output \<times> u32) option" where
  "seekReadFAT disk mem f buf offset readSize = rwFATTask disk mem f buf readSize (ucast offset)"

text \<open>A program that reads an opened file again and again; the offset of the file advances as \<open>completeRWFileIO\<close> says.\<close>

fun readFATs :: "disk \<Rightarrow> (u32 \<Rightarrow> bool) \<Rightarrow> OpenedFATFile \<Rightarrow> u64 \<Rightarrow> u32 list \<Rightarrow> u8 list option" where
  "readFATs disk mem f offset [] = Some []"
| "readFATs disk mem f offset (n # ns) =
    (case seekReadFAT disk mem f (\<lambda>i. 0) offset n of
       Some (FileData bs, k) \<Rightarrow> map_option ((@) bs) (readFATs disk mem f (offset + ucast k) ns)
     | _ \<Rightarrow> None)"

section \<open>Reading is taking a part of the file\<close>

text \<open>The first \<open>k\<close> clusters of a chain, and their content.\<close>

fun clusters :: "FAT32DiskPartition \<Rightarrow> u32 \<Rightarrow> nat \<Rightarrow> u32 list" where
  "clusters dp c 0 = []"
| "clusters dp c (Suc k) = (if isValidCluster c dp then c # clusters dp (nextClusterByFAT c dp) k else [])"

definition clusterData :: "disk \<Rightarrow> FAT32DiskPartition \<Rightarrow> u32 \<Rightarrow> u8 list option" where
  "clusterData disk dp c = disk (ucast (sectorSize dp) * clusterToLBA dp c) (getClusterSize dp)"

definition readable :: "disk \<Rightarrow> FAT32DiskPartition \<Rightarrow> u32 list \<Rightarrow> bool" where
  "readable disk dp cs \<longleftrightarrow> (\<forall>c\<in>set cs. \<exists>bs. clusterData disk dp c = Some bs \<and> length bs = unat (getClusterSize dp))"

definition chainData :: "disk \<Rightarrow> FAT32DiskPartition \<Rightarrow> u32 list \<Rightarrow> u8 list" where
  "chainData disk dp cs = concat (map (\<lambda>c. the (clusterData disk dp c)) cs)"

lemma chainData_simps [simp]:
  "chainData disk dp [] = []"
  "chainData disk dp (c # cs) = the (clusterData disk dp c) @ chainData disk dp cs"
  by (simp_all add: chainData_def)

lemma length_chainData: "readable disk dp cs \<Longrightarrow> length (chainData disk dp cs) = length cs * unat (getClusterSize dp)"
  by (induction cs) (auto simp: readable_def)

lemma readLoop_correct:
  assumes "0 < getClusterSize dp" "unat e + unat (getClusterSize dp) \<le> 2 ^ 32" "a \<le> e"
    "unat e \<le> unat i + k * unat (getClusterSize dp)" "readable disk dp (clusters dp c k)"
    "unat (getClusterSize dp) dvd unat i"
    "unat i \<le> unat e + unat (getClusterSize dp) - 1"
  shows "readLoop disk dp a e i c out =
    Some (out @ take (unat e - max (unat a) (unat i)) (drop (unat a - unat i) (chainData disk dp (clusters dp c k))))"
  using assms(4-)
proof (induction k arbitrary: i c out)
  case 0
  then have "\<not> i < e" by (simp add: word_less_nat_alt)
  then show ?case by (subst readLoop.simps) (simp add: Let_def)
next
  case (Suc k)
  let ?s = "getClusterSize dp"
  show ?case
  proof (cases "i < e \<and> isValidCluster c dp")
    case False
    moreover have "\<not> i < e \<Longrightarrow> unat e - max (unat a) (unat i) = 0" by (simp add: word_less_nat_alt)
    ultimately show ?thesis by (subst readLoop.simps) (auto simp: Let_def)
  next
    case True
    then have ie: "unat i < unat e" by (simp add: word_less_nat_alt)
    have nowrap: "unat (i + ?s) = unat i + unat ?s"
      using ie assms(2) by (intro unat_add_lem [THEN iffD1]) simp
    obtain bs where bs: "clusterData disk dp c = Some bs" "length bs = unat ?s"
      using Suc.prems(2) True by (auto simp: readable_def)
    let ?rest = "chainData disk dp (clusters dp (nextClusterByFAT c dp) k)"
    have all: "chainData disk dp (clusters dp c (Suc k)) = bs @ ?rest" using True bs by simp
    have IH: "readLoop disk dp a e (i + ?s) (nextClusterByFAT c dp) out' =
        Some (out' @ take (unat e - max (unat a) (unat i + unat ?s)) (drop (unat a - (unat i + unat ?s)) ?rest))" for out'
      unfolding nowrap [symmetric]
      by (rule Suc.IH) (use Suc.prems True ie nowrap in \<open>auto simp: readable_def\<close>)
    show ?thesis
    proof (cases "a < i + ?s")
      case inside: True
      have ai: "unat a < unat i + unat ?s" using inside nowrap by (simp add: word_less_nat_alt)
      have bg: "unat (max i a) = max (unat i) (unat a)" by (simp add: max_def word_le_nat_alt)
      have fin: "unat (min (i + ?s) e) = min (unat i + unat ?s) (unat e)" using nowrap by (simp add: min_def word_le_nat_alt)
      have le: "max (unat i) (unat a) \<le> min (unat i + unat ?s) (unat e)" using ai ie assms(3) by (simp add: word_le_nat_alt)
      then have n: "unat (min (i + ?s) e - max i a) = min (unat i + unat ?s) (unat e) - max (unat i) (unat a)"
        by (subst unat_sub) (simp_all add: bg fin word_le_nat_alt)
      have m: "unat (max i a mod ?s) = unat a - unat i"
      proof (cases "unat i \<le> unat a")
        case True
        then have "unat a mod unat ?s = (unat a - unat i) mod unat ?s"
          using Suc.prems(3) by (metis dvd_eq_mod_eq_0 le_add_diff_inverse mod_add_left_eq plus_nat.add_0)
        then show ?thesis using True ai by (simp add: unat_mod bg max_absorb2)
      qed (use Suc.prems(3) in \<open>simp add: unat_mod bg max_absorb1\<close>)
      have "readLoop disk dp a e i c out = readLoop disk dp a e (i + ?s) (nextClusterByFAT c dp)
          (out @ take (min (unat i + unat ?s) (unat e) - max (unat i) (unat a)) (drop (unat a - unat i) bs))"
        using True inside bs(1) n m by (subst readLoop.simps) (simp add: Let_def clusterData_def)
      then show ?thesis using ai ie bs(2) unfolding IH all by (auto simp: max_def min_def)
    next
      case outside: False
      have ai: "unat i + unat ?s \<le> unat a" using outside nowrap by (simp add: word_less_nat_alt)
      have "readLoop disk dp a e i c out = readLoop disk dp a e (i + ?s) (nextClusterByFAT c dp) out"
        using True outside by (subst readLoop.simps) (simp add: Let_def)
      then show ?thesis using ai bs(2) unfolding IH all by (simp add: max_absorb1)
    qed
  qed
qed

text \<open>Reading through the file allocation table. For any offset and size whose end stays a cluster below 4 GiB the loop ends, also when
  the chain is cyclic, and returns exactly that part of the concatenated clusters of the chain.\<close>

lemma readByFAT_correct:
  assumes "0 < getClusterSize dp" "unat readOffset + unat readSize + unat (getClusterSize dp) \<le> 2 ^ 32"
    "unat readOffset + unat readSize \<le> k * unat (getClusterSize dp)" "readable disk dp (clusters dp c k)"
  shows "readByFAT disk True dp c readOffset readSize = Some (take (unat readSize) (drop (unat readOffset) (chainData disk dp (clusters dp c k))))"
proof -
  have n: "unat (readOffset + readSize) = unat readOffset + unat readSize"
    using assms(1,2) by (intro unat_add_lem [THEN iffD1]) (simp add: word_less_nat_alt)
  show ?thesis
    using readLoop_correct [where a = readOffset and e = "readOffset + readSize" and i = 0 and out = "[]", OF assms(1) _ _ _ assms(4)] assms(2,3)
    by (simp add: readByFAT_def n word_le_nat_alt)
qed

lemma length_clusters_le: "length (clusters dp c k) \<le> k"
  by (induction k arbitrary: c) auto

lemma rwFATTask_data:
  assumes f: "\<not> enumeration f" "dirEntry f = d" "partitionOf f = dp"
    and s: "0 < getClusterSize dp" "unat (fileSize d) + unat (getClusterSize dp) \<le> 2 ^ 32"
    and r: "readable disk dp (clusters dp (getBeginCluster d) k)" "unat (fileSize d) \<le> length (chainData disk dp (clusters dp (getBeginCluster d) k))"
    and off: "off \<le> fileSize d"
  shows "rwFATTask disk (\<lambda>i. True) f buf n off =
    (let bs = take (unat n) (drop (unat off) (take (unat (fileSize d)) (chainData disk dp (clusters dp (getBeginCluster d) k)))) in
     Some (FileData bs, of_nat (length bs)))"
proof -
  let ?c = "chainData disk dp (clusters dp (getBeginCluster d) k)" and ?n = "min n (fileSize d - off)"
  have o: "unat off \<le> unat (fileSize d)" using off by (simp add: word_le_nat_alt)
  have n: "unat ?n = min (unat n) (unat (fileSize d) - unat off)"
    using off by (simp add: min_def word_le_nat_alt unat_sub)
  have "length ?c \<le> k * unat (getClusterSize dp)" using length_chainData [OF r(1)] length_clusters_le [of dp "getBeginCluster d" k] by simp
  then have "readByFAT disk True dp (getBeginCluster d) off ?n = Some (take (unat ?n) (drop (unat off) ?c))"
    by (intro readByFAT_correct s(1) r(1)) (use s(2) r(2) o n in auto)
  then show ?thesis using f by (simp add: rwFATTask_def Let_def n drop_take)
qed

lemma readFATs_from:
  assumes f: "\<not> enumeration f" "dirEntry f = d" "partitionOf f = dp"
    and s: "0 < getClusterSize dp" "unat (fileSize d) + unat (getClusterSize dp) \<le> 2 ^ 32"
    and r: "readable disk dp (clusters dp (getBeginCluster d) k)" "unat (fileSize d) \<le> length (chainData disk dp (clusters dp (getBeginCluster d) k))"
    and off: "off \<le> unat (fileSize d)"
  shows "readFATs disk (\<lambda>i. True) f (of_nat off) ns =
    Some (take (sum_list (map unat ns)) (drop off (take (unat (fileSize d)) (chainData disk dp (clusters dp (getBeginCluster d) k)))))"
  using off
proof (induction ns arbitrary: off)
  case (Cons n ns)
  let ?file = "take (unat (fileSize d)) (chainData disk dp (clusters dp (getBeginCluster d) k))"
  let ?bs = "take (unat n) (drop off ?file)"
  have fs: "unat (fileSize d) < 2 ^ 32" using unsigned_less [of "fileSize d"] by simp
  then have small: "off < 2 ^ 32" using Cons.prems fs by simp
  have cut: "(ucast (of_nat off :: u64) :: u32) = of_nat off"
    using small by (simp add: unsigned_of_nat take_bit_nat_eq_self)
  have "of_nat off \<le> fileSize d" using Cons.prems small by (simp add: word_le_nat_alt unat_of_nat_small)
  from rwFATTask_data [OF f s r this, of "\<lambda>i. 0" n]
  have "seekReadFAT disk (\<lambda>i. True) f (\<lambda>i. 0) (of_nat off) n = Some (FileData ?bs, of_nat (length ?bs))"
    using small by (simp add: seekReadFAT_def cut unat_of_nat_small Let_def)
  moreover have le: "off + length ?bs \<le> unat (fileSize d)" using Cons.prems by simp
  have "of_nat off + ucast (of_nat (length ?bs) :: u32) = (of_nat (off + length ?bs) :: u64)"
    using le fs by (simp add: unsigned_of_nat take_bit_nat_eq_self)
  ultimately show ?case using Cons.IH [OF le] by (simp add: take_add min_def add.commute)
qed simp

text \<open>C21: a program that opens a file and reads it in pieces of any sizes gets the bytes of the file in order, from the first to the last
  given by the file size of its directory entry, and then nothing; no cluster chain makes a read run forever.\<close>

theorem readFATs_correct:
  assumes "0 < getClusterSize dp" "unat (fileSize d) + unat (getClusterSize dp) \<le> 2 ^ 32"
    "readable disk dp (clusters dp (getBeginCluster d) k)" "unat (fileSize d) \<le> length (chainData disk dp (clusters dp (getBeginCluster d) k))"
  shows "readFATs disk (\<lambda>i. True) \<lparr>enumeration = False, dirEntry = d, partitionOf = dp\<rparr> 0 ns =
    Some (take (sum_list (map unat ns)) (take (unat (fileSize d)) (chainData disk dp (clusters dp (getBeginCluster d) k))))"
  using readFATs_from [where off = 0 and ns = ns, OF _ _ _ assms] by simp

text \<open>Behind the end of the file the subtraction of the offset from the file size wraps around: the read returns bytes of the last cluster
  that do not belong to the file.\<close>

lemma read_past_end:
  assumes "\<not> enumeration f" "dirEntry f = d" "partitionOf f = dp" "0 < getClusterSize dp" "unat off + unat n + unat (getClusterSize dp) \<le> 2 ^ 32"
    and "readable disk dp (clusters dp (getBeginCluster d) k)" "unat off + unat n \<le> length (chainData disk dp (clusters dp (getBeginCluster d) k))"
    and "fileSize d < off" "n \<le> fileSize d - off"
  shows "rwFATTask disk (\<lambda>i. True) f buf n off =
    Some (FileData (take (unat n) (drop (unat off) (chainData disk dp (clusters dp (getBeginCluster d) k)))), n)"
proof -
  let ?c = "chainData disk dp (clusters dp (getBeginCluster d) k)"
  have "length ?c \<le> k * unat (getClusterSize dp)" using length_chainData [OF assms(6)] length_clusters_le [of dp "getBeginCluster d" k] by simp
  then have "readByFAT disk True dp (getBeginCluster d) off n = Some (take (unat n) (drop (unat off) ?c))"
    using assms by (intro readByFAT_correct) auto
  moreover have "length (take (unat n) (drop (unat off) ?c)) = unat n" using assms(7) by simp
  ultimately show ?thesis using assms by (simp add: rwFATTask_def Let_def min_absorb1)
qed

section \<open>Names\<close>

lemma upper_cases: "upper c = c \<or> upper c = c - 32 \<and> 97 \<le> sint c \<and> sint c \<le> 122"
  by (auto simp: upper_def toupper_def)

lemma upper_blank [simp]: "upper c = 32 \<longleftrightarrow> c = 32"
proof -
  have "sint c = 64" if "c - 32 = 32" using that by (simp add: diff_eq_eq)
  moreover have "upper 32 = 32" by (simp add: upper_def toupper_def)
  ultimately show ?thesis using upper_cases [of c] by auto
qed

lemma upper_zero [simp]: "upper c = 0 \<longleftrightarrow> c = 0"
proof -
  have "sint c = 32" if "c - 32 = 0" using that by (simp add: diff_eq_eq)
  moreover have "upper 0 = 0" by (simp add: upper_def toupper_def)
  ultimately show ?thesis using upper_cases [of c] by auto
qed

lemma upper_dot [simp]: "upper 46 = 46"
  by (simp add: upper_def toupper_def)

lemma lastDot_found: "j \<le> n \<Longrightarrow> name ! j = 46 \<Longrightarrow> \<forall>i. j < i \<and> i \<le> n \<longrightarrow> name ! i \<noteq> 46 \<Longrightarrow> lastDot name n = j"
proof (induction n)
  case (Suc n)
  then show ?case by (cases "j = Suc n") auto
qed simp

lemma lastDot_none: "\<forall>i. 0 < i \<and> i \<le> n \<longrightarrow> name ! i \<noteq> 46 \<Longrightarrow> lastDot name n = 0"
  by (induction n) auto

lemma trimEnd_eq: "k \<le> n \<Longrightarrow> \<forall>i. k \<le> i \<and> i < n \<longrightarrow> xs ! i = 32 \<Longrightarrow> k = 0 \<or> xs ! (k - 1) \<noteq> 32 \<Longrightarrow> trimEnd xs n = k"
proof (induction n)
  case (Suc n)
  show ?case
  proof (cases "k = Suc n")
    case False
    then have "k \<le> n" using Suc.prems(1) by simp
    then show ?thesis using Suc.IH Suc.prems by simp
  qed (use Suc.prems in simp)
qed simp

lemma strncpy_from_apply: "\<forall>j. a \<le> j \<and> j < a + k \<longrightarrow> src j \<noteq> 0 \<Longrightarrow> strncpy_from dst src a k i = (if a \<le> i \<and> i < a + k then src i else dst i)"
  by (induction k arbitrary: dst a) (auto simp: Let_def)

lemma strncpyAt_apply: "\<forall>j<n. src j \<noteq> 0 \<Longrightarrow> strncpyAt dst k src n i = (if k \<le> i \<and> i < k + n then src (i - k) else dst i)"
  by (auto simp: strncpyAt_def strncpy_def strncpy_from_apply)

text \<open>A short name: a main part and an extension, which is empty when the name has no dot.\<close>

definition shortName :: "u8 list \<Rightarrow> u8 list \<Rightarrow> u8 list" where
  "shortName m e = (if e = [] then m else m @ 46 # e)"

definition formatted :: "u8 list \<Rightarrow> u8 list \<Rightarrow> u8 list" where
  "formatted m e = map upper m @ replicate (8 - length m) 32 @ map upper e @ replicate (3 - length e) 32"

lemma toFATFileName_shortName:
  assumes "m \<noteq> []" "length m \<le> 8" "length e \<le> 3" "46 \<notin> set e" "e = [] \<longrightarrow> 46 \<notin> set m"
  shows "toFATFileName (shortName m e) = Some (formatted m e)"
proof -
  let ?n = "shortName m e"
  have l: "length ?n = (if e = [] then length m else Suc (length m + length e))" by (simp add: shortName_def)
  have d: "(if ?n ! lastDot ?n (length ?n - 1) = 46 then (lastDot ?n (length ?n - 1), lastDot ?n (length ?n - 1) + 1) else (length ?n, length ?n)) =
      (length m, if e = [] then length m else Suc (length m))"
  proof (cases "e = []")
    case True
    then have "\<forall>i<length m. m ! i \<noteq> 46" using assms(5) by (metis nth_mem)
    then have "lastDot m (length m - 1) = 0" "m ! 0 \<noteq> 46" using assms(1) by (auto intro: lastDot_none)
    then show ?thesis using True by (simp add: shortName_def)
  next
    case False
    have "\<forall>i<length e. e ! i \<noteq> 46" using assms(4) by (metis nth_mem)
    then have "lastDot ?n (length ?n - 1) = length m"
      using False by (intro lastDot_found) (auto simp: shortName_def nth_append nth_Cons')
    then show ?thesis using False by (simp add: shortName_def)
  qed
  have x: "length ?n - (if e = [] then length m else Suc (length m)) = length e" using l by simp
  have "map (\<lambda>i. if i < length m then upper (?n ! i)
      else if 8 \<le> i \<and> i - 8 < length e then upper (?n ! ((if e = [] then length m else Suc (length m)) + (i - 8))) else 32) [0..<11] = formatted m e"
    by (rule nth_equalityI) (use assms(2,3) in \<open>auto simp: formatted_def shortName_def nth_append\<close>)
  then show ?thesis unfolding toFATFileName_def Let_def d prod.case x using assms(2,3) by simp
qed

lemma getFileName_formatted:
  assumes "m \<noteq> []" "length m \<le> 8" "length e \<le> 3" "0 \<notin> set (m @ e)" "last m \<noteq> 32" "e \<noteq> [] \<longrightarrow> last e \<noteq> 32" "fileName d = formatted m e"
  shows "case getFileName d buf of (n, name) \<Rightarrow> view name 0 n = map upper (shortName m e)"
proof -
  have t: "take 8 (fileName d) = map upper m @ replicate (8 - length m) 32" "drop 8 (fileName d) = map upper e @ replicate (3 - length e) 32"
    using assms(2,7) by (simp_all add: formatted_def)
  have m: "trimEnd (take 8 (fileName d)) 8 = length m"
    using assms(1,2,5) by (intro trimEnd_eq) (auto simp: t nth_append last_conv_nth)
  have e: "trimEnd (drop 8 (fileName d)) 3 = length e"
    using assms(3,6) by (cases "e = []"; intro trimEnd_eq) (auto simp: t nth_append last_conv_nth)
  have "\<forall>j<length m. m ! j \<noteq> 0" "\<forall>j<length e. e ! j \<noteq> 0" using assms(4) by (auto simp: in_set_conv_nth)
  moreover have "\<forall>j<length m. cstr (fileName d) j = upper (m ! j)" using assms(7) by (simp add: cstr_def formatted_def nth_append)
  moreover have "\<forall>j<length e. cstr (drop 8 (fileName d)) j = upper (e ! j)" by (simp add: t(2) cstr_def nth_append)
  ultimately have c: "\<forall>j<length m. cstr (fileName d) j = upper (m ! j)" "\<forall>j<length m. m ! j \<noteq> 0"
    "\<forall>j<length e. cstr (drop 8 (fileName d)) j = upper (e ! j)" "\<forall>j<length e. e ! j \<noteq> 0" by blast+
  have a: "strncpyAt buf 0 (cstr (fileName d)) (length m) i = (if i < length m then upper (m ! i) else buf i)" for i
    using c by (subst strncpyAt_apply) auto
  have b: "strncpyAt g (Suc (length m)) (cstr (drop 8 (fileName d))) (length e) i =
      (if Suc (length m) \<le> i \<and> i < Suc (length m) + length e then upper (e ! (i - Suc (length m))) else g i)" for i g
    using c by (subst strncpyAt_apply) auto
  show ?thesis
  proof (cases "e = []")
    case True
    then have "getFileName d buf = (length m, strncpyAt buf 0 (cstr (fileName d)) (length m))" using m e by (simp add: getFileName_def Let_def)
    then show ?thesis using True by (auto simp: a shortName_def intro!: nth_equalityI)
  next
    case False
    then have "getFileName d buf = (length m + 1 + length e,
        strncpyAt ((strncpyAt buf 0 (cstr (fileName d)) (length m))(length m := 46)) (length m + 1) (cstr (drop 8 (fileName d))) (length e))"
      using m e by (simp add: getFileName_def Let_def)
    then show ?thesis using False by (auto simp: a b shortName_def nth_append nth_Cons' intro!: nth_equalityI)
  qed
qed

text \<open>The two conversions of file names fit together: a short name is found under the entry it is converted to, and enumerating that
  entry prints the name again, in capitals.\<close>

lemma fat_name_roundtrip:
  assumes "m \<noteq> []" "length m \<le> 8" "length e \<le> 3" "0 \<notin> set (m @ e)" "46 \<notin> set e" "e = [] \<longrightarrow> 46 \<notin> set m" "last m \<noteq> 32" "e \<noteq> [] \<longrightarrow> last e \<noteq> 32"
  shows "\<exists>n. toFATFileName (shortName m e) = Some n \<and>
    (case getFileName (d\<lparr>fileName := n\<rparr>) buf of (len, name) \<Rightarrow> view name 0 len = map upper (shortName m e))"
  using toFATFileName_shortName [OF assms(1-3,5,6)] getFileName_formatted [OF assms(1-4,7,8), of "d\<lparr>fileName := formatted m e\<rparr>"] by simp

text \<open>The name of the parent directory is converted to the one of the directory itself, and the name of the directory to blanks.\<close>

lemma dot_names: "toFATFileName [46, 46] = Some (46 # replicate 10 32)" "toFATFileName [46] = Some (replicate 11 32)"
  by (simp_all add: toFATFileName_def Let_def upt_rec eval_nat_numeral)

section \<open>References of shared files\<close>

abbreviation (input) fileKey :: "FATFile \<Rightarrow> u8 \<times> u32" where
  "fileKey f \<equiv> (diskPartition f, beginCluster f)"

definition openedKey :: "OpenedFATFile \<Rightarrow> u8 \<times> u32" where
  "openedKey f = (partitionName (partitionOf f), getBeginCluster (dirEntry f))"

definition refs :: "u8 \<times> u32 \<Rightarrow> FATFile list \<Rightarrow> int" where
  "refs k fs = sum_list (map refCount (filter (\<lambda>f. fileKey f = k) fs))"

definition files_inv :: "FATFile list \<Rightarrow> bool" where
  "files_inv fs \<longleftrightarrow> distinct (map (\<lambda>f. fileKey f) fs) \<and> (\<forall>f\<in>set fs. 0 < refCount f)"

definition shared_inv :: "OpenedFATFile list \<Rightarrow> FATFile list \<Rightarrow> bool" where
  "shared_inv opened fs \<longleftrightarrow> files_inv fs \<and> (\<forall>k. refs k fs = int (count (mset (map openedKey opened)) k))"

lemma refs_simps [simp]:
  "refs k [] = 0"
  "refs k (f # fs) = (if fileKey f = k then refCount f else 0) + refs k fs"
  by (simp_all add: refs_def)

lemma refs_notin: "k \<notin> set (map (\<lambda>f. fileKey f) fs) \<Longrightarrow> refs k fs = 0"
  by (induction fs) auto

lemma addToFile_None: "addToFile dp c n fs = None \<longleftrightarrow> (dp, c) \<notin> set (map (\<lambda>f. fileKey f) fs)"
  by (induction fs) auto

lemma addToFile_Some:
  assumes "addToFile dp c n fs = Some fs'"
  shows "map (\<lambda>f. fileKey f) fs' = map (\<lambda>f. fileKey f) fs" "refs k fs' = refs k fs + (if k = (dp, c) then n else 0)"
    "0 < n \<Longrightarrow> files_inv fs \<Longrightarrow> files_inv fs' \<and> addFATFileReference dp c (- n) fs' = fs"
  using assms
proof (induction fs arbitrary: fs')
  case (Cons f fs)
  {
    case 1
    then show ?case using Cons.IH(1) by (auto split: if_splits)
  next
    case 2
    then show ?case using Cons.IH(2) by (auto split: if_splits)
  next
    case 3
    then show ?case using Cons.IH(1,3) by (fastforce simp: files_inv_def split: if_splits)
  }
qed auto

lemma searchCreateFATFile_Some:
  assumes "searchCreateFATFile ok dp c 1 fs = Some fs'" "files_inv fs"
  shows "files_inv fs'" "refs k fs' = refs k fs + (if k = (dp, c) then 1 else 0)" "addFATFileReference dp c (- 1) fs' = fs"
proof -
  consider (old) "addToFile dp c 1 fs = Some fs'" | (new) "addToFile dp c 1 fs = None" "fs' = \<lparr>beginCluster = c, diskPartition = dp, refCount = 1\<rparr> # fs"
    using assms(1) by (auto simp: searchCreateFATFile_def split: option.splits if_splits)
  then show "files_inv fs'" "refs k fs' = refs k fs + (if k = (dp, c) then 1 else 0)" "addFATFileReference dp c (- 1) fs' = fs"
    by (cases; use addToFile_Some [of dp c 1 fs fs'] assms(2) addToFile_None [of dp c 1 fs] in \<open>auto simp: files_inv_def\<close>)+
qed

lemma addFATFileReference_keys:
  "x \<in> set (addFATFileReference dp c n fs) \<Longrightarrow> \<exists>y\<in>set fs. fileKey y = fileKey x"
  by (induction fs) (auto split: if_splits)

lemma addFATFileReference_inv:
  assumes "files_inv fs" "0 < refs (dp, c) fs"
  shows "files_inv (addFATFileReference dp c (- 1) fs)" "refs k (addFATFileReference dp c (- 1) fs) = refs k fs - (if k = (dp, c) then 1 else 0)"
  using assms
proof (induction fs)
  case (Cons f fs)
  {
    case 1
    show ?case
    proof (cases "fileKey f = (dp, c)")
      case False
      let ?g = "addFATFileReference dp c (- 1) fs"
      have "files_inv ?g" using False 1 by (intro Cons.IH(1)) (auto simp: files_inv_def)
      moreover have "fileKey f \<noteq> fileKey x" if x: "x \<in> set ?g" for x
      proof -
        obtain y where "y \<in> set fs" "fileKey y = fileKey x" using addFATFileReference_keys [OF x] by blast
        moreover have "fileKey f \<noteq> fileKey y" if "y \<in> set fs" for y using that 1(1) by (auto simp: files_inv_def)
        ultimately show ?thesis by metis
      qed
      ultimately have "files_inv (f # ?g)" using 1(1) by (auto simp: files_inv_def)
      then show ?thesis using False by auto
    qed (use 1 in \<open>auto simp: files_inv_def\<close>)
  next
    case 2
    then show ?case using Cons.IH by (auto simp: files_inv_def)
  }
qed auto

lemma nextLevelDirectory_files:
  assumes "nextLevelDirectory disk mem junk d dp name fs = Some (r, fs')" "files_inv fs"
  shows "fs' = fs"
proof (cases "searchCreateFATFile (sharedOK mem) (partitionName dp) (getBeginCluster d) 1 fs")
  case None
  then show ?thesis using assms(1) by (simp add: nextLevelDirectory_def Let_def)
next
  case (Some gs)
  then have "addFATFileReference (partitionName dp) (getBeginCluster d) (- 1) gs = fs" using searchCreateFATFile_Some(3) assms(2) by blast
  then show ?thesis using assms(1) Some by (auto simp: nextLevelDirectory_def Let_def split: bind_splits if_splits)
qed

lemma openLoop_files:
  assumes "openLoop disk mem junk dp name i d fs = Some (r, fs')" "files_inv fs"
  shows "fs' = fs"
  using assms
proof (induction disk mem junk dp name i d fs rule: openLoop.induct)
  case (1 disk mem junk dp name i d fs)
  let ?i = "indexOfNot (cstr name) i (length name) 47"
  let ?j = "indexOf (cstr name) ?i (length name) 47"
  let ?n = "nextLevelDirectory disk (mem ?i) junk d dp (take (?j - ?i) (drop ?i name)) fs"
  show ?case
  proof (cases "?i = ?j \<or> attribute d \<noteq> FAT_DIRECTORY")
    case True
    then show ?thesis using 1(2) by (subst (asm) openLoop.simps) (auto simp: Let_def split: if_splits)
  next
    case False
    then have step: "openLoop disk mem junk dp name i d fs = (case ?n of None \<Rightarrow> None
       | Some (None, fs) \<Rightarrow> Some (None, fs)
       | Some (Some d, fs) \<Rightarrow> openLoop disk mem junk dp name ?j d fs)"
      by (subst openLoop.simps) (simp add: Let_def)
    obtain r' gs where n: "?n = Some (r', gs)" using 1(2) step by (cases ?n) auto
    have gs: "gs = fs" by (rule nextLevelDirectory_files [OF n 1(3)])
    show ?thesis
    proof (cases r')
      case None
      then show ?thesis using 1(2) step n gs by simp
    next
      case (Some d')
      then have "openLoop disk mem junk dp name ?j d' fs = Some (r, fs')" using 1(2) step n gs by simp
      with 1(1) [OF refl refl] False n Some gs 1(3) show ?thesis by fastforce
    qed
  qed
qed

lemma shared_inv_open:
  assumes "shared_inv opened fs" "createOpenedFATFile ok ok' enum dp d fs = Some (f, fs')"
  shows "shared_inv (f # opened) fs'"
proof -
  have f: "f = \<lparr>enumeration = enum, dirEntry = d, partitionOf = dp\<rparr>" "searchCreateFATFile ok' (partitionName dp) (getBeginCluster d) 1 fs = Some fs'"
    using assms(2) by (auto simp: createOpenedFATFile_def split: if_splits)
  show ?thesis
    using searchCreateFATFile_Some(1,2) [OF f(2)] assms(1) f(1) by (auto simp: shared_inv_def openedKey_def)
qed

lemma shared_inv_close:
  assumes "shared_inv opened fs" "f \<in> set opened"
  shows "shared_inv (remove1 f opened) (deleteOpenedFATFile f fs)"
proof -
  have "mset (map openedKey opened) = add_mset (openedKey f) (mset (map openedKey (remove1 f opened)))"
    using assms(2) by (simp add: image_mset_Diff [symmetric] mset_remove1 image_mset_add_mset [symmetric] del: image_mset_add_mset)
  moreover have "refs (openedKey f) fs = int (count (mset (map openedKey opened)) (openedKey f))"
    using assms(1) unfolding shared_inv_def by blast
  then have "0 < refs (openedKey f) fs" using calculation by simp
  ultimately show ?thesis
    using assms(1) addFATFileReference_inv [of fs "partitionName (partitionOf f)" "getBeginCluster (dirEntry f)"]
    by (auto simp: shared_inv_def deleteOpenedFATFile_def openedKey_def)
qed

text \<open>C23: the table of shared files. Whatever happens while a path is looked up and a file is opened, be it a missing directory, a failed
  disk read or a failed allocation, and whenever an opened file is closed: the reference count of a shared file is the number of opened
  files on it, and a file without references is not in the table.\<close>

theorem fat_references_correct:
  assumes "shared_inv opened fs"
  shows "(\<forall>r fs'. openFATTask disk mem ok ok' junk parts name enum fs = Some (r, fs') \<longrightarrow>
      shared_inv (case r of None \<Rightarrow> opened | Some f \<Rightarrow> f # opened) fs') \<and>
    (\<forall>f\<in>set opened. shared_inv (remove1 f opened) (deleteOpenedFATFile f fs))"
proof -
  have "shared_inv (case r of None \<Rightarrow> opened | Some f \<Rightarrow> f # opened) fs'"
    if t: "openFATTask disk mem ok ok' junk parts name enum fs = Some (r, fs')" for r fs'
  proof (cases "searchFAT32DiskPartition parts name")
    case None
    then show ?thesis using t assms by (simp add: openFATTask_def)
  next
    case (Some dp)
    obtain r' gs where l: "openLoop disk mem junk dp name 1 (initRootDirEntry (rootCluster (bootRecord dp))) fs = Some (r', gs)"
      using t Some by (cases "openLoop disk mem junk dp name 1 (initRootDirEntry (rootCluster (bootRecord dp))) fs") (auto simp: openFATTask_def)
    have gs: "gs = fs" using openLoop_files [OF l] assms by (simp add: shared_inv_def)
    show ?thesis
      using t Some l gs assms by (auto simp: openFATTask_def intro: shared_inv_open split: option.splits if_splits)
  qed
  then show ?thesis using shared_inv_close [OF assms] by blast
qed

section \<open>Looking up a path\<close>

text \<open>The reference: a path is the list of its non-empty components, a directory the list of its entries up to the end mark without the
  deleted ones, and a component names the last entry with its formatted name.\<close>

function components :: "u8 list \<Rightarrow> u8 list list" where
  "components xs = (let ys = dropWhile (\<lambda>c. c = 47) xs in
    if ys = [] then [] else takeWhile (\<lambda>c. c \<noteq> 47) ys # components (dropWhile (\<lambda>c. c \<noteq> 47) ys))"
  by pat_completeness auto
termination
proof (relation "measure length", goal_cases)
  case (2 xs ys)
  have "hd ys \<noteq> 47" using 2 hd_dropWhile [of "\<lambda>c. c = 47" xs] by blast
  then obtain y zs where "ys = y # zs" "y \<noteq> 47" using 2(2) by (cases ys) auto
  then have "length (dropWhile (\<lambda>c. c \<noteq> 47) ys) < length ys" by (simp add: length_dropWhile_le le_imp_less_Suc)
  also have "length ys \<le> length xs" using 2 by (simp add: length_dropWhile_le)
  finally show ?case by simp
qed simp

declare components.simps [simp del]

definition liveEntries :: "u8 list \<Rightarrow> FATDirEntry list" where
  "liveEntries bs = filter (\<lambda>d. \<not> isEmptyDirEntry d) (takeWhile (\<lambda>d. \<not> isEndOfDirEntry d) (dirArray bs (length bs div 32)))"

definition lookupEntry :: "u8 list \<Rightarrow> u8 list \<Rightarrow> FATDirEntry option" where
  "lookupEntry bs name = (case toFATFileName name of None \<Rightarrow> None
    | Some n \<Rightarrow> let ds = filter (\<lambda>d. fileName d = n) (liveEntries bs) in if ds = [] then None else Some (last ds))"

fun resolve :: "(u32 \<Rightarrow> u8 list option) \<Rightarrow> FATDirEntry \<Rightarrow> u8 list list \<Rightarrow> FATDirEntry option" where
  "resolve dirs d [] = (if attribute d AND FAT_VOLUME_ID = 0 \<and> attribute d \<noteq> FAT_LONG_FILE_NAME then Some d else None)"
| "resolve dirs d (c # cs) =
    (if attribute d \<noteq> FAT_DIRECTORY then None
     else case dirs (getBeginCluster d) of None \<Rightarrow> None
       | Some bs \<Rightarrow> (case lookupEntry bs c of None \<Rightarrow> None | Some d \<Rightarrow> resolve dirs d cs))"

text \<open>\<open>dirs\<close> gives the content of the directories of a sound volume: each is the data of a finite chain that can be read.\<close>

definition directory :: "disk \<Rightarrow> FAT32DiskPartition \<Rightarrow> u32 \<Rightarrow> u8 list \<Rightarrow> bool" where
  "directory disk dp c bs \<longleftrightarrow> (\<exists>k. length (clusters dp c k) < k \<and> readable disk dp (clusters dp c k) \<and>
    bs = chainData disk dp (clusters dp c k) \<and> length bs + unat (getClusterSize dp) \<le> 2 ^ 32)"

definition volume :: "disk \<Rightarrow> FAT32DiskPartition \<Rightarrow> (u32 \<Rightarrow> u8 list option) \<Rightarrow> bool" where
  "volume disk dp dirs \<longleftrightarrow> 0 < getClusterSize dp \<and> dirs (rootCluster (bootRecord dp)) \<noteq> None \<and>
    (\<forall>c bs. dirs c = Some bs \<longrightarrow> directory disk dp c bs \<and>
      (\<forall>d\<in>set (liveEntries bs). attribute d = FAT_DIRECTORY \<longrightarrow> dirs (getBeginCluster d) \<noteq> None))"

lemma indexOfNot_takeWhile:
  "i \<le> length xs \<Longrightarrow> indexOfNot (cstr xs) i (length xs) c = i + length (takeWhile (\<lambda>x. x = c) (drop i xs))"
proof (induction "length xs - i" arbitrary: i)
  case 0
  then show ?case by (subst indexOfNot.simps) simp
next
  case (Suc n)
  then have i: "i < length xs" by simp
  have "drop i xs = xs ! i # drop (Suc i) xs" by (simp add: Cons_nth_drop_Suc i)
  then show ?case using Suc(1) [of "Suc i"] Suc(2) i by (subst indexOfNot.simps) (simp add: cstr_def)
qed

lemma indexOf_takeWhile:
  "i \<le> length xs \<Longrightarrow> indexOf (cstr xs) i (length xs) c = i + length (takeWhile (\<lambda>x. x \<noteq> c) (drop i xs))"
proof (induction "length xs - i" arbitrary: i)
  case 0
  then show ?case by (subst indexOf.simps) simp
next
  case (Suc n)
  then have i: "i < length xs" by simp
  have "drop i xs = xs ! i # drop (Suc i) xs" by (simp add: Cons_nth_drop_Suc i)
  then show ?case using Suc(1) [of "Suc i"] Suc(2) i by (subst indexOf.simps) (simp add: cstr_def)
qed

lemma components_step:
  assumes "i \<le> length xs"
  defines "a \<equiv> indexOfNot (cstr xs) i (length xs) 47"
  defines "b \<equiv> indexOf (cstr xs) a (length xs) 47"
  shows "components (drop i xs) = (if a = b then [] else take (b - a) (drop a xs) # components (drop b xs))" "b \<le> length xs"
proof -
  have a: "a = i + length (takeWhile (\<lambda>c. c = 47) (drop i xs))" unfolding a_def by (rule indexOfNot_takeWhile [OF assms(1)])
  have "drop a xs = dropWhile (\<lambda>c. c = 47) (drop i xs)" unfolding a by (simp add: dropWhile_eq_drop add.commute)
  note da = this
  have "a \<le> length xs" unfolding a using assms(1) length_takeWhile_le [of "\<lambda>c. c = 47" "drop i xs"] by simp
  then have b: "b = a + length (takeWhile (\<lambda>c. c \<noteq> 47) (drop a xs))" unfolding b_def by (rule indexOf_takeWhile)
  have "drop b xs = dropWhile (\<lambda>c. c \<noteq> 47) (drop a xs)" unfolding b by (simp add: dropWhile_eq_drop add.commute)
  moreover have "take (b - a) (drop a xs) = takeWhile (\<lambda>c. c \<noteq> 47) (drop a xs)" unfolding b by (simp flip: takeWhile_eq_take)
  moreover have "drop a xs \<noteq> [] \<Longrightarrow> hd (drop a xs) \<noteq> 47" unfolding da by (rule hd_dropWhile)
  then have "takeWhile (\<lambda>c. c \<noteq> 47) (drop a xs) = [] \<longleftrightarrow> drop a xs = []" by (cases "drop a xs") auto
  then have "a = b \<longleftrightarrow> drop a xs = []" unfolding b by simp
  ultimately show "components (drop i xs) = (if a = b then [] else take (b - a) (drop a xs) # components (drop b xs))"
    by (subst components.simps) (simp add: Let_def da)
  show "b \<le> length xs" unfolding b using \<open>a \<le> length xs\<close> length_takeWhile_le [of "\<lambda>c. c \<noteq> 47" "drop a xs"] by simp
qed

lemma countFrom_correct: "length (clusters dp c k) < k \<Longrightarrow> countFrom c dp n = Some (n + of_nat (length (clusters dp c k)))"
proof (induction k arbitrary: c n)
  case (Suc k)
  then show ?case by (subst countFrom.simps) (auto simp: add.assoc)
qed simp

lemma toFATFileName_length: "toFATFileName name = Some n \<Longrightarrow> length n = 11"
  by (auto simp: toFATFileName_def Let_def split: if_splits)

lemma toFATFileName_nonzero:
  assumes "toFATFileName name = Some n" "name \<noteq> []" "0 \<notin> set name"
  shows "0 \<notin> set n"
proof -
  have nz: "upper (name ! i) \<noteq> 0" if "i < length name" for i using assms(3) that by (metis nth_mem upper_zero)
  let ?i = "lastDot name (length name - 1)"
  have "lastDot name k \<le> k" for k by (induction k) (auto simp: le_SucI)
  then have "?i \<le> length name - 1" .
  moreover have "0 < length name" using assms(2) by simp
  ultimately have i: "?i < length name" by linarith
  obtain m e where me: "(if name ! ?i = 46 then (?i, ?i + 1) else (length name, length name)) = (m, e)" by fastforce
  have b: "m \<le> length name" "e \<le> length name" using me i by (auto split: if_splits simp: Suc_le_eq)
  define f where "f i = (if i < m then upper (name ! i)
       else if 8 \<le> i \<and> i - 8 < length name - e then upper (name ! (e + (i - 8))) else 32)" for i
  have n: "n = map f [0..<11]"
    using assms(1) unfolding toFATFileName_def Let_def me prod.case f_def [abs_def] by (simp split: if_splits)
  have "f i \<noteq> 0" for i
  proof -
    consider "i < m" | "\<not> i < m" "8 \<le> i \<and> i - 8 < length name - e" | "\<not> i < m" "\<not> (8 \<le> i \<and> i - 8 < length name - e)" by blast
    then show ?thesis
    proof cases
      case 1
      then show ?thesis using nz [of i] b(1) unfolding f_def by (simp only: if_True) simp
    next
      case 2
      then have "e + (i - 8) < length name" by linarith
      then show ?thesis using nz 2 unfolding f_def by (simp only: if_True if_False) simp
    next
      case 3
      then show ?thesis unfolding f_def by (simp only: if_False) simp
    qed
  qed
  then show ?thesis unfolding n by auto
qed

lemma dirArray_length: "d \<in> set (dirArray bs n) \<Longrightarrow> length (fileName d) = 11"
  by (auto simp: dirArray_def loadDirEntry_def)

lemma strncmp_eq_0':
  assumes "\<forall>k<n. s2 k \<noteq> 0"
  shows "strncmp s1 s2 n = Some 0 \<longleftrightarrow> (\<forall>k<n. s1 k = s2 k)"
proof -
  have "strcmp2_from s1 s2 n True i = Some 0 \<longleftrightarrow> (\<forall>k\<in>{i..<n}. s1 k = s2 k)" if "i \<le> n" for i
    using that
  proof (induction "n - i" arbitrary: i)
    case 0
    then show ?case by (subst strcmp2_from.simps) simp
  next
    case (Suc m)
    then have "i < n" by simp
    then have "{i..<n} = insert i {Suc i..<n}" by auto
    then show ?case using Suc(1) [of "Suc i"] Suc(2) \<open>i < n\<close> assms by (subst strcmp2_from.simps) simp
  qed
  from this [of 0] show ?thesis by (simp add: strncmp_def strcmp2_def Ball_def)
qed

lemma searchLoop_correct:
  assumes "length n = 11" "0 \<notin> set n" "\<forall>d\<in>set ds. length (fileName d) = 11"
  shows "searchLoop n ds e = (let ms = filter (\<lambda>d. fileName d = n) (filter (\<lambda>d. \<not> isEmptyDirEntry d) (takeWhile (\<lambda>d. \<not> isEndOfDirEntry d) ds)) in
    if ms = [] then e else Some (last ms))"
  using assms(3)
proof (induction ds arbitrary: e)
  case (Cons d ds)
  have n: "\<forall>k<11. cstr n k \<noteq> 0" using assms(1,2) by (auto simp: cstr_def) (metis nth_mem)
  have "strncmp (cstr (fileName d)) (cstr n) 11 = Some 0 \<longleftrightarrow> fileName d = n"
    using strncmp_eq_0' [OF n, of "cstr (fileName d)"] Cons.prems assms(1) by (auto simp: cstr_def intro: nth_equalityI)
  then show ?case using Cons by (auto simp: Let_def)
qed simp

lemma nextLevelDirectory_correct:
  assumes "directory disk dp (getBeginCluster d) bs" "0 < getClusterSize dp" "name \<noteq> []" "0 \<notin> set name" "toFATFileName name \<noteq> None"
    "files_inv fs" "sharedOK mem" "directoryOK mem" "clusterOK mem"
  shows "nextLevelDirectory disk mem junk d dp name fs = Some (lookupEntry bs name, fs)"
proof -
  let ?c = "getBeginCluster d"
  obtain k where k: "length (clusters dp ?c k) < k" "readable disk dp (clusters dp ?c k)" "bs = chainData disk dp (clusters dp ?c k)"
    "length bs + unat (getClusterSize dp) \<le> 2 ^ 32" using assms(1) by (auto simp: directory_def)
  have len: "length bs = length (clusters dp ?c k) * unat (getClusterSize dp)" using k(2,3) by (simp add: length_chainData)
  have size: "of_nat (length (clusters dp ?c k)) * ucast (sectorsPerCluster (bootRecord dp)) * sectorSize dp = (of_nat (length bs) :: u32)"
    by (simp add: len getClusterSize_def mult.assoc)
  have b32: "length bs < 2 ^ 32" using k(4) assms(2) by (simp add: word_less_nat_alt)
  have "length bs \<le> k * unat (getClusterSize dp)" unfolding len using k(1) by (intro mult_le_mono1) simp
  then have read: "readByFAT disk True dp ?c 0 (of_nat (length bs)) = Some bs"
    using readByFAT_correct [OF assms(2) _ _ k(2), of 0 "of_nat (length bs)"] k(3,4) b32 by (simp add: unat_of_nat_small)
  obtain gs where gs: "searchCreateFATFile True (partitionName dp) ?c 1 fs = Some gs"
    by (cases "addToFile (partitionName dp) ?c 1 fs") (auto simp: searchCreateFATFile_def)
  have rel: "addFATFileReference (partitionName dp) ?c (- 1) gs = fs" by (rule searchCreateFATFile_Some(3) [OF gs assms(6)])
  obtain n where n: "toFATFileName name = Some n" using assms(5) by auto
  have "searchDirectory junk (dirArray bs (length bs div 32)) name = lookupEntry bs name"
    unfolding searchDirectory_def lookupEntry_def liveEntries_def n option.case
    by (rule searchLoop_correct) (use toFATFileName_length [OF n] toFATFileName_nonzero [OF n assms(3,4)] dirArray_length in auto)
  moreover have "unat (of_nat (length bs) div 32 :: u32) = length bs div 32" using b32 by (simp add: unat_div unat_of_nat_small)
  ultimately show ?thesis
    using countFrom_correct [OF k(1), of 0] gs rel read b32 assms(7-9)
    by (simp add: nextLevelDirectory_def countClusterByFAT_def size Let_def unat_of_nat_small)
qed

lemma lookupEntry_live: "lookupEntry bs name = Some d \<Longrightarrow> d \<in> set (liveEntries bs)"
  by (auto simp: lookupEntry_def Let_def split: option.splits if_splits dest: last_in_set)

abbreviation (input) enough :: fat_memory where
  "enough \<equiv> \<lparr>sharedOK = True, directoryOK = True, clusterOK = True\<rparr>"

lemma openLoop_correct:
  assumes "volume disk dp dirs" "files_inv fs" "i \<le> length name" "0 \<notin> set name"
    "\<forall>c\<in>set (components (drop i name)). toFATFileName c \<noteq> None" "attribute d = FAT_DIRECTORY \<longrightarrow> dirs (getBeginCluster d) \<noteq> None"
  shows "openLoop disk (\<lambda>i. enough) junk dp name i d fs = Some (resolve dirs d (components (drop i name)), fs)"
  using assms(3-)
proof (induction "length name - i" arbitrary: i d rule: less_induct)
  case less
  define a where "a = indexOfNot (cstr name) i (length name) 47"
  define b where "b = indexOf (cstr name) a (length name) 47"
  have step: "components (drop i name) = (if a = b then [] else take (b - a) (drop a name) # components (drop b name))" "b \<le> length name"
    using components_step [OF less(2)] unfolding a_def b_def by blast+
  have loop: "openLoop disk (\<lambda>i. enough) junk dp name i d fs =
    (if a = b then Some (if attribute d AND FAT_VOLUME_ID = 0 \<and> attribute d \<noteq> FAT_LONG_FILE_NAME then Some d else None, fs)
     else if attribute d \<noteq> FAT_DIRECTORY then Some (None, fs)
     else (case nextLevelDirectory disk enough junk d dp (take (b - a) (drop a name)) fs of
         None \<Rightarrow> None
       | Some (None, fs) \<Rightarrow> Some (None, fs)
       | Some (Some d, fs) \<Rightarrow> openLoop disk (\<lambda>i. enough) junk dp name b d fs))"
    unfolding a_def b_def by (subst openLoop.simps) (simp only: Let_def)
  show ?case
  proof (cases "a = b \<or> attribute d \<noteq> FAT_DIRECTORY")
    case True
    then show ?thesis using loop step by auto
  next
    case False
    let ?c = "take (b - a) (drop a name)"
    have p: "i < b" using component_progress [of "cstr name" i "length name" 47] False unfolding a_def b_def by blast
    have ab: "a < b" using indexOf_ge [of a "cstr name" "length name" 47] False unfolding b_def by simp
    have c: "?c \<noteq> []" "0 \<notin> set ?c" using ab step(2) less(3) by (auto dest: in_set_takeD in_set_dropD)
    obtain bs where bs: "dirs (getBeginCluster d) = Some bs" using less(5) False by auto
    have n: "nextLevelDirectory disk enough junk d dp ?c fs = Some (lookupEntry bs ?c, fs)"
      by (rule nextLevelDirectory_correct) (use assms(1,2) bs c less(4) step(1) False in \<open>auto simp: volume_def\<close>)
    show ?thesis
    proof (cases "lookupEntry bs ?c")
      case None
      then show ?thesis using loop step(1) n bs False by simp
    next
      case (Some d')
      have "openLoop disk (\<lambda>i. enough) junk dp name b d' fs = Some (resolve dirs d' (components (drop b name)), fs)"
        by (rule less(1)) (use p step less(3,4) False lookupEntry_live [OF Some] assms(1) bs in \<open>auto simp: volume_def\<close>)
      then show ?thesis using loop step(1) n bs False Some by simp
    qed
  qed
qed

lemma getBeginCluster_root [simp]: "getBeginCluster (initRootDirEntry c) = c"
proof -
  have "ucast (ucast (c AND 0xffff) :: u16) + push_bit 16 (ucast (ucast (drop_bit 16 c AND 0xffff) :: u16)) = c"
    by (subst disjunctive_add) (auto simp: bit_simps and_mask16 bit_eq_iff)
  then show ?thesis by (simp add: getBeginCluster_def initRootDirEntry_def)
qed


section \<open>A small volume\<close>

text \<open>Clusters of 32 bytes; the root directory is cluster 2 and holds one file \<open>A\<close> of five bytes in cluster 3.\<close>

definition smallPartition :: FAT32DiskPartition where
  "smallPartition = \<lparr>startLBA = 0, firstDataLBA = 0, sectorSize = 32, partitionName = 67,
    bootRecord = \<lparr>bytesPerSector = 32, sectorsPerCluster = 1, reservedSectorCount = 0, fatCount = 1, sectorsPerFAT32 = 1, rootCluster = 2, signature = 0x28\<rparr>,
    fat = (\<lambda>i. 0x0ffffff8)\<rparr>"

definition smallRoot :: "u8 list" where
  "smallRoot = [65, 32, 32, 32, 32, 32, 32, 32, 32, 32, 32, 0x20, 0, 0, 0, 0, 0, 0, 0, 0, 0, 0, 0, 0, 0, 0, 3, 0, 5, 0, 0, 0]"

definition smallFile :: "u8 list" where
  "smallFile = [104, 101, 108, 108, 111] @ replicate 27 0"

definition smallDisk :: disk where
  "smallDisk off n = (if n \<noteq> 32 then None else if off = 0 then Some smallRoot else if off = 32 then Some smallFile else None)"

definition smallEntry :: FATDirEntry where
  "smallEntry = \<lparr>fileName = 65 # replicate 10 32, attribute = 0x20, clusterHigh = 0, clusterLow = 3, fileSize = 5\<rparr>"

lemma small_simps:
  "getClusterSize smallPartition = 32" "getBeginCluster smallEntry = 3" "fileSize smallEntry = 5" "rootCluster (bootRecord smallPartition) = 2"
  "isValidCluster 2 smallPartition" "isValidCluster 3 smallPartition" "nextClusterByFAT c smallPartition = 0x0ffffff8" "\<not> isValidCluster 0x0ffffff8 smallPartition"
  "clusterData smallDisk smallPartition 3 = Some smallFile" "clusterData smallDisk smallPartition 2 = Some smallRoot" "length smallFile = 32" "length smallRoot = 32"
  by (simp_all add: smallPartition_def smallEntry_def getClusterSize_def getBeginCluster_def isValidCluster_def nextClusterByFAT_def clusterData_def
    clusterToLBA_def smallDisk_def smallFile_def smallRoot_def)

lemma small_clusters: "clusters smallPartition 3 (Suc (Suc 0)) = [3]" "clusters smallPartition 2 (Suc (Suc 0)) = [2]"
  by (simp_all add: small_simps)

lemma ten_blanks: "replicate 10 (32 :: u8) = [32, 32, 32, 32, 32, 32, 32, 32, 32, 32]"
  by (simp add: numeral_eq_Suc)

lemma small_directory: "liveEntries smallRoot = [smallEntry]"
  by (simp add: liveEntries_def dirArray_def small_simps loadDirEntry_def view_def upt_rec cstr_def smallRoot_def smallEntry_def isEmptyDirEntry_def
    isEndOfDirEntry_def le16_def le32_def ten_blanks)

lemma small_volume: "volume smallDisk smallPartition [2 \<mapsto> smallRoot]"
proof -
  have "directory smallDisk smallPartition 2 smallRoot"
    unfolding directory_def by (rule exI [of _ "Suc (Suc 0)"]) (simp add: small_clusters readable_def small_simps)
  then show ?thesis using small_directory by (auto simp: volume_def small_simps smallEntry_def)
qed

theorem readFATs_correct_witness:
  "readFATs smallDisk (\<lambda>i. True) \<lparr>enumeration = False, dirEntry = smallEntry, partitionOf = smallPartition\<rparr> 0 [2, 4] = Some [104, 101, 108, 108, 111]"
proof -
  have "readFATs smallDisk (\<lambda>i. True) \<lparr>enumeration = False, dirEntry = smallEntry, partitionOf = smallPartition\<rparr> 0 [2, 4] =
      Some (take (sum_list (map unat [2, 4 :: u32])) (take (unat (fileSize smallEntry))
        (chainData smallDisk smallPartition (clusters smallPartition (getBeginCluster smallEntry) (Suc (Suc 0))))))"
    by (rule readFATs_correct) (simp_all only: small_simps small_clusters, simp_all add: readable_def small_simps)
  then show ?thesis by (simp only: small_simps small_clusters) (simp add: small_simps smallFile_def)
qed

theorem fat_references_correct_witness:
  "let f = \<lparr>enumeration = False, dirEntry = smallEntry, partitionOf = smallPartition\<rparr>;
       fs = [\<lparr>beginCluster = 3, diskPartition = 67, refCount = 2\<rparr>] in
   shared_inv [f, f] fs \<and> shared_inv (remove1 f [f, f]) (deleteOpenedFATFile f fs)"
proof -
  let ?f = "\<lparr>enumeration = False, dirEntry = smallEntry, partitionOf = smallPartition\<rparr>" and ?fs = "[\<lparr>beginCluster = 3, diskPartition = 67, refCount = 2\<rparr>]"
  have "shared_inv [?f, ?f] ?fs"
    by (auto simp: shared_inv_def files_inv_def openedKey_def small_simps) (simp_all add: smallPartition_def)
  with fat_references_correct [OF this] show ?thesis by (simp only: Let_def) simp
qed


end
