(* ===== verification/IORequest.thy ===== *)
theory IORequest
  imports Prelude
begin

text \<open>
  The I/O requests of a task, \<open>kernel/task/taskmanager.c\<close>: a request is pended by a system call, may be offered for cancellation by the
  driver that serves it, and is completed, cancelled or waited for. The lists of a task are the list view of the intrusive queues, whose
  head is where requests are added; each operation is the critical section of \<open>ioListLock\<close>. A request is named by a number. The
  result \<open>None\<close> is a failed assertion.
\<close>

type_synonym ior = nat

record io_task =
  pendingIOList :: "ior list"
  completedIOList :: "ior list"
  ioSemaphore :: nat
  cancellable :: "ior \<Rightarrow> bool"

definition inDQueue :: "io_task \<Rightarrow> ior \<Rightarrow> bool" where
  "inDQueue t r \<longleftrightarrow> r \<in> set (pendingIOList t) \<or> r \<in> set (completedIOList t)"

definition removeFromDQueue :: "ior \<Rightarrow> io_task \<Rightarrow> io_task" where
  "removeFromDQueue r t = t\<lparr>pendingIOList := remove1 r (pendingIOList t), completedIOList := remove1 r (completedIOList t)\<rparr>"

definition initIORequest :: "ior \<Rightarrow> io_task \<Rightarrow> io_task" where
  "initIORequest r t = t\<lparr>cancellable := (cancellable t)(r := False)\<rparr>"

definition pendIO :: "ior \<Rightarrow> io_task \<Rightarrow> io_task option" where
  "pendIO r t = do {
    kassert (\<not> inDQueue t r);
    Some (t\<lparr>pendingIOList := r # pendingIOList t\<rparr>)
  }"

definition completeIO :: "ior \<Rightarrow> io_task \<Rightarrow> io_task option" where
  "completeIO r t = do {
    kassert (inDQueue t r);
    let t = removeFromDQueue r t;
    Some (t\<lparr>completedIOList := r # completedIOList t, cancellable := (cancellable t)(r := False), ioSemaphore := ioSemaphore t + 1\<rparr>)
  }"

definition searchIOList_noLock :: "ior list \<Rightarrow> ior \<Rightarrow> bool" where
  "searchIOList_noLock l r \<longleftrightarrow> r \<in> set l"

text \<open>The critical section of the loop in \<open>_waitIO\<close>: the first completed request, or the expected one, is removed from its list.\<close>

definition findCompleted :: "ior option \<Rightarrow> io_task \<Rightarrow> ior option" where
  "findCompleted expected t = find (\<lambda>i. expected = None \<or> expected = Some i) (completedIOList t)"

definition takeCompleted :: "ior option \<Rightarrow> io_task \<Rightarrow> ior option \<times> io_task" where
  "takeCompleted expected t = (case findCompleted expected t of
      None \<Rightarrow> (None, t)
    | Some r \<Rightarrow> (Some r, t\<lparr>completedIOList := remove1 r (completedIOList t)\<rparr>))"

definition tryCancelIO :: "ior \<Rightarrow> io_task \<Rightarrow> bool \<times> io_task" where
  "tryCancelIO r t = (if cancellable t r then (True, removeFromDQueue r t) else (False, t))"

definition cancelIOHandler :: "ior \<Rightarrow> io_task \<Rightarrow> bool \<times> io_task" where
  "cancelIOHandler r t =
    (if searchIOList_noLock (pendingIOList t) r \<and> cancellable t r
     then (True, (removeFromDQueue r t)\<lparr>cancellable := (cancellable t)(r := False)\<rparr>) else (False, t))"

definition setCancellable :: "ior \<Rightarrow> bool \<Rightarrow> io_task \<Rightarrow> bool \<times> io_task" where
  "setCancellable r v t =
    (if \<not> v \<and> \<not> cancellable t r then (False, t) else (True, t\<lparr>cancellable := (cancellable t)(r := v)\<rparr>))"

section \<open>The task, its drivers and the canceller together\<close>

text \<open>Where the task is in \<open>_waitIO\<close>: \<open>Drain v\<close> still has \<open>v\<close> units to acquire, \<open>Scan\<close> looks at the list, \<open>Sleep\<close> acquires
  the semaphore, \<open>Returned\<close> hands the request to \<open>accept\<close>.\<close>

datatype waiter =
    Running
  | Drain nat "ior option"
  | Scan "ior option"
  | Sleep "ior option"
  | Returned ior

text \<open>\<open>owned\<close> are the requests that only their driver may finish: it has not offered them for cancellation, or \<open>setCancellable\<close> told it
  that it was in time. \<open>accepted\<close> and \<open>cancelled\<close> record the calls of \<open>accept\<close> and \<open>cancel\<close>.\<close>

record io_system =
  task :: io_task
  waiting_at :: waiter
  owned :: "ior set"
  accepted :: "ior list"
  cancelled :: "ior list"

text \<open>The requests a driver knows: those it has not lost. A driver may offer and take a request repeatedly.\<close>

inductive io_step :: "io_system \<Rightarrow> io_system option \<Rightarrow> bool" where
  submit: "r \<notin> set (pendingIOList (task s)) \<union> set (completedIOList (task s)) \<union> set (accepted s) \<union> set (cancelled s) \<Longrightarrow> waiting_at s = Running \<Longrightarrow>
    io_step s (map_option (\<lambda>t. s\<lparr>task := t, owned := insert r (owned s)\<rparr>) (pendIO r (initIORequest r (task s))))"
| offer: "r \<in> owned s \<Longrightarrow> io_step s (Some (s\<lparr>task := snd (setCancellable r True (task s)), owned := owned s - {r}\<rparr>))"
| take: "setCancellable r False (task s) = (ok, t) \<Longrightarrow> io_step s (Some (s\<lparr>task := t, owned := (if ok then insert r (owned s) else owned s)\<rparr>))"
| complete: "r \<in> owned s \<Longrightarrow> io_step s (map_option (\<lambda>t. s\<lparr>task := t, owned := owned s - {r}\<rparr>) (completeIO r (task s)))"
| cancel: "cancelIOHandler r (task s) = (ok, t) \<Longrightarrow> io_step s (Some (s\<lparr>task := t, cancelled := (if ok then r # cancelled s else cancelled s)\<rparr>))"
| wait: "waiting_at s = Running \<Longrightarrow> (\<forall>r. e = Some r \<longrightarrow> searchIOList_noLock (pendingIOList (task s)) r \<or> searchIOList_noLock (completedIOList (task s)) r) \<Longrightarrow>
    io_step s (Some (s\<lparr>waiting_at := Drain (ioSemaphore (task s)) e\<rparr>))"
| drain: "waiting_at s = Drain (Suc v) e \<Longrightarrow> 0 < ioSemaphore (task s) \<Longrightarrow>
    io_step s (Some (s\<lparr>task := (task s)\<lparr>ioSemaphore := ioSemaphore (task s) - 1\<rparr>, waiting_at := Drain v e\<rparr>))"
| drained: "waiting_at s = Drain 0 e \<Longrightarrow> io_step s (Some (s\<lparr>waiting_at := Scan e\<rparr>))"
| scan: "waiting_at s = Scan e \<Longrightarrow> takeCompleted e (task s) = (f, t) \<Longrightarrow>
    io_step s (Some (s\<lparr>task := t, waiting_at := (case f of Some r \<Rightarrow> Returned r | None \<Rightarrow> Sleep e)\<rparr>))"
| wake: "waiting_at s = Sleep e \<Longrightarrow> 0 < ioSemaphore (task s) \<Longrightarrow>
    io_step s (Some (s\<lparr>task := (task s)\<lparr>ioSemaphore := ioSemaphore (task s) - 1\<rparr>, waiting_at := Scan e\<rparr>))"
| accept: "waiting_at s = Returned r \<Longrightarrow> io_step s (Some (s\<lparr>waiting_at := Running, accepted := r # accepted s\<rparr>))"

definition io_start :: io_system where
  "io_start = \<lparr>task = \<lparr>pendingIOList = [], completedIOList = [], ioSemaphore = 0, cancellable = (\<lambda>r. False)\<rparr>,
    waiting_at = Running, owned = {}, accepted = [], cancelled = []\<rparr>"

inductive io_reachable :: "io_system \<Rightarrow> bool" where
  start: "io_reachable io_start"
| step: "io_reachable s \<Longrightarrow> io_step s (Some s') \<Longrightarrow> io_reachable s'"

section \<open>Invariant\<close>

fun returned :: "waiter \<Rightarrow> ior list" where
  "returned (Returned r) = [r]"
| "returned _ = []"

definition io_inv :: "io_system \<Rightarrow> bool" where [inv_defs]:
  "io_inv s \<longleftrightarrow>
    distinct (pendingIOList (task s) @ completedIOList (task s) @ returned (waiting_at s) @ accepted s @ cancelled s) \<and>
    (\<forall>r. cancellable (task s) r \<longleftrightarrow> r \<in> set (pendingIOList (task s)) \<and> r \<notin> owned s) \<and>
    owned s \<subseteq> set (pendingIOList (task s)) \<and>
    (\<forall>v e. waiting_at s = Drain v e \<longrightarrow> v \<le> ioSemaphore (task s)) \<and>
    (\<forall>e. waiting_at s = Sleep e \<and> findCompleted e (task s) \<noteq> None \<longrightarrow> 0 < ioSemaphore (task s))"

lemma findCompleted_None: "findCompleted e t = None \<longleftrightarrow> (\<forall>r\<in>set (completedIOList t). e \<noteq> None \<and> e \<noteq> Some r)"
  by (auto simp: findCompleted_def find_None_iff)

lemma findCompleted_Some: "findCompleted e t = Some r \<Longrightarrow> r \<in> set (completedIOList t)"
  by (auto simp: findCompleted_def find_Some_iff)

lemma io_inv_start: "io_inv io_start"
  by (simp add: io_inv_def io_start_def)
lemma io_inv_step:
  assumes "io_step s x" "io_inv s"
  shows "\<exists>s'. x = Some s' \<and> io_inv s'"
  using assms
proof (induction rule: io_step.induct)
  case (submit r s)
  then show ?case by (auto simp: io_inv_def pendIO_def initIORequest_def inDQueue_def)
next
  case (offer r s)
  then show ?case by (auto simp: io_inv_def setCancellable_def findCompleted_def)
next
  case (take r s ok t)
  then show ?case by (auto simp: io_inv_def setCancellable_def findCompleted_def split: if_splits)
next
  case (complete r s)
  then have "r \<in> set (pendingIOList (task s))" "r \<notin> set (completedIOList (task s))" by (auto simp: io_inv_def)
  then show ?case using complete by (auto simp: io_inv_def completeIO_def removeFromDQueue_def inDQueue_def remove1_idem)
next
  case (cancel r s ok t)
  have "r \<notin> set (completedIOList (task s))" if "r \<in> set (pendingIOList (task s))" using cancel that by (auto simp: io_inv_def)
  then show ?case using cancel
    by (auto simp: io_inv_def cancelIOHandler_def searchIOList_noLock_def removeFromDQueue_def remove1_idem findCompleted_def split: if_splits)
next
  case (wait s e)
  then show ?case by (auto simp: io_inv_def)
next
  case (drain s v e)
  then show ?case by (auto simp: io_inv_def)
next
  case (drained s e)
  then show ?case by (auto simp: io_inv_def)
next
  case (scan s e f t)
  show ?case
  proof (cases "findCompleted e (task s)")
    case None
    then show ?thesis using scan by (auto simp: io_inv_def takeCompleted_def)
  next
    case (Some r)
    then have "f = Some r" "t = (task s)\<lparr>completedIOList := remove1 r (completedIOList (task s))\<rparr>"
      using scan(2) by (simp_all add: takeCompleted_def)
    then show ?thesis using scan(1,3) findCompleted_Some [OF Some] by (auto simp: io_inv_def)
  qed
next
  case (wake s e)
  then show ?case by (auto simp: io_inv_def)
next
  case (accept s r)
  then show ?case by (auto simp: io_inv_def)
qed

lemma io_reachable_inv: "io_reachable s \<Longrightarrow> io_inv s"
  by (induction rule: io_reachable.induct) (auto simp: io_inv_start dest: io_inv_step)



text \<open>A witness of both: two requests, the first offered, cancelled and refused to its driver, the second completed while the task sleeps.\<close>

definition io_example :: io_system where
  "io_example = \<lparr>task = \<lparr>pendingIOList = [], completedIOList = [2], ioSemaphore = 1, cancellable = (\<lambda>r. False)\<rparr>,
    waiting_at = Sleep (Some 2), owned = {}, accepted = [], cancelled = [1]\<rparr>"

definition io_example_owned :: io_system where
  "io_example_owned = io_start\<lparr>task := (task io_start)\<lparr>pendingIOList := [2]\<rparr>, owned := {2}, cancelled := [1]\<rparr>"

lemma io_example_owned_reachable: "io_reachable io_example_owned"
proof -
  note run = io_reachable.step
  have s0: "io_reachable io_start" by (rule io_reachable.start)
  have s1: "io_reachable (io_start\<lparr>task := (task io_start)\<lparr>pendingIOList := [1]\<rparr>, owned := {1}\<rparr>)" (is "io_reachable ?s1")
    using io_step.submit [of 1 io_start] by (intro run [OF s0]) (simp add: io_start_def pendIO_def initIORequest_def inDQueue_def fun_upd_idem)
  have s2: "io_reachable (?s1\<lparr>task := (task ?s1)\<lparr>cancellable := (\<lambda>r. False)(1 := True)\<rparr>, owned := {}\<rparr>)" (is "io_reachable ?s2")
    using io_step.offer [of 1 ?s1] by (intro run [OF s1]) (simp add: io_start_def setCancellable_def)
  have s3: "io_reachable (io_start\<lparr>cancelled := [1]\<rparr>)" (is "io_reachable ?s3")
    using io_step.cancel [of 1 ?s2 True] by (intro run [OF s2]) (simp add: io_start_def cancelIOHandler_def searchIOList_noLock_def removeFromDQueue_def fun_upd_idem)
  show ?thesis
    using io_step.submit [of 2 ?s3] by (intro run [OF s3]) (simp add: io_example_owned_def io_start_def pendIO_def initIORequest_def inDQueue_def fun_upd_idem)
qed

lemma io_example_reachable: "io_reachable io_example"
proof -
  note run = io_reachable.step and s4 = io_example_owned_reachable and defs = io_example_owned_def io_start_def
  let ?s4 = io_example_owned
  have s5: "io_reachable (?s4\<lparr>waiting_at := Drain 0 (Some 2)\<rparr>)" (is "io_reachable ?s5")
    using io_step.wait [of ?s4 "Some 2"] by (intro run [OF s4]) (simp add: defs searchIOList_noLock_def)
  have s6: "io_reachable (?s4\<lparr>waiting_at := Scan (Some 2)\<rparr>)" (is "io_reachable ?s6")
    using io_step.drained [of ?s5 "Some 2"] by (intro run [OF s5]) (simp add: defs)
  have s7: "io_reachable (?s4\<lparr>waiting_at := Sleep (Some 2)\<rparr>)" (is "io_reachable ?s7")
    using io_step.scan [of ?s6 "Some 2" None "task ?s6"] by (intro run [OF s6]) (simp add: defs takeCompleted_def findCompleted_def)
  show ?thesis
    using io_step.complete [of 2 ?s7] by (intro run [OF s7]) (simp add: defs io_example_def completeIO_def removeFromDQueue_def inDQueue_def fun_upd_idem)
qed



text \<open>\<open>tryCancelIO\<close>, which a terminating task uses, leaves the request cancellable. A driver that takes the request between the critical
  section and the call of \<open>cancel\<close> is told that it was in time, and completing the request fails the assertion of \<open>completeIO\<close>.\<close>

lemma tryCancelIO_race:
  "let t = \<lparr>pendingIOList = [1], completedIOList = [], ioSemaphore = 0, cancellable = (\<lambda>r. r = 1)\<rparr>;
       (ok, t) = tryCancelIO 1 t; (taken, t) = setCancellable 1 False t in
   ok \<and> taken \<and> completeIO 1 t = None"
  by (simp add: tryCancelIO_def setCancellable_def completeIO_def removeFromDQueue_def inDQueue_def)

end
