(* ===== verification/FifoFile.thy ===== *)
theory FifoFile
  imports TaskQueue "HOL-Library.Multiset"
begin

text \<open>
  FIFO files, \<open>kernel/file/fifofile.c\<close>: a singly linked list of written elements with head and tail pointers, and the pending reads in
  the list view of their intrusive queue. Elements are named by numbers, \<open>nextElement\<close> and \<open>content\<close> are their fields. An operation is
  run at a time; the result \<open>None\<close> is a failed assertion or a null pointer followed.
\<close>

record FIFOFile =
  headElement :: "nat option"
  tailElement :: "nat option"
  nextElement :: "nat \<Rightarrow> nat option"
  content :: "nat \<Rightarrow> u8 list"
  pendingRead :: "(nat \<times> nat) list"

definition createFIFOElement :: "nat \<Rightarrow> u8 list \<Rightarrow> FIFOFile \<Rightarrow> FIFOFile" where
  "createFIFOElement e buf f = f\<lparr>nextElement := (nextElement f)(e := None), content := (content f)(e := buf)\<rparr>"

definition copyFIFOElement :: "FIFOFile \<Rightarrow> nat \<Rightarrow> nat \<Rightarrow> u8 list" where
  "copyFIFOElement f e bufferSize = take (min (length (content f e)) bufferSize) (content f e)"

definition pushFIFOElement_noLock :: "nat \<Rightarrow> FIFOFile \<Rightarrow> FIFOFile option" where
  "pushFIFOElement_noLock e f =
    (let f = f\<lparr>nextElement := (nextElement f)(e := None)\<rparr> in
     case headElement f of
       None \<Rightarrow> Some (f\<lparr>headElement := Some e, tailElement := Some e\<rparr>)
     | Some h \<Rightarrow> (case tailElement f of
         None \<Rightarrow> None
       | Some t \<Rightarrow> Some (f\<lparr>nextElement := (nextElement f)(t := Some e), tailElement := Some e\<rparr>)))"

definition popFIFOElement_noLock :: "FIFOFile \<Rightarrow> (nat \<times> FIFOFile) option" where
  "popFIFOElement_noLock f = (case headElement f of
      None \<Rightarrow> None
    | Some e \<Rightarrow> Some (e, f\<lparr>headElement := nextElement f e, tailElement := (if nextElement f e = None then None else tailElement f),
        nextElement := (nextElement f)(e := None)\<rparr>))"

definition hasFIFOElement_noLock :: "FIFOFile \<Rightarrow> bool" where
  "hasFIFOElement_noLock f \<longleftrightarrow> headElement f \<noteq> None"

text \<open>\<open>popFIFORequest_noLock\<close> does not look at the result of \<open>setRWFileIONotCancellable\<close>.\<close>

definition popFIFORequest_noLock :: "FIFOFile \<Rightarrow> ((nat \<times> nat) \<times> FIFOFile) option" where
  "popFIFORequest_noLock f = (case pendingRead f of [] \<Rightarrow> None | r # rs \<Rightarrow> Some (r, f\<lparr>pendingRead := rs\<rparr>))"

definition cancelReadFIFO :: "nat \<Rightarrow> FIFOFile \<Rightarrow> FIFOFile" where
  "cancelReadFIFO r f = f\<lparr>pendingRead := filter (\<lambda>(q, n). q \<noteq> r) (pendingRead f)\<rparr>"

definition pushRWFIFORequest_noLock :: "nat \<Rightarrow> nat \<Rightarrow> FIFOFile \<Rightarrow> FIFOFile" where
  "pushRWFIFORequest_noLock r n f = f\<lparr>pendingRead := (r, n) # pendingRead f\<rparr>"

text \<open>\<open>processFIFO\<close>: the completed requests, each with the size of its buffer and the bytes copied to it.\<close>

lemma popFIFOElement_pendingRead: "popFIFOElement_noLock f = Some (e, f') \<Longrightarrow> pendingRead f' = pendingRead f \<and> content f' = content f"
  by (auto simp: popFIFOElement_noLock_def split: option.splits)

lemma popFIFORequest_smaller: "popFIFORequest_noLock f = Some (r, f') \<Longrightarrow> length (pendingRead f') < length (pendingRead f)"
  by (auto simp: popFIFORequest_noLock_def split: list.splits)

function processFIFO :: "FIFOFile \<Rightarrow> (((nat \<times> nat) \<times> u8 list) list \<times> FIFOFile) option" where
  "processFIFO f =
    (if hasFIFOElement_noLock f \<and> pendingRead f \<noteq> [] then
       (case popFIFOElement_noLock f of None \<Rightarrow> None
        | Some (e, f) \<Rightarrow> (case popFIFORequest_noLock f of None \<Rightarrow> None
          | Some (r, f) \<Rightarrow> map_option (\<lambda>(out, f'). ((r, copyFIFOElement f e (snd r)) # out, f')) (processFIFO f)))
     else Some ([], f))"
  by pat_completeness auto
termination
  by (relation "measure (\<lambda>f. length (pendingRead f))") (auto dest!: popFIFORequest_smaller popFIFOElement_pendingRead)

declare processFIFO.simps [simp del]

definition readFIFOFile :: "nat \<Rightarrow> nat \<Rightarrow> FIFOFile \<Rightarrow> (((nat \<times> nat) \<times> u8 list) list \<times> FIFOFile) option" where
  "readFIFOFile r n f = processFIFO (pushRWFIFORequest_noLock r n f)"

definition directWriteFIFOFile :: "bool \<Rightarrow> nat \<Rightarrow> u8 list \<Rightarrow> FIFOFile \<Rightarrow> (bool \<times> ((nat \<times> nat) \<times> u8 list) list \<times> FIFOFile) option" where
  "directWriteFIFOFile memoryOK e buf f =
    (if \<not> memoryOK then Some (False, [], f)
     else do {
       f \<leftarrow> pushFIFOElement_noLock e (createFIFOElement e buf f);
       (out, f) \<leftarrow> processFIFO f;
       Some (True, out, f)
     })"

definition popOrNone :: "FIFOFile \<Rightarrow> (nat option \<times> FIFOFile) option" where
  "popOrNone f = (if hasFIFOElement_noLock f then map_option (\<lambda>(e, f). (Some e, f)) (popFIFOElement_noLock f) else Some (None, f))"

text \<open>The loop of \<open>closeFIFOFile\<close> deletes the elements one by one, then no read may be pending. Its fuel is the number of elements.\<close>

fun closeLoop :: "nat \<Rightarrow> FIFOFile \<Rightarrow> FIFOFile option" where
  "closeLoop 0 f = None"
| "closeLoop (Suc k) f = (case popOrNone f of None \<Rightarrow> None | Some (None, f) \<Rightarrow> Some f | Some (Some e, f) \<Rightarrow> closeLoop k f)"

definition closeFIFOFile :: "nat \<Rightarrow> FIFOFile \<Rightarrow> FIFOFile option" where
  "closeFIFOFile k f = do {
    f \<leftarrow> closeLoop k f;
    kassert (pendingRead f = []);
    Some f
  }"

definition openFIFOFile :: "nat \<Rightarrow> FIFOFile option" where
  "openFIFOFile nameLength = (if nameLength \<noteq> 0 then None
    else Some \<lparr>headElement = None, tailElement = None, nextElement = (\<lambda>e. None), content = (\<lambda>e. []), pendingRead = []\<rparr>)"

section \<open>The linked list is a queue\<close>

fun linked :: "(nat \<Rightarrow> nat option) \<Rightarrow> nat list \<Rightarrow> bool" where
  "linked n [] \<longleftrightarrow> True"
| "linked n [e] \<longleftrightarrow> n e = None"
| "linked n (e # e' # es) \<longleftrightarrow> n e = Some e' \<and> linked n (e' # es)"

definition fifo_rep :: "FIFOFile \<Rightarrow> nat list \<Rightarrow> bool" where
  "fifo_rep f es \<longleftrightarrow> distinct es \<and> linked (nextElement f) es \<and>
    headElement f = (if es = [] then None else Some (hd es)) \<and> tailElement f = (if es = [] then None else Some (last es))"

lemma linked_upd: "x \<notin> set es \<Longrightarrow> linked (n(x := y)) es = linked n es"
  by (induction n es rule: linked.induct) auto

lemma linked_snoc: "linked n es \<Longrightarrow> es \<noteq> [] \<Longrightarrow> distinct (es @ [e]) \<Longrightarrow> linked (n(e := None, last es := Some e)) (es @ [e])"
proof (induction es)
  case (Cons x es)
  then show ?case by (cases es) (auto simp: fun_upd_twist)
qed simp

lemma linked_tl: "linked n (e # es) \<Longrightarrow> linked n es \<and> n e = (if es = [] then None else Some (hd es))"
  by (cases es) auto

lemma push_rep':
  assumes "fifo_rep f es" "e \<notin> set es"
  shows "\<exists>f'. pushFIFOElement_noLock e f = Some f' \<and> fifo_rep f' (es @ [e]) \<and> content f' = content f \<and> pendingRead f' = pendingRead f"
proof (cases "es = []")
  case True
  then show ?thesis using assms by (auto simp: fifo_rep_def pushFIFOElement_noLock_def Let_def)
next
  case False
  then show ?thesis using assms linked_snoc [of "nextElement f" es e]
    by (auto simp: fifo_rep_def pushFIFOElement_noLock_def Let_def)
qed

lemma pop_rep':
  assumes "fifo_rep f (e # es)"
  shows "\<exists>f'. popFIFOElement_noLock f = Some (e, f') \<and> fifo_rep f' es \<and> content f' = content f \<and> pendingRead f' = pendingRead f"
  using assms linked_tl [of "nextElement f" e es] by (auto simp: fifo_rep_def popFIFOElement_noLock_def linked_upd)

interpretation fl: fifo_queue fifo_rep pushFIFOElement_noLock popOrNone
proof (unfold_locales, goal_cases)
  case (1 f es e)
  then show ?case using push_rep' by blast
next
  case (2 f e es)
  then show ?case using pop_rep' [OF 2] by (auto simp: popOrNone_def hasFIFOElement_noLock_def fifo_rep_def)
next
  case (3 f)
  then show ?case by (simp add: popOrNone_def hasFIFOElement_noLock_def fifo_rep_def)
qed

lemma closeLoop_rep: "fifo_rep f es \<Longrightarrow> length es < k \<Longrightarrow> \<exists>f'. closeLoop k f = Some f' \<and> fifo_rep f' [] \<and> pendingRead f' = pendingRead f"
proof (induction es arbitrary: f k)
  case Nil
  then show ?case using fl.pop_empty [OF Nil(1)] by (cases k) auto
next
  case (Cons e es)
  obtain f1 where "popFIFOElement_noLock f = Some (e, f1)" "fifo_rep f1 es" "pendingRead f1 = pendingRead f" using pop_rep' [OF Cons.prems(1)] by blast
  moreover have "hasFIFOElement_noLock f" using Cons.prems(1) by (simp add: fifo_rep_def hasFIFOElement_noLock_def)
  ultimately show ?case using Cons.IH [of f1 "k - 1"] Cons.prems(2) by (cases k) (auto simp: popOrNone_def)
qed
section \<open>Histories of a FIFO file\<close>

lemma processFIFO_rep:
  assumes "fifo_rep f es"
  shows "\<exists>f'. processFIFO f = Some (map (\<lambda>(r, e). (r, take (snd r) (content f e))) (zip (pendingRead f) es), f') \<and>
    fifo_rep f' (drop (length (pendingRead f)) es) \<and> pendingRead f' = drop (length es) (pendingRead f) \<and> content f' = content f"
  using assms
proof (induction es arbitrary: f)
  case Nil
  then show ?case by (subst processFIFO.simps) (simp add: fifo_rep_def hasFIFOElement_noLock_def)
next
  case (Cons e es)
  have h: "hasFIFOElement_noLock f" using Cons.prems by (simp add: fifo_rep_def hasFIFOElement_noLock_def)
  obtain f1 where f1: "popFIFOElement_noLock f = Some (e, f1)" "fifo_rep f1 es" "content f1 = content f" "pendingRead f1 = pendingRead f"
    using pop_rep' [OF Cons.prems] by blast
  show ?case
  proof (cases "pendingRead f")
    case Nil
    then show ?thesis using Cons.prems by (subst processFIFO.simps) simp
  next
    case (Cons r rs)
    let ?f2 = "f1\<lparr>pendingRead := rs\<rparr>"
    have "fifo_rep ?f2 es" using f1(2) by (simp add: fifo_rep_def)
    from Cons.IH [OF this] obtain f' where f': "processFIFO ?f2 = Some (map (\<lambda>(r, e). (r, take (snd r) (content f e))) (zip rs es), f')"
      "fifo_rep f' (drop (length rs) es)" "pendingRead f' = drop (length es) rs" "content f' = content f" using f1(3) by auto
    have "processFIFO f = Some ((r, take (snd r) (content f e)) # map (\<lambda>(r, e). (r, take (snd r) (content f e))) (zip rs es), f')"
      using h f1 f'(1) Cons by (subst processFIFO.simps) (simp add: popFIFORequest_noLock_def copyFIFOElement_def min_def)
    then show ?thesis using f' Cons by simp
  qed
qed

datatype fifo_call =
    ReadCall nat nat
  | WriteCall "u8 list" bool
  | CancelCall nat

text \<open>The calls in order; the \<open>n\<close>-th call, if it writes, allocates the element \<open>n\<close>.\<close>

fun fifoCall :: "nat \<Rightarrow> fifo_call \<Rightarrow> FIFOFile \<Rightarrow> (((nat \<times> nat) \<times> u8 list) list \<times> FIFOFile) option" where
  "fifoCall n (ReadCall r k) f = readFIFOFile r k f"
| "fifoCall n (WriteCall buf ok) f = map_option snd (directWriteFIFOFile ok n buf f)"
| "fifoCall n (CancelCall r) f = Some ([], cancelReadFIFO r f)"

fun fifoRun :: "nat \<Rightarrow> fifo_call list \<Rightarrow> FIFOFile \<Rightarrow> (((nat \<times> nat) \<times> u8 list) list \<times> FIFOFile) option" where
  "fifoRun n [] f = Some ([], f)"
| "fifoRun n (c # cs) f = do {
    (out, f) \<leftarrow> fifoCall n c f;
    (out', f) \<leftarrow> fifoRun (Suc n) cs f;
    Some (out @ out', f)
  }"

fun writtenBy :: "fifo_call \<Rightarrow> u8 list list" where
  "writtenBy (WriteCall buf True) = [buf]"
| "writtenBy _ = []"

fun readBy :: "fifo_call \<Rightarrow> (nat \<times> nat) list" where
  "readBy (ReadCall r k) = [(r, k)]"
| "readBy _ = []"

text \<open>The file holds the elements \<open>w\<close>, and no read waits while there is one.\<close>

definition fifo_file :: "nat \<Rightarrow> u8 list list \<Rightarrow> FIFOFile \<Rightarrow> bool" where
  "fifo_file n w f \<longleftrightarrow> (\<exists>es. fifo_rep f es \<and> map (content f) es = w \<and> set es \<subseteq> {..<n}) \<and> (w = [] \<or> pendingRead f = [])"

definition served :: "((nat \<times> nat) \<times> u8 list) list \<Rightarrow> u8 list list \<Rightarrow> bool" where
  "served out w \<longleftrightarrow> length out \<le> length w \<and> map snd out = map (\<lambda>(r, d). take (snd r) d) (zip (map fst out) w)"

lemma fifo_file_process:
  assumes "fifo_rep f es" "set es \<subseteq> {..<n}"
  shows "\<exists>out f'. processFIFO f = Some (out, f') \<and> served out (map (content f) es) \<and> fifo_file n (drop (length out) (map (content f) es)) f' \<and>
    mset (map fst out) + mset (pendingRead f') = mset (pendingRead f)"
proof -
  obtain f' where f': "processFIFO f = Some (map (\<lambda>(r, e). (r, take (snd r) (content f e))) (zip (pendingRead f) es), f')"
    "fifo_rep f' (drop (length (pendingRead f)) es)" "pendingRead f' = drop (length es) (pendingRead f)" "content f' = content f"
    using processFIFO_rep [OF assms(1)] by blast
  let ?out = "map (\<lambda>(r, e). (r, take (snd r) (content f e))) (zip (pendingRead f) es)"
  have "map fst ?out = take (length es) (pendingRead f)"
    by (simp add: comp_def case_prod_beta map_fst_zip_take) (simp add: min_def)
  moreover have "map snd ?out = map (\<lambda>(r, d). take (snd r) d) (zip (take (length es) (pendingRead f)) (map (content f) es))"
    by (rule nth_equalityI) auto
  moreover have "drop (length ?out) (map (content f) es) = map (content f') (drop (length (pendingRead f)) es)"
    using f'(4) by (cases "length es \<le> length (pendingRead f)") (simp_all add: drop_map min_def)
  moreover have "drop (length (pendingRead f)) es = [] \<or> drop (length es) (pendingRead f) = []" by auto
  moreover have "set (drop (length (pendingRead f)) es) \<subseteq> {..<n}" using assms(2) set_drop_subset by (metis subset_trans)
  ultimately show ?thesis using f' by (intro exI [of _ ?out] exI [of _ f']) (auto simp: served_def fifo_file_def simp flip: mset_append)
qed

lemma served_append:
  assumes "served out1 w1" "served out2 (drop (length out1) w1 @ w2)"
  shows "served (out1 @ out2) (w1 @ w2)"
proof -
  have w: "w1 @ w2 = take (length out1) w1 @ (drop (length out1) w1 @ w2)" by simp
  have l: "length (take (length out1) w1) = length out1" using assms(1) by (simp add: served_def)
  have "zip (map fst out1) w1 = zip (map fst out1) (take (length out1) w1)" by (rule nth_equalityI) auto
  then have "map (\<lambda>(r, d). take (snd r) d) (zip (map fst (out1 @ out2)) (w1 @ w2)) = map snd out1 @ map snd out2"
    using assms l unfolding w by (simp add: served_def zip_append)
  moreover have "length (out1 @ out2) \<le> length (w1 @ w2)" using assms by (simp add: served_def) linarith
  ultimately show ?thesis by (simp add: served_def)
qed

lemma fifoCall_ok:
  assumes "fifo_file n w f"
  shows "\<exists>out f'. fifoCall n c f = Some (out, f') \<and> served out (w @ writtenBy c) \<and> fifo_file (Suc n) (drop (length out) (w @ writtenBy c)) f' \<and>
    mset (map fst out) + mset (pendingRead f') \<subseteq># mset (pendingRead f) + mset (readBy c)"
proof -
  obtain es where es: "fifo_rep f es" "map (content f) es = w" "set es \<subseteq> {..<n}" and p: "w = [] \<or> pendingRead f = []"
    using assms by (auto simp: fifo_file_def)
  have sub: "set es \<subseteq> {..<Suc n}" using es(3) by auto
  show ?thesis
  proof (cases c)
    case (ReadCall r k)
    have "fifo_rep (pushRWFIFORequest_noLock r k f) es" using es(1) by (simp add: fifo_rep_def pushRWFIFORequest_noLock_def)
    from fifo_file_process [OF this sub] show ?thesis using ReadCall es(2)
      by (auto simp: readFIFOFile_def pushRWFIFORequest_noLock_def)
  next
    case (WriteCall buf ok)
    show ?thesis
    proof (cases ok)
      case True
      let ?g = "createFIFOElement n buf f"
      have n: "n \<notin> set es" using es(3) by auto
      have "fifo_rep ?g es" using es(1) n by (simp add: fifo_rep_def createFIFOElement_def linked_upd)
      then obtain h where h: "pushFIFOElement_noLock n ?g = Some h" "fifo_rep h (es @ [n])" "content h = content ?g" "pendingRead h = pendingRead ?g"
        using push_rep' n by blast
      have c: "map (content h) (es @ [n]) = w @ [buf]" using n es(2) h(3) by (auto simp: createFIFOElement_def)
      obtain out f' where "processFIFO h = Some (out, f')" "served out (w @ [buf])" "fifo_file (Suc n) (drop (length out) (w @ [buf])) f'"
        "mset (map fst out) + mset (pendingRead f') = mset (pendingRead h)"
        using fifo_file_process [OF h(2), of "Suc n"] sub c by auto
      then show ?thesis using WriteCall True h by (auto simp: directWriteFIFOFile_def createFIFOElement_def)
    next
      case False
      then show ?thesis using WriteCall es sub p by (auto simp: directWriteFIFOFile_def served_def fifo_file_def)
    qed
  next
    case (CancelCall r)
    have "fifo_rep (cancelReadFIFO r f) es" using es(1) by (simp add: fifo_rep_def cancelReadFIFO_def)
    then show ?thesis using CancelCall es(2) sub p by (auto simp: cancelReadFIFO_def served_def fifo_file_def multiset_filter_subset)
  qed
qed

lemma fifoRun_ok:
  "fifo_file n w f \<Longrightarrow> \<exists>out f'. fifoRun n cs f = Some (out, f') \<and> served out (w @ concat (map writtenBy cs)) \<and>
    fifo_file (n + length cs) (drop (length out) (w @ concat (map writtenBy cs))) f' \<and>
    mset (map fst out) + mset (pendingRead f') \<subseteq># mset (pendingRead f) + mset (concat (map readBy cs))"
proof (induction cs arbitrary: n w f)
  case Nil
  then show ?case by (auto simp: served_def)
next
  case (Cons c cs)
  obtain o1 f1 where c: "fifoCall n c f = Some (o1, f1)" "served o1 (w @ writtenBy c)" "fifo_file (Suc n) (drop (length o1) (w @ writtenBy c)) f1"
    "mset (map fst o1) + mset (pendingRead f1) \<subseteq># mset (pendingRead f) + mset (readBy c)" using fifoCall_ok [OF Cons.prems] by blast
  let ?w1 = "drop (length o1) (w @ writtenBy c)" and ?ws = "concat (map writtenBy cs)"
  obtain o2 f2 where r: "fifoRun (Suc n) cs f1 = Some (o2, f2)" "served o2 (?w1 @ ?ws)" "fifo_file (Suc n + length cs) (drop (length o2) (?w1 @ ?ws)) f2"
    "mset (map fst o2) + mset (pendingRead f2) \<subseteq># mset (pendingRead f1) + mset (concat (map readBy cs))" using Cons.IH [OF c(3)] by blast
  have "length o1 \<le> length (w @ writtenBy c)" using c(2) by (simp add: served_def)
  then have "drop (length o1) ((w @ writtenBy c) @ ?ws) = ?w1 @ ?ws" by (simp only: drop_append) simp
  then have d: "drop (length o2) (?w1 @ ?ws) = drop (length (o1 @ o2)) (w @ concat (map writtenBy (c # cs)))"
    using drop_drop [of "length o2" "length o1" "(w @ writtenBy c) @ ?ws"] by (simp only: append.assoc list.map concat.simps length_append add.commute)
  have "mset (map fst (o1 @ o2)) + mset (pendingRead f2) \<subseteq># mset (map fst o1) + (mset (pendingRead f1) + mset (concat (map readBy cs)))"
    using r(4) by (simp add: add.assoc)
  also have "\<dots> \<subseteq># mset (pendingRead f) + mset (readBy c) + mset (concat (map readBy cs))" using c(4) by (simp add: add.assoc [symmetric])
  finally have m: "mset (map fst (o1 @ o2)) + mset (pendingRead f2) \<subseteq># mset (pendingRead f) + mset (concat (map readBy (c # cs)))" by (simp add: add.assoc)
  have "served (o1 @ o2) (w @ concat (map writtenBy (c # cs)))" using served_append [OF c(2) r(2)] by simp
  then show ?case using c(1) r(1,3) d m by (intro exI [of _ "o1 @ o2"] exI [of _ f2]) simp
qed


text \<open>Reads that wait are served last in, first out.\<close>

lemma pending_reads_last_first:
  "map_option (map fst \<circ> fst) (openFIFOFile 0 \<bind> fifoRun 0 [ReadCall 1 4, ReadCall 2 4, WriteCall [9] True]) = Some [(2, 4)]"
  by (simp add: openFIFOFile_def readFIFOFile_def pushRWFIFORequest_noLock_def processFIFO.simps hasFIFOElement_noLock_def directWriteFIFOFile_def
    createFIFOElement_def pushFIFOElement_noLock_def popFIFOElement_noLock_def popFIFORequest_noLock_def Let_def)

end
