(* ===== verification/KernelFile.thy ===== *)
theory KernelFile
  imports CommonLib
begin

text \<open>
  The files linked into the kernel image, \<open>kernel/file/kernelfs.c\<close>: lookup by name, reading, and enumeration. The array \<open>blobList\<close> is
  generated by the build; it is a parameter: a list of names and contents, stored at the address \<open>base\<close>.
\<close>

record BLOBAddress =
  blobName :: "u8 list"
  blobData :: "u8 list"

abbreviation (input) sizeof_BLOBAddress :: nat where "sizeof_BLOBAddress \<equiv> 12"
abbreviation (input) sizeof_FileEnumeration :: u32 where "sizeof_FileEnumeration \<equiv> 92"

definition computeCopySize :: "u32 \<Rightarrow> u64 \<Rightarrow> u32 \<Rightarrow> u32" where
  "computeCopySize fileSize offset64 bufferSize = (if offset64 > ucast fileSize then 0 else min bufferSize (fileSize - ucast offset64))"

text \<open>The bytes read; the offset of the file advances by their number.\<close>

definition seekReadKFS :: "BLOBAddress \<Rightarrow> u64 \<Rightarrow> u32 \<Rightarrow> u8 list" where
  "seekReadKFS f offset64 bufferSize =
    take (unat (computeCopySize (of_nat (length (blobData f))) offset64 bufferSize)) (drop (unat (ucast offset64 :: u32)) (blobData f))"

text \<open>\<open>enumReadKFS\<close>: \<open>Refused\<close> is the result \<open>IO_REQUEST_FAILURE\<close>, \<open>NoMore\<close> a read of size 0; both otherwise advance the offset by one
  entry. The outer \<open>None\<close> is a failed assertion. Addresses wrap around at 32 bits.\<close>

datatype enum_result = Refused | Named "u8 list" | NoMore

definition enumReadKFS :: "u32 \<Rightarrow> BLOBAddress list \<Rightarrow> u64 \<Rightarrow> u32 \<Rightarrow> (enum_result \<times> u64) option" where
  "enumReadKFS base blobs offset bufferSize =
    (if bufferSize < sizeof_FileEnumeration then Some (Refused, offset)
     else let entry = base + ucast offset; fin = base + of_nat (sizeof_BLOBAddress * length blobs) in do {
       kassert ((fin - entry) mod of_nat sizeof_BLOBAddress = 0);
       if fin > entry then Some (Named (blobName (blobs ! (unat (ucast offset :: u32) div sizeof_BLOBAddress))), offset + of_nat sizeof_BLOBAddress)
       else Some (NoMore, offset + of_nat sizeof_BLOBAddress)
     })"

definition getKFSParameter :: "BLOBAddress \<Rightarrow> nat \<Rightarrow> nat option" where
  "getKFSParameter f parameterCode = (if parameterCode = 0x10 then Some (length (blobData f)) else None)"

definition findByName :: "BLOBAddress list \<Rightarrow> u8 list \<Rightarrow> BLOBAddress option" where
  "findByName blobs name = find (\<lambda>f. strncmp (cstr name) (cstr (blobName f)) (length name) = Some 0) blobs"

datatype opened_kfs = BLOBFile BLOBAddress | Directory

definition openKFS :: "bool \<Rightarrow> BLOBAddress list \<Rightarrow> u8 list \<Rightarrow> bool \<Rightarrow> opened_kfs option" where
  "openKFS memoryOK blobs name enum =
    (case (if \<not> enum then map_option BLOBFile (findByName blobs name) else if name = [] then Some Directory else None) of
       None \<Rightarrow> None
     | Some f \<Rightarrow> if memoryOK then Some f else None)"

section \<open>Reading\<close>

text \<open>\<open>seekReadByOffset\<close>: a program that reads a file again and again at the offset of the opened file.\<close>

fun readKFSs :: "BLOBAddress \<Rightarrow> u64 \<Rightarrow> u32 list \<Rightarrow> u8 list" where
  "readKFSs f offset [] = []"
| "readKFSs f offset (n # ns) = (let bs = seekReadKFS f offset n in bs @ readKFSs f (offset + of_nat (length bs)) ns)"

lemma ucast_of_nat_down: "n < 2 ^ 32 \<Longrightarrow> (ucast (of_nat n :: u64) :: u32) = of_nat n"
  by (simp add: unsigned_of_nat take_bit_nat_eq_self)

lemma seekReadKFS_part:
  assumes "length (blobData f) < 2 ^ 32" "unat off \<le> length (blobData f)"
  shows "seekReadKFS f off n = take (unat n) (drop (unat off) (blobData f))"
proof -
  let ?l = "length (blobData f)"
  have o: "unat (ucast off :: u32) = unat off" using assms by (simp add: unsigned_ucast_eq take_bit_nat_eq_self)
  have "(ucast (of_nat ?l :: u32) :: u64) = of_nat ?l" using assms(1) by (simp add: unsigned_of_nat take_bit_nat_eq_self)
  then have "\<not> off > ucast (of_nat ?l :: u32)" using assms by (simp add: word_less_nat_alt unat_of_nat_small)
  then have "unat (computeCopySize (of_nat ?l) off n) = min (unat n) (?l - unat off)"
    using assms o by (simp add: computeCopySize_def min_def word_le_nat_alt unat_sub unat_of_nat_small)
  then show ?thesis using o by (simp add: seekReadKFS_def min_def)
qed

lemma seekReadKFS_past_end:
  assumes "length (blobData f) < 2 ^ 32" "length (blobData f) \<le> unat off"
  shows "seekReadKFS f off n = []"
proof -
  have "(ucast (of_nat (length (blobData f)) :: u32) :: u64) = of_nat (length (blobData f))" using assms(1) by (simp add: unsigned_of_nat take_bit_nat_eq_self)
  then have "off > ucast (of_nat (length (blobData f)) :: u32) \<or> unat off = length (blobData f)"
    using assms by (auto simp: word_less_nat_alt unat_of_nat_small)
  then show ?thesis
  proof
    assume "unat off = length (blobData f)"
    then show ?thesis using seekReadKFS_part [OF assms(1), of off n] by simp
  qed (simp add: seekReadKFS_def computeCopySize_def)
qed

lemma readKFSs_part:
  assumes "length (blobData f) < 2 ^ 32" "unat off \<le> length (blobData f)"
  shows "readKFSs f off ns = take (sum_list (map unat ns)) (drop (unat off) (blobData f))"
  using assms(2)
proof (induction ns arbitrary: off)
  case (Cons n ns)
  let ?bs = "take (unat n) (drop (unat off) (blobData f))"
  have le: "unat off + length ?bs \<le> length (blobData f)" using Cons.prems by simp
  have "unat (off + of_nat (length ?bs)) = unat off + length ?bs"
    using le assms(1) by (subst unat_add_lem [THEN iffD1]) (simp_all add: unat_of_nat_small)
  then show ?case using seekReadKFS_part [OF assms(1) Cons.prems] Cons.IH [of "off + of_nat (length ?bs)"] le
    by (simp add: Let_def take_add min_def add.commute)
qed simp

section \<open>Enumeration\<close>

text \<open>A name opens the first file that begins with it.\<close>

lemma findByName_prefix:
  assumes "0 \<notin> set name" "\<forall>f\<in>set blobs. 0 \<notin> set (blobName f)"
  shows "findByName blobs name = find (\<lambda>f. take (length name) (blobName f) = name) blobs"
proof -
  have "strncmp (cstr name) (cstr (blobName f)) (length name) = Some 0 \<longleftrightarrow> take (length name) (blobName f) = name" if f: "f \<in> set blobs" for f
  proof -
    have z: "\<forall>k<length name. cstr name k \<noteq> 0" using assms(1) by (auto simp: cstr_def) (metis nth_mem)
    have "(\<forall>k<length name. cstr name k = cstr (blobName f) k) \<longleftrightarrow> take (length name) (blobName f) = name"
    proof
      assume e: "\<forall>k<length name. cstr name k = cstr (blobName f) k"
      then have "length name \<le> length (blobName f)" using z by (cases "length name \<le> length (blobName f)") (auto simp: cstr_def dest!: spec [of _ "length (blobName f)"])
      then show "take (length name) (blobName f) = name" using e by (intro nth_equalityI) (auto simp: cstr_def)
    next
      assume t: "take (length name) (blobName f) = name"
      then have "length name \<le> length (blobName f)" by (metis length_take min.cobounded1)
      then show "\<forall>k<length name. cstr name k = cstr (blobName f) k" using t by (auto simp: cstr_def) (metis nth_take)
    qed
    then show ?thesis using strncmp_eq_0 [OF z] by simp
  qed
  then show ?thesis unfolding findByName_def by (intro find_cong) auto
qed

lemma mod_12: "unat (x :: u32) = 12 * k \<Longrightarrow> x mod 12 = 0"
proof -
  assume "unat x = 12 * k"
  then have "unat (x mod 12) = 0" by (simp add: unat_mod)
  then show ?thesis by (simp only: unat_eq_zero)
qed

lemma enumReadKFS_entry:
  assumes "unat base + 12 * length blobs < 2 ^ 32" "i < length blobs" "bufferSize \<ge> sizeof_FileEnumeration"
  shows "enumReadKFS base blobs (of_nat (12 * i)) bufferSize = Some (Named (blobName (blobs ! i)), of_nat (12 * (i + 1)))"
proof -
  have s: "12 * i < 2 ^ 32" "12 * length blobs < 2 ^ 32" using assms by simp_all
  have o: "(ucast (of_nat (12 * i) :: u64) :: u32) = of_nat (12 * i)" by (rule ucast_of_nat_down [OF s(1)])
  have e: "unat (base + of_nat (12 * i)) = unat base + 12 * i" using assms s by (subst unat_add_lem [THEN iffD1]) (simp_all add: unat_of_nat_small del: of_nat_mult)
  have f: "unat (base + of_nat (12 * length blobs)) = unat base + 12 * length blobs"
    using assms s by (subst unat_add_lem [THEN iffD1]) (simp_all add: unat_of_nat_small del: of_nat_mult)
  have lt: "base + of_nat (12 * i) < base + of_nat (12 * length blobs)" using e f assms(2) by (simp add: word_less_nat_alt del: of_nat_mult)
  then have "unat (base + of_nat (12 * length blobs) - (base + of_nat (12 * i))) = 12 * (length blobs - i)"
    using e f by (subst unat_sub) (simp_all add: less_imp_le del: of_nat_mult)
  then have m: "(base + of_nat (12 * length blobs) - (base + of_nat (12 * i))) mod 12 = 0" by (rule mod_12)
  have u: "unat (of_nat (12 * i) :: u32) div 12 = i" using s(1) unat_of_nat_small [of "12 * i", where 'a = 32] by (simp del: of_nat_mult)
  have n: "of_nat (12 * i) + of_nat 12 = (of_nat (12 * (i + 1)) :: u64)" by simp
  show ?thesis using assms(3) lt m unfolding enumReadKFS_def o Let_def u n by (simp del: of_nat_mult of_nat_add diff_add_eq)
qed

lemma enumReadKFS_end:
  assumes "length blobs * 12 + 12 < 2 ^ 32" "bufferSize \<ge> sizeof_FileEnumeration"
  shows "enumReadKFS base blobs (of_nat (12 * length blobs)) bufferSize = Some (NoMore, of_nat (12 * length blobs + 12))"
    "enumReadKFS base blobs (of_nat (12 * length blobs + 12)) bufferSize = None"
proof -
  let ?l = "12 * length blobs"
  have "(ucast (of_nat ?l :: u64) :: u32) = of_nat ?l" "(ucast (of_nat (?l + 12) :: u64) :: u32) = of_nat (?l + 12)"
    using assms(1) by (intro ucast_of_nat_down; simp)+
  note o = this
  show "enumReadKFS base blobs (of_nat ?l) bufferSize = Some (NoMore, of_nat (?l + 12))"
    using assms(2) unfolding enumReadKFS_def o Let_def by simp
  have "base + of_nat ?l - (base + of_nat (?l + 12)) = (- 12 :: u32)" by simp
  then have "(base + of_nat ?l - (base + of_nat (?l + 12))) mod 12 = (4 :: u32)" by (simp only:) simp
  then show "enumReadKFS base blobs (of_nat (?l + 12)) bufferSize = None"
    using assms(2) unfolding enumReadKFS_def o Let_def by (simp del: of_nat_mult of_nat_add diff_add_eq)
qed

fun enumKFSs :: "u32 \<Rightarrow> BLOBAddress list \<Rightarrow> u64 \<Rightarrow> u32 \<Rightarrow> nat \<Rightarrow> enum_result list option" where
  "enumKFSs base blobs offset n 0 = Some []"
| "enumKFSs base blobs offset n (Suc k) = do {
    (r, offset) \<leftarrow> enumReadKFS base blobs offset n;
    rs \<leftarrow> enumKFSs base blobs offset n k;
    Some (r # rs)
  }"

lemma enumKFSs_from:
  assumes "unat base + 12 * length blobs < 2 ^ 32" "bufferSize \<ge> sizeof_FileEnumeration" "i \<le> length blobs"
  shows "enumKFSs base blobs (of_nat (12 * i)) bufferSize (length blobs - i + k) =
    map_option ((@) (map (\<lambda>f. Named (blobName f)) (drop i blobs))) (enumKFSs base blobs (of_nat (12 * length blobs)) bufferSize k)"
  using assms(3)
proof (induction "length blobs - i" arbitrary: i)
  case 0
  then show ?case by (simp add: option.map_ident)
next
  case (Suc m)
  then have i: "i < length blobs" "m = length blobs - Suc i" by simp_all
  have "enumKFSs base blobs (of_nat (12 * (i + 1))) bufferSize (length blobs - Suc i + k) =
    map_option ((@) (map (\<lambda>f. Named (blobName f)) (drop (Suc i) blobs))) (enumKFSs base blobs (of_nat (12 * length blobs)) bufferSize k)"
    using Suc(1) [of "Suc i"] i by simp
  moreover have "length blobs - i + k = Suc (length blobs - Suc i + k)" "drop i blobs = blobs ! i # drop (Suc i) blobs"
    using i by (simp_all add: Cons_nth_drop_Suc)
  ultimately show ?case
    using enumReadKFS_entry [OF assms(1) i(1) assms(2)]
    by (cases "enumKFSs base blobs (of_nat (12 * length blobs)) bufferSize k") (simp_all del: of_nat_mult)
qed

text \<open>Reading the directory of the kernel files gives the names of all files in order and then reports the end; but reading once more
  after that fails an assertion: the offset has been moved behind the end of the table, and the distance, taken modulo \<open>2 ^ 32\<close>, is not
  a multiple of the size of an entry.\<close>

lemma kfs_enumeration:
  assumes "unat base + 12 * length blobs < 2 ^ 32" "length blobs * 12 + 12 < 2 ^ 32" "bufferSize \<ge> sizeof_FileEnumeration"
  shows "enumKFSs base blobs 0 bufferSize (length blobs + 1) = Some (map (\<lambda>f. Named (blobName f)) blobs @ [NoMore]) \<and>
    enumKFSs base blobs 0 bufferSize (length blobs + 2) = None"
  using enumKFSs_from [OF assms(1,3), of 0 1] enumKFSs_from [OF assms(1,3), of 0 2] enumReadKFS_end [OF assms(2,3), of base]
  by (simp add: eval_nat_numeral)

end
