(* ===== verification/FileService.thy ===== *)
theory FileService
  imports IORequest CommonLib
begin

text \<open>
  Opened files and their requests, \<open>kernel/file/file.c\<close>, over the I/O requests of \<open>IORequest\<close>: the table of file systems, the life of an opened
  file from the system call that opens it to the completion of its closing, and the dispatch of system calls to the functions of the file
  system that has opened the file.

  A file is named by its handle, the address of a member of \<open>OpenedFile\<close>; a request by a number. \<open>openedFiles\<close> and \<open>requests\<close> are the
  objects in memory, \<open>None\<close> where there is none. \<open>mapped\<close> counts the user buffers that are mapped into kernel memory. The requests are
  those of one task. The result \<open>None\<close> of an operation is a failed assertion or the use or release of memory that was released before.

  What a function of a file system does with a request before it returns is an argument: it refuses the request by returning 0, keeps
  it, or has completed it.
\<close>

type_synonym handle = u32

record 'f OpenedFile =
  fileFunctions :: "'f option"
  deleteOnCompletion :: bool
  ioCount :: nat
  offset :: u64
  cfr :: ior
  hasManager :: bool

datatype request_kind = OpenRequest | RWRequest bool | ParameterRequest | CloseRequest

text \<open>The argument of \<open>RWRequest\<close> is the field \<open>updateOffset\<close>.\<close>

record FileIORequest =
  requestKind :: request_kind
  requestFile :: handle
  mappedBuffer :: bool
  returnValues :: "u32 list"

record 'f file_state =
  openedFiles :: "handle \<Rightarrow> 'f OpenedFile option"
  openFileList :: "handle list"
  requests :: "ior \<Rightarrow> FileIORequest option"
  taskIO :: io_task
  mapped :: nat

section \<open>Opened files\<close>

definition setFile :: "handle \<Rightarrow> 'f OpenedFile \<Rightarrow> 'f file_state \<Rightarrow> 'f file_state" where
  "setFile f x s = s\<lparr>openedFiles := (openedFiles s)(f := Some x)\<rparr>"

definition initOpenedFile :: "handle \<Rightarrow> ior \<Rightarrow> 'f file_state \<Rightarrow> 'f file_state" where
  "initOpenedFile f c s = setFile f \<lparr>fileFunctions = None, deleteOnCompletion = True, ioCount = 1, offset = 0, cfr = c, hasManager = False\<rparr> s"

definition addToOpenFileList :: "handle \<Rightarrow> 'f file_state \<Rightarrow> 'f file_state option" where
  "addToOpenFileList f s = do {
    x \<leftarrow> openedFiles s f;
    kassert (\<not> hasManager x);
    Some ((setFile f (x\<lparr>hasManager := True\<rparr>) s)\<lparr>openFileList := f # openFileList s\<rparr>)
  }"

definition removeFromOpenFileList :: "handle \<Rightarrow> 'f file_state \<Rightarrow> 'f file_state option" where
  "removeFromOpenFileList f s = do {
    x \<leftarrow> openedFiles s f;
    kassert (hasManager x);
    Some (s\<lparr>openFileList := remove1 f (openFileList s)\<rparr>)
  }"

definition initOpenedFile2 :: "handle \<Rightarrow> 'f \<Rightarrow> 'f file_state \<Rightarrow> 'f file_state option" where
  "initOpenedFile2 f ff s = do {
    x \<leftarrow> openedFiles s f;
    kassert (ioCount x = 1);
    addToOpenFileList f (setFile f (x\<lparr>deleteOnCompletion := False, fileFunctions := Some ff\<rparr>) s)
  }"

definition isOpenedFileInitialized :: "handle \<Rightarrow> 'f file_state \<Rightarrow> bool" where
  "isOpenedFileInitialized f s \<longleftrightarrow> f \<in> set (openFileList s)"

definition setFileClosing :: "handle \<Rightarrow> 'f file_state \<Rightarrow> (bool \<times> 'f file_state) option" where
  "setFileClosing f s = do {
    x \<leftarrow> openedFiles s f;
    Some (if \<not> deleteOnCompletion x \<and> ioCount x = 0 then (True, setFile f (x\<lparr>deleteOnCompletion := True, ioCount := 1\<rparr>) s) else (False, s))
  }"

definition addFileIOCount :: "handle \<Rightarrow> int \<Rightarrow> 'f file_state \<Rightarrow> (bool \<times> 'f file_state) option" where
  "addFileIOCount f v s = do {
    x \<leftarrow> openedFiles s f;
    let n = int (ioCount x) + v;
    let doDelete = (deleteOnCompletion x \<and> n = 0);
    let ok = (\<not> deleteOnCompletion x \<or> n = 0);
    if ok then do {
      kassert (ioCount x > 0 \<or> v > 0);
      kassert (doDelete \<longrightarrow> v = - 1);
      Some (True, if doDelete then s\<lparr>openedFiles := (openedFiles s)(f := None)\<rparr> else setFile f (x\<lparr>ioCount := nat n\<rparr>) s)
    } else Some (False, s)
  }"

definition addFileOffset :: "handle \<Rightarrow> u32 \<Rightarrow> 'f file_state \<Rightarrow> 'f file_state option" where
  "addFileOffset f v s = do { x \<leftarrow> openedFiles s f; Some (setFile f (x\<lparr>offset := offset x + ucast v\<rparr>) s) }"

definition searchOpenFileList :: "handle \<Rightarrow> bool \<Rightarrow> 'f file_state \<Rightarrow> (handle option \<times> 'f file_state) option" where
  "searchOpenFileList h isClosing s =
    (if h \<in> set (openFileList s) then do {
       (ok, s) \<leftarrow> (if isClosing then setFileClosing h s else addFileIOCount h 1 s);
       Some (if ok then Some h else None, s)
     } else Some (None, s))"

section \<open>Requests\<close>

definition deleteRequest :: "ior \<Rightarrow> 'f file_state \<Rightarrow> 'f file_state option" where
  "deleteRequest r s = do {
    kassert (requests s r \<noteq> None);
    Some (s\<lparr>requests := (requests s)(r := None)\<rparr>)
  }"

definition unmapKernelBuffer :: "'f file_state \<Rightarrow> 'f file_state option" where
  "unmapKernelBuffer s = do { kassert (0 < mapped s); Some (s\<lparr>mapped := mapped s - 1\<rparr>) }"

definition unmapRequest :: "ior \<Rightarrow> 'f file_state \<Rightarrow> 'f file_state option" where
  "unmapRequest r s = do {
    q \<leftarrow> requests s r;
    s \<leftarrow> unmapKernelBuffer s;
    Some (s\<lparr>requests := (requests s)(r := Some (q\<lparr>mappedBuffer := False\<rparr>))\<rparr>)
  }"

definition beforeDeleteRWFileIO :: "ior \<Rightarrow> 'f file_state \<Rightarrow> 'f file_state option" where
  "beforeDeleteRWFileIO r s = do {
    q \<leftarrow> requests s r;
    kassert (mappedBuffer q);
    unmapRequest r s
  }"

definition beforeDeleteOpenFileIO :: "ior \<Rightarrow> 'f file_state \<Rightarrow> 'f file_state option" where
  "beforeDeleteOpenFileIO r s = do {
    s \<leftarrow> unmapRequest r s;
    q \<leftarrow> requests s r;
    if isOpenedFileInitialized (requestFile q) s then Some s
    else do { x \<leftarrow> openedFiles s (requestFile q); deleteRequest (cfr x) s }
  }"

text \<open>The member \<open>beforeDeleteFileIO\<close> of a request: \<open>defaultBeforeDeleteFileIO\<close> unless it reads or writes.\<close>

definition beforeDeleteFileIO :: "ior \<Rightarrow> 'f file_state \<Rightarrow> 'f file_state option" where
  "beforeDeleteFileIO r s = do {
    q \<leftarrow> requests s r;
    case requestKind q of RWRequest u \<Rightarrow> beforeDeleteRWFileIO r s | _ \<Rightarrow> Some s
  }"

text \<open>The call of \<open>cancelFileIO\<close>, by which the file system forgets the request, does not concern this state.\<close>

definition cancelDeleteFileIO :: "ior \<Rightarrow> 'f file_state \<Rightarrow> 'f file_state option" where
  "cancelDeleteFileIO r s = do {
    s \<leftarrow> beforeDeleteFileIO r s;
    q \<leftarrow> requests s r;
    (ok, s) \<leftarrow> addFileIOCount (requestFile q) (- 1) s;
    kassert ok;
    deleteRequest r s
  }"

definition acceptDeleteFileIO :: "ior \<Rightarrow> 'f file_state \<Rightarrow> (u32 list \<times> 'f file_state) option" where
  "acceptDeleteFileIO r s = do {
    q \<leftarrow> requests s r;
    s \<leftarrow> deleteRequest r s;
    Some (returnValues q, s)
  }"

definition setFileIOFunctions :: "ior \<Rightarrow> bool \<Rightarrow> 'f file_state \<Rightarrow> (bool \<times> 'f file_state) option" where
  "setFileIOFunctions r v s = do {
    let (ok, t) = setCancellable r v (taskIO s);
    kassert (v \<longrightarrow> ok);
    Some (ok, s\<lparr>taskIO := t\<rparr>)
  }"

definition pendFileIO :: "ior \<Rightarrow> 'f file_state \<Rightarrow> 'f file_state option" where
  "pendFileIO r s = do { t \<leftarrow> pendIO r (taskIO s); Some (s\<lparr>taskIO := t\<rparr>) }"

definition cancelFailedFileIO :: "ior \<Rightarrow> 'f file_state \<Rightarrow> 'f file_state option" where
  "cancelFailedFileIO r s = do {
    kassert (\<not> cancellable (taskIO s) r);
    let t = snd (setCancellable r True (taskIO s));
    let (ok, t) = tryCancelIO r t;
    kassert ok;
    cancelDeleteFileIO r (s\<lparr>taskIO := t\<rparr>)
  }"

definition completeFileIO :: "ior \<Rightarrow> u32 list \<Rightarrow> 'f file_state \<Rightarrow> 'f file_state option" where
  "completeFileIO r values s = do {
    kassert (\<not> cancellable (taskIO s) r);
    q \<leftarrow> requests s r;
    (ok, s) \<leftarrow> addFileIOCount (requestFile q) (- 1) s;
    kassert ok;
    t \<leftarrow> completeIO r (taskIO s);
    Some (s\<lparr>requests := (requests s)(r := Some (q\<lparr>returnValues := values\<rparr>)), taskIO := t\<rparr>)
  }"

definition completeRWFileIO :: "ior \<Rightarrow> u32 \<Rightarrow> u32 \<Rightarrow> 'f file_state \<Rightarrow> 'f file_state option" where
  "completeRWFileIO r rwByteCount addOffset s = do {
    s \<leftarrow> beforeDeleteRWFileIO r s;
    q \<leftarrow> requests s r;
    s \<leftarrow> (if requestKind q = RWRequest True then addFileOffset (requestFile q) addOffset s else Some s);
    completeFileIO r [rwByteCount] s
  }"

text \<open>\<open>_completeOpenFile\<close>, with the functions of the file or \<open>None\<close> for \<open>failOpenFile\<close>.\<close>

definition completeOpenFile :: "ior \<Rightarrow> 'f option \<Rightarrow> 'f file_state \<Rightarrow> 'f file_state option" where
  "completeOpenFile r ff s = do {
    q \<leftarrow> requests s r;
    x \<leftarrow> openedFiles s (requestFile q);
    kassert (\<not> hasManager x \<and> mappedBuffer q);
    case ff of
      Some ff \<Rightarrow> do {
        s \<leftarrow> initOpenedFile2 (requestFile q) ff s;
        s \<leftarrow> beforeDeleteOpenFileIO r s;
        completeFileIO r [requestFile q] s
      }
    | None \<Rightarrow> do {
        s \<leftarrow> beforeDeleteOpenFileIO r s;
        completeFileIO r [0] s
      }
  }"

definition completeCloseFile :: "ior \<Rightarrow> 'f file_state \<Rightarrow> 'f file_state option" where
  "completeCloseFile r s = do {
    q \<leftarrow> requests s r;
    x \<leftarrow> openedFiles s (requestFile q);
    kassert (ioCount x = 1);
    s \<leftarrow> removeFromOpenFileList (requestFile q) s;
    completeFileIO r [] s
  }"

definition initFileIO :: "ior \<Rightarrow> request_kind \<Rightarrow> handle \<Rightarrow> bool \<Rightarrow> 'f file_state \<Rightarrow> 'f file_state" where
  "initFileIO r k f m s = s\<lparr>requests := (requests s)(r := Some \<lparr>requestKind = k, requestFile = f, mappedBuffer = m, returnValues = []\<rparr>),
    taskIO := initIORequest r (taskIO s)\<rparr>"

section \<open>System calls\<close>

text \<open>What the function \<open>open\<close> of a file system, or one of the functions of a file, does before it returns.\<close>

datatype 'f open_answer = OpenRefused | OpenKept | Opened 'f | OpenFailed

datatype answer = Refused | Kept | Done "u32 list" u32

text \<open>\<open>createOpenFileRequests\<close>; the three objects are allocated together or not at all, \<open>memoryOK\<close> says which.\<close>

definition createOpenFileRequests :: "bool \<Rightarrow> handle \<Rightarrow> ior \<Rightarrow> ior \<Rightarrow> 'f file_state \<Rightarrow> 'f file_state option" where
  "createOpenFileRequests memoryOK f c r s =
    (if memoryOK then Some (initOpenedFile f c (initFileIO r OpenRequest f True
       (s\<lparr>requests := (requests s)(c := Some \<lparr>requestKind = CloseRequest, requestFile = f, mappedBuffer = False, returnValues = []\<rparr>)\<rparr>)))
     else None)"

definition dispatchFileNameCommand ::
    "'f open_answer \<Rightarrow> bool \<Rightarrow> handle \<Rightarrow> ior \<Rightarrow> ior \<Rightarrow> 'f file_state \<Rightarrow> (ior option \<times> 'f file_state) option" where
  "dispatchFileNameCommand a memoryOK f c r s =
    (case createOpenFileRequests memoryOK f c r s of
       None \<Rightarrow> Some (None, s)
     | Some s \<Rightarrow> do {
         s \<leftarrow> pendFileIO r s;
         case a of
           OpenRefused \<Rightarrow> do { s \<leftarrow> cancelFailedFileIO r s; s \<leftarrow> deleteRequest c s; Some (None, s) }
         | OpenKept \<Rightarrow> Some (Some r, s)
         | Opened ff \<Rightarrow> do { s \<leftarrow> completeOpenFile r (Some ff) s; Some (Some r, s) }
         | OpenFailed \<Rightarrow> do { s \<leftarrow> completeOpenFile r None s; Some (Some r, s) }
       })"

datatype file_call = CloseFile | ReadWrite bool | FileParameter

text \<open>The argument of \<open>ReadWrite\<close> is \<open>updateOffset\<close>: the call is not one of the seeking calls.\<close>

definition dispatchRWFileCommand :: "answer \<Rightarrow> bool \<Rightarrow> bool \<Rightarrow> ior \<Rightarrow> bool \<Rightarrow> handle \<Rightarrow> 'f file_state \<Rightarrow> (ior option \<times> 'f file_state) option" where
  "dispatchRWFileCommand a memoryOK mapOK r updateOffset f s =
    (if \<not> memoryOK \<or> \<not> mapOK then Some (None, s)
     else do {
       s \<leftarrow> pendFileIO r (initFileIO r (RWRequest updateOffset) f True (s\<lparr>mapped := mapped s + 1\<rparr>));
       case a of
         Refused \<Rightarrow> do { s \<leftarrow> cancelFailedFileIO r s; Some (None, s) }
       | Kept \<Rightarrow> Some (Some r, s)
       | Done values addOffset \<Rightarrow> do { s \<leftarrow> completeRWFileIO r (hd (values @ [0])) addOffset s; Some (Some r, s) }
     })"

definition dispatchParameterCommand :: "answer \<Rightarrow> bool \<Rightarrow> ior \<Rightarrow> handle \<Rightarrow> 'f file_state \<Rightarrow> (ior option \<times> 'f file_state) option" where
  "dispatchParameterCommand a memoryOK r f s =
    (if \<not> memoryOK then Some (None, s)
     else do {
       s \<leftarrow> pendFileIO r (initFileIO r ParameterRequest f False s);
       case a of
         Refused \<Rightarrow> do { s \<leftarrow> cancelFailedFileIO r s; Some (None, s) }
       | Kept \<Rightarrow> Some (Some r, s)
       | Done values addOffset \<Rightarrow> do { s \<leftarrow> completeFileIO r values s; Some (Some r, s) }
     })"

definition dispatchCloseCommand :: "answer \<Rightarrow> handle \<Rightarrow> 'f file_state \<Rightarrow> (ior option \<times> 'f file_state) option" where
  "dispatchCloseCommand a f s = do {
    x \<leftarrow> openedFiles s f;
    s \<leftarrow> pendFileIO (cfr x) (initFileIO (cfr x) CloseRequest f False s);
    s \<leftarrow> (case a of Done values addOffset \<Rightarrow> completeCloseFile (cfr x) s | _ \<Rightarrow> Some s);
    kassert (\<not> cancellable (taskIO s) (cfr x));
    Some (Some (cfr x), s)
  }"

definition dispatchFileHandleCommand ::
    "file_call \<Rightarrow> answer \<Rightarrow> bool \<Rightarrow> bool \<Rightarrow> ior \<Rightarrow> handle \<Rightarrow> 'f file_state \<Rightarrow> (ior option \<times> 'f file_state) option" where
  "dispatchFileHandleCommand call a memoryOK mapOK r h s = do {
    (found, s) \<leftarrow> searchOpenFileList h (call = CloseFile) s;
    case found of
      None \<Rightarrow> Some (None, s)
    | Some f \<Rightarrow> do {
        (fior, s) \<leftarrow> (case call of
            CloseFile \<Rightarrow> dispatchCloseCommand a f s
          | ReadWrite updateOffset \<Rightarrow> dispatchRWFileCommand a memoryOK mapOK r updateOffset f s
          | FileParameter \<Rightarrow> dispatchParameterCommand a memoryOK r f s);
        case fior of
          Some r \<Rightarrow> Some (Some r, s)
        | None \<Rightarrow> do {
            kassert (call \<noteq> CloseFile);
            (ok, s) \<leftarrow> addFileIOCount f (- 1) s;
            Some (None, s)
          }
      }
  }"

section \<open>File systems\<close>

record 'f FileSystem =
  fsName :: bytes
  fsNameLength :: nat
  fsOpen :: "bytes \<Rightarrow> nat \<Rightarrow> 'f open_answer"

abbreviation (input) MAX_FILE_SERVICE_NAME_LENGTH :: nat where "MAX_FILE_SERVICE_NAME_LENGTH \<equiv> 12"

text \<open>\<open>addFileSystem\<close>: the list afterwards and whether the call succeeded; \<open>resourceOK\<close> is the result of \<open>createAddResource\<close>.\<close>

definition addFileSystem :: "bool \<Rightarrow> bool \<Rightarrow> (bytes \<Rightarrow> nat \<Rightarrow> 'f open_answer) \<Rightarrow> bytes \<Rightarrow> nat \<Rightarrow> 'f FileSystem list \<Rightarrow> bool \<times> 'f FileSystem list" where
  "addFileSystem memoryOK resourceOK functions name nameLength l =
    (if nameLength \<le> MAX_FILE_SERVICE_NAME_LENGTH \<and> memoryOK
     then (resourceOK, \<lparr>fsName = strncpy (\<lambda>i. 0) name nameLength, fsNameLength = nameLength, fsOpen = functions\<rparr> # l) else (False, l))"

definition searchFileSystem :: "bytes \<Rightarrow> nat \<Rightarrow> 'f FileSystem list \<Rightarrow> 'f FileSystem option" where
  "searchFileSystem name nameLength l = find (\<lambda>fs. isStringEqual (fsName fs) (fsNameLength fs) name nameLength) l"

text \<open>\<open>fileNameToFileSystem\<close>: the file system and the length of its name. \<open>mapOK\<close> is the result of mapping the name.\<close>

definition fileNameToFileSystem ::
    "bool \<Rightarrow> bytes \<Rightarrow> nat \<Rightarrow> 'f FileSystem list \<Rightarrow> 'f file_state \<Rightarrow> (('f FileSystem \<times> nat) option \<times> 'f file_state) option" where
  "fileNameToFileSystem mapOK name nameLength l s =
    (if \<not> mapOK then Some (None, s)
     else let s = s\<lparr>mapped := mapped s + 1\<rparr>; i = indexOf name 0 nameLength 58 in
       case (if i < nameLength then searchFileSystem name i l else None) of
         None \<Rightarrow> do { s \<leftarrow> unmapKernelBuffer s; Some (None, s) }
       | Some fs \<Rightarrow> Some (Some (fs, i), s))"

definition FileNameCommandHandler ::
    "bool \<Rightarrow> bool \<Rightarrow> bytes \<Rightarrow> nat \<Rightarrow> 'f FileSystem list \<Rightarrow> handle \<Rightarrow> ior \<Rightarrow> ior \<Rightarrow>
     'f file_state \<Rightarrow> (ior option \<times> 'f file_state) option" where
  "FileNameCommandHandler mapOK memoryOK name nameLength l f c r s = do {
    (fs, s) \<leftarrow> fileNameToFileSystem mapOK name nameLength l s;
    case fs of
      None \<Rightarrow> Some (None, s)
    | Some (fs, i) \<Rightarrow> do {
        (ior, s) \<leftarrow> dispatchFileNameCommand (fsOpen fs (shift (i + 1) name) (nameLength - i - 1)) memoryOK f c r s;
        case ior of
          None \<Rightarrow> do { s \<leftarrow> unmapKernelBuffer s; Some (None, s) }
        | Some r \<Rightarrow> Some (Some r, s)
      }
  }"

section \<open>The task and the file systems together\<close>

text \<open>The second component are the requests that only the file system may finish, as in \<open>IORequest\<close>: it keeps them and has not offered them
  for cancellation, or it has taken them back.\<close>

type_synonym 'f file_world = "'f file_state \<times> ior set"

definition keeps :: "'f file_world \<Rightarrow> 'f file_state \<Rightarrow> 'f file_world" where
  "keeps w s' = (s', snd w \<union> (set (pendingIOList (taskIO s')) - set (pendingIOList (taskIO (fst w)))))"

text \<open>A file system finishes a request by the function for its kind.\<close>

definition finish :: "'f option \<Rightarrow> u32 list \<Rightarrow> u32 \<Rightarrow> ior \<Rightarrow> 'f file_state \<Rightarrow> 'f file_state option" where
  "finish ff values addOffset r s = do {
    q \<leftarrow> requests s r;
    case requestKind q of
      OpenRequest \<Rightarrow> completeOpenFile r ff s
    | RWRequest u \<Rightarrow> completeRWFileIO r (hd (values @ [0])) addOffset s
    | ParameterRequest \<Rightarrow> completeFileIO r values s
    | CloseRequest \<Rightarrow> completeCloseFile r s
  }"

text \<open>The steps: system calls that no function of a file system refuses except the one that opens, and what file systems and the task do
  with pending and completed requests, in any order. The objects a call allocates are not in use.\<close>

inductive file_step :: "'f file_world \<Rightarrow> 'f file_world option \<Rightarrow> bool" where
  open_call: "f \<noteq> 0 \<Longrightarrow> openedFiles s f = None \<Longrightarrow> requests s c = None \<Longrightarrow> requests s r = None \<Longrightarrow> c \<noteq> r \<Longrightarrow>
    file_step (s, D) (map_option (\<lambda>(res, s'). keeps (s, D) s') (FileNameCommandHandler mapOK memoryOK name nameLength l f c r s))"
| handle_call: "requests s r = None \<Longrightarrow> a \<noteq> Refused \<Longrightarrow>
    file_step (s, D) (map_option (\<lambda>(res, s'). keeps (s, D) s') (dispatchFileHandleCommand call a memoryOK mapOK r h s))"
| finished: "r \<in> D \<Longrightarrow> file_step (s, D) (map_option (\<lambda>s'. (s', D - {r})) (finish ff values addOffset r s))"
| offer: "r \<in> D \<Longrightarrow> map_option requestKind (requests s r) = Some (RWRequest u) \<Longrightarrow>
    file_step (s, D) (map_option (\<lambda>(ok, s'). (s', D - {r})) (setFileIOFunctions r True s))"
| take_back: "r \<in> set (pendingIOList (taskIO s)) \<Longrightarrow>
    file_step (s, D) (map_option (\<lambda>(ok, s'). (s', if ok then insert r D else D)) (setFileIOFunctions r False s))"
| cancel: "cancelIOHandler r (taskIO s) = (True, t) \<Longrightarrow>
    file_step (s, D) (map_option (\<lambda>s'. (s', D)) (cancelDeleteFileIO r (s\<lparr>taskIO := t\<rparr>)))"
| accept: "takeCompleted e (taskIO s) = (Some r, t) \<Longrightarrow>
    file_step (s, D) (map_option (\<lambda>(values, s'). (s', D)) (acceptDeleteFileIO r (s\<lparr>taskIO := t\<rparr>)))"

definition no_files :: "'f file_state" where
  "no_files = \<lparr>openedFiles = (\<lambda>f. None), openFileList = [], requests = (\<lambda>r. None),
    taskIO = \<lparr>pendingIOList = [], completedIOList = [], ioSemaphore = 0, cancellable = (\<lambda>r. False)\<rparr>, mapped = 0\<rparr>"

inductive file_run :: "'f file_world \<Rightarrow> bool" where
  start: "file_run (no_files, {})"
| step: "file_run w \<Longrightarrow> file_step w (Some w') \<Longrightarrow> file_run w'"

section \<open>Invariant\<close>

definition fileOf :: "'f file_state \<Rightarrow> ior \<Rightarrow> handle option" where
  "fileOf s r = map_option requestFile (requests s r)"

definition isMapped :: "'f file_state \<Rightarrow> ior \<Rightarrow> bool" where
  "isMapped s r \<longleftrightarrow> (case requests s r of None \<Rightarrow> False | Some q \<Rightarrow> mappedBuffer q)"

text \<open>The requests on a file that have not been completed or cancelled.\<close>

definition outstanding :: "'f file_state \<Rightarrow> handle \<Rightarrow> nat" where
  "outstanding s f = length (filter (\<lambda>r. fileOf s r = Some f) (pendingIOList (taskIO s)))"

definition lists_ok :: "'f file_world \<Rightarrow> bool" where
  "lists_ok w \<longleftrightarrow> (case w of (s, D) \<Rightarrow> distinct (pendingIOList (taskIO s) @ completedIOList (taskIO s)) \<and> D \<subseteq> set (pendingIOList (taskIO s)) \<and>
    (\<forall>r\<in>set (pendingIOList (taskIO s)). cancellable (taskIO s) r \<longleftrightarrow> r \<notin> D))"

definition request_ok :: "ior \<Rightarrow> FileIORequest \<Rightarrow> 'f OpenedFile \<Rightarrow> bool" where
  "request_ok r q x \<longleftrightarrow> (case requestKind q of
      OpenRequest \<Rightarrow> \<not> hasManager x \<and> mappedBuffer q
    | RWRequest u \<Rightarrow> hasManager x \<and> \<not> deleteOnCompletion x \<and> mappedBuffer q
    | ParameterRequest \<Rightarrow> hasManager x \<and> \<not> deleteOnCompletion x \<and> \<not> mappedBuffer q
    | CloseRequest \<Rightarrow> cfr x = r \<and> \<not> mappedBuffer q)"

definition pending_ok :: "'f file_world \<Rightarrow> bool" where
  "pending_ok w \<longleftrightarrow> (case w of (s, D) \<Rightarrow> \<forall>r\<in>set (pendingIOList (taskIO s)). \<exists>q x. requests s r = Some q \<and> openedFiles s (requestFile q) = Some x \<and>
    request_ok r q x \<and> (r \<notin> D \<longrightarrow> (\<exists>u. requestKind q = RWRequest u)))"

definition file_ok :: "'f file_state \<Rightarrow> handle \<Rightarrow> 'f OpenedFile \<Rightarrow> bool" where
  "file_ok s f x \<longleftrightarrow> ioCount x = outstanding s f \<and> (hasManager x \<longleftrightarrow> f \<in> set (openFileList s)) \<and>
    (\<exists>q. requests s (cfr x) = Some q \<and> requestKind q = CloseRequest \<and> requestFile q = f) \<and> cfr x \<notin> set (completedIOList (taskIO s)) \<and>
    (cfr x \<in> set (pendingIOList (taskIO s)) \<longleftrightarrow> hasManager x \<and> deleteOnCompletion x) \<and>
    (deleteOnCompletion x \<longrightarrow> ioCount x = 1) \<and> (\<not> hasManager x \<longrightarrow> deleteOnCompletion x)"

definition owner_ok :: "'f file_state \<Rightarrow> bool" where
  "owner_ok s \<longleftrightarrow> (\<forall>r\<in>set (completedIOList (taskIO s)). requests s r \<noteq> None) \<and>
    (\<forall>r q. requests s r = Some q \<longrightarrow> r \<in> set (pendingIOList (taskIO s)) \<or> r \<in> set (completedIOList (taskIO s)) \<or>
      (\<exists>x. openedFiles s (requestFile q) = Some x \<and> cfr x = r))"

definition file_inv :: "'f file_world \<Rightarrow> bool" where
  "file_inv w \<longleftrightarrow> (case w of (s, D) \<Rightarrow> lists_ok w \<and> pending_ok w \<and> (\<forall>f x. openedFiles s f = Some x \<longrightarrow> file_ok s f x) \<and>
    distinct (openFileList s) \<and> (\<forall>f\<in>set (openFileList s). openedFiles s f \<noteq> None) \<and> owner_ok s \<and>
    mapped s = length (filter (isMapped s) (pendingIOList (taskIO s))))"

lemma length_filter_remove1:
  assumes "r \<in> set P" "distinct P" "\<forall>r'\<in>set P - {r}. Q' r' = Q r'"
  shows "length (filter Q' (remove1 r P)) = length (filter Q P) - (if Q r then 1 else 0)" "Q r \<Longrightarrow> 0 < length (filter Q P)"
proof -
  have "length (filter Q P) = length (filter Q' (remove1 r P)) + (if Q r then 1 else 0)" using assms
  proof (induction P)
    case (Cons a P)
    then show ?case by (cases "a = r") (auto cong: filter_cong)
  qed simp
  then show "length (filter Q' (remove1 r P)) = length (filter Q P) - (if Q r then 1 else 0)" "Q r \<Longrightarrow> 0 < length (filter Q P)" by auto
qed

lemma outstanding_single:
  assumes "outstanding s f = 1" "r \<in> set (pendingIOList (taskIO s))" "fileOf s r = Some f" "r' \<in> set (pendingIOList (taskIO s))" "fileOf s r' = Some f"
  shows "r' = r"
proof -
  obtain y where "filter (\<lambda>r. fileOf s r = Some f) (pendingIOList (taskIO s)) = [y]" using assms(1) by (auto simp: outstanding_def length_Suc_conv)
  then have "set (filter (\<lambda>r. fileOf s r = Some f) (pendingIOList (taskIO s))) = {y}" by simp
  then have "r \<in> {y}" "r' \<in> {y}" using assms(2-) by (simp_all flip: \<open>set _ = {y}\<close>)
  then show ?thesis by simp
qed

lemma file_invD:
  assumes "file_inv (s, D)"
  shows "distinct (pendingIOList (taskIO s))" "distinct (completedIOList (taskIO s))"
    "set (pendingIOList (taskIO s)) \<inter> set (completedIOList (taskIO s)) = {}" "D \<subseteq> set (pendingIOList (taskIO s))"
    "r \<in> set (pendingIOList (taskIO s)) \<Longrightarrow> cancellable (taskIO s) r \<longleftrightarrow> r \<notin> D"
    "openedFiles s f = Some x \<Longrightarrow> file_ok s f x" "distinct (openFileList s)" "f \<in> set (openFileList s) \<Longrightarrow> \<exists>x. openedFiles s f = Some x"
    "owner_ok s" "mapped s = length (filter (isMapped s) (pendingIOList (taskIO s)))"
  using assms by (auto simp: file_inv_def lists_ok_def)

lemma file_inv_pending:
  assumes "file_inv (s, D)" "r \<in> set (pendingIOList (taskIO s))"
  obtains q x where "requests s r = Some q" "openedFiles s (requestFile q) = Some x" "request_ok r q x" "r \<notin> D \<longrightarrow> (\<exists>u. requestKind q = RWRequest u)"
  using assms that unfolding file_inv_def pending_ok_def prod.case by blast

text \<open>A pending request ends: it is completed or cancelled, and its file stays open or is deleted.\<close>

definition request_end :: "'f file_state \<Rightarrow> 'f file_state \<Rightarrow> ior set \<Rightarrow> ior \<Rightarrow> FileIORequest \<Rightarrow> 'f OpenedFile \<Rightarrow> bool" where
  "request_end s s' D r q x \<longleftrightarrow> file_inv (s, D) \<and>
    (r \<in> set (pendingIOList (taskIO s)) \<and> requests s r = Some q \<and> openedFiles s (requestFile q) = Some x \<and> request_ok r q x) \<and>
    (pendingIOList (taskIO s') = remove1 r (pendingIOList (taskIO s)) \<and>
     completedIOList (taskIO s') = (if requests s' r = None then completedIOList (taskIO s) else r # completedIOList (taskIO s)) \<and>
     (\<forall>r'. r' \<noteq> r \<longrightarrow> cancellable (taskIO s') r' = cancellable (taskIO s) r')) \<and>
    ((\<forall>r'. r' \<noteq> r \<longrightarrow> r' \<noteq> cfr x \<longrightarrow> requests s' r' = requests s r') \<and>
     (\<forall>f. f \<noteq> requestFile q \<longrightarrow> openedFiles s' f = openedFiles s f) \<and>
     (\<forall>f. f \<noteq> requestFile q \<longrightarrow> f \<in> set (openFileList s') \<longleftrightarrow> f \<in> set (openFileList s)) \<and> distinct (openFileList s')) \<and>
    mapped s' = mapped s - (if mappedBuffer q then 1 else 0) \<and> (\<forall>q'. requests s' r = Some q' \<longrightarrow> requestFile q' = requestFile q)"

lemma request_endD:
  assumes "request_end s s' D r q x"
  shows "file_inv (s, D)" "r \<in> set (pendingIOList (taskIO s))" "requests s r = Some q" "openedFiles s (requestFile q) = Some x" "request_ok r q x"
    "pendingIOList (taskIO s') = remove1 r (pendingIOList (taskIO s))"
    "completedIOList (taskIO s') = (if requests s' r = None then completedIOList (taskIO s) else r # completedIOList (taskIO s))"
    "r' \<noteq> r \<Longrightarrow> cancellable (taskIO s') r' = cancellable (taskIO s) r'" "r' \<noteq> r \<Longrightarrow> r' \<noteq> cfr x \<Longrightarrow> requests s' r' = requests s r'"
    "f \<noteq> requestFile q \<Longrightarrow> openedFiles s' f = openedFiles s f" "f \<noteq> requestFile q \<Longrightarrow> f \<in> set (openFileList s') \<longleftrightarrow> f \<in> set (openFileList s)"
    "distinct (openFileList s')" "mapped s' = mapped s - (if mappedBuffer q then 1 else 0)" "requests s' r = Some q' \<Longrightarrow> requestFile q' = requestFile q"
  using assms by (simp_all add: request_end_def)

lemma request_end_parts:
  assumes "request_end s s' D r q x"
  shows "distinct (pendingIOList (taskIO s))" "r \<notin> set (completedIOList (taskIO s))" "set (pendingIOList (taskIO s')) = set (pendingIOList (taskIO s)) - {r}"
    "set (completedIOList (taskIO s')) \<subseteq> insert r (set (completedIOList (taskIO s)))"
  using file_invD(1,3) [OF request_endD(1) [OF assms]] request_endD(2,6,7) [OF assms] by auto

lemma request_end_cfr:
  assumes "request_end s s' D r q x" "openedFiles s f = Some y" "f \<noteq> requestFile q"
  shows "cfr y \<noteq> r \<and> cfr y \<noteq> cfr x \<and> requests s' (cfr y) = requests s (cfr y)"
proof -
  note e = request_endD [OF assms(1)]
  have "fileOf s (cfr y) = Some f" and "fileOf s (cfr x) = Some (requestFile q)" "fileOf s r = Some (requestFile q)"
    using file_invD(6) [OF e(1) assms(2)] file_invD(6) [OF e(1,4)] e(3) by (auto simp: file_ok_def fileOf_def)
  then have "cfr y \<noteq> r" "cfr y \<noteq> cfr x" using assms(3) by auto
  then show ?thesis using e(9) by simp
qed

abbreviation (input) keeps_requests :: "'f file_state \<Rightarrow> 'f file_state \<Rightarrow> ior \<Rightarrow> bool" where
  "keeps_requests s s' r \<equiv> \<forall>r'\<in>set (pendingIOList (taskIO s)) - {r}. requests s' r' = requests s r'"

lemma request_end_outstanding:
  assumes "request_end s s' D r q x" "keeps_requests s s' r"
  shows "outstanding s' f = outstanding s f - (if f = requestFile q then 1 else 0)"
  unfolding outstanding_def request_endD(6) [OF assms(1)] using assms(2) request_endD(3) [OF assms(1)]
  by (subst length_filter_remove1 [OF request_endD(2) [OF assms(1)] request_end_parts(1) [OF assms(1)], of _ "\<lambda>r. fileOf s r = Some f"]) (auto simp: fileOf_def)

lemma request_end_other_file:
  assumes "request_end s s' D r q x" "keeps_requests s s' r" "openedFiles s f = Some y" "f \<noteq> requestFile q"
  shows "file_ok s' f y"
proof -
  note e = request_endD [OF assms(1)]
  have r: "cfr y \<noteq> r" and rq: "requests s' (cfr y) = requests s (cfr y)" using request_end_cfr [OF assms(1,3,4)] by auto
  have ok: "file_ok s f y" by (rule file_invD(6) [OF e(1) assms(3)])
  then have "cfr y \<notin> set (completedIOList (taskIO s'))" using r request_end_parts(4) [OF assms(1)] by (auto simp: file_ok_def)
  then show ?thesis using ok r request_end_outstanding [OF assms(1,2), of f] e(11) [OF assms(4)] assms(4)
    unfolding file_ok_def rq request_end_parts(3) [OF assms(1)] by (elim conjE) simp
qed

lemma request_end_lists:
  assumes "request_end s s' D r q x"
  shows "lists_ok (s', D - {r})"
  using file_invD(1-5) [OF request_endD(1) [OF assms]] request_endD(6-8) [OF assms] request_end_parts [OF assms] unfolding lists_ok_def by auto

lemma request_end_mapped:
  assumes "request_end s s' D r q x" "keeps_requests s s' r"
  shows "mapped s' = length (filter (isMapped s') (pendingIOList (taskIO s')))"
  unfolding request_endD(6,13) [OF assms(1)] file_invD(10) [OF request_endD(1) [OF assms(1)]] using assms(2) request_endD(3) [OF assms(1)]
  by (subst length_filter_remove1 [OF request_endD(2) [OF assms(1)] request_end_parts(1) [OF assms(1)], of _ "isMapped s"]) (auto simp: isMapped_def)

lemma request_end_owner:
  assumes e: "request_end s s' D r q x"
    and "\<And>r'. r' \<noteq> r \<Longrightarrow> r' \<in> set (completedIOList (taskIO s)) \<Longrightarrow> requests s' r' = requests s r'"
    and "\<And>r' q'. r' \<noteq> r \<Longrightarrow> requests s' r' = Some q' \<Longrightarrow> requests s r' = Some q'"
    and "\<And>r' q'. r' \<noteq> r \<Longrightarrow> requests s' r' = Some q' \<Longrightarrow> \<exists>y. openedFiles s (requestFile q') = Some y \<and> cfr y = r' \<Longrightarrow>
      \<exists>y. openedFiles s' (requestFile q') = Some y \<and> cfr y = r'"
  shows "owner_ok s'"
  unfolding owner_ok_def
proof (intro conjI ballI allI impI)
  note d = request_endD [OF e] and o = file_invD(9) [OF request_endD(1) [OF e], unfolded owner_ok_def]
  show "requests s' r' \<noteq> None" if "r' \<in> set (completedIOList (taskIO s'))" for r'
  proof (cases "r' = r")
    case True
    then show ?thesis using that d(7) request_end_parts(2) [OF e] by (auto split: if_splits)
  next
    case False
    then have "r' \<in> set (completedIOList (taskIO s))" using that d(7) by (auto split: if_splits)
    then show ?thesis using o assms(2) [OF False] by simp
  qed
  show "r' \<in> set (pendingIOList (taskIO s')) \<or> r' \<in> set (completedIOList (taskIO s')) \<or> (\<exists>y. openedFiles s' (requestFile q') = Some y \<and> cfr y = r')"
    if q': "requests s' r' = Some q'" for r' q'
  proof (cases "r' = r")
    case True
    then show ?thesis using q' d(7) by simp
  next
    case False
    from assms(3) [OF this q'] o have "r' \<in> set (pendingIOList (taskIO s)) \<or> r' \<in> set (completedIOList (taskIO s)) \<or> (\<exists>y. openedFiles s (requestFile q') = Some y \<and> cfr y = r')" by blast
    then show ?thesis using False d(7) request_end_parts(3) [OF e] assms(4) [OF False q'] by auto
  qed
qed

text \<open>The file stays, with one request less.\<close>

lemma request_end_kept:
  assumes e: "request_end s s' D r q x" and r: "r \<noteq> cfr x" "requests s' (cfr x) = requests s (cfr x)"
    and x': "openedFiles s' (requestFile q) = Some x'" "ioCount x' = ioCount x - 1" "cfr x' = cfr x" "hasManager x'" "\<not> deleteOnCompletion x'"
    and f: "requestFile q \<in> set (openFileList s')" and cfr: "cfr x \<notin> set (pendingIOList (taskIO s))"
    and same: "\<And>r' q'. r' \<in> set (pendingIOList (taskIO s)) - {r} \<Longrightarrow> requests s r' = Some q' \<Longrightarrow> requestFile q' = requestFile q \<Longrightarrow> request_ok r' q' x \<Longrightarrow> request_ok r' q' x'"
  shows "file_inv (s', D - {r})"
proof -
  note d = request_endD [OF e]
  have keep: "requests s' r' = requests s r'" if "r' \<noteq> r" for r' using d(9) [OF that] r by auto
  then have k: "keeps_requests s s' r" by simp
  have "pending_ok (s', D - {r})" unfolding pending_ok_def prod.case request_end_parts(3) [OF e]
  proof
    fix r' assume r': "r' \<in> set (pendingIOList (taskIO s)) - {r}"
    then obtain q' y where q': "requests s r' = Some q'" "openedFiles s (requestFile q') = Some y" "request_ok r' q' y" "r' \<notin> D \<longrightarrow> (\<exists>u. requestKind q' = RWRequest u)"
      using file_inv_pending [OF d(1)] by blast
    then show "\<exists>q x. requests s' r' = Some q \<and> openedFiles s' (requestFile q) = Some x \<and> request_ok r' q x \<and> (r' \<notin> D - {r} \<longrightarrow> (\<exists>u. requestKind q = RWRequest u))"
      using keep [of r'] r' d(10) [of "requestFile q'"] x'(1) same [OF r' q'(1)] d(4) by (cases "requestFile q' = requestFile q") auto
  qed
  moreover have "file_ok s' f y" if "openedFiles s' f = Some y" for f y
  proof (cases "f = requestFile q")
    case True
    then show ?thesis using that x' f cfr r request_end_outstanding [OF e k, of f] file_invD(6) [OF d(1,4)] d(7) request_end_parts(3) [OF e]
      unfolding file_ok_def by auto
  next
    case False
    then show ?thesis using request_end_other_file [OF e k] d(10) that by simp
  qed
  moreover have "\<exists>y. openedFiles s' f = Some y \<and> cfr y = c" if "\<exists>y. openedFiles s f = Some y \<and> cfr y = c" for f c
    using that d(4) d(10) [of f] x'(1,3) by (cases "f = requestFile q") auto
  then have "owner_ok s'" by (intro request_end_owner [OF e]) (simp_all add: keep)
  moreover have "\<forall>f\<in>set (openFileList s'). openedFiles s' f \<noteq> None"
    using d(10,11) x'(1) file_invD(8) [OF d(1)] by (metis option.distinct(1))
  ultimately show ?thesis using request_end_lists [OF e] request_end_mapped [OF e k] d(12)
    unfolding file_inv_def by simp
qed

text \<open>The file is deleted with its last request, and its request for closing is deleted too unless it is the one that ends.\<close>

lemma request_end_freed:
  assumes e: "request_end s s' D r q x" and "ioCount x = 1"
    and x': "openedFiles s' (requestFile q) = None" "requestFile q \<notin> set (openFileList s')" "r \<noteq> cfr x \<longrightarrow> requests s' (cfr x) = None"
  shows "file_inv (s', D - {r})"
proof -
  note d = request_endD [OF e]
  have fo: "file_ok s (requestFile q) x" by (rule file_invD(6) [OF d(1,4)])
  then have single: "requestFile q' \<noteq> requestFile q" if "r' \<in> set (pendingIOList (taskIO s)) - {r}" "requests s r' = Some q'" for r' q'
    using that outstanding_single [of s "requestFile q" r r'] assms(2) d(2,3) by (auto simp: file_ok_def fileOf_def)
  have cfr: "fileOf s (cfr x) = Some (requestFile q)" "cfr x \<notin> set (completedIOList (taskIO s))" using fo by (auto simp: file_ok_def fileOf_def)
  then have np: "cfr x \<notin> set (pendingIOList (taskIO s)) - {r}" using single [of "cfr x"] by (auto simp: fileOf_def)
  then have k: "keeps_requests s s' r" using d(9) by auto
  have "pending_ok (s', D - {r})" unfolding pending_ok_def prod.case request_end_parts(3) [OF e]
  proof
    fix r' assume r': "r' \<in> set (pendingIOList (taskIO s)) - {r}"
    then obtain q' y where q': "requests s r' = Some q'" "openedFiles s (requestFile q') = Some y" "request_ok r' q' y" "r' \<notin> D \<longrightarrow> (\<exists>u. requestKind q' = RWRequest u)"
      using file_inv_pending [OF d(1)] by blast
    then show "\<exists>q x. requests s' r' = Some q \<and> openedFiles s' (requestFile q) = Some x \<and> request_ok r' q x \<and> (r' \<notin> D - {r} \<longrightarrow> (\<exists>u. requestKind q = RWRequest u))"
      using k r' d(10) single [OF r' q'(1)] by auto
  qed
  moreover have "file_ok s' f y" if "openedFiles s' f = Some y" for f y
    using request_end_other_file [OF e k] d(10) that x'(1) by (cases "f = requestFile q") auto
  moreover have "owner_ok s'"
  proof (rule request_end_owner [OF e])
    show "requests s' r' = requests s r'" if "r' \<noteq> r" "r' \<in> set (completedIOList (taskIO s))" for r' using that cfr(2) d(9) by metis
    show 1: "requests s r' = Some q'" if "r' \<noteq> r" "requests s' r' = Some q'" for r' q' using that x'(3) d(9) by (metis option.distinct(1))
    show "\<exists>y. openedFiles s' (requestFile q') = Some y \<and> cfr y = r'"
      if "r' \<noteq> r" "requests s' r' = Some q'" "\<exists>y. openedFiles s (requestFile q') = Some y \<and> cfr y = r'" for r' q'
    proof -
      have "r' \<noteq> cfr x" using that(1,2) x'(3) by auto
      then have "requestFile q' \<noteq> requestFile q" using that(3) d(4) by auto
      then show ?thesis using that(3) d(10) by simp
    qed
  qed
  moreover have "\<forall>f\<in>set (openFileList s'). openedFiles s' f \<noteq> None"
    using d(10,11) x'(1,2) file_invD(8) [OF d(1)] by (metis option.distinct(1))
  ultimately show ?thesis using request_end_lists [OF e] request_end_mapped [OF e k] d(12)
    unfolding file_inv_def by simp
qed

lemma completeIO_pending:
  assumes "file_inv (s, D)" "r \<in> set (pendingIOList (taskIO s))"
  shows "completeIO r (taskIO s) = Some ((taskIO s)\<lparr>pendingIOList := remove1 r (pendingIOList (taskIO s)), completedIOList := r # completedIOList (taskIO s),
    cancellable := (cancellable (taskIO s))(r := False), ioSemaphore := ioSemaphore (taskIO s) + 1\<rparr>)"
proof -
  have "r \<notin> set (completedIOList (taskIO s))" using file_invD(3) [OF assms(1)] assms(2) by auto
  then show ?thesis using assms(2) by (simp add: completeIO_def removeFromDQueue_def inDQueue_def Let_def remove1_idem)
qed

lemma file_invE:
  assumes "file_inv (s, D)" "r \<in> set (pendingIOList (taskIO s))"
  obtains q x where "requests s r = Some q" "openedFiles s (requestFile q) = Some x" "request_ok r q x" "r \<notin> D \<longrightarrow> (\<exists>u. requestKind q = RWRequest u)"
    "file_ok s (requestFile q) x" "0 < ioCount x" "mappedBuffer q \<Longrightarrow> 0 < mapped s"
proof -
  obtain q x where q: "requests s r = Some q" "openedFiles s (requestFile q) = Some x" "request_ok r q x" "r \<notin> D \<longrightarrow> (\<exists>u. requestKind q = RWRequest u)"
    using file_inv_pending [OF assms] by blast
  have fo: "file_ok s (requestFile q) x" by (rule file_invD(6) [OF assms(1) q(2)])
  moreover have "r \<in> set (filter (\<lambda>r. fileOf s r = Some (requestFile q)) (pendingIOList (taskIO s)))" using assms(2) q(1) by (simp add: fileOf_def)
  then have "0 < ioCount x" using fo unfolding file_ok_def outstanding_def by (metis length_pos_if_in_set)
  moreover have "0 < mapped s" if "mappedBuffer q"
  proof -
    have "r \<in> set (filter (isMapped s) (pendingIOList (taskIO s)))" using that assms(2) q(1) by (simp add: isMapped_def)
    then show ?thesis using file_invD(10) [OF assms(1)] by (metis length_pos_if_in_set)
  qed
  ultimately show ?thesis using that q by blast
qed

lemmas file_op_defs = unmapRequest_def unmapKernelBuffer_def beforeDeleteRWFileIO_def beforeDeleteOpenFileIO_def beforeDeleteFileIO_def addFileOffset_def
  addFileIOCount_def setFile_def completeFileIO_def deleteRequest_def isOpenedFileInitialized_def removeFromOpenFileList_def addToOpenFileList_def
  initOpenedFile2_def completeCloseFile_def completeOpenFile_def completeRWFileIO_def Let_def

definition completedTask :: "ior \<Rightarrow> io_task \<Rightarrow> io_task" where
  "completedTask r t = t\<lparr>pendingIOList := remove1 r (pendingIOList t), completedIOList := r # completedIOList t,
    cancellable := (cancellable t)(r := False), ioSemaphore := ioSemaphore t + 1\<rparr>"

lemma completedTask_simps [simp]:
  "pendingIOList (completedTask r t) = remove1 r (pendingIOList t)" "completedIOList (completedTask r t) = r # completedIOList t"
  "cancellable (completedTask r t) = (cancellable t)(r := False)"
  by (simp_all add: completedTask_def)

lemma finish_RW:
  assumes inv: "file_inv (s, D)" and r: "r \<in> D" "requests s r = Some q" "requestKind q = RWRequest u"
  shows "\<exists>s'. completeRWFileIO r n add s = Some s' \<and> file_inv (s', D - {r}) \<and> pendingIOList (taskIO s') = remove1 r (pendingIOList (taskIO s))"
proof -
  have rp: "r \<in> set (pendingIOList (taskIO s))" using file_invD(4) [OF inv] r(1) by auto
  obtain x where x: "openedFiles s (requestFile q) = Some x" "request_ok r q x" "file_ok s (requestFile q) x" "0 < ioCount x" "mappedBuffer q \<Longrightarrow> 0 < mapped s"
    using file_invE [OF inv rp] r(2) by (metis option.inject)
  have k: "hasManager x" "\<not> deleteOnCompletion x" "mappedBuffer q" using x(2) r(3) by (simp_all add: request_ok_def)
  have c: "\<not> cancellable (taskIO s) r" using file_invD(5) [OF inv rp] r(1) by simp
  let ?x = "x\<lparr>offset := (if u then offset x + ucast add else offset x), ioCount := ioCount x - 1\<rparr>"
  let ?s = "s\<lparr>openedFiles := (openedFiles s)(requestFile q := Some ?x), requests := (requests s)(r := Some (q\<lparr>mappedBuffer := False, returnValues := [n]\<rparr>)),
    taskIO := completedTask r (taskIO s), mapped := mapped s - 1\<rparr>"
  have "completeRWFileIO r n add s = Some ?s"
    using x(1,4,5) r(2,3) k c completeIO_pending [OF inv rp] by (simp add: file_op_defs completedTask_def nat_diff_distrib)
  moreover have "file_inv (?s, D - {r})"
  proof (rule request_end_kept [where x' = ?x and x = x])
    show "request_end s ?s D r q x" using inv rp r(2) x k file_invD(7) [OF inv] by (simp add: request_end_def)
    have "requests s (cfr x) \<noteq> Some q" using x(3) r(3) by (auto simp: file_ok_def)
    then show "r \<noteq> cfr x" using r(2) by auto
    then show "requests ?s (cfr x) = requests s (cfr x)" by simp
    show "requestFile q \<in> set (openFileList ?s)" "cfr x \<notin> set (pendingIOList (taskIO s))" using x(3) k by (simp_all add: file_ok_def)
  qed (use k in \<open>simp_all add: request_ok_def split: request_kind.splits\<close>)
  ultimately show ?thesis by simp
qed

lemma finish_parameter:
  assumes inv: "file_inv (s, D)" and r: "r \<in> D" "requests s r = Some q" "requestKind q = ParameterRequest"
  shows "\<exists>s'. completeFileIO r v s = Some s' \<and> file_inv (s', D - {r}) \<and> pendingIOList (taskIO s') = remove1 r (pendingIOList (taskIO s))"
proof -
  have rp: "r \<in> set (pendingIOList (taskIO s))" using file_invD(4) [OF inv] r(1) by auto
  obtain x where x: "openedFiles s (requestFile q) = Some x" "request_ok r q x" "file_ok s (requestFile q) x" "0 < ioCount x"
    using file_invE [OF inv rp] r(2) by (metis option.inject)
  have k: "hasManager x" "\<not> deleteOnCompletion x" "\<not> mappedBuffer q" using x(2) r(3) by (simp_all add: request_ok_def)
  have c: "\<not> cancellable (taskIO s) r" using file_invD(5) [OF inv rp] r(1) by simp
  let ?s = "s\<lparr>openedFiles := (openedFiles s)(requestFile q := Some (x\<lparr>ioCount := ioCount x - 1\<rparr>)), requests := (requests s)(r := Some (q\<lparr>returnValues := v\<rparr>)),
    taskIO := completedTask r (taskIO s)\<rparr>"
  have "completeFileIO r v s = Some ?s"
    using x(1,4) r(2,3) k c completeIO_pending [OF inv rp] by (simp add: file_op_defs completedTask_def nat_diff_distrib)
  moreover have "file_inv (?s, D - {r})"
  proof (rule request_end_kept [where x' = "x\<lparr>ioCount := ioCount x - 1\<rparr>" and x = x])
    show "request_end s ?s D r q x" using inv rp r(2) x k file_invD(7) [OF inv] by (simp add: request_end_def)
    have "requests s (cfr x) \<noteq> Some q" using x(3) r(3) by (auto simp: file_ok_def)
    then show "r \<noteq> cfr x" using r(2) by auto
    then show "requests ?s (cfr x) = requests s (cfr x)" by simp
    show "requestFile q \<in> set (openFileList ?s)" "cfr x \<notin> set (pendingIOList (taskIO s))" using x(3) k by (simp_all add: file_ok_def)
  qed (use k in \<open>simp_all add: request_ok_def split: request_kind.splits\<close>)
  ultimately show ?thesis by simp
qed

lemma finish_close:
  assumes inv: "file_inv (s, D)" and r: "r \<in> D" "requests s r = Some q" "requestKind q = CloseRequest"
  shows "\<exists>s'. completeCloseFile r s = Some s' \<and> file_inv (s', D - {r}) \<and> pendingIOList (taskIO s') = remove1 r (pendingIOList (taskIO s))"
proof -
  have rp: "r \<in> set (pendingIOList (taskIO s))" using file_invD(4) [OF inv] r(1) by auto
  obtain x where x: "openedFiles s (requestFile q) = Some x" "request_ok r q x" "file_ok s (requestFile q) x" "0 < ioCount x"
    using file_invE [OF inv rp] r(2) by (metis option.inject)
  have k: "cfr x = r" "\<not> mappedBuffer q" using x(2) r(3) by (simp_all add: request_ok_def)
  then have d: "hasManager x" "deleteOnCompletion x" "ioCount x = 1" using x(3) rp by (auto simp: file_ok_def)
  have c: "\<not> cancellable (taskIO s) r" using file_invD(5) [OF inv rp] r(1) by simp
  let ?s = "s\<lparr>openedFiles := (openedFiles s)(requestFile q := None), openFileList := remove1 (requestFile q) (openFileList s),
    requests := (requests s)(r := Some (q\<lparr>returnValues := []\<rparr>)), taskIO := completedTask r (taskIO s)\<rparr>"
  have "completeCloseFile r s = Some ?s"
    using x(1,4) r(2,3) k c d completeIO_pending [OF inv rp] by (simp add: file_op_defs completedTask_def)
  moreover have "file_inv (?s, D - {r})"
    using request_end_freed [of s ?s D r q x] inv rp r(2) x k d file_invD(7) [OF inv] by (simp add: request_end_def)
  ultimately show ?thesis by simp
qed

lemma finish_open:
  assumes inv: "file_inv (s, D)" and r: "r \<in> D" "requests s r = Some q" "requestKind q = OpenRequest"
  shows "\<exists>s'. completeOpenFile r ff s = Some s' \<and> file_inv (s', D - {r}) \<and> pendingIOList (taskIO s') = remove1 r (pendingIOList (taskIO s))"
proof -
  have rp: "r \<in> set (pendingIOList (taskIO s))" using file_invD(4) [OF inv] r(1) by auto
  obtain x where x: "openedFiles s (requestFile q) = Some x" "request_ok r q x" "file_ok s (requestFile q) x" "0 < ioCount x" "mappedBuffer q \<Longrightarrow> 0 < mapped s"
    using file_invE [OF inv rp] r(2) by (metis option.inject)
  have k: "\<not> hasManager x" "mappedBuffer q" using x(2) r(3) by (simp_all add: request_ok_def)
  then have d: "deleteOnCompletion x" "ioCount x = 1" "requestFile q \<notin> set (openFileList s)" "cfr x \<notin> set (pendingIOList (taskIO s))"
    "requests s (cfr x) \<noteq> None" using x(3) by (auto simp: file_ok_def)
  have c: "\<not> cancellable (taskIO s) r" using file_invD(5) [OF inv rp] r(1) by simp
  have nc: "r \<noteq> cfr x" using d(4) rp by auto
  show ?thesis
  proof (cases ff)
    case (Some a)
    let ?x = "x\<lparr>deleteOnCompletion := False, fileFunctions := Some a, hasManager := True, ioCount := 0\<rparr>"
    let ?s = "s\<lparr>openedFiles := (openedFiles s)(requestFile q := Some ?x), openFileList := requestFile q # openFileList s,
      requests := (requests s)(r := Some (q\<lparr>mappedBuffer := False, returnValues := [requestFile q]\<rparr>)), taskIO := completedTask r (taskIO s), mapped := mapped s - 1\<rparr>"
    have "completeOpenFile r ff s = Some ?s"
      using x(1,5) r(2,3) k c d Some completeIO_pending [OF inv rp] by (simp add: file_op_defs completedTask_def)
    moreover have "file_inv (?s, D - {r})"
    proof (rule request_end_kept [where x' = ?x and x = x])
      show "request_end s ?s D r q x" using inv rp r(2) x k d file_invD(7) [OF inv] by (simp add: request_end_def)
      show "request_ok r' q' ?x" if "r' \<in> set (pendingIOList (taskIO s)) - {r}" "requests s r' = Some q'" "requestFile q' = requestFile q" for r' q'
        using outstanding_single [of s "requestFile q" r r'] that x(3) d(2) rp r(2) by (auto simp: file_ok_def fileOf_def)
    qed (use nc d in simp_all)
    ultimately show ?thesis by simp
  next
    case None
    let ?s = "s\<lparr>openedFiles := (openedFiles s)(requestFile q := None), requests := (requests s)(cfr x := None, r := Some (q\<lparr>mappedBuffer := False, returnValues := [0]\<rparr>)),
      taskIO := completedTask r (taskIO s), mapped := mapped s - 1\<rparr>"
    have "completeOpenFile r ff s = Some ?s"
      using x(1,5) r(2,3) k c d nc None completeIO_pending [OF inv rp] by (simp add: file_op_defs completedTask_def fun_upd_twist)
    moreover have "file_inv (?s, D - {r})"
      using request_end_freed [of s ?s D r q x] inv rp r(2) x k d nc file_invD(7) [OF inv] by (simp add: request_end_def)
    ultimately show ?thesis by simp
  qed
qed

lemma finish_inv:
  assumes "file_inv (s, D)" "r \<in> D"
  shows "\<exists>s'. finish ff v add r s = Some s' \<and> file_inv (s', D - {r}) \<and> pendingIOList (taskIO s') = remove1 r (pendingIOList (taskIO s))"
proof -
  have "r \<in> set (pendingIOList (taskIO s))" using file_invD(4) [OF assms(1)] assms(2) by auto
  then obtain q where q: "requests s r = Some q" using file_inv_pending [OF assms(1)] by blast
  then show ?thesis using finish_RW [OF assms q] finish_parameter [OF assms q] finish_close [OF assms q] finish_open [OF assms q]
    by (cases "requestKind q") (simp_all add: finish_def)
qed

lemma cancel_inv:
  assumes inv: "file_inv (s, D)" and c: "cancelIOHandler r (taskIO s) = (True, t)"
  shows "\<exists>s'. cancelDeleteFileIO r (s\<lparr>taskIO := t\<rparr>) = Some s' \<and> file_inv (s', D)"
proof -
  have rp: "r \<in> set (pendingIOList (taskIO s))" and cr: "cancellable (taskIO s) r"
    and t: "t = (removeFromDQueue r (taskIO s))\<lparr>cancellable := (cancellable (taskIO s))(r := False)\<rparr>"
    using c by (auto simp: cancelIOHandler_def searchIOList_noLock_def split: if_splits)
  then have rD: "r \<notin> D" using file_invD(5) [OF inv] by simp
  obtain q x where x: "requests s r = Some q" "openedFiles s (requestFile q) = Some x" "request_ok r q x" "\<exists>u. requestKind q = RWRequest u"
    "file_ok s (requestFile q) x" "0 < ioCount x" "mappedBuffer q \<Longrightarrow> 0 < mapped s"
    using file_invE [OF inv rp] rD by metis
  obtain u where u: "requestKind q = RWRequest u" using x(4) by auto
  have k: "hasManager x" "\<not> deleteOnCompletion x" "mappedBuffer q" using x(3) u by (simp_all add: request_ok_def)
  have rc: "remove1 r (completedIOList (taskIO s)) = completedIOList (taskIO s)" using file_invD(3) [OF inv] rp by (intro remove1_idem) auto
  let ?s = "s\<lparr>openedFiles := (openedFiles s)(requestFile q := Some (x\<lparr>ioCount := ioCount x - 1\<rparr>)), requests := (requests s)(r := None), taskIO := t, mapped := mapped s - 1\<rparr>"
  have "cancelDeleteFileIO r (s\<lparr>taskIO := t\<rparr>) = Some ?s"
    using x u k by (simp add: cancelDeleteFileIO_def file_op_defs nat_diff_distrib)
  moreover have "file_inv (?s, D - {r})"
  proof (rule request_end_kept [where x' = "x\<lparr>ioCount := ioCount x - 1\<rparr>" and x = x])
    show "request_end s ?s D r q x" using inv rp x k file_invD(7) [OF inv] rc by (simp add: request_end_def t removeFromDQueue_def)
    have "requests s (cfr x) \<noteq> Some q" using x(5) u by (auto simp: file_ok_def)
    then show "r \<noteq> cfr x" using x(1) by auto
    then show "requests ?s (cfr x) = requests s (cfr x)" by simp
    show "requestFile q \<in> set (openFileList ?s)" "cfr x \<notin> set (pendingIOList (taskIO s))" using x(5) k by (simp_all add: file_ok_def)
  qed (use k in \<open>simp_all add: request_ok_def split: request_kind.splits\<close>)
  ultimately show ?thesis using rD by simp
qed

lemma outstanding_pend:
  assumes "pendingIOList (taskIO s') = r # pendingIOList (taskIO s)" "\<And>r'. r' \<in> set (pendingIOList (taskIO s)) \<Longrightarrow> fileOf s' r' = fileOf s r'"
  shows "outstanding s' f = outstanding s f + (if fileOf s' r = Some f then 1 else 0)"
  using assms by (simp add: outstanding_def cong: filter_cong)

text \<open>A request begins, on a file that is open or comes into being with it.\<close>

lemma request_begin:
  assumes inv: "file_inv (s, D)" and r: "r \<notin> set (pendingIOList (taskIO s))" "r \<notin> set (completedIOList (taskIO s))"
    and tasks: "pendingIOList (taskIO s') = r # pendingIOList (taskIO s)" "completedIOList (taskIO s') = completedIOList (taskIO s)"
      "cancellable (taskIO s') = (cancellable (taskIO s))(r := False)"
    and q: "requests s' r = Some q" "request_ok r q x"
    and rq: "\<And>r'. r' \<noteq> r \<Longrightarrow> requests s r' \<noteq> None \<Longrightarrow> requests s' r' = requests s r'"
      "\<And>r' q'. requests s' r' = Some q' \<Longrightarrow> r' = r \<or> r' = cfr x \<or> requests s r' = Some q'"
    and x: "openedFiles s' (requestFile q) = Some x" "file_ok s' (requestFile q) x" "\<And>f. f \<noteq> requestFile q \<Longrightarrow> openedFiles s' f = openedFiles s f"
      "\<And>y. openedFiles s (requestFile q) = Some y \<Longrightarrow> cfr y = cfr x"
    and l: "openFileList s' = openFileList s" "mapped s' = mapped s + (if mappedBuffer q then 1 else 0)"
    and same: "\<And>r' q'. r' \<in> set (pendingIOList (taskIO s)) \<Longrightarrow> requests s r' = Some q' \<Longrightarrow> requestFile q' = requestFile q \<Longrightarrow> request_ok r' q' x"
    and cfr: "\<And>f y. openedFiles s f = Some y \<Longrightarrow> f \<noteq> requestFile q \<Longrightarrow> cfr y \<noteq> r"
  shows "file_inv (s', insert r D)"
proof -
  have keep: "requests s' r' = requests s r'" if "r' \<in> set (pendingIOList (taskIO s)) \<union> set (completedIOList (taskIO s))" for r'
  proof -
    have "requests s r' \<noteq> None" using that file_invD(9) [OF inv] file_inv_pending [OF inv, of r'] by (fastforce simp: owner_ok_def)
    moreover have "r' \<noteq> r" using that r by auto
    ultimately show ?thesis by (intro rq(1))
  qed
  have "lists_ok (s', insert r D)" using file_invD(1-5) [OF inv] r tasks by (auto simp: lists_ok_def)
  moreover have "pending_ok (s', insert r D)" unfolding pending_ok_def prod.case tasks list.set
  proof
    fix r' assume r': "r' \<in> insert r (set (pendingIOList (taskIO s)))"
    show "\<exists>q x. requests s' r' = Some q \<and> openedFiles s' (requestFile q) = Some x \<and> request_ok r' q x \<and> (r' \<notin> insert r D \<longrightarrow> (\<exists>u. requestKind q = RWRequest u))"
    proof (cases "r' = r")
      case False
      then have p: "r' \<in> set (pendingIOList (taskIO s))" using r' by simp
      then obtain q' y where q': "requests s r' = Some q'" "openedFiles s (requestFile q') = Some y" "request_ok r' q' y" "r' \<notin> D \<longrightarrow> (\<exists>u. requestKind q' = RWRequest u)"
        using file_inv_pending [OF inv] by blast
      then show ?thesis using keep [of r'] p x(1) x(3) [of "requestFile q'"] same [OF p q'(1)] by (cases "requestFile q' = requestFile q") auto
    qed (use q x(1) in auto)
  qed
  moreover have "file_ok s' f y" if "openedFiles s' f = Some y" for f y
  proof (cases "f = requestFile q")
    case True
    then show ?thesis using that x(1,2) by simp
  next
    case False
    then have y: "openedFiles s f = Some y" using that x(3) by simp
    have ok: "file_ok s f y" by (rule file_invD(6) [OF inv y])
    have "outstanding s' f = outstanding s f" using False q(1) keep by (subst outstanding_pend [OF tasks(1)]) (auto simp: fileOf_def)
    moreover have "requests s' (cfr y) = requests s (cfr y)" using rq(1) [OF cfr [OF y False]] ok by (auto simp: file_ok_def)
    ultimately show ?thesis using ok cfr [OF y False] l(1) tasks unfolding file_ok_def by (elim conjE) simp
  qed
  moreover have "owner_ok s'" unfolding owner_ok_def tasks
  proof (intro conjI ballI allI impI)
    show "requests s' r' \<noteq> None" if "r' \<in> set (completedIOList (taskIO s))" for r' using that keep [of r'] file_invD(9) [OF inv] by (simp add: owner_ok_def)
    show "r' \<in> set (r # pendingIOList (taskIO s)) \<or> r' \<in> set (completedIOList (taskIO s)) \<or> (\<exists>y. openedFiles s' (requestFile q') = Some y \<and> cfr y = r')"
      if q': "requests s' r' = Some q'" for r' q'
    proof -
      have "requestFile q' = requestFile q" if "r' = cfr x" using that q' x(2) by (auto simp: file_ok_def)
      moreover have "\<exists>y. openedFiles s' (requestFile q') = Some y \<and> cfr y = r'" if "\<exists>y. openedFiles s (requestFile q') = Some y \<and> cfr y = r'"
        using that x by (cases "requestFile q' = requestFile q") auto
      ultimately show ?thesis using rq(2) [OF q'] file_invD(9) [OF inv] x(1) unfolding owner_ok_def by auto
    qed
  qed
  moreover have "\<forall>f\<in>set (openFileList s'). openedFiles s' f \<noteq> None" using x(1,3) file_invD(8) [OF inv] l(1) by (metis option.distinct(1))
  moreover have "mapped s' = length (filter (isMapped s') (pendingIOList (taskIO s')))"
    using l(2) file_invD(10) [OF inv] q(1) keep unfolding tasks by (auto simp: isMapped_def cong: filter_cong)
  ultimately show ?thesis using file_invD(7) [OF inv] l(1) unfolding file_inv_def by simp
qed

definition pendingTask :: "ior \<Rightarrow> io_task \<Rightarrow> io_task" where
  "pendingTask r t = t\<lparr>pendingIOList := r # pendingIOList t, cancellable := (cancellable t)(r := False)\<rparr>"

lemma pendingTask_simps [simp]:
  "pendingIOList (pendingTask r t) = r # pendingIOList t" "completedIOList (pendingTask r t) = completedIOList t"
  "cancellable (pendingTask r t) = (cancellable t)(r := False)"
  by (simp_all add: pendingTask_def)

lemma unused_request:
  assumes "file_inv (s, D)" "requests s r = None"
  shows "r \<notin> set (pendingIOList (taskIO s))" "r \<notin> set (completedIOList (taskIO s))" "openedFiles s f = Some y \<Longrightarrow> cfr y \<noteq> r"
proof -
  show "r \<notin> set (pendingIOList (taskIO s))" using file_inv_pending [OF assms(1)] assms(2) by (metis option.distinct(1))
  show "r \<notin> set (completedIOList (taskIO s))" using file_invD(9) [OF assms(1)] assms(2) by (auto simp: owner_ok_def)
  show "cfr y \<noteq> r" if "openedFiles s f = Some y" using file_invD(6) [OF assms(1) that] assms(2) by (auto simp: file_ok_def)
qed

lemma pendFileIO_init:
  assumes "r \<notin> set (pendingIOList (taskIO s))" "r \<notin> set (completedIOList (taskIO s))"
  shows "pendFileIO r (initFileIO r k f m s) = Some (s\<lparr>requests := (requests s)(r := Some \<lparr>requestKind = k, requestFile = f, mappedBuffer = m, returnValues = []\<rparr>),
    taskIO := pendingTask r (taskIO s)\<rparr>)"
  using assms by (simp add: pendFileIO_def initFileIO_def pendIO_def initIORequest_def inDQueue_def pendingTask_def)

lemma pending_request_ok:
  assumes "file_inv (s, D)" "r \<in> set (pendingIOList (taskIO s))" "requests s r = Some q" "openedFiles s (requestFile q) = Some x"
  shows "request_ok r q x"
  using file_inv_pending [OF assms(1,2)] assms(3,4) by (metis option.inject)

lemma begin_request:
  assumes inv: "file_inv (s, D)" and r: "requests s r = None" and h: "openedFiles s h = Some x" "hasManager x" "\<not> deleteOnCompletion x"
    and k: "(\<exists>u. k = RWRequest u) \<and> m \<or> k = ParameterRequest \<and> \<not> m"
  shows "file_inv (s\<lparr>openedFiles := (openedFiles s)(h := Some (x\<lparr>ioCount := ioCount x + 1\<rparr>)),
    requests := (requests s)(r := Some \<lparr>requestKind = k, requestFile = h, mappedBuffer = m, returnValues = []\<rparr>),
    taskIO := pendingTask r (taskIO s), mapped := mapped s + (if m then 1 else 0)\<rparr>, insert r D)" (is "file_inv (?s, _)")
proof -
  note u = unused_request [OF inv r]
  have ok: "file_ok s h x" by (rule file_invD(6) [OF inv h(1)])
  have "outstanding ?s h = outstanding s h + 1" using u by (subst outstanding_pend [of _ r s]) (auto simp: fileOf_def)
  then have "file_ok ?s h (x\<lparr>ioCount := ioCount x + 1\<rparr>)" using ok u(3) [OF h(1)] h unfolding file_ok_def by (elim conjE) simp
  then show ?thesis
  proof (intro request_begin [OF inv u(1,2), where x = "x\<lparr>ioCount := ioCount x + 1\<rparr>" and q = "\<lparr>requestKind = k, requestFile = h, mappedBuffer = m, returnValues = []\<rparr>"])
    show "request_ok r' q' (x\<lparr>ioCount := ioCount x + 1\<rparr>)"
      if "r' \<in> set (pendingIOList (taskIO s))" "requests s r' = Some q'" "requestFile q' = requestFile \<lparr>requestKind = k, requestFile = h, mappedBuffer = m, returnValues = []\<rparr>" for r' q'
      using pending_request_ok [OF inv that(1,2), of x] that(3) h(1) by (simp add: request_ok_def split: request_kind.splits)
  qed (use h k u(3) in \<open>auto simp: request_ok_def split: request_kind.splits\<close>)
qed

lemma begin_close:
  assumes inv: "file_inv (s, D)" and h: "openedFiles s h = Some x" "hasManager x" "\<not> deleteOnCompletion x" "ioCount x = 0"
  shows "file_inv (s\<lparr>openedFiles := (openedFiles s)(h := Some (x\<lparr>deleteOnCompletion := True, ioCount := 1\<rparr>)),
    requests := (requests s)(cfr x := Some \<lparr>requestKind = CloseRequest, requestFile = h, mappedBuffer = False, returnValues = []\<rparr>),
    taskIO := pendingTask (cfr x) (taskIO s)\<rparr>, insert (cfr x) D)" (is "file_inv (?s, _)")
    "cfr x \<notin> set (pendingIOList (taskIO s))" "cfr x \<notin> set (completedIOList (taskIO s))"
proof -
  have ok: "file_ok s h x" by (rule file_invD(6) [OF inv h(1)])
  then show u: "cfr x \<notin> set (pendingIOList (taskIO s))" "cfr x \<notin> set (completedIOList (taskIO s))" using h by (simp_all add: file_ok_def)
  have none: "outstanding s h = 0" using ok h(4) by (simp add: file_ok_def)
  have "outstanding ?s h = 1" using u none by (subst outstanding_pend [of _ "cfr x" s]) (auto simp: fileOf_def)
  then have "file_ok ?s h (x\<lparr>deleteOnCompletion := True, ioCount := 1\<rparr>)" using ok u h unfolding file_ok_def by (elim conjE) simp
  then show "file_inv (?s, insert (cfr x) D)"
  proof (intro request_begin [OF inv u, where x = "x\<lparr>deleteOnCompletion := True, ioCount := 1\<rparr>" and q = "\<lparr>requestKind = CloseRequest, requestFile = h, mappedBuffer = False, returnValues = []\<rparr>"])
    show "request_ok r' q' (x\<lparr>deleteOnCompletion := True, ioCount := 1\<rparr>)"
      if "r' \<in> set (pendingIOList (taskIO s))" "requests s r' = Some q'" "requestFile q' = requestFile \<lparr>requestKind = CloseRequest, requestFile = h, mappedBuffer = False, returnValues = []\<rparr>" for r' q'
      using none that by (auto simp: outstanding_def filter_empty_conv fileOf_def)
    show "cfr y \<noteq> cfr x" if "openedFiles s f = Some y" "f \<noteq> requestFile \<lparr>requestKind = CloseRequest, requestFile = h, mappedBuffer = False, returnValues = []\<rparr>" for f y
    proof -
      have "fileOf s (cfr y) = Some f" "fileOf s (cfr x) = Some h" using file_invD(6) [OF inv that(1)] ok by (auto simp: file_ok_def fileOf_def)
      then show ?thesis using that(2) by auto
    qed
  qed (use h in \<open>auto simp: request_ok_def split: if_splits\<close>)
qed

lemma begin_open:
  assumes inv: "file_inv (s, D)" and new: "openedFiles s f = None" "requests s c = None" "requests s r = None" "c \<noteq> r"
  shows "file_inv (s\<lparr>openedFiles := (openedFiles s)(f := Some \<lparr>fileFunctions = None, deleteOnCompletion = True, ioCount = 1, offset = 0, cfr = c, hasManager = False\<rparr>),
    requests := (requests s)(c := Some \<lparr>requestKind = CloseRequest, requestFile = f, mappedBuffer = False, returnValues = []\<rparr>,
      r := Some \<lparr>requestKind = OpenRequest, requestFile = f, mappedBuffer = True, returnValues = []\<rparr>),
    taskIO := pendingTask r (taskIO s), mapped := mapped s + 1\<rparr>, insert r D)" (is "file_inv (?s, _)")
proof -
  let ?x = "\<lparr>fileFunctions = None, deleteOnCompletion = True, ioCount = 1, offset = 0, cfr = c, hasManager = False\<rparr>"
  let ?q = "\<lparr>requestKind = OpenRequest, requestFile = f, mappedBuffer = True, returnValues = []\<rparr>"
  note u = unused_request [OF inv new(3)] and v = unused_request [OF inv new(2)]
  have nf: "requestFile q' \<noteq> f" if "r' \<in> set (pendingIOList (taskIO s))" "requests s r' = Some q'" for r' q'
    using file_inv_pending [OF inv that(1)] that(2) new(1) by (metis option.distinct(1) option.inject)
  have "f \<notin> set (openFileList s)" using file_invD(8) [OF inv] new(1) by (metis option.distinct(1))
  moreover have "outstanding s f = 0" using nf by (auto simp: outstanding_def filter_empty_conv fileOf_def)
  then have "outstanding ?s f = 1" using u v by (subst outstanding_pend [of _ r s]) (auto simp: fileOf_def)
  ultimately have "file_ok ?s f ?x" using u v new by (simp add: file_ok_def)
  then show ?thesis
    by (intro request_begin [OF inv u(1,2), where x = ?x and q = ?q]) (use new u(3) nf in \<open>auto simp: request_ok_def split: if_splits\<close>)
qed

section \<open>Every step keeps the invariant\<close>

lemma keeps_pended:
  assumes "pendingIOList (taskIO s') = r # pendingIOList (taskIO s)" "r \<notin> set (pendingIOList (taskIO s))"
  shows "keeps (s, D) s' = (s', insert r D)"
  using assms by (simp add: keeps_def insert_Diff_if)

lemma keeps_same: "set (pendingIOList (taskIO s')) \<subseteq> set (pendingIOList (taskIO s)) \<Longrightarrow> keeps (s, D) s' = (s', D)"
  by (auto simp: keeps_def)

text \<open>A request that has begun is kept, or finished at once.\<close>

lemma begun_finished:
  assumes "file_inv (s1, insert r D)" "pendingIOList (taskIO s1) = r # pendingIOList (taskIO s)" "r \<notin> D"
  shows "\<exists>s'. finish ff v add r s1 = Some s' \<and> file_inv (s', D) \<and> pendingIOList (taskIO s') = pendingIOList (taskIO s)"
  using finish_inv [OF assms(1), of r ff v add] assms(2,3) by auto

lemma dispatch_close_inv:
  assumes inv: "file_inv (s, D)" and h: "openedFiles s h = Some x" "hasManager x" "\<not> deleteOnCompletion x" "ioCount x = 0"
  shows "\<exists>res s'. dispatchCloseCommand a h (setFile h (x\<lparr>deleteOnCompletion := True, ioCount := 1\<rparr>) s) = Some (Some res, s') \<and> file_inv (keeps (s, D) s')"
proof -
  let ?s = "s\<lparr>openedFiles := (openedFiles s)(h := Some (x\<lparr>deleteOnCompletion := True, ioCount := 1\<rparr>)),
    requests := (requests s)(cfr x := Some \<lparr>requestKind = CloseRequest, requestFile = h, mappedBuffer = False, returnValues = []\<rparr>),
    taskIO := pendingTask (cfr x) (taskIO s)\<rparr>"
  note b = begin_close [OF inv h]
  have p: "pendFileIO (cfr x) (initFileIO (cfr x) CloseRequest h False (setFile h (x\<lparr>deleteOnCompletion := True, ioCount := 1\<rparr>) s)) = Some ?s"
    using b(2,3) by (subst pendFileIO_init) (simp_all add: setFile_def)
  show ?thesis
  proof (cases a)
    case (Done v w)
    have "cfr x \<notin> D" using file_invD(4) [OF inv] b(2) by auto
    then obtain s' where s': "completeCloseFile (cfr x) ?s = Some s'" "file_inv (s', D)" "pendingIOList (taskIO s') = pendingIOList (taskIO s)"
      using begun_finished [OF b(1), of s] by (auto simp: finish_def)
    have "cfr x \<in> set (pendingIOList (taskIO ?s))" by simp
    from s'(1) completeIO_pending [OF b(1) this] have "\<not> cancellable (taskIO s') (cfr x)"
      by (auto simp: completeCloseFile_def completeFileIO_def removeFromOpenFileList_def addFileIOCount_def setFile_def Let_def split: bind_splits if_splits)
    then show ?thesis using Done p s' by (simp add: dispatchCloseCommand_def setFile_def keeps_same)
  qed (use p b in \<open>simp_all add: dispatchCloseCommand_def setFile_def keeps_pended\<close>)
qed

lemma dispatch_request_inv:
  assumes inv: "file_inv (s, D)" and h: "openedFiles s h = Some x" "hasManager x" "\<not> deleteOnCompletion x" and r: "requests s r = None" and a: "a \<noteq> Refused"
  shows "dispatchRWFileCommand a memoryOK mapOK r u h (setFile h (x\<lparr>ioCount := ioCount x + 1\<rparr>) s) = Some (None, setFile h (x\<lparr>ioCount := ioCount x + 1\<rparr>) s) \<or>
      (\<exists>res s'. dispatchRWFileCommand a memoryOK mapOK r u h (setFile h (x\<lparr>ioCount := ioCount x + 1\<rparr>) s) = Some (Some res, s') \<and> file_inv (keeps (s, D) s'))"
    "dispatchParameterCommand a memoryOK r h (setFile h (x\<lparr>ioCount := ioCount x + 1\<rparr>) s) = Some (None, setFile h (x\<lparr>ioCount := ioCount x + 1\<rparr>) s) \<or>
      (\<exists>res s'. dispatchParameterCommand a memoryOK r h (setFile h (x\<lparr>ioCount := ioCount x + 1\<rparr>) s) = Some (Some res, s') \<and> file_inv (keeps (s, D) s'))"
proof -
  note n = unused_request [OF inv r]
  have nD: "r \<notin> D" using file_invD(4) [OF inv] n(1) by auto
  let ?s = "\<lambda>k m. s\<lparr>openedFiles := (openedFiles s)(h := Some (x\<lparr>ioCount := ioCount x + 1\<rparr>)),
    requests := (requests s)(r := Some \<lparr>requestKind = k, requestFile = h, mappedBuffer = m, returnValues = []\<rparr>),
    taskIO := pendingTask r (taskIO s), mapped := mapped s + (if m then 1 else 0)\<rparr>"
  have b: "file_inv (?s (RWRequest u) True, insert r D)" "file_inv (?s ParameterRequest False, insert r D)"
    using begin_request [OF inv r h, of "RWRequest u" True] begin_request [OF inv r h, of ParameterRequest False] by simp_all
  have p: "pendFileIO r (initFileIO r (RWRequest u) h True ((setFile h (x\<lparr>ioCount := ioCount x + 1\<rparr>) s)\<lparr>mapped := mapped s + 1\<rparr>)) = Some (?s (RWRequest u) True)"
    "pendFileIO r (initFileIO r ParameterRequest h False (setFile h (x\<lparr>ioCount := ioCount x + 1\<rparr>) s)) = Some (?s ParameterRequest False)"
    using n by (subst pendFileIO_init; simp add: setFile_def)+
  have m: "mapped (setFile h y s) = mapped s" for y by (simp add: setFile_def)
  show "dispatchRWFileCommand a memoryOK mapOK r u h (setFile h (x\<lparr>ioCount := ioCount x + 1\<rparr>) s) = Some (None, setFile h (x\<lparr>ioCount := ioCount x + 1\<rparr>) s) \<or>
      (\<exists>res s'. dispatchRWFileCommand a memoryOK mapOK r u h (setFile h (x\<lparr>ioCount := ioCount x + 1\<rparr>) s) = Some (Some res, s') \<and> file_inv (keeps (s, D) s'))"
  proof (cases "memoryOK \<and> mapOK")
    case True
    show ?thesis
    proof (cases a)
      case (Done v w)
      obtain s' where "completeRWFileIO r (hd (v @ [0])) w (?s (RWRequest u) True) = Some s'" "file_inv (s', D)" "pendingIOList (taskIO s') = pendingIOList (taskIO s)"
        using begun_finished [OF b(1), of s undefined v w] nD by (auto simp: finish_def)
      then show ?thesis using True Done p(1) by (simp add: dispatchRWFileCommand_def m keeps_same)
    qed (use True a p b n in \<open>simp_all add: dispatchRWFileCommand_def m keeps_pended\<close>)
  qed (auto simp: dispatchRWFileCommand_def)
  show "dispatchParameterCommand a memoryOK r h (setFile h (x\<lparr>ioCount := ioCount x + 1\<rparr>) s) = Some (None, setFile h (x\<lparr>ioCount := ioCount x + 1\<rparr>) s) \<or>
      (\<exists>res s'. dispatchParameterCommand a memoryOK r h (setFile h (x\<lparr>ioCount := ioCount x + 1\<rparr>) s) = Some (Some res, s') \<and> file_inv (keeps (s, D) s'))"
  proof (cases memoryOK)
    case True
    show ?thesis
    proof (cases a)
      case (Done v w)
      obtain s' where "completeFileIO r v (?s ParameterRequest False) = Some s'" "file_inv (s', D)" "pendingIOList (taskIO s') = pendingIOList (taskIO s)"
        using begun_finished [OF b(2), of s undefined v w] nD by (auto simp: finish_def)
      then show ?thesis using True Done p(2) by (simp add: dispatchParameterCommand_def keeps_same)
    qed (use True a p b n in \<open>simp_all add: dispatchParameterCommand_def keeps_pended\<close>)
  qed (auto simp: dispatchParameterCommand_def)
qed

lemma handle_call_inv:
  assumes inv: "file_inv (s, D)" and r: "requests s r = None" and a: "a \<noteq> Refused"
  shows "\<exists>res s'. dispatchFileHandleCommand call a memoryOK mapOK r h s = Some (res, s') \<and> file_inv (keeps (s, D) s')"
proof (cases "h \<in> set (openFileList s)")
  case False
  then show ?thesis using inv by (simp add: dispatchFileHandleCommand_def searchOpenFileList_def keeps_same)
next
  case True
  then obtain x where x: "openedFiles s h = Some x" using file_invD(8) [OF inv] by blast
  have ok: "file_ok s h x" by (rule file_invD(6) [OF inv x])
  then have m: "hasManager x" using True by (simp add: file_ok_def)
  show ?thesis
  proof (cases "call = CloseFile")
    case True
    show ?thesis
    proof (cases "\<not> deleteOnCompletion x \<and> ioCount x = 0")
      case idle: True
      then obtain res s' where "dispatchCloseCommand a h (setFile h (x\<lparr>deleteOnCompletion := True, ioCount := 1\<rparr>) s) = Some (Some res, s')" "file_inv (keeps (s, D) s')"
        using dispatch_close_inv [OF inv x m] by blast
      then show ?thesis using True idle x \<open>h \<in> set (openFileList s)\<close>
        by (simp add: dispatchFileHandleCommand_def searchOpenFileList_def setFileClosing_def)
    qed (use True x \<open>h \<in> set (openFileList s)\<close> inv in \<open>auto simp: dispatchFileHandleCommand_def searchOpenFileList_def setFileClosing_def keeps_same\<close>)
  next
    case call: False
    show ?thesis
    proof (cases "deleteOnCompletion x")
      case True
      then have "ioCount x = 1" using ok by (simp add: file_ok_def)
      then show ?thesis using True call x \<open>h \<in> set (openFileList s)\<close> inv
        by (simp add: dispatchFileHandleCommand_def searchOpenFileList_def addFileIOCount_def Let_def keeps_same)
    next
      case active: False
      let ?s = "setFile h (x\<lparr>ioCount := ioCount x + 1\<rparr>) s"
      have s: "searchOpenFileList h False s = Some (Some h, ?s)" using active x \<open>h \<in> set (openFileList s)\<close>
        by (simp add: searchOpenFileList_def addFileIOCount_def Let_def nat_add_distrib)
      have u: "addFileIOCount h (- 1) ?s = Some (True, s)" using active x
        by (simp add: addFileIOCount_def setFile_def Let_def fun_upd_idem)
      show ?thesis
      proof (cases call)
        case CloseFile
        then show ?thesis using call by simp
      next
        case (ReadWrite b)
        then show ?thesis using dispatch_request_inv(1) [OF inv x m active r a, of memoryOK mapOK b] s u inv
          by (auto simp: dispatchFileHandleCommand_def keeps_same)
      next
        case FileParameter
        then show ?thesis using dispatch_request_inv(2) [OF inv x m active r a, of memoryOK] s u inv
          by (auto simp: dispatchFileHandleCommand_def keeps_same)
      qed
    qed
  qed
qed

lemma refused_open:
  assumes inv: "file_inv (s, D)" and new: "openedFiles s f = None" "requests s c = None" "requests s r = None" "c \<noteq> r"
  defines "s1 \<equiv> s\<lparr>openedFiles := (openedFiles s)(f := Some \<lparr>fileFunctions = None, deleteOnCompletion = True, ioCount = 1, offset = 0, cfr = c, hasManager = False\<rparr>),
    requests := (requests s)(c := Some \<lparr>requestKind = CloseRequest, requestFile = f, mappedBuffer = False, returnValues = []\<rparr>,
      r := Some \<lparr>requestKind = OpenRequest, requestFile = f, mappedBuffer = True, returnValues = []\<rparr>),
    taskIO := pendingTask r (taskIO s), mapped := mapped s + 1\<rparr>"
  shows "do { s \<leftarrow> cancelFailedFileIO r s1; s \<leftarrow> deleteRequest c s; unmapKernelBuffer s } =
    Some (s\<lparr>taskIO := (taskIO s)\<lparr>cancellable := (cancellable (taskIO s))(r := True)\<rparr>\<rparr>)"
proof -
  note u = unused_request [OF inv new(3)]
  have "tryCancelIO r (snd (setCancellable r True (taskIO s1))) = (True, (taskIO s)\<lparr>cancellable := (cancellable (taskIO s))(r := True)\<rparr>)"
    using u by (simp add: s1_def tryCancelIO_def setCancellable_def removeFromDQueue_def pendingTask_def remove1_idem)
  then show ?thesis using new
    by (simp add: cancelFailedFileIO_def cancelDeleteFileIO_def file_op_defs s1_def fun_upd_idem fun_upd_twist)
qed

lemma file_inv_cancellable:
  assumes "file_inv (s, D)" and s': "s' = s\<lparr>taskIO := (taskIO s)\<lparr>cancellable := v\<rparr>\<rparr>" and "lists_ok (s', D')" "pending_ok (s', D')"
  shows "file_inv (s', D')"
proof -
  have f: "fileOf s' = fileOf s" "isMapped s' = isMapped s" by (auto simp: s' fileOf_def isMapped_def)
  have "outstanding s' = outstanding s" by (simp add: outstanding_def f fun_eq_iff) (simp add: s')
  then have "file_ok s' = file_ok s" by (simp add: file_ok_def fun_eq_iff) (simp add: s')
  moreover have "owner_ok s' = owner_ok s" by (simp add: owner_ok_def s')
  ultimately show ?thesis using assms unfolding file_inv_def prod.case f by simp
qed

lemma unused_cancellable:
  assumes "file_inv (s, D)" "requests s r = None"
  shows "file_inv (s\<lparr>taskIO := (taskIO s)\<lparr>cancellable := (cancellable (taskIO s))(r := v)\<rparr>\<rparr>, D)"
  using unused_request [OF assms] assms(1) by (intro file_inv_cancellable [OF assms(1) refl]) (auto simp: file_inv_def lists_ok_def pending_ok_def)

lemma open_call_inv:
  assumes inv: "file_inv (s, D)" and new: "openedFiles s f = None" "requests s c = None" "requests s r = None" "c \<noteq> r"
  shows "\<exists>res s'. FileNameCommandHandler mapOK memoryOK name nameLength l f c r s = Some (res, s') \<and> file_inv (keeps (s, D) s')"
proof -
  note n = unused_request [OF inv new(3)]
  have nD: "r \<notin> D" using file_invD(4) [OF inv] n(1) by auto
  let ?i = "indexOf name 0 nameLength 58"
  let ?s1 = "s\<lparr>openedFiles := (openedFiles s)(f := Some \<lparr>fileFunctions = None, deleteOnCompletion = True, ioCount = 1, offset = 0, cfr = c, hasManager = False\<rparr>),
    requests := (requests s)(c := Some \<lparr>requestKind = CloseRequest, requestFile = f, mappedBuffer = False, returnValues = []\<rparr>,
      r := Some \<lparr>requestKind = OpenRequest, requestFile = f, mappedBuffer = True, returnValues = []\<rparr>),
    taskIO := pendingTask r (taskIO s), mapped := mapped s + 1\<rparr>"
  note b = begin_open [OF inv new]
  show ?thesis
  proof (cases "mapOK \<and> ?i < nameLength \<and> searchFileSystem name ?i l \<noteq> None")
    case False
    then have "FileNameCommandHandler mapOK memoryOK name nameLength l f c r s = Some (None, s)"
      by (auto simp: FileNameCommandHandler_def fileNameToFileSystem_def Let_def unmapKernelBuffer_def)
    then show ?thesis using inv by (simp add: keeps_same)
  next
    case True
    then obtain fs where fs: "searchFileSystem name ?i l = Some fs" by blast
    let ?a = "fsOpen fs (shift (?i + 1) name) (nameLength - ?i - 1)"
    have h: "FileNameCommandHandler mapOK memoryOK name nameLength l f c r s = do {
        (ior, s) \<leftarrow> dispatchFileNameCommand ?a memoryOK f c r (s\<lparr>mapped := mapped s + 1\<rparr>);
        case ior of None \<Rightarrow> do { s \<leftarrow> unmapKernelBuffer s; Some (None, s) } | Some r \<Rightarrow> Some (Some r, s) }"
      using True fs by (simp add: FileNameCommandHandler_def fileNameToFileSystem_def Let_def)
    have p: "memoryOK \<Longrightarrow> Option.bind (createOpenFileRequests memoryOK f c r (s\<lparr>mapped := mapped s + 1\<rparr>)) (pendFileIO r) = Some ?s1"
      using n by (simp add: createOpenFileRequests_def initOpenedFile_def setFile_def initFileIO_def pendFileIO_def pendIO_def initIORequest_def inDQueue_def pendingTask_def)
    show ?thesis
    proof (cases memoryOK)
      case False
      then have "FileNameCommandHandler mapOK memoryOK name nameLength l f c r s = Some (None, s)" unfolding h
        by (simp add: dispatchFileNameCommand_def createOpenFileRequests_def unmapKernelBuffer_def)
      then show ?thesis using inv by (simp add: keeps_same)
    next
      case memory: True
      obtain s0 where s0: "createOpenFileRequests memoryOK f c r (s\<lparr>mapped := mapped s + 1\<rparr>) = Some s0" "pendFileIO r s0 = Some ?s1"
        using p [OF memory] memory by (auto simp: createOpenFileRequests_def)
      have fin: "\<exists>s'. completeOpenFile r ff ?s1 = Some s' \<and> file_inv (s', D) \<and> pendingIOList (taskIO s') = pendingIOList (taskIO s)" for ff
        using begun_finished [OF b, of s ff undefined undefined] nD by (auto simp: finish_def)
      show ?thesis
      proof (cases ?a)
        case OpenRefused
        have "FileNameCommandHandler mapOK memoryOK name nameLength l f c r s =
            map_option (\<lambda>s. (None, s)) (do { s \<leftarrow> cancelFailedFileIO r ?s1; s \<leftarrow> deleteRequest c s; unmapKernelBuffer s })"
          unfolding h dispatchFileNameCommand_def s0 OpenRefused by (simp add: s0(2) split: bind_split)
        then show ?thesis unfolding refused_open [OF inv new] using unused_cancellable [OF inv new(3)] by (simp add: keeps_same)
      next
        case OpenKept
        then show ?thesis unfolding h dispatchFileNameCommand_def s0 using b n(1) by (simp add: s0(2) keeps_pended)
      next
        case (Opened ff)
        then show ?thesis unfolding h dispatchFileNameCommand_def s0 using fin [of "Some ff"] by (auto simp: s0(2) keeps_same)
      next
        case OpenFailed
        then show ?thesis unfolding h dispatchFileNameCommand_def s0 using fin [of None] by (auto simp: s0(2) keeps_same)
      qed
    qed
  qed
qed

lemma accept_inv:
  assumes inv: "file_inv (s, D)" and c: "takeCompleted e (taskIO s) = (Some r, t)"
  shows "\<exists>v s'. acceptDeleteFileIO r (s\<lparr>taskIO := t\<rparr>) = Some (v, s') \<and> file_inv (s', D)"
proof -
  have r: "r \<in> set (completedIOList (taskIO s))" and t: "t = (taskIO s)\<lparr>completedIOList := remove1 r (completedIOList (taskIO s))\<rparr>"
    using c findCompleted_Some by (auto simp: takeCompleted_def split: option.splits)
  obtain q where q: "requests s r = Some q" using file_invD(9) [OF inv] r by (auto simp: owner_ok_def)
  let ?s = "s\<lparr>taskIO := t, requests := (requests s)(r := None)\<rparr>"
  have rp: "r \<notin> set (pendingIOList (taskIO s))" using file_invD(3) [OF inv] r by auto
  have C: "set (completedIOList (taskIO ?s)) = set (completedIOList (taskIO s)) - {r}" using file_invD(2) [OF inv] by (simp add: t)
  have P: "pendingIOList (taskIO ?s) = pendingIOList (taskIO s)" by (simp add: t)
  have "fileOf ?s r' = fileOf s r'" "isMapped ?s r' = isMapped s r'" if "r' \<in> set (pendingIOList (taskIO s))" for r'
    using that rp by (auto simp: fileOf_def isMapped_def)
  then have o: "outstanding ?s = outstanding s" "filter (isMapped ?s) (pendingIOList (taskIO s)) = filter (isMapped s) (pendingIOList (taskIO s))"
    by (simp_all add: outstanding_def t fun_eq_iff cong: filter_cong)
  have "lists_ok (?s, D)" using file_invD(1-5) [OF inv] by (auto simp: lists_ok_def t)
  moreover have "pending_ok (?s, D)" using inv rp by (auto simp: file_inv_def pending_ok_def t)
  moreover have "file_ok ?s f x" if "openedFiles ?s f = Some x" for f x
  proof -
    have "openedFiles s f = Some x" using that by simp
    from file_invD(6) [OF inv this] have ok: "file_ok s f x" .
    then have "cfr x \<noteq> r" using r by (auto simp: file_ok_def)
    then show ?thesis using ok unfolding file_ok_def o C P by (elim conjE) simp
  qed
  moreover have "owner_ok ?s" using file_invD(9) [OF inv] unfolding owner_ok_def C P by auto
  ultimately have "file_inv (?s, D)" using inv o(2) unfolding file_inv_def prod.case P by simp
  then show ?thesis using q by (simp add: acceptDeleteFileIO_def deleteRequest_def)
qed

lemma offer_inv:
  assumes inv: "file_inv (s, D)" and r: "r \<in> D" "map_option requestKind (requests s r) = Some (RWRequest u)"
  shows "\<exists>ok s'. setFileIOFunctions r True s = Some (ok, s') \<and> file_inv (s', D - {r})"
proof -
  have "file_inv (s\<lparr>taskIO := (taskIO s)\<lparr>cancellable := (cancellable (taskIO s))(r := True)\<rparr>\<rparr>, D - {r})"
    by (rule file_inv_cancellable [OF inv refl]) (use inv r in \<open>auto simp: file_inv_def lists_ok_def pending_ok_def\<close>)
  then show ?thesis by (auto simp: setFileIOFunctions_def setCancellable_def)
qed

lemma take_back_inv:
  assumes inv: "file_inv (s, D)" and r: "r \<in> set (pendingIOList (taskIO s))"
  shows "\<exists>ok s'. setFileIOFunctions r False s = Some (ok, s') \<and> file_inv (s', if ok then insert r D else D)"
proof -
  have "file_inv (s\<lparr>taskIO := (taskIO s)\<lparr>cancellable := (cancellable (taskIO s))(r := False)\<rparr>\<rparr>, insert r D)"
    by (rule file_inv_cancellable [OF inv refl]) (use inv r in \<open>auto simp: file_inv_def lists_ok_def pending_ok_def\<close>)
  then show ?thesis using inv by (auto simp: setFileIOFunctions_def setCancellable_def)
qed

lemma file_step_inv:
  assumes "file_step w res" "file_inv w"
  shows "\<exists>w'. res = Some w' \<and> file_inv w'"
  using assms
proof (induction rule: file_step.induct)
  case (open_call f s c r D mapOK memoryOK name nameLength l)
  then show ?case using open_call_inv [of s D f c r mapOK memoryOK name nameLength l] by (auto simp del: split_paired_Ex)
next
  case (handle_call s r a D call memoryOK mapOK h)
  then show ?case using handle_call_inv [of s D r a call memoryOK mapOK h] by (auto simp del: split_paired_Ex)
next
  case (finished r D s ff v add)
  then show ?case using finish_inv [of s D r ff v add] by auto
next
  case (offer r D s u)
  then show ?case using offer_inv [of s D r u] by auto
next
  case (take_back r s D)
  then show ?case using take_back_inv [of s D r] by (auto simp del: split_paired_Ex)
next
  case (cancel r s t D)
  then show ?case using cancel_inv [of s D r t] by auto
next
  case (accept e s r t D)
  then show ?case using accept_inv [of s D e r t] by auto
qed

lemma file_inv_start: "file_inv (no_files, {})"
  by (simp add: file_inv_def lists_ok_def pending_ok_def owner_ok_def no_files_def)

lemma file_run_inv: "file_run w \<Longrightarrow> file_inv w"
  by (induction rule: file_run.induct) (auto simp: file_inv_start dest: file_step_inv)



text \<open>A world with one opened file, the result of a system call on a file system named \<open>a\<close> that opens every name at once.\<close>

definition oneFile :: "unit file_state" where
  "oneFile = \<lparr>openedFiles = [4 \<mapsto> \<lparr>fileFunctions = Some (), deleteOnCompletion = False, ioCount = 0, offset = 0, cfr = 1, hasManager = True\<rparr>],
    openFileList = [4], requests = [1 \<mapsto> \<lparr>requestKind = CloseRequest, requestFile = 4, mappedBuffer = False, returnValues = []\<rparr>,
      2 \<mapsto> \<lparr>requestKind = OpenRequest, requestFile = 4, mappedBuffer = False, returnValues = [4]\<rparr>],
    taskIO = \<lparr>pendingIOList = [], completedIOList = [2], ioSemaphore = 1, cancellable = (\<lambda>r. False)\<rparr>, mapped = 0\<rparr>"

lemma oneFile_run: "file_run (oneFile, {})"
proof -
  let ?fs = "[\<lparr>fsName = cstr [97], fsNameLength = 1, fsOpen = (\<lambda>name n. Opened ())\<rparr>]"
  have i: "indexOf (cstr [97, 58]) 0 2 58 = 1" by (subst indexOf.simps, subst indexOf.simps) (simp add: cstr_def)
  have e: "isStringEqual (cstr [97]) (Suc 0) (cstr [97, 58]) (Suc 0)" by (simp add: isStringEqual_def strncmp_eq_0 cstr_def)
  have "FileNameCommandHandler True True (cstr [97, 58]) 2 ?fs 4 1 2 no_files = Some (Some 2, oneFile)"
    by (simp add: FileNameCommandHandler_def fileNameToFileSystem_def searchFileSystem_def i e dispatchFileNameCommand_def createOpenFileRequests_def
        initOpenedFile_def initFileIO_def pendFileIO_def pendIO_def initIORequest_def inDQueue_def no_files_def file_op_defs completeIO_def removeFromDQueue_def
        oneFile_def fun_upd_twist fun_upd_idem)
  then have "file_step (no_files, {}) (Some (oneFile, {}))"
    using file_step.open_call [of 4 no_files 1 2 "{}" True True "cstr [97, 58]" 2 ?fs] by (simp add: no_files_def keeps_def oneFile_def)
  with file_run.start show ?thesis by (rule file_run.step)
qed



section \<open>Closing all files\<close>

text \<open>\<open>syncCloseFile\<close> of \<open>lib/file.c\<close> for a file whose function \<open>close\<close> completes its request; waiting for a request that is never completed
  has the result \<open>None\<close>.\<close>

definition syncCloseFile :: "handle \<Rightarrow> 'f file_state \<Rightarrow> (bool \<times> 'f file_state) option" where
  "syncCloseFile h s = do {
    (ior, s) \<leftarrow> dispatchFileHandleCommand CloseFile (Done [] 0) True True 0 h s;
    case ior of
      None \<Rightarrow> Some (False, s)
    | Some r \<Rightarrow> (case takeCompleted (Some r) (taskIO s) of
          (None, t) \<Rightarrow> None
        | (Some r, t) \<Rightarrow> do { (values, s) \<leftarrow> acceptDeleteFileIO r (s\<lparr>taskIO := t\<rparr>); Some (True, s) })
  }"

partial_function (option) closeAllOpenFileRequest :: "'f file_state \<Rightarrow> 'f file_state option" where
  "closeAllOpenFileRequest s =
    (case openFileList s of
       [] \<Rightarrow> Some s
     | h # hs \<Rightarrow> do {
         (ok, s) \<leftarrow> syncCloseFile h s;
         closeAllOpenFileRequest (if ok then s else s\<lparr>openFileList := remove1 h (openFileList s)\<rparr>)
       })"

lemma syncCloseFile_idle:
  assumes inv: "file_inv (s, {})" and p: "pendingIOList (taskIO s) = []" and h: "h \<in> set (openFileList s)"
  shows "\<exists>s'. syncCloseFile h s = Some (True, s') \<and> file_inv (s', {}) \<and> pendingIOList (taskIO s') = [] \<and>
    completedIOList (taskIO s') = completedIOList (taskIO s) \<and> openFileList s' = remove1 h (openFileList s) \<and> openedFiles s' = (openedFiles s)(h := None)"
proof -
  obtain x where x: "openedFiles s h = Some x" using file_invD(8) [OF inv h] by blast
  have ok: "file_ok s h x" by (rule file_invD(6) [OF inv x])
  then have c: "ioCount x = 0" "\<not> deleteOnCompletion x" "hasManager x" "cfr x \<notin> set (completedIOList (taskIO s))" using p h by (auto simp: file_ok_def outstanding_def)
  let ?q = "\<lparr>requestKind = CloseRequest, requestFile = h, mappedBuffer = False, returnValues = []\<rparr>"
  let ?s1 = "s\<lparr>openedFiles := (openedFiles s)(h := None), openFileList := remove1 h (openFileList s), requests := (requests s)(cfr x := Some ?q),
    taskIO := completedTask (cfr x) (pendingTask (cfr x) (taskIO s))\<rparr>"
  have d: "dispatchFileHandleCommand CloseFile (Done [] 0) True True 0 h s = Some (Some (cfr x), ?s1)"
    using x c h p by (simp add: dispatchFileHandleCommand_def searchOpenFileList_def setFileClosing_def dispatchCloseCommand_def pendFileIO_init
        file_op_defs completeIO_def removeFromDQueue_def inDQueue_def pendingTask_def completedTask_def remove1_idem)
  have dc: "dispatchCloseCommand (Done [] 0) h (setFile h (x\<lparr>deleteOnCompletion := True, ioCount := 1\<rparr>) s) = Some (Some (cfr x), ?s1)"
    using d x c h by (auto simp: dispatchFileHandleCommand_def searchOpenFileList_def setFileClosing_def split: bind_splits option.splits)
  have inv1: "file_inv (?s1, {})" using dispatch_close_inv [OF inv x c(3,2,1), of "Done [] 0"] dc p by (simp add: keeps_def pendingTask_def)
  let ?t = "(taskIO ?s1)\<lparr>completedIOList := completedIOList (taskIO s)\<rparr>"
  have t: "takeCompleted (Some (cfr x)) (taskIO ?s1) = (Some (cfr x), ?t)" by (simp add: takeCompleted_def findCompleted_def completedTask_def pendingTask_def)
  have a: "acceptDeleteFileIO (cfr x) (?s1\<lparr>taskIO := ?t\<rparr>) = Some ([], ?s1\<lparr>taskIO := ?t, requests := (requests s)(cfr x := None)\<rparr>)"
    by (simp add: acceptDeleteFileIO_def deleteRequest_def)
  have "file_inv (?s1\<lparr>taskIO := ?t, requests := (requests s)(cfr x := None)\<rparr>, {})" using accept_inv [OF inv1 t] a by simp
  then show ?thesis using d t a p by (simp add: syncCloseFile_def)
qed

lemma closeAll_inv:
  assumes "file_inv (s, {})" "pendingIOList (taskIO s) = []"
  shows "\<exists>s'. closeAllOpenFileRequest s = Some s' \<and> openFileList s' = [] \<and> completedIOList (taskIO s') = completedIOList (taskIO s) \<and> file_inv (s', {}) \<and> pendingIOList (taskIO s') = []"
  using assms
proof (induction "length (openFileList s)" arbitrary: s)
  case 0
  then show ?case by (subst closeAllOpenFileRequest.simps) simp
next
  case (Suc n)
  obtain h hs where l: "openFileList s = h # hs" using Suc(2) by (cases "openFileList s") auto
  obtain s' where s': "syncCloseFile h s = Some (True, s')" "file_inv (s', {})" "pendingIOList (taskIO s') = []"
    "completedIOList (taskIO s') = completedIOList (taskIO s)" "openFileList s' = hs" using syncCloseFile_idle [OF Suc(3,4), of h] l by auto
  then show ?case using Suc(1) [of s'] Suc(2) l by (subst closeAllOpenFileRequest.simps) simp
qed

text \<open>C30: when a task ends it closes its files after its requests have been cancelled or waited for. The loop then ends, every file is closed and
  its memory is released, and nothing is left but the results that nobody has accepted.\<close>

theorem closeAllOpenFileRequest_complete:
  assumes "file_run (s, D)" "pendingIOList (taskIO s) = []"
  shows "\<exists>s'. closeAllOpenFileRequest s = Some s' \<and> openFileList s' = [] \<and> (\<forall>f. openedFiles s' f = None) \<and>
    dom (requests s') = set (completedIOList (taskIO s)) \<and> mapped s' = 0"
proof -
  have inv: "file_inv (s, D)" by (rule file_run_inv [OF assms(1)])
  have "D = {}" using file_invD(4) [OF inv] assms(2) by simp
  then obtain s' where s': "closeAllOpenFileRequest s = Some s'" "openFileList s' = []" "completedIOList (taskIO s') = completedIOList (taskIO s)"
    "file_inv (s', {})" "pendingIOList (taskIO s') = []" using closeAll_inv [of s] inv assms(2) by auto
  have none: "openedFiles s' f = None" for f
  proof (rule ccontr)
    assume "openedFiles s' f \<noteq> None"
    then obtain x where "openedFiles s' f = Some x" by blast
    from file_invD(6) [OF s'(4) this] s'(2,5) show False by (auto simp: file_ok_def outstanding_def)
  qed
  moreover have "dom (requests s') = set (completedIOList (taskIO s))" using file_invD(9) [OF s'(4)] s'(3,5) none by (auto simp: owner_ok_def)
  ultimately show ?thesis using s' file_invD(10) [OF s'(4)] by auto
qed

theorem closeAllOpenFileRequest_complete_witness:
  "\<exists>s'. closeAllOpenFileRequest oneFile = Some s' \<and> openFileList s' = [] \<and> openedFiles s' 4 = None \<and> dom (requests s') = {2} \<and> mapped s' = 0"
  using closeAllOpenFileRequest_complete [OF oneFile_run] by (auto simp: oneFile_def)

end
