(* ===== verification/Resource.thy ===== *)
theory Resource
  imports CommonLib "HOL-Library.Sublist"
begin

text \<open>
  The lists of resources, \<open>kernel/resource/resource.c\<close>: drivers add and delete resources, programs enumerate them. An enumerator stands
  at a resource or at the tail of the list; a read takes the description of the resource where the enumerator stands and moves it on, or
  waits at the tail until a resource is added. Resources, enumerators and read requests are named by numbers; the tail is \<open>None\<close>. The
  queues of enumerators at a resource and of requests at an enumerator are the list view of the intrusive queues.

  \<open>lost\<close> is the set of requests whose cancellation has begun: for these \<open>setRWFileIONotCancellable\<close> returns 0.
\<close>

record 'd ResourceList =
  resources :: "nat list"
  description :: "nat \<Rightarrow> 'd"
  waiting :: "nat option \<Rightarrow> nat list"
  currentWaiting :: "nat \<Rightarrow> nat option"
  rwfrList :: "nat \<Rightarrow> nat list"

fun nextOf :: "nat list \<Rightarrow> nat \<Rightarrow> nat option" where
  "nextOf [] r = None"
| "nextOf (x # xs) r = (if x = r then (case xs of [] \<Rightarrow> None | y # _ \<Rightarrow> Some y) else nextOf xs r)"

definition headOf :: "'d ResourceList \<Rightarrow> nat option" where
  "headOf s = (case resources s of [] \<Rightarrow> None | r # _ \<Rightarrow> Some r)"

definition createWaitingIterator :: "nat \<Rightarrow> 'd ResourceList \<Rightarrow> 'd ResourceList" where
  "createWaitingIterator re s = s\<lparr>currentWaiting := (currentWaiting s)(re := headOf s), rwfrList := (rwfrList s)(re := []),
    waiting := (waiting s)(headOf s := re # waiting s (headOf s))\<rparr>"

definition deleteWaitingIterator :: "nat \<Rightarrow> 'd ResourceList \<Rightarrow> 'd ResourceList option" where
  "deleteWaitingIterator re s = do {
    kassert (rwfrList s re = []);
    let k = currentWaiting s re;
    Some (s\<lparr>waiting := (waiting s)(k := remove1 re (waiting s k))\<rparr>)
  }"

text \<open>Moving an enumerator to the head of the queue of another resource.\<close>

definition moveTo :: "nat \<Rightarrow> nat option \<Rightarrow> 'd ResourceList \<Rightarrow> 'd ResourceList" where
  "moveTo re k s =
    (let w = (waiting s)(currentWaiting s re := remove1 re (waiting s (currentWaiting s re))) in
     s\<lparr>currentWaiting := (currentWaiting s)(re := k), waiting := w(k := re # w k)\<rparr>)"

text \<open>\<open>iterateNext_noLock\<close>: the request to complete, with the resource it gets.\<close>

definition iterateNext_noLock :: "nat set \<Rightarrow> bool \<Rightarrow> nat \<Rightarrow> 'd ResourceList \<Rightarrow> (nat \<times> nat) option \<times> 'd ResourceList" where
  "iterateNext_noLock lost handleRequest re s =
    (case currentWaiting s re of
       None \<Rightarrow> (None, s)
     | Some r \<Rightarrow>
         if \<not> handleRequest then (None, moveTo re (nextOf (resources s) r) s)
         else case find (\<lambda>q. q \<notin> lost) (rwfrList s re) of
           None \<Rightarrow> (None, s)
         | Some q \<Rightarrow> (Some (q, r), moveTo re (nextOf (resources s) r) (s\<lparr>rwfrList := (rwfrList s)(re := remove1 q (rwfrList s re))\<rparr>)))"

definition searchWaitable_noLock :: "('d \<Rightarrow> 'd \<Rightarrow> bool) \<Rightarrow> 'd ResourceList \<Rightarrow> 'd \<Rightarrow> nat option" where
  "searchWaitable_noLock isEqual s fe = find (\<lambda>r. isEqual (description s r) fe) (resources s)"

text \<open>\<open>deleteResource\<close>: the loop moves the enumerators at the resource on; \<open>None\<close> is a failed assertion or a loop without end.\<close>

partial_function (option) deleteLoop :: "nat \<Rightarrow> 'd ResourceList \<Rightarrow> 'd ResourceList option" where
  "deleteLoop r s = (case waiting s (Some r) of
      [] \<Rightarrow> Some s
    | re # res \<Rightarrow> deleteLoop r (snd (iterateNext_noLock {} False re s)))"

definition deleteResource :: "('d \<Rightarrow> 'd \<Rightarrow> bool) \<Rightarrow> 'd \<Rightarrow> 'd ResourceList \<Rightarrow> 'd ResourceList option" where
  "deleteResource isEqual fe s = (case searchWaitable_noLock isEqual s fe of
      None \<Rightarrow> None
    | Some r \<Rightarrow> map_option (\<lambda>s. s\<lparr>resources := remove1 r (resources s)\<rparr>) (deleteLoop r s))"

text \<open>\<open>addWaitable\<close>: first all enumerators at the tail are moved to the new resource, then each of them in turn is served. The result
  has the completed requests, each with its enumerator and its resource.\<close>

fun moveAll :: "nat \<Rightarrow> nat list \<Rightarrow> 'd ResourceList \<Rightarrow> 'd ResourceList" where
  "moveAll r [] s = s"
| "moveAll r (re # res) s = moveAll r res (moveTo re (Some r) s)"

fun serveAll :: "nat set \<Rightarrow> nat list \<Rightarrow> 'd ResourceList \<Rightarrow> (nat \<times> nat \<times> nat) list \<times> 'd ResourceList" where
  "serveAll lost [] s = ([], s)"
| "serveAll lost (re # res) s =
    (case iterateNext_noLock lost True re s of
       (None, s) \<Rightarrow> serveAll lost res s
     | (Some (q, r), s) \<Rightarrow> (case serveAll lost res s of (out, s) \<Rightarrow> (out @ [(re, q, r)], s)))"

definition addWaitable :: "('d \<Rightarrow> 'd \<Rightarrow> bool) \<Rightarrow> nat set \<Rightarrow> nat \<Rightarrow> 'd \<Rightarrow> 'd ResourceList \<Rightarrow> bool \<times> (nat \<times> nat \<times> nat) list \<times> 'd ResourceList" where
  "addWaitable isEqual lost r fe s =
    (if searchWaitable_noLock isEqual s fe \<noteq> None then (False, [], s)
     else let s = s\<lparr>resources := resources s @ [r], description := (description s)(r := fe)\<rparr>;
              s = moveAll r (waiting s None) s;
              (out, s) = serveAll lost (waiting s (Some r)) s in (True, out, s))"

definition readEnumWaitable :: "nat set \<Rightarrow> nat \<Rightarrow> nat \<Rightarrow> 'd ResourceList \<Rightarrow> ((nat \<times> nat \<times> nat) list \<times> 'd ResourceList) option" where
  "readEnumWaitable lost re q s =
    (let s = s\<lparr>rwfrList := (rwfrList s)(re := q # rwfrList s re)\<rparr> in
     case iterateNext_noLock lost True re s of
       (None, s) \<Rightarrow> Some ([], s)
     | (Some (q', r), s) \<Rightarrow> do { kassert (q' = q); Some ([(re, q, r)], s) })"

definition cancelReadEnumWaitable :: "nat \<Rightarrow> nat \<Rightarrow> 'd ResourceList \<Rightarrow> 'd ResourceList" where
  "cancelReadEnumWaitable re q s = s\<lparr>rwfrList := (rwfrList s)(re := remove1 q (rwfrList s re))\<rparr>"

definition initResourceList :: "'d \<Rightarrow> 'd ResourceList" where
  "initResourceList zero = \<lparr>resources = [], description = (\<lambda>r. zero), waiting = (\<lambda>k. []), currentWaiting = (\<lambda>re. None), rwfrList = (\<lambda>re. [])\<rparr>"

section \<open>Histories\<close>

datatype 'd resource_call =
    Add nat 'd
  | Delete 'd
  | Open nat
  | Read nat nat
  | Cancel nat nat
  | Canceled nat nat
  | Close nat

text \<open>Beside the list, a history records for each enumerator the resources it was given and the resources that were in the list when it was
  created or have been added since, and the deleted resources. \<open>Cancel\<close> is the begin of a cancellation, \<open>Canceled\<close> its callback.\<close>

record 'd resource_history =
  rlist :: "'d ResourceList"
  lost :: "nat set"
  enumerators :: "nat set"
  given :: "nat \<Rightarrow> nat list"
  since :: "nat \<Rightarrow> nat list"
  deleted :: "nat set"

definition deliver :: "(nat \<times> nat \<times> nat) list \<Rightarrow> (nat \<Rightarrow> nat list) \<Rightarrow> nat \<Rightarrow> nat list" where
  "deliver out g re = g re @ map (\<lambda>(re, q, r). r) (filter (\<lambda>(re', q, r). re' = re) out)"

inductive resource_step :: "('d \<Rightarrow> 'd \<Rightarrow> bool) \<Rightarrow> 'd resource_history \<Rightarrow> 'd resource_call \<Rightarrow> 'd resource_history option \<Rightarrow> bool" for isEqual where
  add: "r \<notin> set (resources (rlist h)) \<union> deleted h \<Longrightarrow> \<forall>re\<in>enumerators h. r \<notin> set (since h re) \<Longrightarrow> addWaitable isEqual (lost h) r fe (rlist h) = (ok, out, s) \<Longrightarrow>
    resource_step isEqual h (Add r fe) (Some (h\<lparr>rlist := s, given := deliver out (given h),
      since := (if ok then (\<lambda>re. since h re @ [r]) else since h)\<rparr>))"
| delete: "searchWaitable_noLock isEqual (rlist h) fe = Some r \<Longrightarrow>
    resource_step isEqual h (Delete fe) (map_option (\<lambda>s. h\<lparr>rlist := s, deleted := insert r (deleted h)\<rparr>) (deleteResource isEqual fe (rlist h)))"
| opened: "re \<notin> enumerators h \<Longrightarrow> resource_step isEqual h (Open re) (Some (h\<lparr>rlist := createWaitingIterator re (rlist h), enumerators := insert re (enumerators h),
      given := (given h)(re := []), since := (since h)(re := resources (rlist h))\<rparr>))"
| read: "re \<in> enumerators h \<Longrightarrow> q \<notin> lost h \<Longrightarrow> \<forall>re. q \<notin> set (rwfrList (rlist h) re) \<Longrightarrow>
    resource_step isEqual h (Read re q) (map_option (\<lambda>(out, s). h\<lparr>rlist := s, given := deliver out (given h)\<rparr>) (readEnumWaitable (lost h) re q (rlist h)))"
| cancel: "q \<in> set (rwfrList (rlist h) re) \<Longrightarrow> resource_step isEqual h (Cancel re q) (Some (h\<lparr>lost := insert q (lost h)\<rparr>))"
| canceled: "q \<in> lost h \<Longrightarrow> resource_step isEqual h (Canceled re q) (Some (h\<lparr>rlist := cancelReadEnumWaitable re q (rlist h)\<rparr>))"
| closed: "re \<in> enumerators h \<Longrightarrow> rwfrList (rlist h) re = [] \<Longrightarrow>
    resource_step isEqual h (Close re) (map_option (\<lambda>s. h\<lparr>rlist := s, enumerators := enumerators h - {re}\<rparr>) (deleteWaitingIterator re (rlist h)))"

section \<open>Where enumerators stand\<close>

text \<open>The queues agree with the positions of the enumerators \<open>E\<close>.\<close>

definition queues_ok :: "nat set \<Rightarrow> 'd ResourceList \<Rightarrow> bool" where
  "queues_ok E s \<longleftrightarrow> (\<forall>k. distinct (waiting s k) \<and> set (waiting s k) = {re \<in> E. currentWaiting s re = k})"

definition rl_inv :: "nat set \<Rightarrow> nat set \<Rightarrow> 'd ResourceList \<Rightarrow> bool" where [inv_defs]:
  "rl_inv E L s \<longleftrightarrow> distinct (resources s) \<and> queues_ok E s \<and>
    (\<forall>re\<in>E. \<forall>r. currentWaiting s re = Some r \<longrightarrow> r \<in> set (resources s) \<and> set (rwfrList s re) \<subseteq> L)"

definition remaining :: "'d ResourceList \<Rightarrow> nat \<Rightarrow> nat list" where
  "remaining s re = (case currentWaiting s re of None \<Rightarrow> [] | Some r \<Rightarrow> dropWhile (\<lambda>x. x \<noteq> r) (resources s))"

lemma moveTo_simps [simp]:
  "resources (moveTo re k s) = resources s" "description (moveTo re k s) = description s" "rwfrList (moveTo re k s) = rwfrList s"
  "currentWaiting (moveTo re k s) = (currentWaiting s)(re := k)"
  by (simp_all add: moveTo_def Let_def)

lemma moveTo_queues: "queues_ok E s \<Longrightarrow> re \<in> E \<Longrightarrow> queues_ok E (moveTo re k s)"
  unfolding queues_ok_def moveTo_def Let_def by (auto simp: fun_upd_def)

lemma queues_ok_update [simp]: "queues_ok E (s\<lparr>rwfrList := x\<rparr>) = queues_ok E s" "queues_ok E (s\<lparr>resources := y\<rparr>) = queues_ok E s"
  "queues_ok E (s\<lparr>description := z\<rparr>) = queues_ok E s"
  by (simp_all add: queues_ok_def)

lemma nextOf_dropWhile:
  "distinct rs \<Longrightarrow> r \<in> set rs \<Longrightarrow>
    dropWhile (\<lambda>x. x \<noteq> r) rs = r # (case nextOf rs r of None \<Rightarrow> [] | Some r' \<Rightarrow> dropWhile (\<lambda>x. x \<noteq> r') rs)"
proof (induction rs)
  case (Cons x rs)
  show ?case
  proof (cases "x = r")
    case True
    then show ?thesis using Cons.prems(1) by (cases rs) auto
  next
    case False
    then have IH: "dropWhile (\<lambda>x. x \<noteq> r) rs = r # (case nextOf rs r of None \<Rightarrow> [] | Some r' \<Rightarrow> dropWhile (\<lambda>x. x \<noteq> r') rs)" using Cons by simp
    have "x \<noteq> r'" if "nextOf rs r = Some r'" for r'
    proof -
      have "r' \<in> set rs" using that by (induction rs) (auto split: if_splits list.splits)
      then show ?thesis using Cons.prems(1) by auto
    qed
    then show ?thesis using IH False by (auto split: option.splits)
  qed
qed simp

lemma nextOf_in: "nextOf rs r = Some r' \<Longrightarrow> r' \<in> set rs"
  by (induction rs) (auto split: if_splits list.splits)

lemma nextOf_neq: "distinct rs \<Longrightarrow> nextOf rs r \<noteq> Some r"
proof (induction rs)
  case (Cons x rs)
  then show ?case by (cases rs) auto
qed simp

lemma nextOf_last: "r \<notin> set rs \<Longrightarrow> nextOf (rs @ [r]) r = None"
  by (induction rs) auto

lemma moveAll_simps [simp]:
  "resources (moveAll r res s) = resources s" "description (moveAll r res s) = description s" "rwfrList (moveAll r res s) = rwfrList s"
  "currentWaiting (moveAll r res s) = (\<lambda>re. if re \<in> set res then Some r else currentWaiting s re)"
  by (induction res arbitrary: s) (auto simp: fun_eq_iff)

lemma moveAll_queues: "queues_ok E s \<Longrightarrow> set res \<subseteq> E \<Longrightarrow> queues_ok E (moveAll r res s)"
  by (induction res arbitrary: s) (auto simp: moveTo_queues)

text \<open>The second loop of \<open>addWaitable\<close>, for enumerators that stand at the last resource.\<close>

definition active :: "nat set \<Rightarrow> 'd ResourceList \<Rightarrow> nat \<Rightarrow> bool" where
  "active L s re \<longleftrightarrow> (\<exists>q\<in>set (rwfrList s re). q \<notin> L)"

lemma serveAll_effect:
  assumes "distinct res" "set res \<subseteq> E" "\<forall>re\<in>set res. currentWaiting s re = Some r" "nextOf (resources s) r = None" "queues_ok E s" "serveAll L res s = (out, s')"
  shows "resources s' = resources s \<and> queues_ok E s' \<and>
    currentWaiting s' = (\<lambda>re. if re \<in> set res \<and> active L s re then None else currentWaiting s re) \<and>
    (\<forall>re. re \<notin> set res \<or> \<not> active L s re \<longrightarrow> rwfrList s' re = rwfrList s re) \<and>
    (\<forall>re. map (\<lambda>(re, q, r). r) (filter (\<lambda>(re', q, r). re' = re) out) = (if re \<in> set res \<and> active L s re then [r] else []))"
  using assms
proof (induction res arbitrary: s out)
  case Nil
  then show ?case by auto
next
  case (Cons re res)
  show ?case
  proof (cases "find (\<lambda>q. q \<notin> L) (rwfrList s re)")
    case None
    then have a: "\<not> active L s re" by (auto simp: active_def find_None_iff)
    have i: "iterateNext_noLock L True re s = (None, s)" using None Cons.prems(3) by (simp add: iterateNext_noLock_def)
    then have "serveAll L res s = (out, s')" using Cons.prems(6) by simp
    from Cons.IH [OF _ _ _ Cons.prems(4,5) this] Cons.prems(1-3) a show ?thesis by auto
  next
    case (Some q)
    then have a: "active L s re" by (auto simp: active_def find_Some_iff)
    define t where "t = moveTo re None (s\<lparr>rwfrList := (rwfrList s)(re := remove1 q (rwfrList s re))\<rparr>)"
    have i: "iterateNext_noLock L True re s = (Some (q, r), t)"
      using Some Cons.prems(3,4) by (simp add: iterateNext_noLock_def t_def)
    obtain out1 where o: "serveAll L res t = (out1, s')" "out = out1 @ [(re, q, r)]" using Cons.prems(6) i by (auto split: prod.splits)
    have q: "queues_ok E t" using Cons.prems(2,5) by (simp add: t_def moveTo_queues)
    have ac: "active L t x = active L s x" if "x \<noteq> re" for x using that by (simp add: active_def t_def)
    have IH: "resources s' = resources t \<and> queues_ok E s' \<and>
      currentWaiting s' = (\<lambda>re. if re \<in> set res \<and> active L t re then None else currentWaiting t re) \<and>
      (\<forall>re. re \<notin> set res \<or> \<not> active L t re \<longrightarrow> rwfrList s' re = rwfrList t re) \<and>
      (\<forall>re. map (\<lambda>(re, q, r). r) (filter (\<lambda>(re', q, r). re' = re) out1) = (if re \<in> set res \<and> active L t re then [r] else []))"
      by (rule Cons.IH [OF _ _ _ _ q o(1)]) (use Cons.prems in \<open>auto simp: t_def\<close>)
    have re: "re \<notin> set res" using Cons.prems(1) by simp
    have "currentWaiting s' = (\<lambda>x. if x \<in> set (re # res) \<and> active L s x then None else currentWaiting s x)"
      using IH re a ac by (auto simp: fun_eq_iff t_def)
    moreover have "\<forall>x. x \<notin> set (re # res) \<or> \<not> active L s x \<longrightarrow> rwfrList s' x = rwfrList s x"
    proof (intro allI impI)
      fix x
      assume x: "x \<notin> set (re # res) \<or> \<not> active L s x"
      then have "x \<noteq> re" using a by auto
      then have "rwfrList t x = rwfrList s x" "x \<notin> set res \<or> \<not> active L t x" using x ac [of x] by (auto simp: t_def)
      then show "rwfrList s' x = rwfrList s x" using IH by simp
    qed
    moreover have "\<forall>x. map (\<lambda>(re, q, r). r) (filter (\<lambda>(re', q, r). re' = x) out) = (if x \<in> set (re # res) \<and> active L s x then [r] else [])"
      using IH re a ac o(2) by auto
    moreover have "resources s' = resources s" "queues_ok E s'" using IH by (simp_all add: t_def)
    ultimately show ?thesis by (intro conjI)
  qed
qed

section \<open>Effect of the operations\<close>

abbreviation (input) resourcesOf :: "nat \<Rightarrow> (nat \<times> nat \<times> nat) list \<Rightarrow> nat list" where
  "resourcesOf re out \<equiv> map (\<lambda>(re, q, r). r) (filter (\<lambda>(re', q, r). re' = re) out)"

lemma dropWhile_snoc: "r \<notin> set rs \<Longrightarrow> dropWhile (\<lambda>x. x \<noteq> r) (rs @ [r]) = [r]"
  by (induction rs) auto

lemma addWaitable_effect:
  assumes "rl_inv E L s" "r \<notin> set (resources s)" "addWaitable isEqual L r fe s = (True, out, s')"
  shows "rl_inv E L s' \<and> resources s' = resources s @ [r] \<and> (\<forall>re\<in>E. resourcesOf re out @ remaining s' re = remaining s re @ [r])"
proof -
  define s1 where "s1 = s\<lparr>resources := resources s @ [r], description := (description s)(r := fe)\<rparr>"
  define s2 where "s2 = moveAll r (waiting s1 None) s1"
  have q: "queues_ok E s" and c: "\<And>re r'. re \<in> E \<Longrightarrow> currentWaiting s re = Some r' \<Longrightarrow> r' \<in> set (resources s) \<and> set (rwfrList s re) \<subseteq> L"
    and d: "distinct (resources s)" using assms(1) by (auto simp: rl_inv_def)
  have w1: "set (waiting s1 None) = {re \<in> E. currentWaiting s re = None}" using q by (simp add: queues_ok_def s1_def)
  have q2: "queues_ok E s2" using q w1 by (auto simp: s2_def s1_def intro: moveAll_queues)
  have cw: "currentWaiting s2 re = (if re \<in> E \<and> currentWaiting s re = None then Some r else currentWaiting s re)" for re
    using w1 by (simp add: s2_def s1_def)
  have w2: "set (waiting s2 (Some r)) = {re \<in> E. currentWaiting s re = None}" "distinct (waiting s2 (Some r))"
    using q2 cw c assms(2) by (auto simp: queues_ok_def)
  have l: "serveAll L (waiting s2 (Some r)) s2 = (out, s')"
    using assms(3) by (auto simp: addWaitable_def Let_def s1_def s2_def split: if_splits prod.splits)
  have e: "resources s' = resources s2 \<and> queues_ok E s' \<and>
    currentWaiting s' = (\<lambda>re. if re \<in> set (waiting s2 (Some r)) \<and> active L s2 re then None else currentWaiting s2 re) \<and>
    (\<forall>re. re \<notin> set (waiting s2 (Some r)) \<or> \<not> active L s2 re \<longrightarrow> rwfrList s' re = rwfrList s2 re) \<and>
    (\<forall>re. resourcesOf re out = (if re \<in> set (waiting s2 (Some r)) \<and> active L s2 re then [r] else []))"
    by (rule serveAll_effect [OF w2(2) _ _ _ q2 l]) (use w2(1) cw assms(2) in \<open>auto simp: s2_def s1_def nextOf_last\<close>)
  have rs: "resources s' = resources s @ [r]" and rw: "rwfrList s2 = rwfrList s" using e by (simp_all add: s2_def s1_def)
  have ac: "active L s2 re = active L s re" for re by (simp add: active_def rw)
  have cw': "currentWaiting s' re = (if currentWaiting s re = None then if active L s re then None else Some r else currentWaiting s re)" if "re \<in> E" for re
    using e that by (simp add: w2(1) cw ac)
  have "set (rwfrList s' re) \<subseteq> L" "r' \<in> set (resources s')" if "re \<in> E" "currentWaiting s' re = Some r'" for re r'
  proof -
    have n: "\<not> (re \<in> set (waiting s2 (Some r)) \<and> active L s2 re)" using that cw' w2(1) ac by (auto split: if_splits)
    then have "rwfrList s' re = rwfrList s re" using e rw by auto
    then show "set (rwfrList s' re) \<subseteq> L" "r' \<in> set (resources s')"
      using that cw' [OF that(1)] c [OF that(1)] rs by (auto simp: active_def split: if_splits)
  qed
  moreover have "distinct (resources s')" using rs d assms(2) by simp
  moreover have "queues_ok E s'" using e by simp
  ultimately have "rl_inv E L s'" unfolding rl_inv_def by blast
  moreover have o: "resourcesOf re out = (if currentWaiting s re = None \<and> active L s re then [r] else [])" if "re \<in> E" for re
    using e that by (simp add: w2(1) ac)
  moreover have "resourcesOf re out @ remaining s' re = remaining s re @ [r]" if re: "re \<in> E" for re
  proof (cases "currentWaiting s re")
    case None
    then show ?thesis using o [OF re] cw' [OF re] rs assms(2) by (simp add: remaining_def dropWhile_snoc)
  next
    case (Some r')
    then have "r' \<in> set (resources s)" using c re by blast
    then have "dropWhile (\<lambda>x. x \<noteq> r') (resources s @ [r]) = dropWhile (\<lambda>x. x \<noteq> r') (resources s) @ [r]" by (intro dropWhile_append1) auto
    then show ?thesis using Some o [OF re] cw' [OF re] rs by (simp add: remaining_def)
  qed
  ultimately show ?thesis using rs by blast
qed

lemma readEnumWaitable_effect:
  assumes "rl_inv E L s" "re \<in> E" "q \<notin> L"
  shows "\<exists>out s'. readEnumWaitable L re q s = Some (out, s') \<and> rl_inv E L s' \<and> resources s' = resources s \<and>
    (\<forall>x\<in>E. resourcesOf x out @ remaining s' x = remaining s x)"
proof (cases "currentWaiting s re")
  case None
  have "rl_inv E L (s\<lparr>rwfrList := (rwfrList s)(re := q # rwfrList s re)\<rparr>)" using assms None by (auto simp: rl_inv_def)
  then show ?thesis using None by (simp add: readEnumWaitable_def iterateNext_noLock_def remaining_def split: option.splits)
next
  case (Some r)
  have r: "r \<in> set (resources s)" "set (rwfrList s re) \<subseteq> L" "distinct (resources s)" "queues_ok E s" using assms Some by (auto simp: rl_inv_def)
  let ?k = "nextOf (resources s) r"
  let ?t = "moveTo re ?k (s\<lparr>rwfrList := rwfrList s\<rparr>)"
  have "iterateNext_noLock L True re (s\<lparr>rwfrList := (rwfrList s)(re := q # rwfrList s re)\<rparr>) = (Some (q, r), ?t)"
    using assms(3) Some by (simp add: iterateNext_noLock_def)
  then have "readEnumWaitable L re q s = Some ([(re, q, r)], ?t)" by (simp add: readEnumWaitable_def)
  moreover have "rl_inv E L ?t" using assms r by (auto simp: rl_inv_def moveTo_queues dest: nextOf_in)
  moreover have "\<forall>x\<in>E. resourcesOf x [(re, q, r)] @ remaining ?t x = remaining s x"
    using Some nextOf_dropWhile [OF r(3,1)] by (auto simp: remaining_def split: option.splits)
  ultimately show ?thesis by (intro exI [of _ "[(re, q, r)]"] exI [of _ ?t]) simp
qed

lemma deleteLoop_effect:
  assumes "queues_ok E s" "distinct (resources s)"
  shows "\<exists>s'. deleteLoop r s = Some s' \<and> resources s' = resources s \<and> rwfrList s' = rwfrList s \<and> queues_ok E s' \<and>
    (\<forall>re\<in>E. currentWaiting s' re = (if currentWaiting s re = Some r then nextOf (resources s) r else currentWaiting s re))"
  using assms
proof (induction "length (waiting s (Some r))" arbitrary: s)
  case 0
  have "set (waiting s (Some r)) = {re \<in> E. currentWaiting s re = Some r}" using 0(2) by (simp add: queues_ok_def)
  then have "\<forall>re\<in>E. currentWaiting s re \<noteq> Some r" "waiting s (Some r) = []" using 0(1) by auto
  then show ?case using 0 by (subst deleteLoop.simps) auto
next
  case (Suc n)
  obtain re res where w: "waiting s (Some r) = re # res" using Suc(2) by (cases "waiting s (Some r)") auto
  have "set (waiting s (Some r)) = {x \<in> E. currentWaiting s x = Some r}" using Suc.prems(1) by (simp add: queues_ok_def)
  then have re: "re \<in> E" "currentWaiting s re = Some r" using w by auto
  let ?t = "moveTo re (nextOf (resources s) r) s"
  have t: "snd (iterateNext_noLock {} False re s) = ?t" using re by (simp add: iterateNext_noLock_def)
  have "waiting ?t (Some r) = res" using w re nextOf_neq [OF Suc.prems(2), of r] by (simp add: moveTo_def Let_def)
  then have "n = length (waiting ?t (Some r))" using Suc(2) w by simp
  from Suc(1) [OF this] obtain s' where s': "deleteLoop r ?t = Some s'" "resources s' = resources s" "rwfrList s' = rwfrList s" "queues_ok E s'"
    "\<forall>x\<in>E. currentWaiting s' x = (if currentWaiting ?t x = Some r then nextOf (resources s) r else currentWaiting ?t x)"
    using Suc.prems re by (auto simp: moveTo_queues)
  moreover have "deleteLoop r s = deleteLoop r ?t" using w t by (subst deleteLoop.simps) simp
  ultimately show ?case using re by auto
qed

lemma dropWhile_remove1: "distinct rs \<Longrightarrow> r \<noteq> r' \<Longrightarrow> dropWhile (\<lambda>x. x \<noteq> r') (remove1 r rs) = remove1 r (dropWhile (\<lambda>x. x \<noteq> r') rs)"
proof (induction rs)
  case (Cons x rs)
  then show ?case by (auto simp: remove1_idem dest: set_dropWhileD)
qed simp

lemma deleteResource_effect:
  assumes "rl_inv E L s" "searchWaitable_noLock isEqual s fe = Some r"
  shows "\<exists>s'. deleteResource isEqual fe s = Some s' \<and> rl_inv E L s' \<and> (\<forall>re\<in>E. remaining s' re = remove1 r (remaining s re)) \<and> r \<in> set (resources s)"
proof -
  have d: "distinct (resources s)" and c: "\<And>re r'. re \<in> E \<Longrightarrow> currentWaiting s re = Some r' \<Longrightarrow> r' \<in> set (resources s) \<and> set (rwfrList s re) \<subseteq> L"
    using assms(1) by (auto simp: rl_inv_def)
  have r: "r \<in> set (resources s)" using assms(2) by (auto simp: searchWaitable_noLock_def find_Some_iff)
  obtain t where t: "deleteLoop r s = Some t" "resources t = resources s" "rwfrList t = rwfrList s" "queues_ok E t"
    "\<And>re. re \<in> E \<Longrightarrow> currentWaiting t re = (if currentWaiting s re = Some r then nextOf (resources s) r else currentWaiting s re)"
    using deleteLoop_effect [of E s r] assms(1) d by (auto simp: rl_inv_def)
  let ?s = "t\<lparr>resources := remove1 r (resources t)\<rparr>"
  have "currentWaiting ?s re = Some r' \<Longrightarrow> r' \<in> set (remove1 r (resources s)) \<and> set (rwfrList s re) \<subseteq> L" if "re \<in> E" for re r'
    using t(5) [OF that] c [OF that] d nextOf_neq [OF d, of r] nextOf_in [of "resources s" r] by (auto split: if_splits)
  then have "rl_inv E L ?s" using t(2-4) d by (simp add: rl_inv_def distinct_remove1)
  moreover have "remaining ?s re = remove1 r (remaining s re)" if re: "re \<in> E" for re
  proof (cases "currentWaiting s re = Some r")
    case True
    have "r \<notin> set (case nextOf (resources s) r of None \<Rightarrow> [] | Some r' \<Rightarrow> dropWhile (\<lambda>x. x \<noteq> r') (resources s))"
      using nextOf_dropWhile [OF d r] d by (metis distinct.simps(2) distinct_dropWhile)
    then show ?thesis using True t(2) t(5) [OF re] nextOf_dropWhile [OF d r] nextOf_neq [OF d, of r] dropWhile_remove1 [OF d]
      by (auto simp: remaining_def remove1_idem split: option.splits)
  next
    case False
    then show ?thesis using t(2) t(5) [OF re] dropWhile_remove1 [OF d, of r] by (auto simp: remaining_def split: option.splits)
  qed
  ultimately show ?thesis using assms(2) t(1) r by (simp add: deleteResource_def)
qed

section \<open>Every enumerator is given every resource\<close>

inductive resource_run :: "('d \<Rightarrow> 'd \<Rightarrow> bool) \<Rightarrow> 'd \<Rightarrow> 'd resource_history \<Rightarrow> bool" for isEqual zero where
  start: "resource_run isEqual zero \<lparr>rlist = initResourceList zero, lost = {}, enumerators = {}, given = (\<lambda>re. []), since = (\<lambda>re. []), deleted = {}\<rparr>"
| step: "resource_run isEqual zero h \<Longrightarrow> resource_step isEqual h c (Some h') \<Longrightarrow> resource_run isEqual zero h'"

definition given_ok :: "nat list \<Rightarrow> nat list \<Rightarrow> nat list \<Rightarrow> nat set \<Rightarrow> bool" where
  "given_ok g rest all del \<longleftrightarrow> subseq (g @ rest) all \<and> set all \<subseteq> set g \<union> set rest \<union> del \<and> distinct all"

definition history_inv :: "'d resource_history \<Rightarrow> bool" where [inv_defs]:
  "history_inv h \<longleftrightarrow> rl_inv (enumerators h) (lost h) (rlist h) \<and>
    (\<forall>re\<in>enumerators h. given_ok (given h re) (remaining (rlist h) re) (since h re) (deleted h))"

lemma given_ok_add: "given_ok g rest all del \<Longrightarrow> r \<notin> set all \<Longrightarrow> x @ rest' = rest @ [r] \<Longrightarrow> given_ok (g @ x) rest' (all @ [r]) del"
proof -
  assume a: "given_ok g rest all del" "r \<notin> set all" "x @ rest' = rest @ [r]"
  have "set x \<union> set rest' = insert r (set rest)" using a(3) by (metis Un_commute Un_insert_left empty_set list.simps(15) set_append sup_bot.left_neutral)
  moreover have "subseq ((g @ x) @ rest') (all @ [r])" using a by (simp add: given_ok_def) (metis append.assoc list_emb_append_mono subseq_order.order_refl)
  ultimately show ?thesis using a unfolding given_ok_def by auto
qed

lemma given_ok_same: "given_ok g rest all del \<Longrightarrow> x @ rest' = rest \<Longrightarrow> given_ok (g @ x) rest' all del"
  by (auto simp: given_ok_def)

lemma given_ok_delete: "given_ok g rest all del \<Longrightarrow> given_ok g (remove1 r rest) all (insert r del)"
proof -
  assume a: "given_ok g rest all del"
  have "subseq (remove1 r rest) rest" by (induction rest) auto
  then have "subseq (g @ remove1 r rest) (g @ rest)" by (intro list_emb_append_mono) auto
  then show ?thesis using a by (auto simp: given_ok_def intro: subseq_order.trans dest: in_set_remove1 [THEN iffD2, rotated])
qed

lemma createWaitingIterator_effect:
  assumes "rl_inv E L s" "re \<notin> E"
  shows "rl_inv (insert re E) L (createWaitingIterator re s)" "remaining (createWaitingIterator re s) re = resources s"
    "x \<in> E \<Longrightarrow> remaining (createWaitingIterator re s) x = remaining s x"
proof -
  have h: "headOf s = Some r \<Longrightarrow> r \<in> set (resources s)" for r by (auto simp: headOf_def split: list.splits)
  have "queues_ok (insert re E) (createWaitingIterator re s)"
    using assms unfolding rl_inv_def queues_ok_def createWaitingIterator_def by (auto simp: fun_upd_def)
  then show "rl_inv (insert re E) L (createWaitingIterator re s)"
    using assms h by (auto simp: rl_inv_def createWaitingIterator_def)
  show "remaining (createWaitingIterator re s) re = resources s"
    by (auto simp: remaining_def createWaitingIterator_def headOf_def split: list.splits)
  show "remaining (createWaitingIterator re s) x = remaining s x" if "x \<in> E"
    using that assms(2) by (auto simp: remaining_def createWaitingIterator_def split: option.splits)
qed

lemma deleteWaitingIterator_effect:
  assumes "rl_inv E L s" "re \<in> E" "rwfrList s re = []"
  shows "\<exists>s'. deleteWaitingIterator re s = Some s' \<and> rl_inv (E - {re}) L s' \<and> remaining s' = remaining s"
proof -
  let ?s = "s\<lparr>waiting := (waiting s)(currentWaiting s re := remove1 re (waiting s (currentWaiting s re)))\<rparr>"
  have "queues_ok (E - {re}) ?s" using assms(1,2) unfolding rl_inv_def queues_ok_def by auto
  then have "rl_inv (E - {re}) L ?s" using assms(1) by (auto simp: rl_inv_def)
  moreover have "remaining ?s = remaining s" by (auto simp: remaining_def fun_eq_iff split: option.splits)
  ultimately show ?thesis using assms(3) by (simp add: deleteWaitingIterator_def Let_def)
qed

lemma history_step:
  assumes "resource_step isEqual h c x" "history_inv h"
  shows "\<exists>h'. x = Some h' \<and> history_inv h'"
proof -
  have inv: "rl_inv (enumerators h) (lost h) (rlist h)" using assms(2) by (simp add: history_inv_def)
  from assms(1) show ?thesis
  proof cases
    case (add r fe ok out s)
    show ?thesis
    proof (cases ok)
      case True
      have e: "rl_inv (enumerators h) (lost h) s \<and> resources s = resources (rlist h) @ [r] \<and>
        (\<forall>re\<in>enumerators h. resourcesOf re out @ remaining s re = remaining (rlist h) re @ [r])"
        by (rule addWaitable_effect [OF inv]) (use add True in auto)
      then have "given_ok (deliver out (given h) re) (remaining s re) (since h re @ [r]) (deleted h)" if re: "re \<in> enumerators h" for re
        unfolding deliver_def by (intro given_ok_add) (use assms(2) add re in \<open>auto simp: history_inv_def\<close>)
      then show ?thesis using add True e by (simp add: history_inv_def)
    next
      case False
      then have "out = []" "s = rlist h" using add by (auto simp: addWaitable_def Let_def split: if_splits prod.splits)
      then show ?thesis using add False assms(2) by (simp add: history_inv_def deliver_def)
    qed
  next
    case (delete fe r)
    obtain s where "deleteResource isEqual fe (rlist h) = Some s" "rl_inv (enumerators h) (lost h) s"
      "\<forall>re\<in>enumerators h. remaining s re = remove1 r (remaining (rlist h) re)"
      using deleteResource_effect [OF inv delete(3)] by blast
    then show ?thesis using delete assms(2) by (simp add: history_inv_def given_ok_delete)
  next
    case (opened re)
    have "distinct (resources (rlist h))" using inv by (simp add: rl_inv_def)
    then show ?thesis using opened assms(2) createWaitingIterator_effect [OF inv] by (auto simp: history_inv_def given_ok_def)
  next
    case (read re q)
    obtain out s where "readEnumWaitable (lost h) re q (rlist h) = Some (out, s)" "rl_inv (enumerators h) (lost h) s"
      "\<forall>x\<in>enumerators h. resourcesOf x out @ remaining s x = remaining (rlist h) x"
      using readEnumWaitable_effect [OF inv read(3,4)] by blast
    then show ?thesis using read assms(2) by (auto simp: history_inv_def deliver_def intro: given_ok_same)
  next
    case (cancel q re)
    then show ?thesis using assms(2) by (auto simp: history_inv_def rl_inv_def)
  next
    case (canceled q re)
    have "remaining (cancelReadEnumWaitable re q (rlist h)) = remaining (rlist h)"
      by (auto simp: remaining_def cancelReadEnumWaitable_def fun_eq_iff split: option.splits)
    moreover have "rl_inv (enumerators h) (lost h) (cancelReadEnumWaitable re q (rlist h))"
      using assms(2) by (auto simp: history_inv_def rl_inv_def cancelReadEnumWaitable_def dest!: set_remove1_subset [THEN subsetD])
    ultimately show ?thesis using canceled assms(2) by (simp add: history_inv_def)
  next
    case (closed re)
    obtain s where "deleteWaitingIterator re (rlist h) = Some s" "rl_inv (enumerators h - {re}) (lost h) s" "remaining s = remaining (rlist h)"
      using deleteWaitingIterator_effect [OF inv closed(3,4)] by blast
    then show ?thesis using closed assms(2) by (simp add: history_inv_def)
  qed
qed

lemma resource_run_inv: "resource_run isEqual zero h \<Longrightarrow> history_inv h"
proof (induction rule: resource_run.induct)
  case start
  then show ?case by (simp add: history_inv_def rl_inv_def initResourceList_def queues_ok_def)
next
  case (step h c h')
  then show ?case using history_step by blast
qed

lemma deliver_Nil [simp]: "deliver [] g = g"
  by (simp add: deliver_def fun_eq_iff)

text \<open>C27: in any history of adding and deleting resources, opening and closing enumerators, reading and cancelling, no assertion fails and no
  loop runs forever; every enumerator is given resources in the order of the list, each at most once, and of those that were there when it
  was created or came later it misses only resources that were deleted; and a read that waits has been given everything there is.\<close>

theorem resource_enumeration_correct:
  assumes "resource_run isEqual zero h"
  shows "(\<forall>c. \<not> resource_step isEqual h c None) \<and>
    (\<forall>re\<in>enumerators h. subseq (given h re) (since h re) \<and> distinct (given h re) \<and>
      set (since h re) \<subseteq> set (given h re) \<union> set (remaining (rlist h) re) \<union> deleted h \<and>
      (active (lost h) (rlist h) re \<longrightarrow> remaining (rlist h) re = []))"
proof -
  have inv: "history_inv h" by (rule resource_run_inv [OF assms])
  have "\<not> resource_step isEqual h c None" for c using history_step [OF _ inv] by blast
  moreover have "subseq (given h re) (since h re) \<and> distinct (given h re) \<and> set (since h re) \<subseteq> set (given h re) \<union> set (remaining (rlist h) re) \<union> deleted h \<and>
      (active (lost h) (rlist h) re \<longrightarrow> remaining (rlist h) re = [])" if re: "re \<in> enumerators h" for re
  proof -
    have g: "given_ok (given h re) (remaining (rlist h) re) (since h re) (deleted h)" using inv re by (simp add: history_inv_def)
    then have s: "subseq (given h re) (since h re)" by (auto simp: given_ok_def dest: list_emb_appendD intro: subseq_order.trans [rotated])
    moreover have "distinct (given h re)" using s g by (auto simp: given_ok_def subseq_conv_nths intro: distinct_nthsI)
    moreover have "remaining (rlist h) re = []" if "active (lost h) (rlist h) re"
      using inv re that by (cases "currentWaiting (rlist h) re") (auto simp: history_inv_def rl_inv_def remaining_def active_def)
    ultimately show ?thesis using g by (auto simp: given_ok_def)
  qed
  ultimately show ?thesis by blast
qed

theorem resource_enumeration_correct_witness:
  "\<exists>h. resource_run (=) (0 :: nat) h \<and> enumerators h = {5} \<and> given h 5 = [1] \<and> active (lost h) (rlist h) 5 \<and>
    (\<forall>c. \<not> resource_step (=) h c None) \<and> remaining (rlist h) 5 = []"
proof -
  let ?h0 = "\<lparr>rlist = initResourceList (0 :: nat), lost = {}, enumerators = {}, given = (\<lambda>re. []), since = (\<lambda>re. []), deleted = {}\<rparr> :: nat resource_history"
  note defs = initResourceList_def searchWaitable_noLock_def createWaitingIterator_def headOf_def readEnumWaitable_def iterateNext_noLock_def moveTo_def
  let ?s1 = "(initResourceList 0)\<lparr>resources := [1], description := (\<lambda>r. 0)(1 := 9)\<rparr> :: nat ResourceList"
  have h0: "resource_run (=) 0 ?h0" by (rule resource_run.start)
  have "addWaitable (=) {} 1 9 (initResourceList 0) = (True, [], ?s1)" by (simp add: addWaitable_def defs)
  then have h1: "resource_run (=) 0 (?h0\<lparr>rlist := ?s1, since := (\<lambda>re. [1])\<rparr>)" (is "resource_run _ _ ?h1")
    using resource_step.add [of 1 ?h0 "(=)" 9 True "[]" ?s1]
    by (intro resource_run.step [OF h0, of "Add 1 9"]) (simp_all add: initResourceList_def)
  define h2 where "h2 = ?h1\<lparr>rlist := createWaitingIterator 5 ?s1, enumerators := {5}, given := (\<lambda>re. [])(5 := []), since := (\<lambda>re. [1])(5 := [1])\<rparr>"
  have h2: "resource_run (=) 0 h2"
    using resource_step.opened [of 5 ?h1 "(=)"] by (intro resource_run.step [OF h1, of "Open 5"]) (simp add: h2_def defs)
  have r: "readEnumWaitable {} 5 7 (rlist h2) = Some ([(5, 7, 1)], moveTo 5 None (rlist h2))" by (simp add: h2_def defs)
  define h3 where "h3 = h2\<lparr>rlist := moveTo 5 None (rlist h2), given := deliver [(5, 7, 1)] (given h2)\<rparr>"
  have "resource_step (=) h2 (Read 5 7) (map_option (\<lambda>(out, s). h2\<lparr>rlist := s, given := deliver out (given h2)\<rparr>) (readEnumWaitable (lost h2) 5 7 (rlist h2)))"
    by (rule resource_step.read) (simp_all add: h2_def defs)
  then have h3: "resource_run (=) 0 h3" using r by (intro resource_run.step [OF h2, of "Read 5 7"]) (simp add: h3_def, simp add: h2_def)
  have w: "readEnumWaitable {} 5 8 (rlist h3) = Some ([], (rlist h3)\<lparr>rwfrList := (rwfrList (rlist h3))(5 := [8])\<rparr>)" by (simp add: h3_def h2_def defs)
  define h4 where "h4 = h3\<lparr>rlist := (rlist h3)\<lparr>rwfrList := (rwfrList (rlist h3))(5 := [8])\<rparr>, given := deliver [] (given h3)\<rparr>"
  have "resource_step (=) h3 (Read 5 8) (map_option (\<lambda>(out, s). h3\<lparr>rlist := s, given := deliver out (given h3)\<rparr>) (readEnumWaitable (lost h3) 5 8 (rlist h3)))"
    by (rule resource_step.read) (simp_all add: h3_def h2_def defs)
  then have h4: "resource_run (=) 0 h4" using w by (intro resource_run.step [OF h3, of "Read 5 8"]) (simp add: h4_def, simp add: h3_def h2_def)
  have "active (lost h4) (rlist h4) 5" "enumerators h4 = {5}" "given h4 5 = [1]" by (simp_all add: h4_def h3_def h2_def active_def deliver_def)
  then show ?thesis using resource_enumeration_correct [OF h4] h4 by (intro exI [of _ h4]) auto
qed

end
