(* ===== verification/Partition.thy ===== *)
theory Partition
  imports Fat Resource
begin

text \<open>
  Disk partitions, the first part of \<open>kernel/file/file.c\<close>: the partition tables of a disk are read recursively and every partition is added to
  the list of resources (\<open>Resource\<close>), where the file systems enumerate them. The disk is the parameter of \<open>Fat\<close>.
\<close>

record PartitionEntry =
  systemID :: u8
  entryStartLBA :: u32
  entrySectorCount :: u32

definition loadPartitionEntry :: "bytes \<Rightarrow> nat \<Rightarrow> PartitionEntry" where
  "loadPartitionEntry mbr i = \<lparr>systemID = mbr (446 + 16 * i + 4), entryStartLBA = le32 mbr (446 + 16 * i + 8),
    entrySectorCount = le32 mbr (446 + 16 * i + 12)\<rparr>"

abbreviation (input) MBR_EMPTY :: u8 where "MBR_EMPTY \<equiv> 0x00"
abbreviation (input) MBR_EXTENDED :: u8 where "MBR_EXTENDED \<equiv> 0x05"
abbreviation (input) MAX_DISK_TYPE :: u8 where "MAX_DISK_TYPE \<equiv> 0x10"
abbreviation (input) MAX_FILE_ENUM_NAME_LENGTH :: nat where "MAX_FILE_ENUM_NAME_LENGTH \<equiv> 64"

text \<open>\<open>FileEnumeration\<close> of a disk partition, \<open>lib/file.h\<close>.\<close>

record FileEnumeration =
  enumName :: "u8 list"
  partitionType :: u8
  partitionStart :: u64
  partitionSectors :: u64
  partitionSectorSize :: u32

definition isDiskPartitionEqual :: "FileEnumeration \<Rightarrow> FileEnumeration \<Rightarrow> bool" where
  "isDiskPartitionEqual fe1 fe2 =
    (if \<not> isStringEqual (cstr (enumName fe1)) (length (enumName fe1)) (cstr (enumName fe2)) (length (enumName fe2)) then False
     else if partitionStart fe1 \<noteq> partitionStart fe2 then False else True)"

text \<open>What the code finds outside: the disk, whether the buffer for the table at a sector and the resource of a number can be allocated,
  the reads of enumerators that are being cancelled, and the name and the sector size of the disk.\<close>

record disk_env =
  sectors :: disk
  memoryOK :: "u64 \<Rightarrow> bool"
  resourceOK :: "nat \<Rightarrow> bool"
  cancelling :: "nat set"
  diskName :: "u8 list"
  diskSectorSize :: u32

record partition_state =
  partitionList :: "FileEnumeration ResourceList"
  nextResource :: nat
  enumerated :: "(nat \<times> nat \<times> nat) list"

definition createAddResource :: "disk_env \<Rightarrow> FileEnumeration \<Rightarrow> partition_state \<Rightarrow> bool \<times> partition_state" where
  "createAddResource e fe s =
    (if \<not> resourceOK e (nextResource s) then (False, s)
     else case addWaitable isDiskPartitionEqual (cancelling e) (nextResource s) fe (partitionList s) of
       (ok, out, rl) \<Rightarrow> (ok, s\<lparr>partitionList := rl, nextResource := nextResource s + 1, enumerated := enumerated s @ out\<rparr>))"

definition addDiskPartition :: "disk_env \<Rightarrow> u8 \<Rightarrow> u64 \<Rightarrow> u64 \<Rightarrow> partition_state \<Rightarrow> bool \<times> partition_state" where
  "addDiskPartition e t start n s =
    (if t < MAX_DISK_TYPE \<and> length (diskName e) \<le> MAX_FILE_ENUM_NAME_LENGTH
     then createAddResource e \<lparr>enumName = diskName e, partitionType = t, partitionStart = start, partitionSectors = n,
       partitionSectorSize = diskSectorSize e\<rparr> s
     else (False, s))"

text \<open>A table describes only partitions that are smaller than the one it lies in.\<close>

definition fits :: "nat \<Rightarrow> nat \<Rightarrow> PartitionEntry \<Rightarrow> bool" where
  "fits rel room pe \<longleftrightarrow> systemID pe \<noteq> MBR_EMPTY \<and> 1 \<le> unat (entryStartLBA pe) \<and> 1 \<le> unat (entrySectorCount pe) \<and>
    rel + unat (entryStartLBA pe) < 2 ^ 64 \<and> unat (entryStartLBA pe) + unat (entrySectorCount pe) \<le> room"

lemma fits_checks:
  fixes rel room :: u64
  assumes "lba = rel + ucast (entryStartLBA pe)" "n = ucast (entrySectorCount pe)"
  shows "fits (unat rel) (unat room) pe \<longleftrightarrow> systemID pe \<noteq> MBR_EMPTY \<and> \<not> (lba = 0 \<or> lba \<le> rel \<or> lba - rel > room) \<and> \<not> (n = 0 \<or> n > room - (lba - rel))"
    and "fits (unat rel) (unat room) pe \<Longrightarrow> unat lba = unat rel + unat (entryStartLBA pe) \<and> unat n = unat (entrySectorCount pe)"
proof -
  let ?s = "ucast (entryStartLBA pe) :: u64"
  have s: "unat ?s = unat (entryStartLBA pe)" and n: "unat n = unat (entrySectorCount pe)" and sb: "unat (entryStartLBA pe) < 2 ^ 32"
    using assms(2) unsigned_less [of "entryStartLBA pe", where 'a = nat] unsigned_less [of "entrySectorCount pe", where 'a = nat] by (simp_all add: unsigned_ucast_eq take_bit_nat_eq_self)
  have lba: "unat lba = (unat rel + unat (entryStartLBA pe)) mod 2 ^ 64" using assms(1) s by (simp add: unat_word_ariths)
  have d: "lba - rel = ?s" using assms(1) by simp
  have rel: "unat rel < 2 ^ 64" by (rule order_less_le_trans [OF unsigned_less]) simp
  have wrap: "(lba = 0 \<or> lba \<le> rel) \<longleftrightarrow> \<not> (1 \<le> unat (entryStartLBA pe) \<and> unat rel + unat (entryStartLBA pe) < 2 ^ 64)"
  proof (cases "unat rel + unat (entryStartLBA pe) < 2 ^ 64")
    case True
    then show ?thesis using lba by (auto simp: word_le_nat_alt simp flip: unat_eq_0)
  next
    case False
    then have "unat lba = unat rel + unat (entryStartLBA pe) - 2 ^ 64" using lba sb rel by (simp add: le_mod_geq)
    then have "lba \<le> rel" using sb by (simp add: word_le_nat_alt)
    then show ?thesis using False by simp
  qed
  have "unat (room - ?s) = unat room - unat (entryStartLBA pe)" if "\<not> ?s > room" using that s by (simp add: unat_sub word_le_nat_alt not_less)
  then show "fits (unat rel) (unat room) pe \<longleftrightarrow> systemID pe \<noteq> MBR_EMPTY \<and> \<not> (lba = 0 \<or> lba \<le> rel \<or> lba - rel > room) \<and> \<not> (n = 0 \<or> n > room - (lba - rel))"
    using wrap s n unfolding d fits_def by (auto simp: word_less_nat_alt simp flip: unat_eq_0)
  show "unat lba = unat rel + unat (entryStartLBA pe) \<and> unat n = unat (entrySectorCount pe)" if "fits (unat rel) (unat room) pe"
    using that lba n by (simp add: fits_def)
qed

lemma fits_smaller: "fits rel room pe \<Longrightarrow> unat (entrySectorCount pe) < room"
  by (simp add: fits_def)

text \<open>\<open>_readPartitions\<close>, with its loop over the entries. The table is read into a page, so the bytes behind a sector of less than 512
  bytes are not those of the disk; they are zero here.\<close>

function readTable :: "disk_env \<Rightarrow> u64 \<Rightarrow> u64 \<Rightarrow> partition_state \<Rightarrow> partition_state"
  and readEntries :: "disk_env \<Rightarrow> u64 \<Rightarrow> u64 \<Rightarrow> PartitionEntry list \<Rightarrow> partition_state \<Rightarrow> partition_state" where
  "readTable e relativeLBA sectorCount s =
    (if \<not> memoryOK e relativeLBA then s
     else case sectors e (relativeLBA * ucast (diskSectorSize e)) (diskSectorSize e) of
       None \<Rightarrow> s
     | Some mbr \<Rightarrow> readEntries e relativeLBA sectorCount (map (loadPartitionEntry (cstr mbr)) [0..<4]) s)"
| "readEntries e relativeLBA sectorCount [] s = s"
| "readEntries e relativeLBA sectorCount (pe # pes) s =
    (let lba = relativeLBA + ucast (entryStartLBA pe); n = ucast (entrySectorCount pe) in
     if systemID pe = MBR_EMPTY then readEntries e relativeLBA sectorCount pes s
     else if lba = 0 \<or> lba \<le> relativeLBA \<or> lba - relativeLBA > sectorCount then readEntries e relativeLBA sectorCount pes s
     else if n = 0 \<or> n > sectorCount - (lba - relativeLBA) then readEntries e relativeLBA sectorCount pes s
     else let s = (if systemID pe = MBR_EXTENDED then readTable e lba n s else s) in
       readEntries e relativeLBA sectorCount pes (snd (addDiskPartition e (systemID pe) lba n s)))"
  by pat_completeness auto
termination
proof (relation "measures [\<lambda>x. case x of Inl (e, r, c, s) \<Rightarrow> unat c | Inr (e, r, c, pes, s) \<Rightarrow> unat c, \<lambda>x. case x of Inl _ \<Rightarrow> 5 | Inr (e, r, c, pes, s) \<Rightarrow> length pes]", goal_cases)
  case (6 e r c pe pes s lba n)
  then have "unat n < unat c" using fits_checks [OF 6(1,2), of c] fits_smaller [of "unat r" "unat c" pe] by auto
  then show ?case by simp
qed auto

definition readPartitions :: "disk_env \<Rightarrow> bool \<Rightarrow> bool \<Rightarrow> u64 \<Rightarrow> partition_state \<Rightarrow> partition_state option" where
  "readPartitions e opened closed sectorCount s = do {
    kassert opened;
    let s = readTable e 0 sectorCount s;
    kassert closed;
    Some s
  }"

definition matchDiskType :: "FileEnumeration \<Rightarrow> u8 \<Rightarrow> bool" where
  "matchDiskType fe t \<longleftrightarrow> partitionType fe = t"

section \<open>What the tables describe\<close>

definition tableAt :: "disk_env \<Rightarrow> nat \<Rightarrow> PartitionEntry list option" where
  "tableAt e rel = (if memoryOK e (of_nat rel)
    then map_option (\<lambda>mbr. map (loadPartitionEntry (cstr mbr)) [0..<4]) (sectors e (of_nat rel * ucast (diskSectorSize e)) (diskSectorSize e)) else None)"

text \<open>The partitions within \<open>room\<close> sectors at \<open>rel\<close>, as type, first sector and number of sectors, counted without wrap-around.\<close>

inductive onDisk :: "disk_env \<Rightarrow> nat \<Rightarrow> nat \<Rightarrow> u8 \<times> nat \<times> nat \<Rightarrow> bool" for e where
  primary: "tableAt e rel = Some pes \<Longrightarrow> pe \<in> set pes \<Longrightarrow> fits rel room pe \<Longrightarrow>
    onDisk e rel room (systemID pe, rel + unat (entryStartLBA pe), unat (entrySectorCount pe))"
| logical: "tableAt e rel = Some pes \<Longrightarrow> pe \<in> set pes \<Longrightarrow> fits rel room pe \<Longrightarrow> systemID pe = MBR_EXTENDED \<Longrightarrow>
    onDisk e (rel + unat (entryStartLBA pe)) (unat (entrySectorCount pe)) p \<Longrightarrow> onDisk e rel room p"

lemma onDisk_within: "onDisk e rel room (t, a, n) \<Longrightarrow> rel < a \<and> 0 < n \<and> a + n \<le> rel + room"
  by (induction rel room "(t, a, n)" rule: onDisk.induct) (auto simp: fits_def)

definition entriesOn :: "disk_env \<Rightarrow> nat \<Rightarrow> nat \<Rightarrow> PartitionEntry list \<Rightarrow> (u8 \<times> nat \<times> nat) set" where
  "entriesOn e rel room pes = {p. \<exists>pe\<in>set pes. fits rel room pe \<and>
    (p = (systemID pe, rel + unat (entryStartLBA pe), unat (entrySectorCount pe)) \<or>
     systemID pe = MBR_EXTENDED \<and> onDisk e (rel + unat (entryStartLBA pe)) (unat (entrySectorCount pe)) p)}"

lemma onDisk_table: "Collect (onDisk e rel room) = (case tableAt e rel of None \<Rightarrow> {} | Some pes \<Rightarrow> entriesOn e rel room pes)"
proof (intro set_eqI iffI)
  fix p assume "p \<in> Collect (onDisk e rel room)"
  then have "onDisk e rel room p" by simp
  then show "p \<in> (case tableAt e rel of None \<Rightarrow> {} | Some pes \<Rightarrow> entriesOn e rel room pes)"
    by cases (auto simp: entriesOn_def)
next
  fix p assume "p \<in> (case tableAt e rel of None \<Rightarrow> {} | Some pes \<Rightarrow> entriesOn e rel room pes)"
  then show "p \<in> Collect (onDisk e rel room)" by (auto simp: entriesOn_def intro: onDisk.intros split: option.splits)
qed

section \<open>What is registered\<close>

definition registered :: "partition_state \<Rightarrow> FileEnumeration list" where
  "registered s = map (description (partitionList s)) (resources (partitionList s))"

definition fresh :: "partition_state \<Rightarrow> bool" where
  "fresh s \<longleftrightarrow> (\<forall>r\<in>set (resources (partitionList s)). r < nextResource s)"

definition partitionOf :: "disk_env \<Rightarrow> u8 \<times> nat \<times> nat \<Rightarrow> FileEnumeration" where
  "partitionOf e p = (case p of (t, a, n) \<Rightarrow> \<lparr>enumName = diskName e, partitionType = t, partitionStart = of_nat a, partitionSectors = of_nat n,
     partitionSectorSize = diskSectorSize e\<rparr>)"

definition memory_suffices :: "disk_env \<Rightarrow> bool" where
  "memory_suffices e \<longleftrightarrow> (\<forall>r. resourceOK e r) \<and> length (diskName e) \<le> MAX_FILE_ENUM_NAME_LENGTH"

text \<open>\<open>grows e P s s'\<close>: from \<open>s\<close> to \<open>s'\<close> only partitions of \<open>P\<close> were registered, and all of them, unless memory was short.\<close>

definition grows :: "disk_env \<Rightarrow> (u8 \<times> nat \<times> nat) set \<Rightarrow> partition_state \<Rightarrow> partition_state \<Rightarrow> bool" where
  "grows e P s s' \<longleftrightarrow> (fresh s \<longrightarrow> fresh s' \<and>
    (\<exists>new. registered s' = registered s @ new \<and> (\<forall>fe\<in>set new. \<exists>p\<in>P. fst p < MAX_DISK_TYPE \<and> fe = partitionOf e p)) \<and>
    (memory_suffices e \<longrightarrow> (\<forall>p\<in>P. fst p < MAX_DISK_TYPE \<longrightarrow> (\<exists>fe\<in>set (registered s'). isDiskPartitionEqual fe (partitionOf e p)))))"

lemma grows_none: "grows e {} s s"
  by (simp add: grows_def)

lemma grows_trans:
  assumes "grows e P s s'" "grows e Q s' s''"
  shows "grows e (P \<union> Q) s s''"
  unfolding grows_def
proof (intro impI)
  assume f: "fresh s"
  obtain new where n: "registered s' = registered s @ new" "\<forall>fe\<in>set new. \<exists>p\<in>P. fst p < MAX_DISK_TYPE \<and> fe = partitionOf e p" and f': "fresh s'"
    using assms(1) f by (auto simp: grows_def)
  obtain new' where n': "registered s'' = registered s' @ new'" "\<forall>fe\<in>set new'. \<exists>p\<in>Q. fst p < MAX_DISK_TYPE \<and> fe = partitionOf e p"
    using assms(2) f' by (auto simp: grows_def)
  have "fresh s''" using assms(2) f' by (simp add: grows_def)
  moreover have "\<exists>new. registered s'' = registered s @ new \<and> (\<forall>fe\<in>set new. \<exists>p\<in>P \<union> Q. fst p < MAX_DISK_TYPE \<and> fe = partitionOf e p)"
    using n n' by (intro exI [of _ "new @ new'"]) auto
  moreover have "\<exists>fe\<in>set (registered s''). isDiskPartitionEqual fe (partitionOf e p)"
    if "memory_suffices e" "p \<in> P \<union> Q" "fst p < MAX_DISK_TYPE" for p
    using that assms f f' n'(1) unfolding grows_def by (metis (lifting) Un_iff set_append)
  ultimately show "fresh s'' \<and> (\<exists>new. registered s'' = registered s @ new \<and> (\<forall>fe\<in>set new. \<exists>p\<in>P \<union> Q. fst p < MAX_DISK_TYPE \<and> fe = partitionOf e p)) \<and>
    (memory_suffices e \<longrightarrow> (\<forall>p\<in>P \<union> Q. fst p < MAX_DISK_TYPE \<longrightarrow> (\<exists>fe\<in>set (registered s''). isDiskPartitionEqual fe (partitionOf e p))))" by blast
qed

lemma isDiskPartitionEqual_same [simp]: "isDiskPartitionEqual fe fe"
  by (simp add: isDiskPartitionEqual_def isStringEqual_def)

lemma iterateNext_static [simp]:
  "resources (snd (iterateNext_noLock L b re s)) = resources s \<and> description (snd (iterateNext_noLock L b re s)) = description s"
  by (simp add: iterateNext_noLock_def Let_def split: option.split)

lemma serveAll_static: "resources (snd (serveAll L res s)) = resources s \<and> description (snd (serveAll L res s)) = description s"
proof (induction res arbitrary: s)
  case (Cons re res)
  obtain q s' where i: "iterateNext_noLock L True re s = (q, s')" by fastforce
  obtain out s'' where r: "serveAll L res s' = (out, s'')" by fastforce
  have "snd (serveAll L (re # res) s) = s''" using i r by (cases q) auto
  then show ?case using Cons [of s'] iterateNext_static [of L True re s] i r by simp
qed simp

lemma addWaitable_description:
  assumes "addWaitable eq L r fe s = (ok, out, s')" "r \<notin> set (resources s)"
  shows "if ok then map (description s') (resources s') = map (description s) (resources s) @ [fe] \<and> resources s' = resources s @ [r]
    else s' = s \<and> (\<exists>r\<in>set (resources s). eq (description s r) fe)"
proof (cases "searchWaitable_noLock eq s fe")
  case None
  obtain out' s'' where "serveAll L (waiting (moveAll r (waiting s None) (s\<lparr>resources := resources s @ [r], description := (description s)(r := fe)\<rparr>)) (Some r))
      (moveAll r (waiting s None) (s\<lparr>resources := resources s @ [r], description := (description s)(r := fe)\<rparr>)) = (out', s'')" (is "serveAll L ?w ?s = _") by fastforce
  moreover from this have "resources s'' = resources s @ [r] \<and> description s'' = (description s)(r := fe)" using serveAll_static [of L ?w ?s] by simp
  ultimately show ?thesis using assms None by (auto simp: addWaitable_def Let_def)
next
  case (Some a)
  then have "a \<in> set (resources s)" "eq (description s a) fe" by (auto simp: searchWaitable_noLock_def find_Some_iff)
  then show ?thesis using assms(1) Some by (auto simp: addWaitable_def)
qed

lemma addDiskPartition_grows:
  assumes "unat lba = a" "unat n = c"
  shows "grows e {(t, a, c)} s (snd (addDiskPartition e t lba n s))"
proof -
  let ?fe = "partitionOf e (t, a, c)"
  obtain ok out rl where w: "addWaitable isDiskPartitionEqual (cancelling e) (nextResource s) ?fe (partitionList s) = (ok, out, rl)" by (metis prod_cases3)
  have fe: "?fe = \<lparr>enumName = diskName e, partitionType = t, partitionStart = lba, partitionSectors = n, partitionSectorSize = diskSectorSize e\<rparr>"
    using assms by (auto simp: partitionOf_def)
  show ?thesis
  proof (cases "t < MAX_DISK_TYPE \<and> length (diskName e) \<le> MAX_FILE_ENUM_NAME_LENGTH \<and> resourceOK e (nextResource s)")
    case True
    let ?s = "s\<lparr>partitionList := rl, nextResource := nextResource s + 1, enumerated := enumerated s @ out\<rparr>"
    have s: "snd (addDiskPartition e t lba n s) = ?s" using True w by (simp add: addDiskPartition_def createAddResource_def flip: fe)
    have "fresh ?s \<and> (\<exists>new. registered ?s = registered s @ new \<and> set new \<subseteq> {?fe}) \<and> (\<exists>fe\<in>set (registered ?s). isDiskPartitionEqual fe ?fe)" if f: "fresh s"
    proof -
      have "nextResource s \<notin> set (resources (partitionList s))" using f by (auto simp: fresh_def)
      from addWaitable_description [OF w this] show ?thesis using f
        by (cases ok) (auto simp: registered_def fresh_def less_Suc_eq)
    qed
    then show ?thesis using True unfolding s grows_def by fastforce
  next
    case False
    then have "snd (addDiskPartition e t lba n s) = s" by (auto simp: addDiskPartition_def createAddResource_def)
    then show ?thesis using False by (auto simp: grows_def memory_suffices_def)
  qed
qed

lemma entriesOn_Cons: "entriesOn e rel room (pe # pes) = (if fits rel room pe then
    (if systemID pe = MBR_EXTENDED then Collect (onDisk e (rel + unat (entryStartLBA pe)) (unat (entrySectorCount pe))) else {}) \<union>
    {(systemID pe, rel + unat (entryStartLBA pe), unat (entrySectorCount pe))} \<union> entriesOn e rel room pes else entriesOn e rel room pes)"
  by (auto simp: entriesOn_def)

lemma read_grows:
  "grows e (Collect (onDisk e (unat rel) (unat room))) s (readTable e rel room s)"
  "grows e (entriesOn e (unat rel') (unat room') pes) s' (readEntries e rel' room' pes s')"
proof (induction e rel room s and e rel' room' pes s' rule: readTable_readEntries.induct)
  case (1 e rel room s)
  then show ?case unfolding onDisk_table by (simp add: tableAt_def grows_none del: upt_rec_numeral split: option.split)
next
  case (2 e rel room s)
  then show ?case by (simp add: entriesOn_def grows_none)
next
  case (3 e rel room pe pes s)
  define lba where "lba = rel + ucast (entryStartLBA pe)"
  define n :: u64 where "n = ucast (entrySectorCount pe)"
  note fits = fits_checks [OF lba_def n_def, of room]
  show ?case
  proof (cases "fits (unat rel) (unat room) pe")
    case True
    define s1 where "s1 = (if systemID pe = MBR_EXTENDED then readTable e lba n s else s)"
    have v: "unat lba = unat rel + unat (entryStartLBA pe)" "unat n = unat (entrySectorCount pe)" using fits(2) [OF True] by auto
    have r: "readEntries e rel room (pe # pes) s = readEntries e rel room pes (snd (addDiskPartition e (systemID pe) lba n s1))"
      using True unfolding fits(1) by (simp add: s1_def lba_def n_def Let_def del: readTable.simps)
    have g1: "grows e (if systemID pe = MBR_EXTENDED then Collect (onDisk e (unat rel + unat (entryStartLBA pe)) (unat (entrySectorCount pe))) else {}) s s1"
      using 3(4) [OF lba_def n_def] True unfolding fits(1) s1_def v by (simp add: grows_none)
    have g3: "grows e (entriesOn e (unat rel) (unat room) pes) (snd (addDiskPartition e (systemID pe) lba n s1)) (readEntries e rel room pes (snd (addDiskPartition e (systemID pe) lba n s1)))"
      using 3(5) [OF lba_def n_def _ _ _ s1_def] True unfolding fits(1) by simp
    show ?thesis unfolding entriesOn_Cons r using True
      by (simp only: if_True) (rule grows_trans [OF grows_trans [OF g1 addDiskPartition_grows [OF v]] g3])
  next
    case False
    then have "readEntries e rel room (pe # pes) s = readEntries e rel room pes s" unfolding fits(1) lba_def n_def by (auto simp: Let_def)
    moreover have "grows e (entriesOn e (unat rel) (unat room) pes) s (readEntries e rel room pes s)"
      using 3(1-3) [OF lba_def n_def] False unfolding fits(1) by blast
    ultimately show ?thesis using False by (simp add: entriesOn_Cons)
  qed
qed

text \<open>C31: whatever the partition tables of a disk contain, reading them ends, and it registers exactly the partitions that the tables describe,
  those within extended partitions included: each lies behind the table that describes it, is not empty and ends within the disk; the
  partitions that were registered before stay. A partition is missing only if memory was short, its type is not one of the known range, or one
  of the same disk that starts at the same sector is registered already.\<close>

theorem readPartitions_correct:
  assumes "fresh s" "opened" "closed"
  shows "\<exists>s' new. readPartitions e opened closed sectorCount s = Some s' \<and> registered s' = registered s @ new \<and>
    (\<forall>fe\<in>set new. partitionSectorSize fe = diskSectorSize e \<and> enumName fe = diskName e \<and>
      onDisk e 0 (unat sectorCount) (partitionType fe, unat (partitionStart fe), unat (partitionSectors fe)) \<and>
      0 < partitionStart fe \<and> 0 < partitionSectors fe \<and> unat (partitionStart fe) + unat (partitionSectors fe) \<le> unat sectorCount) \<and>
    (memory_suffices e \<longrightarrow> (\<forall>t a n. onDisk e 0 (unat sectorCount) (t, a, n) \<and> t < MAX_DISK_TYPE \<longrightarrow>
      (\<exists>fe\<in>set (registered s'). isDiskPartitionEqual fe (partitionOf e (t, a, n)))))"
proof -
  let ?P = "Collect (onDisk e 0 (unat sectorCount))"
  obtain new where new: "registered (readTable e 0 sectorCount s) = registered s @ new" "\<forall>fe\<in>set new. \<exists>p\<in>?P. fst p < MAX_DISK_TYPE \<and> fe = partitionOf e p"
    and complete: "memory_suffices e \<longrightarrow> (\<forall>p\<in>?P. fst p < MAX_DISK_TYPE \<longrightarrow> (\<exists>fe\<in>set (registered (readTable e 0 sectorCount s)). isDiskPartitionEqual fe (partitionOf e p)))"
    using read_grows(1) [of e 0 sectorCount s] assms(1) unfolding grows_def by (auto simp del: readTable.simps)
  have "partitionSectorSize fe = diskSectorSize e \<and> enumName fe = diskName e \<and>
      onDisk e 0 (unat sectorCount) (partitionType fe, unat (partitionStart fe), unat (partitionSectors fe)) \<and>
      0 < partitionStart fe \<and> 0 < partitionSectors fe \<and> unat (partitionStart fe) + unat (partitionSectors fe) \<le> unat sectorCount" if "fe \<in> set new" for fe
  proof -
    obtain t a n where p: "onDisk e 0 (unat sectorCount) (t, a, n)" "fe = partitionOf e (t, a, n)" using new(2) \<open>fe \<in> set new\<close> by auto
    note w = onDisk_within [OF p(1)]
    have "a < 2 ^ 64" "n < 2 ^ 64" using w unsigned_less [of sectorCount, where 'a = nat] by simp_all
    then have "unat (partitionStart fe) = a" "unat (partitionSectors fe) = n" using p(2) by (simp_all add: partitionOf_def unat_of_nat_small)
    then show ?thesis using p w by (simp add: partitionOf_def word_less_nat_alt)
  qed
  then show ?thesis using new(1) complete assms(2,3)
    by (intro exI [of _ "readTable e 0 sectorCount s"] exI [of _ new]) (simp add: readPartitions_def Let_def kassert_def del: readTable.simps)
qed

text \<open>A disk of 100 sectors: sector 0 describes a FAT32 partition and an extended partition, whose table at sector 20 describes another one.\<close>

definition entryBytes :: "u8 \<Rightarrow> u8 \<Rightarrow> u8 \<Rightarrow> u8 list" where
  "entryBytes t start n = [0, 0, 0, 0, t, 0, 0, 0, start, 0, 0, 0, n, 0, 0, 0]"

definition smallEnv :: disk_env where
  "smallEnv = \<lparr>sectors = (\<lambda>offset size. if offset = 0 then Some (replicate 446 0 @ entryBytes 0x0b 1 19 @ entryBytes MBR_EXTENDED 20 30 @ replicate 34 0)
      else if offset = 20 * 512 then Some (replicate 446 0 @ entryBytes 0x0b 2 5 @ replicate 50 0) else None),
    memoryOK = (\<lambda>r. True), resourceOK = (\<lambda>r. True), cancelling = {}, diskName = [97], diskSectorSize = 512\<rparr>"

definition smallStart :: partition_state where
  "smallStart = \<lparr>partitionList = initResourceList \<lparr>enumName = [], partitionType = 0, partitionStart = 0, partitionSectors = 0, partitionSectorSize = 0\<rparr>,
    nextResource = 0, enumerated = []\<rparr>"

lemma smallTables:
  "\<exists>pes. tableAt smallEnv 0 = Some pes \<and> \<lparr>systemID = MBR_EXTENDED, entryStartLBA = 20, entrySectorCount = 30\<rparr> \<in> set pes"
  "\<exists>pes. tableAt smallEnv 20 = Some pes \<and> \<lparr>systemID = 0x0b, entryStartLBA = 2, entrySectorCount = 5\<rparr> \<in> set pes"
  by (simp_all add: tableAt_def smallEnv_def entryBytes_def loadPartitionEntry_def le32_def le16_def cstr_def nth_append upt_rec)

theorem readPartitions_correct_witness:
  "\<exists>s' fe. readPartitions smallEnv True True 100 smallStart = Some s' \<and> fe \<in> set (registered s') \<and>
    isDiskPartitionEqual fe (partitionOf smallEnv (0x0b, 22, 5))"
proof -
  obtain p q where t: "tableAt smallEnv 0 = Some p" "\<lparr>systemID = MBR_EXTENDED, entryStartLBA = 20, entrySectorCount = 30\<rparr> \<in> set p"
    "tableAt smallEnv 20 = Some q" "\<lparr>systemID = 0x0b, entryStartLBA = 2, entrySectorCount = 5\<rparr> \<in> set q" using smallTables by blast
  have "onDisk smallEnv 20 30 (0x0b, 22, 5)" using onDisk.primary [OF t(3,4), of 30] by (simp add: fits_def)
  then have "onDisk smallEnv 0 (unat (100 :: u64)) (0x0b, 22, 5)" using onDisk.logical [OF t(1,2)] by (simp add: fits_def)
  moreover have "memory_suffices smallEnv" by (simp add: memory_suffices_def smallEnv_def)
  moreover have "fresh smallStart" by (simp add: fresh_def smallStart_def initResourceList_def)
  ultimately show ?thesis using readPartitions_correct [of smallStart True True smallEnv 100] by fastforce
qed

end
