(* ===== verification/Buddy.thy ===== *)
theory Buddy
  imports DQueue
begin

text \<open>
  The buddy allocator of \<open>kernel/memory/buddy.c\<close>, which hands out blocks of \<open>2 ^ 12\<close> to
  \<open>2 ^ 30\<close> bytes. The physical and the linear memory manager are both built on it.

  A \<open>MemoryBlock *\<close> is represented by the index of the block in \<open>blockArray\<close>; the
  translations between address, index, element and block are modelled too, and
  \<open>blockToIndex_indexToBlock\<close> shows that the representation loses nothing. The free lists are
  the list view of \<open>DQueue\<close>. The field \<open>locked\<close> says that the spinlock of the manager is
  held. Results are \<open>None\<close> when an assertion of the code fails.
\<close>

abbreviation (input) MIN_BLOCK_ORDER :: nat where "MIN_BLOCK_ORDER \<equiv> 12"
abbreviation (input) MAX_BLOCK_ORDER :: nat where "MAX_BLOCK_ORDER \<equiv> 30"
abbreviation (input) MIN_BLOCK_SIZE :: nat where "MIN_BLOCK_SIZE \<equiv> 4096"

record MemoryBlockManager =
  locked :: bool
  beginAddress :: nat
  blockStructSize :: nat
  blockStructOffset :: nat
  blockCount :: nat
  freeSize :: u32
  freeBlock :: "nat \<Rightarrow> nat list"
  blockArray :: nat
  sizeOrder :: "nat \<Rightarrow> nat"

text \<open>The elements of \<open>blockArray\<close> are structures that contain a \<open>MemoryBlock\<close>
  and more; the extensions of the record hold the other members.\<close>

type_synonym 'a mbm = "'a MemoryBlockManager_scheme"

text \<open>The spinlock of the manager. A second \<open>acquireLock\<close> on the same processor never returns.\<close>

definition acquireLock :: "'a mbm \<Rightarrow> 'a mbm option" where
  "acquireLock m = (if locked m then None else Some (m\<lparr>locked := True\<rparr>))"

definition releaseLock :: "'a mbm \<Rightarrow> 'a mbm option" where
  "releaseLock m = (if locked m then Some (m\<lparr>locked := False\<rparr>) else None)"

subsection \<open>Addresses, indices, elements and blocks\<close>

definition isAddressInRange :: "'a mbm \<Rightarrow> nat \<Rightarrow> bool" where
  "isAddressInRange m address =
    (if address mod MIN_BLOCK_SIZE \<noteq> 0 then False
     else if address < beginAddress m then False
     else if (address - beginAddress m) div MIN_BLOCK_SIZE \<ge> blockCount m then False
     else True)"

definition addressToIndex :: "'a mbm \<Rightarrow> nat \<Rightarrow> nat option" where
  "addressToIndex m address = do {
    kassert (isAddressInRange m address);
    Some ((address - beginAddress m) div MIN_BLOCK_SIZE)
  }"

definition indexToAddress :: "'a mbm \<Rightarrow> nat \<Rightarrow> nat" where
  "indexToAddress m index = beginAddress m + index * MIN_BLOCK_SIZE"

definition indexToElement :: "'a mbm \<Rightarrow> nat \<Rightarrow> nat" where
  "indexToElement m index = blockArray m + index * blockStructSize m"

definition elementToIndex :: "'a mbm \<Rightarrow> nat \<Rightarrow> nat" where
  "elementToIndex m element = (element - blockArray m) div blockStructSize m"

definition elementToBlock :: "'a mbm \<Rightarrow> nat \<Rightarrow> nat" where
  "elementToBlock m element = element + blockStructOffset m"

definition blockToElement :: "'a mbm \<Rightarrow> nat \<Rightarrow> nat" where
  "blockToElement m block = block - blockStructOffset m"

definition blockToIndex :: "'a mbm \<Rightarrow> nat \<Rightarrow> nat" where
  "blockToIndex m mb = elementToIndex m (blockToElement m mb)"

definition indexToBlock :: "'a mbm \<Rightarrow> nat \<Rightarrow> nat" where
  "indexToBlock m index = elementToBlock m (indexToElement m index)"

definition addressToElement :: "'a mbm \<Rightarrow> nat \<Rightarrow> nat option" where
  "addressToElement m address = map_option (indexToElement m) (addressToIndex m address)"

definition blockToAddress :: "'a mbm \<Rightarrow> nat \<Rightarrow> nat" where
  "blockToAddress m mb = indexToAddress m (blockToIndex m mb)"

definition elementToAddress :: "'a mbm \<Rightarrow> nat \<Rightarrow> nat" where
  "elementToAddress m element = blockToAddress m (elementToBlock m element)"

definition addressToBlock :: "'a mbm \<Rightarrow> nat \<Rightarrow> nat option" where
  "addressToBlock m address = map_option (elementToBlock m) (addressToElement m address)"

lemma blockToIndex_indexToBlock [simp]:
  "0 < blockStructSize m \<Longrightarrow> blockToIndex m (indexToBlock m i) = i"
  by (simp add: blockToIndex_def indexToBlock_def elementToBlock_def blockToElement_def
      elementToIndex_def indexToElement_def)

lemma indexToBlock_less_iff:
  "0 < blockStructSize m \<Longrightarrow> indexToBlock m i < indexToBlock m j \<longleftrightarrow> i < j"
  by (simp add: indexToBlock_def elementToBlock_def indexToElement_def)

lemma lock_address [simp]:
  "isAddressInRange (m\<lparr>locked := v\<rparr>) = isAddressInRange m"
  "addressToIndex (m\<lparr>locked := v\<rparr>) = addressToIndex m"
  "indexToAddress (m\<lparr>locked := v\<rparr>) = indexToAddress m"
  by (simp_all add: isAddressInRange_def addressToIndex_def indexToAddress_def fun_eq_iff)

lemma isAddressInRange_indexToAddress:
  "beginAddress m mod MIN_BLOCK_SIZE = 0 \<Longrightarrow>
    isAddressInRange m (indexToAddress m i) \<longleftrightarrow> i < blockCount m"
  by (auto simp: isAddressInRange_def indexToAddress_def)

lemma addressToIndex_indexToAddress:
  "beginAddress m mod MIN_BLOCK_SIZE = 0 \<Longrightarrow> i < blockCount m \<Longrightarrow>
    addressToIndex m (indexToAddress m i) = Some i"
  by (simp add: addressToIndex_def isAddressInRange_indexToAddress) (simp add: indexToAddress_def)

lemma isAddressInRange_cases:
  assumes "isAddressInRange m a" "beginAddress m mod MIN_BLOCK_SIZE = 0"
  obtains i where "i < blockCount m" "a = indexToAddress m i"
proof
  let ?i = "(a - beginAddress m) div MIN_BLOCK_SIZE"
  show "?i < blockCount m" using assms(1) by (auto simp: isAddressInRange_def split: if_splits)
  have "beginAddress m \<le> a" "MIN_BLOCK_SIZE dvd a - beginAddress m"
    using assms by (auto simp: isAddressInRange_def dvd_diff_nat mod_eq_0_iff_dvd split: if_splits)
  then show "a = indexToAddress m ?i" by (simp add: indexToAddress_def)
qed

subsection \<open>Free lists\<close>

definition isFree :: "'a mbm \<Rightarrow> nat \<Rightarrow> bool" where
  "isFree m b = list_ex (\<lambda>k. b \<in> set (freeBlock m k)) [0..<MAX_BLOCK_ORDER - MIN_BLOCK_ORDER + 1]"

definition removeFreeBlock :: "nat \<Rightarrow> 'a mbm \<Rightarrow> 'a mbm" where
  "removeFreeBlock b m = m\<lparr>freeBlock := (\<lambda>k. remove1 b (freeBlock m k))\<rparr>"

definition addFreeBlock :: "nat \<Rightarrow> 'a mbm \<Rightarrow> 'a mbm" where
  "addFreeBlock b m = (let k = sizeOrder m b - MIN_BLOCK_ORDER in
    m\<lparr>freeBlock := (freeBlock m)(k := b # freeBlock m k)\<rparr>)"

definition setSizeOrder :: "nat \<Rightarrow> nat \<Rightarrow> 'a mbm \<Rightarrow> 'a mbm" where
  "setSizeOrder b k m = m\<lparr>sizeOrder := (sizeOrder m)(b := k)\<rparr>"

definition getBuddy :: "'a mbm \<Rightarrow> nat \<Rightarrow> nat option option" where
  "getBuddy m b = do {
    kassert (locked m);
    let buddy = b XOR (2 ^ (sizeOrder m b - MIN_BLOCK_ORDER)) in
    Some (if buddy \<ge> blockCount m then None else Some buddy)
  }"

function orderFrom :: "nat \<Rightarrow> nat \<Rightarrow> nat" where
  "orderFrom i s = (if 2 ^ i < s then orderFrom (Suc i) s else i)"
  by pat_completeness auto
termination by (relation "measure (\<lambda>(i, s). s - 2 ^ i)") (auto intro: diff_less_mono2)

declare orderFrom.simps [simp del]

definition ceilAllocateOrder :: "nat \<Rightarrow> nat" where
  "ceilAllocateOrder s =
    (if s > 2 ^ MAX_BLOCK_ORDER then MAX_BLOCK_ORDER + 1 else orderFrom MIN_BLOCK_ORDER s)"

function findFreeBlock :: "'a mbm \<Rightarrow> nat \<Rightarrow> nat option" where
  "findFreeBlock m ord =
    (if ord > MAX_BLOCK_ORDER then None
     else case freeBlock m (ord - MIN_BLOCK_ORDER) of
       b # _ \<Rightarrow> Some b
     | [] \<Rightarrow> findFreeBlock m (Suc ord))"
  by pat_completeness auto
termination by (relation "measure (\<lambda>(m, ord). 31 - ord)") auto

declare findFreeBlock.simps [simp del]

subsection \<open>Allocation\<close>

text \<open>One round of the loop that halves the block \<open>b\<close>. With \<open>sizeOrder\<close> below
  \<open>MIN_BLOCK_ORDER\<close> the shift in \<open>getBuddy\<close> would be negative; the model stops there.\<close>

definition splitStep :: "nat \<Rightarrow> 'a mbm \<Rightarrow> 'a mbm option" where
  "splitStep b m = (if sizeOrder m b \<le> MIN_BLOCK_ORDER then None else
    let m = setSizeOrder b (sizeOrder m b - 1) m in do {
      buddy \<leftarrow> getBuddy m b;
      (case buddy of None \<Rightarrow> None | Some b2 \<Rightarrow> do {
        kassert (b2 > b);
        kassert (\<not> isFree m b2 \<and> sizeOrder m b2 = sizeOrder m b);
        Some (addFreeBlock b2 m)
      })
    })"

lemma splitStep_sizeOrder:
  "splitStep b m = Some m' \<Longrightarrow> Suc (sizeOrder m' b) = sizeOrder m b"
  by (auto simp: splitStep_def Let_def addFreeBlock_def setSizeOrder_def
      split: if_splits bind_splits option.splits)

function splitBlock :: "nat \<Rightarrow> nat \<Rightarrow> 'a mbm \<Rightarrow> 'a mbm option" where
  "splitBlock so b m = (if sizeOrder m b = so then Some m else
    (case splitStep b m of None \<Rightarrow> None | Some m' \<Rightarrow> splitBlock so b m'))"
  by pat_completeness auto
termination
  by (relation "measure (\<lambda>(so, b, m). sizeOrder m b)") (auto dest: splitStep_sizeOrder)

declare splitBlock.simps [simp del]

fun takeBlocks :: "nat \<Rightarrow> nat \<Rightarrow> nat \<Rightarrow> nat \<Rightarrow> 'a mbm \<Rightarrow> 'a mbm option" where
  "takeBlocks so step b 0 m = Some m"
| "takeBlocks so step b (Suc n) m = do {
    kassert (isFree m b);
    m \<leftarrow> splitBlock so b (removeFreeBlock b m);
    takeBlocks so step (b + step) n m
  }"

definition allocateBlock_noLock ::
    "'a mbm \<Rightarrow> nat \<Rightarrow> nat \<Rightarrow> (nat option \<times> 'a mbm) option" where
  "allocateBlock_noLock m s splitSize = do {
    kassert (locked m);
    let ao = ceilAllocateOrder s in
    if ao > MAX_BLOCK_ORDER then Some (None, m) else
    (case findFreeBlock m ao of None \<Rightarrow> Some (None, m) | Some b0 \<Rightarrow> do {
      (so, splitSize) \<leftarrow>
        (if splitSize \<ge> s then Some (ao, 2 ^ ao)
         else do {
           kassert (2 ^ ceilAllocateOrder splitSize = splitSize);
           Some (ceilAllocateOrder splitSize, splitSize)
         });
      let splitBlockCount = DIV_CEIL s splitSize;
      m \<leftarrow> takeBlocks so (splitSize div MIN_BLOCK_SIZE) b0 splitBlockCount m;
      Some (Some b0, m\<lparr>freeSize := freeSize m - of_nat (splitBlockCount * splitSize)\<rparr>)
    })
  }"

subsection \<open>Release\<close>

definition distance :: "nat \<Rightarrow> nat \<Rightarrow> nat" where
  "distance a1 a2 = (if a1 > a2 then a1 - a2 else a2 - a1)"

function mergeBlock :: "nat \<Rightarrow> 'a mbm \<Rightarrow> (nat \<times> 'a mbm) option" where
  "mergeBlock b m = (if sizeOrder m b < MAX_BLOCK_ORDER then do {
      buddy \<leftarrow> getBuddy m b;
      (case buddy of None \<Rightarrow> Some (b, m) | Some buddy \<Rightarrow>
        if \<not> sizeOrder m buddy \<le> sizeOrder m b then None
        else if \<not> isFree m buddy \<or> sizeOrder m buddy \<noteq> sizeOrder m b then Some (b, m)
        else if distance (indexToAddress m b) (indexToAddress m buddy) \<noteq> 2 ^ sizeOrder m b then None
        else let b' = (if b < buddy then b else buddy) in
          mergeBlock b' (setSizeOrder b' (sizeOrder m b' + 1) (removeFreeBlock buddy m)))
    } else Some (b, m))"
  by pat_completeness auto
termination
  by (relation "measure (\<lambda>(b, m). MAX_BLOCK_ORDER - sizeOrder m b)")
    (auto simp: setSizeOrder_def removeFreeBlock_def)

declare mergeBlock.simps [simp del]

definition releaseBlock_noLock :: "'a mbm \<Rightarrow> nat \<Rightarrow> 'a mbm option" where
  "releaseBlock_noLock m b = do {
    let m = m\<lparr>freeSize := freeSize m + of_nat (2 ^ sizeOrder m b)\<rparr>;
    kassert (\<not> isFree m b);
    (b, m) \<leftarrow> mergeBlock b m;
    Some (addFreeBlock b m)
  }"

lemma mergeBlock_blockCount:
  "mergeBlock b m = Some (b', m') \<Longrightarrow> blockCount m' = blockCount m"
proof (induction b m rule: mergeBlock.induct)
  case (1 b m)
  have upd: "blockCount (setSizeOrder x k (removeFreeBlock y m)) = blockCount m" for x y k
    by (simp add: setSizeOrder_def removeFreeBlock_def)
  from 1(2) show ?case
    using 1(1) by (subst (asm) mergeBlock.simps)
      (auto simp: Let_def upd split: if_splits bind_splits option.splits)
qed

lemma releaseBlock_noLock_blockCount:
  "releaseBlock_noLock m b = Some m' \<Longrightarrow> blockCount m' = blockCount m"
  by (auto simp: releaseBlock_noLock_def Let_def addFreeBlock_def kassert_def
      dest!: mergeBlock_blockCount split: bind_splits if_splits)

definition getFreeBlockSize :: "'a mbm \<Rightarrow> u32" where
  "getFreeBlockSize m = freeSize m"

subsection \<open>Initialisation\<close>

definition initMemoryBlock :: "nat \<Rightarrow> 'a mbm \<Rightarrow> 'a mbm" where
  "initMemoryBlock b m = m\<lparr>sizeOrder := (sizeOrder m)(b := MIN_BLOCK_ORDER)\<rparr>"

definition resetBlockArray :: "'a mbm \<Rightarrow> nat \<Rightarrow> (nat \<Rightarrow> 'a mbm \<Rightarrow> 'a mbm) \<Rightarrow> 'a mbm" where
  "resetBlockArray bm initialBlockCount initBlockFunc =
    (fold initBlockFunc [0..<initialBlockCount]
      (bm\<lparr>blockCount := initialBlockCount, freeSize := 0\<rparr>))
        \<lparr>freeBlock := \<lambda>_. []\<rparr>"

definition evaluateBlockCount :: "nat \<Rightarrow> nat \<Rightarrow> nat option" where
  "evaluateBlockCount beginAddr endAddr = do {
    kassert (beginAddr mod MIN_BLOCK_SIZE = 0);
    Some ((endAddr - beginAddr) div MIN_BLOCK_SIZE)
  }"

definition initMemoryBlockManager ::
    "'a mbm \<Rightarrow> nat \<Rightarrow> nat \<Rightarrow> nat \<Rightarrow> nat \<Rightarrow> (nat \<Rightarrow> 'a mbm \<Rightarrow> 'a mbm) \<Rightarrow> 'a mbm option" where
  "initMemoryBlockManager bm structSize structOffset beginAddr endAddr initBlockFunc = do {
    n \<leftarrow> evaluateBlockCount beginAddr endAddr;
    Some (resetBlockArray (bm\<lparr>locked := False, blockStructSize := structSize,
      blockStructOffset := structOffset, beginAddress := beginAddr\<rparr>) n initBlockFunc)
  }"

definition evaluateMemoryBlockManagerEnd ::
    "'a mbm \<Rightarrow> nat \<Rightarrow> nat \<Rightarrow> nat \<Rightarrow> nat option" where
  "evaluateMemoryBlockManagerEnd bm structSize beginAddr endAddr =
    map_option (\<lambda>n. blockArray bm + structSize * n) (evaluateBlockCount beginAddr endAddr)"

section \<open>Well-formed states\<close>

text \<open>Block \<open>j\<close> spans the frames (units of \<open>MIN_BLOCK_SIZE\<close>) from \<open>j\<close> on. An index inside the
  span of a lower block is covered: its \<open>MemoryBlock\<close> keeps the order it had when it was merged
  into that block. The others are the blocks in use; they are either free or allocated.\<close>

definition rord :: "'a mbm \<Rightarrow> nat \<Rightarrow> nat" where
  "rord m j = sizeOrder m j - MIN_BLOCK_ORDER"

definition frames :: "'a mbm \<Rightarrow> nat \<Rightarrow> nat set" where
  "frames m j = {j..<j + 2 ^ rord m j}"

definition covered :: "'a mbm \<Rightarrow> nat \<Rightarrow> bool" where
  "covered m j \<longleftrightarrow> (\<exists>h<j. j < h + 2 ^ rord m h)"

definition freeFrames :: "'a mbm \<Rightarrow> nat set" where
  "freeFrames m = (\<Union>j\<in>{j. isFree m j}. frames m j)"

definition allocated :: "'a mbm \<Rightarrow> nat set" where
  "allocated m = {j. j < blockCount m \<and> \<not> covered m j \<and> \<not> isFree m j}"

definition block_ok :: "'a mbm \<Rightarrow> nat \<Rightarrow> bool" where
  "block_ok m j \<longleftrightarrow> MIN_BLOCK_ORDER \<le> sizeOrder m j \<and> sizeOrder m j \<le> MAX_BLOCK_ORDER \<and>
    2 ^ rord m j dvd j \<and> j + 2 ^ rord m j \<le> blockCount m \<and>
    (covered m j \<longrightarrow> \<not> 2 ^ Suc (rord m j) dvd j)"

definition queue_ok :: "'a mbm \<Rightarrow> nat \<Rightarrow> bool" where
  "queue_ok m k \<longleftrightarrow> distinct (freeBlock m k) \<and>
    (\<forall>j\<in>set (freeBlock m k). j < blockCount m \<and> rord m j = k \<and> \<not> covered m j)"

definition coalesced :: "'a mbm \<Rightarrow> bool" where
  "coalesced m \<longleftrightarrow> (\<forall>j. isFree m j \<and> rord m j < 18 \<longrightarrow>
    \<not> (isFree m (j XOR 2 ^ rord m j) \<and> rord m (j XOR 2 ^ rord m j) = rord m j))"

definition buddy_wf :: "'a mbm \<Rightarrow> bool" where
  "buddy_wf m \<longleftrightarrow> (\<forall>j<blockCount m. block_ok m j) \<and> (\<forall>k. queue_ok m k) \<and> coalesced m"

definition buddy_inv :: "'a mbm \<Rightarrow> bool" where
  "buddy_inv m \<longleftrightarrow> buddy_wf m \<and> freeSize m = of_nat (MIN_BLOCK_SIZE * card (freeFrames m))"

subsection \<open>Powers of two\<close>

lemma xor_power_twice: "(i XOR 2 ^ k) XOR 2 ^ k = (i :: nat)"
  by (simp add: xor.assoc)

lemma xor_power_neq: "i XOR 2 ^ k \<noteq> (i :: nat)"
proof
  assume "i XOR 2 ^ k = i"
  then have "i XOR (i XOR 2 ^ k) = i XOR i" by simp
  then show False by (simp flip: xor.assoc)
qed

lemma xor_power_lower: "2 ^ Suc k dvd (i::nat) \<Longrightarrow> i XOR 2 ^ k = i + 2 ^ k"
proof -
  assume "2 ^ Suc k dvd i"
  then obtain q where q: "i = 2 ^ k * (2 * q)" by (auto simp: dvd_def)
  then have "\<not> bit i k" by (simp add: bit_iff_odd)
  then have "i AND 2 ^ k = 0"
    by (auto intro!: bit_eqI simp: bit_and_iff bit_exp_iff)
  then show ?thesis by (simp add: disjunctive_add_eq_xor)
qed

lemma xor_power_upper: "2 ^ Suc k dvd (i::nat) \<Longrightarrow> (i + 2 ^ k) XOR 2 ^ k = i"
  by (metis xor_power_lower xor_power_twice)

lemma dvd_power_cases:
  assumes "2 ^ k dvd (i::nat)"
  obtains "2 ^ Suc k dvd i" | j where "i = j + 2 ^ k" "2 ^ Suc k dvd j"
proof -
  from assms obtain q where q: "i = 2 ^ k * q" by (auto simp: dvd_def)
  show ?thesis
  proof (cases "even q")
    case True
    then show ?thesis using that(1) q by (auto simp: dvd_def)
  next
    case False
    then obtain p where "q = 2 * p + 1" by (auto elim: oddE)
    then have "i = 2 ^ Suc k * p + 2 ^ k" using q by (simp add: algebra_simps)
    then show ?thesis using that(2) by simp
  qed
qed

lemma dvd_gap: "(d::nat) dvd x \<Longrightarrow> d dvd y \<Longrightarrow> x < y \<Longrightarrow> x + d \<le> y"
  by (metis dvd_diff_nat dvd_imp_le le_diff_conv2 less_imp_le_nat add.commute zero_less_diff)

lemma not_dvd_upper: "2 ^ Suc k dvd (i::nat) \<Longrightarrow> \<not> 2 ^ Suc k dvd i + 2 ^ k"
proof
  assume i: "2 ^ Suc k dvd i" and "2 ^ Suc k dvd i + 2 ^ k"
  then have "2 ^ Suc k dvd (2::nat) ^ k" by (simp add: dvd_add_right_iff)
  then have "(2::nat) ^ Suc k \<le> 2 ^ k" by (rule dvd_imp_le) simp
  then show False by simp
qed

lemma half_less: "b + 2 ^ Suc k \<le> n \<Longrightarrow> b + 2 ^ k < (n::nat)"
  by (rule less_le_trans) simp_all

lemma exact_power_unique:
  assumes "2 ^ r dvd (x::nat)" "\<not> 2 ^ Suc r dvd x" "2 ^ k dvd x" "\<not> 2 ^ Suc k dvd x"
  shows "r = k"
  using assms by (metis le_imp_power_dvd power_le_dvd not_less_eq_eq le_antisym nle_le)

subsection \<open>Facts about well-formed states\<close>

lemma buddy_wfD:
  assumes "buddy_wf m"
  shows "j < blockCount m \<Longrightarrow> block_ok m j" and "queue_ok m k" and "coalesced m"
  using assms by (auto simp: buddy_wf_def)

lemma block_okD:
  assumes "block_ok m j"
  shows "sizeOrder m j = rord m j + MIN_BLOCK_ORDER" "rord m j \<le> 18" "2 ^ rord m j dvd j"
    "j + 2 ^ rord m j \<le> blockCount m"
  using assms by (auto simp: block_ok_def rord_def)

lemma isFree_iff:
  assumes "buddy_wf m"
  shows "isFree m j \<longleftrightarrow> (\<exists>k. j \<in> set (freeBlock m k))"
proof
  assume "\<exists>k. j \<in> set (freeBlock m k)"
  then obtain k where k: "j \<in> set (freeBlock m k)" by blast
  then have "j < blockCount m" "rord m j = k"
    using buddy_wfD(2) [OF assms, of k] by (auto simp: queue_ok_def)
  then have "k \<le> 18" using buddy_wfD(1) [OF assms, of j] by (auto simp: block_ok_def rord_def)
  with k show "isFree m j" by (auto simp: isFree_def list_ex_iff intro!: bexI [of _ k])
qed (auto simp: isFree_def list_ex_iff)

lemma isFreeD:
  assumes "buddy_wf m" and "isFree m j"
  shows "j < blockCount m" and "\<not> covered m j" and "j \<in> set (freeBlock m (rord m j))"
proof -
  from assms obtain k where k: "j \<in> set (freeBlock m k)" unfolding isFree_iff [OF assms(1)] by blast
  with buddy_wfD(2) [OF assms(1), of k] have *: "j < blockCount m \<and> rord m j = k \<and> \<not> covered m j"
    by (simp add: queue_ok_def)
  with k show "j < blockCount m" "\<not> covered m j" "j \<in> set (freeBlock m (rord m j))" by simp_all
qed

lemma in_freeBlock:
  assumes "buddy_wf m"
  shows "j \<in> set (freeBlock m k) \<longleftrightarrow> isFree m j \<and> rord m j = k"
proof
  assume "j \<in> set (freeBlock m k)"
  then show "isFree m j \<and> rord m j = k"
    using isFree_iff [OF assms] buddy_wfD(2) [OF assms, of k] by (auto simp: queue_ok_def)
qed (use isFreeD(3) [OF assms] in auto)

lemma allocatedD:
  "j \<in> allocated m \<Longrightarrow> j < blockCount m" "j \<in> allocated m \<Longrightarrow> \<not> covered m j"
  "j \<in> allocated m \<Longrightarrow> \<not> isFree m j"
  by (simp_all add: allocated_def)

lemma frames_self [simp]: "j \<in> frames m j"
  by (simp add: frames_def)

lemma card_frames [simp]: "card (frames m j) = 2 ^ rord m j" and finite_frames [simp]: "finite (frames m j)"
  by (simp_all add: frames_def)

lemma frames_disjoint:
  assumes "\<not> covered m i" and "\<not> covered m j" and "i \<noteq> j"
  shows "frames m i \<inter> frames m j = {}"
proof (rule ccontr)
  assume "frames m i \<inter> frames m j \<noteq> {}"
  then have "(i < j \<and> j < i + 2 ^ rord m i) \<or> (j < i \<and> i < j + 2 ^ rord m j)"
    using assms(3) by (auto simp: frames_def)
  with assms(1,2) show False unfolding covered_def by blast
qed

lemma frames_freeFrames_disjoint:
  assumes "buddy_wf m" and "\<not> covered m j" and "\<not> isFree m j"
  shows "frames m j \<inter> freeFrames m = {}"
proof -
  have "frames m j \<inter> frames m i = {}" if "isFree m i" for i
    using frames_disjoint [OF assms(2) isFreeD(2) [OF assms(1) that]] assms(3) that by blast
  then show ?thesis unfolding freeFrames_def by blast
qed

lemma finite_freeFrames [simp]: "buddy_wf m \<Longrightarrow> finite (freeFrames m)"
  unfolding freeFrames_def
  by (intro finite_UN_I) (auto intro: finite_subset [of _ "{..<blockCount m}"] dest: isFreeD(1))

lemma freeFrames_bound: "buddy_wf m \<Longrightarrow> freeFrames m \<subseteq> {..<blockCount m}"
proof
  fix f assume wf: "buddy_wf m" and "f \<in> freeFrames m"
  then obtain j where j: "isFree m j" "f \<in> frames m j" by (auto simp: freeFrames_def)
  then have "j + 2 ^ rord m j \<le> blockCount m"
    using buddy_wfD(1) [OF wf isFreeD(1) [OF wf j(1)]] by (simp add: block_ok_def)
  then show "f \<in> {..<blockCount m}" using j(2) by (auto simp: frames_def)
qed

text \<open>The frame that follows a block is the start of a free block as soon as it is free.\<close>

lemma next_frame_isFree:
  assumes "buddy_wf m" and "b \<in> allocated m" and "b + 2 ^ rord m b \<in> freeFrames m"
  shows "isFree m (b + 2 ^ rord m b)"
proof -
  from assms(3) obtain j where j: "isFree m j" "b + 2 ^ rord m b \<in> frames m j"
    by (auto simp: freeFrames_def)
  have "\<not> j < b + 2 ^ rord m b"
  proof
    assume "j < b + 2 ^ rord m b"
    moreover have "j \<noteq> b" using allocatedD(3) [OF assms(2)] j(1) by blast
    moreover have "b + 2 ^ rord m b < j + 2 ^ rord m j" using j(2) by (simp add: frames_def)
    ultimately have "covered m j \<or> covered m b"
      unfolding covered_def by (metis add_lessD1 linorder_neqE_nat)
    then show False using isFreeD(2) [OF assms(1) j(1)] allocatedD(2) [OF assms(2)] by blast
  qed
  then have "j = b + 2 ^ rord m b" using j(2) by (auto simp: frames_def)
  then show ?thesis using j(1) by simp
qed

subsection \<open>Removing and adding a free block\<close>

lemma update_simps [simp]:
  "sizeOrder (removeFreeBlock b m) = sizeOrder m" "sizeOrder (addFreeBlock b m) = sizeOrder m"
  "sizeOrder (setSizeOrder b k m) = (sizeOrder m)(b := k)"
  "blockCount (removeFreeBlock b m) = blockCount m" "blockCount (addFreeBlock b m) = blockCount m"
  "blockCount (setSizeOrder b k m) = blockCount m"
  "freeSize (removeFreeBlock b m) = freeSize m" "freeSize (addFreeBlock b m) = freeSize m"
  "freeSize (setSizeOrder b k m) = freeSize m"
  "locked (removeFreeBlock b m) = locked m" "locked (addFreeBlock b m) = locked m"
  "locked (setSizeOrder b k m) = locked m"
  "beginAddress (removeFreeBlock b m) = beginAddress m" "beginAddress (addFreeBlock b m) = beginAddress m"
  "beginAddress (setSizeOrder b k m) = beginAddress m"
  "rord (removeFreeBlock b m) = rord m" "rord (addFreeBlock b m) = rord m"
  "covered (removeFreeBlock b m) = covered m" "covered (addFreeBlock b m) = covered m"
  "frames (removeFreeBlock b m) = frames m" "frames (addFreeBlock b m) = frames m"
  "isFree (setSizeOrder b k m) = isFree m" "freeBlock (setSizeOrder b k m) = freeBlock m"
  by (auto simp: removeFreeBlock_def addFreeBlock_def setSizeOrder_def Let_def rord_def fun_eq_iff
      covered_def frames_def isFree_def)

lemma rord_setSizeOrder: "rord (setSizeOrder b k m) = (rord m)(b := k - MIN_BLOCK_ORDER)"
  by (auto simp: rord_def)

lemma isFree_removeFreeBlock:
  assumes "buddy_wf m"
  shows "isFree (removeFreeBlock b m) j \<longleftrightarrow> isFree m j \<and> j \<noteq> b"
proof -
  have "distinct (freeBlock m k)" for k using buddy_wfD(2) [OF assms] by (simp add: queue_ok_def)
  then show ?thesis by (auto simp: isFree_def list_ex_iff removeFreeBlock_def)
qed

lemma isFree_addFreeBlock:
  "sizeOrder m b \<le> MAX_BLOCK_ORDER \<Longrightarrow> isFree (addFreeBlock b m) j \<longleftrightarrow> isFree m j \<or> j = b"
proof -
  assume "sizeOrder m b \<le> MAX_BLOCK_ORDER"
  then have "sizeOrder m b - MIN_BLOCK_ORDER \<in> {0..<19}" by auto
  then show ?thesis
    unfolding isFree_def list_ex_iff addFreeBlock_def Let_def by (auto split: if_splits)
      (metis atLeastLessThan_iff less_eq_nat.simps(1))+
qed

lemma block_ok_cong:
  assumes "sizeOrder m' j = sizeOrder m j" "blockCount m' = blockCount m"
    "covered m' j \<Longrightarrow> covered m j \<or> \<not> 2 ^ Suc (rord m j) dvd j"
  shows "block_ok m j \<Longrightarrow> block_ok m' j"
  using assms by (auto simp: block_ok_def rord_def)

lemma removeFreeBlock_wf:
  assumes "buddy_wf m" and "isFree m b"
  shows "buddy_wf (removeFreeBlock b m)"
    and "allocated (removeFreeBlock b m) = insert b (allocated m)"
    and "freeFrames (removeFreeBlock b m) = freeFrames m - frames m b"
proof -
  let ?m = "removeFreeBlock b m"
  note free = isFree_removeFreeBlock [OF assms(1), of b]
  have "queue_ok ?m k" for k
    using buddy_wfD(2) [OF assms(1), of k] by (auto simp: queue_ok_def removeFreeBlock_def rord_def
        covered_def dest: notin_set_remove1)
  moreover have "coalesced ?m"
    using buddy_wfD(3) [OF assms(1)] by (auto simp: coalesced_def free)
  ultimately show "buddy_wf ?m"
    using buddy_wfD(1) [OF assms(1)] block_ok_cong [of ?m _ m] by (simp add: buddy_wf_def)
  show "allocated ?m = insert b (allocated m)"
    using isFreeD [OF assms] by (auto simp: allocated_def free)
  have "frames m b \<inter> frames m j = {}" if "isFree m j" "j \<noteq> b" for j
    using frames_disjoint [of m b j] isFreeD(2) [OF assms] isFreeD(2) [OF assms(1) that(1)] that(2)
    by blast
  then show "freeFrames ?m = freeFrames m - frames m b"
    unfolding freeFrames_def by (auto simp: free disjoint_iff)
qed

lemma addFreeBlock_wf:
  assumes "buddy_wf m" and "b \<in> allocated m"
    and "rord m b < 18 \<Longrightarrow>
      \<not> (isFree m (b XOR 2 ^ rord m b) \<and> rord m (b XOR 2 ^ rord m b) = rord m b)"
  shows "buddy_wf (addFreeBlock b m)"
    and "allocated (addFreeBlock b m) = allocated m - {b}"
    and "freeFrames (addFreeBlock b m) = freeFrames m \<union> frames m b"
proof -
  let ?m = "addFreeBlock b m"
  note b = allocatedD [OF assms(2)]
  have so: "sizeOrder m b \<le> MAX_BLOCK_ORDER"
    using buddy_wfD(1) [OF assms(1) b(1)] by (simp add: block_ok_def)
  note free = isFree_addFreeBlock [OF so]
  have "queue_ok ?m k" for k
    using buddy_wfD(2) [OF assms(1), of k] b isFree_iff [OF assms(1), of b]
    by (auto simp: queue_ok_def addFreeBlock_def rord_def covered_def Let_def)
  moreover have "coalesced ?m"
    unfolding coalesced_def
  proof (intro allI impI, elim conjE)
    fix j assume j: "isFree ?m j" "rord ?m j < 18"
    let ?i = "j XOR 2 ^ rord m j"
    show "\<not> (isFree ?m (j XOR 2 ^ rord ?m j) \<and> rord ?m (j XOR 2 ^ rord ?m j) = rord ?m j)"
    proof
      assume "isFree ?m (j XOR 2 ^ rord ?m j) \<and> rord ?m (j XOR 2 ^ rord ?m j) = rord ?m j"
      then have i: "isFree m ?i \<or> ?i = b" "rord m ?i = rord m j" by (auto simp: free)
      have again: "?i XOR 2 ^ rord m j = j" by (rule xor_power_twice)
      have neq: "?i \<noteq> j" by (rule xor_power_neq)
      consider "isFree m ?i" "isFree m j" | "?i = b" "isFree m j" | "j = b" "isFree m ?i"
        using i(1) j(1) neq by (auto simp: free)
      then show False
        using assms(3) again i(2) j(2) buddy_wfD(3) [OF assms(1)] unfolding coalesced_def
        by cases (metis update_simps(17))+
    qed
  qed
  ultimately show "buddy_wf ?m"
    using buddy_wfD(1) [OF assms(1)] block_ok_cong [of ?m _ m] by (simp add: buddy_wf_def)
  show "allocated ?m = allocated m - {b}" by (auto simp: allocated_def free)
  show "freeFrames ?m = freeFrames m \<union> frames m b" by (auto simp: freeFrames_def free)
qed

subsection \<open>Halving and joining blocks\<close>

lemma halve_covered:
  assumes "buddy_wf m" and "b \<in> allocated m" and "rord m b = Suc k" and "j < blockCount m"
  shows "covered (setSizeOrder b (sizeOrder m b - 1) m) j \<longleftrightarrow> covered m j \<and> j \<noteq> b + 2 ^ k"
    (is "covered ?m j \<longleftrightarrow> _")
proof -
  note b = allocatedD [OF assms(2)]
  have okb: "2 ^ Suc k dvd b" "b + 2 ^ Suc k \<le> blockCount m"
    using buddy_wfD(1) [OF assms(1) b(1)] assms(3) by (simp_all add: block_ok_def)
  have "rord ?m h = (if h = b then k else rord m h)" for h
    using assms(3) by (auto simp: rord_def)
  note r = this [unfolded One_nat_def]
  let ?b2 = "b + 2 ^ k"
  have b2: "covered m ?b2" using assms(3) by (auto simp: covered_def intro!: exI [of _ b])
  have "?b2 < blockCount m" using okb(2) by (rule half_less)
  then have r2: "rord m ?b2 = k"
    using buddy_wfD(1) [OF assms(1)] b2 okb(1) not_dvd_upper [OF okb(1)]
    by (intro exact_power_unique [of _ ?b2]) (auto simp: block_ok_def intro: power_le_dvd)
  have no: "\<not> ?b2 < h + 2 ^ rord ?m h" if h: "h < ?b2" for h
  proof
    assume c: "?b2 < h + 2 ^ rord ?m h"
    show False
    proof (cases "h \<le> b")
      case True
      then have "h < b" using c r [of b] by (cases "h = b") simp_all
      moreover have "b < h + 2 ^ rord m h" using c calculation by (simp add: r)
      ultimately show False using b(2) by (auto simp: covered_def)
    next
      case False
      have hn: "h < blockCount m" using h \<open>?b2 < blockCount m\<close> by simp
      note okh = buddy_wfD(1) [OF assms(1) hn]
      have "\<not> k \<le> rord m h"
      proof
        assume "k \<le> rord m h"
        then have "2 ^ k dvd h" using okh by (auto simp: block_ok_def intro: power_le_dvd)
        moreover have "2 ^ k dvd b" using okb(1) by (rule power_le_dvd) simp
        ultimately show False using dvd_gap [of "2 ^ k" b h] False h by simp
      qed
      then have "2 ^ rord m h dvd b" "2 ^ rord m h dvd (2::nat) ^ k"
        using power_le_dvd [OF okb(1), of "rord m h"] by (simp_all add: le_imp_power_dvd)
      then have "h + 2 ^ rord m h \<le> ?b2"
        using okh h by (intro dvd_gap) (auto simp: block_ok_def)
      then show False using c False by (simp add: r)
    qed
  qed
  show ?thesis
  proof
    assume c: "covered ?m j"
    then obtain h where h: "h < j" "j < h + 2 ^ rord ?m h" by (auto simp: covered_def)
    then have "j < h + 2 ^ rord m h" using assms(3) by (auto simp: r split: if_splits)
    then have "covered m j" using h(1) by (auto simp: covered_def)
    moreover have "j \<noteq> ?b2" using h no by blast
    ultimately show "covered m j \<and> j \<noteq> ?b2" by simp
  next
    assume c: "covered m j \<and> j \<noteq> ?b2"
    then obtain h where h: "h < j" "j < h + 2 ^ rord m h" by (auto simp: covered_def)
    consider "h \<noteq> b" | "h = b" "j < ?b2" | "h = b" "?b2 < j" using c by linarith
    then show "covered ?m j"
    proof cases
      case 3
      then have "j < ?b2 + 2 ^ rord ?m ?b2" using h assms(3) by (simp add: r r2)
      with 3(2) show ?thesis unfolding covered_def by blast
    qed (use h in \<open>auto simp: covered_def r\<close>)
  qed
qed

lemma halve_wf:
  assumes "buddy_wf m" and "b \<in> allocated m" and "rord m b = Suc k"
  defines "m1 \<equiv> setSizeOrder b (sizeOrder m b - 1) m"
  shows "buddy_wf m1" and "allocated m1 = insert (b + 2 ^ k) (allocated m)"
    and "freeFrames m1 = freeFrames m" and "sizeOrder m (b + 2 ^ k) = k + MIN_BLOCK_ORDER"
    and "b + 2 ^ k < blockCount m" and "\<not> isFree m (b + 2 ^ k)"
    and "b XOR 2 ^ k = b + 2 ^ k" and "(b + 2 ^ k) XOR 2 ^ k = b"
    and "b + 2 ^ k \<notin> allocated m"
proof -
  note b = allocatedD [OF assms(2)]
  have okb: "2 ^ Suc k dvd b" "b + 2 ^ Suc k \<le> blockCount m" and so: "sizeOrder m b = k + 13"
    using buddy_wfD(1) [OF assms(1) b(1)] assms(3) by (auto simp: block_ok_def rord_def)
  note cov = halve_covered [OF assms(1-3), folded m1_def]
  show b2n: "b + 2 ^ k < blockCount m" using okb(2) by (rule half_less)
  have b2: "covered m (b + 2 ^ k)" using assms(3) by (auto simp: covered_def intro!: exI [of _ b])
  then show "b + 2 ^ k \<notin> allocated m" by (simp add: allocated_def)
  from b2 have "rord m (b + 2 ^ k) = k"
    using buddy_wfD(1) [OF assms(1) b2n] okb(1) not_dvd_upper [OF okb(1)]
    by (intro exact_power_unique [of _ "b + 2 ^ k"]) (auto simp: block_ok_def intro: power_le_dvd)
  then show so2: "sizeOrder m (b + 2 ^ k) = k + MIN_BLOCK_ORDER"
    using buddy_wfD(1) [OF assms(1) b2n] by (auto simp: rord_def block_ok_def)
  show nf2: "\<not> isFree m (b + 2 ^ k)" using isFreeD(2) [OF assms(1)] b2 by blast
  show "b XOR 2 ^ k = b + 2 ^ k" "(b + 2 ^ k) XOR 2 ^ k = b"
    using okb(1) by (rule xor_power_lower, rule xor_power_upper)
  have r1: "rord m1 j = rord m j" if "j \<noteq> b" for j using that by (simp add: m1_def rord_def)
  have free1: "isFree m1 = isFree m" by (simp add: m1_def)
  have freeb: "j \<noteq> b" if "isFree m j" for j using that b(3) by blast
  have n1: "blockCount m1 = blockCount m" by (simp add: m1_def)
  have "block_ok m1 j" if j: "j < blockCount m" for j
  proof (cases "j = b")
    case True
    have "2 ^ k dvd b" using okb(1) by (rule power_le_dvd) simp
    then show ?thesis
      using True cov [OF b(1)] b(2) so okb(2) buddy_wfD(1) [OF assms(1) b(1)]
      by (auto simp: block_ok_def m1_def rord_def)
  next
    case False
    then show ?thesis using buddy_wfD(1) [OF assms(1) j] cov [OF j]
      by (intro block_ok_cong [of m1 j m]) (auto simp: m1_def)
  qed
  moreover have "queue_ok m1 k'" for k'
    using buddy_wfD(2) [OF assms(1), of k'] cov r1 freeb in_freeBlock [OF assms(1), of _ k']
    by (auto simp: queue_ok_def n1) (auto simp: m1_def)
  moreover have "coalesced m1"
    using buddy_wfD(3) [OF assms(1)] r1 freeb by (auto simp: coalesced_def free1)
  ultimately show "buddy_wf m1" by (simp add: buddy_wf_def n1)
  show "allocated m1 = insert (b + 2 ^ k) (allocated m)"
    using cov b2n nf2 by (auto simp: allocated_def n1 free1)
  show "freeFrames m1 = freeFrames m"
    using r1 freeb by (auto simp: freeFrames_def frames_def free1)
qed

lemma join_wf:
  assumes "buddy_wf m" and "l \<in> allocated m" and "u \<in> allocated m" and "u = l + 2 ^ k"
    and "rord m l = k" and "rord m u = k" and "2 ^ Suc k dvd l" and "sizeOrder m l < MAX_BLOCK_ORDER"
  defines "m1 \<equiv> setSizeOrder l (sizeOrder m l + 1) m"
  shows "buddy_wf m1" and "allocated m1 = allocated m - {u}" and "freeFrames m1 = freeFrames m"
    and "frames m1 l = frames m l \<union> frames m u"
proof -
  note l = allocatedD [OF assms(2)] and u = allocatedD [OF assms(3)]
  note okl = buddy_wfD(1) [OF assms(1) l(1)] and oku = buddy_wfD(1) [OF assms(1) u(1)]
  have so: "sizeOrder m l = k + MIN_BLOCK_ORDER" using okl assms(5) unfolding block_ok_def rord_def by linarith
  have r: "rord m1 h = (if h = l then Suc k else rord m h)" for h
    using so by (auto simp: m1_def rord_def)
  have simps: "blockCount m1 = blockCount m" "isFree m1 = isFree m" "freeBlock m1 = freeBlock m"
    by (simp_all add: m1_def)
  have cov: "covered m1 j \<longleftrightarrow> covered m j \<or> j = u" for j
  proof
    assume "covered m1 j"
    then obtain h where h: "h < j" "j < h + 2 ^ rord m1 h" by (auto simp: covered_def)
    consider "h \<noteq> l" | "h = l" "j < u" | "j = u" | "h = l" "u < j" by linarith
    then show "covered m j \<or> j = u"
    proof cases
      case 4
      then have "j < u + 2 ^ rord m u" using h assms(4,6) by (simp add: r)
      with 4(2) show ?thesis unfolding covered_def by blast
    qed (use h assms(4,5) in \<open>auto simp: covered_def r\<close>)
  next
    assume "covered m j \<or> j = u"
    then show "covered m1 j"
    proof
      assume "covered m j"
      then obtain h where h: "h < j" "j < h + 2 ^ rord m h" by (auto simp: covered_def)
      then have "j < h + 2 ^ rord m1 h" using assms(5) by (auto simp: r)
      with h(1) show ?thesis by (auto simp: covered_def)
    next
      assume "j = u"
      then show ?thesis using assms(4) by (auto simp: covered_def r intro!: exI [of _ l])
    qed
  qed
  have freel: "j \<noteq> l \<and> j \<noteq> u" if "isFree m j" for j using that l(3) u(3) by blast
  have "block_ok m1 j" if j: "j < blockCount m" for j
  proof (cases "j = l")
    case True
    then show ?thesis using assms(4-8) l(2) cov [of l] so oku okl
      by (auto simp: block_ok_def r simps) (simp_all add: m1_def)
  next
    case False
    then show ?thesis using buddy_wfD(1) [OF assms(1) j] cov [of j] assms(4,6) not_dvd_upper [OF assms(7)]
      by (intro block_ok_cong [of m1 j m]) (auto simp: m1_def)
  qed
  moreover have "queue_ok m1 k'" for k'
    using buddy_wfD(2) [OF assms(1), of k'] in_freeBlock [OF assms(1), of _ k'] freel
    by (auto simp: queue_ok_def simps r cov)
  moreover have "coalesced m1"
    using buddy_wfD(3) [OF assms(1)] freel by (auto simp: coalesced_def simps r)
  ultimately show "buddy_wf m1" by (simp add: buddy_wf_def simps)
  show "allocated m1 = allocated m - {u}" by (auto simp: allocated_def simps cov)
  show "freeFrames m1 = freeFrames m" using freel by (auto simp: freeFrames_def frames_def simps r)
  show "frames m1 l = frames m l \<union> frames m u" using assms(4-6) by (auto simp: frames_def r)
qed

subsection \<open>The loops of allocation\<close>

text \<open>The fields the operations never touch.\<close>

definition same_frame :: "'a mbm \<Rightarrow> 'a mbm \<Rightarrow> bool" where
  "same_frame m m' \<longleftrightarrow> (\<exists>Q so. m' = m\<lparr>freeBlock := Q, sizeOrder := so\<rparr>)"

lemma same_frame_refl [simp]: "same_frame m m"
  unfolding same_frame_def by (intro exI [of _ "freeBlock m"] exI [of _ "sizeOrder m"]) simp

lemma same_frame_trans: "same_frame m m' \<Longrightarrow> same_frame m' m'' \<Longrightarrow> same_frame m m''"
  unfolding same_frame_def by (elim exE, rule exI, rule exI, simp)

lemma same_frame_set_freeSize:
  "same_frame m m' \<Longrightarrow> same_frame (m\<lparr>freeSize := v\<rparr>) (m'\<lparr>freeSize := v\<rparr>)"
  unfolding same_frame_def by (elim exE, rule exI, rule exI, cases m, simp)

lemma same_frame_update [simp]:
  "same_frame m (removeFreeBlock b m)" "same_frame m (addFreeBlock b m)" "same_frame m (setSizeOrder b k m)"
proof -
  show "same_frame m (removeFreeBlock b m)" "same_frame m (addFreeBlock b m)"
    unfolding same_frame_def removeFreeBlock_def addFreeBlock_def Let_def
    by (rule exI, rule exI [of _ "sizeOrder m"], simp)+
  show "same_frame m (setSizeOrder b k m)"
    unfolding same_frame_def setSizeOrder_def by (rule exI [of _ "freeBlock m"], rule exI, simp)
qed

lemma same_frameD:
  assumes "same_frame m m'"
  shows "locked m' = locked m" "blockCount m' = blockCount m" "freeSize m' = freeSize m"
    "beginAddress m' = beginAddress m"
  using assms by (auto simp: same_frame_def)

lemma splitStep_wf:
  assumes "buddy_wf m" and "locked m" and "b \<in> allocated m" and "rord m b = Suc k"
  obtains m' where "splitStep b m = Some m'" and "buddy_wf m'" and "same_frame m m'"
    and "allocated m' = allocated m" and "freeFrames m' = freeFrames m \<union> {b + 2 ^ k..<b + 2 ^ Suc k}"
    and "sizeOrder m' = (sizeOrder m)(b := k + MIN_BLOCK_ORDER)"
    and "\<And>j. isFree m' j \<longleftrightarrow> isFree m j \<or> j = b + 2 ^ k"
proof -
  let ?m1 = "setSizeOrder b (sizeOrder m b - 1) m" and ?b2 = "b + 2 ^ k"
  note h = halve_wf [OF assms(1,3,4)]
  have so: "sizeOrder m b = k + 13" using assms(4) by (simp add: rord_def)
  have r2: "rord ?m1 ?b2 = k" using h(4) by (simp add: rord_def)
  have "b \<in> allocated ?m1" "?b2 \<in> allocated ?m1" using h(2) assms(3) by simp_all
  note add = addFreeBlock_wf [OF h(1) this(2), unfolded r2 h(8)]
  have nb: "\<not> isFree ?m1 b" using allocatedD(3) [OF \<open>b \<in> allocated ?m1\<close>] .
  have step: "splitStep b m = Some (addFreeBlock ?b2 ?m1)"
    using so assms(2) h(4-7) by (simp add: splitStep_def Let_def getBuddy_def)
  have fr: "freeFrames (addFreeBlock ?b2 ?m1) = freeFrames m \<union> {?b2..<b + 2 ^ Suc k}"
    using add(3) nb h(3) r2 by (simp add: frames_def mult_2 add.assoc)
  have al: "allocated (addFreeBlock ?b2 ?m1) = allocated m"
    using add(2) nb h(2,9) by auto
  have wf: "buddy_wf (addFreeBlock ?b2 ?m1)" using add(1) nb by blast
  have "sizeOrder ?m1 ?b2 \<le> MAX_BLOCK_ORDER"
    using buddy_wfD(1) [OF h(1), of ?b2] h(5) by (simp add: block_ok_def)
  then have free: "isFree (addFreeBlock ?b2 ?m1) j \<longleftrightarrow> isFree m j \<or> j = ?b2" for j
    using isFree_addFreeBlock [of ?m1 ?b2 j] by simp
  have ford: "sizeOrder (addFreeBlock ?b2 ?m1) = (sizeOrder m)(b := k + MIN_BLOCK_ORDER)"
    using so by (simp add: add.commute)
  show ?thesis
    by (rule that [OF step wf same_frame_trans [of m ?m1] al fr ford free]) simp_all
qed

lemma splitBlock_wf:
  assumes "buddy_wf m" and "locked m" and "b \<in> allocated m" and "so \<le> sizeOrder m b"
    and "MIN_BLOCK_ORDER \<le> so"
  shows "\<exists>m'. splitBlock so b m = Some m' \<and> buddy_wf m' \<and> same_frame m m' \<and>
    allocated m' = allocated m \<and>
    freeFrames m' = freeFrames m \<union> {b + 2 ^ (so - MIN_BLOCK_ORDER)..<b + 2 ^ rord m b} \<and>
    sizeOrder m' = (sizeOrder m)(b := so) \<and>
    (\<forall>j. isFree m' j \<longrightarrow> isFree m j \<or> so \<le> sizeOrder m j)"
  using assms
proof (induction so b m rule: splitBlock.induct)
  case (1 so b m)
  show ?case
  proof (cases "sizeOrder m b = so")
    case True
    then show ?thesis using 1(2) by (auto simp: splitBlock.simps [of so b m] rord_def fun_upd_idem)
  next
    case False
    then obtain k where k: "rord m b = Suc k" "so \<le> k + MIN_BLOCK_ORDER"
      using 1(5,6) by (cases "rord m b") (auto simp: rord_def)
    obtain m1 where m1: "splitStep b m = Some m1" "buddy_wf m1" "same_frame m m1"
      "allocated m1 = allocated m" "freeFrames m1 = freeFrames m \<union> {b + 2 ^ k..<b + 2 ^ Suc k}"
      "sizeOrder m1 = (sizeOrder m)(b := k + MIN_BLOCK_ORDER)"
      "\<And>j. isFree m1 j \<longleftrightarrow> isFree m j \<or> j = b + 2 ^ k"
      by (rule splitStep_wf [OF 1(2-4) k(1)]) blast
    have r1: "rord m1 b = k" using m1(6) by (simp add: rord_def)
    have pre: "locked m1" "b \<in> allocated m1" "so \<le> sizeOrder m1 b"
      using same_frameD(1) [OF m1(3)] 1(3,4) m1(4,6) k(2) by simp_all
    obtain m2 where m2: "splitBlock so b m1 = Some m2" "buddy_wf m2" "same_frame m1 m2"
      "allocated m2 = allocated m1"
      "freeFrames m2 = freeFrames m1 \<union> {b + 2 ^ (so - MIN_BLOCK_ORDER)..<b + 2 ^ rord m1 b}"
      "sizeOrder m2 = (sizeOrder m1)(b := so)"
      "\<forall>j. isFree m2 j \<longrightarrow> isFree m1 j \<or> so \<le> sizeOrder m1 j"
      using 1(1) [OF False m1(1,2) pre 1(6)] by blast
    have "splitBlock so b m = Some m2" using False m1(1) m2(1) by (simp add: splitBlock.simps [of so b m])
    moreover have "freeFrames m2 = freeFrames m \<union> {b + 2 ^ (so - MIN_BLOCK_ORDER)..<b + 2 ^ rord m b}"
    proof -
      have "(2::nat) ^ (so - MIN_BLOCK_ORDER) \<le> 2 ^ k" using k(2) by (intro power_increasing) auto
      then have "{b + 2 ^ k..<b + 2 ^ Suc k} \<union> {b + 2 ^ (so - MIN_BLOCK_ORDER)..<b + 2 ^ k} =
        {b + 2 ^ (so - MIN_BLOCK_ORDER)..<b + 2 ^ Suc k}"
        by (subst Un_commute, intro ivl_disj_un_two(3)) simp_all
      then show ?thesis using m2(5) m1(5) r1 k(1) by (simp add: Un_assoc)
    qed
    moreover have "so \<le> sizeOrder m j" if "so \<le> sizeOrder m1 j" for j
      using that m1(6) 1(5) by (auto split: if_splits)
    moreover have "so \<le> sizeOrder m (b + 2 ^ k)"
      using halve_wf(4) [OF 1(2,4) k(1)] k(2) by simp
    ultimately show ?thesis
      using m2 m1 same_frame_trans [OF m1(3) m2(3)] by auto
  qed
qed

lemma takeBlocks_wf:
  assumes "buddy_wf m" and "locked m" and "MIN_BLOCK_ORDER \<le> so"
    and "step = 2 ^ (so - MIN_BLOCK_ORDER)" and "{b..<b + n * step} \<subseteq> freeFrames m"
    and "0 < n \<Longrightarrow> isFree m b"
    and "\<And>j. isFree m j \<Longrightarrow> j \<in> {b..<b + n * step} \<Longrightarrow> so \<le> sizeOrder m j"
  shows "\<exists>m'. takeBlocks so step b n m = Some m' \<and> buddy_wf m' \<and> same_frame m m' \<and>
    allocated m' = allocated m \<union> (\<lambda>s. b + s * step) ` {..<n} \<and>
    freeFrames m' = freeFrames m - {b..<b + n * step} \<and>
    (\<forall>j. sizeOrder m' j = (if j \<in> (\<lambda>s. b + s * step) ` {..<n} then so else sizeOrder m j))"
  using assms
proof (induction n arbitrary: b m)
  case 0
  then show ?case by auto
next
  case (Suc n)
  have st: "0 < step" using Suc.prems(4) by simp
  have bf: "isFree m b" using Suc.prems(6) by simp
  let ?m1 = "removeFreeBlock b m"
  note rm = removeFreeBlock_wf [OF Suc.prems(1) bf]
  have bso: "so \<le> sizeOrder m b" using Suc.prems(7) [OF bf] st by simp
  have le: "step \<le> 2 ^ rord m b"
    using bso unfolding Suc.prems(4) rord_def by (intro power_increasing) auto
  obtain m2 where m2: "splitBlock so b ?m1 = Some m2" "buddy_wf m2" "same_frame ?m1 m2"
    "allocated m2 = insert b (allocated m)"
    "freeFrames m2 = freeFrames m - frames m b \<union> {b + step..<b + 2 ^ rord m b}"
    "sizeOrder m2 = (sizeOrder m)(b := so)"
    "\<forall>j. isFree m2 j \<longrightarrow> isFree ?m1 j \<or> so \<le> sizeOrder m j"
    using splitBlock_wf [OF rm(1), of b so] rm(2,3) bso Suc.prems(2,3,4) by auto
  have sf: "same_frame m m2" using m2(3) by (rule same_frame_trans [rotated]) simp
  have "frames m b \<subseteq> freeFrames m" using bf by (auto simp: freeFrames_def)
  then have fr2: "freeFrames m2 = freeFrames m - {b..<b + step}"
    using m2(5) le by (auto simp: frames_def)
  have sub: "{b + step..<b + step + n * step} \<subseteq> freeFrames m2"
    using Suc.prems(5) fr2 by (auto simp: algebra_simps)
  have r2: "rord m2 b = so - MIN_BLOCK_ORDER" using m2(6) by (simp add: rord_def)
  have nxt: "isFree m2 (b + step)" if "0 < n"
  proof -
    have "b + step \<in> freeFrames m2" using sub that st by auto
    then show ?thesis using next_frame_isFree [OF m2(2), of b] m2(4) Suc.prems(4) r2 by auto
  qed
  have ords: "so \<le> sizeOrder m2 j" if "isFree m2 j" "j \<in> {b + step..<b + step + n * step}" for j
    using m2(7) that Suc.prems(7) [of j] m2(6) isFree_removeFreeBlock [OF Suc.prems(1)]
    by (auto simp: algebra_simps)
  obtain m3 where m3: "takeBlocks so step (b + step) n m2 = Some m3" "buddy_wf m3" "same_frame m2 m3"
    "allocated m3 = allocated m2 \<union> (\<lambda>s. b + step + s * step) ` {..<n}"
    "freeFrames m3 = freeFrames m2 - {b + step..<b + step + n * step}"
    "\<forall>j. sizeOrder m3 j = (if j \<in> (\<lambda>s. b + step + s * step) ` {..<n} then so else sizeOrder m2 j)"
    using Suc.IH [OF m2(2) _ Suc.prems(3,4) sub nxt ords] same_frameD(1) [OF sf] Suc.prems(2) by auto
  have img: "(\<lambda>s. b + s * step) ` {..<Suc n} = insert b ((\<lambda>s. b + step + s * step) ` {..<n})"
    by (simp add: lessThan_Suc_eq_insert_0 image_image add.assoc)
  have ran: "{b..<b + Suc n * step} = {b..<b + step} \<union> {b + step..<b + step + n * step}" by auto
  have "takeBlocks so step b (Suc n) m = Some m3" using bf m2(1) m3(1) by simp
  moreover have "allocated m3 = allocated m \<union> (\<lambda>s. b + s * step) ` {..<Suc n}"
    unfolding img using m3(4) m2(4) by auto
  moreover have "freeFrames m3 = freeFrames m - {b..<b + Suc n * step}"
    unfolding ran using m3(5) fr2 by auto
  moreover have "\<forall>j. sizeOrder m3 j = (if j \<in> (\<lambda>s. b + s * step) ` {..<Suc n} then so else sizeOrder m j)"
    unfolding img using m3(6) m2(6) by auto
  ultimately show ?case using m3(2) same_frame_trans [OF sf m3(3)] by blast
qed

subsection \<open>The loop of release\<close>

lemma buddy_order_le:
  assumes "buddy_wf m" and "b < blockCount m" and "\<not> covered m b" and "b XOR 2 ^ rord m b < blockCount m"
  shows "sizeOrder m (b XOR 2 ^ rord m b) \<le> sizeOrder m b"
proof -
  let ?k = "rord m b" and ?p = "b XOR 2 ^ rord m b"
  note okb = buddy_wfD(1) [OF assms(1,2)] and okp = buddy_wfD(1) [OF assms(1,4)]
  have "\<not> Suc ?k \<le> rord m ?p"
  proof
    assume le: "Suc ?k \<le> rord m ?p"
    then have d: "2 ^ Suc ?k dvd ?p" using power_le_dvd [OF block_okD(3) [OF okp]] by blast
    then have eq: "b = ?p + 2 ^ ?k" using xor_power_lower [OF d] xor_power_twice by metis
    moreover have "(2::nat) ^ Suc ?k \<le> 2 ^ rord m ?p" using le by (intro power_increasing) simp_all
    then have "(2::nat) ^ ?k < 2 ^ rord m ?p" using half_less [of 0 ?k "2 ^ rord m ?p"] by simp
    ultimately have "?p < b \<and> b < ?p + 2 ^ rord m ?p" using zero_less_power [of "2::nat" ?k] by linarith
    then show False using assms(3) unfolding covered_def by blast
  qed
  then show ?thesis using block_okD(1) [OF okb] block_okD(1) [OF okp] by linarith
qed

text \<open>A covered block finds a larger block below it at its buddy's place.\<close>

lemma covered_buddy:
  assumes "buddy_wf m" and "i < blockCount m" and "covered m i"
  shows "i = (i XOR 2 ^ rord m i) + 2 ^ rord m i" and "rord m i < rord m (i XOR 2 ^ rord m i)"
proof -
  let ?k = "rord m i" and ?p = "i XOR 2 ^ rord m i"
  note ok = buddy_wfD(1) [OF assms(1,2)]
  have "\<not> 2 ^ Suc ?k dvd i" using ok assms(3) by (simp add: block_ok_def)
  then obtain j where j: "i = j + 2 ^ ?k" "2 ^ Suc ?k dvd j"
    using dvd_power_cases [OF block_okD(3) [OF ok]] by metis
  then have p: "?p = j" using xor_power_upper [OF j(2)] by simp
  show ip: "i = ?p + 2 ^ ?k" using j(1) p by simp
  have pn: "?p < blockCount m" using ip assms(2) by linarith
  show "?k < rord m ?p"
  proof (cases "covered m ?p")
    case True
    then have "\<not> 2 ^ Suc (rord m ?p) dvd ?p" using buddy_wfD(1) [OF assms(1) pn] by (simp add: block_ok_def)
    then have "\<not> Suc (rord m ?p) \<le> Suc ?k" using power_le_dvd [OF j(2)] p by metis
    then show ?thesis by simp
  next
    case False
    obtain h where h: "h < i" "i < h + 2 ^ rord m h" using assms(3) by (auto simp: covered_def)
    have dh: "2 ^ rord m h dvd h" using block_okD(3) [OF buddy_wfD(1) [OF assms(1)]] h(1) assms(2) by simp
    have dp: "2 ^ ?k dvd ?p" using power_le_dvd [OF j(2), of ?k] p by simp
    have "\<not> ?p < h"
    proof
      assume ph: "?p < h"
      have "\<not> ?k \<le> rord m h"
        using dvd_gap [OF dp power_le_dvd [OF dh, of ?k] ph] ip h(1) by auto
      then have "2 ^ rord m h dvd i"
        using power_le_dvd [OF block_okD(3) [OF ok], of "rord m h"] by simp
      then show False using dvd_gap [OF dh _ h(1)] h(2) by auto
    qed
    moreover have "\<not> h < ?p"
    proof
      assume "h < ?p"
      moreover have "?p < h + 2 ^ rord m h" using h(2) ip by linarith
      ultimately show False using False unfolding covered_def by blast
    qed
    ultimately have "h = ?p" by simp
    then have "(2::nat) ^ ?k < 2 ^ rord m ?p" using h(2) ip by (metis nat_add_left_cancel_less)
    then show ?thesis by (simp add: power_less_imp_less_exp)
  qed
qed

lemma distance_indices:
  "distance (indexToAddress m i) (indexToAddress m (i + d)) = d * MIN_BLOCK_SIZE"
  "distance (indexToAddress m (i + d)) (indexToAddress m i) = d * MIN_BLOCK_SIZE"
  by (auto simp: distance_def indexToAddress_def algebra_simps)

lemma mergeStep_wf:
  assumes "buddy_wf m" and "b \<in> allocated m" and "sizeOrder m b < MAX_BLOCK_ORDER"
    and "isFree m p" and "p = b XOR 2 ^ rord m b" and "sizeOrder m p = sizeOrder m b"
  defines "l \<equiv> if b < p then b else p"
  defines "m1 \<equiv> setSizeOrder l (sizeOrder m l + 1) (removeFreeBlock p m)"
  shows "buddy_wf m1" and "l \<in> allocated m1" and "allocated m1 - {l} = allocated m - {b}"
    and "freeFrames m1 \<union> frames m1 l = freeFrames m \<union> frames m b"
    and "distance (indexToAddress m b) (indexToAddress m p) = 2 ^ sizeOrder m b"
    and "j \<in> allocated m - {b} \<Longrightarrow> sizeOrder m1 j = sizeOrder m j"
proof -
  let ?k = "rord m b" and ?m0 = "removeFreeBlock p m"
  note b = allocatedD [OF assms(2)]
  have so: "sizeOrder m b = ?k + MIN_BLOCK_ORDER"
    using buddy_wfD(1) [OF assms(1) b(1)] by (simp add: block_ok_def rord_def)
  have rp: "rord m p = ?k" using assms(6) by (simp add: rord_def)
  define u where "u = (if b < p then p else b)"
  have pb: "b = p XOR 2 ^ ?k" by (simp add: assms(5) xor_power_twice)
  have dvd: "2 ^ ?k dvd b" using buddy_wfD(1) [OF assms(1) b(1)] by (simp add: block_ok_def)
  have lu: "u = l + 2 ^ ?k \<and> 2 ^ Suc ?k dvd l"
    using dvd
  proof (cases rule: dvd_power_cases)
    case 1
    then show ?thesis using xor_power_lower [OF 1] assms(5) by (simp add: l_def u_def)
  next
    case (2 i)
    then have "p = i" using assms(5) xor_power_upper by metis
    then show ?thesis using 2 by (simp add: l_def u_def)
  qed
  note rm = removeFreeBlock_wf [OF assms(1,4)]
  have cases2: "l = b \<and> u = p \<or> l = p \<and> u = b" by (auto simp: l_def u_def)
  have al: "l \<in> allocated ?m0" "u \<in> allocated ?m0" using cases2 assms(2) rm(2) by auto
  have ro: "rord ?m0 l = ?k" "rord ?m0 u = ?k" using cases2 rp by auto
  have sl: "sizeOrder ?m0 l < MAX_BLOCK_ORDER" using cases2 assms(3,6) by auto
  have m1: "m1 = setSizeOrder l (sizeOrder ?m0 l + 1) ?m0" by (simp add: m1_def)
  note j = join_wf [OF rm(1) al _ ro _ sl, folded m1]
  show "buddy_wf m1" using j(1) lu by blast
  have neq: "l \<noteq> u" using lu by simp
  have allo: "allocated m1 = insert p (allocated m) - {u}" using j(2) lu rm(2) by simp
  then show "l \<in> allocated m1" using cases2 assms(2) neq by auto
  have "p \<notin> allocated m" using assms(4) by (auto simp: allocated_def)
  then show "allocated m1 - {l} = allocated m - {b}" using allo cases2 by auto
  have sub: "frames m p \<subseteq> freeFrames m" using assms(4) by (auto simp: freeFrames_def)
  have "frames m1 l = frames m l \<union> frames m u" using j(4) lu by simp
  then have "frames m1 l = frames m b \<union> frames m p" using cases2 by blast
  moreover have "freeFrames m1 = freeFrames m - frames m p" using j(3) lu rm(3) by simp
  ultimately show "freeFrames m1 \<union> frames m1 l = freeFrames m \<union> frames m b" using sub by blast
  have "distance (indexToAddress m b) (indexToAddress m p) = 2 ^ ?k * 4096"
    using cases2 lu distance_indices [of m l "2 ^ ?k"] by auto
  then show "distance (indexToAddress m b) (indexToAddress m p) = 2 ^ sizeOrder m b"
    using so by (simp add: power_add)
  show "sizeOrder m1 j = sizeOrder m j" if "j \<in> allocated m - {b}"
    using that cases2 assms(4) by (auto simp: m1 allocated_def)
qed

lemma mergeBlock_wf:
  assumes "buddy_wf m" and "locked m" and "b \<in> allocated m"
  shows "\<exists>b' m'. mergeBlock b m = Some (b', m') \<and> buddy_wf m' \<and> same_frame m m' \<and>
    b' \<in> allocated m' \<and> allocated m' - {b'} = allocated m - {b} \<and>
    freeFrames m' \<union> frames m' b' = freeFrames m \<union> frames m b \<and>
    (rord m' b' < 18 \<longrightarrow>
      \<not> (isFree m' (b' XOR 2 ^ rord m' b') \<and> rord m' (b' XOR 2 ^ rord m' b') = rord m' b')) \<and>
    (\<forall>j\<in>allocated m - {b}. sizeOrder m' j = sizeOrder m j)"
  using assms
proof (induction b m rule: mergeBlock.induct)
  case (1 b m)
  let ?p = "b XOR 2 ^ rord m b"
  let ?l = "if b < ?p then b else ?p"
  let ?m1 = "setSizeOrder ?l (sizeOrder m ?l + 1) (removeFreeBlock ?p m)"
  note b = allocatedD [OF 1(4)]
  note okb = buddy_wfD(1) [OF 1(2) b(1)]
  have gb: "getBuddy m b = Some (if ?p \<ge> blockCount m then None else Some ?p)"
    using 1(3) by (simp add: getBuddy_def rord_def)
  show ?case
  proof (cases "sizeOrder m b < MAX_BLOCK_ORDER \<and> isFree m ?p \<and> sizeOrder m ?p = sizeOrder m b")
    case True
    then have t: "sizeOrder m b < MAX_BLOCK_ORDER" "isFree m ?p" "sizeOrder m ?p = sizeOrder m b" by auto
    have pn: "?p < blockCount m" using isFreeD(1) [OF 1(2) t(2)] .
    note st = mergeStep_wf [OF 1(2,4) t(1,2) refl t(3)]
    have eq: "mergeBlock b m = mergeBlock ?l ?m1"
      using t gb pn st(5) by (simp add: mergeBlock.simps [of b m] Let_def)
    have "\<exists>b' m'. mergeBlock ?l ?m1 = Some (b', m') \<and> buddy_wf m' \<and> same_frame ?m1 m' \<and>
      b' \<in> allocated m' \<and> allocated m' - {b'} = allocated ?m1 - {?l} \<and>
      freeFrames m' \<union> frames m' b' = freeFrames ?m1 \<union> frames ?m1 ?l \<and>
      (rord m' b' < 18 \<longrightarrow>
        \<not> (isFree m' (b' XOR 2 ^ rord m' b') \<and> rord m' (b' XOR 2 ^ rord m' b') = rord m' b')) \<and>
      (\<forall>j\<in>allocated ?m1 - {?l}. sizeOrder m' j = sizeOrder ?m1 j)"
      using 1(1) [OF t(1) gb, of ?p ?l] t(2,3) pn st(1,2,5) 1(3) by simp
    then obtain b' m' where r: "mergeBlock ?l ?m1 = Some (b', m')" "buddy_wf m'" "same_frame ?m1 m'"
      "b' \<in> allocated m'" "allocated m' - {b'} = allocated ?m1 - {?l}"
      "freeFrames m' \<union> frames m' b' = freeFrames ?m1 \<union> frames ?m1 ?l"
      "rord m' b' < 18 \<longrightarrow>
        \<not> (isFree m' (b' XOR 2 ^ rord m' b') \<and> rord m' (b' XOR 2 ^ rord m' b') = rord m' b')"
      "\<forall>j\<in>allocated ?m1 - {?l}. sizeOrder m' j = sizeOrder ?m1 j" by blast
    have "same_frame m m'"
      by (rule same_frame_trans [OF same_frame_trans [OF same_frame_update(1) same_frame_update(3)] r(3)])
    moreover have "\<forall>j\<in>allocated m - {b}. sizeOrder m' j = sizeOrder m j"
      using r(8) st(6) unfolding st(3) by simp
    ultimately show ?thesis using r(2,4,7) r(5) [unfolded st(3)] r(6) [unfolded st(4)] r(1) eq by auto
  next
    case False
    have "\<not> rord m b < 18" if "\<not> sizeOrder m b < MAX_BLOCK_ORDER"
      using that block_okD(1) [OF okb] by simp
    moreover have "rord m ?p \<noteq> rord m b" if "sizeOrder m ?p \<noteq> sizeOrder m b" "isFree m ?p"
      using that(1) block_okD(1) [OF okb]
        block_okD(1) [OF buddy_wfD(1) [OF 1(2) isFreeD(1) [OF 1(2) that(2)]]] by simp
    moreover have "mergeBlock b m = Some (b, m)"
      using False gb buddy_order_le [OF 1(2) b(1,2)] by (auto simp: mergeBlock.simps [of b m])
    ultimately show ?thesis using 1(2,4) False by auto
  qed
qed

section \<open>Correctness of the operations\<close>

subsection \<open>Orders and the search for a free block\<close>

lemma orderFrom_bounds:
  "i \<le> orderFrom i s \<and> s \<le> 2 ^ orderFrom i s \<and> (orderFrom i s = i \<or> 2 ^ (orderFrom i s - 1) < s)"
proof (induction i s rule: orderFrom.induct)
  case (1 i s)
  show ?case
  proof (cases "2 ^ i < s")
    case True
    then have "orderFrom i s = orderFrom (Suc i) s" by (simp add: orderFrom.simps [of i s])
    with 1 [OF True] True show ?thesis by auto
  qed (simp add: orderFrom.simps [of i s])
qed

lemma ceilAllocateOrder_bounds:
  assumes "s \<le> 2 ^ MAX_BLOCK_ORDER"
  shows "MIN_BLOCK_ORDER \<le> ceilAllocateOrder s" and "s \<le> 2 ^ ceilAllocateOrder s"
    and "ceilAllocateOrder s = MIN_BLOCK_ORDER \<or> 2 ^ (ceilAllocateOrder s - 1) < s"
    and "ceilAllocateOrder s \<le> MAX_BLOCK_ORDER"
proof -
  have c: "ceilAllocateOrder s = orderFrom MIN_BLOCK_ORDER s"
    using assms by (simp add: ceilAllocateOrder_def)
  note b = orderFrom_bounds [of MIN_BLOCK_ORDER s, folded c]
  show "MIN_BLOCK_ORDER \<le> ceilAllocateOrder s" and "s \<le> 2 ^ ceilAllocateOrder s"
    and m: "ceilAllocateOrder s = MIN_BLOCK_ORDER \<or> 2 ^ (ceilAllocateOrder s - 1) < s"
    using b by auto
  show "ceilAllocateOrder s \<le> MAX_BLOCK_ORDER"
  proof (rule ccontr)
    assume "\<not> ceilAllocateOrder s \<le> MAX_BLOCK_ORDER"
    moreover from this have "(2::nat) ^ MAX_BLOCK_ORDER \<le> 2 ^ (ceilAllocateOrder s - 1)"
      by (intro power_increasing) auto
    ultimately show False using m assms by linarith
  qed
qed

lemma ceilAllocateOrder_power:
  assumes "MIN_BLOCK_ORDER \<le> k" "k \<le> MAX_BLOCK_ORDER"
  shows "ceilAllocateOrder (2 ^ k) = k"
proof -
  have le: "(2::nat) ^ k \<le> 2 ^ MAX_BLOCK_ORDER" using assms(2) by (intro power_increasing) auto
  note b = ceilAllocateOrder_bounds [OF le]
  have "k \<le> ceilAllocateOrder (2 ^ k)" using b(2) by (simp add: power_le_imp_le_exp)
  moreover have "ceilAllocateOrder (2 ^ k) = MIN_BLOCK_ORDER \<or> ceilAllocateOrder (2 ^ k) - 1 < k"
    using b(3) by (simp add: power_less_imp_less_exp)
  ultimately show ?thesis using assms(1) by auto
qed

lemma findFreeBlock_Some:
  assumes "buddy_wf m" and "findFreeBlock m k = Some b" and "MIN_BLOCK_ORDER \<le> k"
  shows "isFree m b \<and> k \<le> sizeOrder m b"
  using assms
proof (induction m k rule: findFreeBlock.induct)
  case (1 m k)
  show ?case
  proof (cases "freeBlock m (k - MIN_BLOCK_ORDER)")
    case Nil
    then show ?thesis using 1(1) [OF _ Nil 1(2)] 1(3,4)
      by (auto simp: findFreeBlock.simps [of m k] split: if_splits)
  next
    case (Cons c cs)
    then have "b \<in> set (freeBlock m (k - MIN_BLOCK_ORDER))"
      using 1(3) by (auto simp: findFreeBlock.simps [of m k] split: if_splits)
    then have "isFree m b" "rord m b = k - MIN_BLOCK_ORDER" using in_freeBlock [OF 1(2)] by blast+
    then show ?thesis
      using block_okD(1) [OF buddy_wfD(1) [OF 1(2) isFreeD(1) [OF 1(2)]]] 1(4) by force
  qed
qed

lemma findFreeBlock_None:
  assumes "buddy_wf m" and "findFreeBlock m k = None" and "MIN_BLOCK_ORDER \<le> k" and "isFree m j"
  shows "sizeOrder m j < k"
  using assms
proof (induction m k rule: findFreeBlock.induct)
  case (1 m k)
  note okj = buddy_wfD(1) [OF 1(2) isFreeD(1) [OF 1(2,5)]]
  show ?case
  proof (cases "k > MAX_BLOCK_ORDER")
    case True
    then show ?thesis using block_okD(1,2) [OF okj] by simp
  next
    case False
    then have emp: "freeBlock m (k - MIN_BLOCK_ORDER) = []" and "findFreeBlock m (Suc k) = None"
      using 1(3) by (auto simp: findFreeBlock.simps [of m k] split: list.splits)
    then have "sizeOrder m j < Suc k" using 1(1) [OF False emp 1(2)] 1(4,5) by simp
    moreover have "sizeOrder m j \<noteq> k"
      using isFreeD(3) [OF 1(2,5)] emp 1(4) by (auto simp: rord_def)
    ultimately show ?thesis by simp
  qed
qed

text \<open>Because free buddies are always merged, a free run that is aligned to its own size lies
  inside one free block.\<close>

lemma free_run_in_block:
  assumes "buddy_wf m" and "k \<le> 18" and "2 ^ k dvd a" and "{a..<a + 2 ^ k} \<subseteq> freeFrames m"
  shows "\<exists>j. isFree m j \<and> {a..<a + 2 ^ k} \<subseteq> frames m j \<and> k \<le> rord m j"
  using assms(2-4)
proof (induction k arbitrary: a)
  case 0
  then have "a \<in> freeFrames m" by simp
  then show ?case by (auto simp: freeFrames_def)
next
  case (Suc k)
  have "2 ^ k dvd a" using Suc.prems(2) by (rule power_le_dvd) simp
  then have d: "2 ^ k dvd a" "2 ^ k dvd a + 2 ^ k" by simp_all
  have halves: "{a..<a + 2 ^ Suc k} = {a..<a + 2 ^ k} \<union> {a + 2 ^ k..<a + 2 ^ k + 2 ^ k}" by auto
  have "k \<le> 18" using Suc.prems(1) by simp
  from Suc.IH [OF this d(1)] Suc.prems(3) halves
  obtain i where i: "isFree m i" "{a..<a + 2 ^ k} \<subseteq> frames m i" "k \<le> rord m i" by auto
  from Suc.IH [OF \<open>k \<le> 18\<close> d(2)] Suc.prems(3) halves
  obtain j where j: "isFree m j" "{a + 2 ^ k..<a + 2 ^ k + 2 ^ k} \<subseteq> frames m j" "k \<le> rord m j" by auto
  have "a \<in> frames m i" "a + 2 ^ k \<in> frames m j" using subsetD [OF i(2)] subsetD [OF j(2)] by simp_all
  then have ai: "i \<le> a" "a < i + 2 ^ rord m i" and aj: "j \<le> a + 2 ^ k" "a + 2 ^ k < j + 2 ^ rord m j"
    by (simp_all add: frames_def)
  have whole: "{a..<a + 2 ^ Suc k} \<subseteq> frames m h"
    if h: "isFree m h" "Suc k \<le> rord m h" "h \<le> x" "x < h + 2 ^ rord m h" "x = a \<or> x = a + 2 ^ k" for h x
  proof -
    have dh: "2 ^ rord m h dvd h"
      using block_okD(3) [OF buddy_wfD(1) [OF assms(1) isFreeD(1) [OF assms(1) h(1)]]] .
    have "2 ^ Suc k dvd h" using dh h(2) by (rule power_le_dvd)
    have "h \<le> a"
    proof (rule ccontr)
      assume "\<not> h \<le> a"
      then have "a + 2 ^ Suc k \<le> h" using dvd_gap [OF Suc.prems(2) \<open>2 ^ Suc k dvd h\<close>] by simp
      then show False using h(3,5) half_less [of a k h] by auto
    qed
    moreover have "2 ^ Suc k dvd h + 2 ^ rord m h"
      using \<open>2 ^ Suc k dvd h\<close> le_imp_power_dvd [OF h(2), of "2::nat"] by (rule dvd_add)
    then have "a + 2 ^ Suc k \<le> h + 2 ^ rord m h"
      using dvd_gap [OF Suc.prems(2)] h(4,5) by fastforce
    ultimately show ?thesis unfolding frames_def by (intro ivl_subset [THEN iffD2] disjI2 conjI)
  qed
  show ?case
  proof (cases "Suc k \<le> rord m i \<or> Suc k \<le> rord m j")
    case True
    then show ?thesis using whole [OF i(1) _ ai] whole [OF j(1) _ aj] i(1) j(1) by blast
  next
    case False
    then have r: "rord m i = k" "rord m j = k" using i(3) j(3) by auto
    have "2 ^ k dvd i" "2 ^ k dvd j"
      using block_okD(3) [OF buddy_wfD(1) [OF assms(1) isFreeD(1) [OF assms(1)]]] i(1) j(1) r by metis+
    then have "i = a" "j = a + 2 ^ k"
      using dvd_gap [of "2 ^ k" i a] dvd_gap [of "2 ^ k" j "a + 2 ^ k"] d ai aj r by (auto simp: le_less)
    then have "i XOR 2 ^ rord m i = j" using xor_power_lower [OF Suc.prems(2)] r by simp
    then show ?thesis
      using buddy_wfD(3) [OF assms(1)] i(1) j(1) r Suc.prems(1) unfolding coalesced_def by fastforce
  qed
qed

subsection \<open>Allocation\<close>

text \<open>The order of the blocks an allocation returns and how many of them, as a caller computes
  them from its arguments; a caller that asks for blocks smaller than the whole must name a
  block size.\<close>

definition unitOrder :: "nat \<Rightarrow> nat \<Rightarrow> nat" where
  "unitOrder s splitSize = ceilAllocateOrder (if splitSize \<ge> s then s else splitSize)"

definition unitCount :: "nat \<Rightarrow> nat \<Rightarrow> nat" where
  "unitCount s splitSize = DIV_CEIL s (2 ^ unitOrder s splitSize)"

definition unitFrames :: "nat \<Rightarrow> nat \<Rightarrow> nat" where
  "unitFrames s splitSize = 2 ^ (unitOrder s splitSize - MIN_BLOCK_ORDER)"

definition splitSize_ok :: "nat \<Rightarrow> nat \<Rightarrow> bool" where
  "splitSize_ok s splitSize \<longleftrightarrow> splitSize \<ge> s \<or> (\<exists>k\<in>{MIN_BLOCK_ORDER..MAX_BLOCK_ORDER}. splitSize = 2 ^ k)"

definition grants :: "'a mbm \<Rightarrow> nat \<Rightarrow> nat \<Rightarrow> nat \<Rightarrow> 'a mbm \<Rightarrow> bool" where
  "grants m s splitSize b m' \<longleftrightarrow>
    (let step = unitFrames s splitSize; n = unitCount s splitSize in
      {b..<b + n * step} \<subseteq> freeFrames m \<and>
      freeFrames m' = freeFrames m - {b..<b + n * step} \<and>
      allocated m' = allocated m \<union> (\<lambda>i. b + i * step) ` {..<n} \<and>
      (\<forall>i<n. sizeOrder m' (b + i * step) = unitOrder s splitSize) \<and>
      (\<forall>j\<in>allocated m. sizeOrder m' j = sizeOrder m j))"

lemma unit_bounds:
  assumes "s \<le> 2 ^ MAX_BLOCK_ORDER" and "splitSize_ok s splitSize"
  shows "MIN_BLOCK_ORDER \<le> unitOrder s splitSize" and "unitOrder s splitSize \<le> ceilAllocateOrder s"
    and "unitCount s splitSize * unitFrames s splitSize \<le> 2 ^ (ceilAllocateOrder s - MIN_BLOCK_ORDER)"
    and "splitSize < s \<Longrightarrow> 2 ^ unitOrder s splitSize = splitSize"
proof -
  let ?ao = "ceilAllocateOrder s" and ?so = "unitOrder s splitSize"
  note ao = ceilAllocateOrder_bounds [OF assms(1)]
  show eq: "2 ^ ?so = splitSize" if "splitSize < s"
    using that assms(2) ceilAllocateOrder_power by (auto simp: splitSize_ok_def unitOrder_def)
  have "?so \<le> ?ao \<and> MIN_BLOCK_ORDER \<le> ?so"
  proof (cases "splitSize < s")
    case True
    then have "(2::nat) ^ ?so < 2 ^ ?ao" using eq ao(2) by simp
    then have "?so \<le> ?ao" by (simp add: power_less_imp_less_exp less_imp_le)
    moreover have "splitSize \<le> 2 ^ MAX_BLOCK_ORDER" using True assms(1) by simp
    then have "MIN_BLOCK_ORDER \<le> ?so" using ceilAllocateOrder_bounds(1) True by (simp add: unitOrder_def)
    ultimately show ?thesis by simp
  qed (use ao(1) in \<open>simp add: unitOrder_def\<close>)
  then show so: "MIN_BLOCK_ORDER \<le> ?so" "?so \<le> ?ao" by auto
  have "s \<le> 2 ^ (?ao - ?so) * 2 ^ ?so" using ao(2) so(2) by (simp flip: power_add)
  then have "unitCount s splitSize \<le> 2 ^ (?ao - ?so)"
    unfolding unitCount_def by (intro DIV_CEIL_le) simp_all
  then have "unitCount s splitSize * unitFrames s splitSize \<le> 2 ^ (?ao - ?so) * 2 ^ (?so - MIN_BLOCK_ORDER)"
    unfolding unitFrames_def by (rule mult_le_mono1)
  then show "unitCount s splitSize * unitFrames s splitSize \<le> 2 ^ (?ao - MIN_BLOCK_ORDER)"
    using so by (simp flip: power_add)
qed

lemma unit_bytes:
  assumes "MIN_BLOCK_ORDER \<le> k"
  shows "2 ^ k div MIN_BLOCK_SIZE = 2 ^ (k - MIN_BLOCK_ORDER)" and "2 ^ (k - MIN_BLOCK_ORDER) * MIN_BLOCK_SIZE = 2 ^ k"
proof -
  have "(2::nat) ^ k = 2 ^ (k - MIN_BLOCK_ORDER) * 2 ^ MIN_BLOCK_ORDER"
    using assms by (metis le_add_diff_inverse2 power_add)
  then show "2 ^ k div MIN_BLOCK_SIZE = 2 ^ (k - MIN_BLOCK_ORDER)" "2 ^ (k - MIN_BLOCK_ORDER) * MIN_BLOCK_SIZE = 2 ^ k"
    by simp_all
qed

text \<open>The call in terms of the loop, once the assertion on \<open>splitSize\<close> is discharged.\<close>

lemma allocateBlock_noLock_unfold:
  assumes "locked m" and "splitSize_ok s splitSize"
  shows "allocateBlock_noLock m s splitSize =
    (if s > 2 ^ MAX_BLOCK_ORDER then Some (None, m)
     else case findFreeBlock m (ceilAllocateOrder s) of None \<Rightarrow> Some (None, m)
     | Some b \<Rightarrow> (case takeBlocks (unitOrder s splitSize) (unitFrames s splitSize) b (unitCount s splitSize) m of
         None \<Rightarrow> None
       | Some m' \<Rightarrow> Some (Some b, m'\<lparr>freeSize := freeSize m' -
           of_nat (unitCount s splitSize * 2 ^ unitOrder s splitSize)\<rparr>)))"
proof (cases "s > 2 ^ MAX_BLOCK_ORDER")
  case True
  then show ?thesis using assms(1) by (simp add: allocateBlock_noLock_def ceilAllocateOrder_def)
next
  case False
  then have s: "s \<le> 2 ^ MAX_BLOCK_ORDER" by simp
  note u = unit_bounds [OF s assms(2)]
  have ao: "\<not> MAX_BLOCK_ORDER < ceilAllocateOrder s"
    using ceilAllocateOrder_bounds(4) [OF s] by simp
  show ?thesis
  proof (cases "splitSize \<ge> s")
    case True
    then have "unitOrder s splitSize = ceilAllocateOrder s" by (simp add: unitOrder_def)
    with False True ao assms(1) show ?thesis
      using unit_bytes(1) [OF u(1)]
      by (simp add: allocateBlock_noLock_def unitCount_def unitFrames_def Let_def bind_eq_None_conv
          split: option.split)
  next
    case nle: False
    then have "unitOrder s splitSize = ceilAllocateOrder splitSize" by (simp add: unitOrder_def)
    with False nle ao assms(1) show ?thesis
      using u(4) unit_bytes(1) [OF u(1)]
      by (simp add: allocateBlock_noLock_def unitCount_def unitFrames_def Let_def split: option.split)
  qed
qed

lemma freeSize_diff:
  assumes "X \<subseteq> F" and "finite F"
  shows "(of_nat (c * card F) :: u32) - of_nat (c * card X) = of_nat (c * card (F - X))"
proof -
  have "card F = card (F - X) + card X"
    using assms by (metis card_Diff_subset card_mono finite_subset le_add_diff_inverse2)
  then show ?thesis by (simp add: algebra_simps)
qed

text \<open>The predicates read only the free lists, the orders and the block count, also across
  different extensions of the record.\<close>

lemma buddy_view_cong:
  fixes m :: "'a mbm" and m' :: "'b mbm"
  assumes "sizeOrder m' = sizeOrder m" "freeBlock m' = freeBlock m" "blockCount m' = blockCount m"
  shows "rord m' = rord m" "isFree m' = isFree m" "frames m' = frames m" "covered m' = covered m"
    "freeFrames m' = freeFrames m" "allocated m' = allocated m" "buddy_wf m' = buddy_wf m"
proof -
  show r: "rord m' = rord m" and f: "isFree m' = isFree m"
    by (auto simp: rord_def isFree_def assms)
  show fr: "frames m' = frames m" by (auto simp: frames_def r)
  show c: "covered m' = covered m" by (auto simp: covered_def r)
  show "freeFrames m' = freeFrames m" "allocated m' = allocated m"
    by (auto simp: freeFrames_def allocated_def fr f c assms)
  show "buddy_wf m' = buddy_wf m"
    by (simp add: buddy_wf_def block_ok_def queue_ok_def coalesced_def r f c assms)
qed

lemma buddy_inv_cong:
  fixes m :: "'a mbm" and m' :: "'b mbm"
  assumes "sizeOrder m' = sizeOrder m" "freeBlock m' = freeBlock m" "blockCount m' = blockCount m"
    "freeSize m' = freeSize m"
  shows "buddy_inv m' = buddy_inv m"
  using buddy_view_cong [OF assms(1-3)] assms(4) by (simp add: buddy_inv_def)

lemma wf_freeSize_update [simp]:
  "buddy_wf (m\<lparr>freeSize := v\<rparr>) = buddy_wf m" "freeFrames (m\<lparr>freeSize := v\<rparr>) = freeFrames m"
  "allocated (m\<lparr>freeSize := v\<rparr>) = allocated m" "isFree (m\<lparr>freeSize := v\<rparr>) = isFree m"
  "frames (m\<lparr>freeSize := v\<rparr>) = frames m" "rord (m\<lparr>freeSize := v\<rparr>) = rord m"
  by (rule buddy_view_cong; simp)+

lemma lock_update [simp]:
  "freeFrames (m\<lparr>locked := v\<rparr>) = freeFrames m" "allocated (m\<lparr>locked := v\<rparr>) = allocated m"
  "frames (m\<lparr>locked := v\<rparr>) = frames m" "buddy_inv (m\<lparr>locked := v\<rparr>) = buddy_inv m"
  "isFree (m\<lparr>locked := v\<rparr>) = isFree m" "rord (m\<lparr>locked := v\<rparr>) = rord m"
  by (rule buddy_view_cong buddy_inv_cong; simp)+

lemma allocateBlock_noLock_effect:
  assumes "buddy_inv m" and "locked m" and "0 < s" and "splitSize_ok s splitSize"
  shows "\<exists>r m'. allocateBlock_noLock m s splitSize = Some (r, m') \<and> buddy_inv m' \<and>
    same_frame (m\<lparr>freeSize := freeSize m'\<rparr>) m' \<and>
    (case r of
      None \<Rightarrow> m' = m \<and> (s \<le> 2 ^ MAX_BLOCK_ORDER \<longrightarrow> findFreeBlock m (ceilAllocateOrder s) = None)
    | Some b \<Rightarrow> s \<le> 2 ^ MAX_BLOCK_ORDER \<and> isFree m b \<and> grants m s splitSize b m')"
proof (cases "s > 2 ^ MAX_BLOCK_ORDER \<or> findFreeBlock m (ceilAllocateOrder s) = None")
  case True
  then show ?thesis using assms(1) by (auto simp: allocateBlock_noLock_unfold [OF assms(2,4)])
next
  case False
  then obtain b where s: "s \<le> 2 ^ MAX_BLOCK_ORDER" and b: "findFreeBlock m (ceilAllocateOrder s) = Some b"
    by auto
  have wf: "buddy_wf m" and fs: "freeSize m = of_nat (MIN_BLOCK_SIZE * card (freeFrames m))"
    using assms(1) by (auto simp: buddy_inv_def)
  note ao = ceilAllocateOrder_bounds [OF s] and u = unit_bounds [OF s assms(4)]
  have bf: "isFree m b" "ceilAllocateOrder s \<le> sizeOrder m b"
    using findFreeBlock_Some [OF wf b ao(1)] by auto
  let ?n = "unitCount s splitSize" and ?st = "unitFrames s splitSize" and ?so = "unitOrder s splitSize"
  have "(2::nat) ^ (ceilAllocateOrder s - MIN_BLOCK_ORDER) \<le> 2 ^ rord m b"
    using bf(2) unfolding rord_def by (intro power_increasing) auto
  then have "?n * ?st \<le> 2 ^ rord m b" using u(3) by (rule order_trans [rotated])
  then have in_b: "{b..<b + ?n * ?st} \<subseteq> frames m b" by (auto simp: frames_def)
  moreover have bsub: "frames m b \<subseteq> freeFrames m" using bf(1) by (auto simp: freeFrames_def)
  ultimately have sub: "{b..<b + ?n * ?st} \<subseteq> freeFrames m" by blast
  have only: "?so \<le> sizeOrder m j" if "isFree m j" "j \<in> {b..<b + ?n * ?st}" for j
  proof -
    have "j \<in> frames m j \<inter> frames m b" using that(2) in_b by auto
    then have "j = b" using frames_disjoint isFreeD(2) [OF wf] that(1) bf(1) by blast
    then show ?thesis using bf(2) u(2) by simp
  qed
  obtain m' where m': "takeBlocks ?so ?st b ?n m = Some m'" "buddy_wf m'" "same_frame m m'"
    "allocated m' = allocated m \<union> (\<lambda>i. b + i * ?st) ` {..<?n}"
    "freeFrames m' = freeFrames m - {b..<b + ?n * ?st}"
    "\<forall>j. sizeOrder m' j = (if j \<in> (\<lambda>i. b + i * ?st) ` {..<?n} then ?so else sizeOrder m j)"
    using takeBlocks_wf [OF wf assms(2) u(1) unitFrames_def sub bf(1) only] by blast
  let ?m = "m'\<lparr>freeSize := freeSize m' - of_nat (?n * 2 ^ ?so)\<rparr>"
  have al: "allocateBlock_noLock m s splitSize = Some (Some b, ?m)"
    using s b m'(1) by (simp add: allocateBlock_noLock_unfold [OF assms(2,4)])
  have amount: "?n * 2 ^ ?so = MIN_BLOCK_SIZE * card {b..<b + ?n * ?st}"
    using unit_bytes(2) [OF u(1)] by (simp add: unitFrames_def)
  have "freeSize m' - of_nat (?n * 2 ^ ?so) = of_nat (MIN_BLOCK_SIZE * card (freeFrames m'))"
    unfolding m'(5) same_frameD(3) [OF m'(3)] fs amount
    by (rule freeSize_diff [OF sub finite_freeFrames [OF wf]])
  then have inv: "buddy_inv ?m" using m'(2) by (simp add: buddy_inv_def)
  have sf: "same_frame (m\<lparr>freeSize := freeSize ?m\<rparr>) ?m"
    using same_frame_set_freeSize [OF m'(3)] by simp
  have "j \<notin> (\<lambda>i. b + i * ?st) ` {..<?n}" if "j \<in> allocated m" for j
  proof
    assume "j \<in> (\<lambda>i. b + i * ?st) ` {..<?n}"
    then obtain i where i: "j = b + i * ?st" "i < ?n" by auto
    then have "i * ?st < ?n * ?st" by (intro mult_less_mono1) (simp_all add: unitFrames_def)
    then have "j \<in> {b..<b + ?n * ?st}" using i(1) by simp
    then have "j \<in> freeFrames m" using sub by blast
    moreover have "j \<in> frames m j" by simp
    ultimately show False
      using frames_freeFrames_disjoint [OF wf allocatedD(2,3) [OF that]] by blast
  qed
  then have "grants m s splitSize b ?m"
    using sub m'(4,5,6) by (auto simp: grants_def Let_def)
  with al inv sf s bf(1) show ?thesis by auto
qed

lemma same_frame_freeSize:
  assumes "same_frame (m\<lparr>freeSize := v\<rparr>) m'"
  shows "locked m' = locked m" "blockCount m' = blockCount m" "beginAddress m' = beginAddress m"
  using same_frameD [OF assms] by simp_all

subsection \<open>Release\<close>

lemma releaseBlock_noLock_effect:
  assumes "buddy_inv m" and "locked m" and "b \<in> allocated m"
  shows "\<exists>m'. releaseBlock_noLock m b = Some m' \<and> buddy_inv m' \<and>
    same_frame (m\<lparr>freeSize := freeSize m'\<rparr>) m' \<and> allocated m' = allocated m - {b} \<and>
    freeFrames m' = freeFrames m \<union> frames m b \<and>
    (\<forall>j\<in>allocated m - {b}. sizeOrder m' j = sizeOrder m j)"
proof -
  let ?m = "m\<lparr>freeSize := freeSize m + of_nat (2 ^ sizeOrder m b)\<rparr>"
  have wf: "buddy_wf m" and fs: "freeSize m = of_nat (MIN_BLOCK_SIZE * card (freeFrames m))"
    using assms(1) by (auto simp: buddy_inv_def)
  note b = allocatedD [OF assms(3)]
  have pre: "buddy_wf ?m" "locked ?m" "b \<in> allocated ?m" using wf assms(2,3) by simp_all
  obtain b' m1 where m1: "mergeBlock b ?m = Some (b', m1)" "buddy_wf m1" "same_frame ?m m1"
    "b' \<in> allocated m1" "allocated m1 - {b'} = allocated m - {b}"
    "freeFrames m1 \<union> frames m1 b' = freeFrames m \<union> frames m b"
    "rord m1 b' < 18 \<longrightarrow>
      \<not> (isFree m1 (b' XOR 2 ^ rord m1 b') \<and> rord m1 (b' XOR 2 ^ rord m1 b') = rord m1 b')"
    "\<forall>j\<in>allocated m - {b}. sizeOrder m1 j = sizeOrder m j"
    using mergeBlock_wf [OF pre] by auto
  let ?m2 = "addFreeBlock b' m1"
  note add = addFreeBlock_wf [OF m1(2,4) m1(7) [rule_format]]
  have rel: "releaseBlock_noLock m b = Some ?m2"
    using m1(1) b(3) by (simp add: releaseBlock_noLock_def Let_def)
  have fr: "freeFrames ?m2 = freeFrames m \<union> frames m b" using add(3) m1(6) by blast
  have "frames m b \<inter> freeFrames m = {}" using frames_freeFrames_disjoint [OF wf b(2,3)] .
  then have "card (freeFrames ?m2) = card (freeFrames m) + 2 ^ rord m b"
    unfolding fr using wf by (subst card_Un_disjoint) auto
  moreover have "(2::nat) ^ sizeOrder m b = MIN_BLOCK_SIZE * 2 ^ rord m b"
    using block_okD(1) [OF buddy_wfD(1) [OF wf b(1)]] by (simp add: power_add)
  moreover have "freeSize ?m2 = freeSize m + of_nat (2 ^ sizeOrder m b)"
    using same_frameD(3) [OF m1(3)] by simp
  ultimately have "freeSize ?m2 = of_nat (MIN_BLOCK_SIZE * card (freeFrames ?m2))"
    by (simp add: fs distrib_left)
  then have "buddy_inv ?m2" using add(1) by (simp add: buddy_inv_def)
  moreover have "same_frame (m\<lparr>freeSize := freeSize ?m2\<rparr>) ?m2"
    using same_frame_trans [OF m1(3) same_frame_update(2)] same_frameD(3) [OF m1(3)] by simp
  moreover have "allocated ?m2 = allocated m - {b}" using add(2) m1(5) by simp
  ultimately show ?thesis using rel fr m1(8) by auto
qed

subsection \<open>Initialisation\<close>

lemma fold_init:
  assumes "\<And>b m. sizeOrder (f b m) = (sizeOrder m)(b := MIN_BLOCK_ORDER)"
    and "\<And>b m. blockCount (f b m) = blockCount m" and "\<And>b m. freeSize (f b m) = freeSize m"
    and "\<And>b m. locked (f b m) = locked m" and "\<And>b m. beginAddress (f b m) = beginAddress m"
  shows "blockCount (fold f xs m) = blockCount m \<and> freeSize (fold f xs m) = freeSize m \<and>
    locked (fold f xs m) = locked m \<and> beginAddress (fold f xs m) = beginAddress m \<and>
    (\<forall>j. sizeOrder (fold f xs m) j = (if j \<in> set xs then MIN_BLOCK_ORDER else sizeOrder m j))"
  by (induction xs arbitrary: m) (auto simp: assms)

text \<open>After a reset, every block is an allocated block of the smallest size: the managers
  release those that exist.\<close>

lemma resetBlockArray_inv:
  fixes m :: "'a mbm" and n :: nat and f :: "nat \<Rightarrow> 'a mbm \<Rightarrow> 'a mbm"
  assumes "\<And>b m. sizeOrder (f b m) = (sizeOrder m)(b := MIN_BLOCK_ORDER)"
    and "\<And>b m. blockCount (f b m) = blockCount m" and "\<And>b m. freeSize (f b m) = freeSize m"
    and "\<And>b m. locked (f b m) = locked m" and "\<And>b m. beginAddress (f b m) = beginAddress m"
  defines "m' \<equiv> resetBlockArray m n f"
  shows "buddy_inv m'" and "allocated m' = {..<n}" and "freeFrames m' = {}"
    and "blockCount m' = n" and "locked m' = locked m" and "beginAddress m' = beginAddress m"
    and "\<And>j. j < n \<Longrightarrow> sizeOrder m' j = MIN_BLOCK_ORDER"
proof -
  note fi = fold_init [of f "[0..<n]" "m\<lparr>blockCount := n, freeSize := 0\<rparr>", OF assms(1-5)]
  show c: "blockCount m' = n" "locked m' = locked m" "beginAddress m' = beginAddress m"
    and so: "\<And>j. j < n \<Longrightarrow> sizeOrder m' j = MIN_BLOCK_ORDER"
    using fi by (simp_all add: m'_def resetBlockArray_def)
  have fs: "freeSize m' = 0" and q: "freeBlock m' = (\<lambda>_. [])"
    using fi by (simp_all add: m'_def resetBlockArray_def)
  have free: "\<not> isFree m' j" for j by (simp add: isFree_def q list_ex_iff)
  have r: "rord m' j = 0" if "j < n" for j using so [OF that] by (simp add: rord_def)
  have cov: "\<not> covered m' j" if "j < n" for j using that by (auto simp: covered_def r)
  show ff: "freeFrames m' = {}" by (simp add: freeFrames_def free)
  show "allocated m' = {..<n}" using cov free by (auto simp: allocated_def c)
  have "buddy_wf m'"
    using so cov r by (auto simp: buddy_wf_def block_ok_def queue_ok_def coalesced_def c q free)
  then show "buddy_inv m'" by (simp add: buddy_inv_def ff fs)
qed

text \<open>Growing the array by one block of the smallest size, in use at first.\<close>

lemma grow_inv:
  fixes m :: "'a mbm" and m' :: "'b mbm"
  assumes "buddy_inv m" and "blockCount m' = Suc (blockCount m)"
    and "sizeOrder m' = (sizeOrder m)(blockCount m := MIN_BLOCK_ORDER)"
    and "freeBlock m' = freeBlock m" and "freeSize m' = freeSize m"
  shows "buddy_inv m'" and "allocated m' = insert (blockCount m) (allocated m)"
    and "freeFrames m' = freeFrames m" and "frames m' (blockCount m) = {blockCount m}"
proof -
  let ?n = "blockCount m"
  have wf: "buddy_wf m" using assms(1) by (simp add: buddy_inv_def)
  have r: "rord m' j = (if j = ?n then 0 else rord m j)" for j by (simp add: rord_def assms(3))
  have f: "isFree m' = isFree m" by (auto simp: isFree_def assms(4))
  have lt: "j < ?n" if "isFree m j" for j using isFreeD(1) [OF wf that] .
  have end_le: "h + 2 ^ rord m h \<le> ?n" if "h < ?n" for h using block_okD(4) [OF buddy_wfD(1) [OF wf that]] .
  have cov: "covered m' j \<longleftrightarrow> covered m j" if "j \<le> ?n" for j
    using that unfolding covered_def r by (metis leD)
  have covn: "\<not> covered m' ?n" using end_le by (force simp: covered_def r)
  have "block_ok m' j" if "j < Suc ?n" for j
  proof (cases "j = ?n")
    case True
    then show ?thesis using covn by (simp add: block_ok_def r assms(2,3))
  next
    case False
    then have j: "j < ?n" using that by simp
    then show ?thesis using buddy_wfD(1) [OF wf j] cov [of j] by (auto simp: block_ok_def r assms(2,3))
  qed
  moreover have "queue_ok m' k" for k
    using buddy_wfD(2) [OF wf, of k] cov by (auto simp: queue_ok_def assms(2,4) r)
  moreover have "coalesced m'"
    using buddy_wfD(3) [OF wf] lt by (auto simp: coalesced_def f r)
  ultimately have "buddy_wf m'" by (simp add: buddy_wf_def assms(2))
  moreover have "frames m' j = frames m j" if "isFree m j" for j
    using lt [OF that] by (simp add: frames_def r)
  then show fr: "freeFrames m' = freeFrames m" by (simp add: freeFrames_def f)
  ultimately show "buddy_inv m'" using assms(1,5) by (simp add: buddy_inv_def)
  show "allocated m' = insert ?n (allocated m)"
    using cov covn lt by (auto simp: allocated_def f assms(2) less_Suc_eq)
  show "frames m' ?n = {?n}" by (auto simp: frames_def r)
qed

section \<open>The allocator as an interface\<close>

text \<open>What the memory managers rely on: blocks in use have disjoint spans, an allocation takes
  its span out of the free memory, a release gives it back, and neither touches other blocks.\<close>

locale block_allocator =
  fixes inv :: "'s \<Rightarrow> bool" and used :: "'s \<Rightarrow> nat set" and span :: "'s \<Rightarrow> nat \<Rightarrow> nat set"
    and free :: "'s \<Rightarrow> nat set" and alloc :: "'s \<Rightarrow> nat \<Rightarrow> (nat option \<times> 's) option"
    and release :: "'s \<Rightarrow> nat \<Rightarrow> 's option"
  assumes alloc_total: "inv s \<Longrightarrow> 0 < n \<Longrightarrow> \<exists>r s'. alloc s n = Some (r, s') \<and> inv s'"
    and alloc_None: "inv s \<Longrightarrow> 0 < n \<Longrightarrow> alloc s n = Some (None, s') \<Longrightarrow> s' = s"
    and alloc_Some: "inv s \<Longrightarrow> 0 < n \<Longrightarrow> alloc s n = Some (Some b, s') \<Longrightarrow>
      span s' b \<subseteq> free s \<and> free s' = free s - span s' b \<and> used s' = insert b (used s) \<and>
      (\<forall>c\<in>used s. span s' c = span s c) \<and> b \<notin> used s"
    and span_disjoint: "inv s \<Longrightarrow> b \<in> used s \<Longrightarrow> c \<in> used s \<Longrightarrow> b \<noteq> c \<Longrightarrow> span s b \<inter> span s c = {}"
    and span_not_free: "inv s \<Longrightarrow> b \<in> used s \<Longrightarrow> span s b \<inter> free s = {}"
    and release_total: "inv s \<Longrightarrow> b \<in> used s \<Longrightarrow> \<exists>s'. release s b = Some s' \<and> inv s' \<and>
      used s' = used s - {b} \<and> free s' = free s \<union> span s b \<and> (\<forall>c\<in>used s - {b}. span s' c = span s c)"
begin

definition everything :: "'s \<Rightarrow> nat set" where
  "everything s = free s \<union> (\<Union>b\<in>used s. span s b)"

lemma alloc_conserves:
  assumes "inv s" "0 < n" "alloc s n = Some (r, s')"
  shows "everything s' = everything s"
proof (cases r)
  case None
  then show ?thesis using alloc_None [OF assms(1,2)] assms(3) by blast
next
  case (Some b)
  note e = alloc_Some [OF assms(1,2) assms(3) [unfolded Some]]
  then have "(\<Union>c\<in>used s'. span s' c) = span s' b \<union> (\<Union>c\<in>used s. span s c)" by simp
  then show ?thesis using e unfolding everything_def by blast
qed

lemma release_conserves:
  assumes "inv s" "b \<in> used s" "release s b = Some s'"
  shows "everything s' = everything s"
proof -
  have e: "used s' = used s - {b}" "free s' = free s \<union> span s b" "\<forall>c\<in>used s - {b}. span s' c = span s c"
    using release_total [OF assms(1,2)] assms(3) by auto
  then have "(\<Union>c\<in>used s'. span s' c) = (\<Union>c\<in>used s - {b}. span s c)" by simp
  then show ?thesis using e(2) assms(2) unfolding everything_def by blast
qed

lemma alloc_release:
  assumes "inv s" "0 < n" "alloc s n = Some (Some b, s')"
  shows "\<exists>s''. release s' b = Some s'' \<and> inv s'' \<and> used s'' = used s \<and> free s'' = free s \<and>
    (\<forall>c\<in>used s. span s'' c = span s c)"
proof -
  note e = alloc_Some [OF assms]
  have "inv s'" using alloc_total [OF assms(1,2)] assms(3) by auto
  moreover have "b \<in> used s'" using e by simp
  ultimately obtain s'' where r: "release s' b = Some s''" "inv s''" "used s'' = used s' - {b}"
    "free s'' = free s' \<union> span s' b" "\<forall>c\<in>used s' - {b}. span s'' c = span s' c"
    using release_total by blast
  have "used s'' = used s" using r(3) e by auto
  moreover have "free s'' = free s"
    unfolding r(4) using conjunct1 [OF e] conjunct1 [OF conjunct2 [OF e]] by blast
  moreover have "span s'' c = span s c" if "c \<in> used s" for c
  proof -
    have "c \<in> used s' - {b}" using that e by auto
    then show ?thesis using r(5) e that by simp
  qed
  ultimately show ?thesis using r(1,2) by simp
qed

lemma two_allocs_disjoint:
  assumes "inv s" "0 < n" "alloc s n = Some (Some b, s')" "0 < n'" "alloc s' n' = Some (Some c, s'')"
  shows "b \<noteq> c \<and> span s'' b \<inter> span s'' c = {}"
proof -
  have i: "inv s'" "inv s''"
    using alloc_total [OF assms(1,2)] assms(3) alloc_total [OF _ assms(4), of s'] assms(5) by auto
  note e = alloc_Some [OF assms(1-3)] and e' = alloc_Some [OF i(1) assms(4,5)]
  have "b \<in> used s''" "c \<in> used s''" "b \<noteq> c" using e e' by auto
  then show ?thesis using span_disjoint [OF i(2)] by blast
qed

end

definition allocateOne :: "'a mbm \<Rightarrow> nat \<Rightarrow> (nat option \<times> 'a mbm) option" where
  "allocateOne m s = allocateBlock_noLock m s s"

lemma unitCount_one:
  assumes "0 < s" "s \<le> 2 ^ MAX_BLOCK_ORDER"
  shows "unitCount s s = 1"
proof -
  have "s \<le> 1 * 2 ^ unitOrder s s" using ceilAllocateOrder_bounds(2) [OF assms(2)] by (simp add: unitOrder_def)
  then have "unitCount s s \<le> 1" unfolding unitCount_def by (intro DIV_CEIL_le) simp_all
  moreover have "0 < unitCount s s" unfolding unitCount_def using assms(1) by (intro DIV_CEIL_pos) simp_all
  ultimately show ?thesis by simp
qed

lemma grants_one:
  assumes "grants m s s b m'" "0 < s" "s \<le> 2 ^ MAX_BLOCK_ORDER"
  shows "frames m' b \<subseteq> freeFrames m" "freeFrames m' = freeFrames m - frames m' b"
    "allocated m' = insert b (allocated m)" "\<And>j. j \<in> allocated m \<Longrightarrow> sizeOrder m' j = sizeOrder m j"
    "sizeOrder m' b = ceilAllocateOrder s"
proof -
  have one: "unitCount s s = 1" and o: "unitOrder s s = ceilAllocateOrder s"
    using unitCount_one assms(2,3) by (auto simp: unitOrder_def)
  note g = assms(1) [unfolded grants_def Let_def one]
  show so: "sizeOrder m' b = ceilAllocateOrder s" using g o by simp
  have "{b..<b + 1 * unitFrames s s} = frames m' b" by (simp add: frames_def rord_def so unitFrames_def o)
  then show "frames m' b \<subseteq> freeFrames m" "freeFrames m' = freeFrames m - frames m' b"
    "allocated m' = insert b (allocated m)" "\<And>j. j \<in> allocated m \<Longrightarrow> sizeOrder m' j = sizeOrder m j"
    using g by auto
qed

lemma allocateOne_effect:
  assumes "buddy_inv m" "locked m" "0 < s" "allocateOne m s = Some (r, m')"
  shows "buddy_inv m' \<and> locked m' \<and> blockCount m' = blockCount m \<and>
    beginAddress m' = beginAddress m \<and> (case r of None \<Rightarrow> m' = m
    | Some b \<Rightarrow> isFree m b \<and> s \<le> 2 ^ MAX_BLOCK_ORDER \<and> grants m s s b m')"
proof -
  have "splitSize_ok s s" by (simp add: splitSize_ok_def)
  from allocateBlock_noLock_effect [OF assms(1-3) this] assms(2,4)
  show ?thesis by (auto simp: allocateOne_def dest: same_frame_freeSize split: option.splits)
qed

interpretation buddy: block_allocator "\<lambda>m. buddy_inv m \<and> locked m" allocated frames freeFrames
  allocateOne releaseBlock_noLock
proof (unfold_locales, goal_cases)
  case (1 m s)
  have "splitSize_ok s s" by (simp add: splitSize_ok_def)
  then obtain r m' where a: "allocateOne m s = Some (r, m')"
    using allocateBlock_noLock_effect [of m s s] 1 by (auto simp: allocateOne_def)
  then show ?case using allocateOne_effect [of m s r m'] 1 by blast
next
  case (2 m s m')
  then show ?case using allocateOne_effect [of m s None m'] by auto
next
  case (3 m s b m')
  then have "isFree m b" and s: "s \<le> 2 ^ MAX_BLOCK_ORDER" and g: "grants m s s b m'"
    using allocateOne_effect [of m s "Some b" m'] by auto
  then have "b \<notin> allocated m" by (simp add: allocated_def)
  then show ?case using grants_one [OF g 3(2) s] by (auto simp: frames_def rord_def)
next
  case (4 m b c)
  then show ?case using frames_disjoint allocatedD(2) by blast
next
  case (5 m b)
  then show ?case
    by (intro frames_freeFrames_disjoint allocatedD(2,3)) (simp_all add: buddy_inv_def)
next
  case (6 m b)
  then obtain m' where "releaseBlock_noLock m b = Some m'" "buddy_inv m'"
    "same_frame (m\<lparr>freeSize := freeSize m'\<rparr>) m'" "allocated m' = allocated m - {b}"
    "freeFrames m' = freeFrames m \<union> frames m b" "\<forall>j\<in>allocated m - {b}. sizeOrder m' j = sizeOrder m j"
    using releaseBlock_noLock_effect [of m b] by blast
  with 6 show ?case by (auto simp: frames_def rord_def dest: same_frame_freeSize(1))
qed

lemma allocated_not_freeFrames:
  assumes "buddy_inv m" "e \<in> allocated m"
  shows "e \<notin> freeFrames m"
proof -
  have "frames m e \<inter> freeFrames m = {}"
    using assms by (intro frames_freeFrames_disjoint allocatedD(2,3)) (simp_all add: buddy_inv_def)
  then show ?thesis using frames_self [of e m] by blast
qed

section \<open>Theorems\<close>

text \<open>A manager of eight frames at address 1 MiB, as \<open>initMemoryBlockManager\<close> leaves it, with its
  blocks released one after the other: the concrete input of the examples.\<close>

definition blank :: MemoryBlockManager where
  "blank = \<lparr>locked = True, beginAddress = 0x100000, blockStructSize = 12, blockStructOffset = 0,
    blockCount = 0, freeSize = 0, freeBlock = (\<lambda>_. []), blockArray = 0, sizeOrder = (\<lambda>_. 0)\<rparr>"

definition eightUsed :: MemoryBlockManager where
  "eightUsed = resetBlockArray blank 8 initMemoryBlock"

lemma initMemoryBlock_fields:
  "sizeOrder (initMemoryBlock b m) = (sizeOrder m)(b := MIN_BLOCK_ORDER)"
  "blockCount (initMemoryBlock b m) = blockCount m" "freeSize (initMemoryBlock b m) = freeSize m"
  "locked (initMemoryBlock b m) = locked m" "beginAddress (initMemoryBlock b m) = beginAddress m"
  by (simp_all add: initMemoryBlock_def)

lemmas reset_initMemoryBlock = resetBlockArray_inv [of initMemoryBlock, OF initMemoryBlock_fields]

lemma eightUsed_inv: "buddy_inv eightUsed" "locked eightUsed" "allocated eightUsed = {..<8}"
  "blockCount eightUsed = 8" "freeFrames eightUsed = {}"
  unfolding eightUsed_def by (simp_all add: reset_initMemoryBlock) (simp add: blank_def)

lemma twoFree:
  "\<exists>m' :: MemoryBlockManager. buddy_inv m' \<and> locked m' \<and> 3 \<in> freeFrames m' \<and> 5 \<in> freeFrames m'"
proof -
  have "3 \<in> allocated eightUsed" by (simp add: eightUsed_inv)
  from buddy.release_total [OF conjI [OF eightUsed_inv(1,2)] this]
  obtain m1 :: MemoryBlockManager where m1: "buddy_inv m1" "locked m1" "allocated m1 = {..<8} - {3}"
    "freeFrames m1 = frames eightUsed 3" by (auto simp: eightUsed_inv)
  have "5 \<in> allocated m1" using m1(3) by simp
  from buddy.release_total [OF conjI [OF m1(1,2)] this]
  obtain m2 :: MemoryBlockManager where "buddy_inv m2" "locked m2" "freeFrames m2 = frames eightUsed 3 \<union> frames m1 5"
    by (auto simp: m1(4))
  then show ?thesis by (intro exI [of _ m2]) simp
qed

text \<open>C1: \<open>allocateBlock_noLock\<close> called on a well-formed, locked manager with a positive size and a
  legal split size never fails an assertion and returns a well-formed manager. When it returns
  a block, exactly the frames of the blocks it hands out leave the free memory, the blocks have
  the requested order, and no block that was in use before changes.\<close>

theorem allocateBlock_noLock_correct:
  assumes "buddy_inv m" and "locked m" and "0 < s" and "splitSize_ok s splitSize"
  shows "\<exists>r m'. allocateBlock_noLock m s splitSize = Some (r, m') \<and> buddy_inv m' \<and> locked m' \<and>
    (case r of None \<Rightarrow> m' = m | Some b \<Rightarrow> grants m s splitSize b m')"
proof -
  obtain r m' where a: "allocateBlock_noLock m s splitSize = Some (r, m')" "buddy_inv m'"
    "same_frame (m\<lparr>freeSize := freeSize m'\<rparr>) m'"
    "case r of None \<Rightarrow> m' = m \<and> (s \<le> 2 ^ MAX_BLOCK_ORDER \<longrightarrow> findFreeBlock m (ceilAllocateOrder s) = None)
      | Some b \<Rightarrow> s \<le> 2 ^ MAX_BLOCK_ORDER \<and> isFree m b \<and> grants m s splitSize b m'"
    using allocateBlock_noLock_effect [OF assms] by blast
  have "locked m'" using same_frame_freeSize(1) [OF a(3)] assms(2) by simp
  moreover have "case r of None \<Rightarrow> m' = m | Some b \<Rightarrow> grants m s splitSize b m'"
    using a(4) by (cases r) simp_all
  ultimately show ?thesis using a(1,2) by blast
qed

theorem allocateBlock_noLock_correct_witness:
  "\<exists>r m'. allocateBlock_noLock eightUsed 4096 4096 = Some (r, m') \<and> buddy_inv m' \<and> locked m' \<and>
    (case r of None \<Rightarrow> m' = eightUsed | Some b \<Rightarrow> grants eightUsed 4096 4096 b m')"
  by (rule allocateBlock_noLock_correct [OF eightUsed_inv(1,2)]) (simp_all add: splitSize_ok_def)

lemma allocate_None_no_run:
  assumes "buddy_inv m" and "locked m" and "0 < s" and "splitSize_ok s splitSize"
    and "s \<le> 2 ^ MAX_BLOCK_ORDER" and "allocateBlock_noLock m s splitSize = Some (None, m')"
    and "2 ^ (ceilAllocateOrder s - MIN_BLOCK_ORDER) dvd a"
  shows "\<not> {a..<a + 2 ^ (ceilAllocateOrder s - MIN_BLOCK_ORDER)} \<subseteq> freeFrames m"
proof
  assume sub: "{a..<a + 2 ^ (ceilAllocateOrder s - MIN_BLOCK_ORDER)} \<subseteq> freeFrames m"
  have wf: "buddy_wf m" using assms(1) by (simp add: buddy_inv_def)
  note ao = ceilAllocateOrder_bounds [OF assms(5)]
  have none: "findFreeBlock m (ceilAllocateOrder s) = None"
    using allocateBlock_noLock_effect [OF assms(1-4)] assms(5,6) by auto
  have "ceilAllocateOrder s - MIN_BLOCK_ORDER \<le> 18" using ao(4) by simp
  from free_run_in_block [OF wf this assms(7) sub]
  obtain j where j: "isFree m j" "ceilAllocateOrder s - MIN_BLOCK_ORDER \<le> rord m j" by blast
  have "sizeOrder m j < ceilAllocateOrder s" using findFreeBlock_None [OF wf none ao(1) j(1)] .
  then show False using j(2) block_okD(1) [OF buddy_wfD(1) [OF wf isFreeD(1) [OF wf j(1)]]] ao(1) by simp
qed

lemma allocate_page:
  assumes "buddy_inv m" and "locked m" and "f \<in> freeFrames m"
  shows "\<exists>b m'. allocateBlock_noLock m 4096 4096 = Some (Some b, m') \<and> buddy_inv m' \<and> locked m' \<and>
    freeFrames m' = freeFrames m - {b}"
proof -
  have ok: "splitSize_ok 4096 4096" by (simp add: splitSize_ok_def)
  have c: "ceilAllocateOrder 4096 = 12" using ceilAllocateOrder_power [of 12] by simp
  obtain r m' where a: "allocateOne m 4096 = Some (r, m')"
    using buddy.alloc_total [of m 4096] assms(1,2) by auto
  then have "r \<noteq> None"
    using allocate_None_no_run [OF assms(1,2) _ ok, of m' f] assms(3) by (auto simp: allocateOne_def c)
  then obtain b where r: "r = Some b" by auto
  have "buddy_inv m' \<and> locked m'" and g: "grants m 4096 4096 b m'"
    using allocateOne_effect [OF assms(1,2) _ a] r by auto
  moreover have "frames m' b = {b}" using grants_one(5) [OF g] c by (auto simp: frames_def rord_def)
  ultimately show ?thesis using grants_one(2) [OF g] a r by (auto simp: allocateOne_def)
qed

text \<open>Allocation is complete. When \<open>allocateBlock_noLock\<close> returns \<open>NULL\<close> for a size of at
  most \<open>MAX_BLOCK_SIZE\<close>, then the free memory contains no run of frames that has the rounded-up
  size and is aligned to it: merging on release never leaves free buddies apart.\<close>

lemma allocateBlock_noLock_complete:
  assumes "buddy_inv m" and "locked m" and "0 < s" and "splitSize_ok s splitSize"
    and "s \<le> 2 ^ MAX_BLOCK_ORDER" and "allocateBlock_noLock m s splitSize = Some (None, m')"
    and "2 ^ (ceilAllocateOrder s - MIN_BLOCK_ORDER) dvd a"
  shows "\<not> {a..<a + 2 ^ (ceilAllocateOrder s - MIN_BLOCK_ORDER)} \<subseteq> freeFrames m"
  using assms by (rule allocate_None_no_run)

text \<open>C2: \<open>releaseBlock_noLock\<close> called for a block in use never fails an assertion, returns a
  well-formed manager in which the frames of the block are free and in which no two free buddies
  of equal size are left, and changes no other block that is in use. The free byte count it
  keeps is the size of the free memory.\<close>

theorem releaseBlock_noLock_correct:
  assumes "buddy_inv m" and "locked m" and "b \<in> allocated m"
  shows "\<exists>m'. releaseBlock_noLock m b = Some m' \<and> buddy_inv m' \<and> coalesced m' \<and>
    allocated m' = allocated m - {b} \<and> freeFrames m' = freeFrames m \<union> frames m b \<and>
    getFreeBlockSize m' = of_nat (MIN_BLOCK_SIZE * card (freeFrames m \<union> frames m b)) \<and>
    (\<forall>j\<in>allocated m - {b}. sizeOrder m' j = sizeOrder m j)"
  using releaseBlock_noLock_effect [OF assms] by (fastforce simp: buddy_inv_def buddy_wf_def getFreeBlockSize_def)

theorem releaseBlock_noLock_correct_witness:
  "\<exists>m'. releaseBlock_noLock eightUsed 5 = Some m' \<and> buddy_inv m' \<and> coalesced m' \<and>
    allocated m' = {..<8} - {5} \<and> freeFrames m' = {} \<union> frames eightUsed 5"
proof -
  have "5 \<in> allocated eightUsed" by (simp add: eightUsed_inv)
  from releaseBlock_noLock_correct [OF eightUsed_inv(1,2) this] show ?thesis
    by (auto simp: eightUsed_inv)
qed

text \<open>Two successive allocations of whole blocks return blocks whose memory does not overlap.\<close>

lemma allocations_disjoint:
  assumes "buddy_inv m" and "locked m" and "0 < s" and "0 < s'"
    and "allocateBlock_noLock m s s = Some (Some b, m')"
    and "allocateBlock_noLock m' s' s' = Some (Some c, m'')"
  shows "b \<noteq> c \<and> frames m'' b \<inter> frames m'' c = {}"
  using buddy.two_allocs_disjoint [of m s b m' s' c m''] assms by (simp add: allocateOne_def)

text \<open>Releasing a block right after its allocation gives back exactly the memory that was
  free before, and no block in use has changed.\<close>

lemma allocate_release_roundtrip:
  assumes "buddy_inv m" and "locked m" and "0 < s" and "allocateBlock_noLock m s s = Some (Some b, m')"
  shows "\<exists>m''. releaseBlock_noLock m' b = Some m'' \<and> buddy_inv m'' \<and> allocated m'' = allocated m \<and>
    freeFrames m'' = freeFrames m \<and> freeSize m'' = freeSize m"
proof -
  obtain m'' where r: "releaseBlock_noLock m' b = Some m''" "buddy_inv m''" "allocated m'' = allocated m"
    "freeFrames m'' = freeFrames m"
    using buddy.alloc_release [of m s b m'] assms by (auto simp: allocateOne_def)
  then show ?thesis using assms(1) by (simp add: buddy_inv_def)
qed

end
