(* ===== verification/PhysicalBlock.thy ===== *)
theory PhysicalBlock
  imports Buddy
begin

text \<open>
  Physical memory blocks with reference counts, \<open>kernel/memory/physicalblock.c\<close>, and the
  stand-alone counters of \<open>kernel/memory/referencecount.c\<close>. The manager extends the buddy
  manager by the \<open>referenceCount\<close> member of every element.
\<close>

definition INVALID_PAGE_ADDRESS :: nat where
  "INVALID_PAGE_ADDRESS = 0xffffffff"

definition MAX_REFERENCE_COUNT :: u32 where
  "MAX_REFERENCE_COUNT = 0xffffffff"

record PhysicalMemoryBlockManager = MemoryBlockManager +
  referenceCount :: "nat \<Rightarrow> u32"

type_synonym pmm = PhysicalMemoryBlockManager

definition initPhysicalMemoryBlock :: "nat \<Rightarrow> pmm \<Rightarrow> pmm" where
  "initPhysicalMemoryBlock b m = (initMemoryBlock b m)\<lparr>referenceCount := (referenceCount m)(b := 1)\<rparr>"

definition getPhysicalBlockManagerSize :: "nat \<Rightarrow> pmm \<Rightarrow> nat" where
  "getPhysicalBlockManagerSize structSize m = structSize + blockCount m * blockStructSize m"

text \<open>\<open>structSize\<close> is \<open>sizeof(PhysicalMemoryBlockManager)\<close>.\<close>

definition createPhysicalMemoryBlockManager ::
    "nat \<Rightarrow> pmm \<Rightarrow> nat \<Rightarrow> nat \<Rightarrow> nat \<Rightarrow> pmm option" where
  "createPhysicalMemoryBlockManager structSize pm manageSize beginAddr initEndAddr = do {
    pm \<leftarrow> initMemoryBlockManager pm 16 4 beginAddr initEndAddr initPhysicalMemoryBlock;
    kassert (\<not> getPhysicalBlockManagerSize structSize pm \<ge> manageSize);
    Some pm
  }"

definition getPhysicalBlockCount :: "pmm \<Rightarrow> nat" where
  "getPhysicalBlockCount m = blockCount m"

definition getFreePhysicalBlockSize :: "pmm \<Rightarrow> u32" where
  "getFreePhysicalBlockSize m = freeSize m"

function setReferences :: "nat \<Rightarrow> nat \<Rightarrow> nat \<Rightarrow> nat \<Rightarrow> pmm \<Rightarrow> pmm option" where
  "setReferences a i s splitSize m = (if i < s then
      if splitSize = 0 then None else
      (case addressToIndex m (a + i) of None \<Rightarrow> None | Some e \<Rightarrow>
        if referenceCount m e \<noteq> 0 then None
        else setReferences a (i + splitSize) s splitSize (m\<lparr>referenceCount := (referenceCount m)(e := 1)\<rparr>))
    else Some m)"
  by pat_completeness auto
termination by (relation "measure (\<lambda>(a, i, s, splitSize, m). s - i)") auto

declare setReferences.simps [simp del]

definition allocatePhysicalBlock :: "pmm \<Rightarrow> nat \<Rightarrow> nat \<Rightarrow> (nat \<times> pmm) option" where
  "allocatePhysicalBlock m s splitSize = do {
    m \<leftarrow> acquireLock m;
    (b, m) \<leftarrow> allocateBlock_noLock m s splitSize;
    (a, m) \<leftarrow> (case b of
      None \<Rightarrow> Some (INVALID_PAGE_ADDRESS, m)
    | Some b \<Rightarrow> do {
        let a = indexToAddress m b;
        m \<leftarrow> setReferences a 0 s splitSize m;
        Some (a, m)
      });
    m \<leftarrow> releaseLock m;
    Some (a, m)
  }"

definition addPhysicalBlockReference :: "pmm \<Rightarrow> nat \<Rightarrow> (bool \<times> pmm) option" where
  "addPhysicalBlockReference m address = do {
    m \<leftarrow> acquireLock m;
    (ok, m) \<leftarrow>
      (if isAddressInRange m address then do {
         e \<leftarrow> addressToIndex m address;
         kassert (referenceCount m e > 0);
         let ok = referenceCount m e < MAX_REFERENCE_COUNT;
         Some (ok, if ok then m\<lparr>referenceCount := (referenceCount m)(e := referenceCount m e + 1)\<rparr> else m)
       } else Some (True, m));
    m \<leftarrow> releaseLock m;
    Some (ok, m)
  }"

definition releasePhysicalBlock :: "pmm \<Rightarrow> nat \<Rightarrow> pmm option" where
  "releasePhysicalBlock m address = do {
    m \<leftarrow> acquireLock m;
    m \<leftarrow>
      (if isAddressInRange m address then do {
         e \<leftarrow> addressToIndex m address;
         kassert (referenceCount m e > 0);
         let m = m\<lparr>referenceCount := (referenceCount m)(e := referenceCount m e - 1)\<rparr>;
         (if referenceCount m e = 0 then releaseBlock_noLock m e else Some m)
       } else Some m);
    releaseLock m
  }"

subsection \<open>Reference counters\<close>

record ReferenceCount =
  refValue :: int

definition initReferenceCount :: "int \<Rightarrow> ReferenceCount" where
  "initReferenceCount v = \<lparr>refValue = v\<rparr>"

definition addReference :: "ReferenceCount \<Rightarrow> int \<Rightarrow> int \<times> ReferenceCount" where
  "addReference rc changeValue =
    (let rc = rc\<lparr>refValue := refValue rc + changeValue\<rparr> in (refValue rc, rc))"

section \<open>The invariant\<close>

text \<open>Between calls the lock is free, and a block has references exactly while it is allocated.\<close>

definition phys_inv :: "pmm \<Rightarrow> bool" where
  "phys_inv m \<longleftrightarrow> buddy_inv m \<and> \<not> locked m \<and> beginAddress m mod MIN_BLOCK_SIZE = 0 \<and>
    (\<forall>j<blockCount m. referenceCount m j > 0 \<longleftrightarrow> j \<in> allocated m)"

lemma references_update [simp]:
  "freeFrames (m\<lparr>referenceCount := r\<rparr>) = freeFrames m"
  "allocated (m\<lparr>referenceCount := r\<rparr>) = allocated m" "frames (m\<lparr>referenceCount := r\<rparr>) = frames m"
  "buddy_inv (m\<lparr>referenceCount := r\<rparr>) = buddy_inv m"
  by (rule buddy_view_cong buddy_inv_cong; simp)+

lemma same_frame_references:
  "same_frame (m\<lparr>freeSize := v\<rparr>) m' \<Longrightarrow> referenceCount m' = referenceCount (m :: pmm)"
  by (auto simp: same_frame_def)

lemma lock_twice:
  "\<not> locked m \<Longrightarrow> m\<lparr>locked := True, referenceCount := r, locked := False\<rparr> = m\<lparr>referenceCount := r\<rparr>"
  "\<not> locked m \<Longrightarrow> m\<lparr>locked := False\<rparr> = m"
  "\<not> locked m \<Longrightarrow> m\<lparr>referenceCount := r, locked := False\<rparr> = (m :: pmm)\<lparr>referenceCount := r\<rparr>"
  by (cases m; simp)+

lemma phys_invD:
  assumes "phys_inv m"
  shows "buddy_inv m" "\<not> locked m" "beginAddress m mod MIN_BLOCK_SIZE = 0"
    "j < blockCount m \<Longrightarrow> referenceCount m j > 0 \<longleftrightarrow> j \<in> allocated m"
    "buddy_inv (m\<lparr>locked := True\<rparr>)"
  using assms by (auto simp: phys_inv_def)

lemma initPhysicalMemoryBlock_fields:
  "sizeOrder (initPhysicalMemoryBlock b m) = (sizeOrder m)(b := MIN_BLOCK_ORDER)"
  "blockCount (initPhysicalMemoryBlock b m) = blockCount m"
  "freeSize (initPhysicalMemoryBlock b m) = freeSize m"
  "locked (initPhysicalMemoryBlock b m) = locked m"
  "beginAddress (initPhysicalMemoryBlock b m) = beginAddress m"
  "referenceCount (initPhysicalMemoryBlock b m) = (referenceCount m)(b := 1)"
  by (simp_all add: initPhysicalMemoryBlock_def initMemoryBlock_def)

lemmas reset_initPhysical =
  resetBlockArray_inv [of initPhysicalMemoryBlock, OF initPhysicalMemoryBlock_fields(1-5)]

lemma fold_initPhysical:
  "referenceCount (fold initPhysicalMemoryBlock xs m) j = (if j \<in> set xs then 1 else referenceCount m j)"
  by (induction xs arbitrary: m) (auto simp: initPhysicalMemoryBlock_fields)

lemma createPhysicalMemoryBlockManager_inv:
  assumes "createPhysicalMemoryBlockManager k pm manageSize beginAddr initEndAddr = Some m"
  shows "phys_inv m" and "blockCount m = (initEndAddr - beginAddr) div MIN_BLOCK_SIZE"
    and "allocated m = {..<blockCount m}" and "freeFrames m = {}" and "beginAddress m = beginAddr"
    and "\<And>j. j < blockCount m \<Longrightarrow> referenceCount m j = 1 \<and> sizeOrder m j = MIN_BLOCK_ORDER"
proof -
  let ?n = "(initEndAddr - beginAddr) div MIN_BLOCK_SIZE"
  let ?pm = "pm\<lparr>locked := False, blockStructSize := 16, blockStructOffset := 4, beginAddress := beginAddr\<rparr>"
  have m: "m = resetBlockArray ?pm ?n initPhysicalMemoryBlock" and d: "beginAddr mod MIN_BLOCK_SIZE = 0"
    using assms by (auto simp: createPhysicalMemoryBlockManager_def initMemoryBlockManager_def
        evaluateBlockCount_def split: bind_splits)
  have "referenceCount m j = 1" if "j < ?n" for j
    using that by (simp add: m resetBlockArray_def fold_initPhysical)
  then show "phys_inv m" "blockCount m = ?n" "allocated m = {..<blockCount m}" "freeFrames m = {}" "beginAddress m = beginAddr"
    "\<And>j. j < blockCount m \<Longrightarrow> referenceCount m j = 1 \<and> sizeOrder m j = MIN_BLOCK_ORDER"
    using reset_initPhysical [where m = ?pm and n = ?n, folded m] d by (simp_all add: phys_inv_def)
qed

lemma createPhysicalMemoryBlockManager_room:
  assumes "beginAddr mod MIN_BLOCK_SIZE = 0" "k + 16 * ((initEndAddr - beginAddr) div MIN_BLOCK_SIZE) < manageSize"
  shows "\<exists>m. createPhysicalMemoryBlockManager k pm manageSize beginAddr initEndAddr = Some m"
proof -
  have "blockStructSize (fold initPhysicalMemoryBlock xs m) = blockStructSize m" "blockCount (fold initPhysicalMemoryBlock xs m) = blockCount m" for xs m
    by (induction xs arbitrary: m) (simp_all add: initPhysicalMemoryBlock_def initMemoryBlock_def)
  then show ?thesis using assms
    by (simp add: createPhysicalMemoryBlockManager_def initMemoryBlockManager_def evaluateBlockCount_def getPhysicalBlockManagerSize_def resetBlockArray_def mult.commute)
qed

section \<open>Allocation sets the counts of the granted blocks\<close>

lemma setReferences_run:
  assumes "0 < splitSize" "i = j * splitSize" "n = DIV_CEIL s splitSize"
    and "beginAddress m mod MIN_BLOCK_SIZE = 0"
    and "\<And>t. t < n \<Longrightarrow> b + t * step < blockCount m \<and> t * splitSize = t * step * MIN_BLOCK_SIZE"
    and "\<And>t. j \<le> t \<Longrightarrow> t < n \<Longrightarrow> referenceCount m (b + t * step) = 0" and "0 < step"
  shows "\<exists>r. setReferences (indexToAddress m b) i s splitSize m = Some (m\<lparr>referenceCount := r\<rparr>) \<and>
    (\<forall>e. r e = (if e \<in> (\<lambda>t. b + t * step) ` {j..<n} then 1 else referenceCount m e))"
  using assms
proof (induction "n - j" arbitrary: i j m)
  case 0
  then have "\<not> i < s" using less_DIV_CEIL_iff [of splitSize j s] by simp
  then show ?case using 0 by (intro exI [of _ "referenceCount m"]) (simp add: setReferences.simps)
next
  case (Suc k)
  then have jn: "j < n" by simp
  then have lt: "i < s" using Suc.prems(1-3) less_DIV_CEIL_iff [of splitSize j s] by simp
  let ?e = "b + j * step"
  let ?m = "m\<lparr>referenceCount := (referenceCount m)(?e := 1)\<rparr>"
  have e: "?e < blockCount m" "i = j * step * MIN_BLOCK_SIZE" using Suc.prems(2,5) jn by auto
  have "addressToIndex m (indexToAddress m b + i) = addressToIndex m (indexToAddress m ?e)"
    by (simp add: indexToAddress_def e(2) algebra_simps)
  then have ad: "addressToIndex m (indexToAddress m b + i) = Some ?e"
    using addressToIndex_indexToAddress [OF Suc.prems(4) e(1)] by simp
  have zero: "referenceCount m ?e = 0" using Suc.prems(6) jn by simp
  have run: "setReferences (indexToAddress m b) i s splitSize m =
      setReferences (indexToAddress ?m b) (i + splitSize) s splitSize ?m"
    using lt ad zero Suc.prems(1)
    by (subst setReferences.simps) (simp add: indexToAddress_def)
  have "referenceCount ?m (b + t * step) = 0" if "Suc j \<le> t" "t < n" for t
    using Suc.prems(6,7) that by simp
  moreover have "k = n - Suc j" using Suc.hyps(2) by simp
  moreover have "i + splitSize = Suc j * splitSize" using Suc.prems(2) by simp
  moreover have "\<And>t. t < n \<Longrightarrow> b + t * step < blockCount ?m \<and> t * splitSize = t * step * MIN_BLOCK_SIZE"
    using Suc.prems(5) by simp
  moreover have "beginAddress ?m mod MIN_BLOCK_SIZE = 0" using Suc.prems(4) by simp
  ultimately obtain r where r: "setReferences (indexToAddress ?m b) (i + splitSize) s splitSize ?m = Some (?m\<lparr>referenceCount := r\<rparr>)"
    "\<forall>e. r e = (if e \<in> (\<lambda>t. b + t * step) ` {Suc j..<n} then 1 else referenceCount ?m e)"
    using Suc.hyps(1) [of "Suc j" "i + splitSize" ?m, OF _ Suc.prems(1) _ Suc.prems(3)] Suc.prems(7)
    by blast
  have "{j..<n} = insert j {Suc j..<n}" using jn by auto
  then show ?case using r run by (intro exI [of _ r]) auto
qed

lemma unitCount_eq:
  assumes "0 < s" and "s \<le> 2 ^ MAX_BLOCK_ORDER" and "splitSize_ok s splitSize"
  shows "unitCount s splitSize = DIV_CEIL s splitSize \<and> 0 < splitSize"
proof (cases "splitSize < s")
  case True
  then have "2 ^ unitOrder s splitSize = splitSize" by (rule unit_bounds(4) [OF assms(2,3)])
  then show ?thesis by (metis unitCount_def zero_less_numeral zero_less_power)
next
  case False
  then have "unitOrder s splitSize = unitOrder s s" by (simp add: unitOrder_def)
  then have "unitCount s splitSize = 1" using unitCount_one [OF assms(1,2)] by (simp add: unitCount_def)
  moreover have "DIV_CEIL s splitSize \<le> 1" using False assms(1) by (intro DIV_CEIL_le) simp_all
  moreover have "0 < DIV_CEIL s splitSize" using False assms(1) by (intro DIV_CEIL_pos) simp_all
  ultimately show ?thesis using False assms(1) by simp
qed

lemma allocatePhysicalBlock_effect:
  assumes "phys_inv m" and "0 < s" and "splitSize_ok s splitSize"
  shows "\<exists>a m'. allocatePhysicalBlock m s splitSize = Some (a, m') \<and> phys_inv m' \<and> beginAddress m' = beginAddress m \<and> blockCount m' = blockCount m \<and>
    (a = INVALID_PAGE_ADDRESS \<and> m' = m \<or>
     (\<exists>b. a = indexToAddress m b \<and> isAddressInRange m' a \<and> grants m s splitSize b m' \<and>
       (\<forall>j. referenceCount m' j =
         (if j \<in> (\<lambda>i. b + i * unitFrames s splitSize) ` {..<unitCount s splitSize} then 1
          else referenceCount m j))))"
proof -
  note inv = phys_invD [OF assms(1)]
  let ?m0 = "m\<lparr>locked := True\<rparr>" and ?st = "unitFrames s splitSize" and ?n = "unitCount s splitSize"
  obtain r m1 where a: "allocateBlock_noLock ?m0 s splitSize = Some (r, m1)" "buddy_inv m1"
    "same_frame (?m0\<lparr>freeSize := freeSize m1\<rparr>) m1"
    "case r of None \<Rightarrow> m1 = ?m0 \<and> (s \<le> 2 ^ MAX_BLOCK_ORDER \<longrightarrow> findFreeBlock ?m0 (ceilAllocateOrder s) = None)
     | Some b \<Rightarrow> s \<le> 2 ^ MAX_BLOCK_ORDER \<and> isFree ?m0 b \<and> grants ?m0 s splitSize b m1"
    using allocateBlock_noLock_effect [OF inv(5) _ assms(2,3)] by auto
  have m1: "blockCount m1 = blockCount m" "locked m1" "beginAddress m1 = beginAddress m"
    "referenceCount m1 = referenceCount m"
    using same_frame_freeSize [OF a(3)] same_frame_references [OF a(3)] by simp_all
  show ?thesis
  proof (cases r)
    case None
    then have "m1 = ?m0" using a(4) by simp
    then have "allocatePhysicalBlock m s splitSize = Some (INVALID_PAGE_ADDRESS, m)"
      using a(1) None inv(2) by (simp add: allocatePhysicalBlock_def acquireLock_def releaseLock_def)
    then show ?thesis using assms(1) by blast
  next
    case (Some b)
    then have s: "s \<le> 2 ^ MAX_BLOCK_ORDER" and fb: "isFree m b" and g: "grants m s splitSize b m1"
      using a(4) by (simp_all add: grants_def)
    note g' = g [unfolded grants_def Let_def]
    note u = unit_bounds [OF s assms(3)]
    let ?blocks = "(\<lambda>i. b + i * ?st) ` {..<?n}"
    have n: "?n = DIV_CEIL s splitSize" and ss: "0 < splitSize"
      using unitCount_eq [OF assms(2) s assms(3)] by auto
    have notal: "e \<notin> allocated m" if "e \<in> ?blocks" for e
    proof
      assume al: "e \<in> allocated m"
      from that obtain i where i: "e = b + i * ?st" "i < ?n" by auto
      then have "i * ?st < ?n * ?st" by (intro mult_less_mono1) (simp_all add: unitFrames_def)
      then have "e \<in> freeFrames m" using g' i(1) by auto
      then show False
        using allocated_not_freeFrames [OF inv(1) al] by simp
    qed
    have blk: "e < blockCount m" if "e \<in> ?blocks" for e
    proof -
      have "e \<in> allocated m1" using g' that by auto
      then show ?thesis using allocatedD(1) m1(1) by metis
    qed
    have ts: "t * splitSize = t * ?st * MIN_BLOCK_SIZE" if "t < ?n" for t
    proof (cases "splitSize < s")
      case True
      then show ?thesis using unit_bytes(2) [OF u(1)] u(4) by (simp add: unitFrames_def)
    next
      case False
      then have "DIV_CEIL s splitSize \<le> 1" using assms(2) by (intro DIV_CEIL_le) simp_all
      then show ?thesis using that n by simp
    qed
    have z: "referenceCount m1 e = 0" if "e \<in> ?blocks" for e
      using phys_invD(4) [OF assms(1) blk [OF that]] notal [OF that] m1(4) by (simp add: word_gt_0)
    obtain r' where r': "setReferences (indexToAddress m1 b) 0 s splitSize m1 = Some (m1\<lparr>referenceCount := r'\<rparr>)"
      "\<forall>e. r' e = (if e \<in> (\<lambda>t. b + t * ?st) ` {0..<?n} then 1 else referenceCount m1 e)"
      using setReferences_run [OF ss _ n, of 0 0 m1 b ?st] m1(1,3) inv(3) blk ts z
      by (auto simp: unitFrames_def)
    let ?m = "m1\<lparr>referenceCount := r', locked := False\<rparr>"
    have ad: "indexToAddress m1 b = indexToAddress m b" using m1(3) by (simp add: indexToAddress_def)
    have run: "allocatePhysicalBlock m s splitSize = Some (indexToAddress m b, ?m)"
      using a(1) Some inv(2) r'(1) m1(2) ad
      by (simp add: allocatePhysicalBlock_def acquireLock_def releaseLock_def Let_def)
    have rc: "referenceCount ?m j = (if j \<in> ?blocks then 1 else referenceCount m j)" for j
      using r'(2) m1(4) by (simp add: atLeast0LessThan)
    have "referenceCount ?m j > 0 \<longleftrightarrow> j \<in> allocated ?m" if "j < blockCount m" for j
      using rc [of j] phys_invD(4) [OF assms(1) that] g' by auto
    then have pinv: "phys_inv ?m"
      using a(2) m1(1,3) inv(3) by (simp add: phys_inv_def)
    have gm: "grants m s splitSize b ?m" using g by (simp add: grants_def)
    have "b < blockCount m" using isFreeD(1) fb inv(1) by (auto simp: buddy_inv_def)
    then have "isAddressInRange ?m (indexToAddress m b)"
      using isAddressInRange_indexToAddress [of ?m b] m1(1,3) inv(3) by (simp add: indexToAddress_def)
    moreover have "beginAddress ?m = beginAddress m" "blockCount ?m = blockCount m" using m1(1,3) by simp_all
    ultimately show ?thesis using run pinv gm rc by blast
  qed
qed

section \<open>Adding and dropping references\<close>

lemma MAX_REFERENCE_COUNT_eq: "MAX_REFERENCE_COUNT = - 1"
  by (simp add: MAX_REFERENCE_COUNT_def)

lemma addPhysicalBlockReference_effect:
  assumes "phys_inv m" and "j \<in> allocated m"
  shows "\<exists>m'. addPhysicalBlockReference m (indexToAddress m j) =
      Some (referenceCount m j \<noteq> MAX_REFERENCE_COUNT, m') \<and> phys_inv m' \<and>
    m' = m\<lparr>referenceCount := (referenceCount m)(j := if referenceCount m j = MAX_REFERENCE_COUNT
      then MAX_REFERENCE_COUNT else referenceCount m j + 1)\<rparr>"
proof -
  note inv = phys_invD [OF assms(1)] and j = allocatedD(1) [OF assms(2)]
  have pos: "referenceCount m j > 0" using inv(4) [OF j] assms(2) by simp
  have lt: "referenceCount m j < MAX_REFERENCE_COUNT \<longleftrightarrow> referenceCount m j \<noteq> MAX_REFERENCE_COUNT"
    unfolding MAX_REFERENCE_COUNT_eq by (metis word_order.not_eq_extremum)
  have rng: "isAddressInRange m (indexToAddress m j)" "addressToIndex m (indexToAddress m j) = Some j"
    using isAddressInRange_indexToAddress [OF inv(3)] addressToIndex_indexToAddress [OF inv(3) j] j by auto
  let ?r = "(referenceCount m)(j := if referenceCount m j = MAX_REFERENCE_COUNT
      then MAX_REFERENCE_COUNT else referenceCount m j + 1)"
  have run: "addPhysicalBlockReference m (indexToAddress m j) =
      Some (referenceCount m j \<noteq> MAX_REFERENCE_COUNT, m\<lparr>referenceCount := ?r\<rparr>)"
    using inv(2) rng pos lt
    by (auto simp: addPhysicalBlockReference_def acquireLock_def releaseLock_def Let_def fun_upd_idem
        lock_twice)
  have "?r i > 0 \<longleftrightarrow> i \<in> allocated m" if "i < blockCount m" for i
  proof (cases "i = j \<and> referenceCount m j \<noteq> MAX_REFERENCE_COUNT")
    case True
    then have "referenceCount m j + 1 \<noteq> 0"
      by (simp add: MAX_REFERENCE_COUNT_eq eq_neg_iff_add_eq_0)
    then show ?thesis using True assms(2) by (simp add: word_gt_0)
  next
    case False
    then show ?thesis using inv(4) [OF that] assms(2) by (auto simp: MAX_REFERENCE_COUNT_def)
  qed
  then have "phys_inv (m\<lparr>referenceCount := ?r\<rparr>)" using assms(1) by (simp add: phys_inv_def)
  with run show ?thesis by blast
qed

lemma releasePhysicalBlock_effect:
  assumes "phys_inv m" and "j \<in> allocated m"
  shows "\<exists>m'. releasePhysicalBlock m (indexToAddress m j) = Some m' \<and> phys_inv m' \<and>
    beginAddress m' = beginAddress m \<and> blockCount m' = blockCount m \<and> referenceCount m' = (referenceCount m)(j := referenceCount m j - 1) \<and>
    (\<forall>i\<in>allocated m - {j}. sizeOrder m' i = sizeOrder m i) \<and>
    (if referenceCount m j = 1
     then allocated m' = allocated m - {j} \<and> freeFrames m' = freeFrames m \<union> frames m j
     else allocated m' = allocated m \<and> freeFrames m' = freeFrames m \<and> sizeOrder m' = sizeOrder m)"
proof -
  note inv = phys_invD [OF assms(1)] and j = allocatedD(1) [OF assms(2)]
  have pos: "referenceCount m j > 0" using inv(4) [OF j] assms(2) by simp
  have rng: "isAddressInRange m (indexToAddress m j)" "addressToIndex m (indexToAddress m j) = Some j"
    using isAddressInRange_indexToAddress [OF inv(3)] addressToIndex_indexToAddress [OF inv(3) j] j by auto
  let ?r = "(referenceCount m)(j := referenceCount m j - 1)"
  let ?m = "m\<lparr>locked := True, referenceCount := ?r\<rparr>"
  have run: "releasePhysicalBlock m (indexToAddress m j) =
      (if referenceCount m j = 1 then releaseBlock_noLock ?m j else Some ?m) \<bind> releaseLock"
    using inv(2) rng pos
    by (simp add: releasePhysicalBlock_def acquireLock_def Let_def del: fun_upd_apply) simp
  show ?thesis
  proof (cases "referenceCount m j = 1")
    case True
    obtain m1 where m1: "releaseBlock_noLock ?m j = Some m1" "buddy_inv m1"
      "same_frame (?m\<lparr>freeSize := freeSize m1\<rparr>) m1" "allocated m1 = allocated m - {j}"
      "freeFrames m1 = freeFrames m \<union> frames m j" "\<forall>i\<in>allocated m - {j}. sizeOrder m1 i = sizeOrder m i"
      using releaseBlock_noLock_effect [of ?m j] inv(1) assms(2) by auto
    have f: "blockCount m1 = blockCount m" "locked m1" "beginAddress m1 = beginAddress m" "referenceCount m1 = ?r"
      using same_frame_freeSize [OF m1(3)] same_frame_references [OF m1(3)] by simp_all
    let ?m' = "m1\<lparr>locked := False\<rparr>"
    have "releasePhysicalBlock m (indexToAddress m j) = Some ?m'"
      using run True m1(1) f(2) by (simp add: releaseLock_def)
    moreover have "referenceCount ?m' i > 0 \<longleftrightarrow> i \<in> allocated ?m'" if "i < blockCount m" for i
      using inv(4) [OF that] f(4) m1(4) True by auto
    then have "phys_inv ?m'" using m1(2) f inv(3) by (simp add: phys_inv_def)
    ultimately show ?thesis using True f m1(4-6) by auto
  next
    case False
    then have "referenceCount m j - 1 > 0" using pos by (simp add: word_gt_0)
    then have "?r i > 0 \<longleftrightarrow> i \<in> allocated m" if "i < blockCount m" for i
      using inv(4) [OF that] assms(2) by auto
    then have "phys_inv (m\<lparr>referenceCount := ?r\<rparr>)" using assms(1) by (simp add: phys_inv_def)
    moreover have "?m\<lparr>locked := False\<rparr> = m\<lparr>referenceCount := ?r\<rparr>" using inv(2) by (cases m) simp
    then have "releasePhysicalBlock m (indexToAddress m j) = Some (m\<lparr>referenceCount := ?r\<rparr>)"
      using run False by (simp add: releaseLock_def)
    ultimately show ?thesis using False by auto
  qed
qed

section \<open>Theorems\<close>

fun releaseTimes :: "nat \<Rightarrow> nat \<Rightarrow> pmm \<Rightarrow> pmm option" where
  "releaseTimes 0 a m = Some m"
| "releaseTimes (Suc k) a m = releasePhysicalBlock m a \<bind> releaseTimes k a"

text \<open>The concrete input of the examples: four frames at address 1 MiB, all in use.\<close>

definition fourUsed :: pmm where
  "fourUsed = resetBlockArray \<lparr>locked = False, beginAddress = 0x100000, blockStructSize = 16,
    blockStructOffset = 4, blockCount = 0, freeSize = 0, freeBlock = (\<lambda>_. []), blockArray = 0,
    sizeOrder = (\<lambda>_. 0), referenceCount = (\<lambda>_. 0)\<rparr> 4 initPhysicalMemoryBlock"

lemma fourUsed_inv: "phys_inv fourUsed" "allocated fourUsed = {..<4}" "freeFrames fourUsed = {}"
  "j < 4 \<Longrightarrow> referenceCount fourUsed j = 1"
proof -
  show rc: "referenceCount fourUsed j = 1" if "j < 4" for j
    using that unfolding fourUsed_def resetBlockArray_def by (simp add: fold_initPhysical)
  show "phys_inv fourUsed" "allocated fourUsed = {..<4}" "freeFrames fourUsed = {}"
    using rc unfolding fourUsed_def phys_inv_def by (simp_all add: reset_initPhysical)
qed

text \<open>References and releases balance. A block with \<open>c\<close> references stays allocated, with its
  memory and its size untouched, during the first \<open>c - 1\<close> calls of \<open>releasePhysicalBlock\<close>; the call
  number \<open>c\<close> returns its frames to the free memory, and none of the calls fails an assertion.\<close>

lemma releasePhysicalBlock_balanced:
  assumes "phys_inv m" and "j \<in> allocated m" and "unat (referenceCount m j) = Suc c"
  shows "\<exists>m1 m2. releaseTimes c (indexToAddress m j) m = Some m1 \<and> phys_inv m1 \<and>
    allocated m1 = allocated m \<and> freeFrames m1 = freeFrames m \<and> frames m1 j = frames m j \<and>
    releasePhysicalBlock m1 (indexToAddress m j) = Some m2 \<and> phys_inv m2 \<and>
    allocated m2 = allocated m - {j} \<and> freeFrames m2 = freeFrames m \<union> frames m j"
  using assms
proof (induction c arbitrary: m)
  case 0
  then have one: "referenceCount m j = 1" by (metis One_nat_def unat_1 word_unat_eq_iff)
  obtain m2 where "releasePhysicalBlock m (indexToAddress m j) = Some m2" "phys_inv m2"
    "allocated m2 = allocated m - {j}" "freeFrames m2 = freeFrames m \<union> frames m j"
    using releasePhysicalBlock_effect [OF 0(1,2)] one by auto
  then show ?case using 0 by auto
next
  case (Suc c)
  then have not1: "referenceCount m j \<noteq> 1" by auto
  obtain m' where m': "releasePhysicalBlock m (indexToAddress m j) = Some m'" "phys_inv m'"
    "beginAddress m' = beginAddress m" "referenceCount m' = (referenceCount m)(j := referenceCount m j - 1)"
    "allocated m' = allocated m" "freeFrames m' = freeFrames m" "sizeOrder m' = sizeOrder m"
    using releasePhysicalBlock_effect [OF Suc.prems(1,2)] not1 by auto
  have "referenceCount m j \<noteq> 0" using Suc.prems(3) by auto
  then have "unat (referenceCount m' j) = Suc c"
    using Suc.prems(3) m'(4) by (simp add: unat_minus_one)
  moreover have "j \<in> allocated m'" using Suc.prems(2) m'(5) by simp
  moreover have "indexToAddress m' j = indexToAddress m j" "frames m' j = frames m j"
    using m'(3,7) by (simp_all add: indexToAddress_def frames_def rord_def)
  ultimately show ?case using Suc.IH [OF m'(2)] m'(1,5,6) by simp
qed

text \<open>\<open>addPhysicalBlockReference\<close> on an allocated block never wraps the counter around: it adds
  one and reports success, or leaves a full counter alone and reports failure. One release undoes
  a successful call.\<close>

lemma addPhysicalBlockReference_saturates:
  assumes "phys_inv m" and "j \<in> allocated m"
  shows "\<exists>ok m'. addPhysicalBlockReference m (indexToAddress m j) = Some (ok, m') \<and> phys_inv m' \<and>
    (if ok then unat (referenceCount m' j) = unat (referenceCount m j) + 1 \<and>
       (\<exists>m''. releasePhysicalBlock m' (indexToAddress m j) = Some m'' \<and>
         referenceCount m'' = referenceCount m \<and> freeFrames m'' = freeFrames m)
     else m' = m \<and> referenceCount m j = MAX_REFERENCE_COUNT)"
proof (cases "referenceCount m j = MAX_REFERENCE_COUNT")
  case True
  then have "(referenceCount m)(j := MAX_REFERENCE_COUNT) = referenceCount m" by auto
  then show ?thesis using addPhysicalBlockReference_effect [OF assms] True by auto
next
  case False
  let ?m = "m\<lparr>referenceCount := (referenceCount m)(j := referenceCount m j + 1)\<rparr>"
  have a: "addPhysicalBlockReference m (indexToAddress m j) = Some (True, ?m)" "phys_inv ?m"
    using addPhysicalBlockReference_effect [OF assms] False by auto
  have ne: "referenceCount m j + 1 \<noteq> 0"
    using False by (simp add: MAX_REFERENCE_COUNT_eq eq_neg_iff_add_eq_0)
  have "referenceCount m j \<noteq> 0"
    using phys_invD(4) [OF assms(1) allocatedD(1) [OF assms(2)]] assms(2) by (simp add: word_gt_0)
  then have "referenceCount ?m j \<noteq> 1" by simp
  moreover have "j \<in> allocated ?m" "indexToAddress ?m j = indexToAddress m j"
    using assms(2) by (simp_all add: indexToAddress_def)
  ultimately obtain m'' where "releasePhysicalBlock ?m (indexToAddress m j) = Some m''"
    "referenceCount m'' = referenceCount m" "freeFrames m'' = freeFrames m"
    using releasePhysicalBlock_effect [OF a(2)] by fastforce
  moreover have "unat (referenceCount ?m j) = unat (referenceCount m j) + 1"
    using ne by (simp add: add.commute unatSuc)
  ultimately show ?thesis using a by auto
qed

section \<open>Page frames\<close>

text \<open>What the page tables rely on: frames of one page that are allocated with one reference, shared, and released reference by reference.
  \<open>refs m a\<close> is the number of references to the frame at address \<open>a\<close>, 0 for an address that is not in use.\<close>

locale frame_pool =
  fixes inv :: "'m \<Rightarrow> bool" and refs :: "'m \<Rightarrow> nat \<Rightarrow> nat" and alloc :: "'m \<Rightarrow> (nat \<times> 'm) option" and release :: "'m \<Rightarrow> nat \<Rightarrow> 'm option"
    and share :: "'m \<Rightarrow> nat \<Rightarrow> (bool \<times> 'm) option"
  assumes alloc_law: "inv m \<Longrightarrow> \<exists>a m'. alloc m = Some (a, m') \<and> inv m' \<and> (a = INVALID_PAGE_ADDRESS \<and> m' = m \<or>
      a < 2 ^ 32 \<and> a mod 4096 = 0 \<and> refs m a = 0 \<and> refs m' = (refs m)(a := 1))"
    and release_law: "inv m \<Longrightarrow> 0 < refs m a \<Longrightarrow> \<exists>m'. release m a = Some m' \<and> inv m' \<and> refs m' = (refs m)(a := refs m a - 1)"
    and share_law: "inv m \<Longrightarrow> 0 < refs m a \<Longrightarrow> \<exists>ok m'. share m a = Some (ok, m') \<and> inv m' \<and> refs m' = (if ok then (refs m)(a := refs m a + 1) else refs m)"
begin

lemma alloc_cases:
  assumes "inv m"
  obtains (none) "alloc m = Some (INVALID_PAGE_ADDRESS, m)"
  | (some) a m' where "alloc m = Some (a, m')" "inv m'" "a \<noteq> INVALID_PAGE_ADDRESS" "a < 2 ^ 32" "a mod 4096 = 0" "refs m a = 0" "refs m' = (refs m)(a := 1)"
proof -
  have "a \<noteq> INVALID_PAGE_ADDRESS" if "a mod 4096 = 0" for a using that by (auto simp: INVALID_PAGE_ADDRESS_def)
  then show ?thesis using alloc_law [OF assms] none some by metis
qed

lemma alloc_release:
  assumes "inv m" "alloc m = Some (a, m')" "a \<noteq> INVALID_PAGE_ADDRESS"
  shows "\<exists>m''. release m' a = Some m'' \<and> inv m'' \<and> refs m'' = refs m"
  using assms release_law [of m' a] by (cases rule: alloc_cases [OF assms(1)]) (auto simp: fun_upd_idem)

fun releaseAll :: "nat list \<Rightarrow> 'm \<Rightarrow> 'm option" where
  "releaseAll [] m = Some m"
| "releaseAll (a # as) m = Option.bind (release m a) (releaseAll as)"

lemma releaseAll_balanced:
  "inv m \<Longrightarrow> \<forall>a. count_list as a \<le> refs m a \<Longrightarrow> \<exists>m'. releaseAll as m = Some m' \<and> inv m' \<and> refs m' = (\<lambda>a. refs m a - count_list as a)"
proof (induction as arbitrary: m)
  case (Cons b as)
  have "0 < refs m b" using Cons.prems(2) [rule_format, of b] by simp
  then obtain m1 where m1: "release m b = Some m1" "inv m1" "refs m1 = (refs m)(b := refs m b - 1)" using release_law [OF Cons.prems(1)] by blast
  have "\<forall>a. count_list as a \<le> refs m1 a"
  proof
    fix a show "count_list as a \<le> refs m1 a" using Cons.prems(2) [rule_format, of a] m1(3) by (auto split: if_splits)
  qed
  from Cons.IH [OF m1(2) this] obtain m' where "releaseAll as m1 = Some m'" "inv m'" "refs m' = (\<lambda>a. refs m1 a - count_list as a)" by blast
  then show ?case using m1 by (auto simp: fun_eq_iff)
qed simp

end

definition pool_inv :: "pmm \<Rightarrow> bool" where
  "pool_inv m \<longleftrightarrow> phys_inv m \<and> beginAddress m + blockCount m * MIN_BLOCK_SIZE \<le> 2 ^ 32"

definition poolRefs :: "pmm \<Rightarrow> nat \<Rightarrow> nat" where
  "poolRefs m a = (let j = (a - beginAddress m) div MIN_BLOCK_SIZE in
    if a = indexToAddress m j \<and> j \<in> allocated m then unat (referenceCount m j) else 0)"

lemma poolRefs_index [simp]: "poolRefs m (indexToAddress m j) = (if j \<in> allocated m then unat (referenceCount m j) else 0)"
  by (simp add: poolRefs_def indexToAddress_def Let_def)

lemma poolRefs_pos:
  assumes "0 < poolRefs m a"
  obtains j where "a = indexToAddress m j" "j \<in> allocated m"
  using assms by (auto simp: poolRefs_def Let_def split: if_splits)

text \<open>Managers with the same blocks and equal counts have equal references.\<close>

lemma poolRefs_update:
  assumes "beginAddress m' = beginAddress m" "allocated m' - {j} = allocated m - {j}" "\<forall>i. i \<noteq> j \<longrightarrow> referenceCount m' i = referenceCount m i"
  shows "poolRefs m' = (poolRefs m)(indexToAddress m j := poolRefs m' (indexToAddress m j))"
proof
  fix a
  let ?i = "(a - beginAddress m) div MIN_BLOCK_SIZE"
  show "poolRefs m' a = ((poolRefs m)(indexToAddress m j := poolRefs m' (indexToAddress m j))) a"
  proof (cases "a = indexToAddress m j")
    case False
    then have "a = indexToAddress m ?i \<Longrightarrow> ?i \<noteq> j" by auto
    then show ?thesis using assms False by (auto simp: poolRefs_def Let_def indexToAddress_def)
  qed simp
qed

text \<open>An allocation that is split into pages takes frames that nobody uses and gives each of them one reference.\<close>

lemma page_units: "0 < n \<Longrightarrow> unitFrames (4096 * n) 4096 = 1" "0 < n \<Longrightarrow> unitCount (4096 * n) 4096 = n" "splitSize_ok (4096 * n) 4096"
proof -
  have o: "unitOrder (4096 * n) 4096 = 12" if "0 < n" using ceilAllocateOrder_power [of 12] that by (cases "n = 1") (simp_all add: unitOrder_def)
  then show "0 < n \<Longrightarrow> unitFrames (4096 * n) 4096 = 1" "0 < n \<Longrightarrow> unitCount (4096 * n) 4096 = n" by (simp_all add: unitFrames_def unitCount_def DIV_CEIL_def)
  show "splitSize_ok (4096 * n) 4096" unfolding splitSize_ok_def by (rule disjI2, rule bexI [of _ 12]) simp_all
qed

lemma allocateFrames_refs:
  assumes "pool_inv m" "0 < n"
  shows "\<exists>a m'. allocatePhysicalBlock m (4096 * n) 4096 = Some (a, m') \<and> pool_inv m' \<and> (a = INVALID_PAGE_ADDRESS \<and> m' = m \<or>
    a + 4096 * n \<le> 2 ^ 32 \<and> a mod 4096 = 0 \<and> (\<forall>j<n. poolRefs m (a + 4096 * j) = 0) \<and>
    poolRefs m' = (\<lambda>x. poolRefs m x + (if x \<in> (\<lambda>j. a + 4096 * j) ` {..<n} then 1 else 0)))"
proof -
  have inv: "phys_inv m" using assms by (simp add: pool_inv_def)
  note u = page_units(1,2) [OF assms(2)]
  have pos: "0 < 4096 * n" using assms(2) by simp
  obtain a m' where a: "allocatePhysicalBlock m (4096 * n) 4096 = Some (a, m')" "phys_inv m'" "beginAddress m' = beginAddress m" "blockCount m' = blockCount m"
    "a = INVALID_PAGE_ADDRESS \<and> m' = m \<or>
     (\<exists>b. a = indexToAddress m b \<and> isAddressInRange m' a \<and> grants m (4096 * n) 4096 b m' \<and>
       (\<forall>j. referenceCount m' j = (if j \<in> (\<lambda>i. b + i) ` {..<n} then 1 else referenceCount m j)))"
    using allocatePhysicalBlock_effect [OF inv pos page_units(3) [of n]] unfolding u by auto
  have p: "pool_inv m'" using assms a(2-4) by (simp add: pool_inv_def)
  show ?thesis
  proof (cases "a = INVALID_PAGE_ADDRESS \<and> m' = m")
    case False
    then obtain b where b: "a = indexToAddress m b" "grants m (4096 * n) 4096 b m'" "\<forall>j. referenceCount m' j = (if j \<in> (\<lambda>i. b + i) ` {..<n} then 1 else referenceCount m j)"
      using a(5) by blast
    have al: "allocated m' = allocated m \<union> (\<lambda>i. b + i) ` {..<n}" and fr: "{b..<b + n} \<subseteq> freeFrames m" using b(2) u by (auto simp: grants_def Let_def)
    then have nb: "b + i \<notin> allocated m" if "i < n" for i using allocated_not_freeFrames [OF phys_invD(1) [OF inv], of "b + i"] that by (meson add_less_cancel_left atLeastLessThan_iff le_add1 subsetD)
    have "b + (n - 1) \<in> allocated m'" unfolding al using assms(2) by (intro UnI2 imageI) simp
    then have "b + n \<le> blockCount m" using allocatedD(1) [of "b + (n - 1)" m'] a(4) by simp
    then have "b * MIN_BLOCK_SIZE + n * MIN_BLOCK_SIZE \<le> blockCount m * MIN_BLOCK_SIZE" by (metis add_mult_distrib mult_le_mono1)
    then have "a + 4096 * n \<le> 2 ^ 32" "a mod 4096 = 0" using b(1) assms phys_invD(3) [OF inv] by (auto simp: indexToAddress_def pool_inv_def)
    moreover have ix: "a + 4096 * j = indexToAddress m (b + j)" for j using b(1) by (simp add: indexToAddress_def)
    moreover have "poolRefs m' x = poolRefs m x + (if x \<in> (\<lambda>j. a + 4096 * j) ` {..<n} then 1 else 0)" for x
    proof (cases "x = indexToAddress m ((x - beginAddress m) div MIN_BLOCK_SIZE)")
      case True
      let ?i = "(x - beginAddress m) div MIN_BLOCK_SIZE"
      have "x \<in> (\<lambda>j. a + 4096 * j) ` {..<n} \<longleftrightarrow> ?i \<in> (\<lambda>i. b + i) ` {..<n}" unfolding ix
        using True by (auto simp: indexToAddress_def image_iff)
      then show ?thesis using True a(3) al b(3) nb poolRefs_index [of m ?i] poolRefs_index [of m' ?i] by (auto simp: indexToAddress_def)
    next
      case False
      then have "x \<notin> (\<lambda>j. a + 4096 * j) ` {..<n}" unfolding ix by (auto simp: indexToAddress_def)
      then show ?thesis using False a(3) by (simp add: poolRefs_def Let_def indexToAddress_def)
    qed
    ultimately show ?thesis using a(1) p nb by auto
  qed (use a p in auto)
qed

lemma allocatePage_refs:
  assumes "pool_inv m"
  shows "\<exists>a m'. allocatePhysicalBlock m 4096 4096 = Some (a, m') \<and> pool_inv m' \<and> (a = INVALID_PAGE_ADDRESS \<and> m' = m \<or>
    a < 2 ^ 32 \<and> a mod 4096 = 0 \<and> poolRefs m a = 0 \<and> poolRefs m' = (poolRefs m)(a := 1))"
  using allocateFrames_refs [OF assms, of 1] by (fastforce simp: fun_eq_iff lessThan_Suc)

interpretation fp: frame_pool pool_inv poolRefs "\<lambda>m. allocatePhysicalBlock m 4096 4096" releasePhysicalBlock addPhysicalBlockReference
proof
  fix m a assume inv: "pool_inv m"
  then have pi: "phys_inv m" by (simp add: pool_inv_def)
  show "\<exists>a m'. allocatePhysicalBlock m 4096 4096 = Some (a, m') \<and> pool_inv m' \<and> (a = INVALID_PAGE_ADDRESS \<and> m' = m \<or>
    a < 2 ^ 32 \<and> a mod 4096 = 0 \<and> poolRefs m a = 0 \<and> poolRefs m' = (poolRefs m)(a := 1))" by (rule allocatePage_refs [OF inv])
  assume "0 < poolRefs m a"
  then obtain j where j: "a = indexToAddress m j" "j \<in> allocated m" by (rule poolRefs_pos)
  have pos: "0 < referenceCount m j" using phys_invD(4) [OF pi allocatedD(1) [OF j(2)]] j(2) by simp
  obtain m' where m': "releasePhysicalBlock m a = Some m'" "phys_inv m'" "beginAddress m' = beginAddress m" "blockCount m' = blockCount m"
    "referenceCount m' = (referenceCount m)(j := referenceCount m j - 1)"
    "if referenceCount m j = 1 then allocated m' = allocated m - {j} else allocated m' = allocated m"
    using releasePhysicalBlock_effect [OF pi j(2)] j(1) by (auto split: if_splits)
  have c: "unat (referenceCount m j - 1) = unat (referenceCount m j) - 1" using pos by (metis One_nat_def unat_minus_one word_gt_0)
  have "poolRefs m' = (poolRefs m)(a := poolRefs m' (indexToAddress m j))" unfolding j(1)
    by (rule poolRefs_update) (use m'(3,5,6) in \<open>auto split: if_splits\<close>)
  moreover have "indexToAddress m' j = indexToAddress m j" using m'(3) by (simp add: indexToAddress_def)
  then have "poolRefs m' (indexToAddress m j) = poolRefs m a - 1" using poolRefs_index [of m' j] m'(5,6) j c by (auto split: if_splits)
  ultimately show "\<exists>m'. releasePhysicalBlock m a = Some m' \<and> pool_inv m' \<and> poolRefs m' = (poolRefs m)(a := poolRefs m a - 1)"
    using m'(1-4) inv by (auto simp: pool_inv_def)
  obtain m'' where s: "addPhysicalBlockReference m a = Some (referenceCount m j \<noteq> MAX_REFERENCE_COUNT, m'')" "phys_inv m''"
    "m'' = m\<lparr>referenceCount := (referenceCount m)(j := if referenceCount m j = MAX_REFERENCE_COUNT then MAX_REFERENCE_COUNT else referenceCount m j + 1)\<rparr>"
    using addPhysicalBlockReference_effect [OF pi j(2)] j(1) by auto
  have "unat (referenceCount m j + 1) = unat (referenceCount m j) + 1" if "referenceCount m j \<noteq> MAX_REFERENCE_COUNT"
  proof -
    have "1 + referenceCount m j \<noteq> 0" using that by (auto simp: MAX_REFERENCE_COUNT_eq add_eq_0_iff)
    then show ?thesis by (metis Suc_eq_plus1 add.commute unatSuc)
  qed
  then have "poolRefs m'' = (if referenceCount m j \<noteq> MAX_REFERENCE_COUNT then (poolRefs m)(a := poolRefs m a + 1) else poolRefs m)"
    using poolRefs_update [of m'' m j] s(3) j by (auto simp: indexToAddress_def poolRefs_def Let_def fun_upd_idem)
  then show "\<exists>ok m'. addPhysicalBlockReference m a = Some (ok, m') \<and> pool_inv m' \<and> poolRefs m' = (if ok then (poolRefs m)(a := poolRefs m a + 1) else poolRefs m)"
    using s inv by (auto simp: pool_inv_def)
qed

end
