(* ===== verification/LinearBlock.thy ===== *)
theory LinearBlock
  imports PhysicalBlock
begin

text \<open>
  Linear memory blocks, \<open>kernel/memory/linearblock.c\<close>: the buddy manager with a status and a
  mapped size per block, which grows on demand up to \<open>maxBlockCount\<close>.

  The page tables (\<open>page.c\<close>) appear as arguments: \<open>mapPage\<close> is the answer of \<open>_mapPage_L\<close> for
  a page of the block array and \<open>translatePage\<close> that of \<open>_translatePage\<close>. Unmapping has no
  result and does not touch the managers. \<open>checkAndReleaseLinearBlock\<close> gives up its lock while it
  unmaps; the two sections under the lock are separate definitions.
\<close>

datatype MemoryBlockStatus = MEMORY_FREE_OR_COVERED | MEMORY_USING | MEMORY_LOCKED

record LinearMemoryBlockManager = MemoryBlockManager +
  initialBlockCount :: nat
  maxBlockCount :: nat
  mappedSize :: "nat \<Rightarrow> nat"
  status :: "nat \<Rightarrow> MemoryBlockStatus"

type_synonym lmm = LinearMemoryBlockManager

definition setStatus :: "nat \<Rightarrow> MemoryBlockStatus \<Rightarrow> lmm \<Rightarrow> lmm" where
  "setStatus b st m = m\<lparr>status := (status m)(b := st)\<rparr>"

definition initLinearMemoryBlock :: "nat \<Rightarrow> lmm \<Rightarrow> lmm" where
  "initLinearMemoryBlock b m = initMemoryBlock b
    (m\<lparr>mappedSize := (mappedSize m)(b := MIN_BLOCK_SIZE), status := (status m)(b := MEMORY_USING)\<rparr>)"

definition getInitialLinearBlockEnd :: "lmm \<Rightarrow> nat" where
  "getInitialLinearBlockEnd bm = indexToElement bm (initialBlockCount bm)"

definition evaluateLinearBlockEnd :: "lmm \<Rightarrow> nat \<Rightarrow> nat \<Rightarrow> nat option" where
  "evaluateLinearBlockEnd bm beginAddr initEndAddr =
    evaluateMemoryBlockManagerEnd bm 20 beginAddr initEndAddr"

definition getMaxLinearBlockManagerSize :: "nat \<Rightarrow> lmm \<Rightarrow> nat" where
  "getMaxLinearBlockManagerSize structSize m = structSize + maxBlockCount m * blockStructSize m"

definition createLinearBlockManager ::
    "nat \<Rightarrow> lmm \<Rightarrow> nat \<Rightarrow> nat \<Rightarrow> nat \<Rightarrow> nat \<Rightarrow> lmm option" where
  "createLinearBlockManager structSize bm manageSize beginAddr initEndAddr maxEndAddr = do {
    bm \<leftarrow> initMemoryBlockManager bm 20 8 beginAddr initEndAddr initLinearMemoryBlock;
    let bm = bm\<lparr>initialBlockCount := blockCount bm,
      maxBlockCount := (maxEndAddr - beginAddr) div MIN_BLOCK_SIZE\<rparr>;
    kassert (\<not> getMaxLinearBlockManagerSize structSize bm > manageSize);
    Some bm
  }"

definition getAllocatedBlockSize :: "lmm \<Rightarrow> nat \<Rightarrow> nat option" where
  "getAllocatedBlockSize m address = do {
    e \<leftarrow> addressToIndex m address;
    kassert (mappedSize m e mod 4096 = 0);
    Some (mappedSize m e)
  }"

definition getMaxBlockCount :: "lmm \<Rightarrow> nat" where
  "getMaxBlockCount m = maxBlockCount m"

definition getFreeLinearBlockSize :: "lmm \<Rightarrow> u32" where
  "getFreeLinearBlockSize m = freeSize m"

definition getExtendBlockCount :: "lmm \<Rightarrow> nat \<Rightarrow> nat option" where
  "getExtendBlockCount m s = do {
    kassert (locked m);
    let i = ceilAllocateOrder s in
    Some (if i > MAX_BLOCK_ORDER then 0 else
      let addBlockCount = 2 ^ (i - MIN_BLOCK_ORDER);
          newBlockCount = addBlockCount + CEIL (blockCount m) addBlockCount in
      if newBlockCount > maxBlockCount m then 0 else newBlockCount - blockCount m)
  }"

function findUsingBlock :: "lmm \<Rightarrow> nat \<Rightarrow> nat option" where
  "findUsingBlock m b1 = (case getBuddy m b1 of
      None \<Rightarrow> None
    | Some None \<Rightarrow> Some b1
    | Some (Some b2) \<Rightarrow>
        if sizeOrder m b2 \<le> sizeOrder m b1 then Some b1
        else if \<not> b2 < b1 then None
        else findUsingBlock m b2)"
  by pat_completeness auto
termination by (relation "measure (\<lambda>(m, b1). b1)") auto

declare findUsingBlock.simps [simp del]

definition isUsingBlock_noLock :: "lmm \<Rightarrow> nat \<Rightarrow> bool option" where
  "isUsingBlock_noLock m address = do {
    b1 \<leftarrow> addressToIndex m address;
    b1 \<leftarrow> findUsingBlock m b1;
    Some (status m b1 = MEMORY_USING)
  }"

definition isReleasableBlock_noLock :: "lmm \<Rightarrow> nat \<Rightarrow> bool option" where
  "isReleasableBlock_noLock m b1 = do {
    b2 \<leftarrow> getBuddy m b1;
    (case status m b1 of
      MEMORY_USING \<Rightarrow> do {
        kassert (\<not> isFree m b1);
        kassert (case b2 of None \<Rightarrow> True | Some b2 \<Rightarrow> sizeOrder m b2 \<le> sizeOrder m b1);
        Some True
      }
    | MEMORY_FREE_OR_COVERED \<Rightarrow> do {
        kassert (case b2 of None \<Rightarrow> isFree m b1
          | Some b2 \<Rightarrow> isFree m b1 \<or> b2 < b1 \<and> sizeOrder m b2 > sizeOrder m b1);
        Some False
      }
    | MEMORY_LOCKED \<Rightarrow> Some False)
  }"

subsection \<open>Growing\<close>

text \<open>\<open>exPage\<close> is the first page of the block array that is not mapped yet.\<close>

function extendLoop :: "(nat \<Rightarrow> bool) \<Rightarrow> nat \<Rightarrow> nat \<Rightarrow> lmm \<Rightarrow> lmm option" where
  "extendLoop mapPage newBlockCount exPage bm = (if blockCount bm < newBlockCount then
      (let lastBlock = blockCount bm;
           needPage = indexToElement bm lastBlock + 20 > exPage in
       if needPage \<and> \<not> mapPage exPage then Some bm
       else (case releaseBlock_noLock
               (setStatus lastBlock MEMORY_FREE_OR_COVERED
                 (initLinearMemoryBlock lastBlock (bm\<lparr>blockCount := blockCount bm + 1\<rparr>))) lastBlock of
           None \<Rightarrow> None
         | Some bm' \<Rightarrow> extendLoop mapPage newBlockCount (if needPage then exPage + 4096 else exPage) bm'))
    else Some bm)"
  by pat_completeness auto
termination
  by (relation "measure (\<lambda>(mp, n, e, bm). n - blockCount bm)")
    (auto dest!: releaseBlock_noLock_blockCount simp: setStatus_def initLinearMemoryBlock_def initMemoryBlock_def)

declare extendLoop.simps [simp del]

definition extendLinearBlock_noLock :: "(nat \<Rightarrow> bool) \<Rightarrow> lmm \<Rightarrow> nat \<Rightarrow> (bool \<times> lmm) option" where
  "extendLinearBlock_noLock mapPage bm exCount = do {
    let newBlockCount = blockCount bm + exCount;
    bm \<leftarrow> extendLoop mapPage newBlockCount (CEIL (indexToElement bm (blockCount bm)) 4096) bm;
    Some (blockCount bm \<ge> newBlockCount, bm)
  }"

subsection \<open>Allocation and release\<close>

definition allocateLinearBlock :: "(nat \<Rightarrow> bool) \<Rightarrow> lmm \<Rightarrow> nat \<Rightarrow> (nat \<times> lmm) option" where
  "allocateLinearBlock mapPage bm s = do {
    bm \<leftarrow> acquireLock bm;
    (block, bm) \<leftarrow> allocateBlock_noLock bm s s;
    (block, bm) \<leftarrow> (if block \<noteq> None then Some (block, bm) else do {
      exCount \<leftarrow> getExtendBlockCount bm s;
      if exCount = 0 then Some (None, bm) else do {
        (ok, bm) \<leftarrow> extendLinearBlock_noLock mapPage bm exCount;
        if \<not> ok then Some (None, bm) else allocateBlock_noLock bm s s
      }
    });
    (case block of
      None \<Rightarrow> do {
        bm \<leftarrow> releaseLock bm;
        Some (INVALID_PAGE_ADDRESS, bm)
      }
    | Some b \<Rightarrow> do {
        let bm = bm\<lparr>mappedSize := (mappedSize bm)(b := s)\<rparr>;
        kassert (status bm b = MEMORY_FREE_OR_COVERED);
        bm \<leftarrow> releaseLock (setStatus b MEMORY_LOCKED bm);
        Some (indexToAddress bm b, bm)
      })
  }"

definition commitAllocatingLinearBlock :: "lmm \<Rightarrow> nat \<Rightarrow> lmm option" where
  "commitAllocatingLinearBlock bm linearAddress = do {
    bm \<leftarrow> acquireLock bm;
    e \<leftarrow> addressToIndex bm linearAddress;
    kassert (status bm e = MEMORY_LOCKED);
    releaseLock (setStatus e MEMORY_USING bm)
  }"

definition releaseLinearBlock :: "lmm \<Rightarrow> nat \<Rightarrow> lmm option" where
  "releaseLinearBlock m address = do {
    m \<leftarrow> acquireLock m;
    e \<leftarrow> addressToIndex m address;
    kassert (status m e = MEMORY_USING \<or> status m e = MEMORY_LOCKED);
    m \<leftarrow> releaseBlock_noLock (setStatus e MEMORY_FREE_OR_COVERED m) e;
    releaseLock m
  }"

text \<open>The first section of \<open>checkAndReleaseLinearBlock\<close> returns whether the block may be released
  and, if so, marks it; the second one runs after the pages are unmapped.\<close>

definition beginRelease :: "lmm \<Rightarrow> nat \<Rightarrow> (bool \<times> lmm) option" where
  "beginRelease bm linearAddress = do {
    bm \<leftarrow> acquireLock bm;
    (r, bm) \<leftarrow> (if \<not> isAddressInRange bm linearAddress then Some (False, bm) else do {
      lmb \<leftarrow> addressToIndex bm linearAddress;
      r \<leftarrow> isReleasableBlock_noLock bm lmb;
      if \<not> r then Some (False, bm) else do {
        getAllocatedBlockSize bm linearAddress;
        kassert (status bm lmb = MEMORY_USING);
        Some (True, setStatus lmb MEMORY_LOCKED bm)
      }
    });
    bm \<leftarrow> releaseLock bm;
    Some (r, bm)
  }"

definition endRelease :: "lmm \<Rightarrow> nat \<Rightarrow> lmm option" where
  "endRelease bm linearAddress = do {
    lmb \<leftarrow> addressToIndex bm linearAddress;
    bm \<leftarrow> acquireLock bm;
    kassert (status bm lmb = MEMORY_LOCKED);
    bm \<leftarrow> releaseBlock_noLock (setStatus lmb MEMORY_FREE_OR_COVERED bm) lmb;
    releaseLock bm
  }"

definition checkAndReleaseLinearBlock :: "lmm \<Rightarrow> nat \<Rightarrow> (bool \<times> lmm) option" where
  "checkAndReleaseLinearBlock bm linearAddress = do {
    (r, bm) \<leftarrow> beginRelease bm linearAddress;
    if \<not> r then Some (False, bm) else do {
      bm \<leftarrow> endRelease bm linearAddress;
      Some (True, bm)
    }
  }"

lemma checkAndReleaseLinearBlock_blockCount:
  "checkAndReleaseLinearBlock bm a = Some (r, bm') \<Longrightarrow> blockCount bm' = blockCount bm"
  by (auto simp: checkAndReleaseLinearBlock_def beginRelease_def endRelease_def acquireLock_def
      releaseLock_def setStatus_def kassert_def
      dest!: releaseBlock_noLock_blockCount split: bind_splits if_splits)

subsection \<open>Releasing everything\<close>

text \<open>A block order below \<open>MIN_BLOCK_ORDER\<close> would keep the loop at the same index for ever; the model
  stops there.\<close>

function releaseAllLoop :: "nat \<Rightarrow> lmm \<Rightarrow> (nat \<times> lmm) option" where
  "releaseAllLoop i bm = (if i < blockCount bm then
      if status bm i = MEMORY_LOCKED then None
      else (case checkAndReleaseLinearBlock bm (indexToAddress bm i) of
          None \<Rightarrow> None
        | Some (_, bm') \<Rightarrow>
            if 2 ^ sizeOrder bm' i div MIN_BLOCK_SIZE = 0 then None
            else releaseAllLoop (i + 2 ^ sizeOrder bm' i div MIN_BLOCK_SIZE) bm')
    else Some (i, bm))"
  by pat_completeness auto
termination
  by (relation "measure (\<lambda>(i, bm). blockCount bm - i)")
    (auto dest!: checkAndReleaseLinearBlock_blockCount)

declare releaseAllLoop.simps [simp del]

definition releaseAllLinearBlocks :: "lmm \<Rightarrow> lmm option" where
  "releaseAllLinearBlocks bm = do {
    (i, bm) \<leftarrow> releaseAllLoop 0 bm;
    kassert (i = blockCount bm);
    Some (resetBlockArray bm (initialBlockCount bm) initLinearMemoryBlock)
  }"

subsection \<open>Translation\<close>

record LinearMemoryManager =
  physical :: pmm
  linear :: lmm

definition checkAndTranslateBlock ::
    "(nat \<Rightarrow> nat) \<Rightarrow> LinearMemoryManager \<Rightarrow> nat \<Rightarrow> bool \<Rightarrow> (nat \<times> LinearMemoryManager) option" where
  "checkAndTranslateBlock translatePage m linearAddress doReserve = do {
    bm \<leftarrow> acquireLock (linear m);
    (p, pm) \<leftarrow> (if \<not> isAddressInRange bm linearAddress then Some (INVALID_PAGE_ADDRESS, physical m) else do {
      using \<leftarrow> isUsingBlock_noLock bm linearAddress;
      if \<not> using then Some (INVALID_PAGE_ADDRESS, physical m) else do {
        let p = translatePage linearAddress;
        kassert (p \<noteq> INVALID_PAGE_ADDRESS);
        if doReserve then do {
          (ok, pm) \<leftarrow> addPhysicalBlockReference (physical m) p;
          kassert ok;
          Some (p, pm)
        } else Some (p, physical m)
      }
    });
    bm \<leftarrow> releaseLock bm;
    Some (p, m\<lparr>physical := pm, linear := bm\<rparr>)
  }"

definition checkAndTranslatePage ::
    "(nat \<Rightarrow> nat) \<Rightarrow> LinearMemoryManager \<Rightarrow> nat \<Rightarrow> (nat \<times> LinearMemoryManager) option" where
  "checkAndTranslatePage translatePage m linearAddress =
    checkAndTranslateBlock translatePage m linearAddress False"

definition checkAndReservePage ::
    "(nat \<Rightarrow> nat) \<Rightarrow> LinearMemoryManager \<Rightarrow> nat \<Rightarrow> (nat \<times> LinearMemoryManager) option" where
  "checkAndReservePage translatePage m linearAddress =
    checkAndTranslateBlock translatePage m linearAddress True"

section \<open>The invariant\<close>

text \<open>A block is \<open>MEMORY_FREE_OR_COVERED\<close> exactly when it is not allocated.\<close>

definition lin_wf :: "lmm \<Rightarrow> bool" where
  "lin_wf m \<longleftrightarrow> buddy_inv m \<and> beginAddress m mod MIN_BLOCK_SIZE = 0 \<and>
    (\<forall>j<blockCount m. (status m j = MEMORY_FREE_OR_COVERED \<longleftrightarrow> j \<notin> allocated m) \<and> mappedSize m j mod 4096 = 0)"

definition lin_inv :: "lmm \<Rightarrow> bool" where
  "lin_inv m \<longleftrightarrow> lin_wf m \<and> \<not> locked m"

text \<open>What every operation leaves alone.\<close>

definition same_region :: "lmm \<Rightarrow> lmm \<Rightarrow> bool" where
  "same_region m m' \<longleftrightarrow> beginAddress m' = beginAddress m \<and> initialBlockCount m' = initialBlockCount m \<and>
    maxBlockCount m' = maxBlockCount m \<and> blockArray m' = blockArray m \<and> blockStructSize m' = blockStructSize m"

lemma same_region_refl [simp]: "same_region m m"
  by (simp add: same_region_def)

lemma same_region_trans: "same_region m m' \<Longrightarrow> same_region m' m'' \<Longrightarrow> same_region m m''"
  by (simp add: same_region_def)

lemma lin_update [simp]:
  "freeFrames (setStatus b st m) = freeFrames m" "allocated (setStatus b st m) = allocated m"
  "frames (setStatus b st m) = frames m" "buddy_inv (setStatus b st m) = buddy_inv m"
  "isFree (setStatus b st m) = isFree m"
  "freeFrames (m\<lparr>mappedSize := f\<rparr>) = freeFrames m" "allocated (m\<lparr>mappedSize := f\<rparr>) = allocated m"
  "frames (m\<lparr>mappedSize := f\<rparr>) = frames m" "buddy_inv (m\<lparr>mappedSize := f\<rparr>) = buddy_inv m"
  by (rule buddy_view_cong buddy_inv_cong; simp add: setStatus_def)+

lemma setStatus_simps [simp]:
  "blockCount (setStatus b st m) = blockCount m" "locked (setStatus b st m) = locked m"
  "sizeOrder (setStatus b st m) = sizeOrder m" "mappedSize (setStatus b st m) = mappedSize m"
  "beginAddress (setStatus b st m) = beginAddress m" "status (setStatus b st m) = (status m)(b := st)"
  "same_region m (setStatus b st m)" "same_region (setStatus b st m) m" "freeSize (setStatus b st m) = freeSize m"
  "freeBlock (setStatus b st m) = freeBlock m"
  by (simp_all add: setStatus_def same_region_def)

lemma initLinearMemoryBlock_fields:
  "sizeOrder (initLinearMemoryBlock b m) = (sizeOrder m)(b := MIN_BLOCK_ORDER)"
  "blockCount (initLinearMemoryBlock b m) = blockCount m"
  "freeSize (initLinearMemoryBlock b m) = freeSize m"
  "locked (initLinearMemoryBlock b m) = locked m"
  "beginAddress (initLinearMemoryBlock b m) = beginAddress m"
  "mappedSize (initLinearMemoryBlock b m) = (mappedSize m)(b := MIN_BLOCK_SIZE)"
  "status (initLinearMemoryBlock b m) = (status m)(b := MEMORY_USING)"
  "freeBlock (initLinearMemoryBlock b m) = freeBlock m"
  "same_region m (initLinearMemoryBlock b m)"
  by (simp_all add: initLinearMemoryBlock_def initMemoryBlock_def same_region_def)

lemmas reset_initLinear =
  resetBlockArray_inv [of initLinearMemoryBlock, OF initLinearMemoryBlock_fields(1-5)]

lemma fold_initLinear:
  "status (fold initLinearMemoryBlock xs m) j = (if j \<in> set xs then MEMORY_USING else status m j)"
  "mappedSize (fold initLinearMemoryBlock xs m) j = (if j \<in> set xs then MIN_BLOCK_SIZE else mappedSize m j)"
  "same_region m (fold initLinearMemoryBlock xs m)"
  by (induction xs arbitrary: m) (auto simp: initLinearMemoryBlock_fields
      intro: same_region_trans [OF initLinearMemoryBlock_fields(9)])

lemma reset_lin_wf:
  assumes "beginAddress m mod MIN_BLOCK_SIZE = 0"
  shows "lin_wf (resetBlockArray m n initLinearMemoryBlock)"
    and "\<And>j. j < n \<Longrightarrow> status (resetBlockArray m n initLinearMemoryBlock) j = MEMORY_USING"
    and "same_region m (resetBlockArray m n initLinearMemoryBlock)"
proof -
  let ?m = "resetBlockArray m n initLinearMemoryBlock"
  show st: "\<And>j. j < n \<Longrightarrow> status ?m j = MEMORY_USING"
    by (simp add: resetBlockArray_def fold_initLinear)
  have "mappedSize ?m j = MIN_BLOCK_SIZE" if "j < n" for j
    using that by (simp add: resetBlockArray_def fold_initLinear)
  then show "lin_wf ?m" using assms st by (simp add: lin_wf_def reset_initLinear)
  show "same_region m ?m"
    using fold_initLinear(3) [of "m\<lparr>blockCount := n, freeSize := 0\<rparr>" "[0..<n]"]
    by (simp add: resetBlockArray_def same_region_def)
qed

text \<open>Releasing a block whose status was cleared, and what it keeps.\<close>

lemma same_frame_region:
  "same_frame (m\<lparr>freeSize := v\<rparr>) m' \<Longrightarrow>
    same_region m m' \<and> status m' = status m \<and> mappedSize m' = mappedSize (m :: lmm)"
  by (auto simp: same_frame_def same_region_def)

lemma release_cleared:
  assumes "lin_wf m" and "locked m" and "j \<in> allocated m"
  shows "\<exists>m'. releaseBlock_noLock (setStatus j MEMORY_FREE_OR_COVERED m) j = Some m' \<and> lin_wf m' \<and>
    locked m' \<and> blockCount m' = blockCount m \<and> same_region m m' \<and>
    status m' = (status m)(j := MEMORY_FREE_OR_COVERED) \<and> mappedSize m' = mappedSize m \<and>
    allocated m' = allocated m - {j} \<and> freeFrames m' = freeFrames m \<union> frames m j \<and>
    (\<forall>i\<in>allocated m - {j}. sizeOrder m' i = sizeOrder m i)"
proof -
  let ?m = "setStatus j MEMORY_FREE_OR_COVERED m"
  obtain m' where m': "releaseBlock_noLock ?m j = Some m'" "buddy_inv m'"
    "same_frame (?m\<lparr>freeSize := freeSize m'\<rparr>) m'" "allocated m' = allocated m - {j}"
    "freeFrames m' = freeFrames m \<union> frames m j" "\<forall>i\<in>allocated m - {j}. sizeOrder m' i = sizeOrder m i"
    using releaseBlock_noLock_effect [of ?m j] assms by (auto simp: lin_wf_def)
  have f: "locked m'" "blockCount m' = blockCount m" "beginAddress m' = beginAddress m"
    using same_frame_freeSize [OF m'(3)] assms(2) by simp_all
  have g: "same_region m m'" "status m' = (status m)(j := MEMORY_FREE_OR_COVERED)" "mappedSize m' = mappedSize m"
    using same_frame_region [OF m'(3)] same_region_trans [OF setStatus_simps(7)] by auto
  have "lin_wf m'" using assms(1) m'(2,4) f g by (auto simp: lin_wf_def)
  with m' f g show ?thesis by blast
qed

section \<open>Growing\<close>

lemma extend_one:
  assumes "lin_wf m" and "locked m"
  defines "m0 \<equiv> initLinearMemoryBlock (blockCount m) (m\<lparr>blockCount := blockCount m + 1\<rparr>)"
  shows "\<exists>m'. releaseBlock_noLock (setStatus (blockCount m) MEMORY_FREE_OR_COVERED m0) (blockCount m) = Some m' \<and>
    lin_wf m' \<and> locked m' \<and> blockCount m' = Suc (blockCount m) \<and> same_region m m' \<and>
    allocated m' = allocated m \<and> freeFrames m' = insert (blockCount m) (freeFrames m) \<and>
    (\<forall>i<blockCount m. status m' i = status m i \<and> mappedSize m' i = mappedSize m i) \<and>
    (\<forall>i\<in>allocated m. sizeOrder m' i = sizeOrder m i)"
proof -
  let ?n = "blockCount m"
  have inv: "buddy_inv m" using assms(1) by (simp add: lin_wf_def)
  have g: "buddy_inv m0" "allocated m0 = insert ?n (allocated m)" "freeFrames m0 = freeFrames m"
    "frames m0 ?n = {?n}"
    using grow_inv [OF inv, of m0] by (simp_all add: m0_def initLinearMemoryBlock_fields)
  have f: "blockCount m0 = Suc ?n" "locked m0" "beginAddress m0 = beginAddress m"
    "status m0 = (status m)(?n := MEMORY_USING)" "mappedSize m0 = (mappedSize m)(?n := MIN_BLOCK_SIZE)"
    "sizeOrder m0 = (sizeOrder m)(?n := MIN_BLOCK_ORDER)"
    using assms(2) by (simp_all add: m0_def initLinearMemoryBlock_fields)
  have reg: "same_region m m0"
    unfolding m0_def by (rule same_region_trans [OF _ initLinearMemoryBlock_fields(9)]) (simp add: same_region_def)
  have nn: "?n \<notin> allocated m" using allocatedD(1) by blast
  have "lin_wf m0" using assms(1) g f nn by (auto simp: lin_wf_def less_Suc_eq)
  moreover have "?n \<in> allocated m0" using g(2) by simp
  ultimately obtain m' where m': "releaseBlock_noLock (setStatus ?n MEMORY_FREE_OR_COVERED m0) ?n = Some m'"
    "lin_wf m'" "locked m'" "blockCount m' = blockCount m0" "same_region m0 m'"
    "status m' = (status m0)(?n := MEMORY_FREE_OR_COVERED)" "mappedSize m' = mappedSize m0"
    "allocated m' = allocated m0 - {?n}" "freeFrames m' = freeFrames m0 \<union> frames m0 ?n"
    "\<forall>i\<in>allocated m0 - {?n}. sizeOrder m' i = sizeOrder m0 i"
    using release_cleared [OF _ f(2)] by blast
  moreover have "allocated m' = allocated m" using m'(8) g(2) nn by simp
  moreover have "\<forall>i\<in>allocated m. sizeOrder m' i = sizeOrder m i" using m'(10) g(2) nn f(6) by auto
  ultimately show ?thesis using f g same_region_trans [OF reg m'(5)] by auto
qed

lemma extendLoop_effect:
  assumes "lin_wf m" and "locked m"
  shows "\<exists>m'. extendLoop mapPage new ex m = Some m' \<and> lin_wf m' \<and> locked m' \<and>
    blockCount m \<le> blockCount m' \<and> blockCount m' \<le> max (blockCount m) new \<and> same_region m m' \<and>
    allocated m' = allocated m \<and> freeFrames m' = freeFrames m \<union> {blockCount m..<blockCount m'} \<and>
    (\<forall>i<blockCount m. status m' i = status m i \<and> mappedSize m' i = mappedSize m i) \<and>
    (\<forall>i\<in>allocated m. sizeOrder m' i = sizeOrder m i) \<and>
    ((\<forall>p. mapPage p) \<longrightarrow> new \<le> blockCount m')"
  using assms
proof (induction mapPage new ex m rule: extendLoop.induct)
  case (1 mapPage new ex m)
  let ?need = "indexToElement m (blockCount m) + 20 > ex"
  show ?case
  proof (cases "blockCount m < new \<and> \<not> (?need \<and> \<not> mapPage ex)")
    case False
    then have "extendLoop mapPage new ex m = Some m" by (auto simp: extendLoop.simps [of mapPage new ex m])
    then show ?thesis using 1(2,3) False by auto
  next
    case True
    then have lt: "blockCount m < new" and map: "\<not> (?need \<and> \<not> mapPage ex)" by auto
    obtain m1 where m1: "releaseBlock_noLock (setStatus (blockCount m) MEMORY_FREE_OR_COVERED
        (initLinearMemoryBlock (blockCount m) (m\<lparr>blockCount := blockCount m + 1\<rparr>))) (blockCount m) = Some m1"
      "lin_wf m1" "locked m1" "blockCount m1 = Suc (blockCount m)" "same_region m m1"
      "allocated m1 = allocated m" "freeFrames m1 = insert (blockCount m) (freeFrames m)"
      "\<forall>i<blockCount m. status m1 i = status m i \<and> mappedSize m1 i = mappedSize m i"
      "\<forall>i\<in>allocated m. sizeOrder m1 i = sizeOrder m i"
      using extend_one [OF 1(2,3)] by blast
    let ?ex = "if ?need then ex + 4096 else ex"
    have run: "extendLoop mapPage new ex m = extendLoop mapPage new ?ex m1"
      using lt map m1(1) by (simp add: extendLoop.simps [of mapPage new ex m])
    obtain m' where m': "extendLoop mapPage new ?ex m1 = Some m'" "lin_wf m'" "locked m'"
      "blockCount m1 \<le> blockCount m'" "blockCount m' \<le> max (blockCount m1) new" "same_region m1 m'"
      "allocated m' = allocated m1" "freeFrames m' = freeFrames m1 \<union> {blockCount m1..<blockCount m'}"
      "\<forall>i<blockCount m1. status m' i = status m1 i \<and> mappedSize m' i = mappedSize m1 i"
      "\<forall>i\<in>allocated m1. sizeOrder m' i = sizeOrder m1 i" "(\<forall>p. mapPage p) \<longrightarrow> new \<le> blockCount m'"
      using 1(1) [OF lt refl refl map m1(1-3)] by blast
    have "insert (blockCount m) {blockCount m1..<blockCount m'} = {blockCount m..<blockCount m'}"
      using m1(4) m'(4) by auto
    then have "freeFrames m' = freeFrames m \<union> {blockCount m..<blockCount m'}"
      using m'(8) m1(7) by auto
    moreover have "blockCount m \<le> blockCount m'" "blockCount m' \<le> max (blockCount m) new"
      using m1(4) m'(4,5) lt by auto
    moreover have "\<forall>i<blockCount m. status m' i = status m i \<and> mappedSize m' i = mappedSize m i"
      using m1(4,8) m'(9) by auto
    moreover have "\<forall>i\<in>allocated m. sizeOrder m' i = sizeOrder m i" using m1(6,9) m'(10) by auto
    ultimately show ?thesis
      using run m'(1-3,7,11) m1(6) same_region_trans [OF m1(5) m'(6)] by simp
  qed
qed

section \<open>Allocation\<close>

text \<open>Taking a free block and marking it, the part shared by both attempts.\<close>

definition markLocked :: "nat \<Rightarrow> nat \<Rightarrow> lmm \<Rightarrow> lmm" where
  "markLocked b s m = setStatus b MEMORY_LOCKED (m\<lparr>mappedSize := (mappedSize m)(b := s)\<rparr>)"

lemma allocate_marked:
  assumes "lin_wf m" and "locked m" and "0 < s" and "s mod 4096 = 0"
    and "allocateBlock_noLock m s s = Some (Some b, m')"
  shows "lin_wf (markLocked b s m')" and "locked m'" and "same_region m m'"
    and "b \<notin> allocated m" and "allocated m' = insert b (allocated m)" and "grants m s s b m'"
    and "status m' = status m" and "status m b = MEMORY_FREE_OR_COVERED" and "blockCount m' = blockCount m"
    and "frames m' b \<subseteq> freeFrames m" and "freeFrames m' = freeFrames m - frames m' b"
    and "mappedSize m' = mappedSize m" and "\<And>j. j \<in> allocated m \<Longrightarrow> sizeOrder m' j = sizeOrder m j"
proof -
  have inv: "buddy_inv m" using assms(1) by (simp add: lin_wf_def)
  have ok: "splitSize_ok s s" by (simp add: splitSize_ok_def)
  have e: "buddy_inv m'" "same_frame (m\<lparr>freeSize := freeSize m'\<rparr>) m'" "s \<le> 2 ^ MAX_BLOCK_ORDER" "isFree m b"
    and g: "grants m s s b m'"
    using allocateBlock_noLock_effect [OF inv assms(2,3) ok] assms(5) by auto
  note o = grants_one [OF g assms(3) e(3)]
  have f: "locked m'" "blockCount m' = blockCount m" "beginAddress m' = beginAddress m"
    using same_frame_freeSize [OF e(2)] assms(2) by simp_all
  have h: "same_region m m'" "status m' = status m" "mappedSize m' = mappedSize m"
    using same_frame_region [OF e(2)] by auto
  show b: "b \<notin> allocated m" using e(4) by (simp add: allocated_def)
  have bn: "b < blockCount m" using isFreeD(1) e(4) inv by (auto simp: buddy_inv_def)
  show st: "status m b = MEMORY_FREE_OR_COVERED" using assms(1) b bn by (simp add: lin_wf_def)
  show "lin_wf (markLocked b s m')"
    using assms(1,4) e(1) f h o(3) bn by (auto simp: lin_wf_def markLocked_def)
  show "locked m'" "same_region m m'" "allocated m' = insert b (allocated m)" "grants m s s b m'"
    "status m' = status m" "blockCount m' = blockCount m" "frames m' b \<subseteq> freeFrames m"
    "freeFrames m' = freeFrames m - frames m' b" "mappedSize m' = mappedSize m"
    "\<And>j. j \<in> allocated m \<Longrightarrow> sizeOrder m' j = sizeOrder m j"
    using f h o g by auto
qed

definition keeps_blocks :: "lmm \<Rightarrow> lmm \<Rightarrow> bool" where
  "keeps_blocks m m' \<longleftrightarrow> (\<forall>j\<in>allocated m. sizeOrder m' j = sizeOrder m j \<and> status m' j = status m j \<and>
    mappedSize m' j = mappedSize m j)"

definition grown :: "lmm \<Rightarrow> lmm \<Rightarrow> bool" where
  "grown m m' \<longleftrightarrow> lin_wf m' \<and> same_region m m' \<and> keeps_blocks m m' \<and> allocated m' = allocated m \<and>
    freeFrames m' = freeFrames m \<union> {blockCount m..<blockCount m'} \<and>
    blockCount m \<le> blockCount m' \<and> blockCount m' \<le> max (blockCount m) (maxBlockCount m)"

text \<open>The two outcomes of an allocation of \<open>s\<close> bytes.\<close>

definition linear_granted :: "lmm \<Rightarrow> nat \<Rightarrow> nat \<Rightarrow> lmm \<Rightarrow> bool" where
  "linear_granted m s b m' \<longleftrightarrow> b \<notin> allocated m \<and> allocated m' = insert b (allocated m) \<and>
    status m' b = MEMORY_LOCKED \<and> mappedSize m' b = s \<and> sizeOrder m' b = ceilAllocateOrder s \<and>
    frames m' b \<subseteq> freeFrames m \<union> {blockCount m..<blockCount m'} \<and>
    freeFrames m' = freeFrames m \<union> {blockCount m..<blockCount m'} - frames m' b"

lemma lin_wf_lock [simp]: "lin_wf (m\<lparr>locked := v\<rparr>) = lin_wf m"
  by (simp add: lin_wf_def)

lemma grown_refl: "lin_wf m \<Longrightarrow> grown m (m\<lparr>locked := v\<rparr>)"
  by (simp add: grown_def keeps_blocks_def same_region_def)

lemma grown_unlock: "grown m m' \<Longrightarrow> grown m (m'\<lparr>locked := False\<rparr>)"
  by (simp add: grown_def keeps_blocks_def same_region_def)

lemma allocate_after_growth:
  assumes "grown m m1" and "locked m1" and "0 < s" and "s mod 4096 = 0"
    and "allocateBlock_noLock m1 s s = Some (Some b, m2)"
  defines "m' \<equiv> (markLocked b s m2)\<lparr>locked := False\<rparr>"
  shows "status m2 b = MEMORY_FREE_OR_COVERED" and "locked m2"
    and "lin_inv m' \<and> same_region m m' \<and> keeps_blocks m m' \<and> linear_granted m s b m' \<and>
      blockCount m' \<le> max (blockCount m) (maxBlockCount m)"
    and "indexToAddress m' b = indexToAddress m b"
proof -
  note G = assms(1) [unfolded grown_def]
  have w1: "lin_wf m1" using G by simp
  note A = allocate_marked [OF w1 assms(2-5)]
  show "status m2 b = MEMORY_FREE_OR_COVERED" "locked m2" using A(2,7,8) by simp_all
  have lin: "lin_inv m'" using A(1) by (simp add: lin_inv_def m'_def)
  have s: "s \<le> 2 ^ MAX_BLOCK_ORDER"
    using allocateBlock_noLock_effect [of m1 s s] w1 assms(2,3,5) by (auto simp: lin_wf_def splitSize_ok_def)
  have f: "allocated m' = allocated m2" "blockCount m' = blockCount m1" "frames m' = frames m2"
    "freeFrames m' = freeFrames m2" "sizeOrder m' = sizeOrder m2" "beginAddress m' = beginAddress m2"
    "status m' = (status m1)(b := MEMORY_LOCKED)" "mappedSize m' = (mappedSize m1)(b := s)"
    using A(7,9,12) by (simp_all add: m'_def markLocked_def)
  have reg: "same_region m m'"
    using same_region_trans [OF _ A(3), of m] G by (simp add: m'_def markLocked_def setStatus_def same_region_def)
  have "keeps_blocks m m'" using G A(4,13) f by (auto simp: keeps_blocks_def)
  moreover have "linear_granted m s b m'"
    using G A(4,5,10,11) f grants_one(5) [OF A(6) assms(3) s] by (auto simp: linear_granted_def)
  ultimately show "lin_inv m' \<and> same_region m m' \<and> keeps_blocks m m' \<and> linear_granted m s b m' \<and>
      blockCount m' \<le> max (blockCount m) (maxBlockCount m)"
    using lin reg G f(2) by simp
  show "indexToAddress m' b = indexToAddress m b" using reg by (simp add: same_region_def indexToAddress_def)
qed

lemma getExtendBlockCount_bound:
  assumes "getExtendBlockCount m s = Some ex" and "ex \<noteq> 0"
  shows "blockCount m + ex = 2 ^ (ceilAllocateOrder s - MIN_BLOCK_ORDER) +
      CEIL (blockCount m) (2 ^ (ceilAllocateOrder s - MIN_BLOCK_ORDER))"
    and "blockCount m + ex \<le> maxBlockCount m" and "s \<le> 2 ^ MAX_BLOCK_ORDER"
proof -
  let ?d = "2 ^ (ceilAllocateOrder s - MIN_BLOCK_ORDER)"
  have le: "blockCount m \<le> CEIL (blockCount m) ?d" by (rule CEIL_ge) simp
  show "s \<le> 2 ^ MAX_BLOCK_ORDER"
    using assms by (auto simp: getExtendBlockCount_def ceilAllocateOrder_def Let_def split: if_splits bind_splits)
  show "blockCount m + ex = ?d + CEIL (blockCount m) ?d" "blockCount m + ex \<le> maxBlockCount m"
    using assms le by (auto simp: getExtendBlockCount_def Let_def split: if_splits bind_splits)
qed

lemma extend_grown:
  assumes "lin_wf m" and "getExtendBlockCount (m\<lparr>locked := True\<rparr>) s = Some ex" and "ex \<noteq> 0"
  shows "\<exists>ok m1. extendLinearBlock_noLock mapPage (m\<lparr>locked := True\<rparr>) ex = Some (ok, m1) \<and>
    grown m m1 \<and> locked m1 \<and> (ok \<longrightarrow> blockCount m1 = blockCount m + ex) \<and> ((\<forall>p. mapPage p) \<longrightarrow> ok)"
proof -
  let ?m = "m\<lparr>locked := True\<rparr>"
  note b = getExtendBlockCount_bound [OF assms(2,3)]
  obtain m1 where m1: "extendLoop mapPage (blockCount ?m + ex) (CEIL (indexToElement ?m (blockCount ?m)) 4096) ?m = Some m1"
    "lin_wf m1" "locked m1" "blockCount m \<le> blockCount m1" "blockCount m1 \<le> max (blockCount m) (blockCount m + ex)"
    "same_region ?m m1" "allocated m1 = allocated m" "freeFrames m1 = freeFrames m \<union> {blockCount m..<blockCount m1}"
    "\<forall>i<blockCount m. status m1 i = status m i \<and> mappedSize m1 i = mappedSize m i"
    "\<forall>i\<in>allocated m. sizeOrder m1 i = sizeOrder m i" "(\<forall>p. mapPage p) \<longrightarrow> blockCount m + ex \<le> blockCount m1"
    using extendLoop_effect [of ?m mapPage "blockCount ?m + ex"] assms(1) by fastforce
  have "keeps_blocks m m1" using m1(9,10) allocatedD(1) unfolding keeps_blocks_def by blast
  then have "grown m m1" using m1(2,4-8) b(2) by (simp add: grown_def same_region_def)
  then show ?thesis using m1 by (auto simp: extendLinearBlock_noLock_def Let_def)
qed

lemma allocateLinearBlock_effect:
  assumes "lin_inv m" and "0 < s" and "s mod 4096 = 0"
  shows "\<exists>a m'. allocateLinearBlock mapPage m s = Some (a, m') \<and> lin_inv m' \<and> same_region m m' \<and>
    keeps_blocks m m' \<and> blockCount m' \<le> max (blockCount m) (maxBlockCount m) \<and>
    (a = INVALID_PAGE_ADDRESS \<and> allocated m' = allocated m \<and> freeFrames m \<subseteq> freeFrames m' \<or>
     (\<exists>b. a = indexToAddress m b \<and> linear_granted m s b m'))"
proof -
  let ?m = "m\<lparr>locked := True\<rparr>"
  have wf: "lin_wf m" "\<not> locked m" using assms(1) by (simp_all add: lin_inv_def)
  have ok: "splitSize_ok s s" by (simp add: splitSize_ok_def)
  have G: "grown m ?m" using grown_refl [OF wf(1)] .
  have fail: "\<exists>a m'. Some (INVALID_PAGE_ADDRESS, m1\<lparr>locked := False\<rparr>) = Some (a, m') \<and> lin_inv m' \<and>
      same_region m m' \<and> keeps_blocks m m' \<and> blockCount m' \<le> max (blockCount m) (maxBlockCount m) \<and>
      (a = INVALID_PAGE_ADDRESS \<and> allocated m' = allocated m \<and> freeFrames m \<subseteq> freeFrames m' \<or>
       (\<exists>b. a = indexToAddress m b \<and> linear_granted m s b m'))" if "grown m m1" for m1
    using grown_unlock [OF that] by (auto simp: grown_def lin_inv_def)
  obtain r m1 where a: "allocateBlock_noLock ?m s s = Some (r, m1)" "r = None \<Longrightarrow> m1 = ?m"
    using allocateBlock_noLock_effect [of ?m s s] wf(1) assms(2) ok by (auto simp: lin_wf_def split: option.splits)
  show ?thesis
  proof (cases r)
    case (Some b)
    note A = allocate_after_growth [OF G _ assms(2,3) a(1) [unfolded Some]]
    have "allocateLinearBlock mapPage m s = Some (indexToAddress m b, (markLocked b s m1)\<lparr>locked := False\<rparr>)"
      using a(1) Some wf(2) A(1,2,4)
      by (simp add: allocateLinearBlock_def acquireLock_def releaseLock_def markLocked_def Let_def)
    then show ?thesis using A(3) by auto
  next
    case None
    obtain ex where ex: "getExtendBlockCount ?m s = Some ex" by (auto simp: getExtendBlockCount_def Let_def)
    show ?thesis
    proof (cases "ex = 0")
      case True
      then have "allocateLinearBlock mapPage m s = Some (INVALID_PAGE_ADDRESS, ?m\<lparr>locked := False\<rparr>)"
        using a None ex wf(2) by (simp add: allocateLinearBlock_def acquireLock_def releaseLock_def)
      then show ?thesis using fail [OF G] by simp
    next
      case False
      obtain okx m2 where m2: "extendLinearBlock_noLock mapPage ?m ex = Some (okx, m2)" "grown m m2" "locked m2"
        using extend_grown [OF wf(1) ex False] by blast
      have "lin_wf m2" using m2(2) by (simp add: grown_def)
      then obtain r2 m3 where a2: "allocateBlock_noLock m2 s s = Some (r2, m3)" "r2 = None \<Longrightarrow> m3 = m2"
        using allocateBlock_noLock_effect [of m2 s s] m2(3) assms(2) ok by (auto simp: lin_wf_def split: option.splits)
      show ?thesis
      proof (cases "okx \<and> r2 \<noteq> None")
        case True
        then obtain b where r2: "r2 = Some b" by auto
        note A = allocate_after_growth [OF m2(2,3) assms(2,3) a2(1) [unfolded r2]]
        have "allocateLinearBlock mapPage m s = Some (indexToAddress m b, (markLocked b s m3)\<lparr>locked := False\<rparr>)"
          using a None ex wf(2) m2(1) a2(1) r2 True False A(1,2,4)
          by (simp add: allocateLinearBlock_def acquireLock_def releaseLock_def markLocked_def Let_def)
        then show ?thesis using A(3) by auto
      next
        case fails: False
        then have "allocateLinearBlock mapPage m s = Some (INVALID_PAGE_ADDRESS, m2\<lparr>locked := False\<rparr>)"
          using a None ex wf(2) m2(1,3) a2 False
          by (cases okx) (auto simp: allocateLinearBlock_def acquireLock_def releaseLock_def)
        then show ?thesis using fail [OF m2(2)] by simp
      qed
    qed
  qed
qed

lemma CEIL_run:
  assumes "0 < d"
  shows "{CEIL n d..<CEIL n d + d} \<subseteq> {n..<d + CEIL n d}" "d dvd CEIL n d"
  using CEIL_ge [OF assms, of n] by auto

text \<open>Growing by the count of \<open>getExtendBlockCount\<close> makes room for the block: the new frames contain
  an aligned run of its size.\<close>

lemma allocateLinearBlock_grows:
  assumes "lin_inv m" and "0 < s" and "s mod 4096 = 0" and "\<forall>p. mapPage p"
    and "getExtendBlockCount (m\<lparr>locked := True\<rparr>) s = Some ex" and "ex \<noteq> 0"
  shows "\<exists>b m'. allocateLinearBlock mapPage m s = Some (indexToAddress m b, m') \<and> linear_granted m s b m'"
proof -
  let ?m = "m\<lparr>locked := True\<rparr>"
  have wf: "lin_wf m" "\<not> locked m" using assms(1) by (simp_all add: lin_inv_def)
  have ok: "splitSize_ok s s" by (simp add: splitSize_ok_def)
  note b = getExtendBlockCount_bound [OF assms(5,6)]
  obtain r m1 where a: "allocateBlock_noLock ?m s s = Some (r, m1)" "r = None \<Longrightarrow> m1 = ?m"
    using allocateBlock_noLock_effect [of ?m s s] wf(1) assms(2) ok by (auto simp: lin_wf_def split: option.splits)
  show ?thesis
  proof (cases r)
    case (Some c)
    note A = allocate_after_growth [OF grown_refl [OF wf(1)] _ assms(2,3) a(1) [unfolded Some]]
    have "allocateLinearBlock mapPage m s = Some (indexToAddress m c, (markLocked c s m1)\<lparr>locked := False\<rparr>)"
      using a(1) Some wf(2) A(1,2,4)
      by (simp add: allocateLinearBlock_def acquireLock_def releaseLock_def markLocked_def Let_def)
    then show ?thesis using A(3) by auto
  next
    case None
    let ?d = "2 ^ (ceilAllocateOrder s - MIN_BLOCK_ORDER)" and ?n = "blockCount m"
    obtain m2 where m2: "extendLinearBlock_noLock mapPage ?m ex = Some (True, m2)" "grown m m2" "locked m2"
      "blockCount m2 = ?n + ex"
      using extend_grown [OF wf(1) assms(5,6), of mapPage] assms(4) by auto
    have inv2: "buddy_inv m2" using m2(2) by (simp add: grown_def lin_wf_def)
    have "{CEIL ?n ?d..<CEIL ?n ?d + ?d} \<subseteq> freeFrames m2"
    proof -
      have "freeFrames m2 = freeFrames m \<union> {?n..<?d + CEIL ?n ?d}"
        using m2(2) m2(4) [unfolded b(1) [simplified]] by (simp add: grown_def)
      then show ?thesis using CEIL_run(1) [of ?d ?n] by (simp add: le_supI2)
    qed
    then have "allocateBlock_noLock m2 s s \<noteq> Some (None, m3)" for m3
      using allocate_None_no_run [OF inv2 m2(3) assms(2) ok b(3), of m3 "CEIL ?n ?d"] by auto
    then obtain c m3 where m3: "allocateBlock_noLock m2 s s = Some (Some c, m3)"
      using allocateBlock_noLock_effect [OF inv2 m2(3) assms(2) ok] by (metis option.exhaust)
    note A = allocate_after_growth [OF m2(2,3) assms(2,3) m3]
    have "allocateLinearBlock mapPage m s = Some (indexToAddress m c, (markLocked c s m3)\<lparr>locked := False\<rparr>)"
      using a None assms(5,6) wf(2) m2(1) m3 A(1,2,4)
      by (simp add: allocateLinearBlock_def acquireLock_def releaseLock_def markLocked_def Let_def)
    then show ?thesis using A(3) by auto
  qed
qed

section \<open>The block that an address belongs to\<close>

lemma getBuddy_locked:
  "locked m \<Longrightarrow> getBuddy m b =
    Some (if b XOR 2 ^ rord m b \<ge> blockCount m then None else Some (b XOR 2 ^ rord m b))"
  by (simp add: getBuddy_def rord_def)

lemma findUsingBlock_head:
  assumes "buddy_wf m" and "locked m" and "i < blockCount m"
  shows "\<exists>h. findUsingBlock m i = Some h \<and> h < blockCount m \<and> \<not> covered m h \<and> i \<in> frames m h"
  using assms
proof (induction m i rule: findUsingBlock.induct)
  case (1 m i)
  let ?p = "i XOR 2 ^ rord m i"
  show ?case
  proof (cases "covered m i")
    case False
    then have "findUsingBlock m i = Some i"
      using buddy_order_le [OF 1(2,4)] 1(3) by (simp add: findUsingBlock.simps [of m i] getBuddy_locked)
    then show ?thesis using False 1(4) by simp
  next
    case True
    note c = covered_buddy [OF 1(2,4) True]
    have pi: "?p < i" using c(1) zero_less_power [of "2::nat" "rord m i"] by linarith
    then have pn: "?p < blockCount m" using 1(4) by simp
    note okp = buddy_wfD(1) [OF 1(2) pn]
    have so: "\<not> sizeOrder m ?p \<le> sizeOrder m i"
      using c(2) block_okD(1) [OF okp] block_okD(1) [OF buddy_wfD(1) [OF 1(2,4)]] by simp
    have gb: "getBuddy m i = Some (Some ?p)" using pn 1(3) by (simp add: getBuddy_locked)
    have run: "findUsingBlock m i = findUsingBlock m ?p"
      using gb so pi by (simp add: findUsingBlock.simps [of m i])
    obtain h where h: "findUsingBlock m ?p = Some h" "h < blockCount m" "\<not> covered m h" "?p \<in> frames m h"
      using 1(1) [OF gb refl so] pi 1(2,3) pn by blast
    have "(2::nat) ^ rord m i < 2 ^ rord m ?p" using c(2) by (intro power_strict_increasing) simp_all
    then have ip: "i < ?p + 2 ^ rord m ?p" using c(1) by linarith
    have "?p + 2 ^ rord m ?p \<le> h + 2 ^ rord m h"
    proof (cases "?p = h")
      case False
      then have hp: "h < ?p" "?p < h + 2 ^ rord m h" using h(4) by (auto simp: frames_def)
      have dh: "2 ^ rord m h dvd h" using block_okD(3) [OF buddy_wfD(1) [OF 1(2) h(2)]] .
      have "\<not> rord m h \<le> rord m ?p"
        using dvd_gap [OF dh power_le_dvd [OF block_okD(3) [OF okp]] hp(1)] hp(2) by auto
      then have le: "rord m ?p \<le> rord m h" by simp
      have "2 ^ rord m ?p dvd h + 2 ^ rord m h"
        using power_le_dvd [OF dh le] le_imp_power_dvd [OF le, of "2::nat"] by (rule dvd_add)
      then show ?thesis using dvd_gap [OF block_okD(3) [OF okp]] hp(2) by blast
    qed simp
    then have "i \<in> frames m h" using ip pi h(4) by (auto simp: frames_def)
    then show ?thesis using run h by auto
  qed
qed

lemma isUsingBlock_spec:
  assumes "lin_wf m" and "locked m" and "i < blockCount m"
  shows "isUsingBlock_noLock m (indexToAddress m i) =
    Some (\<exists>b\<in>allocated m. i \<in> frames m b \<and> status m b = MEMORY_USING)"
proof -
  have inv: "buddy_wf m" "beginAddress m mod MIN_BLOCK_SIZE = 0"
    using assms(1) by (simp_all add: lin_wf_def buddy_inv_def)
  obtain h where h: "findUsingBlock m i = Some h" "h < blockCount m" "\<not> covered m h" "i \<in> frames m h"
    using findUsingBlock_head [OF inv(1) assms(2,3)] by blast
  have "status m h = MEMORY_USING \<longleftrightarrow> (\<exists>b\<in>allocated m. i \<in> frames m b \<and> status m b = MEMORY_USING)"
  proof
    assume u: "status m h = MEMORY_USING"
    then have "h \<in> allocated m" using assms(1) h(2) by (auto simp: lin_wf_def)
    then show "\<exists>b\<in>allocated m. i \<in> frames m b \<and> status m b = MEMORY_USING" using u h(4) by blast
  next
    assume "\<exists>b\<in>allocated m. i \<in> frames m b \<and> status m b = MEMORY_USING"
    then obtain b where b: "b \<in> allocated m" "i \<in> frames m b" "status m b = MEMORY_USING" by blast
    then have "b = h" using frames_disjoint [of m b h] allocatedD(2) [OF b(1)] h(3,4) by blast
    then show "status m h = MEMORY_USING" using b(3) by simp
  qed
  then show ?thesis
    using h(1) addressToIndex_indexToAddress [OF inv(2) assms(3)] by (simp add: isUsingBlock_noLock_def)
qed

section \<open>Release\<close>

lemma isReleasableBlock_spec:
  assumes "lin_wf m" and "locked m" and "i < blockCount m"
  shows "isReleasableBlock_noLock m i = Some (status m i = MEMORY_USING)"
proof -
  have wf: "buddy_wf m" and st: "status m i = MEMORY_FREE_OR_COVERED \<longleftrightarrow> i \<notin> allocated m"
    using assms by (auto simp: lin_wf_def buddy_inv_def)
  let ?p = "i XOR 2 ^ rord m i"
  show ?thesis
  proof (cases "status m i")
    case MEMORY_FREE_OR_COVERED
    then have fc: "isFree m i \<or> covered m i" using st assms(3) by (auto simp: allocated_def)
    have "isFree m i \<or> ?p < i \<and> sizeOrder m ?p > sizeOrder m i \<and> ?p < blockCount m"
    proof (cases "covered m i")
      case True
      note c = covered_buddy [OF wf assms(3) True]
      have "?p < i" using c(1) zero_less_power [of "2::nat" "rord m i"] by linarith
      then show ?thesis using c(2) assms(3) by (auto simp: rord_def)
    qed (use fc in simp)
    then show ?thesis using MEMORY_FREE_OR_COVERED assms(2)
      by (auto simp: isReleasableBlock_noLock_def getBuddy_locked)
  next
    case MEMORY_USING
    then have al: "i \<in> allocated m" using st by simp
    then show ?thesis using MEMORY_USING assms(2) buddy_order_le [OF wf allocatedD(1,2) [OF al]] allocatedD(3) [OF al]
      by (simp add: isReleasableBlock_noLock_def getBuddy_locked)
  qed (use assms(2) in \<open>simp add: isReleasableBlock_noLock_def getBuddy_locked\<close>)
qed

lemma lin_invD:
  assumes "lin_inv m"
  shows "lin_wf m" "\<not> locked m" "buddy_inv m" "beginAddress m mod MIN_BLOCK_SIZE = 0"
    "j < blockCount m \<Longrightarrow> (status m j = MEMORY_FREE_OR_COVERED \<longleftrightarrow> j \<notin> allocated m)"
    "j < blockCount m \<Longrightarrow> mappedSize m j mod 4096 = 0"
  using assms by (auto simp: lin_inv_def lin_wf_def)

lemma unlock_after_setStatus:
  "\<not> locked m \<Longrightarrow> (setStatus j st (m\<lparr>locked := True\<rparr>))\<lparr>locked := False\<rparr> = setStatus j st m"
  "\<not> locked m \<Longrightarrow> m\<lparr>locked := False\<rparr> = (m :: lmm)"
  by (cases m; simp add: setStatus_def)+

lemma setStatus_lin_inv:
  assumes "lin_inv m" and "j \<in> allocated m" and "st \<noteq> MEMORY_FREE_OR_COVERED"
  shows "lin_inv (setStatus j st m)"
  using assms by (auto simp: lin_inv_def lin_wf_def)

lemma beginRelease_effect:
  assumes "lin_inv m"
  shows "isAddressInRange m a \<Longrightarrow> addressToIndex m a = Some j \<Longrightarrow> status m j = MEMORY_USING \<Longrightarrow>
      beginRelease m a = Some (True, setStatus j MEMORY_LOCKED m) \<and> j \<in> allocated m"
    and "isAddressInRange m a \<Longrightarrow> addressToIndex m a = Some j \<Longrightarrow> status m j \<noteq> MEMORY_USING \<Longrightarrow>
      beginRelease m a = Some (False, m)"
    and "\<not> isAddressInRange m a \<Longrightarrow> beginRelease m a = Some (False, m)"
proof -
  note inv = lin_invD [OF assms]
  let ?m = "m\<lparr>locked := True\<rparr>"
  show "beginRelease m a = Some (False, m)" if "\<not> isAddressInRange m a"
    using that inv(2) by (simp add: beginRelease_def acquireLock_def releaseLock_def unlock_after_setStatus)
  assume r: "isAddressInRange m a" "addressToIndex m a = Some j"
  then have j: "j < blockCount m"
    by (auto simp: addressToIndex_def isAddressInRange_def kassert_def split: if_splits)
  have rel: "isReleasableBlock_noLock ?m j = Some (status m j = MEMORY_USING)"
    using isReleasableBlock_spec [of ?m j] inv(1) j by simp
  have sz: "getAllocatedBlockSize ?m a = Some (mappedSize m j)"
    using r(2) inv(6) [OF j] by (simp add: getAllocatedBlockSize_def)
  show "beginRelease m a = Some (True, setStatus j MEMORY_LOCKED m) \<and> j \<in> allocated m"
    if "status m j = MEMORY_USING"
    using that r rel sz inv(2) inv(5) [OF j]
    by (simp add: beginRelease_def acquireLock_def releaseLock_def unlock_after_setStatus)
  show "beginRelease m a = Some (False, m)" if "status m j \<noteq> MEMORY_USING"
    using that r rel inv(2) by (simp add: beginRelease_def acquireLock_def releaseLock_def unlock_after_setStatus)
qed

definition released :: "lmm \<Rightarrow> nat \<Rightarrow> lmm \<Rightarrow> bool" where
  "released m j m' \<longleftrightarrow> lin_inv m' \<and> blockCount m' = blockCount m \<and> same_region m m' \<and>
    status m' = (status m)(j := MEMORY_FREE_OR_COVERED) \<and> mappedSize m' = mappedSize m \<and>
    allocated m' = allocated m - {j} \<and> freeFrames m' = freeFrames m \<union> frames m j \<and>
    (\<forall>i\<in>allocated m - {j}. sizeOrder m' i = sizeOrder m i)"

lemma release_section:
  assumes "lin_inv m" and "j \<in> allocated m"
  shows "\<exists>m'. releaseBlock_noLock (setStatus j MEMORY_FREE_OR_COVERED (m\<lparr>locked := True\<rparr>)) j \<bind> releaseLock = Some m' \<and>
    released m j m'"
proof -
  obtain m1 where m1: "releaseBlock_noLock (setStatus j MEMORY_FREE_OR_COVERED (m\<lparr>locked := True\<rparr>)) j = Some m1"
    "lin_wf m1" "locked m1" "blockCount m1 = blockCount m" "same_region (m\<lparr>locked := True\<rparr>) m1"
    "status m1 = (status m)(j := MEMORY_FREE_OR_COVERED)" "mappedSize m1 = mappedSize m"
    "allocated m1 = allocated m - {j}" "freeFrames m1 = freeFrames m \<union> frames m j"
    "\<forall>i\<in>allocated m - {j}. sizeOrder m1 i = sizeOrder m i"
    using release_cleared [of "m\<lparr>locked := True\<rparr>" j] lin_invD(1) [OF assms(1)] assms(2) by auto
  then have "released m j (m1\<lparr>locked := False\<rparr>)"
    by (simp add: released_def lin_inv_def same_region_def)
  then show ?thesis using m1(1,3) by (simp add: releaseLock_def)
qed

lemma endRelease_effect:
  assumes "lin_inv m" and "j \<in> allocated m" and "status m j = MEMORY_LOCKED"
  shows "\<exists>m'. endRelease m (indexToAddress m j) = Some m' \<and> released m j m'"
proof -
  note inv = lin_invD [OF assms(1)]
  have "addressToIndex m (indexToAddress m j) = Some j"
    using addressToIndex_indexToAddress [OF inv(4) allocatedD(1) [OF assms(2)]] .
  then show ?thesis using release_section [OF assms(1,2)] assms(3) inv(2)
    by (simp add: endRelease_def acquireLock_def)
qed

lemma releaseLinearBlock_effect:
  assumes "lin_inv m" and "j \<in> allocated m"
  shows "\<exists>m'. releaseLinearBlock m (indexToAddress m j) = Some m' \<and> released m j m'"
proof -
  note inv = lin_invD [OF assms(1)] and j = allocatedD(1) [OF assms(2)]
  have "addressToIndex m (indexToAddress m j) = Some j"
    using addressToIndex_indexToAddress [OF inv(4) j] .
  moreover have "status m j = MEMORY_USING \<or> status m j = MEMORY_LOCKED"
    using inv(5) [OF j] assms(2) by (cases "status m j") auto
  ultimately show ?thesis using release_section [OF assms] inv(2)
    by (simp add: releaseLinearBlock_def acquireLock_def)
qed

lemma commit_effect:
  assumes "lin_inv m" and "j \<in> allocated m" and "status m j = MEMORY_LOCKED"
  shows "commitAllocatingLinearBlock m (indexToAddress m j) = Some (setStatus j MEMORY_USING m)"
proof -
  note inv = lin_invD [OF assms(1)]
  show ?thesis
    using addressToIndex_indexToAddress [OF inv(4) allocatedD(1) [OF assms(2)]] assms(3) inv(2)
    by (simp add: commitAllocatingLinearBlock_def acquireLock_def releaseLock_def unlock_after_setStatus)
qed

lemma checkAndReleaseLinearBlock_effect:
  assumes "lin_inv m" and "j < blockCount m"
  shows "if status m j = MEMORY_USING
    then \<exists>m'. checkAndReleaseLinearBlock m (indexToAddress m j) = Some (True, m') \<and> j \<in> allocated m \<and> released m j m'
    else checkAndReleaseLinearBlock m (indexToAddress m j) = Some (False, m)"
proof -
  note inv = lin_invD [OF assms(1)]
  have rng: "isAddressInRange m (indexToAddress m j)" "addressToIndex m (indexToAddress m j) = Some j"
    using isAddressInRange_indexToAddress [OF inv(4)] addressToIndex_indexToAddress [OF inv(4) assms(2)] assms(2) by auto
  show ?thesis
  proof (cases "status m j = MEMORY_USING")
    case True
    let ?m = "setStatus j MEMORY_LOCKED m"
    have b: "beginRelease m (indexToAddress m j) = Some (True, ?m)" and al: "j \<in> allocated m"
      using beginRelease_effect(1) [OF assms(1) rng True] by auto
    have "lin_inv ?m" using setStatus_lin_inv [OF assms(1) al] by simp
    moreover have "indexToAddress ?m j = indexToAddress m j" by (simp add: indexToAddress_def)
    ultimately obtain m' where m': "endRelease ?m (indexToAddress m j) = Some m'" "released ?m j m'"
      using endRelease_effect [of ?m j] al by auto
    have "released m j m'" using m'(2) same_region_trans [OF setStatus_simps(7)]
      by (auto simp: released_def)
    then show ?thesis using True b m'(1) al by (simp add: checkAndReleaseLinearBlock_def)
  next
    case False
    then show ?thesis using beginRelease_effect(2) [OF assms(1) rng False] by (simp add: checkAndReleaseLinearBlock_def)
  qed
qed

subsection \<open>Releasing everything\<close>

lemma releaseAllLoop_effect:
  assumes "lin_inv m" and "i \<le> blockCount m" and "allocated m \<subseteq> {i..}"
    and "\<And>j. j < blockCount m \<Longrightarrow> status m j \<noteq> MEMORY_LOCKED"
  shows "\<exists>m'. releaseAllLoop i m = Some (blockCount m, m') \<and> lin_inv m' \<and> allocated m' = {} \<and>
    blockCount m' = blockCount m \<and> same_region m m'"
  using assms
proof (induction i m rule: releaseAllLoop.induct)
  case (1 i m)
  show ?case
  proof (cases "i < blockCount m")
    case False
    then have "releaseAllLoop i m = Some (blockCount m, m)"
      using 1(3) by (subst releaseAllLoop.simps) simp
    moreover have "allocated m = {}" using 1(4) allocatedD(1) False by fastforce
    ultimately show ?thesis using 1(2) by simp
  next
    case True
    have "\<exists>r m1. checkAndReleaseLinearBlock m (indexToAddress m i) = Some (r, m1) \<and> lin_inv m1 \<and>
      blockCount m1 = blockCount m \<and> same_region m m1 \<and> allocated m1 = allocated m - {i} \<and>
      (\<forall>j<blockCount m. status m1 j \<noteq> MEMORY_LOCKED)"
    proof (cases "status m i = MEMORY_USING")
      case u: True
      then show ?thesis
        using checkAndReleaseLinearBlock_effect [OF 1(2) True] 1(5) by (auto simp: released_def)
    next
      case False
      then have "i \<notin> allocated m" using lin_invD(5) [OF 1(2) True] 1(5) [OF True] by (cases "status m i") auto
      then show ?thesis using checkAndReleaseLinearBlock_effect [OF 1(2) True] 1(2,5) False by auto
    qed
    then obtain r m1 where m1: "checkAndReleaseLinearBlock m (indexToAddress m i) = Some (r, m1)"
      "lin_inv m1" "blockCount m1 = blockCount m" "same_region m m1" "allocated m1 = allocated m - {i}"
      "\<And>j. j < blockCount m1 \<Longrightarrow> status m1 j \<noteq> MEMORY_LOCKED" by auto
    have ok: "block_ok m1 i"
      using buddy_wfD(1) [of m1 i] lin_invD(3) [OF m1(2)] True m1(3) by (simp add: buddy_inv_def)
    let ?st = "2 ^ sizeOrder m1 i div MIN_BLOCK_SIZE"
    have st: "?st = 2 ^ rord m1 i" using unit_bytes(1) [of "sizeOrder m1 i"] ok by (simp add: block_ok_def rord_def)
    have "allocated m1 \<subseteq> {i + ?st..}"
    proof
      fix j assume j: "j \<in> allocated m1"
      then have "i < j" using m1(5) 1(4) by force
      then show "j \<in> {i + ?st..}"
        using allocatedD(2) [OF j] unfolding covered_def st by auto
    qed
    moreover have "i + ?st \<le> blockCount m1" using block_okD(4) [OF ok] st by simp
    moreover have nz: "?st \<noteq> 0" using st by simp
    ultimately obtain m' where m': "releaseAllLoop (i + ?st) m1 = Some (blockCount m1, m')" "lin_inv m'"
      "allocated m' = {}" "blockCount m' = blockCount m1" "same_region m1 m'"
      using 1(1) [OF True 1(5) [OF True] m1(1) refl nz m1(2)] m1(6) by blast
    have "releaseAllLoop i m = releaseAllLoop (i + ?st) m1"
      using True 1(5) [OF True] m1(1) nz by (simp add: releaseAllLoop.simps [of i m])
    then show ?thesis using m' m1(3) same_region_trans [OF m1(4) m'(5)] by simp
  qed
qed

section \<open>Interleaved sections\<close>

text \<open>What other threads can do while one of them owns the block \<open>j\<close> that it has marked
  \<open>MEMORY_LOCKED\<close>: run any critical section on their own blocks, or try to release any address,
  that of \<open>j\<close> included.\<close>

inductive others :: "nat \<Rightarrow> lmm \<Rightarrow> lmm \<Rightarrow> bool" for j m where
  others_refl: "others j m m"
| others_alloc: "others j m m1 \<Longrightarrow> 0 < s \<Longrightarrow> s mod 4096 = 0 \<Longrightarrow>
    allocateLinearBlock mapPage m1 s = Some (a, m2) \<Longrightarrow> others j m m2"
| others_commit: "others j m m1 \<Longrightarrow> i \<noteq> j \<Longrightarrow> i \<in> allocated m1 \<Longrightarrow> status m1 i = MEMORY_LOCKED \<Longrightarrow>
    commitAllocatingLinearBlock m1 (indexToAddress m1 i) = Some m2 \<Longrightarrow> others j m m2"
| others_begin: "others j m m1 \<Longrightarrow> beginRelease m1 a = Some (r, m2) \<Longrightarrow> others j m m2"
| others_end: "others j m m1 \<Longrightarrow> i \<noteq> j \<Longrightarrow> i \<in> allocated m1 \<Longrightarrow> status m1 i = MEMORY_LOCKED \<Longrightarrow>
    endRelease m1 (indexToAddress m1 i) = Some m2 \<Longrightarrow> others j m m2"

definition owned :: "nat \<Rightarrow> lmm \<Rightarrow> lmm \<Rightarrow> bool" where
  "owned j m m' \<longleftrightarrow> lin_inv m' \<and> j \<in> allocated m' \<and> status m' j = MEMORY_LOCKED \<and>
    sizeOrder m' j = sizeOrder m j \<and> mappedSize m' j = mappedSize m j \<and> beginAddress m' = beginAddress m"

lemma setStatus_owned:
  "owned j m m1 \<Longrightarrow> i \<noteq> j \<Longrightarrow> i \<in> allocated m1 \<Longrightarrow> st \<noteq> MEMORY_FREE_OR_COVERED \<Longrightarrow> owned j m (setStatus i st m1)"
  using setStatus_lin_inv by (simp add: owned_def)

lemma others_owned:
  assumes "others j m m'" and "owned j m m"
  shows "owned j m m'"
  using assms
proof induction
  case (others_alloc m1 s mapPage a m2)
  then have o: "owned j m m1" by simp
  then have inv: "lin_inv m1" by (simp add: owned_def)
  from allocateLinearBlock_effect [OF inv others_alloc(2,3), of mapPage] others_alloc(4)
  have "lin_inv m2 \<and> same_region m1 m2 \<and> keeps_blocks m1 m2 \<and> allocated m1 \<subseteq> allocated m2"
    by (auto simp: linear_granted_def)
  then show ?case using o by (auto simp: owned_def keeps_blocks_def same_region_def)
next
  case (others_commit m1 i m2)
  then have o: "owned j m m1" by simp
  then have "m2 = setStatus i MEMORY_USING m1"
    using commit_effect [of m1 i] others_commit(3-5) by (simp add: owned_def)
  then show ?case using setStatus_owned [OF o others_commit(2,3)] by simp
next
  case (others_begin m1 a r m2)
  then have o: "owned j m m1" by simp
  then have inv: "lin_inv m1" by (simp add: owned_def)
  show ?case
  proof (cases "isAddressInRange m1 a")
    case False
    then show ?thesis using beginRelease_effect(3) [OF inv] others_begin(2) o by simp
  next
    case True
    then obtain i where i: "addressToIndex m1 a = Some i" by (simp add: addressToIndex_def)
    show ?thesis
    proof (cases "status m1 i = MEMORY_USING")
      case u: True
      have "m2 = setStatus i MEMORY_LOCKED m1" "i \<in> allocated m1"
        using beginRelease_effect(1) [OF inv True i u] others_begin(2) by auto
      moreover have "i \<noteq> j" using u o by (auto simp: owned_def)
      ultimately show ?thesis using setStatus_owned [OF o] by simp
    next
      case False
      then show ?thesis using beginRelease_effect(2) [OF inv True i] others_begin(2) o by simp
    qed
  qed
next
  case (others_end m1 i m2)
  then have o: "owned j m m1" by simp
  then have "released m1 i m2"
    using endRelease_effect [of m1 i] others_end(3-5) by (auto simp: owned_def)
  then show ?case using o others_end(2) by (auto simp: owned_def released_def same_region_def)
qed

section \<open>Theorems\<close>

text \<open>The concrete input of the examples: a region of eight blocks of which four exist and are in
  use.\<close>

definition fourLinear :: lmm where
  "fourLinear = resetBlockArray \<lparr>locked = False, beginAddress = 0, blockStructSize = 20,
    blockStructOffset = 8, blockCount = 0, freeSize = 0, freeBlock = (\<lambda>_. []), blockArray = 0x5000,
    sizeOrder = (\<lambda>_. 0), initialBlockCount = 4, maxBlockCount = 8, mappedSize = (\<lambda>_. 0),
    status = (\<lambda>_. MEMORY_USING)\<rparr> 4 initLinearMemoryBlock"

lemma fourLinear_inv: "lin_inv fourLinear" "allocated fourLinear = {..<4}" "blockCount fourLinear = 4"
  "maxBlockCount fourLinear = 8" "initialBlockCount fourLinear = 4"
  "j < 4 \<Longrightarrow> status fourLinear j = MEMORY_USING"
  unfolding fourLinear_def lin_inv_def
  using reset_lin_wf(3) [of "\<lparr>locked = False, beginAddress = 0, blockStructSize = 20,
    blockStructOffset = 8, blockCount = 0, freeSize = 0, freeBlock = (\<lambda>_. []), blockArray = 0x5000,
    sizeOrder = (\<lambda>_. 0), initialBlockCount = 4, maxBlockCount = 8, mappedSize = (\<lambda>_. 0),
    status = (\<lambda>_. MEMORY_USING)\<rparr>" 4]
  by (simp_all add: reset_lin_wf reset_initLinear same_region_def)

text \<open>C3: When no block of the size is free but the region may still grow by the computed count and
  the pages of the block array can be mapped, then \<open>allocateLinearBlock\<close> succeeds: the growth always
  contains an aligned block of the requested size.\<close>

theorem allocateLinearBlock_growth_suffices:
  assumes "lin_inv m" and "0 < s" and "s mod 4096 = 0" and "\<forall>p. mapPage p"
    and "getExtendBlockCount (m\<lparr>locked := True\<rparr>) s = Some ex" and "ex \<noteq> 0"
  shows "\<exists>b m'. allocateLinearBlock mapPage m s = Some (indexToAddress m b, m') \<and> linear_granted m s b m'"
  using assms by (rule allocateLinearBlock_grows)

theorem allocateLinearBlock_growth_suffices_witness:
  "\<exists>b m'. allocateLinearBlock (\<lambda>_. True) fourLinear 8192 = Some (indexToAddress fourLinear b, m') \<and>
    linear_granted fourLinear 8192 b m'"
proof -
  have "ceilAllocateOrder 8192 = 13" using ceilAllocateOrder_power [of 13] by simp
  then have "getExtendBlockCount (fourLinear\<lparr>locked := True\<rparr>) 8192 = Some 2"
    by (simp add: getExtendBlockCount_def fourLinear_inv(3,4) CEIL_def FLOOR_def Let_def)
  then show ?thesis
    using allocateLinearBlock_growth_suffices [OF fourLinear_inv(1), of 8192 "\<lambda>_. True" 2] by simp
qed

text \<open>C4: A block marked \<open>MEMORY_LOCKED\<close> belongs to the thread that marked it, although
  \<open>checkAndReleaseLinearBlock\<close> gives up the spinlock while it unmaps the pages. Whatever critical
  sections other threads run in the meantime, the block stays allocated with its size, and the owner's
  second section succeeds and releases exactly that block.\<close>

theorem locked_block_protected:
  assumes "lin_inv m" and "j \<in> allocated m" and "status m j = MEMORY_LOCKED" and "others j m m'"
  shows "j \<in> allocated m' \<and> sizeOrder m' j = sizeOrder m j \<and> mappedSize m' j = mappedSize m j \<and>
    (\<exists>m''. endRelease m' (indexToAddress m j) = Some m'' \<and> lin_inv m'' \<and>
      allocated m'' = allocated m' - {j} \<and> freeFrames m'' = freeFrames m' \<union> frames m' j)"
proof -
  have o: "owned j m m'" using others_owned [OF assms(4)] assms(1-3) by (simp add: owned_def)
  moreover have "indexToAddress m' j = indexToAddress m j"
    using o by (simp add: owned_def indexToAddress_def)
  ultimately show ?thesis
    using endRelease_effect [of m' j] by (auto simp: owned_def released_def)
qed

theorem locked_block_protected_witness:
  "\<exists>m'. endRelease (setStatus 2 MEMORY_LOCKED fourLinear) (indexToAddress fourLinear 2) = Some m' \<and>
    allocated m' = {..<4} - {2}"
proof -
  let ?m = "setStatus 2 MEMORY_LOCKED fourLinear"
  have "lin_inv ?m" using setStatus_lin_inv [OF fourLinear_inv(1), of 2] by (simp add: fourLinear_inv(2))
  moreover have "indexToAddress ?m 2 = indexToAddress fourLinear 2" by (simp add: indexToAddress_def)
  ultimately show ?thesis
    using locked_block_protected [of ?m 2 ?m] others_refl [of 2 ?m] by (auto simp: fourLinear_inv(2))
qed

text \<open>\<open>releaseAllLinearBlocks\<close> visits every block in use: its loop, which steps by block sizes that
  change while it runs, ends exactly at \<open>blockCount\<close> with no block allocated, no assertion fails, and
  the manager is reset to its initial blocks.\<close>

lemma releaseAllLinearBlocks_correct:
  assumes "lin_inv m" and "\<forall>j<blockCount m. status m j \<noteq> MEMORY_LOCKED"
  shows "\<exists>m1 m'. releaseAllLoop 0 m = Some (blockCount m, m1) \<and> allocated m1 = {} \<and>
    releaseAllLinearBlocks m = Some m' \<and> lin_inv m' \<and> blockCount m' = initialBlockCount m \<and>
    allocated m' = {..<initialBlockCount m}"
proof -
  obtain m1 where m1: "releaseAllLoop 0 m = Some (blockCount m, m1)" "lin_inv m1" "allocated m1 = {}"
    "blockCount m1 = blockCount m" "same_region m m1"
    using releaseAllLoop_effect [OF assms(1), of 0] assms(2) by auto
  let ?m = "resetBlockArray m1 (initialBlockCount m1) initLinearMemoryBlock"
  have i: "initialBlockCount m1 = initialBlockCount m" using m1(5) by (simp add: same_region_def)
  have "lin_inv ?m"
    using reset_lin_wf(1) [OF lin_invD(4) [OF m1(2)]] lin_invD(2) [OF m1(2)] by (simp add: lin_inv_def reset_initLinear)
  then show ?thesis using m1 i by (simp add: releaseAllLinearBlocks_def reset_initLinear)
qed

end
