(* ===== verification/Paging.thy ===== *)
theory Paging
  imports PhysicalBlock
begin

unbundle bit_operations_syntax

text \<open>
  The two level page tables, \<open>kernel/memory/page.c\<close>. A page manager has a page directory and a window of 1024 page tables, which it reads and
  writes through linear memory; directory entry \<open>i\<close> belongs to table \<open>(i + pdIndexBase) mod 1024\<close> of the window. Tables of the kernel's
  part of linear memory are those of the kernel page manager for every manager. Frames come from \<open>PhysicalBlock\<close>; the processor's cache of
  translations is flushed by \<open>sendINVLPG\<close> and has no state here. \<open>None\<close> is a failed assertion or panic.
\<close>

section \<open>Entries\<close>

abbreviation (input) PRESENT_PAGE_FLAG :: u32 where "PRESENT_PAGE_FLAG \<equiv> 1"
abbreviation (input) WRITABLE_PAGE_FLAG :: u32 where "WRITABLE_PAGE_FLAG \<equiv> 2"
abbreviation (input) USER_PAGE_FLAG :: u32 where "USER_PAGE_FLAG \<equiv> 4"
abbreviation (input) NON_CACHED_PAGE_FLAG :: u32 where "NON_CACHED_PAGE_FLAG \<equiv> 16"
abbreviation (input) KERNEL_PAGE :: u32 where "KERNEL_PAGE \<equiv> 3"
abbreviation (input) USER_WRITABLE_PAGE :: u32 where "USER_WRITABLE_PAGE \<equiv> 7"
abbreviation (input) USER_READ_ONLY_PAGE :: u32 where "USER_READ_ONLY_PAGE \<equiv> 5"

abbreviation (input) PAGE_SIZE :: nat where "PAGE_SIZE \<equiv> 4096"
abbreviation (input) PAGE_DIRECTORY_LENGTH :: nat where "PAGE_DIRECTORY_LENGTH \<equiv> 1024"

definition SET_ENTRY_ADDRESS :: "u32 \<Rightarrow> u32 \<Rightarrow> u32" where
  "SET_ENTRY_ADDRESS e a = (e AND 4095) OR a"

definition GET_ENTRY_ADDRESS :: "u32 \<Rightarrow> u32" where
  "GET_ENTRY_ADDRESS e = e AND NOT 4095"

definition andPTEFlags :: "u32 \<Rightarrow> u32 \<Rightarrow> u32" where
  "andPTEFlags e attribute = (e AND 4095) AND attribute"

text \<open>The bit fields of an entry in their order; those that are not set are 0. Entries of a directory and of a table have the same layout.\<close>

definition makeEntry :: "u32 \<Rightarrow> u32 \<Rightarrow> u32" where
  "makeEntry attribute a = SET_ENTRY_ADDRESS
    ((if attribute AND PRESENT_PAGE_FLAG \<noteq> 0 then 1 else 0) OR
     push_bit 1 (if attribute AND WRITABLE_PAGE_FLAG \<noteq> 0 then 1 else 0) OR
     push_bit 2 (if attribute AND USER_PAGE_FLAG \<noteq> 0 then 1 else 0) OR
     push_bit 4 (if attribute AND NON_CACHED_PAGE_FLAG \<noteq> 0 then 1 else 0)) a"

definition isPresent :: "u32 \<Rightarrow> bool" where
  "isPresent e \<longleftrightarrow> bit e 0"

definition setPDE :: "u32 \<Rightarrow> u32 \<Rightarrow> u32 \<Rightarrow> u32 option" where
  "setPDE target attribute a = do {
    kassert (attribute AND PRESENT_PAGE_FLAG \<noteq> 0);
    kassert (\<not> isPresent target);
    Some (makeEntry attribute a)
  }"

definition setPTE :: "u32 \<Rightarrow> u32 \<Rightarrow> u32 option" where
  "setPTE attribute a = do {
    kassert (attribute AND PRESENT_PAGE_FLAG \<noteq> 0);
    Some (makeEntry attribute a)
  }"

definition invalidatePTE :: "u32 \<Rightarrow> u32 option" where
  "invalidatePTE target = do {
    kassert (isPresent target);
    Some (target AND NOT 1)
  }"

section \<open>Page managers\<close>

record PageManager =
  physicalPD :: u32
  reservedBase :: u32
  reservedEnd :: u32
  pdIndexBase :: nat
  page :: u32
  pd :: "nat \<Rightarrow> u32"
  pt :: "nat \<Rightarrow> nat \<Rightarrow> u32"

text \<open>All managers, with the limits of kernel memory that the linker script defines; number 0 is \<open>kernelPageManager\<close>.\<close>

record paging =
  managers :: "nat \<Rightarrow> PageManager"
  KERNEL_LINEAR_BEGIN :: u32
  KERNEL_LINEAR_END :: u32

definition PD_INDEX :: "u32 \<Rightarrow> nat" where
  "PD_INDEX a = (unat a div 2 ^ 22) mod 1024"

definition PT_INDEX :: "u32 \<Rightarrow> nat" where
  "PT_INDEX a = (unat a div 2 ^ 12) mod 1024"

definition isKernelLinearAddress :: "paging \<Rightarrow> u32 \<Rightarrow> bool" where
  "isKernelLinearAddress g a \<longleftrightarrow> KERNEL_LINEAR_BEGIN g \<le> a \<and> a < KERNEL_LINEAR_END g"

text \<open>\<open>ptByLinearAddress\<close>: the manager that holds the table and its place in the window.\<close>

definition ptByLinearAddress :: "paging \<Rightarrow> nat \<Rightarrow> u32 \<Rightarrow> nat \<times> nat" where
  "ptByLinearAddress g p linear = (let k = (if isKernelLinearAddress g linear then 0 else p) in
    (k, (PD_INDEX linear + pdIndexBase (managers g k)) mod PAGE_DIRECTORY_LENGTH))"

text \<open>The linear address of that table: the directory is the first page of the window.\<close>

definition tableAddress :: "paging \<Rightarrow> nat \<Rightarrow> u32 \<Rightarrow> u32" where
  "tableAddress g p linear = (case ptByLinearAddress g p linear of (k, i) \<Rightarrow> page (managers g k) + of_nat (PAGE_SIZE * (1 + i)))"

definition pdeByLinearAddress :: "paging \<Rightarrow> nat \<Rightarrow> u32 \<Rightarrow> u32" where
  "pdeByLinearAddress g p linear = pd (managers g p) (PD_INDEX linear)"

definition pteByLinearAddress :: "paging \<Rightarrow> nat \<Rightarrow> u32 \<Rightarrow> u32" where
  "pteByLinearAddress g p linear = (case ptByLinearAddress g p linear of (k, i) \<Rightarrow> pt (managers g k) i (PT_INDEX linear))"

definition updateManager :: "nat \<Rightarrow> (PageManager \<Rightarrow> PageManager) \<Rightarrow> paging \<Rightarrow> paging" where
  "updateManager k f g = g\<lparr>managers := (managers g)(k := f (managers g k))\<rparr>"

definition writePDE :: "nat \<Rightarrow> u32 \<Rightarrow> u32 \<Rightarrow> paging \<Rightarrow> paging" where
  "writePDE p linear e g = updateManager p (\<lambda>x. x\<lparr>pd := (pd x)(PD_INDEX linear := e)\<rparr>) g"

definition writePTE :: "nat \<Rightarrow> u32 \<Rightarrow> u32 \<Rightarrow> paging \<Rightarrow> paging" where
  "writePTE p linear e g = (case ptByLinearAddress g p linear of (k, i) \<Rightarrow>
    updateManager k (\<lambda>x. x\<lparr>pt := (pt x)(i := (pt x i)(PT_INDEX linear := e))\<rparr>) g)"

definition clearTable :: "nat \<Rightarrow> u32 \<Rightarrow> paging \<Rightarrow> paging" where
  "clearTable p linear g = (case ptByLinearAddress g p linear of (k, i) \<Rightarrow> updateManager k (\<lambda>x. x\<lparr>pt := (pt x)(i := (\<lambda>j. 0))\<rparr>) g)"

definition aligned :: "u32 \<Rightarrow> bool" where
  "aligned a \<longleftrightarrow> a AND 4095 = 0"

section \<open>Operations on one page\<close>

definition translatePage :: "paging \<Rightarrow> nat \<Rightarrow> u32 \<Rightarrow> u32 \<Rightarrow> nat option" where
  "translatePage g p linear hasAttribute = do {
    kassert (isPresent (pdeByLinearAddress g p linear));
    let pte = pteByLinearAddress g p linear;
    Some (if andPTEFlags pte hasAttribute \<noteq> hasAttribute then INVALID_PAGE_ADDRESS else unat (GET_ENTRY_ADDRESS pte))
  }"

text \<open>\<open>setPage\<close> with \<open>physical == NULL\<close>: the directory entry has to be present.\<close>

definition setPagePresent :: "nat \<Rightarrow> u32 \<Rightarrow> u32 \<Rightarrow> u32 \<Rightarrow> paging \<Rightarrow> paging option" where
  "setPagePresent p linear a attribute g = do {
    kassert (aligned a \<and> aligned linear);
    kassert (isKernelLinearAddress g linear \<longrightarrow> p = 0);
    kassert (isPresent (pdeByLinearAddress g p linear));
    e \<leftarrow> setPTE attribute a;
    Some (writePTE p linear e g)
  }"

text \<open>The part of \<open>setPage\<close> that creates a missing page table.\<close>

definition createTable :: "nat \<Rightarrow> u32 \<Rightarrow> paging \<times> pmm \<Rightarrow> (bool \<times> paging \<times> pmm) option" where
  "createTable p linear s = (case s of (g, m) \<Rightarrow>
    if isPresent (pdeByLinearAddress g p linear) then Some (True, g, m)
    else do {
      kassert (linear < KERNEL_LINEAR_BEGIN g);
      (a, m) \<leftarrow> allocatePhysicalBlock m PAGE_SIZE PAGE_SIZE;
      if a = INVALID_PAGE_ADDRESS then Some (False, g, m)
      else do {
        e \<leftarrow> setPDE (pdeByLinearAddress g p linear) USER_WRITABLE_PAGE (of_nat a);
        g \<leftarrow> setPagePresent p (tableAddress g p linear) (of_nat a) KERNEL_PAGE (writePDE p linear e g);
        Some (True, clearTable p linear g, m)
      }
    })"

definition setPage :: "nat \<Rightarrow> u32 \<Rightarrow> u32 \<Rightarrow> u32 \<Rightarrow> paging \<times> pmm \<Rightarrow> (bool \<times> paging \<times> pmm) option" where
  "setPage p linear a attribute s = do {
    kassert (aligned a \<and> aligned linear);
    kassert (isKernelLinearAddress (fst s) linear \<longrightarrow> p = 0);
    (ok, g, m) \<leftarrow> createTable p linear s;
    if \<not> ok then Some (False, g, m)
    else do {
      e \<leftarrow> setPTE attribute a;
      Some (True, writePTE p linear e g, m)
    }
  }"

definition invalidatePage :: "nat \<Rightarrow> u32 \<Rightarrow> paging \<Rightarrow> paging option" where
  "invalidatePage p linear g = do {
    kassert (isPresent (pdeByLinearAddress g p linear));
    e \<leftarrow> invalidatePTE (pteByLinearAddress g p linear);
    Some (writePTE p linear e g)
  }"

definition releaseInvalidatedPage :: "nat \<Rightarrow> u32 \<Rightarrow> paging \<times> pmm \<Rightarrow> pmm option" where
  "releaseInvalidatedPage p linear s = (case s of (g, m) \<Rightarrow> do {
    kassert (isPresent (pdeByLinearAddress g p linear));
    kassert (\<not> isPresent (pteByLinearAddress g p linear));
    releasePhysicalBlock m (unat (GET_ENTRY_ADDRESS (pteByLinearAddress g p linear)))
  })"

section \<open>Operations on ranges of pages\<close>

text \<open>The page number \<open>i\<close> of a range.\<close>

definition pageAt :: "u32 \<Rightarrow> nat \<Rightarrow> u32" where
  "pageAt linear i = linear + of_nat (PAGE_SIZE * i)"

fun invalidatePages :: "nat \<Rightarrow> u32 \<Rightarrow> nat \<Rightarrow> paging \<Rightarrow> paging option" where
  "invalidatePages p linear 0 g = Some g"
| "invalidatePages p linear (Suc n) g = do { g \<leftarrow> invalidatePage p (pageAt linear n) g; invalidatePages p linear n g }"

fun releasePages :: "nat \<Rightarrow> u32 \<Rightarrow> nat \<Rightarrow> paging \<times> pmm \<Rightarrow> pmm option" where
  "releasePages p linear 0 s = Some (snd s)"
| "releasePages p linear (Suc n) s = do { m \<leftarrow> releaseInvalidatedPage p (pageAt linear n) s; releasePages p linear n (fst s, m) }"

text \<open>\<open>_unmapPage\<close>: two loops from the last page to the first. They do not end for a size that is not a multiple of the page size.\<close>

definition unmapPage :: "nat \<Rightarrow> u32 \<Rightarrow> nat \<Rightarrow> paging \<times> pmm \<Rightarrow> (paging \<times> pmm) option" where
  "unmapPage p linear sz s = do {
    kassert (sz mod PAGE_SIZE = 0);
    g \<leftarrow> invalidatePages p linear (sz div PAGE_SIZE) (fst s);
    m \<leftarrow> releasePages p linear (sz div PAGE_SIZE) (g, snd s);
    Some (g, m)
  }"

text \<open>The loop of \<open>_mapPage_L\<close> from page \<open>i\<close> to \<open>n\<close>; it returns the number of the page it could not map, or \<open>n\<close>.\<close>

function mapLoop :: "nat \<Rightarrow> u32 \<Rightarrow> u32 \<Rightarrow> nat \<Rightarrow> nat \<Rightarrow> paging \<times> pmm \<Rightarrow> (nat \<times> paging \<times> pmm) option" where
  "mapLoop p linear attribute i n s =
    (if i < n then do {
       (a, m) \<leftarrow> allocatePhysicalBlock (snd s) PAGE_SIZE PAGE_SIZE;
       if a = INVALID_PAGE_ADDRESS then Some (i, fst s, m)
       else do {
         (ok, g, m) \<leftarrow> setPage p (pageAt linear i) (of_nat a) attribute (fst s, m);
         if \<not> ok then do { m \<leftarrow> releasePhysicalBlock m a; Some (i, g, m) }
         else mapLoop p linear attribute (i + 1) n (g, m)
       }
     } else Some (i, s))"
  by pat_completeness auto
termination
  by (relation "measure (\<lambda>(p, linear, attribute, i, n, s). n - i)") auto

definition mapPage_L :: "nat \<Rightarrow> u32 \<Rightarrow> nat \<Rightarrow> u32 \<Rightarrow> paging \<times> pmm \<Rightarrow> (bool \<times> paging \<times> pmm) option" where
  "mapPage_L p linear sz attribute s = do {
    kassert (sz mod PAGE_SIZE = 0);
    (i, s) \<leftarrow> mapLoop p linear attribute 0 (sz div PAGE_SIZE) s;
    if i \<ge> sz div PAGE_SIZE then Some (True, s)
    else do { s \<leftarrow> unmapPage p linear (PAGE_SIZE * i) s; Some (False, s) }
  }"

text \<open>\<open>_mapContiguousPage_L\<close>: its loop, which returns the number of the page it could not map, and the release of the frames that were not mapped,
  the last one first.\<close>

function mapLoop_C :: "nat \<Rightarrow> u32 \<Rightarrow> nat \<Rightarrow> u32 \<Rightarrow> nat \<Rightarrow> nat \<Rightarrow> paging \<times> pmm \<Rightarrow> (nat \<times> paging \<times> pmm) option" where
  "mapLoop_C p linear a attribute i n s =
    (if i < n then do {
       (ok, s) \<leftarrow> setPage p (pageAt linear i) (of_nat (a + PAGE_SIZE * i)) attribute s;
       if \<not> ok then Some (i, s) else mapLoop_C p linear a attribute (i + 1) n s
     } else Some (i, s))"
  by pat_completeness auto
termination
  by (relation "measure (\<lambda>(p, linear, a, attribute, i, n, s). n - i)") auto

declare mapLoop_C.simps [simp del]

fun releaseDown :: "nat \<Rightarrow> nat \<Rightarrow> nat \<Rightarrow> pmm \<Rightarrow> pmm option" where
  "releaseDown a i 0 m = Some m"
| "releaseDown a i (Suc d) m = do { m \<leftarrow> releasePhysicalBlock m (a + PAGE_SIZE * (i + d)); releaseDown a i d m }"

definition mapContiguousPage_L :: "nat \<Rightarrow> u32 \<Rightarrow> nat \<Rightarrow> u32 \<Rightarrow> paging \<times> pmm \<Rightarrow> (bool \<times> paging \<times> pmm) option" where
  "mapContiguousPage_L p linear sz attribute s = do {
    kassert (sz mod PAGE_SIZE = 0);
    (a, m) \<leftarrow> allocatePhysicalBlock (snd s) sz PAGE_SIZE;
    if a = INVALID_PAGE_ADDRESS then Some (False, fst s, m)
    else do {
      (i, s) \<leftarrow> mapLoop_C p linear a attribute 0 (sz div PAGE_SIZE) (fst s, m);
      if i \<ge> sz div PAGE_SIZE then Some (True, s)
      else do {
        m \<leftarrow> releaseDown a i (sz div PAGE_SIZE - i) (snd s);
        s \<leftarrow> unmapPage p linear (PAGE_SIZE * i) (fst s, m);
        Some (False, s)
      }
    }
  }"

text \<open>\<open>map1Page_LP\<close> maps a page to a frame that is in use.\<close>

definition map1Page_LP :: "nat \<Rightarrow> u32 \<Rightarrow> nat \<Rightarrow> u32 \<Rightarrow> paging \<times> pmm \<Rightarrow> (bool \<times> paging \<times> pmm) option" where
  "map1Page_LP p linear a attribute s = do {
    (ok, m) \<leftarrow> addPhysicalBlockReference (snd s) a;
    if \<not> ok then Some (False, fst s, m)
    else do {
      (ok, g, m) \<leftarrow> setPage p linear (of_nat a) attribute (fst s, m);
      if \<not> ok then do { m \<leftarrow> releasePhysicalBlock m a; Some (False, g, m) }
      else Some (True, g, m)
    }
  }"

function mapLoop_LP :: "nat \<Rightarrow> u32 \<Rightarrow> nat \<Rightarrow> u32 \<Rightarrow> nat \<Rightarrow> nat \<Rightarrow> paging \<times> pmm \<Rightarrow> (nat \<times> paging \<times> pmm) option" where
  "mapLoop_LP p linear a attribute i n s =
    (if i < n then do {
       (ok, s) \<leftarrow> map1Page_LP p (pageAt linear i) (a + PAGE_SIZE * i) attribute s;
       if \<not> ok then Some (i, s) else mapLoop_LP p linear a attribute (i + 1) n s
     } else Some (i, s))"
  by pat_completeness auto
termination
  by (relation "measure (\<lambda>(p, linear, a, attribute, i, n, s). n - i)") auto

declare mapLoop_LP.simps [simp del]

definition mapPage_LP :: "nat \<Rightarrow> u32 \<Rightarrow> nat \<Rightarrow> nat \<Rightarrow> u32 \<Rightarrow> paging \<times> pmm \<Rightarrow> (bool \<times> paging \<times> pmm) option" where
  "mapPage_LP p linear a sz attribute s = do {
    (i, s) \<leftarrow> mapLoop_LP p linear a attribute 0 (DIV_CEIL sz PAGE_SIZE) s;
    if i \<ge> DIV_CEIL sz PAGE_SIZE then Some (True, s)
    else do { s \<leftarrow> unmapPage p linear (PAGE_SIZE * i) s; Some (False, s) }
  }"

section \<open>Entries of one word\<close>

lemma mask12: "(4095 :: u32) = mask 12"
  by (simp add: mask_eq_exp_minus_1)

lemma aligned_iff: "aligned a \<longleftrightarrow> a AND NOT (mask 12) = a"
  by (auto simp: aligned_def mask12 bit_eq_iff bit_simps)

lemma aligned_mod: "aligned a \<longleftrightarrow> unat a mod 4096 = 0"
proof -
  have "unat (a AND mask 12) = unat a mod 2 ^ 12" by (simp add: take_bit_eq_mask [symmetric] take_bit_eq_mod unat_mod)
  then show ?thesis by (simp add: aligned_def mask12 flip: unat_eq_0)
qed

lemma aligned_of_nat: "a < 2 ^ 32 \<Longrightarrow> a mod 4096 = 0 \<Longrightarrow> aligned (of_nat a)"
  by (simp add: aligned_mod unat_of_nat_small)

text \<open>An entry made of the flags of a page and the address of a frame gives both back.\<close>

lemma and_single: "(x :: u32) AND 2 ^ n = (if bit x n then 2 ^ n else 0)"
  by (rule bit_word_eqI) (auto simp: bit_simps)

lemma makeEntry_flags: "makeEntry attribute a = (attribute AND 23) OR a"
proof -
  note s = and_single [of attribute 0] and_single [of attribute 1] and_single [of attribute 2] and_single [of attribute 4]
  have "attribute AND 23 = attribute AND (1 OR 2 OR 4 OR 16)" by simp
  also have "\<dots> = (attribute AND 1) OR (attribute AND 2) OR (attribute AND 4) OR (attribute AND 16)" by (simp only: bit.conj_disj_distrib)
  also have "\<dots> = (if attribute AND 1 \<noteq> 0 then 1 else 0) OR push_bit 1 (if attribute AND 2 \<noteq> 0 then 1 else 0) OR
     push_bit 2 (if attribute AND 4 \<noteq> 0 then 1 else 0) OR push_bit 4 (if attribute AND 16 \<noteq> 0 then 1 else 0)"
    using s by simp
  finally have f: "makeEntry attribute a = ((attribute AND 23) AND 4095) OR a" by (simp add: makeEntry_def SET_ENTRY_ADDRESS_def)
  have "(attribute AND 23) AND 4095 = attribute AND (23 AND 4095)" by (simp only: and.assoc)
  then show ?thesis unfolding f by simp
qed

lemma makeEntry_parts:
  assumes "aligned a"
  shows "GET_ENTRY_ADDRESS (makeEntry attribute a) = a" "makeEntry attribute a AND 4095 = attribute AND 23"
proof -
  have 1: "(attribute AND 23) AND NOT 4095 = attribute AND (23 AND NOT 4095)" "(attribute AND 23) AND 4095 = attribute AND (23 AND 4095)" by (simp_all only: and.assoc)
  have 2: "a AND NOT 4095 = a" "a AND 4095 = 0" using assms assms [unfolded aligned_iff] unfolding mask12 by (simp_all only: aligned_def mask12)
  show "GET_ENTRY_ADDRESS (makeEntry attribute a) = a" unfolding GET_ENTRY_ADDRESS_def makeEntry_flags bit.conj_disj_distrib2 1 2 by simp
  show "makeEntry attribute a AND 4095 = attribute AND 23" unfolding makeEntry_flags bit.conj_disj_distrib2 1 2 by simp
qed

lemma isPresent_flags: "isPresent e \<longleftrightarrow> (e AND 4095) AND 1 \<noteq> 0"
proof -
  have "(e AND 4095) AND 1 = e AND (4095 AND 1)" by (simp only: and.assoc)
  then show ?thesis using and_single [of e 0] by (simp add: isPresent_def)
qed

lemma isPresent_makeEntry: "aligned a \<Longrightarrow> isPresent (makeEntry attribute a) \<longleftrightarrow> attribute AND 1 \<noteq> 0"
proof -
  have "(attribute AND 23) AND 1 = attribute AND (23 AND 1)" by (simp only: and.assoc)
  then show "aligned a \<Longrightarrow> ?thesis" unfolding isPresent_flags makeEntry_parts by simp
qed

lemma invalidate_parts:
  "GET_ENTRY_ADDRESS (e AND NOT 1) = GET_ENTRY_ADDRESS e" "\<not> isPresent (e AND NOT 1)"
proof -
  have "(e AND NOT 1) AND NOT 4095 = e AND (NOT 1 AND NOT 4095)" by (simp only: and.assoc)
  also have "NOT 1 AND NOT 4095 = NOT (4095 :: u32)" by simp
  finally show "GET_ENTRY_ADDRESS (e AND NOT 1) = GET_ENTRY_ADDRESS e" by (simp add: GET_ENTRY_ADDRESS_def)
  show "\<not> isPresent (e AND NOT 1)" by (simp add: isPresent_def bit_simps)
qed

section \<open>The mapping that a page manager represents\<close>

definition mapping :: "paging \<Rightarrow> nat \<Rightarrow> u32 \<Rightarrow> u32 option" where
  "mapping g p a = (if isPresent (pdeByLinearAddress g p a) \<and> isPresent (pteByLinearAddress g p a) then Some (pteByLinearAddress g p a) else None)"

text \<open>Kernel memory begins with a page table of its own, and the window of a manager is covered by tables that are there from the beginning.\<close>

definition paging_wf :: "paging \<Rightarrow> bool" where
  "paging_wf g \<longleftrightarrow> (\<forall>k. pdIndexBase (managers g k) < PAGE_DIRECTORY_LENGTH) \<and> unat (KERNEL_LINEAR_BEGIN g) mod 2 ^ 22 = 0"

definition inWindow :: "paging \<Rightarrow> nat \<Rightarrow> u32 \<Rightarrow> bool" where
  "inWindow g p a \<longleftrightarrow> (\<exists>i<PAGE_DIRECTORY_LENGTH. a = page (managers g p) + of_nat (PAGE_SIZE * (1 + i)))"

definition windowed :: "paging \<Rightarrow> nat \<Rightarrow> bool" where
  "windowed g p \<longleftrightarrow> (\<forall>a. inWindow g p a \<longrightarrow> aligned a \<and> isPresent (pdeByLinearAddress g p a) \<and> (isKernelLinearAddress g a \<longrightarrow> p = 0))"

text \<open>A page that \<open>setPage\<close> accepts.\<close>

definition mappable :: "paging \<Rightarrow> nat \<Rightarrow> u32 \<Rightarrow> bool" where
  "mappable g p a \<longleftrightarrow> aligned a \<and> \<not> inWindow g p a \<and> (isKernelLinearAddress g a \<longrightarrow> p = 0) \<and>
    (isPresent (pdeByLinearAddress g p a) \<or> a < KERNEL_LINEAR_BEGIN g \<and> windowed g p)"

text \<open>Directory entries of a manager that point to a frame.\<close>

definition tableRefs :: "paging \<Rightarrow> nat \<Rightarrow> nat \<Rightarrow> nat" where
  "tableRefs g p x = card {i. i < PAGE_DIRECTORY_LENGTH \<and> isPresent (pd (managers g p) i) \<and> unat (GET_ENTRY_ADDRESS (pd (managers g p) i)) = x}"

lemma index_bound [simp]: "PD_INDEX a < 1024" "PT_INDEX a < 1024"
  by (simp_all add: PD_INDEX_def PT_INDEX_def)

lemma index_eq:
  assumes "PD_INDEX a = PD_INDEX b" "PT_INDEX a = PT_INDEX b" "aligned a" "aligned b"
  shows "a = b"
proof -
  have n: "unat c = 4096 * (1024 * PD_INDEX c + PT_INDEX c)" if "aligned c" for c
  proof -
    have b: "unat c < 2 ^ 32" using unsigned_less [of c, where 'a = nat] by simp
    then have "unat c div 2 ^ 22 < 1024" by (simp add: less_mult_imp_div_less)
    moreover have "unat c div 2 ^ 22 = unat c div 2 ^ 12 div 1024" by (simp add: div_mult2_eq [symmetric])
    ultimately have "1024 * PD_INDEX c + PT_INDEX c = unat c div 2 ^ 12" by (simp add: PD_INDEX_def PT_INDEX_def)
    moreover have "unat c = 4096 * (unat c div 4096)" using that by (simp add: aligned_mod mod_eq_0_iff_dvd)
    ultimately show ?thesis by simp
  qed
  show ?thesis using n [OF assms(3)] n [OF assms(4)] assms(1,2) by (metis word_unat_eq_iff)
qed

lemma mod_cancel:
  assumes "(x + c) mod 1024 = (y + c) mod 1024" "x < 1024" "y < 1024" "c < (1024 :: nat)"
  shows "x = y"
proof -
  have "(x + c + (1024 - c)) mod 1024 = (y + c + (1024 - c)) mod 1024" using assms(1) by (metis mod_add_left_eq)
  then show ?thesis using assms(2-4) by simp
qed

lemma slot_eq:
  assumes "paging_wf g" "ptByLinearAddress g p a = ptByLinearAddress g p b"
  shows "PD_INDEX a = PD_INDEX b"
proof -
  obtain k where "(PD_INDEX a + pdIndexBase (managers g k)) mod 1024 = (PD_INDEX b + pdIndexBase (managers g k)) mod 1024"
    using assms(2) by (auto simp: ptByLinearAddress_def Let_def)
  then show ?thesis by (rule mod_cancel) (use assms(1) in \<open>simp_all add: paging_wf_def\<close>)
qed

lemma below_kernel:
  assumes "paging_wf g" "a < KERNEL_LINEAR_BEGIN g" "PD_INDEX b = PD_INDEX a"
  shows "\<not> isKernelLinearAddress g b"
proof
  assume "isKernelLinearAddress g b"
  then have b: "unat (KERNEL_LINEAR_BEGIN g) \<le> unat b" by (simp add: isKernelLinearAddress_def word_le_nat_alt)
  let ?K = "unat (KERNEL_LINEAR_BEGIN g)"
  have "PD_INDEX c = unat c div 2 ^ 22" for c
  proof -
    have "unat c < 2 ^ 32" using unsigned_less [of c, where 'a = nat] by simp
    then show ?thesis by (simp add: PD_INDEX_def less_mult_imp_div_less)
  qed
  then have "unat a div 2 ^ 22 = unat b div 2 ^ 22" using assms(3) by simp
  moreover have "unat a < ?K" using assms(2) by (simp add: word_less_nat_alt)
  moreover have "?K = 2 ^ 22 * (?K div 2 ^ 22)" using assms(1) by (auto simp: paging_wf_def)
  then have "unat a div 2 ^ 22 < ?K div 2 ^ 22" using \<open>unat a < ?K\<close> by (metis less_mult_imp_div_less mult.commute)
  ultimately show False using div_le_mono [OF b, of "2 ^ 22"] by simp
qed

text \<open>Reading after writing.\<close>

lemma static_write [simp]:
  "page (managers (writePDE p l e g) k) = page (managers g k)" "page (managers (writePTE p l e g) k) = page (managers g k)" "page (managers (clearTable p l g) k) = page (managers g k)"
  "pdIndexBase (managers (writePDE p l e g) k) = pdIndexBase (managers g k)" "pdIndexBase (managers (writePTE p l e g) k) = pdIndexBase (managers g k)"
  "pdIndexBase (managers (clearTable p l g) k) = pdIndexBase (managers g k)"
  "KERNEL_LINEAR_BEGIN (writePDE p l e g) = KERNEL_LINEAR_BEGIN g" "KERNEL_LINEAR_BEGIN (writePTE p l e g) = KERNEL_LINEAR_BEGIN g" "KERNEL_LINEAR_BEGIN (clearTable p l g) = KERNEL_LINEAR_BEGIN g"
  "KERNEL_LINEAR_END (writePDE p l e g) = KERNEL_LINEAR_END g" "KERNEL_LINEAR_END (writePTE p l e g) = KERNEL_LINEAR_END g" "KERNEL_LINEAR_END (clearTable p l g) = KERNEL_LINEAR_END g"
  "pd (managers (writePTE p l e g) k) = pd (managers g k)" "pd (managers (clearTable p l g) k) = pd (managers g k)" "pt (managers (writePDE p l e g) k) = pt (managers g k)"
  by (auto simp: writePDE_def writePTE_def clearTable_def updateManager_def split: prod.splits)

lemma kernel_write [simp]:
  "isKernelLinearAddress (writePDE p l e g) = isKernelLinearAddress g" "isKernelLinearAddress (writePTE p l e g) = isKernelLinearAddress g"
  "isKernelLinearAddress (clearTable p l g) = isKernelLinearAddress g"
  by (simp_all add: isKernelLinearAddress_def fun_eq_iff)

lemma table_write [simp]:
  "ptByLinearAddress (writePDE p l e g) = ptByLinearAddress g" "ptByLinearAddress (writePTE p l e g) = ptByLinearAddress g" "ptByLinearAddress (clearTable p l g) = ptByLinearAddress g"
  "inWindow (writePDE p l e g) = inWindow g" "inWindow (writePTE p l e g) = inWindow g" "inWindow (clearTable p l g) = inWindow g"
  "paging_wf (writePDE p l e g) = paging_wf g" "paging_wf (writePTE p l e g) = paging_wf g" "paging_wf (clearTable p l g) = paging_wf g"
  by (simp_all add: ptByLinearAddress_def inWindow_def paging_wf_def fun_eq_iff)

lemma read_write:
  "pdeByLinearAddress (writePDE p l e g) p a = (if PD_INDEX a = PD_INDEX l then e else pdeByLinearAddress g p a)"
  "pdeByLinearAddress (writePTE p l e g) q a = pdeByLinearAddress g q a" "pdeByLinearAddress (clearTable p l g) q a = pdeByLinearAddress g q a"
  "pteByLinearAddress (writePDE p l e g) q a = pteByLinearAddress g q a"
  "pteByLinearAddress (clearTable p l g) q a = (if ptByLinearAddress g q a = ptByLinearAddress g p l then 0 else pteByLinearAddress g q a)"
  subgoal by (simp add: pdeByLinearAddress_def writePDE_def updateManager_def)
  subgoal by (simp add: pdeByLinearAddress_def)
  subgoal by (simp add: pdeByLinearAddress_def)
  subgoal by (simp add: pteByLinearAddress_def)
  subgoal by (simp add: pteByLinearAddress_def) (auto simp: clearTable_def updateManager_def split: prod.splits)
  done

lemma pte_writePTE:
  assumes "paging_wf g" "aligned l" "aligned a"
  shows "pteByLinearAddress (writePTE p l e g) p a = (if a = l then e else pteByLinearAddress g p a)"
proof (cases "ptByLinearAddress g p a = ptByLinearAddress g p l \<and> PT_INDEX a = PT_INDEX l")
  case True
  then have "a = l" using index_eq [OF slot_eq [OF assms(1)]] assms(2,3) by blast
  then show ?thesis by (simp add: pteByLinearAddress_def) (auto simp: writePTE_def updateManager_def split: prod.splits)
next
  case False
  then have "a \<noteq> l" by auto
  then show ?thesis using False by (simp add: pteByLinearAddress_def) (auto simp: writePTE_def updateManager_def split: prod.splits)
qed

definition extends :: "paging \<Rightarrow> paging \<Rightarrow> nat \<Rightarrow> bool" where
  "extends g g' p \<longleftrightarrow> (\<forall>k. page (managers g' k) = page (managers g k) \<and> pdIndexBase (managers g' k) = pdIndexBase (managers g k)) \<and>
    KERNEL_LINEAR_BEGIN g' = KERNEL_LINEAR_BEGIN g \<and> KERNEL_LINEAR_END g' = KERNEL_LINEAR_END g \<and>
    (\<forall>i<PAGE_DIRECTORY_LENGTH. isPresent (pd (managers g p) i) \<longrightarrow> pd (managers g' p) i = pd (managers g p) i)"

lemma extends_pde: "extends g g' p \<Longrightarrow> isPresent (pdeByLinearAddress g p a) \<Longrightarrow> pdeByLinearAddress g' p a = pdeByLinearAddress g p a"
  by (simp add: extends_def pdeByLinearAddress_def)

lemma extends_tableRefs: "extends g g' p \<Longrightarrow> tableRefs g p x \<le> tableRefs g' p x"
  unfolding tableRefs_def extends_def by (intro card_mono) auto

lemma extends_refl: "extends g g p"
  by (simp add: extends_def)

lemma extends_trans: "extends g g' p \<Longrightarrow> extends g' g'' p \<Longrightarrow> extends g g'' p"
  by (simp add: extends_def)

lemma extends_writePTE: "extends g (writePTE p l e g) q"
  by (simp add: extends_def read_write)

lemma extends_static:
  assumes "extends g g' p"
  shows "paging_wf g' = paging_wf g" "inWindow g' q = inWindow g q" "isKernelLinearAddress g' = isKernelLinearAddress g" "ptByLinearAddress g' = ptByLinearAddress g"
    "windowed g p \<Longrightarrow> windowed g' p" "mappable g p a \<Longrightarrow> mappable g' p a"
proof -
  have k: "isKernelLinearAddress g' = isKernelLinearAddress g" using assms by (simp add: extends_def isKernelLinearAddress_def fun_eq_iff)
  have w: "inWindow g' q = inWindow g q" for q using assms by (simp add: extends_def inWindow_def fun_eq_iff)
  have "windowed g' p" if "windowed g p" unfolding windowed_def w k
  proof (intro allI impI)
    fix a assume "inWindow g p a"
    then have "aligned a \<and> isPresent (pdeByLinearAddress g p a) \<and> (isKernelLinearAddress g a \<longrightarrow> p = 0)" using that by (simp add: windowed_def)
    then show "aligned a \<and> isPresent (pdeByLinearAddress g' p a) \<and> (isKernelLinearAddress g a \<longrightarrow> p = 0)" using extends_pde [OF assms] by simp
  qed
  then show "windowed g p \<Longrightarrow> windowed g' p" "mappable g p a \<Longrightarrow> mappable g' p a" using assms w k extends_pde [OF assms] by (auto simp: mappable_def extends_def)
  show "paging_wf g' = paging_wf g" "inWindow g' q = inWindow g q" "isKernelLinearAddress g' = isKernelLinearAddress g" "ptByLinearAddress g' = ptByLinearAddress g"
    using assms w k by (simp_all add: extends_def paging_wf_def ptByLinearAddress_def fun_eq_iff)
qed

lemma tableRefs_add:
  assumes "\<not> isPresent (pdeByLinearAddress g p l)" "isPresent e" "unat (GET_ENTRY_ADDRESS e) = a" "pd (managers g' p) = (pd (managers g p))(PD_INDEX l := e)"
  shows "tableRefs g' p x = tableRefs g p x + (if x = a then 1 else 0)"
proof -
  let ?S = "\<lambda>g. {i. i < PAGE_DIRECTORY_LENGTH \<and> isPresent (pd (managers g p) i) \<and> unat (GET_ENTRY_ADDRESS (pd (managers g p) i)) = x}"
  have "finite (?S g)" by simp
  moreover have "PD_INDEX l \<notin> ?S g" using assms(1) by (simp add: pdeByLinearAddress_def)
  moreover have "?S g' = (if x = a then insert (PD_INDEX l) (?S g) else ?S g)"
    using assms by (auto simp: pdeByLinearAddress_def split: if_splits)
  ultimately show ?thesis unfolding tableRefs_def by (cases "x = a") (simp_all only: if_True if_False card_insert_disjoint, simp_all)
qed

lemma tableRefs_writePTE [simp]: "tableRefs (writePTE q l e g) p = tableRefs g p"
  by (simp add: tableRefs_def fun_eq_iff)

lemma createTable_effect:
  assumes wf: "paging_wf g" and inv: "pool_inv m" and l: "mappable g p l"
  shows "\<exists>ok g' m'. createTable p l (g, m) = Some (ok, g', m') \<and> pool_inv m' \<and> extends g g' p \<and> (ok \<longrightarrow> isPresent (pdeByLinearAddress g' p l)) \<and>
    (\<not> ok \<longrightarrow> g' = g \<and> m' = m) \<and> (\<forall>a. aligned a \<and> \<not> inWindow g p a \<longrightarrow> mapping g' p a = mapping g p a) \<and>
    (\<forall>x. poolRefs m' x + tableRefs g p x = poolRefs m x + tableRefs g' p x)"
proof (cases "isPresent (pdeByLinearAddress g p l)")
  case True
  then have "createTable p l (g, m) = Some (True, g, m)" by (simp add: createTable_def)
  then show ?thesis using inv True extends_refl by blast
next
  case False
  then have lk: "l < KERNEL_LINEAR_BEGIN g" "windowed g p" using l by (auto simp: mappable_def)
  then have nk: "\<not> isKernelLinearAddress g l" by (auto simp: isKernelLinearAddress_def not_le)
  show ?thesis
  proof (cases rule: fp.alloc_cases [OF inv])
    case 1
    then have "createTable p l (g, m) = Some (False, g, m)" using False lk by (simp add: createTable_def)
    then show ?thesis using inv extends_refl by blast
  next
    case (2 a m')
    let ?e = "makeEntry USER_WRITABLE_PAGE (of_nat a)" and ?e' = "makeEntry KERNEL_PAGE (of_nat a)" and ?w = "tableAddress g p l"
    have al: "aligned (of_nat a)" using 2 by (intro aligned_of_nat)
    have e: "isPresent ?e" "unat (GET_ENTRY_ADDRESS ?e) = a" using al 2(4) by (simp_all add: isPresent_makeEntry makeEntry_parts unat_of_nat_small)
    have "inWindow g p ?w" using nk by (auto simp: inWindow_def tableAddress_def ptByLinearAddress_def Let_def intro!: exI [of _ "(PD_INDEX l + pdIndexBase (managers g p)) mod 1024"])
    then have w: "aligned ?w" "isPresent (pdeByLinearAddress g p ?w)" "isKernelLinearAddress g ?w \<longrightarrow> p = 0" "inWindow g p ?w" using lk(2) by (simp_all add: windowed_def)
    then have pw: "PD_INDEX ?w \<noteq> PD_INDEX l" using False by (auto simp: pdeByLinearAddress_def)
    let ?g = "clearTable p l (writePTE p ?w ?e' (writePDE p l ?e g))"
    have run: "createTable p l (g, m) = Some (True, ?g, m')"
      using False lk 2(1,3) al w pw by (simp add: createTable_def setPDE_def setPagePresent_def setPTE_def read_write)
    have pde: "pdeByLinearAddress ?g p b = (if PD_INDEX b = PD_INDEX l then ?e else pdeByLinearAddress g p b)" for b by (simp add: read_write)
    have "extends g ?g p" using False by (auto simp: extends_def writePDE_def updateManager_def pdeByLinearAddress_def)
    moreover have "mapping ?g p b = mapping g p b" if b: "aligned b" "\<not> inWindow g p b" for b
    proof -
      have pte: "pteByLinearAddress ?g p b = (if ptByLinearAddress g p b = ptByLinearAddress g p l then 0 else pteByLinearAddress g p b)"
        using b w pte_writePTE [of "writePDE p l ?e g" ?w b p ?e'] wf by (auto simp: read_write)
      show ?thesis
      proof (cases "PD_INDEX b = PD_INDEX l")
        case True
        then have "ptByLinearAddress g p b = ptByLinearAddress g p l" using below_kernel [OF wf lk(1) True] nk by (simp add: ptByLinearAddress_def)
        moreover have "\<not> isPresent (pdeByLinearAddress g p b)" using False True by (simp add: pdeByLinearAddress_def)
        ultimately show ?thesis by (simp add: mapping_def pte isPresent_def)
      next
        case False
        then have "ptByLinearAddress g p b \<noteq> ptByLinearAddress g p l" using slot_eq [OF wf] by blast
        then show ?thesis using False by (simp add: mapping_def pte pde)
      qed
    qed
    moreover have "poolRefs m' x + tableRefs g p x = poolRefs m x + tableRefs ?g p x" for x
      using tableRefs_add [OF False e, of ?g x] 2(6,7) by (auto simp: writePDE_def updateManager_def)
    ultimately show ?thesis using run 2(2) e(1) pde by auto
  qed
qed

lemma setPage_effect:
  assumes wf: "paging_wf g" and inv: "pool_inv m" and l: "mappable g p l" and a: "aligned a" "attribute AND 1 \<noteq> 0"
  shows "\<exists>ok g' m'. setPage p l a attribute (g, m) = Some (ok, g', m') \<and> pool_inv m' \<and> extends g g' p \<and> (\<not> ok \<longrightarrow> g' = g \<and> m' = m) \<and>
    (\<forall>b. aligned b \<and> \<not> inWindow g p b \<longrightarrow> mapping g' p b = (if ok \<and> b = l then Some (makeEntry attribute a) else mapping g p b)) \<and>
    (\<forall>x. poolRefs m' x + tableRefs g p x = poolRefs m x + tableRefs g' p x)"
proof -
  have la: "aligned l" "isKernelLinearAddress g l \<longrightarrow> p = 0" using l by (simp_all add: mappable_def)
  obtain ok g1 m1 where c: "createTable p l (g, m) = Some (ok, g1, m1)" "pool_inv m1" "extends g g1 p" "ok \<longrightarrow> isPresent (pdeByLinearAddress g1 p l)"
    "\<not> ok \<longrightarrow> g1 = g \<and> m1 = m" "\<forall>b. aligned b \<and> \<not> inWindow g p b \<longrightarrow> mapping g1 p b = mapping g p b"
    "\<forall>x. poolRefs m1 x + tableRefs g p x = poolRefs m x + tableRefs g1 p x"
    using createTable_effect [OF wf inv l] by blast
  show ?thesis
  proof (cases ok)
    case True
    let ?g = "writePTE p l (makeEntry attribute a) g1"
    have "setPage p l a attribute (g, m) = Some (True, ?g, m1)" using c(1) la a True by (simp add: setPage_def setPTE_def)
    moreover have "mapping ?g p b = (if b = l then Some (makeEntry attribute a) else mapping g p b)" if b: "aligned b" "\<not> inWindow g p b" for b
    proof -
      have "mapping ?g p b = (if b = l then Some (makeEntry attribute a) else mapping g1 p b)"
        using pte_writePTE [of g1 l b p] extends_static(1) [OF c(3)] wf la(1) b(1) c(4) True a by (auto simp: mapping_def read_write isPresent_makeEntry)
      then show ?thesis using c(6) b by simp
    qed
    moreover have "extends g ?g p" by (rule extends_trans [OF c(3) extends_writePTE])
    ultimately show ?thesis using c(2,7) by (intro exI [of _ True] exI [of _ ?g] exI [of _ m1]) simp
  next
    case False
    then have "setPage p l a attribute (g, m) = Some (False, g1, m1)" using c(1) la a by (simp add: setPage_def)
    then show ?thesis using c False by auto
  qed
qed

text \<open>The pages from number \<open>i\<close> mapped to a list of frames.\<close>

fun frameMap :: "u32 \<Rightarrow> u32 \<Rightarrow> nat \<Rightarrow> nat list \<Rightarrow> u32 \<Rightarrow> u32 option" where
  "frameMap attribute l i [] = Map.empty"
| "frameMap attribute l i (a # fs) = (frameMap attribute l (i + 1) fs)(pageAt l i \<mapsto> makeEntry attribute (of_nat a))"

lemma pageAt_inj:
  assumes "pageAt l i = pageAt l j" "i < 2 ^ 20" "j < 2 ^ 20"
  shows "i = j"
proof -
  have "(of_nat (4096 * i) :: u32) = of_nat (4096 * j)" using assms(1) by (simp add: pageAt_def del: of_nat_mult)
  then have "unat (of_nat (4096 * i) :: u32) = unat (of_nat (4096 * j) :: u32)" by simp
  then show ?thesis using assms(2,3) by (simp add: unat_of_nat_small del: of_nat_mult)
qed

lemma frameMap_dom: "dom (frameMap attribute l i fs) = pageAt l ` {i..<i + length fs}"
proof (induction fs arbitrary: i)
  case (Cons a fs)
  have "{i..<i + length (a # fs)} = insert i {i + 1..<i + 1 + length fs}" by auto
  then show ?case using Cons [of "i + 1"] by (auto simp: dom_if)
qed simp

lemma frameMap_nth:
  assumes "j < length fs" "i + length fs \<le> 2 ^ 20"
  shows "frameMap attribute l i fs (pageAt l (i + j)) = Some (makeEntry attribute (of_nat (fs ! j)))"
  using assms
proof (induction fs arbitrary: i j)
  case (Cons a fs)
  show ?case
  proof (cases j)
    case (Suc k)
    moreover have "pageAt l (i + j) \<noteq> pageAt l i" using pageAt_inj [of l "i + j" i] Suc Cons.prems by auto
    ultimately show ?thesis using Cons.IH [of k "i + 1"] Cons.prems by simp
  qed simp
qed simp

lemma mapLoop_effect:
  assumes "paging_wf g" "pool_inv m" "\<forall>j<n. mappable g p (pageAt l j)" "n \<le> 2 ^ 20" "attribute AND 1 \<noteq> 0" "i \<le> n"
  shows "\<exists>g' m' fs. mapLoop p l attribute i n (g, m) = Some (i + length fs, g', m') \<and> i + length fs \<le> n \<and> pool_inv m' \<and> extends g g' p \<and>
    (\<forall>b. aligned b \<and> \<not> inWindow g p b \<longrightarrow> mapping g' p b = (mapping g p ++ frameMap attribute l i fs) b) \<and>
    distinct fs \<and> (\<forall>x\<in>set fs. x < 2 ^ 32 \<and> x mod 4096 = 0 \<and> poolRefs m x = 0) \<and>
    (\<forall>x. poolRefs m' x + tableRefs g p x = poolRefs m x + tableRefs g' p x + count_list fs x)"
  using assms
proof (induction "n - i" arbitrary: i g m)
  case 0
  then have "mapLoop p l attribute i n (g, m) = Some (i, g, m)" by simp
  then show ?case using 0 extends_refl by (intro exI [of _ g] exI [of _ m] exI [of _ "[]"]) simp
next
  case (Suc d)
  then have i: "i < n" by simp
  have stop: ?case if "mapLoop p l attribute i n (g, m) = Some (i, g, m')" "pool_inv m'" "poolRefs m' = poolRefs m" for m'
    using that i extends_refl by (intro exI [of _ g] exI [of _ m'] exI [of _ "[]"]) simp
  show ?case
  proof (cases rule: fp.alloc_cases [OF Suc(4)])
    case 1
    then have "mapLoop p l attribute i n (g, m) = Some (i, g, m)" using i by simp
    then show ?thesis using stop Suc(4) by blast
  next
    case (2 a m1)
    have al: "aligned (of_nat a)" using 2 by (intro aligned_of_nat)
    obtain ok g2 m2 where s: "setPage p (pageAt l i) (of_nat a) attribute (g, m1) = Some (ok, g2, m2)" "pool_inv m2" "extends g g2 p" "\<not> ok \<longrightarrow> g2 = g \<and> m2 = m1"
      "\<forall>b. aligned b \<and> \<not> inWindow g p b \<longrightarrow> mapping g2 p b = (if ok \<and> b = pageAt l i then Some (makeEntry attribute (of_nat a)) else mapping g p b)"
      "\<forall>x. poolRefs m2 x + tableRefs g p x = poolRefs m1 x + tableRefs g2 p x"
      using setPage_effect [OF Suc(3) 2(2) Suc(5) [rule_format, OF i] al Suc(7)] by blast
    show ?thesis
    proof (cases ok)
      case False
      then have "g2 = g" "m2 = m1" using s(4) by simp_all
      moreover obtain m3 where "releasePhysicalBlock m1 a = Some m3" "pool_inv m3" "poolRefs m3 = poolRefs m" using fp.alloc_release [OF Suc(4) 2(1,3)] by blast
      ultimately have "mapLoop p l attribute i n (g, m) = Some (i, g, m3)" "pool_inv m3" "poolRefs m3 = poolRefs m" using i 2(1,3) s(1) False by simp_all
      then show ?thesis by (rule stop)
    next
      case True
      have d: "d = n - (i + 1)" and wf2: "paging_wf g2" using Suc(2,3) extends_static(1) [OF s(3)] by simp_all
      have map: "\<forall>j<n. mappable g2 p (pageAt l j)" using Suc(5) extends_static(6) [OF s(3)] by blast
      obtain g' m' fs where r: "mapLoop p l attribute (i + 1) n (g2, m2) = Some (i + 1 + length fs, g', m')" "i + 1 + length fs \<le> n" "pool_inv m'" "extends g2 g' p"
        "\<forall>b. aligned b \<and> \<not> inWindow g2 p b \<longrightarrow> mapping g' p b = (mapping g2 p ++ frameMap attribute l (i + 1) fs) b"
        "distinct fs" "\<forall>x\<in>set fs. x < 2 ^ 32 \<and> x mod 4096 = 0 \<and> poolRefs m2 x = 0"
        "\<forall>x. poolRefs m' x + tableRefs g2 p x = poolRefs m2 x + tableRefs g' p x + count_list fs x"
        using Suc(1) [of "i + 1" g2 m2] wf2 s(2) map Suc(6,7) i d by (metis Suc_eq_plus1 Suc_leI)
      have old: "x \<noteq> a \<and> poolRefs m x = 0" if "poolRefs m2 x = 0" for x
      proof -
        have "poolRefs m1 x = 0" using extends_tableRefs [OF s(3), of x] s(6) [rule_format, of x] that by simp
        then show ?thesis using 2(7) by (auto split: if_splits)
      qed
      have "mapLoop p l attribute i n (g, m) = Some (i + length (a # fs), g', m')" using i 2(1,3) s(1) True r(1) by simp
      moreover have "mapping g' p b = (mapping g p ++ frameMap attribute l i (a # fs)) b" if b: "aligned b" "\<not> inWindow g p b" for b
      proof -
        have "mapping g' p b = (mapping g2 p ++ frameMap attribute l (i + 1) fs) b" using r(5) b extends_static(2) [OF s(3)] by simp
        moreover have "frameMap attribute l (i + 1) fs (pageAt l i) = None"
        proof -
          have "pageAt l i \<notin> pageAt l ` {i + 1..<i + 1 + length fs}" using pageAt_inj [of l i] r(2) Suc(6) by fastforce
          then show ?thesis unfolding frameMap_dom [symmetric, of l "i + 1" fs attribute] by auto
        qed
        ultimately show ?thesis using s(5) b True by (auto simp: map_add_def split: option.splits)
      qed
      moreover have "distinct (a # fs)" using r(6,7) old by auto
      moreover have "\<forall>x\<in>set (a # fs). x < 2 ^ 32 \<and> x mod 4096 = 0 \<and> poolRefs m x = 0" using r(7) old 2(4,5,6) by auto
      moreover have "poolRefs m' x + tableRefs g p x = poolRefs m x + tableRefs g' p x + count_list (a # fs) x" for x
        using r(8) [rule_format, of x] s(6) [rule_format, of x] 2(6,7) by (auto split: if_splits)
      ultimately show ?thesis using r(2,3) extends_trans [OF s(3) r(4)] by (intro exI [of _ g'] exI [of _ m'] exI [of _ "a # fs"]) auto
    qed
  qed
qed

lemma pde_present: "mapping g p a \<noteq> None \<Longrightarrow> isPresent (pdeByLinearAddress g p a) \<and> isPresent (pteByLinearAddress g p a) \<and> mapping g p a = Some (pteByLinearAddress g p a)"
  by (auto simp: mapping_def split: if_splits)

lemma invalidatePages_effect:
  assumes "paging_wf g" "\<forall>j<n. aligned (pageAt l j) \<and> mapping g p (pageAt l j) \<noteq> None" "n \<le> 2 ^ 20"
  shows "\<exists>g'. invalidatePages p l n g = Some g' \<and> extends g g' p \<and> tableRefs g' p = tableRefs g p \<and>
    (\<forall>b. aligned b \<longrightarrow> pteByLinearAddress g' p b = (if b \<in> pageAt l ` {..<n} then pteByLinearAddress g p b AND NOT 1 else pteByLinearAddress g p b) \<and>
      pdeByLinearAddress g' p b = pdeByLinearAddress g p b)"
  using assms
proof (induction n arbitrary: g)
  case 0
  then show ?case by (simp add: extends_refl)
next
  case (Suc n)
  let ?l = "pageAt l n" and ?g = "writePTE p (pageAt l n) (pteByLinearAddress g p (pageAt l n) AND NOT 1) g"
  have l: "aligned ?l" "mapping g p ?l \<noteq> None" using Suc.prems(2) by auto
  have run: "invalidatePage p ?l g = Some ?g" using pde_present [OF l(2)] by (simp add: invalidatePage_def invalidatePTE_def)
  have pte: "pteByLinearAddress ?g p b = (if b = ?l then pteByLinearAddress g p b AND NOT 1 else pteByLinearAddress g p b)" if "aligned b" for b
    using pte_writePTE [OF Suc.prems(1) l(1) that] by simp
  have "mapping ?g p (pageAt l j) \<noteq> None" if "j < n" for j
  proof -
    have "pageAt l j \<noteq> ?l" using pageAt_inj [of l j n] that Suc.prems(3) by auto
    then show ?thesis using Suc.prems(2) that pte [of "pageAt l j"] by (auto simp: mapping_def read_write split: if_splits)
  qed
  then have "\<forall>j<n. aligned (pageAt l j) \<and> mapping ?g p (pageAt l j) \<noteq> None" using Suc.prems(2) by simp
  from Suc.IH [OF _ this] Suc.prems(1,3) obtain g' where g': "invalidatePages p l n ?g = Some g'" "extends ?g g' p" "tableRefs g' p = tableRefs ?g p"
    "\<forall>b. aligned b \<longrightarrow> pteByLinearAddress g' p b = (if b \<in> pageAt l ` {..<n} then pteByLinearAddress ?g p b AND NOT 1 else pteByLinearAddress ?g p b) \<and>
      pdeByLinearAddress g' p b = pdeByLinearAddress ?g p b" by auto
  have "?l \<notin> pageAt l ` {..<n}" using pageAt_inj [of l n] Suc.prems(3) by fastforce
  then have "\<forall>b. aligned b \<longrightarrow> pteByLinearAddress g' p b = (if b \<in> pageAt l ` {..<Suc n} then pteByLinearAddress g p b AND NOT 1 else pteByLinearAddress g p b) \<and>
      pdeByLinearAddress g' p b = pdeByLinearAddress g p b"
    using g'(4) pte by (auto simp: lessThan_Suc read_write)
  then show ?case using run g'(1,3) extends_trans [OF extends_writePTE g'(2)] by simp
qed

lemma releasePages_releaseAll:
  assumes "\<forall>j<n. isPresent (pdeByLinearAddress g p (pageAt l j)) \<and> \<not> isPresent (pteByLinearAddress g p (pageAt l j))"
  shows "releasePages p l n (g, m) = fp.releaseAll (map (\<lambda>j. unat (GET_ENTRY_ADDRESS (pteByLinearAddress g p (pageAt l j)))) (rev [0..<n])) m"
  using assms
proof (induction n arbitrary: m)
  case (Suc n)
  then show ?case by (simp add: releaseInvalidatedPage_def)
qed simp

text \<open>Unmapping removes the pages from the mapping and one reference of each of their frames.\<close>

lemma unmapPage_entries:
  assumes wf: "paging_wf g" and inv: "pool_inv m" and n: "n \<le> 2 ^ 20" "length fs = n"
    and pages: "\<forall>j<n. aligned (pageAt l j) \<and> (\<exists>e. mapping g p (pageAt l j) = Some e \<and> unat (GET_ENTRY_ADDRESS e) = fs ! j)"
    and fs: "\<forall>x. count_list fs x \<le> poolRefs m x"
  shows "\<exists>g' m'. unmapPage p l (PAGE_SIZE * n) (g, m) = Some (g', m') \<and> pool_inv m' \<and> extends g g' p \<and> tableRefs g' p = tableRefs g p \<and>
    (\<forall>b. aligned b \<longrightarrow> mapping g' p b = (if b \<in> pageAt l ` {..<n} then None else mapping g p b)) \<and> (\<forall>x. poolRefs m x = poolRefs m' x + count_list fs x)"
proof -
  have "\<forall>j<n. aligned (pageAt l j) \<and> mapping g p (pageAt l j) \<noteq> None" using pages by auto
  from invalidatePages_effect [OF wf this n(1)] obtain g' where g': "invalidatePages p l n g = Some g'" "extends g g' p" "tableRefs g' p = tableRefs g p"
    "\<forall>b. aligned b \<longrightarrow> pteByLinearAddress g' p b = (if b \<in> pageAt l ` {..<n} then pteByLinearAddress g p b AND NOT 1 else pteByLinearAddress g p b) \<and>
      pdeByLinearAddress g' p b = pdeByLinearAddress g p b" by blast
  have e: "isPresent (pdeByLinearAddress g' p (pageAt l j)) \<and> \<not> isPresent (pteByLinearAddress g' p (pageAt l j)) \<and>
      unat (GET_ENTRY_ADDRESS (pteByLinearAddress g' p (pageAt l j))) = fs ! j" if "j < n" for j
  proof -
    obtain e where m: "mapping g p (pageAt l j) = Some e" "unat (GET_ENTRY_ADDRESS e) = fs ! j" "aligned (pageAt l j)" using pages \<open>j < n\<close> by blast
    have "pteByLinearAddress g' p (pageAt l j) = e AND NOT 1" "isPresent (pdeByLinearAddress g' p (pageAt l j))"
      using m pde_present [of g p "pageAt l j"] g'(4) that by auto
    then show ?thesis using m(2) by (simp only: invalidate_parts simp_thms)
  qed
  have "map (\<lambda>j. unat (GET_ENTRY_ADDRESS (pteByLinearAddress g' p (pageAt l j)))) (rev [0..<n]) = map (\<lambda>j. fs ! j) (rev [0..<n])" using e by simp
  also have "\<dots> = rev fs" using n(2) by (metis map_nth rev_map)
  finally have r: "releasePages p l n (g', m) = fp.releaseAll (rev fs) m" using releasePages_releaseAll [of n g' p l m] e by simp
  obtain m' where m': "fp.releaseAll (rev fs) m = Some m'" "pool_inv m'" "poolRefs m' = (\<lambda>a. poolRefs m a - count_list (rev fs) a)"
    using fp.releaseAll_balanced [OF inv, of "rev fs"] fs by auto
  have "mapping g' p b = (if b \<in> pageAt l ` {..<n} then None else mapping g p b)" if "aligned b" for b
    using g'(4) that by (auto simp: mapping_def invalidate_parts [simplified])
  then show ?thesis using g'(1-3) r m' fs by (simp add: unmapPage_def)
qed

lemma unmapPage_effect:
  assumes "paging_wf g" "pool_inv m" "n \<le> 2 ^ 20" "length fs = n"
    "\<forall>j<n. aligned (pageAt l j) \<and> mapping g p (pageAt l j) = Some (makeEntry attribute (of_nat (fs ! j)))"
    "\<forall>x\<in>set fs. x < 2 ^ 32 \<and> x mod 4096 = 0" "\<forall>x. count_list fs x \<le> poolRefs m x"
  shows "\<exists>g' m'. unmapPage p l (PAGE_SIZE * n) (g, m) = Some (g', m') \<and> pool_inv m' \<and> extends g g' p \<and> tableRefs g' p = tableRefs g p \<and>
    (\<forall>b. aligned b \<longrightarrow> mapping g' p b = (if b \<in> pageAt l ` {..<n} then None else mapping g p b)) \<and> (\<forall>x. poolRefs m x = poolRefs m' x + count_list fs x)"
proof (rule unmapPage_entries [OF assms(1-4) _ assms(7)])
  have "unat (GET_ENTRY_ADDRESS (makeEntry attribute (of_nat (fs ! j)))) = fs ! j" if "j < n" for j
  proof -
    have "fs ! j \<in> set fs" using that assms(4) by simp
    then have "aligned (of_nat (fs ! j))" "unat (of_nat (fs ! j) :: u32) = fs ! j" using assms(6) aligned_of_nat by (auto simp: unat_of_nat_small)
    then show ?thesis by (simp only: makeEntry_parts)
  qed
  then show "\<forall>j<n. aligned (pageAt l j) \<and> (\<exists>e. mapping g p (pageAt l j) = Some e \<and> unat (GET_ENTRY_ADDRESS e) = fs ! j)" using assms(5) by blast
qed

text \<open>What the mapping of a range does to the page tables, and to the references of frames.\<close>

definition remaps :: "nat \<Rightarrow> u32 \<Rightarrow> u32 \<Rightarrow> nat \<Rightarrow> nat list \<Rightarrow> paging \<Rightarrow> paging \<Rightarrow> bool" where
  "remaps p attribute l i fs g g' \<longleftrightarrow> extends g g' p \<and>
    (\<forall>b. aligned b \<and> \<not> inWindow g p b \<longrightarrow> mapping g' p b = (mapping g p ++ frameMap attribute l i fs) b)"

definition takes :: "nat \<Rightarrow> nat list \<Rightarrow> paging \<times> pmm \<Rightarrow> paging \<times> pmm \<Rightarrow> bool" where
  "takes p fs s s' \<longleftrightarrow> pool_inv (snd s') \<and>
    (\<forall>x. poolRefs (snd s') x + tableRefs (fst s) p x = poolRefs (snd s) x + tableRefs (fst s') p x + count_list fs x)"

lemma remaps_Nil: "remaps p attribute l i [] g g"
  by (simp add: remaps_def extends_refl)

lemma takes_Nil: "pool_inv m \<Longrightarrow> takes p [] (g, m) (g, m)"
  by (simp add: takes_def)

lemma frameMap_append: "frameMap attribute l i (fs @ fs') = frameMap attribute l (i + length fs) fs' ++ frameMap attribute l i fs"
  by (induction fs arbitrary: i) (simp_all add: map_add_upd)

lemma frameMap_apart:
  assumes "i + length fs + length fs' \<le> 2 ^ 20"
  shows "dom (frameMap attribute l i fs) \<inter> dom (frameMap attribute l (i + length fs) fs') = {}"
proof -
  have "pageAt l j \<noteq> pageAt l k" if "j < i + length fs" "i + length fs \<le> k" "k < i + length fs + length fs'" for j k
    using pageAt_inj [of l j k] that assms by auto
  then show ?thesis unfolding frameMap_dom by fastforce
qed

lemma remaps_append:
  assumes "remaps p attribute l i fs g g'" "remaps p attribute l (i + length fs) fs' g' g''" "i + length fs + length fs' \<le> 2 ^ 20"
  shows "remaps p attribute l i (fs @ fs') g g''"
proof -
  have e: "extends g g' p" "extends g' g'' p" using assms(1,2) by (simp_all add: remaps_def)
  have c: "frameMap attribute l i (fs @ fs') = frameMap attribute l i fs ++ frameMap attribute l (i + length fs) fs'"
    unfolding frameMap_append by (rule map_add_comm) (use frameMap_apart [OF assms(3), of attribute l] in blast)
  have "mapping g'' p b = (mapping g p ++ frameMap attribute l i (fs @ fs')) b" if "aligned b" "\<not> inWindow g p b" for b
    using assms(1,2) that extends_static(2) [OF e(1)] unfolding remaps_def c by (simp add: map_add_def split: option.splits)
  then show ?thesis using extends_trans [OF e] by (simp add: remaps_def)
qed

lemma takes_append:
  assumes "takes p fs s s'" "takes p fs' s' s''"
  shows "takes p (fs @ fs') s s''"
proof -
  have "poolRefs (snd s'') x + tableRefs (fst s) p x = poolRefs (snd s) x + tableRefs (fst s'') p x + count_list (fs @ fs') x" for x
    using assms by (auto simp: takes_def elim!: allE [of _ x])
  then show ?thesis using assms(2) by (simp add: takes_def)
qed

lemma takes_refs:
  assumes "takes p fs (g, m) (g', m')" "extends g g' p"
  shows "poolRefs m x + count_list fs x \<le> poolRefs m' x"
  using assms(1) extends_tableRefs [OF assms(2), of x] by (auto simp: takes_def elim!: allE [of _ x])

lemma setPage_remaps:
  assumes "paging_wf g" "pool_inv m" "mappable g p (pageAt l i)" "a < 2 ^ 32" "a mod 4096 = 0" "attribute AND 1 \<noteq> 0"
  shows "\<exists>ok g' m'. setPage p (pageAt l i) (of_nat a) attribute (g, m) = Some (ok, g', m') \<and> paging_wf g' \<and> pool_inv m' \<and> takes p [] (g, m) (g', m') \<and>
    (if ok then remaps p attribute l i [a] g g' else g' = g \<and> m' = m)"
proof -
  have al: "aligned (of_nat a)" by (rule aligned_of_nat [OF assms(4,5)])
  obtain ok g' m' where s: "setPage p (pageAt l i) (of_nat a) attribute (g, m) = Some (ok, g', m')" "pool_inv m'" "extends g g' p" "\<not> ok \<longrightarrow> g' = g \<and> m' = m"
    "\<forall>b. aligned b \<and> \<not> inWindow g p b \<longrightarrow> mapping g' p b = (if ok \<and> b = pageAt l i then Some (makeEntry attribute (of_nat a)) else mapping g p b)"
    "\<forall>x. poolRefs m' x + tableRefs g p x = poolRefs m x + tableRefs g' p x"
    using setPage_effect [OF assms(1-3) al assms(6)] by blast
  have "paging_wf g'" using assms(1) extends_static(1) [OF s(3)] by simp
  moreover have "remaps p attribute l i [a] g g'" if ok using s(3,5) that by (simp add: remaps_def)
  ultimately show ?thesis using s by (intro exI [of _ ok] exI [of _ g'] exI [of _ m']) (simp add: takes_def)
qed

text \<open>A range of frames.\<close>

abbreviation frameRange :: "nat \<Rightarrow> nat \<Rightarrow> nat \<Rightarrow> nat list" where
  "frameRange a i k \<equiv> map (\<lambda>j. a + PAGE_SIZE * j) [i..<k]"

lemma mapLoop_C_effect:
  assumes "paging_wf g" "pool_inv m" "\<forall>j<n. mappable g p (pageAt l j)" "n \<le> 2 ^ 20" "attribute AND 1 \<noteq> 0" "i \<le> n"
    "a mod 4096 = 0" "a + 4096 * n \<le> 2 ^ 32"
  shows "\<exists>k g' m'. mapLoop_C p l a attribute i n (g, m) = Some (k, g', m') \<and> i \<le> k \<and> k \<le> n \<and> paging_wf g' \<and> pool_inv m' \<and>
    remaps p attribute l i (frameRange a i k) g g' \<and> takes p [] (g, m) (g', m')"
  using assms
proof (induction "n - i" arbitrary: i g m)
  case 0
  then have "mapLoop_C p l a attribute i n (g, m) = Some (i, g, m)" by (simp add: mapLoop_C.simps)
  then show ?case using 0 remaps_Nil takes_Nil by (intro exI [of _ i] exI [of _ g] exI [of _ m]) simp
next
  case (Suc d)
  then have i: "i < n" by simp
  have f: "a + 4096 * i < 2 ^ 32" "(a + 4096 * i) mod 4096 = 0" using Suc.prems(7,8) i by (simp_all add: mod_add_right_eq)
  obtain ok g1 m1 where s: "setPage p (pageAt l i) (of_nat (a + 4096 * i)) attribute (g, m) = Some (ok, g1, m1)" "paging_wf g1" "pool_inv m1" "takes p [] (g, m) (g1, m1)"
    "if ok then remaps p attribute l i [a + 4096 * i] g g1 else g1 = g \<and> m1 = m"
    using setPage_remaps [OF Suc.prems(1,2) _ f Suc.prems(5)] Suc.prems(3) i by metis
  show ?case
  proof (cases ok)
    case False
    then have "mapLoop_C p l a attribute i n (g, m) = Some (i, g, m)" using s(1,5) i by (subst mapLoop_C.simps) (simp del: of_nat_add of_nat_mult)
    then show ?thesis using i Suc.prems(1,2) remaps_Nil takes_Nil by (intro exI [of _ i] exI [of _ g] exI [of _ m]) simp
  next
    case True
    then have r1: "remaps p attribute l i [a + 4096 * i] g g1" and d: "d = n - (i + 1)" using s(5) Suc.hyps(2) by simp_all
    have map: "\<forall>j<n. mappable g1 p (pageAt l j)" using Suc.prems(3) extends_static(6) r1 unfolding remaps_def by blast
    obtain k g' m' where r: "mapLoop_C p l a attribute (i + 1) n (g1, m1) = Some (k, g', m')" "i + 1 \<le> k" "k \<le> n" "paging_wf g'" "pool_inv m'"
      "remaps p attribute l (i + 1) (frameRange a (i + 1) k) g1 g'" "takes p [] (g1, m1) (g', m')"
      using Suc.hyps(1) [OF d s(2,3) map Suc.prems(4,5) _ Suc.prems(7,8)] i by auto
    have e: "frameRange a i k = [a + 4096 * i] @ frameRange a (i + 1) k" using r(2) by (simp add: upt_rec [of i k])
    have "remaps p attribute l i (frameRange a i k) g g'" unfolding e by (rule remaps_append [OF r1]) (use r(2,3,6) Suc.prems(4) in simp_all)
    moreover have "mapLoop_C p l a attribute i n (g, m) = Some (k, g', m')" using s(1) True r(1) i by (subst mapLoop_C.simps) (simp del: of_nat_add of_nat_mult)
    ultimately show ?thesis using r(2-5) takes_append [OF s(4) r(7)] by (intro exI [of _ k] exI [of _ g'] exI [of _ m']) simp
  qed
qed

lemma map1Page_LP_effect:
  assumes "paging_wf g" "pool_inv m" "mappable g p (pageAt l i)" "a < 2 ^ 32" "a mod 4096 = 0" "attribute AND 1 \<noteq> 0" "0 < poolRefs m a"
  shows "\<exists>ok g' m'. map1Page_LP p (pageAt l i) a attribute (g, m) = Some (ok, g', m') \<and> paging_wf g' \<and> pool_inv m' \<and>
    (if ok then remaps p attribute l i [a] g g' \<and> takes p [a] (g, m) (g', m') else g' = g \<and> poolRefs m' = poolRefs m)"
proof -
  obtain ok1 m1 where m1: "addPhysicalBlockReference m a = Some (ok1, m1)" "pool_inv m1" "poolRefs m1 = (if ok1 then (poolRefs m)(a := poolRefs m a + 1) else poolRefs m)"
    using fp.share_law [OF assms(2,7)] by blast
  obtain ok g2 m2 where s: "setPage p (pageAt l i) (of_nat a) attribute (g, m1) = Some (ok, g2, m2)" "paging_wf g2" "pool_inv m2" "takes p [] (g, m1) (g2, m2)"
    "if ok then remaps p attribute l i [a] g g2 else g2 = g \<and> m2 = m1"
    using setPage_remaps [OF assms(1) m1(2) assms(3-6)] by blast
  consider (no) "\<not> ok1" | (undo) ok1 "\<not> ok" | (yes) ok1 ok by blast
  then show ?thesis
  proof cases
    case no
    then show ?thesis using m1 assms(1) by (intro exI [of _ False] exI [of _ g] exI [of _ m1]) (simp add: map1Page_LP_def)
  next
    case undo
    then obtain m3 where "releasePhysicalBlock m1 a = Some m3" "pool_inv m3" "poolRefs m3 = poolRefs m"
      using fp.release_law [OF m1(2), of a] m1(3) by auto
    then show ?thesis using undo m1(1) s(1,5) assms(1) by (intro exI [of _ False] exI [of _ g] exI [of _ m3]) (simp add: map1Page_LP_def)
  next
    case yes
    have "takes p [a] (g, m) (g, m1)" using m1(2,3) yes by (simp add: takes_def)
    from takes_append [OF this s(4)] show ?thesis using yes m1(1) s by (intro exI [of _ True] exI [of _ g2] exI [of _ m2]) (simp add: map1Page_LP_def)
  qed
qed

lemma mapLoop_LP_effect:
  assumes "paging_wf g" "pool_inv m" "\<forall>j<n. mappable g p (pageAt l j)" "n \<le> 2 ^ 20" "attribute AND 1 \<noteq> 0" "i \<le> n"
    "a mod 4096 = 0" "a + 4096 * n \<le> 2 ^ 32" "\<forall>j<n. 0 < poolRefs m (a + 4096 * j)"
  shows "\<exists>k g' m'. mapLoop_LP p l a attribute i n (g, m) = Some (k, g', m') \<and> i \<le> k \<and> k \<le> n \<and> paging_wf g' \<and> pool_inv m' \<and>
    remaps p attribute l i (frameRange a i k) g g' \<and> takes p (frameRange a i k) (g, m) (g', m')"
  using assms
proof (induction "n - i" arbitrary: i g m)
  case 0
  then have "mapLoop_LP p l a attribute i n (g, m) = Some (i, g, m)" by (simp add: mapLoop_LP.simps)
  then show ?case using 0 remaps_Nil takes_Nil by (intro exI [of _ i] exI [of _ g] exI [of _ m]) simp
next
  case (Suc d)
  then have i: "i < n" by simp
  have f: "a + 4096 * i < 2 ^ 32" "(a + 4096 * i) mod 4096 = 0" using Suc.prems(7,8) i by (simp_all add: mod_add_right_eq)
  obtain ok g1 m1 where s: "map1Page_LP p (pageAt l i) (a + 4096 * i) attribute (g, m) = Some (ok, g1, m1)" "paging_wf g1" "pool_inv m1"
    "if ok then remaps p attribute l i [a + 4096 * i] g g1 \<and> takes p [a + 4096 * i] (g, m) (g1, m1) else g1 = g \<and> poolRefs m1 = poolRefs m"
    using map1Page_LP_effect [OF Suc.prems(1,2) _ f Suc.prems(5)] Suc.prems(3,9) i by metis
  show ?case
  proof (cases ok)
    case False
    then have "mapLoop_LP p l a attribute i n (g, m) = Some (i, g, m1)" using s(1,4) i by (subst mapLoop_LP.simps) simp
    then show ?thesis using i Suc.prems(1) s(3,4) False remaps_Nil by (intro exI [of _ i] exI [of _ g] exI [of _ m1]) (simp add: takes_def)
  next
    case True
    then have r1: "remaps p attribute l i [a + 4096 * i] g g1" "takes p [a + 4096 * i] (g, m) (g1, m1)" and d: "d = n - (i + 1)" using s(4) Suc.hyps(2) by simp_all
    have e1: "extends g g1 p" using r1(1) by (simp add: remaps_def)
    have map: "\<forall>j<n. mappable g1 p (pageAt l j)" using Suc.prems(3) extends_static(6) [OF e1] by blast
    have refs: "\<forall>j<n. 0 < poolRefs m1 (a + 4096 * j)" using Suc.prems(9) takes_refs [OF r1(2) e1] by (metis add_leD1 less_le_trans)
    obtain k g' m' where r: "mapLoop_LP p l a attribute (i + 1) n (g1, m1) = Some (k, g', m')" "i + 1 \<le> k" "k \<le> n" "paging_wf g'" "pool_inv m'"
      "remaps p attribute l (i + 1) (frameRange a (i + 1) k) g1 g'" "takes p (frameRange a (i + 1) k) (g1, m1) (g', m')"
      using Suc.hyps(1) [OF d s(2,3) map Suc.prems(4,5) _ Suc.prems(7,8) refs] i by auto
    have e: "frameRange a i k = [a + 4096 * i] @ frameRange a (i + 1) k" using r(2) by (simp add: upt_rec [of i k])
    have "remaps p attribute l i (frameRange a i k) g g'" unfolding e by (rule remaps_append [OF r1(1)]) (use r(2,3,6) Suc.prems(4) in simp_all)
    moreover have "mapLoop_LP p l a attribute i n (g, m) = Some (k, g', m')" using s(1) True r(1) i by (subst mapLoop_LP.simps) simp
    moreover have "takes p (frameRange a i k) (g, m) (g', m')" unfolding e by (rule takes_append [OF r1(2) r(7)])
    ultimately show ?thesis using r(2-5) by (intro exI [of _ k] exI [of _ g'] exI [of _ m']) simp
  qed
qed

section \<open>Theorems\<close>

lemma frameMap_image: "frameMap attribute l 0 fs b \<noteq> None \<longleftrightarrow> b \<in> pageAt l ` {..<length fs}"
  using frameMap_dom [of attribute l 0 fs] by (auto simp: atLeast0LessThan dom_def)

lemma translatePage_mapped:
  assumes "mapping g p a = Some (makeEntry attribute (of_nat f))" "f < 2 ^ 32" "f mod 4096 = 0" "(attribute AND 23) AND h = h"
  shows "translatePage g p a h = Some f"
proof -
  have "aligned (of_nat f)" by (rule aligned_of_nat [OF assms(2,3)])
  moreover have "pteByLinearAddress g p a = makeEntry attribute (of_nat f)" "isPresent (pdeByLinearAddress g p a)"
    using assms(1) pde_present [of g p a] by auto
  ultimately show ?thesis using assms(2,4) by (simp add: translatePage_def andPTEFlags_def makeEntry_parts unat_of_nat_small)
qed

lemma map_add_frames:
  assumes "\<forall>b. aligned b \<and> \<not> inWindow g p b \<longrightarrow> mapping g' p b = (mapping g p ++ frameMap attribute l 0 fs) b" "length fs \<le> n" "n \<le> 2 ^ 20"
    "\<forall>j<n. mappable g p (pageAt l j)"
  shows "\<forall>j<length fs. aligned (pageAt l j) \<and> mapping g' p (pageAt l j) = Some (makeEntry attribute (of_nat (fs ! j)))"
  using assms frameMap_nth [of _ fs 0 attribute l] by (auto simp: mappable_def map_add_def)

text \<open>The pages \<open>l\<close> to \<open>l + n * PAGE_SIZE\<close> are free for mapping.\<close>

definition free_range :: "paging \<Rightarrow> nat \<Rightarrow> u32 \<Rightarrow> nat \<Rightarrow> bool" where
  "free_range g p l n \<longleftrightarrow> n \<le> 2 ^ 20 \<and> (\<forall>j<n. mappable g p (pageAt l j) \<and> mapping g p (pageAt l j) = None)"

lemma unmap_remapped:
  assumes "paging_wf g'" "pool_inv m'" "remaps p attribute l 0 fs g g'" "takes p fs (g, m) (g', m')" "free_range g p l n" "length fs \<le> n"
    "\<forall>x\<in>set fs. x < 2 ^ 32 \<and> x mod 4096 = 0"
  shows "\<exists>g'' m''. unmapPage p l (PAGE_SIZE * length fs) (g', m') = Some (g'', m'') \<and> paging_wf g'' \<and> pool_inv m'' \<and>
    remaps p attribute l 0 [] g g'' \<and> takes p [] (g, m) (g'', m'')"
proof -
  have e: "extends g g' p" and n: "n \<le> 2 ^ 20" "\<forall>j<n. mappable g p (pageAt l j)" using assms(3,5) by (simp_all add: remaps_def free_range_def)
  have map: "\<forall>b. aligned b \<and> \<not> inWindow g p b \<longrightarrow> mapping g' p b = (mapping g p ++ frameMap attribute l 0 fs) b" using assms(3) by (simp add: remaps_def)
  have counts: "\<forall>x. count_list fs x \<le> poolRefs m' x" using takes_refs [OF assms(4) e] by (meson add_leD2)
  obtain g'' m'' where u: "unmapPage p l (PAGE_SIZE * length fs) (g', m') = Some (g'', m'')" "pool_inv m''" "extends g' g'' p" "tableRefs g'' p = tableRefs g' p"
    "\<forall>b. aligned b \<longrightarrow> mapping g'' p b = (if b \<in> pageAt l ` {..<length fs} then None else mapping g' p b)" "\<forall>x. poolRefs m' x = poolRefs m'' x + count_list fs x"
    using unmapPage_effect [OF assms(1,2) _ refl map_add_frames [OF map assms(6) n] assms(7) counts] assms(6) n(1) by auto
  have "mapping g'' p b = mapping g p b" if "aligned b" "\<not> inWindow g p b" for b
  proof (cases "b \<in> pageAt l ` {..<length fs}")
    case True
    then show ?thesis using u(5) that assms(5,6) by (auto simp: free_range_def)
  next
    case False
    then have "frameMap attribute l 0 fs b = None" using frameMap_image [of attribute l fs b] by simp
    then show ?thesis using u(5) map that False by (simp add: map_add_def)
  qed
  moreover have "poolRefs m'' x + tableRefs g p x = poolRefs m x + tableRefs g'' p x" for x using u(4,6) assms(4) by (auto simp: takes_def elim!: allE [of _ x])
  moreover have "paging_wf g''" using assms(1) extends_static(1) [OF u(3)] by simp
  ultimately show ?thesis using u(1,2) extends_trans [OF e u(3)] by (simp add: remaps_def takes_def)
qed

text \<open>The result of an attempt to map a range to the frames \<open>fs\<close>.\<close>

definition attempt :: "nat \<Rightarrow> u32 \<Rightarrow> u32 \<Rightarrow> nat \<Rightarrow> nat list \<Rightarrow> paging \<times> pmm \<Rightarrow> bool \<times> paging \<times> pmm \<Rightarrow> bool" where
  "attempt p attribute l n fs s r \<longleftrightarrow> (case r of (ok, g', m') \<Rightarrow> paging_wf g' \<and> pool_inv m' \<and> length fs = (if ok then n else 0) \<and>
    (\<forall>x\<in>set fs. x < 2 ^ 32 \<and> x mod 4096 = 0) \<and> remaps p attribute l 0 fs (fst s) g' \<and> takes p fs s (g', m'))"

lemma attempt_translate:
  assumes "attempt p attribute l n fs (g, m) (ok, g', m')" "free_range g p l n" "attribute AND 23 = attribute" "j < length fs"
  shows "translatePage g' p (pageAt l j) attribute = Some (fs ! j)"
proof -
  have "\<forall>b. aligned b \<and> \<not> inWindow g p b \<longrightarrow> mapping g' p b = (mapping g p ++ frameMap attribute l 0 fs) b" "length fs \<le> n" "n \<le> 2 ^ 20" "\<forall>j<n. mappable g p (pageAt l j)"
    using assms(1,2) by (auto simp: attempt_def remaps_def free_range_def)
  from map_add_frames [OF this] have "mapping g' p (pageAt l j) = Some (makeEntry attribute (of_nat (fs ! j)))" using assms(4) by simp
  moreover have "fs ! j < 2 ^ 32" "(fs ! j) mod 4096 = 0" using assms(1,4) by (auto simp: attempt_def)
  moreover have "(attribute AND 23) AND attribute = attribute" unfolding assms(3) by simp
  ultimately show ?thesis by (rule translatePage_mapped)
qed

lemma mapPage_L_effect:
  assumes wf: "paging_wf g" and inv: "pool_inv m" and attribute: "attribute AND 1 \<noteq> 0" and free: "free_range g p l n"
  shows "\<exists>r fs. mapPage_L p l (PAGE_SIZE * n) attribute (g, m) = Some r \<and> attempt p attribute l n fs (g, m) r \<and> distinct fs \<and> (\<forall>x\<in>set fs. poolRefs m x = 0)"
proof -
  have n: "n \<le> 2 ^ 20" "\<forall>j<n. mappable g p (pageAt l j)" using free by (simp_all add: free_range_def)
  obtain g1 m1 fs where r: "mapLoop p l attribute 0 n (g, m) = Some (length fs, g1, m1)" "length fs \<le> n" "pool_inv m1" "remaps p attribute l 0 fs g g1" "distinct fs"
    "\<forall>x\<in>set fs. x < 2 ^ 32 \<and> x mod 4096 = 0 \<and> poolRefs m x = 0" "takes p fs (g, m) (g1, m1)"
    using mapLoop_effect [OF wf inv n(2,1) attribute, of 0] unfolding remaps_def takes_def by auto
  have wf1: "paging_wf g1" using wf extends_static(1) [of g g1 p] r(4) by (simp add: remaps_def)
  show ?thesis
  proof (cases "length fs = n")
    case True
    then have "mapPage_L p l (PAGE_SIZE * n) attribute (g, m) = Some (True, g1, m1)" using r(1) by (simp add: mapPage_L_def del: mapLoop.simps)
    then show ?thesis using r(3-7) wf1 True by (intro exI [of _ "(True, g1, m1)"] exI [of _ fs]) (simp add: attempt_def)
  next
    case False
    obtain g2 m2 where u: "unmapPage p l (PAGE_SIZE * length fs) (g1, m1) = Some (g2, m2)" "paging_wf g2" "pool_inv m2" "remaps p attribute l 0 [] g g2" "takes p [] (g, m) (g2, m2)"
      using unmap_remapped [OF wf1 r(3,4,7) free r(2)] r(6) by auto
    have "mapPage_L p l (PAGE_SIZE * n) attribute (g, m) = Some (False, g2, m2)" using r(1,2) u(1) False by (simp add: mapPage_L_def del: mapLoop.simps)
    then show ?thesis using u(2-5) by (intro exI [of _ "(False, g2, m2)"] exI [of _ "[]"]) (simp add: attempt_def)
  qed
qed

lemma mapPage_LP_effect:
  assumes wf: "paging_wf g" and inv: "pool_inv m" and attribute: "attribute AND 1 \<noteq> 0" and free: "free_range g p l n"
    and a: "a mod 4096 = 0" "a + 4096 * n \<le> 2 ^ 32" "\<forall>j<n. 0 < poolRefs m (a + 4096 * j)"
  shows "\<exists>ok g' m'. mapPage_LP p l a (PAGE_SIZE * n) attribute (g, m) = Some (ok, g', m') \<and>
    attempt p attribute l n (if ok then frameRange a 0 n else []) (g, m) (ok, g', m')"
proof -
  have n: "n \<le> 2 ^ 20" "\<forall>j<n. mappable g p (pageAt l j)" and d: "DIV_CEIL (4096 * n) 4096 = n" using free by (simp_all add: free_range_def DIV_CEIL_def)
  obtain k g1 m1 where r: "mapLoop_LP p l a attribute 0 n (g, m) = Some (k, g1, m1)" "k \<le> n" "paging_wf g1" "pool_inv m1"
    "remaps p attribute l 0 (frameRange a 0 k) g g1" "takes p (frameRange a 0 k) (g, m) (g1, m1)"
    using mapLoop_LP_effect [OF wf inv n(2,1) attribute _ a, of 0] by auto
  have fs: "\<forall>x\<in>set (frameRange a 0 k). x < 2 ^ 32 \<and> x mod 4096 = 0" using a(1,2) r(2) by (auto simp: mod_add_right_eq)
  show ?thesis
  proof (cases "k = n")
    case True
    then have "mapPage_LP p l a (PAGE_SIZE * n) attribute (g, m) = Some (True, g1, m1)" using r(1) by (simp add: mapPage_LP_def d)
    then show ?thesis using r(3-6) fs True by (intro exI [of _ True] exI [of _ g1] exI [of _ m1]) (simp add: attempt_def)
  next
    case False
    obtain g2 m2 where u: "unmapPage p l (PAGE_SIZE * k) (g1, m1) = Some (g2, m2)" "paging_wf g2" "pool_inv m2" "remaps p attribute l 0 [] g g2" "takes p [] (g, m) (g2, m2)"
      using unmap_remapped [OF r(3-6) free _ fs] r(2) by auto
    have "mapPage_LP p l a (PAGE_SIZE * n) attribute (g, m) = Some (False, g2, m2)" using r(1,2) u(1) False by (simp add: mapPage_LP_def d)
    then show ?thesis using u(2-5) by (intro exI [of _ False] exI [of _ g2] exI [of _ m2]) (simp add: attempt_def)
  qed
qed

lemma releaseDown_releaseAll: "releaseDown a i d m = fp.releaseAll (rev (frameRange a i (i + d))) m"
proof (induction d arbitrary: m)
  case (Suc d)
  have "releaseDown a i d = fp.releaseAll (rev (frameRange a i (i + d)))" by (rule ext) (rule Suc)
  then show ?case by simp
qed simp

lemma takes_release:
  assumes "takes p [] (g, m1) (g', m')" "extends g g' p" "pool_inv m'" "\<forall>x. poolRefs m1 x = poolRefs m x + count_list (fs @ fs') x"
  shows "\<exists>m''. fp.releaseAll (rev fs') m' = Some m'' \<and> takes p fs (g, m) (g', m'')"
proof -
  have c: "count_list fs' x \<le> poolRefs m' x" for x using takes_refs [OF assms(1,2), of x] assms(4) by simp
  then obtain m'' where "fp.releaseAll (rev fs') m' = Some m''" "pool_inv m''" "poolRefs m'' = (\<lambda>x. poolRefs m' x - count_list fs' x)"
    using fp.releaseAll_balanced [OF assms(3), of "rev fs'"] by auto
  moreover from this have "poolRefs m'' x + tableRefs g p x = poolRefs m x + tableRefs g' p x + count_list fs x" for x
    using assms(1,4) c [of x] by (auto simp: takes_def elim!: allE [of _ x])
  ultimately show ?thesis by (simp add: takes_def)
qed

lemma count_distinct: "distinct xs \<Longrightarrow> count_list xs x = (if x \<in> set xs then 1 else 0)"
  by (induction xs) auto

lemma count_frameRange: "count_list (frameRange a 0 n) x = (if x \<in> (\<lambda>j. a + 4096 * j) ` {..<n} then 1 else 0)"
  using count_distinct [of "frameRange a 0 n" x] by (simp add: distinct_map inj_on_def atLeast0LessThan)

lemma mapContiguousPage_L_effect:
  assumes wf: "paging_wf g" and inv: "pool_inv m" and attribute: "attribute AND 1 \<noteq> 0" and free: "free_range g p l n" and pos: "0 < n"
  shows "\<exists>ok a g' m'. mapContiguousPage_L p l (PAGE_SIZE * n) attribute (g, m) = Some (ok, g', m') \<and>
    attempt p attribute l n (if ok then frameRange a 0 n else []) (g, m) (ok, g', m') \<and> (ok \<longrightarrow> (\<forall>j<n. poolRefs m (a + 4096 * j) = 0))"
proof -
  have n: "n \<le> 2 ^ 20" "\<forall>j<n. mappable g p (pageAt l j)" using free by (simp_all add: free_range_def)
  obtain a m1 where m1: "allocatePhysicalBlock m (4096 * n) 4096 = Some (a, m1)" "pool_inv m1" "a = INVALID_PAGE_ADDRESS \<and> m1 = m \<or>
    a + 4096 * n \<le> 2 ^ 32 \<and> a mod 4096 = 0 \<and> (\<forall>j<n. poolRefs m (a + 4096 * j) = 0) \<and>
    poolRefs m1 = (\<lambda>x. poolRefs m x + (if x \<in> (\<lambda>j. a + 4096 * j) ` {..<n} then 1 else 0))" using allocateFrames_refs [OF inv pos] by (elim exE conjE) (rule that)
  show ?thesis
  proof (cases "a = INVALID_PAGE_ADDRESS")
    case True
    then have "m1 = m" using m1(3) by (auto simp: INVALID_PAGE_ADDRESS_def)
    then have "mapContiguousPage_L p l (PAGE_SIZE * n) attribute (g, m) = Some (False, g, m)" using m1(1) True by (simp add: mapContiguousPage_L_def)
    then show ?thesis using wf inv remaps_Nil takes_Nil by (intro exI [of _ False] exI [of _ 0] exI [of _ g] exI [of _ m]) (simp add: attempt_def)
  next
    case False
    then have a: "a mod 4096 = 0" "a + 4096 * n \<le> 2 ^ 32" "\<forall>j<n. poolRefs m (a + 4096 * j) = 0" using m1(3) by auto
    have c1: "poolRefs m1 x = poolRefs m x + count_list (frameRange a 0 n) x" for x using m1(3) False unfolding count_frameRange by auto
    obtain k g1 m2 where r: "mapLoop_C p l a attribute 0 n (g, m1) = Some (k, g1, m2)" "k \<le> n" "paging_wf g1" "pool_inv m2"
      "remaps p attribute l 0 (frameRange a 0 k) g g1" "takes p [] (g, m1) (g1, m2)"
      using mapLoop_C_effect [OF wf m1(2) n(2,1) attribute _ a(1,2), of 0] by auto
    have e: "extends g g1 p" using r(5) by (simp add: remaps_def)
    have fs: "\<forall>x\<in>set (frameRange a 0 k). x < 2 ^ 32 \<and> x mod 4096 = 0" using a(1,2) r(2) by (auto simp: mod_add_right_eq)
    have "frameRange a 0 n = frameRange a 0 k @ frameRange a k n" using r(2) by (metis map_append upt_add_eq_append zero_le le_add_diff_inverse)
    then have "\<forall>x. poolRefs m1 x = poolRefs m x + count_list (frameRange a 0 k @ frameRange a k n) x" using c1 by simp
    from takes_release [OF r(6) e r(4) this] obtain m3 where m3: "fp.releaseAll (rev (frameRange a k n)) m2 = Some m3" "takes p (frameRange a 0 k) (g, m) (g1, m3)" by blast
    show ?thesis
    proof (cases "k = n")
      case True
      then have "mapContiguousPage_L p l (PAGE_SIZE * n) attribute (g, m) = Some (True, g1, m2)" using m1(1) False r(1) by (simp add: mapContiguousPage_L_def)
      moreover have "m3 = m2" using m3(1) True by simp
      ultimately show ?thesis using r(3-5) m3(2) fs a(3) True by (intro exI [of _ True] exI [of _ a] exI [of _ g1] exI [of _ m2]) (simp add: attempt_def)
    next
      case neq: False
      have i3: "pool_inv m3" using m3(2) by (simp add: takes_def)
      obtain g2 m4 where u: "unmapPage p l (PAGE_SIZE * k) (g1, m3) = Some (g2, m4)" "paging_wf g2" "pool_inv m4" "remaps p attribute l 0 [] g g2" "takes p [] (g, m) (g2, m4)"
        using unmap_remapped [OF r(3) i3 r(5) m3(2) free _ fs] r(2) by auto
      have "releaseDown a k (n - k) m2 = Some m3" using m3(1) r(2) by (simp add: releaseDown_releaseAll)
      then have "mapContiguousPage_L p l (PAGE_SIZE * n) attribute (g, m) = Some (False, g2, m4)"
        using m1(1) False r(1,2) neq u(1) by (simp add: mapContiguousPage_L_def)
      then show ?thesis using u(2-5) by (intro exI [of _ False] exI [of _ 0] exI [of _ g2] exI [of _ m4]) (simp add: attempt_def)
    qed
  qed
qed

text \<open>The concrete input of the examples: a directory without a table for the first 4 MiB, and frames of which some are free.\<close>

definition exampleManagers :: paging where
  "exampleManagers = \<lparr>managers = (\<lambda>k. \<lparr>physicalPD = 0x110000, reservedBase = 0xC0000000, reservedEnd = 0xC0800000, pdIndexBase = 256, page = 0xC0000000,
    pd = (\<lambda>i. if i = 0 then 0 else makeEntry KERNEL_PAGE 0x110000), pt = (\<lambda>i j. 0)\<rparr>),
    KERNEL_LINEAR_BEGIN = 0xC0000000, KERNEL_LINEAR_END = 0xFFFFF000\<rparr>"

lemma example_windowed: "windowed exampleManagers 0"
proof -
  have "unat (0xC0000000 + of_nat (4096 * (1 + i)) :: u32) = 0xC0000000 + 4096 * (1 + i)" if "i < 1024" for i
    using that by (simp add: unat_word_ariths unat_of_nat)
  then have "PD_INDEX (0xC0000000 + of_nat (4096 * (1 + i))) = (768 + (1 + i) div 1024) mod 1024 \<and> aligned (0xC0000000 + of_nat (4096 * (1 + i)))" if "i < 1024" for i
    using that by (simp add: PD_INDEX_def aligned_mod)
  moreover have "aligned 0x110000" by (simp add: aligned_def)
  ultimately show ?thesis unfolding windowed_def inWindow_def
    by (auto simp: exampleManagers_def pdeByLinearAddress_def isPresent_makeEntry div_less_iff_less_mult)
qed

lemma example_pages: "paging_wf exampleManagers" "free_range exampleManagers 0 0x1000 2"
proof -
  show "paging_wf exampleManagers" by (simp add: paging_wf_def exampleManagers_def)
  have "\<not> inWindow exampleManagers 0 a" if "a = 0x1000 \<or> a = 0x2000" for a
  proof -
    have "unat (0xC0000000 + of_nat (4096 * (1 + i)) :: u32) = 0xC0000000 + 4096 * (1 + i)" if "i < 1024" for i
      using that by (simp add: unat_word_ariths unat_of_nat)
    moreover have "unat a \<le> 0x2000" using that by auto
    ultimately show ?thesis unfolding inWindow_def by (force simp: exampleManagers_def)
  qed
  moreover have "pageAt 0x1000 j = 0x1000 \<or> pageAt 0x1000 j = 0x2000" if "j < 2" for j using that by (auto simp: pageAt_def less_Suc_eq numeral_2_eq_2)
  moreover have "aligned a \<and> \<not> isKernelLinearAddress exampleManagers a \<and> a < KERNEL_LINEAR_BEGIN exampleManagers \<and> \<not> isPresent (pdeByLinearAddress exampleManagers 0 a)"
    if "a = 0x1000 \<or> a = 0x2000" for a
    using that by (auto simp: exampleManagers_def aligned_def isKernelLinearAddress_def pdeByLinearAddress_def PD_INDEX_def isPresent_def)
  ultimately have "mappable exampleManagers 0 (pageAt 0x1000 j) \<and> mapping exampleManagers 0 (pageAt 0x1000 j) = None" if "j < 2" for j
    using example_windowed that unfolding mappable_def mapping_def by metis
  then show "free_range exampleManagers 0 0x1000 2" by (simp add: free_range_def)
qed

lemma example_fourUsed: "beginAddress fourUsed = 0x100000" "blockCount fourUsed = 4"
proof -
  have "beginAddress (fold initPhysicalMemoryBlock xs m) = beginAddress m" "blockCount (fold initPhysicalMemoryBlock xs m) = blockCount m" for xs m
    by (induction xs arbitrary: m) (simp_all add: initPhysicalMemoryBlock_def initMemoryBlock_def)
  then show "beginAddress fourUsed = 0x100000" "blockCount fourUsed = 4" by (simp_all add: fourUsed_def resetBlockArray_def)
qed

lemma example_pool: "pool_inv fourUsed"
  using fourUsed_inv(1) example_fourUsed by (simp add: pool_inv_def)

text \<open>C32: \<open>_mapPage_L\<close> maps a range of pages to fresh frames or changes nothing. If it succeeds, each page translates to a frame of its own
  that was not in use and now has one reference; if memory is short at any page, the pages mapped so far are unmapped again. In both cases
  every other page outside the window of the page tables keeps its mapping, and the only other references that appear are those of the
  directory to new page tables.\<close>

theorem mapPage_L_correct:
  assumes "paging_wf g" "pool_inv m" "attribute AND 1 \<noteq> 0" "attribute AND 23 = attribute" "free_range g p l n"
  shows "\<exists>ok g' m' fs. mapPage_L p l (PAGE_SIZE * n) attribute (g, m) = Some (ok, g', m') \<and> pool_inv m' \<and> paging_wf g' \<and> extends g g' p \<and>
    length fs = (if ok then n else 0) \<and> distinct fs \<and> (\<forall>x\<in>set fs. poolRefs m x = 0) \<and>
    (\<forall>j<length fs. translatePage g' p (pageAt l j) attribute = Some (fs ! j)) \<and>
    (\<forall>b. aligned b \<and> \<not> inWindow g p b \<longrightarrow> mapping g' p b = (mapping g p ++ frameMap attribute l 0 fs) b) \<and>
    (\<forall>x. poolRefs m' x + tableRefs g p x = poolRefs m x + tableRefs g' p x + count_list fs x)"
proof -
  obtain ok g' m' fs where r: "mapPage_L p l (PAGE_SIZE * n) attribute (g, m) = Some (ok, g', m')" "attempt p attribute l n fs (g, m) (ok, g', m')"
    "distinct fs" "\<forall>x\<in>set fs. poolRefs m x = 0" using mapPage_L_effect [OF assms(1-3,5)] by auto
  then show ?thesis using attempt_translate [OF r(2) assms(5,4)]
    by (intro exI [of _ ok] exI [of _ g'] exI [of _ m'] exI [of _ fs]) (simp add: attempt_def remaps_def takes_def)
qed

theorem mapPage_L_correct_witness:
  "\<exists>ok g' m'. mapPage_L 0 0x1000 8192 3 (exampleManagers, fourUsed) = Some (ok, g', m') \<and> pool_inv m' \<and> paging_wf g'"
proof -
  have flags: "(3 :: u32) AND 1 \<noteq> 0" "(3 :: u32) AND 23 = 3" and size: "PAGE_SIZE * 2 = 8192" by simp_all
  show ?thesis using mapPage_L_correct [OF example_pages(1) example_pool flags example_pages(2)] unfolding size by blast
qed

text \<open>Unmapping what was mapped restores the mapping, and every reference except those of the directory to page tables.\<close>

lemma map_unmap_roundtrip:
  assumes "paging_wf g" "pool_inv m" "attribute AND 1 \<noteq> 0" "free_range g p l n"
  shows "\<exists>ok g' m' g'' m''. mapPage_L p l (PAGE_SIZE * n) attribute (g, m) = Some (ok, g', m') \<and>
    (if ok then unmapPage p l (PAGE_SIZE * n) (g', m') else Some (g', m')) = Some (g'', m'') \<and> pool_inv m'' \<and>
    (\<forall>b. aligned b \<and> \<not> inWindow g p b \<longrightarrow> mapping g'' p b = mapping g p b) \<and> (\<forall>x. poolRefs m'' x + tableRefs g p x = poolRefs m x + tableRefs g'' p x)"
proof -
  obtain ok g1 m1 fs where r: "mapPage_L p l (PAGE_SIZE * n) attribute (g, m) = Some (ok, g1, m1)" "attempt p attribute l n fs (g, m) (ok, g1, m1)"
    using mapPage_L_effect [OF assms] by auto
  show ?thesis
  proof (cases ok)
    case True
    then have "length fs = n" using r(2) by (simp add: attempt_def)
    then obtain g2 m2 where "unmapPage p l (PAGE_SIZE * n) (g1, m1) = Some (g2, m2)" "pool_inv m2" "remaps p attribute l 0 [] g g2" "takes p [] (g, m) (g2, m2)"
      using unmap_remapped [of g1 m1 p attribute l fs g m n] r(2) assms(4) by (auto simp: attempt_def)
    then show ?thesis using r(1) True by (intro exI [of _ True] exI [of _ g1] exI [of _ m1] exI [of _ g2] exI [of _ m2]) (simp add: remaps_def takes_def)
  next
    case False
    then have "fs = []" using r(2) by (simp add: attempt_def)
    then show ?thesis using r False by (intro exI [of _ False] exI [of _ g1] exI [of _ m1] exI [of _ g1] exI [of _ m1]) (simp add: attempt_def remaps_def takes_def)
  qed
qed

end
