(* ===== verification/MemoryManager.thy ===== *)
theory MemoryManager
  imports LinearBlock Paging
begin

unbundle bit_operations_syntax

text \<open>
  The memory managers that combine linear blocks, page tables and frames, \<open>kernel/memory/memorymanager.c\<close>, with the operations of
  \<open>linearblock.c\<close> over the page tables of \<open>Paging\<close>. All managers take frames from one pool; manager number \<open>p\<close> has the blocks \<open>blocks M p\<close>
  and the page manager \<open>p\<close>, and number 0 is \<open>kernelLinear\<close>. A null pointer is the address 0.
\<close>

record memory =
  pool :: pmm
  tables :: paging
  blocks :: "nat \<Rightarrow> lmm"

definition setBlocks :: "nat \<Rightarrow> lmm \<Rightarrow> memory \<Rightarrow> memory" where
  "setBlocks p bm M = M\<lparr>blocks := (blocks M)(p := bm)\<rparr>"

definition setTables :: "paging \<times> pmm \<Rightarrow> memory \<Rightarrow> memory" where
  "setTables s M = M\<lparr>tables := fst s, pool := snd s\<rparr>"

lemma memory_simps [simp]:
  "blocks (setBlocks p bm M) = (blocks M)(p := bm)" "tables (setBlocks p bm M) = tables M" "pool (setBlocks p bm M) = pool M"
  "blocks (setTables s M) = blocks M" "tables (setTables s M) = fst s" "pool (setTables s M) = snd s"
  by (simp_all add: setBlocks_def setTables_def)

section \<open>Linear blocks over page tables\<close>

text \<open>\<open>extendLinearBlock_noLock\<close> with the pages of the block array it maps.\<close>

function extendLoopM :: "nat \<Rightarrow> nat \<Rightarrow> nat \<Rightarrow> memory \<Rightarrow> memory option" where
  "extendLoopM p newBlockCount exPage M = (if blockCount (blocks M p) < newBlockCount then
      (let bm = blocks M p; lastBlock = blockCount bm;
           needPage = indexToElement bm lastBlock + 20 > exPage in
       case (if needPage then mapPage_L p (of_nat exPage) PAGE_SIZE KERNEL_PAGE (tables M, pool M) else Some (True, tables M, pool M)) of
         None \<Rightarrow> None
       | Some (ok, s) \<Rightarrow>
           if \<not> ok then Some (setTables s M)
           else (case releaseBlock_noLock
               (setStatus lastBlock MEMORY_FREE_OR_COVERED
                 (initLinearMemoryBlock lastBlock (bm\<lparr>blockCount := blockCount bm + 1\<rparr>))) lastBlock of
             None \<Rightarrow> None
           | Some bm' \<Rightarrow> extendLoopM p newBlockCount (if needPage then exPage + 4096 else exPage) (setBlocks p bm' (setTables s M))))
    else Some M)"
  by pat_completeness auto
termination
  by (relation "measure (\<lambda>(p, n, e, M). n - blockCount (blocks M p))")
    (auto dest!: releaseBlock_noLock_blockCount simp: setStatus_def initLinearMemoryBlock_def initMemoryBlock_def)

declare extendLoopM.simps [simp del]

definition extendLinearBlockM :: "nat \<Rightarrow> nat \<Rightarrow> memory \<Rightarrow> (bool \<times> memory) option" where
  "extendLinearBlockM p exCount M = do {
    let bm = blocks M p;
    let newBlockCount = blockCount bm + exCount;
    M \<leftarrow> extendLoopM p newBlockCount (CEIL (indexToElement bm (blockCount bm)) 4096) M;
    Some (blockCount (blocks M p) \<ge> newBlockCount, M)
  }"

definition allocateLinearBlockM :: "nat \<Rightarrow> nat \<Rightarrow> memory \<Rightarrow> (nat \<times> memory) option" where
  "allocateLinearBlockM p s M = do {
    bm \<leftarrow> acquireLock (blocks M p);
    (block, bm) \<leftarrow> allocateBlock_noLock bm s s;
    let M = setBlocks p bm M;
    (block, M) \<leftarrow> (if block \<noteq> None then Some (block, M) else do {
      exCount \<leftarrow> getExtendBlockCount bm s;
      if exCount = 0 then Some (None, M) else do {
        (ok, M) \<leftarrow> extendLinearBlockM p exCount M;
        if \<not> ok then Some (None, M) else do {
          (block, bm) \<leftarrow> allocateBlock_noLock (blocks M p) s s;
          Some (block, setBlocks p bm M)
        }
      }
    });
    let bm = blocks M p;
    (case block of
      None \<Rightarrow> do {
        bm \<leftarrow> releaseLock bm;
        Some (INVALID_PAGE_ADDRESS, setBlocks p bm M)
      }
    | Some b \<Rightarrow> do {
        let bm = bm\<lparr>mappedSize := (mappedSize bm)(b := s)\<rparr>;
        kassert (status bm b = MEMORY_FREE_OR_COVERED);
        bm \<leftarrow> releaseLock (setStatus b MEMORY_LOCKED bm);
        Some (indexToAddress bm b, setBlocks p bm M)
      })
  }"

definition commitM :: "nat \<Rightarrow> nat \<Rightarrow> memory \<Rightarrow> memory option" where
  "commitM p linearAddress M = map_option (\<lambda>bm. setBlocks p bm M) (commitAllocatingLinearBlock (blocks M p) linearAddress)"

definition releaseLinearM :: "nat \<Rightarrow> nat \<Rightarrow> memory \<Rightarrow> memory option" where
  "releaseLinearM p linearAddress M = map_option (\<lambda>bm. setBlocks p bm M) (releaseLinearBlock (blocks M p) linearAddress)"

text \<open>\<open>checkAndReleaseLinearBlock\<close>: the pages are unmapped between its two critical sections.\<close>

definition checkAndReleaseLinearBlockM :: "nat \<Rightarrow> nat \<Rightarrow> memory \<Rightarrow> (bool \<times> memory) option" where
  "checkAndReleaseLinearBlockM p linearAddress M = do {
    (r, bm) \<leftarrow> beginRelease (blocks M p) linearAddress;
    let M = setBlocks p bm M;
    if \<not> r then Some (False, M) else do {
      s \<leftarrow> getAllocatedBlockSize bm linearAddress;
      t \<leftarrow> unmapPage p (of_nat linearAddress) s (tables M, pool M);
      bm \<leftarrow> endRelease bm linearAddress;
      Some (True, setBlocks p bm (setTables t M))
    }
  }"

text \<open>\<open>checkAndTranslateBlock\<close>; kernel addresses belong to \<open>kernelLinear\<close>.\<close>

definition checkAndTranslateM :: "nat \<Rightarrow> nat \<Rightarrow> u32 \<Rightarrow> bool \<Rightarrow> memory \<Rightarrow> (nat \<times> memory) option" where
  "checkAndTranslateM p linearAddress hasAttribute doReserve M = (let
      q = (if isKernelLinearAddress (tables M) (of_nat linearAddress) then 0 else p);
      translate = (\<lambda>a. case translatePage (tables M) q (of_nat a) hasAttribute of None \<Rightarrow> INVALID_PAGE_ADDRESS | Some x \<Rightarrow> x) in
    do {
      (x, m) \<leftarrow> checkAndTranslateBlock translate \<lparr>physical = pool M, linear = blocks M q\<rparr> linearAddress doReserve;
      Some (x, setBlocks q (linear m) (setTables (tables M, physical m) M))
    })"

section \<open>Operations on pages\<close>

definition mapPages :: "nat \<Rightarrow> nat \<Rightarrow> nat \<Rightarrow> u32 \<Rightarrow> memory \<Rightarrow> (nat \<times> memory) option" where
  "mapPages p physicalAddress sz attribute M = do {
    kassert (sz mod PAGE_SIZE = 0);
    (linearAddress, M) \<leftarrow> allocateLinearBlockM p sz M;
    if linearAddress = INVALID_PAGE_ADDRESS then Some (0, M)
    else do {
      kassert (linearAddress mod PAGE_SIZE = 0 \<and> sz \<noteq> 0);
      (ok, s) \<leftarrow> mapPage_LP p (of_nat linearAddress) physicalAddress sz attribute (tables M, pool M);
      let M = setTables s M;
      if ok then do { M \<leftarrow> commitM p linearAddress M; Some (linearAddress, M) }
      else do { M \<leftarrow> releaseLinearM p linearAddress M; Some (0, M) }
    }
  }"

text \<open>The loop of \<open>checkAndMapExistingPages\<close> from page \<open>i\<close> to \<open>n\<close>; it returns the number of the page it could not map, or \<open>n\<close>.\<close>

function mapExistingLoop :: "nat \<Rightarrow> nat \<Rightarrow> nat \<Rightarrow> nat \<Rightarrow> u32 \<Rightarrow> u32 \<Rightarrow> nat \<Rightarrow> nat \<Rightarrow> memory \<Rightarrow> (nat \<times> memory) option" where
  "mapExistingLoop dst src dstLinear srcLinear attribute srcHasAttribute i n M =
    (if i < n then do {
       (x, M) \<leftarrow> checkAndTranslateM src (srcLinear + PAGE_SIZE * i) srcHasAttribute True M;
       if x = INVALID_PAGE_ADDRESS then Some (i, M)
       else do {
         (ok, s) \<leftarrow> mapPage_LP dst (pageAt (of_nat dstLinear) i) x PAGE_SIZE attribute (tables M, pool M);
         m \<leftarrow> releasePhysicalBlock (snd s) x;
         let M = setTables (fst s, m) M;
         if \<not> ok then Some (i, M) else mapExistingLoop dst src dstLinear srcLinear attribute srcHasAttribute (i + 1) n M
       }
     } else Some (i, M))"
  by pat_completeness auto
termination
  by (relation "measure (\<lambda>(dst, src, d, s, a, h, i, n, M). n - i)") auto

declare mapExistingLoop.simps [simp del]

definition checkAndMapExistingPages :: "nat \<Rightarrow> nat \<Rightarrow> nat \<Rightarrow> nat \<Rightarrow> u32 \<Rightarrow> u32 \<Rightarrow> memory \<Rightarrow> (nat \<times> memory) option" where
  "checkAndMapExistingPages dst src srcLinear sz attribute srcHasAttribute M = do {
    let src = (if isKernelLinearAddress (tables M) (of_nat srcLinear) then 0 else src);
    kassert (dst = 0 \<or> src = 0);
    (dstLinear, M) \<leftarrow> allocateLinearBlockM dst sz M;
    if dstLinear = INVALID_PAGE_ADDRESS then Some (0, M)
    else do {
      (i, M) \<leftarrow> mapExistingLoop dst src dstLinear srcLinear attribute srcHasAttribute 0 (DIV_CEIL sz PAGE_SIZE) M;
      if PAGE_SIZE * i = sz then do { M \<leftarrow> commitM dst dstLinear M; Some (dstLinear, M) }
      else do {
        s \<leftarrow> unmapPage dst (of_nat dstLinear) (PAGE_SIZE * i) (tables M, pool M);
        M \<leftarrow> releaseLinearM dst dstLinear (setTables s M);
        Some (0, M)
      }
    }
  }"

definition unmapPages :: "nat \<Rightarrow> nat \<Rightarrow> memory \<Rightarrow> memory option" where
  "unmapPages p linearAddress M = do {
    s \<leftarrow> getAllocatedBlockSize (blocks M p) linearAddress;
    t \<leftarrow> unmapPage p (of_nat linearAddress) s (tables M, pool M);
    releaseLinearM p linearAddress (setTables t M)
  }"

definition checkAndUnmapPages :: "nat \<Rightarrow> nat \<Rightarrow> memory \<Rightarrow> (bool \<times> memory) option" where
  "checkAndUnmapPages p linearAddress M = checkAndReleaseLinearBlockM p linearAddress M"

definition releaseReservedPage :: "nat \<Rightarrow> memory \<Rightarrow> memory option" where
  "releaseReservedPage physicalAddress M = map_option (\<lambda>m. setTables (tables M, m) M) (releasePhysicalBlock (pool M) physicalAddress)"

text \<open>\<open>_allocatePages\<close>.\<close>

definition allocatePagesM :: "nat \<Rightarrow> nat \<Rightarrow> bool \<Rightarrow> u32 \<Rightarrow> memory \<Rightarrow> (nat \<times> memory) option" where
  "allocatePagesM p sz contiguous attribute M = do {
    (linearAddress, M) \<leftarrow> allocateLinearBlockM p sz M;
    if linearAddress = INVALID_PAGE_ADDRESS then Some (0, M)
    else do {
      (ok, s) \<leftarrow> (if contiguous then mapContiguousPage_L p (of_nat linearAddress) sz attribute (tables M, pool M)
        else mapPage_L p (of_nat linearAddress) sz attribute (tables M, pool M));
      let M = setTables s M;
      if ok then do { M \<leftarrow> commitM p linearAddress M; Some (linearAddress, M) }
      else do { M \<leftarrow> releaseLinearM p linearAddress M; Some (0, M) }
    }
  }"

definition allocatePages :: "nat \<Rightarrow> nat \<Rightarrow> u32 \<Rightarrow> memory \<Rightarrow> (nat \<times> memory) option" where
  "allocatePages p sz attribute M = allocatePagesM p sz False attribute M"

definition allocateContiguousPages :: "nat \<Rightarrow> nat \<Rightarrow> u32 \<Rightarrow> memory \<Rightarrow> (nat \<times> memory) option" where
  "allocateContiguousPages p sz attribute M = allocatePagesM p sz True attribute M"

definition allocateKernelPages :: "nat \<Rightarrow> u32 \<Rightarrow> memory \<Rightarrow> (nat \<times> memory) option" where
  "allocateKernelPages sz attribute M = allocatePages 0 sz attribute M"

definition checkAndReleasePages :: "nat \<Rightarrow> nat \<Rightarrow> memory \<Rightarrow> (bool \<times> memory) option" where
  "checkAndReleasePages p linearAddress M = checkAndReleaseLinearBlockM p linearAddress M"

definition checkAndReleaseKernelPages :: "nat \<Rightarrow> memory \<Rightarrow> (bool \<times> memory) option" where
  "checkAndReleaseKernelPages linearAddress M = checkAndReleasePages 0 linearAddress M"

section \<open>Initialisation\<close>

text \<open>An entry of the memory map that the BIOS gives.\<close>

record AddressRange =
  rangeBase :: u64
  rangeSize :: u64
  rangeType :: u32

abbreviation (input) USABLE :: u32 where "USABLE \<equiv> 1"
abbreviation (input) RESERVED :: u32 where "RESERVED \<equiv> 2"

abbreviation (input) OS_MAX_ADDRESS :: u32 where "OS_MAX_ADDRESS \<equiv> 0xfffff000"

definition findMaxAddress :: "AddressRange list \<Rightarrow> u32" where
  "findMaxAddress addressRange = (let maxAddr = fold (\<lambda>ar maxAddr.
       if rangeType ar = USABLE \<and> rangeSize ar \<noteq> 0 \<and> maxAddr < rangeBase ar + rangeSize ar - 1 then rangeBase ar + rangeSize ar - 1 else maxAddr) addressRange 0 in
     if maxAddr \<ge> ucast OS_MAX_ADDRESS then OS_MAX_ADDRESS else ucast (maxAddr + 1))"

text \<open>The loop ends at the first range that makes the frame unusable.\<close>

fun usableLoop :: "u32 \<Rightarrow> bool \<Rightarrow> AddressRange list \<Rightarrow> bool" where
  "usableLoop address isInUsable [] = isInUsable"
| "usableLoop address isInUsable (ar # ars) = (let
      inUsable = (isInUsable \<or> rangeType ar = USABLE \<and> rangeBase ar \<le> ucast address \<and> rangeBase ar + rangeSize ar \<ge> ucast (address + 4096));
      inUnusable = (rangeType ar \<noteq> USABLE \<and> \<not> (rangeBase ar \<ge> ucast (address + 4096) \<or> rangeBase ar + rangeSize ar \<le> ucast address)) in
    if inUnusable then False else usableLoop address inUsable ars)"

definition isUsableInAddressRange :: "u32 \<Rightarrow> AddressRange list \<Rightarrow> AddressRange list \<Rightarrow> bool" where
  "isUsableInAddressRange address arArray1 arArray2 = usableLoop address False (arArray1 @ arArray2)"

fun releaseUsable :: "(u32 \<Rightarrow> bool) \<Rightarrow> u32 \<Rightarrow> nat list \<Rightarrow> pmm \<Rightarrow> pmm option" where
  "releaseUsable usable minAddress [] m = Some m"
| "releaseUsable usable minAddress (b # bs) m = (let address = minAddress + of_nat (b * 4096) in do {
    kassert (address + 4096 > address);
    m \<leftarrow> (if usable address then releasePhysicalBlock m (unat address) else Some m);
    releaseUsable usable minAddress bs m
  })"

text \<open>\<open>structSize\<close> is the size of the structure of the manager, \<open>pm\<close> or \<open>bm\<close> the memory where it is created, with the address of its block array,
  and \<open>kernelBegin\<close> is \<open>KERNEL_LINEAR_BEGIN\<close>.\<close>

definition initKernelPhysicalBlock ::
    "nat \<Rightarrow> pmm \<Rightarrow> AddressRange list \<Rightarrow> u32 \<Rightarrow> u32 \<Rightarrow> u32 \<Rightarrow> u32 \<Rightarrow> u32 \<Rightarrow> u32 \<Rightarrow> (nat \<times> pmm) option" where
  "initKernelPhysicalBlock structSize pm addressRange kernelBegin manageBase manageBegin manageEnd minAddress maxAddress = do {
    m \<leftarrow> createPhysicalMemoryBlockManager structSize pm (unat (manageEnd - manageBegin)) (unat minAddress) (unat maxAddress);
    let extraAR = [\<lparr>rangeBase = ucast (manageBase - kernelBegin), rangeSize = ucast (manageEnd - manageBase), rangeType = RESERVED\<rparr>];
    m \<leftarrow> releaseUsable (\<lambda>address. isUsableInAddressRange address addressRange extraAR) minAddress [0..<getPhysicalBlockCount m] m;
    Some (unat manageBegin + getPhysicalBlockManagerSize structSize m, m)
  }"

fun releaseUsableLinear :: "(u32 \<Rightarrow> bool) \<Rightarrow> u32 \<Rightarrow> nat list \<Rightarrow> lmm \<Rightarrow> lmm option" where
  "releaseUsableLinear usable minAddress [] m = Some m"
| "releaseUsableLinear usable minAddress (b # bs) m = (let address = minAddress + of_nat (b * 4096) in do {
    kassert (address + 4096 > address);
    m \<leftarrow> (if usable address then releaseLinearBlock m (unat address) else Some m);
    releaseUsableLinear usable minAddress bs m
  })"

definition initKernelLinearBlock :: "nat \<Rightarrow> lmm \<Rightarrow> u32 \<Rightarrow> u32 \<Rightarrow> u32 \<Rightarrow> u32 \<Rightarrow> u32 \<Rightarrow> (nat \<times> lmm) option" where
  "initKernelLinearBlock structSize bm manageBase manageBegin manageEnd minAddress maxAddress = do {
    m \<leftarrow> createLinearBlockManager structSize bm (unat (manageEnd - manageBegin)) (unat minAddress) (unat maxAddress) (unat maxAddress);
    let extraAR = [\<lparr>rangeBase = ucast manageBase, rangeSize = ucast (manageEnd - manageBase), rangeType = RESERVED\<rparr>,
      \<lparr>rangeBase = ucast minAddress, rangeSize = ucast maxAddress, rangeType = USABLE\<rparr>];
    m \<leftarrow> releaseUsableLinear (\<lambda>address. isUsableInAddressRange address [] extraAR) minAddress [0..<getMaxBlockCount m] m;
    let newManageBegin = unat manageBegin + getMaxLinearBlockManagerSize structSize m;
    e \<leftarrow> evaluateLinearBlockEnd bm (unat minAddress) (unat maxAddress);
    kassert (e = newManageBegin);
    Some (newManageBegin, m)
  }"

section \<open>The two models of growing agree\<close>

text \<open>Every run over page tables is a run of \<open>LinearBlock\<close> for some answers of \<open>_mapPage_L\<close>, so that what is proved there for all answers holds
  here.\<close>

lemma extendLoop_cong:
  assumes "\<forall>a\<ge>exPage. f a = f' a"
  shows "extendLoop f n exPage bm = extendLoop f' n exPage bm"
  using assms
proof (induction f n exPage bm rule: extendLoop.induct)
  case (1 mapPage n e bm)
  have f: "mapPage e = f' e" using 1(2) by simp
  have "extendLoop mapPage n (if q then e + 4096 else e) bm' = extendLoop f' n (if q then e + 4096 else e) bm'"
    if "blockCount bm < n" "\<not> (q \<and> \<not> mapPage e)" "q = (indexToElement bm (blockCount bm) + 20 > e)"
      "releaseBlock_noLock (setStatus (blockCount bm) MEMORY_FREE_OR_COVERED (initLinearMemoryBlock (blockCount bm) (bm\<lparr>blockCount := blockCount bm + 1\<rparr>))) (blockCount bm) = Some bm'" for q bm'
    using 1(1) [OF that(1) refl that(3)] that 1(2) by auto
  then show ?case unfolding extendLoop.simps [of mapPage n e bm] extendLoop.simps [of f' n e bm] Let_def f by (auto split: option.splits)
qed

lemma extendLoopM_oracle:
  assumes "extendLoopM p n exPage M = Some M'"
  shows "\<exists>f. extendLoop f n exPage (blocks M p) = Some (blocks M' p)"
  using assms
proof (induction p n exPage M rule: extendLoopM.induct)
  case (1 p n e M)
  let ?bm = "blocks M p"
  let ?q = "indexToElement ?bm (blockCount ?bm) + 20 > e"
  let ?new = "releaseBlock_noLock (setStatus (blockCount ?bm) MEMORY_FREE_OR_COVERED (initLinearMemoryBlock (blockCount ?bm) (?bm\<lparr>blockCount := blockCount ?bm + 1\<rparr>))) (blockCount ?bm)"
  show ?case
  proof (cases "blockCount ?bm < n")
    case False
    then show ?thesis using 1(2) by (simp add: extendLoopM.simps extendLoop.simps)
  next
    case True
    obtain ok s where s: "(if ?q then mapPage_L p (of_nat e) PAGE_SIZE KERNEL_PAGE (tables M, pool M) else Some (True, tables M, pool M)) = Some (ok, s)"
      using 1(2) True by (subst (asm) extendLoopM.simps) (auto simp: Let_def split: option.splits)
    show ?thesis
    proof (cases ok)
      case False
      then have "M' = setTables s M" ?q using 1(2) True s by (subst (asm) extendLoopM.simps, auto simp: Let_def split: if_splits)+
      then have "extendLoop (\<lambda>_. False) n e ?bm = Some (blocks M' p)" using True by (subst extendLoop.simps) (simp add: Let_def)
      then show ?thesis by blast
    next
      case ok: True
      obtain bm' where bm': "?new = Some bm'" "extendLoopM p n (if ?q then e + 4096 else e) (setBlocks p bm' (setTables s M)) = Some M'"
        using 1(2) True s ok by (subst (asm) extendLoopM.simps) (auto simp: Let_def split: option.splits)
      from 1(1) [OF True refl refl refl s refl _ bm'(1) bm'(2)] ok
      obtain f where f: "extendLoop f n (if ?q then e + 4096 else e) bm' = Some (blocks M' p)" by auto
      let ?f = "if ?q then f(e := True) else f"
      have "extendLoop ?f n (if ?q then e + 4096 else e) bm' = extendLoop f n (if ?q then e + 4096 else e) bm'" by (rule extendLoop_cong) auto
      then have "extendLoop ?f n e ?bm = Some (blocks M' p)" using True bm'(1) f by (subst extendLoop.simps) (simp add: Let_def)
      then show ?thesis by blast
    qed
  qed
qed

lemma allocateLinearBlockM_oracle:
  assumes "allocateLinearBlockM p s M = Some (a, M')"
  shows "\<exists>f. allocateLinearBlock f (blocks M p) s = Some (a, blocks M' p)"
proof -
  obtain bm r bm1 where b: "acquireLock (blocks M p) = Some bm" "allocateBlock_noLock bm s s = Some (r, bm1)"
    using assms by (auto simp: allocateLinearBlockM_def split: bind_splits)
  show ?thesis
  proof (cases "r \<noteq> None \<or> getExtendBlockCount bm1 s = Some 0")
    case True
    then show ?thesis using assms b by (auto simp: allocateLinearBlockM_def allocateLinearBlock_def Let_def split: bind_splits option.splits)
  next
    case False
    then obtain n where n: "getExtendBlockCount bm1 s = Some n" "n \<noteq> 0" and r: "r = None"
      using assms b by (auto simp: allocateLinearBlockM_def Let_def split: bind_splits)
    let ?e = "CEIL (indexToElement bm1 (blockCount bm1)) 4096"
    obtain M1 where M1: "extendLoopM p (blockCount bm1 + n) ?e (setBlocks p bm1 M) = Some M1"
      using assms b n r by (auto simp: allocateLinearBlockM_def extendLinearBlockM_def Let_def split: bind_splits)
    from extendLoopM_oracle [OF this] obtain f where f: "extendLoop f (blockCount bm1 + n) ?e bm1 = Some (blocks M1 p)" by auto
    have "allocateLinearBlock f (blocks M p) s = Some (a, blocks M' p)"
      using assms b n r M1 f unfolding allocateLinearBlockM_def extendLinearBlockM_def allocateLinearBlock_def extendLinearBlock_noLock_def
      by (auto simp: Let_def split: bind_splits option.splits if_splits)
    then show ?thesis by blast
  qed
qed

section \<open>Managers of a fixed size\<close>

text \<open>\<open>kernelLinear\<close> is created with all its blocks and never grows.\<close>

lemma getExtendBlockCount_full:
  assumes "locked m" "blockCount m = maxBlockCount m"
  shows "getExtendBlockCount m s = Some 0"
proof -
  have "maxBlockCount m < 2 ^ k + CEIL (maxBlockCount m) (2 ^ k)" for k using CEIL_ge [of "2 ^ k" "maxBlockCount m"] by (simp add: add_strict_increasing)
  then show ?thesis using assms by (simp add: getExtendBlockCount_def Let_def)
qed

lemma indexToAddress_valid:
  assumes "beginAddress m mod 4096 = 0"
  shows "indexToAddress m b \<noteq> INVALID_PAGE_ADDRESS"
proof -
  have "indexToAddress m b mod 4096 = 0" using assms by (simp add: indexToAddress_def mod_0_imp_dvd)
  then show ?thesis by (auto simp: INVALID_PAGE_ADDRESS_def)
qed

lemma allocate_fixed:
  assumes inv: "lin_inv bm" and bm: "bm = blocks M p" and full: "blockCount bm = maxBlockCount bm" and s: "0 < s" "s mod 4096 = 0"
  shows "allocateLinearBlockM p s M = Some (INVALID_PAGE_ADDRESS, M) \<or>
    (\<exists>b bm'. allocateLinearBlockM p s M = Some (indexToAddress bm b, setBlocks p bm' M) \<and> lin_inv bm' \<and> same_region bm bm' \<and> keeps_blocks bm bm' \<and>
      blockCount bm' = blockCount bm \<and> linear_granted bm s b bm' \<and> s \<le> 2 ^ sizeOrder bm' b)"
proof -
  let ?bm = "bm\<lparr>locked := True\<rparr>"
  note i = lin_invD [OF inv]
  have ss: "splitSize_ok s s" by (simp add: splitSize_ok_def)
  have ib: "buddy_inv ?bm" "locked ?bm" using i(3) by simp_all
  obtain r bm1 where r: "allocateBlock_noLock ?bm s s = Some (r, bm1)" "case r of None \<Rightarrow> bm1 = ?bm \<and> (s \<le> 2 ^ MAX_BLOCK_ORDER \<longrightarrow> findFreeBlock ?bm (ceilAllocateOrder s) = None)
    | Some b \<Rightarrow> s \<le> 2 ^ MAX_BLOCK_ORDER \<and> isFree ?bm b \<and> grants ?bm s s b bm1"
    using allocateBlock_noLock_effect [OF ib s(1) ss] by blast
  have l: "acquireLock (blocks M p) = Some ?bm" using bm i(2) by (simp add: acquireLock_def)
  show ?thesis
  proof (cases r)
    case None
    then have "bm1 = ?bm" using r(2) by simp
    moreover have "getExtendBlockCount ?bm s = Some 0" by (rule getExtendBlockCount_full) (use full in simp_all)
    moreover have "setBlocks p bm M = M" "?bm\<lparr>locked := False\<rparr> = bm" using bm i(2) by (simp_all add: setBlocks_def)
    ultimately have "allocateLinearBlockM p s M = Some (INVALID_PAGE_ADDRESS, M)" using l r(1) None
      by (simp add: allocateLinearBlockM_def Let_def releaseLock_def) (simp add: setBlocks_def)
    then show ?thesis by simp
  next
    case (Some b)
    obtain a bm' where e: "allocateLinearBlock (\<lambda>_. False) bm s = Some (a, bm')" "lin_inv bm'" "same_region bm bm'" "keeps_blocks bm bm'"
      "blockCount bm' \<le> max (blockCount bm) (maxBlockCount bm)"
      "a = INVALID_PAGE_ADDRESS \<and> allocated bm' = allocated bm \<and> freeFrames bm \<subseteq> freeFrames bm' \<or> (\<exists>b. a = indexToAddress bm b \<and> linear_granted bm s b bm')"
      using allocateLinearBlock_effect [OF inv s, of "\<lambda>_. False"] by blast
    note mk = allocate_marked [OF _ ib(2) s r(1) [unfolded Some]]
    have wf: "lin_wf ?bm" using i(1) by simp
    let ?bm1 = "(markLocked b s bm1)\<lparr>locked := False\<rparr>"
    have st: "status bm1 b = MEMORY_FREE_OR_COVERED" "locked bm1" "blockCount bm1 = blockCount bm" "same_region ?bm bm1" using mk(2,3,7-9) wf by auto
    have "indexToAddress bm1 b = indexToAddress bm b" using st(4) by (simp add: same_region_def indexToAddress_def)
    moreover have "allocateLinearBlock (\<lambda>_. False) bm s = Some (indexToAddress ?bm1 b, ?bm1)" using l r(1) Some st(1,2) bm
      by (simp add: allocateLinearBlock_def Let_def releaseLock_def markLocked_def)
    moreover have "allocateLinearBlockM p s M = Some (indexToAddress ?bm1 b, setBlocks p ?bm1 M)" using l r(1) Some st(1,2)
      by (simp add: allocateLinearBlockM_def Let_def releaseLock_def markLocked_def setBlocks_def)
    ultimately have run: "allocateLinearBlockM p s M = Some (indexToAddress bm b, setBlocks p bm' M)" and a: "a = indexToAddress bm b" and bm': "bm' = ?bm1" using e(1)
      by (auto simp: indexToAddress_def markLocked_def setStatus_def)
    have "a \<noteq> INVALID_PAGE_ADDRESS" using a i(4) indexToAddress_valid by simp
    then have g: "linear_granted bm s b bm'" using e(6) a by (auto simp: indexToAddress_def)
    have "s \<le> 2 ^ MAX_BLOCK_ORDER" using r(2) Some by simp
    then have "s \<le> 2 ^ sizeOrder bm' b" using g ceilAllocateOrder_bounds(2) [of s] by (simp add: linear_granted_def)
    moreover have "blockCount bm' = blockCount bm" using bm' st(3) by (simp add: markLocked_def)
    ultimately show ?thesis using run e(2-4) g by blast
  qed
qed

section \<open>The invariant of a manager\<close>

text \<open>The page of a block index.\<close>

definition pageNo :: "lmm \<Rightarrow> nat \<Rightarrow> u32" where
  "pageNo bm k = of_nat (indexToAddress bm k)"

text \<open>The blocks that hold the page tables themselves lie in the window of the page manager. A block in use outside of it is mapped up to its
  mapped size and no further.\<close>

definition normal :: "paging \<Rightarrow> nat \<Rightarrow> lmm \<Rightarrow> nat \<Rightarrow> bool" where
  "normal g p bm j \<longleftrightarrow> (\<forall>k\<in>frames bm j. \<not> inWindow g p (pageNo bm k))"

definition block_mapped :: "paging \<Rightarrow> nat \<Rightarrow> lmm \<Rightarrow> nat \<Rightarrow> bool" where
  "block_mapped g p bm j \<longleftrightarrow> mappedSize bm j \<le> 2 ^ sizeOrder bm j \<and>
    (\<forall>i<2 ^ rord bm j. mappable g p (pageNo bm (j + i)) \<and> (mapping g p (pageNo bm (j + i)) \<noteq> None \<longleftrightarrow> 4096 * i < mappedSize bm j))"

definition frameOf :: "paging \<Rightarrow> nat \<Rightarrow> u32 \<Rightarrow> nat option" where
  "frameOf g p a = map_option (\<lambda>e. unat (GET_ENTRY_ADDRESS e)) (mapping g p a)"

text \<open>The number of pages that are mapped to a frame.\<close>

definition heldPages :: "paging \<Rightarrow> nat \<Rightarrow> lmm \<Rightarrow> nat \<Rightarrow> nat" where
  "heldPages g p bm x = card {k. k < blockCount bm \<and> \<not> inWindow g p (pageNo bm k) \<and> frameOf g p (pageNo bm k) = Some x}"

definition memory_ok :: "nat \<Rightarrow> lmm \<Rightarrow> paging \<Rightarrow> pmm \<Rightarrow> bool" where
  "memory_ok p bm g m \<longleftrightarrow> lin_inv bm \<and> pool_inv m \<and> paging_wf g \<and> blockCount bm = maxBlockCount bm \<and> 0 < beginAddress bm \<and>
    beginAddress bm + blockCount bm * 4096 \<le> 2 ^ 32 \<and>
    (\<forall>k\<in>freeFrames bm. mappable g p (pageNo bm k) \<and> mapping g p (pageNo bm k) = None) \<and>
    (\<forall>j\<in>allocated bm. status bm j = MEMORY_USING \<and> normal g p bm j \<longrightarrow> block_mapped g p bm j) \<and>
    (\<forall>x. heldPages g p bm x + tableRefs g p x \<le> poolRefs m x)"

definition memory_inv :: "nat \<Rightarrow> memory \<Rightarrow> bool" where
  "memory_inv p M \<longleftrightarrow> memory_ok p (blocks M p) (tables M) (pool M)"

lemma pageNo_add: "pageAt (pageNo bm b) i = pageNo bm (b + i)"
  by (simp add: pageAt_def pageNo_def indexToAddress_def algebra_simps)

lemma pageNo_region: "same_region bm bm' \<Longrightarrow> pageNo bm' = pageNo bm"
  by (simp add: same_region_def pageNo_def indexToAddress_def fun_eq_iff)

lemma pageNo_inj:
  assumes "pageNo bm i = pageNo bm k" "i < blockCount bm" "k < blockCount bm" "beginAddress bm + blockCount bm * 4096 \<le> 2 ^ 32"
  shows "i = k"
proof -
  have u: "unat (pageNo bm j) = indexToAddress bm j" if "j < blockCount bm" for j
  proof -
    have "j * 4096 + 4096 \<le> blockCount bm * 4096" using that by (metis Suc_leI add.commute mult_Suc mult_le_mono1)
    then show ?thesis using assms(4) unfolding pageNo_def by (intro unat_of_nat_small) (simp add: indexToAddress_def)
  qed
  have "indexToAddress bm i = indexToAddress bm k" using u [OF assms(2)] u [OF assms(3)] assms(1) by simp
  then show ?thesis by (simp add: indexToAddress_def)
qed

lemma pageNo_aligned: "beginAddress bm mod 4096 = 0 \<Longrightarrow> k < blockCount bm \<Longrightarrow> beginAddress bm + blockCount bm * 4096 \<le> 2 ^ 32 \<Longrightarrow> aligned (pageNo bm k)"
proof -
  assume a: "beginAddress bm mod 4096 = 0" "k < blockCount bm" "beginAddress bm + blockCount bm * 4096 \<le> 2 ^ 32"
  have "k * 4096 + 4096 \<le> blockCount bm * 4096" using a(2) by (metis Suc_leI add.commute mult_Suc mult_le_mono1)
  then show ?thesis unfolding pageNo_def using a(1,3) by (intro aligned_of_nat) (auto simp: indexToAddress_def)
qed

lemma count_list_card: "count_list fs x = card {i. i < length fs \<and> fs ! i = x}"
  by (simp add: count_list_eq_length_filter length_filter_conv_card eq_commute)

lemma memory_okD:
  assumes "memory_ok p bm g m"
  shows "lin_inv bm" "pool_inv m" "paging_wf g" "blockCount bm = maxBlockCount bm" "0 < beginAddress bm" "beginAddress bm + blockCount bm * 4096 \<le> 2 ^ 32"
    "k \<in> freeFrames bm \<Longrightarrow> mappable g p (pageNo bm k) \<and> mapping g p (pageNo bm k) = None"
    "j \<in> allocated bm \<Longrightarrow> status bm j = MEMORY_USING \<Longrightarrow> normal g p bm j \<Longrightarrow> block_mapped g p bm j"
    "heldPages g p bm x + tableRefs g p x \<le> poolRefs m x" "beginAddress bm mod 4096 = 0"
  using assms lin_invD(4) [of bm] by (auto simp: memory_ok_def)

lemma blocks_apart:
  assumes "lin_inv bm" "i \<in> allocated bm" "j \<in> allocated bm" "i \<noteq> j"
  shows "frames bm i \<inter> frames bm j = {}"
  by (rule frames_disjoint) (use assms allocatedD in auto)

lemma frames_bound: "lin_inv bm \<Longrightarrow> j \<in> allocated bm \<Longrightarrow> k \<in> frames bm j \<Longrightarrow> k < blockCount bm"
  using lin_invD(3) [of bm] allocatedD(1) [of j bm] block_okD by (fastforce simp: frames_def buddy_inv_def buddy_wf_def block_ok_def)

lemma free_bound: "lin_inv bm \<Longrightarrow> k \<in> freeFrames bm \<Longrightarrow> k < blockCount bm"
  using freeFrames_bound [of bm] lin_invD(3) [of bm] by (auto simp: buddy_inv_def)

section \<open>Mapping an allocated block\<close>

lemma mapped_pages:
  assumes ok: "memory_ok p bm g m" and r: "remaps p attribute (pageNo bm b) 0 fs g g'" and free: "{b..<b + length fs} \<subseteq> freeFrames bm"
    and k: "k < blockCount bm" "\<not> inWindow g p (pageNo bm k)"
  shows "mapping g' p (pageNo bm k) = (if k \<in> {b..<b + length fs} then Some (makeEntry attribute (of_nat (fs ! (k - b)))) else mapping g p (pageNo bm k))"
proof -
  note o = memory_okD [OF ok]
  note bound = free_bound [OF o(1)]
  have n: "length fs \<le> 2 ^ 20"
  proof (cases "fs = []")
    case False
    then have "b + (length fs - 1) \<in> freeFrames bm" by (intro subsetD [OF free]) (cases fs, auto)
    then have "length fs \<le> blockCount bm" using bound [of "b + (length fs - 1)"] by simp
    then show ?thesis using o(6) by simp
  qed simp
  have m: "mapping g' p (pageNo bm k) = (mapping g p ++ frameMap attribute (pageNo bm b) 0 fs) (pageNo bm k)"
    using r k pageNo_aligned [OF o(10) k(1) o(6)] by (simp add: remaps_def)
  show ?thesis
  proof (cases "k \<in> {b..<b + length fs}")
    case True
    then have "frameMap attribute (pageNo bm b) 0 fs (pageAt (pageNo bm b) (k - b)) = Some (makeEntry attribute (of_nat (fs ! (k - b))))"
      using frameMap_nth [of "k - b" fs 0 attribute "pageNo bm b"] n by auto
    then show ?thesis using m True by (simp add: pageNo_add)
  next
    case False
    have "pageNo bm k \<notin> pageAt (pageNo bm b) ` {..<length fs}"
    proof
      assume "pageNo bm k \<in> pageAt (pageNo bm b) ` {..<length fs}"
      then obtain i where i: "i < length fs" "pageNo bm k = pageNo bm (b + i)" by (auto simp: pageNo_add)
      then have "b + i \<in> freeFrames bm" by (intro subsetD [OF free]) simp
      then have "b + i < blockCount bm" by (rule bound)
      then show False using pageNo_inj [OF i(2) k(1) _ o(6)] False i(1) by auto
    qed
    then show ?thesis using m False frameMap_image [of attribute "pageNo bm b" fs "pageNo bm k"] by (auto simp: map_add_def)
  qed
qed

lemma held_more:
  assumes ok: "memory_ok p bm g m" and r: "remaps p attribute (pageNo bm b) 0 fs g g'" and free: "{b..<b + length fs} \<subseteq> freeFrames bm"
    and fs: "\<forall>x\<in>set fs. x < 2 ^ 32 \<and> x mod 4096 = 0"
  shows "heldPages g' p bm x = heldPages g p bm x + count_list fs x"
proof -
  note o = memory_okD [OF ok]
  let ?A = "\<lambda>g. {k. k < blockCount bm \<and> \<not> inWindow g p (pageNo bm k) \<and> frameOf g p (pageNo bm k) = Some x}"
  let ?I = "{i. i < length fs \<and> fs ! i = x}"
  have w: "inWindow g' p = inWindow g p" using r extends_static(2) [of g g' p p] by (simp add: remaps_def)
  have bound: "k < blockCount bm \<and> \<not> inWindow g p (pageNo bm k) \<and> mapping g p (pageNo bm k) = None" if "k \<in> {b..<b + length fs}" for k
  proof -
    have "k \<in> freeFrames bm" using that free by blast
    then show ?thesis using o(7) [of k] free_bound [OF o(1)] by (simp add: mappable_def)
  qed
  have addr: "unat (GET_ENTRY_ADDRESS (makeEntry attribute (of_nat (fs ! i)))) = fs ! i" if "i < length fs" for i
    using fs that aligned_of_nat [of "fs ! i"] by (simp add: makeEntry_parts unat_of_nat_small)
  have f: "frameOf g' p (pageNo bm k) = (if k \<in> {b..<b + length fs} then Some (fs ! (k - b)) else frameOf g p (pageNo bm k))"
    if "k < blockCount bm" "\<not> inWindow g p (pageNo bm k)" for k
    using mapped_pages [OF ok r free that] addr [of "k - b"] by (auto simp: frameOf_def)
  have "?A g' = ?A g \<union> (\<lambda>i. b + i) ` ?I"
  proof (intro set_eqI)
    fix k
    show "k \<in> ?A g' \<longleftrightarrow> k \<in> ?A g \<union> (\<lambda>i. b + i) ` ?I"
    proof (cases "k \<in> {b..<b + length fs}")
      case True
      then have "k \<in> ?A g' \<longleftrightarrow> fs ! (k - b) = x" using bound [OF True] f [of k] w by simp
      moreover have "k \<notin> ?A g" using bound [OF True] by (simp add: frameOf_def)
      moreover have "k \<in> (\<lambda>i. b + i) ` ?I \<longleftrightarrow> fs ! (k - b) = x" using True by (auto simp: image_iff intro: exI [of _ "k - b"])
      ultimately show ?thesis by blast
    next
      case False
      then have "k \<notin> (\<lambda>i. b + i) ` ?I" by auto
      then show ?thesis using False f [of k] w by auto
    qed
  qed
  moreover have "?A g \<inter> (\<lambda>i. b + i) ` ?I = {}" using bound by (auto simp: frameOf_def)
  moreover have "finite (?A g)" "finite ((\<lambda>i. b + i) ` ?I)" by simp_all
  moreover have "card ((\<lambda>i. b + i) ` ?I) = card ?I" by (rule card_image) (simp add: inj_on_def)
  ultimately show ?thesis by (simp add: heldPages_def card_Un_disjoint count_list_card)
qed

text \<open>A block \<open>b\<close> of \<open>n\<close> pages that was just granted.\<close>

definition granted :: "lmm \<Rightarrow> nat \<Rightarrow> nat \<Rightarrow> lmm \<Rightarrow> bool" where
  "granted bm n b bm' \<longleftrightarrow> lin_inv bm' \<and> same_region bm bm' \<and> keeps_blocks bm bm' \<and> blockCount bm' = blockCount bm \<and>
    linear_granted bm (4096 * n) b bm' \<and> 4096 * n \<le> 2 ^ sizeOrder bm' b"

lemma grantedD:
  assumes "granted bm n b bm'"
  shows "lin_inv bm'" "same_region bm bm'" "blockCount bm' = blockCount bm" "b \<notin> allocated bm" "allocated bm' = insert b (allocated bm)" "b \<in> allocated bm'"
    "status bm' b = MEMORY_LOCKED" "mappedSize bm' b = 4096 * n" "frames bm' b \<subseteq> freeFrames bm" "freeFrames bm' = freeFrames bm - frames bm' b"
    "n \<le> 2 ^ rord bm' b" "{b..<b + n} \<subseteq> frames bm' b" "pageNo bm' = pageNo bm"
    "j \<in> allocated bm \<Longrightarrow> frames bm' j = frames bm j \<and> rord bm' j = rord bm j \<and> sizeOrder bm' j = sizeOrder bm j \<and> status bm' j = status bm j \<and> mappedSize bm' j = mappedSize bm j"
    "j \<in> allocated bm \<Longrightarrow> frames bm j \<inter> frames bm' b = {}"
proof -
  have i: "lin_inv bm'" and b: "b \<in> allocated bm'" using assms by (auto simp: granted_def linear_granted_def)
  have "block_ok bm' b" using lin_invD(3) [OF i] allocatedD(1) [OF b] by (simp add: buddy_inv_def buddy_wf_def)
  then have "sizeOrder bm' b = rord bm' b + 12" by (rule block_okD(1))
  then have "4096 * n \<le> 4096 * 2 ^ rord bm' b" using assms by (simp add: granted_def power_add)
  then show n: "n \<le> 2 ^ rord bm' b" by simp
  then show "{b..<b + n} \<subseteq> frames bm' b" by (auto simp: frames_def)
  have old: "frames bm' j = frames bm j \<and> rord bm' j = rord bm j \<and> sizeOrder bm' j = sizeOrder bm j \<and> status bm' j = status bm j \<and> mappedSize bm' j = mappedSize bm j" if "j \<in> allocated bm" for j
    using assms that by (simp add: granted_def keeps_blocks_def frames_def rord_def)
  then show "j \<in> allocated bm \<Longrightarrow> frames bm' j = frames bm j \<and> rord bm' j = rord bm j \<and> sizeOrder bm' j = sizeOrder bm j \<and> status bm' j = status bm j \<and> mappedSize bm' j = mappedSize bm j" .
  have g: "b \<notin> allocated bm" "allocated bm' = insert b (allocated bm)" using assms by (simp_all add: granted_def linear_granted_def)
  show "frames bm j \<inter> frames bm' b = {}" if "j \<in> allocated bm"
    using blocks_apart [OF i, of j b] that b g old [OF that] by auto
  show "lin_inv bm'" "same_region bm bm'" "blockCount bm' = blockCount bm" "b \<notin> allocated bm" "allocated bm' = insert b (allocated bm)" "b \<in> allocated bm'"
    "status bm' b = MEMORY_LOCKED" "mappedSize bm' b = 4096 * n" "frames bm' b \<subseteq> freeFrames bm" "freeFrames bm' = freeFrames bm - frames bm' b" "pageNo bm' = pageNo bm"
    using assms b pageNo_region by (auto simp: granted_def linear_granted_def)
qed

lemma granted_free_range:
  assumes "memory_ok p bm g m" "granted bm n b bm'"
  shows "free_range g p (pageNo bm b) n"
proof -
  note o = memory_okD [OF assms(1)] and gr = grantedD [OF assms(2)]
  have sub: "b + j \<in> freeFrames bm" if "j < n" for j using that by (intro subsetD [OF gr(9)] subsetD [OF gr(12)]) simp
  then have "mappable g p (pageAt (pageNo bm b) j) \<and> mapping g p (pageAt (pageNo bm b) j) = None" if "j < n" for j using o(7) that by (simp add: pageNo_add)
  moreover have "n \<le> blockCount bm"
  proof (cases "n = 0")
    case False
    then have "b + (n - 1) < blockCount bm" by (intro free_bound [OF o(1) sub]) simp
    then show ?thesis by simp
  qed simp
  ultimately show ?thesis using o(6) by (simp add: free_range_def)
qed

lemma same_block:
  assumes "remaps p attribute (pageNo bm b) 0 fs g g'" "memory_ok p bm g m" "{b..<b + length fs} \<subseteq> freeFrames bm" "j \<in> allocated bm" "normal g p bm j"
    "frames bm j \<inter> {b..<b + length fs} = {}" "block_mapped g p bm j" "mappedSize bm' j = mappedSize bm j" "sizeOrder bm' j = sizeOrder bm j" "pageNo bm' = pageNo bm"
  shows "block_mapped g' p bm' j"
proof -
  have e: "extends g g' p" using assms(1) by (simp add: remaps_def)
  have "mapping g' p (pageNo bm (j + i)) = mapping g p (pageNo bm (j + i))" if "i < 2 ^ rord bm j" for i
  proof -
    have k: "j + i \<in> frames bm j" using that by (simp add: frames_def)
    then show ?thesis using mapped_pages [OF assms(2,1,3), of "j + i"] frames_bound [OF memory_okD(1) [OF assms(2)] assms(4) k] assms(5,6) by (auto simp: normal_def)
  qed
  then show ?thesis using assms(7-10) extends_static(6) [OF e] by (auto simp: block_mapped_def rord_def)
qed

lemma grant_mapped:
  assumes ok: "memory_ok p bm g m" and gr: "granted bm n b bm'" and fs: "length fs = n" "\<forall>x\<in>set fs. x < 2 ^ 32 \<and> x mod 4096 = 0"
    and r: "remaps p attribute (pageNo bm b) 0 fs g g'" and t: "takes p fs (g, m) (g', m')" and wf: "paging_wf g'"
  shows "memory_ok p (setStatus b MEMORY_USING bm') g' m'"
proof -
  let ?bm = "setStatus b MEMORY_USING bm'"
  note o = memory_okD [OF ok] and d = grantedD [OF gr]
  have e: "extends g g' p" using r by (simp add: remaps_def)
  have sub: "{b..<b + length fs} \<subseteq> freeFrames bm" using d(9,12) fs(1) by blast
  have pg: "pageNo ?bm = pageNo bm" using d(13) by (simp add: pageNo_def indexToAddress_def fun_eq_iff)
  have w: "inWindow g' p = inWindow g p" by (rule extends_static(2) [OF e])
  have free: "mappable g' p (pageNo bm k) \<and> mapping g' p (pageNo bm k) = None" if "k \<in> freeFrames bm'" for k
  proof -
    have k: "k \<in> freeFrames bm" "k \<notin> {b..<b + length fs}" using that d(10,12) fs(1) by auto
    then show ?thesis using mapped_pages [OF ok r sub free_bound [OF o(1) k(1)]] o(7) [OF k(1)] extends_static(6) [OF e] by (auto simp: mappable_def)
  qed
  have new: "block_mapped g' p ?bm b"
  proof -
    have "mappable g' p (pageNo bm (b + i)) \<and> (mapping g' p (pageNo bm (b + i)) \<noteq> None \<longleftrightarrow> i < n)" if "i < 2 ^ rord bm' b" for i
    proof -
      have k: "b + i \<in> freeFrames bm" using that d(9) by (auto simp: frames_def)
      then show ?thesis using mapped_pages [OF ok r sub free_bound [OF o(1) k]] o(7) [OF k] extends_static(6) [OF e] fs(1) by (auto simp: mappable_def)
    qed
    then show ?thesis using gr pg d(8) by (simp add: block_mapped_def rord_def granted_def)
  qed
  have old: "block_mapped g' p ?bm j" if "j \<in> allocated bm'" "status ?bm j = MEMORY_USING" "normal g' p ?bm j" for j
  proof (cases "j = b")
    case False
    then have j: "j \<in> allocated bm" using that(1) d(5) by simp
    note dj = d(14) [OF j]
    have "normal g p bm j" using that(3) dj pg w by (simp add: normal_def)
    moreover have "status bm j = MEMORY_USING" using that(2) dj False by simp
    moreover have "frames bm j \<inter> {b..<b + length fs} = {}" using d(15) [OF j] d(12) fs(1) by blast
    ultimately show ?thesis using same_block [OF r ok sub j _ _ o(8) [OF j], of ?bm] dj pg by simp
  qed (use new in simp)
  have "heldPages g' p ?bm x + tableRefs g' p x \<le> poolRefs m' x" for x
  proof -
    have "heldPages g' p ?bm x = heldPages g p bm x + count_list fs x" using held_more [OF ok r sub fs(2), of x] pg d(3) by (simp add: heldPages_def)
    moreover have "poolRefs m' x + tableRefs g p x = poolRefs m x + tableRefs g' p x + count_list fs x" using t by (simp add: takes_def)
    ultimately show ?thesis using o(9) [of x] by linarith
  qed
  moreover have "lin_inv ?bm" using setStatus_lin_inv [OF d(1,6)] by simp
  moreover have "pool_inv m'" using t by (simp add: takes_def)
  moreover have "beginAddress bm' = beginAddress bm" "maxBlockCount ?bm = maxBlockCount bm" using d(2) by (simp_all add: same_region_def setStatus_def)
  ultimately show ?thesis using wf free old o(4-6) d(3) pg by (simp add: memory_ok_def)
qed

lemma grant_undone:
  assumes ok: "memory_ok p bm g m" and gr: "granted bm n b bm'" and rel: "released bm' b bm''"
    and r: "remaps p attribute (pageNo bm b) 0 [] g g'" and t: "takes p [] (g, m) (g', m')" and wf: "paging_wf g'"
  shows "memory_ok p bm'' g' m'" "freeFrames bm'' = freeFrames bm" "allocated bm'' = allocated bm"
proof -
  note o = memory_okD [OF ok] and d = grantedD [OF gr]
  have rl: "lin_inv bm''" "blockCount bm'' = blockCount bm'" "same_region bm' bm''" "status bm'' = (status bm')(b := MEMORY_FREE_OR_COVERED)" "mappedSize bm'' = mappedSize bm'"
    "allocated bm'' = allocated bm' - {b}" "freeFrames bm'' = freeFrames bm' \<union> frames bm' b" "\<forall>i\<in>allocated bm' - {b}. sizeOrder bm'' i = sizeOrder bm' i"
    using rel by (auto simp: released_def)
  show ff: "freeFrames bm'' = freeFrames bm" using rl(7) d(9,10) by auto
  show al: "allocated bm'' = allocated bm" using rl(6) d(4,5) by auto
  have e: "extends g g' p" using r by (simp add: remaps_def)
  have pg: "pageNo bm'' = pageNo bm" using pageNo_region [OF rl(3)] d(13) by simp
  have w: "inWindow g' p = inWindow g p" by (rule extends_static(2) [OF e])
  have map: "mapping g' p (pageNo bm k) = mapping g p (pageNo bm k)" if "k < blockCount bm" "\<not> inWindow g p (pageNo bm k)" for k
    using mapped_pages [OF ok r _ that] by simp
  have free: "mappable g' p (pageNo bm k) \<and> mapping g' p (pageNo bm k) = None" if "k \<in> freeFrames bm" for k
    using o(7) [OF that] map [OF free_bound [OF o(1) that]] extends_static(6) [OF e] by (auto simp: mappable_def)
  have old: "block_mapped g' p bm'' j" if "j \<in> allocated bm" "status bm'' j = MEMORY_USING" "normal g' p bm'' j" for j
  proof -
    note dj = d(14) [OF that(1)]
    have "j \<noteq> b" using that(1) d(4) by auto
    then have s: "sizeOrder bm'' j = sizeOrder bm j" "status bm j = MEMORY_USING" using rl(8) that(1,2) d(5) dj rl(4) by auto
    then have "normal g p bm j" using that(3) pg w by (simp add: normal_def frames_def rord_def)
    then show ?thesis using same_block [OF r ok _ that(1) _ _ o(8) [OF that(1) s(2)], of bm''] s dj pg rl(5) by simp
  qed
  have "heldPages g' p bm'' x + tableRefs g' p x \<le> poolRefs m' x" for x
  proof -
    have "heldPages g' p bm'' x = heldPages g p bm x" using held_more [OF ok r, of x] pg d(3) rl(2) by (simp add: heldPages_def)
    moreover have "poolRefs m' x + tableRefs g p x = poolRefs m x + tableRefs g' p x" using t by (simp add: takes_def)
    ultimately show ?thesis using o(9) [of x] by linarith
  qed
  moreover have "pool_inv m'" using t by (simp add: takes_def)
  moreover have "beginAddress bm'' = beginAddress bm" "maxBlockCount bm'' = maxBlockCount bm" using d(2) rl(3) by (simp_all add: same_region_def)
  ultimately show "memory_ok p bm'' g' m'" using wf free old o(4-6) d(3) rl(1,2) pg ff al by (simp add: memory_ok_def)
qed

text \<open>The second half of the operations that allocate a block: the attempt to map it decides whether it is committed or released.\<close>

definition finish :: "nat \<Rightarrow> nat \<Rightarrow> bool \<times> paging \<times> pmm \<Rightarrow> memory \<Rightarrow> (nat \<times> memory) option" where
  "finish p l r M = (case r of (ok, s) \<Rightarrow>
    if ok then do { M \<leftarrow> commitM p l (setTables s M); Some (l, M) } else do { M \<leftarrow> releaseLinearM p l (setTables s M); Some (0, M) })"

text \<open>The managers stay where they are.\<close>

definition unmoved :: "nat \<Rightarrow> memory \<Rightarrow> memory \<Rightarrow> bool" where
  "unmoved p M M' \<longleftrightarrow> same_region (blocks M p) (blocks M' p) \<and> blockCount (blocks M' p) = blockCount (blocks M p) \<and> extends (tables M) (tables M') p"

lemma unmovedD:
  assumes "unmoved p M M'"
  shows "pageNo (blocks M' p) = pageNo (blocks M p)" "indexToAddress (blocks M' p) = indexToAddress (blocks M p)" "blockCount (blocks M' p) = blockCount (blocks M p)"
    "inWindow (tables M') p = inWindow (tables M) p" "extends (tables M) (tables M') p"
proof -
  have u: "same_region (blocks M p) (blocks M' p)" and e: "extends (tables M) (tables M') p" using assms by (simp_all add: unmoved_def)
  show "pageNo (blocks M' p) = pageNo (blocks M p)" by (rule pageNo_region [OF u])
  show "inWindow (tables M') p = inWindow (tables M) p" by (rule extends_static(2) [OF e])
  show "indexToAddress (blocks M' p) = indexToAddress (blocks M p)" using u by (simp add: same_region_def indexToAddress_def fun_eq_iff)
  show "blockCount (blocks M' p) = blockCount (blocks M p)" "extends (tables M) (tables M') p" using assms by (simp_all add: unmoved_def)
qed

text \<open>What an allocation of \<open>n\<close> pages that are mapped to the frames \<open>fs\<close> does: with \<open>a = 0\<close> it has failed.\<close>

definition new_pages :: "nat \<Rightarrow> u32 \<Rightarrow> nat \<Rightarrow> memory \<Rightarrow> nat \<Rightarrow> nat list \<Rightarrow> memory \<Rightarrow> bool" where
  "new_pages p attribute n M a fs M' \<longleftrightarrow> memory_inv p M' \<and> unmoved p M M' \<and> length fs = (if a = 0 then 0 else n) \<and>
    (if a = 0 then allocated (blocks M' p) = allocated (blocks M p) \<and> freeFrames (blocks M' p) = freeFrames (blocks M p)
     else \<exists>b. a = indexToAddress (blocks M p) b \<and> b \<notin> allocated (blocks M p) \<and> allocated (blocks M' p) = insert b (allocated (blocks M p)) \<and>
       status (blocks M' p) b = MEMORY_USING \<and> mappedSize (blocks M' p) b = 4096 * n \<and> frames (blocks M' p) b \<subseteq> freeFrames (blocks M p) \<and>
       freeFrames (blocks M' p) = freeFrames (blocks M p) - frames (blocks M' p) b) \<and>
    (\<forall>j<length fs. translatePage (tables M') p (of_nat (a + 4096 * j)) attribute = Some (fs ! j)) \<and>
    (\<forall>c. aligned c \<and> \<not> inWindow (tables M) p c \<longrightarrow> mapping (tables M') p c = (mapping (tables M) p ++ frameMap attribute (of_nat a) 0 fs) c) \<and>
    (\<forall>x. poolRefs (pool M') x + tableRefs (tables M) p x = poolRefs (pool M) x + tableRefs (tables M') p x + count_list fs x) \<and>
    (\<forall>x. heldPages (tables M') p (blocks M p) x = heldPages (tables M) p (blocks M p) x + count_list fs x)"

lemma finish_new_pages:
  assumes inv: "memory_inv p M" and gr: "granted (blocks M p) n b bm'" and attr: "attribute AND 23 = attribute"
    and at: "attempt p attribute (pageNo (blocks M p) b) n fs (tables M, pool M) (ok, g', m')"
  shows "\<exists>a M'. finish p (indexToAddress (blocks M p) b) (ok, g', m') (setBlocks p bm' M) = Some (a, M') \<and> new_pages p attribute n M a fs M' \<and> (a = 0 \<longleftrightarrow> \<not> ok)"
proof -
  let ?bm = "blocks M p" and ?l = "indexToAddress (blocks M p) b"
  have mo: "memory_ok p ?bm (tables M) (pool M)" using inv by (simp add: memory_inv_def)
  note o = memory_okD [OF mo] and d = grantedD [OF gr]
  have l: "indexToAddress bm' b = ?l" "?l \<noteq> 0" using d(2) o(5) by (simp_all add: same_region_def indexToAddress_def)
  have a: "paging_wf g'" "length fs = (if ok then n else 0)" "\<forall>x\<in>set fs. x < 2 ^ 32 \<and> x mod 4096 = 0" "remaps p attribute (pageNo ?bm b) 0 fs (tables M) g'"
    "takes p fs (tables M, pool M) (g', m')" using at by (simp_all add: attempt_def)
  have tr: "translatePage g' p (of_nat (?l + 4096 * j)) attribute = Some (fs ! j)" if "j < length fs" for j
    using attempt_translate [OF at granted_free_range [OF mo gr] attr that] by (simp add: pageAt_def pageNo_def)
  have sub: "{b..<b + length fs} \<subseteq> freeFrames ?bm" using subset_trans [OF d(12,9)] a(2) by (cases ok) simp_all
  note held = held_more [OF mo a(4) sub a(3)]
  show ?thesis
  proof (cases ok)
    case True
    let ?M = "setBlocks p (setStatus b MEMORY_USING bm') (setTables (g', m') M)"
    have "commitAllocatingLinearBlock bm' ?l = Some (setStatus b MEMORY_USING bm')" using commit_effect [OF d(1,6,7)] l(1) by simp
    then have "finish p ?l (ok, g', m') (setBlocks p bm' M) = Some (?l, ?M)" using True by (simp add: finish_def commitM_def setBlocks_def setTables_def)
    moreover have "memory_inv p ?M" unfolding memory_inv_def using grant_mapped [OF mo gr _ a(3-5,1)] a(2) True by simp
    moreover have "mapping g' p c = (mapping (tables M) p ++ frameMap attribute (of_nat ?l) 0 fs) c" if "aligned c" "\<not> inWindow (tables M) p c" for c
      using a(4) that by (simp add: remaps_def pageNo_def)
    moreover have "unmoved p M ?M" using same_region_trans [OF d(2) setStatus_simps(7)] d(3) a(4) by (simp add: unmoved_def remaps_def)
    ultimately show ?thesis using True l(2) a(2,5) tr d(4,5,8-10) held
      by (intro exI [of _ ?l] exI [of _ ?M]) (auto simp: new_pages_def takes_def)
  next
    case False
    then have fs: "fs = []" using a(2) by simp
    obtain bm'' where bm'': "releaseLinearBlock bm' ?l = Some bm''" "released bm' b bm''" using releaseLinearBlock_effect [OF d(1,6)] l(1) by auto
    let ?M = "setBlocks p bm'' (setTables (g', m') M)"
    have "finish p ?l (ok, g', m') (setBlocks p bm' M) = Some (0, ?M)" using False bm''(1) by (simp add: finish_def releaseLinearM_def setBlocks_def setTables_def)
    moreover note u = grant_undone [OF mo gr bm''(2) a(4,5) [unfolded fs] a(1)]
    moreover have "mapping g' p c = mapping (tables M) p c" if "aligned c" "\<not> inWindow (tables M) p c" for c
      using a(4) that fs by (simp add: remaps_def)
    moreover have "unmoved p M ?M" using d(2,3) a(4) bm''(2) by (simp add: unmoved_def remaps_def same_region_def released_def)
    ultimately show ?thesis using False fs a(5) held by (intro exI [of _ 0] exI [of _ ?M]) (simp add: new_pages_def memory_inv_def takes_def)
  qed
qed

lemma new_pages_none:
  assumes "memory_inv p M"
  shows "new_pages p attribute n M 0 [] M"
  using assms extends_refl by (simp add: new_pages_def unmoved_def)

lemma allocate_granted:
  assumes "memory_inv p M" "0 < n"
  obtains (none) "allocateLinearBlockM p (4096 * n) M = Some (INVALID_PAGE_ADDRESS, M)"
  | (some) b bm' where "allocateLinearBlockM p (4096 * n) M = Some (indexToAddress (blocks M p) b, setBlocks p bm' M)" "granted (blocks M p) n b bm'"
    "indexToAddress (blocks M p) b \<noteq> INVALID_PAGE_ADDRESS" "indexToAddress (blocks M p) b mod 4096 = 0"
proof -
  note o = memory_okD [OF assms(1) [unfolded memory_inv_def]]
  have s: "0 < 4096 * n" "4096 * n mod 4096 = 0" using assms(2) by simp_all
  show ?thesis using allocate_fixed [OF o(1) refl o(4) s] none some indexToAddress_valid [of "blocks M p"] o(10)
    by (auto simp: granted_def indexToAddress_def mod_0_imp_dvd)
qed

lemma allocatePagesM_effect:
  assumes inv: "memory_inv p M" and n: "0 < n" and attr: "attribute AND 1 \<noteq> 0" "attribute AND 23 = attribute"
  shows "\<exists>a M' fs. allocatePagesM p (4096 * n) contiguous attribute M = Some (a, M') \<and> new_pages p attribute n M a fs M' \<and>
    distinct fs \<and> (\<forall>x\<in>set fs. poolRefs (pool M) x = 0) \<and> (contiguous \<longrightarrow> (\<exists>f. fs = map (\<lambda>j. f + 4096 * j) [0..<length fs]))"
proof (cases rule: allocate_granted [OF inv n])
  case 1
  then show ?thesis using new_pages_none [OF inv] by (intro exI [of _ 0] exI [of _ M] exI [of _ "[]"]) (simp add: allocatePagesM_def)
next
  case (2 b bm')
  let ?l = "indexToAddress (blocks M p) b" and ?s = "(tables M, pool M)"
  have mo: "memory_ok p (blocks M p) (tables M) (pool M)" using inv by (simp add: memory_inv_def)
  note o = memory_okD [OF mo] and fr = granted_free_range [OF mo 2(2)]
  let ?map = "if contiguous then mapContiguousPage_L p (of_nat ?l) (4096 * n) attribute ?s else mapPage_L p (of_nat ?l) (4096 * n) attribute ?s"
  have "\<exists>ok g' m' fs. ?map = Some (ok, g', m') \<and> attempt p attribute (pageNo (blocks M p) b) n fs ?s (ok, g', m') \<and> distinct fs \<and>
    (\<forall>x\<in>set fs. poolRefs (pool M) x = 0) \<and> (contiguous \<longrightarrow> (\<exists>f. fs = frameRange f 0 (length fs)))"
  proof (cases contiguous)
    case True
    obtain ok f g' m' where c: "mapContiguousPage_L p (pageNo (blocks M p) b) (4096 * n) attribute ?s = Some (ok, g', m')"
      "attempt p attribute (pageNo (blocks M p) b) n (if ok then frameRange f 0 n else []) ?s (ok, g', m')" "ok \<longrightarrow> (\<forall>j<n. poolRefs (pool M) (f + 4096 * j) = 0)"
      using mapContiguousPage_L_effect [OF o(3,2) attr(1) fr n] by blast
    let ?fs = "if ok then frameRange f 0 n else []"
    have "distinct ?fs" "\<forall>x\<in>set ?fs. poolRefs (pool M) x = 0" "?fs = frameRange f 0 (length ?fs)" using c(3) by (auto simp: distinct_map inj_on_def)
    then show ?thesis using True c(1,2) unfolding pageNo_def by (intro exI [of _ ok] exI [of _ g'] exI [of _ m'] exI [of _ ?fs]) auto
  next
    case False
    then show ?thesis using mapPage_L_effect [OF o(3,2) attr(1) fr] unfolding pageNo_def by auto
  qed
  then obtain ok g' m' fs where t: "?map = Some (ok, g', m')" "attempt p attribute (pageNo (blocks M p) b) n fs ?s (ok, g', m')" "distinct fs"
    "\<forall>x\<in>set fs. poolRefs (pool M) x = 0" "contiguous \<longrightarrow> (\<exists>f. fs = frameRange f 0 (length fs))" by blast
  obtain a M' where f: "finish p ?l (ok, g', m') (setBlocks p bm' M) = Some (a, M')" "new_pages p attribute n M a fs M'"
    using finish_new_pages [OF inv 2(2) attr(2) t(2)] by blast
  have "allocatePagesM p (4096 * n) contiguous attribute M = Some (a, M')" using 2(1,3) t(1) f(1) by (cases contiguous) (simp_all add: allocatePagesM_def finish_def Let_def)
  then show ?thesis using f(2) t(3-5) by blast
qed

lemma mapPages_effect:
  assumes inv: "memory_inv p M" and n: "0 < n" and attr: "attribute AND 1 \<noteq> 0" "attribute AND 23 = attribute"
    and x: "x mod 4096 = 0" "x + 4096 * n \<le> 2 ^ 32" "\<forall>j<n. 0 < poolRefs (pool M) (x + 4096 * j)"
  shows "\<exists>a M'. mapPages p x (4096 * n) attribute M = Some (a, M') \<and> new_pages p attribute n M a (if a = 0 then [] else map (\<lambda>j. x + 4096 * j) [0..<n]) M'"
proof (cases rule: allocate_granted [OF inv n])
  case 1
  then show ?thesis using new_pages_none [OF inv] by (intro exI [of _ 0] exI [of _ M]) (simp add: mapPages_def)
next
  case (2 b bm')
  let ?l = "indexToAddress (blocks M p) b" and ?s = "(tables M, pool M)"
  have mo: "memory_ok p (blocks M p) (tables M) (pool M)" using inv by (simp add: memory_inv_def)
  note o = memory_okD [OF mo]
  obtain ok g' m' where t: "mapPage_LP p (of_nat ?l) x (4096 * n) attribute ?s = Some (ok, g', m')"
    "attempt p attribute (pageNo (blocks M p) b) n (if ok then frameRange x 0 n else []) ?s (ok, g', m')"
    using mapPage_LP_effect [OF o(3,2) attr(1) granted_free_range [OF mo 2(2)] x] unfolding pageNo_def by blast
  obtain a M' where f: "finish p ?l (ok, g', m') (setBlocks p bm' M) = Some (a, M')" "new_pages p attribute n M a (if ok then frameRange x 0 n else []) M'" "a = 0 \<longleftrightarrow> \<not> ok"
    using finish_new_pages [OF inv 2(2) attr(2) t(2)] by blast
  have "mapPages p x (4096 * n) attribute M = Some (a, M')" using 2(1,3,4) t(1) f(1) n by (simp add: mapPages_def finish_def)
  then show ?thesis using f(2,3) by (cases ok) auto
qed

section \<open>Releasing a block\<close>

lemma unmap_block:
  assumes ok: "memory_ok p bm g m" and j: "j \<in> allocated bm" "status bm j = MEMORY_USING" "normal g p bm j"
  shows "\<exists>g' m'. unmapPage p (pageNo bm j) (mappedSize bm j) (g, m) = Some (g', m') \<and> pool_inv m' \<and> paging_wf g' \<and> extends g g' p \<and> tableRefs g' p = tableRefs g p \<and>
    (\<forall>k<blockCount bm. mapping g' p (pageNo bm k) = (if k \<in> frames bm j then None else mapping g p (pageNo bm k))) \<and>
    (\<forall>x. heldPages g p bm x + poolRefs m' x = heldPages g' p bm x + poolRefs m x)"
proof -
  note o = memory_okD [OF ok]
  let ?n = "mappedSize bm j div 4096"
  have bj: "block_ok bm j" using lin_invD(3) [OF o(1)] allocatedD(1) [OF j(1)] by (simp add: buddy_inv_def buddy_wf_def)
  have bm: "block_mapped g p bm j" by (rule o(8) [OF j])
  have sz: "mappedSize bm j = 4096 * ?n" using lin_invD(6) [OF o(1) allocatedD(1) [OF j(1)]] by auto
  moreover have "sizeOrder bm j = rord bm j + 12" by (rule block_okD(1) [OF bj])
  ultimately have "4096 * ?n \<le> 4096 * 2 ^ rord bm j" using bm by (simp add: block_mapped_def power_add)
  then have n: "?n \<le> 2 ^ rord bm j" by simp
  have kb: "j + i < blockCount bm" if "i < 2 ^ rord bm j" for i using frames_bound [OF o(1) j(1), of "j + i"] that by (simp add: frames_def)
  have small: "?n \<le> 2 ^ 20" using n block_okD(4) [OF bj] o(6) by simp
  define fs where "fs = map (\<lambda>i. the (frameOf g p (pageNo bm (j + i)))) [0..<?n]"
  have fi: "frameOf g p (pageNo bm (j + i)) = Some (fs ! i)" if "i < ?n" for i
  proof -
    have "mapping g p (pageNo bm (j + i)) \<noteq> None" using bm that n sz by (simp add: block_mapped_def)
    then show ?thesis using that by (auto simp: fs_def frameOf_def)
  qed
  have pages: "\<forall>i<?n. aligned (pageAt (pageNo bm j) i) \<and> (\<exists>e. mapping g p (pageAt (pageNo bm j) i) = Some e \<and> unat (GET_ENTRY_ADDRESS e) = fs ! i)"
    using fi kb n pageNo_aligned [OF o(10) _ o(6)] by (fastforce simp: pageNo_add frameOf_def)
  let ?A = "\<lambda>g x. {k. k < blockCount bm \<and> \<not> inWindow g p (pageNo bm k) \<and> frameOf g p (pageNo bm k) = Some x}"
  let ?I = "\<lambda>x. (\<lambda>i. j + i) ` {i. i < ?n \<and> fs ! i = x}"
  have len: "length fs = ?n" by (simp add: fs_def)
  have ci: "card (?I x) = count_list fs x" for x unfolding count_list_card len by (rule card_image) (simp add: inj_on_def)
  have sub: "?I x \<subseteq> ?A g x" for x using fi kb n j(3) by (fastforce simp: normal_def frames_def)
  have "count_list fs x \<le> poolRefs m x" for x
  proof -
    have "card (?I x) \<le> card (?A g x)" by (rule card_mono [OF _ sub]) simp
    then show ?thesis using o(9) [of x] ci [of x] by (simp add: heldPages_def)
  qed
  then obtain g' m' where u: "unmapPage p (pageNo bm j) (4096 * ?n) (g, m) = Some (g', m')" "pool_inv m'" "extends g g' p" "tableRefs g' p = tableRefs g p"
    "\<forall>b. aligned b \<longrightarrow> mapping g' p b = (if b \<in> pageAt (pageNo bm j) ` {..<?n} then None else mapping g p b)" "\<forall>x. poolRefs m x = poolRefs m' x + count_list fs x"
    using unmapPage_entries [OF o(3,2) small len pages] by blast
  have w: "inWindow g' p = inWindow g p" by (rule extends_static(2) [OF u(3)])
  have in_iff: "pageNo bm k \<in> pageAt (pageNo bm j) ` {..<?n} \<longleftrightarrow> k \<in> {j..<j + ?n}" if "k < blockCount bm" for k
  proof
    assume "pageNo bm k \<in> pageAt (pageNo bm j) ` {..<?n}"
    then obtain i where i: "i < ?n" "pageNo bm k = pageNo bm (j + i)" by (auto simp: pageNo_add)
    then show "k \<in> {j..<j + ?n}" using pageNo_inj [OF i(2) that kb o(6)] n by auto
  next
    assume "k \<in> {j..<j + ?n}"
    then show "pageNo bm k \<in> pageAt (pageNo bm j) ` {..<?n}" by (intro image_eqI [of _ _ "k - j"]) (auto simp: pageNo_add)
  qed
  have map1: "mapping g' p (pageNo bm k) = (if k \<in> {j..<j + ?n} then None else mapping g p (pageNo bm k))" if "k < blockCount bm" for k
    using u(5) pageNo_aligned [OF o(10) that o(6)] in_iff [OF that] by simp
  have map: "mapping g' p (pageNo bm k) = (if k \<in> frames bm j then None else mapping g p (pageNo bm k))" if k: "k < blockCount bm" for k
  proof (cases "k \<in> frames bm j")
    case True
    then obtain i where i: "k = j + i" "i < 2 ^ rord bm j" by (auto simp: frames_def dest: le_Suc_ex)
    then have "mapping g p (pageNo bm k) = None" if "\<not> i < ?n" using bm sz that by (auto simp: block_mapped_def)
    then show ?thesis using map1 [OF k] True i by auto
  next
    case False
    then have "k \<notin> {j..<j + ?n}" using n by (auto simp: frames_def)
    then show ?thesis using map1 [OF k] False by auto
  qed
  have "?A g' x = ?A g x - ?I x" for x
  proof (intro set_eqI)
    fix k show "k \<in> ?A g' x \<longleftrightarrow> k \<in> ?A g x - ?I x"
    proof (cases "k < blockCount bm \<and> k \<in> {j..<j + ?n}")
      case True
      then have "k \<notin> ?A g' x" using map1 [of k] by (simp add: frameOf_def)
      moreover have "k \<in> ?I x" if "k \<in> ?A g x" using that True fi [of "k - j"] by (auto simp: image_iff intro!: exI [of _ "k - j"])
      ultimately show ?thesis by blast
    next
      case False
      then have "k \<notin> ?I x" using kb n by auto
      moreover have "frameOf g' p (pageNo bm k) = frameOf g p (pageNo bm k)" if "k < blockCount bm" using False map1 [OF that] that by (auto simp: frameOf_def)
      ultimately show ?thesis using w by auto
    qed
  qed
  then have "heldPages g' p bm x + count_list fs x = heldPages g p bm x" for x
    using card_Diff_subset [OF _ sub, of x] card_mono [OF _ sub, of x] ci [of x] by (simp add: heldPages_def)
  then have "heldPages g p bm x + poolRefs m' x = heldPages g' p bm x + poolRefs m x" for x using u(6) by (metis add.assoc add.commute)
  moreover have "paging_wf g'" using o(3) extends_static(1) [OF u(3)] by simp
  ultimately show ?thesis using u(1-4) map sz by (intro exI [of _ g'] exI [of _ m']) simp
qed

lemma release_ok:
  assumes ok: "memory_ok p bm g m" and j: "j \<in> allocated bm" "normal g p bm j" "block_mapped g p bm j"
    and rel: "released bm j bm'"
    and g': "pool_inv m'" "paging_wf g'" "extends g g' p" "tableRefs g' p = tableRefs g p"
    and map: "\<forall>k<blockCount bm. mapping g' p (pageNo bm k) = (if k \<in> frames bm j then None else mapping g p (pageNo bm k))"
    and held: "\<forall>x. heldPages g p bm x + poolRefs m' x = heldPages g' p bm x + poolRefs m x"
  shows "memory_ok p bm' g' m'"
proof -
  note o = memory_okD [OF ok]
  have rl: "lin_inv bm'" "blockCount bm' = blockCount bm" "same_region bm bm'" "status bm' = (status bm)(j := MEMORY_FREE_OR_COVERED)" "mappedSize bm' = mappedSize bm"
    "allocated bm' = allocated bm - {j}" "freeFrames bm' = freeFrames bm \<union> frames bm j" "\<forall>i\<in>allocated bm - {j}. sizeOrder bm' i = sizeOrder bm i"
    using rel by (auto simp: released_def)
  have pg: "pageNo bm' = pageNo bm" by (rule pageNo_region [OF rl(3)])
  have w: "inWindow g' p = inWindow g p" by (rule extends_static(2) [OF g'(3)])
  have free: "mappable g' p (pageNo bm k) \<and> mapping g' p (pageNo bm k) = None" if "k \<in> freeFrames bm'" for k
  proof (cases "k \<in> frames bm j")
    case True
    then obtain i where "k = j + i" "i < 2 ^ rord bm j" by (auto simp: frames_def dest: le_Suc_ex)
    then show ?thesis using j(3) map frames_bound [OF o(1) j(1) True] True extends_static(6) [OF g'(3)] by (auto simp: block_mapped_def)
  next
    case False
    then have k: "k \<in> freeFrames bm" using that rl(7) by blast
    then show ?thesis using o(7) [OF k] map free_bound [OF o(1) k] False extends_static(6) [OF g'(3)] by auto
  qed
  have old: "block_mapped g' p bm' i" if "i \<in> allocated bm'" "status bm' i = MEMORY_USING" "normal g' p bm' i" for i
  proof -
    have i: "i \<in> allocated bm" "i \<noteq> j" using that(1) rl(6) by auto
    have so: "sizeOrder bm' i = sizeOrder bm i" using rl(8) i by simp
    then have r: "rord bm' i = rord bm i" "frames bm' i = frames bm i" by (simp_all add: rord_def frames_def)
    have "block_mapped g p bm i" using o(8) [OF i(1)] that(2,3) i(2) rl(4) r(2) pg w by (simp add: normal_def)
    moreover have "mapping g' p (pageNo bm (i + d)) = mapping g p (pageNo bm (i + d))" if "d < 2 ^ rord bm i" for d
    proof -
      have k: "i + d \<in> frames bm i" using that by (simp add: frames_def)
      then have "i + d \<notin> frames bm j" using blocks_apart [OF o(1) i(1) j(1) i(2)] by blast
      then show ?thesis using map frames_bound [OF o(1) i(1) k] by simp
    qed
    ultimately show ?thesis using so r pg rl(5) extends_static(6) [OF g'(3)] by (auto simp: block_mapped_def)
  qed
  have "heldPages g' p bm' x + tableRefs g' p x \<le> poolRefs m' x" for x
  proof -
    have "heldPages g' p bm' x = heldPages g' p bm x" using pg rl(2) by (simp add: heldPages_def)
    then show ?thesis using o(9) [of x] held [rule_format, of x] g'(4) by simp
  qed
  moreover have "beginAddress bm' = beginAddress bm" "maxBlockCount bm' = maxBlockCount bm" using rl(3) by (simp_all add: same_region_def)
  ultimately show ?thesis using g'(1,2) free old o(4-6) rl(1,2) pg by (simp add: memory_ok_def)
qed

text \<open>What the release of block \<open>j\<close> does.\<close>

definition freed_pages :: "nat \<Rightarrow> memory \<Rightarrow> nat \<Rightarrow> memory \<Rightarrow> bool" where
  "freed_pages p M j M' \<longleftrightarrow> memory_inv p M' \<and> j \<in> allocated (blocks M p) \<and> allocated (blocks M' p) = allocated (blocks M p) - {j} \<and>
    freeFrames (blocks M' p) = freeFrames (blocks M p) \<union> frames (blocks M p) j \<and>
    (\<forall>k<blockCount (blocks M p). mapping (tables M') p (pageNo (blocks M p) k) = (if k \<in> frames (blocks M p) j then None else mapping (tables M) p (pageNo (blocks M p) k))) \<and>
    (\<forall>x. heldPages (tables M) p (blocks M p) x + poolRefs (pool M') x = heldPages (tables M') p (blocks M p) x + poolRefs (pool M) x) \<and>
    tableRefs (tables M') p = tableRefs (tables M) p \<and> inWindow (tables M') p = inWindow (tables M) p"

lemma release_effect:
  assumes inv: "memory_inv p M" and j: "j < blockCount (blocks M p)" "normal (tables M) p (blocks M p) j"
  shows "if status (blocks M p) j = MEMORY_USING
    then \<exists>M'. checkAndReleaseLinearBlockM p (indexToAddress (blocks M p) j) M = Some (True, M') \<and> freed_pages p M j M'
    else checkAndReleaseLinearBlockM p (indexToAddress (blocks M p) j) M = Some (False, M)"
proof -
  let ?bm = "blocks M p" and ?a = "indexToAddress (blocks M p) j"
  have mo: "memory_ok p ?bm (tables M) (pool M)" using inv by (simp add: memory_inv_def)
  note o = memory_okD [OF mo]
  have rng: "isAddressInRange ?bm ?a" "addressToIndex ?bm ?a = Some j"
    using isAddressInRange_indexToAddress [of ?bm j] addressToIndex_indexToAddress [of ?bm j] o(10) j(1) by auto
  have same: "setBlocks p ?bm M = M" by (simp add: setBlocks_def)
  show ?thesis
  proof (cases "status ?bm j = MEMORY_USING")
    case False
    then show ?thesis using beginRelease_effect(2) [OF o(1) rng False] same by (simp add: checkAndReleaseLinearBlockM_def)
  next
    case True
    let ?b1 = "setStatus j MEMORY_LOCKED ?bm"
    have b: "beginRelease ?bm ?a = Some (True, ?b1)" and al: "j \<in> allocated ?bm" using beginRelease_effect(1) [OF o(1) rng True] by auto
    have bmap: "block_mapped (tables M) p ?bm j" by (rule o(8) [OF al True j(2)])
    have i1: "lin_inv ?b1" using setStatus_lin_inv [OF o(1) al] by simp
    have a1: "indexToAddress ?b1 j = ?a" by (simp add: indexToAddress_def)
    obtain b2 where b2: "endRelease ?b1 ?a = Some b2" "released ?b1 j b2" using endRelease_effect [OF i1, of j] al a1 by auto
    have rel: "released ?bm j b2" using b2(2) same_region_trans [OF setStatus_simps(7)] by (auto simp: released_def)
    have "addressToIndex ?b1 ?a = Some j" using addressToIndex_indexToAddress [of ?b1 j] o(10) j(1) a1 by simp
    then have sz: "getAllocatedBlockSize ?b1 ?a = Some (mappedSize ?bm j)" using lin_invD(6) [OF o(1) j(1)] by (simp add: getAllocatedBlockSize_def)
    obtain g' m' where u: "unmapPage p (pageNo ?bm j) (mappedSize ?bm j) (tables M, pool M) = Some (g', m')" "pool_inv m'" "paging_wf g'" "extends (tables M) g' p" "tableRefs g' p = tableRefs (tables M) p"
      "\<forall>k<blockCount ?bm. mapping g' p (pageNo ?bm k) = (if k \<in> frames ?bm j then None else mapping (tables M) p (pageNo ?bm k))"
      "\<forall>x. heldPages (tables M) p ?bm x + poolRefs m' x = heldPages g' p ?bm x + poolRefs (pool M) x" using unmap_block [OF mo al True j(2)] by blast
    let ?M = "setBlocks p b2 (setTables (g', m') M)"
    have "checkAndReleaseLinearBlockM p ?a M = Some (True, ?M)" using b sz u(1) b2(1)
      by (simp add: checkAndReleaseLinearBlockM_def pageNo_def setBlocks_def setTables_def)
    moreover have "memory_inv p ?M" unfolding memory_inv_def using release_ok [OF mo al j(2) bmap rel u(2-7)] by simp
    ultimately show ?thesis using True u(5-7) al rel extends_static(2) [OF u(4), of p] by (simp add: freed_pages_def released_def)
  qed
qed

section \<open>Theorems\<close>

lemma release_new_pages:
  assumes inv: "memory_inv p M" and np: "new_pages p attribute n M a fs M'" and a: "a \<noteq> 0"
  shows "\<exists>M''. checkAndReleasePages p a M' = Some (True, M'') \<and> memory_inv p M'' \<and>
    freeFrames (blocks M'' p) = freeFrames (blocks M p) \<and> allocated (blocks M'' p) = allocated (blocks M p) \<and>
    (\<forall>k<blockCount (blocks M p). \<not> inWindow (tables M) p (pageNo (blocks M p) k) \<longrightarrow> mapping (tables M'') p (pageNo (blocks M p) k) = mapping (tables M) p (pageNo (blocks M p) k)) \<and>
    (\<forall>x. poolRefs (pool M'') x + tableRefs (tables M) p x = poolRefs (pool M) x + tableRefs (tables M'') p x)"
proof -
  let ?bm = "blocks M p" and ?bm' = "blocks M' p"
  have mo: "memory_ok p ?bm (tables M) (pool M)" and inv': "memory_inv p M'" and um: "unmoved p M M'" using inv np by (simp_all add: memory_inv_def new_pages_def)
  note o = memory_okD [OF mo] and u = unmovedD [OF um]
  obtain b where b: "a = indexToAddress ?bm b" "b \<notin> allocated ?bm" "allocated ?bm' = insert b (allocated ?bm)" "status ?bm' b = MEMORY_USING" "mappedSize ?bm' b = 4096 * n"
    "frames ?bm' b \<subseteq> freeFrames ?bm" "freeFrames ?bm' = freeFrames ?bm - frames ?bm' b" using np a by (auto simp: new_pages_def)
  have len: "length fs = n" using np a by (simp add: new_pages_def)
  have li: "lin_inv ?bm'" using inv' by (simp add: memory_inv_def memory_ok_def)
  have bb: "b < blockCount ?bm'" using allocatedD(1) b(3) by blast
  have free: "\<not> inWindow (tables M) p (pageNo ?bm k) \<and> mapping (tables M) p (pageNo ?bm k) = None" if "k \<in> frames ?bm' b" for k
    using o(7) [of k] that b(6) by (auto simp: mappable_def)
  have "normal (tables M') p ?bm' b" using free u(1,4) by (simp add: normal_def)
  from release_effect [OF inv' bb this] b(1,4) u(2) obtain M'' where r: "checkAndReleasePages p a M' = Some (True, M'')" "freed_pages p M' b M''"
    by (auto simp: checkAndReleasePages_def)
  have rm: "remaps p attribute (pageNo ?bm b) 0 fs (tables M) (tables M')" using np u(5) b(1) by (simp add: new_pages_def remaps_def pageNo_def)
  have bmap: "block_mapped (tables M') p ?bm' b"
    using memory_okD(8) [OF inv' [unfolded memory_inv_def]] b(3,4) \<open>normal (tables M') p ?bm' b\<close> by simp
  have "block_ok ?bm' b" using lin_invD(3) [OF li] bb by (simp add: buddy_inv_def buddy_wf_def)
  then have "n \<le> 2 ^ rord ?bm' b" using block_okD(1) [of ?bm' b] bmap b(5) by (simp add: block_mapped_def power_add)
  then have sub1: "{b..<b + length fs} \<subseteq> frames ?bm' b" using len by (auto simp: frames_def)
  note sub = subset_trans [OF sub1 b(6)]
  have map: "mapping (tables M'') p (pageNo ?bm k) = mapping (tables M) p (pageNo ?bm k)" if k: "k < blockCount ?bm" "\<not> inWindow (tables M) p (pageNo ?bm k)" for k
  proof (cases "k \<in> frames ?bm' b")
    case True
    then show ?thesis using r(2) k(1) u(1,3) free [OF True] by (simp add: freed_pages_def)
  next
    case False
    then have "k \<notin> {b..<b + length fs}" using sub1 by blast
    then have "mapping (tables M') p (pageNo ?bm k) = mapping (tables M) p (pageNo ?bm k)" using mapped_pages [OF mo rm sub k] by (auto split: if_splits)
    then show ?thesis using r(2) k(1) u(1,3) False by (simp add: freed_pages_def)
  qed
  have um2: "inWindow (tables M'') p = inWindow (tables M) p" using r(2) u(4) by (simp add: freed_pages_def)
  have "poolRefs (pool M'') x + tableRefs (tables M) p x = poolRefs (pool M) x + tableRefs (tables M'') p x" for x
  proof -
    have "heldPages (tables M'') p ?bm x = heldPages (tables M) p ?bm x" unfolding heldPages_def frameOf_def um2 using map by (intro arg_cong [where f = card]) auto
    moreover have "heldPages (tables M') p ?bm x = heldPages (tables M) p ?bm x + count_list fs x"
      "poolRefs (pool M') x + tableRefs (tables M) p x = poolRefs (pool M) x + tableRefs (tables M') p x + count_list fs x" using np by (simp_all add: new_pages_def)
    moreover have "heldPages (tables M') p ?bm x + poolRefs (pool M'') x = heldPages (tables M'') p ?bm x + poolRefs (pool M') x" "tableRefs (tables M'') p = tableRefs (tables M') p"
      using r(2) u(1,3) by (simp_all add: freed_pages_def heldPages_def)
    ultimately show ?thesis by simp
  qed
  moreover have "freeFrames (blocks M'' p) = freeFrames ?bm" "allocated (blocks M'' p) = allocated ?bm" "memory_inv p M''"
    using r(2) b(2,3,6,7) by (auto simp: freed_pages_def)
  ultimately show ?thesis using r(1) map by blast
qed


text \<open>The concrete input of the examples: one free page at 4 MiB, whose page table is frame 1 MiB, and three frames in use besides.\<close>

definition oneLinear :: lmm where
  "oneLinear = resetBlockArray \<lparr>locked = False, beginAddress = 0x400000, blockStructSize = 20,
    blockStructOffset = 8, blockCount = 0, freeSize = 0, freeBlock = (\<lambda>_. []), blockArray = 0xC0005000,
    sizeOrder = (\<lambda>_. 0), initialBlockCount = 1, maxBlockCount = 1, mappedSize = (\<lambda>_. 0),
    status = (\<lambda>_. MEMORY_USING)\<rparr> 1 initLinearMemoryBlock"

definition exampleTables :: paging where
  "exampleTables = \<lparr>managers = (\<lambda>k. \<lparr>physicalPD = 0x101000, reservedBase = 0xC0000000, reservedEnd = 0xC0800000, pdIndexBase = 256,
      page = 0xC0000000, pd = (\<lambda>i. if i = 1 then makeEntry KERNEL_PAGE 0x100000 else 0), pt = (\<lambda>i j. 0)\<rparr>), KERNEL_LINEAR_BEGIN = 0xC0000000, KERNEL_LINEAR_END = 0xFFFFF000\<rparr>"

definition exampleMemory :: memory where
  "exampleMemory = \<lparr>pool = fourUsed, tables = exampleTables, blocks = (\<lambda>k. the (releaseLinearBlock oneLinear 0x400000))\<rparr>"

lemma oneLinear_inv: "lin_inv oneLinear" "allocated oneLinear = {..<1}" "blockCount oneLinear = 1" "maxBlockCount oneLinear = 1" "beginAddress oneLinear = 0x400000"
proof -
  let ?m = "\<lparr>locked = False, beginAddress = 0x400000, blockStructSize = 20, blockStructOffset = 8, blockCount = 0, freeSize = 0, freeBlock = (\<lambda>_. []), blockArray = 0xC0005000,
    sizeOrder = (\<lambda>_. 0), initialBlockCount = 1, maxBlockCount = 1, mappedSize = (\<lambda>_. 0), status = (\<lambda>_. MEMORY_USING)\<rparr> :: lmm"
  have e: "oneLinear = resetBlockArray ?m 1 initLinearMemoryBlock" by (simp only: oneLinear_def)
  have al: "beginAddress ?m mod MIN_BLOCK_SIZE = 0" by simp
  note r = reset_lin_wf(1,3) [OF al, of 1, folded e] reset_initLinear [where m = ?m and n = 1, folded e]
  show "lin_inv oneLinear" "allocated oneLinear = {..<1}" "blockCount oneLinear = 1" "maxBlockCount oneLinear = 1" "beginAddress oneLinear = 0x400000"
    using r by (simp_all add: lin_inv_def same_region_def)
qed

lemma exampleTables_facts: "paging_wf exampleTables" "mappable exampleTables 0 0x400000" "mapping exampleTables 0 a = None" "tableRefs exampleTables 0 x = (if x = 0x100000 then 1 else 0)"
proof -
  let ?g = exampleTables
  show "paging_wf ?g" by (simp add: paging_wf_def exampleTables_def)
  have al: "aligned 0x400000" "aligned 0x100000" by (simp_all add: aligned_def)
  have pde: "pd (managers ?g 0) i = (if i = 1 then makeEntry 3 0x100000 else 0)" for i by (simp add: exampleTables_def)
  have e: "isPresent (makeEntry 3 0x100000)" "GET_ENTRY_ADDRESS (makeEntry 3 0x100000) = 0x100000" "\<not> isPresent 0"
    using al(2) by (simp_all add: isPresent_makeEntry makeEntry_parts) (simp add: isPresent_def)
  have "pteByLinearAddress ?g 0 a = 0" by (simp add: pteByLinearAddress_def exampleTables_def split: prod.splits)
  then show "mapping ?g 0 a = None" using e(3) by (simp add: mapping_def)
  have "\<not> inWindow ?g 0 0x400000"
  proof
    assume "inWindow ?g 0 0x400000"
    then obtain i where i: "i < 1024" "0x400000 = (0xC0000000 + of_nat (4096 * (1 + i)) :: u32)" by (auto simp: inWindow_def exampleTables_def)
    have "unat (0xC0000000 + of_nat (4096 * (1 + i)) :: u32) = 0xC0000000 + 4096 * (1 + i)" using i(1) by (simp add: unat_word_ariths unat_of_nat)
    then show False unfolding i(2) [symmetric] by simp
  qed
  moreover have "PD_INDEX 0x400000 = 1" "\<not> isKernelLinearAddress ?g 0x400000" by (simp_all add: PD_INDEX_def isKernelLinearAddress_def exampleTables_def)
  ultimately show "mappable ?g 0 0x400000" using al(1) e(1) by (simp add: mappable_def pdeByLinearAddress_def pde)
  have "{i. i < 1024 \<and> isPresent (pd (managers ?g 0) i) \<and> unat (GET_ENTRY_ADDRESS (pd (managers ?g 0) i)) = x} = (if x = 0x100000 then {1} else {})"
    unfolding pde using e by auto
  then show "tableRefs ?g 0 x = (if x = 0x100000 then 1 else 0)" unfolding tableRefs_def by simp
qed

lemma exampleMemory_inv: "memory_inv 0 exampleMemory"
proof -
  let ?bm = "the (releaseLinearBlock oneLinear 0x400000)"
  note one = oneLinear_inv and g = exampleTables_facts
  have "indexToAddress oneLinear 0 = 0x400000" using one(5) by (simp add: indexToAddress_def)
  then obtain bm where r: "releaseLinearBlock oneLinear 0x400000 = Some bm" "released oneLinear 0 bm" using releaseLinearBlock_effect [OF one(1), of 0] one(2) by auto
  then have bm: "lin_inv bm" "blockCount bm = 1" "maxBlockCount bm = 1" "beginAddress bm = 0x400000" "allocated bm = {}"
    using one(2-5) by (auto simp: released_def same_region_def)
  have k: "pageNo bm k = 0x400000" if "k \<in> freeFrames bm" for k using free_bound [OF bm(1) that] bm(2,4) by (simp add: pageNo_def indexToAddress_def)
  have "indexToAddress fourUsed 0 = 0x100000" "0 \<in> allocated fourUsed" "referenceCount fourUsed 0 = 1" using fourUsed_inv(2,4) example_fourUsed by (simp_all add: indexToAddress_def)
  then have "poolRefs fourUsed 0x100000 = 1" using poolRefs_index [of fourUsed 0] by simp
  then have t: "tableRefs exampleTables 0 x \<le> poolRefs fourUsed x" for x using g(4) [of x] by simp
  have h: "heldPages exampleTables 0 bm x = 0" for x using g(3) by (simp add: heldPages_def frameOf_def)
  have "memory_ok 0 bm exampleTables fourUsed" unfolding memory_ok_def h using bm k g(1-3) t example_pool by simp
  then show ?thesis using r(1) by (simp add: memory_inv_def exampleMemory_def)
qed




section \<open>Which frames are free after the initialisation\<close>

definition rangeSet :: "AddressRange \<Rightarrow> nat set" where
  "rangeSet ar = {unat (rangeBase ar)..<unat (rangeBase ar) + unat (rangeSize ar)}"

lemma range_checks:
  fixes address :: u32
  assumes "unat (rangeBase ar) + unat (rangeSize ar) < 2 ^ 64" "unat address + 4096 < 2 ^ 32"
  shows "rangeBase ar \<le> ucast address \<and> rangeBase ar + rangeSize ar \<ge> ucast (address + 4096) \<longleftrightarrow> {unat address..<unat address + 4096} \<subseteq> rangeSet ar"
    "rangeSize ar \<noteq> 0 \<Longrightarrow> rangeBase ar \<ge> ucast (address + 4096) \<or> rangeBase ar + rangeSize ar \<le> ucast address \<longleftrightarrow> {unat address..<unat address + 4096} \<inter> rangeSet ar = {}"
proof -
  have s: "unat (rangeBase ar + rangeSize ar) = unat (rangeBase ar) + unat (rangeSize ar)" using assms(1) by (simp add: unat_word_ariths)
  have a: "unat (ucast address :: u64) = unat address" "unat (ucast (address + 4096) :: u64) = unat address + 4096"
  proof -
    have "unat (address + 4096) = unat address + 4096" using assms(2) by (simp add: unat_word_ariths)
    then show "unat (ucast (address + 4096) :: u64) = unat address + 4096" using assms(2) by (simp add: unsigned_ucast_eq take_bit_nat_eq_self)
    show "unat (ucast address :: u64) = unat address" using assms(2) by (simp add: unsigned_ucast_eq take_bit_nat_eq_self)
  qed
  show "rangeBase ar \<le> ucast address \<and> rangeBase ar + rangeSize ar \<ge> ucast (address + 4096) \<longleftrightarrow> {unat address..<unat address + 4096} \<subseteq> rangeSet ar"
    unfolding rangeSet_def word_le_nat_alt s a by (simp add: atLeastLessThan_subset_iff)
  assume "rangeSize ar \<noteq> 0"
  then have "0 < unat (rangeSize ar)" by (simp add: unat_gt_0)
  then show "rangeBase ar \<ge> ucast (address + 4096) \<or> rangeBase ar + rangeSize ar \<le> ucast address \<longleftrightarrow> {unat address..<unat address + 4096} \<inter> rangeSet ar = {}"
    unfolding rangeSet_def word_le_nat_alt s a by (auto simp: disjoint_iff)
qed

text \<open>A frame is usable if it lies inside a usable range and meets no other range.\<close>

definition usableFrame :: "AddressRange list \<Rightarrow> nat \<Rightarrow> bool" where
  "usableFrame ars a \<longleftrightarrow> (\<exists>ar\<in>set ars. rangeType ar = USABLE \<and> {a..<a + 4096} \<subseteq> rangeSet ar) \<and>
    (\<forall>ar\<in>set ars. rangeType ar \<noteq> USABLE \<longrightarrow> {a..<a + 4096} \<inter> rangeSet ar = {})"

definition ranges_ok :: "AddressRange list \<Rightarrow> bool" where
  "ranges_ok ars \<longleftrightarrow> (\<forall>ar\<in>set ars. unat (rangeBase ar) + unat (rangeSize ar) < 2 ^ 64 \<and> (rangeType ar \<noteq> USABLE \<longrightarrow> rangeSize ar \<noteq> 0))"

lemma usableLoop_correct:
  assumes "ranges_ok ars" "unat address + 4096 < 2 ^ 32"
  shows "usableLoop address b ars \<longleftrightarrow> (b \<or> (\<exists>ar\<in>set ars. rangeType ar = USABLE \<and> {unat address..<unat address + 4096} \<subseteq> rangeSet ar)) \<and>
    (\<forall>ar\<in>set ars. rangeType ar \<noteq> USABLE \<longrightarrow> {unat address..<unat address + 4096} \<inter> rangeSet ar = {})"
  using assms(1)
proof (induction ars arbitrary: b)
  case (Cons ar ars)
  have r: "unat (rangeBase ar) + unat (rangeSize ar) < 2 ^ 64" "rangeType ar \<noteq> USABLE \<Longrightarrow> rangeSize ar \<noteq> 0" "ranges_ok ars" using Cons.prems by (auto simp: ranges_ok_def)
  note c = range_checks [OF r(1) assms(2)]
  show ?case
  proof (cases "rangeType ar = USABLE")
    case True
    then show ?thesis using Cons.IH [OF r(3)] by (auto simp: Let_def c(1))
  next
    case False
    then show ?thesis using Cons.IH [OF r(3)] unfolding usableLoop.simps Let_def c(2) [OF r(2) [OF False]] by simp
  qed
qed simp

lemma isUsableInAddressRange_correct:
  assumes "ranges_ok (ars @ ars')" "unat address + 4096 < 2 ^ 32"
  shows "isUsableInAddressRange address ars ars' \<longleftrightarrow> usableFrame (ars @ ars') (unat address)"
  using usableLoop_correct [OF assms, of False] by (simp add: isUsableInAddressRange_def usableFrame_def)

lemma releaseUsable_effect:
  assumes "phys_inv m" "distinct bs" "set bs \<subseteq> allocated m" "\<forall>b\<in>set bs. referenceCount m b = 1 \<and> sizeOrder m b = MIN_BLOCK_ORDER"
    "beginAddress m = unat minAddress" "unat minAddress + blockCount m * 4096 < 2 ^ 32"
    "\<forall>b<blockCount m. unat (minAddress + of_nat (b * 4096)) = unat minAddress + b * 4096"
  shows "\<exists>m'. releaseUsable usable minAddress bs m = Some m' \<and> phys_inv m' \<and> blockCount m' = blockCount m \<and>
    freeFrames m' = freeFrames m \<union> {b \<in> set bs. usable (minAddress + of_nat (b * 4096))} \<and> allocated m' = allocated m - {b \<in> set bs. usable (minAddress + of_nat (b * 4096))}"
  using assms
proof (induction bs arbitrary: m)
  case (Cons b bs)
  let ?a = "minAddress + of_nat (b * 4096)"
  have b: "b \<in> allocated m" "b < blockCount m" "referenceCount m b = 1" "sizeOrder m b = MIN_BLOCK_ORDER" using Cons.prems allocatedD(1) by auto
  have a: "unat ?a = indexToAddress m b" using Cons.prems(5,7) b(2) by (simp add: indexToAddress_def)
  have "b * 4096 + 4096 \<le> blockCount m * 4096" using b(2) by (metis Suc_leI add.commute mult_Suc mult_le_mono1)
  then have "unat ?a + 4096 < 2 ^ 32" using Cons.prems(6,7) b(2) by simp
  then have k: "?a < ?a + 4096" by (simp add: word_less_nat_alt unat_word_ariths)
  show ?case
  proof (cases "usable ?a")
    case False
    then obtain m' where "releaseUsable usable minAddress bs m = Some m'" "phys_inv m'" "blockCount m' = blockCount m"
      "freeFrames m' = freeFrames m \<union> {b \<in> set bs. usable (minAddress + of_nat (b * 4096))}" "allocated m' = allocated m - {b \<in> set bs. usable (minAddress + of_nat (b * 4096))}"
      using Cons.IH [OF Cons.prems(1) _ _ _ Cons.prems(5-7)] Cons.prems(2-4) by auto
    moreover have "{c \<in> set (b # bs). usable (minAddress + of_nat (c * 4096))} = {c \<in> set bs. usable (minAddress + of_nat (c * 4096))}" using False by auto
    ultimately show ?thesis using False k by simp
  next
    case True
    obtain m1 where m1: "releasePhysicalBlock m (indexToAddress m b) = Some m1" "phys_inv m1" "beginAddress m1 = beginAddress m" "blockCount m1 = blockCount m"
      "referenceCount m1 = (referenceCount m)(b := 0)" "\<forall>i\<in>allocated m - {b}. sizeOrder m1 i = sizeOrder m i" "allocated m1 = allocated m - {b}" "freeFrames m1 = freeFrames m \<union> frames m b"
      using releasePhysicalBlock_effect [OF Cons.prems(1) b(1)] b(3) by auto
    have f: "frames m b = {b}" using b(4) by (auto simp: frames_def rord_def)
    have pre: "distinct bs" "set bs \<subseteq> allocated m1" "\<forall>i\<in>set bs. referenceCount m1 i = 1 \<and> sizeOrder m1 i = MIN_BLOCK_ORDER"
      using Cons.prems(2-4) m1(5-7) by (auto simp: subset_iff)
    obtain m' where m': "releaseUsable usable minAddress bs m1 = Some m'" "phys_inv m'" "blockCount m' = blockCount m1"
      "freeFrames m' = freeFrames m1 \<union> {b \<in> set bs. usable (minAddress + of_nat (b * 4096))}" "allocated m' = allocated m1 - {b \<in> set bs. usable (minAddress + of_nat (b * 4096))}"
      using Cons.IH [OF m1(2) pre] Cons.prems(5-7) m1(3,4) by auto
    moreover have "{c \<in> set (b # bs). usable (minAddress + of_nat (c * 4096))} = insert b {c \<in> set bs. usable (minAddress + of_nat (c * 4096))}" using True by auto
    ultimately show ?thesis using True k a m1(1,4,7,8) f by auto
  qed
qed simp

text \<open>The frames of the kernel image and its managers.\<close>

definition reservedRange :: "u32 \<Rightarrow> u32 \<Rightarrow> u32 \<Rightarrow> AddressRange" where
  "reservedRange kernelBegin manageBase manageEnd = \<lparr>rangeBase = ucast (manageBase - kernelBegin), rangeSize = ucast (manageEnd - manageBase), rangeType = RESERVED\<rparr>"

text \<open>C35: after the initialisation of the physical memory exactly those frames are free that lie inside a range the BIOS reports as usable and that meet
  neither another range nor the memory reserved for the kernel image and its managers. All other frames have one reference and are
  never handed out. No assertion fails, provided that the managers fit into the reserved memory.\<close>

theorem initKernelPhysicalBlock_correct:
  fixes minAddress maxAddress :: u32
  assumes ranges: "ranges_ok (addressRange @ [reservedRange kernelBegin manageBase manageEnd])" and bounds: "unat minAddress mod 4096 = 0" "minAddress \<le> maxAddress" "maxAddress \<le> OS_MAX_ADDRESS"
    and room: "structSize + 16 * ((unat maxAddress - unat minAddress) div 4096) < unat (manageEnd - manageBegin)"
  shows "\<exists>e m. initKernelPhysicalBlock structSize pm addressRange kernelBegin manageBase manageBegin manageEnd minAddress maxAddress = Some (e, m) \<and> phys_inv m \<and>
    freeFrames m = {b. b < (unat maxAddress - unat minAddress) div 4096 \<and> usableFrame (addressRange @ [reservedRange kernelBegin manageBase manageEnd]) (unat minAddress + b * 4096)} \<and>
    allocated m = {..<(unat maxAddress - unat minAddress) div 4096} - freeFrames m"
proof -
  let ?n = "(unat maxAddress - unat minAddress) div 4096"
  obtain m where c: "createPhysicalMemoryBlockManager structSize pm (unat (manageEnd - manageBegin)) (unat minAddress) (unat maxAddress) = Some m"
    using createPhysicalMemoryBlockManager_room [OF bounds(1) room] by blast
  note i = createPhysicalMemoryBlockManager_inv [OF c]
  have le: "unat minAddress \<le> unat maxAddress" "unat maxAddress \<le> 0xfffff000" using bounds(2,3) by (simp_all add: word_le_nat_alt)
  have "?n * 4096 \<le> unat maxAddress - unat minAddress" by (rule div_times_less_eq_dividend)
  then have sum: "unat minAddress + blockCount m * 4096 \<le> 0xfffff000" using i(2) le by simp
  have addr: "unat (minAddress + of_nat (b * 4096)) = unat minAddress + b * 4096 \<and> unat minAddress + b * 4096 + 4096 < 2 ^ 32" if "b < blockCount m" for b
  proof -
    have "b * 4096 + 4096 \<le> blockCount m * 4096" using that by (metis Suc_leI add.commute mult_Suc mult_le_mono1)
    then have l: "unat minAddress + b * 4096 + 4096 < 2 ^ 32" using sum by simp
    then have "unat (of_nat (b * 4096) :: u32) = b * 4096" by (intro unat_of_nat_small) simp
    then show ?thesis using l by (simp add: unat_word_ariths del: of_nat_mult)
  qed
  have pre: "\<forall>b\<in>set [0..<blockCount m]. referenceCount m b = 1 \<and> sizeOrder m b = MIN_BLOCK_ORDER" "set [0..<blockCount m] \<subseteq> allocated m"
    "\<forall>b<blockCount m. unat (minAddress + of_nat (b * 4096)) = unat minAddress + b * 4096" "unat minAddress + blockCount m * 4096 < 2 ^ 32" using i(3,6) addr sum by auto
  let ?u = "\<lambda>address. isUsableInAddressRange address addressRange [reservedRange kernelBegin manageBase manageEnd]"
  obtain m' where m': "releaseUsable ?u minAddress [0..<blockCount m] m = Some m'" "phys_inv m'"
    "freeFrames m' = freeFrames m \<union> {b \<in> set [0..<blockCount m]. ?u (minAddress + of_nat (b * 4096))}" "allocated m' = allocated m - {b \<in> set [0..<blockCount m]. ?u (minAddress + of_nat (b * 4096))}"
    using releaseUsable_effect [OF i(1) distinct_upt pre(2,1) i(5) pre(4,3), of ?u] by auto
  have "?u (minAddress + of_nat (b * 4096)) \<longleftrightarrow> usableFrame (addressRange @ [reservedRange kernelBegin manageBase manageEnd]) (unat minAddress + b * 4096)" if "b < blockCount m" for b
    using isUsableInAddressRange_correct [OF ranges, of "minAddress + of_nat (b * 4096)"] addr [OF that] by simp
  then have "freeFrames m' = {b. b < ?n \<and> usableFrame (addressRange @ [reservedRange kernelBegin manageBase manageEnd]) (unat minAddress + b * 4096)}" "allocated m' = {..<?n} - freeFrames m'"
    using m'(3,4) i(2-4) by auto
  then show ?thesis using c m'(1,2) by (simp add: initKernelPhysicalBlock_def getPhysicalBlockCount_def reservedRange_def)
qed

theorem initKernelPhysicalBlock_correct_witness:
  "\<exists>e m. initKernelPhysicalBlock 100 fourUsed [\<lparr>rangeBase = 0, rangeSize = 0x4000, rangeType = 1\<rparr>] 0xC0000000 0xC0000000 0xC0000800 0xC0001000 0 0x4000 = Some (e, m) \<and>
    phys_inv m \<and> 0 \<notin> freeFrames m \<and> 1 \<in> freeFrames m"
proof -
  let ?ars = "[\<lparr>rangeBase = 0, rangeSize = 0x4000, rangeType = 1\<rparr>]" and ?r = "reservedRange 0xC0000000 0xC0000000 0xC0001000"
  have r: "ranges_ok (?ars @ [?r])" by (simp add: ranges_ok_def reservedRange_def)
  have "usableFrame (?ars @ [?r]) 4096" "\<not> usableFrame (?ars @ [?r]) 0" by (auto simp: usableFrame_def rangeSet_def reservedRange_def)
  then show ?thesis using initKernelPhysicalBlock_correct [OF r, of 0 "0x4000" 100 "0xC0000800" fourUsed] by auto
qed

text \<open>A buddy block may be larger than what is mapped of it. \<open>checkAndTranslateBlock\<close> only checks that the address lies in a block in use, so an address behind
  the mapped pages of such a block halts the kernel instead of being refused.\<close>

lemma tail_page_halts:
  assumes inv: "memory_inv p M" and j: "j \<in> allocated (blocks M p)" "status (blocks M p) j = MEMORY_USING" "normal (tables M) p (blocks M p) j"
    and i: "i < 2 ^ rord (blocks M p) j" "mappedSize (blocks M p) j \<le> 4096 * i" and h: "hasAttribute AND 1 = 1"
    and k: "isKernelLinearAddress (tables M) (pageNo (blocks M p) (j + i)) \<longrightarrow> p = 0"
  shows "checkAndTranslateM p (indexToAddress (blocks M p) (j + i)) hasAttribute doReserve M = None"
proof -
  let ?bm = "blocks M p" and ?a = "indexToAddress (blocks M p) (j + i)" and ?g = "tables M"
  have mo: "memory_ok p ?bm ?g (pool M)" using inv by (simp add: memory_inv_def)
  note o = memory_okD [OF mo]
  have fr: "j + i \<in> frames ?bm j" using i(1) by (simp add: frames_def)
  have b: "j + i < blockCount ?bm" by (rule frames_bound [OF o(1) j(1) fr])
  have q: "(if isKernelLinearAddress ?g (of_nat ?a) then 0 else p) = p" using k by (simp add: pageNo_def)
  have none: "mapping ?g p (pageNo ?bm (j + i)) = None" using o(8) [OF j] i by (auto simp: block_mapped_def)
  have "translatePage ?g p (of_nat ?a) hasAttribute \<in> {None, Some INVALID_PAGE_ADDRESS}"
  proof (cases "isPresent (pdeByLinearAddress ?g p (of_nat ?a))")
    case True
    then have np: "\<not> isPresent (pteByLinearAddress ?g p (of_nat ?a))" using none by (auto simp: mapping_def pageNo_def split: if_splits)
    have "andPTEFlags e hasAttribute \<noteq> hasAttribute" if "\<not> isPresent e" for e
    proof
      assume "andPTEFlags e hasAttribute = hasAttribute"
      then have "((e AND 4095) AND hasAttribute) AND 1 = 1" using h by (simp add: andPTEFlags_def)
      then have "(e AND 4095) AND (hasAttribute AND 1) = 1" by (simp only: and.assoc)
      then show False using that h by (simp add: isPresent_flags)
    qed
    then show ?thesis using True np by (simp add: translatePage_def)
  qed (simp add: translatePage_def)
  then have t: "(case translatePage ?g p (of_nat ?a) hasAttribute of None \<Rightarrow> INVALID_PAGE_ADDRESS | Some x \<Rightarrow> x) = INVALID_PAGE_ADDRESS" by auto
  let ?l = "?bm\<lparr>locked := True\<rparr>"
  have "isUsingBlock_noLock ?l (indexToAddress ?l (j + i)) = Some (\<exists>b\<in>allocated ?l. j + i \<in> frames ?l b \<and> status ?l b = MEMORY_USING)"
    by (rule isUsingBlock_spec) (use lin_invD(1) [OF o(1)] b in simp_all)
  then have "isUsingBlock_noLock ?l ?a = Some True" using j(1,2) fr by auto
  moreover have "isAddressInRange ?bm ?a" using isAddressInRange_indexToAddress [of ?bm "j + i"] o(10) b by simp
  ultimately show ?thesis using t q lin_invD(2) [OF o(1)] by (simp add: checkAndTranslateM_def checkAndTranslateBlock_def acquireLock_def)
qed

end
