(* ===== verification/Console.thy ===== *)
theory Console
  imports Fifo Printk
begin

text \<open>
  The console of \<open>kernel/io/console.c\<close>. The first part is the display: two screens of cells in video memory, of which the window that
  starts at \<open>screen\<close> is shown. Characters behind the first screen are written twice, so that the window can jump back to the start of the
  memory when the second screen is full. It refines a terminal that is a list of cells shorter than the screen. The ports of the display
  controller are a register file, so that what is shown is read from the registers the driver has written.
\<close>

section \<open>The display\<close>

record CRTC =
  crtIndex :: u8
  crtRegister :: "u8 \<Rightarrow> u8"

definition out8 :: "u16 \<Rightarrow> u8 \<Rightarrow> CRTC \<Rightarrow> CRTC" where
  "out8 port v d =
    (if port = 0x3d4 then d\<lparr>crtIndex := v\<rparr>
     else if port = 0x3d5 then d\<lparr>crtRegister := (crtRegister d)(crtIndex d := v)\<rparr> else d)"

record ConsoleDisplay =
  screen :: nat
  cursor :: nat
  maxColumn :: nat
  screenArea :: nat
  video :: "u16 list"
  crtc :: CRTC

definition updateVideoAddress :: "ConsoleDisplay \<Rightarrow> ConsoleDisplay" where
  "updateVideoAddress cd = cd\<lparr>crtc := (out8 0x3d5 (of_nat (screen cd)) \<circ> out8 0x3d4 0x0d \<circ>
     out8 0x3d5 (of_nat (screen cd div 256)) \<circ> out8 0x3d4 0x0c) (crtc cd)\<rparr>"

definition updateCursor :: "ConsoleDisplay \<Rightarrow> ConsoleDisplay" where
  "updateCursor cd = cd\<lparr>crtc := (out8 0x3d5 (of_nat (cursor cd div 256)) \<circ> out8 0x3d4 0x0e \<circ>
     out8 0x3d5 (of_nat (cursor cd)) \<circ> out8 0x3d4 0x0f) (crtc cd)\<rparr>"

definition WHITE_SPACE :: u16 where
  "WHITE_SPACE = 0x0f20"

definition printChar :: "ConsoleDisplay \<Rightarrow> u8 \<Rightarrow> u16 \<Rightarrow> u16 \<Rightarrow> ConsoleDisplay option" where
  "printChar cd c backColor foreColor = do {
    kassert (cursor cd < length (video cd));
    let v = (video cd)[cursor cd := ucast c + push_bit 12 backColor + push_bit 8 foreColor];
    Some (cd\<lparr>video := (if screenArea cd \<le> cursor cd then v[cursor cd - screenArea cd := v ! cursor cd] else v)\<rparr>)
  }"

definition printWhiteSpace :: "ConsoleDisplay \<Rightarrow> ConsoleDisplay option" where
  "printWhiteSpace cd = printChar cd 0x20 0 0xf"

fun clearCells :: "u16 list \<Rightarrow> nat \<Rightarrow> nat \<Rightarrow> u16 list option" where
  "clearCells v c 0 = Some v"
| "clearCells v c (Suc n) = do {
    kassert (c < length v);
    clearCells (v[c := WHITE_SPACE]) (Suc c) n
  }"

definition cursorOnNewLine :: "ConsoleDisplay \<Rightarrow> (bool \<times> ConsoleDisplay) option" where
  "cursorOnNewLine cd =
    (if cursor cd mod maxColumn cd = 0 then do {
       let rotated = (cursor cd = screenArea cd * 2 - maxColumn cd);
       let cd = (if rotated then cd\<lparr>cursor := cursor cd - screenArea cd\<rparr> else cd);
       v \<leftarrow> clearCells (video cd) (cursor cd) (maxColumn cd);
       Some (rotated, cd\<lparr>video := v\<rparr>)
     } else Some (False, cd))"

text \<open>The loop of \<open>forwardScreen\<close> ends only for a cursor that some window shows; the value \<open>None\<close> is a loop that does not end.\<close>

partial_function (option) forwardLoop :: "ConsoleDisplay \<Rightarrow> ConsoleDisplay option" where
  "forwardLoop cd =
    (if cursor cd < screen cd \<or> screen cd + screenArea cd \<le> cursor cd then
       (let s = screen cd + maxColumn cd in
        forwardLoop (cd\<lparr>screen := (if s = screenArea cd then 0 else s)\<rparr>))
     else Some cd)"

definition forwardScreen :: "ConsoleDisplay \<Rightarrow> bool \<Rightarrow> ConsoleDisplay option" where
  "forwardScreen cd rotated = forwardLoop (if rotated then cd\<lparr>screen := 0\<rparr> else cd)"

partial_function (option) fillLine :: "nat \<Rightarrow> ConsoleDisplay \<Rightarrow> ConsoleDisplay option" where
  "fillLine nextLine cd =
    (if cursor cd \<noteq> nextLine then do {
       cd \<leftarrow> printWhiteSpace cd;
       fillLine nextLine (cd\<lparr>cursor := cursor cd + 1\<rparr>)
     } else Some cd)"

definition newLine :: u8 where
  "newLine = 10"

fun printConsole :: "ConsoleDisplay \<Rightarrow> u8 list \<Rightarrow> ConsoleDisplay option" where
  "printConsole cd [] = Some cd"
| "printConsole cd (c # s) = do {
    cd \<leftarrow> (if c = newLine then fillLine (cursor cd + maxColumn cd - cursor cd mod maxColumn cd) cd
      else do {
        cd \<leftarrow> printChar cd c 0 0xf;
        Some (cd\<lparr>cursor := cursor cd + 1\<rparr>)
      });
    (rotated, cd) \<leftarrow> cursorOnNewLine cd;
    cd \<leftarrow> forwardScreen cd rotated;
    printConsole cd s
  }"

fun backspaceLoop :: "ConsoleDisplay \<Rightarrow> nat \<Rightarrow> nat \<Rightarrow> (nat \<times> ConsoleDisplay) option" where
  "backspaceLoop cd a 0 = Some (a, cd)"
| "backspaceLoop cd a (Suc n) =
    (if screen cd < cursor cd then do {
       cd \<leftarrow> printWhiteSpace (cd\<lparr>cursor := cursor cd - 1\<rparr>);
       backspaceLoop cd (Suc a) n
     } else Some (a, cd))"

definition printBackspace :: "ConsoleDisplay \<Rightarrow> nat \<Rightarrow> (nat \<times> ConsoleDisplay) option" where
  "printBackspace cd n = do {
    (a, cd) \<leftarrow> backspaceLoop cd 0 n;
    Some (a, updateCursor cd)
  }"

definition printString :: "ConsoleDisplay \<Rightarrow> u8 list \<Rightarrow> (nat \<times> ConsoleDisplay) option" where
  "printString cd s = do {
    cd \<leftarrow> printConsole cd s;
    Some (length s, updateVideoAddress (updateCursor cd))
  }"

definition initKernelConsole :: "ConsoleDisplay \<Rightarrow> ConsoleDisplay option" where
  "initKernelConsole cd = do {
    let cd = updateCursor (updateVideoAddress (cd\<lparr>screen := 0, cursor := 0, maxColumn := 80, screenArea := 80 * 25\<rparr>));
    v \<leftarrow> clearCells (video cd) 0 (screenArea cd);
    Some (cd\<lparr>video := v\<rparr>)
  }"

section \<open>The terminal\<close>

text \<open>What the display implements: a text of cells, always shorter than the screen. A line feed completes the last line; a
  full screen loses its first line.\<close>

definition scroll :: "nat \<Rightarrow> nat \<Rightarrow> 'a list \<Rightarrow> 'a list" where
  "scroll col area t = (if length t = area then drop col t else t)"

definition typeset :: "nat \<Rightarrow> nat \<Rightarrow> u8 \<Rightarrow> u16 list \<Rightarrow> u16 list" where
  "typeset col area c t = scroll col area
    (t @ (if c = newLine then replicate (col - length t mod col) WHITE_SPACE else [ucast c + 0x0f00]))"

definition shownText :: "ConsoleDisplay \<Rightarrow> u16 list" where
  "shownText cd = map (\<lambda>c. video cd ! c) [screen cd..<cursor cd]"

text \<open>The cells on the monitor: those from the start address in registers \<open>0x0c\<close> and \<open>0x0d\<close> on. The cursor is in \<open>0x0e\<close> and \<open>0x0f\<close>.\<close>

definition crtStart :: "CRTC \<Rightarrow> nat" where
  "crtStart d = 256 * unat (crtRegister d 0x0c) + unat (crtRegister d 0x0d)"

definition crtCursor :: "CRTC \<Rightarrow> nat" where
  "crtCursor d = 256 * unat (crtRegister d 0x0e) + unat (crtRegister d 0x0f)"

definition monitor :: "ConsoleDisplay \<Rightarrow> u16 list" where
  "monitor cd = map (\<lambda>c. video cd ! (crtStart (crtc cd) + c)) [0..<screenArea cd]"

definition display_mid :: "ConsoleDisplay \<Rightarrow> bool" where
  "display_mid cd \<longleftrightarrow> 0 < maxColumn cd \<and> maxColumn cd dvd screenArea cd \<and> 2 * screenArea cd \<le> length (video cd) \<and>
     2 * screenArea cd \<le> 2 ^ 16 \<and>
     maxColumn cd dvd screen cd \<and> screen cd < screenArea cd \<and> screen cd \<le> cursor cd \<and> cursor cd \<le> screen cd + screenArea cd \<and>
     (\<forall>c. cursor cd \<le> c \<and> c < screen cd + screenArea cd \<longrightarrow> video cd ! c = WHITE_SPACE) \<and>
     (\<forall>c. screenArea cd \<le> c \<and> c < cursor cd \<longrightarrow> video cd ! (c - screenArea cd) = video cd ! c)"

definition display_inv :: "ConsoleDisplay \<Rightarrow> bool" where
  "display_inv cd \<longleftrightarrow> display_mid cd \<and> cursor cd < screen cd + screenArea cd"

lemma dvd_below:
  fixes a b c :: nat
  assumes "c dvd a" and "c dvd b" and "a < b"
  shows "a + c \<le> b"
  using assms by (auto simp: dvd_def) (metis Suc_leI mult.commute mult_Suc mult_le_mono2 mult_less_cancel1 add.commute)

lemma clearCells_effect:
  "c + n \<le> length v \<Longrightarrow> \<exists>v'. clearCells v c n = Some v' \<and> length v' = length v \<and>
     (\<forall>i. v' ! i = (if c \<le> i \<and> i < c + n then WHITE_SPACE else v ! i))"
proof (induction n arbitrary: v c)
  case (Suc n)
  from Suc.IH [of "Suc c" "v[c := WHITE_SPACE]"] Suc.prems show ?case
    by (auto simp: nth_list_update le_Suc_eq)
qed auto

lemma length_shownText [simp]: "length (shownText cd) = cursor cd - screen cd"
  by (simp add: shownText_def)

text \<open>A cell is written at the cursor and, behind the first screen, one screen earlier.\<close>

definition putCell :: "ConsoleDisplay \<Rightarrow> u16 \<Rightarrow> u16 list" where
  "putCell cd x = (if screenArea cd \<le> cursor cd then (video cd)[cursor cd := x, cursor cd - screenArea cd := x]
     else (video cd)[cursor cd := x])"

lemma printChar_putCell:
  "cursor cd < length (video cd) \<Longrightarrow>
   printChar cd c b f = Some (cd\<lparr>video := putCell cd (ucast c + push_bit 12 b + push_bit 8 f)\<rparr>)"
  by (simp add: printChar_def putCell_def)

lemma putCell_nth:
  assumes "cursor cd < length (video cd)" and "cursor cd < screen cd + screenArea cd" and "screen cd < screenArea cd"
  shows "putCell cd x ! cursor cd = x"
    and "screen cd \<le> i \<Longrightarrow> i \<noteq> cursor cd \<Longrightarrow> putCell cd x ! i = video cd ! i"
    and "\<forall>c. screenArea cd \<le> c \<and> c < cursor cd \<longrightarrow> video cd ! (c - screenArea cd) = video cd ! c \<Longrightarrow>
      screenArea cd \<le> c \<Longrightarrow> c \<le> cursor cd \<Longrightarrow> putCell cd x ! (c - screenArea cd) = putCell cd x ! c"
    and "length (putCell cd x) = length (video cd)"
  using assms by (auto simp: putCell_def nth_list_update)

lemma putCell_mid:
  assumes "display_mid cd" and "cursor cd < screen cd + screenArea cd"
  shows "display_mid (cd\<lparr>video := putCell cd x, cursor := cursor cd + 1\<rparr>)" and "cursor cd < length (video cd)"
proof -
  show l: "cursor cd < length (video cd)" using assms by (simp add: display_mid_def)
  have a: "screen cd < screenArea cd" using assms(1) by (simp add: display_mid_def)
  note n = putCell_nth [OF l assms(2) a]
  show "display_mid (cd\<lparr>video := putCell cd x, cursor := cursor cd + 1\<rparr>)"
    using assms unfolding display_mid_def by (simp add: n)
qed

lemma shownText_append:
  assumes "screen cd \<le> cursor cd"
    and "\<forall>i. screen cd \<le> i \<and> i < cursor cd \<longrightarrow> v ! i = video cd ! i"
  shows "shownText (cd\<lparr>video := v, cursor := cursor cd + 1\<rparr>) = shownText cd @ [v ! cursor cd]"
  using assms by (auto simp: shownText_def)

lemma print_appends:
  assumes "display_mid cd" and "cursor cd < screen cd + screenArea cd"
  obtains v where "printChar cd c 0 0xf = Some (cd\<lparr>video := v\<rparr>)"
    and "display_mid (cd\<lparr>video := v, cursor := cursor cd + 1\<rparr>)"
    and "shownText (cd\<lparr>video := v, cursor := cursor cd + 1\<rparr>) = shownText cd @ [ucast c + 0x0f00]"
proof -
  let ?v = "putCell cd (ucast c + 0x0f00)"
  note l = putCell_mid [OF assms]
  have "printChar cd c 0 0xf = Some (cd\<lparr>video := ?v\<rparr>)" using printChar_putCell [OF l(2), of c 0 "0xf"] by simp
  moreover have "shownText (cd\<lparr>video := ?v, cursor := cursor cd + 1\<rparr>) = shownText cd @ [ucast c + 0x0f00]"
    using shownText_append [of cd ?v] assms by (simp add: display_mid_def putCell_nth [OF l(2) assms(2)])
  ultimately show thesis using l(1) by (intro that)
qed

lemma fillLine_appends:
  "display_mid cd \<Longrightarrow> cursor cd + n \<le> screen cd + screenArea cd \<Longrightarrow>
   \<exists>v. fillLine (cursor cd + n) cd = Some (cd\<lparr>video := v, cursor := cursor cd + n\<rparr>) \<and>
     display_mid (cd\<lparr>video := v, cursor := cursor cd + n\<rparr>) \<and>
     shownText (cd\<lparr>video := v, cursor := cursor cd + n\<rparr>) = shownText cd @ replicate n WHITE_SPACE"
proof (induction n arbitrary: cd)
  case 0
  then show ?case by (auto simp: fillLine.simps intro: exI [of _ "video cd"])
next
  case (Suc n)
  obtain v where v: "printChar cd 0x20 0 0xf = Some (cd\<lparr>video := v\<rparr>)"
    "display_mid (cd\<lparr>video := v, cursor := cursor cd + 1\<rparr>)"
    "shownText (cd\<lparr>video := v, cursor := cursor cd + 1\<rparr>) = shownText cd @ [ucast (0x20 :: u8) + 0x0f00]"
    using print_appends [of cd "0x20"] Suc.prems by auto
  from Suc.IH [OF v(2)] Suc.prems(2) v(3) show ?case
    by (subst fillLine.simps) (auto simp: printWhiteSpace_def v(1) WHITE_SPACE_def)
qed

lemma forward_stays:
  "screen cd \<le> cursor cd \<Longrightarrow> cursor cd < screen cd + screenArea cd \<Longrightarrow> forwardLoop cd = Some cd"
  by (simp add: forwardLoop.simps)

lemma new_line_within:
  assumes mid: "display_mid cd" and less: "cursor cd < screen cd + screenArea cd"
  obtains cd' where "cursorOnNewLine cd = Some (False, cd')" and "forwardScreen cd' False = Some cd'"
    and "display_inv cd'" and "shownText cd' = shownText cd"
    and "maxColumn cd' = maxColumn cd" and "screenArea cd' = screenArea cd"
proof (cases "cursor cd mod maxColumn cd = 0")
  case False
  then show thesis
    using assms by (intro that [of cd]) (auto simp: cursorOnNewLine_def forwardScreen_def display_inv_def display_mid_def intro!: forward_stays)
next
  case True
  have d: "cursor cd + maxColumn cd \<le> screen cd + screenArea cd"
    using dvd_below [of "maxColumn cd" "cursor cd" "screen cd + screenArea cd"] True less mid by (auto simp: display_mid_def)
  have s: "screen cd + maxColumn cd \<le> screenArea cd"
    using dvd_below [of "maxColumn cd" "screen cd" "screenArea cd"] mid by (auto simp: display_mid_def)
  obtain v where v: "clearCells (video cd) (cursor cd) (maxColumn cd) = Some v" "length v = length (video cd)"
    "\<And>i. v ! i = (if cursor cd \<le> i \<and> i < cursor cd + maxColumn cd then WHITE_SPACE else video cd ! i)"
    using clearCells_effect [of "cursor cd" "maxColumn cd" "video cd"] d s mid by (auto simp: display_mid_def)
  show thesis
  proof (rule that [of "cd\<lparr>video := v\<rparr>"])
    show "cursorOnNewLine cd = Some (False, cd\<lparr>video := v\<rparr>)"
      using True less s v(1) by (auto simp: cursorOnNewLine_def Let_def)
    show "forwardScreen (cd\<lparr>video := v\<rparr>) False = Some (cd\<lparr>video := v\<rparr>)"
      using less mid by (auto simp: forwardScreen_def display_mid_def intro!: forward_stays)
    show "display_inv (cd\<lparr>video := v\<rparr>)"
      using mid less d by (auto simp: display_inv_def display_mid_def v(2,3))
    show "shownText (cd\<lparr>video := v\<rparr>) = shownText cd" by (simp add: shownText_def v(3))
  qed simp_all
qed

lemma shownText_scrolled:
  assumes "screen cd \<le> cursor cd" and "screen cd' + n = cursor cd'" and "screen cd + m + n = cursor cd"
    and "\<forall>i<n. video cd' ! (screen cd' + i) = video cd ! (screen cd + m + i)"
  shows "shownText cd' = drop m (shownText cd)"
  using assms by (auto simp: shownText_def list_eq_iff_nth_eq add.assoc)

lemma new_line_forward:
  assumes mid: "display_mid cd" and full: "cursor cd = screen cd + screenArea cd"
    and room: "screen cd + maxColumn cd \<noteq> screenArea cd"
  obtains cd1 cd' where "cursorOnNewLine cd = Some (False, cd1)" and "forwardScreen cd1 False = Some cd'"
    and "display_inv cd'" and "shownText cd' = drop (maxColumn cd) (shownText cd)"
    and "maxColumn cd' = maxColumn cd" and "screenArea cd' = screenArea cd"
proof -
  let ?col = "maxColumn cd" and ?area = "screenArea cd"
  have p: "0 < ?col" "?col dvd ?area" "?col dvd screen cd" "2 * ?area \<le> length (video cd)" "2 * ?area \<le> 2 ^ 16" "screen cd < ?area"
    using mid by (simp_all add: display_mid_def)
  have s: "screen cd + ?col < ?area" using dvd_below [of ?col "screen cd" ?area] p room by simp
  have s2: "screen cd + ?col + ?col \<le> ?area" using dvd_below [of ?col "screen cd + ?col" ?area] p s by simp
  obtain v where v: "clearCells (video cd) (cursor cd) ?col = Some v" "length v = length (video cd)"
    "\<And>i. v ! i = (if cursor cd \<le> i \<and> i < cursor cd + ?col then WHITE_SPACE else video cd ! i)"
    using clearCells_effect [of "cursor cd" ?col "video cd"] full s p by auto
  let ?cd' = "cd\<lparr>video := v, screen := screen cd + ?col\<rparr>"
  show thesis
  proof (rule that [of "cd\<lparr>video := v\<rparr>" ?cd'])
    show "cursorOnNewLine cd = Some (False, cd\<lparr>video := v\<rparr>)"
      using full s s2 p v(1) by (auto simp: cursorOnNewLine_def Let_def)
    show "forwardScreen (cd\<lparr>video := v\<rparr>) False = Some ?cd'"
      using full s p forward_stays [of ?cd'] by (simp add: forwardScreen_def forwardLoop.simps [of "cd\<lparr>video := v\<rparr>"] Let_def)
    show "display_inv ?cd'" using mid full s p by (auto simp: display_inv_def display_mid_def v(2,3))
    show "shownText ?cd' = drop ?col (shownText cd)"
      using full p s by (intro shownText_scrolled [where n = "?area - ?col"]) (auto simp: v(3))
  qed simp_all
qed

lemma new_line_rotate:
  assumes mid: "display_mid cd" and full: "cursor cd = screen cd + screenArea cd"
    and last: "screen cd + maxColumn cd = screenArea cd"
  obtains cd1 cd' where "cursorOnNewLine cd = Some (True, cd1)" and "forwardScreen cd1 True = Some cd'"
    and "display_inv cd'" and "shownText cd' = drop (maxColumn cd) (shownText cd)"
    and "maxColumn cd' = maxColumn cd" and "screenArea cd' = screenArea cd"
proof -
  let ?col = "maxColumn cd" and ?area = "screenArea cd"
  have p: "0 < ?col" "?col dvd ?area" "?col dvd screen cd" "2 * ?area \<le> length (video cd)" "2 * ?area \<le> 2 ^ 16" "screen cd < ?area"
    "\<And>c. ?area \<le> c \<Longrightarrow> c < cursor cd \<Longrightarrow> video cd ! (c - ?area) = video cd ! c"
    using mid by (simp_all add: display_mid_def)
  obtain v where v: "clearCells (video cd) (screen cd) ?col = Some v" "length v = length (video cd)"
    "\<And>i. v ! i = (if screen cd \<le> i \<and> i < screen cd + ?col then WHITE_SPACE else video cd ! i)"
    using clearCells_effect [of "screen cd" ?col "video cd"] last p(4) by auto
  let ?cd1 = "cd\<lparr>video := v, cursor := screen cd\<rparr>"
  let ?cd' = "cd\<lparr>video := v, cursor := screen cd, screen := 0\<rparr>"
  show thesis
  proof (rule that [of ?cd1 ?cd'])
    have "screenArea cd * 2 - maxColumn cd = cursor cd" "cursor cd - screenArea cd = screen cd" using full last by auto
    then show "cursorOnNewLine cd = Some (True, ?cd1)"
      using full p v(1) by (simp add: cursorOnNewLine_def)
    show "forwardScreen ?cd1 True = Some ?cd'"
      using p forward_stays [of ?cd'] by (simp add: forwardScreen_def)
    show "display_inv ?cd'" using mid last p by (auto simp: display_inv_def display_mid_def v(2,3))
    show "shownText ?cd' = drop ?col (shownText cd)"
    proof (rule shownText_scrolled [where n = "screen cd"])
      have "video cd ! i = video cd ! (?area + i)" if "i < screen cd" for i using p(7) [of "?area + i"] that full by simp
      then show "\<forall>i < screen cd. video ?cd' ! (screen ?cd' + i) = video cd ! (screen cd + ?col + i)"
        using last by (simp add: v(3))
    qed (use full last in auto)
  qed simp_all
qed

lemma new_line:
  assumes mid: "display_mid cd"
  obtains r cd1 cd' where "cursorOnNewLine cd = Some (r, cd1)" and "forwardScreen cd1 r = Some cd'" and "display_inv cd'"
    and "shownText cd' = scroll (maxColumn cd) (screenArea cd) (shownText cd)"
    and "maxColumn cd' = maxColumn cd" and "screenArea cd' = screenArea cd"
proof -
  have le: "screen cd \<le> cursor cd" "cursor cd \<le> screen cd + screenArea cd" using mid by (simp_all add: display_mid_def)
  consider (within) "cursor cd < screen cd + screenArea cd"
    | (forward) "cursor cd = screen cd + screenArea cd" "screen cd + maxColumn cd \<noteq> screenArea cd"
    | (rotate) "cursor cd = screen cd + screenArea cd" "screen cd + maxColumn cd = screenArea cd"
    using le by linarith
  then show thesis
  proof cases
    case within
    then have "scroll (maxColumn cd) (screenArea cd) (shownText cd) = shownText cd" using le by (auto simp: scroll_def)
    then show thesis using new_line_within [OF mid within] that by metis
  next
    case forward
    then have "scroll (maxColumn cd) (screenArea cd) (shownText cd) = drop (maxColumn cd) (shownText cd)" by (simp add: scroll_def)
    then show thesis using new_line_forward [OF mid forward] that by metis
  next
    case rotate
    then have "scroll (maxColumn cd) (screenArea cd) (shownText cd) = drop (maxColumn cd) (shownText cd)" by (simp add: scroll_def)
    then show thesis using new_line_rotate [OF mid rotate] that by metis
  qed
qed

lemma rest_of_line:
  assumes "display_inv cd"
  shows "cursor cd + (maxColumn cd - cursor cd mod maxColumn cd) \<le> screen cd + screenArea cd"
    and "cursor cd mod maxColumn cd = (cursor cd - screen cd) mod maxColumn cd"
    and "cursor cd mod maxColumn cd < maxColumn cd"
proof -
  let ?col = "maxColumn cd"
  have p: "0 < ?col" "?col dvd screenArea cd" "?col dvd screen cd" "screen cd \<le> cursor cd" "cursor cd < screen cd + screenArea cd"
    using assms by (simp_all add: display_inv_def display_mid_def)
  then show "cursor cd mod ?col < ?col" by simp
  show "cursor cd mod ?col = (cursor cd - screen cd) mod ?col"
    using p(3,4) by (auto simp: dvd_def le_iff_add)
  have "cursor cd - cursor cd mod ?col + ?col \<le> screen cd + screenArea cd"
    using p by (intro dvd_below) (auto simp: dvd_minus_mod)
  then show "cursor cd + (?col - cursor cd mod ?col) \<le> screen cd + screenArea cd"
    using p(1) mod_less_eq_dividend [of "cursor cd" ?col] mod_less_divisor [of ?col "cursor cd"] by linarith
qed

lemma printConsole_correct:
  "display_inv cd \<Longrightarrow> \<exists>cd'. printConsole cd s = Some cd' \<and> display_inv cd' \<and> maxColumn cd' = maxColumn cd \<and>
     screenArea cd' = screenArea cd \<and> shownText cd' = fold (typeset (maxColumn cd) (screenArea cd)) s (shownText cd)"
proof (induction s arbitrary: cd)
  case (Cons c s)
  have mid: "display_mid cd" "cursor cd < screen cd + screenArea cd" using Cons.prems by (simp_all add: display_inv_def)
  note rest = rest_of_line [OF Cons.prems]
  have "\<exists>cd1. (if c = newLine then fillLine (cursor cd + maxColumn cd - cursor cd mod maxColumn cd) cd
      else do { cd \<leftarrow> printChar cd c 0 0xf; Some (cd\<lparr>cursor := cursor cd + 1\<rparr>) }) = Some cd1 \<and> display_mid cd1 \<and>
      maxColumn cd1 = maxColumn cd \<and> screenArea cd1 = screenArea cd \<and>
      scroll (maxColumn cd) (screenArea cd) (shownText cd1) = typeset (maxColumn cd) (screenArea cd) c (shownText cd)"
  proof (cases "c = newLine")
    case True
    have "cursor cd + maxColumn cd - cursor cd mod maxColumn cd = cursor cd + (maxColumn cd - cursor cd mod maxColumn cd)"
      using rest(3) by simp
    then show ?thesis
      using fillLine_appends [OF mid(1) rest(1)] True rest(2) by (auto simp: typeset_def)
  next
    case False
    then show ?thesis using print_appends [OF mid, of c] by (fastforce simp: typeset_def)
  qed
  then obtain cd1 where 1: "(if c = newLine then fillLine (cursor cd + maxColumn cd - cursor cd mod maxColumn cd) cd
      else do { cd \<leftarrow> printChar cd c 0 0xf; Some (cd\<lparr>cursor := cursor cd + 1\<rparr>) }) = Some cd1" "display_mid cd1"
      "maxColumn cd1 = maxColumn cd" "screenArea cd1 = screenArea cd"
      "scroll (maxColumn cd) (screenArea cd) (shownText cd1) = typeset (maxColumn cd) (screenArea cd) c (shownText cd)"
    by (elim exE conjE) (rule that)
  obtain r cd2 cd3 where 2: "cursorOnNewLine cd1 = Some (r, cd2)" "forwardScreen cd2 r = Some cd3" "display_inv cd3"
    "shownText cd3 = scroll (maxColumn cd1) (screenArea cd1) (shownText cd1)"
    "maxColumn cd3 = maxColumn cd1" "screenArea cd3 = screenArea cd1"
    using new_line [OF 1(2)] .
  show ?case using Cons.IH [OF 2(3)] 1 2 by simp
qed simp

subsection \<open>The registers of the controller\<close>

lemma two_bytes: "n < 2 ^ 16 \<Longrightarrow> 256 * unat (of_nat (n div 256) :: u8) + unat (of_nat n :: u8) = n"
  by (simp add: unat_of_nat)

lemma updateVideoAddress_registers:
  assumes "screen cd < 2 ^ 16"
  shows "crtStart (crtc (updateVideoAddress cd)) = screen cd"
    and "crtCursor (crtc (updateVideoAddress cd)) = crtCursor (crtc cd)"
  using two_bytes [OF assms] by (simp_all add: updateVideoAddress_def out8_def crtStart_def crtCursor_def)

lemma updateCursor_registers:
  assumes "cursor cd < 2 ^ 16"
  shows "crtCursor (crtc (updateCursor cd)) = cursor cd"
    and "crtStart (crtc (updateCursor cd)) = crtStart (crtc cd)"
  using two_bytes [OF assms] by (simp_all add: updateCursor_def out8_def crtStart_def crtCursor_def)

lemma update_fields [simp]:
  "screen (updateCursor cd) = screen cd" "cursor (updateCursor cd) = cursor cd" "maxColumn (updateCursor cd) = maxColumn cd"
  "screenArea (updateCursor cd) = screenArea cd" "video (updateCursor cd) = video cd"
  "screen (updateVideoAddress cd) = screen cd" "cursor (updateVideoAddress cd) = cursor cd"
  "maxColumn (updateVideoAddress cd) = maxColumn cd" "screenArea (updateVideoAddress cd) = screenArea cd"
  "video (updateVideoAddress cd) = video cd"
  by (simp_all add: updateCursor_def updateVideoAddress_def)

lemma update_inv [simp]:
  "display_inv (updateCursor cd) = display_inv cd" "display_inv (updateVideoAddress cd) = display_inv cd"
  "shownText (updateCursor cd) = shownText cd" "shownText (updateVideoAddress cd) = shownText cd"
  by (simp_all add: display_inv_def display_mid_def shownText_def)

text \<open>A display whose registers are up to date shows its text, blank cells after it, and the cursor behind the text.\<close>

definition shows_text :: "ConsoleDisplay \<Rightarrow> u16 list \<Rightarrow> bool" where
  "shows_text cd t \<longleftrightarrow> display_inv cd \<and> shownText cd = t \<and> crtStart (crtc cd) = screen cd \<and> crtCursor (crtc cd) = cursor cd"

lemma shows_text_monitor:
  assumes "shows_text cd t"
  shows "monitor cd = t @ replicate (screenArea cd - length t) WHITE_SPACE" and "length t < screenArea cd"
    and "crtCursor (crtc cd) = crtStart (crtc cd) + length t"
proof -
  have a: "display_inv cd" "shownText cd = t" "crtStart (crtc cd) = screen cd" "crtCursor (crtc cd) = cursor cd"
    using assms by (auto simp: shows_text_def)
  then have l: "length t = cursor cd - screen cd" "screen cd \<le> cursor cd" by (auto simp: display_inv_def display_mid_def)
  then show "length t < screenArea cd" "crtCursor (crtc cd) = crtStart (crtc cd) + length t"
    using a by (auto simp: display_inv_def)
  have "t = map (\<lambda>i. video cd ! (screen cd + i)) [0..<length t]"
    using l unfolding a(2) [symmetric] shownText_def by (simp add: list_eq_iff_nth_eq)
  moreover have "map (\<lambda>i. video cd ! (screen cd + i)) [length t..<screenArea cd] = replicate (screenArea cd - length t) WHITE_SPACE"
    using a(1) l by (auto simp: list_eq_iff_nth_eq display_inv_def display_mid_def)
  moreover have "[0..<screenArea cd] = [0..<length t] @ [length t..<screenArea cd]"
    using \<open>length t < screenArea cd\<close> upt_add_eq_append [of 0 "length t" "screenArea cd - length t"] by simp
  ultimately show "monitor cd = t @ replicate (screenArea cd - length t) WHITE_SPACE"
    unfolding monitor_def a(3) by simp
qed

lemma register_bounds:
  assumes "display_inv cd"
  shows "screen cd < 2 ^ 16" and "cursor cd < 2 ^ 16"
  using assms by (auto simp: display_inv_def display_mid_def)

lemma printString_effect:
  assumes "display_inv cd"
  shows "\<exists>cd'. printString cd s = Some (length s, cd') \<and> maxColumn cd' = maxColumn cd \<and> screenArea cd' = screenArea cd \<and>
    shows_text cd' (fold (typeset (maxColumn cd) (screenArea cd)) s (shownText cd))"
proof -
  obtain cd' where cd': "printConsole cd s = Some cd'" "display_inv cd'" "maxColumn cd' = maxColumn cd" "screenArea cd' = screenArea cd"
    "shownText cd' = fold (typeset (maxColumn cd) (screenArea cd)) s (shownText cd)"
    using printConsole_correct [OF assms, of s] by (elim exE conjE) (rule that)
  have "shows_text (updateVideoAddress (updateCursor cd')) (shownText cd')"
    using cd'(2) register_bounds [OF cd'(2)]
    by (simp add: shows_text_def updateVideoAddress_registers updateCursor_registers)
  then show ?thesis by (simp add: printString_def cd')
qed

lemma backspaceLoop_effect:
  "display_inv cd \<Longrightarrow> \<exists>cd'. backspaceLoop cd a n = Some (a + min n (length (shownText cd)), cd') \<and> display_inv cd' \<and>
     crtc cd' = crtc cd \<and> screen cd' = screen cd \<and> maxColumn cd' = maxColumn cd \<and> screenArea cd' = screenArea cd \<and>
     shownText cd' = take (length (shownText cd) - n) (shownText cd)"
proof (induction n arbitrary: cd a)
  case (Suc n)
  show ?case
  proof (cases "screen cd < cursor cd")
    case False
    then show ?thesis using Suc.prems by (auto simp: display_inv_def display_mid_def shownText_def)
  next
    case True
    let ?cd = "cd\<lparr>cursor := cursor cd - 1\<rparr>"
    let ?cd' = "?cd\<lparr>video := putCell ?cd WHITE_SPACE\<rparr>"
    have p: "2 * screenArea cd \<le> length (video cd)" "screen cd < screenArea cd" "cursor cd < screen cd + screenArea cd"
      "\<And>c. cursor cd \<le> c \<Longrightarrow> c < screen cd + screenArea cd \<Longrightarrow> video cd ! c = WHITE_SPACE"
      "\<And>c. screenArea cd \<le> c \<and> c < cursor cd \<Longrightarrow> video cd ! (c - screenArea cd) = video cd ! c"
      using Suc.prems by (auto simp: display_inv_def display_mid_def)
    have l: "cursor ?cd < length (video ?cd)" "cursor ?cd < screen ?cd + screenArea ?cd" "screen ?cd < screenArea ?cd"
      using p(1-3) by simp_all
    note n = putCell_nth [OF l, simplified]
    have pr: "printWhiteSpace ?cd = Some ?cd'"
      using printChar_putCell [OF l(1), of "0x20" 0 "0xf"] by (simp add: printWhiteSpace_def WHITE_SPACE_def)
    have "putCell ?cd WHITE_SPACE ! c = WHITE_SPACE" if "cursor cd - 1 \<le> c" "c < screen cd + screenArea cd" for c
      using n(1,2) p(4) [of c] that True by (cases "c = cursor cd - 1") auto
    moreover have "putCell ?cd WHITE_SPACE ! (c - screenArea cd) = putCell ?cd WHITE_SPACE ! c" if "screenArea cd \<le> c" "c < cursor cd - 1" for c
    proof -
      have "\<forall>c. screenArea cd \<le> c \<and> c < cursor cd - Suc 0 \<longrightarrow> video cd ! (c - screenArea cd) = video cd ! c"
        using p(5) by auto
      then show ?thesis using n(3) [of c WHITE_SPACE] that by simp
    qed
    ultimately have i: "display_inv ?cd'"
      using Suc.prems True n(4) unfolding display_inv_def display_mid_def by simp linarith
    have t: "shownText ?cd' = take (length (shownText cd) - 1) (shownText cd)"
      using True n(2) by (auto simp: shownText_def take_map list_eq_iff_nth_eq)
    from Suc.IH [OF i, of "Suc a"] True pr t show ?thesis by (auto simp: min_def)
  qed
qed simp

lemma printBackspace_effect:
  assumes "shows_text cd t"
  shows "\<exists>cd'. printBackspace cd n = Some (min n (length t), cd') \<and> maxColumn cd' = maxColumn cd \<and> screenArea cd' = screenArea cd \<and>
    shows_text cd' (take (length t - n) t)"
proof -
  have a: "display_inv cd" "shownText cd = t" "crtStart (crtc cd) = screen cd" using assms by (auto simp: shows_text_def)
  obtain cd' where cd': "backspaceLoop cd 0 n = Some (min n (length t), cd')" "display_inv cd'" "crtc cd' = crtc cd" "screen cd' = screen cd"
    "maxColumn cd' = maxColumn cd" "screenArea cd' = screenArea cd" "shownText cd' = take (length t - n) t"
    using backspaceLoop_effect [OF a(1), of 0 n] a(2) by auto
  then show ?thesis
    using register_bounds [OF cd'(2)] a(3) by (simp add: printBackspace_def shows_text_def updateCursor_registers)
qed

lemma initKernelConsole_effect:
  assumes "2 * (80 * 25) \<le> length (video cd)"
  shows "\<exists>cd'. initKernelConsole cd = Some cd' \<and> maxColumn cd' = 80 \<and> screenArea cd' = 80 * 25 \<and> shows_text cd' []"
proof -
  let ?cd = "updateCursor (updateVideoAddress (cd\<lparr>screen := 0, cursor := 0, maxColumn := 80, screenArea := 80 * 25\<rparr>))"
  obtain v where v: "clearCells (video cd) 0 2000 = Some v" "length v = length (video cd)"
    "\<And>i. v ! i = (if i < 2000 then WHITE_SPACE else video cd ! i)"
    using clearCells_effect [of 0 2000 "video cd"] assms by auto
  have "shows_text (?cd\<lparr>video := v\<rparr>) []"
    using assms v(2,3) updateCursor_registers [of "updateVideoAddress (cd\<lparr>screen := 0, cursor := 0, maxColumn := 80, screenArea := 2000\<rparr>)"]
      updateVideoAddress_registers [of "cd\<lparr>screen := 0, cursor := 0, maxColumn := 80, screenArea := 2000\<rparr>"]
    by (simp add: shows_text_def display_inv_def display_mid_def shownText_def)
  then show ?thesis using v(1) by (simp add: initKernelConsole_def)
qed

subsection \<open>Sessions\<close>

datatype display_op = Print "u8 list" | Backspace nat

fun runDisplay :: "display_op list \<Rightarrow> ConsoleDisplay \<Rightarrow> ConsoleDisplay option" where
  "runDisplay [] cd = Some cd"
| "runDisplay (Print s # ops) cd = printString cd s \<bind> (\<lambda>(_, cd). runDisplay ops cd)"
| "runDisplay (Backspace n # ops) cd = printBackspace cd n \<bind> (\<lambda>(_, cd). runDisplay ops cd)"

fun terminal :: "nat \<Rightarrow> nat \<Rightarrow> display_op \<Rightarrow> u16 list \<Rightarrow> u16 list" where
  "terminal col area (Print s) t = fold (typeset col area) s t"
| "terminal col area (Backspace n) t = take (length t - n) t"

lemma runDisplay_effect:
  "shows_text cd t \<Longrightarrow> \<exists>cd'. runDisplay ops cd = Some cd' \<and> screenArea cd' = screenArea cd \<and>
     shows_text cd' (fold (terminal (maxColumn cd) (screenArea cd)) ops t)"
proof (induction ops arbitrary: cd t)
  case (Cons a ops)
  have "\<exists>cd'. runDisplay (a # ops) cd = runDisplay ops cd' \<and> maxColumn cd' = maxColumn cd \<and> screenArea cd' = screenArea cd \<and>
      shows_text cd' (terminal (maxColumn cd) (screenArea cd) a t)"
  proof (cases a)
    case (Print s)
    then show ?thesis using printString_effect [of cd s] Cons.prems by (auto simp: shows_text_def)
  next
    case (Backspace n)
    then show ?thesis using printBackspace_effect [OF Cons.prems, of n] by auto
  qed
  then show ?case using Cons.IH by fastforce
qed simp

text \<open>C36: whatever is printed and erased after the console has been set up, video memory is never written outside its cells, and the
  monitor, which shows the window whose start is in the registers of the controller, shows the text of a terminal of 25 lines of 80
  cells that scrolls by one line when it is full, blank cells behind the text, and the cursor right behind it.\<close>

theorem display_refines_terminal:
  assumes "2 * (80 * 25) \<le> length (video cd)"
  shows "\<exists>cd'. initKernelConsole cd \<bind> runDisplay ops = Some cd' \<and>
    (let t = fold (terminal 80 (80 * 25)) ops [] in
     monitor cd' = t @ replicate (80 * 25 - length t) WHITE_SPACE \<and> length t < 80 * 25 \<and>
     crtCursor (crtc cd') = crtStart (crtc cd') + length t)"
proof -
  obtain cd1 where cd1: "initKernelConsole cd = Some cd1" "maxColumn cd1 = 80" "screenArea cd1 = 80 * 25" "shows_text cd1 []"
    using initKernelConsole_effect [OF assms] by auto
  obtain cd' where "runDisplay ops cd1 = Some cd'" "screenArea cd' = 80 * 25" "shows_text cd' (fold (terminal 80 (80 * 25)) ops [])"
    using runDisplay_effect [OF cd1(4), of ops] cd1(2,3) by auto
  with cd1(1) show ?thesis using shows_text_monitor [of cd'] by auto
qed

definition blankDisplay :: ConsoleDisplay where
  "blankDisplay = \<lparr>screen = 5, cursor = 7, maxColumn = 0, screenArea = 0, video = replicate 16384 0,
     crtc = \<lparr>crtIndex = 0, crtRegister = (\<lambda>_. 0)\<rparr>\<rparr>"

theorem display_refines_terminal_witness:
  "\<exists>cd'. initKernelConsole blankDisplay \<bind> runDisplay [Print [72, 111], Backspace 1, Print [105]] = Some cd' \<and>
     monitor cd' = [0x0f48, 0x0f69] @ replicate 1998 0x0f20"
  using display_refines_terminal [of blankDisplay "[Print [72, 111], Backspace 1, Print [105]]"]
  by (auto simp: blankDisplay_def typeset_def scroll_def newLine_def WHITE_SPACE_def)

end
