(* ===== verification/Keyboard.thy ===== *)
theory Keyboard
  imports Fifo CommonLib
begin

text \<open>
  The PS/2 driver of \<open>kernel/io/keyboard.c\<close>: scan codes become key events and mouse bytes become mouse events, each kept in a FIFO from which
  the files \<open>ps2:keyboard\<close> and \<open>ps2:mouse\<close> are read. The decoders keep their static variables in records.
\<close>

section \<open>Keys\<close>

text \<open>The constants of \<open>enum SpecialKey\<close>.\<close>

abbreviation (input) NO_KEY :: nat where "NO_KEY \<equiv> 0"
abbreviation (input) BACKSPACE :: nat where "BACKSPACE \<equiv> 8"
abbreviation (input) ENTER :: nat where "ENTER \<equiv> 10"
abbreviation (input) ESC :: nat where "ESC \<equiv> 27"
abbreviation (input) CAPS_LOCK :: nat where "CAPS_LOCK \<equiv> 256"
abbreviation (input) SCROLL_LOCK :: nat where "SCROLL_LOCK \<equiv> 257"
abbreviation (input) NUM_LOCK :: nat where "NUM_LOCK \<equiv> 258"
abbreviation (input) INSERT :: nat where "INSERT \<equiv> 259"
abbreviation (input) BREAK :: nat where "BREAK \<equiv> 260"
abbreviation (input) HOME :: nat where "HOME \<equiv> 261"
abbreviation (input) END :: nat where "END \<equiv> 262"
abbreviation (input) PAGE_UP :: nat where "PAGE_UP \<equiv> 263"
abbreviation (input) PAGE_DOWN :: nat where "PAGE_DOWN \<equiv> 264"
abbreviation (input) UP :: nat where "UP \<equiv> 265"
abbreviation (input) DOWN :: nat where "DOWN \<equiv> 266"
abbreviation (input) LEFT :: nat where "LEFT \<equiv> 267"
abbreviation (input) RIGHT :: nat where "RIGHT \<equiv> 268"
abbreviation (input) F1 :: nat where "F1 \<equiv> 269"
abbreviation (input) LEFT_SHIFT :: nat where "LEFT_SHIFT \<equiv> 281"
abbreviation (input) RIGHT_SHIFT :: nat where "RIGHT_SHIFT \<equiv> 282"
abbreviation (input) LEFT_CTRL :: nat where "LEFT_CTRL \<equiv> 283"
abbreviation (input) RIGHT_CTRL :: nat where "RIGHT_CTRL \<equiv> 284"
abbreviation (input) LEFT_ALT :: nat where "LEFT_ALT \<equiv> 285"
abbreviation (input) RIGHT_ALT :: nat where "RIGHT_ALT \<equiv> 286"
abbreviation (input) LEFT_GUI :: nat where "LEFT_GUI \<equiv> 287"
abbreviation (input) RIGHT_GUI :: nat where "RIGHT_GUI \<equiv> 288"
abbreviation (input) APP :: nat where "APP \<equiv> 289"
abbreviation (input) PAD_ASTERISK :: nat where "PAD_ASTERISK \<equiv> 290"
abbreviation (input) PAD_DIVIDE :: nat where "PAD_DIVIDE \<equiv> 291"
abbreviation (input) PAD_PLUS :: nat where "PAD_PLUS \<equiv> 292"
abbreviation (input) PAD_MINUS :: nat where "PAD_MINUS \<equiv> 293"
abbreviation (input) PAD_0 :: nat where "PAD_0 \<equiv> 294"
abbreviation (input) PAD_ENTER :: nat where "PAD_ENTER \<equiv> 304"
abbreviation (input) PAD_DOT :: nat where "PAD_DOT \<equiv> 305"
abbreviation (input) PRINT_SCREEN :: nat where "PRINT_SCREEN \<equiv> 306"
abbreviation (input) PAUSE :: nat where "PAUSE \<equiv> 307"

text \<open>A row of the keyboard whose codes follow one another.\<close>

definition keyRow :: "string \<Rightarrow> nat \<Rightarrow> (nat \<times> nat) list" where
  "keyRow s code = zip (map of_char s) [code..<code + length s]"

definition scan1 :: "(nat \<times> nat) list" where
  "scan1 = [(ESC, 0x01), (F1, 0x3b), (F1 + 1, 0x3c), (F1 + 2, 0x3d), (F1 + 3, 0x3e), (F1 + 4, 0x3f), (F1 + 5, 0x40), (F1 + 6, 0x41),
     (F1 + 7, 0x42), (F1 + 8, 0x43), (F1 + 9, 0x44), (F1 + 10, 0x57), (F1 + 11, 0x58), (SCROLL_LOCK, 0x46), (96, 0x29)] @
    keyRow ''1234567890-='' 0x02 @ [(BACKSPACE, 0x0e), (9, 0x0f)] @ keyRow ''qwertyuiop[]'' 0x10 @ [(92, 0x2b), (CAPS_LOCK, 0x3a)] @
    keyRow ''asdfghjkl;'' 0x1e @ [(39, 0x28), (ENTER, 0x1c), (LEFT_SHIFT, 0x2a)] @ keyRow ''zxcvbnm,./'' 0x2c @
    [(RIGHT_SHIFT, 0x36), (LEFT_CTRL, 0x1d), (LEFT_ALT, 0x38), (32, 0x39), (NUM_LOCK, 0x45), (PAD_ASTERISK, 0x37), (PAD_MINUS, 0x4a),
     (PAD_PLUS, 0x4e), (PAD_DOT, 0x53), (PAD_0, 0x52), (PAD_0 + 1, 0x4f), (PAD_0 + 2, 0x50), (PAD_0 + 3, 0x51), (PAD_0 + 4, 0x4b),
     (PAD_0 + 5, 0x4c), (PAD_0 + 6, 0x4d), (PAD_0 + 7, 0x47), (PAD_0 + 8, 0x48), (PAD_0 + 9, 0x49)]"

definition scanE0 :: "(nat \<times> nat) list" where
  "scanE0 = [(HOME, 0x47), (END, 0x4f), (PAGE_UP, 0x49), (PAGE_DOWN, 0x51), (UP, 0x48), (DOWN, 0x50), (LEFT, 0x4b), (RIGHT, 0x4d),
     (PAD_DIVIDE, 0x35), (PAD_ENTER, 0x1c), (RIGHT_ALT, 0x38), (RIGHT_CTRL, 0x1d), (INSERT, 0x52), (BREAK, 0x53),
     (LEFT_GUI, 0x5b), (RIGHT_GUI, 0x5c), (APP, 0x5d)]"

text \<open>Key, release flag, and scan codes of the keys with longer codes.\<close>

definition scanSpecial :: "(nat \<times> bool \<times> u8 list) list" where
  "scanSpecial = [(PRINT_SCREEN, False, [0xe0, 0x2a, 0xe0, 0x37]), (PRINT_SCREEN, True, [0xe0, 0xb7, 0xe0, 0xaa]),
     (PAUSE, False, [0xe1, 0x1d, 0x45, 0xe1, 0x9d, 0xc5])]"

record KeyboardEvent =
  ke_key :: nat
  ke_isRelease :: bool

record scanner =
  scan1ToKey :: "nat list"
  scanE0ToKey :: "nat list"
  e0Flag :: bool
  sp :: "nat list"

definition initTable :: "(nat \<times> nat) list \<Rightarrow> nat list" where
  "initTable t = fold (\<lambda>(k, c) m. m[c := k]) t (replicate 256 NO_KEY)"

definition initKeyboard :: scanner where
  "initKeyboard = \<lparr>scan1ToKey = initTable scan1, scanE0ToKey = initTable scanE0, e0Flag = False, sp = [0, 0, 0]\<rparr>"

fun matchSpecial :: "(nat \<times> bool \<times> u8 list) list \<Rightarrow> nat list \<Rightarrow> u8 \<Rightarrow> (nat \<times> bool) option \<Rightarrow> nat list \<times> (nat \<times> bool) option" where
  "matchSpecial ((k, rel, codes) # specials) (i # at) c found =
    (if codes ! i \<noteq> c then (let (at, found) = matchSpecial specials at c found in (0 # at, found))
     else let
       found = (if i + 1 = length codes then Some (k, rel) else found);
       (at, found) = matchSpecial specials at c found in (Suc i # at, found))"
| "matchSpecial _ at c found = (at, found)"

definition scanCodeToKey :: "scanner \<Rightarrow> u8 \<Rightarrow> KeyboardEvent option \<times> scanner" where
  "scanCodeToKey s scanCode = (let
      (at, found) = matchSpecial scanSpecial (sp s) scanCode None;
      (key, re) = (case found of Some (k, rel) \<Rightarrow> (k, rel)
        | None \<Rightarrow> ((if e0Flag s then scanE0ToKey s else scan1ToKey s) ! unat (scanCode AND 0x7f), bit scanCode 7));
      s = s\<lparr>e0Flag := (scanCode = 0xe0), sp := at\<rparr> in
    if key = NO_KEY then (None, s) else (Some \<lparr>ke_key = key, ke_isRelease = re\<rparr>, s\<lparr>sp := [0, 0, 0]\<rparr>))"

definition keyboardInput :: "u8 \<Rightarrow> scanner \<times> KeyboardEvent FIFO \<Rightarrow> scanner \<times> KeyboardEvent FIFO" where
  "keyboardInput data = (\<lambda>(s, kbFIFO). case scanCodeToKey s data of
      (None, s) \<Rightarrow> (s, kbFIFO)
    | (Some ke, s) \<Rightarrow> (s, snd (snd (writeBuffer kbFIFO ke True))))"

section \<open>The mouse\<close>

text \<open>The buttons are bit fields of one bit.\<close>

record MouseEvent =
  moveX :: int
  moveY :: int
  pressLeft :: bool
  pressRight :: bool
  pressMiddle :: bool
  releaseLeft :: bool
  releaseRight :: bool
  releaseMiddle :: bool

definition bitfield :: "u8 \<Rightarrow> bool" where
  "bitfield v = odd (unat v)"

record mouse =
  mouseState :: nat
  prev0 :: u8
  mouseData :: "u8 list"

definition initialMouse :: mouse where
  "initialMouse = \<lparr>mouseState = 0, prev0 = 0, mouseData = [0, 0, 0]\<rparr>"

definition mouseMove :: "u8 \<Rightarrow> u8 \<Rightarrow> nat \<Rightarrow> nat \<Rightarrow> int" where
  "mouseMove d0 d overflowBit signBit = (if bit d0 overflowBit then (if bit d0 signBit then - 128 else 128) else sint d)"

definition mouseInput :: "u8 \<Rightarrow> mouse \<times> MouseEvent FIFO \<Rightarrow> mouse \<times> MouseEvent FIFO" where
  "mouseInput newData = (\<lambda>(m, mouseFIFO).
    if mouseState m = 0 \<and> \<not> bit newData 3 then (m, mouseFIFO)
    else let m = m\<lparr>mouseData := (mouseData m)[mouseState m := newData]\<rparr> in
      if mouseState m < 2 then (m\<lparr>mouseState := mouseState m + 1\<rparr>, mouseFIFO)
      else let
        d = mouseData m;
        pressed = d ! 0 AND (d ! 0 XOR prev0 m);
        released = prev0 m AND (d ! 0 XOR prev0 m);
        me = \<lparr>moveX = mouseMove (d ! 0) (d ! 1) 6 4, moveY = mouseMove (d ! 0) (d ! 2) 7 5,
          pressLeft = bitfield (pressed AND 1), pressRight = bitfield (pressed AND 2), pressMiddle = bitfield (pressed AND 4),
          releaseLeft = bitfield (released AND 1), releaseRight = bitfield (released AND 2), releaseMiddle = bitfield (released AND 4)\<rparr> in
      (m\<lparr>prev0 := d ! 0, mouseState := 0\<rparr>, snd (snd (writeBuffer mouseFIFO me True))))"

section \<open>The driver and its files\<close>

text \<open>The interrupt handler keeps the status and the data byte of the controller, \<open>None\<close> when no byte is readable.\<close>

definition ps2Handler :: "u8 \<Rightarrow> u8 \<Rightarrow> (u8 \<times> u8) FIFO \<Rightarrow> (u8 \<times> u8) FIFO" where
  "ps2Handler status data intFIFO = (if bit status 0 then snd (putFIFO intFIFO (status, data)) else intFIFO)"

record PS2 =
  ps2Keyboard :: "scanner \<times> KeyboardEvent FIFO"
  ps2Mouse :: "mouse \<times> MouseEvent FIFO"

text \<open>One turn of \<open>ps2Driver\<close>.\<close>

definition ps2Driver :: "u8 \<times> u8 \<Rightarrow> PS2 \<Rightarrow> PS2" where
  "ps2Driver d p = (if bit (fst d) 5 then p\<lparr>ps2Mouse := mouseInput (snd d) (ps2Mouse p)\<rparr>
     else p\<lparr>ps2Keyboard := keyboardInput (snd d) (ps2Keyboard p)\<rparr>)"

text \<open>The loop of \<open>readPS2Event\<close>. The buffer is written at \<open>readCount\<close> with a whole element; the result \<open>None\<close> is a write behind its end.
  The first read waits until there is an event, which is there already here.\<close>

function readEvents :: "'a FIFO \<Rightarrow> nat \<Rightarrow> nat \<Rightarrow> nat \<Rightarrow> (nat \<times> 'a list \<times> 'a FIFO) option" where
  "readEvents f elementSize bufferSize readCount =
    (if readCount < bufferSize \<and> 0 < elementSize then (case readBuffer f True of
        (None, f) \<Rightarrow> Some (readCount, [], f)
      | (Some e, f) \<Rightarrow> do {
          kassert (readCount + elementSize \<le> bufferSize);
          (n, es, f) \<leftarrow> readEvents f elementSize bufferSize (readCount + elementSize);
          Some (n, e # es, f)
        })
     else Some (readCount, [], f))"
  by pat_completeness auto
termination
  by (relation "measure (\<lambda>(f, elementSize, bufferSize, readCount). bufferSize - readCount)") auto

declare readEvents.simps [simp del]

definition readPS2Event :: "'a FIFO \<Rightarrow> nat \<Rightarrow> nat \<Rightarrow> (nat \<times> 'a list \<times> 'a FIFO) option option" where
  "readPS2Event f elementSize bufferSize =
    (if bufferSize < 4 then Some None else map_option Some (readEvents f elementSize bufferSize 0))"

datatype ps2File = KeyboardFile | MouseFile

definition openPS2 :: "u8 list \<Rightarrow> u32 \<Rightarrow> bool \<Rightarrow> ps2File option" where
  "openPS2 name openMode allocated =
    (if openMode \<noteq> 0 then None
     else if isStringEqual (cstr name) (length name) (cstr (map of_char ''keyboard'')) 8 then (if allocated then Some KeyboardFile else None)
     else if isStringEqual (cstr name) (length name) (cstr (map of_char ''mouse'')) 5 then (if allocated then Some MouseFile else None)
     else None)"

section \<open>Decoding\<close>

lemma length_initTable: "length (initTable t) = 256"
proof -
  have "length (fold (\<lambda>(k, c) m. m[c := k]) t m) = length m" for m :: "nat list"
    by (induction t arbitrary: m) auto
  then show ?thesis by (simp add: initTable_def)
qed

lemma table_fold:
  fixes m :: "nat list"
  shows "distinct (map snd t) \<Longrightarrow> list_all (\<lambda>(k, c). c < length m) t \<Longrightarrow> i < length m \<Longrightarrow>
    fold (\<lambda>(k, c) m. m[c := k]) t m ! i = (case map_of (map prod.swap t) i of Some k \<Rightarrow> k | None \<Rightarrow> m ! i)"
proof (induction t arbitrary: m)
  case (Cons x t)
  obtain k c where x: "x = (k, c)" by force
  have none: "map_of (map prod.swap t) c = None" if "c \<notin> snd ` set t"
    using that by (force simp: map_of_eq_None_iff)
  show ?case using Cons.IH [of "m[c := k]"] Cons.prems none by (auto simp: x split: option.splits)
qed simp

lemma initTable_entry:
  assumes "distinct (map snd t)" and "list_all (\<lambda>(k, c). c < 256) t" and "(k, c) \<in> set t"
  shows "initTable t ! c = k"
proof -
  have "c < 256" using assms(2,3) by (auto simp: list_all_iff)
  moreover have "map_of (map prod.swap t) c = Some k"
    using assms(1,3) by (intro map_of_is_SomeI) (auto simp: o_def prod.swap_def intro!: image_eqI)
  ultimately show ?thesis using table_fold [of t "replicate 256 0" c] assms(1,2) by (simp add: initTable_def)
qed

lemma initTable_none:
  assumes "distinct (map snd t)" and "list_all (\<lambda>(k, c). c < 256) t" and "c \<notin> set (map snd t)" and "c < 256"
  shows "initTable t ! c = NO_KEY"
proof -
  have "map_of (map prod.swap t) c = None" using assms(3) by (force simp: map_of_eq_None_iff)
  then show ?thesis using table_fold [of t "replicate 256 0" c] assms(1,2,4) by (simp add: initTable_def)
qed

lemma scan1_facts:
  "distinct (map snd scan1)" "list_all (\<lambda>(k, c). c < 128 \<and> k \<noteq> 0 \<and> k < 2 ^ 16) scan1" "0x60 \<notin> set (map snd scan1)" "0x61 \<notin> set (map snd scan1)"
  by (simp_all add: scan1_def keyRow_def)

lemma scanE0_facts:
  "distinct (map snd scanE0)" "list_all (\<lambda>(k, c). c < 128 \<and> k \<noteq> 0 \<and> k < 2 ^ 16) scanE0"
  "0x60 \<notin> set (map snd scanE0)" "0x61 \<notin> set (map snd scanE0)" "0x2a \<notin> set (map snd scanE0)" "0x37 \<notin> set (map snd scanE0)"
  by (simp_all add: scanE0_def)

text \<open>The codes a keyboard sends for an event.\<close>

definition codeOf :: "nat \<Rightarrow> bool \<Rightarrow> u8" where
  "codeOf c rel = of_nat (if rel then c + 128 else c)"

definition scanCodes :: "KeyboardEvent \<Rightarrow> u8 list" where
  "scanCodes ke = (case map_of scan1 (ke_key ke) of Some c \<Rightarrow> [codeOf c (ke_isRelease ke)]
     | None \<Rightarrow> (case map_of scanE0 (ke_key ke) of Some c \<Rightarrow> [0xe0, codeOf c (ke_isRelease ke)]
     | None \<Rightarrow> if ke_isRelease ke then [0xe0, 0xb7, 0xe0, 0xaa] else [0xe0, 0x2a, 0xe0, 0x37]))"

definition knownKey :: "nat \<Rightarrow> bool" where
  "knownKey k \<longleftrightarrow> k \<in> set (map fst scan1) \<or> k \<in> set (map fst scanE0) \<or> k = PRINT_SCREEN"

lemma unat_codeOf: "c < 128 \<Longrightarrow> unat (codeOf c rel) = (if rel then c + 128 else c)"
  by (simp add: codeOf_def unat_of_nat)

lemma codeOf_bits:
  assumes "c < 128"
  shows "unat (codeOf c rel AND 0x7f) = c" and "bit (codeOf c rel) 7 = rel"
proof -
  have "w AND 0x7f = take_bit 7 w" for w :: u8 by (simp add: take_bit_eq_mask mask_eq_exp_minus_1)
  then have "unat (codeOf c rel AND 0x7f) = unat (codeOf c rel) mod 128" by (simp add: unsigned_take_bit_eq take_bit_eq_mod unat_mod_distrib)
  then show "unat (codeOf c rel AND 0x7f) = c" using assms by (simp add: unat_codeOf)
  have "bit (codeOf c rel) 7 = bit (unat (codeOf c rel)) 7" by (simp add: bit_unsigned_iff)
  also have "\<dots> = odd (unat (codeOf c rel) div 128)" by (simp add: bit_iff_odd)
  finally show "bit (codeOf c rel) 7 = rel" using assms by (cases rel) (simp_all add: unat_codeOf div_add_self2)
qed

lemma codeOf_neq:
  assumes "c < 128" and "c \<noteq> n mod 128" and "n < 256"
  shows "codeOf c rel \<noteq> of_nat n"
proof
  assume "codeOf c rel = of_nat n"
  then have "unat (codeOf c rel) = n" using assms(3) by (simp add: unat_of_nat)
  then show False using assms by (auto simp: unat_codeOf split: if_splits)
qed

lemma noSpecial:
  assumes "c \<noteq> 0xe0" and "c \<noteq> 0xe1"
  shows "matchSpecial scanSpecial [0, 0, 0] c None = ([0, 0, 0], None)"
  using assms by (simp add: scanSpecial_def)

lemma plain_code:
  assumes "(k, c) \<in> set scan1"
  shows "scanCodeToKey initKeyboard (codeOf c rel) = (Some \<lparr>ke_key = k, ke_isRelease = rel\<rparr>, initKeyboard)"
proof -
  have "c \<in> set (map snd scan1)" using assms by (force intro: image_eqI)
  then have "c \<noteq> 0x60" "c \<noteq> 0x61" using scan1_facts(3,4) by metis+
  moreover have "c < 128" "k \<noteq> 0" using assms scan1_facts(2) by (auto simp: list_all_iff)
  ultimately have c: "c < 128" "k \<noteq> 0" "c \<noteq> 0x60" "c \<noteq> 0x61" by simp_all
  have n: "codeOf c rel \<noteq> 0xe0" "codeOf c rel \<noteq> 0xe1" using codeOf_neq [of c "0xe0" rel] codeOf_neq [of c "0xe1" rel] c by simp_all
  have "initTable scan1 ! c = k"
    by (rule initTable_entry) (use scan1_facts assms in \<open>auto simp: list_all_iff\<close>)
  then show ?thesis
    using n c by (simp add: scanCodeToKey_def initKeyboard_def noSpecial codeOf_bits)
qed

definition afterE0 :: scanner where
  "afterE0 = initKeyboard\<lparr>e0Flag := True, sp := [1, 1, 0]\<rparr>"

lemma none_entries:
  "initTable scan1 ! 0x60 = 0" "initTable scan1 ! 0x61 = 0" "initTable scanE0 ! 0x2a = 0" "initTable scanE0 ! 0x37 = 0"
proof -
  have "list_all (\<lambda>(k, c). c < 256) scan1" "list_all (\<lambda>(k, c). c < 256) scanE0"
    using scan1_facts(2) scanE0_facts(2) by (auto simp: list_all_iff)
  note t = initTable_none [OF scan1_facts(1) this(1)] initTable_none [OF scanE0_facts(1) this(2)]
  show "initTable scan1 ! 0x60 = 0" by (rule t(1) [OF scan1_facts(3)]) simp
  show "initTable scan1 ! 0x61 = 0" by (rule t(1) [OF scan1_facts(4)]) simp
  show "initTable scanE0 ! 0x2a = 0" by (rule t(2) [OF scanE0_facts(5)]) simp
  show "initTable scanE0 ! 0x37 = 0" by (rule t(2) [OF scanE0_facts(6)]) simp
qed

lemma e0_code: "scanCodeToKey initKeyboard 0xe0 = (None, afterE0)"
  by (simp add: scanCodeToKey_def initKeyboard_def scanSpecial_def afterE0_def none_entries)

lemma extended_code:
  assumes "(k, c) \<in> set scanE0"
  shows "scanCodeToKey afterE0 (codeOf c rel) = (Some \<lparr>ke_key = k, ke_isRelease = rel\<rparr>, initKeyboard)"
proof -
  have "c \<in> set (map snd scanE0)" using assms by (force intro: image_eqI)
  then have "c \<noteq> 0x60" "c \<noteq> 0x61" "c \<noteq> 0x2a" "c \<noteq> 0x37" using scanE0_facts(3-6) by metis+
  moreover have "c < 128" "k \<noteq> 0" using assms scanE0_facts(2) by (auto simp: list_all_iff)
  ultimately have c: "c < 128" "k \<noteq> 0" "c \<noteq> 0x60" "c \<noteq> 0x61" "c \<noteq> 0x2a" "c \<noteq> 0x37" by simp_all
  have n: "codeOf c rel \<noteq> 0xe0" "codeOf c rel \<noteq> 0xe1" "codeOf c rel \<noteq> 0x2a" "codeOf c rel \<noteq> 0xb7"
    using codeOf_neq [of c "0xe0" rel] codeOf_neq [of c "0xe1" rel] codeOf_neq [of c "0x2a" rel] codeOf_neq [of c "0xb7" rel] c by simp_all
  have "initTable scanE0 ! c = k"
    by (rule initTable_entry) (use scanE0_facts assms in \<open>auto simp: list_all_iff\<close>)
  then show ?thesis
    using n [symmetric] n c by (simp add: scanCodeToKey_def afterE0_def initKeyboard_def scanSpecial_def codeOf_bits)
qed

lemma print_screen_codes:
  "scanCodeToKey afterE0 0x2a = (None, initKeyboard\<lparr>sp := [2, 0, 0]\<rparr>)"
  "scanCodeToKey (initKeyboard\<lparr>sp := [2, 0, 0]\<rparr>) 0xe0 = (None, initKeyboard\<lparr>e0Flag := True, sp := [3, Suc 0, 0]\<rparr>)"
  "scanCodeToKey (initKeyboard\<lparr>e0Flag := True, sp := [3, Suc 0, 0]\<rparr>) 0x37 = (Some \<lparr>ke_key = PRINT_SCREEN, ke_isRelease = False\<rparr>, initKeyboard)"
  "scanCodeToKey afterE0 0xb7 = (None, initKeyboard\<lparr>sp := [0, 2, 0]\<rparr>)"
  "scanCodeToKey (initKeyboard\<lparr>sp := [0, 2, 0]\<rparr>) 0xe0 = (None, initKeyboard\<lparr>e0Flag := True, sp := [Suc 0, 3, 0]\<rparr>)"
  "scanCodeToKey (initKeyboard\<lparr>e0Flag := True, sp := [Suc 0, 3, 0]\<rparr>) 0xaa = (Some \<lparr>ke_key = PRINT_SCREEN, ke_isRelease = True\<rparr>, initKeyboard)"
  by (simp_all add: scanCodeToKey_def initKeyboard_def scanSpecial_def afterE0_def none_entries)

text \<open>The events of a sequence of codes.\<close>

fun decode :: "u8 list \<Rightarrow> scanner \<Rightarrow> KeyboardEvent list \<times> scanner" where
  "decode [] s = ([], s)"
| "decode (c # cs) s = (case scanCodeToKey s c of
      (None, s) \<Rightarrow> decode cs s
    | (Some ke, s) \<Rightarrow> let (kes, s) = decode cs s in (ke # kes, s))"

lemma decode_append: "decode (cs @ ds) s = (let (kes, s) = decode cs s; (kes', s) = decode ds s in (kes @ kes', s))"
  by (induction cs arbitrary: s) (auto split: prod.splits option.splits)

lemma decode_event:
  assumes "knownKey (ke_key ke)"
  shows "decode (scanCodes ke) initKeyboard = ([ke], initKeyboard)"
proof -
  consider (plain) c where "map_of scan1 (ke_key ke) = Some c"
    | (extended) c where "map_of scan1 (ke_key ke) = None" "map_of scanE0 (ke_key ke) = Some c"
    | (special) "map_of scan1 (ke_key ke) = None" "map_of scanE0 (ke_key ke) = None" "ke_key ke = PRINT_SCREEN"
    using assms by (cases "map_of scan1 (ke_key ke)"; cases "map_of scanE0 (ke_key ke)") (auto simp: knownKey_def map_of_eq_None_iff)
  then show ?thesis
  proof cases
    case plain
    then show ?thesis using plain_code [OF map_of_SomeD] by (simp add: scanCodes_def)
  next
    case extended
    then show ?thesis using extended_code [OF map_of_SomeD] by (simp add: scanCodes_def e0_code)
  next
    case special
    then show ?thesis by (cases ke) (auto simp: scanCodes_def e0_code print_screen_codes)
  qed
qed

lemma decode_events:
  "list_all (\<lambda>ke. knownKey (ke_key ke)) kes \<Longrightarrow> decode (concat (map scanCodes kes)) initKeyboard = (kes, initKeyboard)"
  by (induction kes) (simp_all add: decode_append decode_event)

lemma overwrite_effect:
  assumes "fifo_inv f"
  shows "fifo_inv (snd (snd (writeBuffer f x True)))" and "bufferLength (snd (snd (writeBuffer f x True))) = bufferLength f"
    and "fifo_abs (snd (snd (writeBuffer f x True))) = drop (length (fifo_abs f @ [x]) - bufferLength f) (fifo_abs f @ [x])"
proof -
  have b: "0 < bufferLength f" "dataLength f \<le> bufferLength f" using assms by (auto simp: fifo_inv_def)
  have tl: "drop (Suc (dataLength f) - bufferLength f) (fifo_abs f @ [x]) = (if dataLength f < bufferLength f then fifo_abs f @ [x] else tl (fifo_abs f) @ [x])"
    using b by (cases "fifo_abs f") (auto simp: drop_Suc dest: arg_cong [where f = length])
  note w = writeBuffer_cases [OF assms]
  show "fifo_inv (snd (snd (writeBuffer f x True)))" "bufferLength (snd (snd (writeBuffer f x True))) = bufferLength f"
    "fifo_abs (snd (snd (writeBuffer f x True))) = drop (length (fifo_abs f @ [x]) - bufferLength f) (fifo_abs f @ [x])"
    using w(1) [of x True] w(3) [of x] tl by (cases "dataLength f < bufferLength f"; auto)+
qed

lemma drop_window: "drop (length (drop (length xs - n) xs @ ys) - n) (drop (length xs - n) xs @ ys) = drop (length (xs @ ys) - n) (xs @ ys)"
  by (cases "n \<le> length xs") (auto simp: drop_append add.commute)

lemma keyboardInput_decode:
  "fifo_inv f \<Longrightarrow> decode cs s = (kes, s') \<Longrightarrow> \<exists>f'. fold keyboardInput cs (s, f) = (s', f') \<and> fifo_inv f' \<and>
     fifo_abs f' = drop (length (fifo_abs f @ kes) - bufferLength f) (fifo_abs f @ kes)"
proof (induction cs arbitrary: s f kes)
  case Nil
  then show ?case by (auto simp: fifo_inv_def)
next
  case (Cons c cs)
  obtain r s1 where r: "scanCodeToKey s c = (r, s1)" by force
  show ?case
  proof (cases r)
    case None
    then show ?thesis using Cons r by (simp add: keyboardInput_def)
  next
    case (Some ke)
    obtain kes' where k: "decode cs s1 = (kes', s')" "kes = ke # kes'"
      using Cons.prems(2) r Some by (auto split: prod.splits)
    let ?f = "snd (snd (writeBuffer f ke True))"
    note o = overwrite_effect [OF Cons.prems(1), of ke]
    have i: "keyboardInput c (s, f) = (s1, ?f)" using r Some by (simp add: keyboardInput_def)
    show ?thesis
      using Cons.IH [OF o(1) k(1)] o(2,3) drop_window [of "fifo_abs f @ [ke]" "bufferLength f" kes'] by (simp add: i k(2))
  qed
qed



section \<open>Reading events\<close>

text \<open>A read whose size is a multiple of the size of an event gets the oldest events, as many as fit, and writes nothing behind its buffer.\<close>

lemma readEvents_effect:
  "fifo_inv f \<Longrightarrow> 0 < w \<Longrightarrow> \<exists>f'. readEvents f w (r + n * w) r =
     Some (r + min n (length (fifo_abs f)) * w, take n (fifo_abs f), f') \<and> fifo_inv f' \<and> fifo_abs f' = drop n (fifo_abs f)"
proof (induction n arbitrary: f r)
  case 0
  then show ?case by (auto simp: readEvents.simps)
next
  case (Suc n)
  show ?case
  proof (cases "fifo_abs f")
    case Nil
    then show ?thesis using readBuffer_cases(1) [OF Suc.prems(1)] Suc.prems length_fifo_abs [of f]
      by (subst readEvents.simps) (auto simp del: length_fifo_abs)
  next
    case (Cons x xs)
    obtain f1 where f1: "readBuffer f True = (Some x, f1)" "fifo_inv f1" "fifo_abs f1 = xs"
      using readBuffer_cases(2) [OF Suc.prems(1) Cons] by auto
    have e: "r + Suc n * w = (r + w) + n * w" by simp
    obtain f' where "readEvents f1 w ((r + w) + n * w) (r + w) = Some ((r + w) + min n (length xs) * w, take n xs, f')"
      "fifo_inv f'" "fifo_abs f' = drop n xs"
      using Suc.IH [OF f1(2) Suc.prems(2), of "r + w"] f1(3) length_fifo_abs [of f1] by (auto simp del: length_fifo_abs)
    moreover have "dataLength f = Suc (length xs)" using Cons length_fifo_abs [of f] by simp
    ultimately show ?thesis
      using f1(1) Suc.prems(2) Cons unfolding e by (subst readEvents.simps) auto
  qed
qed

lemma readPS2Event_effect:
  assumes "fifo_inv f" and "0 < w" and "4 \<le> n * w"
  shows "\<exists>f'. readPS2Event f w (n * w) = Some (Some (min n (length (fifo_abs f)) * w, take n (fifo_abs f), f')) \<and>
    fifo_inv f' \<and> fifo_abs f' = drop n (fifo_abs f)"
  using readEvents_effect [OF assms(1,2), of 0 n] assms(3) by (auto simp: readPS2Event_def)

section \<open>Limits\<close>

text \<open>With any other size the last event is written behind the end of the buffer, also when a mouse event of six bytes is read into the four
  bytes that the check allows.\<close>

lemma readPS2Event_overruns:
  assumes "fifo_inv f" and "fifo_abs f \<noteq> []" and "4 \<le> b" and "b < w"
  shows "readPS2Event f w b = None"
proof -
  obtain x xs where x: "fifo_abs f = x # xs" using assms(2) by (cases "fifo_abs f") auto
  obtain f1 where "readBuffer f True = (Some x, f1)" using readBuffer_cases(2) [OF assms(1) x] by auto
  then show ?thesis using assms(3,4) by (simp add: readPS2Event_def readEvents.simps)
qed

text \<open>The codes of the pause key contain those of control and num lock, which are reported instead.\<close>

lemma pause_not_decoded:
  "fst (decode [0xe1, 0x1d, 0x45, 0xe1, 0x9d, 0xc5] initKeyboard) =
    [\<lparr>ke_key = LEFT_CTRL, ke_isRelease = False\<rparr>, \<lparr>ke_key = NUM_LOCK, ke_isRelease = False\<rparr>,
     \<lparr>ke_key = LEFT_CTRL, ke_isRelease = True\<rparr>, \<lparr>ke_key = NUM_LOCK, ke_isRelease = True\<rparr>]"
proof -
  have e: "initTable scan1 ! 0x1d = LEFT_CTRL" "initTable scan1 ! 0x45 = NUM_LOCK"
    by (rule initTable_entry [OF scan1_facts(1)], use scan1_facts(2) in \<open>auto simp: list_all_iff\<close>, simp add: scan1_def)+
  show ?thesis by (simp add: scanCodeToKey_def initKeyboard_def scanSpecial_def none_entries e)
qed

text \<open>The values of the right and the middle button do not fit into their bit fields: presses and releases of them are never reported.\<close>

lemma bitfield_bits: "bitfield (v AND 1) = bit v 0" "bitfield (v AND 2) = False" "bitfield (v AND 4) = False"
  by (simp_all add: bitfield_def flip: bit_0) (simp_all add: bit_unsigned_iff bit_and_iff)

lemma mouse_packet:
  assumes "mouseState m = 0" and "length (mouseData m) = 3" and "bit d0 3"
  shows "\<exists>me. fold mouseInput [d0, d1, d2] (m, f) =
      (m\<lparr>prev0 := d0, mouseData := [d0, d1, d2]\<rparr>, snd (snd (writeBuffer f me True))) \<and>
    pressLeft me = (bit d0 0 \<and> \<not> bit (prev0 m) 0) \<and> releaseLeft me = (bit (prev0 m) 0 \<and> \<not> bit d0 0) \<and>
    \<not> pressRight me \<and> \<not> pressMiddle me \<and> \<not> releaseRight me \<and> \<not> releaseMiddle me"
proof -
  obtain a b c where d: "mouseData m = [a, b, c]" using assms(2) by (auto simp: length_Suc_conv numeral_3_eq_3)
  show ?thesis using assms(1,3)
    by (simp add: mouseInput_def d Let_def bitfield_bits) (intro exI conjI, rule refl, auto simp: bit_and_iff bit_xor_iff)
qed

end
