(* ===== verification/ConsoleCommand.thy ===== *)
theory ConsoleCommand
  imports Console Keyboard
begin

text \<open>
  The command line of \<open>kernel/io/console.c\<close>: the line being edited, the keys that change it, the commands it runs when nobody listens
  and the readers it serves otherwise. Files answer through the record \<open>shell\<close>, one field for each call, so that the statements hold
  for every answer.
\<close>

section \<open>Commands\<close>

text \<open>\<open>readAnswer\<close> gives the bytes read or a failure; \<open>writeAnswer\<close> the size written, its data \<open>None\<close> standing for the memory between
  address 0 and the end of the command line; \<open>enumAnswers\<close> the successive reads of an opened enumeration (a failure, the
  end, or a name); \<open>runAnswer\<close> is 0 when no task is
  created; \<open>garbage\<close> is a variable that has not been set.\<close>

record shell =
  openAnswer :: "u8 list \<Rightarrow> bool \<Rightarrow> u32"
  heapAnswer :: bool
  readAnswer :: "u32 \<Rightarrow> u8 list option"
  writeAnswer :: "u32 \<Rightarrow> u8 list option \<Rightarrow> u32 option"
  closeAnswer :: "u32 \<Rightarrow> u32"
  enumAnswers :: "u32 \<Rightarrow> u8 list option option list"
  runAnswer :: "u8 list \<Rightarrow> u32"
  garbage :: u32

definition nextArgument :: "u8 list \<Rightarrow> u8 list option \<times> u8 list" where
  "nextArgument cmdLine = (let
      cmdLine = drop (indexOfNot (cstr cmdLine) 0 (length cmdLine) 32) cmdLine in
    if cmdLine = [] then (None, cmdLine)
    else let i = indexOf (cstr cmdLine) 0 (length cmdLine) 32 in (Some (take i cmdLine), drop i cmdLine))"

definition nextHexadecimal :: "shell \<Rightarrow> u8 list \<Rightarrow> (u32 \<times> u8 list) option" where
  "nextHexadecimal sh cmdLine = (case nextArgument cmdLine of
      (None, _) \<Rightarrow> None
    | (Some arg, cmdLine) \<Rightarrow> (case snscanf (cstr arg) (length arg) ''%x'' of (n, stored) \<Rightarrow>
        if n \<noteq> 1 then None
        else Some (case stored of [ScanInt v] \<Rightarrow> v | _ \<Rightarrow> garbage sh, cmdLine)))"

text \<open>A command has a return value and what it prints; the result \<open>None\<close> is a failed assertion or the use of a null pointer.\<close>

type_synonym command = "shell \<Rightarrow> u8 list \<Rightarrow> (u32 \<times> u8 list) option"

definition printed :: "string \<Rightarrow> printArg list \<Rightarrow> u8 list option" where
  "printed format args = map_option (\<lambda>(_, s, _). s) (printk format args)"

definition openCommand' :: "bool \<Rightarrow> command" where
  "openCommand' enumeration sh cmdLine = (case fst (nextArgument cmdLine) of
      None \<Rightarrow> Some (0, [])
    | Some arg \<Rightarrow> Some (openAnswer sh arg enumeration, arg @ [newLine]))"

definition openCommand :: command where
  "openCommand = openCommand' False"

definition enumCommand :: command where
  "enumCommand = openCommand' True"

definition readCommand :: command where
  "readCommand sh cmdLine = (case nextHexadecimal sh cmdLine of
      None \<Rightarrow> Some (0, [])
    | Some (handle, _) \<Rightarrow>
        if \<not> heapAnswer sh then Some (0, [])
        else (case readAnswer sh handle of
            None \<Rightarrow> Some (0, [])
          | Some data \<Rightarrow> if data = [] then Some (0, []) else Some (of_nat (length data), data)))"

definition writeCommand :: command where
  "writeCommand sh cmdLine = (case nextHexadecimal sh cmdLine of
      None \<Rightarrow> Some (0, [])
    | Some (handle, cmdLine) \<Rightarrow> (case writeAnswer sh handle (fst (nextArgument cmdLine)) of
        None \<Rightarrow> Some (0, [])
      | Some n \<Rightarrow> Some (n, [])))"

definition closeCommand :: command where
  "closeCommand sh cmdLine = (case nextHexadecimal sh cmdLine of
      None \<Rightarrow> Some (0, [])
    | Some (handle, _) \<Rightarrow> Some (closeAnswer sh handle, []))"

text \<open>The loop of \<open>dirCommand\<close> over the answers; a list of answers that does not end the loop is a command still running.\<close>

fun dirLoop :: "u8 list option option list \<Rightarrow> u8 list option" where
  "dirLoop [] = None"
| "dirLoop (None # answers) = printed ''read file error\<newline>'' []"
| "dirLoop (Some None # answers) = Some []"
| "dirLoop (Some (Some name) # answers) = map_option (\<lambda>rest. name @ [newLine] @ rest) (dirLoop answers)"

definition dirCommand :: command where
  "dirCommand sh cmdLine = (case fst (nextArgument cmdLine) of
      None \<Rightarrow> map_option (Pair 0) (printed ''missing file name\<newline>'' [])
    | Some arg \<Rightarrow> let fileHandle = openAnswer sh arg True in
        if fileHandle = 0 then map_option (Pair 0) (printed ''open file error\<newline>'' [])
        else do {
          names \<leftarrow> dirLoop (enumAnswers sh fileHandle);
          closing \<leftarrow> (if closeAnswer sh fileHandle = 0 then printed ''close file error\<newline>'' [] else Some []);
          Some (fileHandle, names @ closing)
        })"

definition runCommand :: command where
  "runCommand sh cmdLine = (case fst (nextArgument cmdLine) of
      None \<Rightarrow> map_option (Pair 0) (printed ''missing executable file name\<newline>'' [])
    | Some programName \<Rightarrow> do {
        let t = runAnswer sh programName;
        warning \<leftarrow> (if t = 0 then printed ''failed to start task\<newline>'' [] else Some []);
        kassert (t \<noteq> 0);
        Some (t, warning)
      })"

definition cmdList :: "(u8 list \<times> command) list" where
  "cmdList = [(asc ''open'', openCommand), (asc ''enum'', enumCommand), (asc ''read'', readCommand), (asc ''write'', writeCommand),
     (asc ''close'', closeCommand), (asc ''dir'', dirCommand), (asc ''run'', runCommand)]"

definition parseCommand :: "shell \<Rightarrow> u8 list \<Rightarrow> u8 list option" where
  "parseCommand sh cmdLine = (case nextArgument cmdLine of
      (None, _) \<Rightarrow> Some []
    | (Some arg, cmdLine) \<Rightarrow> (case find (\<lambda>(name, _). length arg = length name \<and> strncmp (cstr arg) (cstr name) (length arg) = Some 0) cmdList of
        Some (_, handle) \<Rightarrow> do {
          (r, out) \<leftarrow> handle sh cmdLine;
          result \<leftarrow> printed ''\<newline>return value = %d (0x%x)\<newline>'' [ArgInt r, ArgInt r];
          Some (out @ result)
        }
      | None \<Rightarrow> do {
          unknown \<leftarrow> printed ''command not found: '' [];
          Some (unknown @ arg @ [newLine])
        }))"

section \<open>The line and its readers\<close>

definition MAX_COMMAND_LINE_LENGTH :: nat where
  "MAX_COMMAND_LINE_LENGTH = 160"

text \<open>A waiting read request is its number and the size of its buffer.\<close>

record ConsoleCommandLine =
  line :: "u8 list"
  lineEnd :: nat
  listenerCount :: int
  lineFIFO :: "u8 FIFO"
  requestHead :: "(nat \<times> nat) list"

definition initConsoleCommandLine :: "ConsoleCommandLine \<Rightarrow> bool \<Rightarrow> ConsoleCommandLine option option" where
  "initConsoleCommandLine cmd allocated =
    (if allocated then map_option (\<lambda>f. Some (cmd\<lparr>lineEnd := 0, listenerCount := 0, lineFIFO := f\<rparr>)) (createFIFO 1024 0) else Some None)"

function drainFIFO :: "'a FIFO \<Rightarrow> 'a FIFO" where
  "drainFIFO f = (case readBuffer f True of (None, f') \<Rightarrow> f' | (Some _, f') \<Rightarrow> drainFIFO f')"
  by pat_completeness auto
termination
  by (relation "measure dataLength") (auto simp: readBuffer_def dequeueBuffer_def split: if_splits)

definition addCmdListenerCount :: "ConsoleCommandLine \<Rightarrow> int \<Rightarrow> ConsoleCommandLine" where
  "addCmdListenerCount cmd v = (let
      cmd = cmd\<lparr>listenerCount := listenerCount cmd + v\<rparr> in
    if listenerCount cmd = 0 then cmd\<lparr>lineFIFO := drainFIFO (lineFIFO cmd)\<rparr> else cmd)"

text \<open>The three parts of \<open>processConsoleInput\<close>: the request is taken from the queue, its buffer is filled from the FIFO, and it is
  completed or put back. Other tasks can run between them.\<close>

definition takeRequest :: "ConsoleCommandLine \<Rightarrow> (nat \<times> nat) option \<times> ConsoleCommandLine" where
  "takeRequest cmd = (case requestHead cmd of [] \<Rightarrow> (None, cmd) | r # rs \<Rightarrow> (Some r, cmd\<lparr>requestHead := rs\<rparr>))"

fun fillRequest :: "nat \<Rightarrow> u8 FIFO \<Rightarrow> u8 list \<times> u8 FIFO" where
  "fillRequest 0 f = ([], f)"
| "fillRequest (Suc n) f = (case readBuffer f True of
      (None, f) \<Rightarrow> ([], f)
    | (Some a, f) \<Rightarrow> (let (s, f) = fillRequest n f in (a # s, f)))"

definition finishRequest :: "nat \<times> nat \<Rightarrow> u8 list \<Rightarrow> ConsoleCommandLine \<Rightarrow> (nat \<times> u8 list) option \<times> ConsoleCommandLine" where
  "finishRequest r s cmd =
    (if 0 < length s \<or> length s = snd r then (Some (fst r, s), cmd)
     else (None, cmd\<lparr>requestHead := r # requestHead cmd\<rparr>))"

definition processConsoleInput :: "ConsoleCommandLine \<Rightarrow> (nat \<times> u8 list) option \<times> ConsoleCommandLine" where
  "processConsoleInput cmd = (case takeRequest cmd of
      (None, cmd) \<Rightarrow> (None, cmd)
    | (Some r, cmd) \<Rightarrow> let (s, f) = fillRequest (snd r) (lineFIFO cmd) in finishRequest r s (cmd\<lparr>lineFIFO := f\<rparr>))"

lemma process_fewer:
  "processConsoleInput cmd = (Some c, cmd') \<Longrightarrow> length (requestHead cmd') < length (requestHead cmd)"
  by (auto simp: processConsoleInput_def takeRequest_def finishRequest_def Let_def split: list.splits if_splits prod.splits)

text \<open>\<open>while(processConsoleInput(cmd))\<close>: the requests completed and what remains.\<close>

function processAll :: "ConsoleCommandLine \<Rightarrow> (nat \<times> u8 list) list \<times> ConsoleCommandLine" where
  "processAll cmd = (case processConsoleInput cmd of
      (None, cmd') \<Rightarrow> ([], cmd')
    | (Some c, cmd') \<Rightarrow> let (cs, cmd'') = processAll cmd' in (c # cs, cmd''))"
  by pat_completeness auto
termination
  by (relation "measure (\<lambda>cmd. length (requestHead cmd))") (auto dest: process_fewer [OF sym])

declare drainFIFO.simps [simp del] processAll.simps [simp del]

fun writeLine :: "u8 FIFO \<Rightarrow> u8 list \<Rightarrow> bool \<times> u8 FIFO" where
  "writeLine f [] = (True, f)"
| "writeLine f (c # s) = (case putFIFO f c of (ok, f) \<Rightarrow> if ok then writeLine f s else (False, f))"

text \<open>The console with its display, the shift key of \<open>kernelConsoleLoop\<close>, and the completed read requests so far.\<close>

record console =
  display :: ConsoleDisplay
  command :: ConsoleCommandLine
  shiftPressed :: bool
  completions :: "(nat \<times> u8 list) list"

definition show_out :: "u8 list \<Rightarrow> console \<Rightarrow> console option" where
  "show_out s c = map_option (\<lambda>(_, cd). c\<lparr>display := cd\<rparr>) (printString (display c) s)"

definition serve :: "console \<Rightarrow> console" where
  "serve c = (let (cs, cmd) = processAll (command c) in c\<lparr>command := cmd, completions := completions c @ cs\<rparr>)"

definition backspaceHandler :: "console \<Rightarrow> console option" where
  "backspaceHandler c =
    (if 0 < lineEnd (command c) then
       map_option (\<lambda>(n, cd). c\<lparr>display := cd, command := (command c)\<lparr>lineEnd := lineEnd (command c) - n\<rparr>\<rparr>) (printBackspace (display c) 1)
     else Some c)"

definition enterHandler :: "shell \<Rightarrow> console \<Rightarrow> console option" where
  "enterHandler sh c = do {
    let cmd = command c;
    kassert (lineEnd cmd < length (line cmd));
    let cmd = cmd\<lparr>line := (line cmd)[lineEnd cmd := newLine], lineEnd := lineEnd cmd + 1\<rparr>;
    c \<leftarrow> show_out [newLine] (c\<lparr>command := cmd\<rparr>);
    c \<leftarrow> (if listenerCount cmd = 0 then do {
            out \<leftarrow> parseCommand sh (take (lineEnd cmd - 1) (line cmd));
            show_out out c
          } else do {
            let (ok, f) = writeLine (lineFIFO cmd) (take (lineEnd cmd) (line cmd));
            warning \<leftarrow> (if ok then Some [] else printed ''warning: command line is truncated because buffer is full.\<newline>'' []);
            c \<leftarrow> show_out warning (c\<lparr>command := cmd\<lparr>lineFIFO := f\<rparr>\<rparr>);
            Some (serve c)
          });
    Some (c\<lparr>command := (command c)\<lparr>lineEnd := 0\<rparr>\<rparr>)
  }"

definition printHandler :: "nat \<Rightarrow> console \<Rightarrow> console option" where
  "printHandler key c = (let cmd = command c in
    if MAX_COMMAND_LINE_LENGTH - 1 \<le> lineEnd cmd then Some c
    else do {
      let key = (if 256 \<le> key then 63 else key);
      kassert (lineEnd cmd < length (line cmd));
      let cmd = cmd\<lparr>line := (line cmd)[lineEnd cmd := of_nat key]\<rparr>;
      (n, cd) \<leftarrow> printString (display c) [line cmd ! lineEnd cmd];
      Some (c\<lparr>display := cd, command := cmd\<lparr>lineEnd := lineEnd cmd + n\<rparr>\<rparr>)
    })"

section \<open>Keys\<close>

definition SHIFT_ARRAY_LENGTH :: nat where
  "SHIFT_ARRAY_LENGTH = 128"

definition unshifted :: string where
  "unshifted = ''`1234567890-=qwertyuiop[]'' @ [CHR 0x5c] @ ''asdfghjkl;'' @ [CHR 0x27] @ ''zxcvbnm,./''"

definition shifted :: string where
  "shifted = ''~!@#$%^&*()_+QWERTYUIOP{}|'' @ ''ASDFGHJKL:'' @ [CHR 0x22] @ ''ZXCVBNM<>?''"

definition createShiftKeyMap :: "nat list" where
  "createShiftKeyMap = fold (\<lambda>(a, b) m. m[of_char a := of_char b]) (zip unshifted shifted) [0..<SHIFT_ARRAY_LENGTH]"

definition shiftKey :: "nat list \<Rightarrow> nat \<Rightarrow> nat" where
  "shiftKey shiftKeyMap key = (if key < SHIFT_ARRAY_LENGTH then shiftKeyMap ! key else key)"

text \<open>One turn of \<open>kernelConsoleLoop\<close>, for the event it has read.\<close>

definition keyEvent :: "shell \<Rightarrow> nat \<Rightarrow> bool \<Rightarrow> console \<Rightarrow> console option" where
  "keyEvent sh key isRelease c =
    (if isRelease then
       (if key = LEFT_SHIFT \<or> key = RIGHT_SHIFT then Some (c\<lparr>shiftPressed := False\<rparr>) else Some c)
     else if key = LEFT_SHIFT \<or> key = RIGHT_SHIFT then Some (c\<lparr>shiftPressed := True\<rparr>)
     else if key = BACKSPACE then backspaceHandler c
     else if key = ENTER then enterHandler sh c
     else printHandler (if shiftPressed c then shiftKey createShiftKeyMap key else key) c)"

section \<open>The console as a file\<close>

definition readConsole :: "bool \<Rightarrow> nat \<Rightarrow> nat \<Rightarrow> console \<Rightarrow> bool \<times> console" where
  "readConsole allocated rwfr bufferSize c =
    (if \<not> allocated then (False, c)
     else (True, serve (c\<lparr>command := (command c)\<lparr>requestHead := (rwfr, bufferSize) # requestHead (command c)\<rparr>\<rparr>)))"

definition writeConsole :: "u8 list \<Rightarrow> console \<Rightarrow> console option" where
  "writeConsole s c = show_out s c"

definition openConsole :: "bool \<Rightarrow> nat \<Rightarrow> console \<Rightarrow> bool \<times> console" where
  "openConsole allocated nameLength c =
    (if nameLength \<noteq> 0 \<or> \<not> allocated then (False, c) else (True, c\<lparr>command := addCmdListenerCount (command c) 1\<rparr>))"

definition closeConsole :: "console \<Rightarrow> console" where
  "closeConsole c = c\<lparr>command := addCmdListenerCount (command c) (- 1)\<rparr>"

section \<open>Serving readers\<close>

lemma fillRequest_effect:
  "fifo_inv f \<Longrightarrow> \<exists>f'. fillRequest n f = (take n (fifo_abs f), f') \<and> fifo_inv f' \<and> fifo_abs f' = drop n (fifo_abs f) \<and>
     bufferLength f' = bufferLength f"
proof (induction n arbitrary: f)
  case (Suc n)
  show ?case
  proof (cases "fifo_abs f")
    case Nil
    then show ?thesis using readBuffer_cases(1) [OF Suc.prems] Suc.prems by simp
  next
    case (Cons x xs)
    obtain f' where "readBuffer f True = (Some x, f')" "fifo_inv f'" "fifo_abs f' = xs" "bufferLength f' = bufferLength f"
      using readBuffer_cases(2) [OF Suc.prems Cons] by auto
    then show ?thesis using Suc.IH [of f'] Cons by auto
  qed
qed simp

lemma writeLine_effect:
  "fifo_inv f \<Longrightarrow> length (fifo_abs f) + length s \<le> bufferLength f \<Longrightarrow>
   \<exists>f'. writeLine f s = (True, f') \<and> fifo_inv f' \<and> fifo_abs f' = fifo_abs f @ s \<and> bufferLength f' = bufferLength f"
proof (induction s arbitrary: f)
  case (Cons c s)
  obtain f' where "putFIFO f c = (True, f')" "fifo_inv f'" "fifo_abs f' = fifo_abs f @ [c]" "bufferLength f' = bufferLength f"
    using fb.put_room [OF Cons.prems(1), of c] Cons.prems(2) by auto
  then show ?case using Cons.IH [of f'] Cons.prems(2) by auto
qed simp

text \<open>What a request in progress leaves alone.\<close>

definition same_line :: "ConsoleCommandLine \<Rightarrow> ConsoleCommandLine \<Rightarrow> bool" where
  "same_line cmd cmd' \<longleftrightarrow> line cmd' = line cmd \<and> lineEnd cmd' = lineEnd cmd \<and> listenerCount cmd' = listenerCount cmd \<and>
     bufferLength (lineFIFO cmd') = bufferLength (lineFIFO cmd)"

lemma processConsoleInput_effect:
  assumes "fifo_inv (lineFIFO cmd)" and "processConsoleInput cmd = (done, cmd')"
  shows "fifo_inv (lineFIFO cmd')" and "same_line cmd cmd'"
    and "(case done of None \<Rightarrow> [] | Some c \<Rightarrow> snd c) @ fifo_abs (lineFIFO cmd') = fifo_abs (lineFIFO cmd)"
    and "done = None \<Longrightarrow> requestHead cmd' = [] \<or> fifo_abs (lineFIFO cmd') = []"
proof -
  have "fifo_inv (lineFIFO cmd') \<and> same_line cmd cmd' \<and>
      (case done of None \<Rightarrow> [] | Some c \<Rightarrow> snd c) @ fifo_abs (lineFIFO cmd') = fifo_abs (lineFIFO cmd) \<and>
      (done = None \<longrightarrow> requestHead cmd' = [] \<or> fifo_abs (lineFIFO cmd') = [])"
  proof (cases "requestHead cmd")
    case Nil
    then show ?thesis using assms by (auto simp: processConsoleInput_def takeRequest_def same_line_def)
  next
    case (Cons r rs)
    obtain f' where f': "fillRequest (snd r) (lineFIFO cmd) = (take (snd r) (fifo_abs (lineFIFO cmd)), f')" "fifo_inv f'"
      "fifo_abs f' = drop (snd r) (fifo_abs (lineFIFO cmd))" "bufferLength f' = bufferLength (lineFIFO cmd)"
      using fillRequest_effect [OF assms(1), of "snd r"] by auto
    show ?thesis
      using assms(2) f' Cons length_fifo_abs [of "lineFIFO cmd"]
      by (auto simp: processConsoleInput_def takeRequest_def finishRequest_def same_line_def simp del: length_fifo_abs split: if_splits)
  qed
  then show "fifo_inv (lineFIFO cmd')" "same_line cmd cmd'"
    "(case done of None \<Rightarrow> [] | Some c \<Rightarrow> snd c) @ fifo_abs (lineFIFO cmd') = fifo_abs (lineFIFO cmd)"
    "done = None \<Longrightarrow> requestHead cmd' = [] \<or> fifo_abs (lineFIFO cmd') = []" by auto
qed

lemma processAll_effect:
  "fifo_inv (lineFIFO cmd) \<Longrightarrow> processAll cmd = (cs, cmd') \<Longrightarrow>
   fifo_inv (lineFIFO cmd') \<and> same_line cmd cmd' \<and> concat (map snd cs) @ fifo_abs (lineFIFO cmd') = fifo_abs (lineFIFO cmd) \<and>
   (requestHead cmd' = [] \<or> fifo_abs (lineFIFO cmd') = [])"
proof (induction cmd arbitrary: cs cmd' rule: processAll.induct)
  case (1 cmd)
  obtain d cmd1 where p: "processConsoleInput cmd = (d, cmd1)" by force
  note e = processConsoleInput_effect [OF 1(2) p]
  show ?case
  proof (cases d)
    case None
    then show ?thesis using 1(3) p e by (simp add: processAll.simps [of cmd])
  next
    case (Some c)
    obtain cs2 cmd2 where q: "processAll cmd1 = (cs2, cmd2)" by force
    have "cs = c # cs2" "cmd' = cmd2" using 1(3) p q Some by (simp_all add: processAll.simps [of cmd])
    moreover have "fifo_inv (lineFIFO cmd2) \<and> same_line cmd1 cmd2 \<and>
        concat (map snd cs2) @ fifo_abs (lineFIFO cmd2) = fifo_abs (lineFIFO cmd1) \<and>
        (requestHead cmd2 = [] \<or> fifo_abs (lineFIFO cmd2) = [])"
      using 1(1) [OF p [symmetric] Some e(1) q] .
    ultimately show ?thesis using e(2,3) Some by (auto simp: same_line_def)
  qed
qed

section \<open>The editor\<close>

text \<open>What the command line implements: a line of at most 159 characters, edited by keys, and the text sent so far.\<close>

definition keyChar :: "bool \<Rightarrow> nat \<Rightarrow> u8" where
  "keyChar sf k = (let k = (if sf then shiftKey createShiftKeyMap k else k) in if 256 \<le> k then 63 else of_nat k)"

fun editKey :: "nat \<Rightarrow> bool \<Rightarrow> bool \<times> u8 list \<times> u8 list \<Rightarrow> bool \<times> u8 list \<times> u8 list" where
  "editKey k isRelease (sf, ln, sent) =
    (if k = LEFT_SHIFT \<or> k = RIGHT_SHIFT then (\<not> isRelease, ln, sent)
     else if isRelease then (sf, ln, sent)
     else if k = BACKSPACE then (sf, butlast ln, sent)
     else if k = ENTER then (sf, [], sent @ ln @ [newLine])
     else if 159 \<le> length ln then (sf, ln, sent)
     else (sf, ln @ [keyChar sf k], sent))"

datatype console_event = Key nat bool | Read nat nat | Write "u8 list"

fun editEvent :: "console_event \<Rightarrow> bool \<times> u8 list \<times> u8 list \<Rightarrow> bool \<times> u8 list \<times> u8 list" where
  "editEvent (Key k isRelease) e = editKey k isRelease e"
| "editEvent _ e = e"

fun consoleStep :: "shell \<Rightarrow> console_event \<Rightarrow> console \<Rightarrow> console option" where
  "consoleStep sh (Key k isRelease) c = keyEvent sh k isRelease c"
| "consoleStep sh (Read r n) c = Some (snd (readConsole True r n c))"
| "consoleStep sh (Write s) c = writeConsole s c"

fun runConsole :: "shell \<Rightarrow> console_event list \<Rightarrow> console \<Rightarrow> console option" where
  "runConsole sh [] c = Some c"
| "runConsole sh (e # es) c = consoleStep sh e c \<bind> runConsole sh es"

definition lineText :: "console \<Rightarrow> u8 list" where
  "lineText c = take (lineEnd (command c)) (line (command c))"

definition console_inv :: "console \<Rightarrow> bool" where
  "console_inv c \<longleftrightarrow> (\<exists>t. shows_text (display c) t \<and> lineEnd (command c) \<le> length t) \<and>
     maxColumn (display c) = 80 \<and> screenArea (display c) = 2000 \<and>
     length (line (command c)) = 160 \<and> lineEnd (command c) \<le> 159 \<and> fifo_inv (lineFIFO (command c))"

definition pendingText :: "console \<Rightarrow> u8 list" where
  "pendingText c = concat (map snd (completions c)) @ fifo_abs (lineFIFO (command c))"

definition nobody_starves :: "console \<Rightarrow> bool" where
  "nobody_starves c \<longleftrightarrow> requestHead (command c) = [] \<or> fifo_abs (lineFIFO (command c)) = []"

lemma typeset_length:
  "n \<le> length t \<Longrightarrow> n \<le> area - col \<Longrightarrow> n \<le> length (typeset col area c t)"
  by (auto simp: typeset_def scroll_def)

lemma typesets_length:
  "n \<le> length t \<Longrightarrow> n \<le> area - col \<Longrightarrow> n \<le> length (fold (typeset col area) s t)"
  by (induction s arbitrary: t) (simp_all add: typeset_length)

lemma typeset_char_length:
  "c \<noteq> newLine \<Longrightarrow> n \<le> length t \<Longrightarrow> Suc n \<le> area - col \<Longrightarrow> Suc n \<le> length (typeset col area c t)"
  by (auto simp: typeset_def scroll_def)

lemma show_out_effect:
  assumes "console_inv c"
  shows "\<exists>cd. printString (display c) s = Some (length s, cd) \<and> show_out s c = Some (c\<lparr>display := cd\<rparr>) \<and> console_inv (c\<lparr>display := cd\<rparr>)"
proof -
  obtain t where t: "shows_text (display c) t" "lineEnd (command c) \<le> length t" using assms by (auto simp: console_inv_def)
  then have "display_inv (display c)" "shownText (display c) = t" by (simp_all add: shows_text_def)
  with printString_effect [of "display c" s] assms obtain cd where
    cd: "printString (display c) s = Some (length s, cd)" "maxColumn cd = 80" "screenArea cd = 2000"
      "shows_text cd (fold (typeset 80 2000) s t)" by (auto simp: console_inv_def)
  have "lineEnd (command c) \<le> length (fold (typeset 80 2000) s t)"
    using assms t(2) by (intro typesets_length) (auto simp: console_inv_def)
  then show ?thesis using assms cd by (auto simp: show_out_def console_inv_def)
qed

lemma serve_effect:
  assumes "console_inv c"
  shows "console_inv (serve c)" and "lineText (serve c) = lineText c" and "lineEnd (command (serve c)) = lineEnd (command c)"
    and "shiftPressed (serve c) = shiftPressed c" and "pendingText (serve c) = pendingText c" and "nobody_starves (serve c)"
    and "listenerCount (command (serve c)) = listenerCount (command c)"
    and "bufferLength (lineFIFO (command (serve c))) = bufferLength (lineFIFO (command c))"
proof -
  obtain cs cmd' where p: "processAll (command c) = (cs, cmd')" by force
  have "fifo_inv (lineFIFO (command c))" using assms by (simp add: console_inv_def)
  note e = processAll_effect [OF this p]
  show "console_inv (serve c)" "lineText (serve c) = lineText c" "lineEnd (command (serve c)) = lineEnd (command c)"
    "shiftPressed (serve c) = shiftPressed c" "nobody_starves (serve c)"
    "listenerCount (command (serve c)) = listenerCount (command c)"
    "bufferLength (lineFIFO (command (serve c))) = bufferLength (lineFIFO (command c))"
    using e assms p by (auto simp: serve_def console_inv_def lineText_def same_line_def nobody_starves_def)
  show "pendingText (serve c) = pendingText c" using e p by (simp add: serve_def pendingText_def)
qed

text \<open>The relation between the console and the editor, from the text \<open>q\<close> that waited at the beginning on.\<close>

definition edits :: "u8 list \<Rightarrow> console \<Rightarrow> bool \<times> u8 list \<times> u8 list \<Rightarrow> bool" where
  "edits q c e \<longleftrightarrow> console_inv c \<and> listenerCount (command c) \<noteq> 0 \<and> nobody_starves c \<and>
     (\<exists>sent. e = (shiftPressed c, lineText c, sent) \<and> pendingText c = q @ sent)"

lemma backspaceHandler_edits:
  assumes "edits q c (sf, ln, sent)"
  shows "\<exists>c'. backspaceHandler c = Some c' \<and> edits q c' (sf, butlast ln, sent) \<and>
    bufferLength (lineFIFO (command c')) = bufferLength (lineFIFO (command c))"
proof -
  have inv: "console_inv c" using assms by (simp add: edits_def)
  obtain t where t: "shows_text (display c) t" "lineEnd (command c) \<le> length t" using inv by (auto simp: console_inv_def)
  obtain cd where cd: "printBackspace (display c) 1 = Some (min 1 (length t), cd)" "maxColumn cd = 80" "screenArea cd = 2000"
      "shows_text cd (take (length t - 1) t)"
    using printBackspace_effect [OF t(1), of 1] inv by (auto simp: console_inv_def)
  have "take (lineEnd (command c) - 1) (line (command c)) = butlast (lineText c)"
    using inv by (simp add: lineText_def butlast_conv_take console_inv_def min_def)
  then show ?thesis
  proof (cases "lineEnd (command c) = 0")
    case True
    then have "ln = []" using assms by (simp add: edits_def lineText_def)
    then show ?thesis using assms True by (auto simp: backspaceHandler_def)
  next
    case False
    assume b: "take (lineEnd (command c) - 1) (line (command c)) = butlast (lineText c)"
    let ?c = "c\<lparr>display := cd, command := (command c)\<lparr>lineEnd := lineEnd (command c) - 1\<rparr>\<rparr>"
    have "min 1 (length t) = 1" using False t(2) by simp
    then have "backspaceHandler c = Some ?c" using cd(1) False by (simp add: backspaceHandler_def)
    moreover have "console_inv ?c"
      using inv cd t(2) unfolding console_inv_def by (auto intro!: exI [of _ "take (length t - 1) t"])
    moreover have "lineText ?c = butlast (lineText c)" using b by (simp add: lineText_def)
    ultimately show ?thesis using assms by (auto simp: edits_def nobody_starves_def pendingText_def)
  qed
qed

lemma shift_updates:
  fixes m :: "nat list"
  shows "list_all (\<lambda>(a, b). of_char b \<noteq> (10::nat)) xs \<Longrightarrow> \<forall>k<length m. k \<noteq> 10 \<longrightarrow> m ! k \<noteq> 10 \<Longrightarrow>
   let m' = fold (\<lambda>(a, b) m. m[of_char a := of_char b]) xs m in length m' = length m \<and> (\<forall>k<length m'. k \<noteq> 10 \<longrightarrow> m' ! k \<noteq> 10)"
proof (induction xs arbitrary: m)
  case (Cons x xs)
  obtain a b where x: "x = (a, b)" by force
  have "\<forall>k<length (m[of_char a := of_char b]). k \<noteq> 10 \<longrightarrow> m[of_char a := of_char b] ! k \<noteq> 10"
    using Cons.prems by (cases "of_char a < length m") (auto simp: x nth_list_update)
  then show ?case using Cons.IH [of "m[of_char a := of_char b]"] Cons.prems(1) by (simp add: x)
qed simp

lemma createShiftKeyMap_newLine: "k < 128 \<Longrightarrow> k \<noteq> 10 \<Longrightarrow> createShiftKeyMap ! k \<noteq> 10"
  using shift_updates [of "zip unshifted shifted" "[0..<128]"]
  by (simp add: createShiftKeyMap_def SHIFT_ARRAY_LENGTH_def unshifted_def shifted_def Let_def)

lemma keyChar_newLine:
  assumes "k \<noteq> 10"
  shows "keyChar sf k \<noteq> newLine"
proof -
  have 1: "shiftKey createShiftKeyMap k \<noteq> 10"
    using createShiftKeyMap_newLine assms by (simp add: shiftKey_def SHIFT_ARRAY_LENGTH_def)
  have "(of_nat n :: u8) \<noteq> 10" if "n < 256" "n \<noteq> 10" for n :: nat
  proof
    assume "(of_nat n :: u8) = 10"
    then have "unat (of_nat n :: u8) = 10" by simp
    then show False using that by (simp add: unat_of_nat)
  qed
  then show ?thesis using 1 assms by (auto simp: keyChar_def newLine_def Let_def)
qed

lemma printHandler_edits:
  assumes "edits q c (sf, ln, sent)" and "k \<noteq> ENTER" "k \<noteq> BACKSPACE" "k \<noteq> LEFT_SHIFT" "k \<noteq> RIGHT_SHIFT"
  shows "\<exists>c'. printHandler (if sf then shiftKey createShiftKeyMap k else k) c = Some c' \<and> edits q c' (editKey k False (sf, ln, sent)) \<and>
    bufferLength (lineFIFO (command c')) = bufferLength (lineFIFO (command c))"
proof (cases "159 \<le> lineEnd (command c)")
  case True
  then show ?thesis
    using assms by (auto simp: printHandler_def Let_def MAX_COMMAND_LINE_LENGTH_def edits_def lineText_def console_inv_def)
next
  case False
  let ?x = "keyChar sf k" and ?n = "lineEnd (command c)"
  have inv: "console_inv c" using assms by (simp add: edits_def)
  have l: "length (line (command c)) = 160" using inv by (simp add: console_inv_def)
  have x: "?x \<noteq> newLine" using assms(2) by (intro keyChar_newLine)
  have of: "of_nat (if 256 \<le> (if sf then shiftKey createShiftKeyMap k else k) then 63 else if sf then shiftKey createShiftKeyMap k else k) = ?x"
    by (simp add: keyChar_def Let_def)
  obtain t where t: "shows_text (display c) t" "?n \<le> length t" using inv by (auto simp: console_inv_def)
  then have "display_inv (display c)" "shownText (display c) = t" by (simp_all add: shows_text_def)
  with printString_effect [of "display c" "[?x]"] inv obtain cd where
    cd: "printString (display c) [?x] = Some (1, cd)" "maxColumn cd = 80" "screenArea cd = 2000"
      "shows_text cd (typeset 80 2000 ?x t)" by (auto simp: console_inv_def)
  have "Suc ?n \<le> length (typeset 80 2000 ?x t)" using typeset_char_length [OF x t(2)] False by simp
  moreover have "take (Suc ?n) ((line (command c))[?n := ?x]) = lineText c @ [?x]"
    using False l by (simp add: lineText_def take_Suc_conv_app_nth)
  ultimately show ?thesis
    using assms False l cd of
    by (auto simp: printHandler_def Let_def MAX_COMMAND_LINE_LENGTH_def edits_def lineText_def console_inv_def nobody_starves_def pendingText_def)
qed

lemma print_keeps:
  assumes "console_inv c"
  obtains cd where "printString (display c) s = Some (length s, cd)" and "console_inv (c\<lparr>display := cd\<rparr>)"
  using show_out_effect [OF assms, of s] that by blast

lemma enterHandler_edits:
  assumes e: "edits q c (sf, ln, sent)" and room: "length (q @ sent @ ln @ [newLine]) \<le> bufferLength (lineFIFO (command c))"
  shows "\<exists>c'. enterHandler sh c = Some c' \<and> edits q c' (sf, [], sent @ ln @ [newLine]) \<and>
    bufferLength (lineFIFO (command c')) = bufferLength (lineFIFO (command c))"
proof -
  let ?cmd = "command c"
  let ?l = "(line ?cmd)[lineEnd ?cmd := newLine]"
  have inv: "console_inv c" and ln: "ln = lineText c" "sf = shiftPressed c" and p: "pendingText c = q @ sent"
    and listen: "listenerCount ?cmd \<noteq> 0"
    using e by (auto simp: edits_def)
  then have l: "length (line ?cmd) = 160" "lineEnd ?cmd \<le> 159" "fifo_inv (lineFIFO ?cmd)" by (auto simp: console_inv_def)
  have whole: "take (Suc (lineEnd ?cmd)) ?l = ln @ [newLine]" using l by (simp add: ln lineText_def take_Suc_conv_app_nth)
  have "length (fifo_abs (lineFIFO ?cmd)) \<le> length (q @ sent)" unfolding p [symmetric] pendingText_def by simp
  then obtain f where f: "writeLine (lineFIFO ?cmd) (ln @ [newLine]) = (True, f)" "fifo_inv f"
    "fifo_abs f = fifo_abs (lineFIFO ?cmd) @ ln @ [newLine]" "bufferLength f = bufferLength (lineFIFO ?cmd)"
    using writeLine_effect [OF l(3), of "ln @ [newLine]"] room by auto
  obtain cd1 where cd1: "printString (display c) [newLine] = Some (1, cd1)" "console_inv (c\<lparr>display := cd1\<rparr>)"
    using print_keeps [OF inv, of "[newLine]"] by auto
  obtain cd2 where cd2: "printString cd1 [] = Some (0, cd2)" "console_inv (c\<lparr>display := cd2\<rparr>)"
    using print_keeps [OF cd1(2), of "[]"] by auto
  let ?cmd2 = "?cmd\<lparr>line := ?l, lineEnd := Suc (lineEnd ?cmd), lineFIFO := f\<rparr>"
  obtain cs cmd3 where s: "processAll ?cmd2 = (cs, cmd3)" by force
  have f2: "fifo_inv (lineFIFO ?cmd2)" using f(2) by simp
  note pr = processAll_effect [OF f2 s]
  let ?c' = "c\<lparr>display := cd2, command := cmd3\<lparr>lineEnd := 0\<rparr>, completions := completions c @ cs\<rparr>"
  have "enterHandler sh c = Some ?c'"
    using l(1,2) listen whole f(1) cd1(1) cd2(1) s by (simp add: enterHandler_def Let_def show_out_def serve_def)
  moreover have "console_inv ?c'" using cd2(2) pr f(2) l by (auto simp: console_inv_def same_line_def)
  moreover have "pendingText ?c' = q @ sent @ ln @ [newLine]" using pr f(3) p by (simp add: pendingText_def)
  ultimately show ?thesis
    using pr listen f(4) ln by (auto simp: edits_def same_line_def nobody_starves_def lineText_def)
qed

lemma consoleStep_edits:
  assumes e: "edits q c e" and room: "length (q @ snd (snd (editEvent ev e))) \<le> bufferLength (lineFIFO (command c))"
  shows "\<exists>c'. consoleStep sh ev c = Some c' \<and> edits q c' (editEvent ev e) \<and>
    bufferLength (lineFIFO (command c')) = bufferLength (lineFIFO (command c))"
proof (cases ev)
  case (Key k r)
  obtain sf ln sent where s: "e = (sf, ln, sent)" by (cases e)
  have sf: "shiftPressed c = sf" using e s by (auto simp: edits_def)
  note simps = Key s sf keyEvent_def
  consider "k = LEFT_SHIFT \<or> k = RIGHT_SHIFT" | "k \<noteq> LEFT_SHIFT" "k \<noteq> RIGHT_SHIFT" r
    | "k \<noteq> LEFT_SHIFT" "k \<noteq> RIGHT_SHIFT" "\<not> r" "k = BACKSPACE" | "k \<noteq> LEFT_SHIFT" "k \<noteq> RIGHT_SHIFT" "\<not> r" "k \<noteq> BACKSPACE" "k = ENTER"
    | "k \<noteq> LEFT_SHIFT" "k \<noteq> RIGHT_SHIFT" "\<not> r" "k \<noteq> BACKSPACE" "k \<noteq> ENTER" by blast
  then show ?thesis
  proof cases
    case 1
    then show ?thesis using e by (auto simp: simps edits_def console_inv_def lineText_def nobody_starves_def pendingText_def)
  next
    case 2
    then show ?thesis using e by (simp add: simps)
  next
    case 3
    then show ?thesis using backspaceHandler_edits e by (simp add: simps)
  next
    case 4
    then show ?thesis using enterHandler_edits [of q c sf ln sent sh] e room by (simp add: simps)
  next
    case 5
    then show ?thesis using printHandler_edits [of q c sf ln sent k] e by (simp add: simps)
  qed
next
  case (Read r n)
  let ?c = "c\<lparr>command := (command c)\<lparr>requestHead := (r, n) # requestHead (command c)\<rparr>\<rparr>"
  have i: "console_inv ?c" using e by (simp add: edits_def console_inv_def)
  have "snd (readConsole True r n c) = serve ?c" by (simp add: readConsole_def)
  then show ?thesis using serve_effect [OF i] e by (auto simp: Read edits_def lineText_def pendingText_def)
next
  case (Write s)
  then show ?thesis
    using show_out_effect [of c s] e by (auto simp: writeConsole_def edits_def lineText_def nobody_starves_def pendingText_def)
qed

lemma sent_grows: "length (snd (snd e)) \<le> length (snd (snd (fold editEvent evs e)))"
proof (induction evs arbitrary: e)
  case (Cons ev evs)
  have "length (snd (snd e)) \<le> length (snd (snd (editEvent ev e)))" by (cases ev; cases e) simp_all
  then show ?case using Cons.IH [of "editEvent ev e"] by simp
qed simp

lemma runConsole_edits:
  "edits q c e \<Longrightarrow> length (q @ snd (snd (fold editEvent evs e))) \<le> bufferLength (lineFIFO (command c)) \<Longrightarrow>
   \<exists>c'. runConsole sh evs c = Some c' \<and> edits q c' (fold editEvent evs e)"
proof (induction evs arbitrary: c e)
  case (Cons ev evs)
  obtain c1 where "consoleStep sh ev c = Some c1" "edits q c1 (editEvent ev e)"
    "bufferLength (lineFIFO (command c1)) = bufferLength (lineFIFO (command c))"
    using consoleStep_edits [OF Cons.prems(1), of ev sh] Cons.prems(2) sent_grows [of "editEvent ev e" evs] by auto
  then show ?case using Cons.IH [of c1 "editEvent ev e"] Cons.prems(2) by simp
qed simp

section \<open>A session\<close>

definition kernelConsoleService :: "ConsoleDisplay \<Rightarrow> ConsoleCommandLine \<Rightarrow> bool \<Rightarrow> bool \<Rightarrow> console option" where
  "kernelConsoleService cd cmd allocated registered = do {
    r \<leftarrow> initConsoleCommandLine cmd allocated;
    cmd \<leftarrow> r;
    kassert registered;
    Some \<lparr>display = cd, command = cmd, shiftPressed = False, completions = []\<rparr>
  }"

lemma start_edits:
  assumes "shows_text cd []" and "maxColumn cd = 80" and "screenArea cd = 80 * 25"
    and "length (line cmd) = 160" and "requestHead cmd = []"
  shows "\<exists>c. kernelConsoleService cd cmd True True = Some c \<and> edits [] (snd (openConsole True 0 c)) (False, [], []) \<and>
    bufferLength (lineFIFO (command (snd (openConsole True 0 c)))) = 1024"
proof -
  obtain f :: "u8 FIFO" where f: "createFIFO 1024 0 = Some f" "bufferLength f = 1024" "fifo_inv f" "fifo_abs f = []"
  proof
    let ?f = "\<lparr>beginIndex = 0, dataLength = 0, bufferLength = 1024, buffer = (\<lambda>_. 0 :: u8)\<rparr>"
    show "fifo_inv ?f" by (simp add: fifo_inv_def) (rule exI [of _ 10], simp)
    show "createFIFO 1024 0 = Some ?f" "bufferLength ?f = 1024" "fifo_abs ?f = []" by (simp_all add: createFIFO_def fifo_abs_def)
  qed
  let ?cmd = "cmd\<lparr>lineEnd := 0, listenerCount := 0, lineFIFO := f\<rparr>"
  have "kernelConsoleService cd cmd True True = Some \<lparr>display = cd, command = ?cmd, shiftPressed = False, completions = []\<rparr>"
    using f(1) by (simp add: kernelConsoleService_def initConsoleCommandLine_def)
  moreover have "edits [] (snd (openConsole True 0 \<lparr>display = cd, command = ?cmd, shiftPressed = False, completions = []\<rparr>)) (False, [], [])"
    using assms f(3,4) by (auto simp: openConsole_def addCmdListenerCount_def edits_def console_inv_def nobody_starves_def lineText_def pendingText_def)
  ultimately show ?thesis using f(2) by (simp add: openConsole_def addCmdListenerCount_def)
qed


definition emptyCommandLine :: ConsoleCommandLine where
  "emptyCommandLine = \<lparr>line = replicate 160 0, lineEnd = 0, listenerCount = 0,
     lineFIFO = \<lparr>beginIndex = 0, dataLength = 0, bufferLength = 0, buffer = (\<lambda>_. 0)\<rparr>, requestHead = []\<rparr>"

definition silentShell :: shell where
  "silentShell = \<lparr>openAnswer = (\<lambda>_ _. 0), heapAnswer = False, readAnswer = (\<lambda>_. None), writeAnswer = (\<lambda>_ _. None), closeAnswer = (\<lambda>_. 0),
     enumAnswers = (\<lambda>_. []), runAnswer = (\<lambda>_. 0), garbage = 0\<rparr>"

lemma typed_hi:
  "fold editEvent [Key 104 False, Key 104 True, Key 105 False, Read 7 2, Key 106 False, Key 8 False, Key 10 False] (False, [], []) =
   (False, [], [104, 105, 10])"
  by (simp add: keyChar_def newLine_def)


section \<open>Limits\<close>

text \<open>\<open>processConsoleInput\<close> gives up the lock between taking a request and putting it back. When a line is entered in between, the request
  goes back to the queue although the buffer holds data, and nobody looks again before the next line.\<close>

lemma console_lost_wakeup:
  assumes "fifo_inv (lineFIFO cmd)" and "fifo_abs (lineFIFO cmd) = []" and "length s \<le> bufferLength (lineFIFO cmd)" and "0 < n"
    and "requestHead cmd = [(r, n)]"
  shows "\<exists>cmd1 f1 f2. takeRequest cmd = (Some (r, n), cmd1) \<and> fillRequest n (lineFIFO cmd1) = ([], f1) \<and>
    writeLine f1 s = (True, f2) \<and> processAll (cmd1\<lparr>lineFIFO := f2\<rparr>) = ([], cmd1\<lparr>lineFIFO := f2\<rparr>) \<and>
    finishRequest (r, n) [] (cmd1\<lparr>lineFIFO := f2\<rparr>) = (None, cmd\<lparr>lineFIFO := f2\<rparr>) \<and> fifo_abs f2 = s"
proof -
  obtain f1 where f1: "fillRequest n (lineFIFO cmd) = ([], f1)" "fifo_inv f1" "fifo_abs f1 = []" "bufferLength f1 = bufferLength (lineFIFO cmd)"
    using fillRequest_effect [OF assms(1), of n] assms(2) by auto
  obtain f2 where "writeLine f1 s = (True, f2)" "fifo_abs f2 = s"
    using writeLine_effect [OF f1(2), of s] f1(3,4) assms(3) by auto
  then show ?thesis using f1(1) assms(4,5)
    by (simp add: takeRequest_def finishRequest_def processAll.simps processConsoleInput_def)
qed

text \<open>A program that cannot be started is reported, and then its null task is resumed.\<close>

lemma runCommand_failure_halts:
  assumes "fst (nextArgument s) = Some name" and "runAnswer sh name = 0"
  shows "runCommand sh s = None"
  using assms by (simp add: runCommand_def)

text \<open>A write command without data passes a null pointer and the address of the end of the line as a size to the file.\<close>

lemma writeCommand_without_data:
  assumes "nextHexadecimal sh s = Some (h, rest)" and "fst (nextArgument rest) = None"
  shows "writeCommand sh s = Some (case writeAnswer sh h None of None \<Rightarrow> 0 | Some n \<Rightarrow> n, [])"
  using assms by (simp add: writeCommand_def split: option.splits)

end
