(* ===== verification/SystemCallTable.thy ===== *)
theory SystemCallTable
  imports IPv4
begin

text \<open>
  The table of system calls of \<open>kernel/interrupt/systemcalltable.c\<close>: reserved numbers, services registered by name, the dispatch of an interrupt,
  and the query of a service, whose name travels from the caller to the kernel in four registers. A handler is an element of a type \<open>'f\<close>.
\<close>

section \<open>The table\<close>

abbreviation (input) NUMBER_OF_RESERVED_SYSTEM_CALLS :: nat where "NUMBER_OF_RESERVED_SYSTEM_CALLS \<equiv> 32"
abbreviation (input) NUMBER_OF_SYSTEM_CALLS :: nat where "NUMBER_OF_SYSTEM_CALLS \<equiv> 64"
abbreviation (input) SYSCALL_QUERY_SERVICE :: nat where "SYSCALL_QUERY_SERVICE \<equiv> 5"
abbreviation (input) MAX_NAME_LENGTH :: nat where "MAX_NAME_LENGTH \<equiv> 16"
abbreviation (input) INVALID_NAME :: int where "INVALID_NAME \<equiv> - 1024"
abbreviation (input) SERVICE_EXISTING :: int where "SERVICE_EXISTING \<equiv> - 1023"
abbreviation (input) SERVICE_NOT_EXISTING :: int where "SERVICE_NOT_EXISTING \<equiv> - 1022"
abbreviation (input) TOO_MANY_SERVICES :: int where "TOO_MANY_SERVICES \<equiv> - 1021"

record 'f SystemCallEntry =
  serviceName :: bytes
  number :: nat
  call :: "'f option"
  argument :: u32

record 'f SystemCallTable =
  usedCount :: nat
  entry :: "'f SystemCallEntry list"

definition registerSystemCall :: "'f SystemCallTable \<Rightarrow> nat \<Rightarrow> 'f \<Rightarrow> u32 \<Rightarrow> 'f SystemCallTable option" where
  "registerSystemCall s systemCall func arg = do {
    kassert (systemCall < length (entry s) \<and> call (entry s ! systemCall) = None);
    kassert (systemCall < NUMBER_OF_RESERVED_SYSTEM_CALLS);
    Some (s\<lparr>entry := (entry s)[systemCall :=
      \<lparr>serviceName = (serviceName (entry s ! systemCall))(0 := 0), number = systemCall, call = Some func, argument = arg\<rparr>]\<rparr>)
  }"

function queryFrom :: "'f SystemCallTable \<Rightarrow> bytes \<Rightarrow> nat \<Rightarrow> nat" where
  "queryFrom s name i =
    (if i < usedCount s then
       (if strncmp name (serviceName (entry s ! i)) MAX_NAME_LENGTH = Some 0 then number (entry s ! i) else queryFrom s name (i + 1))
     else NUMBER_OF_SYSTEM_CALLS)"
  by pat_completeness auto
termination
  by (relation "measure (\<lambda>(s, name, i). usedCount s - i)") auto

declare queryFrom.simps [simp del]

definition queryServiceIndex :: "'f SystemCallTable \<Rightarrow> bytes \<Rightarrow> nat" where
  "queryServiceIndex s name = queryFrom s name NUMBER_OF_RESERVED_SYSTEM_CALLS"

text \<open>The loop \<open>for(a = 0; a < MAX_NAME_LENGTH - 1 && name[a] != '\\0'; a++)\<close> is that of \<open>indexOf\<close>.\<close>

definition isValidName :: "bytes \<Rightarrow> bool" where
  "isValidName name = (let a = indexOf name 0 (MAX_NAME_LENGTH - 1) 0 in \<not> (name a \<noteq> 0 \<or> name 0 = 0))"

definition registerService :: "'f SystemCallTable \<Rightarrow> bytes \<Rightarrow> 'f \<Rightarrow> u32 \<Rightarrow> int \<times> 'f SystemCallTable" where
  "registerService t name func arg =
    (if \<not> isValidName name then (INVALID_NAME, t)
     else if queryServiceIndex t name < NUMBER_OF_SYSTEM_CALLS then (SERVICE_EXISTING, t)
     else let u = usedCount t in
       if u = NUMBER_OF_SYSTEM_CALLS then (TOO_MANY_SERVICES, t)
       else (int u, t\<lparr>usedCount := u + 1, entry := (entry t)[u :=
         \<lparr>serviceName = strncpy (serviceName (entry t ! u)) name MAX_NAME_LENGTH, number = u, call = Some func, argument = arg\<rparr>]\<rparr>))"

definition queryService :: "'f SystemCallTable \<Rightarrow> bytes \<Rightarrow> int" where
  "queryService t name =
    (if \<not> isValidName name then INVALID_NAME
     else let r = queryServiceIndex t name in if r < NUMBER_OF_SYSTEM_CALLS then int r else SERVICE_NOT_EXISTING)"

definition initSystemCall :: "'f \<Rightarrow> u32 \<Rightarrow> bytes \<Rightarrow> u32 \<Rightarrow> 'f SystemCallTable option" where
  "initSystemCall queryHandler table memory memoryArgument =
    registerSystemCall \<lparr>usedCount = NUMBER_OF_RESERVED_SYSTEM_CALLS,
      entry = map (\<lambda>i. \<lparr>serviceName = memory(0 := 0), number = i, call = None, argument = memoryArgument\<rparr>) [0..<NUMBER_OF_SYSTEM_CALLS]\<rparr>
      SYSCALL_QUERY_SERVICE queryHandler table"

section \<open>Interrupts\<close>

record GeneralRegisters =
  edi :: u32
  esi :: u32
  ebx :: u32
  edx :: u32
  ecx :: u32
  eax :: u32

text \<open>\<open>copyReturnValues\<close>: the cases fall through from the last return value to the first.\<close>

definition copyReturnValues :: "GeneralRegisters \<Rightarrow> (nat \<Rightarrow> u32) \<Rightarrow> nat \<Rightarrow> GeneralRegisters option" where
  "copyReturnValues p rv returnCount = do {
    kassert (1 \<le> returnCount \<and> returnCount \<le> 6);
    let p = (if 6 \<le> returnCount then p\<lparr>edi := rv 5\<rparr> else p);
    let p = (if 5 \<le> returnCount then p\<lparr>esi := rv 4\<rparr> else p);
    let p = (if 4 \<le> returnCount then p\<lparr>ebx := rv 3\<rparr> else p);
    let p = (if 3 \<le> returnCount then p\<lparr>ecx := rv 2\<rparr> else p);
    let p = (if 2 \<le> returnCount then p\<lparr>edx := rv 1\<rparr> else p);
    Some (p\<lparr>eax := rv 0\<rparr>)
  }"

text \<open>What a system call runs: the registered handler with its argument, or the default handler.\<close>

datatype 'f dispatch = Unregistered | Call 'f u32

definition systemCallHandler :: "'f SystemCallTable \<Rightarrow> GeneralRegisters \<Rightarrow> 'f dispatch option" where
  "systemCallHandler s p = do {
    kassert (unat (eax p) < NUMBER_OF_SYSTEM_CALLS);
    let e = entry s ! unat (eax p);
    Some (case call e of None \<Rightarrow> Unregistered | Some f \<Rightarrow> Call f (argument e))
  }"

definition registerName :: "GeneralRegisters \<Rightarrow> bytes" where
  "registerName p = cstr (le32 (edx p) @ le32 (ecx p) @ le32 (ebx p) @ le32 (esi p))"

definition queryServiceHandler :: "'f SystemCallTable \<Rightarrow> GeneralRegisters \<Rightarrow> GeneralRegisters" where
  "queryServiceHandler t p = p\<lparr>eax := of_int (queryService t (registerName p))\<rparr>"

text \<open>The caller: the name is copied to a zeroed buffer of four words, which are the arguments of the system call. The rest of the registers
  is \<open>p\<close>; the result is read as a signed number.\<close>

definition systemCall_queryServiceN :: "'f SystemCallTable \<Rightarrow> GeneralRegisters \<Rightarrow> bytes \<Rightarrow> nat \<Rightarrow> int option" where
  "systemCall_queryServiceN t p name nameLength =
    (if MAX_NAME_LENGTH < nameLength then Some INVALID_NAME
     else do {
       let name4 = strncpy (\<lambda>_. 0) name MAX_NAME_LENGTH;
       let r = sint (eax (queryServiceHandler t (p\<lparr>eax := of_nat SYSCALL_QUERY_SERVICE, edx := u32at name4 0, ecx := u32at name4 4,
         ebx := u32at name4 8, esi := u32at name4 12\<rparr>)));
       kassert (r < int NUMBER_OF_SYSTEM_CALLS \<and> int NUMBER_OF_RESERVED_SYSTEM_CALLS \<le> r \<or> r < 0);
       Some r
     })"

definition systemCall_queryService :: "'f SystemCallTable \<Rightarrow> GeneralRegisters \<Rightarrow> bytes \<Rightarrow> int option" where
  "systemCall_queryService t p name = do {
    n \<leftarrow> strlen name;
    systemCall_queryServiceN t p name n
  }"

section \<open>Names\<close>

text \<open>The characters of a name, up to the terminating zero.\<close>

definition cname :: "bytes \<Rightarrow> u8 list" where
  "cname s = view s 0 (indexOf s 0 MAX_NAME_LENGTH 0)"

lemma validName_ends:
  assumes "isValidName s"
  shows "s (indexOf s 0 16 0) = 0" and "indexOf s 0 16 0 < 16" and "0 < indexOf s 0 16 0"
    and "\<And>k. k < indexOf s 0 16 0 \<Longrightarrow> s k \<noteq> 0"
proof -
  let ?a = "indexOf s 0 15 0"
  have z: "s ?a = 0" "s 0 \<noteq> 0" using assms by (auto simp: isValidName_def Let_def)
  have "?a \<le> 15" by (rule indexOf_le) simp
  then show l: "indexOf s 0 16 0 < 16" using indexOf_less [of ?a 0 16 s 0] z(1) by simp
  show e: "s (indexOf s 0 16 0) = 0" using indexOf_found [OF l] .
  then show "0 < indexOf s 0 16 0" using z(2) by (metis gr0I)
  show "s k \<noteq> 0" if "k < indexOf s 0 16 0" for k using indexOf_not_found [of k 0 s 16 0] that by simp
qed

lemma indexOf_first:
  assumes "s m = c" and "\<And>j. j < m \<Longrightarrow> s j \<noteq> c" and "m < n"
  shows "indexOf s 0 n c = m"
proof -
  have l: "indexOf s 0 n c < n" using indexOf_less [of m 0 n s c] assms by simp
  then have "\<not> indexOf s 0 n c < m" using indexOf_found [OF l] assms(2) by blast
  moreover have "\<not> m < indexOf s 0 n c" using indexOf_not_found [of m 0 s n c] assms(1) by auto
  ultimately show ?thesis by simp
qed

lemma nameI:
  assumes "s m = 0" and "\<And>j. j < m \<Longrightarrow> s j \<noteq> 0" and "m < 16" and "0 < m"
  shows "isValidName s" and "cname s = view s 0 m"
proof -
  have "indexOf s 0 15 0 = m"
  proof (cases "m = 15")
    case True
    have "indexOf s 0 15 0 \<le> 15" by (rule indexOf_le) simp
    moreover have "\<not> indexOf s 0 15 0 < 15" using indexOf_found [of s 0 15 0] assms(2) True by blast
    ultimately show ?thesis using True by simp
  next
    case False
    then show ?thesis using indexOf_first [of s m 0 15] assms by auto
  qed
  then show "isValidName s" using assms(1,2,4) by (auto simp: isValidName_def)
  show "cname s = view s 0 m" using indexOf_first [of s m 0 16] assms by (simp add: cname_def)
qed

lemma nameE:
  assumes "isValidName s"
  obtains m where "s m = 0" "\<And>j. j < m \<Longrightarrow> s j \<noteq> 0" "m < 16" "0 < m" "cname s = view s 0 m"
  using validName_ends [OF assms] by (intro that [of "indexOf s 0 16 0"]) (auto simp: cname_def)

lemma strcmp2_from_zero:
  "strcmp2_from s1 s2 n True i = Some 0 \<longleftrightarrow> (\<forall>k\<in>{i..<n}. (\<forall>j\<in>{i..<k}. s1 j \<noteq> 0) \<longrightarrow> s1 k = s2 k)"
proof (induction "n - i" arbitrary: i)
  case 0
  then show ?case by (subst strcmp2_from.simps) simp
next
  case (Suc d)
  then have i: "i < n" "{i..<n} = insert i {Suc i..<n}" by auto
  have s: "(\<forall>j\<in>{i..<k}. s1 j \<noteq> 0) \<longleftrightarrow> s1 i \<noteq> 0 \<and> (\<forall>j\<in>{Suc i..<k}. s1 j \<noteq> 0)" if "k \<in> {Suc i..<n}" for k
  proof -
    have "{i..<k} = insert i {Suc i..<k}" using that by auto
    then show ?thesis by simp
  qed
  show ?case using Suc(1) [of "Suc i"] Suc(2) i(1) unfolding i(2) by (subst strcmp2_from.simps) (simp add: s)
qed

lemma strncmp_names:
  assumes "isValidName s1" and "isValidName s2"
  shows "strncmp s1 s2 16 = Some 0 \<longleftrightarrow> cname s1 = cname s2"
proof -
  obtain m where m: "s1 m = 0" "\<And>j. j < m \<Longrightarrow> s1 j \<noteq> 0" "m < 16" "0 < m" "cname s1 = view s1 0 m" by (rule nameE [OF assms(1)]) blast
  obtain k where k: "s2 k = 0" "\<And>j. j < k \<Longrightarrow> s2 j \<noteq> 0" "k < 16" "0 < k" "cname s2 = view s2 0 k" by (rule nameE [OF assms(2)]) blast
  have "strncmp s1 s2 16 = Some 0 \<longleftrightarrow> (\<forall>i\<le>m. s1 i = s2 i)"
    using strcmp2_from_zero [of s1 s2 16 0] m(1-3)
    by (auto simp: strncmp_def strcmp2_def)
  also have "\<dots> \<longleftrightarrow> cname s1 = cname s2"
  proof
    assume a: "\<forall>i\<le>m. s1 i = s2 i"
    then have "k = m" using m(1,2) k(1,2) by (metis less_imp_le linorder_neqE_nat le_refl)
    then show "cname s1 = cname s2" using a m(5) k(5) view_eq_iff [of s1 0 m s2 0] by simp
  next
    assume c: "cname s1 = cname s2"
    then have "length (cname s1) = length (cname s2)" by simp
    then have "k = m" using m(5) k(5) by simp
    then show "\<forall>i\<le>m. s1 i = s2 i"
      using c m(1,5) k(1,5) view_eq_iff [of s1 0 m s2 0] by (auto simp: le_less)
  qed
  finally show ?thesis .
qed

lemma strncpy_from_name:
  "src (a + d) = 0 \<Longrightarrow> (\<And>j. j < d \<Longrightarrow> src (a + j) \<noteq> 0) \<Longrightarrow> d < k \<Longrightarrow>
   strncpy_from dst src a k i = (if a \<le> i \<and> i \<le> a + d then src i else dst i)"
proof (induction k arbitrary: dst a d)
  case (Suc k)
  show ?case
  proof (cases d)
    case 0
    then show ?thesis using Suc.prems by (auto simp: Let_def)
  next
    case (Suc d')
    have "src a \<noteq> 0" using Suc.prems(2) [of 0] Suc by simp
    moreover have "src (Suc a + j) \<noteq> 0" if "j < d'" for j using Suc.prems(2) [of "Suc j"] Suc that by simp
    ultimately have "strncpy_from (dst(a := src a)) src (Suc a) k i = (if Suc a \<le> i \<and> i \<le> Suc a + d' then src i else (dst(a := src a)) i)"
      using Suc.prems(1,3) Suc by (intro Suc.IH) auto
    then show ?thesis using \<open>src a \<noteq> 0\<close> Suc by (simp add: Let_def)
  qed
qed simp

lemma strncpy_name:
  assumes "isValidName s"
  shows "isValidName (strncpy dst s 16)" and "cname (strncpy dst s 16) = cname s"
proof -
  obtain m where m: "s m = 0" "\<And>j. j < m \<Longrightarrow> s j \<noteq> 0" "m < 16" "0 < m" "cname s = view s 0 m" by (rule nameE [OF assms]) blast
  have c: "strncpy dst s 16 i = (if i \<le> m then s i else dst i)" for i
    using strncpy_from_name [of s 0 m 16 dst i] m(1-3) by (simp add: strncpy_def)
  show "isValidName (strncpy dst s 16)" by (rule nameI(1) [of _ m]) (use m c in auto)
  have "cname (strncpy dst s 16) = view (strncpy dst s 16) 0 m" by (rule nameI(2)) (use m c in auto)
  then show "cname (strncpy dst s 16) = cname s" using m(5) c by (simp add: view_def)
qed

section \<open>The registry\<close>

definition table_inv :: "'f SystemCallTable \<Rightarrow> bool" where
  "table_inv t \<longleftrightarrow> length (entry t) = 64 \<and> 32 \<le> usedCount t \<and> usedCount t \<le> 64 \<and>
     (\<forall>i<64. number (entry t ! i) = i) \<and>
     (\<forall>i. 32 \<le> i \<and> i < usedCount t \<longrightarrow> isValidName (serviceName (entry t ! i)) \<and> call (entry t ! i) \<noteq> None) \<and>
     (\<forall>i. usedCount t \<le> i \<and> i < 64 \<longrightarrow> call (entry t ! i) = None) \<and>
     inj_on (\<lambda>i. cname (serviceName (entry t ! i))) {32..<usedCount t}"

definition services :: "'f SystemCallTable \<Rightarrow> u8 list \<rightharpoonup> nat" where
  "services t n = find (\<lambda>i. cname (serviceName (entry t ! i)) = n) [32..<usedCount t]"

lemma services_None:
  "services t n = None \<longleftrightarrow> (\<forall>i. 32 \<le> i \<and> i < usedCount t \<longrightarrow> cname (serviceName (entry t ! i)) \<noteq> n)"
  by (auto simp: services_def find_None_iff)

lemma services_Some:
  assumes "table_inv t"
  shows "services t n = Some i \<longleftrightarrow> 32 \<le> i \<and> i < usedCount t \<and> cname (serviceName (entry t ! i)) = n"
proof -
  have j: "inj_on (\<lambda>i. cname (serviceName (entry t ! i))) {32..<usedCount t}" using assms by (simp add: table_inv_def)
  have r: "32 \<le> i \<and> i < usedCount t \<and> cname (serviceName (entry t ! i)) = n" if "services t n = Some i" for i
    using that by (auto simp: services_def find_Some_iff)
  show ?thesis
  proof
    assume i: "32 \<le> i \<and> i < usedCount t \<and> cname (serviceName (entry t ! i)) = n"
    then obtain k where k: "services t n = Some k" by (metis option.exhaust services_None)
    then show "services t n = Some i" using r [OF k] i j by (auto dest: inj_onD)
  qed (rule r)
qed

lemma queryFrom_first:
  "\<exists>k. i \<le> k \<and> (\<forall>j. i \<le> j \<and> j < k \<longrightarrow> strncmp name (serviceName (entry s ! j)) 16 \<noteq> Some 0) \<and>
     (if k < usedCount s then strncmp name (serviceName (entry s ! k)) 16 = Some 0 \<and> queryFrom s name i = number (entry s ! k)
      else queryFrom s name i = 64)"
proof (induction s name i rule: queryFrom.induct)
  case (1 s name i)
  show ?case
  proof (cases "i < usedCount s \<and> strncmp name (serviceName (entry s ! i)) 16 \<noteq> Some 0")
    case True
    then obtain k where k: "i + 1 \<le> k" "\<forall>j. i + 1 \<le> j \<and> j < k \<longrightarrow> strncmp name (serviceName (entry s ! j)) 16 \<noteq> Some 0"
      "if k < usedCount s then strncmp name (serviceName (entry s ! k)) 16 = Some 0 \<and> queryFrom s name (i + 1) = number (entry s ! k)
       else queryFrom s name (i + 1) = 64" using 1 by blast
    have "strncmp name (serviceName (entry s ! j)) 16 \<noteq> Some 0" if "i \<le> j" "j < k" for j
      using k(2) that True by (cases "j = i") auto
    then show ?thesis using k(1,3) True by (intro exI [of _ k]) (cases "k < usedCount s"; simp add: queryFrom.simps [of s name i])
  next
    case False
    then show ?thesis by (intro exI [of _ i]) (auto simp: queryFrom.simps [of s name i])
  qed
qed

lemma queryServiceIndex_services:
  assumes "table_inv t" and "isValidName name"
  shows "queryServiceIndex t name = (case services t (cname name) of Some i \<Rightarrow> i | None \<Rightarrow> 64)"
proof -
  have c: "strncmp name (serviceName (entry t ! i)) 16 = Some 0 \<longleftrightarrow> cname (serviceName (entry t ! i)) = cname name"
    if "32 \<le> i" "i < usedCount t" for i
    using strncmp_names [OF assms(2)] assms(1) that by (auto simp: table_inv_def)
  obtain k where k: "32 \<le> k" "\<forall>j. 32 \<le> j \<and> j < k \<longrightarrow> strncmp name (serviceName (entry t ! j)) 16 \<noteq> Some 0"
    "if k < usedCount t then strncmp name (serviceName (entry t ! k)) 16 = Some 0 \<and> queryFrom t name 32 = number (entry t ! k)
     else queryFrom t name 32 = 64" using queryFrom_first [of 32 name t] by blast
  show ?thesis
  proof (cases "k < usedCount t")
    case True
    then have "services t (cname name) = Some k" "number (entry t ! k) = k"
      using c [of k] k assms(1) by (auto simp: services_Some table_inv_def)
    then show ?thesis using k(3) True by (simp add: queryServiceIndex_def)
  next
    case False
    then have "services t (cname name) = None" using c k(2) by (auto simp: services_None)
    then show ?thesis using k(3) False by (simp add: queryServiceIndex_def)
  qed
qed

lemma services_bound: "table_inv t \<Longrightarrow> services t n = Some i \<Longrightarrow> 32 \<le> i \<and> i < 64"
  by (auto simp: services_Some table_inv_def)

lemma queryService_services:
  assumes "table_inv t"
  shows "queryService t name = (if isValidName name then (case services t (cname name) of Some i \<Rightarrow> int i | None \<Rightarrow> SERVICE_NOT_EXISTING)
    else INVALID_NAME)"
  using queryServiceIndex_services [OF assms, of name] services_bound [OF assms, of "cname name"]
  by (auto simp: queryService_def Let_def split: option.splits)

lemma registerService_effect:
  assumes inv: "table_inv t" and valid: "isValidName name" and new: "services t (cname name) = None" and room: "usedCount t < 64"
  obtains t' where "registerService t name f arg = (int (usedCount t), t')" and "table_inv t'"
    and "services t' = (services t)(cname name \<mapsto> usedCount t)"
    and "call (entry t' ! usedCount t) = Some f" and "argument (entry t' ! usedCount t) = arg"
    and "\<And>i. i \<noteq> usedCount t \<Longrightarrow> entry t' ! i = entry t ! i"
proof -
  let ?u = "usedCount t"
  let ?e = "\<lparr>serviceName = strncpy (serviceName (entry t ! ?u)) name 16, number = ?u, call = Some f, argument = arg\<rparr>"
  let ?t = "t\<lparr>usedCount := ?u + 1, entry := (entry t)[?u := ?e]\<rparr>"
  have l: "?u < length (entry t)" "32 \<le> ?u" using inv room by (auto simp: table_inv_def)
  have n: "entry ?t ! i = (if i = ?u then ?e else entry t ! i)" for i using l(1) by simp
  have nu: "cname (serviceName (entry t ! i)) \<noteq> cname name" if "32 \<le> i" "i < ?u" for i using new that by (simp add: services_None)
  have j: "inj_on (\<lambda>i. cname (serviceName (entry ?t ! i))) {32..<usedCount ?t}"
  proof (rule inj_onI)
    fix i k
    assume a: "i \<in> {32..<usedCount ?t}" "k \<in> {32..<usedCount ?t}"
      and e: "cname (serviceName (entry ?t ! i)) = cname (serviceName (entry ?t ! k))"
    have old: "i = k" if "i < ?u" "k < ?u"
      using inv a e that n unfolding table_inv_def inj_on_def by simp
    show "i = k"
      using a e old nu [of i] nu [of k] strncpy_name(2) [OF valid] l(1) by (cases "i = ?u"; cases "k = ?u") auto
  qed
  have inv': "table_inv ?t"
    using inv room l strncpy_name(1) [OF valid] j unfolding table_inv_def n by (simp add: less_Suc_eq)
  have "services ?t m = ((services t)(cname name \<mapsto> ?u)) m" for m
  proof (cases "services ?t m")
    case None
    then have a: "\<forall>i. 32 \<le> i \<and> i < Suc ?u \<longrightarrow> cname (serviceName (entry ?t ! i)) \<noteq> m" by (simp add: services_None)
    have "m \<noteq> cname name" using a [rule_format, of ?u] l strncpy_name(2) [OF valid] by (auto simp: n)
    moreover have "services t m = None" using a by (auto simp: services_None n)
    ultimately show ?thesis using None by simp
  next
    case (Some i)
    then have i: "32 \<le> i" "i < Suc ?u" "cname (serviceName (entry ?t ! i)) = m" using services_Some [OF inv'] by auto
    show ?thesis
    proof (cases "i = ?u")
      case True
      then show ?thesis using Some i(3) l(1) strncpy_name(2) [OF valid] by simp
    next
      case False
      then have "services t m = Some i" "m \<noteq> cname name" using i nu [of i] by (auto simp: services_Some [OF inv] n)
      then show ?thesis using Some by simp
    qed
  qed
  then have "services ?t = (services t)(cname name \<mapsto> ?u)" by (rule ext)
  moreover have "registerService t name f arg = (int ?u, ?t)"
    using queryServiceIndex_services [OF inv valid] new valid room by (simp add: registerService_def Let_def)
  ultimately show thesis using inv' l(1) by (intro that [of ?t]) auto
qed

section \<open>Names in registers\<close>

lemma byte_digits:
  fixes a b c d :: nat
  assumes "a < 256" "b < 256" "c < 256" "d < 256"
  shows "(a + 256 * b + 65536 * c + 16777216 * d) mod 256 = a" "(a + 256 * b + 65536 * c + 16777216 * d) div 256 mod 256 = b"
    "(a + 256 * b + 65536 * c + 16777216 * d) div 65536 mod 256 = c" "(a + 256 * b + 65536 * c + 16777216 * d) div 16777216 mod 256 = d"
proof -
  have n: "a + 256 * b + 65536 * c + 16777216 * d = a + 256 * (b + 256 * (c + 256 * d))" by simp
  have q: "m div 65536 = m div 256 div 256" "m div 16777216 = m div 256 div 256 div 256" for m :: nat
    by (simp_all add: div_mult2_eq [symmetric])
  have s: "(x + 256 * y) div 256 = y" "(x + 256 * y) mod 256 = x" if "x < 256" for x y :: nat
    using that by simp_all
  show "(a + 256 * b + 65536 * c + 16777216 * d) mod 256 = a" "(a + 256 * b + 65536 * c + 16777216 * d) div 256 mod 256 = b"
    "(a + 256 * b + 65536 * c + 16777216 * d) div 65536 mod 256 = c" "(a + 256 * b + 65536 * c + 16777216 * d) div 16777216 mod 256 = d"
    unfolding n q using assms by (simp_all only: s mod_less)
qed

lemma le32_u32at: "le32 (u32at s i) = [s i, s (i + 1), s (i + 2), s (i + 3)]"
proof -
  let ?n = "unat (s i) + 256 * unat (s (i + 1)) + 65536 * unat (s (i + 2)) + 16777216 * unat (s (i + 3))"
  have b: "unat (s i) < 256" "unat (s (i + 1)) < 256" "unat (s (i + 2)) < 256" "unat (s (i + 3)) < 256" by (rule byte_less)+
  then have u: "unat (u32at s i) = ?n" unfolding u32at_def by (subst unat_of_nat) simp
  note m = byte_digits [OF b]
  show ?thesis using m by (simp add: le32_def word_unat_eq_iff unat_low unat_drop u)
qed

lemma registerName_bytes:
  "edx p = u32at s 0 \<Longrightarrow> ecx p = u32at s 4 \<Longrightarrow> ebx p = u32at s 8 \<Longrightarrow> esi p = u32at s 12 \<Longrightarrow>
   registerName p = cstr (view s 0 16)"
proof -
  assume a: "edx p = u32at s 0" "ecx p = u32at s 4" "ebx p = u32at s 8" "esi p = u32at s 12"
  have "[0..<16::nat] = [0, 0 + 1, 0 + 2, 0 + 3, 4, 4 + 1, 4 + 2, 4 + 3, 8, 8 + 1, 8 + 2, 8 + 3, 12, 12 + 1, 12 + 2, 12 + 3]"
    by (simp add: upt_conv_Cons eval_nat_numeral)
  then show ?thesis using a by (simp add: registerName_def le32_u32at view_def)
qed

lemma prefix_name:
  assumes "\<And>i. i < 16 \<Longrightarrow> (\<And>j. j < i \<Longrightarrow> s j \<noteq> 0) \<Longrightarrow> s' i = s i"
  shows "isValidName s' = isValidName s" and "isValidName s \<Longrightarrow> cname s' = cname s"
proof -
  have 1: "isValidName s' \<and> cname s' = cname s" if v: "isValidName s"
  proof -
    obtain m where m: "s m = 0" "\<And>j. j < m \<Longrightarrow> s j \<noteq> 0" "m < 16" "0 < m" "cname s = view s 0 m" by (rule nameE [OF v]) blast
    have e: "s' i = s i" if "i \<le> m" for i using assms [of i] m(2,3) that by simp
    have "s' m = 0" "\<And>j. j < m \<Longrightarrow> s' j \<noteq> 0" using m(1,2) e by auto
    note n = nameI [of s' m, OF this m(3,4)]
    show ?thesis using n m(5) view_eq_iff [of s' 0 m s 0] e by simp
  qed
  have "isValidName s" if v: "isValidName s'"
  proof -
    obtain m where m: "s' m = 0" "\<And>j. j < m \<Longrightarrow> s' j \<noteq> 0" "m < 16" "0 < m" "cname s' = view s' 0 m" by (rule nameE [OF v]) blast
    have e: "s i \<noteq> 0 \<and> s' i = s i" if "i < m" for i
      using that
    proof (induction i rule: less_induct)
      case (less i)
      then have "s' i = s i" using assms [of i] m(3) by simp
      then show ?case using m(2) [OF less(2)] by metis
    qed
    then have "s m = 0" using assms [of m] m(1,3) by simp
    then show ?thesis using e m(3,4) by (intro nameI(1) [of s m]) auto
  qed
  with 1 show "isValidName s' = isValidName s" "isValidName s \<Longrightarrow> cname s' = cname s" by blast+
qed

lemma strncpy_prefix:
  assumes "i < n" and "\<And>j. j < i \<Longrightarrow> s j \<noteq> 0"
  shows "strncpy dst s n i = s i"
proof -
  have "strncpy_from dst s a k i = s i" if "a \<le> i" "i < a + k" for a k dst
    using that
  proof (induction k arbitrary: a dst)
    case (Suc k)
    have keep: "strncpy_from dst s a k j = dst j" if "j < a" for a k j dst
      using that by (induction k arbitrary: a dst) (auto simp: Let_def)
    show ?case using Suc assms(2) keep by (cases "a = i") (auto simp: Let_def)
  qed simp
  then show ?thesis using assms(1) by (simp add: strncpy_def)
qed

lemma sint_service: "- 1024 \<le> r \<Longrightarrow> r < 64 \<Longrightarrow> sint (of_int r :: u32) = r"
  by (simp add: signed_of_int signed_take_bit_int_eq_self)

lemma queryServiceN_services:
  assumes inv: "table_inv t" and n: "n \<le> 16"
  shows "systemCall_queryServiceN t p name n = Some (if isValidName name
    then (case services t (cname name) of Some i \<Rightarrow> int i | None \<Rightarrow> SERVICE_NOT_EXISTING) else INVALID_NAME)"
proof -
  let ?s = "strncpy (\<lambda>_. 0) name 16"
  let ?p = "p\<lparr>eax := 5, edx := u32at ?s 0, ecx := u32at ?s 4, ebx := u32at ?s 8, esi := u32at ?s 12\<rparr>"
  have r: "registerName ?p = cstr (view ?s 0 16)" by (rule registerName_bytes) simp_all
  have b: "registerName ?p i = name i" if "i < 16" "\<And>j. j < i \<Longrightarrow> name j \<noteq> 0" for i
    using strncpy_prefix [of i 16 name] that unfolding r by (simp add: cstr_def)
  note q = queryService_services [OF inv, of "registerName ?p"] prefix_name [of name "registerName ?p", OF b]
  have "queryService t (registerName ?p) = (if isValidName name
      then (case services t (cname name) of Some i \<Rightarrow> int i | None \<Rightarrow> SERVICE_NOT_EXISTING) else INVALID_NAME)"
    using q by auto
  then show ?thesis
    using n services_bound [OF inv, of "cname name"]
    by (auto simp: systemCall_queryServiceN_def queryServiceHandler_def sint_service split: option.splits)
qed

lemma initSystemCall_inv:
  "\<exists>t. initSystemCall h a m ma = Some t \<and> table_inv t \<and> services t = Map.empty \<and> usedCount t = 32"
  by (auto simp: initSystemCall_def registerSystemCall_def table_inv_def services_def nth_list_update fun_eq_iff)

text \<open>C39: the table of services is a map from names to numbers. A registration refuses an invalid name, a name that is taken and a
  full table without changing anything, and otherwise binds the name to the next number, whose system call then runs the new handler, all other numbers
  running what they ran before. A query for any name, sent through the registers of a system call, returns what the map holds, and its assertion holds.\<close>

theorem service_registry_correct:
  assumes "table_inv t" and "registerService t name f arg = (r, t')" and "n \<le> 16"
  shows "table_inv t' \<and>
    (if \<not> isValidName name then r = INVALID_NAME \<and> t' = t
     else if services t (cname name) \<noteq> None then r = SERVICE_EXISTING \<and> t' = t
     else if usedCount t = 64 then r = TOO_MANY_SERVICES \<and> t' = t
     else r = int (usedCount t) \<and> services t' = (services t)(cname name \<mapsto> usedCount t) \<and>
       systemCallHandler t' (p\<lparr>eax := of_int r\<rparr>) = Some (Call f arg) \<and>
       (eax p = of_int r \<or> systemCallHandler t' p = systemCallHandler t p)) \<and>
    systemCall_queryServiceN t' p q n = Some (if isValidName q
      then (case services t' (cname q) of Some i \<Rightarrow> int i | None \<Rightarrow> SERVICE_NOT_EXISTING) else INVALID_NAME)"
proof (cases "isValidName name \<and> services t (cname name) = None \<and> usedCount t \<noteq> 64")
  case False
  have "r = (if \<not> isValidName name then INVALID_NAME else if services t (cname name) \<noteq> None then SERVICE_EXISTING else TOO_MANY_SERVICES)
      \<and> t' = t"
    using assms(2) False queryServiceIndex_services [OF assms(1), of name] services_bound [OF assms(1), of "cname name"]
    by (auto simp: registerService_def Let_def split: if_splits option.splits)
  then show ?thesis using False queryServiceN_services [OF assms(1,3), of p q] assms(1) by auto
next
  case True
  have u: "usedCount t < 64" using True assms(1) by (auto simp: table_inv_def)
  obtain t2 where t2: "registerService t name f arg = (int (usedCount t), t2)" "table_inv t2"
    "services t2 = (services t)(cname name \<mapsto> usedCount t)" "call (entry t2 ! usedCount t) = Some f" "argument (entry t2 ! usedCount t) = arg"
    "\<And>i. i \<noteq> usedCount t \<Longrightarrow> entry t2 ! i = entry t ! i"
    using registerService_effect [OF assms(1) _ _ u, of name f arg] True by blast
  have r: "r = int (usedCount t)" "t' = t2" using assms(2) t2(1) by simp_all
  have n: "unat (of_nat (usedCount t) :: u32) = usedCount t" using u by (simp add: unat_of_nat)
  have d: "eax p = of_nat (usedCount t) \<or> systemCallHandler t2 p = systemCallHandler t p"
  proof (cases "unat (eax p) = usedCount t")
    case True
    then show ?thesis using n by (metis word_unat_eq_iff)
  next
    case False
    then show ?thesis using t2(6) by (simp add: systemCallHandler_def)
  qed
  show ?thesis
    using True r t2 n u d queryServiceN_services [OF t2(2) assms(3), of p q] by (simp add: systemCallHandler_def)
qed

definition noRegisters :: GeneralRegisters where
  "noRegisters = \<lparr>edi = 0, esi = 0, ebx = 0, edx = 0, ecx = 0, eax = 0\<rparr>"

lemma video_name: "isValidName (cstr [118, 105, 100, 101, 111])" "cname (cstr [118, 105, 100, 101, 111]) = [118, 105, 100, 101, 111]"
proof -
  have z: "cstr [118, 105, 100, 101, 111] 5 = 0" by (simp add: cstr_def)
  have n: "cstr [118, 105, 100, 101, 111] j \<noteq> 0" if "j < 5" for j
  proof -
    have "j = 0 \<or> j = 1 \<or> j = 2 \<or> j = 3 \<or> j = 4" using that by linarith
    then show ?thesis by (elim disjE) (simp_all add: cstr_def)
  qed
  note i = nameI [of "cstr [118, 105, 100, 101, 111]" 5, OF z n]
  show "isValidName (cstr [118, 105, 100, 101, 111])" using i(1) by simp
  have "cname (cstr [118, 105, 100, 101, 111]) = view (cstr [118, 105, 100, 101, 111]) 0 5" using i(2) by simp
  then show "cname (cstr [118, 105, 100, 101, 111]) = [118, 105, 100, 101, 111]"
    using view_cstr [of "[118, 105, 100, 101, 111]"] by (simp add: eval_nat_numeral)
qed

theorem service_registry_correct_witness:
  "\<exists>t t'. initSystemCall 1 0 (\<lambda>_. 3) 9 = Some t \<and> registerService t (cstr [118, 105, 100, 101, 111]) (2 :: nat) 7 = (32, t') \<and>
     systemCallHandler t' (noRegisters\<lparr>eax := 32\<rparr>) = Some (Call 2 7) \<and>
     systemCall_queryServiceN t' noRegisters (cstr [118, 105, 100, 101, 111]) 5 = Some 32"
proof -
  obtain t :: "nat SystemCallTable" where t: "initSystemCall 1 0 (\<lambda>_. 3) 9 = Some t" "table_inv t" "services t = Map.empty" "usedCount t = 32"
    using initSystemCall_inv [of "1 :: nat" 0 "\<lambda>_. 3" 9] by auto
  obtain r t' where r: "registerService t (cstr [118, 105, 100, 101, 111]) (2 :: nat) 7 = (r, t')" by force
  have "r = 32" using t r queryServiceIndex_services [OF t(2)] by (simp add: registerService_def video_name)
  then show ?thesis
    using service_registry_correct [OF t(2) r, of 5 noRegisters "cstr [118, 105, 100, 101, 111]"] t r
    by (auto simp: video_name)
qed

section \<open>Limits\<close>

text \<open>The number of a system call is a register of the caller, and a number out of range fails the assertion of the kernel.\<close>

lemma unknown_number_halts: "64 \<le> unat (eax p) \<Longrightarrow> systemCallHandler t p = None"
  by (simp add: systemCallHandler_def)

text \<open>The length given to \<open>systemCall_queryServiceN\<close> does not bound the name that is looked up.\<close>

lemma name_length_ignored:
  "m \<le> 16 \<Longrightarrow> n \<le> 16 \<Longrightarrow> systemCall_queryServiceN t p name m = systemCall_queryServiceN t p name n"
  by (simp add: systemCall_queryServiceN_def)

lemma copyReturnValues_effect:
  assumes "1 \<le> n" and "n \<le> 6" and "k < n"
  shows "\<exists>p'. copyReturnValues p rv n = Some p' \<and> [eax p', edx p', ecx p', ebx p', esi p', edi p'] ! k = rv k"
  using assms by (auto simp: copyReturnValues_def Let_def less_Suc_eq numeral_eq_Suc le_Suc_eq)

end
