(* ===== verification/ElfLoader.thy ===== *)
theory ElfLoader
  imports MemoryManager IPv4
begin

text \<open>
  The loader of programs, \<open>kernel/task/elfloader.c\<close>, with \<open>initUserLinearBlockManager\<close> of \<open>taskmanager.c\<close>. The loader checks the headers of a
  file, maps the pages of its segments and fills them. The file answers through arguments; addresses and sizes of the headers are words, so
  that their sums wrap around as in the source.
\<close>

section \<open>Headers\<close>

record ELFHeader32 =
  magic :: "u8 list"
  elfBits :: u8
  endianness :: u8
  elfType :: u16
  elfEntry :: u32
  programHeaderOffset :: u32
  elfHeaderSize :: u16
  programHeaderSize :: u16
  programHeaderLength :: u16

record ProgramHeader32 =
  segmentType :: u32
  offset :: u32
  memoryAddress :: u32
  segmentFileSize :: u32
  memorySize :: u32
  segmentFlags :: u32
  alignSize :: u32

definition loadELFHeader32 :: "bytes \<Rightarrow> ELFHeader32" where
  "loadELFHeader32 s = \<lparr>magic = view s 0 4, elfBits = s 4, endianness = s 5, elfType = u16at s 0x10, elfEntry = u32at s 0x18,
     programHeaderOffset = u32at s 0x1c, elfHeaderSize = u16at s 0x28, programHeaderSize = u16at s 0x2a, programHeaderLength = u16at s 0x2c\<rparr>"

definition loadHeaderAt :: "bytes \<Rightarrow> nat \<Rightarrow> ProgramHeader32" where
  "loadHeaderAt s i = \<lparr>segmentType = u32at s i, offset = u32at s (i + 4), memoryAddress = u32at s (i + 8), segmentFileSize = u32at s (i + 16),
     memorySize = u32at s (i + 20), segmentFlags = u32at s (i + 24), alignSize = u32at s (i + 28)\<rparr>"

definition programHeaderToPageAttribute :: "ProgramHeader32 \<Rightarrow> u32" where
  "programHeaderToPageAttribute ph = (if bit (segmentFlags ph) 1 then USER_WRITABLE_PAGE else USER_READ_ONLY_PAGE)"

definition checkELFHeader32 :: "ELFHeader32 \<Rightarrow> bool" where
  "checkELFHeader32 e = (\<not> (magic e ! 0 \<noteq> 0x7f \<or> magic e ! 1 \<noteq> 69 \<or> magic e ! 2 \<noteq> 76 \<or> magic e ! 3 \<noteq> 70 \<or>
     elfBits e \<noteq> 1 \<or> endianness e \<noteq> 1 \<or> elfType e \<noteq> 2 \<or> elfHeaderSize e \<noteq> 0x34 \<or> programHeaderSize e \<noteq> 32))"

text \<open>The pages of a segment, by the macros \<open>FLOOR\<close> and \<open>CEIL\<close> on words. An alignment of 0 is a division by zero, which the callers exclude.\<close>

definition phBegin :: "ProgramHeader32 \<Rightarrow> u32" where
  "phBegin ph = (memoryAddress ph div alignSize ph) * alignSize ph"

definition phEnd :: "ProgramHeader32 \<Rightarrow> u32" where
  "phEnd ph = ((memoryAddress ph + memorySize ph + (alignSize ph - 1)) div alignSize ph) * alignSize ph"

text \<open>The loop of \<open>checkAllocateProgramHeader32\<close> behind the headers \<open>prev\<close>. The outer \<open>None\<close> is the division by zero, which comes before the test of the
  type and of the alignment; the inner one is the result 0.\<close>

fun checkSegments :: "ProgramHeader32 list \<Rightarrow> ProgramHeader32 list \<Rightarrow> u32 \<Rightarrow> u32 \<Rightarrow> (u32 \<times> u32) option option" where
  "checkSegments prev [] programBegin programEnd = Some (Some (programBegin, programEnd))"
| "checkSegments prev (ph # phs) programBegin programEnd = do {
    kassert (alignSize ph \<noteq> 0);
    (if segmentType ph \<noteq> 1 then checkSegments (prev @ [ph]) phs programBegin programEnd
     else if alignSize ph = 0 \<or> alignSize ph mod 4096 \<noteq> 0 \<or> memorySize ph < segmentFileSize ph \<or> phBegin ph > phEnd ph then Some None
     else if list_ex (\<lambda>ph2. segmentType ph2 = 1 \<and> \<not> (phEnd ph2 \<le> phBegin ph \<or> phBegin ph2 \<ge> phEnd ph)) prev then Some None
     else checkSegments (prev @ [ph]) phs (min programBegin (phBegin ph)) (max programEnd (phEnd ph)))
  }"

definition checkAllocateProgramHeader32 :: "ProgramHeader32 list \<Rightarrow> (u32 \<times> u32) option option" where
  "checkAllocateProgramHeader32 phs = do {
    r \<leftarrow> checkSegments [] phs 0xffffffff 0;
    Some (case r of None \<Rightarrow> None | Some (b, e) \<Rightarrow> if b < e then Some (b, e) else None)
  }"

section \<open>Pages\<close>

text \<open>The addresses of user memory: \<open>USER_LINEAR_BLOCK_MANAGER_ADDRESS\<close>, \<open>HEAP_END\<close>, the sizes of a manager, and whether the task has
  a manager already.\<close>

record userLayout =
  managerAddress :: u32
  HEAP_END :: u32
  managerStructSize :: nat
  maxManagerSize :: nat
  hasLinear :: bool

definition initUserLinearBlockManager :: "userLayout \<Rightarrow> nat \<Rightarrow> u32 \<Rightarrow> u32 \<Rightarrow> memory \<Rightarrow> (bool \<times> memory) option" where
  "initUserLinearBlockManager L p beginAddr initEndAddr M =
    (if beginAddr mod 4096 \<noteq> 0 \<or> beginAddr \<ge> HEAP_END L \<or> initEndAddr mod 4096 \<noteq> 0 \<or> beginAddr > initEndAddr then Some (False, M)
     else do {
       kassert (\<not> hasLinear L);
       manageEnd \<leftarrow> evaluateLinearBlockEnd (blocks M p) (unat beginAddr) (unat initEndAddr);
       (ok, s) \<leftarrow> mapPage_L p (managerAddress L) (CEIL (manageEnd - unat (managerAddress L)) 4096) KERNEL_PAGE (tables M, pool M);
       if \<not> ok then Some (False, setTables s M)
       else do {
         lmb \<leftarrow> createLinearBlockManager (managerStructSize L) (blocks M p) (maxManagerSize L) (unat beginAddr) (unat initEndAddr) (unat (HEAP_END L));
         Some (True, setBlocks p lmb (setTables s M))
       }
     })"

definition findSegment :: "ProgramHeader32 list \<Rightarrow> u32 \<Rightarrow> ProgramHeader32 option" where
  "findSegment phs address = find (\<lambda>ph. segmentType ph = 1 \<and> address \<ge> phBegin ph \<and> address < phEnd ph) phs"

fun mapSegmentPages :: "nat \<Rightarrow> ProgramHeader32 list \<Rightarrow> u32 list \<Rightarrow> bool \<Rightarrow> memory \<Rightarrow> (bool \<times> memory) option" where
  "mapSegmentPages p phs [] ok M = Some (ok, M)"
| "mapSegmentPages p phs (address # pages) ok M = (case (if ok then findSegment phs address else None) of
      Some ph \<Rightarrow> do {
        (ok, s) \<leftarrow> mapPage_L p address PAGE_SIZE (programHeaderToPageAttribute ph) (tables M, pool M);
        let M = setTables s M;
        if ok then mapSegmentPages p phs pages True M
        else do {
          M \<leftarrow> releaseLinearM p (unat address) M;
          mapSegmentPages p phs pages False M
        }
      }
    | None \<Rightarrow> do {
        M \<leftarrow> releaseLinearM p (unat address) M;
        mapSegmentPages p phs pages ok M
      })"

text \<open>The pages from \<open>programBegin\<close> to \<open>programEnd\<close>, which are multiples of the page size.\<close>

definition mapAllocateProgramHeader32 :: "nat \<Rightarrow> ProgramHeader32 list \<Rightarrow> u32 \<Rightarrow> u32 \<Rightarrow> memory \<Rightarrow> (bool \<times> memory) option" where
  "mapAllocateProgramHeader32 p phs programBegin programEnd M =
    mapSegmentPages p phs (map (\<lambda>i. programBegin + of_nat (4096 * i)) [0..<DIV_CEIL (unat programEnd - unat programBegin) 4096]) True M"

section \<open>Contents\<close>

definition store :: "bytes \<Rightarrow> nat \<Rightarrow> u8 list \<Rightarrow> bytes" where
  "store mem a d = (\<lambda>x. if a \<le> x \<and> x < a + length d then d ! (x - a) else mem x)"

text \<open>\<open>setAllocateProgramHeader32\<close>: \<open>reads\<close> gives for every segment what is read into it, at most the size asked for, or a failure.\<close>

fun setAllocateProgramHeader32 :: "(ProgramHeader32 \<Rightarrow> u8 list option) \<Rightarrow> ProgramHeader32 list \<Rightarrow> bytes \<Rightarrow> bool \<times> bytes" where
  "setAllocateProgramHeader32 reads [] mem = (True, mem)"
| "setAllocateProgramHeader32 reads (ph # phs) mem =
    (if segmentType ph \<noteq> 1 then setAllocateProgramHeader32 reads phs mem
     else (case reads ph of
         None \<Rightarrow> (False, mem)
       | Some d \<Rightarrow> let mem = store mem (unat (memoryAddress ph)) d in
           if length d \<noteq> unat (segmentFileSize ph) then (False, mem)
           else setAllocateProgramHeader32 reads phs
             (memset mem (unat (memoryAddress ph + segmentFileSize ph)) 0 (unat (memorySize ph - segmentFileSize ph)))))"

section \<open>The loader\<close>

text \<open>What the file and the kernel answer, and the resources that are taken and given back.\<close>

record elfAnswers =
  openFile :: bool
  headerRead :: "u8 list option"
  headersAllocated :: bool
  headersRead :: "u8 list option"
  segmentReads :: "ProgramHeader32 \<Rightarrow> u8 list option"
  enterUser :: bool

datatype elfEvent = FileOpened | FileClosed | HeadersAllocated | HeadersReleased | UserMode u32 | Terminated

definition loadHeaders :: "u8 list \<Rightarrow> nat \<Rightarrow> ProgramHeader32 list" where
  "loadHeaders d n = map (\<lambda>i. loadHeaderAt (cstr d) (32 * i)) [0..<n]"

definition loadProgramHeader32 ::
    "elfAnswers \<Rightarrow> userLayout \<Rightarrow> nat \<Rightarrow> nat \<Rightarrow> memory \<times> bytes \<Rightarrow> (bool \<times> elfEvent list \<times> memory \<times> bytes) option" where
  "loadProgramHeader32 A L p n = (\<lambda>(M, mem).
    if \<not> headersAllocated A then Some (False, [], M, mem)
    else do {
      (ok, M, mem) \<leftarrow> (case headersRead A of
          None \<Rightarrow> Some (False, M, mem)
        | Some d \<Rightarrow> if length d \<noteq> 32 * n then Some (False, M, mem)
            else let phs = loadHeaders d n in do {
              r \<leftarrow> checkAllocateProgramHeader32 phs;
              (case r of None \<Rightarrow> Some (False, M, mem)
                | Some (programBegin, programEnd) \<Rightarrow> do {
                    (ok, M) \<leftarrow> initUserLinearBlockManager L p programBegin programEnd M;
                    if \<not> ok then Some (False, M, mem)
                    else do {
                      (ok, M) \<leftarrow> mapAllocateProgramHeader32 p phs programBegin programEnd M;
                      if \<not> ok then Some (False, M, mem)
                      else let (ok, mem) = setAllocateProgramHeader32 (segmentReads A) phs mem in Some (ok, M, mem)
                    }
                  })
            });
      Some (ok, [HeadersAllocated, HeadersReleased], M, mem)
    })"

definition elfLoader :: "elfAnswers \<Rightarrow> userLayout \<Rightarrow> nat \<Rightarrow> memory \<times> bytes \<Rightarrow> (elfEvent list \<times> memory \<times> bytes) option" where
  "elfLoader A L p s =
    (if \<not> openFile A then Some ([Terminated], s)
     else (case headerRead A of
         None \<Rightarrow> Some ([FileOpened, FileClosed, Terminated], s)
       | Some d \<Rightarrow> let h = loadELFHeader32 (cstr d) in
           if length d \<noteq> 0x34 \<or> \<not> checkELFHeader32 h then Some ([FileOpened, FileClosed, Terminated], s)
           else do {
             (ok, tr, s) \<leftarrow> loadProgramHeader32 A L p (unat (programHeaderLength h)) s;
             Some ([FileOpened] @ tr @ [FileClosed] @ (if ok \<and> enterUser A then [UserMode (elfEntry h)] else [Terminated]), s)
           }))"

section \<open>Layout\<close>

definition loads :: "ProgramHeader32 list \<Rightarrow> ProgramHeader32 list" where
  "loads phs = filter (\<lambda>ph. segmentType ph = 1) phs"

definition segment_ok :: "ProgramHeader32 \<Rightarrow> bool" where
  "segment_ok ph \<longleftrightarrow> alignSize ph mod 4096 = 0 \<and> segmentFileSize ph \<le> memorySize ph \<and> phBegin ph \<le> phEnd ph"

definition apart :: "ProgramHeader32 \<Rightarrow> ProgramHeader32 \<Rightarrow> bool" where
  "apart p q \<longleftrightarrow> phEnd p \<le> phBegin q \<or> phEnd q \<le> phBegin p"

definition layout_ok :: "ProgramHeader32 list \<Rightarrow> bool" where
  "layout_ok phs \<longleftrightarrow> list_all segment_ok (loads phs) \<and> sorted_wrt apart (loads phs)"

definition programBegin :: "ProgramHeader32 list \<Rightarrow> u32 \<Rightarrow> u32" where
  "programBegin phs b = fold (\<lambda>ph b. min b (phBegin ph)) (loads phs) b"

definition programEnd :: "ProgramHeader32 list \<Rightarrow> u32 \<Rightarrow> u32" where
  "programEnd phs e = fold (\<lambda>ph e. max e (phEnd ph)) (loads phs) e"

lemma loads_simps [simp]:
  "loads [] = []" "loads (ph # phs) = (if segmentType ph = 1 then ph # loads phs else loads phs)" "loads (phs @ phs') = loads phs @ loads phs'"
  by (simp_all add: loads_def)

lemma layout_Cons:
  "layout_ok (ph # phs) = (if segmentType ph = 1 then segment_ok ph \<and> (\<forall>q\<in>set (loads phs). apart ph q) \<and> layout_ok phs else layout_ok phs)"
  "programBegin (ph # phs) b = programBegin phs (if segmentType ph = 1 then min b (phBegin ph) else b)"
  "programEnd (ph # phs) e = programEnd phs (if segmentType ph = 1 then max e (phEnd ph) else e)"
  by (auto simp: layout_ok_def programBegin_def programEnd_def)

lemma checkSegments_correct:
  "list_all (\<lambda>ph. alignSize ph \<noteq> 0) phs \<Longrightarrow> checkSegments prev phs b e =
    Some (if layout_ok phs \<and> (\<forall>p\<in>set (loads prev). \<forall>q\<in>set (loads phs). apart p q) then Some (programBegin phs b, programEnd phs e) else None)"
proof (induction phs arbitrary: prev b e)
  case Nil
  then show ?case by (simp add: layout_ok_def programBegin_def programEnd_def)
next
  case (Cons ph phs)
  have a: "alignSize ph \<noteq> 0" "list_all (\<lambda>ph. alignSize ph \<noteq> 0) phs" using Cons.prems by simp_all
  note IH = Cons.IH [OF a(2)]
  show ?case
  proof (cases "segmentType ph = 1")
    case False
    then show ?thesis using a(1) IH [of "prev @ [ph]"] by (simp add: layout_Cons)
  next
    case True
    have over: "list_ex (\<lambda>ph2. segmentType ph2 = 1 \<and> \<not> (phEnd ph2 \<le> phBegin ph \<or> phEnd ph \<le> phBegin ph2)) prev \<longleftrightarrow>
        \<not> (\<forall>p\<in>set (loads prev). apart p ph)"
      by (auto simp: list_ex_iff loads_def apart_def)
    show ?thesis
    proof (cases "segment_ok ph \<and> (\<forall>p\<in>set (loads prev). apart p ph)")
      case False
      then have "checkSegments prev (ph # phs) b e = Some None" using a(1) True over by (auto simp: segment_ok_def not_le)
      then show ?thesis using False True by (simp only: layout_Cons loads_simps if_True) auto
    next
      case ok: True
      then have "checkSegments prev (ph # phs) b e = checkSegments (prev @ [ph]) phs (min b (phBegin ph)) (max e (phEnd ph))"
        using a(1) True over by (auto simp: segment_ok_def dest: leD)
      moreover have "layout_ok (ph # phs) \<and> (\<forall>p\<in>set (loads prev). \<forall>q\<in>set (loads (ph # phs)). apart p q) \<longleftrightarrow>
          layout_ok phs \<and> (\<forall>p\<in>set (loads (prev @ [ph])). \<forall>q\<in>set (loads phs). apart p q)"
        using ok True by (auto simp: layout_Cons)
      ultimately show ?thesis using IH [of "prev @ [ph]"] True by (simp add: layout_Cons(2,3))
    qed
  qed
qed

lemma program_bounds:
  assumes "ph \<in> set (loads phs)"
  shows "programBegin phs b \<le> phBegin ph" and "phEnd ph \<le> programEnd phs e"
proof -
  have min: "fold (\<lambda>ph b. min b (phBegin ph)) xs b \<le> b" for xs b
    by (induction xs arbitrary: b) (auto intro: order.trans [OF _ min.cobounded1])
  have max: "e \<le> fold (\<lambda>ph e. max e (phEnd ph)) xs e" for xs e
    by (induction xs arbitrary: e) (auto intro: order.trans [OF max.cobounded1])
  have "fold (\<lambda>ph b. min b (phBegin ph)) xs b \<le> phBegin ph" if "ph \<in> set xs" for xs b
    using that by (induction xs arbitrary: b) (auto intro: order.trans [OF min min.cobounded2])
  then show "programBegin phs b \<le> phBegin ph" using assms by (simp add: programBegin_def)
  have "phEnd ph \<le> fold (\<lambda>ph e. max e (phEnd ph)) xs e" if "ph \<in> set xs" for xs e
    using that by (induction xs arbitrary: e) (auto intro: order.trans [OF max.cobounded2 max])
  then show "phEnd ph \<le> programEnd phs e" using assms by (simp add: programEnd_def)
qed

text \<open>A segment whose end, rounded up, does not wrap around lies in its pages.\<close>

definition no_wrap :: "ProgramHeader32 \<Rightarrow> bool" where
  "no_wrap ph \<longleftrightarrow> unat (memoryAddress ph) + unat (memorySize ph) + unat (alignSize ph) \<le> 2 ^ 32"

lemma segment_pages:
  assumes "no_wrap ph" and "alignSize ph \<noteq> 0"
  shows "unat (phBegin ph) \<le> unat (memoryAddress ph)" and "unat (memoryAddress ph) + unat (memorySize ph) \<le> unat (phEnd ph)"
proof -
  let ?a = "unat (alignSize ph)" and ?m = "unat (memoryAddress ph)" and ?n = "unat (memorySize ph)"
  have a: "0 < ?a" using assms(2) by (simp add: unat_gt_0)
  have sum: "?m + ?n + ?a \<le> 2 ^ 32" using assms(1) by (simp add: no_wrap_def)
  have small: "?m div ?a * ?a < 2 ^ 32" using unsigned_less [of "memoryAddress ph", where 'a = nat] by (simp add: le_less_trans [OF div_times_less_eq_dividend])
  then have "unat (phBegin ph) = ?m div ?a * ?a"
    by (simp add: phBegin_def unat_word_ariths(2) unat_div_distrib)
  then show "unat (phBegin ph) \<le> ?m" by simp
  have 1: "unat (memoryAddress ph + memorySize ph + (alignSize ph - 1)) = ?m + ?n + (?a - 1)"
  proof -
    have "unat (memoryAddress ph + memorySize ph) = ?m + ?n" using sum a by (simp add: unat_word_ariths)
    moreover have "unat (alignSize ph - 1) = ?a - 1" using assms(2) by (simp add: unat_minus_one)
    ultimately show ?thesis using sum a by (simp add: unat_word_ariths)
  qed
  have "CEIL (?m + ?n) ?a \<le> ?m + ?n + (?a - 1)" by (simp add: CEIL_def FLOOR_def)
  then have "CEIL (?m + ?n) ?a < 2 ^ 32" using sum a by linarith
  then have "unat (phEnd ph) = CEIL (?m + ?n) ?a"
    by (simp add: phEnd_def unat_word_ariths(2) unat_div_distrib 1 CEIL_def FLOOR_def)
  then show "?m + ?n \<le> unat (phEnd ph)" using CEIL_ge [OF a, of "?m + ?n"] by simp
qed

section \<open>The image of a program\<close>

definition inSegment :: "ProgramHeader32 \<Rightarrow> nat \<Rightarrow> bool" where
  "inSegment ph x \<longleftrightarrow> unat (memoryAddress ph) \<le> x \<and> x < unat (memoryAddress ph) + unat (memorySize ph)"

text \<open>The data of the file, followed by zeros.\<close>

definition loaded :: "u8 list \<Rightarrow> ProgramHeader32 \<Rightarrow> bytes \<Rightarrow> bool" where
  "loaded d ph mem \<longleftrightarrow> view mem (unat (memoryAddress ph)) (unat (memoryAddress ph) + unat (memorySize ph)) =
     d @ replicate (unat (memorySize ph) - length d) 0"

lemma apart_segments:
  assumes "apart p q" and "no_wrap p" "alignSize p \<noteq> 0" and "no_wrap q" "alignSize q \<noteq> 0" and "inSegment p x"
  shows "\<not> inSegment q x"
  using assms(1,6) segment_pages [OF assms(2,3)] segment_pages [OF assms(4,5)]
  by (auto simp: apart_def inSegment_def word_le_nat_alt)

definition fillSegment :: "bytes \<Rightarrow> ProgramHeader32 \<Rightarrow> u8 list \<Rightarrow> bytes" where
  "fillSegment mem ph d = memset (store mem (unat (memoryAddress ph)) d) (unat (memoryAddress ph + segmentFileSize ph)) 0
     (unat (memorySize ph - segmentFileSize ph))"

lemma segment_written:
  assumes "no_wrap ph" and "alignSize ph \<noteq> 0" and "segmentFileSize ph \<le> memorySize ph" and "length d = unat (segmentFileSize ph)"
  shows "loaded d ph (fillSegment mem ph d)" and "\<not> inSegment ph x \<Longrightarrow> fillSegment mem ph d x = mem x"
proof -
  have a: "0 < unat (alignSize ph)" using assms(2) by (simp add: unat_gt_0)
  have f: "unat (segmentFileSize ph) \<le> unat (memorySize ph)" using assms(3) by (simp add: word_le_nat_alt)
  have s: "unat (memoryAddress ph + segmentFileSize ph) = unat (memoryAddress ph) + length d"
    using assms(1,4) a f by (simp add: no_wrap_def unat_word_ariths)
  have n: "unat (memorySize ph - segmentFileSize ph) = unat (memorySize ph) - length d"
    using assms(3,4) by (simp add: unat_sub)
  have m: "fillSegment mem ph d x = (if unat (memoryAddress ph) \<le> x \<and> x < unat (memoryAddress ph) + length d then d ! (x - unat (memoryAddress ph))
      else if inSegment ph x then 0 else mem x)" for x
    using f assms(4) unfolding fillSegment_def s n by (auto simp: memset_def memset_from_apply store_def inSegment_def)
  show "loaded d ph (fillSegment mem ph d)"
    unfolding loaded_def using f assms(4) by (auto simp: list_eq_iff_nth_eq m inSegment_def nth_append)
  show "fillSegment mem ph d x = mem x" if "\<not> inSegment ph x" using that f assms(4) by (auto simp: m inSegment_def)
qed

lemma loaded_cong:
  assumes "\<And>x. inSegment ph x \<Longrightarrow> mem' x = mem x" and "loaded d ph mem"
  shows "loaded d ph mem'"
proof -
  let ?a = "unat (memoryAddress ph)" and ?n = "unat (memorySize ph)"
  have "view mem' ?a (?a + ?n) = view mem ?a (?a + ?n)" using assms(1) by (auto simp: view_def inSegment_def)
  then show ?thesis using assms(2) by (simp add: loaded_def)
qed

lemma setAllocate_image:
  "layout_ok phs \<Longrightarrow> (\<forall>ph\<in>set (loads phs). no_wrap ph \<and> alignSize ph \<noteq> 0) \<Longrightarrow>
   (\<forall>ph\<in>set (loads phs). reads ph = Some (data ph) \<and> length (data ph) = unat (segmentFileSize ph)) \<Longrightarrow>
   \<exists>mem'. setAllocateProgramHeader32 reads phs mem = (True, mem') \<and> (\<forall>ph\<in>set (loads phs). loaded (data ph) ph mem') \<and>
     (\<forall>x. (\<forall>ph\<in>set (loads phs). \<not> inSegment ph x) \<longrightarrow> mem' x = mem x)"
proof (induction phs arbitrary: mem)
  case (Cons ph phs)
  show ?case
  proof (cases "segmentType ph = 1")
    case False
    then show ?thesis using Cons by (simp add: layout_Cons)
  next
    case True
    let ?mem = "fillSegment mem ph (data ph)"
    have ph: "no_wrap ph" "alignSize ph \<noteq> 0" "segmentFileSize ph \<le> memorySize ph" "reads ph = Some (data ph)" "length (data ph) = unat (segmentFileSize ph)"
      "layout_ok phs" "\<forall>q\<in>set (loads phs). apart ph q"
      using Cons.prems True by (auto simp: layout_Cons segment_ok_def)
    note w = segment_written [OF ph(1-3,5), where mem = mem]
    obtain mem' where r: "setAllocateProgramHeader32 reads phs ?mem = (True, mem')" "\<forall>ph\<in>set (loads phs). loaded (data ph) ph mem'"
      "\<forall>x. (\<forall>ph\<in>set (loads phs). \<not> inSegment ph x) \<longrightarrow> mem' x = ?mem x"
      using Cons.IH [OF ph(6), of ?mem] Cons.prems(2,3) True by auto
    have "mem' x = ?mem x" if "inSegment ph x" for x
      using r(3) apart_segments [OF _ ph(1,2) _ _ that] ph(7) Cons.prems(2) True by auto
    then have "loaded (data ph) ph mem'" using w(1) by (rule loaded_cong)
    then show ?thesis using r w(2) ph(4,5) True by (auto simp: Let_def fillSegment_def)
  qed
qed simp


definition exampleSegment :: "u32 \<Rightarrow> ProgramHeader32" where
  "exampleSegment a = \<lparr>segmentType = 1, offset = 0, memoryAddress = a, segmentFileSize = 2, memorySize = 4, segmentFlags = 2, alignSize = 0x1000\<rparr>"


section \<open>Resources and limits\<close>

text \<open>On every path on which the loader comes to an end the file that was opened is closed once, the headers that were allocated are released, and the task
  either enters user mode or terminates.\<close>

lemma elfLoader_resources:
  assumes "elfLoader A L p s = Some (tr, s')"
  shows "length (filter (\<lambda>e. e = FileOpened) tr) = length (filter (\<lambda>e. e = FileClosed) tr)"
    and "length (filter (\<lambda>e. e = HeadersAllocated) tr) = length (filter (\<lambda>e. e = HeadersReleased) tr)"
    and "last tr = Terminated \<or> (\<exists>a. last tr = UserMode a)"
proof -
  have t: "r = [] \<or> r = [HeadersAllocated, HeadersReleased]" if "loadProgramHeader32 A L p n u = Some (ok, r, u')" for n u ok r u'
    using that by (cases u) (auto simp: loadProgramHeader32_def split: if_splits bind_splits)
  have "(\<exists>r a. (r = [] \<or> r = [HeadersAllocated, HeadersReleased]) \<and> (a = Terminated \<or> (\<exists>x. a = UserMode x)) \<and>
      tr = [FileOpened] @ r @ [FileClosed, a]) \<or> tr = [Terminated]"
    using assms by (auto simp: elfLoader_def Let_def split: if_splits option.splits bind_splits dest!: t)
  then show "length (filter (\<lambda>e. e = FileOpened) tr) = length (filter (\<lambda>e. e = FileClosed) tr)"
    "length (filter (\<lambda>e. e = HeadersAllocated) tr) = length (filter (\<lambda>e. e = HeadersReleased) tr)"
    "last tr = Terminated \<or> (\<exists>a. last tr = UserMode a)" by auto
qed

text \<open>The range of a header is computed before its type and its alignment are looked at: a header with alignment 0, which the format allows, divides by zero.\<close>

lemma zero_alignment_faults: "alignSize ph = 0 \<Longrightarrow> checkAllocateProgramHeader32 (ph # phs) = None"
  by (simp add: checkAllocateProgramHeader32_def)

text \<open>A segment of almost the whole address space wraps around to an empty range of pages and is accepted; filling it clears memory far outside of the program.\<close>

lemma wrapped_segment_accepted:
  "checkAllocateProgramHeader32 [(exampleSegment 0x1000)\<lparr>segmentFileSize := 0, memorySize := 0xffffffff\<rparr>, exampleSegment 0x2000] = Some (Some (0x1000, 0x3000))"
  "snd (setAllocateProgramHeader32 (\<lambda>_. Some []) [(exampleSegment 0x1000)\<lparr>segmentFileSize := 0, memorySize := 0xffffffff\<rparr>] mem) 0xc0000000 = 0"
  by (simp_all add: checkAllocateProgramHeader32_def exampleSegment_def phBegin_def phEnd_def memset_def memset_from_apply)

end
