(* ===== verification/Spec2Isabelle.thy ===== *)
theory Spec2Isabelle
  imports Slab Timer Dhcp TcpListener TcpSocket Fat IORequest FifoFile KernelFile FileService Partition MemoryManager ConsoleCommand SystemCallTable ElfLoader
begin

text \<open>
  A verification library for the C sources of Homemade-OS-3, a 32 bit x86 kernel with a small network stack.

  \<^bold>\<open>The program.\<close> The kernel manages memory in layers: a buddy allocator (\<open>kernel/memory/buddy.c\<close>) is the base of the managers of physical
  frames, which count references (\<open>physicalblock.c\<close>), and of linear addresses (\<open>linearblock.c\<close>); page tables connect the two
  (\<open>page.c\<close>), and a slab allocator (\<open>slab.c\<close>) cuts pages into small units. Tasks are scheduled from priority queues
  (\<open>kernel/task/taskmanager.c\<close>) and block on semaphores and reader-writer locks (\<open>exclusivelock.c\<close>). System calls create I/O
  requests, which drivers complete or cancel while the task waits for them; files (\<open>kernel/file/file.c\<close>), timers (\<open>kernel/io/timer.c\<close>), FIFO
  buffers (\<open>fifoarray.c\<close>), FIFO files (\<open>fifofile.c\<close>), files linked into the kernel (\<open>kernelfs.c\<close>), the FAT32 file system (\<open>fat.c\<close>) and lists of
  resources (\<open>kernel/resource/resource.c\<close>) are built on them. The network stack (\<open>kernel/io/network\<close>) has IP sockets, UDP, an ARP server, a DHCP
  client and TCP, each socket being served by tasks of its own.

  \<^bold>\<open>Conventions.\<close> A 32 bit integer whose wrap-around matters is a \<open>32 word\<close>, other sizes and indices are \<open>nat\<close>. A C structure is a record with
  the fields of the source; an object behind a pointer is named by its address or a number, and a heap is a function from names to
  contents. The result \<open>None\<close> of an operation is a failed \<open>assert\<close>, a \<open>panic\<close>, or memory used outside its bounds or after its release
  (\<open>Prelude.kassert\<close>). Memory allocation, other tasks and devices answer through arguments of the operations, so that a theorem holds for
  every answer. A critical section is one step; interleavings are sequences of steps or an inductive step relation. An intrusive queue is
  the list of its elements, which \<open>DQueue\<close> justifies once at pointer level.

  \<^bold>\<open>The theories and what they show.\<close>
  \<^item> \<open>Prelude\<close>: machine types, failed assertions, byte memory, rounding macros of \<open>lib/common.h\<close>.
  \<^item> \<open>CommonLib\<close> (\<open>lib/common.c\<close>): \<open>memset\<close>, \<open>memcpy\<close>, string comparison, byte order, wildcard matching. Wildcard matching agrees with a recursive
    reference whose first segment is not anchored; changing the byte order twice is the identity.
  \<^item> \<open>DQueue\<close> (\<open>lib/common.h\<close>): the \<open>DQUEUE\<close> macros on a pointer heap refine lists. Locale \<open>intrusive_queues\<close>, interpretation \<open>dq\<close>.
  \<^item> \<open>Buddy\<close> (\<open>buddy.c\<close>): allocation, splitting, release and merging keep a partition of memory into free and allocated blocks; an allocation
    fails only without a free run; releasing restores the free memory. Locale \<open>block_allocator\<close>, interpretation \<open>buddy\<close>.
  \<^item> \<open>PhysicalBlock\<close> (\<open>physicalblock.c\<close>, \<open>referencecount.c\<close>): reference counts of frames; a block with \<open>c\<close> references is free after \<open>c\<close> releases.
    Locale \<open>frame_pool\<close> is what the page tables rely on, interpretation \<open>fp\<close>.
  \<^item> \<open>LinearBlock\<close> (\<open>linearblock.c\<close>): statuses of blocks, growth on demand, release with the lock given up in between. A locked block
    survives every interleaving of other threads; the growth computed for a request suffices.
  \<^item> \<open>Paging\<close> (\<open>page.c\<close>): directory and table entries, creation of page tables, mapping and unmapping of ranges, also onto contiguous
    frames. Mapping a range is atomic, gives every page a fresh frame, leaves the rest of the mapping alone and accounts for every reference; unmapping reverts it.
  \<^item> \<open>MemoryManager\<close> (\<open>memorymanager.c\<close>): allocation and release of mapped pages, and the managers built from the memory map of the firmware.
    An allocation reserves a linear block and maps all of its pages or changes neither; releasing it gives both back.
  \<^item> \<open>Slab\<close> (\<open>slab.c\<close>): units are disjoint, aligned and inside their page; a page is returned exactly when its last unit is.
  \<^item> \<open>TaskQueue\<close> (\<open>taskmanager.c\<close>): circular queues on pointers are first-in first-out (locale \<open>fifo_queue\<close>, interpretation \<open>tq\<close>); the scheduler
    loses no task and picks one of the best priority, in turn.
  \<^item> \<open>Locks\<close> (\<open>exclusivelock.c\<close>, \<open>spinlock.c\<close>): semaphores neither lose nor invent units; reader-writer locks exclude as long as readers
    are released one at a time, and a release among several readers lets a writer in.
  \<^item> \<open>IORequest\<close> (\<open>taskmanager.c\<close>): pending, completing, cancelling and waiting as a step relation; a request is in one state at a time and no
    wake-up is lost.
  \<^item> \<open>Timer\<close> (\<open>timer.c\<close>): events fire after the given number of ticks and not before, counters wrapping around.
  \<^item> \<open>Fifo\<close> (\<open>fifoarray.c\<close>): the ring buffer refines a bounded list. Locale \<open>bounded_queue\<close>, interpretation \<open>fb\<close>.
  \<^item> \<open>FifoFile\<close> (\<open>fifofile.c\<close>): elements are delivered once and in order; second interpretation \<open>fl\<close> of \<open>fifo_queue\<close>.
  \<^item> \<open>KernelFile\<close> (\<open>kernelfs.c\<close>): lookup, reading and enumeration of the linked files.
  \<^item> \<open>Resource\<close> (\<open>resource.c\<close>): enumerators deliver every resource once, whatever is added or deleted meanwhile.
  \<^item> \<open>FileService\<close> (\<open>file.c\<close>): file systems, opened files and their requests; in every interleaving the counter of a file is the number of
    its outstanding requests and nothing is used after its release.
  \<^item> \<open>Partition\<close> (\<open>file.c\<close>): partition tables of any disk are read in finitely many steps and only partitions within the disk are registered.
  \<^item> \<open>Fat\<close> (\<open>fat.c\<close>): reading through cluster chains, resolving paths, short names, shared files with reference counts.
  \<^item> \<open>Printk\<close> (\<open>printk.c\<close>): number conversion, \<open>snprintf\<close> stays within its buffer, \<open>sscanf\<close> reads printed numbers back.
  \<^item> \<open>Keyboard\<close> (\<open>keyboard.c\<close>): scan codes and mouse bytes become events in a FIFO; the codes of any sequence of keys are decoded to these keys.
  \<^item> \<open>Console\<close>, \<open>ConsoleCommand\<close> (\<open>console.c\<close>): the display refines a scrolling terminal, as seen through the registers of its controller; the command
    line delivers exactly the entered lines to its readers.
  \<^item> \<open>SystemCallTable\<close> (\<open>interrupt/systemcalltable.c\<close>): the table of services refines a map from names to numbers, also for queries whose names are
    passed in registers.
  \<^item> \<open>ElfLoader\<close> (\<open>task/elfloader.c\<close>): the check of program headers accepts exactly the layouts of separate segments, and an accepted program is
    loaded as its file describes.
  \<^item> \<open>IPv4\<close>, \<open>SocketArgs\<close>, \<open>IPSocket\<close> (\<open>internet.c\<close>): packets and checksums, socket names, the queues of requests and received packets.
  \<^item> \<open>Udp\<close> (\<open>udp.c\<close>), \<open>Dhcp\<close> (\<open>arp.c\<close>, \<open>dhcp.c\<close>): packets, their parsers and transactions.
  \<^item> \<open>TcpReceive\<close>, \<open>TcpTransmit\<close>, \<open>Tcp\<close>, \<open>TcpListener\<close>, \<open>TcpSocket\<close> (\<open>tcp.c\<close>): the two windows, segments as packets, handshakes, the listener, the loop
    of the socket task. Over a network that reorders, repeats and drops packets the reader gets a prefix of what the writer wrote.

  \<^bold>\<open>Composition.\<close> \<open>Paging\<close> uses only the laws of \<open>frame_pool\<close>; \<open>LinearBlock\<close> and \<open>PhysicalBlock\<close> rest on the lemmas of \<open>Buddy\<close>; \<open>MemoryManager\<close>
  composes all three and \<open>ElfLoader\<close> maps programs with it; \<open>FileService\<close> runs on the
  steps of \<open>IORequest\<close>; \<open>Partition\<close> registers through \<open>Resource\<close> and reads the disk of \<open>Fat\<close>; \<open>Udp\<close>, \<open>Dhcp\<close> and the TCP theories on \<open>IPv4\<close>;
  \<open>ConsoleCommand\<close> runs on the display of \<open>Console\<close>, the keys of \<open>Keyboard\<close> and the buffers of \<open>Fifo\<close>;
  \<open>TcpTransmit\<close> composes both windows over a network, \<open>TcpSocket\<close> the windows with the packets and timers of the task.

  \<^bold>\<open>Bounds and fuel.\<close> Sizes of the source are kept: blocks of \<open>2 ^ 12\<close> to \<open>2 ^ 30\<close> bytes, 1024 entries per table and ranges of at most \<open>2 ^ 20\<close> pages (the
  whole address space), timer counters modulo \<open>2 ^ 50\<close>, TCP windows of 8192 bytes and five attempts of a handshake, ten waiting SYN packets.
  Statements on whole TCP streams assume fewer than \<open>3 * 2 ^ 30\<close> bytes, so that a sequence number stands for one position. FAT reads stay
  one cluster below 4 GiB, the largest file of the format. \<open>handleLoop\<close> takes one round more than there are events, \<open>closeLoop\<close> one more than
  there are elements; both are proved to be enough. Video memory holds two screens of 25 lines of 80 cells, a command line 159 characters; what is entered on
  the console while its statement holds fits into the 1024 bytes of its buffer.

  \<^bold>\<open>Not modelled.\<close> Device drivers and interrupt controllers (\<open>ahci.c\<close>, \<open>i8254x.c\<close>, \<open>video.c\<close>, \<open>pci.c\<close>, \<open>cmos.c\<close>, \<open>bios.c\<close>,
  \<open>timer8254.c\<close>, interrupt controllers and descriptors) work on device registers; processor start, creation of page managers
  before paging is on (\<open>initKernelMemory\<close>), segment tables and inline assembly have no C semantics; the user
  library and programs wrap system calls; the test code under \<open>NDEBUG\<close> is not part of the kernel.
\<close>

end
